(* ===== verification/Prelude.thy ===== *)
theory Prelude
  imports "HOL-Library.Word" "HOL-Library.Monad_Syntax"
begin

unbundle bit_operations_syntax

text \<open>
  Shared vocabulary of the development.

  Machine integers.  A Rust \<open>u64\<close> or \<open>usize\<close> whose bits the code inspects is a
  \<open>64 word\<close>.  One that is only counted, compared or used as an address is a natural number with the
  overflow check of the build written out (\<open>add64\<close>, \<open>sub64\<close>, \<open>mul64\<close>): the kernel is built by
  \<^verbatim>\<open>cargo run\<close> with the \<open>dev\<close> profile of \<^verbatim>\<open>Cargo.toml\<close>, in which an arithmetic overflow panics.

  Panics.  A function that can panic (an index out of range, an overflow) returns an \<open>option\<close> whose
  \<open>None\<close> is the panic; the operations are sequenced with the \<open>do\<close> notation, so that the first panic
  ends the computation as it halts the kernel.  A Rust \<open>Option\<close> result is a second \<open>option\<close> inside.

  The theory also has the bit scans of Rust's integers, page alignment, loops over ranges, and the
  lemmas on them that the components share.
\<close>

type_synonym u64 = "64 word"
type_synonym u32 = "32 word"
type_synonym u16 = "16 word"
type_synonym u8 = "8 word"

text \<open>\<open>util::KError\<close>, the error type of the kernel's subsystems.\<close>

datatype KError = NotFound | AlreadyExists | Invalid | PermissionDenied | NoMemory | Busy
  | NotSupported | IO | WouldBlock | OutOfRange | Timeout | NoChild | NotEmpty | BrokenPipe
  | NotADirectory | IsADirectory

text \<open>\<open>KResult<T>\<close> is \<open>Result<T, KError>\<close>: \<open>Inl\<close> is \<open>Err\<close>, \<open>Inr\<close> is \<open>Ok\<close>.\<close>

type_synonym 'a KResult = "KError + 'a"

subsection \<open>Checked and saturating arithmetic\<close>

definition U64_MAX :: nat where
  "U64_MAX = 2 ^ 64 - 1"

definition add64 :: "nat \<Rightarrow> nat \<Rightarrow> nat option" where
  "add64 a b = (if a + b \<le> U64_MAX then Some (a + b) else None)"

definition sub64 :: "nat \<Rightarrow> nat \<Rightarrow> nat option" where
  "sub64 a b = (if b \<le> a then Some (a - b) else None)"

definition mul64 :: "nat \<Rightarrow> nat \<Rightarrow> nat option" where
  "mul64 a b = (if a * b \<le> U64_MAX then Some (a * b) else None)"

definition saturating_add64 :: "nat \<Rightarrow> nat \<Rightarrow> nat" where
  "saturating_add64 a b = min (a + b) U64_MAX"

definition saturating_sub :: "nat \<Rightarrow> nat \<Rightarrow> nat" where
  "saturating_sub a b = a - b"

text \<open>The atomics' \<open>fetch_add\<close> and \<open>fetch_sub\<close> wrap around.\<close>

definition fetch_add64 :: "nat \<Rightarrow> nat \<Rightarrow> nat" where
  "fetch_add64 x n = (x + n) mod 2 ^ 64"

definition fetch_sub64 :: "nat \<Rightarrow> nat \<Rightarrow> nat" where
  "fetch_sub64 x n = (x + 2 ^ 64 - n) mod 2 ^ 64"

subsection \<open>Slices: an index out of range panics\<close>

definition idx :: "'a list \<Rightarrow> nat \<Rightarrow> 'a option" where
  "idx xs i = (if i < length xs then Some (xs ! i) else None)"

definition set_idx :: "'a list \<Rightarrow> nat \<Rightarrow> 'a \<Rightarrow> 'a list option" where
  "set_idx xs i v = (if i < length xs then Some (xs[i := v]) else None)"

text \<open>A \<open>for\<close> loop over a list whose body can panic.\<close>

fun for_each :: "('a \<Rightarrow> 's \<Rightarrow> 's option) \<Rightarrow> 'a list \<Rightarrow> 's \<Rightarrow> 's option" where
  "for_each f [] s = Some s"
| "for_each f (x # xs) s = Option.bind (f x s) (for_each f xs)"

text \<open>\<open>iter().position(p)\<close>.\<close>

fun position :: "('a \<Rightarrow> bool) \<Rightarrow> 'a list \<Rightarrow> nat option" where
  "position p [] = None"
| "position p (x # xs) = (if p x then Some 0 else map_option Suc (position p xs))"

text \<open>\<open>Vec::remove(i)\<close> and \<open>VecDeque::remove(i)\<close> for an index in range.\<close>

definition remove_at :: "nat \<Rightarrow> 'a list \<Rightarrow> 'a list" where
  "remove_at i xs = take i xs @ drop (Suc i) xs"

subsection \<open>Bit scans of a 64-bit integer\<close>

definition trailing_zeros :: "u64 \<Rightarrow> nat" where
  "trailing_zeros w = length (takeWhile (\<lambda>i. \<not> bit w i) [0..<64])"

definition leading_zeros :: "u64 \<Rightarrow> nat" where
  "leading_zeros w = length (takeWhile (\<lambda>i. \<not> bit w i) (rev [0..<64]))"

subsection \<open>Pages\<close>

definition PAGE_SIZE :: nat where
  "PAGE_SIZE = 4096"

text \<open>\<open>a & !0xFFF\<close>; \<open>unat_page_mask\<close> below is the equation with the bitwise expression.\<close>

definition align_down :: "nat \<Rightarrow> nat" where
  "align_down a = a - a mod PAGE_SIZE"

text \<open>\<open>(a + 0xFFF) & !0xFFF\<close>, with the overflow check of the addition.\<close>

definition align_up :: "nat \<Rightarrow> nat option" where
  "align_up a = map_option align_down (add64 a 4095)"

subsection \<open>Bytes and signed integers\<close>

text \<open>\<open>to_ne_bytes\<close> and \<open>from_ne_bytes\<close> on the little-endian target, on the value as a natural number.\<close>

definition le_bytes :: "nat \<Rightarrow> nat \<Rightarrow> u8 list" where
  "le_bytes n x = map (\<lambda>i. word_of_nat (x div 256 ^ i)) [0..<n]"

fun of_le_bytes :: "u8 list \<Rightarrow> nat" where
  "of_le_bytes [] = 0"
| "of_le_bytes (b # bs) = unat b + 256 * of_le_bytes bs"

text \<open>Two's complement: the casts to \<open>i32\<close> and \<open>i64\<close>, and from \<open>i64\<close> to \<open>u64\<close>.\<close>

definition wrap_i32 :: "int \<Rightarrow> int" where
  "wrap_i32 z = (z + 2 ^ 31) mod 2 ^ 32 - 2 ^ 31"

definition wrap_i64 :: "int \<Rightarrow> int" where
  "wrap_i64 z = (z + 2 ^ 63) mod 2 ^ 64 - 2 ^ 63"

definition i64_as_u64 :: "int \<Rightarrow> nat" where
  "i64_as_u64 z = nat (z mod 2 ^ 64)"

named_theorems arith64 \<open>definitions of the checked arithmetic\<close>

declare add64_def [arith64] sub64_def [arith64] mul64_def [arith64]
declare saturating_add64_def [arith64] saturating_sub_def [arith64]

lemma idx_Some [simp]: "i < length xs \<Longrightarrow> idx xs i = Some (xs ! i)"
  by (simp add: idx_def)

lemma idx_None [simp]: "length xs \<le> i \<Longrightarrow> idx xs i = None"
  by (simp add: idx_def)

lemma set_idx_Some [simp]: "i < length xs \<Longrightarrow> set_idx xs i v = Some (xs[i := v])"
  by (simp add: set_idx_def)

lemma set_idx_None [simp]: "length xs \<le> i \<Longrightarrow> set_idx xs i v = None"
  by (simp add: set_idx_def)

text \<open>A loop whose body never panics under an invariant it keeps is a \<open>fold\<close>.\<close>

lemma for_each_fold:
  assumes step: "\<And>x s. x \<in> set xs \<Longrightarrow> P s \<Longrightarrow> f x s = Some (g x s) \<and> P (g x s)"
    and init: "P s"
  shows "for_each f xs s = Some (fold g xs s) \<and> P (fold g xs s)"
  using assms by (induction xs arbitrary: s) auto

lemma for_each_append: "for_each f (xs @ ys) s = Option.bind (for_each f xs s) (for_each f ys)"
  by (induction xs arbitrary: s) (auto split: bind_splits)

lemma position_Some:
  "position p xs = Some i \<longleftrightarrow> i < length xs \<and> p (xs ! i) \<and> (\<forall>j < i. \<not> p (xs ! j))"
proof (induction xs arbitrary: i)
  case Nil
  then show ?case by simp
next
  case (Cons x xs)
  then show ?case by (cases i) (auto simp: less_Suc_eq_0_disj)
qed

lemma position_None: "position p xs = None \<longleftrightarrow> (\<forall>x \<in> set xs. \<not> p x)"
  by (induction xs) auto

lemma takeWhile_upt_length:
  assumes "k < n" and "P k" and "\<And>i. i < k \<Longrightarrow> \<not> P i"
  shows "length (takeWhile (\<lambda>i. \<not> P i) [0..<n]) = k"
proof -
  have "[0..<n] = [0..<k] @ [k..<n]"
    using assms(1) by (metis le_add_diff_inverse less_imp_le upt_add_eq_append zero_le)
  moreover have "takeWhile (\<lambda>i. \<not> P i) [k..<n] = []"
    using assms(1,2) by (simp add: upt_conv_Cons)
  ultimately show ?thesis
    using assms(3) by (simp add: takeWhile_append)
qed

lemma word_eq_0_iff_bit: "(w :: u64) = 0 \<longleftrightarrow> (\<forall>i < 64. \<not> bit w i)"
  by (auto simp: bit_eq_iff dest: bit_imp_le_length)

lemma trailing_zeros_props:
  assumes "w \<noteq> 0"
  shows "trailing_zeros w < 64" "bit w (trailing_zeros w)"
    "\<And>i. i < trailing_zeros w \<Longrightarrow> \<not> bit w i"
proof -
  define k where "k = (LEAST i. bit w i)"
  obtain i where i: "i < 64" "bit w i"
    using assms word_eq_0_iff_bit by blast
  have k: "bit w k" unfolding k_def by (rule LeastI) (rule i(2))
  have min: "\<not> bit w j" if "j < k" for j
    using that not_less_Least unfolding k_def by blast
  have "k < 64" using k bit_imp_le_length by fastforce
  then have "trailing_zeros w = k"
    unfolding trailing_zeros_def using k min by (intro takeWhile_upt_length)
  then show "trailing_zeros w < 64" "bit w (trailing_zeros w)"
    "\<And>i. i < trailing_zeros w \<Longrightarrow> \<not> bit w i"
    using \<open>k < 64\<close> k min by auto
qed

text \<open>The highest set bit is bit \<open>63 - leading_zeros\<close>.\<close>

lemma leading_zeros_eq:
  assumes "k < 64" and "bit w k" and "\<And>i. k < i \<Longrightarrow> \<not> bit w i"
  shows "leading_zeros w = 63 - k"
proof -
  have "[0..<64] = [0..<k] @ k # [Suc k..<64]"
    using assms(1) by (metis le_add_diff_inverse less_imp_le upt_add_eq_append upt_conv_Cons zero_le)
  then have "rev [0..<64] = rev [Suc k..<64] @ k # rev [0..<k]"
    by simp
  then show ?thesis
    using assms by (simp add: leading_zeros_def takeWhile_append)
qed

lemma unat_page_mask: "unat (w AND NOT 0xFFF :: u64) = align_down (unat w)"
proof -
  have m: "(0xFFF :: u64) = mask 12" by (simp add: mask_eq_exp_minus_1)
  have "w AND NOT 0xFFF = push_bit 12 (drop_bit 12 w)"
    unfolding m by (rule bit_word_eqI) (auto simp: bit_simps)
  also have "\<dots> = drop_bit 12 w * 4096"
    by (simp add: push_bit_eq_mult)
  finally have "unat (w AND NOT 0xFFF) = unat (drop_bit 12 w * 4096)" by simp
  also have "unat (drop_bit 12 w) = unat w div 4096"
    by (simp add: drop_bit_eq_div unat_div)
  then have "unat (drop_bit 12 w * 4096) = unat w div 4096 * 4096"
    using le_less_trans [OF div_times_less_eq_dividend unsigned_less [of w]]
    by (simp add: unat_word_ariths(2))
  finally show ?thesis
    by (simp add: align_down_def PAGE_SIZE_def minus_mod_eq_div_mult)
qed

lemma align_down_le [simp]: "align_down a \<le> a"
  by (simp add: align_down_def)

lemma align_down_dvd [simp]: "PAGE_SIZE dvd align_down a"
  by (simp add: align_down_def dvd_minus_mod)

lemma align_up_dvd: "align_up a = Some b \<Longrightarrow> PAGE_SIZE dvd b"
  by (auto simp: align_up_def)

lemma align_up_ge:
  assumes "align_up a = Some b"
  shows "a \<le> b \<and> b < a + PAGE_SIZE"
proof -
  from assms have "b = (a + 4095) - (a + 4095) mod 4096"
    by (auto simp: align_up_def add64_def align_down_def PAGE_SIZE_def split: if_splits)
  moreover have "(a + 4095) mod 4096 < 4096" by simp
  ultimately show ?thesis unfolding PAGE_SIZE_def by linarith
qed

text \<open>Two different multiples of \<open>p\<close> are at least \<open>p\<close> apart.\<close>

lemma multiples_apart:
  fixes a b p :: nat
  assumes "a mod p = 0" and "b mod p = 0" and "a < b"
  shows "a + p \<le> b"
proof -
  obtain k j where kj: "a = p * k" "b = p * j" using assms(1,2) by (metis dvd_def mod_eq_0_iff_dvd)
  then have "Suc k \<le> j" using assms(3) by (metis Suc_leI mult_less_cancel1)
  then have "p * Suc k \<le> p * j" by (rule mult_le_mono2)
  then show ?thesis using kj by simp
qed

lemma length_le_bytes [simp]: "length (le_bytes n x) = n"
  by (simp add: le_bytes_def)

lemma le_bytes_Suc: "le_bytes (Suc n) x = word_of_nat x # le_bytes n (x div 256)"
  by (simp add: le_bytes_def upt_conv_Cons map_Suc_upt [symmetric] div_mult2_eq [symmetric] del: upt_Suc)

lemma of_le_bytes_le_bytes: "x < 256 ^ n \<Longrightarrow> of_le_bytes (le_bytes n x) = x"
proof (induction n arbitrary: x)
  case 0
  then show ?case by (simp add: le_bytes_def)
next
  case (Suc n)
  then have "x div 256 < 256 ^ n" by (simp add: less_mult_imp_div_less mult.commute)
  then show ?case
    using Suc.IH by (simp add: le_bytes_Suc unat_of_nat take_bit_eq_mod)
qed

lemma unat_u8_less: "unat (b :: u8) < 256"
  by (rule unsigned_less [THEN order_less_le_trans]) simp

lemma of_le_bytes_less: "of_le_bytes bs < 256 ^ length bs"
proof (induction bs)
  case (Cons b bs)
  then show ?case using unat_u8_less [of b] by simp
qed simp

lemma le_bytes_of_le_bytes: "le_bytes (length bs) (of_le_bytes bs) = bs"
proof (induction bs)
  case (Cons b bs)
  have "(unat b + 256 * of_le_bytes bs) div 256 = of_le_bytes bs"
    using unat_u8_less [of b] by simp
  moreover have "word_of_nat (unat b + 256 * of_le_bytes bs) = (word_of_nat (unat b) :: u8)"
    by (simp add: word_of_nat_eq_iff take_bit_eq_mod del: of_nat_add of_nat_mult unsigned_of_nat of_nat_unat)
  ultimately show ?case using Cons by (simp add: le_bytes_Suc)
qed (simp add: le_bytes_def)

lemma wrap_i64_id: "- (2 ^ 63) \<le> z \<Longrightarrow> z < 2 ^ 63 \<Longrightarrow> wrap_i64 z = z"
  by (simp add: wrap_i64_def)

lemma wrap_i32_id: "- (2 ^ 31) \<le> z \<Longrightarrow> z < 2 ^ 31 \<Longrightarrow> wrap_i32 z = z"
  by (simp add: wrap_i32_def)

lemma wrap_i64_range: "- (2 ^ 63) \<le> wrap_i64 z \<and> wrap_i64 z < 2 ^ 63"
  using pos_mod_bound [of "2 ^ 64" "z + 2 ^ 63"] by (simp add: wrap_i64_def)

lemma i64_as_u64_less: "i64_as_u64 z < 256 ^ 8"
  using pos_mod_bound [of "2 ^ 64" z] by (simp add: i64_as_u64_def nat_less_iff)

lemma wrap_i64_mod: "wrap_i64 (z mod 2 ^ 64) = wrap_i64 z"
  by (simp add: wrap_i64_def mod_add_left_eq)

lemma wrap_i64_u64: "- (2 ^ 63) \<le> z \<Longrightarrow> z < 2 ^ 63 \<Longrightarrow> wrap_i64 (int (i64_as_u64 z)) = z"
  using wrap_i64_mod [of z] wrap_i64_id [of z] by (simp add: i64_as_u64_def)

lemma i64_as_u64_wrap: "n < 2 ^ 64 \<Longrightarrow> i64_as_u64 (wrap_i64 (int n)) = n"
proof -
  assume "n < 2 ^ 64"
  have "wrap_i64 (int n) mod 2 ^ 64 = (int n + 2 ^ 63 - 2 ^ 63) mod 2 ^ 64"
    unfolding wrap_i64_def by (rule mod_diff_left_eq)
  then show ?thesis using \<open>n < 2 ^ 64\<close> by (simp add: i64_as_u64_def)
qed

end
