(* ===== verification/Phys.thy ===== *)
theory Phys
  imports Prelude
begin

text \<open>
  Physical memory, \<^verbatim>\<open>kernel/src/mm/phys.rs\<close>: the early allocator that hands out the usable frames of
  the boot memory map in order, and the bitmap allocator that takes over (one bit per 4 KiB frame, set
  when the frame is used) with its single-frame, contiguous and huge-page operations.

  A \<open>PhysFrame<S>\<close> is represented by its start address, a natural number; \<open>containing_address\<close> rounds
  an address down to a frame of the given size, as the \<open>x86_64\<close> crate documents.  The lemmas relate the bitmap to the
  abstract set \<open>free_set\<close> of free frame numbers: the invariant \<open>phys_inv\<close> says that the bitmap has one
  bit per frame, that its padding bits stay set and that the counter \<open>free_frames\<close> counts the free
  bits; every operation keeps it and changes the free set as its contract says.  The locale
  \<open>frame_allocator\<close> states that contract for the clients in other theories.
\<close>

type_synonym phys_frame = nat

definition containing_address :: "nat \<Rightarrow> nat \<Rightarrow> phys_frame" where
  "containing_address sz a = a - a mod sz"

datatype MemoryRegionKind = Usable | Bootloader | UnknownUefi nat | UnknownBios nat

record MemoryRegion =
  region_start :: nat
  region_end :: nat
  region_kind :: MemoryRegionKind

subsection \<open>The early allocator\<close>

record BootInfoFrameAllocator =
  memory_regions :: "MemoryRegion list"
  next_frame :: nat

definition early_new :: "MemoryRegion list \<Rightarrow> BootInfoFrameAllocator" where
  "early_new rs = \<lparr>memory_regions = rs, next_frame = 0\<rparr>"

definition allocated_count :: "BootInfoFrameAllocator \<Rightarrow> nat" where
  "allocated_count e = next_frame e"

text \<open>\<open>(start..end).step_by(4096)\<close>.\<close>

definition step_range :: "nat \<Rightarrow> nat \<Rightarrow> nat list" where
  "step_range s e = map (\<lambda>i. s + 4096 * i) [0..<(e - s + 4095) div 4096]"

definition usable_frames :: "BootInfoFrameAllocator \<Rightarrow> phys_frame list" where
  "usable_frames e =
     map (containing_address PAGE_SIZE)
       (concat (map (\<lambda>r. step_range (region_start r) (region_end r))
          (filter (\<lambda>r. region_kind r = Usable) (memory_regions e))))"

definition early_allocate_frame ::
  "BootInfoFrameAllocator \<Rightarrow> phys_frame option \<times> BootInfoFrameAllocator" where
  "early_allocate_frame e =
     (idx (usable_frames e) (next_frame e), e\<lparr>next_frame := next_frame e + 1\<rparr>)"

subsection \<open>The bitmap\<close>

definition word_bit :: "nat \<Rightarrow> nat \<times> u64" where
  "word_bit i = (i div 64, push_bit (i mod 64) 1)"

definition get_bit_bm :: "u64 list \<Rightarrow> nat \<Rightarrow> bool option" where
  "get_bit_bm bs i = (case word_bit i of (w, m) \<Rightarrow> do { v \<leftarrow> idx bs w; Some (v AND m \<noteq> 0) })"

definition set_bit_bm :: "nat \<Rightarrow> u64 list \<Rightarrow> u64 list option" where
  "set_bit_bm i bs = (case word_bit i of (w, m) \<Rightarrow> do { v \<leftarrow> idx bs w; set_idx bs w (v OR m) })"

definition clear_bit_bm :: "nat \<Rightarrow> u64 list \<Rightarrow> u64 list option" where
  "clear_bit_bm i bs =
     (case word_bit i of (w, m) \<Rightarrow> do { v \<leftarrow> idx bs w; set_idx bs w (v AND NOT m) })"

record BitmapFrameAllocator =
  bits :: "u64 list"
  total_frames :: nat
  free_frames :: nat
  cursor_word :: nat

definition used_frames :: "BitmapFrameAllocator \<Rightarrow> nat option" where
  "used_frames a = sub64 (total_frames a) (free_frames a)"

text \<open>The second pass of the constructor: one step of marking the frames that the early allocator
  has handed out, by replaying it on a copy.\<close>

definition mark_early ::
  "nat \<Rightarrow> u64 list \<times> BootInfoFrameAllocator \<Rightarrow> (u64 list \<times> BootInfoFrameAllocator) option" where
  "mark_early k s = (case s of (bs, tmp) \<Rightarrow>
     (case early_allocate_frame tmp of
        (None, tmp') \<Rightarrow> Some (bs, tmp')
      | (Some frame, tmp') \<Rightarrow> do { bs' \<leftarrow> set_bit_bm (frame div 4096) bs; Some (bs', tmp') }))"

definition clear_region :: "MemoryRegion \<Rightarrow> u64 list \<Rightarrow> u64 list option" where
  "clear_region r bs =
     (if region_kind r \<noteq> Usable then Some bs
      else do {
        e \<leftarrow> add64 (region_end r) 4095;
        for_each clear_bit_bm [region_start r div 4096..<e div 4096] bs
      })"

definition count_free :: "u64 list \<Rightarrow> nat \<Rightarrow> nat option" where
  "count_free bs n =
     for_each (\<lambda>i c. do { b \<leftarrow> get_bit_bm bs i; Some (if b then c else c + 1) }) [0..<n] 0"

definition from_memory_regions ::
  "MemoryRegion list \<Rightarrow> BootInfoFrameAllocator \<Rightarrow> BitmapFrameAllocator option" where
  "from_memory_regions rs early = do {
     let max_end = foldr max (map region_end rs) 0;
     m \<leftarrow> add64 max_end 4095;
     let tot = m div 4096;
     let words = (tot + 63) div 64;
     bs \<leftarrow> for_each clear_region rs (replicate words (- 1));
     (bs, tmp) \<leftarrow> for_each mark_early [0..<allocated_count early] (bs, early_new rs);
     free \<leftarrow> count_free bs tot;
     Some \<lparr>bits = bs, total_frames = tot, free_frames = free, cursor_word = 0\<rparr>
   }"

subsection \<open>Single frames\<close>

text \<open>The scan of \<open>find_free\<close> over the steps that are left; the result is the frame number and the
  word it was found in.\<close>

fun find_free_from :: "u64 list \<Rightarrow> nat \<Rightarrow> nat \<Rightarrow> nat list \<Rightarrow> (nat \<times> nat) option option" where
  "find_free_from bs tot cursor [] = Some None"
| "find_free_from bs tot cursor (step # steps) = do {
     let wi = (cursor + step) mod length bs;
     word \<leftarrow> idx bs wi;
     if word = - 1 then find_free_from bs tot cursor steps
     else (let i = wi * 64 + trailing_zeros (NOT word) in
           if i < tot then Some (Some (i, wi)) else find_free_from bs tot cursor steps)
   }"

definition find_free ::
  "BitmapFrameAllocator \<Rightarrow> (nat option \<times> BitmapFrameAllocator) option" where
  "find_free a = do {
     r \<leftarrow> find_free_from (bits a) (total_frames a) (cursor_word a) [0..<length (bits a)];
     case r of None \<Rightarrow> Some (None, a) | Some (i, wi) \<Rightarrow> Some (Some i, a\<lparr>cursor_word := wi\<rparr>)
   }"

definition allocate ::
  "BitmapFrameAllocator \<Rightarrow> (phys_frame option \<times> BitmapFrameAllocator) option" where
  "allocate a = do {
     (r, a) \<leftarrow> find_free a;
     case r of
       None \<Rightarrow> Some (None, a)
     | Some i \<Rightarrow> do {
         bs \<leftarrow> set_bit_bm i (bits a);
         Some (Some (containing_address PAGE_SIZE (i * 4096)),
               a\<lparr>bits := bs, free_frames := saturating_sub (free_frames a) 1\<rparr>)
       }
   }"

definition deallocate ::
  "BitmapFrameAllocator \<Rightarrow> phys_frame \<Rightarrow> BitmapFrameAllocator option" where
  "deallocate a frame =
     (let i = frame div 4096 in
      if total_frames a \<le> i then Some a
      else do {
        b \<leftarrow> get_bit_bm (bits a) i;
        if b then do {
          bs \<leftarrow> clear_bit_bm i (bits a);
          Some (a\<lparr>bits := bs, free_frames := free_frames a + 1\<rparr>)
        } else Some a
      })"

subsection \<open>Contiguous frames\<close>

text \<open>The inner loop that skips used frames; \<open>Some None\<close> is its early \<open>return None\<close>.\<close>

function skip_used :: "u64 list \<Rightarrow> nat \<Rightarrow> nat \<Rightarrow> nat \<Rightarrow> (nat \<times> nat) option option" where
  "skip_used bs tot i scanned =
     (if i < tot then do {
        b \<leftarrow> get_bit_bm bs i;
        if b then (if scanned + 1 \<ge> tot then Some None
                   else skip_used bs tot (i + 1) (scanned + 1))
        else Some (Some (i, scanned))
      } else Some (Some (i, scanned)))"
  by pat_completeness auto
termination by (relation "measure (\<lambda>(bs, tot, i, scanned). tot - i)") auto

declare skip_used.simps [simp del]

text \<open>The test of the window of \<open>n\<close> frames from \<open>i\<close>: the first offset from \<open>j\<close> on that is used.\<close>

fun first_used :: "u64 list \<Rightarrow> nat \<Rightarrow> nat list \<Rightarrow> nat option option" where
  "first_used bs i [] = Some None"
| "first_used bs i (j # js) = do {
     b \<leftarrow> get_bit_bm bs (i + j);
     if b then Some (Some j) else first_used bs i js
   }"

function scan_contiguous ::
  "u64 list \<Rightarrow> nat \<Rightarrow> nat \<Rightarrow> nat \<Rightarrow> nat \<Rightarrow> nat option option" where
  "scan_contiguous bs tot n i scanned =
     (if scanned < tot then
        (case skip_used bs tot i scanned of
           None \<Rightarrow> None
         | Some None \<Rightarrow> Some None
         | Some (Some (i', scanned')) \<Rightarrow>
             if i' + n > tot then Some None
             else (case first_used bs i' [0..<n] of
                     None \<Rightarrow> None
                   | Some None \<Rightarrow> Some (Some i')
                   | Some (Some j) \<Rightarrow>
                       scan_contiguous bs tot n (i' + j + 1) (scanned' + j + 1)))
      else Some None)"
  by pat_completeness auto

lemma skip_used_scanned:
  "skip_used bs tot i scanned = Some (Some (i', s')) \<Longrightarrow> scanned \<le> s' \<and> s' + i = scanned + i'"
proof (induction bs tot i scanned rule: skip_used.induct)
  case (1 bs tot i scanned)
  show ?case
  proof (cases "i < tot \<and> get_bit_bm bs i = Some True \<and> scanned + 1 < tot")
    case True
    then have "skip_used bs tot i scanned = skip_used bs tot (i + 1) (scanned + 1)"
      by (subst skip_used.simps) simp
    with "1.IH" [of True] "1.prems" True show ?thesis by fastforce
  next
    case False
    with "1.prems" have "(i', s') = (i, scanned)"
      by (subst (asm) skip_used.simps) (auto split: if_splits bind_splits)
    then show ?thesis by simp
  qed
qed

termination scan_contiguous
  by (relation "measure (\<lambda>(bs, tot, n, i, scanned). tot - scanned)")
     (auto dest: skip_used_scanned)

declare scan_contiguous.simps [simp del]

definition allocate_contiguous ::
  "BitmapFrameAllocator \<Rightarrow> nat \<Rightarrow> (phys_frame option \<times> BitmapFrameAllocator) option" where
  "allocate_contiguous a n =
     (if n = 0 then Some (None, a)
      else do {
        let tot = total_frames a;
        let start = cursor_word a * 64;
        let start = (if start \<ge> tot then 0 else start);
        r \<leftarrow> scan_contiguous (bits a) tot n start 0;
        case r of
          None \<Rightarrow> Some (None, a)
        | Some i \<Rightarrow> do {
            bs \<leftarrow> for_each (\<lambda>j. set_bit_bm (i + j)) [0..<n] (bits a);
            Some (Some (containing_address PAGE_SIZE (i * 4096)),
                  a\<lparr>bits := bs, free_frames := saturating_sub (free_frames a) n,
                     cursor_word := (i div 64) mod length bs\<rparr>)
          }
      })"

subsection \<open>Huge pages\<close>

definition FRAMES_PER_2MB :: nat where
  "FRAMES_PER_2MB = 512"

definition FRAMES_PER_1GB :: nat where
  "FRAMES_PER_1GB = 262144"

text \<open>The two allocation routines differ only in the constant \<open>align_frames\<close>, as do the two
  deallocation and the two counting routines.\<close>

definition next_aligned :: "nat \<Rightarrow> nat \<Rightarrow> nat" where
  "next_aligned align start = (start div align + 1) * align"

function scan_huge :: "u64 list \<Rightarrow> nat \<Rightarrow> nat \<Rightarrow> nat \<Rightarrow> nat option option" where
  "scan_huge bs tot align start =
     (if align = 0 then Some None
      else if start + align \<le> tot then
        (if start mod align \<noteq> 0 then scan_huge bs tot align (next_aligned align start)
         else (case first_used bs start [0..<align] of
                 None \<Rightarrow> None
               | Some None \<Rightarrow> Some (Some start)
               | Some (Some j) \<Rightarrow> scan_huge bs tot align (next_aligned align start)))
      else Some None)"
  by pat_completeness auto

lemma next_aligned_gt: "0 < align \<Longrightarrow> start < next_aligned align start"
  using dividend_less_div_times [of align start]
  by (simp add: next_aligned_def add.commute)

termination scan_huge
  by (relation "measure (\<lambda>(bs, tot, align, start). tot - start)")
     (auto intro!: diff_less_mono2 next_aligned_gt)

declare scan_huge.simps [simp del]

definition allocate_huge ::
  "nat \<Rightarrow> BitmapFrameAllocator \<Rightarrow> (phys_frame option \<times> BitmapFrameAllocator) option" where
  "allocate_huge align_frames a = do {
     r \<leftarrow> scan_huge (bits a) (total_frames a) align_frames 0;
     case r of
       None \<Rightarrow> Some (None, a)
     | Some start \<Rightarrow> do {
         bs \<leftarrow> for_each (\<lambda>j. set_bit_bm (start + j)) [0..<align_frames] (bits a);
         Some (Some (containing_address (align_frames * 4096) (start * 4096)),
               a\<lparr>bits := bs, free_frames := saturating_sub (free_frames a) align_frames\<rparr>)
       }
   }"

definition allocate_huge_2mb ::
  "BitmapFrameAllocator \<Rightarrow> (phys_frame option \<times> BitmapFrameAllocator) option" where
  "allocate_huge_2mb = allocate_huge FRAMES_PER_2MB"

definition allocate_huge_1gb ::
  "BitmapFrameAllocator \<Rightarrow> (phys_frame option \<times> BitmapFrameAllocator) option" where
  "allocate_huge_1gb = allocate_huge FRAMES_PER_1GB"

definition release_bit ::
  "nat \<Rightarrow> BitmapFrameAllocator \<Rightarrow> BitmapFrameAllocator option" where
  "release_bit i a = do {
     b \<leftarrow> get_bit_bm (bits a) i;
     if b then do {
       bs \<leftarrow> clear_bit_bm i (bits a);
       Some (a\<lparr>bits := bs, free_frames := free_frames a + 1\<rparr>)
     } else Some a
   }"

definition deallocate_huge ::
  "nat \<Rightarrow> BitmapFrameAllocator \<Rightarrow> phys_frame \<Rightarrow> BitmapFrameAllocator option" where
  "deallocate_huge align_frames a frame =
     (let base = frame div 4096 in
      if base + align_frames > total_frames a then Some a
      else if base mod align_frames \<noteq> 0 then Some a
      else for_each (\<lambda>j. release_bit (base + j)) [0..<align_frames] a)"

definition deallocate_huge_2mb ::
  "BitmapFrameAllocator \<Rightarrow> phys_frame \<Rightarrow> BitmapFrameAllocator option" where
  "deallocate_huge_2mb = deallocate_huge FRAMES_PER_2MB"

definition deallocate_huge_1gb ::
  "BitmapFrameAllocator \<Rightarrow> phys_frame \<Rightarrow> BitmapFrameAllocator option" where
  "deallocate_huge_1gb = deallocate_huge FRAMES_PER_1GB"

function count_huge :: "u64 list \<Rightarrow> nat \<Rightarrow> nat \<Rightarrow> nat \<Rightarrow> nat \<Rightarrow> nat option" where
  "count_huge bs tot align start count =
     (if align = 0 then Some count
      else if start + align \<le> tot then
        (if start mod align \<noteq> 0 then count_huge bs tot align (next_aligned align start) count
         else (case first_used bs start [0..<align] of
                 None \<Rightarrow> None
               | Some r \<Rightarrow> count_huge bs tot align (start + align)
                             (if r = None then count + 1 else count)))
      else Some count)"
  by pat_completeness auto

termination count_huge
  by (relation "measure (\<lambda>(bs, tot, align, start, count). tot - start)")
     (auto intro!: diff_less_mono2 next_aligned_gt)

declare count_huge.simps [simp del]

definition count_huge_2mb_available :: "BitmapFrameAllocator \<Rightarrow> nat option" where
  "count_huge_2mb_available a = count_huge (bits a) (total_frames a) FRAMES_PER_2MB 0 0"

definition count_huge_1gb_available :: "BitmapFrameAllocator \<Rightarrow> nat option" where
  "count_huge_1gb_available a = count_huge (bits a) (total_frames a) FRAMES_PER_1GB 0 0"

subsection \<open>The bitmap as a set of frame numbers\<close>

definition bit_at :: "u64 list \<Rightarrow> nat \<Rightarrow> bool" where
  "bit_at bs i = bit (bs ! (i div 64)) (i mod 64)"

definition free_set :: "BitmapFrameAllocator \<Rightarrow> nat set" where
  "free_set a = {i. i < total_frames a \<and> \<not> bit_at (bits a) i}"

definition free_addrs :: "BitmapFrameAllocator \<Rightarrow> phys_frame set" where
  "free_addrs a = (\<lambda>i. i * 4096) ` free_set a"

definition padded :: "u64 list \<Rightarrow> nat \<Rightarrow> bool" where
  "padded bs n \<longleftrightarrow> length bs = (n + 63) div 64 \<and> (\<forall>i. n \<le> i \<and> i < 64 * length bs \<longrightarrow> bit_at bs i)"

definition phys_inv :: "BitmapFrameAllocator \<Rightarrow> bool" where
  "phys_inv a \<longleftrightarrow> padded (bits a) (total_frames a) \<and> free_frames a = card (free_set a)
     \<and> (0 < length (bits a) \<longrightarrow> cursor_word a < length (bits a))"

definition upd_set :: "nat \<Rightarrow> u64 list \<Rightarrow> u64 list" where
  "upd_set i bs = bs[i div 64 := bs ! (i div 64) OR push_bit (i mod 64) 1]"

definition upd_clear :: "nat \<Rightarrow> u64 list \<Rightarrow> u64 list" where
  "upd_clear i bs = bs[i div 64 := bs ! (i div 64) AND NOT (push_bit (i mod 64) 1)]"

lemma div64_less: "(i::nat) < 64 * n \<Longrightarrow> i div 64 < n"
  by (simp add: less_mult_imp_div_less mult.commute)

lemma length_upd [simp]: "length (upd_set i bs) = length bs" "length (upd_clear i bs) = length bs"
  by (simp_all add: upd_set_def upd_clear_def)

lemma length_fold_upd [simp]:
  "length (fold upd_set is bs) = length bs" "length (fold upd_clear is bs) = length bs"
  by (induction "is" arbitrary: bs) simp_all

lemma get_bit_bm_eq: "i < 64 * length bs \<Longrightarrow> get_bit_bm bs i = Some (bit_at bs i)"
  by (simp add: get_bit_bm_def word_bit_def bit_at_def div64_less bit_iff_and_push_bit_not_eq_0)

lemma set_bit_bm_eq: "i < 64 * length bs \<Longrightarrow> set_bit_bm i bs = Some (upd_set i bs)"
  by (simp add: set_bit_bm_def word_bit_def upd_set_def div64_less)

lemma clear_bit_bm_eq: "i < 64 * length bs \<Longrightarrow> clear_bit_bm i bs = Some (upd_clear i bs)"
  by (simp add: clear_bit_bm_def word_bit_def upd_clear_def div64_less)

lemma div_mod_64_iff: "(i::nat) = j \<longleftrightarrow> i div 64 = j div 64 \<and> i mod 64 = j mod 64"
  by (metis div_mult_mod_eq)

lemma bit_at_upd_set:
  assumes "i < 64 * length bs"
  shows "bit_at (upd_set i bs) j \<longleftrightarrow> i = j \<or> bit_at bs j"
  using div64_less [OF assms] unfolding div_mod_64_iff [of i j]
  by (cases "i div 64 = j div 64") (auto simp: bit_at_def upd_set_def bit_simps)

lemma bit_at_upd_clear:
  assumes "i < 64 * length bs"
  shows "bit_at (upd_clear i bs) j \<longleftrightarrow> i \<noteq> j \<and> bit_at bs j"
  using div64_less [OF assms] unfolding div_mod_64_iff [of i j]
  by (cases "i div 64 = j div 64") (auto simp: bit_at_def upd_clear_def bit_simps)

lemma bit_at_fold_set:
  "(\<And>i. i \<in> set is \<Longrightarrow> i < 64 * length bs) \<Longrightarrow>
     bit_at (fold upd_set is bs) j \<longleftrightarrow> j \<in> set is \<or> bit_at bs j"
  by (induction "is" arbitrary: bs) (auto simp: bit_at_upd_set)

lemma bit_at_fold_clear:
  "(\<And>i. i \<in> set is \<Longrightarrow> i < 64 * length bs) \<Longrightarrow>
     bit_at (fold upd_clear is bs) j \<longleftrightarrow> j \<notin> set is \<and> bit_at bs j"
  by (induction "is" arbitrary: bs) (auto simp: bit_at_upd_clear)

lemma for_each_set:
  assumes "\<And>i. i \<in> set is \<Longrightarrow> i < 64 * length bs"
  shows "for_each set_bit_bm is bs = Some (fold upd_set is bs)"
  using for_each_fold [where P = "\<lambda>s. length s = length bs" and f = set_bit_bm and g = upd_set]
    assms by (simp add: set_bit_bm_eq)

lemma for_each_clear:
  assumes "\<And>i. i \<in> set is \<Longrightarrow> i < 64 * length bs"
  shows "for_each clear_bit_bm is bs = Some (fold upd_clear is bs)"
  using for_each_fold [where P = "\<lambda>s. length s = length bs" and f = clear_bit_bm and g = upd_clear]
    assms by (simp add: clear_bit_bm_eq)

lemma for_each_shift:
  "for_each (\<lambda>j. f (i + j)) [0..<n] s = for_each f [i..<i + n] s"
proof -
  have "for_each f (map (\<lambda>j. i + j) js) s = for_each (\<lambda>j. f (i + j)) js s" for js
    by (induction js arbitrary: s) (simp, metis (no_types, lifting) ext for_each.simps(2) list.simps(9))
  moreover have "map (\<lambda>j. i + j) [0..<n] = [i..<i + n]"
    by (induction n) auto
  ultimately show ?thesis by metis
qed

lemma finite_free_set [simp]: "finite (free_set a)"
  by (simp add: free_set_def)

lemma padded_bound: "padded bs n \<Longrightarrow> n \<le> 64 * length bs"
  unfolding padded_def by presburger

lemmas bitmap_eqs = get_bit_bm_eq set_bit_bm_eq clear_bit_bm_eq

text \<open>Marking a set of frames used, or free, and adjusting the counter keeps the invariant.\<close>

lemma phys_inv_take:
  assumes inv: "phys_inv a" and sub: "set is \<subseteq> free_set a" and dist: "distinct is"
    and cur: "0 < length (bits a) \<longrightarrow> c < length (bits a)"
  defines "a' \<equiv> a\<lparr>bits := fold upd_set is (bits a),
                   free_frames := saturating_sub (free_frames a) (length is), cursor_word := c\<rparr>"
  shows "phys_inv a'" "free_set a' = free_set a - set is"
proof -
  have b: "i < 64 * length (bits a)" if "i \<in> set is" for i
    using that sub inv padded_bound by (fastforce simp: phys_inv_def free_set_def)
  show fs: "free_set a' = free_set a - set is"
    using b by (auto simp: free_set_def a'_def bit_at_fold_set)
  have "card (free_set a') = card (free_set a) - length is"
    using sub dist by (simp add: fs card_Diff_subset distinct_card)
  moreover have "padded (bits a') (total_frames a')"
    using inv b by (auto simp: padded_def phys_inv_def a'_def bit_at_fold_set)
  ultimately show "phys_inv a'"
    using inv cur by (auto simp: phys_inv_def a'_def saturating_sub_def)
qed

lemma phys_inv_release:
  assumes inv: "phys_inv a" and i: "i < total_frames a" "bit_at (bits a) i"
  defines "a' \<equiv> a\<lparr>bits := upd_clear i (bits a), free_frames := free_frames a + 1\<rparr>"
  shows "phys_inv a'" "free_set a' = insert i (free_set a)"
proof -
  have b: "i < 64 * length (bits a)"
    using i inv padded_bound by (fastforce simp: phys_inv_def)
  show fs: "free_set a' = insert i (free_set a)"
    using b i by (auto simp: free_set_def a'_def bit_at_upd_clear)
  have "i \<notin> free_set a" using i by (simp add: free_set_def)
  then have "card (free_set a') = card (free_set a) + 1" by (simp add: fs)
  moreover have "padded (bits a') (total_frames a')"
    using inv b i by (auto simp: padded_def phys_inv_def a'_def bit_at_upd_clear)
  ultimately show "phys_inv a'"
    using inv by (auto simp: phys_inv_def a'_def)
qed

subsection \<open>Finding a free frame\<close>

lemma NOT_eq_0: "(NOT w = 0) = ((w :: u64) = - 1)"
  by (metis bit.double_compl bit.compl_zero)

lemma find_free_from_no_panic: "bs \<noteq> [] \<Longrightarrow> find_free_from bs tot c steps \<noteq> None"
  by (induction steps) (auto simp: Let_def)

lemma find_free_from_sound:
  "find_free_from bs tot c steps = Some (Some (i, wi)) \<Longrightarrow>
     i < tot \<and> wi < length bs \<and> i div 64 = wi \<and> \<not> bit_at bs i"
proof (induction steps)
  case Nil
  then show ?case by simp
next
  case (Cons step steps)
  let ?wi = "(c + step) mod length bs"
  let ?tz = "trailing_zeros (NOT (bs ! ?wi))"
  show ?case
  proof (cases "?wi < length bs \<and> bs ! ?wi \<noteq> - 1 \<and> ?wi * 64 + ?tz < tot")
    case True
    then have i: "i = ?wi * 64 + ?tz" "wi = ?wi"
      using Cons.prems by (auto simp: Let_def)
    have "?tz < 64" "bit (NOT (bs ! ?wi)) ?tz"
      using True by (auto intro!: trailing_zeros_props simp: NOT_eq_0)
    then show ?thesis
      using True i by (simp add: bit_at_def bit_simps)
  next
    case False
    then show ?thesis
      using Cons by (cases "?wi < length bs") (auto simp: Let_def split: if_splits)
  qed
qed

lemma find_free_from_complete:
  "find_free_from bs tot c steps = Some None \<Longrightarrow> step \<in> set steps \<Longrightarrow> i < tot \<Longrightarrow>
     i div 64 = (c + step) mod length bs \<Longrightarrow> bs \<noteq> [] \<Longrightarrow> bit_at bs i"
proof (induction steps)
  case Nil
  then show ?case by simp
next
  case (Cons s steps)
  let ?wi = "(c + s) mod length bs"
  let ?tz = "trailing_zeros (NOT (bs ! ?wi))"
  have wi: "?wi < length bs" using Cons.prems(5) by simp
  show ?case
  proof (cases "step = s")
    case False
    then show ?thesis
      using Cons wi by (auto simp: Let_def split: if_splits)
  next
    case True
    show ?thesis
    proof (cases "bs ! ?wi = - 1")
      case all: True
      then show ?thesis using True Cons.prems(4) by (simp add: bit_at_def)
    next
      case some: False
      then have "tot \<le> ?wi * 64 + ?tz"
        using Cons.prems(1) wi by (auto simp: Let_def split: if_splits)
      moreover have "i = ?wi * 64 + i mod 64"
        using True Cons.prems(4) by (metis div_mult_mod_eq)
      ultimately have "i mod 64 < ?tz" using Cons.prems(3) by linarith
      then have "\<not> bit (NOT (bs ! ?wi)) (i mod 64)"
        using some by (intro trailing_zeros_props) (simp_all add: NOT_eq_0)
      then show ?thesis
        using True Cons.prems(4) by (simp add: bit_at_def bit_simps)
    qed
  qed
qed

lemma step_reaches:
  assumes "(w::nat) < n" "c < n"
  shows "\<exists>step < n. (c + step) mod n = w"
proof (cases "c \<le> w")
  case True
  then show ?thesis using assms by (intro exI [of _ "w - c"]) auto
next
  case False
  then show ?thesis using assms by (intro exI [of _ "w + n - c"]) auto
qed

lemma find_free_cases:
  assumes inv: "phys_inv a"
  shows "(find_free a = Some (None, a) \<and> free_set a = {}) \<or>
     (\<exists>i wi. find_free a = Some (Some i, a\<lparr>cursor_word := wi\<rparr>) \<and> i \<in> free_set a
        \<and> wi < length (bits a))"
proof (cases "bits a = []")
  case True
  then have "free_set a = {}" using inv by (auto simp: phys_inv_def padded_def free_set_def)
  then show ?thesis using True by (simp add: find_free_def)
next
  case False
  then obtain r where r: "find_free_from (bits a) (total_frames a) (cursor_word a)
      [0..<length (bits a)] = Some r"
    using find_free_from_no_panic by blast
  show ?thesis
  proof (cases r)
    case (Some p)
    then show ?thesis
      using r find_free_from_sound by (cases p) (fastforce simp: find_free_def free_set_def)
  next
    case None
    have "bit_at (bits a) i" if "i < total_frames a" for i
    proof -
      have "i div 64 < length (bits a)"
        using that inv padded_bound by (fastforce simp: phys_inv_def intro: div64_less)
      then obtain step where "step < length (bits a)"
          "(cursor_word a + step) mod length (bits a) = i div 64"
        using step_reaches inv False unfolding phys_inv_def by blast
      then show ?thesis
        using find_free_from_complete r None that False
        by (metis atLeast_upt lessThan_iff)
    qed
    then show ?thesis using r None by (simp add: find_free_def free_set_def)
  qed
qed

subsection \<open>Contracts of the single-frame operations\<close>

lemma containing_address_mult [simp]: "containing_address PAGE_SIZE (i * 4096) = i * 4096"
  by (simp add: containing_address_def PAGE_SIZE_def)

lemma allocate_cases:
  assumes inv: "phys_inv a"
  shows "(allocate a = Some (None, a) \<and> free_set a = {}) \<or>
     (\<exists>i a'. allocate a = Some (Some (i * 4096), a') \<and> i \<in> free_set a \<and> phys_inv a'
        \<and> free_set a' = free_set a - {i} \<and> total_frames a' = total_frames a)"
proof -
  consider "find_free a = Some (None, a)" "free_set a = {}"
    | i wi where "find_free a = Some (Some i, a\<lparr>cursor_word := wi\<rparr>)" "i \<in> free_set a"
        "wi < length (bits a)"
    using find_free_cases [OF inv] by blast
  then show ?thesis
  proof cases
    case 1
    then show ?thesis by (simp add: allocate_def)
  next
    case (2 i wi)
    have b: "i < 64 * length (bits a)"
      using 2(2) inv padded_bound by (fastforce simp: phys_inv_def free_set_def)
    let ?a' = "a\<lparr>bits := upd_set i (bits a), free_frames := saturating_sub (free_frames a) 1,
                 cursor_word := wi\<rparr>"
    have "allocate a = Some (Some (i * 4096), ?a')"
      using 2(1) b by (simp add: allocate_def set_bit_bm_eq)
    moreover have "phys_inv ?a'" "free_set ?a' = free_set a - {i}"
      using phys_inv_take [OF inv, of "[i]" wi] 2(2,3) by simp_all
    ultimately show ?thesis using 2(2) by fastforce
  qed
qed

lemma deallocate_cases:
  assumes inv: "phys_inv a"
  shows "\<exists>a'. deallocate a f = Some a' \<and> phys_inv a' \<and> total_frames a' = total_frames a \<and>
     free_set a' = (if f div 4096 < total_frames a then insert (f div 4096) (free_set a) else free_set a)"
proof (cases "f div 4096 < total_frames a \<and> bit_at (bits a) (f div 4096)")
  case True
  then have "f div 4096 < 64 * length (bits a)"
    using inv padded_bound by (fastforce simp: phys_inv_def)
  with True phys_inv_release [OF inv, of "f div 4096"] show ?thesis
    by (simp add: deallocate_def bitmap_eqs Let_def)
next
  case False
  then have "f div 4096 < 64 * length (bits a)" if "f div 4096 < total_frames a"
    using that inv padded_bound by (fastforce simp: phys_inv_def)
  with False inv show ?thesis
    by (auto simp: deallocate_def bitmap_eqs Let_def free_set_def)
qed

subsection \<open>Windows of free frames\<close>

definition window :: "u64 list \<Rightarrow> nat \<Rightarrow> nat \<Rightarrow> bool" where
  "window bs i n \<longleftrightarrow> (\<forall>k \<in> {i..<i + n}. \<not> bit_at bs k)"

lemma first_used_spec:
  assumes "\<And>j. j \<in> set js \<Longrightarrow> i + j < 64 * length bs"
  shows "(first_used bs i js = Some None \<and> (\<forall>j \<in> set js. \<not> bit_at bs (i + j))) \<or>
     (\<exists>j \<in> set js. first_used bs i js = Some (Some j) \<and> bit_at bs (i + j))"
  using assms by (induction js) (auto simp: bitmap_eqs)

lemma first_used_window:
  assumes "i + n \<le> 64 * length bs"
  shows "(first_used bs i [0..<n] = Some None \<and> window bs i n) \<or>
     (\<exists>j < n. first_used bs i [0..<n] = Some (Some j) \<and> bit_at bs (i + j))"
proof -
  have "(\<forall>j < n. \<not> bit_at bs (i + j)) \<longleftrightarrow> window bs i n"
    by (auto simp: window_def) (metis le_add_diff_inverse less_diff_conv2 add.commute)
  then show ?thesis
    using first_used_spec [of "[0..<n]" i bs] assms by auto
qed

lemma skip_used_spec:
  assumes "tot \<le> 64 * length bs" and "scanned \<le> i"
  shows "(skip_used bs tot i scanned = Some None \<and> (\<forall>k \<in> {i..<tot}. bit_at bs k)) \<or>
     (\<exists>i' s'. skip_used bs tot i scanned = Some (Some (i', s')) \<and> i \<le> i' \<and> s' \<le> i'
        \<and> (\<forall>k \<in> {i..<i'}. bit_at bs k))"
  using assms
proof (induction bs tot i scanned rule: skip_used.induct)
  case (1 bs tot i scanned)
  note unfold = skip_used.simps [of bs tot i scanned]
  show ?case
  proof (cases "i < tot \<and> bit_at bs i")
    case False
    then show ?thesis using "1.prems" unfold by (auto simp: bitmap_eqs)
  next
    case used: True
    then have get: "get_bit_bm bs i = Some True" using "1.prems" by (simp add: bitmap_eqs)
    show ?thesis
    proof (cases "scanned + 1 \<ge> tot")
      case True
      then have "{i..<tot} = {i}" using "1.prems"(2) used by auto
      then show ?thesis using used unfold get True by simp
    next
      case False
      have eq: "skip_used bs tot i scanned = skip_used bs tot (i + 1) (scanned + 1)"
        using unfold get used False by simp
      have split: "(\<forall>k \<in> {i..<m}. bit_at bs k) \<longleftrightarrow> (\<forall>k \<in> {i + 1..<m}. bit_at bs k)" for m
        using used by (auto simp: Suc_le_eq order_le_less)
      show ?thesis
        using "1.IH" [of True] "1.prems" used get False unfolding eq split by fastforce
    qed
  qed
qed

lemma window_blocked: "bit_at bs k \<Longrightarrow> i \<le> k \<Longrightarrow> k < i + n \<Longrightarrow> \<not> window bs i n"
  by (auto simp: window_def)

lemma window_at_used: "\<forall>k \<in> A. bit_at bs k \<Longrightarrow> 0 < n \<Longrightarrow> k \<in> A \<Longrightarrow> \<not> window bs k n"
  using window_blocked by fastforce

text \<open>The contiguous search is first fit from its start position.\<close>

definition first_fit :: "u64 list \<Rightarrow> nat \<Rightarrow> nat \<Rightarrow> nat \<Rightarrow> nat option \<Rightarrow> bool" where
  "first_fit bs tot n i r \<longleftrightarrow> (case r of
     None \<Rightarrow> \<forall>k \<ge> i. k + n \<le> tot \<longrightarrow> \<not> window bs k n
   | Some w \<Rightarrow> i \<le> w \<and> w + n \<le> tot \<and> window bs w n \<and> (\<forall>k \<in> {i..<w}. \<not> window bs k n))"

lemma first_fit_skip:
  assumes "first_fit bs tot n i' r" and "i \<le> i'" and "\<And>k. i \<le> k \<Longrightarrow> k < i' \<Longrightarrow> \<not> window bs k n"
  shows "first_fit bs tot n i r"
proof -
  have ge: "i' \<le> k" if "i \<le> k" "window bs k n" for k
    using that assms(3) [of k] by (meson not_le)
  show ?thesis
  proof (cases r)
    case None
    then show ?thesis using assms(1) ge unfolding first_fit_def by (simp, blast)
  next
    case (Some w)
    have "\<not> window bs k n" if "k \<in> {i..<w}" for k
      using ge [of k] that assms(1) Some unfolding first_fit_def by force
    then show ?thesis using assms(1,2) Some unfolding first_fit_def by simp
  qed
qed

lemma scan_contiguous_spec:
  assumes "tot \<le> 64 * length bs" and "scanned \<le> i" and "0 < n"
  shows "\<exists>r. scan_contiguous bs tot n i scanned = Some r \<and> first_fit bs tot n i r"
  using assms
proof (induction bs tot n i scanned rule: scan_contiguous.induct)
  case (1 bs tot n i scanned)
  note unfold = scan_contiguous.simps [of bs tot n i scanned]
  show ?case
  proof (cases "scanned < tot")
    case False
    then show ?thesis using "1.prems" unfold by (auto simp: first_fit_def)
  next
    case lt: True
    consider (out) "skip_used bs tot i scanned = Some None" "\<forall>k \<in> {i..<tot}. bit_at bs k"
      | (at) i' s' where "skip_used bs tot i scanned = Some (Some (i', s'))" "i \<le> i'" "s' \<le> i'"
          "\<forall>k \<in> {i..<i'}. bit_at bs k"
      using skip_used_spec [OF "1.prems"(1,2)] by blast
    then show ?thesis
    proof cases
      case out
      then show ?thesis
        using lt unfold "1.prems"(3) window_at_used [OF out(2)] by (fastforce simp: first_fit_def)
    next
      case (at i' s')
      have used: "\<not> window bs k n" if "i \<le> k" "k < i'" for k
        using window_at_used [OF at(4) "1.prems"(3)] that by simp
      have "\<exists>r. scan_contiguous bs tot n i scanned = Some r \<and> first_fit bs tot n i' r"
      proof (cases "i' + n > tot")
        case True
        then show ?thesis using lt unfold at(1) by (auto simp: first_fit_def)
      next
        case fit: False
        then have "i' + n \<le> 64 * length bs" using "1.prems"(1) by simp
        then consider (win) "first_used bs i' [0..<n] = Some None" "window bs i' n"
          | (blk) j where "j < n" "first_used bs i' [0..<n] = Some (Some j)" "bit_at bs (i' + j)"
          using first_used_window by blast
        then show ?thesis
        proof cases
          case win
          then show ?thesis using lt unfold at(1) fit by (auto simp: first_fit_def)
        next
          case (blk j)
          have eq: "scan_contiguous bs tot n i scanned
              = scan_contiguous bs tot n (i' + j + 1) (s' + j + 1)"
            using lt unfold at(1) fit blk(2) by simp
          have "\<not> window bs k n" if "i' \<le> k" "k < i' + j + 1" for k
            using window_blocked [OF blk(3), of k n] that blk(1) by linarith
          moreover have "\<exists>r. scan_contiguous bs tot n i scanned = Some r
              \<and> first_fit bs tot n (i' + j + 1) r"
            using "1.IH" [OF lt at(1) refl refl fit blk(2) refl] "1.prems" at(3)
            unfolding eq by simp
          ultimately show ?thesis
            using first_fit_skip [of bs tot n "i' + j + 1" _ i'] by fastforce
        qed
      qed
      then show ?thesis using at(2) used first_fit_skip by blast
    qed
  qed
qed

subsection \<open>Contracts of the contiguous and huge-page operations\<close>

lemma window_free_set:
  assumes "w + n \<le> total_frames a"
  shows "window (bits a) w n \<longleftrightarrow> {w..<w + n} \<subseteq> free_set a"
  using assms by (auto simp: window_def free_set_def)

text \<open>Taking a window of free frames, whatever the new cursor.\<close>

lemma take_window_bits:
  assumes inv: "phys_inv a" and w: "w + n \<le> total_frames a"
  shows "for_each (\<lambda>j. set_bit_bm (w + j)) [0..<n] (bits a) = Some (fold upd_set [w..<w + n] (bits a))"
proof -
  have "total_frames a \<le> 64 * length (bits a)"
    using inv padded_bound by (auto simp: phys_inv_def)
  then show ?thesis
    using w unfolding for_each_shift by (intro for_each_set) auto
qed

lemma take_window:
  assumes inv: "phys_inv a" and w: "w + n \<le> total_frames a" "window (bits a) w n"
    and cur: "0 < length (bits a) \<longrightarrow> c < length (bits a)"
  defines "a' \<equiv> a\<lparr>bits := fold upd_set [w..<w + n] (bits a),
                   free_frames := saturating_sub (free_frames a) n, cursor_word := c\<rparr>"
  shows "phys_inv a'" "free_set a' = free_set a - {w..<w + n}"
proof -
  have "set [w..<w + n] \<subseteq> free_set a" using w window_free_set by simp
  from phys_inv_take [OF inv this _ cur]
  show "phys_inv a'" "free_set a' = free_set a - {w..<w + n}"
    by (simp_all add: a'_def)
qed

definition contiguous_start :: "BitmapFrameAllocator \<Rightarrow> nat" where
  "contiguous_start a =
     (if cursor_word a * 64 \<ge> total_frames a then 0 else cursor_word a * 64)"

lemma allocate_contiguous_cases:
  assumes inv: "phys_inv a" and n: "0 < n"
  shows "(allocate_contiguous a n = Some (None, a) \<and>
          first_fit (bits a) (total_frames a) n (contiguous_start a) None) \<or>
     (\<exists>w a'. allocate_contiguous a n = Some (Some (w * 4096), a') \<and> phys_inv a' \<and>
        first_fit (bits a) (total_frames a) n (contiguous_start a) (Some w) \<and>
        free_set a' = free_set a - {w..<w + n})"
proof -
  have bound: "total_frames a \<le> 64 * length (bits a)"
    using inv padded_bound by (auto simp: phys_inv_def)
  obtain r where r: "scan_contiguous (bits a) (total_frames a) n (contiguous_start a) 0 = Some r"
      "first_fit (bits a) (total_frames a) n (contiguous_start a) r"
    using scan_contiguous_spec [OF bound _ n] by blast
  show ?thesis
  proof (cases r)
    case None
    then show ?thesis
      using r n by (simp add: allocate_contiguous_def Let_def contiguous_start_def)
  next
    case (Some w)
    then have w: "w + n \<le> total_frames a" "window (bits a) w n"
      using r(2) by (simp_all add: first_fit_def)
    have "allocate_contiguous a n = Some (Some (w * 4096),
        a\<lparr>bits := fold upd_set [w..<w + n] (bits a),
           free_frames := saturating_sub (free_frames a) n,
           cursor_word := (w div 64) mod length (bits a)\<rparr>)"
      using r(1) Some n take_window_bits [OF inv w(1)]
      by (simp add: allocate_contiguous_def Let_def contiguous_start_def)
    moreover have cur: "0 < length (bits a) \<longrightarrow> (w div 64) mod length (bits a) < length (bits a)"
      by simp
    ultimately show ?thesis
      using r(2) Some take_window [OF inv w, of "(w div 64) mod length (bits a)", OF cur]
      by blast
  qed
qed

lemma next_aligned_least:
  assumes "0 < (align::nat)" "start < k" "k mod align = 0"
  shows "next_aligned align start \<le> k"
proof -
  from assms(3) obtain q where q: "k = q * align" by (metis mod_eq_0_iff_dvd dvd_div_mult_self)
  then have "start div align < q"
    using assms(1,2) by (simp add: div_less_iff_less_mult)
  then have "(start div align + 1) * align \<le> q * align" by (intro mult_le_mono1) simp
  then show ?thesis by (simp add: next_aligned_def q)
qed

definition aligned_fit :: "u64 list \<Rightarrow> nat \<Rightarrow> nat \<Rightarrow> nat \<Rightarrow> nat option \<Rightarrow> bool" where
  "aligned_fit bs tot align start r \<longleftrightarrow> (case r of
     None \<Rightarrow> \<forall>k \<ge> start. k mod align = 0 \<and> k + align \<le> tot \<longrightarrow> \<not> window bs k align
   | Some w \<Rightarrow> w mod align = 0 \<and> w + align \<le> tot \<and> window bs w align)"

lemma aligned_fit_next:
  assumes "aligned_fit bs tot align (next_aligned align start) r" "0 < align"
    and "start mod align = 0 \<Longrightarrow> \<not> window bs start align"
  shows "aligned_fit bs tot align start r"
proof (cases r)
  case None
  have "\<not> window bs k align" if "start \<le> k" "k mod align = 0" "k + align \<le> tot" for k
  proof (cases "k = start")
    case False
    then have "next_aligned align start \<le> k"
      using that assms(2) by (intro next_aligned_least) auto
    then show ?thesis using assms(1) None that by (simp add: aligned_fit_def)
  qed (use that assms(3) in simp)
  then show ?thesis using None by (simp add: aligned_fit_def)
next
  case (Some w)
  then show ?thesis using assms(1) by (simp add: aligned_fit_def)
qed

lemma scan_huge_spec:
  assumes "tot \<le> 64 * length bs" and "0 < align"
  shows "\<exists>r. scan_huge bs tot align start = Some r \<and> aligned_fit bs tot align start r"
  using assms
proof (induction bs tot align start rule: scan_huge.induct)
  case (1 bs tot align start)
  note unfold = scan_huge.simps [of bs tot align start]
  note IH = "1.IH"(1) [OF _ _ _ "1.prems"] "1.IH"(2) [OF _ _ _ _ _ "1.prems"]
  have al: "align \<noteq> 0" using "1.prems"(2) by simp
  consider "\<not> start + align \<le> tot" | "start + align \<le> tot" "start mod align \<noteq> 0"
    | "start + align \<le> tot" "start mod align = 0" by blast
  then show ?case
  proof cases
    case 1
    then show ?thesis using unfold al by (auto simp: aligned_fit_def)
  next
    case 2
    then have "scan_huge bs tot align start = scan_huge bs tot align (next_aligned align start)"
      using unfold al by simp
    then show ?thesis
      using IH(1) [OF al 2] aligned_fit_next [OF _ "1.prems"(2), of bs tot start] 2(2) by auto
  next
    case 3
    then have "start + align \<le> 64 * length bs" using "1.prems"(1) by simp
    then consider "first_used bs start [0..<align] = Some None" "window bs start align"
      | j where "j < align" "first_used bs start [0..<align] = Some (Some j)" "bit_at bs (start + j)"
      using first_used_window by blast
    then show ?thesis
    proof cases
      case win: 1
      then show ?thesis using unfold al 3 by (auto simp: aligned_fit_def)
    next
      case blk: (2 j)
      have "\<not> window bs start align" using window_blocked [OF blk(3)] blk(1) by simp
      moreover have "scan_huge bs tot align start = scan_huge bs tot align (next_aligned align start)"
        using unfold al 3 blk(2) by simp
      ultimately show ?thesis
        using IH(2) [OF al 3(1) _ blk(2) refl] 3(2)
          aligned_fit_next [OF _ "1.prems"(2), of bs tot start] by auto
    qed
  qed
qed

lemma allocate_huge_cases:
  assumes inv: "phys_inv a" and al: "0 < align"
  shows "(allocate_huge align a = Some (None, a) \<and>
          (\<forall>k. k mod align = 0 \<and> k + align \<le> total_frames a \<longrightarrow> \<not> {k..<k + align} \<subseteq> free_set a)) \<or>
     (\<exists>w a'. allocate_huge align a = Some (Some (w * 4096), a') \<and> phys_inv a' \<and> w mod align = 0 \<and>
        w + align \<le> total_frames a \<and> {w..<w + align} \<subseteq> free_set a \<and>
        free_set a' = free_set a - {w..<w + align} \<and> total_frames a' = total_frames a)"
proof -
  have bound: "total_frames a \<le> 64 * length (bits a)"
    using inv padded_bound by (auto simp: phys_inv_def)
  obtain r where r: "scan_huge (bits a) (total_frames a) align 0 = Some r"
      "aligned_fit (bits a) (total_frames a) align 0 r"
    using scan_huge_spec [OF bound al] by blast
  show ?thesis
  proof (cases r)
    case None
    then show ?thesis
      using r by (auto simp: allocate_huge_def aligned_fit_def window_free_set)
  next
    case (Some w)
    then have w: "w + align \<le> total_frames a" "window (bits a) w align" and m: "w mod align = 0"
      using r(2) by (simp_all add: aligned_fit_def)
    have addr: "containing_address (align * 4096) (w * 4096) = w * 4096"
      using m by (auto simp: containing_address_def mult.commute mult.left_commute)
    have eq: "allocate_huge align a = Some (Some (w * 4096),
        a\<lparr>bits := fold upd_set [w..<w + align] (bits a),
           free_frames := saturating_sub (free_frames a) align, cursor_word := cursor_word a\<rparr>)"
      using r(1) Some take_window_bits [OF inv w(1)] by (simp add: allocate_huge_def addr)
    have cur: "0 < length (bits a) \<longrightarrow> cursor_word a < length (bits a)"
      using inv by (simp add: phys_inv_def)
    have "{w..<w + align} \<subseteq> free_set a" using w window_free_set by blast
    with eq m w(1) take_window [OF inv w cur] show ?thesis
      by (intro disjI2 exI conjI) (assumption | simp)+
  qed
qed

lemma release_bit_spec:
  assumes inv: "phys_inv a" and i: "i < total_frames a"
  shows "\<exists>a'. release_bit i a = Some a' \<and> phys_inv a' \<and> total_frames a' = total_frames a
     \<and> free_set a' = insert i (free_set a)"
proof -
  have "i < 64 * length (bits a)" using i inv padded_bound by (fastforce simp: phys_inv_def)
  then show ?thesis
    using phys_inv_release [OF inv i] inv i
    by (cases "bit_at (bits a) i") (auto simp: release_bit_def bitmap_eqs free_set_def)
qed

lemma release_bits_spec:
  "phys_inv a \<Longrightarrow> (\<And>i. i \<in> set is \<Longrightarrow> i < total_frames a) \<Longrightarrow>
     \<exists>a'. for_each release_bit is a = Some a' \<and> phys_inv a' \<and> total_frames a' = total_frames a
        \<and> free_set a' = free_set a \<union> set is"
proof (induction "is" arbitrary: a)
  case Nil
  then show ?case by simp
next
  case (Cons i "is")
  from release_bit_spec [OF Cons.prems(1), of i] Cons.prems(2)
  obtain a1 where a1: "release_bit i a = Some a1" "phys_inv a1" "total_frames a1 = total_frames a"
      "free_set a1 = insert i (free_set a)" by auto
  from Cons.IH [OF a1(2)] Cons.prems(2) a1(3) obtain a' where
      "for_each release_bit is a1 = Some a'" "phys_inv a'" "total_frames a' = total_frames a1"
      "free_set a' = free_set a1 \<union> set is" by auto
  with a1 show ?case by auto
qed

lemma deallocate_huge_cases:
  assumes "phys_inv a"
  shows "\<exists>a'. deallocate_huge align a f = Some a' \<and> phys_inv a' \<and> total_frames a' = total_frames a \<and>
     free_set a' = (if f div 4096 + align \<le> total_frames a \<and> f div 4096 mod align = 0
                    then free_set a \<union> {f div 4096..<f div 4096 + align} else free_set a)"
proof (cases "f div 4096 + align \<le> total_frames a \<and> f div 4096 mod align = 0")
  case True
  then have "deallocate_huge align a f = for_each release_bit [f div 4096..<f div 4096 + align] a"
    by (simp add: deallocate_huge_def Let_def for_each_shift)
  moreover have "\<exists>a'. for_each release_bit [f div 4096..<f div 4096 + align] a = Some a' \<and> phys_inv a'
      \<and> total_frames a' = total_frames a
      \<and> free_set a' = free_set a \<union> set [f div 4096..<f div 4096 + align]"
    using True by (intro release_bits_spec assms) auto
  ultimately show ?thesis using True by simp
next
  case False
  then have "deallocate_huge align a f = Some a"
    by (auto simp: deallocate_huge_def Let_def)
  then show ?thesis using assms unfolding if_not_P [OF False] by simp
qed

text \<open>The counting routine counts exactly the aligned windows that the allocation routine may
  return.\<close>

definition huge_windows :: "u64 list \<Rightarrow> nat \<Rightarrow> nat \<Rightarrow> nat \<Rightarrow> nat set" where
  "huge_windows bs tot align start =
     {k. start \<le> k \<and> k mod align = 0 \<and> k + align \<le> tot \<and> window bs k align}"

lemma finite_huge_windows [simp]: "finite (huge_windows bs tot align start)"
  by (rule finite_subset [of _ "{..tot}"]) (auto simp: huge_windows_def)

lemma huge_windows_next:
  assumes "0 < align"
  shows "huge_windows bs tot align start =
     (if start mod align = 0 \<and> start + align \<le> tot \<and> window bs start align then {start} else {})
       \<union> huge_windows bs tot align (next_aligned align start)"
proof -
  have "start = k \<or> next_aligned align start \<le> k" if "start \<le> k" "align dvd k" for k
    using that next_aligned_least [OF assms, of start k] by (cases "start = k") auto
  then show ?thesis
    using next_aligned_gt [OF assms, of start]
    by (auto simp: huge_windows_def) (metis dvd_imp_mod_0 less_numeral_extra(3))
qed

lemma count_huge_spec:
  assumes "tot \<le> 64 * length bs" and "0 < align"
  shows "count_huge bs tot align start count =
     Some (count + card (huge_windows bs tot align start))"
  using assms
proof (induction bs tot align start count rule: count_huge.induct)
  case (1 bs tot align start count)
  note unfold = count_huge.simps [of bs tot align start count]
  note next_win = huge_windows_next [OF "1.prems"(2), of bs tot start]
  have al: "align \<noteq> 0" using "1.prems"(2) by simp
  have gt: "start < next_aligned align start" by (rule next_aligned_gt) (rule "1.prems"(2))
  consider "\<not> start + align \<le> tot" | "start + align \<le> tot" "start mod align \<noteq> 0"
    | "start + align \<le> tot" "start mod align = 0" by blast
  then show ?case
  proof cases
    case 1
    then have "huge_windows bs tot align start = {}" by (auto simp: huge_windows_def)
    then show ?thesis using unfold al 1 by simp
  next
    case 2
    then show ?thesis
      using unfold al "1.IH"(1) [OF al 2 "1.prems"] next_win by simp
  next
    case 3
    then have next_eq: "next_aligned align start = start + align"
      using al by (auto simp: next_aligned_def elim!: dvdE)
    have "start + align \<le> 64 * length bs" using 3(1) "1.prems"(1) by simp
    then obtain r where r: "first_used bs start [0..<align] = Some r"
        "r = None \<longleftrightarrow> window bs start align"
      using first_used_window [of start align bs] window_blocked [of bs _ start align] by fastforce
    have "count_huge bs tot align start count
        = Some ((if r = None then count + 1 else count)
            + card (huge_windows bs tot align (start + align)))"
      using unfold al 3 r(1) "1.IH"(2) [OF al 3(1) _ r(1) "1.prems"] by simp
    moreover have "start \<notin> huge_windows bs tot align (start + align)"
      using al by (simp add: huge_windows_def)
    ultimately show ?thesis
      using next_win 3 r(2) unfolding next_eq by auto
  qed
qed

subsection \<open>The constructor\<close>

lemma for_each_mark_early:
  assumes "\<And>f. f \<in> set (usable_frames e) \<Longrightarrow> f div 4096 < 64 * length bs"
  shows "\<exists>e'. for_each mark_early xs (bs, e) =
     Some (fold upd_set (map (\<lambda>f. f div 4096) (take (length xs) (drop (next_frame e) (usable_frames e)))) bs, e')"
  using assms
proof (induction xs arbitrary: bs e)
  case Nil
  then show ?case by simp
next
  case (Cons x xs)
  let ?e1 = "e\<lparr>next_frame := Suc (next_frame e)\<rparr>"
  have same: "usable_frames ?e1 = usable_frames e" by (simp add: usable_frames_def)
  show ?case
  proof (cases "next_frame e < length (usable_frames e)")
    case True
    let ?f = "usable_frames e ! next_frame e"
    have "?f div 4096 < 64 * length bs" using True Cons.prems by simp
    then have "mark_early x (bs, e) = Some (upd_set (?f div 4096) bs, ?e1)"
      using True by (simp add: mark_early_def early_allocate_frame_def bitmap_eqs)
    then show ?thesis
      using Cons.IH [of ?e1 "upd_set (?f div 4096) bs"] Cons.prems True
      by (auto simp: same Cons_nth_drop_Suc [symmetric])
  next
    case False
    then have "mark_early x (bs, e) = Some (bs, ?e1)"
      by (simp add: mark_early_def early_allocate_frame_def)
    then show ?thesis
      using Cons.IH [of ?e1 bs] Cons.prems False by (auto simp: same)
  qed
qed

definition region_frames :: "MemoryRegion \<Rightarrow> nat list" where
  "region_frames r =
     (if region_kind r = Usable then [region_start r div 4096..<(region_end r + 4095) div 4096] else [])"

lemma for_each_clear_region:
  assumes "\<And>r. r \<in> set rs \<Longrightarrow> region_end r + 4095 \<le> U64_MAX"
    and "\<And>r. r \<in> set rs \<Longrightarrow> (region_end r + 4095) div 4096 \<le> 64 * length bs"
  shows "for_each clear_region rs bs = Some (fold upd_clear (concat (map region_frames rs)) bs)"
  using assms
proof (induction rs arbitrary: bs)
  case Nil
  then show ?case by simp
next
  case (Cons r rs)
  have "clear_region r bs = Some (fold upd_clear (region_frames r) bs)"
  proof (cases "region_kind r = Usable")
    case True
    have "for_each clear_bit_bm (region_frames r) bs = Some (fold upd_clear (region_frames r) bs)"
      using True Cons.prems(2) [of r] by (intro for_each_clear) (auto simp: region_frames_def)
    then show ?thesis
      using True Cons.prems(1) [of r] by (simp add: clear_region_def region_frames_def add64_def)
  qed (simp add: clear_region_def region_frames_def)
  then show ?case using Cons.IH Cons.prems by simp
qed

lemma count_free_eq:
  "n \<le> 64 * length bs \<Longrightarrow> count_free bs n = Some (card {i. i < n \<and> \<not> bit_at bs i})"
proof (induction n)
  case 0
  then show ?case by (simp add: count_free_def)
next
  case (Suc n)
  have "{i. i < Suc n \<and> \<not> bit_at bs i} =
      (if bit_at bs n then {} else {n}) \<union> {i. i < n \<and> \<not> bit_at bs i}"
    by (auto simp: less_Suc_eq)
  then show ?case
    using Suc by (simp add: count_free_def for_each_append bitmap_eqs)
qed

definition map_end :: "MemoryRegion list \<Rightarrow> nat" where
  "map_end rs = foldr max (map region_end rs) 0"

lemma map_end_ge: "r \<in> set rs \<Longrightarrow> region_end r \<le> map_end rs"
  by (induction rs) (auto simp: map_end_def le_max_iff_disj)

lemma step_range_bound: "(i::nat) < (e - s + 4095) div 4096 \<Longrightarrow> s + 4096 * i < e"
proof -
  assume "i < (e - s + 4095) div 4096"
  then have "Suc i * 4096 \<le> e - s + 4095" by (simp add: Suc_le_eq less_eq_div_iff_mult_less_eq [symmetric])
  then show ?thesis by (cases "s \<le> e") auto
qed

lemma words_cover: "(n::nat) \<le> 64 * ((n + 63) div 64)"
  by presburger

lemma usable_frames_bound:
  assumes "f \<in> set (usable_frames e)"
  shows "f div 4096 < (map_end (memory_regions e) + 4095) div 4096"
proof -
  from assms obtain r i where r: "r \<in> set (memory_regions e)"
      "i < (region_end r - region_start r + 4095) div 4096"
      "f = containing_address PAGE_SIZE (region_start r + 4096 * i)"
    by (fastforce simp: usable_frames_def step_range_def)
  have "f \<le> region_start r + 4096 * i" using r(3) by (simp add: containing_address_def)
  also have "\<dots> < region_end r" using r(2) by (rule step_range_bound)
  also have "\<dots> \<le> map_end (memory_regions e)" using r(1) by (rule map_end_ge)
  finally show ?thesis by linarith
qed

text \<open>The frames that are free after the constructor: those of the usable regions that the early
  allocator has not handed out.\<close>

definition initial_free :: "MemoryRegion list \<Rightarrow> nat \<Rightarrow> nat set" where
  "initial_free rs k = set (concat (map region_frames rs))
     - (\<lambda>f. f div 4096) ` set (take k (usable_frames (early_new rs)))"

lemma initial_bits:
  assumes len: "length bs = (n + 63) div 64" and full: "\<And>i. i < 64 * length bs \<Longrightarrow> bit_at bs i"
    and cl: "\<And>i. i \<in> set cs \<Longrightarrow> i < n" and st: "\<And>i. i \<in> set ss \<Longrightarrow> i < n"
  defines "bs' \<equiv> fold upd_set ss (fold upd_clear cs bs)"
  shows "padded bs' n" "{i. i < n \<and> \<not> bit_at bs' i} = set cs - set ss"
proof -
  have n: "n \<le> 64 * length bs" using words_cover [of n] len by simp
  have bound: "i < 64 * length bs" if "i \<in> set cs \<or> i \<in> set ss" for i
    using that cl [of i] st [of i] n by auto
  have bit: "bit_at bs' i \<longleftrightarrow> i \<in> set ss \<or> i \<notin> set cs \<and> bit_at bs i" for i
    using bound by (simp add: bs'_def bit_at_fold_set bit_at_fold_clear)
  show "padded bs' n"
    using len full by (auto simp: padded_def bit bs'_def [symmetric] dest: cl) (simp_all add: bs'_def)
  show "{i. i < n \<and> \<not> bit_at bs' i} = set cs - set ss"
    using bit cl full n by fastforce
qed

lemma from_memory_regions_spec:
  assumes "map_end rs + 4095 \<le> U64_MAX"
  shows "\<exists>a. from_memory_regions rs early = Some a \<and> phys_inv a
     \<and> total_frames a = (map_end rs + 4095) div 4096
     \<and> free_set a = initial_free rs (allocated_count early)"
proof -
  let ?n = "(map_end rs + 4095) div 4096"
  define bs0 where "bs0 = (replicate ((?n + 63) div 64) (- 1) :: u64 list)"
  define cs where "cs = concat (map region_frames rs)"
  define ss where "ss = map (\<lambda>f. f div 4096) (take (allocated_count early) (usable_frames (early_new rs)))"
  have n: "?n \<le> 64 * length bs0" unfolding bs0_def length_replicate by (rule words_cover)
  have cl: "i < ?n" if "i \<in> set cs" for i
  proof -
    from that obtain r where "r \<in> set rs" "i < (region_end r + 4095) div 4096"
      by (auto simp: cs_def region_frames_def split: if_splits)
    moreover have "(region_end r + 4095) div 4096 \<le> ?n"
      using map_end_ge \<open>r \<in> set rs\<close> by (intro div_le_mono) simp
    ultimately show ?thesis by simp
  qed
  have st: "f div 4096 < ?n" if "f \<in> set (usable_frames (early_new rs))" for f
    using usable_frames_bound [OF that] by (simp add: early_new_def)
  have clear: "for_each clear_region rs bs0 = Some (fold upd_clear cs bs0)"
    unfolding cs_def using assms map_end_ge [of _ rs] n
    by (intro for_each_clear_region) (fastforce, meson add_le_mono1 div_le_mono le_trans)
  obtain e' where early: "for_each mark_early [0..<allocated_count early] (fold upd_clear cs bs0, early_new rs)
      = Some (fold upd_set ss (fold upd_clear cs bs0), e')"
    using for_each_mark_early [of "early_new rs" "fold upd_clear cs bs0" "[0..<allocated_count early]"]
      st n by (fastforce simp: ss_def early_new_def)
  have bits0: "bit_at bs0 i" if "i < 64 * length bs0" for i
    using div64_less [OF that] by (simp add: bit_at_def bs0_def)
  have ss_bound: "i < ?n" if "i \<in> set ss" for i
    using that st by (auto simp: ss_def dest: in_set_takeD)
  let ?bs = "fold upd_set ss (fold upd_clear cs bs0)"
  let ?a = "\<lparr>bits = ?bs, total_frames = ?n,
      free_frames = card {i. i < ?n \<and> \<not> bit_at ?bs i}, cursor_word = 0\<rparr>"
  have len: "length bs0 = (?n + 63) div 64" by (simp add: bs0_def)
  have pad: "padded ?bs ?n" by (rule initial_bits(1) [OF len bits0]) (simp_all add: cl ss_bound)
  have free: "{i. i < ?n \<and> \<not> bit_at ?bs i} = set cs - set ss"
    by (rule initial_bits(2) [OF len bits0]) (simp_all add: cl ss_bound)
  have "from_memory_regions rs early = Some ?a"
    unfolding from_memory_regions_def map_end_def [symmetric]
    using assms clear early count_free_eq [of ?n ?bs] n by (simp add: add64_def Let_def bs0_def)
  moreover have "phys_inv ?a" using pad by (auto simp: phys_inv_def free_set_def bs0_def)
  moreover have "free_set ?a = initial_free rs (allocated_count early)"
    using free by (simp add: free_set_def initial_free_def cs_def ss_def)
  ultimately show ?thesis by fastforce
qed

subsection \<open>The interface to the rest of the kernel\<close>

text \<open>
  What a client of a frame allocator relies on: under the allocator's invariant an allocation does not
  panic, fails only when no frame is free, and otherwise hands out a free frame, which is free no
  longer; a deallocation of a managed frame makes it free again.
\<close>

locale frame_allocator =
  fixes alloc :: "'a \<Rightarrow> (phys_frame option \<times> 'a) option"
    and dealloc :: "'a \<Rightarrow> phys_frame \<Rightarrow> 'a option"
    and frees :: "'a \<Rightarrow> phys_frame set"
    and managed :: "'a \<Rightarrow> phys_frame set"
    and inv :: "'a \<Rightarrow> bool"
  assumes alloc_ok: "inv a \<Longrightarrow> (alloc a = Some (None, a) \<and> frees a = {}) \<or>
       (\<exists>f a'. alloc a = Some (Some f, a') \<and> f \<in> frees a \<and> inv a' \<and> frees a' = frees a - {f}
          \<and> managed a' = managed a)"
    and dealloc_ok: "inv a \<Longrightarrow> f \<in> managed a \<Longrightarrow>
       \<exists>a'. dealloc a f = Some a' \<and> inv a' \<and> frees a' = insert f (frees a) \<and> managed a' = managed a"
    and frees_managed: "inv a \<Longrightarrow> frees a \<subseteq> managed a"
begin

text \<open>A client holds a list of frames; it takes a frame from the allocator or gives one back.\<close>

definition take_one :: "'a \<times> phys_frame list \<Rightarrow> ('a \<times> phys_frame list) option" where
  "take_one s = (case s of (a, held) \<Rightarrow>
     (case alloc a of None \<Rightarrow> None
      | Some (None, a') \<Rightarrow> Some (a', held) | Some (Some f, a') \<Rightarrow> Some (a', f # held)))"

definition give_back :: "nat \<Rightarrow> 'a \<times> phys_frame list \<Rightarrow> ('a \<times> phys_frame list) option" where
  "give_back i s = (case s of (a, held) \<Rightarrow>
     if i < length held then map_option (\<lambda>a'. (a', remove_at i held)) (dealloc a (held ! i))
     else Some (a, held))"

definition step :: "nat option \<Rightarrow> 'a \<times> phys_frame list \<Rightarrow> ('a \<times> phys_frame list) option" where
  "step c s = (case c of None \<Rightarrow> take_one s | Some i \<Rightarrow> give_back i s)"

definition owned :: "phys_frame set \<Rightarrow> 'a \<times> phys_frame list \<Rightarrow> bool" where
  "owned pool s \<longleftrightarrow> (case s of (a, held) \<Rightarrow> inv a \<and> distinct held \<and> set held \<inter> frees a = {}
     \<and> set held \<union> frees a = pool \<and> set held \<subseteq> managed a)"

lemma take_one_owned: "owned pool s \<Longrightarrow> \<exists>s'. take_one s = Some s' \<and> owned pool s'"
proof (cases s)
  case (Pair a held)
  assume own: "owned pool s"
  then have "inv a" by (simp add: owned_def Pair)
  from alloc_ok [OF this] frees_managed [OF this] own show ?thesis
    by (auto simp: take_one_def owned_def Pair)
qed

lemma give_back_owned:
  assumes own: "owned pool s"
  shows "\<exists>s'. give_back i s = Some s' \<and> owned pool s'"
proof (cases s)
  case (Pair a held)
  show ?thesis
  proof (cases "i < length held")
    case True
    let ?f = "held ! i"
    have split: "held = take i held @ ?f # drop (Suc i) held" using True by (rule id_take_nth_drop)
    have inv: "inv a" "?f \<in> managed a" using own True by (auto simp: owned_def Pair)
    from dealloc_ok [OF this] obtain a' where
      a': "dealloc a ?f = Some a'" "inv a'" "frees a' = insert ?f (frees a)" "managed a' = managed a"
      by blast
    have dist: "distinct (take i held @ ?f # drop (Suc i) held)"
      using own split by (simp add: owned_def Pair)
    then have set: "set (remove_at i held) = set held - {?f}"
      by (subst (2) split) (auto simp: remove_at_def)
    have "owned pool (a', remove_at i held)"
      using own a' dist set True by (auto simp: owned_def Pair remove_at_def)
    then show ?thesis using a' True by (simp add: give_back_def Pair)
  qed (use own in \<open>simp add: give_back_def Pair\<close>)
qed

lemma step_owned: "owned pool s \<Longrightarrow> \<exists>s'. step c s = Some s' \<and> owned pool s'"
proof (cases c)
  case None
  then show "owned pool s \<Longrightarrow> ?thesis" unfolding step_def by (simp only: option.case take_one_owned)
next
  case (Some i)
  then show "owned pool s \<Longrightarrow> ?thesis" unfolding step_def by (simp only: option.case give_back_owned)
qed

theorem run_owned:
  assumes "owned pool s"
  shows "\<exists>s'. for_each step cs s = Some s' \<and> owned pool s'"
  using assms
proof (induction cs arbitrary: s)
  case Nil
  then show ?case by simp
next
  case (Cons c cs)
  from step_owned [OF Cons.prems] obtain s1 where "step c s = Some s1" "owned pool s1" by blast
  with Cons.IH [of s1] show ?case by auto
qed

end

definition managed_addrs :: "BitmapFrameAllocator \<Rightarrow> phys_frame set" where
  "managed_addrs a = (\<lambda>i. i * 4096) ` {..<total_frames a}"

interpretation bitmap: frame_allocator allocate deallocate free_addrs managed_addrs phys_inv
proof
  fix a :: BitmapFrameAllocator
  assume inv: "phys_inv a"
  have inj: "(\<lambda>i. i * 4096) ` (A - {i}) = (\<lambda>i. i * 4096) ` A - {i * 4096}" for A and i :: nat
    by auto
  show "(allocate a = Some (None, a) \<and> free_addrs a = {}) \<or>
       (\<exists>f a'. allocate a = Some (Some f, a') \<and> f \<in> free_addrs a \<and> phys_inv a'
          \<and> free_addrs a' = free_addrs a - {f} \<and> managed_addrs a' = managed_addrs a)"
    using allocate_cases [OF inv] by (auto simp: free_addrs_def managed_addrs_def inj)
  show "\<exists>a'. deallocate a f = Some a' \<and> phys_inv a' \<and> free_addrs a' = insert f (free_addrs a)
      \<and> managed_addrs a' = managed_addrs a" if "f \<in> managed_addrs a" for f
    using deallocate_cases [OF inv, of f] that by (auto simp: free_addrs_def managed_addrs_def)
  show "free_addrs a \<subseteq> managed_addrs a"
    by (auto simp: free_addrs_def managed_addrs_def free_set_def)
qed

text \<open>A bitmap of \<open>k\<close> words whose frames are all free, with the cursor at word \<open>c\<close>; it satisfies the
  invariant and serves as a concrete state.\<close>

definition all_free :: "nat \<Rightarrow> nat \<Rightarrow> BitmapFrameAllocator" where
  "all_free k c = \<lparr>bits = replicate k 0, total_frames = 64 * k, free_frames = 64 * k, cursor_word = c\<rparr>"

lemma free_set_all_free: "free_set (all_free k c) = {..<64 * k}"
proof -
  have "\<not> bit_at (replicate k 0) i" if "i < 64 * k" for i
    using div64_less [OF that] by (simp add: bit_at_def)
  then show ?thesis by (auto simp: free_set_def all_free_def)
qed

lemma phys_inv_all_free: "c < k \<Longrightarrow> phys_inv (all_free k c)"
proof -
  assume "c < k"
  moreover have "padded (replicate k 0) (64 * k)" by (auto simp: padded_def)
  ultimately show ?thesis
    using free_set_all_free [of k c] by (simp add: phys_inv_def) (simp add: all_free_def)
qed

subsection \<open>Properties\<close>

text \<open>A client of the bitmap allocator: it holds frames, and each command takes one more
  (\<open>None\<close>) or gives back the one at a position (\<open>Some i\<close>).\<close>

definition client_step ::
  "nat option \<Rightarrow> BitmapFrameAllocator \<times> phys_frame list \<Rightarrow> (BitmapFrameAllocator \<times> phys_frame list) option"
where
  "client_step c s = (case s of (a, held) \<Rightarrow> (case c of
     None \<Rightarrow> (case allocate a of None \<Rightarrow> None
       | Some (None, a') \<Rightarrow> Some (a', held) | Some (Some f, a') \<Rightarrow> Some (a', f # held))
   | Some i \<Rightarrow> if i < length held
       then map_option (\<lambda>a'. (a', remove_at i held)) (deallocate a (held ! i)) else Some (a, held)))"

lemma client_step_eq: "client_step = bitmap.step"
  by (intro ext) (auto simp: client_step_def bitmap.step_def bitmap.take_one_def bitmap.give_back_def
      split: option.splits prod.splits)

text \<open>C4. From the allocator built for a boot memory map, whatever sequence of allocations and
  deallocations a client runs: no step panics, the frames the client holds are pairwise distinct, none
  of them is free in the bitmap, and held and free frames together are always exactly the usable frames
  of the map that the early allocator had not consumed (no frame is handed out twice, none is lost).\<close>

theorem frames_never_shared_or_lost:
  assumes "map_end rs + 4095 \<le> U64_MAX"
  shows "\<exists>a a' held. from_memory_regions rs early = Some a \<and> for_each client_step cs (a, []) = Some (a', held)
     \<and> phys_inv a' \<and> distinct held \<and> set held \<inter> free_addrs a' = {}
     \<and> set held \<union> free_addrs a' = (\<lambda>i. i * 4096) ` initial_free rs (allocated_count early)"
proof -
  obtain a where a: "from_memory_regions rs early = Some a" "phys_inv a"
      "free_set a = initial_free rs (allocated_count early)"
    using from_memory_regions_spec [OF assms] by blast
  have "bitmap.owned (free_addrs a) (a, [])" using a(2) by (simp add: bitmap.owned_def)
  from bitmap.run_owned [OF this, of cs] obtain a' held where
    "for_each client_step cs (a, []) = Some (a', held)" "bitmap.owned (free_addrs a) (a', held)"
    unfolding client_step_eq by auto
  then show ?thesis using a by (auto simp: bitmap.owned_def free_addrs_def)
qed

theorem frames_never_shared_or_lost_witness:
  "map_end [\<lparr>region_start = 4096, region_end = 16384, region_kind = Usable\<rparr>] + 4095 \<le> U64_MAX \<and>
   (\<exists>a a' held. from_memory_regions [\<lparr>region_start = 4096, region_end = 16384, region_kind = Usable\<rparr>]
        \<lparr>memory_regions = [], next_frame = 1\<rparr> = Some a
     \<and> for_each client_step [None, None, Some 0, None] (a, []) = Some (a', held)
     \<and> distinct held \<and> set held \<union> free_addrs a' = {8192, 12288})"
proof -
  let ?rs = "[\<lparr>region_start = 4096, region_end = 16384, region_kind = Usable\<rparr>]"
  have h: "map_end ?rs + 4095 \<le> U64_MAX" by (simp add: map_end_def U64_MAX_def)
  have "[Suc 0..<4] = [1, 2, 3]" by (simp add: upt_rec)
  then have "initial_free ?rs 1 = {2, 3}"
    by (auto simp: initial_free_def region_frames_def usable_frames_def early_new_def step_range_def
        containing_address_def PAGE_SIZE_def upt_rec)
  then have "(\<lambda>i. i * 4096) ` initial_free ?rs 1 = {8192, 12288}" by simp
  with frames_never_shared_or_lost [OF h, of "\<lparr>memory_regions = [], next_frame = 1\<rparr>"
      "[None, None, Some 0, None]"] h
  show ?thesis by (simp add: allocated_count_def) metis
qed

text \<open>A single-frame allocation fails only when no frame is free, wherever the cursor stands, and
  otherwise takes exactly one free frame out of the free set; freeing that frame again restores the
  free set, and the counter reported by \<open>free_frames\<close> is the size of the free set throughout.\<close>

theorem allocate_complete_roundtrip:
  assumes "phys_inv a"
  shows "(free_set a = {} \<and> allocate a = Some (None, a)) \<or>
    (\<exists>i a' a''. i \<in> free_set a \<and> allocate a = Some (Some (i * 4096), a')
       \<and> free_set a' = free_set a - {i} \<and> free_frames a' = card (free_set a) - 1
       \<and> deallocate a' (i * 4096) = Some a'' \<and> free_set a'' = free_set a
       \<and> free_frames a'' = free_frames a)"
proof -
  consider "allocate a = Some (None, a)" "free_set a = {}"
    | i a' where "allocate a = Some (Some (i * 4096), a')" "i \<in> free_set a" "phys_inv a'"
        "free_set a' = free_set a - {i}" "total_frames a' = total_frames a"
    using allocate_cases [OF assms] by blast
  then show ?thesis
  proof cases
    case (2 i a')
    moreover have "i < total_frames a'" using 2(2,5) by (simp add: free_set_def)
    ultimately obtain a'' where "deallocate a' (i * 4096) = Some a''" "phys_inv a''"
        "free_set a'' = free_set a"
      using deallocate_cases [OF 2(3), of "i * 4096"] by (auto simp: insert_absorb)
    then show ?thesis using 2 assms by (auto simp: phys_inv_def)
  qed simp
qed

theorem allocate_complete_roundtrip_witness:
  "phys_inv (all_free 2 1) \<and> (\<exists>i a' a''. allocate (all_free 2 1) = Some (Some (i * 4096), a')
     \<and> i < 128 \<and> free_frames a' = 127 \<and> deallocate a' (i * 4096) = Some a'' \<and> free_frames a'' = 128)"
proof -
  have inv: "phys_inv (all_free 2 1)" by (rule phys_inv_all_free) simp
  have "free_frames (all_free 2 1) = 128" by (simp add: all_free_def)
  with allocate_complete_roundtrip [OF inv] inv show ?thesis
    unfolding free_set_all_free by fastforce
qed

text \<open>A contiguous allocation is first fit from the cursor: it returns the first window of \<open>n\<close>
  free frames at or after the cursor's word, marks exactly these frames used, and fails only when no
  such window starts at or after the cursor.\<close>

theorem allocate_contiguous_first_fit:
  assumes "phys_inv a" and "0 < n"
  shows "(allocate_contiguous a n = Some (None, a) \<and>
            (\<forall>k \<ge> contiguous_start a. k + n \<le> total_frames a \<longrightarrow> \<not> {k..<k + n} \<subseteq> free_set a)) \<or>
    (\<exists>w a'. allocate_contiguous a n = Some (Some (w * 4096), a') \<and> phys_inv a'
       \<and> {w..<w + n} \<subseteq> free_set a \<and> free_set a' = free_set a - {w..<w + n}
       \<and> contiguous_start a \<le> w
       \<and> (\<forall>k \<in> {contiguous_start a..<w}. \<not> {k..<k + n} \<subseteq> free_set a))"
  using allocate_contiguous_cases [OF assms] unfolding first_fit_def
  by (auto simp: window_free_set [symmetric])

theorem allocate_contiguous_first_fit_witness:
  "phys_inv (all_free 2 1) \<and> (0::nat) < 3 \<and>
   (\<exists>w a'. allocate_contiguous (all_free 2 1) 3 = Some (Some (w * 4096), a') \<and> 64 \<le> w
      \<and> {w..<w + 3} \<inter> free_set a' = {})"
proof -
  have inv: "phys_inv (all_free 2 1)" by (rule phys_inv_all_free) simp
  have start: "contiguous_start (all_free 2 1) = 64" "total_frames (all_free 2 1) = 128"
    by (simp_all add: contiguous_start_def all_free_def)
  have "\<not> (\<forall>k \<ge> 64. k + 3 \<le> 128 \<longrightarrow> \<not> {k..<k + 3} \<subseteq> {..<(128::nat)})"
    by (auto intro!: exI [of _ 64])
  with allocate_contiguous_first_fit [OF inv, of 3] inv start show ?thesis
    unfolding free_set_all_free by fastforce
qed

text \<open>A 2 MiB huge-page allocation returns an aligned run of 512 free frames whenever there is one,
  fails only when there is none, takes exactly that run out of the free set, and deallocating the
  returned page restores the free set.\<close>

theorem huge_2mb_roundtrip:
  assumes inv: "phys_inv a"
  shows "(allocate_huge_2mb a = Some (None, a) \<and>
            (\<forall>k. k mod 512 = 0 \<and> k + 512 \<le> total_frames a \<longrightarrow> \<not> {k..<k + 512} \<subseteq> free_set a)) \<or>
    (\<exists>w a' a''. allocate_huge_2mb a = Some (Some (w * 4096), a') \<and> w mod 512 = 0
       \<and> {w..<w + 512} \<subseteq> free_set a \<and> free_set a' = free_set a - {w..<w + 512}
       \<and> deallocate_huge_2mb a' (w * 4096) = Some a'' \<and> free_set a'' = free_set a)"
proof -
  have "(0::nat) < 512" by simp
  note cases = allocate_huge_cases [OF inv this]
  consider (none) "allocate_huge 512 a = Some (None, a)"
      "\<forall>k. k mod 512 = 0 \<and> k + 512 \<le> total_frames a \<longrightarrow> \<not> {k..<k + 512} \<subseteq> free_set a"
    | (some) w a' where "allocate_huge 512 a = Some (Some (w * 4096), a')" "phys_inv a'"
        "w mod 512 = 0" "w + 512 \<le> total_frames a" "{w..<w + 512} \<subseteq> free_set a"
        "free_set a' = free_set a - {w..<w + 512}" "total_frames a' = total_frames a"
    using cases by metis
  then show ?thesis
  proof cases
    case none
    then show ?thesis by (simp add: allocate_huge_2mb_def FRAMES_PER_2MB_def)
  next
    case (some w a')
    then obtain a'' where "deallocate_huge 512 a' (w * 4096) = Some a''"
        "free_set a'' = free_set a' \<union> {w..<w + 512}"
      using deallocate_huge_cases [OF some(2), of 512 "w * 4096"] by auto
    then show ?thesis using some
      by (auto simp: allocate_huge_2mb_def deallocate_huge_2mb_def FRAMES_PER_2MB_def)
  qed
qed

theorem huge_2mb_roundtrip_witness:
  "phys_inv (all_free 8 0) \<and> (\<exists>w a' a''. allocate_huge_2mb (all_free 8 0) = Some (Some (w * 4096), a')
     \<and> w mod 512 = 0 \<and> deallocate_huge_2mb a' (w * 4096) = Some a'' \<and> free_set a'' = {..<512})"
proof -
  have inv: "phys_inv (all_free 8 0)" by (rule phys_inv_all_free) simp
  have "total_frames (all_free 8 0) = 512" by (simp add: all_free_def)
  then have "\<not> (\<forall>k. k mod 512 = 0 \<and> k + 512 \<le> total_frames (all_free 8 0) \<longrightarrow> \<not> {k..<k + 512} \<subseteq> {..<512})"
    by (auto intro!: exI [of _ 0])
  with huge_2mb_roundtrip [OF inv] inv show ?thesis
    unfolding free_set_all_free by (simp del: mod_0_imp_dvd) metis
qed

text \<open>The number of available 2 MiB pages reported is the number of aligned runs of 512 free
  frames.\<close>

theorem count_huge_2mb_exact:
  assumes inv: "phys_inv a"
  shows "count_huge_2mb_available a =
    Some (card {k. k mod 512 = 0 \<and> k + 512 \<le> total_frames a \<and> {k..<k + 512} \<subseteq> free_set a})"
proof -
  have "total_frames a \<le> 64 * length (bits a)"
    using inv padded_bound by (auto simp: phys_inv_def)
  moreover have "huge_windows (bits a) (total_frames a) 512 0 =
      {k. k mod 512 = 0 \<and> k + 512 \<le> total_frames a \<and> {k..<k + 512} \<subseteq> free_set a}"
    using window_free_set [of _ 512 a] by (auto simp: huge_windows_def)
  ultimately show ?thesis
    by (simp add: count_huge_2mb_available_def FRAMES_PER_2MB_def count_huge_spec)
qed

theorem count_huge_2mb_exact_witness:
  "phys_inv (all_free 16 0) \<and> count_huge_2mb_available (all_free 16 0) = Some 2"
proof -
  have inv: "phys_inv (all_free 16 0)" by (rule phys_inv_all_free) simp
  have "k mod 512 = 0 \<and> k + 512 \<le> 1024 \<longleftrightarrow> k = 0 \<or> k = 512" for k :: nat
    by (auto elim!: dvdE)
  then have "{k. k mod 512 = 0 \<and> k + 512 \<le> (1024::nat) \<and> {k..<k + 512} \<subseteq> {..<1024}} = {0, 512}"
    by auto
  with count_huge_2mb_exact [OF inv] inv show ?thesis
    unfolding free_set_all_free by (simp add: all_free_def)
qed

text \<open>The contiguous search does not wrap around: with the cursor in the second of two words, a run
  of 65 frames is refused although all 128 frames are free.\<close>

theorem allocate_contiguous_misses_before_cursor:
  "phys_inv (all_free 2 1) \<and> {0..<0 + 65} \<subseteq> free_set (all_free 2 1)
     \<and> allocate_contiguous (all_free 2 1) 65 = Some (None, all_free 2 1)"
proof -
  have inv: "phys_inv (all_free 2 1)" by (rule phys_inv_all_free) simp
  have start: "contiguous_start (all_free 2 1) = 64" "total_frames (all_free 2 1) = 128"
    by (simp_all add: contiguous_start_def all_free_def)
  have "allocate_contiguous (all_free 2 1) 65 = Some (None, all_free 2 1)"
    using allocate_contiguous_cases [OF inv, of 65] start by (auto simp: first_fit_def)
  then show ?thesis using inv by (auto simp: free_set_all_free)
qed

end
