(* ===== verification/Rt.thy ===== *)
theory Rt
  imports Prelude
begin

text \<open>
  Real-time scheduling, \<^verbatim>\<open>kernel/src/sched/rt.rs\<close>: the policies \<open>SCHED_FIFO\<close> and \<open>SCHED_RR\<close>, the
  run queue with 99 priority levels, its bitmap of active levels and its cached highest priority, and
  the per-task state with the round-robin time slice.

  The atomics of the run queue are accessed under its \<open>&mut self\<close> methods and are plain fields here;
  \<open>fetch_add\<close> and \<open>fetch_sub\<close> wrap, so \<open>nr_running\<close> is a \<open>32 word\<close>.  The invariant \<open>rt_inv\<close> says that
  the bitmap and the counter agree with the queues; every operation keeps it.  \<open>highest_ok\<close> says that
  the cached priority is that of the highest non-empty level; enqueueing keeps it, but recomputing it
  from the bitmap is off by one (\<open>recalc_highest_prio_off_by_one\<close>).
\<close>

definition RT_PRIO_MIN :: nat where "RT_PRIO_MIN = 1"

definition RT_PRIO_MAX :: nat where "RT_PRIO_MAX = 99"

definition SCHED_RR_TIMESLICE :: nat where "SCHED_RR_TIMESLICE = 10"

datatype SchedPolicy = Other | Fifo | RoundRobin | Batch | Idle | Deadline

definition from_u32 :: "nat \<Rightarrow> SchedPolicy option" where
  "from_u32 p =
     (if p = 0 then Some Other else if p = 1 then Some Fifo else if p = 2 then Some RoundRobin
      else if p = 3 then Some Batch else if p = 5 then Some Idle else if p = 6 then Some Deadline
      else None)"

text \<open>The discriminant, \<open>policy as u32\<close>.\<close>

fun policy_u32 :: "SchedPolicy \<Rightarrow> nat" where
  "policy_u32 Other = 0"
| "policy_u32 Fifo = 1"
| "policy_u32 RoundRobin = 2"
| "policy_u32 Batch = 3"
| "policy_u32 Idle = 5"
| "policy_u32 Deadline = 6"

definition is_realtime :: "SchedPolicy \<Rightarrow> bool" where
  "is_realtime p = (p = Fifo \<or> p = RoundRobin)"

definition is_normal :: "SchedPolicy \<Rightarrow> bool" where
  "is_normal p = (p = Other \<or> p = Batch \<or> p = Idle)"

definition min_priority :: "SchedPolicy \<Rightarrow> nat" where
  "min_priority p = (if p = Fifo \<or> p = RoundRobin then RT_PRIO_MIN else 0)"

definition max_priority :: "SchedPolicy \<Rightarrow> nat" where
  "max_priority p = (if p = Fifo \<or> p = RoundRobin then RT_PRIO_MAX else 0)"

definition clamp :: "nat \<Rightarrow> nat \<Rightarrow> nat \<Rightarrow> nat" where
  "clamp lo hi x = max lo (min hi x)"

subsection \<open>The run queue\<close>

record RtEntry =
  task_id :: nat
  rt_priority :: nat
  rt_policy :: SchedPolicy
  time_slice :: nat

record RtStats =
  context_switches :: nat
  fifo_scheduled :: nat
  rr_scheduled :: nat
  rr_timeslice_expired :: nat
  rt_preemptions :: nat

record RtRunqueue =
  queues :: "RtEntry list list"
  nr_running :: "u32"
  active_lo :: u64
  active_hi :: u64
  highest_prio :: nat
  stats :: RtStats

definition rq_new :: RtRunqueue where
  "rq_new = \<lparr>queues = replicate 99 [], nr_running = 0, active_lo = 0, active_hi = 0,
     highest_prio = 0, stats = \<lparr>context_switches = 0, fifo_scheduled = 0, rr_scheduled = 0,
       rr_timeslice_expired = 0, rt_preemptions = 0\<rparr>\<rparr>"

definition rq_is_empty :: "RtRunqueue \<Rightarrow> bool" where
  "rq_is_empty q = (nr_running q = 0)"

definition rq_len :: "RtRunqueue \<Rightarrow> nat" where
  "rq_len q = unat (nr_running q)"

definition set_bitmap_bit :: "nat \<Rightarrow> RtRunqueue \<Rightarrow> RtRunqueue" where
  "set_bitmap_bit prio q =
     (if prio \<le> 64 then q\<lparr>active_lo := active_lo q OR push_bit (prio - 1) 1\<rparr>
      else q\<lparr>active_hi := active_hi q OR push_bit (prio - 65) 1\<rparr>)"

definition clear_bitmap_bit :: "nat \<Rightarrow> RtRunqueue \<Rightarrow> RtRunqueue" where
  "clear_bitmap_bit prio q =
     (if prio \<le> 64 then q\<lparr>active_lo := active_lo q AND NOT (push_bit (prio - 1) 1)\<rparr>
      else q\<lparr>active_hi := active_hi q AND NOT (push_bit (prio - 65) 1)\<rparr>)"

definition recalc_highest_prio :: "RtRunqueue \<Rightarrow> RtRunqueue" where
  "recalc_highest_prio q =
     (if active_hi q \<noteq> 0 then q\<lparr>highest_prio := 65 + (64 - leading_zeros (active_hi q))\<rparr>
      else if active_lo q \<noteq> 0 then q\<lparr>highest_prio := 1 + (64 - leading_zeros (active_lo q))\<rparr>
      else q\<lparr>highest_prio := 0\<rparr>)"

text \<open>\<open>highest_prio.load() as u8\<close>.\<close>

definition highest_u8 :: "RtRunqueue \<Rightarrow> nat" where
  "highest_u8 q = highest_prio q mod 256"

definition push_back :: "nat \<Rightarrow> RtEntry \<Rightarrow> RtRunqueue \<Rightarrow> RtRunqueue option" where
  "push_back i e q = do {
     qu \<leftarrow> idx (queues q) i;
     qs \<leftarrow> set_idx (queues q) i (qu @ [e]);
     Some (q\<lparr>queues := qs\<rparr>)
   }"

definition enqueue_rt :: "RtEntry \<Rightarrow> RtRunqueue \<Rightarrow> RtRunqueue option" where
  "enqueue_rt entry q = do {
     let prio = clamp RT_PRIO_MIN RT_PRIO_MAX (rt_priority entry);
     q \<leftarrow> push_back (prio - 1) entry q;
     let q = set_bitmap_bit prio (q\<lparr>nr_running := nr_running q + 1\<rparr>);
     Some (if prio > highest_u8 q then q\<lparr>highest_prio := prio\<rparr> else q)
   }"

fun dequeue_scan :: "nat list \<Rightarrow> nat \<Rightarrow> RtRunqueue \<Rightarrow> (RtEntry option \<times> RtRunqueue) option" where
  "dequeue_scan [] tid q = Some (None, q)"
| "dequeue_scan (prio # prios) tid q = do {
     qu \<leftarrow> idx (queues q) (prio - 1);
     case position (\<lambda>e. task_id e = tid) qu of
       None \<Rightarrow> dequeue_scan prios tid q
     | Some pos \<Rightarrow>
         (let entry = qu ! pos;
              q1 = q\<lparr>queues := (queues q)[prio - 1 := remove_at pos qu], nr_running := nr_running q - 1\<rparr>;
              q2 = (if remove_at pos qu = [] then clear_bitmap_bit prio q1 else q1)
          in Some (Some entry, recalc_highest_prio q2))
   }"

definition dequeue_rt :: "nat \<Rightarrow> RtRunqueue \<Rightarrow> (RtEntry option \<times> RtRunqueue) option" where
  "dequeue_rt tid q = dequeue_scan (rev [RT_PRIO_MIN..<Suc RT_PRIO_MAX]) tid q"

definition count_pick :: "RtEntry \<Rightarrow> RtRunqueue \<Rightarrow> RtRunqueue" where
  "count_pick e q =
     (let st = stats q;
          st = (case rt_policy e of
                  Fifo \<Rightarrow> st\<lparr>fifo_scheduled := fifo_scheduled st + 1\<rparr>
                | RoundRobin \<Rightarrow> st\<lparr>rr_scheduled := rr_scheduled st + 1\<rparr>
                | _ \<Rightarrow> st)
      in q\<lparr>stats := st\<lparr>context_switches := context_switches st + 1\<rparr>\<rparr>)"

definition pick_next :: "RtRunqueue \<Rightarrow> (RtEntry option \<times> RtRunqueue) option" where
  "pick_next q =
     (let highest = highest_u8 q in
      if highest = 0 then Some (None, q)
      else do {
        qu \<leftarrow> idx (queues q) (highest - 1);
        case qu of
          [] \<Rightarrow> Some (None, q)
        | entry # rest \<Rightarrow>
            (let q1 = count_pick entry
                   (q\<lparr>queues := (queues q)[highest - 1 := rest], nr_running := nr_running q - 1\<rparr>);
                 q2 = (if rest = [] then recalc_highest_prio (clear_bitmap_bit highest q1) else q1)
             in Some (Some entry, q2))
      })"

definition peek_next :: "RtRunqueue \<Rightarrow> RtEntry option option" where
  "peek_next q =
     (let highest = highest_u8 q in
      if highest = 0 then Some None
      else do {
        qu \<leftarrow> idx (queues q) (highest - 1);
        Some (case qu of [] \<Rightarrow> None | e # _ \<Rightarrow> Some e)
      })"

definition requeue_rr :: "RtEntry \<Rightarrow> RtRunqueue \<Rightarrow> RtRunqueue option" where
  "requeue_rr entry q = do {
     let prio = clamp RT_PRIO_MIN RT_PRIO_MAX (rt_priority entry);
     q \<leftarrow> push_back (prio - 1) (entry\<lparr>time_slice := SCHED_RR_TIMESLICE\<rparr>) q;
     let q = q\<lparr>nr_running := nr_running q + 1,
               stats := (stats q)\<lparr>rr_timeslice_expired := rr_timeslice_expired (stats q) + 1\<rparr>\<rparr>;
     let q = set_bitmap_bit prio q;
     Some (if prio > highest_u8 q then q\<lparr>highest_prio := prio\<rparr> else q)
   }"

definition update_priority :: "nat \<Rightarrow> nat \<Rightarrow> RtRunqueue \<Rightarrow> (bool \<times> RtRunqueue) option" where
  "update_priority tid new_priority q = do {
     (r, q) \<leftarrow> dequeue_rt tid q;
     case r of
       None \<Rightarrow> Some (False, q)
     | Some entry \<Rightarrow> do {
         q \<leftarrow> enqueue_rt (entry\<lparr>rt_priority := clamp RT_PRIO_MIN RT_PRIO_MAX new_priority\<rparr>) q;
         Some (True, q)
       }
   }"

fun get_entry_scan :: "nat list \<Rightarrow> nat \<Rightarrow> RtRunqueue \<Rightarrow> RtEntry option option" where
  "get_entry_scan [] tid q = Some None"
| "get_entry_scan (prio # prios) tid q = do {
     qu \<leftarrow> idx (queues q) (prio - 1);
     case List.find (\<lambda>e. task_id e = tid) qu of
       Some e \<Rightarrow> Some (Some e)
     | None \<Rightarrow> get_entry_scan prios tid q
   }"

definition get_entry :: "nat \<Rightarrow> RtRunqueue \<Rightarrow> RtEntry option option" where
  "get_entry tid q = get_entry_scan (rev [RT_PRIO_MIN..<Suc RT_PRIO_MAX]) tid q"

definition should_preempt :: "RtRunqueue \<Rightarrow> nat \<Rightarrow> bool" where
  "should_preempt q current_priority = (highest_u8 q > current_priority)"

subsection \<open>Per-task state\<close>

record RtEntity =
  ent_policy :: SchedPolicy
  ent_priority :: nat
  ent_time_slice :: nat
  on_rq :: bool
  run_cnt :: nat

definition entity_new :: RtEntity where
  "entity_new = \<lparr>ent_policy = Other, ent_priority = 0, ent_time_slice = 0, on_rq = False, run_cnt = 0\<rparr>"

definition with_policy :: "SchedPolicy \<Rightarrow> nat \<Rightarrow> RtEntity" where
  "with_policy policy priority =
     \<lparr>ent_policy = policy,
      ent_priority = (if is_realtime policy then clamp RT_PRIO_MIN RT_PRIO_MAX priority else 0),
      ent_time_slice = (if policy = RoundRobin then SCHED_RR_TIMESLICE else 0),
      on_rq = False, run_cnt = 0\<rparr>"

definition set_policy :: "SchedPolicy \<Rightarrow> RtEntity \<Rightarrow> RtEntity" where
  "set_policy policy e =
     (let e = e\<lparr>ent_policy := policy\<rparr>
      in if policy = RoundRobin then e\<lparr>ent_time_slice := SCHED_RR_TIMESLICE\<rparr> else e)"

definition set_priority :: "nat \<Rightarrow> RtEntity \<Rightarrow> RtEntity" where
  "set_priority priority e = e\<lparr>ent_priority :=
     (if is_realtime (ent_policy e) then clamp RT_PRIO_MIN RT_PRIO_MAX priority else 0)\<rparr>"

text \<open>\<open>tick\<close> returns whether the slice has expired, and the new state.\<close>

definition tick :: "RtEntity \<Rightarrow> bool \<times> RtEntity" where
  "tick e =
     (if ent_policy e \<noteq> RoundRobin then (False, e)
      else (let remaining = ent_time_slice e in
            if remaining > 0 then (remaining \<le> 1, e\<lparr>ent_time_slice := remaining - 1\<rparr>)
            else (True, e)))"

definition reset_time_slice :: "RtEntity \<Rightarrow> RtEntity" where
  "reset_time_slice e =
     (if ent_policy e = RoundRobin then e\<lparr>ent_time_slice := SCHED_RR_TIMESLICE\<rparr> else e)"

definition is_valid_priority :: "SchedPolicy \<Rightarrow> int \<Rightarrow> bool" where
  "is_valid_priority policy priority = (case policy of
     Fifo \<Rightarrow> priority \<ge> int RT_PRIO_MIN \<and> priority \<le> int RT_PRIO_MAX
   | RoundRobin \<Rightarrow> priority \<ge> int RT_PRIO_MIN \<and> priority \<le> int RT_PRIO_MAX
   | Other \<Rightarrow> priority = 0
   | Batch \<Rightarrow> priority = 0
   | Idle \<Rightarrow> priority = 0
   | Deadline \<Rightarrow> True)"

definition get_time_slice :: "SchedPolicy \<Rightarrow> nat" where
  "get_time_slice policy = (case policy of RoundRobin \<Rightarrow> SCHED_RR_TIMESLICE | _ \<Rightarrow> 0)"

text \<open>\<open>(120 + nice as i32) as u32\<close> for a nice value of type \<open>i8\<close>: the cast reads the sum modulo
  \<open>2 ^ 32\<close>.\<close>

definition effective_priority :: "SchedPolicy \<Rightarrow> nat \<Rightarrow> int \<Rightarrow> nat" where
  "effective_priority policy prio nice = (case policy of
     Fifo \<Rightarrow> prio
   | RoundRobin \<Rightarrow> prio
   | Other \<Rightarrow> nat ((120 + nice) mod 2 ^ 32)
   | Batch \<Rightarrow> nat ((120 + nice) mod 2 ^ 32)
   | Idle \<Rightarrow> 2 ^ 32 - 1
   | Deadline \<Rightarrow> 0)"

subsection \<open>The invariant of the run queue\<close>

definition active :: "RtRunqueue \<Rightarrow> nat \<Rightarrow> bool" where
  "active q p = (if p \<le> 64 then bit (active_lo q) (p - 1) else bit (active_hi q) (p - 65))"

definition level :: "RtRunqueue \<Rightarrow> nat \<Rightarrow> RtEntry list" where
  "level q p = queues q ! (p - 1)"

definition total_queued :: "RtRunqueue \<Rightarrow> nat" where
  "total_queued q = sum_list (map length (queues q))"

definition rt_inv :: "RtRunqueue \<Rightarrow> bool" where
  "rt_inv q \<longleftrightarrow> length (queues q) = 99 \<and> nr_running q = of_nat (total_queued q)
     \<and> (\<forall>p \<in> {1..128}. active q p \<longleftrightarrow> p \<le> 99 \<and> level q p \<noteq> [])"

text \<open>The priorities that have a runnable task, and the highest of them (0 when there is none).\<close>

definition levels :: "RtRunqueue \<Rightarrow> nat set" where
  "levels q = {p \<in> {1..99}. level q p \<noteq> []}"

definition top_level :: "RtRunqueue \<Rightarrow> nat" where
  "top_level q = Max (insert 0 (levels q))"

definition highest_ok :: "RtRunqueue \<Rightarrow> bool" where
  "highest_ok q \<longleftrightarrow> highest_prio q = top_level q"

named_theorems rt_frame \<open>fields an operation leaves alone\<close>

lemma queues_bitmap [rt_frame, simp]:
  "queues (set_bitmap_bit p q) = queues q" "queues (clear_bitmap_bit p q) = queues q"
  "nr_running (set_bitmap_bit p q) = nr_running q" "nr_running (clear_bitmap_bit p q) = nr_running q"
  "highest_prio (set_bitmap_bit p q) = highest_prio q"
  "highest_prio (clear_bitmap_bit p q) = highest_prio q"
  by (simp_all add: set_bitmap_bit_def clear_bitmap_bit_def)

lemma recalc_frame [rt_frame, simp]:
  "queues (recalc_highest_prio q) = queues q" "nr_running (recalc_highest_prio q) = nr_running q"
  "active (recalc_highest_prio q) p = active q p"
  by (simp_all add: recalc_highest_prio_def active_def)

lemma count_pick_frame [rt_frame, simp]:
  "queues (count_pick e q) = queues q" "nr_running (count_pick e q) = nr_running q"
  "highest_prio (count_pick e q) = highest_prio q" "active (count_pick e q) p = active q p"
  by (simp_all add: count_pick_def Let_def active_def)

lemma active_frame [rt_frame, simp]:
  "active (q\<lparr>queues := qs\<rparr>) p = active q p" "active (q\<lparr>nr_running := n\<rparr>) p = active q p"
  "active (q\<lparr>highest_prio := h\<rparr>) p = active q p" "active (q\<lparr>stats := st\<rparr>) p = active q p"
  by (simp_all add: active_def)

lemma rt_inv_active: "rt_inv q \<Longrightarrow> p \<in> {1..99} \<Longrightarrow> active q p \<longleftrightarrow> level q p \<noteq> []"
  by (auto simp: rt_inv_def)

lemma active_set:
  "1 \<le> p \<Longrightarrow> p \<le> 128 \<Longrightarrow> 1 \<le> r \<Longrightarrow> active (set_bitmap_bit p q) r \<longleftrightarrow> r = p \<or> active q r"
  by (auto simp: active_def set_bitmap_bit_def bit_simps)

lemma active_clear:
  "1 \<le> p \<Longrightarrow> p \<le> 128 \<Longrightarrow> 1 \<le> r \<Longrightarrow> active (clear_bitmap_bit p q) r \<longleftrightarrow> r \<noteq> p \<and> active q r"
  by (auto simp: active_def clear_bitmap_bit_def bit_simps) (auto dest: bit_imp_le_length)

lemma sum_length_update:
  "i < length xs \<Longrightarrow>
     sum_list (map length (xs[i := y])) + length (xs ! i) = sum_list (map length xs) + length y"
  by (induction xs arbitrary: i) (auto split: nat.splits)

text \<open>Replacing one level, with the bitmap and the counter adjusted to it, keeps the invariant.\<close>

lemma rt_inv_replace:
  assumes inv: "rt_inv q" and p: "p \<in> {1..99}"
    and qs: "queues q' = (queues q)[p - 1 := qu]"
    and nr: "nr_running q' + of_nat (length (level q p)) = nr_running q + of_nat (length qu)"
    and act: "\<And>r. r \<in> {1..128} \<Longrightarrow> active q' r \<longleftrightarrow> (if r = p then qu \<noteq> [] else active q r)"
  shows "rt_inv q'"
proof -
  have len: "p - 1 < length (queues q)" using inv p by (auto simp: rt_inv_def)
  have "total_queued q' + length (level q p) = total_queued q + length qu"
    using sum_length_update [OF len, of qu] by (simp add: total_queued_def level_def qs)
  then have "(of_nat (total_queued q') :: u32) + of_nat (length (level q p))
      = of_nat (total_queued q) + of_nat (length qu)"
    by (metis of_nat_add)
  then have "nr_running q' = of_nat (total_queued q')"
    using nr inv by (metis add_right_cancel rt_inv_def)
  moreover have "level q' r = (if r = p then qu else level q r)" if "r \<in> {1..99}" for r
    using that p len by (auto simp: level_def qs nth_list_update)
  ultimately show ?thesis
    using inv act p qs by (auto simp: rt_inv_def)
qed

lemma rt_inv_cong:
  assumes "rt_inv q" "queues q' = queues q" "nr_running q' = nr_running q" "\<And>p. active q' p = active q p"
  shows "rt_inv q'"
  using assms by (simp add: rt_inv_def total_queued_def level_def)

lemma rq_new_inv: "rt_inv rq_new" "highest_ok rq_new" "levels rq_new = {}"
proof -
  show "rt_inv rq_new"
    by (auto simp: rt_inv_def rq_new_def total_queued_def active_def level_def sum_list_replicate)
  show "levels rq_new = {}" by (auto simp: levels_def level_def rq_new_def)
  then show "highest_ok rq_new" by (simp add: highest_ok_def top_level_def) (simp add: rq_new_def)
qed

lemma finite_levels [simp]: "finite (levels q)"
  by (simp add: levels_def)

lemma top_ge: "p \<in> levels q \<Longrightarrow> p \<le> top_level q"
  by (simp add: top_level_def)

lemma top_in_levels: "levels q \<noteq> {} \<Longrightarrow> top_level q \<in> levels q"
proof -
  assume ne: "levels q \<noteq> {}"
  have "top_level q \<in> insert 0 (levels q)" unfolding top_level_def by (rule Max_in) simp_all
  moreover obtain p where p: "p \<in> levels q" using ne by blast
  then have "1 \<le> p" by (simp add: levels_def)
  with top_ge [OF p] have "top_level q \<noteq> 0" by simp
  ultimately show ?thesis by auto
qed

lemma top_le: "top_level q \<le> 99"
  by (auto simp: top_level_def levels_def)

lemma clamp_rt: "clamp RT_PRIO_MIN RT_PRIO_MAX x \<in> {1..99}"
  by (auto simp: clamp_def RT_PRIO_MIN_def RT_PRIO_MAX_def)

subsection \<open>Enqueueing\<close>

lemma push_back_eq:
  assumes "rt_inv q" "p \<in> {1..99}"
  shows "push_back (p - 1) e q = Some (q\<lparr>queues := (queues q)[p - 1 := level q p @ [e]]\<rparr>)"
  using assms by (auto simp: push_back_def rt_inv_def level_def)

lemma levels_replace:
  assumes "queues q' = (queues q)[p - 1 := qu]" "qu \<noteq> []" "p \<in> {1..99}" "rt_inv q"
  shows "levels q' = insert p (levels q)"
  using assms by (auto simp: levels_def level_def rt_inv_def nth_list_update split: if_splits)

lemma enqueue_rt_spec:
  fixes e :: RtEntry
  assumes inv: "rt_inv q" and hp: "highest_prio q \<le> 255"
  defines "p \<equiv> clamp RT_PRIO_MIN RT_PRIO_MAX (rt_priority e)"
  shows "\<exists>q'. enqueue_rt e q = Some q' \<and> rt_inv q'
     \<and> queues q' = (queues q)[p - 1 := level q p @ [e]]
     \<and> highest_prio q' = max p (highest_prio q)"
proof -
  have p: "p \<in> {1..99}" unfolding p_def by (rule clamp_rt)
  let ?q1 = "set_bitmap_bit p (q\<lparr>queues := (queues q)[p - 1 := level q p @ [e]], nr_running := nr_running q + 1\<rparr>)"
  let ?q' = "if p > highest_u8 ?q1 then ?q1\<lparr>highest_prio := p\<rparr> else ?q1"
  have "enqueue_rt e q = Some ?q'"
    using push_back_eq [OF inv p] by (simp add: enqueue_rt_def p_def [symmetric] Let_def)
  moreover have "rt_inv ?q'"
  proof (rule rt_inv_replace [OF inv p, of _ "level q p @ [e]"])
    show "active ?q' r \<longleftrightarrow> (if r = p then level q p @ [e] \<noteq> [] else active q r)" if "r \<in> {1..128}" for r
      using active_set [of p r] that p by (auto simp: active_def)
  qed simp_all
  moreover have "highest_u8 ?q1 = highest_prio q" using hp by (simp add: highest_u8_def)
  ultimately show ?thesis by auto
qed

lemma enqueue_rt_highest_ok:
  assumes inv: "rt_inv q" and ok: "highest_ok q" and enq: "enqueue_rt e q = Some q'"
  shows "rt_inv q' \<and> highest_ok q' \<and>
     queues q' = (queues q)[clamp RT_PRIO_MIN RT_PRIO_MAX (rt_priority e) - 1 :=
       level q (clamp RT_PRIO_MIN RT_PRIO_MAX (rt_priority e)) @ [e]]"
proof -
  let ?p = "clamp RT_PRIO_MIN RT_PRIO_MAX (rt_priority e)"
  have "highest_prio q \<le> 255" using ok top_le [of q] by (simp add: highest_ok_def)
  from enqueue_rt_spec [OF inv this, of e] enq
  have q': "rt_inv q'" "queues q' = (queues q)[?p - 1 := level q ?p @ [e]]"
    "highest_prio q' = max ?p (highest_prio q)" by auto
  have "levels q' = insert ?p (levels q)"
    using q'(2) clamp_rt inv by (intro levels_replace) auto
  then have "top_level q' = max ?p (top_level q)"
    by (simp add: top_level_def insert_commute [of 0])
  then show ?thesis using q' ok by (simp add: highest_ok_def)
qed

lemma requeue_rr_spec:
  fixes e :: RtEntry
  assumes inv: "rt_inv q" and hp: "highest_prio q \<le> 255"
  defines "p \<equiv> clamp RT_PRIO_MIN RT_PRIO_MAX (rt_priority e)"
  shows "\<exists>q'. requeue_rr e q = Some q' \<and> rt_inv q'
     \<and> queues q' = (queues q)[p - 1 := level q p @ [e\<lparr>time_slice := SCHED_RR_TIMESLICE\<rparr>]]
     \<and> highest_prio q' = max p (highest_prio q)"
proof -
  have p: "p \<in> {1..99}" unfolding p_def by (rule clamp_rt)
  let ?qu = "level q p @ [e\<lparr>time_slice := SCHED_RR_TIMESLICE\<rparr>]"
  let ?q1 = "set_bitmap_bit p (q\<lparr>queues := (queues q)[p - 1 := ?qu], nr_running := nr_running q + 1,
      stats := (stats q)\<lparr>rr_timeslice_expired := rr_timeslice_expired (stats q) + 1\<rparr>\<rparr>)"
  let ?q' = "if p > highest_u8 ?q1 then ?q1\<lparr>highest_prio := p\<rparr> else ?q1"
  have "requeue_rr e q = Some ?q'"
    using push_back_eq [OF inv p] by (simp add: requeue_rr_def p_def [symmetric] Let_def)
  moreover have "rt_inv ?q'"
  proof (rule rt_inv_replace [OF inv p, of _ ?qu])
    show "active ?q' r \<longleftrightarrow> (if r = p then ?qu \<noteq> [] else active q r)" if "r \<in> {1..128}" for r
      using active_set [of p r] that p by (auto simp: active_def)
  qed simp_all
  moreover have "highest_u8 ?q1 = highest_prio q" using hp by (simp add: highest_u8_def)
  ultimately show ?thesis by auto
qed

subsection \<open>Recomputing the highest priority\<close>

text \<open>\<open>recalc_highest_prio\<close> stores one more than the highest priority that has a task: its
  \<open>64 - leading_zeros\<close> is the number of the highest set bit counted from 1, to which it adds 1 (or 65)
  once more.\<close>

lemma recalc_value:
  assumes inv: "rt_inv q"
  shows "highest_prio (recalc_highest_prio q) = (if levels q = {} then 0 else top_level q + 1)"
proof -
  have act: "active q p \<longleftrightarrow> p \<in> levels q" if "p \<in> {1..128}" for p
    using inv that by (auto simp: rt_inv_def levels_def)
  have hi: "bit (active_hi q) k \<longleftrightarrow> k + 65 \<in> levels q" if "k < 64" for k
    using act [of "k + 65"] that by (simp add: active_def)
  have lo: "bit (active_lo q) k \<longleftrightarrow> k + 1 \<in> levels q" if "k < 64" for k
    using act [of "k + 1"] that by (simp add: active_def)
  show ?thesis
  proof (cases "levels q = {}")
    case True
    then have "active_hi q = 0" "active_lo q = 0" using hi lo by (simp_all add: word_eq_0_iff_bit)
    then show ?thesis using True by (simp add: recalc_highest_prio_def)
  next
    case False
    let ?m = "top_level q"
    have m: "?m \<in> levels q" by (rule top_in_levels [OF False])
    have no: "p \<notin> levels q" if "?m < p" for p using top_ge [of p q] that by auto
    show ?thesis
    proof (cases "65 \<le> ?m")
      case True
      have bit: "bit (active_hi q) (?m - 65)" using hi [of "?m - 65"] m True top_le [of q] by simp
      then have "active_hi q \<noteq> 0" by auto
      moreover have "leading_zeros (active_hi q) = 63 - (?m - 65)"
      proof (rule leading_zeros_eq [OF _ bit])
        show "\<not> bit (active_hi q) i" if "?m - 65 < i" for i
          using hi [of i] no [of "i + 65"] that bit_imp_le_length [of "active_hi q" i] by auto
      qed (use top_le [of q] in simp)
      ultimately show ?thesis
        using True False top_le [of q] by (simp add: recalc_highest_prio_def)
    next
      case small: False
      have "active_hi q = 0" unfolding word_eq_0_iff_bit using hi no small by simp
      moreover have bit: "bit (active_lo q) (?m - 1)"
        using lo [of "?m - 1"] m small by (auto simp: levels_def)
      then have "active_lo q \<noteq> 0" by auto
      moreover have "leading_zeros (active_lo q) = 63 - (?m - 1)"
      proof (rule leading_zeros_eq [OF _ bit])
        show "\<not> bit (active_lo q) i" if "?m - 1 < i" for i
          using lo [of i] no [of "i + 1"] that bit_imp_le_length [of "active_lo q" i] by auto
      qed (use small in simp)
      moreover have "1 \<le> ?m" using m by (simp add: levels_def)
      ultimately show ?thesis
        using small False by (simp add: recalc_highest_prio_def)
    qed
  qed
qed

lemma recalc_inv: "rt_inv q \<Longrightarrow> rt_inv (recalc_highest_prio q)"
  by (rule rt_inv_cong) simp_all

lemma levels_cong: "queues q' = queues q \<Longrightarrow> levels q' = levels q \<and> top_level q' = top_level q"
  by (simp add: levels_def level_def top_level_def)

lemma recalc_value_self:
  assumes "rt_inv q"
  shows "highest_prio (recalc_highest_prio q) =
    (if levels (recalc_highest_prio q) = {} then 0 else top_level (recalc_highest_prio q) + 1)"
  using recalc_value [OF assms] levels_cong [of "recalc_highest_prio q" q] by simp

subsection \<open>Picking and removing\<close>

lemma pick_next_spec:
  assumes inv: "rt_inv q" and ok: "highest_ok q"
  shows "(levels q = {} \<and> pick_next q = Some (None, q)) \<or>
    (\<exists>e rest q'. level q (top_level q) = e # rest \<and> pick_next q = Some (Some e, q') \<and> rt_inv q'
       \<and> queues q' = (queues q)[top_level q - 1 := rest]
       \<and> highest_prio q' = (if rest \<noteq> [] then top_level q else if levels q' = {} then 0 else top_level q' + 1))"
proof (cases "levels q = {}")
  case True
  then show ?thesis using ok by (simp add: pick_next_def highest_u8_def highest_ok_def top_level_def)
next
  case False
  let ?p = "top_level q"
  have p: "?p \<in> levels q" by (rule top_in_levels [OF False])
  then have p1: "?p \<in> {1..99}" and ne: "level q ?p \<noteq> []" by (simp_all add: levels_def)
  obtain e rest where er: "level q ?p = e # rest" using ne by (cases "level q ?p") auto
  have hp: "highest_u8 q = ?p" using ok top_le [of q] by (simp add: highest_u8_def highest_ok_def)
  have len: "?p - 1 < length (queues q)" using inv p1 by (auto simp: rt_inv_def)
  let ?q1 = "count_pick e (q\<lparr>queues := (queues q)[?p - 1 := rest], nr_running := nr_running q - 1\<rparr>)"
  let ?q2 = "if rest = [] then clear_bitmap_bit ?p ?q1 else ?q1"
  let ?q' = "if rest = [] then recalc_highest_prio ?q2 else ?q2"
  have pick: "pick_next q = Some (Some e, ?q')"
    using hp p1 len er by (simp add: pick_next_def Let_def level_def)
  have inv2: "rt_inv ?q2"
  proof (rule rt_inv_replace [OF inv p1, of _ rest])
    show "active ?q2 r \<longleftrightarrow> (if r = ?p then rest \<noteq> [] else active q r)" if "r \<in> {1..128}" for r
      using active_clear [of ?p r ?q1] that p1 rt_inv_active [OF inv p1] ne by auto
  qed (simp_all add: er)
  have "rt_inv ?q'"
    using inv2 recalc_inv [OF inv2] by (cases "rest = []") simp_all
  moreover have "highest_prio ?q' = (if rest \<noteq> [] then ?p else if levels ?q' = {} then 0 else top_level ?q' + 1)"
    using recalc_value_self [OF inv2] ok by (cases "rest = []") (simp_all add: highest_ok_def)
  ultimately show ?thesis using pick er by auto
qed

text \<open>Removal of a task by its identifier.\<close>

definition holds_task :: "nat \<Rightarrow> RtRunqueue \<Rightarrow> nat \<Rightarrow> bool" where
  "holds_task tid q p \<longleftrightarrow> (\<exists>e \<in> set (level q p). task_id e = tid)"

lemma dequeue_scan_spec:
  assumes inv: "rt_inv q" and ps: "set prios \<subseteq> {1..99}"
  shows "(dequeue_scan prios tid q = Some (None, q) \<and> (\<forall>p \<in> set prios. \<not> holds_task tid q p)) \<or>
    (\<exists>p pos q'. p \<in> set prios \<and> position (\<lambda>e. task_id e = tid) (level q p) = Some pos
       \<and> dequeue_scan prios tid q = Some (Some (level q p ! pos), q') \<and> rt_inv q'
       \<and> queues q' = (queues q)[p - 1 := remove_at pos (level q p)]
       \<and> highest_prio q' = (if levels q' = {} then 0 else top_level q' + 1))"
  using ps
proof (induction prios)
  case Nil
  then show ?case by simp
next
  case (Cons p prios)
  then have p: "p \<in> {1..99}" by simp
  have len: "p - 1 < length (queues q)" using inv p by (auto simp: rt_inv_def)
  show ?case
  proof (cases "position (\<lambda>e. task_id e = tid) (level q p)")
    case None
    then have eq: "dequeue_scan (p # prios) tid q = dequeue_scan prios tid q"
      using len by (simp add: level_def)
    have "\<not> holds_task tid q p" using None by (simp add: holds_task_def position_None)
    moreover have "set prios \<subseteq> {1..99}" using Cons.prems by simp
    note IH = Cons.IH [OF this]
    ultimately show ?thesis
      unfolding eq using IH by (metis list.set_intros(2) set_ConsD)
  next
    case (Some pos)
    let ?qu = "remove_at pos (level q p)"
    let ?q1 = "q\<lparr>queues := (queues q)[p - 1 := ?qu], nr_running := nr_running q - 1\<rparr>"
    let ?q2 = "if ?qu = [] then clear_bitmap_bit p ?q1 else ?q1"
    have pos: "pos < length (level q p)" using Some by (simp add: position_Some)
    then have length: "length (level q p) = Suc (length ?qu)" by (simp add: remove_at_def)
    have inv2: "rt_inv ?q2"
    proof (rule rt_inv_replace [OF inv p, of _ ?qu])
      show "active ?q2 r \<longleftrightarrow> (if r = p then ?qu \<noteq> [] else active q r)" if "r \<in> {1..128}" for r
        using active_clear [of p r ?q1] that p rt_inv_active [OF inv p] pos by auto
    qed (simp_all add: length)
    have "dequeue_scan (p # prios) tid q = Some (Some (level q p ! pos), recalc_highest_prio ?q2)"
      using Some len by (simp add: level_def Let_def)
    moreover have "queues (recalc_highest_prio ?q2) = (queues q)[p - 1 := ?qu]" by simp
    ultimately show ?thesis
      using Some recalc_inv [OF inv2] recalc_value_self [OF inv2] by fastforce
  qed
qed

lemma dequeue_rt_spec:
  assumes inv: "rt_inv q"
  shows "(dequeue_rt tid q = Some (None, q) \<and> (\<forall>p \<in> {1..99}. \<not> holds_task tid q p)) \<or>
    (\<exists>p pos q'. p \<in> {1..99} \<and> position (\<lambda>e. task_id e = tid) (level q p) = Some pos
       \<and> dequeue_rt tid q = Some (Some (level q p ! pos), q') \<and> rt_inv q'
       \<and> queues q' = (queues q)[p - 1 := remove_at pos (level q p)]
       \<and> highest_prio q' = (if levels q' = {} then 0 else top_level q' + 1))"
proof -
  have set: "set (rev [RT_PRIO_MIN..<Suc RT_PRIO_MAX]) = {1..99}"
    by (auto simp: RT_PRIO_MIN_def RT_PRIO_MAX_def)
  then have sub: "set (rev [RT_PRIO_MIN..<Suc RT_PRIO_MAX]) \<subseteq> {1..99}" by (rule equalityD1)
  from dequeue_scan_spec [OF inv sub, unfolded set, of tid] show ?thesis
    unfolding dequeue_rt_def .
qed

subsection \<open>Reachable run queues\<close>

inductive rt_step :: "RtRunqueue \<Rightarrow> RtRunqueue \<Rightarrow> bool" where
  enqueue: "enqueue_rt e q = Some q' \<Longrightarrow> rt_step q q'"
| dequeue: "dequeue_rt tid q = Some (r, q') \<Longrightarrow> rt_step q q'"
| pick: "pick_next q = Some (r, q') \<Longrightarrow> rt_step q q'"
| requeue: "requeue_rr e q = Some q' \<Longrightarrow> rt_step q q'"
| update: "update_priority tid p q = Some (b, q') \<Longrightarrow> rt_step q q'"

inductive rt_reachable :: "RtRunqueue \<Rightarrow> bool" where
  new: "rt_reachable rq_new"
| step: "rt_reachable q \<Longrightarrow> rt_step q q' \<Longrightarrow> rt_reachable q'"

definition rt_ok :: "RtRunqueue \<Rightarrow> bool" where
  "rt_ok q \<longleftrightarrow> rt_inv q \<and> highest_prio q \<le> 100"

lemma enqueue_rt_ok: "rt_ok q \<Longrightarrow> \<exists>q'. enqueue_rt e q = Some q' \<and> rt_ok q'"
  using enqueue_rt_spec [of q e] clamp_rt [of "rt_priority e"] by (fastforce simp: rt_ok_def)

lemma requeue_rr_ok: "rt_ok q \<Longrightarrow> \<exists>q'. requeue_rr e q = Some q' \<and> rt_ok q'"
  using requeue_rr_spec [of q e] clamp_rt [of "rt_priority e"] by (fastforce simp: rt_ok_def)

lemma dequeue_rt_ok:
  assumes ok: "rt_ok q"
  shows "\<exists>r q'. dequeue_rt tid q = Some (r, q') \<and> rt_ok q'"
proof -
  have inv: "rt_inv q" using ok by (simp add: rt_ok_def)
  from dequeue_rt_spec [OF inv, of tid] show ?thesis
  proof (elim disjE exE conjE)
    fix p pos q'
    assume "dequeue_rt tid q = Some (Some (level q p ! pos), q')" "rt_inv q'"
      "highest_prio q' = (if levels q' = {} then 0 else top_level q' + 1)"
    moreover have "top_level q' + 1 \<le> 100" using top_le [of q'] by simp
    ultimately show ?thesis by (intro exI conjI) (assumption, simp add: rt_ok_def)
  qed (use ok in blast)
qed

lemma update_priority_ok:
  assumes ok: "rt_ok q"
  shows "\<exists>b q'. update_priority tid p q = Some (b, q') \<and> rt_ok q'"
proof -
  obtain r q1 where q1: "dequeue_rt tid q = Some (r, q1)" "rt_ok q1"
    using dequeue_rt_ok [OF ok] by blast
  show ?thesis
  proof (cases r)
    case None
    then have "update_priority tid p q = Some (False, q1)" using q1 by (simp add: update_priority_def)
    then show ?thesis using q1(2) by blast
  next
    case (Some e)
    obtain q2 where "enqueue_rt (e\<lparr>rt_priority := clamp RT_PRIO_MIN RT_PRIO_MAX p\<rparr>) q1 = Some q2" "rt_ok q2"
      using enqueue_rt_ok [OF q1(2)] by blast
    then have "update_priority tid p q = Some (True, q2)" using q1 Some by (simp add: update_priority_def)
    then show ?thesis using \<open>rt_ok q2\<close> by blast
  qed
qed

lemma pick_next_ok:
  assumes ok: "rt_ok q" and pick: "pick_next q = Some (r, q')"
  shows "rt_ok q'"
proof (cases "level q (highest_prio q)")
  case Nil
  have "highest_u8 q = highest_prio q" using ok by (simp add: highest_u8_def rt_ok_def)
  with Nil pick have "q' = q"
    by (cases "highest_prio q - 1 < length (queues q)") (auto simp: pick_next_def level_def Let_def split: if_splits)
  then show ?thesis using ok by simp
next
  case (Cons e rest)
  let ?p = "highest_prio q"
  have hp: "highest_u8 q = ?p" using ok by (simp add: highest_u8_def rt_ok_def)
  show ?thesis
  proof (cases "?p = 0 \<or> ?p = 100")
    case True
    have "length (queues q) = 99" using ok by (simp add: rt_ok_def rt_inv_def)
    with True have "pick_next q = Some (None, q) \<or> pick_next q = None"
      by (auto simp: pick_next_def hp)
    then show ?thesis using ok pick by auto
  next
    case False
    then have p1: "?p \<in> {1..99}" using ok by (auto simp: rt_ok_def)
    have inv: "rt_inv q" using ok by (simp add: rt_ok_def)
    have len: "?p - 1 < length (queues q)" using inv p1 by (auto simp: rt_inv_def)
    let ?q1 = "count_pick e (q\<lparr>queues := (queues q)[?p - 1 := rest], nr_running := nr_running q - 1\<rparr>)"
    let ?q2 = "if rest = [] then clear_bitmap_bit ?p ?q1 else ?q1"
    have inv2: "rt_inv ?q2"
    proof (rule rt_inv_replace [OF inv p1, of _ rest])
      show "active ?q2 r \<longleftrightarrow> (if r = ?p then rest \<noteq> [] else active q r)" if "r \<in> {1..128}" for r
        using active_clear [of ?p r ?q1] that p1 rt_inv_active [OF inv p1] Cons by auto
    qed (simp_all add: Cons)
    have "q' = (if rest = [] then recalc_highest_prio ?q2 else ?q2)"
      using pick hp p1 len Cons by (auto simp: pick_next_def Let_def level_def)
    then show ?thesis
      using inv2 recalc_inv [OF inv2] recalc_value [OF inv2] top_le [of ?q2] p1
      by (cases "rest = []") (auto simp: rt_ok_def split: if_splits)
  qed
qed

lemma rt_reachable_ok: "rt_reachable q \<Longrightarrow> rt_ok q"
proof (induction rule: rt_reachable.induct)
  case new
  show ?case using rq_new_inv(1) by (simp add: rt_ok_def) (simp add: rq_new_def)
next
  case (step q q')
  from step.hyps(2) step.IH show ?case
    using enqueue_rt_ok [of q] dequeue_rt_ok [of q] pick_next_ok [of q] requeue_rr_ok [of q]
      update_priority_ok [of q]
    by (elim rt_step.cases) (metis option.inject prod.inject)+
qed

subsection \<open>The order of picking\<close>

abbreviation prio_of :: "RtEntry \<Rightarrow> nat" where
  "prio_of e \<equiv> clamp RT_PRIO_MIN RT_PRIO_MAX (rt_priority e)"

text \<open>Enqueueing a list of tasks appends each to the level of its priority.\<close>

lemma enqueue_all:
  assumes "rt_inv q" "highest_ok q"
  shows "\<exists>q'. for_each enqueue_rt es q = Some q' \<and> rt_inv q' \<and> highest_ok q'
     \<and> (\<forall>p \<in> {1..99}. level q' p = level q p @ filter (\<lambda>e. prio_of e = p) es)"
  using assms
proof (induction es arbitrary: q)
  case Nil
  then show ?case by simp
next
  case (Cons e es)
  have "highest_prio q \<le> 255" using Cons.prems(2) top_le [of q] by (simp add: highest_ok_def)
  then obtain q1 where q1: "enqueue_rt e q = Some q1" using enqueue_rt_spec [OF Cons.prems(1)] by blast
  note en = enqueue_rt_highest_ok [OF Cons.prems q1]
  have "level q1 p = level q p @ filter (\<lambda>x. prio_of x = p) [e]" if "p \<in> {1..99}" for p
    using en clamp_rt [of "rt_priority e"] that Cons.prems(1)
    by (auto simp: level_def rt_inv_def nth_list_update)
  with Cons.IH [of q1] en q1 show ?case by auto
qed

lemma levels_enqueue_all:
  assumes "\<forall>p \<in> {1..99}. level q p = filter (\<lambda>e. prio_of e = p) es"
  shows "levels q = prio_of ` set es"
  using assms clamp_rt by (fastforce simp: levels_def filter_empty_conv)

subsection \<open>Properties\<close>

text \<open>C31. In every reachable run queue the level bitmap and the task counter agree with the queues,
  and no operation other than picking or peeking can panic: enqueueing, removing, requeueing and
  changing a priority always return.\<close>

theorem rt_reachable_consistent:
  assumes "rt_reachable q"
  shows "(\<forall>p \<in> {1..99}. active q p \<longleftrightarrow> level q p \<noteq> []) \<and> nr_running q = of_nat (total_queued q)
    \<and> enqueue_rt e q \<noteq> None \<and> requeue_rr e q \<noteq> None \<and> dequeue_rt tid q \<noteq> None
    \<and> update_priority tid prio q \<noteq> None"
proof -
  have ok: "rt_ok q" using assms by (rule rt_reachable_ok)
  then have inv: "rt_inv q" by (simp add: rt_ok_def)
  have "\<forall>p \<in> {1..99}. active q p \<longleftrightarrow> level q p \<noteq> []" using rt_inv_active [OF inv] by blast
  moreover have "nr_running q = of_nat (total_queued q)" using inv by (simp add: rt_inv_def)
  moreover have "enqueue_rt e q \<noteq> None" using enqueue_rt_ok [OF ok, of e] by auto
  moreover have "requeue_rr e q \<noteq> None" using requeue_rr_ok [OF ok, of e] by auto
  moreover have "dequeue_rt tid q \<noteq> None" using dequeue_rt_ok [OF ok, of tid] by auto
  moreover have "update_priority tid prio q \<noteq> None" using update_priority_ok [OF ok, of tid prio] by auto
  ultimately show ?thesis by blast
qed

theorem rt_reachable_consistent_witness:
  "rt_reachable rq_new \<and> nr_running rq_new = of_nat (total_queued rq_new)
    \<and> dequeue_rt 7 rq_new \<noteq> None"
  using rt_reachable_consistent [OF rt_reachable.new, of undefined 7 0] rt_reachable.new by blast

text \<open>Once a list of tasks has been enqueued on an empty run queue, the task picked is the earliest
  enqueued one among those of the highest (clamped) priority, and it is the task that \<open>peek_next\<close>
  announces.\<close>

theorem pick_next_highest_fifo:
  assumes "es \<noteq> []"
  shows "\<exists>q q'. for_each enqueue_rt es rq_new = Some q
    \<and> pick_next q = Some (Some (hd (filter (\<lambda>e. prio_of e = Max (prio_of ` set es)) es)), q')
    \<and> peek_next q = Some (Some (hd (filter (\<lambda>e. prio_of e = Max (prio_of ` set es)) es)))"
proof -
  obtain q where q: "for_each enqueue_rt es rq_new = Some q" "rt_inv q" "highest_ok q"
      "\<forall>p \<in> {1..99}. level q p = level rq_new p @ filter (\<lambda>e. prio_of e = p) es"
    using enqueue_all [OF rq_new_inv(1,2)] by blast
  have lv: "\<forall>p \<in> {1..99}. level q p = filter (\<lambda>e. prio_of e = p) es"
    using q(4) by (auto simp: level_def rq_new_def)
  have levels: "levels q = prio_of ` set es" by (rule levels_enqueue_all [OF lv])
  then have ne: "levels q \<noteq> {}" using assms by simp
  have top: "top_level q = Max (prio_of ` set es)"
    using ne levels by (simp add: top_level_def)
  have "top_level q \<in> {1..99}" using top_in_levels [OF ne] by (simp add: levels_def)
  then have lvl: "level q (top_level q) = filter (\<lambda>e. prio_of e = Max (prio_of ` set es)) es"
    using lv top by simp
  from pick_next_spec [OF q(2,3)] ne obtain e rest q' where
    e: "level q (top_level q) = e # rest" "pick_next q = Some (Some e, q')" by blast
  have "highest_u8 q = top_level q" using q(3) top_le [of q] by (simp add: highest_u8_def highest_ok_def)
  moreover have "top_level q - 1 < length (queues q)"
    using \<open>top_level q \<in> {1..99}\<close> q(2) by (auto simp: rt_inv_def)
  ultimately have "peek_next q = Some (Some e)"
    using e(1) \<open>top_level q \<in> {1..99}\<close> by (simp add: peek_next_def Let_def level_def)
  with q(1) e lvl show ?thesis by (metis list.sel(1))
qed

theorem pick_next_highest_fifo_witness:
  "[\<lparr>task_id = 1, rt_priority = 10, rt_policy = Fifo, time_slice = 0\<rparr>] \<noteq> [] \<and>
   (\<exists>q q'. for_each enqueue_rt [\<lparr>task_id = 1, rt_priority = 10, rt_policy = Fifo, time_slice = 0\<rparr>,
        \<lparr>task_id = 2, rt_priority = 200, rt_policy = Fifo, time_slice = 0\<rparr>] rq_new = Some q
      \<and> pick_next q = Some (Some \<lparr>task_id = 2, rt_priority = 200, rt_policy = Fifo, time_slice = 0\<rparr>, q'))"
  using pick_next_highest_fifo [of "[\<lparr>task_id = 1, rt_priority = 10, rt_policy = Fifo, time_slice = 0\<rparr>,
        \<lparr>task_id = 2, rt_priority = 200, rt_policy = Fifo, time_slice = 0\<rparr>]"]
  by (auto simp: clamp_def RT_PRIO_MIN_def RT_PRIO_MAX_def)

text \<open>Recomputing the cached highest priority from the bitmap is off by one: whenever some level
  holds a task, the cached value becomes one more than the highest such level.\<close>

theorem recalc_highest_prio_off_by_one:
  assumes "rt_inv q" and "levels q \<noteq> {}"
  shows "highest_prio (recalc_highest_prio q) = Max (levels q) + 1"
  using recalc_value [OF assms(1)] assms(2) by (simp add: top_level_def)

theorem recalc_highest_prio_off_by_one_witness:
  "\<exists>q. rt_inv q \<and> levels q = {10} \<and> highest_prio (recalc_highest_prio q) = 11"
proof -
  let ?e = "\<lparr>task_id = 1, rt_priority = 10, rt_policy = Fifo, time_slice = 0\<rparr>"
  obtain q where q: "rt_inv q"
      "\<forall>p \<in> {1..99}. level q p = level rq_new p @ filter (\<lambda>e. prio_of e = p) [?e]"
    using enqueue_all [OF rq_new_inv(1,2), of "[?e]"] by blast
  then have "\<forall>p \<in> {1..99}. level q p = filter (\<lambda>e. prio_of e = p) [?e]"
    by (auto simp: level_def rq_new_def)
  then have "levels q = {10}"
    using levels_enqueue_all [of q "[?e]"] by (simp add: clamp_def RT_PRIO_MIN_def RT_PRIO_MAX_def)
  with recalc_highest_prio_off_by_one [OF q(1)] q(1) show ?thesis by auto
qed

text \<open>A consequence: when picking takes the last task of the highest level and lower levels still
  hold tasks, the next pick returns no task although some are runnable.\<close>

theorem pick_next_loses_lower_tasks:
  assumes inv: "rt_inv q" and ok: "highest_ok q" and last: "level q (top_level q) = [e]"
    and lower: "levels q - {top_level q} \<noteq> {}"
  shows "\<exists>q'. pick_next q = Some (Some e, q') \<and> levels q' \<noteq> {} \<and> pick_next q' = Some (None, q')"
proof -
  let ?p = "top_level q"
  have p: "?p \<in> {1..99}" using top_in_levels lower by (auto simp: levels_def)
  obtain q' where q': "pick_next q = Some (Some e, q')" "rt_inv q'"
      "queues q' = (queues q)[?p - 1 := []]"
      "highest_prio q' = (if levels q' = {} then 0 else top_level q' + 1)"
    using pick_next_spec [OF inv ok] last lower by fastforce
  have lv: "levels q' = levels q - {?p}"
    using q'(3) p inv by (auto simp: levels_def level_def rt_inv_def nth_list_update split: if_splits)
  then have ne: "levels q' \<noteq> {}" using lower by simp
  have "top_level q' \<in> levels q - {?p}" using top_in_levels [OF ne] lv by simp
  then have "top_level q' < ?p" using top_ge [of "top_level q'" q] by auto
  then have lt: "top_level q' + 1 \<in> {1..99}" using p by auto
  have "top_level q' + 1 \<notin> levels q'" using top_ge [of "top_level q' + 1" q'] by auto
  then have empty: "level q' (top_level q' + 1) = []" using lt by (simp add: levels_def)
  have "highest_u8 q' = top_level q' + 1" using q'(4) ne lt by (simp add: highest_u8_def)
  moreover have "top_level q' < length (queues q')" using q'(2) lt by (simp add: rt_inv_def)
  ultimately have "pick_next q' = Some (None, q')"
    using empty by (simp add: pick_next_def level_def Let_def)
  then show ?thesis using q'(1) ne by blast
qed

theorem pick_next_loses_lower_tasks_witness:
  "\<exists>q q' e. rt_inv q \<and> highest_ok q \<and> levels q = {10, 20} \<and> level q (top_level q) = [e]
     \<and> pick_next q = Some (Some e, q') \<and> levels q' \<noteq> {} \<and> pick_next q' = Some (None, q')"
proof -
  let ?e = "\<lparr>task_id = 1, rt_priority = 20, rt_policy = Fifo, time_slice = 0\<rparr>"
  let ?es = "[\<lparr>task_id = 2, rt_priority = 10, rt_policy = Fifo, time_slice = 0\<rparr>, ?e]"
  obtain q where q: "rt_inv q" "highest_ok q"
      "\<forall>p \<in> {1..99}. level q p = level rq_new p @ filter (\<lambda>e. prio_of e = p) ?es"
    using enqueue_all [OF rq_new_inv(1,2), of ?es] by blast
  then have lv: "\<forall>p \<in> {1..99}. level q p = filter (\<lambda>e. prio_of e = p) ?es"
    by (auto simp: level_def rq_new_def)
  have levels: "levels q = {10, 20}"
    using levels_enqueue_all [OF lv] by (simp add: clamp_def RT_PRIO_MIN_def RT_PRIO_MAX_def)
  then have top: "top_level q = 20" by (simp add: top_level_def)
  have last: "level q (top_level q) = [?e]"
    using lv by (simp add: top clamp_def RT_PRIO_MIN_def RT_PRIO_MAX_def)
  have "levels q - {top_level q} \<noteq> {}" using levels top by simp
  from pick_next_loses_lower_tasks [OF q(1,2) last this] q(1,2) levels last show ?thesis by blast
qed

text \<open>Another consequence: after any task is removed by its identifier while level 99 still holds a
  task, the cached priority is 100 and the next pick indexes past the 99 queues and panics.\<close>

theorem dequeue_then_pick_panics:
  assumes inv: "rt_inv q" and deq: "dequeue_rt tid q = Some (Some e, q')" and lv: "99 \<in> levels q'"
  shows "highest_prio q' = 100 \<and> pick_next q' = None"
proof -
  have q': "rt_inv q'" "highest_prio q' = (if levels q' = {} then 0 else top_level q' + 1)"
    using dequeue_rt_spec [OF inv, of tid] deq by (elim disjE exE conjE, simp, simp)+
  have "top_level q' = 99" using top_ge [OF lv] top_le [of q'] by simp
  then have "highest_prio q' = 100" using q'(2) lv by auto
  moreover have "length (queues q') = 99" using q'(1) by (simp add: rt_inv_def)
  ultimately show ?thesis by (simp add: pick_next_def highest_u8_def)
qed

theorem dequeue_then_pick_panics_witness:
  "\<exists>q e q'. rt_inv q \<and> dequeue_rt 1 q = Some (Some e, q') \<and> 99 \<in> levels q' \<and> pick_next q' = None"
proof -
  let ?a = "\<lparr>task_id = 1, rt_priority = 5, rt_policy = Fifo, time_slice = 0\<rparr>"
  let ?b = "\<lparr>task_id = 2, rt_priority = 99, rt_policy = Fifo, time_slice = 0\<rparr>"
  obtain q where q: "rt_inv q"
      "\<forall>p \<in> {1..99}. level q p = level rq_new p @ filter (\<lambda>e. prio_of e = p) [?a, ?b]"
    using enqueue_all [OF rq_new_inv(1,2), of "[?a, ?b]"] by blast
  then have lv: "\<forall>p \<in> {1..99}. level q p = filter (\<lambda>e. prio_of e = p) [?a, ?b]"
    by (auto simp: level_def rq_new_def)
  have l5: "level q 5 = [?a]" and l99: "level q 99 = [?b]"
    using lv by (simp_all add: clamp_def RT_PRIO_MIN_def RT_PRIO_MAX_def)
  have "holds_task 1 q 5" using l5 by (simp add: holds_task_def)
  with dequeue_rt_spec [OF q(1), of 1] obtain p pos q' where
    d: "p \<in> {1..99}" "position (\<lambda>e. task_id e = 1) (level q p) = Some pos"
      "dequeue_rt 1 q = Some (Some (level q p ! pos), q')" "queues q' = (queues q)[p - 1 := remove_at pos (level q p)]"
    by auto
  have "p \<noteq> 99" using d(2) l99 by auto
  then have "level q' 99 = [?b]" using d(1,4) l99 by (auto simp: level_def)
  then have "99 \<in> levels q'" by (simp add: levels_def)
  with dequeue_then_pick_panics [OF q(1) d(3)] q(1) d(3) show ?thesis by blast
qed

text \<open>Running the timer tick \<open>n\<close> times, collecting what each tick returns.\<close>

fun ticks :: "nat \<Rightarrow> RtEntity \<Rightarrow> bool list \<times> RtEntity" where
  "ticks 0 e = ([], e)"
| "ticks (Suc n) e = (let (b, e1) = tick e; (bs, e2) = ticks n e1 in (b # bs, e2))"

lemma ticks_rr:
  "ent_policy e = RoundRobin \<Longrightarrow> ent_time_slice e = Suc n \<Longrightarrow>
     ticks (Suc n) e = (replicate n False @ [True], e\<lparr>ent_time_slice := 0\<rparr>)"
proof (induction n arbitrary: e)
  case 0
  then show ?case by (simp add: tick_def Let_def)
next
  case (Suc n)
  have "tick e = (False, e\<lparr>ent_time_slice := Suc n\<rparr>)" using Suc.prems by (simp add: tick_def Let_def)
  moreover have "ticks (Suc n) (e\<lparr>ent_time_slice := Suc n\<rparr>)
      = (replicate n False @ [True], e\<lparr>ent_time_slice := 0\<rparr>)"
    using Suc.IH [of "e\<lparr>ent_time_slice := Suc n\<rparr>"] Suc.prems(1) by simp
  ultimately show ?case by (subst ticks.simps(2)) simp
qed

lemma ticks_other:
  "ent_policy e \<noteq> RoundRobin \<Longrightarrow> ticks n e = (replicate n False, e)"
  by (induction n) (simp_all add: tick_def)

text \<open>A round-robin task's slice expires at exactly its tenth tick, counted from its creation or
  from a reset, and the ticks of a task of any other policy never expire and change nothing.\<close>

theorem round_robin_slice:
  "(if policy = RoundRobin
    then fst (ticks 10 (with_policy policy p)) = replicate 9 False @ [True]
      \<and> fst (ticks 10 (reset_time_slice (snd (ticks 10 (with_policy policy p))))) = replicate 9 False @ [True]
    else ticks n (with_policy policy p) = (replicate n False, with_policy policy p))"
proof (cases "policy = RoundRobin")
  case True
  have rr: "ticks 10 e = (replicate 9 False @ [True], e\<lparr>ent_time_slice := 0\<rparr>)"
    if "ent_policy e = RoundRobin" "ent_time_slice e = 10" for e
    using ticks_rr [OF that(1), of 9] that(2) by simp
  have "ticks 10 (with_policy RoundRobin p)
      = (replicate 9 False @ [True], (with_policy RoundRobin p)\<lparr>ent_time_slice := 0\<rparr>)"
    by (rule rr) (simp_all add: with_policy_def SCHED_RR_TIMESLICE_def)
  moreover have "fst (ticks 10 (reset_time_slice ((with_policy RoundRobin p)\<lparr>ent_time_slice := 0\<rparr>)))
      = replicate 9 False @ [True]"
    by (subst rr) (simp_all add: with_policy_def reset_time_slice_def SCHED_RR_TIMESLICE_def)
  ultimately show ?thesis using True by simp
qed (simp add: ticks_other with_policy_def)

end
