(* ===== verification/Cfs.thy ===== *)
theory Cfs
  imports Prelude "HOL-Library.Multiset"
begin

text \<open>
  The fair scheduler, \<^verbatim>\<open>kernel/src/sched/cfs.rs\<close>: the weight tables indexed by the nice value, the
  scheduling entity, the run queue kept as a vector sorted by virtual runtime, the computation of time
  slices and of virtual-runtime increments, and the switch statistics.

  \<open>Vec::sort_by\<close> is a stable sort and is modelled by the stable \<open>sort_key\<close>.  The invariant \<open>cfs_inv\<close> says
  that the vector is sorted and that the two counters describe it; the locale \<open>fair_queue\<close> states the
  contract of a queue ordered by a key, and its client lemma that draining it visits the keys in order.
\<close>

definition SCHED_PRIO_TO_WEIGHT :: "nat list" where
  "SCHED_PRIO_TO_WEIGHT =
    [88761, 71755, 56483, 46273, 36291,
     29154, 23254, 18705, 14949, 11916,
     9548, 7620, 6100, 4904, 3906,
     3121, 2501, 1991, 1586, 1277,
     1024, 820, 655, 526, 423,
     335, 272, 215, 172, 137,
     110, 87, 70, 56, 45,
     36, 29, 23, 18, 15]"

definition SCHED_PRIO_TO_WMULT :: "nat list" where
  "SCHED_PRIO_TO_WMULT =
    [48388, 59856, 76040, 92818, 118348,
     147320, 184698, 229616, 287308, 360437,
     449829, 563644, 704093, 875809, 1099582,
     1376151, 1717300, 2157191, 2708050, 3363326,
     4194304, 5237765, 6557202, 8165337, 10153587,
     12820798, 15790321, 19976592, 24970740, 31350126,
     39045157, 49367440, 61356676, 76695844, 95443717,
     119304647, 148102320, 186737708, 238609294, 286331153]"

definition NICE_0_LOAD :: nat where "NICE_0_LOAD = 1024"

definition SCHED_MIN_GRANULARITY_NS :: nat where "SCHED_MIN_GRANULARITY_NS = 1000000"

definition SCHED_LATENCY_NS :: nat where "SCHED_LATENCY_NS = 6000000"

definition TICKS_PER_MS :: nat where "TICKS_PER_MS = 1"

text \<open>\<open>((nice as i32 + 20) as usize).clamp(0, 39)\<close>: the cast of a negative sum to \<open>usize\<close> is taken
  modulo \<open>2 ^ 64\<close>.\<close>

definition nice_to_index :: "int \<Rightarrow> nat" where
  "nice_to_index nice = max 0 (min 39 (nat ((nice + 20) mod 2 ^ 64)))"

definition weight_from_nice :: "int \<Rightarrow> nat option" where
  "weight_from_nice nice = idx SCHED_PRIO_TO_WEIGHT (nice_to_index nice)"

definition wmult_from_nice :: "int \<Rightarrow> nat option" where
  "wmult_from_nice nice = idx SCHED_PRIO_TO_WMULT (nice_to_index nice)"

subsection \<open>Scheduling entities\<close>

record SchedEntity =
  se_vruntime :: nat
  se_weight :: nat
  inv_weight :: nat
  exec_start :: nat
  sum_exec_runtime :: nat
  se_time_slice :: nat

definition se_new :: "int \<Rightarrow> SchedEntity option" where
  "se_new nice = do {
     w \<leftarrow> weight_from_nice nice;
     iw \<leftarrow> wmult_from_nice nice;
     Some \<lparr>se_vruntime = 0, se_weight = w, inv_weight = iw, exec_start = 0, sum_exec_runtime = 0,
           se_time_slice = 0\<rparr>
   }"

definition update_weight :: "int \<Rightarrow> SchedEntity \<Rightarrow> SchedEntity option" where
  "update_weight nice e = do {
     w \<leftarrow> weight_from_nice nice;
     iw \<leftarrow> wmult_from_nice nice;
     Some (e\<lparr>se_weight := w, inv_weight := iw\<rparr>)
   }"

definition set_vruntime :: "nat \<Rightarrow> SchedEntity \<Rightarrow> SchedEntity" where
  "set_vruntime vrt e = e\<lparr>se_vruntime := vrt\<rparr>"

definition set_time_slice :: "nat \<Rightarrow> SchedEntity \<Rightarrow> SchedEntity" where
  "set_time_slice sl e = e\<lparr>se_time_slice := sl\<rparr>"

subsection \<open>The run queue\<close>

record CfsEntry =
  entry_id :: nat
  vruntime :: nat
  weight :: nat

record CfsRunqueue =
  clock :: nat
  min_vruntime :: nat
  load_weight :: nat
  cfs_nr_running :: nat
  tasks :: "CfsEntry list"

datatype Ordering = Less | Equal | Greater

definition cmp_nat :: "nat \<Rightarrow> nat \<Rightarrow> Ordering" where
  "cmp_nat a b = (if a < b then Less else if a = b then Equal else Greater)"

text \<open>\<open>impl Ord for CfsEntry\<close>: reversed, with the task identifier as a tie break.\<close>

definition cfs_cmp :: "CfsEntry \<Rightarrow> CfsEntry \<Rightarrow> Ordering" where
  "cfs_cmp self other = (case cmp_nat (vruntime other) (vruntime self) of
     Equal \<Rightarrow> cmp_nat (entry_id other) (entry_id self)
   | ord \<Rightarrow> ord)"

definition cfs_new :: CfsRunqueue where
  "cfs_new = \<lparr>clock = 0, min_vruntime = 0, load_weight = 0, cfs_nr_running = 0, tasks = []\<rparr>"

definition update_clock :: "nat \<Rightarrow> CfsRunqueue \<Rightarrow> CfsRunqueue" where
  "update_clock delta_ns q = q\<lparr>clock := saturating_add64 (clock q) delta_ns\<rparr>"

definition calc_time_slice :: "CfsRunqueue \<Rightarrow> nat \<Rightarrow> nat option" where
  "calc_time_slice q w =
     (if load_weight q = 0 \<or> cfs_nr_running q = 0 then Some (SCHED_LATENCY_NS div TICKS_PER_MS)
      else do {
        period \<leftarrow> (if cfs_nr_running q > SCHED_LATENCY_NS div SCHED_MIN_GRANULARITY_NS
                   then mul64 (cfs_nr_running q) SCHED_MIN_GRANULARITY_NS
                   else Some SCHED_LATENCY_NS);
        wp \<leftarrow> mul64 w period;
        let slice_ns = max (wp div load_weight q) SCHED_MIN_GRANULARITY_NS;
        Some (max (slice_ns div 1000000) 1)
      })"

text \<open>The product in the first branch is computed in 128 bits and shifted right by 32; in the second
  the 64-bit product can overflow, and a zero weight divides by zero.\<close>

definition calc_delta_vruntime :: "nat \<Rightarrow> nat \<Rightarrow> nat \<Rightarrow> nat option" where
  "calc_delta_vruntime delta_exec_ns w iw =
     (if w \<ge> NICE_0_LOAD then Some ((delta_exec_ns * iw) div 2 ^ 32 mod 2 ^ 64)
      else do {
        p \<leftarrow> mul64 delta_exec_ns NICE_0_LOAD;
        if w = 0 then None else Some (p div w)
      })"

definition enqueue_cfs :: "CfsEntry \<Rightarrow> CfsRunqueue \<Rightarrow> CfsRunqueue option" where
  "enqueue_cfs entry q = do {
     lw \<leftarrow> add64 (load_weight q) (weight entry);
     nr \<leftarrow> add64 (cfs_nr_running q) 1;
     Some (q\<lparr>load_weight := lw, cfs_nr_running := nr, tasks := sort_key vruntime (tasks q @ [entry])\<rparr>)
   }"

definition dequeue_next :: "CfsRunqueue \<Rightarrow> CfsEntry option \<times> CfsRunqueue" where
  "dequeue_next q = (case tasks q of
     [] \<Rightarrow> (None, q)
   | entry # rest \<Rightarrow>
       (let q1 = q\<lparr>tasks := rest, load_weight := saturating_sub (load_weight q) (weight entry),
                   cfs_nr_running := saturating_sub (cfs_nr_running q) 1\<rparr>
        in (Some entry, case rest of
              [] \<Rightarrow> q1
            | first # _ \<Rightarrow> q1\<lparr>min_vruntime := max (min_vruntime q) (vruntime first)\<rparr>)))"

definition remove_cfs :: "nat \<Rightarrow> CfsRunqueue \<Rightarrow> CfsEntry option \<times> CfsRunqueue" where
  "remove_cfs tid q = (case position (\<lambda>e. entry_id e = tid) (tasks q) of
     None \<Rightarrow> (None, q)
   | Some i \<Rightarrow>
       (let entry = tasks q ! i in
        (Some entry, q\<lparr>tasks := remove_at i (tasks q),
           load_weight := saturating_sub (load_weight q) (weight entry),
           cfs_nr_running := saturating_sub (cfs_nr_running q) 1\<rparr>)))"

definition update_min_vruntime :: "CfsRunqueue \<Rightarrow> CfsRunqueue" where
  "update_min_vruntime q =
     (let v = min_vruntime q;
          v = (case tasks q of [] \<Rightarrow> v | first # _ \<Rightarrow> max v (vruntime first))
      in q\<lparr>min_vruntime := max (min_vruntime q) v\<rparr>)"

definition place_entity :: "CfsRunqueue \<Rightarrow> SchedEntity \<Rightarrow> bool \<Rightarrow> nat" where
  "place_entity q entity initial =
     (if initial then saturating_add64 (min_vruntime q) (SCHED_LATENCY_NS div 2) else min_vruntime q)"

definition check_preempt_tick :: "CfsRunqueue \<Rightarrow> nat \<Rightarrow> nat \<Rightarrow> nat \<Rightarrow> bool option" where
  "check_preempt_tick q current_vruntime current_slice ticks_run =
     (if ticks_run \<ge> current_slice then Some True
      else (case tasks q of
              [] \<Rightarrow> Some False
            | first # _ \<Rightarrow> do {
                t \<leftarrow> add64 (vruntime first) SCHED_MIN_GRANULARITY_NS;
                Some (t < current_vruntime)
              }))"

definition peek_cfs :: "CfsRunqueue \<Rightarrow> CfsEntry option" where
  "peek_cfs q = (case tasks q of [] \<Rightarrow> None | e # _ \<Rightarrow> Some e)"

subsection \<open>Statistics\<close>

record CfsStats =
  nr_switches :: nat
  nr_preemptions :: nat
  nr_voluntary_switches :: nat
  total_wait_time_ns :: nat
  total_run_time_ns :: nat

definition stats_new :: CfsStats where
  "stats_new = \<lparr>nr_switches = 0, nr_preemptions = 0, nr_voluntary_switches = 0,
     total_wait_time_ns = 0, total_run_time_ns = 0\<rparr>"

definition record_switch :: "bool \<Rightarrow> CfsStats \<Rightarrow> CfsStats option" where
  "record_switch preempted s = do {
     n \<leftarrow> add64 (nr_switches s) 1;
     if preempted
     then do { p \<leftarrow> add64 (nr_preemptions s) 1; Some (s\<lparr>nr_switches := n, nr_preemptions := p\<rparr>) }
     else do { v \<leftarrow> add64 (nr_voluntary_switches s) 1;
               Some (s\<lparr>nr_switches := n, nr_voluntary_switches := v\<rparr>) }
   }"

definition record_runtime :: "nat \<Rightarrow> CfsStats \<Rightarrow> CfsStats option" where
  "record_runtime ns s = do {
     t \<leftarrow> add64 (total_run_time_ns s) ns; Some (s\<lparr>total_run_time_ns := t\<rparr>) }"

definition record_wait_time :: "nat \<Rightarrow> CfsStats \<Rightarrow> CfsStats option" where
  "record_wait_time ns s = do {
     t \<leftarrow> add64 (total_wait_time_ns s) ns; Some (s\<lparr>total_wait_time_ns := t\<rparr>) }"


subsection \<open>The contract of a queue ordered by a key\<close>

text \<open>\<open>drain\<close> removes entries until the queue is empty or the budget is used up.\<close>

fun drain :: "('q \<Rightarrow> 'e option \<times> 'q) \<Rightarrow> nat \<Rightarrow> 'q \<Rightarrow> 'e list" where
  "drain del 0 q = []"
| "drain del (Suc n) q = (case del q of (None, _) \<Rightarrow> [] | (Some e, q') \<Rightarrow> e # drain del n q')"

definition cfs_inv :: "CfsRunqueue \<Rightarrow> bool" where
  "cfs_inv q \<longleftrightarrow> sorted (map vruntime (tasks q)) \<and> cfs_nr_running q = length (tasks q)
     \<and> load_weight q = sum_list (map weight (tasks q))"

text \<open>The operations of the run queue as steps of a machine.\<close>

inductive cfs_step :: "CfsRunqueue \<Rightarrow> CfsRunqueue \<Rightarrow> bool" where
  step_clock: "cfs_step q (update_clock d q)"
| step_enqueue: "enqueue_cfs e q = Some q' \<Longrightarrow> cfs_step q q'"
| step_dequeue: "dequeue_next q = (r, q') \<Longrightarrow> cfs_step q q'"
| step_remove: "remove_cfs tid q = (r, q') \<Longrightarrow> cfs_step q q'"
| step_min: "cfs_step q (update_min_vruntime q)"

inductive cfs_reachable :: "CfsRunqueue \<Rightarrow> bool" where
  reach_new: "cfs_reachable cfs_new"
| reach_step: "cfs_reachable q \<Longrightarrow> cfs_step q q' \<Longrightarrow> cfs_reachable q'"

locale fair_queue =
  fixes inv :: "'q \<Rightarrow> bool"
    and entries :: "'q \<Rightarrow> 'e multiset"
    and key :: "'e \<Rightarrow> 'k :: linorder"
    and ins :: "'e \<Rightarrow> 'q \<Rightarrow> 'q option"
    and del :: "'q \<Rightarrow> 'e option \<times> 'q"
  assumes ins_keeps: "\<lbrakk>inv q; ins e q = Some q'\<rbrakk> \<Longrightarrow> inv q' \<and> entries q' = add_mset e (entries q)"
    and del_empty: "\<lbrakk>inv q; entries q = {#}\<rbrakk> \<Longrightarrow> del q = (None, q)"
    and del_min: "\<lbrakk>inv q; entries q \<noteq> {#}\<rbrakk> \<Longrightarrow> \<exists>e q'. del q = (Some e, q') \<and> inv q' \<and>
      entries q = add_mset e (entries q') \<and> (\<forall>x. x \<in># entries q \<longrightarrow> key e \<le> key x)"
begin

lemma drain_sorted:
  assumes "inv q" and "size (entries q) \<le> n"
  shows "mset (drain del n q) = entries q \<and> sorted (map key (drain del n q))"
  using assms
proof (induction n arbitrary: q)
  case 0
  then show ?case by simp
next
  case (Suc n)
  show ?case
  proof (cases "entries q = {#}")
    case True
    then show ?thesis using del_empty Suc.prems by simp
  next
    case False
    then obtain e q' where d: "del q = (Some e, q')" "inv q'" "entries q = add_mset e (entries q')"
      "\<forall>x. x \<in># entries q \<longrightarrow> key e \<le> key x"
      using del_min Suc.prems(1) by blast
    then have IH: "mset (drain del n q') = entries q'" "sorted (map key (drain del n q'))"
      using Suc.IH [of q'] Suc.prems by auto
    have "set (drain del n q') = set_mset (entries q')"
      using IH(1) by (metis set_mset_mset)
    then show ?thesis using d IH by simp
  qed
qed

lemma drain_after_ins:
  assumes "inv q" and "ins e q = Some q'"
  shows "mset (drain del (Suc (size (entries q))) q') = add_mset e (entries q)"
  using drain_sorted [of q' "Suc (size (entries q))"] ins_keeps [OF assms] by simp

end

subsection \<open>Enqueue keeps the vector sorted and is stable\<close>

lemma sort_key_snoc:
  fixes f :: "'a \<Rightarrow> 'k :: linorder"
  assumes "sorted (map f xs)"
  shows "sort_key f (xs @ [e]) = filter (\<lambda>x. f x \<le> f e) xs @ e # filter (\<lambda>x. f e < f x) xs"
    (is "_ = ?r")
proof (rule properties_for_sort_key)
  show "mset ?r = mset (xs @ [e])"
    by (induction xs) auto
  show "sorted (map f ?r)"
    using assms by (auto simp: sorted_append sorted_filter)
  have "filter (\<lambda>x. f k = f x) xs =
      filter (\<lambda>x. f k = f x) (filter (\<lambda>x. f x \<le> f e) xs)
      @ filter (\<lambda>x. f k = f x) (filter (\<lambda>x. f e < f x) xs)" for k
  proof (cases "f k \<le> f e")
    case True
    then have "filter (\<lambda>x. f e < f x \<and> f k = f x) xs = []"
      and "(\<lambda>x. f x \<le> f e \<and> f k = f x) = (\<lambda>x. f k = f x)"
      by (auto simp: filter_empty_conv)
    then show ?thesis by simp
  next
    case False
    then have "filter (\<lambda>x. f x \<le> f e \<and> f k = f x) xs = []"
      and "(\<lambda>x. f e < f x \<and> f k = f x) = (\<lambda>x. f k = f x)"
      by (auto simp: filter_empty_conv)
    then show ?thesis by simp
  qed
  moreover have "filter (\<lambda>x. f e < f x \<and> f e = f x) xs = []"
    by (auto simp: filter_empty_conv)
  ultimately show "\<And>k. k \<in> set ?r \<Longrightarrow> filter (\<lambda>x. f k = f x) ?r = filter (\<lambda>x. f k = f x) (xs @ [e])"
    by auto
qed

lemma enqueue_cfs_tasks:
  assumes "enqueue_cfs e q = Some q'"
  shows "tasks q' = sort_key vruntime (tasks q @ [e])" "cfs_nr_running q' = cfs_nr_running q + 1"
    "load_weight q' = load_weight q + weight e" "min_vruntime q' = min_vruntime q" "clock q' = clock q"
  using assms by (auto simp: enqueue_cfs_def add64_def split: if_splits)

lemma enqueue_cfs_inv:
  assumes "cfs_inv q" and "enqueue_cfs e q = Some q'"
  shows "cfs_inv q'"
proof -
  have "mset (map weight (sort_key vruntime (tasks q @ [e]))) = mset (map weight (tasks q @ [e]))"
    by simp
  then have "sum_list (map weight (sort_key vruntime (tasks q @ [e]))) = sum_list (map weight (tasks q @ [e]))"
    by (metis sum_mset_sum_list)
  then show ?thesis
    using assms(1) by (simp add: cfs_inv_def enqueue_cfs_tasks [OF assms(2)])
qed

lemma dequeue_next_Cons:
  assumes "tasks q = e # rest"
  shows "\<exists>q'. dequeue_next q = (Some e, q') \<and> tasks q' = rest \<and> load_weight q' = load_weight q - weight e
    \<and> cfs_nr_running q' = cfs_nr_running q - 1 \<and> clock q' = clock q
    \<and> min_vruntime q' = (case rest of [] \<Rightarrow> min_vruntime q | f # _ \<Rightarrow> max (min_vruntime q) (vruntime f))"
  using assms by (auto simp: dequeue_next_def saturating_sub_def Let_def split: list.splits)

lemma dequeue_next_Nil: "tasks q = [] \<Longrightarrow> dequeue_next q = (None, q)"
  by (simp add: dequeue_next_def)

lemma dequeue_next_inv:
  assumes "cfs_inv q" and "dequeue_next q = (r, q')"
  shows "cfs_inv q'"
proof (cases "tasks q")
  case Nil
  then show ?thesis using assms by (simp add: dequeue_next_Nil)
next
  case (Cons e rest)
  then show ?thesis using assms dequeue_next_Cons [OF Cons] by (auto simp: cfs_inv_def)
qed

lemma sorted_remove_at: "sorted (map f xs) \<Longrightarrow> sorted (map f (remove_at i xs))"
proof -
  assume "sorted (map f xs)"
  moreover have "map f xs = map f (take (Suc i) xs) @ map f (drop (Suc i) xs)"
    by (metis append_take_drop_id map_append)
  ultimately have s: "sorted (map f (take (Suc i) xs) @ map f (drop (Suc i) xs))" by simp
  have "set (take i xs) \<subseteq> set (take (Suc i) xs)" by (rule set_take_subset_set_take) simp
  moreover have "sorted (map f (take i xs))"
    using \<open>sorted (map f xs)\<close> by (metis sorted_wrt_take take_map)
  ultimately show ?thesis
    using s by (auto simp: remove_at_def sorted_append)
qed

lemma sum_list_remove_at:
  "i < length xs \<Longrightarrow> sum_list (map f (remove_at i xs)) = sum_list (map f xs) - (f (xs ! i) :: nat)"
proof -
  assume "i < length xs"
  then have "sum_list (map f xs) = sum_list (map f (take i xs @ xs ! i # drop (Suc i) xs))"
    by (simp add: id_take_nth_drop [symmetric])
  then show ?thesis by (simp add: remove_at_def)
qed

lemma remove_cfs_cases:
  assumes "remove_cfs tid q = (r, q')"
  obtains "r = None" "q' = q" "\<forall>e \<in> set (tasks q). entry_id e \<noteq> tid"
  | i where "i < length (tasks q)" "entry_id (tasks q ! i) = tid" "r = Some (tasks q ! i)"
      "tasks q' = remove_at i (tasks q)" "load_weight q' = load_weight q - weight (tasks q ! i)"
      "cfs_nr_running q' = cfs_nr_running q - 1" "min_vruntime q' = min_vruntime q"
proof (cases "position (\<lambda>e. entry_id e = tid) (tasks q)")
  case None
  then show ?thesis using assms that(1) by (simp add: remove_cfs_def) (simp add: position_None)
next
  case (Some i)
  then have "i < length (tasks q)" "entry_id (tasks q ! i) = tid"
    unfolding position_Some by auto
  then show ?thesis
    using assms Some by (intro that(2) [of i]) (auto simp: remove_cfs_def saturating_sub_def Let_def)
qed

lemma remove_cfs_inv:
  assumes "cfs_inv q" and "remove_cfs tid q = (r, q')"
  shows "cfs_inv q'"
  using assms(2)
proof (cases rule: remove_cfs_cases)
  case 1
  then show ?thesis using assms(1) by simp
next
  case (2 i)
  then show ?thesis
    using assms(1) by (simp add: cfs_inv_def sorted_remove_at sum_list_remove_at) (simp add: remove_at_def)
qed

lemma cfs_step_inv: "cfs_step q q' \<Longrightarrow> cfs_inv q \<Longrightarrow> cfs_inv q'"
proof (induction rule: cfs_step.induct)
  case (step_enqueue e q q')
  then show ?case using enqueue_cfs_inv by blast
next
  case (step_dequeue q r q')
  then show ?case using dequeue_next_inv by blast
next
  case (step_remove tid q r q')
  then show ?case using remove_cfs_inv by blast
qed (simp_all add: cfs_inv_def update_clock_def update_min_vruntime_def Let_def)

lemma cfs_reachable_inv: "cfs_reachable q \<Longrightarrow> cfs_inv q"
  by (induction rule: cfs_reachable.induct) (simp_all add: cfs_inv_def cfs_new_def cfs_step_inv [unfolded cfs_inv_def])

lemma cfs_step_min_vruntime: "cfs_step q q' \<Longrightarrow> min_vruntime q \<le> min_vruntime q'"
proof (induction rule: cfs_step.induct)
  case (step_enqueue e q q')
  then show ?case by (simp add: enqueue_cfs_tasks)
next
  case (step_dequeue q r q')
  then show ?case
    by (cases "tasks q") (auto simp: dequeue_next_Nil dest: dequeue_next_Cons split: list.splits)
next
  case (step_remove tid q r q')
  then show ?case by (cases rule: remove_cfs_cases) simp_all
qed (simp_all add: update_clock_def update_min_vruntime_def Let_def split: list.splits)

interpretation cfsq: fair_queue cfs_inv "\<lambda>q. mset (tasks q)" vruntime enqueue_cfs dequeue_next
proof unfold_locales
  show "cfs_inv q' \<and> mset (tasks q') = add_mset e (mset (tasks q))"
    if "cfs_inv q" "enqueue_cfs e q = Some q'" for q e q'
    using that enqueue_cfs_inv enqueue_cfs_tasks(1) by simp
  show "dequeue_next q = (None, q)" if "cfs_inv q" "mset (tasks q) = {#}" for q
    using that by (simp add: dequeue_next_Nil)
  show "\<exists>e q'. dequeue_next q = (Some e, q') \<and> cfs_inv q' \<and> mset (tasks q) = add_mset e (mset (tasks q'))
      \<and> (\<forall>x. x \<in># mset (tasks q) \<longrightarrow> vruntime e \<le> vruntime x)"
    if q: "cfs_inv q" "mset (tasks q) \<noteq> {#}" for q
  proof -
    from q(2) obtain e rest where t: "tasks q = e # rest" by (cases "tasks q") auto
    from dequeue_next_Cons [OF t] obtain q' where "dequeue_next q = (Some e, q')" "tasks q' = rest"
      by blast
    then show ?thesis
      using t q(1) dequeue_next_inv [OF q(1)] by (auto simp: cfs_inv_def)
  qed
qed

subsection \<open>Weights and time slices\<close>

lemma weights_descending: "sorted_wrt (>) SCHED_PRIO_TO_WEIGHT"
  by (simp add: SCHED_PRIO_TO_WEIGHT_def)

lemma length_weights [simp]: "length SCHED_PRIO_TO_WEIGHT = 40"
  by (simp add: SCHED_PRIO_TO_WEIGHT_def)

lemma weight_le_max:
  assumes "weight_from_nice nice = Some w"
  shows "w \<le> 88761"
proof -
  have "w \<in> set SCHED_PRIO_TO_WEIGHT"
    using assms by (auto simp: weight_from_nice_def idx_def split: if_splits)
  moreover have "\<forall>v \<in> set SCHED_PRIO_TO_WEIGHT. v \<le> 88761"
    by (simp add: SCHED_PRIO_TO_WEIGHT_def)
  ultimately show ?thesis by blast
qed

lemma nice_to_index_in_range:
  "- 20 \<le> nice \<Longrightarrow> nice \<le> 19 \<Longrightarrow> nice_to_index nice = nat (nice + 20)"
  by (simp add: nice_to_index_def)

lemma nice_to_index_below:
  assumes "- 128 \<le> nice" "nice < - 20"
  shows "nice_to_index nice = 39"
proof -
  have "(nice + 20) mod 2 ^ 64 = (nice + 20 + 2 ^ 64) mod 2 ^ 64"
    by (rule mod_add_self2 [symmetric])
  also have "\<dots> = nice + 20 + 2 ^ 64"
    using assms by (intro mod_pos_pos_trivial) simp_all
  finally have "(nice + 20) mod 2 ^ 64 = nice + 20 + 2 ^ 64" .
  then show ?thesis using assms by (simp add: nice_to_index_def)
qed

lemma slice_upper:
  fixes w lw :: nat
  assumes "w \<le> lw" "0 < lw"
  shows "w * (n * 1000000) div lw div 1000000 \<le> n"
proof -
  have "w * (n * 1000000) div lw \<le> lw * (n * 1000000) div lw"
    using assms by (intro div_le_mono mult_le_mono) auto
  also have "\<dots> = n * 1000000" using assms by simp
  finally have "w * (n * 1000000) div lw div 1000000 \<le> n * 1000000 div 1000000"
    by (rule div_le_mono)
  then show ?thesis by simp
qed

subsection \<open>Properties\<close>

text \<open>C30. In every reachable run queue, the entry taken by \<open>dequeue_next\<close> has the smallest virtual
  runtime of all entries; it and only it leaves the queue, and both counters account for it: the number
  of runnable tasks is the length of the vector and the load the sum of the weights, before and after.\<close>

theorem dequeue_next_fairest:
  assumes "cfs_reachable q" and "dequeue_next q = (Some e, q')"
  shows "(\<forall>x. x \<in> set (tasks q) \<longrightarrow> vruntime e \<le> vruntime x)
    \<and> mset (tasks q) = add_mset e (mset (tasks q'))
    \<and> cfs_nr_running q = length (tasks q) \<and> cfs_nr_running q' = length (tasks q')
    \<and> load_weight q = sum_list (map weight (tasks q)) \<and> load_weight q' = sum_list (map weight (tasks q'))"
proof -
  have i: "cfs_inv q" using assms(1) by (rule cfs_reachable_inv)
  have "mset (tasks q) \<noteq> {#}" using assms(2) by (auto simp: dequeue_next_def)
  then show ?thesis
    using cfsq.del_min [OF i] dequeue_next_inv [OF i assms(2)] assms(2) i by (auto simp: cfs_inv_def)
qed

lemma reachable_two:
  "cfs_reachable \<lparr>clock = 0, min_vruntime = 0, load_weight = 30, cfs_nr_running = 2,
     tasks = [\<lparr>entry_id = 2, vruntime = 4, weight = 15\<rparr>, \<lparr>entry_id = 1, vruntime = 9, weight = 15\<rparr>]\<rparr>"
proof -
  let ?e1 = "\<lparr>entry_id = 1, vruntime = 9, weight = 15\<rparr>"
  let ?e2 = "\<lparr>entry_id = 2, vruntime = 4, weight = 15\<rparr>"
  have "cfs_reachable \<lparr>clock = 0, min_vruntime = 0, load_weight = 15, cfs_nr_running = 1, tasks = [?e1]\<rparr>"
    by (rule reach_step [OF reach_new], rule step_enqueue [where e = ?e1])
      (simp add: enqueue_cfs_def cfs_new_def add64_def U64_MAX_def)
  then show ?thesis
    by (rule reach_step, intro step_enqueue [where e = ?e2])
      (simp add: enqueue_cfs_def add64_def U64_MAX_def sort_key_def)
qed

theorem dequeue_next_fairest_witness:
  "let q = \<lparr>clock = 0, min_vruntime = 0, load_weight = 30, cfs_nr_running = 2,
     tasks = [\<lparr>entry_id = 2, vruntime = 4, weight = 15\<rparr>, \<lparr>entry_id = 1, vruntime = 9, weight = 15\<rparr>]\<rparr>
   in cfs_reachable q \<and> \<not> (\<exists>x \<in> set (tasks q). vruntime x < 4)"
proof -
  let ?q = "\<lparr>clock = 0, min_vruntime = 0, load_weight = 30, cfs_nr_running = 2,
     tasks = [\<lparr>entry_id = 2, vruntime = 4, weight = 15\<rparr>, \<lparr>entry_id = 1, vruntime = 9, weight = 15\<rparr>]\<rparr>"
  have d: "dequeue_next ?q = (Some \<lparr>entry_id = 2, vruntime = 4, weight = 15\<rparr>, snd (dequeue_next ?q))"
    by (simp add: dequeue_next_def)
  show ?thesis
    using dequeue_next_fairest [OF reachable_two d] reachable_two by (auto simp: Let_def)
qed

text \<open>Enqueueing into a reachable run queue is a stable insertion: the entry goes behind every
  entry whose virtual runtime is at most its own and before every other, so that tasks with equal
  virtual runtime run in the order in which they were enqueued.\<close>

theorem enqueue_stable:
  assumes "cfs_reachable q" and "enqueue_cfs e q = Some q'"
  shows "tasks q' = filter (\<lambda>x. vruntime x \<le> vruntime e) (tasks q) @ e
     # filter (\<lambda>x. vruntime e < vruntime x) (tasks q)"
  using sort_key_snoc [of vruntime "tasks q" e] cfs_reachable_inv [OF assms(1)]
  by (simp add: enqueue_cfs_tasks(1) [OF assms(2)] cfs_inv_def)

theorem enqueue_stable_witness:
  "\<exists>q'. enqueue_cfs \<lparr>entry_id = 3, vruntime = 4, weight = 15\<rparr>
     \<lparr>clock = 0, min_vruntime = 0, load_weight = 30, cfs_nr_running = 2,
      tasks = [\<lparr>entry_id = 2, vruntime = 4, weight = 15\<rparr>, \<lparr>entry_id = 1, vruntime = 9, weight = 15\<rparr>]\<rparr> = Some q'
   \<and> map entry_id (tasks q') = [2, 3, 1]"
proof -
  let ?q = "\<lparr>clock = 0, min_vruntime = 0, load_weight = 30, cfs_nr_running = 2,
     tasks = [\<lparr>entry_id = 2, vruntime = 4, weight = 15\<rparr>, \<lparr>entry_id = 1, vruntime = 9, weight = 15\<rparr>]\<rparr>"
  let ?e = "\<lparr>entry_id = 3, vruntime = 4, weight = 15\<rparr>"
  obtain q' where q': "enqueue_cfs ?e ?q = Some q'"
    by (simp add: enqueue_cfs_def add64_def U64_MAX_def)
  show ?thesis
    using enqueue_stable [OF reachable_two q'] q' by simp
qed

text \<open>Taking entries from a reachable run queue until it is empty yields every entry exactly once,
  in ascending order of virtual runtime.\<close>

theorem drain_in_order:
  assumes "cfs_reachable q"
  shows "mset (drain dequeue_next (cfs_nr_running q) q) = mset (tasks q)
    \<and> sorted (map vruntime (drain dequeue_next (cfs_nr_running q) q))"
  using cfs_reachable_inv [OF assms] by (intro cfsq.drain_sorted) (simp_all add: cfs_inv_def)

theorem drain_in_order_witness:
  "sorted (map vruntime (drain dequeue_next 2 \<lparr>clock = 0, min_vruntime = 0, load_weight = 30, cfs_nr_running = 2,
     tasks = [\<lparr>entry_id = 2, vruntime = 4, weight = 15\<rparr>, \<lparr>entry_id = 1, vruntime = 9, weight = 15\<rparr>]\<rparr>))"
  using drain_in_order [OF reachable_two] by simp

text \<open>The virtual clock of the queue never runs backwards: whatever sequence of operations runs,
  \<open>min_vruntime\<close> does not decrease, so that a task placed later never starts before one placed at an
  earlier value of it.\<close>

theorem place_entity_monotone:
  assumes "cfs_step\<^sup>*\<^sup>* q q'"
  shows "min_vruntime q \<le> min_vruntime q' \<and> place_entity q ent b \<le> place_entity q' ent b"
proof -
  from assms have "min_vruntime q \<le> min_vruntime q'"
    by (induction rule: rtranclp_induct) (auto dest: cfs_step_min_vruntime)
  then show ?thesis by (auto simp: place_entity_def saturating_add64_def)
qed

theorem place_entity_monotone_witness:
  "let q = cfs_new\<lparr>tasks := [\<lparr>entry_id = 1, vruntime = 5, weight = 15\<rparr>]\<rparr> in
   place_entity q \<lparr>se_vruntime = 0, se_weight = 15, inv_weight = 0, exec_start = 0, sum_exec_runtime = 0,
      se_time_slice = 0\<rparr> True \<le> place_entity (update_min_vruntime q)
     \<lparr>se_vruntime = 0, se_weight = 15, inv_weight = 0, exec_start = 0, sum_exec_runtime = 0, se_time_slice = 0\<rparr> True"
  unfolding Let_def
  by (rule place_entity_monotone [THEN conjunct2, OF r_into_rtranclp, OF step_min])

text \<open>C36. A time slice computed with the weight of some nice value, in a queue of at most \<open>2 ^ 27\<close> tasks
  whose load includes that weight, never panics and lies between one tick and one tick per runnable task
  (six ticks when there are fewer than six tasks).\<close>

theorem time_slice_bounds:
  assumes "weight_from_nice nice = Some w" and "w \<le> load_weight q" and "0 < w"
    and "0 < cfs_nr_running q" and "cfs_nr_running q \<le> 2 ^ 27"
  shows "\<exists>t. calc_time_slice q w = Some t \<and> 1 \<le> t \<and> t \<le> max 6 (cfs_nr_running q)"
proof -
  let ?n = "max 6 (cfs_nr_running q)"
  have w: "w \<le> 88761" using assms(1) by (rule weight_le_max)
  have period: "(if cfs_nr_running q > 6 then mul64 (cfs_nr_running q) 1000000 else Some 6000000) = Some (?n * 1000000)"
    using assms(5) by (auto simp: mul64_def U64_MAX_def)
  have "w * (?n * 1000000) \<le> 88761 * (2 ^ 27 * 1000000)"
    using w assms(5) by (intro mult_le_mono) auto
  then have m: "mul64 w (?n * 1000000) = Some (w * (?n * 1000000))"
    by (simp add: mul64_def U64_MAX_def)
  have "w * (?n * 1000000) div load_weight q div 1000000 \<le> ?n"
    using assms by (intro slice_upper) auto
  then have "max (w * (?n * 1000000) div load_weight q) 1000000 div 1000000 \<le> ?n"
    by (auto simp: max_def)
  then show ?thesis
    using assms period m
    by (auto simp: calc_time_slice_def SCHED_LATENCY_NS_def SCHED_MIN_GRANULARITY_NS_def Let_def)
qed

theorem time_slice_bounds_witness:
  "\<exists>t. calc_time_slice \<lparr>clock = 0, min_vruntime = 0, load_weight = 2048, cfs_nr_running = 2, tasks = []\<rparr> 1024 = Some t
     \<and> 1 \<le> t \<and> t \<le> 6"
  using time_slice_bounds [of 0 1024 "\<lparr>clock = 0, min_vruntime = 0, load_weight = 2048, cfs_nr_running = 2, tasks = []\<rparr>"]
  by (simp add: weight_from_nice_def nice_to_index_def SCHED_PRIO_TO_WEIGHT_def)

text \<open>Within the range of nice values a nicer task has a strictly smaller weight; but a nice value
  below the range is not clamped to the heaviest weight: the cast of the negative sum sends it to the
  lightest one.\<close>

theorem weight_from_nice_order:
  assumes "- 20 \<le> a" and "a < b" and "b \<le> 19" and "- 128 \<le> c" and "c < - 20"
  shows "\<exists>wa wb. weight_from_nice a = Some wa \<and> weight_from_nice b = Some wb \<and> wb < wa
    \<and> weight_from_nice c = weight_from_nice 19"
proof -
  have "SCHED_PRIO_TO_WEIGHT ! nat (a + 20) > SCHED_PRIO_TO_WEIGHT ! nat (b + 20)"
    using assms by (intro sorted_wrt_nth_less [OF weights_descending]) auto
  then show ?thesis
    using assms nice_to_index_below [of c]
    by (simp add: weight_from_nice_def nice_to_index_in_range)
qed

theorem weight_from_nice_order_witness:
  "weight_from_nice (- 21) = weight_from_nice 19 \<and> weight_from_nice 0 \<noteq> weight_from_nice 1"
  using weight_from_nice_order [of 0 1 "- 21"] by auto

text \<open>The virtual runtime charged to a task of nice 0 for \<open>d\<close> nanoseconds is \<open>d div 1024\<close>, while the
  documented rule \<open>delta_exec * NICE_0_LOAD / weight\<close>, which is what a task of nice 1 is charged, gives
  \<open>d\<close> for the weight 1024: the branch for weights of at least \<open>NICE_0_LOAD\<close> multiplies by the inverse
  weight but not by \<open>NICE_0_LOAD\<close>.\<close>

theorem nice_0_undercharged:
  assumes "d < 2 ^ 54"
  shows "Option.bind (weight_from_nice 0) (\<lambda>w. Option.bind (wmult_from_nice 0) (calc_delta_vruntime d w)) = Some (d div 1024)
    \<and> Option.bind (weight_from_nice 1) (\<lambda>w. Option.bind (wmult_from_nice 1) (calc_delta_vruntime d w)) = Some (d * 1024 div 820)
    \<and> d * NICE_0_LOAD div 1024 = d"
proof -
  have "d * 4194304 div 2 ^ 32 = d * 4194304 div (1024 * 4194304)" by simp
  also have "\<dots> = d div 1024" by (rule div_mult_mult2) simp
  finally have "d * 4194304 div 2 ^ 32 = d div 1024" .
  moreover have "d div 1024 < 2 ^ 64" using assms by auto
  moreover have "d * 1024 \<le> U64_MAX" using assms by (simp add: U64_MAX_def)
  ultimately show ?thesis
    by (simp add: weight_from_nice_def wmult_from_nice_def nice_to_index_def SCHED_PRIO_TO_WEIGHT_def
        SCHED_PRIO_TO_WMULT_def calc_delta_vruntime_def NICE_0_LOAD_def mul64_def)
qed

theorem nice_0_undercharged_witness:
  "calc_delta_vruntime 1000000 1024 4194304 = Some 976 \<and> calc_delta_vruntime 1000000 820 5237765 = Some 1248780"
  using nice_0_undercharged [of 1000000]
  by (simp add: weight_from_nice_def wmult_from_nice_def nice_to_index_def SCHED_PRIO_TO_WEIGHT_def
      SCHED_PRIO_TO_WMULT_def)

end
