(* ===== verification/Syscall.thy ===== *)
theory Syscall
  imports Prelude
begin

text \<open>
  The boundary between user programs and the kernel, \<^verbatim>\<open>kernel/src/syscall/mod.rs\<close>: the error numbers
  returned by system calls, the validation of user pointers, and the user memory that validated pointers
  give access to.

  User memory is a total function from addresses to bytes: the validation functions check the range of an
  address only, and their \<open># Safety\<close> comments leave it to the caller that the range is mapped.
  What a system call reads from the rest of the kernel (the credentials and the identifier of the current
  process, the clock) is the record \<open>SysCtx\<close>.
\<close>

subsection \<open>Error numbers\<close>

definition EPERM :: int where "EPERM = - 1"
definition ENOENT :: int where "ENOENT = - 2"
definition E2BIG :: int where "E2BIG = - 7"
definition EBADF :: int where "EBADF = - 9"
definition EAGAIN :: int where "EAGAIN = - 11"
definition ENOMEM :: int where "ENOMEM = - 12"
definition EACCES :: int where "EACCES = - 13"
definition EFAULT :: int where "EFAULT = - 14"
definition EEXIST :: int where "EEXIST = - 17"
definition ENOTDIR :: int where "ENOTDIR = - 20"
definition EISDIR :: int where "EISDIR = - 21"
definition EINVAL :: int where "EINVAL = - 22"
definition EMFILE :: int where "EMFILE = - 24"
definition ENOSPC :: int where "ENOSPC = - 28"
definition ESPIPE :: int where "ESPIPE = - 29"
definition EPIPE :: int where "EPIPE = - 32"
definition ENOSYS :: int where "ENOSYS = - 38"
definition ENOMSG :: int where "ENOMSG = - 42"
definition EIDRM :: int where "EIDRM = - 43"
definition ETIMEDOUT :: int where "ETIMEDOUT = - 110"

named_theorems errno \<open>the values of the error numbers\<close>

declare EPERM_def [errno] ENOENT_def [errno] E2BIG_def [errno] EAGAIN_def [errno] EACCES_def [errno]
declare EFAULT_def [errno] EEXIST_def [errno] EINVAL_def [errno] EMFILE_def [errno] ENOSPC_def [errno]
declare ENOMSG_def [errno] EIDRM_def [errno] EBADF_def [errno] ENOMEM_def [errno] ENOTDIR_def [errno] EISDIR_def [errno]
declare ESPIPE_def [errno] EPIPE_def [errno] ENOSYS_def [errno] ETIMEDOUT_def [errno]

subsection \<open>User addresses\<close>

definition USER_SPACE_END :: nat where
  "USER_SPACE_END = 0x00007FFFFFFFFFFF"

definition is_user_addr :: "nat \<Rightarrow> bool" where
  "is_user_addr a = (a \<le> USER_SPACE_END)"

definition is_user_range :: "nat \<Rightarrow> nat \<Rightarrow> bool" where
  "is_user_range a n =
     (if a = 0 \<or> n = 0 then False
      else case add64 a n of
        None \<Rightarrow> False
      | Some e \<Rightarrow> a \<le> USER_SPACE_END \<and> e \<le> USER_SPACE_END + 1)"

type_synonym umem = "nat \<Rightarrow> u8"

definition mem_read :: "umem \<Rightarrow> nat \<Rightarrow> nat \<Rightarrow> u8 list" where
  "mem_read m a n = map m [a..<a + n]"

definition mem_write :: "nat \<Rightarrow> u8 list \<Rightarrow> umem \<Rightarrow> umem" where
  "mem_write a bs m = (\<lambda>x. if a \<le> x \<and> x < a + length bs then bs ! (x - a) else m x)"

definition validate_user_buffer :: "umem \<Rightarrow> nat \<Rightarrow> nat \<Rightarrow> u8 list option" where
  "validate_user_buffer m a n = (if \<not> is_user_range a n then None else Some (mem_read m a n))"

text \<open>The mutable slice is the right to write to the range: the model keeps only the check.\<close>

definition validate_user_buffer_mut :: "nat \<Rightarrow> nat \<Rightarrow> bool" where
  "validate_user_buffer_mut a n = is_user_range a n"

text \<open>What a system call reads of the current process and of the clock.\<close>

record SysCtx =
  ctx_uid :: nat
  ctx_gid :: nat
  ctx_pid :: nat
  ctx_now :: nat

subsection \<open>Lemmas on user memory\<close>

lemma is_user_range_iff:
  "is_user_range a n \<longleftrightarrow> 0 < a \<and> 0 < n \<and> a + n \<le> USER_SPACE_END + 1"
  by (auto simp: is_user_range_def add64_def U64_MAX_def USER_SPACE_END_def)

lemma length_mem_read [simp]: "length (mem_read m a n) = n"
  by (simp add: mem_read_def)

lemma mem_read_split: "mem_read m a (k + n) = mem_read m a k @ mem_read m (a + k) n"
  using upt_add_eq_append [of a "a + k" n] by (simp add: mem_read_def add.assoc)

lemma mem_read_write_same: "mem_read (mem_write a bs m) a (length bs) = bs"
  by (rule nth_equalityI) (simp_all add: mem_read_def mem_write_def)

lemma mem_write_other: "x < a \<or> a + length bs \<le> x \<Longrightarrow> mem_write a bs m x = m x"
  by (auto simp: mem_write_def)

lemma mem_read_write_disjoint:
  "b + n \<le> a \<or> a + length bs \<le> b \<Longrightarrow> mem_read (mem_write a bs m) b n = mem_read m b n"
  by (auto simp: mem_read_def mem_write_def)

end
