(* ===== verification/Pipe.thy ===== *)
theory Pipe
  imports Prelude
begin

text \<open>
  Pipes, \<^verbatim>\<open>kernel/src/syscall/mod.rs\<close>: the circular buffer of 4096 bytes with its read position, write
  position and byte count, and the pipe with its reader and writer counts.

  The positions and counts are atomics; one operation runs at a time here, and \<open>fetch_add\<close> and \<open>fetch_sub\<close>
  wrap.  The abstract pipe is the list of the bytes in transit (\<open>contents\<close>); the locale \<open>byte_fifo\<close> is the
  contract of a bounded byte channel, and its client lemma says that no byte is lost, duplicated or
  reordered by any sequence of reads and writes.
\<close>

definition PIPE_BUF_SIZE :: nat where "PIPE_BUF_SIZE = 4096"

record PipeBuffer =
  data :: "u8 list"
  read_pos :: nat
  write_pos :: nat
  count :: nat

definition buffer_new :: PipeBuffer where
  "buffer_new = \<lparr>data = replicate PIPE_BUF_SIZE 0, read_pos = 0, write_pos = 0, count = 0\<rparr>"

definition buffer_is_empty :: "PipeBuffer \<Rightarrow> bool" where
  "buffer_is_empty b = (count b = 0)"

definition buffer_is_full :: "PipeBuffer \<Rightarrow> bool" where
  "buffer_is_full b = (count b \<ge> PIPE_BUF_SIZE)"

definition available :: "PipeBuffer \<Rightarrow> nat" where
  "available b = count b"

definition space :: "PipeBuffer \<Rightarrow> nat option" where
  "space b = sub64 PIPE_BUF_SIZE (count b)"

text \<open>The body of the copy loop of \<open>read\<close>: one byte to \<open>out[i]\<close>, and the position advanced.\<close>

definition read_byte :: "u8 list \<Rightarrow> nat \<Rightarrow> u8 list \<times> nat \<Rightarrow> (u8 list \<times> nat) option" where
  "read_byte d i = (\<lambda>(out, rp). do {
     b \<leftarrow> idx d rp;
     out \<leftarrow> set_idx out i b;
     Some (out, (rp + 1) mod PIPE_BUF_SIZE)
   })"

definition buffer_read :: "u8 list \<Rightarrow> nat \<Rightarrow> PipeBuffer \<Rightarrow> (nat \<times> u8 list \<times> PipeBuffer) option" where
  "buffer_read out mx b =
     (let to_read = min mx (min (length out) (available b)) in
      if to_read = 0 then Some (0, out, b)
      else do {
        (out, rp) \<leftarrow> for_each (read_byte (data b)) [0..<to_read] (out, read_pos b);
        Some (to_read, out, b\<lparr>read_pos := rp, count := fetch_sub64 (count b) to_read\<rparr>)
      })"

definition write_byte :: "u8 list \<Rightarrow> nat \<Rightarrow> u8 list \<times> nat \<Rightarrow> (u8 list \<times> nat) option" where
  "write_byte input i = (\<lambda>(d, wp). do {
     b \<leftarrow> idx input i;
     d \<leftarrow> set_idx d wp b;
     Some (d, (wp + 1) mod PIPE_BUF_SIZE)
   })"

definition buffer_write :: "u8 list \<Rightarrow> nat \<Rightarrow> PipeBuffer \<Rightarrow> (nat \<times> PipeBuffer) option" where
  "buffer_write input mx b = do {
     sp \<leftarrow> space b;
     let to_write = min mx (min (length input) sp);
     if to_write = 0 then Some (0, b)
     else do {
       (d, wp) \<leftarrow> for_each (write_byte input) [0..<to_write] (data b, write_pos b);
       Some (to_write, b\<lparr>data := d, write_pos := wp, count := fetch_add64 (count b) to_write\<rparr>)
     }
   }"

record Pipe =
  buffer :: PipeBuffer
  readers :: nat
  writers :: nat

definition pipe_new :: Pipe where
  "pipe_new = \<lparr>buffer = buffer_new, readers = 1, writers = 1\<rparr>"

definition add_reader :: "Pipe \<Rightarrow> Pipe" where
  "add_reader p = p\<lparr>readers := fetch_add64 (readers p) 1\<rparr>"

definition add_writer :: "Pipe \<Rightarrow> Pipe" where
  "add_writer p = p\<lparr>writers := fetch_add64 (writers p) 1\<rparr>"

definition remove_reader :: "Pipe \<Rightarrow> Pipe" where
  "remove_reader p = p\<lparr>readers := fetch_sub64 (readers p) 1\<rparr>"

definition remove_writer :: "Pipe \<Rightarrow> Pipe" where
  "remove_writer p = p\<lparr>writers := fetch_sub64 (writers p) 1\<rparr>"

definition has_readers :: "Pipe \<Rightarrow> bool" where
  "has_readers p = (readers p > 0)"

definition has_writers :: "Pipe \<Rightarrow> bool" where
  "has_writers p = (writers p > 0)"

definition pipe_read :: "u8 list \<Rightarrow> Pipe \<Rightarrow> (nat \<times> u8 list \<times> Pipe) option" where
  "pipe_read out p = do {
     (n, out, b) \<leftarrow> buffer_read out (length out) (buffer p);
     Some (n, out, p\<lparr>buffer := b\<rparr>)
   }"

definition pipe_write :: "u8 list \<Rightarrow> Pipe \<Rightarrow> (nat \<times> Pipe) option" where
  "pipe_write input p =
     (if \<not> has_readers p then Some (0, p)
      else do {
        (n, b) \<leftarrow> buffer_write input (length input) (buffer p);
        Some (n, p\<lparr>buffer := b\<rparr>)
      })"

definition pipe_is_empty :: "Pipe \<Rightarrow> bool" where
  "pipe_is_empty p = buffer_is_empty (buffer p)"

definition pipe_is_full :: "Pipe \<Rightarrow> bool" where
  "pipe_is_full p = buffer_is_full (buffer p)"

definition pipe_available :: "Pipe \<Rightarrow> nat" where
  "pipe_available p = available (buffer p)"

subsection \<open>The abstract pipe\<close>

definition ring :: "u8 list \<Rightarrow> nat \<Rightarrow> nat \<Rightarrow> u8 list" where
  "ring d rp n = map (\<lambda>i. d ! ((rp + i) mod PIPE_BUF_SIZE)) [0..<n]"

definition contents :: "Pipe \<Rightarrow> u8 list" where
  "contents p = ring (data (buffer p)) (read_pos (buffer p)) (count (buffer p))"

definition buffer_inv :: "PipeBuffer \<Rightarrow> bool" where
  "buffer_inv b \<longleftrightarrow> length (data b) = PIPE_BUF_SIZE \<and> read_pos b < PIPE_BUF_SIZE
     \<and> count b \<le> PIPE_BUF_SIZE \<and> write_pos b = (read_pos b + count b) mod PIPE_BUF_SIZE"

definition pipe_inv :: "Pipe \<Rightarrow> bool" where
  "pipe_inv p = buffer_inv (buffer p)"

text \<open>A client of a byte channel: a sequence of reads (with the size of the buffer) and writes; the
  result is the bytes read, the bytes accepted, and the final state.\<close>

datatype fifo_op = Rd nat | Wr "u8 list"

fun run_fifo :: "(nat \<Rightarrow> 's \<Rightarrow> (u8 list \<times> 's) option) \<Rightarrow> (u8 list \<Rightarrow> 's \<Rightarrow> (nat \<times> 's) option)
    \<Rightarrow> fifo_op list \<Rightarrow> 's \<Rightarrow> (u8 list \<times> u8 list \<times> 's) option" where
  "run_fifo rd wr [] s = Some ([], [], s)"
| "run_fifo rd wr (Rd k # ops) s = do {
     (bs, s) \<leftarrow> rd k s;
     (r, w, s) \<leftarrow> run_fifo rd wr ops s;
     Some (bs @ r, w, s)
   }"
| "run_fifo rd wr (Wr bs # ops) s = do {
     (n, s) \<leftarrow> wr bs s;
     (r, w, s) \<leftarrow> run_fifo rd wr ops s;
     Some (r, take n bs @ w, s)
   }"

text \<open>Reading into a fresh buffer of \<open>k\<close> bytes and keeping the bytes that were filled in.\<close>

definition pipe_rd :: "nat \<Rightarrow> Pipe \<Rightarrow> (u8 list \<times> Pipe) option" where
  "pipe_rd k p = map_option (\<lambda>(n, out, p'). (take n out, p')) (pipe_read (replicate k 0) p)"

locale byte_fifo =
  fixes inv :: "'s \<Rightarrow> bool"
    and abs :: "'s \<Rightarrow> u8 list"
    and cap :: nat
    and rd :: "nat \<Rightarrow> 's \<Rightarrow> (u8 list \<times> 's) option"
    and wr :: "u8 list \<Rightarrow> 's \<Rightarrow> (nat \<times> 's) option"
  assumes rd_law: "inv s \<Longrightarrow> \<exists>s'. rd k s = Some (take k (abs s), s') \<and> inv s' \<and> abs s' = drop k (abs s)"
    and wr_law: "inv s \<Longrightarrow> \<exists>n s'. wr bs s = Some (n, s') \<and> inv s' \<and> n \<le> length bs
      \<and> abs s' = abs s @ take n bs"
    and abs_cap: "inv s \<Longrightarrow> length (abs s) \<le> cap"
begin

lemma stream:
  "inv s \<Longrightarrow> \<exists>r w s'. run_fifo rd wr ops s = Some (r, w, s') \<and> inv s' \<and> abs s @ w = r @ abs s'"
proof (induction ops arbitrary: s)
  case Nil
  then show ?case by simp
next
  case (Cons op ops)
  show ?case
  proof (cases op)
    case (Rd k)
    obtain s1 where s1: "rd k s = Some (take k (abs s), s1)" "inv s1" "abs s1 = drop k (abs s)"
      using rd_law [OF Cons.prems] by blast
    obtain r w s' where "run_fifo rd wr ops s1 = Some (r, w, s')" "inv s'" "abs s1 @ w = r @ abs s'"
      using Cons.IH [OF s1(2)] by blast
    then show ?thesis
      using s1 Rd by (simp add: append_assoc [symmetric] del: append_assoc) (metis append_take_drop_id append_assoc)
  next
    case (Wr bs)
    obtain n s1 where s1: "wr bs s = Some (n, s1)" "inv s1" "abs s1 = abs s @ take n bs"
      using wr_law [OF Cons.prems] by blast
    obtain r w s' where "run_fifo rd wr ops s1 = Some (r, w, s')" "inv s'" "abs s1 @ w = r @ abs s'"
      using Cons.IH [OF s1(2)] by blast
    then show ?thesis using s1 Wr by simp
  qed
qed

lemma in_transit:
  assumes "inv s" and "run_fifo rd wr ops s = Some (r, w, s')"
  shows "length r + cap \<ge> length w + length (abs s) \<and> length r \<le> length w + length (abs s)"
proof -
  have "inv s'" and e: "abs s @ w = r @ abs s'"
    using stream [OF assms(1), of ops] assms(2) by auto
  from arg_cong [OF e, of length] show ?thesis
    using abs_cap [OF \<open>inv s'\<close>] by simp
qed

end

subsection \<open>The copy loops\<close>

lemma PIPE_BUF_SIZE_pos [simp]: "0 < PIPE_BUF_SIZE"
  by (simp add: PIPE_BUF_SIZE_def)

lemma length_ring [simp]: "length (ring d rp n) = n"
  by (simp add: ring_def)

lemma ring_nth: "i < n \<Longrightarrow> ring d rp n ! i = d ! ((rp + i) mod PIPE_BUF_SIZE)"
  by (simp add: ring_def)

lemma ring_Suc:
  assumes "rp < PIPE_BUF_SIZE"
  shows "ring d rp (Suc n) = d ! rp # ring d ((rp + 1) mod PIPE_BUF_SIZE) n"
proof (rule nth_equalityI)
  show "ring d rp (Suc n) ! i = (d ! rp # ring d ((rp + 1) mod PIPE_BUF_SIZE) n) ! i"
    if "i < length (ring d rp (Suc n))" for i
    using that assms by (cases i) (simp_all add: ring_nth mod_add_left_eq)
qed simp

lemma read_loop:
  assumes "length d = PIPE_BUF_SIZE" and "rp < PIPE_BUF_SIZE" and "i + k \<le> length out"
  shows "for_each (read_byte d) [i..<i + k] (out, rp)
    = Some (take i out @ ring d rp k @ drop (i + k) out, (rp + k) mod PIPE_BUF_SIZE)"
  using assms(2,3)
proof (induction k arbitrary: i rp out)
  case 0
  then show ?case by (simp add: ring_def)
next
  case (Suc k)
  let ?out = "out[i := d ! rp]"
  have "[i..<i + Suc k] = i # [Suc i..<Suc i + k]"
    by (simp add: upt_conv_Cons)
  moreover have "read_byte d i (out, rp) = Some (?out, (rp + 1) mod PIPE_BUF_SIZE)"
    using Suc.prems assms(1) by (simp add: read_byte_def)
  ultimately have "for_each (read_byte d) [i..<i + Suc k] (out, rp)
      = Some (take (Suc i) ?out @ ring d ((rp + 1) mod PIPE_BUF_SIZE) k @ drop (Suc i + k) ?out,
          ((rp + 1) mod PIPE_BUF_SIZE + k) mod PIPE_BUF_SIZE)"
    using Suc.IH [of "(rp + 1) mod PIPE_BUF_SIZE" "Suc i" ?out] Suc.prems by simp
  moreover have "take (Suc i) ?out = take i out @ [d ! rp]"
    using Suc.prems by (simp add: take_Suc_conv_app_nth)
  ultimately show ?case
    using Suc.prems ring_Suc [of rp d k] by (simp add: mod_add_left_eq)
qed

lemma mod_shift_neq:
  fixes wp j n :: nat
  assumes "wp < n" and "0 < j" and "j < n"
  shows "(wp + j) mod n \<noteq> wp"
proof (cases "wp + j < n")
  case False
  then have "(wp + j) mod n = wp + j - n" using assms by (simp add: le_mod_geq)
  then show ?thesis using assms False by simp
qed (use assms in simp)

lemma write_loop:
  assumes "i + k \<le> length input" and "k \<le> PIPE_BUF_SIZE" and "wp < PIPE_BUF_SIZE" and "length d = PIPE_BUF_SIZE"
  shows "\<exists>d'. for_each (write_byte input) [i..<i + k] (d, wp) = Some (d', (wp + k) mod PIPE_BUF_SIZE)
    \<and> length d' = PIPE_BUF_SIZE
    \<and> (\<forall>j < PIPE_BUF_SIZE. d' ! ((wp + j) mod PIPE_BUF_SIZE) =
        (if j < k then input ! (i + j) else d ! ((wp + j) mod PIPE_BUF_SIZE)))"
  using assms
proof (induction k arbitrary: i wp d)
  case 0
  then show ?case by simp
next
  case (Suc k)
  let ?N = PIPE_BUF_SIZE
  let ?d = "d[wp := input ! i]"
  let ?wp = "(wp + 1) mod ?N"
  obtain d' where d': "for_each (write_byte input) [Suc i..<Suc i + k] (?d, ?wp) = Some (d', (?wp + k) mod ?N)"
    "length d' = ?N"
    "\<forall>j < ?N. d' ! ((?wp + j) mod ?N) = (if j < k then input ! (Suc i + j) else ?d ! ((?wp + j) mod ?N))"
    using Suc.IH [of "Suc i" ?wp ?d] Suc.prems by auto
  have "[i..<i + Suc k] = i # [Suc i..<Suc i + k]"
    by (simp add: upt_conv_Cons)
  moreover have "write_byte input i (d, wp) = Some (?d, ?wp)"
    using Suc.prems by (simp add: write_byte_def)
  ultimately have run: "for_each (write_byte input) [i..<i + Suc k] (d, wp) = Some (d', (wp + Suc k) mod ?N)"
    using d'(1) by (simp add: mod_add_left_eq)
  have "d' ! ((wp + j) mod ?N) = (if j < Suc k then input ! (i + j) else d ! ((wp + j) mod ?N))"
    if j: "j < ?N" for j
  proof (cases j)
    case 0
    have "(?wp + (?N - 1)) mod ?N = (wp + 1 + (?N - 1)) mod ?N" by (rule mod_add_left_eq)
    then have "(?wp + (?N - 1)) mod ?N = wp" using Suc.prems(3) by simp
    moreover have "\<not> ?N - 1 < k" using Suc.prems(2) by linarith
    ultimately show ?thesis
      using 0 d'(3) [rule_format, of "?N - 1"] Suc.prems by simp
  next
    case (Suc j')
    have e: "(?wp + j') mod ?N = (wp + j) mod ?N" using Suc by (simp add: mod_add_left_eq)
    have "(wp + j) mod ?N \<noteq> wp" using j Suc Suc.prems(3) by (intro mod_shift_neq) auto
    then show ?thesis
      using d'(3) [rule_format, of j'] e j Suc by simp
  qed
  then show ?case using run d'(2) by blast
qed

lemma ring_drop: "n \<le> m \<Longrightarrow> ring d ((rp + n) mod PIPE_BUF_SIZE) (m - n) = drop n (ring d rp m)"
  by (rule nth_equalityI) (simp_all add: ring_nth mod_add_left_eq add.assoc)

lemma ring_take: "n \<le> m \<Longrightarrow> take n (ring d rp m) = ring d rp n"
  by (rule nth_equalityI) (simp_all add: ring_nth)

lemma ring_extend:
  assumes "c + n \<le> PIPE_BUF_SIZE" and "n \<le> length input"
    and new: "\<forall>j < PIPE_BUF_SIZE. d' ! ((wp + j) mod PIPE_BUF_SIZE) =
        (if j < n then input ! j else d ! ((wp + j) mod PIPE_BUF_SIZE))"
    and wp: "wp = (rp + c) mod PIPE_BUF_SIZE"
  shows "ring d' rp (c + n) = ring d rp c @ take n input"
proof (rule nth_equalityI)
  let ?N = PIPE_BUF_SIZE
  fix j assume "j < length (ring d' rp (c + n))"
  then have j: "j < c + n" by simp
  show "ring d' rp (c + n) ! j = (ring d rp c @ take n input) ! j"
  proof (cases "j < c")
    case True
    let ?m = "?N - c + j"
    have "(wp + ?m) mod ?N = (rp + c + ?m) mod ?N" unfolding wp by (rule mod_add_left_eq)
    moreover have "rp + c + ?m = rp + j + ?N" using assms(1) by simp
    ultimately have "(wp + ?m) mod ?N = (rp + j) mod ?N" by (simp only: mod_add_self2)
    moreover have "\<not> ?m < n" "?m < ?N" using assms(1) True by auto
    ultimately have "d' ! ((rp + j) mod ?N) = d ! ((rp + j) mod ?N)"
      using new [rule_format, of ?m] by simp
    then show ?thesis using True j by (simp add: ring_nth nth_append)
  next
    case False
    have "(wp + (j - c)) mod ?N = (rp + c + (j - c)) mod ?N" unfolding wp by (rule mod_add_left_eq)
    moreover have "j - c < n" "j - c < ?N" using j assms(1) False by auto
    ultimately have "d' ! ((rp + j) mod ?N) = input ! (j - c)"
      using new [rule_format, of "j - c"] False by simp
    then show ?thesis using False j \<open>j - c < n\<close> by (simp add: ring_nth nth_append)
  qed
qed (use assms(2) in simp)

subsection \<open>The operations refine the byte channel\<close>

lemma fetch_sub64_le: "n \<le> x \<Longrightarrow> x \<le> PIPE_BUF_SIZE \<Longrightarrow> fetch_sub64 x n = x - n"
proof -
  assume "n \<le> x" "x \<le> PIPE_BUF_SIZE"
  then have "x + 2 ^ 64 - n = (x - n) + 2 ^ 64" "x - n < 2 ^ 64" by (simp_all add: PIPE_BUF_SIZE_def)
  then show ?thesis unfolding fetch_sub64_def by (simp only: mod_add_self2 mod_less)
qed

lemma fetch_add64_le: "x + n \<le> PIPE_BUF_SIZE \<Longrightarrow> fetch_add64 x n = x + n"
  by (simp add: fetch_add64_def PIPE_BUF_SIZE_def)

lemma pipe_read_refines:
  assumes "pipe_inv p"
  shows "\<exists>p'. pipe_read out p =
      Some (min (length out) (length (contents p)),
            take (length out) (contents p) @ drop (length (contents p)) out, p')
    \<and> pipe_inv p' \<and> contents p' = drop (length out) (contents p)
    \<and> readers p' = readers p \<and> writers p' = writers p"
proof -
  let ?b = "buffer p" and ?N = PIPE_BUF_SIZE
  define n where "n = min (length out) (count ?b)"
  then have n: "n \<le> length out" "n \<le> count ?b" by auto
  have inv: "length (data ?b) = ?N" "read_pos ?b < ?N" "count ?b \<le> ?N" "write_pos ?b = (read_pos ?b + count ?b) mod ?N"
    using assms by (auto simp: pipe_inv_def buffer_inv_def)
  let ?b' = "?b\<lparr>read_pos := (read_pos ?b + n) mod ?N, count := count ?b - n\<rparr>"
  have "buffer_read out (length out) ?b =
      (if n = 0 then Some (0, out, ?b) else do {
        (out, rp) \<leftarrow> for_each (read_byte (data ?b)) [0..<n] (out, read_pos ?b);
        Some (n, out, ?b\<lparr>read_pos := rp, count := fetch_sub64 (count ?b) n\<rparr>) })"
    unfolding buffer_read_def available_def n_def Let_def by (simp only: min.left_idem)
  then have run: "buffer_read out (length out) ?b = Some (n, ring (data ?b) (read_pos ?b) n @ drop n out, ?b')"
    using read_loop [OF inv(1,2), of 0 n out] inv(2,3) n
    by (cases "n = 0") (simp_all add: fetch_sub64_le ring_def)
  have "((read_pos ?b + n) mod ?N + (count ?b - n)) mod ?N = (read_pos ?b + n + (count ?b - n)) mod ?N"
    by (rule mod_add_left_eq)
  then have "buffer_inv ?b'"
    using inv n by (simp add: buffer_inv_def)
  moreover have "ring (data ?b) ((read_pos ?b + n) mod ?N) (count ?b - n) = drop (length out) (contents p)"
    using ring_drop [OF n(2), of "data ?b" "read_pos ?b"] by (auto simp: contents_def n_def min_def)
  moreover have "ring (data ?b) (read_pos ?b) n @ drop n out
      = take (length out) (contents p) @ drop (length (contents p)) out"
    using ring_take [OF n(2), of "data ?b" "read_pos ?b"] by (auto simp: contents_def n_def min_def)
  ultimately show ?thesis
    using run by (simp add: pipe_read_def pipe_inv_def) (simp add: contents_def n_def)
qed

lemma pipe_write_refines:
  assumes "pipe_inv p"
  shows "\<exists>n p'. pipe_write input p = Some (n, p')
    \<and> n = (if has_readers p then min (length input) (PIPE_BUF_SIZE - length (contents p)) else 0)
    \<and> pipe_inv p' \<and> contents p' = contents p @ take n input
    \<and> readers p' = readers p \<and> writers p' = writers p"
proof (cases "has_readers p")
  case False
  then show ?thesis using assms by (simp add: pipe_write_def)
next
  case True
  let ?b = "buffer p" and ?N = PIPE_BUF_SIZE
  have inv: "length (data ?b) = ?N" "read_pos ?b < ?N" "count ?b \<le> ?N" "write_pos ?b = (read_pos ?b + count ?b) mod ?N"
    using assms by (auto simp: pipe_inv_def buffer_inv_def)
  define n where "n = min (length input) (?N - count ?b)"
  then have n: "n \<le> length input" "count ?b + n \<le> ?N" using inv(3) by auto
  have sp: "space ?b = Some (?N - count ?b)" using inv(3) by (simp add: space_def sub64_def)
  have bw: "buffer_write input (length input) ?b =
      (if n = 0 then Some (0, ?b) else do {
        (d, wp) \<leftarrow> for_each (write_byte input) [0..<n] (data ?b, write_pos ?b);
        Some (n, ?b\<lparr>data := d, write_pos := wp, count := fetch_add64 (count ?b) n\<rparr>) })"
    unfolding buffer_write_def sp n_def Let_def by (simp only: Option.bind.simps min.left_idem)
  have wp: "write_pos ?b < ?N" "n \<le> ?N" using inv(4) n by simp_all
  obtain d' where d': "for_each (write_byte input) [0..<n] (data ?b, write_pos ?b) = Some (d', (write_pos ?b + n) mod ?N)"
    "length d' = ?N"
    "\<forall>j < ?N. d' ! ((write_pos ?b + j) mod ?N) = (if j < n then input ! j else data ?b ! ((write_pos ?b + j) mod ?N))"
    using write_loop [of 0 n input "write_pos ?b" "data ?b"] inv(1) n(1) wp by auto
  let ?b' = "if n = 0 then ?b else ?b\<lparr>data := d', write_pos := (write_pos ?b + n) mod ?N, count := count ?b + n\<rparr>"
  have "pipe_write input p = Some (n, p\<lparr>buffer := ?b'\<rparr>)"
    using True d'(1) n(2) bw by (simp add: pipe_write_def fetch_add64_le)
  moreover have "buffer_inv ?b'"
    using inv d'(2) n by (auto simp: buffer_inv_def mod_add_left_eq add.assoc)
  moreover have "ring d' (read_pos ?b) (count ?b + n) = contents p @ take n input"
    unfolding contents_def using n d'(3) inv(4) by (intro ring_extend [where wp = "write_pos ?b"])
  ultimately show ?thesis
    using True by (auto simp: pipe_inv_def contents_def n_def)
qed

lemma pipe_new_inv: "pipe_inv pipe_new" "contents pipe_new = []"
  by (simp_all add: pipe_inv_def buffer_inv_def pipe_new_def buffer_new_def contents_def ring_def)

interpretation pipeq: byte_fifo pipe_inv contents PIPE_BUF_SIZE pipe_rd pipe_write
proof unfold_locales
  show "\<exists>p'. pipe_rd k p = Some (take k (contents p), p') \<and> pipe_inv p' \<and> contents p' = drop k (contents p)"
    if "pipe_inv p" for p k
    using pipe_read_refines [OF that, of "replicate k 0"] by (auto simp: pipe_rd_def min_def)
  show "\<exists>n p'. pipe_write bs p = Some (n, p') \<and> pipe_inv p' \<and> n \<le> length bs \<and> contents p' = contents p @ take n bs"
    if "pipe_inv p" for p bs
    using pipe_write_refines [OF that, of bs] by (auto split: if_splits)
  show "length (contents p) \<le> PIPE_BUF_SIZE" if "pipe_inv p" for p
    using that by (simp add: pipe_inv_def buffer_inv_def contents_def)
qed

subsection \<open>Properties\<close>

text \<open>C9. A pipe is a faithful byte channel: whatever sequence of reads and writes runs on a new pipe,
  no operation panics, and the bytes accepted by the writes are, in order, exactly the bytes returned by
  the reads followed by the bytes still in the buffer; at most 4096 bytes are in transit.\<close>

theorem pipe_stream:
  "\<exists>r w p'. run_fifo pipe_rd pipe_write ops pipe_new = Some (r, w, p') \<and> w = r @ contents p'
     \<and> length w - length r \<le> PIPE_BUF_SIZE"
proof -
  obtain r w p' where run: "run_fifo pipe_rd pipe_write ops pipe_new = Some (r, w, p')" "w = r @ contents p'"
    using pipeq.stream [OF pipe_new_inv(1), of ops] pipe_new_inv(2) by auto
  then show ?thesis using pipeq.in_transit [OF pipe_new_inv(1) run(1)] pipe_new_inv(2) by simp
qed

text \<open>The write accepts exactly what fits: it returns the smaller of the length of the input and the
  free space when a reader exists and 0 otherwise, appends that prefix of the input to the bytes in
  transit, and \<open>is_empty\<close>, \<open>is_full\<close> and \<open>available\<close> describe the bytes in transit before it.\<close>

theorem pipe_write_accepts:
  assumes "pipe_inv p"
  shows "\<exists>p'. pipe_write input p =
      Some (if readers p > 0 then min (length input) (PIPE_BUF_SIZE - length (contents p)) else 0, p')
    \<and> contents p' = contents p @ take (if readers p > 0 then PIPE_BUF_SIZE - length (contents p) else 0) input
    \<and> pipe_is_empty p = (contents p = []) \<and> pipe_is_full p = (length (contents p) = PIPE_BUF_SIZE)
    \<and> pipe_available p = length (contents p)"
proof -
  have "count (buffer p) \<le> PIPE_BUF_SIZE" "length (contents p) = count (buffer p)"
    using assms by (simp_all add: pipe_inv_def buffer_inv_def contents_def)
  then show ?thesis
    using pipe_write_refines [OF assms, of input]
    by (auto simp: has_readers_def pipe_is_empty_def buffer_is_empty_def pipe_is_full_def buffer_is_full_def
        pipe_available_def available_def min_def split: if_splits)
qed

theorem pipe_write_accepts_witness:
  "\<exists>p'. pipe_write [1, 2, 3] pipe_new = Some (3, p') \<and> contents p' = [1, 2, 3]"
  using pipe_write_accepts [OF pipe_new_inv(1), of "[1, 2, 3]"] pipe_new_inv(2)
  by (auto simp: pipe_new_def PIPE_BUF_SIZE_def numeral_3_eq_3)

end
