(* ===== verification/Msg.thy ===== *)
theory Msg
  imports Syscall "HOL-Library.AList"
begin

text \<open>
  System V message queues, \<^verbatim>\<open>kernel/src/ipc/msg.rs\<close>: the permissions of a queue, the queue with its
  accounting, the table of queues with the map from keys to identifiers, and the system calls \<open>msgget\<close>,
  \<open>msgsnd\<close>, \<open>msgrcv\<close> and \<open>msgctl\<close>.

  A \<open>BTreeMap\<close> is an association list with distinct keys (the code looks up, inserts, removes and counts,
  and never iterates).  The table is behind one lock that each system call holds from beginning to end, so
  that a system call is one step.  The loop of \<open>alloc_id\<close> is a partial function; \<open>alloc_id_returns\<close> shows
  that it returns an unused positive identifier whenever fewer than \<open>2 ^ 31 - 1\<close> queues exist.
\<close>

definition IPC_CREAT :: u32 where "IPC_CREAT = 512"
definition IPC_EXCL :: u32 where "IPC_EXCL = 1024"
definition IPC_NOWAIT :: u32 where "IPC_NOWAIT = 2048"
definition IPC_PRIVATE :: int where "IPC_PRIVATE = 0"

definition IPC_RMID :: int where "IPC_RMID = 0"
definition IPC_STAT :: int where "IPC_STAT = 2"
definition IPC_SET :: int where "IPC_SET = 1"

definition MSG_NOERROR :: u32 where "MSG_NOERROR = 4096"
definition MSG_EXCEPT :: u32 where "MSG_EXCEPT = 8192"
definition MSG_COPY :: u32 where "MSG_COPY = 16384"

definition MSGMAX :: nat where "MSGMAX = 8192"
definition MSGMNB :: nat where "MSGMNB = 16384"
definition MSGMNI :: nat where "MSGMNI = 128"

definition flag :: "u32 \<Rightarrow> u32 \<Rightarrow> bool" where
  "flag flags f = (flags AND f \<noteq> 0)"

subsection \<open>Permissions\<close>

record MsgPerm =
  perm_key :: int
  perm_uid :: nat
  perm_gid :: nat
  perm_cuid :: nat
  perm_cgid :: nat
  perm_mode :: u16

definition perm_new :: "int \<Rightarrow> nat \<Rightarrow> nat \<Rightarrow> u16 \<Rightarrow> MsgPerm" where
  "perm_new key uid gid mode = \<lparr>perm_key = key, perm_uid = uid, perm_gid = gid, perm_cuid = uid,
     perm_cgid = gid, perm_mode = mode AND 0x1FF\<rparr>"

definition can_read :: "MsgPerm \<Rightarrow> nat \<Rightarrow> nat \<Rightarrow> bool" where
  "can_read p uid gid =
     (if uid = 0 then True
      else if uid = perm_uid p then perm_mode p AND 0x100 \<noteq> 0
      else if gid = perm_gid p then perm_mode p AND 0x20 \<noteq> 0
      else perm_mode p AND 0x4 \<noteq> 0)"

definition can_write :: "MsgPerm \<Rightarrow> nat \<Rightarrow> nat \<Rightarrow> bool" where
  "can_write p uid gid =
     (if uid = 0 then True
      else if uid = perm_uid p then perm_mode p AND 0x80 \<noteq> 0
      else if gid = perm_gid p then perm_mode p AND 0x10 \<noteq> 0
      else perm_mode p AND 0x2 \<noteq> 0)"

subsection \<open>A message queue\<close>

record Message =
  mtype :: int
  mdata :: "u8 list"

definition message_size :: "Message \<Rightarrow> nat" where
  "message_size m = length (mdata m)"

record MsqIdDs =
  msg_perm :: MsgPerm
  msg_stime :: nat
  msg_rtime :: nat
  msg_ctime :: nat
  msg_cbytes :: nat
  msg_qnum :: nat
  msg_qbytes :: nat
  msg_lspid :: nat
  msg_lrpid :: nat

record MessageQueue =
  mq_id :: int
  ds :: MsqIdDs
  messages :: "Message list"
  total_bytes :: nat
  marked_for_removal :: bool

definition mq_new :: "nat \<Rightarrow> int \<Rightarrow> int \<Rightarrow> nat \<Rightarrow> nat \<Rightarrow> u16 \<Rightarrow> MessageQueue" where
  "mq_new now qid key uid gid mode =
     \<lparr>mq_id = qid,
      ds = \<lparr>msg_perm = perm_new key uid gid mode, msg_stime = 0, msg_rtime = 0, msg_ctime = now,
            msg_cbytes = 0, msg_qnum = 0, msg_qbytes = MSGMNB, msg_lspid = 0, msg_lrpid = 0\<rparr>,
      messages = [], total_bytes = 0, marked_for_removal = False\<rparr>"

definition has_space :: "nat \<Rightarrow> MessageQueue \<Rightarrow> bool option" where
  "has_space msg_size q = do {
     t \<leftarrow> add64 (total_bytes q) msg_size;
     Some (t \<le> msg_qbytes (ds q))
   }"

definition mq_send :: "Message \<Rightarrow> nat \<Rightarrow> nat \<Rightarrow> MessageQueue \<Rightarrow> (bool \<times> MessageQueue) option" where
  "mq_send msg pid now q = do {
     sp \<leftarrow> has_space (message_size msg) q;
     if \<not> sp then Some (False, q)
     else do {
       let ms = messages q @ [msg];
       t \<leftarrow> add64 (total_bytes q) (message_size msg);
       Some (True, q\<lparr>messages := ms, total_bytes := t,
         ds := (ds q)\<lparr>msg_cbytes := t, msg_qnum := length ms, msg_stime := now, msg_lspid := pid\<rparr>\<rparr>)
     }
   }"

text \<open>The scan for the lowest type: the index and type of the best message so far.\<close>

fun lowest_type :: "int \<Rightarrow> nat \<Rightarrow> Message list \<Rightarrow> nat option \<Rightarrow> int \<Rightarrow> nat option" where
  "lowest_type abs_type i [] best_idx best_type = best_idx"
| "lowest_type abs_type i (msg # ms) best_idx best_type =
     (if mtype msg \<le> abs_type \<and> mtype msg < best_type
      then lowest_type abs_type (Suc i) ms (Some i) (mtype msg)
      else lowest_type abs_type (Suc i) ms best_idx best_type)"

definition I64_MAX :: int where "I64_MAX = 2 ^ 63 - 1"

definition select_msg :: "int \<Rightarrow> u32 \<Rightarrow> Message list \<Rightarrow> nat option" where
  "select_msg msgtyp flags ms =
     (let exc = flag flags MSG_EXCEPT in
      if msgtyp = 0 then (if ms = [] then None else Some 0)
      else if msgtyp > 0 then
        (if exc then position (\<lambda>m. mtype m \<noteq> msgtyp) ms else position (\<lambda>m. mtype m = msgtyp) ms)
      else lowest_type (wrap_i64 \<bar>msgtyp\<bar>) 0 ms None I64_MAX)"

definition mq_receive :: "int \<Rightarrow> u32 \<Rightarrow> nat \<Rightarrow> nat \<Rightarrow> MessageQueue \<Rightarrow> (Message option \<times> MessageQueue) option" where
  "mq_receive msgtyp flags pid now q =
     (case select_msg msgtyp flags (messages q) of
        None \<Rightarrow> Some (None, q)
      | Some i \<Rightarrow>
          if i < length (messages q) then
            (let m = messages q ! i in
             if flag flags MSG_COPY
             then Some (Some m, q\<lparr>ds := (ds q)\<lparr>msg_rtime := now, msg_lrpid := pid\<rparr>\<rparr>)
             else do {
               let ms = remove_at i (messages q);
               t \<leftarrow> sub64 (total_bytes q) (message_size m);
               Some (Some m, q\<lparr>messages := ms, total_bytes := t,
                 ds := (ds q)\<lparr>msg_cbytes := t, msg_qnum := length ms, msg_rtime := now, msg_lrpid := pid\<rparr>\<rparr>)
             })
          else Some (None, q))"

subsection \<open>The table\<close>

record MsgQueueTable =
  mqueues :: "(int \<times> MessageQueue) list"
  key_to_id :: "(int \<times> int) list"
  next_id :: int

definition table_new :: MsgQueueTable where
  "table_new = \<lparr>mqueues = [], key_to_id = [], next_id = 1\<rparr>"

partial_function (option) alloc_id :: "MsgQueueTable \<Rightarrow> (int \<times> MsgQueueTable) option" where
  "alloc_id t =
     (let i = next_id t; t = t\<lparr>next_id := wrap_i32 (next_id t + 1)\<rparr> in
      if i \<le> 0 then alloc_id (t\<lparr>next_id := 1\<rparr>)
      else if map_of (mqueues t) i = None then Some (i, t)
      else alloc_id t)"

definition put_queue :: "int \<Rightarrow> MessageQueue \<Rightarrow> MsgQueueTable \<Rightarrow> MsgQueueTable" where
  "put_queue i q t = t\<lparr>mqueues := AList.update i q (mqueues t)\<rparr>"

subsection \<open>System calls\<close>

text \<open>The creation of a queue in \<open>sys_msgget\<close>; a private queue gets no entry in \<open>key_to_id\<close>.\<close>

definition msgget_create :: "SysCtx \<Rightarrow> int \<Rightarrow> u16 \<Rightarrow> bool \<Rightarrow> MsgQueueTable \<Rightarrow> (int \<times> MsgQueueTable) option" where
  "msgget_create ctx key mode keyed t = do {
     (i, t) \<leftarrow> alloc_id t;
     let t = put_queue i (mq_new (ctx_now ctx) i key (ctx_uid ctx) (ctx_gid ctx) mode) t;
     Some (i, if keyed then t\<lparr>key_to_id := AList.update key i (key_to_id t)\<rparr> else t)
   }"

text \<open>The error branches return \<open>-errno::E...\<close>.\<close>

definition sys_msgget :: "SysCtx \<Rightarrow> int \<Rightarrow> u32 \<Rightarrow> MsgQueueTable \<Rightarrow> (int \<times> MsgQueueTable) option" where
  "sys_msgget ctx key msgflg t =
     (if length (mqueues t) \<ge> MSGMNI then Some (- ENOSPC, t)
      else
       let uid = ctx_uid ctx; gid = ctx_gid ctx;
           mode = ucast (msgflg AND 0x1FF) :: u16;
           not_found = (if \<not> flag msgflg IPC_CREAT then Some (- ENOENT, t)
                        else msgget_create ctx key mode True t)
       in if key = IPC_PRIVATE then msgget_create ctx key mode False t
          else case map_of (key_to_id t) key of
            Some i \<Rightarrow>
              if flag msgflg IPC_CREAT \<and> flag msgflg IPC_EXCL then Some (- EEXIST, t)
              else (case map_of (mqueues t) i of
                 Some q \<Rightarrow>
                   if \<not> can_read (msg_perm (ds q)) uid gid \<and> \<not> can_write (msg_perm (ds q)) uid gid
                   then Some (- EACCES, t)
                   else Some (i, t)
               | None \<Rightarrow> not_found)
          | None \<Rightarrow> not_found)"

definition sys_msgsnd :: "SysCtx \<Rightarrow> umem \<Rightarrow> int \<Rightarrow> nat \<Rightarrow> nat \<Rightarrow> u32 \<Rightarrow> MsgQueueTable
    \<Rightarrow> (int \<times> MsgQueueTable) option" where
  "sys_msgsnd ctx mem msqid msgp msgsz msgflg t =
     (if msgsz > MSGMAX then Some (EINVAL, t)
      else do {
        total_size \<leftarrow> add64 8 msgsz;
        case validate_user_buffer mem msgp total_size of
          None \<Rightarrow> Some (EFAULT, t)
        | Some user_buf \<Rightarrow>
            let mt = wrap_i64 (int (of_le_bytes (take 8 user_buf))) in
            if mt \<le> 0 then Some (EINVAL, t)
            else
              let msg = \<lparr>mtype = mt, mdata = take msgsz (drop 8 user_buf)\<rparr> in
              case map_of (mqueues t) msqid of
                None \<Rightarrow> Some (EINVAL, t)
              | Some q \<Rightarrow>
                  if marked_for_removal q then Some (EIDRM, t)
                  else if \<not> can_write (msg_perm (ds q)) (ctx_uid ctx) (ctx_gid ctx) then Some (EACCES, t)
                  else do {
                    (sent, q) \<leftarrow> mq_send msg (ctx_pid ctx) (ctx_now ctx) q;
                    let t = put_queue msqid q t;
                    if sent then Some (0, t)
                    else if flag msgflg IPC_NOWAIT then Some (EAGAIN, t)
                    else Some (EAGAIN, t)
                  }
      })"

definition sys_msgrcv :: "SysCtx \<Rightarrow> umem \<Rightarrow> int \<Rightarrow> nat \<Rightarrow> nat \<Rightarrow> int \<Rightarrow> u32 \<Rightarrow> MsgQueueTable
    \<Rightarrow> (int \<times> umem \<times> MsgQueueTable) option" where
  "sys_msgrcv ctx mem msqid msgp msgsz msgtyp msgflg t = do {
     total_size \<leftarrow> add64 8 msgsz;
     if \<not> validate_user_buffer_mut msgp total_size then Some (EFAULT, mem, t)
     else case map_of (mqueues t) msqid of
       None \<Rightarrow> Some (EINVAL, mem, t)
     | Some q \<Rightarrow>
         if marked_for_removal q then Some (EIDRM, mem, t)
         else if \<not> can_read (msg_perm (ds q)) (ctx_uid ctx) (ctx_gid ctx) then Some (EACCES, mem, t)
         else do {
           (r, q) \<leftarrow> mq_receive msgtyp msgflg (ctx_pid ctx) (ctx_now ctx) q;
           case r of
             None \<Rightarrow> Some (if flag msgflg IPC_NOWAIT then ENOMSG else ENOMSG, mem, put_queue msqid q t)
           | Some msg \<Rightarrow>
               if length (mdata msg) > msgsz \<and> \<not> flag msgflg MSG_NOERROR
               then Some (E2BIG, mem, put_queue msqid (q\<lparr>messages := msg # messages q\<rparr>) t)
               else
                 let copy_size = (if length (mdata msg) > msgsz then msgsz else length (mdata msg));
                     mem = mem_write msgp (le_bytes 8 (i64_as_u64 (mtype msg))) mem;
                     mem = mem_write (msgp + 8) (take copy_size (mdata msg)) mem
                 in Some (int copy_size, mem, put_queue msqid q t)
         }
   }"

text \<open>\<open>buf\<close> is dereferenced as a \<open>MsqIdDs\<close>: \<open>user_ds\<close> is the structure there, and the second component of
  the result what \<open>IPC_STAT\<close> stores through it.\<close>

definition sys_msgctl :: "SysCtx \<Rightarrow> int \<Rightarrow> int \<Rightarrow> nat \<Rightarrow> MsqIdDs \<Rightarrow> MsgQueueTable
    \<Rightarrow> int \<times> MsqIdDs option \<times> MsgQueueTable" where
  "sys_msgctl ctx msqid cmd buf user_ds t =
     (let uid = ctx_uid ctx; gid = ctx_gid ctx in
      if cmd = IPC_RMID then
        (case map_of (mqueues t) msqid of
           None \<Rightarrow> (EINVAL, None, t)
         | Some q \<Rightarrow>
             if uid \<noteq> 0 \<and> uid \<noteq> perm_uid (msg_perm (ds q)) \<and> uid \<noteq> perm_cuid (msg_perm (ds q))
             then (EPERM, None, t)
             else
               let key = perm_key (msg_perm (ds q));
                   t = (if key \<noteq> IPC_PRIVATE then t\<lparr>key_to_id := AList.delete key (key_to_id t)\<rparr> else t)
               in (0, None, t\<lparr>mqueues := AList.delete msqid (mqueues t)\<rparr>))
      else if cmd = IPC_STAT then
        (case map_of (mqueues t) msqid of
           None \<Rightarrow> (EINVAL, None, t)
         | Some q \<Rightarrow>
             if \<not> can_read (msg_perm (ds q)) uid gid then (EACCES, None, t)
             else if buf = 0 then (EFAULT, None, t)
             else (0, Some (ds q), t))
      else if cmd = IPC_SET then
        (case map_of (mqueues t) msqid of
           None \<Rightarrow> (EINVAL, None, t)
         | Some q \<Rightarrow>
             if uid \<noteq> 0 \<and> uid \<noteq> perm_uid (msg_perm (ds q)) \<and> uid \<noteq> perm_cuid (msg_perm (ds q))
             then (EPERM, None, t)
             else if buf = 0 then (EFAULT, None, t)
             else
               let np = msg_perm user_ds;
                   d = (ds q)\<lparr>
                     msg_perm := (msg_perm (ds q))\<lparr>perm_uid := perm_uid np, perm_gid := perm_gid np,
                       perm_mode := perm_mode np AND 0x1FF\<rparr>,
                     msg_qbytes := min (msg_qbytes user_ds) (MSGMNB * 4),
                     msg_ctime := ctx_now ctx\<rparr>
               in (0, None, put_queue msqid (q\<lparr>ds := d\<rparr>) t))
      else (EINVAL, None, t))"

subsection \<open>Invariant and steps\<close>

definition queue_ok :: "MessageQueue \<Rightarrow> bool" where
  "queue_ok q \<longleftrightarrow> total_bytes q = sum_list (map message_size (messages q))
     \<and> msg_cbytes (ds q) = total_bytes q \<and> msg_qnum (ds q) = length (messages q)
     \<and> msg_qbytes (ds q) \<le> MSGMNB * 4 \<and> total_bytes q \<le> MSGMNB * 4
     \<and> \<not> marked_for_removal q \<and> (\<forall>m \<in> set (messages q). 0 < mtype m \<and> mtype m \<le> I64_MAX)"

definition key_of :: "MessageQueue \<Rightarrow> int" where
  "key_of q = perm_key (msg_perm (ds q))"

text \<open>The two maps agree: every queue is well formed and filed under its own identifier, every key names
  the queue that carries it, and every queue with a key is found by it.\<close>

definition linked :: "(int \<rightharpoonup> MessageQueue) \<Rightarrow> (int \<rightharpoonup> int) \<Rightarrow> bool" where
  "linked qs ks \<longleftrightarrow>
     (\<forall>i q. qs i = Some q \<longrightarrow> queue_ok q \<and> mq_id q = i \<and> 0 < i \<and> i < 2 ^ 31
        \<and> (key_of q \<noteq> IPC_PRIVATE \<longrightarrow> ks (key_of q) = Some i))
     \<and> (\<forall>k i. ks k = Some i \<longrightarrow> k \<noteq> IPC_PRIVATE \<and> (\<exists>q. qs i = Some q \<and> key_of q = k))"

definition table_ok :: "MsgQueueTable \<Rightarrow> bool" where
  "table_ok t \<longleftrightarrow> distinct (map fst (mqueues t)) \<and> distinct (map fst (key_to_id t))
     \<and> length (mqueues t) \<le> MSGMNI \<and> - (2 ^ 31) \<le> next_id t \<and> next_id t < 2 ^ 31
     \<and> linked (map_of (mqueues t)) (map_of (key_to_id t))"

text \<open>One step is one system call; receiving a message that does not fit is kept apart.\<close>

inductive msg_step :: "MsgQueueTable \<Rightarrow> MsgQueueTable \<Rightarrow> bool" where
  step_get: "sys_msgget ctx key f t = Some (r, t') \<Longrightarrow> msg_step t t'"
| step_snd: "sys_msgsnd ctx mem i p n f t = Some (r, t') \<Longrightarrow> msg_step t t'"
| step_rcv: "sys_msgrcv ctx mem i p n ty f t = Some (r, mem', t') \<Longrightarrow> r \<noteq> E2BIG \<Longrightarrow> msg_step t t'"
| step_ctl: "sys_msgctl ctx i cmd buf uds t = (r, out, t') \<Longrightarrow> msg_step t t'"

inductive msg_reachable :: "MsgQueueTable \<Rightarrow> bool" where
  reach_table: "msg_reachable table_new"
| reach_call: "msg_reachable t \<Longrightarrow> msg_step t t' \<Longrightarrow> msg_reachable t'"

subsection \<open>Association lists\<close>

lemma length_update:
  "length (AList.update k v al) = (if k \<in> fst ` set al then length al else Suc (length al))"
  by (induction al) auto

lemma map_of_put [simp]: "map_of (AList.update k v al) = (map_of al)(k \<mapsto> v)"
  by (rule ext) (simp add: update_conv)

lemma map_of_del [simp]: "map_of (AList.delete k al) = (map_of al)(k := None)"
  by (rule ext) (simp add: delete_conv)

lemma fst_in_dom: "k \<in> fst ` set al \<longleftrightarrow> map_of al k \<noteq> None"
  by (simp add: map_of_eq_None_iff)

subsection \<open>Identifier allocation\<close>

lemma alloc_id_step:
  "0 < next_id t \<Longrightarrow> map_of (mqueues t) (next_id t) = None
   \<Longrightarrow> alloc_id t = Some (next_id t, t\<lparr>next_id := wrap_i32 (next_id t + 1)\<rparr>)"
  "0 < next_id t \<Longrightarrow> map_of (mqueues t) (next_id t) \<noteq> None
   \<Longrightarrow> alloc_id t = alloc_id (t\<lparr>next_id := wrap_i32 (next_id t + 1)\<rparr>)"
  "next_id t \<le> 0 \<Longrightarrow> alloc_id t = alloc_id (t\<lparr>next_id := 1\<rparr>)"
proof -
  show "0 < next_id t \<Longrightarrow> map_of (mqueues t) (next_id t) = None
      \<Longrightarrow> alloc_id t = Some (next_id t, t\<lparr>next_id := wrap_i32 (next_id t + 1)\<rparr>)"
    by (rule trans [OF alloc_id.simps [of t]]) (simp add: Let_def)
  show "0 < next_id t \<Longrightarrow> map_of (mqueues t) (next_id t) \<noteq> None
      \<Longrightarrow> alloc_id t = alloc_id (t\<lparr>next_id := wrap_i32 (next_id t + 1)\<rparr>)"
    by (rule trans [OF alloc_id.simps [of t]]) (auto simp: Let_def)
  show "next_id t \<le> 0 \<Longrightarrow> alloc_id t = alloc_id (t\<lparr>next_id := 1\<rparr>)"
    by (rule trans [OF alloc_id.simps [of t]]) (simp add: Let_def)
qed

definition alloc_spec :: "MsgQueueTable \<Rightarrow> bool" where
  "alloc_spec t \<longleftrightarrow> (\<exists>i n. alloc_id t = Some (i, t\<lparr>next_id := n\<rparr>) \<and> 0 < i \<and> i < 2 ^ 31
     \<and> map_of (mqueues t) i = None \<and> - (2 ^ 31) \<le> n \<and> n < 2 ^ 31)"

lemma alloc_spec_next: "alloc_spec (t\<lparr>next_id := n\<rparr>) \<Longrightarrow> alloc_id t = alloc_id (t\<lparr>next_id := n\<rparr>) \<Longrightarrow> alloc_spec t"
  by (auto simp: alloc_spec_def)

lemma wrap_i32_range: "- (2 ^ 31) \<le> wrap_i32 z \<and> wrap_i32 z < 2 ^ 31"
  using pos_mod_bound [of "2 ^ 32" "z + 2 ^ 31"] by (simp add: wrap_i32_def)

lemma alloc_walk:
  assumes "0 < next_id t" and "next_id t + int k < 2 ^ 31" and "map_of (mqueues t) (next_id t + int k) = None"
  shows "alloc_spec t"
  using assms
proof (induction k arbitrary: t)
  case 0
  then show ?case using alloc_id_step(1) [of t] wrap_i32_range by (auto simp: alloc_spec_def)
next
  case (Suc k)
  show ?case
  proof (cases "map_of (mqueues t) (next_id t) = None")
    case True
    then show ?thesis
      using Suc.prems alloc_id_step(1) [of t] wrap_i32_range by (auto simp: alloc_spec_def)
  next
    case False
    have w: "wrap_i32 (next_id t + 1) = next_id t + 1"
      using Suc.prems by (intro wrap_i32_id) auto
    then have "alloc_id t = alloc_id (t\<lparr>next_id := next_id t + 1\<rparr>)"
      using alloc_id_step(2) [OF Suc.prems(1) False] by simp
    moreover have "alloc_spec (t\<lparr>next_id := next_id t + 1\<rparr>)"
      using Suc.prems by (intro Suc.IH) (simp_all add: ac_simps)
    ultimately show ?thesis by (rule alloc_spec_next [rotated])
  qed
qed

lemma alloc_wrap:
  assumes "0 < next_id t" and "next_id t + int k = 2 ^ 31 - 1"
    and "\<forall>i. next_id t \<le> i \<and> i < 2 ^ 31 \<longrightarrow> map_of (mqueues t) i \<noteq> None"
  shows "alloc_id t = alloc_id (t\<lparr>next_id := 1\<rparr>)"
  using assms
proof (induction k arbitrary: t)
  case 0
  then have "wrap_i32 (next_id t + 1) = - (2 ^ 31)" by (simp add: wrap_i32_def)
  then show ?case
    using 0 alloc_id_step(2) [of t] alloc_id_step(3) [of "t\<lparr>next_id := - (2 ^ 31)\<rparr>"] by simp
next
  case (Suc k)
  have "wrap_i32 (next_id t + 1) = next_id t + 1"
    using Suc.prems by (intro wrap_i32_id) auto
  then have "alloc_id t = alloc_id (t\<lparr>next_id := next_id t + 1\<rparr>)"
    using alloc_id_step(2) [of t] Suc.prems by simp
  also have "\<dots> = alloc_id (t\<lparr>next_id := 1\<rparr>)"
    using Suc.IH [of "t\<lparr>next_id := next_id t + 1\<rparr>"] Suc.prems by simp
  finally show ?case .
qed

lemma some_free_id:
  assumes "length (mqueues t) < 2 ^ 31 - 1"
  shows "\<exists>i. 1 \<le> i \<and> i < 2 ^ 31 \<and> map_of (mqueues t) i = None"
proof (rule ccontr)
  assume "\<not> ?thesis"
  then have "{1 ..< 2 ^ 31 :: int} \<subseteq> fst ` set (mqueues t)"
    using fst_in_dom [of _ "mqueues t"] by force
  then have "card {1 ..< 2 ^ 31 :: int} \<le> card (fst ` set (mqueues t))"
    by (intro card_mono) simp_all
  also have "\<dots> \<le> length (mqueues t)"
    by (metis card_length list.set_map length_map)
  finally show False using assms by simp
qed

lemma alloc_from_positive:
  assumes "length (mqueues t) < 2 ^ 31 - 1" and "0 < next_id t" and "next_id t < 2 ^ 31"
  shows "alloc_spec t"
proof (cases "\<exists>i. next_id t \<le> i \<and> i < 2 ^ 31 \<and> map_of (mqueues t) i = None")
  case True
  then obtain i where "next_id t \<le> i" "i < 2 ^ 31" "map_of (mqueues t) i = None" by blast
  then show ?thesis using assms by (intro alloc_walk [where k = "nat (i - next_id t)"]) simp_all
next
  case False
  then have "alloc_id t = alloc_id (t\<lparr>next_id := 1\<rparr>)"
    using assms by (intro alloc_wrap [where k = "nat (2 ^ 31 - 1 - next_id t)"]) auto
  moreover obtain i where "1 \<le> i" "i < 2 ^ 31" "map_of (mqueues t) i = None"
    using some_free_id [OF assms(1)] by blast
  then have "alloc_spec (t\<lparr>next_id := 1\<rparr>)"
    by (intro alloc_walk [where k = "nat (i - 1)"]) simp_all
  ultimately show ?thesis by (rule alloc_spec_next [rotated])
qed

lemma alloc_id_returns:
  assumes "length (mqueues t) < 2 ^ 31 - 1" and "next_id t < 2 ^ 31"
  shows "alloc_spec t"
proof (cases "0 < next_id t")
  case False
  then have "alloc_id t = alloc_id (t\<lparr>next_id := 1\<rparr>)" by (intro alloc_id_step(3)) simp
  moreover have "alloc_spec (t\<lparr>next_id := 1\<rparr>)" using assms by (intro alloc_from_positive) simp_all
  ultimately show ?thesis by (rule alloc_spec_next [rotated])
qed (use alloc_from_positive assms in simp)

subsection \<open>Selection of a message\<close>

lemma lowest_type_spec:
  "(lowest_type a i ms b bt = b \<and> (\<forall>m \<in> set ms. mtype m \<le> a \<longrightarrow> bt \<le> mtype m))
   \<or> (\<exists>k < length ms. lowest_type a i ms b bt = Some (i + k) \<and> mtype (ms ! k) \<le> a \<and> mtype (ms ! k) < bt
        \<and> (\<forall>m \<in> set ms. mtype m \<le> a \<longrightarrow> mtype (ms ! k) \<le> mtype m)
        \<and> (\<forall>j < k. mtype (ms ! j) \<le> a \<longrightarrow> mtype (ms ! k) < mtype (ms ! j)))"
proof (induction ms arbitrary: i b bt)
  case Nil
  then show ?case by simp
next
  case (Cons msg ms)
  show ?case
  proof (cases "mtype msg \<le> a \<and> mtype msg < bt")
    case True
    from Cons.IH [of "Suc i" "Some i" "mtype msg"] show ?thesis
    proof (elim disjE exE conjE)
      assume "lowest_type a (Suc i) ms (Some i) (mtype msg) = Some i"
        and "\<forall>m \<in> set ms. mtype m \<le> a \<longrightarrow> mtype msg \<le> mtype m"
      then show ?thesis using True by (intro disjI2 exI [of _ 0]) simp
    next
      fix k assume "k < length ms" "lowest_type a (Suc i) ms (Some i) (mtype msg) = Some (Suc i + k)"
        "mtype (ms ! k) \<le> a" "mtype (ms ! k) < mtype msg"
        "\<forall>m \<in> set ms. mtype m \<le> a \<longrightarrow> mtype (ms ! k) \<le> mtype m"
        "\<forall>j < k. mtype (ms ! j) \<le> a \<longrightarrow> mtype (ms ! k) < mtype (ms ! j)"
      then show ?thesis
        using True by (intro disjI2 exI [of _ "Suc k"]) (simp add: All_less_Suc2)
    qed
  next
    case False
    from Cons.IH [of "Suc i" b bt] show ?thesis
    proof (elim disjE exE conjE)
      assume "lowest_type a (Suc i) ms b bt = b" "\<forall>m \<in> set ms. mtype m \<le> a \<longrightarrow> bt \<le> mtype m"
      then show ?thesis using False by (intro disjI1) auto
    next
      fix k assume "k < length ms" "lowest_type a (Suc i) ms b bt = Some (Suc i + k)"
        "mtype (ms ! k) \<le> a" "mtype (ms ! k) < bt"
        "\<forall>m \<in> set ms. mtype m \<le> a \<longrightarrow> mtype (ms ! k) \<le> mtype m"
        "\<forall>j < k. mtype (ms ! j) \<le> a \<longrightarrow> mtype (ms ! k) < mtype (ms ! j)"
      then show ?thesis
        using False by (intro disjI2 exI [of _ "Suc k"]) (auto simp: All_less_Suc2)
    qed
  qed
qed

lemma select_msg_less: "select_msg ty f ms = Some i \<Longrightarrow> i < length ms"
  using lowest_type_spec [of "wrap_i64 \<bar>ty\<bar>" 0 ms None I64_MAX]
  by (auto simp: select_msg_def Let_def position_Some split: if_splits)

subsection \<open>The queue operations keep the accounting\<close>

lemma mq_new_ok: "queue_ok (mq_new now i key uid gid mode)" "mq_id (mq_new now i key uid gid mode) = i"
  "key_of (mq_new now i key uid gid mode) = key"
  by (simp_all add: queue_ok_def mq_new_def key_of_def perm_new_def)

lemma mq_send_cases:
  assumes "queue_ok q" and "message_size msg \<le> MSGMAX"
  shows "\<exists>q'. mq_send msg pid now q = Some (total_bytes q + message_size msg \<le> msg_qbytes (ds q), q')
    \<and> mq_id q' = mq_id q \<and> msg_perm (ds q') = msg_perm (ds q) \<and> msg_qbytes (ds q') = msg_qbytes (ds q)
    \<and> messages q' = messages q @ (if total_bytes q + message_size msg \<le> msg_qbytes (ds q) then [msg] else [])
    \<and> (0 < mtype msg \<and> mtype msg \<le> I64_MAX \<longrightarrow> queue_ok q')"
proof -
  have "total_bytes q \<le> MSGMNB * 4" using assms(1) by (simp add: queue_ok_def)
  then have a: "add64 (total_bytes q) (message_size msg) = Some (total_bytes q + message_size msg)"
    using assms(2) by (simp add: add64_def MSGMNB_def MSGMAX_def U64_MAX_def)
  let ?fits = "total_bytes q + message_size msg \<le> msg_qbytes (ds q)"
  let ?t = "total_bytes q + message_size msg"
  have "mq_send msg pid now q = Some (?fits, if ?fits then q\<lparr>messages := messages q @ [msg], total_bytes := ?t,
      ds := (ds q)\<lparr>msg_cbytes := ?t, msg_qnum := length (messages q @ [msg]), msg_stime := now, msg_lspid := pid\<rparr>\<rparr> else q)"
    by (simp add: mq_send_def has_space_def a Let_def)
  then show ?thesis
    using assms(1) by (auto simp: queue_ok_def)
qed

lemma mq_receive_cases:
  assumes "queue_ok q"
  shows "\<exists>q'. mq_receive ty f pid now q =
      Some (map_option ((!) (messages q)) (select_msg ty f (messages q)), q')
    \<and> queue_ok q' \<and> mq_id q' = mq_id q \<and> msg_perm (ds q') = msg_perm (ds q)
    \<and> messages q' = (case select_msg ty f (messages q) of
         Some i \<Rightarrow> if flag f MSG_COPY then messages q else remove_at i (messages q)
       | None \<Rightarrow> messages q)"
proof (cases "select_msg ty f (messages q)")
  case None
  then show ?thesis using assms by (simp add: mq_receive_def)
next
  case (Some i)
  then have i: "i < length (messages q)" by (rule select_msg_less)
  let ?m = "messages q ! i"
  have sp: "messages q = take i (messages q) @ ?m # drop (Suc i) (messages q)"
    using i by (rule id_take_nth_drop)
  have "sum_list (map message_size (messages q))
      = message_size ?m + sum_list (map message_size (remove_at i (messages q)))"
    by (subst sp) (simp add: remove_at_def)
  moreover have "set (remove_at i (messages q)) \<subseteq> set (messages q)"
    using set_take_subset [of i "messages q"] set_drop_subset [of "Suc i" "messages q"]
    by (simp add: remove_at_def)
  ultimately show ?thesis
    using assms Some i by (auto simp: mq_receive_def queue_ok_def sub64_def Let_def)
qed

subsection \<open>The system calls keep the table consistent\<close>

lemma linkedI:
  assumes "\<And>i q. qs i = Some q \<Longrightarrow> queue_ok q \<and> mq_id q = i \<and> 0 < i \<and> i < 2 ^ 31"
    and "\<And>i q. qs i = Some q \<Longrightarrow> key_of q \<noteq> IPC_PRIVATE \<Longrightarrow> ks (key_of q) = Some i"
    and "\<And>k i. ks k = Some i \<Longrightarrow> k \<noteq> IPC_PRIVATE \<and> (\<exists>q. qs i = Some q \<and> key_of q = k)"
  shows "linked qs ks"
  unfolding linked_def using assms by blast

lemma linkedD:
  assumes "linked qs ks"
  shows "qs i = Some q \<Longrightarrow> queue_ok q \<and> mq_id q = i \<and> 0 < i \<and> i < 2 ^ 31"
    and "qs i = Some q \<Longrightarrow> key_of q \<noteq> IPC_PRIVATE \<Longrightarrow> ks (key_of q) = Some i"
    and "ks k = Some i \<Longrightarrow> k \<noteq> IPC_PRIVATE \<and> (\<exists>q. qs i = Some q \<and> key_of q = k)"
  using assms unfolding linked_def by blast+

lemma linked_put:
  assumes l: "linked qs ks" and q: "qs i = Some q" and "queue_ok q'" and "mq_id q' = mq_id q" and "key_of q' = key_of q"
  shows "linked (qs(i \<mapsto> q')) ks"
proof (rule linkedI)
  show "queue_ok r \<and> mq_id r = j \<and> 0 < j \<and> j < 2 ^ 31" if "(qs(i \<mapsto> q')) j = Some r" for j r
    using that assms linkedD(1) [OF l, of j] linkedD(1) [OF l q] by (cases "j = i") simp_all
  show "ks (key_of r) = Some j" if "(qs(i \<mapsto> q')) j = Some r" "key_of r \<noteq> IPC_PRIVATE" for j r
    using that assms linkedD(2) [OF l, of j] by (cases "j = i") auto
  show "k \<noteq> IPC_PRIVATE \<and> (\<exists>r. (qs(i \<mapsto> q')) j = Some r \<and> key_of r = k)" if "ks k = Some j" for k j
    using linkedD(3) [OF l that] assms by (cases "j = i") simp_all
qed

lemma linked_create:
  assumes l: "linked qs ks" and "qs i = None" and "queue_ok q" and "mq_id q = i" and "0 < i" and "i < 2 ^ 31"
    and "ks' = (if key_of q = IPC_PRIVATE then ks else ks(key_of q \<mapsto> i))"
    and "key_of q \<noteq> IPC_PRIVATE \<longrightarrow> ks (key_of q) = None"
  shows "linked (qs(i \<mapsto> q)) ks'"
proof (rule linkedI)
  show "queue_ok r \<and> mq_id r = j \<and> 0 < j \<and> j < 2 ^ 31" if "(qs(i \<mapsto> q)) j = Some r" for j r
    using that assms(3-6) linkedD(1) [OF l, of j] by (cases "j = i") simp_all
  show "ks' (key_of r) = Some j" if "(qs(i \<mapsto> q)) j = Some r" "key_of r \<noteq> IPC_PRIVATE" for j r
    using that assms(7,8) linkedD(2) [OF l, of j r] by (cases "j = i") auto
  show "k \<noteq> IPC_PRIVATE \<and> (\<exists>r. (qs(i \<mapsto> q)) j = Some r \<and> key_of r = k)" if "ks' k = Some j" for k j
    using that linkedD(3) [OF l, of k j] assms(2,7) by (auto split: if_splits)
qed

lemma linked_remove:
  assumes l: "linked qs ks" and q: "qs i = Some q"
    and ks': "ks' = (if key_of q \<noteq> IPC_PRIVATE then ks(key_of q := None) else ks)"
  shows "linked (qs(i := None)) ks'"
proof (rule linkedI)
  show "queue_ok r \<and> mq_id r = j \<and> 0 < j \<and> j < 2 ^ 31" if "(qs(i := None)) j = Some r" for j r
    using that linkedD(1) [OF l, of j r] by (cases "j = i") simp_all
  show "ks' (key_of r) = Some j" if "(qs(i := None)) j = Some r" "key_of r \<noteq> IPC_PRIVATE" for j r
    using that linkedD(2) [OF l, of j r] linkedD(2) [OF l q] ks' by (cases "j = i") auto
  show "k \<noteq> IPC_PRIVATE \<and> (\<exists>r. (qs(i := None)) j = Some r \<and> key_of r = k)" if "ks' k = Some j" for k j
    using that linkedD(3) [OF l, of k j] q ks' by (auto split: if_splits)
qed

lemma put_queue_ok:
  assumes "table_ok t" and "map_of (mqueues t) i = Some q" and "queue_ok q'"
    and "mq_id q' = mq_id q" and "key_of q' = key_of q"
  shows "table_ok (put_queue i q' t)"
proof -
  have "i \<in> fst ` set (mqueues t)" using assms(2) by (simp add: fst_in_dom)
  then have "length (AList.update i q' (mqueues t)) = length (mqueues t)" by (simp add: length_update)
  then show ?thesis
    using assms linked_put [of "map_of (mqueues t)" "map_of (key_to_id t)" i q q']
    by (simp add: table_ok_def put_queue_def distinct_update del: map_of_eq_Some_iff)
qed

lemma create_ok:
  assumes "table_ok t" and "length (mqueues t) < MSGMNI" and "map_of (mqueues t) i = None"
    and "0 < i" "i < 2 ^ 31" "- (2 ^ 31) \<le> n" "n < 2 ^ 31"
    and "keyed \<longleftrightarrow> key_of q \<noteq> IPC_PRIVATE" and "keyed \<longrightarrow> map_of (key_to_id t) (key_of q) = None"
    and "queue_ok q" "mq_id q = i"
    and t1: "t1 = put_queue i q (t\<lparr>next_id := n\<rparr>)"
  shows "table_ok (if keyed then t1\<lparr>key_to_id := AList.update (key_of q) i (key_to_id t1)\<rparr> else t1)"
proof -
  have "i \<notin> fst ` set (mqueues t)" using assms(3) by (simp add: fst_in_dom)
  then have len: "length (AList.update i q (mqueues t)) \<le> MSGMNI" using assms(2) by (simp add: length_update)
  have lk: "linked (map_of (mqueues t)) (map_of (key_to_id t))" using assms(1) by (simp add: table_ok_def)
  note linked = linked_create [OF lk assms(3,10,11,4,5), of "if keyed then (map_of (key_to_id t))(key_of q \<mapsto> i) else map_of (key_to_id t)"]
  show ?thesis
    using assms len linked
    by (cases keyed) (simp_all add: table_ok_def put_queue_def distinct_update del: map_of_eq_Some_iff)
qed

lemma table_ok_queue:
  "table_ok t \<Longrightarrow> map_of (mqueues t) i = Some q \<Longrightarrow> queue_ok q \<and> mq_id q = i \<and> 0 < i \<and> i < 2 ^ 31"
  unfolding table_ok_def by (elim conjE) (rule linkedD(1))

lemma msgget_create_ok:
  assumes "table_ok t" and "length (mqueues t) < MSGMNI" and "keyed \<longleftrightarrow> key \<noteq> IPC_PRIVATE"
    and "keyed \<longrightarrow> map_of (key_to_id t) key = None"
  shows "\<exists>i t'. msgget_create ctx key mode keyed t = Some (i, t') \<and> table_ok t' \<and> 0 < i \<and> i < 2 ^ 31
    \<and> map_of (mqueues t) i = None
    \<and> map_of (mqueues t') = (map_of (mqueues t))(i \<mapsto> mq_new (ctx_now ctx) i key (ctx_uid ctx) (ctx_gid ctx) mode)
    \<and> map_of (key_to_id t') = (if keyed then (map_of (key_to_id t))(key \<mapsto> i) else map_of (key_to_id t))"
proof -
  have "alloc_spec t" using assms(1,2) by (intro alloc_id_returns) (simp_all add: table_ok_def MSGMNI_def)
  then obtain i n where a: "alloc_id t = Some (i, t\<lparr>next_id := n\<rparr>)" "0 < i" "i < 2 ^ 31"
    "map_of (mqueues t) i = None" "- (2 ^ 31) \<le> n" "n < 2 ^ 31"
    unfolding alloc_spec_def by blast
  let ?q = "mq_new (ctx_now ctx) i key (ctx_uid ctx) (ctx_gid ctx) mode"
  let ?t1 = "put_queue i ?q (t\<lparr>next_id := n\<rparr>)"
  have "table_ok (if keyed then ?t1\<lparr>key_to_id := AList.update (key_of ?q) i (key_to_id ?t1)\<rparr> else ?t1)"
    using assms(3,4) by (intro create_ok [OF assms(1,2) a(4,2,3,5,6)]) (simp_all add: mq_new_ok)
  then show ?thesis
    using a by (cases keyed) (simp_all add: msgget_create_def mq_new_ok Let_def put_queue_def)
qed

lemma msgget_ok:
  assumes "table_ok t"
  shows "\<exists>r t'. sys_msgget ctx key f t = Some (r, t') \<and> table_ok t'"
proof (cases "length (mqueues t) \<ge> MSGMNI")
  case True
  then show ?thesis using assms by (simp add: sys_msgget_def)
next
  case False
  have None: "map_of (key_to_id t) key = None \<Longrightarrow> key \<noteq> IPC_PRIVATE \<Longrightarrow> ?thesis"
    using False msgget_create_ok [OF assms, of True key ctx "ucast (f AND 0x1FF)"] assms
    by (auto simp: sys_msgget_def Let_def)
  have Some: "map_of (key_to_id t) key = Some i \<Longrightarrow> key \<noteq> IPC_PRIVATE \<Longrightarrow> ?thesis" for i
    using False assms linkedD(3) [of "map_of (mqueues t)" "map_of (key_to_id t)" key i]
    by (auto simp: sys_msgget_def Let_def table_ok_def simp del: map_of_eq_Some_iff)
  have Priv: "key = IPC_PRIVATE \<Longrightarrow> ?thesis"
    using False msgget_create_ok [OF assms, of False key ctx "ucast (f AND 0x1FF)"]
    by (auto simp: sys_msgget_def Let_def)
  show ?thesis using None Some Priv by (cases "map_of (key_to_id t) key") blast+
qed

text \<open>The message that \<open>msgsnd\<close> builds from the user buffer.\<close>

definition user_message :: "umem \<Rightarrow> nat \<Rightarrow> nat \<Rightarrow> Message" where
  "user_message mem msgp msgsz =
     \<lparr>mtype = wrap_i64 (int (of_le_bytes (mem_read mem msgp 8))), mdata = mem_read mem (msgp + 8) msgsz\<rparr>"

lemma msgsnd_eq:
  assumes "msgsz \<le> MSGMAX" and "is_user_range msgp (8 + msgsz)"
  shows "sys_msgsnd ctx mem msqid msgp msgsz f t =
     (if mtype (user_message mem msgp msgsz) \<le> 0 then Some (EINVAL, t)
      else case map_of (mqueues t) msqid of
        None \<Rightarrow> Some (EINVAL, t)
      | Some q \<Rightarrow>
          if marked_for_removal q then Some (EIDRM, t)
          else if \<not> can_write (msg_perm (ds q)) (ctx_uid ctx) (ctx_gid ctx) then Some (EACCES, t)
          else map_option (\<lambda>(sent, q). (if sent then 0 else EAGAIN, put_queue msqid q t))
            (mq_send (user_message mem msgp msgsz) (ctx_pid ctx) (ctx_now ctx) q))"
proof -
  have a: "add64 8 msgsz = Some (8 + msgsz)"
    using assms(1) by (simp add: add64_def MSGMAX_def U64_MAX_def)
  have "take 8 (mem_read mem msgp (8 + msgsz)) = mem_read mem msgp 8"
    "take msgsz (drop 8 (mem_read mem msgp (8 + msgsz))) = mem_read mem (msgp + 8) msgsz"
    by (simp_all add: mem_read_split)
  then show ?thesis
    using assms by (auto simp: sys_msgsnd_def a validate_user_buffer_def user_message_def Let_def
        map_option_case split: option.splits bind_splits)
qed

lemma user_message_range: "mtype (user_message mem p n) \<le> I64_MAX" "message_size (user_message mem p n) = n"
  using wrap_i64_range [of "int (of_le_bytes (mem_read mem p 8))"]
  by (simp_all add: user_message_def I64_MAX_def message_size_def)

lemma msgsnd_ok:
  assumes "table_ok t"
  shows "\<exists>r t'. sys_msgsnd ctx mem i p n f t = Some (r, t') \<and> table_ok t'"
proof (cases "n \<le> MSGMAX \<and> is_user_range p (8 + n)")
  case False
  then show ?thesis
    using assms by (auto simp: sys_msgsnd_def add64_def MSGMAX_def U64_MAX_def validate_user_buffer_def)
next
  case True
  let ?m = "user_message mem p n"
  show ?thesis
  proof (cases "map_of (mqueues t) i")
    case None
    then show ?thesis using True assms by (simp add: msgsnd_eq)
  next
    case (Some q)
    have q: "queue_ok q" using table_ok_queue [OF assms Some] by simp
    have "message_size ?m \<le> MSGMAX" using True by (simp add: user_message_range)
    then obtain b q' where s: "mq_send ?m (ctx_pid ctx) (ctx_now ctx) q = Some (b, q')" "mq_id q' = mq_id q"
      "msg_perm (ds q') = msg_perm (ds q)" "0 < mtype ?m \<longrightarrow> queue_ok q'"
      using mq_send_cases [OF q] user_message_range(1) by blast
    then show ?thesis
      using True Some assms put_queue_ok [OF assms Some, of q'] by (simp add: msgsnd_eq key_of_def)
  qed
qed

text \<open>\<open>msgrcv\<close> on a valid buffer and an accessible queue.\<close>

lemma msgrcv_eq:
  assumes "is_user_range p (8 + n)" and "map_of (mqueues t) i = Some q" and "\<not> marked_for_removal q"
    and "can_read (msg_perm (ds q)) (ctx_uid ctx) (ctx_gid ctx)"
    and "mq_receive ty f (ctx_pid ctx) (ctx_now ctx) q = Some (r, q')"
  shows "sys_msgrcv ctx mem i p n ty f t = Some (case r of
       None \<Rightarrow> (ENOMSG, mem, put_queue i q' t)
     | Some msg \<Rightarrow>
         if length (mdata msg) > n \<and> \<not> flag f MSG_NOERROR
         then (E2BIG, mem, put_queue i (q'\<lparr>messages := msg # messages q'\<rparr>) t)
         else (int (min n (length (mdata msg))),
               mem_write (p + 8) (take (min n (length (mdata msg))) (mdata msg))
                 (mem_write p (le_bytes 8 (i64_as_u64 (mtype msg))) mem), put_queue i q' t))"
proof -
  have "add64 8 n = Some (8 + n)"
    using assms(1) by (simp add: is_user_range_iff add64_def U64_MAX_def USER_SPACE_END_def)
  then show ?thesis
    using assms by (auto simp: sys_msgrcv_def validate_user_buffer_mut_def Let_def min_def split: option.splits)
qed

lemma msgrcv_ok:
  assumes "table_ok t" and "sys_msgrcv ctx mem i p n ty f t = Some (r, mem', t')" and "r \<noteq> E2BIG"
  shows "table_ok t'"
proof (cases "is_user_range p (8 + n) \<and> (\<exists>q. map_of (mqueues t) i = Some q \<and> \<not> marked_for_removal q
    \<and> can_read (msg_perm (ds q)) (ctx_uid ctx) (ctx_gid ctx))")
  case False
  then have "t' = t"
    using assms(2) by (auto simp: sys_msgrcv_def validate_user_buffer_mut_def add64_def split: if_splits option.splits)
  then show ?thesis using assms(1) by simp
next
  case True
  then obtain q where q: "map_of (mqueues t) i = Some q" "\<not> marked_for_removal q"
    "can_read (msg_perm (ds q)) (ctx_uid ctx) (ctx_gid ctx)" by blast
  have qok: "queue_ok q" using table_ok_queue [OF assms(1) q(1)] by simp
  obtain m q' where m: "mq_receive ty f (ctx_pid ctx) (ctx_now ctx) q = Some (m, q')"
    "queue_ok q'" "mq_id q' = mq_id q" "msg_perm (ds q') = msg_perm (ds q)"
    using mq_receive_cases [OF qok] by blast
  have "t' = put_queue i q' t"
    using assms(2,3) msgrcv_eq [OF conjunct1 [OF True] q m(1)] by (auto split: option.splits if_splits)
  then show ?thesis using put_queue_ok [OF assms(1) q(1) m(2,3)] m(4) by (simp add: key_of_def)
qed

lemma msgctl_ok:
  assumes "table_ok t" and "sys_msgctl ctx i cmd buf uds t = (r, out, t')"
  shows "table_ok t'"
proof (cases "map_of (mqueues t) i")
  case None
  then have "t' = t" using assms(2) by (auto simp: sys_msgctl_def Let_def split: if_splits)
  then show ?thesis using assms(1) by simp
next
  case (Some q)
  let ?del = "(if key_of q \<noteq> IPC_PRIVATE then t\<lparr>key_to_id := AList.delete (key_of q) (key_to_id t)\<rparr> else t)
      \<lparr>mqueues := AList.delete i (mqueues t)\<rparr>"
  let ?set = "q\<lparr>ds := (ds q)\<lparr>msg_perm := (msg_perm (ds q))\<lparr>perm_uid := perm_uid (msg_perm uds),
      perm_gid := perm_gid (msg_perm uds), perm_mode := perm_mode (msg_perm uds) AND 0x1FF\<rparr>,
      msg_qbytes := min (msg_qbytes uds) (MSGMNB * 4), msg_ctime := ctx_now ctx\<rparr>\<rparr>"
  have "t' = t \<or> t' = ?del \<or> t' = put_queue i ?set t"
    using assms(2) Some by (auto simp: sys_msgctl_def key_of_def Let_def split: if_splits)
  moreover have "table_ok ?del"
  proof -
    have "length (AList.delete i (mqueues t)) \<le> length (mqueues t)" by (rule length_delete_le)
    then show ?thesis
      using assms(1) linked_remove [of "map_of (mqueues t)" "map_of (key_to_id t)" i q] Some
      by (cases "key_of q = IPC_PRIVATE") (simp_all add: table_ok_def distinct_delete del: map_of_eq_Some_iff)
  qed
  moreover have "table_ok (put_queue i ?set t)"
    using table_ok_queue [OF assms(1) Some] by (intro put_queue_ok [OF assms(1) Some]) (simp_all add: queue_ok_def key_of_def)
  ultimately show ?thesis using assms(1) by metis
qed

lemma msg_step_ok: "msg_step t t' \<Longrightarrow> table_ok t \<Longrightarrow> table_ok t'"
proof (induction rule: msg_step.induct)
  case (step_get ctx key f t r t')
  then show ?case using msgget_ok [of t ctx key f] by auto
next
  case (step_snd ctx mem i p n f t r t')
  then show ?case using msgsnd_ok [of t ctx mem i p n f] by auto
next
  case (step_rcv ctx mem i p n ty f t r mem' t')
  then show ?case using msgrcv_ok by blast
next
  case (step_ctl ctx i cmd buf uds t r out t')
  then show ?case using msgctl_ok by blast
qed

lemma table_new_ok: "table_ok table_new"
  by (simp add: table_ok_def table_new_def linked_def)

lemma msg_reachable_ok: "msg_reachable t \<Longrightarrow> table_ok t"
  by (induction rule: msg_reachable.induct) (auto simp: table_new_ok dest: msg_step_ok)

subsection \<open>A concrete table\<close>

text \<open>A table with one queue, created by \<open>msgget\<close> with key 5 and mode \<open>0o777\<close>, and the same table after a
  message of type 3 with the bytes 1, 2 was sent to it.\<close>

definition demo_ctx :: SysCtx where
  "demo_ctx = \<lparr>ctx_uid = 10, ctx_gid = 10, ctx_pid = 7, ctx_now = 0\<rparr>"

definition demo_queue :: MessageQueue where
  "demo_queue = mq_new 0 1 5 10 10 511"

definition demo_table :: MsgQueueTable where
  "demo_table = \<lparr>mqueues = [(1, demo_queue)], key_to_id = [(5, 1)], next_id = 2\<rparr>"

definition demo_mem :: umem where
  "demo_mem = (\<lambda>a. if a = 4096 then 3 else if a = 4104 then 1 else if a = 4105 then 2 else 0)"

definition demo_queue1 :: MessageQueue where
  "demo_queue1 = demo_queue\<lparr>messages := [\<lparr>mtype = 3, mdata = [1, 2]\<rparr>], total_bytes := 2,
     ds := (ds demo_queue)\<lparr>msg_cbytes := 2, msg_qnum := 1, msg_stime := 0, msg_lspid := 7\<rparr>\<rparr>"

definition demo_table1 :: MsgQueueTable where
  "demo_table1 = put_queue 1 demo_queue1 demo_table"

lemmas demo_defs = demo_ctx_def demo_queue_def demo_table_def mq_new_def perm_new_def

lemma demo_get: "sys_msgget demo_ctx 5 0x3FF table_new = Some (1, demo_table)"
  using alloc_id_step(1) [of table_new]
  by (simp add: sys_msgget_def msgget_create_def table_new_def flag_def IPC_CREAT_def MSGMNI_def IPC_PRIVATE_def
      put_queue_def demo_defs wrap_i32_def)

lemma demo_message: "user_message demo_mem 4096 2 = \<lparr>mtype = 3, mdata = [1, 2]\<rparr>"
  by (simp add: user_message_def mem_read_def demo_mem_def upt_rec wrap_i64_def)

lemma demo_perm: "can_read (msg_perm (ds demo_queue)) 10 g" "can_write (msg_perm (ds demo_queue)) 10 g"
  by (simp_all add: can_read_def can_write_def demo_defs)

lemma demo_queue_fields:
  "messages demo_queue = []" "total_bytes demo_queue = 0" "msg_qbytes (ds demo_queue) = 16384"
  "\<not> marked_for_removal demo_queue" "map_of (mqueues demo_table) 1 = Some demo_queue"
  "key_to_id demo_table = [(5, 1)]" "length (mqueues demo_table) = 1"
  by (simp_all add: demo_defs MSGMNB_def)

lemma demo_snd: "sys_msgsnd demo_ctx demo_mem 1 4096 2 0 demo_table = Some (0, demo_table1)"
proof -
  have "is_user_range 4096 (8 + 2)" by (simp add: is_user_range_iff USER_SPACE_END_def)
  then show ?thesis
    using demo_perm demo_queue_fields
    by (simp add: msgsnd_eq MSGMAX_def demo_message mq_send_def has_space_def message_size_def add64_def U64_MAX_def
        demo_table1_def demo_queue1_def demo_ctx_def numeral_2_eq_2 [symmetric])
qed

lemma demo_reachable: "msg_reachable demo_table" "msg_reachable demo_table1"
proof -
  show r: "msg_reachable demo_table"
    by (rule reach_call [OF reach_table step_get]) (rule demo_get)
  show "msg_reachable demo_table1"
    by (rule reach_call [OF r step_snd]) (rule demo_snd)
qed

lemma demo_queue1_fields:
  "messages demo_queue1 = [\<lparr>mtype = 3, mdata = [1, 2]\<rparr>]" "total_bytes demo_queue1 = 2"
  "\<not> marked_for_removal demo_queue1" "map_of (mqueues demo_table1) 1 = Some demo_queue1"
  "msg_perm (ds demo_queue1) = msg_perm (ds demo_queue)" "length (mqueues demo_table1) = 1"
  by (simp_all add: demo_queue1_def demo_queue_fields demo_table1_def put_queue_def) (simp add: demo_table_def)

subsection \<open>Properties\<close>

text \<open>C29. In every table reachable by system calls that do not return \<open>E2BIG\<close>, the accounting of every
  queue is exact (\<open>total_bytes\<close> and \<open>msg_cbytes\<close> are the sum of the message sizes, \<open>msg_qnum\<close> the number of
  messages), every queue is filed under its own positive identifier, a queue with a key is the one its key
  leads to, and there are at most \<open>MSGMNI\<close> queues.\<close>

theorem msg_accounting:
  assumes "msg_reachable t" and "map_of (mqueues t) i = Some q"
  shows "total_bytes q = sum_list (map message_size (messages q)) \<and> msg_cbytes (ds q) = total_bytes q
    \<and> msg_qnum (ds q) = length (messages q) \<and> mq_id q = i \<and> 0 < i
    \<and> (key_of q = IPC_PRIVATE \<or> map_of (key_to_id t) (key_of q) = Some i) \<and> length (mqueues t) \<le> MSGMNI"
proof -
  have ok: "table_ok t" using assms(1) by (rule msg_reachable_ok)
  then have lk: "linked (map_of (mqueues t)) (map_of (key_to_id t))" "length (mqueues t) \<le> MSGMNI"
    by (simp_all add: table_ok_def)
  show ?thesis
    using linkedD(1) [OF lk(1) assms(2)] linkedD(2) [OF lk(1) assms(2)] lk(2)
    by (auto simp: queue_ok_def simp del: map_of_eq_Some_iff)
qed

theorem msg_accounting_witness: "total_bytes demo_queue1 = 2 \<and> msg_cbytes (ds demo_queue1) = 2"
  using msg_accounting [OF demo_reachable(2) demo_queue1_fields(4)] demo_queue1_fields(1,2)
  by (simp add: message_size_def)

text \<open>A message survives the trip: sending \<open>n\<close> bytes to an empty queue that the sender may write and
  that has room for them returns 0, and a receive of any type by a process that may read the queue, into a
  large enough buffer, then returns \<open>n\<close> and stores the same type and the same bytes in the receiver's
  memory, leaving the queue empty again.\<close>

theorem msg_roundtrip:
  assumes "msg_reachable t" and q: "map_of (mqueues t) i = Some q" and "messages q = []"
    and "n \<le> MSGMAX" and "n \<le> msg_qbytes (ds q)"
    and "is_user_range p (8 + n)" and "0 < mtype (user_message mem p n)"
    and "can_write (msg_perm (ds q)) (ctx_uid ctx) (ctx_gid ctx)"
    and "can_read (msg_perm (ds q)) (ctx_uid ctx') (ctx_gid ctx')"
    and "is_user_range p' (8 + n')" and "n \<le> n'" and "\<not> flag f' MSG_COPY"
  shows "\<exists>t1 mem' t2 q2. sys_msgsnd ctx mem i p n f t = Some (0, t1)
    \<and> sys_msgrcv ctx' mem2 i p' n' 0 f' t1 = Some (int n, mem', t2)
    \<and> mem_read mem' p' (8 + n) = mem_read mem p (8 + n)
    \<and> map_of (mqueues t2) i = Some q2 \<and> messages q2 = []"
proof -
  have qok: "queue_ok q" using table_ok_queue [OF msg_reachable_ok [OF assms(1)] q] by simp
  let ?m = "user_message mem p n"
  have "total_bytes q = 0" using qok assms(3) by (simp add: queue_ok_def)
  then obtain q1 where q1: "mq_send ?m (ctx_pid ctx) (ctx_now ctx) q = Some (True, q1)"
    "messages q1 = [?m]" "msg_perm (ds q1) = msg_perm (ds q)" "queue_ok q1"
    using mq_send_cases [OF qok, of ?m "ctx_pid ctx" "ctx_now ctx"] assms(3-5,7) user_message_range [of mem p n] by auto
  have snd: "sys_msgsnd ctx mem i p n f t = Some (0, put_queue i q1 t)"
    using assms(4,6,7,8) q q1(1) qok by (simp add: msgsnd_eq queue_ok_def del: map_of_eq_Some_iff)
  obtain q2 where q2: "mq_receive 0 f' (ctx_pid ctx') (ctx_now ctx') q1 = Some (Some ?m, q2)" "messages q2 = []"
    using mq_receive_cases [OF q1(4), of 0 f' "ctx_pid ctx'" "ctx_now ctx'"] q1(2) assms(12)
    by (auto simp: select_msg_def remove_at_def)
  have len: "length (mdata ?m) = n" by (simp add: user_message_def)
  have at: "map_of (mqueues (put_queue i q1 t)) i = Some q1" by (simp add: put_queue_def)
  let ?mem1 = "mem_write p' (le_bytes 8 (i64_as_u64 (mtype ?m))) mem2"
  have rcv: "sys_msgrcv ctx' mem2 i p' n' 0 f' (put_queue i q1 t)
      = Some (int n, mem_write (p' + 8) (mdata ?m) ?mem1, put_queue i q2 (put_queue i q1 t))"
    using msgrcv_eq [OF assms(10) at _ _ q2(1), of mem2] q1(3,4) assms(9,11) len
    by (simp add: queue_ok_def min_def)
  have ty: "le_bytes 8 (i64_as_u64 (mtype ?m)) = mem_read mem p 8"
    using of_le_bytes_less [of "mem_read mem p 8"] le_bytes_of_le_bytes [of "mem_read mem p 8"]
    by (simp add: user_message_def i64_as_u64_wrap)
  have "mem_read (mem_write (p' + 8) (mdata ?m) ?mem1) p' (8 + n) = mem_read mem p 8 @ mdata ?m"
    using mem_read_write_same [of "p' + 8" "mdata ?m" ?mem1] mem_read_write_same [of p' "mem_read mem p 8" mem2] len
    by (simp add: mem_read_split mem_read_write_disjoint ty)
  then have "mem_read (mem_write (p' + 8) (mdata ?m) ?mem1) p' (8 + n) = mem_read mem p (8 + n)"
    by (simp add: mem_read_split user_message_def)
  then show ?thesis using snd rcv q2(2) by (simp add: put_queue_def)
qed

theorem msg_roundtrip_witness:
  "\<exists>t1 mem' t2. sys_msgsnd demo_ctx demo_mem 1 4096 2 0 demo_table = Some (0, t1)
     \<and> sys_msgrcv demo_ctx (\<lambda>_. 0) 1 8192 100 0 0 t1 = Some (2, mem', t2)
     \<and> mem_read mem' 8192 10 = mem_read demo_mem 4096 10"
proof -
  have r: "is_user_range 4096 (8 + 2)" "is_user_range 8192 (8 + 100)"
    by (simp_all add: is_user_range_iff USER_SPACE_END_def)
  have c: "ctx_uid demo_ctx = 10" by (simp add: demo_ctx_def)
  obtain t1 mem' t2 q2 where "sys_msgsnd demo_ctx demo_mem 1 4096 2 0 demo_table = Some (0, t1)"
    "sys_msgrcv demo_ctx (\<lambda>_. 0) 1 8192 100 0 0 t1 = Some (int 2, mem', t2)"
    "mem_read mem' 8192 (8 + 2) = mem_read demo_mem 4096 (8 + 2)"
    using msg_roundtrip [OF demo_reachable(1) demo_queue_fields(5,1) _ _ r(1) _ _ _ r(2), of demo_mem demo_ctx demo_ctx 0 0 "\<lambda>_. 0"]
    by (auto simp: MSGMAX_def demo_queue_fields demo_message c demo_perm flag_def)
  then show ?thesis by (simp only: of_nat_numeral numeral_plus_numeral add_num_simps) auto
qed

text \<open>A receive with a negative type takes the first message of the lowest type not above its absolute
  value: among the messages with such a type the selected one has the least type, and is the earliest of
  that type; when nothing is selected, the only such messages have the type \<open>i64::MAX\<close>.\<close>

theorem receive_lowest_type:
  assumes "- (2 ^ 63) < ty" and "ty < 0"
  shows "case select_msg ty f ms of
      Some i \<Rightarrow> i < length ms \<and> mtype (ms ! i) \<le> - ty
        \<and> \<not> (\<exists>m. m \<in> set ms \<and> mtype m \<le> - ty \<and> mtype m < mtype (ms ! i))
        \<and> \<not> (\<exists>j. j < i \<and> mtype (ms ! j) = mtype (ms ! i))
    | None \<Rightarrow> \<not> (\<exists>m. m \<in> set ms \<and> mtype m \<le> - ty \<and> mtype m < I64_MAX)"
proof -
  have "select_msg ty f ms = lowest_type (- ty) 0 ms None I64_MAX"
    using assms wrap_i64_id [of "- ty"] by (simp add: select_msg_def Let_def abs_of_neg)
  then show ?thesis
    using lowest_type_spec [of "- ty" 0 ms None I64_MAX]
    by (elim disjE exE conjE; simp; fastforce)
qed

theorem receive_lowest_type_witness:
  "select_msg (- 4) 0 [\<lparr>mtype = 5, mdata = []\<rparr>, \<lparr>mtype = 3, mdata = []\<rparr>, \<lparr>mtype = 2, mdata = [1]\<rparr>, \<lparr>mtype = 2, mdata = [9]\<rparr>]
     = Some 2"
  using receive_lowest_type [where ty = "- 4" and f = 0 and ms = "[\<lparr>mtype = 5, mdata = []\<rparr>, \<lparr>mtype = 3, mdata = []\<rparr>, \<lparr>mtype = 2, mdata = [1]\<rparr>, \<lparr>mtype = 2, mdata = [9]\<rparr>]"]
  by (simp add: select_msg_def wrap_i64_def I64_MAX_def)

text \<open>Without the permission nothing happens: when the caller may not write a queue, \<open>msgsnd\<close> to it
  returns a negative error and leaves the table as it was; when the caller may not read it, \<open>msgrcv\<close>
  returns a negative error and leaves the table and the user memory as they were; and when the caller is
  neither root nor owner nor creator, \<open>IPC_RMID\<close> and \<open>IPC_SET\<close> return \<open>EPERM\<close> and change nothing.\<close>

theorem msg_access_control:
  assumes "map_of (mqueues t) i = Some q" and "p < 2 ^ 47" and "n < 2 ^ 47"
  shows "(can_write (msg_perm (ds q)) (ctx_uid ctx) (ctx_gid ctx)
        \<or> (\<exists>r. sys_msgsnd ctx mem i p n f t = Some (r, t) \<and> r < 0))
    \<and> (can_read (msg_perm (ds q)) (ctx_uid ctx) (ctx_gid ctx)
        \<or> (\<exists>r. sys_msgrcv ctx mem i p n ty f t = Some (r, mem, t) \<and> r < 0))
    \<and> (ctx_uid ctx \<in> {0, perm_uid (msg_perm (ds q)), perm_cuid (msg_perm (ds q))}
        \<or> (sys_msgctl ctx i IPC_RMID buf uds t = (EPERM, None, t)
           \<and> sys_msgctl ctx i IPC_SET buf uds t = (EPERM, None, t)))"
proof -
  have "add64 8 n = Some (8 + n)" using assms(3) by (simp add: add64_def U64_MAX_def)
  then show ?thesis
    using assms
    by (auto simp: sys_msgsnd_def sys_msgrcv_def sys_msgctl_def validate_user_buffer_def validate_user_buffer_mut_def
        Let_def errno IPC_RMID_def IPC_SET_def IPC_STAT_def)
qed

theorem msg_access_control_witness:
  "sys_msgctl (demo_ctx\<lparr>ctx_uid := 11\<rparr>) 1 IPC_RMID 0 (ds demo_queue) demo_table = (EPERM, None, demo_table)"
  using msg_access_control [OF demo_queue_fields(5), of 1 1 "demo_ctx\<lparr>ctx_uid := 11\<rparr>" demo_mem 0 0 0 "ds demo_queue"]
  by (auto simp: demo_defs)

text \<open>Receiving a message into a buffer that is too small corrupts the queue: the message stays, but
  its bytes have already been subtracted from \<open>total_bytes\<close>, so that the next receive of that message
  subtracts them again and the kernel panics on the overflow.\<close>

theorem msgrcv_e2big_corrupts:
  assumes "msg_reachable t" and q: "map_of (mqueues t) i = Some q" and "messages q = [m]"
    and "n < length (mdata m)" and "is_user_range p (8 + n)" and "is_user_range p' (8 + n')"
    and "can_read (msg_perm (ds q)) (ctx_uid ctx) (ctx_gid ctx)" and "\<not> flag f MSG_NOERROR" and "\<not> flag f MSG_COPY"
  shows "\<exists>t1 q1. sys_msgrcv ctx mem i p n 0 f t = Some (E2BIG, mem, t1) \<and> map_of (mqueues t1) i = Some q1
    \<and> messages q1 = [m] \<and> total_bytes q1 = 0 \<and> sys_msgrcv ctx mem i p' n' 0 f t1 = None"
proof -
  have qok: "queue_ok q" using table_ok_queue [OF msg_reachable_ok [OF assms(1)] q] by simp
  obtain q' where q': "mq_receive 0 f (ctx_pid ctx) (ctx_now ctx) q = Some (Some m, q')" "messages q' = []"
    "queue_ok q'" "msg_perm (ds q') = msg_perm (ds q)"
    using mq_receive_cases [OF qok, of 0 f "ctx_pid ctx" "ctx_now ctx"] assms(3,9)
    by (auto simp: select_msg_def remove_at_def)
  let ?q1 = "q'\<lparr>messages := [m]\<rparr>"
  let ?t1 = "put_queue i ?q1 t"
  have first: "sys_msgrcv ctx mem i p n 0 f t = Some (E2BIG, mem, ?t1)"
    using msgrcv_eq [OF assms(5) q _ assms(7) q'(1), of mem] qok assms(4,8) q'(2) by (simp add: queue_ok_def)
  have tb: "total_bytes q' = 0" using q'(2,3) by (simp add: queue_ok_def)
  then have "mq_receive 0 f (ctx_pid ctx) (ctx_now ctx) ?q1 = None"
    using assms(4,9) by (auto simp: mq_receive_def select_msg_def sub64_def message_size_def Let_def)
  moreover have "add64 8 n' = Some (8 + n')"
    using assms(6) by (simp add: is_user_range_iff add64_def U64_MAX_def USER_SPACE_END_def)
  ultimately have "sys_msgrcv ctx mem i p' n' 0 f ?t1 = None"
    using assms(6,7) q'(3,4) by (simp add: sys_msgrcv_def put_queue_def validate_user_buffer_mut_def queue_ok_def)
  then show ?thesis using first tb by (intro exI [of _ ?t1] exI [of _ ?q1]) (simp add: put_queue_def)
qed

theorem msgrcv_e2big_corrupts_witness:
  "\<exists>t1. sys_msgrcv demo_ctx demo_mem 1 8192 1 0 0 demo_table1 = Some (E2BIG, demo_mem, t1)
     \<and> sys_msgrcv demo_ctx demo_mem 1 8192 100 0 0 t1 = None"
proof -
  have r: "is_user_range 8192 (8 + 1)" "is_user_range 8192 (8 + 100)"
    by (simp_all add: is_user_range_iff USER_SPACE_END_def)
  have c: "can_read (msg_perm (ds demo_queue1)) (ctx_uid demo_ctx) (ctx_gid demo_ctx)"
    using demo_perm(1) by (simp add: demo_queue1_fields) (simp add: demo_ctx_def)
  show ?thesis
    using msgrcv_e2big_corrupts [OF demo_reachable(2) demo_queue1_fields(4,1) _ r c, of 0 demo_mem]
    by (auto simp: flag_def)
qed

end
