(* ===== verification/Eventfd.thy ===== *)
theory Eventfd
  imports Prelude
begin

text \<open>
  Event file descriptors, \<^verbatim>\<open>kernel/src/ipc/eventfd.rs\<close>: the counter with its compare-and-exchange loops,
  the file wrapper that encodes the counter as eight bytes, and the validation of the flags.

  \<open>read_attempt\<close> and \<open>write_attempt\<close> are the bodies of the loops between the load and the exchange.  A call
  that runs alone is \<open>efd_read\<close> or \<open>efd_write\<close>: its first exchange succeeds.  \<open>efd_step\<close> interleaves any
  number of threads, each between a load and an exchange that fails when the counter changed meanwhile; the
  locale \<open>cas_object\<close> is the contract of such a loop, and its client lemmas say that every interleaving is
  a sequence of the atomic operations.
\<close>

definition EFD_CLOEXEC :: u32 where "EFD_CLOEXEC = 524288"
definition EFD_NONBLOCK :: u32 where "EFD_NONBLOCK = 2048"
definition EFD_SEMAPHORE :: u32 where "EFD_SEMAPHORE = 1"

definition EFD_MAX :: nat where "EFD_MAX = U64_MAX - 1"

record EventFd =
  counter :: nat
  efd_flags :: u32
  read_waiters :: nat
  write_waiters :: nat

definition efd_new :: "nat \<Rightarrow> u32 \<Rightarrow> EventFd" where
  "efd_new initval flags = \<lparr>counter = initval, efd_flags = flags, read_waiters = 0, write_waiters = 0\<rparr>"

definition is_semaphore :: "EventFd \<Rightarrow> bool" where
  "is_semaphore e = (efd_flags e AND EFD_SEMAPHORE \<noteq> 0)"

definition is_nonblock :: "EventFd \<Rightarrow> bool" where
  "is_nonblock e = (efd_flags e AND EFD_NONBLOCK \<noteq> 0)"

text \<open>The new value and the value to return for the value loaded; \<open>None\<close> would block.\<close>

definition read_attempt :: "bool \<Rightarrow> nat \<Rightarrow> (nat \<times> nat) option" where
  "read_attempt sem current =
     (if current = 0 then None else if sem then Some (current - 1, 1) else Some (0, current))"

definition efd_read :: "EventFd \<Rightarrow> nat option \<times> EventFd" where
  "efd_read e = (case read_attempt (is_semaphore e) (counter e) of
     None \<Rightarrow> (None, e)
   | Some (new_val, return_val) \<Rightarrow> (Some return_val, e\<lparr>counter := new_val\<rparr>))"

text \<open>The outer \<open>option\<close> is the panic of \<open>EFD_MAX - value\<close>; the inner \<open>None\<close> would block.\<close>

definition write_attempt :: "nat \<Rightarrow> nat \<Rightarrow> nat option option" where
  "write_attempt val current = do {
     lim \<leftarrow> sub64 EFD_MAX val;
     if current > lim then Some None
     else do { new_val \<leftarrow> add64 current val; Some (Some new_val) }
   }"

definition efd_write :: "nat \<Rightarrow> EventFd \<Rightarrow> (unit option \<times> EventFd) option" where
  "efd_write val e =
     (if val = 0 then Some (Some (), e)
      else do {
        a \<leftarrow> write_attempt val (counter e);
        Some (case a of None \<Rightarrow> (None, e) | Some new_val \<Rightarrow> (Some (), e\<lparr>counter := new_val\<rparr>))
      })"

definition is_readable :: "EventFd \<Rightarrow> bool" where
  "is_readable e = (counter e > 0)"

definition is_writable :: "EventFd \<Rightarrow> bool" where
  "is_writable e = (counter e < EFD_MAX)"

definition efd_poll :: "EventFd \<Rightarrow> bool \<times> bool" where
  "efd_poll e = (counter e > 0, counter e < EFD_MAX)"

subsection \<open>The file\<close>

text \<open>The outcome of one round of the blocking loops: a result, or a yield before the next round.\<close>

datatype 'a round = Return 'a | Yield

definition file_read :: "u8 list \<Rightarrow> EventFd \<Rightarrow> (int + nat) round \<times> u8 list \<times> EventFd" where
  "file_read buf e =
     (if length buf < 8 then (Return (Inl (- 22)), buf, e)
      else case efd_read e of
        (Some val, e') \<Rightarrow> (Return (Inr 8), le_bytes 8 val @ drop 8 buf, e')
      | (None, e') \<Rightarrow> if is_nonblock e' then (Return (Inl (- 11)), buf, e') else (Yield, buf, e'))"

definition file_write :: "u8 list \<Rightarrow> EventFd \<Rightarrow> ((int + nat) round \<times> EventFd) option" where
  "file_write buf e =
     (if length buf < 8 then Some (Return (Inl (- 22)), e)
      else
        let val = of_le_bytes (take 8 buf) in
        if val = U64_MAX then Some (Return (Inl (- 22)), e)
        else do {
          (r, e) \<leftarrow> efd_write val e;
          Some (case r of
            Some _ \<Rightarrow> (Return (Inr 8), e)
          | None \<Rightarrow> if is_nonblock e then (Return (Inl (- 11)), e) else (Yield, e))
        })"

text \<open>\<open>sys_eventfd\<close> up to the allocation of a descriptor for the new file.\<close>

definition eventfd_create :: "nat \<Rightarrow> u32 \<Rightarrow> int + EventFd" where
  "eventfd_create initval flags =
     (if flags AND NOT (EFD_CLOEXEC OR EFD_NONBLOCK OR EFD_SEMAPHORE) \<noteq> 0 then Inl (- 22)
      else Inr (efd_new initval flags))"

subsection \<open>Threads interleaved at the load and the exchange\<close>

datatype efd_op = OpRead | OpWrite nat

text \<open>A thread is idle, in a call that has not loaded the counter, in a call with the value it loaded, or
  has returned: a value (\<open>Inl\<close>: of a read; \<open>Inr\<close>: a completed write) or \<open>None\<close> for would-block.\<close>

datatype efd_pc = Ready efd_op | Loaded efd_op nat | Done efd_op "nat option"

text \<open>What an operation does to the value it loaded: \<open>None\<close> blocks, otherwise the new value and the result.\<close>

definition attempt :: "bool \<Rightarrow> efd_op \<Rightarrow> nat \<Rightarrow> (nat \<times> nat) option" where
  "attempt sem opn c = (case opn of
     OpRead \<Rightarrow> read_attempt sem c
   | OpWrite v \<Rightarrow> (case write_attempt v c of Some (Some n) \<Rightarrow> Some (n, v) | _ \<Rightarrow> None))"

type_synonym efd_conf = "nat \<times> (nat \<Rightarrow> efd_pc)"

inductive efd_step :: "bool \<Rightarrow> efd_conf \<Rightarrow> efd_conf \<Rightarrow> bool" for sem where
  step_load: "pc i = Ready opn \<Longrightarrow> efd_step sem (c, pc) (c, pc(i := Loaded opn c))"
| step_block: "pc i = Loaded opn v \<Longrightarrow> attempt sem opn v = None
    \<Longrightarrow> efd_step sem (c, pc) (c, pc(i := Done opn None))"
| step_cas_ok: "pc i = Loaded opn c \<Longrightarrow> attempt sem opn c = Some (n, r)
    \<Longrightarrow> efd_step sem (c, pc) (n, pc(i := Done opn (Some r)))"
| step_cas_fail: "pc i = Loaded opn v \<Longrightarrow> attempt sem opn v = Some (n, r) \<Longrightarrow> v \<noteq> c
    \<Longrightarrow> efd_step sem (c, pc) (c, pc(i := Ready opn))"

text \<open>The sum of what the finished threads below \<open>n\<close> have read and written.\<close>

definition taken :: "(nat \<Rightarrow> efd_pc) \<Rightarrow> nat \<Rightarrow> nat" where
  "taken pc n = (\<Sum>i<n. case pc i of Done OpRead (Some r) \<Rightarrow> r | _ \<Rightarrow> 0)"

definition given :: "(nat \<Rightarrow> efd_pc) \<Rightarrow> nat \<Rightarrow> nat" where
  "given pc n = (\<Sum>i<n. case pc i of Done (OpWrite v) (Some r) \<Rightarrow> r | _ \<Rightarrow> 0)"

definition idle_above :: "(nat \<Rightarrow> efd_pc) \<Rightarrow> nat \<Rightarrow> bool" where
  "idle_above pc n = (\<forall>i \<ge> n. pc i = Done OpRead None)"

definition op_inc :: "efd_op \<Rightarrow> nat \<Rightarrow> nat" where
  "op_inc opn r = (case opn of OpRead \<Rightarrow> 0 | OpWrite _ \<Rightarrow> r)"

definition op_dec :: "efd_op \<Rightarrow> nat \<Rightarrow> nat" where
  "op_dec opn r = (case opn of OpRead \<Rightarrow> r | OpWrite _ \<Rightarrow> 0)"

locale cas_object =
  fixes att :: "'o \<Rightarrow> nat \<Rightarrow> (nat \<times> nat) option"
    and inc :: "'o \<Rightarrow> nat \<Rightarrow> nat" and dec :: "'o \<Rightarrow> nat \<Rightarrow> nat" and bound :: nat
  assumes balance: "att opn c = Some (n, r) \<Longrightarrow> n + dec opn r = c + inc opn r"
    and bounded: "att opn c = Some (n, r) \<Longrightarrow> c \<le> bound \<Longrightarrow> n \<le> bound"
begin

text \<open>An exchange keeps the balance between the value and the sums of what was given and taken.\<close>

lemma conserve:
  assumes "att opn c = Some (n, r)" and "c + d = c0 + g"
  shows "n + (d + dec opn r) = c0 + (g + inc opn r)"
  using balance [OF assms(1)] assms(2) by linarith

end

subsection \<open>The operations\<close>

lemma EFD_MAX_less: "EFD_MAX < U64_MAX" "EFD_MAX + 1 = U64_MAX"
  by (simp_all add: EFD_MAX_def U64_MAX_def)

lemma write_attempt_eq:
  "v \<le> EFD_MAX \<Longrightarrow> write_attempt v c = Some (if c + v \<le> EFD_MAX then Some (c + v) else None)"
  using EFD_MAX_less(1) by (auto simp: write_attempt_def sub64_def add64_def)

lemma write_attempt_None: "EFD_MAX < v \<Longrightarrow> write_attempt v c = None"
  by (simp add: write_attempt_def sub64_def)

lemma read_attempt_Some: "read_attempt sem c = Some (n, r) \<Longrightarrow> n + r = c \<and> 0 < r"
  by (auto simp: read_attempt_def split: if_splits)

lemma attempt_write: "attempt sem (OpWrite v) c = Some (n, r) \<longleftrightarrow> v \<le> EFD_MAX \<and> c + v \<le> EFD_MAX \<and> n = c + v \<and> r = v"
proof (cases "v \<le> EFD_MAX")
  case True
  then show ?thesis by (auto simp: attempt_def write_attempt_eq)
qed (simp add: attempt_def write_attempt_None)

interpretation efd: cas_object "attempt sem" op_inc op_dec EFD_MAX
proof unfold_locales
  show "n + op_dec opn r = c + op_inc opn r" if "attempt sem opn c = Some (n, r)" for opn c n r
    using that by (cases opn) (auto simp: attempt_write op_inc_def op_dec_def, simp add: attempt_def read_attempt_Some)
  show "n \<le> EFD_MAX" if "attempt sem opn c = Some (n, r)" "c \<le> EFD_MAX" for opn c n r
    using that by (cases opn) (auto simp: attempt_write, auto simp: attempt_def dest: read_attempt_Some)
qed

lemma sum_upd:
  fixes g :: "'p \<Rightarrow> nat"
  assumes "i < (n :: nat)" and "g (pc i) = 0"
  shows "(\<Sum>j<n. g ((pc(i := x)) j)) = (\<Sum>j<n. g (pc j)) + g x"
proof -
  have "(\<Sum>j<n. g ((pc(i := x)) j)) = g x + (\<Sum>j \<in> {..<n} - {i}. g (pc j))"
    using assms(1) by (subst sum.remove [OF finite_lessThan, where x = i]) (auto intro: sum.cong)
  moreover have "(\<Sum>j<n. g (pc j)) = g (pc i) + (\<Sum>j \<in> {..<n} - {i}. g (pc j))"
    using assms(1) by (subst sum.remove [OF finite_lessThan, where x = i]) auto
  ultimately show ?thesis using assms(2) by simp
qed

lemma taken_upd:
  assumes "i < n" and "\<forall>o' r. pc i \<noteq> Done o' r"
  shows "taken (pc(i := Done opn (Some r))) n = taken pc n + op_dec opn r"
    and "given (pc(i := Done opn (Some r))) n = given pc n + op_inc opn r"
    and "\<forall>o' r. x = Done o' r \<longrightarrow> r = None \<Longrightarrow> taken (pc(i := x)) n = taken pc n \<and> given (pc(i := x)) n = given pc n"
proof -
  have z: "(case pc i of Done OpRead (Some r) \<Rightarrow> r | _ \<Rightarrow> 0) = (0 :: nat)"
    "(case pc i of Done (OpWrite v) (Some r) \<Rightarrow> r | _ \<Rightarrow> 0) = (0 :: nat)"
    using assms(2) by (cases "pc i"; simp)+
  note upd = sum_upd [OF assms(1), of "\<lambda>p. case p of Done OpRead (Some r) \<Rightarrow> r | _ \<Rightarrow> 0" pc, OF z(1)]
    sum_upd [OF assms(1), of "\<lambda>p. case p of Done (OpWrite v) (Some r) \<Rightarrow> r | _ \<Rightarrow> 0" pc, OF z(2)]
  show "taken (pc(i := Done opn (Some r))) n = taken pc n + op_dec opn r"
    "given (pc(i := Done opn (Some r))) n = given pc n + op_inc opn r"
    unfolding taken_def given_def upd by (cases opn; simp add: op_dec_def op_inc_def)+
  show "taken (pc(i := x)) n = taken pc n \<and> given (pc(i := x)) n = given pc n"
    if "\<forall>o' r. x = Done o' r \<longrightarrow> r = None"
    unfolding taken_def given_def upd using that by (auto split: efd_pc.splits efd_op.splits option.splits)
qed

lemma busy_below: "idle_above pc n \<Longrightarrow> \<forall>o' r. pc i \<noteq> Done o' r \<Longrightarrow> i < n"
  unfolding idle_above_def by (metis not_less)

lemma efd_step_conserves:
  assumes "efd_step sem s s'" and "idle_above (snd s) n"
    and "fst s + taken (snd s) n = c0 + given (snd s) n" and "fst s \<le> EFD_MAX"
  shows "idle_above (snd s') n \<and> fst s' + taken (snd s') n = c0 + given (snd s') n \<and> fst s' \<le> EFD_MAX"
  using assms
proof (induction rule: efd_step.induct)
  case (step_load pc i opn c)
  then have "i < n" by (intro busy_below [of pc]) simp_all
  then show ?case
    using step_load taken_upd(3) [of i n pc "Loaded opn c"] by (auto simp: idle_above_def fun_upd_def)
next
  case (step_block pc i opn v c)
  then have "i < n" by (intro busy_below [of pc]) simp_all
  then show ?case
    using step_block taken_upd(3) [of i n pc "Done opn None"] by (auto simp: idle_above_def fun_upd_def)
next
  case (step_cas_ok pc i opn c m r)
  then have "i < n" by (intro busy_below [of pc]) simp_all
  then show ?case
    using step_cas_ok taken_upd(1,2) [of i n pc opn r] efd.conserve [OF step_cas_ok(2)] efd.bounded [OF step_cas_ok(2)] by (auto simp: idle_above_def fun_upd_def)
next
  case (step_cas_fail pc i opn v m r c)
  then have "i < n" by (intro busy_below [of pc]) simp_all
  then show ?case
    using step_cas_fail taken_upd(3) [of i n pc "Ready opn"] by (auto simp: idle_above_def fun_upd_def)
qed

lemma efd_run_conserves:
  assumes "(efd_step sem)\<^sup>*\<^sup>* s s'" and "idle_above (snd s) n"
    and "fst s + taken (snd s) n = c0 + given (snd s) n" and "fst s \<le> EFD_MAX"
  shows "fst s' + taken (snd s') n = c0 + given (snd s') n \<and> fst s' \<le> EFD_MAX \<and> idle_above (snd s') n"
  using assms
proof (induction rule: rtranclp_induct)
  case (step y z)
  then show ?case
    using efd_step_conserves [of sem y z n c0] by simp
qed simp

subsection \<open>Bytes\<close>

lemma le_bytes_value: "v \<le> U64_MAX \<Longrightarrow> of_le_bytes (le_bytes 8 v) = v"
  by (rule of_le_bytes_le_bytes) (simp add: U64_MAX_def)

lemma take_bytes_le: "8 \<le> length buf \<Longrightarrow> of_le_bytes (take 8 buf) \<le> U64_MAX"
proof -
  assume "8 \<le> length buf"
  then have "length (take 8 buf) = 8" by simp
  then have "of_le_bytes (take 8 buf) < 256 ^ 8" using of_le_bytes_less [of "take 8 buf"] by metis
  then show ?thesis by (simp add: U64_MAX_def)
qed

lemma efd_write_eq:
  assumes "v \<le> EFD_MAX" and "counter e \<le> EFD_MAX"
  shows "efd_write v e = Some (if counter e + v \<le> EFD_MAX then (Some (), e\<lparr>counter := counter e + v\<rparr>) else (None, e))"
  using assms by (auto simp: efd_write_def write_attempt_eq)

text \<open>Writing a sequence of values, each of which must be accepted.\<close>

fun write_values :: "nat list \<Rightarrow> EventFd \<Rightarrow> EventFd option" where
  "write_values [] e = Some e"
| "write_values (v # vs) e = (case file_write (le_bytes 8 v) e of
     Some (Return (Inr n), e') \<Rightarrow> write_values vs e'
   | _ \<Rightarrow> None)"

lemma write_values_sum:
  "counter e + sum_list vs \<le> EFD_MAX \<Longrightarrow> write_values vs e = Some (e\<lparr>counter := counter e + sum_list vs\<rparr>)"
proof (induction vs arbitrary: e)
  case (Cons v vs)
  have "v \<le> EFD_MAX" "v \<noteq> U64_MAX" "counter e \<le> EFD_MAX" using Cons.prems EFD_MAX_less(1) by auto
  then have "file_write (le_bytes 8 v) e = Some (Return (Inr 8), e\<lparr>counter := counter e + v\<rparr>)"
    using Cons.prems EFD_MAX_less(1) by (simp add: file_write_def le_bytes_value efd_write_eq Let_def)
  then show ?case using Cons by (simp add: add.assoc)
qed simp

subsection \<open>Properties\<close>

text \<open>No event is lost or invented under concurrency: however the loads and the exchanges of any number
  of readers and writers interleave, in either mode, the counter plus everything the finished reads have
  returned is its initial value plus everything the finished writes have added, and it never exceeds
  \<open>EFD_MAX\<close>.\<close>

theorem efd_conservation:
  assumes "(efd_step sem)\<^sup>*\<^sup>* (c0, pc0) (c, pc)" and "c0 \<le> EFD_MAX"
    and "idle_above pc0 n" and "\<forall>i. i < n \<longrightarrow> (\<exists>opn. pc0 i = Ready opn)"
  shows "c + taken pc n = c0 + given pc n \<and> c \<le> EFD_MAX"
proof -
  have "taken pc0 n = 0" "given pc0 n = 0"
    unfolding taken_def given_def using assms(4) by (force intro!: sum.neutral)+
  then show ?thesis using efd_run_conserves [OF assms(1), of n c0] assms(2,3) by simp
qed

theorem efd_conservation_witness:
  "\<exists>c pc. (efd_step False)\<^sup>*\<^sup>* (0, (\<lambda>_. Done OpRead None)(0 := Ready (OpWrite 5), 1 := Ready OpRead)) (c, pc)
     \<and> pc 0 = Done (OpWrite 5) (Some 5) \<and> c + taken pc 2 = given pc 2"
proof -
  let ?pc0 = "(\<lambda>_. Done OpRead None)(0 := Ready (OpWrite 5), 1 := Ready OpRead)"
  let ?pc1 = "?pc0(0 := Loaded (OpWrite 5) 0)"
  let ?pc2 = "?pc1(0 := Done (OpWrite 5) (Some 5))"
  have "attempt False (OpWrite 5) 0 = Some (5, 5)" by (simp add: attempt_write EFD_MAX_def U64_MAX_def)
  then have "efd_step False (0, ?pc1) (5, ?pc2)" by (intro step_cas_ok) simp_all
  moreover have "efd_step False (0, ?pc0) (0, ?pc1)" by (rule step_load) simp
  ultimately have run: "(efd_step False)\<^sup>*\<^sup>* (0, ?pc0) (5, ?pc2)"
    by (meson r_into_rtranclp rtranclp_trans)
  have "5 + taken ?pc2 2 = 0 + given ?pc2 2 \<and> 5 \<le> EFD_MAX"
    by (rule efd_conservation [OF run]) (auto simp: idle_above_def less_Suc_eq numeral_2_eq_2)
  then show ?thesis using run by (intro exI [of _ 5] exI [of _ ?pc2]) simp
qed

text \<open>Writes accumulate and one read takes them all: after writing any values that fit, each as eight
  bytes, a read in normal mode fills the first eight bytes of the buffer with their sum added to the old
  counter, returns 8 and resets the counter; a further read would block.\<close>

theorem efd_accumulates:
  assumes "counter e + sum_list vs \<le> EFD_MAX" and "0 < counter e + sum_list vs"
    and "\<not> is_semaphore e" and "8 \<le> length buf"
  shows "\<exists>e1 e2. write_values vs e = Some e1
    \<and> file_read buf e1 = (Return (Inr 8), le_bytes 8 (counter e + sum_list vs) @ drop 8 buf, e2)
    \<and> counter e2 = 0 \<and> fst (file_read buf e2) = (if is_nonblock e then Return (Inl (- 11)) else Yield)"
proof -
  define t where "t = counter e + sum_list vs"
  have "write_values vs e = Some (e\<lparr>counter := t\<rparr>)" using assms(1) by (simp add: write_values_sum t_def)
  moreover have "0 < t" using assms(2) by (simp add: t_def)
  ultimately show ?thesis
    using assms(3,4) unfolding t_def [symmetric]
    by (simp add: file_read_def efd_read_def read_attempt_def is_semaphore_def is_nonblock_def)
qed

theorem efd_accumulates_witness:
  "\<exists>e1 e2. write_values [3, 4] (efd_new 0 0) = Some e1
     \<and> file_read (replicate 8 0) e1 = (Return (Inr 8), le_bytes 8 7, e2)"
  using efd_accumulates [of "efd_new 0 0" "[3, 4]" "replicate 8 0"]
  by (auto simp: efd_new_def EFD_MAX_def U64_MAX_def is_semaphore_def)

text \<open>A write to the file never panics, whatever the buffer holds: a short buffer or the value
  \<open>u64::MAX\<close> (for which the subtraction in \<open>EventFd::write\<close> would overflow) is rejected with \<open>EINVAL\<close>
  before the counter is touched, a value that fits is added, and one that does not leaves the counter alone
  and returns \<open>EAGAIN\<close> or yields.\<close>

theorem file_write_total:
  assumes "counter e \<le> EFD_MAX" and "val = of_le_bytes (take 8 buf)"
  shows "file_write buf e = Some
     (if length buf < 8 \<or> val = U64_MAX then (Return (Inl (- 22)), e)
      else if counter e + val \<le> EFD_MAX then (Return (Inr 8), e\<lparr>counter := counter e + val\<rparr>)
      else if is_nonblock e then (Return (Inl (- 11)), e) else (Yield, e))"
proof (cases "length buf < 8 \<or> val = U64_MAX")
  case True
  then show ?thesis using assms by (auto simp: file_write_def Let_def)
next
  case False
  then have "val \<le> EFD_MAX" using take_bytes_le [of buf] assms(2) EFD_MAX_less(2) by simp
  then show ?thesis using False assms by (simp add: file_write_def efd_write_eq Let_def)
qed

theorem file_write_total_witness:
  "file_write [255, 255, 255, 255, 255, 255, 255, 255] (efd_new 0 0) = Some (Return (Inl (- 22)), efd_new 0 0)"
  using file_write_total [of "efd_new 0 0" U64_MAX "[255, 255, 255, 255, 255, 255, 255, 255]"]
  by (simp add: efd_new_def U64_MAX_def)

end
