(* ===== verification/Cow.thy ===== *)
theory Cow
  imports Phys "HOL-Library.AList"
begin

text \<open>
  Copy on write, \<^verbatim>\<open>kernel/src/mm/cow.rs\<close>: the reference counts of the physical frames that address spaces
  share after a \<open>fork\<close>, and the handler of a write fault on a shared frame.

  The map from physical addresses to counts is an association list with distinct keys; the counts are
  atomics, which wrap.  The handler also changes the frame allocator of \<open>Phys\<close> and the physical memory,
  which the kernel reaches through its linear mapping (\<open>phys_to_virt\<close>) and which is a function from
  addresses to bytes here.  The locale \<open>ref_counter\<close> is the contract of a table of reference counts.
\<close>

type_synonym pmem = "nat \<Rightarrow> u8"

subsection \<open>Reference counts\<close>

definition info_new :: nat where
  "info_new = 1"

definition info_increment :: "nat \<Rightarrow> nat" where
  "info_increment rc = fetch_add64 rc 1"

text \<open>The new count, and whether the previous one was 1.\<close>

definition info_decrement :: "nat \<Rightarrow> bool \<times> nat" where
  "info_decrement rc = (rc = 1, fetch_sub64 rc 1)"

record CowManager =
  cow_frames :: "(nat \<times> nat) list"

definition cow_new :: CowManager where
  "cow_new = \<lparr>cow_frames = []\<rparr>"

definition register_frame :: "nat \<Rightarrow> CowManager \<Rightarrow> CowManager" where
  "register_frame addr m =
     (if map_of (cow_frames m) addr = None
      then m\<lparr>cow_frames := AList.update addr info_new (cow_frames m)\<rparr> else m)"

definition increment_ref :: "nat \<Rightarrow> CowManager \<Rightarrow> CowManager" where
  "increment_ref addr m = (case map_of (cow_frames m) addr of
     Some rc \<Rightarrow> m\<lparr>cow_frames := AList.update addr (info_increment rc) (cow_frames m)\<rparr>
   | None \<Rightarrow> m\<lparr>cow_frames := AList.update addr (info_increment info_new) (cow_frames m)\<rparr>)"

definition decrement_ref :: "nat \<Rightarrow> CowManager \<Rightarrow> bool \<times> CowManager" where
  "decrement_ref addr m = (case map_of (cow_frames m) addr of
     Some rc \<Rightarrow>
       (case info_decrement rc of (should_free, rc') \<Rightarrow>
          (should_free,
           if should_free then m\<lparr>cow_frames := AList.delete addr (cow_frames m)\<rparr>
           else m\<lparr>cow_frames := AList.update addr rc' (cow_frames m)\<rparr>))
   | None \<Rightarrow> (True, m))"

definition ref_count :: "CowManager \<Rightarrow> nat \<Rightarrow> nat" where
  "ref_count m addr = (case map_of (cow_frames m) addr of Some rc \<Rightarrow> rc | None \<Rightarrow> 0)"

definition is_shared :: "CowManager \<Rightarrow> nat \<Rightarrow> bool" where
  "is_shared m addr = (ref_count m addr > 1)"

definition unregister_frame :: "nat \<Rightarrow> CowManager \<Rightarrow> CowManager" where
  "unregister_frame addr m = m\<lparr>cow_frames := AList.delete addr (cow_frames m)\<rparr>"

subsection \<open>The write fault\<close>

definition copy_page :: "nat \<Rightarrow> nat \<Rightarrow> pmem \<Rightarrow> pmem" where
  "copy_page src dst mem = (\<lambda>x. if dst \<le> x \<and> x < dst + 4096 then mem (src + (x - dst)) else mem x)"

definition mem_page :: "pmem \<Rightarrow> nat \<Rightarrow> u8 list" where
  "mem_page mem a = map (\<lambda>i. mem (a + i)) [0..<PAGE_SIZE]"

text \<open>The result is \<open>Ok(frame)\<close> or \<open>Err(())\<close>; \<open>fault_addr\<close> is not used by the code.\<close>

definition handle_cow_fault :: "nat \<Rightarrow> nat \<Rightarrow> CowManager \<times> BitmapFrameAllocator \<times> pmem
    \<Rightarrow> ((unit + phys_frame) \<times> CowManager \<times> BitmapFrameAllocator \<times> pmem) option" where
  "handle_cow_fault fault_addr old_phys s = (case s of (m, fa, mem) \<Rightarrow>
     (let rc = ref_count m old_phys in
      if rc = 0 then Some (Inl (), m, fa, mem)
      else if rc = 1
      then Some (Inr (containing_address PAGE_SIZE old_phys), unregister_frame old_phys m, fa, mem)
      else do {
        (r, fa) \<leftarrow> allocate fa;
        case r of
          None \<Rightarrow> Some (Inl (), m, fa, mem)
        | Some new_frame \<Rightarrow>
            let mem = copy_page old_phys new_frame mem;
                m = snd (decrement_ref old_phys m)
            in Some (Inr new_frame, m, fa, mem)
      }))"

subsection \<open>The contract of a table of reference counts\<close>

definition cow_inv :: "CowManager \<Rightarrow> bool" where
  "cow_inv m \<longleftrightarrow> (\<forall>a rc. map_of (cow_frames m) a = Some rc \<longrightarrow> 0 < rc \<and> rc < 2 ^ 64)"

fun releases :: "('k \<Rightarrow> 'm \<Rightarrow> bool \<times> 'm) \<Rightarrow> 'k \<Rightarrow> nat \<Rightarrow> 'm \<Rightarrow> bool list" where
  "releases dec a 0 m = []"
| "releases dec a (Suc n) m = (case dec a m of (b, m') \<Rightarrow> b # releases dec a n m')"

locale ref_counter =
  fixes inv :: "'m \<Rightarrow> bool"
    and cnt :: "'m \<Rightarrow> 'k \<Rightarrow> nat"
    and inc :: "'k \<Rightarrow> 'm \<Rightarrow> 'm"
    and dec :: "'k \<Rightarrow> 'm \<Rightarrow> bool \<times> 'm"
    and maxc :: nat
  assumes inc_fresh: "inv m \<Longrightarrow> cnt m a = 0 \<Longrightarrow> inv (inc a m) \<and> cnt (inc a m) = (cnt m)(a := 2)"
    and inc_more: "inv m \<Longrightarrow> 0 < cnt m a \<Longrightarrow> cnt m a < maxc
      \<Longrightarrow> inv (inc a m) \<and> cnt (inc a m) = (cnt m)(a := Suc (cnt m a))"
    and dec_last: "inv m \<Longrightarrow> cnt m a \<le> 1 \<Longrightarrow> \<exists>m'. dec a m = (True, m') \<and> inv m' \<and> cnt m' = (cnt m)(a := 0)"
    and dec_more: "inv m \<Longrightarrow> 1 < cnt m a
      \<Longrightarrow> \<exists>m'. dec a m = (False, m') \<and> inv m' \<and> cnt m' = (cnt m)(a := cnt m a - 1)"
begin

lemma shares:
  assumes "inv m" and "0 < cnt m a" and "cnt m a + k \<le> maxc"
  shows "inv ((inc a ^^ k) m) \<and> cnt ((inc a ^^ k) m) = (cnt m)(a := cnt m a + k)"
  using assms(3)
proof (induction k)
  case (Suc k)
  then have IH: "inv ((inc a ^^ k) m)" "cnt ((inc a ^^ k) m) = (cnt m)(a := cnt m a + k)" by auto
  then show ?case using inc_more [OF IH(1), of a] assms(2) Suc.prems by simp
qed (use assms in simp)

lemma release_all:
  assumes "inv m" and "cnt m a = Suc k"
  shows "releases dec a (Suc k) m = replicate k False @ [True]"
  using assms
proof (induction k arbitrary: m)
  case 0
  then show ?case using dec_last [of m a] by auto
next
  case (Suc k)
  then obtain m' where m': "dec a m = (False, m')" "inv m'" "cnt m' = (cnt m)(a := cnt m a - 1)"
    using dec_more [of m a] by auto
  then have "cnt m' a = Suc k" using Suc.prems by simp
  from Suc.IH [OF m'(2) this] show ?case using m'(1) by simp
qed

text \<open>A frame shared with \<open>k\<close> further owners is released by exactly the last of them.\<close>

lemma last_owner:
  assumes "inv m" and "cnt m a = 0" and "Suc (Suc k) \<le> maxc"
  shows "releases dec a (Suc (Suc k)) ((inc a ^^ Suc k) m) = replicate (Suc k) False @ [True]"
proof -
  have i: "inv (inc a m)" "cnt (inc a m) = (cnt m)(a := 2)" using inc_fresh [OF assms(1,2)] by auto
  then have "inv ((inc a ^^ k) (inc a m))" "cnt ((inc a ^^ k) (inc a m)) a = Suc (Suc k)"
    using shares [OF i(1), of a k] assms(3) by auto
  then show ?thesis using release_all [of "(inc a ^^ k) (inc a m)" a "Suc k"] by (simp add: funpow_swap1)
qed

end

subsection \<open>The code's table is such a table\<close>

lemma cow_inv_put: "cow_inv m \<Longrightarrow> 0 < rc \<Longrightarrow> rc < 2 ^ 64
    \<Longrightarrow> cow_inv (m\<lparr>cow_frames := AList.update a rc (cow_frames m)\<rparr>)"
  by (auto simp: cow_inv_def update_conv')

lemma cow_inv_del: "cow_inv m \<Longrightarrow> cow_inv (m\<lparr>cow_frames := AList.delete a (cow_frames m)\<rparr>)"
  by (auto simp: cow_inv_def delete_conv' split: if_splits)

lemma ref_count_put: "ref_count (m\<lparr>cow_frames := AList.update a rc (cow_frames m)\<rparr>) = (ref_count m)(a := rc)"
  by (rule ext) (simp add: ref_count_def update_conv')

lemma ref_count_del: "ref_count (m\<lparr>cow_frames := AList.delete a (cow_frames m)\<rparr>) = (ref_count m)(a := 0)"
  by (rule ext) (simp add: ref_count_def delete_conv')

lemma ref_count_None: "cow_inv m \<Longrightarrow> ref_count m a = 0 \<longleftrightarrow> map_of (cow_frames m) a = None"
  by (auto simp: ref_count_def cow_inv_def split: option.splits)

lemma ref_count_Some: "cow_inv m \<Longrightarrow> 0 < ref_count m a \<Longrightarrow> map_of (cow_frames m) a = Some (ref_count m a)"
  by (auto simp: ref_count_def split: option.splits)

lemma ref_count_bound: "cow_inv m \<Longrightarrow> ref_count m a < 2 ^ 64"
  by (auto simp: ref_count_def cow_inv_def split: option.splits)

lemma copy_page_pages:
  assumes "old + 4096 \<le> nf \<or> nf + 4096 \<le> old"
  shows "mem_page (copy_page old nf mem) old = mem_page mem old"
    and "mem_page (copy_page old nf mem) nf = mem_page mem old"
proof -
  have "copy_page old nf mem (old + i) = mem (old + i)" "copy_page old nf mem (nf + i) = mem (old + i)"
    if "i < PAGE_SIZE" for i
    using that assms by (auto simp: copy_page_def PAGE_SIZE_def)
  then show "mem_page (copy_page old nf mem) old = mem_page mem old"
    "mem_page (copy_page old nf mem) nf = mem_page mem old"
    by (simp_all add: mem_page_def)
qed

interpretation cowrc: ref_counter cow_inv ref_count increment_ref decrement_ref "2 ^ 64 - 1"
proof unfold_locales
  show "cow_inv (increment_ref a m) \<and> ref_count (increment_ref a m) = (ref_count m)(a := 2)"
    if "cow_inv m" "ref_count m a = 0" for m a
    using that by (auto simp: increment_ref_def ref_count_None info_new_def info_increment_def fetch_add64_def
        ref_count_put intro!: cow_inv_put)
  show "cow_inv (increment_ref a m) \<and> ref_count (increment_ref a m) = (ref_count m)(a := Suc (ref_count m a))"
    if "cow_inv m" "0 < ref_count m a" "ref_count m a < 2 ^ 64 - 1" for m a
  proof -
    have "info_increment (ref_count m a) = Suc (ref_count m a)"
      using that(3) by (simp add: info_increment_def fetch_add64_def)
    then show ?thesis
      using that ref_count_Some [OF that(1,2)] by (auto simp: increment_ref_def ref_count_put intro!: cow_inv_put)
  qed
  show "\<exists>m'. decrement_ref a m = (True, m') \<and> cow_inv m' \<and> ref_count m' = (ref_count m)(a := 0)"
    if "cow_inv m" "ref_count m a \<le> 1" for m a
  proof (cases "ref_count m a = 0")
    case True
    then have "(ref_count m)(a := 0) = ref_count m" by auto
    then show ?thesis using that True by (simp add: decrement_ref_def ref_count_None)
  next
    case False
    then show ?thesis
      using that ref_count_Some [OF that(1), of a]
      by (auto simp: decrement_ref_def info_decrement_def ref_count_del intro!: cow_inv_del)
  qed
  show "\<exists>m'. decrement_ref a m = (False, m') \<and> cow_inv m' \<and> ref_count m' = (ref_count m)(a := ref_count m a - 1)"
    if "cow_inv m" "1 < ref_count m a" for m a
  proof -
    have lt: "ref_count m a < 2 ^ 64" using ref_count_bound [OF that(1)] .
    have "ref_count m a + 2 ^ 64 - 1 = (ref_count m a - 1) + 2 ^ 64" using that(2) by simp
    then have "fetch_sub64 (ref_count m a) 1 = ref_count m a - 1"
      unfolding fetch_sub64_def using lt by (simp only: mod_add_self2) simp
    then show ?thesis
      using that lt ref_count_Some [OF that(1), of a]
      by (auto simp: decrement_ref_def info_decrement_def ref_count_put intro!: cow_inv_put)
  qed
qed

subsection \<open>Properties\<close>

text \<open>A shared frame is released exactly once, by its last owner: after an unmanaged frame was shared
  by \<open>k + 1\<close> forks (\<open>k + 2\<close> owners), the first \<open>k + 1\<close> owners that drop it are told not to free it and the
  last one is told to free it.\<close>

theorem cow_last_owner_frees:
  assumes "cow_inv m" and "ref_count m a = 0" and "k + 2 \<le> 2 ^ 64 - 1"
  shows "releases decrement_ref a (k + 2) ((increment_ref a ^^ (k + 1)) m) = replicate (k + 1) False @ [True]"
  using cowrc.last_owner [OF assms(1,2), of k] assms(3) by simp

theorem cow_last_owner_frees_witness:
  "releases decrement_ref 4096 3 ((increment_ref 4096 ^^ 2) cow_new) = [False, False, True]"
proof -
  have "cow_inv cow_new" "ref_count cow_new 4096 = 0" by (simp_all add: cow_inv_def cow_new_def ref_count_def)
  moreover have "(1 :: nat) + 2 \<le> 2 ^ 64 - 1" by simp
  ultimately show ?thesis
    using cow_last_owner_frees [of cow_new 4096 1] by (simp add: numeral_2_eq_2 numeral_3_eq_3)
qed

text \<open>A write fault on a frame with several owners moves the faulting owner to a copy: the handler
  returns a frame that was free, with the contents of the old frame; the old frame keeps its contents and
  loses one reference, no other count and no other byte of memory changes, and the allocator loses exactly
  the new frame.\<close>

theorem cow_fault_copies:
  assumes "cow_inv m" and "phys_inv fa" and "1 < ref_count m old" and "old mod 4096 = 0"
    and "old \<notin> free_addrs fa" and "free_addrs fa \<noteq> {}"
  shows "\<exists>nf m' fa' mem'. handle_cow_fault addr old (m, fa, mem) = Some (Inr nf, m', fa', mem')
    \<and> nf \<in> free_addrs fa \<and> nf \<noteq> old \<and> free_addrs fa' = free_addrs fa - {nf} \<and> phys_inv fa'
    \<and> mem_page mem' nf = mem_page mem old \<and> mem_page mem' old = mem_page mem old
    \<and> (\<forall>x. \<not> (nf \<le> x \<and> x < nf + 4096) \<longrightarrow> mem' x = mem x)
    \<and> cow_inv m' \<and> ref_count m' = (ref_count m)(old := ref_count m old - 1)"
proof -
  obtain nf fa' where a: "allocate fa = Some (Some nf, fa')" "nf \<in> free_addrs fa" "phys_inv fa'"
    "free_addrs fa' = free_addrs fa - {nf}"
    using bitmap.alloc_ok [OF assms(2)] assms(6) by blast
  obtain m' where d: "decrement_ref old m = (False, m')" "cow_inv m'"
    "ref_count m' = (ref_count m)(old := ref_count m old - 1)"
    using cowrc.dec_more [OF assms(1,3)] by blast
  have "nf \<noteq> old" using a(2) assms(5) by auto
  moreover have "nf mod 4096 = 0" using a(2) by (auto simp: free_addrs_def)
  ultimately have "old + 4096 \<le> nf \<or> nf + 4096 \<le> old"
    using assms(4) multiples_apart [of old 4096 nf] multiples_apart [of nf 4096 old] by linarith
  then have pages: "mem_page (copy_page old nf mem) old = mem_page mem old"
    "mem_page (copy_page old nf mem) nf = mem_page mem old"
    by (rule copy_page_pages)+
  have "handle_cow_fault addr old (m, fa, mem) = Some (Inr nf, m', fa', copy_page old nf mem)"
    using assms(3) a(1) d(1) by (simp add: handle_cow_fault_def Let_def)
  moreover have "\<forall>x. \<not> (nf \<le> x \<and> x < nf + 4096) \<longrightarrow> copy_page old nf mem x = mem x"
    by (simp add: copy_page_def)
  ultimately show ?thesis using a(2-4) d(2,3) pages \<open>nf \<noteq> old\<close> by metis
qed

theorem cow_fault_copies_witness:
  "\<exists>nf m' fa' mem'. handle_cow_fault 0 (64 * 4096) (\<lparr>cow_frames = [(64 * 4096, 2)]\<rparr>, all_free 1 0, \<lambda>_. 7)
      = Some (Inr nf, m', fa', mem') \<and> nf \<noteq> 64 * 4096 \<and> ref_count m' (64 * 4096) = 1"
proof -
  let ?m = "\<lparr>cow_frames = [(64 * 4096, 2)]\<rparr>"
  have m: "cow_inv ?m" "ref_count ?m (64 * 4096) = 2"
    by (simp_all add: cow_inv_def ref_count_def)
  have f: "64 * 4096 \<notin> free_addrs (all_free 1 0)" "free_addrs (all_free 1 0) \<noteq> {}"
    by (auto simp: free_addrs_def free_set_all_free lessThan_empty_iff)
  have "1 < ref_count ?m (64 * 4096)" using m(2) by simp
  from cow_fault_copies [OF m(1) phys_inv_all_free this _ f, of 0 "\<lambda>_. 7"] m(2) show ?thesis
    by auto
qed

end
