(* ===== verification/Vma.thy ===== *)
theory Vma
  imports Cow
begin

text \<open>
  Virtual memory areas, \<^verbatim>\<open>kernel/src/mm/vma.rs\<close>: the areas of an address space with their page frames,
  the search for a free region, \<open>mmap\<close>, \<open>munmap\<close> with its four ways of cutting an area, \<open>mprotect\<close>, and the
  handlers of demand paging and copy-on-write faults.

  The map of areas is an association list in ascending order of the start addresses, the order in which a
  \<open>BTreeMap\<close> is traversed.  The page tables belong to the \<open>x86_64\<close> crate: they are a type \<open>'pt\<close>, and their
  operations a record of functions \<open>Mapper\<close> passed to the operations that use them.  The global frame
  allocator, the physical memory and the copy-on-write table are those of \<open>Phys\<close> and \<open>Cow\<close>.

  The abstract address space maps page addresses to what the area says of the page (\<open>page_at\<close>); \<open>munmap\<close> and
  \<open>mmap\<close> are shown to be the removal and the addition of a range of pages of it.
\<close>

subsection \<open>Protection and flags\<close>

record Protection =
  p_read :: bool
  p_write :: bool
  p_exec :: bool

definition from_prot :: "u32 \<Rightarrow> Protection" where
  "from_prot prot = \<lparr>p_read = (prot AND 0x1 \<noteq> 0), p_write = (prot AND 0x2 \<noteq> 0), p_exec = (prot AND 0x4 \<noteq> 0)\<rparr>"

text \<open>The page-table flags that the code sets.\<close>

record PageFlags =
  present :: bool
  writable :: bool
  no_execute :: bool
  user_accessible :: bool

definition to_page_flags :: "Protection \<Rightarrow> bool \<Rightarrow> PageFlags" where
  "to_page_flags p user = \<lparr>present = True, writable = p_write p, no_execute = (\<not> p_exec p), user_accessible = user\<rparr>"

record MapFlags =
  mf_shared :: bool
  mf_private :: bool
  mf_anonymous :: bool
  mf_fixed :: bool

definition from_flags :: "u32 \<Rightarrow> MapFlags" where
  "from_flags flags = \<lparr>mf_shared = (flags AND 0x01 \<noteq> 0), mf_private = (flags AND 0x02 \<noteq> 0),
     mf_anonymous = (flags AND 0x20 \<noteq> 0), mf_fixed = (flags AND 0x10 \<noteq> 0)\<rparr>"

subsection \<open>Areas\<close>

record Vma =
  v_start :: nat
  v_size :: nat
  v_prot :: Protection
  v_flags :: MapFlags
  v_frames :: "phys_frame option list"
  v_cow :: "bool list"

definition vma_end :: "Vma \<Rightarrow> nat option" where
  "vma_end v = add64 (v_start v) (v_size v)"

definition vma_contains :: "nat \<Rightarrow> Vma \<Rightarrow> bool option" where
  "vma_contains addr v = (if addr \<ge> v_start v then do { e \<leftarrow> vma_end v; Some (addr < e) } else Some False)"

definition vma_overlaps :: "nat \<Rightarrow> nat \<Rightarrow> Vma \<Rightarrow> bool option" where
  "vma_overlaps start sz v = do {
     e \<leftarrow> add64 start sz;
     if e \<le> v_start v then Some False
     else do { ve \<leftarrow> vma_end v; Some (\<not> start \<ge> ve) }
   }"

text \<open>\<open>iter().any\<close>, \<open>find\<close> and \<open>filter\<close> with a predicate that can panic.\<close>

fun any_m :: "('a \<Rightarrow> bool option) \<Rightarrow> 'a list \<Rightarrow> bool option" where
  "any_m p [] = Some False"
| "any_m p (x # xs) = do { b \<leftarrow> p x; if b then Some True else any_m p xs }"

fun find_m :: "('a \<Rightarrow> bool option) \<Rightarrow> 'a list \<Rightarrow> 'a option option" where
  "find_m p [] = Some None"
| "find_m p (x # xs) = do { b \<leftarrow> p x; if b then Some (Some x) else find_m p xs }"

fun filter_m :: "('a \<Rightarrow> bool option) \<Rightarrow> 'a list \<Rightarrow> 'a list option" where
  "filter_m p [] = Some []"
| "filter_m p (x # xs) = do { b \<leftarrow> p x; ys \<leftarrow> filter_m p xs; Some (if b then x # ys else ys) }"

subsection \<open>The manager\<close>

record VmaManager =
  vmas :: "(nat \<times> Vma) list"
  next_addr :: nat

definition MMAP_BASE :: nat where "MMAP_BASE = 0x0000700000000000"

definition MMAP_LIMIT :: nat where "MMAP_LIMIT = 0x00007FFF00000000"

definition vm_new :: VmaManager where
  "vm_new = \<lparr>vmas = [], next_addr = MMAP_BASE\<rparr>"

text \<open>\<open>BTreeMap::insert\<close> and \<open>remove\<close>.\<close>

fun bt_insert :: "nat \<Rightarrow> 'v \<Rightarrow> (nat \<times> 'v) list \<Rightarrow> (nat \<times> 'v) list" where
  "bt_insert k v [] = [(k, v)]"
| "bt_insert k v ((k', v') # xs) =
     (if k < k' then (k, v) # (k', v') # xs
      else if k = k' then (k, v) # xs
      else (k', v') # bt_insert k v xs)"

definition bt_remove :: "nat \<Rightarrow> (nat \<times> 'v) list \<Rightarrow> (nat \<times> 'v) list" where
  "bt_remove k xs = filter (\<lambda>e. fst e \<noteq> k) xs"

definition vma_values :: "VmaManager \<Rightarrow> Vma list" where
  "vma_values m = map snd (vmas m)"

text \<open>The \<open>for\<close> loop of \<open>find_free_region\<close>: the end of the first area that starts in the candidate range, or the
  same candidate again when there is none.\<close>

fun skip_vma :: "Vma list \<Rightarrow> nat \<Rightarrow> nat \<Rightarrow> nat option" where
  "skip_vma [] sz addr = Some addr"
| "skip_vma (v # vs) sz addr =
     (if v_start v \<ge> addr then do {
        e \<leftarrow> add64 addr sz;
        if v_start v < e then do { ve \<leftarrow> vma_end v; align_up ve }
        else skip_vma vs sz addr
      } else skip_vma vs sz addr)"

partial_function (option) find_free_loop :: "Vma list \<Rightarrow> nat \<Rightarrow> nat \<Rightarrow> nat option option" where
  "find_free_loop vs sz addr =
     Option.bind (add64 addr sz) (\<lambda>e.
       if e \<le> MMAP_LIMIT then
         Option.bind (any_m (vma_overlaps addr sz) vs) (\<lambda>overlaps.
           if \<not> overlaps then Some (Some addr)
           else Option.bind (skip_vma vs sz addr) (\<lambda>addr'. find_free_loop vs sz addr'))
       else Some None)"

definition find_free_region :: "nat \<Rightarrow> VmaManager \<Rightarrow> nat option option" where
  "find_free_region sz m = do {
     aligned_size \<leftarrow> align_up sz;
     find_free_loop (vma_values m) aligned_size (next_addr m)
   }"

subsection \<open>The state and the page tables\<close>

record 'pt MmState =
  ms_vm :: VmaManager
  ms_pt :: 'pt
  ms_fa :: BitmapFrameAllocator
  ms_mem :: pmem
  ms_cow :: CowManager

text \<open>The page-table operations: the address check of \<open>VirtAddr::new\<close>, mapping a page (which may take frames
  for page tables from the allocator and may fail), unmapping, and changing the flags.\<close>

record 'pt Mapper =
  virt_addr_new :: "nat \<Rightarrow> nat option"
  map_page :: "nat \<Rightarrow> phys_frame \<Rightarrow> PageFlags \<Rightarrow> 'pt \<Rightarrow> BitmapFrameAllocator
    \<Rightarrow> unit KResult \<times> 'pt \<times> BitmapFrameAllocator"
  unmap_page :: "nat \<Rightarrow> 'pt \<Rightarrow> 'pt"
  update_page_flags :: "nat \<Rightarrow> PageFlags \<Rightarrow> 'pt \<Rightarrow> 'pt"

text \<open>One round of the loops of \<open>munmap\<close> over the pages to remove: page \<open>i\<close> of the area, if it has a frame.\<close>

definition release_page :: "'pt Mapper \<Rightarrow> Vma \<Rightarrow> nat \<Rightarrow> 'pt \<times> BitmapFrameAllocator
    \<Rightarrow> ('pt \<times> BitmapFrameAllocator) option" where
  "release_page mp v i = (\<lambda>(pt, fa). do {
     f \<leftarrow> idx (v_frames v) i;
     case f of
       None \<Rightarrow> Some (pt, fa)
     | Some frame \<Rightarrow> do {
         off \<leftarrow> mul64 i 4096;
         a \<leftarrow> add64 (v_start v) off;
         page \<leftarrow> virt_addr_new mp a;
         fa \<leftarrow> deallocate fa frame;
         Some (unmap_page mp page pt, fa)
       }
   })"

definition release_pages :: "'pt Mapper \<Rightarrow> Vma \<Rightarrow> nat \<Rightarrow> nat \<Rightarrow> 'pt MmState \<Rightarrow> 'pt MmState option" where
  "release_pages mp v lo hi s = do {
     (pt, fa) \<leftarrow> for_each (release_page mp v) [lo..<hi] (ms_pt s, ms_fa s);
     Some (s\<lparr>ms_pt := pt, ms_fa := fa\<rparr>)
   }"

definition insert_vma :: "Vma \<Rightarrow> 'pt MmState \<Rightarrow> 'pt MmState" where
  "insert_vma v s = s\<lparr>ms_vm := (ms_vm s)\<lparr>vmas := bt_insert (v_start v) v (vmas (ms_vm s))\<rparr>\<rparr>"

text \<open>The part of an area from page \<open>lo\<close> up to page \<open>hi\<close>, placed at \<open>start\<close>: the slices panic out of range.\<close>

definition vma_slice :: "Vma \<Rightarrow> nat \<Rightarrow> nat \<Rightarrow> nat \<Rightarrow> Vma option" where
  "vma_slice v start lo hi =
     (if lo \<le> hi \<and> hi \<le> length (v_frames v) \<and> hi \<le> length (v_cow v)
      then Some \<lparr>v_start = start, v_size = (hi - lo) * 4096, v_prot = v_prot v, v_flags = v_flags v,
                 v_frames = take (hi - lo) (drop lo (v_frames v)), v_cow = take (hi - lo) (drop lo (v_cow v))\<rparr>
      else None)"

text \<open>The body of the loop of \<open>munmap\<close> for one overlapping area.\<close>

definition cut_vma :: "'pt Mapper \<Rightarrow> nat \<Rightarrow> nat \<Rightarrow> nat \<Rightarrow> 'pt MmState \<Rightarrow> 'pt MmState option" where
  "cut_vma mp addr e vma_start s =
     (case map_of (vmas (ms_vm s)) vma_start of
        None \<Rightarrow> Some s
      | Some v \<Rightarrow> do {
          let s = s\<lparr>ms_vm := (ms_vm s)\<lparr>vmas := bt_remove vma_start (vmas (ms_vm s))\<rparr>\<rparr>;
          let n = length (v_frames v);
          ve \<leftarrow> vma_end v;
          if v_start v \<ge> addr \<and> ve \<le> e then release_pages mp v 0 n s
          else if v_start v < addr \<and> ve > e then do {
            let start_page = (addr - v_start v) div 4096;
            let end_page = (e - v_start v) div 4096;
            s \<leftarrow> release_pages mp v start_page (min end_page n) s;
            s \<leftarrow> (if start_page > 0 then map_option (\<lambda>b. insert_vma b s) (vma_slice v (v_start v) 0 start_page)
                  else Some s);
            if end_page < n then map_option (\<lambda>a. insert_vma a s) (vma_slice v e end_page n) else Some s
          }
          else if v_start v < addr then do {
            let keep_pages = (addr - v_start v) div 4096;
            s \<leftarrow> release_pages mp v keep_pages n s;
            if keep_pages > 0 then map_option (\<lambda>b. insert_vma b s) (vma_slice v (v_start v) 0 keep_pages) else Some s
          }
          else do {
            let remove_pages = (min ve e - v_start v) div 4096;
            s \<leftarrow> release_pages mp v 0 (min remove_pages n) s;
            if remove_pages < n then do {
              start \<leftarrow> add64 (v_start v) (remove_pages * 4096);
              map_option (\<lambda>a. insert_vma a s) (vma_slice v start remove_pages n)
            } else Some s
          }
        })"

definition munmap :: "'pt Mapper \<Rightarrow> nat \<Rightarrow> nat \<Rightarrow> 'pt MmState \<Rightarrow> (unit KResult \<times> 'pt MmState) option" where
  "munmap mp addr sz s =
     (if addr mod 4096 \<noteq> 0 \<or> sz = 0 then Some (Inl Invalid, s)
      else do {
        aligned_size \<leftarrow> align_up sz;
        e \<leftarrow> add64 addr aligned_size;
        ov \<leftarrow> filter_m (\<lambda>kv. vma_overlaps addr aligned_size (snd kv)) (vmas (ms_vm s));
        s \<leftarrow> for_each (cut_vma mp addr e) (map fst ov) s;
        Some (Inr (), s)
      })"

text \<open>The address that \<open>mmap\<close> picks; \<open>Inl\<close> is the error it returns.\<close>

definition choose_addr :: "nat \<Rightarrow> nat \<Rightarrow> VmaManager \<Rightarrow> nat KResult option" where
  "choose_addr addr_hint aligned_size m =
     (let search = map_option (\<lambda>r. case r of None \<Rightarrow> Inl NoMemory | Some a \<Rightarrow> Inr a)
            (find_free_region aligned_size m)
      in if addr_hint \<noteq> 0 \<and> addr_hint mod 4096 = 0 then do {
           ov \<leftarrow> any_m (vma_overlaps addr_hint aligned_size) (vma_values m);
           if \<not> ov then Some (Inr addr_hint) else search
         } else search)"

definition mmap_at :: "nat \<Rightarrow> nat \<Rightarrow> Protection \<Rightarrow> MapFlags \<Rightarrow> 'pt MmState \<Rightarrow> (nat KResult \<times> 'pt MmState) option" where
  "mmap_at addr aligned_size prot flags s = do {
     let num_pages = aligned_size div 4096;
     let v = \<lparr>v_start = addr, v_size = aligned_size, v_prot = prot, v_flags = flags,
              v_frames = replicate num_pages None, v_cow = replicate num_pages False\<rparr>;
     let s = insert_vma v s;
     if addr \<ge> next_addr (ms_vm s) then do {
       e \<leftarrow> add64 addr aligned_size;
       na \<leftarrow> align_up e;
       Some (Inr addr, s\<lparr>ms_vm := (ms_vm s)\<lparr>next_addr := na\<rparr>\<rparr>)
     } else Some (Inr addr, s)
   }"

definition mmap :: "'pt Mapper \<Rightarrow> nat \<Rightarrow> nat \<Rightarrow> Protection \<Rightarrow> MapFlags \<Rightarrow> 'pt MmState
    \<Rightarrow> (nat KResult \<times> 'pt MmState) option" where
  "mmap mp addr_hint sz prot flags s =
     (if sz = 0 then Some (Inl Invalid, s)
      else do {
        aligned_size \<leftarrow> align_up sz;
        if mf_fixed flags then
          (if addr_hint = 0 \<or> addr_hint mod 4096 \<noteq> 0 then Some (Inl Invalid, s)
           else do {
             (r, s) \<leftarrow> munmap mp addr_hint aligned_size s;
             case r of Inl er \<Rightarrow> Some (Inl er, s) | Inr _ \<Rightarrow> mmap_at addr_hint aligned_size prot flags s
           })
        else do {
          r \<leftarrow> choose_addr addr_hint aligned_size (ms_vm s);
          case r of Inl er \<Rightarrow> Some (Inl er, s) | Inr addr \<Rightarrow> mmap_at addr aligned_size prot flags s
        }
      })"

subsection \<open>Faults, protection and lookup\<close>

definition put_vma :: "nat \<Rightarrow> Vma \<Rightarrow> 'pt MmState \<Rightarrow> 'pt MmState" where
  "put_vma k v s = s\<lparr>ms_vm := (ms_vm s)\<lparr>vmas := bt_insert k v (vmas (ms_vm s))\<rparr>\<rparr>"

definition find_vma :: "nat \<Rightarrow> VmaManager \<Rightarrow> (nat \<times> Vma) option option" where
  "find_vma addr m = find_m (\<lambda>kv. vma_contains addr (snd kv)) (vmas m)"

definition zero_page :: "phys_frame \<Rightarrow> pmem \<Rightarrow> pmem" where
  "zero_page f mem = (\<lambda>x. if f \<le> x \<and> x < f + 4096 then 0 else mem x)"

definition handle_page_fault :: "'pt Mapper \<Rightarrow> nat \<Rightarrow> 'pt MmState \<Rightarrow> (unit KResult \<times> 'pt MmState) option" where
  "handle_page_fault mp fault_addr s = do {
     let page_addr = align_down fault_addr;
     r \<leftarrow> find_vma fault_addr (ms_vm s);
     case r of
       None \<Rightarrow> Some (Inl Invalid, s)
     | Some (k, v) \<Rightarrow> do {
         off \<leftarrow> sub64 page_addr (v_start v);
         let page_index = off div 4096;
         if page_index < length (v_frames v) \<and> v_frames v ! page_index \<noteq> None
         then Some (Inl PermissionDenied, s)
         else do {
           (fr, fa) \<leftarrow> allocate (ms_fa s);
           let s = s\<lparr>ms_fa := fa\<rparr>;
           case fr of
             None \<Rightarrow> Some (Inl NoMemory, s)
           | Some frame \<Rightarrow> do {
               let s = (if mf_anonymous (v_flags v) then s\<lparr>ms_mem := zero_page frame (ms_mem s)\<rparr> else s);
               page \<leftarrow> virt_addr_new mp page_addr;
               case map_page mp page frame (to_page_flags (v_prot v) True) (ms_pt s) (ms_fa s) of (res, pt, fa) \<Rightarrow>
                 let s = s\<lparr>ms_pt := pt, ms_fa := fa\<rparr> in
                 case res of
                   Inl er \<Rightarrow> Some (Inl er, s)
                 | Inr _ \<Rightarrow>
                     Some (Inr (), if page_index < length (v_frames v)
                       then put_vma k (v\<lparr>v_frames := (v_frames v)[page_index := Some frame]\<rparr>) s else s)
             }
         }
       }
   }"

definition handle_cow_page_fault :: "'pt Mapper \<Rightarrow> nat \<Rightarrow> nat \<Rightarrow> 'pt MmState
    \<Rightarrow> (unit KResult \<times> 'pt MmState) option" where
  "handle_cow_page_fault mp fault_addr old_phys s = do {
     let page_addr = align_down fault_addr;
     r \<leftarrow> find_vma fault_addr (ms_vm s);
     case r of
       None \<Rightarrow> Some (Inl Invalid, s)
     | Some (k, v) \<Rightarrow>
         if \<not> p_write (v_prot v) then Some (Inl PermissionDenied, s)
         else do {
           off \<leftarrow> sub64 page_addr (v_start v);
           let page_index = off div 4096;
           if page_index \<ge> length (v_cow v) \<or> \<not> v_cow v ! page_index then Some (Inl Invalid, s)
           else do {
             (fr, fa) \<leftarrow> allocate (ms_fa s);
             let s = s\<lparr>ms_fa := fa\<rparr>;
             case fr of
               None \<Rightarrow> Some (Inl NoMemory, s)
             | Some new_frame \<Rightarrow> do {
                 let s = s\<lparr>ms_mem := copy_page old_phys new_frame (ms_mem s)\<rparr>;
                 page \<leftarrow> virt_addr_new mp page_addr;
                 case map_page mp page new_frame (to_page_flags (v_prot v) True)
                     (unmap_page mp page (ms_pt s)) (ms_fa s) of (res, pt, fa) \<Rightarrow>
                   let s = s\<lparr>ms_pt := pt, ms_fa := fa\<rparr> in
                   case res of
                     Inl er \<Rightarrow> Some (Inl er, s)
                   | Inr _ \<Rightarrow>
                       let s = s\<lparr>ms_cow := snd (decrement_ref old_phys (ms_cow s))\<rparr>;
                           fs = (if page_index < length (v_frames v)
                                 then (v_frames v)[page_index := Some new_frame] else v_frames v)
                       in Some (Inr (), put_vma k (v\<lparr>v_frames := fs, v_cow := (v_cow v)[page_index := False]\<rparr>) s)
               }
           }
         }
   }"

definition mprotect :: "'pt Mapper \<Rightarrow> nat \<Rightarrow> nat \<Rightarrow> Protection \<Rightarrow> 'pt MmState \<Rightarrow> (unit KResult \<times> 'pt MmState) option" where
  "mprotect mp addr sz prot s =
     (if addr mod 4096 \<noteq> 0 \<or> sz = 0 then Some (Inl Invalid, s)
      else do {
        aligned_size \<leftarrow> align_up sz;
        r \<leftarrow> find_m (\<lambda>kv. do {
               c \<leftarrow> vma_contains addr (snd kv);
               if c then do { e \<leftarrow> add64 addr aligned_size; ve \<leftarrow> vma_end (snd kv); Some (e \<le> ve) } else Some False
             }) (vmas (ms_vm s));
        case r of
          None \<Rightarrow> Some (Inl Invalid, s)
        | Some (k, v) \<Rightarrow> do {
            let s = put_vma k (v\<lparr>v_prot := prot\<rparr>) s;
            let start_page = (addr - v_start v) div 4096;
            let num_pages = aligned_size div 4096;
            pt \<leftarrow> for_each (\<lambda>i pt. do {
                   a \<leftarrow> add64 (v_start v) (i * 4096);
                   page \<leftarrow> virt_addr_new mp a;
                   Some (update_page_flags mp page (to_page_flags prot True) pt)
                 }) [start_page..<min (start_page + num_pages) (length (v_frames v))] (ms_pt s);
            Some (Inr (), s\<lparr>ms_pt := pt\<rparr>)
          }
      })"

definition is_mapped :: "nat \<Rightarrow> VmaManager \<Rightarrow> bool option" where
  "is_mapped addr m = any_m (vma_contains addr) (vma_values m)"

definition get_vma :: "nat \<Rightarrow> VmaManager \<Rightarrow> Vma option option" where
  "get_vma addr m = find_m (vma_contains addr) (vma_values m)"

definition remove_vma :: "nat \<Rightarrow> VmaManager \<Rightarrow> unit KResult \<times> VmaManager" where
  "remove_vma addr m =
     (if map_of (vmas m) addr \<noteq> None then (Inr (), m\<lparr>vmas := bt_remove addr (vmas m)\<rparr>)
      else case List.find (\<lambda>kv. v_start (snd kv) = addr) (vmas m) of
        Some (k, _) \<Rightarrow> (Inr (), m\<lparr>vmas := bt_remove k (vmas m)\<rparr>)
      | None \<Rightarrow> (Inl Invalid, m))"

text \<open>The system calls, after \<open>init\<close> has created the manager.\<close>

definition sys_mmap :: "'pt Mapper \<Rightarrow> nat \<Rightarrow> nat \<Rightarrow> u32 \<Rightarrow> u32 \<Rightarrow> 'pt MmState \<Rightarrow> (nat KResult \<times> 'pt MmState) option" where
  "sys_mmap mp addr len prot flags s =
     (if \<not> mf_anonymous (from_flags flags) then Some (Inl NotSupported, s)
      else mmap mp addr len (from_prot prot) (from_flags flags) s)"

definition sys_munmap :: "'pt Mapper \<Rightarrow> nat \<Rightarrow> nat \<Rightarrow> 'pt MmState \<Rightarrow> (unit KResult \<times> 'pt MmState) option" where
  "sys_munmap mp addr len s = munmap mp addr len s"

definition sys_mprotect :: "'pt Mapper \<Rightarrow> nat \<Rightarrow> nat \<Rightarrow> u32 \<Rightarrow> 'pt MmState \<Rightarrow> (unit KResult \<times> 'pt MmState) option" where
  "sys_mprotect mp addr len prot s = mprotect mp addr len (from_prot prot) s"

subsection \<open>The abstract address space\<close>

text \<open>What an area says of the page at \<open>a\<close>: its protection, flags, frame and copy-on-write mark.\<close>

type_synonym page_info = "Protection \<times> MapFlags \<times> phys_frame option \<times> bool"

definition page_info_of :: "Vma \<Rightarrow> nat \<Rightarrow> page_info" where
  "page_info_of v a = (let i = (a - v_start v) div 4096 in (v_prot v, v_flags v, v_frames v ! i, v_cow v ! i))"

definition in_vma :: "Vma \<Rightarrow> nat \<Rightarrow> bool" where
  "in_vma v a \<longleftrightarrow> v_start v \<le> a \<and> a < v_start v + v_size v"

definition paged :: "nat \<Rightarrow> bool" where
  "paged a \<longleftrightarrow> a mod 4096 = 0"

definition page_at :: "VmaManager \<Rightarrow> nat \<Rightarrow> page_info option" where
  "page_at m a = map_option (\<lambda>v. page_info_of v a) (List.find (\<lambda>v. in_vma v a) (vma_values m))"

text \<open>The bound keeps every sum of the code below \<open>2 ^ 64\<close>.\<close>

definition VTOP :: nat where "VTOP = 2 ^ 64 - 4096"

definition vma_ok :: "Vma \<Rightarrow> bool" where
  "vma_ok v \<longleftrightarrow> v_start v mod 4096 = 0 \<and> v_frames v \<noteq> [] \<and> v_size v = 4096 * length (v_frames v)
     \<and> length (v_cow v) = length (v_frames v) \<and> v_start v + v_size v \<le> VTOP"

definition vma_disjoint :: "Vma \<Rightarrow> Vma \<Rightarrow> bool" where
  "vma_disjoint v w \<longleftrightarrow> v_start v + v_size v \<le> v_start w \<or> v_start w + v_size w \<le> v_start v"

text \<open>The areas are well formed, filed under their start addresses in ascending order, and each ends before
  the next begins.\<close>

definition vm_inv :: "VmaManager \<Rightarrow> bool" where
  "vm_inv m \<longleftrightarrow> (\<forall>e \<in> set (vmas m). fst e = v_start (snd e) \<and> vma_ok (snd e))
     \<and> sorted_wrt (\<lambda>v w. v_start v + v_size v \<le> v_start w) (vma_values m)"

subsection \<open>Areas as an ordered list\<close>

definition keyed :: "Vma list \<Rightarrow> (nat \<times> Vma) list" where
  "keyed vs = map (\<lambda>v. (v_start v, v)) vs"

definition areas_ok :: "Vma list \<Rightarrow> bool" where
  "areas_ok vs \<longleftrightarrow> (\<forall>v \<in> set vs. vma_ok v) \<and> sorted_wrt (\<lambda>v w. v_start v + v_size v \<le> v_start w) vs"

definition ins_area :: "Vma \<Rightarrow> Vma list \<Rightarrow> Vma list" where
  "ins_area v vs = filter (\<lambda>w. v_start w < v_start v) vs @ v # filter (\<lambda>w. v_start v < v_start w) vs"

lemma vm_inv_iff: "vm_inv m \<longleftrightarrow> vmas m = keyed (vma_values m) \<and> areas_ok (vma_values m)"
proof -
  have "vmas m = keyed (vma_values m) \<longleftrightarrow> (\<forall>e \<in> set (vmas m). fst e = v_start (snd e))"
    using map_eq_conv [of "\<lambda>e. e" "vmas m" "\<lambda>e. (v_start (snd e), snd e)"]
    by (simp add: keyed_def vma_values_def comp_def prod_eq_iff)
  then show ?thesis by (auto simp: vm_inv_def areas_ok_def vma_values_def)
qed

lemma vma_ok_pos: "vma_ok v \<Longrightarrow> 4096 \<le> v_size v"
  by (cases "v_frames v") (auto simp: vma_ok_def)

lemma areas_disjoint:
  assumes "areas_ok vs" and "v \<in> set vs" and "w \<in> set vs" and "v \<noteq> w"
  shows "vma_disjoint v w"
proof -
  obtain i j where ij: "i < length vs" "v = vs ! i" "j < length vs" "w = vs ! j"
    using assms(2,3) by (metis in_set_conv_nth)
  then have "i \<noteq> j" using assms(4) by auto
  then show ?thesis
    using assms(1) ij sorted_wrt_nth_less [of _ vs i j] sorted_wrt_nth_less [of _ vs j i]
    by (cases "i < j") (auto simp: areas_ok_def vma_disjoint_def)
qed

lemma areas_start_eq: "areas_ok vs \<Longrightarrow> v \<in> set vs \<Longrightarrow> w \<in> set vs \<Longrightarrow> v_start v = v_start w \<Longrightarrow> v = w"
  using areas_disjoint [of vs v w] vma_ok_pos [of v] vma_ok_pos [of w]
  by (fastforce simp: areas_ok_def vma_disjoint_def)

lemma areas_unique: "areas_ok vs \<Longrightarrow> v \<in> set vs \<Longrightarrow> w \<in> set vs \<Longrightarrow> in_vma v a \<Longrightarrow> in_vma w a \<Longrightarrow> v = w"
  using areas_disjoint [of vs v w] by (fastforce simp: in_vma_def vma_disjoint_def)

lemma areas_ok_Cons:
  "areas_ok (v # vs) \<longleftrightarrow> vma_ok v \<and> areas_ok vs \<and> (\<forall>w \<in> set vs. v_start v + v_size v \<le> v_start w)"
  by (auto simp: areas_ok_def)

lemma areas_ok_filter: "areas_ok vs \<Longrightarrow> areas_ok (filter P vs)"
  by (auto simp: areas_ok_def sorted_wrt_filter)

lemma disjoint_order:
  "vma_ok v \<Longrightarrow> vma_ok w \<Longrightarrow> vma_disjoint v w \<Longrightarrow> v_start v < v_start w \<Longrightarrow> v_start v + v_size v \<le> v_start w"
  using vma_ok_pos [of w] by (auto simp: vma_disjoint_def)

lemma ins_area_ok:
  assumes "areas_ok vs" and "vma_ok v" and "\<forall>w \<in> set vs. vma_disjoint v w"
  shows "areas_ok (ins_area v vs)" "set (ins_area v vs) = insert v (set vs)"
proof -
  have ne: "v_start w \<noteq> v_start v" if "w \<in> set vs" for w
    using that assms vma_ok_pos [of v] vma_ok_pos [of w] by (fastforce simp: vma_disjoint_def areas_ok_def)
  have s: "sorted_wrt (\<lambda>v w. v_start v + v_size v \<le> v_start w) vs" "\<forall>w \<in> set vs. vma_ok w"
    using assms(1) by (auto simp: areas_ok_def)
  have l: "v_start w + v_size w \<le> v_start v" if "w \<in> set vs" "v_start w < v_start v" for w
    using that assms(2,3) s(2) disjoint_order [of w v] by (auto simp: vma_disjoint_def)
  have r: "v_start v + v_size v \<le> v_start w" if "w \<in> set vs" "v_start v < v_start w" for w
    using that assms(2,3) s(2) disjoint_order [of v w] by auto
  have "v_start u + v_size u \<le> v_start w"
    if "u \<in> set vs" "v_start u < v_start v" "w \<in> set vs" "v_start v < v_start w" for u w
    using l [OF that(1,2)] that(4) by simp
  then show "areas_ok (ins_area v vs)"
    using s assms(2) l r by (auto simp: areas_ok_def ins_area_def sorted_wrt_append sorted_wrt_filter)
  show "set (ins_area v vs) = insert v (set vs)"
    using ne by (auto simp: ins_area_def) (metis linorder_neqE_nat)
qed

lemma bt_insert_keyed:
  assumes "areas_ok vs" and "vma_ok v" and "\<forall>w \<in> set vs. vma_disjoint v w"
  shows "bt_insert (v_start v) v (keyed vs) = keyed (ins_area v vs)"
  using assms
proof (induction vs)
  case Nil
  then show ?case by (simp add: keyed_def ins_area_def)
next
  case (Cons w vs)
  have w: "vma_ok w" "areas_ok vs" "\<forall>u \<in> set vs. v_start w + v_size w \<le> v_start u" "vma_disjoint v w"
    using Cons.prems by (auto simp: areas_ok_Cons)
  show ?case
  proof (cases "v_start v < v_start w")
    case True
    then have "v_start v < v_start u" if "u \<in> set vs" for u
      using w(3) that by fastforce
    then have "filter (\<lambda>u. v_start u < v_start v) vs = []" "filter (\<lambda>u. v_start v < v_start u) vs = vs"
      by (simp_all add: filter_empty_conv filter_id_conv not_less less_imp_le)
    then show ?thesis using True by (simp add: keyed_def ins_area_def)
  next
    case False
    have "v_start v \<noteq> v_start w"
      using w(1,4) Cons.prems(2) vma_ok_pos [of v] vma_ok_pos [of w] by (auto simp: vma_disjoint_def)
    then show ?thesis
      using False Cons.IH Cons.prems w(2) by (simp add: keyed_def ins_area_def)
  qed
qed

lemma bt_remove_keyed: "bt_remove k (keyed vs) = keyed (filter (\<lambda>w. v_start w \<noteq> k) vs)"
  by (induction vs) (auto simp: bt_remove_def keyed_def)

lemma map_of_keyed: "areas_ok vs \<Longrightarrow> v \<in> set vs \<Longrightarrow> map_of (keyed vs) (v_start v) = Some v"
proof (induction vs)
  case (Cons w vs)
  then show ?case
    using areas_start_eq [OF Cons.prems(1), of v w] by (auto simp: keyed_def areas_ok_Cons)
qed (simp add: keyed_def)

lemma find_area:
  assumes "areas_ok vs"
  shows "List.find (\<lambda>v. in_vma v a) vs = Some v \<longleftrightarrow> v \<in> set vs \<and> in_vma v a"
proof
  assume "List.find (\<lambda>v. in_vma v a) vs = Some v"
  then show "v \<in> set vs \<and> in_vma v a" by (auto simp: find_Some_iff)
next
  assume v: "v \<in> set vs \<and> in_vma v a"
  then obtain w where w: "List.find (\<lambda>v. in_vma v a) vs = Some w"
    by (metis find_None_iff not_Some_eq)
  then have "w \<in> set vs \<and> in_vma w a" by (auto simp: find_Some_iff)
  then show "List.find (\<lambda>v. in_vma v a) vs = Some v" using areas_unique [OF assms] v w by blast
qed

lemma page_at_Some:
  assumes "areas_ok (vma_values m)"
  shows "page_at m a = Some x \<longleftrightarrow> (\<exists>v \<in> set (vma_values m). in_vma v a \<and> x = page_info_of v a)"
  using find_area [OF assms] by (auto simp: page_at_def)

text \<open>Two address spaces with related areas have related pages.\<close>

lemma page_at_eqI:
  assumes "areas_ok (vma_values m)"
    and "\<And>v. v \<in> set (vma_values m) \<Longrightarrow> in_vma v a \<Longrightarrow> r = Some (page_info_of v a)"
    and "\<And>x. r = Some x \<Longrightarrow> \<exists>v \<in> set (vma_values m). in_vma v a"
  shows "page_at m a = r"
proof (cases "\<exists>v \<in> set (vma_values m). in_vma v a")
  case True
  then show ?thesis using assms(2) page_at_Some [OF assms(1)] by metis
next
  case False
  then have "page_at m a = None" using page_at_Some [OF assms(1), of a] by (metis not_Some_eq)
  then show ?thesis using False assms(3) by (metis not_Some_eq)
qed

subsection \<open>Cutting an area\<close>

text \<open>The frames of an area are frames of the allocator, and the page tables accept the addresses of the
  pages that have one.\<close>

definition backed_ok :: "'pt Mapper \<Rightarrow> BitmapFrameAllocator \<Rightarrow> Vma \<Rightarrow> bool" where
  "backed_ok mp fa v \<longleftrightarrow> (\<forall>i < length (v_frames v). \<forall>f. v_frames v ! i = Some f \<longrightarrow>
     f \<in> managed_addrs fa \<and> virt_addr_new mp (v_start v + i * 4096) \<noteq> None)"

definition mm_inv :: "'pt Mapper \<Rightarrow> 'pt MmState \<Rightarrow> bool" where
  "mm_inv mp s \<longleftrightarrow> vm_inv (ms_vm s) \<and> phys_inv (ms_fa s)
     \<and> (\<forall>v \<in> set (vma_values (ms_vm s)). backed_ok mp (ms_fa s) v)"

text \<open>The first page of the area that \<open>munmap\<close> of \<open>[addr, e)\<close> removes, and the first after it that it keeps.\<close>

definition cut_lo :: "nat \<Rightarrow> Vma \<Rightarrow> nat" where
  "cut_lo addr v = (addr - v_start v) div 4096"

definition cut_hi :: "nat \<Rightarrow> Vma \<Rightarrow> nat" where
  "cut_hi e v = (if e < v_start v + v_size v then (e - v_start v) div 4096 else length (v_frames v))"

definition slice_of :: "Vma \<Rightarrow> nat \<Rightarrow> nat \<Rightarrow> Vma" where
  "slice_of v lo hi = \<lparr>v_start = v_start v + lo * 4096, v_size = (hi - lo) * 4096, v_prot = v_prot v, v_flags = v_flags v,
     v_frames = take (hi - lo) (drop lo (v_frames v)), v_cow = take (hi - lo) (drop lo (v_cow v))\<rparr>"

definition pieces :: "nat \<Rightarrow> nat \<Rightarrow> Vma \<Rightarrow> Vma list" where
  "pieces addr e v =
     (if v_start v < addr then [slice_of v 0 (cut_lo addr v)] else [])
     @ (if e < v_start v + v_size v then [slice_of v (cut_hi e v) (length (v_frames v))] else [])"

definition overlapping :: "nat \<Rightarrow> nat \<Rightarrow> Vma \<Rightarrow> bool" where
  "overlapping addr e v \<longleftrightarrow> \<not> (e \<le> v_start v \<or> v_start v + v_size v \<le> addr)"

definition cut_frames :: "nat \<Rightarrow> nat \<Rightarrow> Vma \<Rightarrow> phys_frame set" where
  "cut_frames addr e v = {f. \<exists>i. cut_lo addr v \<le> i \<and> i < cut_hi e v \<and> v_frames v ! i = Some f}"

lemma vma_end_eq: "vma_ok v \<Longrightarrow> vma_end v = Some (v_start v + v_size v)"
  by (simp add: vma_end_def add64_def vma_ok_def VTOP_def U64_MAX_def)

lemma vma_contains_eq: "vma_ok v \<Longrightarrow> vma_contains a v = Some (in_vma v a)"
  by (simp add: vma_contains_def vma_end_eq in_vma_def)

lemma vma_overlaps_eq: "vma_ok v \<Longrightarrow> a + sz \<le> U64_MAX \<Longrightarrow> vma_overlaps a sz v = Some (overlapping a (a + sz) v)"
  by (auto simp: vma_overlaps_def vma_end_eq overlapping_def add64_def)

lemma any_m_eq: "(\<And>x. x \<in> set xs \<Longrightarrow> p x = Some (q x)) \<Longrightarrow> any_m p xs = Some (\<exists>x \<in> set xs. q x)"
  by (induction xs) auto

lemma filter_m_eq: "(\<And>x. x \<in> set xs \<Longrightarrow> p x = Some (q x)) \<Longrightarrow> filter_m p xs = Some (filter q xs)"
  by (induction xs) auto

lemma find_m_eq: "(\<And>x. x \<in> set xs \<Longrightarrow> p x = Some (q x)) \<Longrightarrow> find_m p xs = Some (List.find q xs)"
  by (induction xs) auto

lemma page_mult: "a mod 4096 = 0 \<Longrightarrow> (a :: nat) div 4096 * 4096 = a"
  by (metis add.right_neutral div_mult_mod_eq)

lemma aligned_diff: "a mod 4096 = 0 \<Longrightarrow> b mod 4096 = 0 \<Longrightarrow> (a - b :: nat) mod 4096 = 0"
  by (metis dvd_diff_nat dvd_eq_mod_eq_0)

lemma cut_lo_mult: "vma_ok v \<Longrightarrow> addr mod 4096 = 0 \<Longrightarrow> v_start v \<le> addr \<Longrightarrow> v_start v + cut_lo addr v * 4096 = addr"
  using page_mult [OF aligned_diff, of addr "v_start v"] by (simp add: cut_lo_def vma_ok_def)

lemma cut_hi_mult:
  "vma_ok v \<Longrightarrow> e mod 4096 = 0 \<Longrightarrow> v_start v \<le> e \<Longrightarrow> e < v_start v + v_size v
   \<Longrightarrow> v_start v + cut_hi e v * 4096 = e"
  using page_mult [OF aligned_diff, of e "v_start v"] by (simp add: cut_hi_def vma_ok_def)

lemma cut_bounds:
  assumes "vma_ok v" and "addr mod 4096 = 0" and "e mod 4096 = 0" and "overlapping addr e v" and "addr < e"
  shows "cut_lo addr v < length (v_frames v)" "cut_hi e v \<le> length (v_frames v)" "cut_lo addr v \<le> cut_hi e v"
    "v_start v < addr \<longleftrightarrow> 0 < cut_lo addr v" "e < v_start v + v_size v \<longleftrightarrow> cut_hi e v < length (v_frames v)"
proof -
  have v: "v_size v = 4096 * length (v_frames v)" "0 < length (v_frames v)"
    using assms(1) by (auto simp: vma_ok_def)
  have ov: "v_start v < e" "addr < v_start v + v_size v" using assms(4) by (auto simp: overlapping_def)
  have "addr - v_start v < length (v_frames v) * 4096" using ov(2) v by linarith
  then show lo: "cut_lo addr v < length (v_frames v)"
    unfolding cut_lo_def by (rule less_mult_imp_div_less)
  show hi: "cut_hi e v \<le> length (v_frames v)"
  proof (cases "e < v_start v + v_size v")
    case True
    then have "e - v_start v < length (v_frames v) * 4096" using v ov(1) by linarith
    then have "(e - v_start v) div 4096 < length (v_frames v)" by (rule less_mult_imp_div_less)
    then show ?thesis using True by (simp add: cut_hi_def)
  qed (simp add: cut_hi_def)
  show "cut_lo addr v \<le> cut_hi e v"
    using lo assms(5) by (auto simp: cut_hi_def cut_lo_def div_le_mono)
  show "v_start v < addr \<longleftrightarrow> 0 < cut_lo addr v"
  proof
    show "0 < cut_lo addr v" if "v_start v < addr"
      using cut_lo_mult [OF assms(1,2)] that by (cases "cut_lo addr v") auto
    show "v_start v < addr" if "0 < cut_lo addr v"
      using that by (rule contrapos_pp) (simp add: cut_lo_def)
  qed
  show "e < v_start v + v_size v \<longleftrightarrow> cut_hi e v < length (v_frames v)"
  proof
    show "cut_hi e v < length (v_frames v)" if "e < v_start v + v_size v"
      using cut_hi_mult [OF assms(1,3) less_imp_le [OF ov(1)] that] that v(1) by linarith
    show "e < v_start v + v_size v" if "cut_hi e v < length (v_frames v)"
      using that by (rule contrapos_pp) (simp add: cut_hi_def)
  qed
qed

lemma slice_of_ok:
  assumes "vma_ok v" and "lo < hi" and "hi \<le> length (v_frames v)"
  shows "vma_ok (slice_of v lo hi)" "in_vma (slice_of v lo hi) a \<longleftrightarrow> v_start v + lo * 4096 \<le> a \<and> a < v_start v + hi * 4096"
    "vma_slice v (v_start v + lo * 4096) lo hi = Some (slice_of v lo hi)"
proof -
  have "v_start v + lo * 4096 + (hi - lo) * 4096 = v_start v + hi * 4096" using assms(2) by (simp add: diff_mult_distrib)
  moreover have "hi * 4096 \<le> v_size v" using assms(1,3) by (simp add: vma_ok_def)
  ultimately show "vma_ok (slice_of v lo hi)"
    using assms by (auto simp: vma_ok_def slice_of_def)
  show "in_vma (slice_of v lo hi) a \<longleftrightarrow> v_start v + lo * 4096 \<le> a \<and> a < v_start v + hi * 4096"
    using assms(2) by (auto simp: in_vma_def slice_of_def diff_mult_distrib)
  show "vma_slice v (v_start v + lo * 4096) lo hi = Some (slice_of v lo hi)"
    using assms by (simp add: vma_slice_def slice_of_def vma_ok_def)
qed

lemma slice_of_info:
  assumes "vma_ok v" and "hi \<le> length (v_frames v)" and "in_vma (slice_of v lo hi) a"
  shows "page_info_of (slice_of v lo hi) a = page_info_of v a"
proof -
  have a: "v_start v + lo * 4096 \<le> a" "a < v_start v + lo * 4096 + (hi - lo) * 4096"
    using assms(3) by (auto simp: in_vma_def slice_of_def)
  then have i: "(a - (v_start v + lo * 4096)) div 4096 < hi - lo"
    by (simp add: less_mult_imp_div_less)
  have "a - v_start v = a - (v_start v + lo * 4096) + lo * 4096" using a(1) by simp
  then have e: "(a - v_start v) div 4096 = lo + (a - (v_start v + lo * 4096)) div 4096" by simp
  show ?thesis
    using assms(1,2) i by (simp add: page_info_of_def Let_def e) (simp add: slice_of_def vma_ok_def)
qed

subsection \<open>Releasing pages\<close>

lemma release_page_ok:
  assumes "vma_ok v" and "phys_inv fa" and "backed_ok mp fa v" and "i < length (v_frames v)"
  shows "\<exists>pt' fa'. release_page mp v i (pt, fa) = Some (pt', fa') \<and> phys_inv fa' \<and> managed_addrs fa' = managed_addrs fa
    \<and> free_addrs fa' = free_addrs fa \<union> {f. v_frames v ! i = Some f}"
proof (cases "v_frames v ! i")
  case None
  then show ?thesis using assms by (simp add: release_page_def)
next
  case (Some f)
  have m: "f \<in> managed_addrs fa" and "virt_addr_new mp (v_start v + i * 4096) \<noteq> None"
    using assms(3,4) Some by (auto simp: backed_ok_def)
  then obtain pg where pg: "virt_addr_new mp (v_start v + i * 4096) = Some pg" by auto
  obtain fa' where fa': "deallocate fa f = Some fa'" "phys_inv fa'" "free_addrs fa' = insert f (free_addrs fa)"
    "managed_addrs fa' = managed_addrs fa"
    using bitmap.dealloc_ok [OF assms(2) m] by blast
  have "v_start v + i * 4096 \<le> U64_MAX"
    using assms(1,4) by (auto simp: vma_ok_def VTOP_def U64_MAX_def)
  then have "mul64 i 4096 = Some (i * 4096)" "add64 (v_start v) (i * 4096) = Some (v_start v + i * 4096)"
    by (simp_all add: mul64_def add64_def)
  then show ?thesis using assms(4) Some pg fa' by (auto simp: release_page_def)
qed

lemma backed_ok_cong: "managed_addrs fa' = managed_addrs fa \<Longrightarrow> backed_ok mp fa' v = backed_ok mp fa v"
  by (simp add: backed_ok_def)

lemma release_loop:
  assumes "vma_ok v" and "phys_inv fa" and "backed_ok mp fa v" and "\<forall>i \<in> set ps. i < length (v_frames v)"
  shows "\<exists>pt' fa'. for_each (release_page mp v) ps (pt, fa) = Some (pt', fa') \<and> phys_inv fa'
    \<and> managed_addrs fa' = managed_addrs fa
    \<and> free_addrs fa' = free_addrs fa \<union> {f. \<exists>i \<in> set ps. v_frames v ! i = Some f}"
  using assms(2-4)
proof (induction ps arbitrary: pt fa)
  case Nil
  then show ?case by simp
next
  case (Cons i ps)
  obtain pt1 fa1 where 1: "release_page mp v i (pt, fa) = Some (pt1, fa1)" "phys_inv fa1"
    "managed_addrs fa1 = managed_addrs fa" "free_addrs fa1 = free_addrs fa \<union> {f. v_frames v ! i = Some f}"
    using release_page_ok [OF assms(1) Cons.prems(1,2), of i pt] Cons.prems(3) by auto
  have bk: "backed_ok mp fa1 v" using Cons.prems(2) by (simp add: backed_ok_cong [OF 1(3)])
  obtain pt2 fa2 where 2: "for_each (release_page mp v) ps (pt1, fa1) = Some (pt2, fa2)" "phys_inv fa2"
    "managed_addrs fa2 = managed_addrs fa1" "free_addrs fa2 = free_addrs fa1 \<union> {f. \<exists>i \<in> set ps. v_frames v ! i = Some f}"
    using Cons.IH [OF 1(2) bk, of pt1] Cons.prems(3) by auto
  show ?case using 1 2 by auto
qed

definition same_rest :: "'pt MmState \<Rightarrow> 'pt MmState \<Rightarrow> bool" where
  "same_rest s s' \<longleftrightarrow> next_addr (ms_vm s') = next_addr (ms_vm s) \<and> ms_mem s' = ms_mem s \<and> ms_cow s' = ms_cow s
     \<and> managed_addrs (ms_fa s') = managed_addrs (ms_fa s)"

lemma same_rest_trans: "same_rest s t \<Longrightarrow> same_rest t u \<Longrightarrow> same_rest s u"
  by (simp add: same_rest_def)

subsection \<open>Inserting areas\<close>

abbreviation areas :: "'pt MmState \<Rightarrow> Vma list" where
  "areas s \<equiv> vma_values (ms_vm s)"

lemma values_keyed [simp]: "map snd (keyed vs) = vs"
  by (simp add: keyed_def comp_def)

lemma insert_vma_ok:
  assumes "vm_inv (ms_vm s)" and "vma_ok p" and "\<forall>w \<in> set (areas s). vma_disjoint p w"
  shows "vm_inv (ms_vm (insert_vma p s))" "set (areas (insert_vma p s)) = insert p (set (areas s))"
proof -
  have k: "vmas (ms_vm s) = keyed (areas s)" "areas_ok (areas s)" using assms(1) by (auto simp: vm_inv_iff)
  have v: "vmas (ms_vm (insert_vma p s)) = keyed (ins_area p (areas s))"
    unfolding insert_vma_def k(1) [symmetric] by (simp add: k(1) bt_insert_keyed [OF k(2) assms(2,3)])
  then have a: "areas (insert_vma p s) = ins_area p (areas s)"
    by (simp add: vma_values_def)
  show "vm_inv (ms_vm (insert_vma p s))" "set (areas (insert_vma p s)) = insert p (set (areas s))"
    using ins_area_ok [OF k(2) assms(2,3)] by (simp_all add: vm_inv_iff v a)
qed

lemma insert_vma_rest:
  "ms_fa (insert_vma p s) = ms_fa s" "same_rest s (insert_vma p s)" "ms_pt (insert_vma p s) = ms_pt s"
  by (simp_all add: insert_vma_def same_rest_def)

subsection \<open>One overlapping area\<close>

definition drop_vma :: "nat \<Rightarrow> 'pt MmState \<Rightarrow> 'pt MmState" where
  "drop_vma k s = s\<lparr>ms_vm := (ms_vm s)\<lparr>vmas := bt_remove k (vmas (ms_vm s))\<rparr>\<rparr>"

lemma cut_vma_eq:
  assumes "vma_ok v" and "map_of (vmas (ms_vm s)) (v_start v) = Some v" and "addr mod 4096 = 0" and "e mod 4096 = 0"
    and "overlapping addr e v" and "addr < e"
  shows "cut_vma mp addr e (v_start v) s =
    map_option (fold insert_vma (pieces addr e v)) (release_pages mp v (cut_lo addr v) (cut_hi e v) (drop_vma (v_start v) s))"
proof -
  let ?n = "length (v_frames v)" and ?ve = "v_start v + v_size v" and ?s = "drop_vma (v_start v) s"
  note b = cut_bounds [OF assms(1,3,4,5,6)]
  have ov: "v_start v < e" "addr < ?ve" using assms(5) by (auto simp: overlapping_def)
  note unf = cut_vma_def assms(2) vma_end_eq [OF assms(1)] Let_def drop_vma_def [symmetric] pieces_def
  note low = slice_of_ok(3) [OF assms(1), of 0 "cut_lo addr v"]
  note high = slice_of_ok(3) [OF assms(1), of "cut_hi e v" ?n]
  consider "addr \<le> v_start v" "?ve \<le> e" | "v_start v < addr" "e < ?ve" | "v_start v < addr" "?ve \<le> e"
    | "addr \<le> v_start v" "e < ?ve" by linarith
  then show ?thesis
  proof cases
    case 1
    then have "cut_lo addr v = 0" "cut_hi e v = ?n" by (simp_all add: cut_lo_def cut_hi_def)
    then show ?thesis using 1 by (simp add: unf option.map_id)
  next
    case 2
    have hi: "(e - v_start v) div 4096 = cut_hi e v" using 2 by (simp add: cut_hi_def)
    have c: "0 < cut_lo addr v" "cut_hi e v < ?n" "min (cut_hi e v) ?n = cut_hi e v"
      using b 2 by auto
    have "vma_slice v e (cut_hi e v) ?n = Some (slice_of v (cut_hi e v) ?n)"
      using high c(2) cut_hi_mult [OF assms(1,4) less_imp_le [OF ov(1)] 2(2)] by simp
    moreover have "vma_slice v (v_start v) 0 (cut_lo addr v) = Some (slice_of v 0 (cut_lo addr v))"
      using low b(1) c(1) by simp
    ultimately show ?thesis
      using 2 c by (cases "release_pages mp v (cut_lo addr v) (cut_hi e v) ?s")
        (simp_all add: unf cut_lo_def [of addr v, symmetric] hi)
  next
    case 3
    have c: "0 < cut_lo addr v" "cut_hi e v = ?n" using b(4) 3 by (auto simp: cut_hi_def)
    have "vma_slice v (v_start v) 0 (cut_lo addr v) = Some (slice_of v 0 (cut_lo addr v))"
      using low b(1) c(1) by simp
    then show ?thesis
      using 3 c by (cases "release_pages mp v (cut_lo addr v) ?n ?s") (simp_all add: unf cut_lo_def [of addr v, symmetric])
  next
    case 4
    have hi: "(e - v_start v) div 4096 = cut_hi e v" using 4 by (simp add: cut_hi_def)
    have c: "cut_lo addr v = 0" "cut_hi e v < ?n" "min (cut_hi e v) ?n = cut_hi e v"
      using b 4 by (auto simp: cut_lo_def)
    have e: "v_start v + cut_hi e v * 4096 = e"
      using cut_hi_mult [OF assms(1,4) less_imp_le [OF ov(1)] 4(2)] .
    have "add64 (v_start v) (cut_hi e v * 4096) = Some e"
      using e 4(2) assms(1) by (auto simp: add64_def vma_ok_def VTOP_def U64_MAX_def)
    moreover have "vma_slice v e (cut_hi e v) ?n = Some (slice_of v (cut_hi e v) ?n)"
      using high c(2) e by simp
    ultimately show ?thesis
      using 4 c by (cases "release_pages mp v 0 (cut_hi e v) ?s") (simp_all add: unf hi)
  qed
qed

lemma drop_vma_ok:
  assumes "vm_inv (ms_vm s)" and "v \<in> set (areas s)"
  shows "vm_inv (ms_vm (drop_vma (v_start v) s))" "set (areas (drop_vma (v_start v) s)) = set (areas s) - {v}"
    "same_rest s (drop_vma (v_start v) s)" "ms_fa (drop_vma (v_start v) s) = ms_fa s"
proof -
  have k: "vmas (ms_vm s) = keyed (areas s)" "areas_ok (areas s)" using assms(1) by (auto simp: vm_inv_iff)
  have v: "vmas (ms_vm (drop_vma (v_start v) s)) = keyed (filter (\<lambda>w. v_start w \<noteq> v_start v) (areas s))"
    by (simp add: drop_vma_def k(1) bt_remove_keyed)
  then have a: "areas (drop_vma (v_start v) s) = filter (\<lambda>w. v_start w \<noteq> v_start v) (areas s)"
    by (simp add: vma_values_def)
  show "vm_inv (ms_vm (drop_vma (v_start v) s))" using areas_ok_filter [OF k(2)] by (simp add: vm_inv_iff v a)
  show "set (areas (drop_vma (v_start v) s)) = set (areas s) - {v}"
    using areas_start_eq [OF k(2) _ assms(2)] by (auto simp: a)
  show "same_rest s (drop_vma (v_start v) s)" "ms_fa (drop_vma (v_start v) s) = ms_fa s"
    by (simp_all add: drop_vma_def same_rest_def)
qed

lemma release_pages_ok:
  assumes "vma_ok v" and "phys_inv (ms_fa s)" and "backed_ok mp (ms_fa s) v" and "hi \<le> length (v_frames v)"
  shows "\<exists>s'. release_pages mp v lo hi s = Some s' \<and> ms_vm s' = ms_vm s \<and> phys_inv (ms_fa s') \<and> same_rest s s'
    \<and> free_addrs (ms_fa s') = free_addrs (ms_fa s) \<union> {f. \<exists>i. lo \<le> i \<and> i < hi \<and> v_frames v ! i = Some f}"
proof -
  obtain pt' fa' where "for_each (release_page mp v) [lo..<hi] (ms_pt s, ms_fa s) = Some (pt', fa')" "phys_inv fa'"
    "managed_addrs fa' = managed_addrs (ms_fa s)"
    "free_addrs fa' = free_addrs (ms_fa s) \<union> {f. \<exists>i \<in> set [lo..<hi]. v_frames v ! i = Some f}"
    using release_loop [OF assms(1-3), of "[lo..<hi]" "ms_pt s"] assms(4) by auto
  then show ?thesis by (auto simp: release_pages_def same_rest_def)
qed

lemma piece_props:
  assumes "vma_ok v" and "addr mod 4096 = 0" and "e mod 4096 = 0" and "overlapping addr e v" and "addr < e"
    and "p \<in> set (pieces addr e v)"
  shows "vma_ok p" "v_start v \<le> v_start p" "v_start p + v_size p \<le> v_start v + v_size v"
    "v_start p + v_size p \<le> addr \<or> e \<le> v_start p"
    "in_vma p a \<Longrightarrow> page_info_of p a = page_info_of v a" "backed_ok mp fa v \<Longrightarrow> backed_ok mp fa p"
proof -
  note b = cut_bounds [OF assms(1-5)]
  have ov: "v_start v < e" using assms(4) by (auto simp: overlapping_def)
  obtain lo hi where p: "p = slice_of v lo hi" "lo < hi" "hi \<le> length (v_frames v)"
    "v_start v + hi * 4096 \<le> addr \<or> e \<le> v_start v + lo * 4096"
    using assms(6) b cut_lo_mult [OF assms(1,2)] cut_hi_mult [OF assms(1,3) less_imp_le [OF ov]]
    by (auto simp: pieces_def split: if_splits)
  note sl = slice_of_ok [OF assms(1) p(2,3)]
  have sz: "v_start p = v_start v + lo * 4096" "v_start p + v_size p = v_start v + hi * 4096"
    using p(1,2) by (simp_all add: slice_of_def diff_mult_distrib)
  have "hi * 4096 \<le> v_size v" using assms(1) p(3) by (simp add: vma_ok_def)
  then show "vma_ok p" "v_start v \<le> v_start p" "v_start p + v_size p \<le> v_start v + v_size v"
    "v_start p + v_size p \<le> addr \<or> e \<le> v_start p"
    using sl(1) p(1,4) sz by (simp_all only: sz add_le_cancel_left)
  show "in_vma p a \<Longrightarrow> page_info_of p a = page_info_of v a" using slice_of_info [OF assms(1) p(3)] p(1) by simp
  show "backed_ok mp fa p" if "backed_ok mp fa v"
    unfolding backed_ok_def
  proof (intro allI impI)
    fix i f assume i: "i < length (v_frames p)" "v_frames p ! i = Some f"
    then have "i < hi - lo" "v_frames v ! (lo + i) = Some f" "lo + i < length (v_frames v)"
      using p by (auto simp: slice_of_def)
    then show "f \<in> managed_addrs fa \<and> virt_addr_new mp (v_start p + i * 4096) \<noteq> None"
      using that sz(1) by (auto simp: backed_ok_def add.assoc distrib_right)
  qed
qed

lemma fold_insert_ok:
  assumes "vm_inv (ms_vm s)" and "\<forall>p \<in> set ps. vma_ok p \<and> (\<forall>w \<in> set (areas s). vma_disjoint p w)"
    and "sorted_wrt (\<lambda>p q. vma_disjoint q p) ps"
  shows "vm_inv (ms_vm (fold insert_vma ps s)) \<and> set (areas (fold insert_vma ps s)) = set (areas s) \<union> set ps
    \<and> same_rest s (fold insert_vma ps s) \<and> ms_fa (fold insert_vma ps s) = ms_fa s"
  using assms
proof (induction ps arbitrary: s)
  case Nil
  then show ?case by (simp add: same_rest_def)
next
  case (Cons p ps)
  have i: "vm_inv (ms_vm (insert_vma p s))" "set (areas (insert_vma p s)) = insert p (set (areas s))"
    using insert_vma_ok [of s p] Cons.prems by auto
  then show ?case
    using Cons.IH [OF i(1)] Cons.prems insert_vma_rest(2) [of s p] by (auto simp: insert_vma_rest(1) intro: same_rest_trans)
qed

lemma pieces_disjoint:
  assumes "vma_ok v" and "addr mod 4096 = 0" and "e mod 4096 = 0" and "overlapping addr e v" and "addr < e"
  shows "sorted_wrt (\<lambda>p q. vma_disjoint q p) (pieces addr e v)"
proof -
  note b = cut_bounds [OF assms]
  have "vma_disjoint (slice_of v (cut_hi e v) n) (slice_of v 0 (cut_lo addr v))" for n
    using b(3) by (auto simp: vma_disjoint_def slice_of_def)
  then show ?thesis by (auto simp: pieces_def)
qed

lemma cut_vma_ok:
  assumes inv: "mm_inv mp s" and v: "v \<in> set (areas s)" and al: "addr mod 4096 = 0" "e mod 4096 = 0"
    and ov: "overlapping addr e v" and "addr < e"
  shows "\<exists>s'. cut_vma mp addr e (v_start v) s = Some s' \<and> mm_inv mp s'
    \<and> set (areas s') = set (areas s) - {v} \<union> set (pieces addr e v) \<and> same_rest s s'
    \<and> free_addrs (ms_fa s') = free_addrs (ms_fa s) \<union> cut_frames addr e v"
proof -
  have vm: "vm_inv (ms_vm s)" "areas_ok (areas s)" and pf: "phys_inv (ms_fa s)" and bk: "backed_ok mp (ms_fa s) v"
    using inv v by (auto simp: mm_inv_def vm_inv_iff)
  have vok: "vma_ok v" using vm(2) v by (auto simp: areas_ok_def)
  have mo: "map_of (vmas (ms_vm s)) (v_start v) = Some v"
    using map_of_keyed [OF vm(2) v] vm(1) by (simp add: vm_inv_iff)
  note d = drop_vma_ok [OF vm(1) v]
  let ?d = "drop_vma (v_start v) s"
  obtain s1 where s1: "release_pages mp v (cut_lo addr v) (cut_hi e v) ?d = Some s1" "ms_vm s1 = ms_vm ?d"
    "phys_inv (ms_fa s1)" "same_rest ?d s1" "free_addrs (ms_fa s1) = free_addrs (ms_fa s) \<union> cut_frames addr e v"
    using release_pages_ok [OF vok, of ?d mp "cut_hi e v" "cut_lo addr v"] pf bk cut_bounds(2) [OF vok al ov assms(6)]
    by (auto simp: d(4) cut_frames_def)
  note pp = piece_props [OF vok al ov assms(6)]
  have dj: "vma_disjoint p w" if "p \<in> set (pieces addr e v)" "w \<in> set (areas s1)" for p w
  proof -
    have "w \<in> set (areas s)" "w \<noteq> v" using that(2) s1(2) d(2) by auto
    then show ?thesis
      using areas_disjoint [OF vm(2) v, of w] pp(2,3) [OF that(1)] by (auto simp: vma_disjoint_def)
  qed
  let ?s' = "fold insert_vma (pieces addr e v) s1"
  have f: "vm_inv (ms_vm ?s')" "set (areas ?s') = set (areas s) - {v} \<union> set (pieces addr e v)"
    "same_rest s1 ?s'" "ms_fa ?s' = ms_fa s1"
    using fold_insert_ok [of s1 "pieces addr e v"] pieces_disjoint [OF vok al ov assms(6)] dj pp(1) d(1,2) s1(2) by auto
  have sr: "same_rest s ?s'" using d(3) s1(4) f(3) same_rest_trans by blast
  then have m: "managed_addrs (ms_fa ?s') = managed_addrs (ms_fa s)" by (simp add: same_rest_def)
  have "backed_ok mp (ms_fa ?s') w" if "w \<in> set (areas ?s')" for w
    using that f(2) pp(6) bk inv by (auto simp: backed_ok_cong [OF m] mm_inv_def)
  then have "mm_inv mp ?s'" using f(1,4) s1(3) by (simp add: mm_inv_def)
  then show ?thesis
    using cut_vma_eq [OF vok mo al ov assms(6), of mp] s1(1,5) f(2,4) sr by simp
qed

subsection \<open>The whole region\<close>

lemma piece_not_overlapping: "v_start p + v_size p \<le> addr \<or> e \<le> v_start p \<Longrightarrow> \<not> overlapping addr e p"
  by (auto simp: overlapping_def)

lemma munmap_loop:
  assumes "mm_inv mp s" and "set ws \<subseteq> set (areas s)" and "distinct ws" and "\<forall>w \<in> set ws. overlapping addr e w"
    and al: "addr mod 4096 = 0" "e mod 4096 = 0" and "addr < e"
  shows "\<exists>s'. for_each (cut_vma mp addr e) (map v_start ws) s = Some s' \<and> mm_inv mp s'
    \<and> set (areas s') = set (areas s) - set ws \<union> (\<Union>w \<in> set ws. set (pieces addr e w)) \<and> same_rest s s'
    \<and> free_addrs (ms_fa s') = free_addrs (ms_fa s) \<union> (\<Union>w \<in> set ws. cut_frames addr e w)"
  using assms(1-4)
proof (induction ws arbitrary: s)
  case Nil
  then show ?case by (simp add: same_rest_def)
next
  case (Cons w ws)
  have w: "w \<in> set (areas s)" "overlapping addr e w" using Cons.prems by auto
  then have wok: "vma_ok w" using Cons.prems(1) by (auto simp: mm_inv_def vm_inv_iff areas_ok_def)
  obtain s1 where s1: "cut_vma mp addr e (v_start w) s = Some s1" "mm_inv mp s1"
    "set (areas s1) = set (areas s) - {w} \<union> set (pieces addr e w)" "same_rest s s1"
    "free_addrs (ms_fa s1) = free_addrs (ms_fa s) \<union> cut_frames addr e w"
    using cut_vma_ok [OF Cons.prems(1) w(1) al w(2) assms(7)] by blast
  have "set ws \<subseteq> set (areas s1)" using Cons.prems(2,3) s1(3) by auto
  then obtain s' where s': "for_each (cut_vma mp addr e) (map v_start ws) s1 = Some s'" "mm_inv mp s'"
    "set (areas s') = set (areas s1) - set ws \<union> (\<Union>w \<in> set ws. set (pieces addr e w))" "same_rest s1 s'"
    "free_addrs (ms_fa s') = free_addrs (ms_fa s1) \<union> (\<Union>w \<in> set ws. cut_frames addr e w)"
    using Cons.IH [OF s1(2)] Cons.prems(3,4) by auto
  have "set (pieces addr e w) \<inter> set ws = {}"
    using piece_not_overlapping [OF piece_props(4) [OF wok al w(2) assms(7)]] Cons.prems(4) by auto
  then have "set (areas s') = set (areas s) - set (w # ws) \<union> (\<Union>w \<in> set (w # ws). set (pieces addr e w))"
    using s'(3) s1(3) by auto
  then show ?case using s1 s' same_rest_trans [OF s1(4) s'(4)] by auto
qed

lemma piece_cover:
  assumes "vma_ok v" and "addr mod 4096 = 0" and "e mod 4096 = 0" and "overlapping addr e v" and "addr < e"
    and "in_vma v a" and "\<not> (addr \<le> a \<and> a < e)"
  shows "\<exists>p \<in> set (pieces addr e v). in_vma p a"
proof -
  note b = cut_bounds [OF assms(1-5)]
  have ov: "v_start v \<le> e" using assms(4) by (auto simp: overlapping_def)
  have a: "v_start v \<le> a" "a < v_start v + v_size v" using assms(6) by (auto simp: in_vma_def)
  show ?thesis
  proof (cases "a < addr")
    case True
    then have "v_start v < addr" using a(1) by simp
    moreover have "in_vma (slice_of v 0 (cut_lo addr v)) a"
      using slice_of_ok(2) [OF assms(1), of 0 "cut_lo addr v"] b(1,4) cut_lo_mult [OF assms(1,2)] calculation True a(1) by simp
    ultimately show ?thesis by (simp add: pieces_def)
  next
    case False
    then have e: "e \<le> a" "e < v_start v + v_size v" using assms(7) a(2) by auto
    then have "in_vma (slice_of v (cut_hi e v) (length (v_frames v))) a"
      using slice_of_ok(2) [OF assms(1), of "cut_hi e v" "length (v_frames v)"] b(5) cut_hi_mult [OF assms(1,3) ov] a(2) assms(1)
      by (simp add: vma_ok_def)
    then show ?thesis using e(2) by (simp add: pieces_def)
  qed
qed

lemma cut_frames_iff:
  assumes "vma_ok v" and al: "addr mod 4096 = 0" "e mod 4096 = 0" and "overlapping addr e v" and "addr < e"
  shows "f \<in> cut_frames addr e v \<longleftrightarrow> (\<exists>a. addr \<le> a \<and> a < e \<and> paged a \<and> in_vma v a
     \<and> fst (snd (snd (page_info_of v a))) = Some f)"
proof
  note b = cut_bounds [OF assms]
  have ov: "v_start v \<le> e" using assms(4) by (auto simp: overlapping_def)
  have v: "v_start v mod 4096 = 0" "v_size v = 4096 * length (v_frames v)" using assms(1) by (auto simp: vma_ok_def)
  have lo: "addr \<le> v_start v + i * 4096 \<longleftrightarrow> cut_lo addr v \<le> i" for i
    using cut_lo_mult [OF assms(1) al(1)] by (cases "v_start v \<le> addr") (auto simp: cut_lo_def)
  have hi: "v_start v + i * 4096 < e \<longleftrightarrow> i < cut_hi e v" if "i < length (v_frames v)" for i
    using cut_hi_mult [OF assms(1) al(2) ov] that v(2) by (cases "e < v_start v + v_size v") (auto simp: cut_hi_def)
  {
    assume "f \<in> cut_frames addr e v"
    then obtain i where i: "cut_lo addr v \<le> i" "i < cut_hi e v" "v_frames v ! i = Some f" by (auto simp: cut_frames_def)
    then have il: "i < length (v_frames v)" using b(2) by simp
    let ?a = "v_start v + i * 4096"
    have "addr \<le> ?a" "?a < e" using i lo hi [OF il] by simp_all
    moreover have "paged ?a" "in_vma v ?a" using v il by (simp_all add: paged_def in_vma_def mod_add_left_eq mod_add_eq [of "v_start v", symmetric])
    moreover have "fst (snd (snd (page_info_of v ?a))) = Some f" using i(3) by (simp add: page_info_of_def)
    ultimately show "\<exists>a. addr \<le> a \<and> a < e \<and> paged a \<and> in_vma v a \<and> fst (snd (snd (page_info_of v a))) = Some f"
      by (intro exI conjI)
  next
    assume "\<exists>a. addr \<le> a \<and> a < e \<and> paged a \<and> in_vma v a \<and> fst (snd (snd (page_info_of v a))) = Some f"
    then obtain a where a: "addr \<le> a" "a < e" "paged a" "in_vma v a" "fst (snd (snd (page_info_of v a))) = Some f"
      by (elim exE conjE)
    define i where "i = (a - v_start v) div 4096"
    have ai: "a = v_start v + i * 4096"
      using page_mult [OF aligned_diff [OF a(3) [unfolded paged_def] v(1)]] a(4) by (simp add: i_def in_vma_def)
    then have "i < length (v_frames v)" using a(4) v(2) by (simp add: in_vma_def)
    then show "f \<in> cut_frames addr e v"
      using a lo [of i] hi [of i] ai by (auto simp: cut_frames_def page_info_of_def Let_def)
  }
qed

text \<open>The frames behind the pages of a range.\<close>

definition range_frames :: "VmaManager \<Rightarrow> nat \<Rightarrow> nat \<Rightarrow> phys_frame set" where
  "range_frames m addr e = {f. \<exists>a pr fl c. addr \<le> a \<and> a < e \<and> paged a \<and> page_at m a = Some (pr, fl, Some f, c)}"

text \<open>The areas that remain when every area overlapping \<open>[addr, e)\<close> is replaced by its pieces.\<close>

definition cut_areas :: "nat \<Rightarrow> nat \<Rightarrow> Vma list \<Rightarrow> Vma list \<Rightarrow> bool" where
  "cut_areas addr e vs vs' \<longleftrightarrow> set vs' = {w \<in> set vs. \<not> overlapping addr e w}
     \<union> (\<Union>w \<in> {w \<in> set vs. overlapping addr e w}. set (pieces addr e w))"

lemma cut_areas_cases:
  assumes "areas_ok vs" and al: "addr mod 4096 = 0" "e mod 4096 = 0" "addr < e" and "cut_areas addr e vs vs'" and "w \<in> set vs'"
  shows "\<not> overlapping addr e w" "\<exists>v \<in> set vs. v_start v \<le> v_start w \<and> v_start w + v_size w \<le> v_start v + v_size v
    \<and> (\<forall>a. in_vma w a \<longrightarrow> page_info_of w a = page_info_of v a)"
proof -
  consider "w \<in> set vs" "\<not> overlapping addr e w" | v where "v \<in> set vs" "overlapping addr e v" "w \<in> set (pieces addr e v)"
    using assms(5,6) by (auto simp: cut_areas_def)
  then have "\<not> overlapping addr e w \<and> (\<exists>v \<in> set vs. v_start v \<le> v_start w \<and> v_start w + v_size w \<le> v_start v + v_size v
    \<and> (\<forall>a. in_vma w a \<longrightarrow> page_info_of w a = page_info_of v a))"
  proof cases
    case (2 v)
    have "vma_ok v" using assms(1) 2(1) by (simp add: areas_ok_def)
    note pp = piece_props [OF this al(1,2) 2(2) al(3) 2(3)]
    show ?thesis using pp(2,3,5) piece_not_overlapping [OF pp(4)] 2(1) by blast
  qed auto
  then show "\<not> overlapping addr e w" "\<exists>v \<in> set vs. v_start v \<le> v_start w \<and> v_start w + v_size w \<le> v_start v + v_size v
    \<and> (\<forall>a. in_vma w a \<longrightarrow> page_info_of w a = page_info_of v a)" by auto
qed

lemma cut_areas_pages:
  assumes ok: "areas_ok (vma_values m)" "areas_ok (vma_values m')"
    and al: "addr mod 4096 = 0" "e mod 4096 = 0" "addr < e" and cut: "cut_areas addr e (vma_values m) (vma_values m')"
  shows "page_at m' a = (if addr \<le> a \<and> a < e then None else page_at m a)"
proof (rule page_at_eqI [OF ok(2)])
  fix w assume w: "w \<in> set (vma_values m')" "in_vma w a"
  note cs = cut_areas_cases [OF ok(1) al cut w(1)]
  have out: "\<not> (addr \<le> a \<and> a < e)" using cs(1) w(2) by (auto simp: overlapping_def in_vma_def)
  obtain v where "v \<in> set (vma_values m)" "in_vma v a" "page_info_of w a = page_info_of v a"
    using cs(2) w(2) by (auto simp: in_vma_def)
  then have "page_at m a = Some (page_info_of w a)" using page_at_Some [OF ok(1)] by metis
  then show "(if addr \<le> a \<and> a < e then None else page_at m a) = Some (page_info_of w a)" using out by simp
next
  fix x assume "(if addr \<le> a \<and> a < e then None else page_at m a) = Some x"
  then have out: "\<not> (addr \<le> a \<and> a < e)" and "page_at m a = Some x" by (auto split: if_splits)
  then obtain v where v: "v \<in> set (vma_values m)" "in_vma v a" using page_at_Some [OF ok(1)] by blast
  then have "vma_ok v" using ok(1) by (simp add: areas_ok_def)
  then show "\<exists>w \<in> set (vma_values m'). in_vma w a"
    using piece_cover [OF _ al(1,2) _ al(3) v(2) out] v cut by (cases "overlapping addr e v") (auto simp: cut_areas_def)
qed

lemma cut_frames_range:
  assumes ok: "areas_ok (vma_values m)" and al: "addr mod 4096 = 0" "e mod 4096 = 0" "addr < e"
  shows "(\<Union>w \<in> {w \<in> set (vma_values m). overlapping addr e w}. cut_frames addr e w) = range_frames m addr e"
proof (rule set_eqI)
  fix f
  have iff: "f \<in> cut_frames addr e w \<longleftrightarrow> (\<exists>a. addr \<le> a \<and> a < e \<and> paged a \<and> in_vma w a
      \<and> fst (snd (snd (page_info_of w a))) = Some f)" if "w \<in> set (vma_values m)" "overlapping addr e w" for w
    using ok that al by (intro cut_frames_iff) (auto simp: areas_ok_def)
  have in_ov: "in_vma w a \<Longrightarrow> addr \<le> a \<Longrightarrow> a < e \<Longrightarrow> overlapping addr e w" for w a
    by (auto simp: in_vma_def overlapping_def)
  have "f \<in> (\<Union>w \<in> {w \<in> set (vma_values m). overlapping addr e w}. cut_frames addr e w) \<longleftrightarrow>
      (\<exists>w \<in> set (vma_values m). \<exists>a. addr \<le> a \<and> a < e \<and> paged a \<and> in_vma w a
        \<and> fst (snd (snd (page_info_of w a))) = Some f)"
    using in_ov by (auto simp: iff)
  also have "\<dots> \<longleftrightarrow> (\<exists>a x. addr \<le> a \<and> a < e \<and> paged a \<and> page_at m a = Some x \<and> fst (snd (snd x)) = Some f)"
    unfolding page_at_Some [OF ok] by blast
  also have "\<dots> \<longleftrightarrow> f \<in> range_frames m addr e"
    by (auto simp: range_frames_def)
  finally show "f \<in> (\<Union>w \<in> {w \<in> set (vma_values m). overlapping addr e w}. cut_frames addr e w) \<longleftrightarrow> f \<in> range_frames m addr e" .
qed

lemma areas_distinct: "areas_ok vs \<Longrightarrow> distinct vs"
proof (induction vs)
  case (Cons v vs)
  then have "v \<notin> set vs" using vma_ok_pos [of v] by (force simp: areas_ok_Cons)
  then show ?case using Cons by (simp add: areas_ok_Cons)
qed simp

lemma align_up_pos: "align_up sz = Some n \<Longrightarrow> 0 < sz \<Longrightarrow> n mod 4096 = 0 \<and> 0 < n \<and> sz \<le> n"
  using align_up_dvd [of sz n] align_up_ge [of sz n] by (auto simp: PAGE_SIZE_def)

definition within :: "Vma \<Rightarrow> Vma \<Rightarrow> bool" where
  "within w v \<longleftrightarrow> v_start v \<le> v_start w \<and> v_start w + v_size w \<le> v_start v + v_size v"

lemma munmap_ok:
  assumes inv: "mm_inv mp s" and addr: "addr mod 4096 = 0" and "0 < sz" and al: "align_up sz = Some n" and top: "addr + n \<le> U64_MAX"
  shows "\<exists>s'. munmap mp addr sz s = Some (Inr (), s') \<and> mm_inv mp s' \<and> same_rest s s'
    \<and> (\<forall>a. page_at (ms_vm s') a = (if addr \<le> a \<and> a < addr + n then None else page_at (ms_vm s) a))
    \<and> free_addrs (ms_fa s') = free_addrs (ms_fa s) \<union> range_frames (ms_vm s) addr (addr + n)
    \<and> (\<forall>w \<in> set (areas s'). \<not> overlapping addr (addr + n) w)
    \<and> (\<forall>w \<in> set (areas s'). \<exists>v \<in> set (areas s). within w v)"
proof -
  let ?e = "addr + n"
  let ?ws = "filter (overlapping addr ?e) (areas s)"
  have vm: "vmas (ms_vm s) = keyed (areas s)" "areas_ok (areas s)" using inv by (auto simp: mm_inv_def vm_inv_iff)
  have e: "?e mod 4096 = 0" "addr < ?e" using align_up_pos [OF al assms(3)] addr by (auto simp: mod_add_eq [symmetric])
  have fm: "filter_m (\<lambda>kv. vma_overlaps addr n (snd kv)) (keyed (areas s)) = Some (filter (\<lambda>kv. overlapping addr ?e (snd kv)) (keyed (areas s)))"
    using vma_overlaps_eq [OF _ top] vm(2) by (intro filter_m_eq) (auto simp: keyed_def areas_ok_def)
  have mf: "map fst (filter (\<lambda>kv. overlapping addr ?e (snd kv)) (keyed (areas s))) = map v_start ?ws"
    by (simp add: keyed_def filter_map comp_def)
  have ws: "set ?ws \<subseteq> set (areas s)" "distinct ?ws" "\<forall>w \<in> set ?ws. overlapping addr ?e w"
    using areas_distinct [OF vm(2)] by auto
  obtain s' where s': "for_each (cut_vma mp addr ?e) (map v_start ?ws) s = Some s'" "mm_inv mp s'" "same_rest s s'"
    "set (areas s') = set (areas s) - set ?ws \<union> (\<Union>w \<in> set ?ws. set (pieces addr ?e w))"
    "free_addrs (ms_fa s') = free_addrs (ms_fa s) \<union> (\<Union>w \<in> set ?ws. cut_frames addr ?e w)"
    using munmap_loop [OF inv ws addr e] by (elim exE conjE) (rule that; assumption)
  have run: "munmap mp addr sz s = Some (Inr (), s')"
    unfolding munmap_def vm(1) using assms(2,3) al top s'(1) mf fm by (simp add: add64_def)
  have ok': "areas_ok (areas s')" using s'(2) by (simp add: mm_inv_def vm_inv_iff)
  have cut: "cut_areas addr ?e (areas s) (areas s')" using s'(4) by (auto simp: cut_areas_def)
  have cut_within: "\<exists>v \<in> set (areas s). within w v" if "w \<in> set (areas s')" for w
    using cut_areas_cases(2) [OF vm(2) addr e cut that] by (auto simp: within_def)
  show ?thesis
    using run s'(2,3,5) cut_areas_pages [OF vm(2) ok' addr e cut] cut_frames_range [OF vm(2) addr e]
      cut_areas_cases(1) [OF vm(2) addr e cut] cut_within by auto
qed

subsection \<open>The search for a free region\<close>

definition free_at :: "Vma list \<Rightarrow> nat \<Rightarrow> nat \<Rightarrow> bool" where
  "free_at vs sz a \<longleftrightarrow> (\<forall>v \<in> set vs. \<not> overlapping a (a + sz) v)"

text \<open>No area lies across \<open>addr\<close>.\<close>

definition unstraddled :: "Vma list \<Rightarrow> nat \<Rightarrow> bool" where
  "unstraddled vs addr \<longleftrightarrow> (\<forall>v \<in> set vs. v_start v < addr \<longrightarrow> v_start v + v_size v \<le> addr)"

definition below :: "nat \<Rightarrow> Vma list \<Rightarrow> bool" where
  "below lim vs \<longleftrightarrow> (\<forall>v \<in> set vs. v_start v + v_size v \<le> lim)"

lemma any_overlap_eq:
  "areas_ok vs \<Longrightarrow> a + sz \<le> U64_MAX \<Longrightarrow> any_m (vma_overlaps a sz) vs = Some (\<not> free_at vs sz a)"
  using any_m_eq [of vs "vma_overlaps a sz" "overlapping a (a + sz)"] vma_overlaps_eq
  by (auto simp: areas_ok_def free_at_def)

lemma vma_end_aligned: "vma_ok v \<Longrightarrow> align_up (v_start v + v_size v) = Some (v_start v + v_size v)"
proof -
  assume v: "vma_ok v"
  let ?e = "v_start v + v_size v"
  have "?e mod 4096 = 0" "?e \<le> VTOP" using v by (auto simp: vma_ok_def mod_add_eq [symmetric])
  moreover have "(?e + 4095) mod 4096 = (?e mod 4096 + 4095 mod 4096) mod 4096" by (rule mod_add_eq [symmetric])
  ultimately show ?thesis
    by (simp add: align_up_def add64_def align_down_def PAGE_SIZE_def VTOP_def U64_MAX_def)
qed

lemma skip_vma_first:
  assumes "\<forall>v \<in> set vs. vma_ok v" and "\<exists>v \<in> set vs. addr \<le> v_start v \<and> v_start v < addr + sz" and "addr + sz \<le> U64_MAX"
  shows "\<exists>w \<in> set vs. addr \<le> v_start w \<and> v_start w < addr + sz \<and> skip_vma vs sz addr = Some (v_start w + v_size w)"
  using assms
proof (induction vs)
  case (Cons v vs)
  then show ?case
    by (cases "addr \<le> v_start v \<and> v_start v < addr + sz")
      (auto simp: add64_def vma_end_eq vma_end_aligned)
qed simp

lemma skip_vma_none:
  "\<forall>v \<in> set vs. \<not> (addr \<le> v_start v \<and> v_start v < addr + sz) \<Longrightarrow> addr + sz \<le> U64_MAX \<Longrightarrow> skip_vma vs sz addr = Some addr"
  by (induction vs) (auto simp: add64_def)

definition first_free :: "Vma list \<Rightarrow> nat \<Rightarrow> nat \<Rightarrow> nat option \<Rightarrow> bool" where
  "first_free vs sz addr r \<longleftrightarrow> (case r of
     Some a \<Rightarrow> addr \<le> a \<and> a mod 4096 = 0 \<and> a + sz \<le> MMAP_LIMIT \<and> free_at vs sz a \<and> (\<forall>b. addr \<le> b \<and> b < a \<longrightarrow> \<not> free_at vs sz b)
   | None \<Rightarrow> (\<forall>b. addr \<le> b \<and> b + sz \<le> MMAP_LIMIT \<longrightarrow> \<not> free_at vs sz b))"

lemma first_free_skip:
  assumes "first_free vs sz addr' r" and "\<forall>b. addr \<le> b \<and> b < addr' \<longrightarrow> \<not> free_at vs sz b" and "addr \<le> addr'"
  shows "first_free vs sz addr r"
  using assms unfolding first_free_def by (cases r) (auto simp: not_less, (meson le_cases not_less order_trans)+)

lemma find_free_loop_total:
  assumes ok: "areas_ok vs" and sz: "sz \<le> 2 ^ 62" and bel: "below (2 ^ 62) vs"
    and "unstraddled vs addr" and "addr mod 4096 = 0" and "addr \<le> 2 ^ 62"
  shows "\<exists>r. find_free_loop vs sz addr = Some r \<and> first_free vs sz addr r"
  using assms(4-6)
proof (induction "MMAP_LIMIT - addr" arbitrary: addr rule: less_induct)
  case less
  have fits: "addr + sz \<le> U64_MAX" using less.prems(3) sz by (simp add: U64_MAX_def)
  note unf = find_free_loop.simps [of vs sz addr]
  have ends: "add64 addr sz = Some (addr + sz)" "any_m (vma_overlaps addr sz) vs = Some (\<not> free_at vs sz addr)"
    using fits any_overlap_eq [OF ok fits] by (simp_all add: add64_def)
  consider "MMAP_LIMIT < addr + sz" | "addr + sz \<le> MMAP_LIMIT" "free_at vs sz addr" | "addr + sz \<le> MMAP_LIMIT" "\<not> free_at vs sz addr"
    by linarith
  then show ?case
  proof cases
    case 1
    then have "first_free vs sz addr None" by (auto simp: first_free_def)
    then show ?thesis using 1 ends by (simp add: unf)
  next
    case 2
    then have "first_free vs sz addr (Some addr)" using less.prems(2) by (auto simp: first_free_def)
    then show ?thesis using 2 ends by (simp add: unf)
  next
    case 3
    then obtain v where v: "v \<in> set vs" "overlapping addr (addr + sz) v" by (auto simp: free_at_def)
    then have "addr \<le> v_start v" "v_start v < addr + sz"
      using less.prems(1) by (force simp: unstraddled_def overlapping_def)+
    then obtain w where w: "w \<in> set vs" "addr \<le> v_start w" "v_start w < addr + sz" "skip_vma vs sz addr = Some (v_start w + v_size w)"
      using skip_vma_first [OF _ _ fits, of vs] ok v(1) by (auto simp: areas_ok_def)
    let ?a = "v_start w + v_size w"
    have wok: "vma_ok w" using ok w(1) by (simp add: areas_ok_def)
    then have gt: "addr < ?a" "?a mod 4096 = 0" using w(2) vma_ok_pos [OF wok] by (auto simp: vma_ok_def mod_add_eq [symmetric])
    have un: "unstraddled vs ?a"
      using areas_disjoint [OF ok w(1)] by (fastforce simp: unstraddled_def vma_disjoint_def)
    have dec: "MMAP_LIMIT - ?a < MMAP_LIMIT - addr"
      using gt(1) 3(1) w(2,3) by (intro diff_less_mono2) auto
    have "?a \<le> 2 ^ 62" using bel w(1) by (simp add: below_def)
    then obtain r where r: "find_free_loop vs sz ?a = Some r" "first_free vs sz ?a r"
      using less.hyps [OF dec un gt(2)] by blast
    have "\<forall>b. addr \<le> b \<and> b < ?a \<longrightarrow> \<not> free_at vs sz b"
      using w(1-3) by (force simp: free_at_def overlapping_def)
    from first_free_skip [OF r(2) this less_imp_le [OF gt(1)]] show ?thesis
      using 3 ends w(4) r(1) by (simp add: unf)
  qed
qed

text \<open>The loop makes no progress when an area lies across the candidate address and none starts behind it.\<close>

lemma find_free_loop_stuck:
  assumes ok: "areas_ok vs" and "addr + sz \<le> MMAP_LIMIT" and v: "v \<in> set vs" "v_start v < addr" "addr < v_start v + v_size v"
    and no: "\<forall>v \<in> set vs. \<not> (addr \<le> v_start v \<and> v_start v < addr + sz)" and "0 < sz"
  shows "find_free_loop vs sz addr = None"
proof -
  have fits: "addr + sz \<le> U64_MAX" using assms(2) by (simp add: MMAP_LIMIT_def U64_MAX_def)
  have "overlapping addr (addr + sz) v" using v(2,3) by (simp add: overlapping_def)
  then have nf: "\<not> free_at vs sz addr" using v(1) by (auto simp: free_at_def)
  have "\<not> (vs' = vs \<and> sz' = sz \<and> addr' = addr)" if "find_free_loop vs' sz' addr' = Some y" for vs' sz' addr' y
  proof (rule find_free_loop.raw_induct [where P = "\<lambda>vs' sz' addr' y. \<not> (vs' = vs \<and> sz' = sz \<and> addr' = addr)", OF _ that])
    fix f vs' sz' addr' y
    assume IH: "\<And>vs' sz' addr' y. f vs' sz' addr' = Some y \<Longrightarrow> \<not> (vs' = vs \<and> sz' = sz \<and> addr' = addr)"
      and "Option.bind (add64 addr' sz') (\<lambda>e. if e \<le> MMAP_LIMIT then
         Option.bind (any_m (vma_overlaps addr' sz') vs') (\<lambda>overlaps. if \<not> overlaps then Some (Some addr')
           else Option.bind (skip_vma vs' sz' addr') (\<lambda>a. f vs' sz' a)) else Some None) = Some y"
    then show "\<not> (vs' = vs \<and> sz' = sz \<and> addr' = addr)"
      using any_overlap_eq [OF ok fits] nf skip_vma_none [OF no fits] fits assms(2) IH [of vs sz addr y]
      by (auto simp: add64_def)
  qed
  then show ?thesis by (metis not_None_eq)
qed

end
