(* ===== verification/Address_Space.thy ===== *)
theory Address_Space
  imports Vma
begin

text \<open>
  The address space as the system calls and the fault handler see it: theorems on \<open>mmap\<close>, \<open>munmap\<close>,
  \<open>mprotect\<close> and \<open>handle_page_fault\<close> of \<open>Vma\<close>, stated over the abstract map \<open>page_at\<close> from addresses to what is
  recorded of their pages, and over the sets of free and managed frames of the allocator.
\<close>

subsection \<open>Free ranges\<close>

lemma page_unmapped_iff:
  "areas_ok (vma_values m) \<Longrightarrow> page_at m x = None \<longleftrightarrow> (\<forall>v \<in> set (vma_values m). \<not> in_vma v x)"
  using page_at_Some [of m x] by (metis not_None_eq)

lemma free_at_page_at:
  assumes "areas_ok (vma_values m)" and "0 < n"
  shows "free_at (vma_values m) n a \<longleftrightarrow> (\<forall>x. a \<le> x \<and> x < a + n \<longrightarrow> page_at m x = None)"
proof -
  have "(\<exists>v \<in> set (vma_values m). overlapping a (a + n) v) \<longleftrightarrow>
      (\<exists>x. a \<le> x \<and> x < a + n \<and> (\<exists>v \<in> set (vma_values m). in_vma v x))"
  proof
    assume "\<exists>v \<in> set (vma_values m). overlapping a (a + n) v"
    then obtain v where v: "v \<in> set (vma_values m)" "v_start v < a + n" "a < v_start v + v_size v"
      by (auto simp: overlapping_def not_le)
    moreover have "0 < v_size v" using assms(1) v(1) vma_ok_pos [of v] by (auto simp: areas_ok_def)
    ultimately have "a \<le> max a (v_start v) \<and> max a (v_start v) < a + n \<and> in_vma v (max a (v_start v))"
      using assms(2) by (auto simp: in_vma_def)
    then show "\<exists>x. a \<le> x \<and> x < a + n \<and> (\<exists>v \<in> set (vma_values m). in_vma v x)" using v(1) by blast
  next
    assume "\<exists>x. a \<le> x \<and> x < a + n \<and> (\<exists>v \<in> set (vma_values m). in_vma v x)"
    then obtain x v where "a \<le> x" "x < a + n" and v: "v \<in> set (vma_values m)" "in_vma v x" by blast
    then have "overlapping a (a + n) v" by (auto simp: overlapping_def in_vma_def)
    then show "\<exists>v \<in> set (vma_values m). overlapping a (a + n) v" using v(1) by blast
  qed
  then show ?thesis unfolding page_unmapped_iff [OF assms(1)] free_at_def by blast
qed

text \<open>A new area without frames.\<close>

definition fresh_vma :: "nat \<Rightarrow> nat \<Rightarrow> Protection \<Rightarrow> MapFlags \<Rightarrow> Vma" where
  "fresh_vma a n prot flags = \<lparr>v_start = a, v_size = n, v_prot = prot, v_flags = flags,
     v_frames = replicate (n div 4096) None, v_cow = replicate (n div 4096) False\<rparr>"

lemma fresh_vma_sel [simp]:
  "v_start (fresh_vma a n prot flags) = a" "v_size (fresh_vma a n prot flags) = n"
  "v_frames (fresh_vma a n prot flags) = replicate (n div 4096) None"
  by (simp_all add: fresh_vma_def)

lemma fresh_vma_ok:
  assumes "a mod 4096 = 0" and "n mod 4096 = 0" and "0 < n" and "a + n \<le> VTOP"
  shows "vma_ok (fresh_vma a n prot flags)"
proof -
  have "n = n div 4096 * 4096" using page_mult [OF assms(2)] by simp
  then have "0 < n div 4096" using assms(3) by (metis gr0I mult_0 neq0_conv)
  then show ?thesis using assms page_mult [OF assms(2)] by (simp add: vma_ok_def fresh_vma_def)
qed

lemma fresh_vma_info:
  assumes "in_vma (fresh_vma a n prot flags) x" and "n mod 4096 = 0"
  shows "page_info_of (fresh_vma a n prot flags) x = (prot, flags, None, False)"
proof -
  have "x - a < n div 4096 * 4096" using assms by (simp add: in_vma_def page_mult less_diff_conv2)
  then have "(x - a) div 4096 < n div 4096" by (rule less_mult_imp_div_less)
  then show ?thesis by (simp add: page_info_of_def Let_def fresh_vma_def)
qed

lemma backed_ok_fresh [simp]: "backed_ok mp fa (fresh_vma a n prot flags)"
  by (simp add: backed_ok_def)

lemma aligned_up_id: "e mod 4096 = 0 \<Longrightarrow> e \<le> VTOP \<Longrightarrow> align_up e = Some e"
proof -
  assume "e mod 4096 = 0" "e \<le> VTOP"
  moreover have "(e + 4095) mod 4096 = (e mod 4096 + 4095 mod 4096) mod 4096" by (rule mod_add_eq [symmetric])
  ultimately show ?thesis
    by (simp add: align_up_def add64_def align_down_def PAGE_SIZE_def VTOP_def U64_MAX_def)
qed

text \<open>The state after the area is entered: the cursor of the search moves behind an area at or beyond it.\<close>

definition enter_area :: "Vma \<Rightarrow> 'pt MmState \<Rightarrow> 'pt MmState" where
  "enter_area v s = (let s' = insert_vma v s in
     if v_start v \<ge> next_addr (ms_vm s) then s'\<lparr>ms_vm := (ms_vm s')\<lparr>next_addr := v_start v + v_size v\<rparr>\<rparr> else s')"

lemma mmap_at_eq:
  assumes "a mod 4096 = 0" and "n mod 4096 = 0" and "a + n \<le> VTOP"
  shows "mmap_at a n prot flags s = Some (Inr a, enter_area (fresh_vma a n prot flags) s)"
proof -
  have "add64 a n = Some (a + n)" using assms(3) by (simp add: add64_def VTOP_def U64_MAX_def)
  moreover have "align_up (a + n) = Some (a + n)"
    using assms by (intro aligned_up_id) (auto simp: mod_add_eq [symmetric])
  ultimately show ?thesis
    by (simp add: mmap_at_def enter_area_def Let_def fresh_vma_def [symmetric] insert_vma_def)
qed

lemma enter_area_sel:
  "areas (enter_area v s) = areas (insert_vma v s)" "ms_fa (enter_area v s) = ms_fa s"
  "ms_mem (enter_area v s) = ms_mem s" "ms_cow (enter_area v s) = ms_cow s" "ms_pt (enter_area v s) = ms_pt s"
  "vm_inv (ms_vm (enter_area v s)) = vm_inv (ms_vm (insert_vma v s))"
  "next_addr (ms_vm (enter_area v s)) = (if v_start v \<ge> next_addr (ms_vm s) then v_start v + v_size v else next_addr (ms_vm s))"
  by (auto simp: enter_area_def Let_def vma_values_def vm_inv_def insert_vma_def)

lemma not_overlapping_disjoint: "\<not> overlapping a (a + n) w \<Longrightarrow> v_start v = a \<Longrightarrow> v_size v = n \<Longrightarrow> vma_disjoint v w"
  by (auto simp: overlapping_def vma_disjoint_def)

lemma enter_fresh_ok:
  assumes inv: "mm_inv mp s" and v: "vma_ok (fresh_vma a n prot flags)" and n: "n mod 4096 = 0" and free: "free_at (areas s) n a"
  defines "s' \<equiv> enter_area (fresh_vma a n prot flags) s"
  shows "mm_inv mp s'" "set (areas s') = insert (fresh_vma a n prot flags) (set (areas s))"
    "page_at (ms_vm s') x = (if a \<le> x \<and> x < a + n then Some (prot, flags, None, False) else page_at (ms_vm s) x)"
proof -
  let ?v = "fresh_vma a n prot flags"
  have ok: "vm_inv (ms_vm s)" "areas_ok (areas s)" using inv by (auto simp: mm_inv_def vm_inv_iff)
  have dj: "\<forall>w \<in> set (areas s). vma_disjoint ?v w"
    using free by (auto simp: free_at_def intro: not_overlapping_disjoint)
  note ins = insert_vma_ok [OF ok(1) v dj]
  show set': "set (areas s') = insert ?v (set (areas s))" unfolding s'_def enter_area_sel by (rule ins(2))
  show inv': "mm_inv mp s'"
    using inv set' ins(1) unfolding mm_inv_def s'_def by (auto simp: enter_area_sel(2,6))
  have ok': "areas_ok (areas s')" using inv' by (simp add: mm_inv_def vm_inv_iff)
  have iv: "in_vma ?v x \<longleftrightarrow> a \<le> x \<and> x < a + n" by (simp add: in_vma_def)
  show "page_at (ms_vm s') x = (if a \<le> x \<and> x < a + n then Some (prot, flags, None, False) else page_at (ms_vm s) x)"
  proof (rule page_at_eqI [OF ok'])
    fix w assume w: "w \<in> set (areas s')" "in_vma w x"
    show "(if a \<le> x \<and> x < a + n then Some (prot, flags, None, False) else page_at (ms_vm s) x) = Some (page_info_of w x)"
    proof (cases "w = ?v")
      case True
      then show ?thesis using w(2) fresh_vma_info [OF _ n] iv by simp
    next
      case False
      then have "w \<in> set (areas s)" using w(1) set' by simp
      moreover from this have "\<not> (a \<le> x \<and> x < a + n)" using free w(2) by (auto simp: free_at_def overlapping_def in_vma_def)
      moreover have "page_at (ms_vm s) x = Some (page_info_of w x)" using page_at_Some [OF ok(2)] calculation(1) w(2) by blast
      ultimately show ?thesis by auto
    qed
  next
    fix y assume "(if a \<le> x \<and> x < a + n then Some (prot, flags, None, False) else page_at (ms_vm s) x) = Some y"
    then have "(a \<le> x \<and> x < a + n) \<or> page_at (ms_vm s) x = Some y" by metis
    then show "\<exists>w \<in> set (areas s'). in_vma w x"
      using page_at_Some [OF ok(2), of x] iv set' by blast
  qed
qed

subsection \<open>Settled address spaces\<close>

text \<open>The cursor of the search is on a page boundary and no area lies across it; every address is far below
  the end of the 64-bit range.\<close>

definition settled :: "'pt Mapper \<Rightarrow> 'pt MmState \<Rightarrow> bool" where
  "settled mp s \<longleftrightarrow> mm_inv mp s \<and> paged (next_addr (ms_vm s)) \<and> next_addr (ms_vm s) \<le> 2 ^ 62
     \<and> unstraddled (areas s) (next_addr (ms_vm s)) \<and> below (2 ^ 62) (areas s)"

lemma MMAP_LIMIT_bounds: "MMAP_LIMIT \<le> 2 ^ 62" "(2 :: nat) ^ 62 \<le> VTOP" "VTOP \<le> U64_MAX"
  by (simp_all add: MMAP_LIMIT_def VTOP_def U64_MAX_def)

lemma within_settled:
  assumes "\<forall>w \<in> set ws. \<exists>v \<in> set vs. within w v"
  shows "unstraddled vs a \<Longrightarrow> unstraddled ws a" "below l vs \<Longrightarrow> below l ws"
proof -
  show "unstraddled ws a" if u: "unstraddled vs a"
    unfolding unstraddled_def
  proof (intro ballI impI)
    fix w assume w: "w \<in> set ws" "v_start w < a"
    then obtain v where v: "v \<in> set vs" "within w v" using assms by blast
    then have "v_start v + v_size v \<le> a" using u w(2) by (auto simp: unstraddled_def within_def)
    then show "v_start w + v_size w \<le> a" using v(2) by (simp add: within_def)
  qed
  show "below l ws" if "below l vs"
    using assms that by (fastforce simp: below_def within_def)
qed

lemma munmap_settled:
  assumes "settled mp s" and "addr mod 4096 = 0" and "0 < sz" and "align_up sz = Some n" and "addr + n \<le> U64_MAX"
    and "munmap mp addr sz s = Some (r, s')"
  shows "settled mp s'"
proof -
  have "mm_inv mp s" using assms(1) by (simp add: settled_def)
  from munmap_ok [OF this assms(2-5)] assms(6) have s': "mm_inv mp s'" "same_rest s s'" "\<forall>w \<in> set (areas s'). \<exists>v \<in> set (areas s). within w v"
    by auto
  show ?thesis using assms(1) s'(1,2) within_settled [OF s'(3)] by (simp add: settled_def same_rest_def)
qed

text \<open>An area that starts at or behind the cursor, or ends at or before it, keeps the address space settled.\<close>

lemma enter_settled:
  assumes st: "settled mp s" and v: "vma_ok (fresh_vma a n prot flags)" and n: "n mod 4096 = 0" and free: "free_at (areas s) n a"
    and hi: "a + n \<le> 2 ^ 62" and side: "next_addr (ms_vm s) \<le> a \<or> a + n \<le> next_addr (ms_vm s)"
  shows "settled mp (enter_area (fresh_vma a n prot flags) s)"
proof -
  let ?v = "fresh_vma a n prot flags"
  let ?s = "enter_area ?v s"
  have inv: "mm_inv mp s" using st by (simp add: settled_def)
  note e = enter_fresh_ok [OF inv v n free]
  have pos: "0 < n" using vma_ok_pos [OF v] by simp
  have al: "paged a" "paged (a + n)" using v n by (auto simp: vma_ok_def paged_def mod_add_eq [symmetric])
  have un: "unstraddled (areas ?s) (next_addr (ms_vm ?s))"
    using st side pos free unfolding e(2) unstraddled_def enter_area_sel(7) settled_def free_at_def overlapping_def
    by auto
  have "below (2 ^ 62) (areas ?s)" using st hi by (simp add: e(2) below_def settled_def)
  then show ?thesis
    using st e(1) al hi un unfolding settled_def enter_area_sel(7) by auto
qed

subsection \<open>The search and the choice of an address\<close>

lemma align_up_twice: "align_up sz = Some n \<Longrightarrow> 0 < sz \<Longrightarrow> n \<le> 2 ^ 62 \<Longrightarrow> align_up n = Some n"
  using align_up_pos [of sz n] MMAP_LIMIT_bounds(2) by (intro aligned_up_id) auto

lemma search_total:
  assumes "settled mp s" and "n mod 4096 = 0" and "n \<le> 2 ^ 62"
  shows "\<exists>r. find_free_region n (ms_vm s) = Some r \<and> first_free (areas s) n (next_addr (ms_vm s)) r"
proof -
  have "align_up n = Some n" using assms(2,3) MMAP_LIMIT_bounds(2) by (intro aligned_up_id) auto
  then show ?thesis
    using assms find_free_loop_total [of "areas s" n "next_addr (ms_vm s)"]
    by (auto simp: find_free_region_def settled_def mm_inv_def vm_inv_iff paged_def)
qed

text \<open>Whatever the state of the cursor, an address that the search returns is free.\<close>

lemma skip_vma_aligned:
  "\<forall>v \<in> set vs. vma_ok v \<Longrightarrow> a mod 4096 = 0 \<Longrightarrow> skip_vma vs sz a = Some a' \<Longrightarrow> a' mod 4096 = 0"
proof (induction vs)
  case (Cons v vs)
  show ?case
  proof (cases "v_start v \<ge> a \<and> v_start v < a + sz")
    case True
    have v: "vma_ok v" using Cons.prems(1) by simp
    then have "align_up (v_start v + v_size v) = Some (v_start v + v_size v)" by (rule vma_end_aligned)
    then show ?thesis
      using True Cons.prems(3) v align_up_dvd [of "v_start v + v_size v"]
      by (auto simp: vma_end_eq add64_def PAGE_SIZE_def split: if_splits)
  next
    case False
    then show ?thesis using Cons by (auto simp: add64_def split: if_splits)
  qed
qed simp

lemma find_free_loop_sound:
  assumes "find_free_loop vs sz addr = Some r" and "areas_ok vs" and "addr mod 4096 = 0"
  shows "\<forall>a. r = Some a \<longrightarrow> a mod 4096 = 0 \<and> a + sz \<le> MMAP_LIMIT \<and> free_at vs sz a"
proof -
  have "areas_ok vs \<longrightarrow> addr mod 4096 = 0 \<longrightarrow>
    (\<forall>a. r = Some a \<longrightarrow> a mod 4096 = 0 \<and> a + sz \<le> MMAP_LIMIT \<and> free_at vs sz a)"
  proof (rule find_free_loop.raw_induct [where P = "\<lambda>vs sz addr r. areas_ok vs \<longrightarrow> addr mod 4096 = 0 \<longrightarrow>
      (\<forall>a. r = Some a \<longrightarrow> a mod 4096 = 0 \<and> a + sz \<le> MMAP_LIMIT \<and> free_at vs sz a)", OF _ assms(1)], intro impI)
    fix f vs sz addr r
    assume IH: "\<And>vs sz addr r. f vs sz addr = Some r \<Longrightarrow> areas_ok vs \<longrightarrow> addr mod 4096 = 0 \<longrightarrow>
        (\<forall>a. r = Some a \<longrightarrow> a mod 4096 = 0 \<and> a + sz \<le> MMAP_LIMIT \<and> free_at vs sz a)"
      and run: "Option.bind (add64 addr sz) (\<lambda>e. if e \<le> MMAP_LIMIT then
         Option.bind (any_m (vma_overlaps addr sz) vs) (\<lambda>overlaps. if \<not> overlaps then Some (Some addr)
           else Option.bind (skip_vma vs sz addr) (\<lambda>a. f vs sz a)) else Some None) = Some r"
      and ok: "areas_ok vs" and al: "addr mod 4096 = 0"
    have fits: "addr + sz \<le> U64_MAX" using run by (cases "addr + sz \<le> U64_MAX") (simp_all add: add64_def)
    consider "r = None" | "r = Some addr" "addr + sz \<le> MMAP_LIMIT" "free_at vs sz addr"
      | a' where "skip_vma vs sz addr = Some a'" "f vs sz a' = Some r"
      using run any_overlap_eq [OF ok fits] fits by (auto simp: add64_def bind_eq_Some_conv split: if_splits)
    then show "\<forall>a. r = Some a \<longrightarrow> a mod 4096 = 0 \<and> a + sz \<le> MMAP_LIMIT \<and> free_at vs sz a"
    proof cases
      case (3 a')
      have "\<forall>v \<in> set vs. vma_ok v" using ok by (simp add: areas_ok_def)
      then have "a' mod 4096 = 0" using al 3(1) by (rule skip_vma_aligned)
      then show ?thesis using IH [OF 3(2)] ok by simp
    qed (use al in auto)
  qed
  then show ?thesis using assms(2,3) by blast
qed

lemma choose_addr_sound:
  assumes inv: "mm_inv mp s" and n: "n mod 4096 = 0" "0 < n" and cur: "paged (next_addr (ms_vm s))" and hi: "hint + n \<le> 2 ^ 62"
    and run: "choose_addr hint n (ms_vm s) = Some (Inr a)"
  shows "a mod 4096 = 0 \<and> a + n \<le> 2 ^ 62 \<and> free_at (areas s) n a"
proof -
  have ok: "areas_ok (areas s)" using inv by (simp add: mm_inv_def vm_inv_iff)
  have fits: "hint + n \<le> U64_MAX" using hi MMAP_LIMIT_bounds by linarith
  have al: "align_up n = Some n" using n(1) hi MMAP_LIMIT_bounds by (intro aligned_up_id) auto
  consider "a = hint" "hint mod 4096 = 0" "free_at (areas s) n hint" | "find_free_region n (ms_vm s) = Some (Some a)"
    using run any_overlap_eq [OF ok fits]
    by (auto simp: choose_addr_def Let_def split: if_splits option.splits)
  then show ?thesis
  proof cases
    case 2
    then have run: "find_free_loop (areas s) n (next_addr (ms_vm s)) = Some (Some a)"
      using al by (simp add: find_free_region_def)
    have "next_addr (ms_vm s) mod 4096 = 0" using cur by (simp add: paged_def)
    from find_free_loop_sound [OF run ok this] have "a mod 4096 = 0 \<and> a + n \<le> MMAP_LIMIT \<and> free_at (areas s) n a"
      by simp
    then show ?thesis using MMAP_LIMIT_bounds(1) le_trans by blast
  qed (use hi in auto)
qed

lemma mmap_unfixed:
  "0 < sz \<Longrightarrow> align_up sz = Some n \<Longrightarrow> \<not> mf_fixed flags \<Longrightarrow>
   mmap mp hint sz prot flags s = Option.bind (choose_addr hint n (ms_vm s)) (\<lambda>r.
     case r of Inl er \<Rightarrow> Some (Inl er, s) | Inr addr \<Rightarrow> mmap_at addr n prot flags s)"
  by (simp add: mmap_def)

lemma mmap_fixed_ok:
  assumes inv: "mm_inv mp s" and "0 < sz" and al: "align_up sz = Some n" and "mf_fixed flags" and a: "a \<noteq> 0" "a mod 4096 = 0"
    and top: "a + n \<le> VTOP"
  shows "\<exists>s'. mmap mp a sz prot flags s = Some (Inr a, s') \<and> mm_inv mp s'
    \<and> (\<forall>x. page_at (ms_vm s') x = (if a \<le> x \<and> x < a + n then Some (prot, flags, None, False) else page_at (ms_vm s) x))
    \<and> free_addrs (ms_fa s') = free_addrs (ms_fa s) \<union> range_frames (ms_vm s) a (a + n)
    \<and> ms_mem s' = ms_mem s \<and> ms_cow s' = ms_cow s \<and> managed_addrs (ms_fa s') = managed_addrs (ms_fa s)"
proof -
  have n: "n mod 4096 = 0" "0 < n" using align_up_pos [OF al assms(2)] by auto
  have aln: "align_up n = Some n" using n(1) top by (intro aligned_up_id) auto
  have "a + n \<le> U64_MAX" using top MMAP_LIMIT_bounds by linarith
  from munmap_ok [OF inv a(2) n(2) aln this] obtain t where t: "munmap mp a n s = Some (Inr (), t)" "mm_inv mp t" "same_rest s t"
    "\<forall>x. page_at (ms_vm t) x = (if a \<le> x \<and> x < a + n then None else page_at (ms_vm s) x)"
    "free_addrs (ms_fa t) = free_addrs (ms_fa s) \<union> range_frames (ms_vm s) a (a + n)"
    "\<forall>w \<in> set (areas t). \<not> overlapping a (a + n) w"
    by (elim exE conjE) (rule that; assumption)
  let ?s = "enter_area (fresh_vma a n prot flags) t"
  have v: "vma_ok (fresh_vma a n prot flags)" using a(2) n top by (rule fresh_vma_ok)
  have fr: "free_at (areas t) n a" using t(6) by (simp add: free_at_def)
  note e = enter_fresh_ok [OF t(2) v n(1) fr]
  have run: "mmap mp a sz prot flags s = Some (Inr a, ?s)"
    using assms(2,4) al a t(1) mmap_at_eq [OF a(2) n(1) top] by (simp add: mmap_def)
  show ?thesis
  proof (intro exI conjI)
    show "mmap mp a sz prot flags s = Some (Inr a, ?s)" by (rule run)
    show "mm_inv mp ?s" by (rule e(1))
    show "\<forall>x. page_at (ms_vm ?s) x = (if a \<le> x \<and> x < a + n then Some (prot, flags, None, False) else page_at (ms_vm s) x)"
      using e(3) t(4) by simp
  qed (use t(3,5) in \<open>simp_all add: enter_area_sel same_rest_def\<close>)
qed

subsection \<open>Replacing an area in place\<close>

definition subst_area :: "Vma \<Rightarrow> Vma \<Rightarrow> Vma list \<Rightarrow> Vma list" where
  "subst_area v v' vs = map (\<lambda>w. if w = v then v' else w) vs"

lemma bt_insert_subst:
  assumes "areas_ok vs" and "v \<in> set vs" and "v_start v' = v_start v"
  shows "bt_insert (v_start v) v' (keyed vs) = keyed (subst_area v v' vs)"
  using assms
proof (induction vs)
  case (Cons w vs)
  show ?case
  proof (cases "w = v")
    case True
    have "u \<noteq> v" if "u \<in> set vs" for u
      using Cons.prems(1) that True vma_ok_pos [of v] by (force simp: areas_ok_Cons)
    then have "subst_area v v' vs = vs" by (auto simp: subst_area_def intro: map_idI)
    then show ?thesis using True Cons.prems(3) by (simp add: keyed_def subst_area_def)
  next
    case False
    then have v: "v \<in> set vs" using Cons.prems(2) by simp
    then have "v_start w < v_start v"
      using Cons.prems(1) vma_ok_pos [of w] by (force simp: areas_ok_Cons)
    then show ?thesis
      using Cons.IH v Cons.prems(1,3) False by (simp add: keyed_def subst_area_def areas_ok_Cons)
  qed
qed simp

lemma subst_area_ok:
  assumes "areas_ok vs" and "v \<in> set vs" and "vma_ok v'" and "v_start v' = v_start v" and "v_size v' = v_size v"
  shows "areas_ok (subst_area v v' vs)"
proof -
  have "sorted_wrt (\<lambda>x y. v_start x + v_size x \<le> v_start y) (map (\<lambda>w. if w = v then v' else w) vs)"
    using assms(1,4,5) by (auto simp: areas_ok_def sorted_wrt_map elim!: sorted_wrt_mono_rel [rotated])
  then show ?thesis using assms(1,3) by (auto simp: areas_ok_def subst_area_def)
qed

lemma put_vma_ok:
  assumes inv: "mm_inv mp s" and v: "v \<in> set (areas s)" and ok': "vma_ok v'" and eq: "v_start v' = v_start v" "v_size v' = v_size v"
    and bk: "backed_ok mp (ms_fa s) v'"
  defines "s' \<equiv> put_vma (v_start v) v' s"
  shows "mm_inv mp s'" "areas s' = subst_area v v' (areas s)"
    "page_at (ms_vm s') x = (if in_vma v x then Some (page_info_of v' x) else page_at (ms_vm s) x)"
proof -
  have k: "vmas (ms_vm s) = keyed (areas s)" "areas_ok (areas s)" using inv by (auto simp: mm_inv_def vm_inv_iff)
  have vs: "vmas (ms_vm s') = keyed (subst_area v v' (areas s))"
    unfolding s'_def put_vma_def k(1) [symmetric] by (simp add: k(1) bt_insert_subst [OF k(2) v eq(1)])
  show a: "areas s' = subst_area v v' (areas s)" unfolding vma_values_def [of "ms_vm s'"] vs by simp
  have ok: "areas_ok (areas s')" unfolding a by (rule subst_area_ok [OF k(2) v ok' eq])
  have "vm_inv (ms_vm s')" unfolding vm_inv_iff using ok vs a by simp
  moreover have "ms_fa s' = ms_fa s" by (simp add: s'_def put_vma_def)
  moreover have mem: "set (areas s') = insert v' (set (areas s) - {v})"
    unfolding a using v by (auto simp: subst_area_def)
  ultimately show "mm_inv mp s'" using inv bk by (auto simp: mm_inv_def)
  have iv: "in_vma v' x = in_vma v x" by (simp add: in_vma_def eq)
  show "page_at (ms_vm s') x = (if in_vma v x then Some (page_info_of v' x) else page_at (ms_vm s) x)"
  proof (rule page_at_eqI [OF ok])
    fix w assume w: "w \<in> set (areas s')" "in_vma w x"
    show "(if in_vma v x then Some (page_info_of v' x) else page_at (ms_vm s) x) = Some (page_info_of w x)"
    proof (cases "w = v'")
      case False
      then have "w \<in> set (areas s)" "w \<noteq> v" using w(1) mem by auto
      moreover from this have "\<not> in_vma v x" using areas_unique [OF k(2) _ v] w(2) by blast
      ultimately show ?thesis using page_at_Some [OF k(2)] w(2) by auto
    qed (use w(2) iv in simp)
  next
    fix y assume "(if in_vma v x then Some (page_info_of v' x) else page_at (ms_vm s) x) = Some y"
    then have "in_vma v x \<or> page_at (ms_vm s) x = Some y \<and> \<not> in_vma v x" by metis
    then show "\<exists>w \<in> set (areas s'). in_vma w x"
      using page_at_Some [OF k(2), of x] iv mem by blast
  qed
qed

text \<open>Looking an address up finds the area that contains it.\<close>

lemma find_keyed: "List.find (\<lambda>kv. P (snd kv)) (keyed vs) = map_option (\<lambda>v. (v_start v, v)) (List.find P vs)"
  by (induction vs) (auto simp: keyed_def)

lemma find_vma_eq:
  assumes "vm_inv m"
  shows "find_vma addr m = Some (map_option (\<lambda>v. (v_start v, v)) (List.find (\<lambda>v. in_vma v addr) (vma_values m)))"
proof -
  have k: "vmas m = keyed (vma_values m)" "areas_ok (vma_values m)" using assms by (auto simp: vm_inv_iff)
  have "find_m (\<lambda>kv. vma_contains addr (snd kv)) (keyed (vma_values m)) = Some (List.find (\<lambda>kv. in_vma (snd kv) addr) (keyed (vma_values m)))"
    using k(2) by (intro find_m_eq) (auto simp: keyed_def areas_ok_def vma_contains_eq)
  then show ?thesis unfolding find_vma_def by (simp add: k(1) [symmetric] find_keyed [symmetric])
qed

lemma page_lookup:
  assumes "mm_inv mp s" and "page_at (ms_vm s) addr = Some x"
  obtains v where "v \<in> set (areas s)" "in_vma v addr" "x = page_info_of v addr" "find_vma addr (ms_vm s) = Some (Some (v_start v, v))"
    "vma_ok v" "backed_ok mp (ms_fa s) v"
proof -
  have inv: "vm_inv (ms_vm s)" and ok: "areas_ok (areas s)" using assms(1) by (auto simp: mm_inv_def vm_inv_iff)
  obtain v where v: "v \<in> set (areas s)" "in_vma v addr" "x = page_info_of v addr"
    using assms(2) page_at_Some [OF ok] by blast
  moreover have "find_vma addr (ms_vm s) = Some (Some (v_start v, v))"
    using find_area [OF ok, of addr v] v by (simp add: find_vma_eq [OF inv])
  ultimately show ?thesis using that ok assms(1) by (simp add: areas_ok_def mm_inv_def)
qed

lemma unmapped_lookup:
  "mm_inv mp s \<Longrightarrow> page_at (ms_vm s) addr = None \<Longrightarrow> find_vma addr (ms_vm s) = Some None"
  by (simp add: mm_inv_def find_vma_eq page_at_def)

subsection \<open>Page faults\<close>

definition frame_of :: "page_info \<Rightarrow> phys_frame option" where
  "frame_of x = fst (snd (snd x))"

text \<open>What is relied on of the page tables: mapping a page only takes frames out of the allocator it is given.\<close>

definition mapper_ok :: "'pt Mapper \<Rightarrow> bool" where
  "mapper_ok mp \<longleftrightarrow> (\<forall>p f fl pt fa r pt' fa'. phys_inv fa \<longrightarrow> map_page mp p f fl pt fa = (r, pt', fa') \<longrightarrow>
     phys_inv fa' \<and> managed_addrs fa' = managed_addrs fa \<and> free_addrs fa' \<subseteq> free_addrs fa)"

text \<open>What is relied on of the page tables: the address of a page is the page, and a mapping that succeeds is seen by
  \<open>look\<close> and changes nothing else.\<close>

definition mapper_maps :: "'pt Mapper \<Rightarrow> ('pt \<Rightarrow> nat \<Rightarrow> (phys_frame \<times> PageFlags) option) \<Rightarrow> bool" where
  "mapper_maps mp look \<longleftrightarrow> (\<forall>a p. virt_addr_new mp a = Some p \<longrightarrow> p = a)
     \<and> (\<forall>p f fl pt fa u pt' fa'. map_page mp p f fl pt fa = (Inr u, pt', fa') \<longrightarrow> look pt' = (look pt)(p \<mapsto> (f, fl)))"

lemma page_index:
  assumes v: "vma_ok v" "in_vma v a"
  defines "i \<equiv> (a - v_start v) div 4096"
  shows "i < length (v_frames v)" "align_down a = v_start v + i * 4096" "sub64 (align_down a) (v_start v) = Some (i * 4096)"
proof -
  have "a - v_start v < length (v_frames v) * 4096" using v by (auto simp: vma_ok_def in_vma_def)
  then show "i < length (v_frames v)" unfolding i_def by (rule less_mult_imp_div_less)
  have "a = v_start v + (a - v_start v)" using v(2) by (simp add: in_vma_def)
  moreover have "(v_start v + (a - v_start v)) mod 4096 = (a - v_start v) mod 4096"
    using v(1) by (simp add: vma_ok_def mod_add_left_eq [symmetric])
  ultimately have "a mod 4096 = (a - v_start v) mod 4096" by simp
  moreover have "a - v_start v = i * 4096 + (a - v_start v) mod 4096" by (simp add: i_def)
  ultimately show e: "align_down a = v_start v + i * 4096"
    using v(2) unfolding align_down_def PAGE_SIZE_def in_vma_def by linarith
  show "sub64 (align_down a) (v_start v) = Some (i * 4096)" by (simp add: e sub64_def)
qed

lemma same_page_iff:
  assumes "vma_ok v" and "in_vma v a" and "in_vma v b"
  shows "align_down b = align_down a \<longleftrightarrow> (b - v_start v) div 4096 = (a - v_start v) div 4096"
  by (simp add: page_index(2) [OF assms(1,2)] page_index(2) [OF assms(1,3)])

lemma in_vma_align:
  assumes "vma_ok v" and "in_vma v a" and "align_down b = align_down a"
  shows "in_vma v b"
proof -
  let ?i = "(a - v_start v) div 4096"
  have "align_down b = v_start v + ?i * 4096" "?i < length (v_frames v)"
    using page_index [OF assms(1,2)] assms(3) by simp_all
  moreover have "align_down b \<le> b" "b < align_down b + 4096" by (simp_all add: align_down_def PAGE_SIZE_def)
  moreover have "(?i + 1) * 4096 \<le> v_size v" using calculation(2) assms(1) by (simp add: vma_ok_def)
  ultimately show ?thesis by (auto simp: in_vma_def)
qed

text \<open>Recording a frame for one page of an area.\<close>

lemma put_frame_ok:
  assumes inv: "mm_inv mp s" and v: "v \<in> set (areas s)" "in_vma v a" and f: "f \<in> managed_addrs (ms_fa s)"
    and va: "virt_addr_new mp (align_down a) \<noteq> None" and x: "page_at (ms_vm s) a = Some (prot, flags, g, c)"
  defines "s' \<equiv> put_vma (v_start v) (v\<lparr>v_frames := (v_frames v)[(a - v_start v) div 4096 := Some f]\<rparr>) s"
  shows "mm_inv mp s'" "page_at (ms_vm s') b = (if align_down b = align_down a then Some (prot, flags, Some f, c) else page_at (ms_vm s) b)"
proof -
  let ?i = "(a - v_start v) div 4096"
  let ?v = "v\<lparr>v_frames := (v_frames v)[?i := Some f]\<rparr>"
  have ok: "areas_ok (areas s)" "vma_ok v" "backed_ok mp (ms_fa s) v"
    using inv v(1) by (auto simp: mm_inv_def vm_inv_iff areas_ok_def)
  note i = page_index [OF ok(2) v(2)]
  have "vma_ok ?v" using ok(2) by (simp add: vma_ok_def)
  moreover have "backed_ok mp (ms_fa s) ?v"
    using ok(3) f va i(1) unfolding backed_ok_def i(2) by (auto simp: nth_list_update)
  ultimately have put: "mm_inv mp s'" "\<And>b. page_at (ms_vm s') b = (if in_vma v b then Some (page_info_of ?v b) else page_at (ms_vm s) b)"
    using put_vma_ok [OF inv v(1), of ?v] unfolding s'_def by simp_all
  show "mm_inv mp s'" by (rule put(1))
  have pa: "(prot, flags, g, c) = page_info_of v a" "in_vma v b \<Longrightarrow> page_at (ms_vm s) b = Some (page_info_of v b)"
    using x v page_at_Some [OF ok(1)] by (metis option.inject, blast)
  show "page_at (ms_vm s') b = (if align_down b = align_down a then Some (prot, flags, Some f, c) else page_at (ms_vm s) b)"
  proof (cases "in_vma v b")
    case True
    then show ?thesis
      using same_page_iff [OF ok(2) v(2) True] pa i(1) by (auto simp: put(2) page_info_of_def Let_def)
  next
    case False
    then show ?thesis using put(2) in_vma_align [OF ok(2) v(2)] by auto
  qed
qed

lemma mm_inv_cong:
  assumes "mm_inv mp s" and "ms_vm s' = ms_vm s" and "phys_inv (ms_fa s')" and "managed_addrs (ms_fa s') = managed_addrs (ms_fa s)"
  shows "mm_inv mp s'"
  using assms backed_ok_cong [OF assms(4), of mp] by (metis mm_inv_def)

text \<open>What stays the same in a fault: everything but the page that faulted, the new frame and page tables.\<close>

definition fault_kept :: "'pt MmState \<Rightarrow> 'pt MmState \<Rightarrow> bool" where
  "fault_kept s s' \<longleftrightarrow> free_addrs (ms_fa s') \<subseteq> free_addrs (ms_fa s) \<and> managed_addrs (ms_fa s') = managed_addrs (ms_fa s)
     \<and> next_addr (ms_vm s') = next_addr (ms_vm s) \<and> ms_cow s' = ms_cow s"

definition fault_filled :: "nat \<Rightarrow> 'pt MmState \<Rightarrow> 'pt MmState \<Rightarrow> bool" where
  "fault_filled a s s' \<longleftrightarrow> (\<exists>prot flags c f. page_at (ms_vm s) a = Some (prot, flags, None, c)
     \<and> f \<in> free_addrs (ms_fa s) \<and> f \<notin> free_addrs (ms_fa s')
     \<and> (\<forall>b. page_at (ms_vm s') b = (if align_down b = align_down a then Some (prot, flags, Some f, c) else page_at (ms_vm s) b))
     \<and> ms_mem s' = (if mf_anonymous flags then zero_page f (ms_mem s) else ms_mem s))"

text \<open>The reasons for which a fault is not resolved.\<close>

definition fault_refused :: "'pt Mapper \<Rightarrow> nat \<Rightarrow> 'pt MmState \<Rightarrow> KError \<Rightarrow> bool" where
  "fault_refused mp a s er \<longleftrightarrow> (case page_at (ms_vm s) a of
     None \<Rightarrow> er = Invalid
   | Some x \<Rightarrow> frame_of x \<noteq> None \<and> er = PermissionDenied \<or> free_addrs (ms_fa s) = {} \<and> er = NoMemory
       \<or> (\<exists>p f fl pt fa. fst (map_page mp p f fl pt fa) = Inl er))"

lemma handle_page_fault_cases:
  assumes inv: "mm_inv mp s" and mok: "mapper_ok mp"
    and va: "virt_addr_new mp (align_down a) \<noteq> None \<or> handle_page_fault mp a s \<noteq> None"
  shows "\<exists>r s'. handle_page_fault mp a s = Some (r, s') \<and> mm_inv mp s' \<and> fault_kept s s'
    \<and> (case r of Inr _ \<Rightarrow> fault_filled a s s' | Inl er \<Rightarrow> ms_vm s' = ms_vm s \<and> fault_refused mp a s er)"
proof (cases "page_at (ms_vm s) a")
  case None
  then show ?thesis
    using inv unmapped_lookup [OF inv None] by (simp add: handle_page_fault_def Let_def fault_kept_def fault_refused_def)
next
  case (Some x)
  obtain prot flags g c where x: "x = (prot, flags, g, c)" by (cases x)
  obtain v where v: "v \<in> set (areas s)" "in_vma v a" "x = page_info_of v a" "find_vma a (ms_vm s) = Some (Some (v_start v, v))"
    "vma_ok v" "backed_ok mp (ms_fa s) v"
    by (rule page_lookup [OF inv Some])
  let ?i = "(a - v_start v) div 4096"
  note i = page_index [OF v(5,2)]
  have info: "v_frames v ! ?i = g" "v_prot v = prot" "v_flags v = flags" using v(3) x by (simp_all add: page_info_of_def Let_def)
  have pi: "phys_inv (ms_fa s)" using inv by (simp add: mm_inv_def)
  note unf = handle_page_fault_def Let_def v(4) i(3) info
  consider (present) f where "g = Some f" | (full) "g = None" "allocate (ms_fa s) = Some (None, ms_fa s)" "free_addrs (ms_fa s) = {}"
    | (new) f fa where "g = None" "allocate (ms_fa s) = Some (Some f, fa)" "f \<in> free_addrs (ms_fa s)" "phys_inv fa"
        "free_addrs fa = free_addrs (ms_fa s) - {f}" "managed_addrs fa = managed_addrs (ms_fa s)"
    using bitmap.alloc_ok [OF pi] by (cases g) blast+
  then show ?thesis
  proof cases
    case present
    then show ?thesis using inv i(1) Some x by (simp add: unf fault_kept_def fault_refused_def frame_of_def)
  next
    case full
    then show ?thesis using inv i(1) Some by (simp add: unf fault_kept_def fault_refused_def)
  next
    case new
    have va: "virt_addr_new mp (align_down a) \<noteq> None" using va new(1,2) i(1) by (cases "virt_addr_new mp (align_down a)") (auto simp: unf)
    then obtain pg where pg: "virt_addr_new mp (align_down a) = Some pg" by blast
    define mem where "mem = (if mf_anonymous flags then zero_page f (ms_mem s) else ms_mem s)"
    obtain res pt fa' where mp: "map_page mp pg f (to_page_flags prot True) (ms_pt s) fa = (res, pt, fa')"
      by (metis prod_cases3)
    then have fa': "phys_inv fa'" "managed_addrs fa' = managed_addrs (ms_fa s)" "free_addrs fa' \<subseteq> free_addrs (ms_fa s) - {f}"
      using mok new(4-6) unfolding mapper_ok_def by metis+
    define t where "t = s\<lparr>ms_mem := mem, ms_pt := pt, ms_fa := fa'\<rparr>"
    have t: "mm_inv mp t" "ms_vm t = ms_vm s"
      using mm_inv_cong [OF inv, of t] fa' by (simp_all add: t_def)
    have run: "handle_page_fault mp a s = Some (case res of Inl er \<Rightarrow> (Inl er, t)
        | Inr _ \<Rightarrow> (Inr (), put_vma (v_start v) (v\<lparr>v_frames := (v_frames v)[?i := Some f]\<rparr>) t))"
      using new(1,2) i(1) pg mp by (simp add: unf t_def mem_def split: sum.split)
    show ?thesis
    proof (cases res)
      case (Inl er)
      then have "fst (map_page mp pg f (to_page_flags prot True) (ms_pt s) fa) = Inl er" using mp by simp
      then have "fault_refused mp a s er" unfolding fault_refused_def Some by auto
      then show ?thesis using Inl run t fa' by (auto simp: fault_kept_def t_def)
    next
      case (Inr u)
      have tv: "v \<in> set (areas t)" "page_at (ms_vm t) a = Some (prot, flags, g, c)" "f \<in> managed_addrs (ms_fa t)"
        using v(1) Some x bitmap.frees_managed [OF pi] new(3) fa'(2) by (auto simp: t(2)) (auto simp: t_def)
      note put = put_frame_ok [OF t(1) tv(1) v(2) tv(3) va tv(2)]
      let ?s = "put_vma (v_start v) (v\<lparr>v_frames := (v_frames v)[?i := Some f]\<rparr>) t"
      have sel: "ms_fa ?s = fa'" "ms_mem ?s = mem" "ms_cow ?s = ms_cow s" "next_addr (ms_vm ?s) = next_addr (ms_vm s)"
        by (simp_all add: put_vma_def t_def)
      have "fault_filled a s ?s"
        unfolding fault_filled_def sel
        using Some x new(1,3) fa'(3) put(2) t(2) mem_def by (intro exI [of _ prot] exI [of _ flags] exI [of _ c] exI [of _ f]) auto
      moreover have "fault_kept s ?s" using fa' by (auto simp: fault_kept_def sel)
      ultimately show ?thesis using run Inr put(1) by simp
    qed
  qed
qed

subsection \<open>Protection changes and copy-on-write faults\<close>

definition reprotect :: "Protection \<Rightarrow> page_info \<Rightarrow> page_info" where
  "reprotect prot x = (prot, snd x)"

lemma find_m_raise:
  "(\<And>x. x \<in> set xs \<Longrightarrow> p x = (if q x then None else Some False)) \<Longrightarrow>
   find_m p xs = (if \<exists>x \<in> set xs. q x then None else Some None)"
  by (induction xs) auto

lemma mprotect_cases:
  assumes inv: "mm_inv mp s" and run: "mprotect mp addr sz prot s = Some (r, s')"
  shows "mm_inv mp s' \<and> ms_fa s' = ms_fa s \<and> ms_mem s' = ms_mem s \<and> ms_cow s' = ms_cow s \<and> next_addr (ms_vm s') = next_addr (ms_vm s)
    \<and> (case r of Inl er \<Rightarrow> er = Invalid \<and> s' = s | Inr _ \<Rightarrow> \<exists>v \<in> set (areas s). in_vma v addr \<and>
        (\<forall>x. page_at (ms_vm s') x = (if in_vma v x then map_option (reprotect prot) (page_at (ms_vm s) x) else page_at (ms_vm s) x)))"
proof -
  have vm: "vmas (ms_vm s) = keyed (areas s)" "areas_ok (areas s)" using inv by (auto simp: mm_inv_def vm_inv_iff)
  obtain n where n: "align_up sz = Some n \<or> addr mod 4096 \<noteq> 0 \<or> sz = 0"
    using run by (cases "align_up sz") (auto simp: mprotect_def split: if_splits)
  let ?p = "\<lambda>kv. Option.bind (vma_contains addr (snd kv)) (\<lambda>c.
      if c then Option.bind (add64 addr n) (\<lambda>e. Option.bind (vma_end (snd kv)) (\<lambda>ve. Some (e \<le> ve))) else Some False)"
  have p: "?p kv = (if in_vma (snd kv) addr then if addr + n \<le> U64_MAX then Some (addr + n \<le> v_start (snd kv) + v_size (snd kv))
      else None else Some False)" if "kv \<in> set (keyed (areas s))" for kv
    using that vm(2) by (auto simp: keyed_def areas_ok_def vma_contains_eq vma_end_eq add64_def)
  consider (bad) "r = Inl Invalid" "s' = s"
    | (ok) v pt where "v \<in> set (areas s)" "in_vma v addr" "r = Inr ()" "s' = (put_vma (v_start v) (v\<lparr>v_prot := prot\<rparr>) s)\<lparr>ms_pt := pt\<rparr>"
  proof (cases "addr mod 4096 \<noteq> 0 \<or> sz = 0")
    case True
    then show ?thesis using run that(1) by (auto simp: mprotect_def)
  next
    case False
    define res where "res = find_m ?p (keyed (areas s))"
    have res: "res = Some None \<or> res = None \<or> (\<exists>v \<in> set (areas s). in_vma v addr \<and> res = Some (Some (v_start v, v)))"
    proof (cases "addr + n \<le> U64_MAX")
      case True
      let ?P = "\<lambda>v. in_vma v addr \<and> addr + n \<le> v_start v + v_size v"
      have "res = Some (List.find (\<lambda>kv. ?P (snd kv)) (keyed (areas s)))"
        unfolding res_def using True p by (intro find_m_eq) auto
      then have eq: "res = Some (map_option (\<lambda>v. (v_start v, v)) (List.find ?P (areas s)))" by (simp only: find_keyed [of ?P])
      show ?thesis
      proof (cases "List.find ?P (areas s)")
        case (Some v)
        then have "v \<in> set (areas s)" "in_vma v addr" by (auto simp: find_Some_iff)
        then show ?thesis using eq Some by auto
      qed (simp add: eq)
    next
      case False
      have "res = (if \<exists>kv \<in> set (keyed (areas s)). in_vma (snd kv) addr then None else Some None)"
        unfolding res_def using False p by (intro find_m_raise) auto
      then show ?thesis by simp
    qed
    have "res \<noteq> None" using run False n unfolding mprotect_def vm(1) res_def by (auto simp: bind_eq_Some_conv)
    then consider "res = Some None" | v where "v \<in> set (areas s)" "in_vma v addr" "res = Some (Some (v_start v, v))"
      using res by blast
    then show ?thesis
    proof cases
      case 1
      then show ?thesis using run that(1) False n unfolding mprotect_def vm(1) res_def by simp
    next
      case (2 v)
      then show ?thesis using run that(2) [OF 2(1,2)] False n unfolding mprotect_def vm(1) res_def
        by (auto simp: bind_eq_Some_conv Let_def)
    qed
  qed
  then show ?thesis
  proof cases
    case bad
    then show ?thesis using inv by simp
  next
    case ok
    let ?v = "v\<lparr>v_prot := prot\<rparr>"
    have v: "vma_ok v" "backed_ok mp (ms_fa s) v" using inv ok(1) vm(2) by (auto simp: mm_inv_def areas_ok_def)
    have "vma_ok ?v" "backed_ok mp (ms_fa s) ?v" using v by (simp_all add: vma_ok_def backed_ok_def)
    note put = put_vma_ok [OF inv ok(1) this(1) _ _ this(2)]
    have sel: "ms_vm s' = ms_vm (put_vma (v_start v) ?v s)" "ms_fa s' = ms_fa s" "ms_mem s' = ms_mem s" "ms_cow s' = ms_cow s"
      "next_addr (ms_vm s') = next_addr (ms_vm s)" by (simp_all add: ok(4) put_vma_def)
    have "page_at (ms_vm s') x = (if in_vma v x then map_option (reprotect prot) (page_at (ms_vm s) x) else page_at (ms_vm s) x)" for x
    proof -
      have "page_info_of ?v x = reprotect prot (page_info_of v x)" by (simp add: page_info_of_def reprotect_def Let_def)
      moreover have "in_vma v x \<Longrightarrow> page_at (ms_vm s) x = Some (page_info_of v x)" using page_at_Some [OF vm(2)] ok(1) by blast
      ultimately show ?thesis using put(3) sel(1) by auto
    qed
    moreover have "mm_inv mp s'" using mm_inv_cong [OF put(1), of s'] inv sel by (simp add: put_vma_def mm_inv_def)
    ultimately show ?thesis using ok(1-3) sel by auto
  qed
qed

text \<open>A copy-on-write fault on a page without the mark changes nothing.\<close>

lemma cow_fault_unmarked:
  assumes inv: "mm_inv mp s" and "\<And>x. page_at (ms_vm s) a = Some x \<Longrightarrow> \<not> snd (snd (snd x))"
  shows "handle_cow_page_fault mp a old s = Some (Inl Invalid, s) \<or> handle_cow_page_fault mp a old s = Some (Inl PermissionDenied, s)"
proof (cases "page_at (ms_vm s) a")
  case None
  then show ?thesis using unmapped_lookup [OF inv None] by (simp add: handle_cow_page_fault_def)
next
  case (Some x)
  obtain v where v: "v \<in> set (areas s)" "in_vma v a" "x = page_info_of v a" "find_vma a (ms_vm s) = Some (Some (v_start v, v))"
    "vma_ok v" "backed_ok mp (ms_fa s) v"
    by (rule page_lookup [OF inv Some])
  have "\<not> v_cow v ! ((a - v_start v) div 4096)" using assms(2) [OF Some] v(3) by (simp add: page_info_of_def Let_def)
  then show ?thesis using page_index(3) [OF v(5,2)] v(4) by (simp add: handle_cow_page_fault_def Let_def)
qed

subsection \<open>Reachable address spaces\<close>

text \<open>The states that system calls and faults lead to from an empty address space.  The requests of \<open>mmap\<close> stay
  below \<open>2 ^ 62\<close>, far beyond the addresses of the processor; a call that panics or never returns has no
  successor.\<close>

inductive mm_reach :: "'pt Mapper \<Rightarrow> 'pt MmState \<Rightarrow> bool" for mp where
  reach_start: "ms_vm s = vm_new \<Longrightarrow> phys_inv (ms_fa s) \<Longrightarrow> mm_reach mp s"
| reach_mmap: "mm_reach mp s \<Longrightarrow> sys_mmap mp hint sz prot flags s = Some (r, s') \<Longrightarrow> hint + sz \<le> 2 ^ 61 \<Longrightarrow> mm_reach mp s'"
| reach_munmap: "mm_reach mp s \<Longrightarrow> sys_munmap mp addr sz s = Some (r, s') \<Longrightarrow> mm_reach mp s'"
| reach_mprotect: "mm_reach mp s \<Longrightarrow> sys_mprotect mp addr sz prot s = Some (r, s') \<Longrightarrow> mm_reach mp s'"
| reach_fault: "mm_reach mp s \<Longrightarrow> handle_page_fault mp addr s = Some (r, s') \<Longrightarrow> mm_reach mp s'"
| reach_cow: "mm_reach mp s \<Longrightarrow> handle_cow_page_fault mp addr old s = Some (r, s') \<Longrightarrow> mm_reach mp s'"

text \<open>A frame that is recorded for a page is not free and is recorded for no other page.\<close>

definition exclusive :: "'pt MmState \<Rightarrow> bool" where
  "exclusive s \<longleftrightarrow> (\<forall>a x f. page_at (ms_vm s) a = Some x \<longrightarrow> frame_of x = Some f \<longrightarrow> f \<notin> free_addrs (ms_fa s)
     \<and> (\<forall>b y. page_at (ms_vm s) b = Some y \<longrightarrow> frame_of y = Some f \<longrightarrow> align_down b = align_down a))"

definition aspace_inv :: "'pt Mapper \<Rightarrow> 'pt MmState \<Rightarrow> bool" where
  "aspace_inv mp s \<longleftrightarrow> mm_inv mp s \<and> paged (next_addr (ms_vm s)) \<and> exclusive s
     \<and> (\<forall>a x. page_at (ms_vm s) a = Some x \<longrightarrow> a < 2 ^ 62 \<and> \<not> snd (snd (snd x)))"

text \<open>A change that keeps, drops or empties pages, and frees only frames of dropped pages.\<close>

lemma exclusive_drop:
  assumes ex: "exclusive s" and pages: "\<And>a x. page_at (ms_vm s') a = Some x \<Longrightarrow> frame_of x = None \<or> page_at (ms_vm s) a = Some x \<and> P a"
    and freed: "\<And>f. f \<in> free_addrs (ms_fa s') \<Longrightarrow> f \<in> free_addrs (ms_fa s) \<or> (\<exists>a x. \<not> P a \<and> paged a \<and> page_at (ms_vm s) a = Some x \<and> frame_of x = Some f)"
    and whole: "\<And>a b. align_down a = align_down b \<Longrightarrow> P a \<Longrightarrow> P b"
  shows "exclusive s'"
  unfolding exclusive_def
proof (intro allI impI conjI)
  fix a x f assume x: "page_at (ms_vm s') a = Some x" "frame_of x = Some f"
  have old: "page_at (ms_vm s) a = Some x" "P a" using pages [OF x(1)] x(2) by auto
  show "f \<notin> free_addrs (ms_fa s')"
  proof
    assume "f \<in> free_addrs (ms_fa s')"
    moreover have "f \<notin> free_addrs (ms_fa s)" using ex old(1) x(2) unfolding exclusive_def by blast
    ultimately obtain b y where "\<not> P b" "page_at (ms_vm s) b = Some y" "frame_of y = Some f" using freed by blast
    moreover from this have "align_down b = align_down a" using ex old(1) x(2) unfolding exclusive_def by blast
    ultimately show False using whole [of a b] old(2) by simp
  qed
  fix b y assume y: "page_at (ms_vm s') b = Some y" "frame_of y = Some f"
  have "page_at (ms_vm s) b = Some y" using pages [OF y(1)] y(2) by auto
  then show "align_down b = align_down a" using ex old(1) x(2) y(2) unfolding exclusive_def by blast
qed

lemma range_whole:
  assumes "lo mod 4096 = 0" and "hi mod 4096 = 0" and "align_down a = align_down b" and "\<not> (lo \<le> a \<and> a < hi)"
  shows "\<not> (lo \<le> b \<and> b < hi)"
proof -
  have m: "align_down x mod 4096 = 0" for x using align_down_dvd [of x] by (simp add: PAGE_SIZE_def)
  have d: "align_down x \<le> x" "x < align_down x + 4096" for x by (simp_all add: align_down_def PAGE_SIZE_def)
  have "lo \<le> x \<longleftrightarrow> lo \<le> align_down x" for x
    using multiples_apart [OF m assms(1), of x] d [of x] by linarith
  moreover have "x < hi \<longleftrightarrow> align_down x < hi" for x
    using multiples_apart [OF m assms(2), of x] d [of x] by linarith
  ultimately show ?thesis using assms(3,4) by metis
qed

lemma munmap_aspace:
  assumes inv: "aspace_inv mp s" and run: "munmap mp addr sz s = Some (r, s')"
  shows "aspace_inv mp s'"
proof (cases "addr mod 4096 \<noteq> 0 \<or> sz = 0")
  case True
  then have "s' = s" using run by (auto simp: munmap_def)
  then show ?thesis using inv by simp
next
  case False
  have a: "addr mod 4096 = 0" "0 < sz" using False by simp_all
  obtain n where n: "align_up sz = Some n" "addr + n \<le> U64_MAX"
    using run a by (auto simp: munmap_def bind_eq_Some_conv add64_def split: if_splits)
  have inv': "mm_inv mp s" using inv by (simp add: aspace_inv_def)
  from munmap_ok [OF inv' a n] run have s': "mm_inv mp s'" "same_rest s s'"
    "\<forall>a. page_at (ms_vm s') a = (if addr \<le> a \<and> a < addr + n then None else page_at (ms_vm s) a)"
    "free_addrs (ms_fa s') = free_addrs (ms_fa s) \<union> range_frames (ms_vm s) addr (addr + n)" by auto
  have e: "(addr + n) mod 4096 = 0" using a(1) align_up_pos [OF n(1) a(2)] by (simp add: mod_add_eq [symmetric])
  have "exclusive s'"
  proof (rule exclusive_drop [where s = s and P = "\<lambda>a. \<not> (addr \<le> a \<and> a < addr + n)"])
    show "exclusive s" using inv by (simp add: aspace_inv_def)
    show "frame_of x = None \<or> page_at (ms_vm s) b = Some x \<and> \<not> (addr \<le> b \<and> b < addr + n)"
      if "page_at (ms_vm s') b = Some x" for b x using that s'(3) by (auto split: if_splits)
    show "f \<in> free_addrs (ms_fa s) \<or> (\<exists>b x. \<not> \<not> (addr \<le> b \<and> b < addr + n) \<and> paged b \<and> page_at (ms_vm s) b = Some x \<and> frame_of x = Some f)"
      if "f \<in> free_addrs (ms_fa s')" for f
      using that s'(4) by (auto simp: range_frames_def frame_of_def)
    show "\<not> (addr \<le> b \<and> b < addr + n)" if "align_down b' = align_down b" "\<not> (addr \<le> b' \<and> b' < addr + n)" for b' b
      using range_whole [OF a(1) e that] .
  qed
  moreover have "a < 2 ^ 62 \<and> \<not> snd (snd (snd x))" if "page_at (ms_vm s') a = Some x" for a x
  proof -
    have "page_at (ms_vm s) a = Some x" using that s'(3) by (metis option.distinct(1))
    then show ?thesis using inv unfolding aspace_inv_def by blast
  qed
  ultimately show ?thesis using s'(1,2) inv unfolding aspace_inv_def same_rest_def by metis
qed

lemma enter_aspace:
  assumes inv: "aspace_inv mp s" and a: "a mod 4096 = 0" and n: "n mod 4096 = 0" "0 < n" and hi: "a + n \<le> 2 ^ 62" and free: "free_at (areas s) n a"
    and run: "mmap_at a n prot flags s = Some (r, s')"
  shows "aspace_inv mp s'"
proof -
  have inv': "mm_inv mp s" using inv by (simp add: aspace_inv_def)
  have top: "a + n \<le> VTOP" using hi MMAP_LIMIT_bounds by linarith
  have v: "vma_ok (fresh_vma a n prot flags)" using a n top by (rule fresh_vma_ok)
  have s': "s' = enter_area (fresh_vma a n prot flags) s" using run by (simp add: mmap_at_eq [OF a n(1) top])
  note e = enter_fresh_ok [OF inv' v n(1) free, folded s']
  have pages: "a \<le> b \<and> b < a + n \<and> x = (prot, flags, None, False) \<or> page_at (ms_vm s) b = Some x" if "page_at (ms_vm s') b = Some x" for b x
    using that unfolding e(3) by (metis option.inject)
  have "exclusive s'"
  proof (rule exclusive_drop [where s = s and P = "\<lambda>_. True"])
    show "exclusive s" using inv by (simp add: aspace_inv_def)
    show "frame_of x = None \<or> page_at (ms_vm s) b = Some x \<and> True" if "page_at (ms_vm s') b = Some x" for b x
      using pages [OF that] by (auto simp: frame_of_def)
  qed (auto simp: s' enter_area_sel)
  moreover have "b < 2 ^ 62 \<and> \<not> snd (snd (snd x))" if "page_at (ms_vm s') b = Some x" for b x
    using pages [OF that] hi inv unfolding aspace_inv_def by (metis less_le_trans snd_conv)
  moreover have "paged (next_addr (ms_vm s'))"
    using inv a n(1) by (simp add: s' enter_area_sel aspace_inv_def paged_def mod_add_eq [symmetric])
  ultimately show ?thesis using e(1) unfolding aspace_inv_def by blast
qed

lemma mmap_aspace:
  assumes inv: "aspace_inv mp s" and hi: "hint + sz \<le> 2 ^ 61" and run: "mmap mp hint sz prot flags s = Some (r, s')"
  shows "aspace_inv mp s'"
proof (cases "sz = 0 \<or> mf_fixed flags \<and> (hint = 0 \<or> hint mod 4096 \<noteq> 0)")
  case True
  then have "s' = s" using run by (auto simp: mmap_def bind_eq_Some_conv split: if_splits)
  then show ?thesis using inv by simp
next
  case False
  have inv': "mm_inv mp s" "paged (next_addr (ms_vm s))" using inv by (simp_all add: aspace_inv_def)
  obtain n where al: "align_up sz = Some n" using run False by (auto simp: mmap_def bind_eq_Some_conv)
  have n: "n mod 4096 = 0" "0 < n" "hint + n \<le> 2 ^ 62"
    using align_up_pos [OF al] align_up_ge [OF al] False hi by (auto simp: PAGE_SIZE_def)
  show ?thesis
  proof (cases "mf_fixed flags")
    case True
    then have h: "hint mod 4096 = 0" using False by auto
    have aln: "align_up n = Some n" "hint + n \<le> U64_MAX" using n MMAP_LIMIT_bounds by (auto intro!: aligned_up_id)
    from munmap_ok [OF inv'(1) h n(2) aln] obtain t where t: "munmap mp hint n s = Some (Inr (), t)"
      "\<forall>w \<in> set (areas t). \<not> overlapping hint (hint + n) w"
      by (elim exE conjE) (rule that; assumption)
    have "mmap_at hint n prot flags t = Some (r, s')" using run True False al t(1) h by (simp add: mmap_def)
    moreover have "free_at (areas t) n hint" using t(2) by (simp add: free_at_def)
    ultimately show ?thesis using enter_aspace [OF munmap_aspace [OF inv t(1)] h n] by blast
  next
    case unfixed: False
    have "0 < sz" using False by simp
    from run obtain c where c: "choose_addr hint n (ms_vm s) = Some c"
      "(case c of Inl er \<Rightarrow> Some (Inl er, s) | Inr addr \<Rightarrow> mmap_at addr n prot flags s) = Some (r, s')"
      unfolding mmap_unfixed [OF \<open>0 < sz\<close> al unfixed] by (auto simp: bind_eq_Some_conv)
    show ?thesis
    proof (cases c)
      case (Inl er)
      then show ?thesis using c(2) inv by simp
    next
      case (Inr a)
      have a: "a mod 4096 = 0" "a + n \<le> 2 ^ 62" "free_at (areas s) n a"
        using choose_addr_sound [OF inv'(1) n(1,2) inv'(2) n(3)] c(1) Inr by auto
      have "mmap_at a n prot flags s = Some (r, s')" using c(2) Inr by simp
      with inv a(1) n(1,2) a(2,3) show ?thesis by (rule enter_aspace)
    qed
  qed
qed

lemma exclusive_fill:
  assumes ex: "exclusive s" and fill: "fault_filled a s s'" and sub: "free_addrs (ms_fa s') \<subseteq> free_addrs (ms_fa s)"
  shows "exclusive s'"
proof -
  obtain prot flags c f where f: "f \<in> free_addrs (ms_fa s)" "f \<notin> free_addrs (ms_fa s')"
    "\<forall>b. page_at (ms_vm s') b = (if align_down b = align_down a then Some (prot, flags, Some f, c) else page_at (ms_vm s) b)"
    using fill unfolding fault_filled_def by blast
  have new: "align_down b = align_down a \<and> g = f \<or> page_at (ms_vm s) b = Some x \<and> g \<noteq> f"
    if "page_at (ms_vm s') b = Some x" "frame_of x = Some g" for b x g
  proof (cases "align_down b = align_down a")
    case True
    then have "x = (prot, flags, Some f, c)" using that(1) f(3) by simp
    then show ?thesis using True that(2) by (simp add: frame_of_def)
  next
    case False
    then have "page_at (ms_vm s) b = Some x" using that(1) f(3) by simp
    moreover from this have "g \<noteq> f" using ex f(1) that(2) unfolding exclusive_def by blast
    ultimately show ?thesis by blast
  qed
  show ?thesis
    unfolding exclusive_def
  proof (intro allI impI conjI)
    fix b x g assume x: "page_at (ms_vm s') b = Some x" "frame_of x = Some g"
    show "g \<notin> free_addrs (ms_fa s')" using new [OF x] ex x(2) sub f(2) unfolding exclusive_def by blast
    fix b' y assume y: "page_at (ms_vm s') b' = Some y" "frame_of y = Some g"
    show "align_down b' = align_down b" using new [OF x] new [OF y] ex x(2) y(2) unfolding exclusive_def by metis
  qed
qed

lemma fault_filled_page:
  assumes inv: "mm_inv mp s" and fill: "fault_filled a s s'" and x: "page_at (ms_vm s') b = Some x"
  obtains y where "page_at (ms_vm s) b = Some y" "snd (snd (snd y)) = snd (snd (snd x))"
proof -
  obtain prot flags c f where f: "page_at (ms_vm s) a = Some (prot, flags, None, c)"
    "\<forall>b. page_at (ms_vm s') b = (if align_down b = align_down a then Some (prot, flags, Some f, c) else page_at (ms_vm s) b)"
    using fill unfolding fault_filled_def by blast
  show ?thesis
  proof (cases "align_down b = align_down a")
    case True
    have ok: "areas_ok (areas s)" using inv by (simp add: mm_inv_def vm_inv_iff)
    obtain v where v: "v \<in> set (areas s)" "in_vma v a" "(prot, flags, None, c) = page_info_of v a" "vma_ok v"
      using page_lookup [OF inv f(1)] by metis
    have b: "in_vma v b" using in_vma_align [OF v(4,2) True] .
    then have "page_at (ms_vm s) b = Some (page_info_of v b)" using page_at_Some [OF ok] v(1) by blast
    moreover have "page_info_of v b = page_info_of v a"
      using same_page_iff [OF v(4,2) b] True by (simp add: page_info_of_def)
    moreover have "x = (prot, flags, Some f, c)" using x f(2) True by simp
    ultimately show ?thesis using that v(3) by (metis snd_conv)
  next
    case False
    then show ?thesis using that x f(2) by simp
  qed
qed

lemma fault_aspace:
  assumes inv: "aspace_inv mp s" and "mapper_ok mp" and run: "handle_page_fault mp a s = Some (r, s')"
  shows "aspace_inv mp s'"
proof -
  have inv': "mm_inv mp s" "exclusive s" using inv by (simp_all add: aspace_inv_def)
  from handle_page_fault_cases [OF inv'(1) assms(2), of a] run
  have s': "mm_inv mp s'" "fault_kept s s'" "case r of Inr _ \<Rightarrow> fault_filled a s s' | Inl er \<Rightarrow> ms_vm s' = ms_vm s \<and> fault_refused mp a s er" by auto
  have sub: "free_addrs (ms_fa s') \<subseteq> free_addrs (ms_fa s)" "next_addr (ms_vm s') = next_addr (ms_vm s)"
    using s'(2) by (simp_all add: fault_kept_def)
  show ?thesis
  proof (cases r)
    case (Inl er)
    then have vm: "ms_vm s' = ms_vm s" using s'(3) by simp
    have "exclusive s'" using inv'(2) sub(1) unfolding exclusive_def vm by blast
    then show ?thesis using inv s'(1) unfolding aspace_inv_def vm by blast
  next
    case (Inr u)
    then have fill: "fault_filled a s s'" using s'(3) by simp
    have "b < 2 ^ 62 \<and> \<not> snd (snd (snd x))" if x: "page_at (ms_vm s') b = Some x" for b x
    proof -
      obtain y where "page_at (ms_vm s) b = Some y" "snd (snd (snd y)) = snd (snd (snd x))"
        by (rule fault_filled_page [OF inv'(1) fill x])
      then show ?thesis using inv unfolding aspace_inv_def by metis
    qed
    then show ?thesis using inv s'(1) sub(2) exclusive_fill [OF inv'(2) fill sub(1)] unfolding aspace_inv_def by metis
  qed
qed

lemma mprotect_aspace:
  assumes inv: "aspace_inv mp s" and run: "mprotect mp addr sz prot s = Some (r, s')"
  shows "aspace_inv mp s'"
proof -
  have inv': "mm_inv mp s" "exclusive s" using inv by (simp_all add: aspace_inv_def)
  have s': "mm_inv mp s'" "ms_fa s' = ms_fa s" "next_addr (ms_vm s') = next_addr (ms_vm s)"
    using mprotect_cases [OF inv'(1) run] by simp_all
  have old: "\<exists>y. page_at (ms_vm s) b = Some y \<and> snd y = snd x" if "page_at (ms_vm s') b = Some x" for b x
  proof (cases r)
    case (Inl er)
    then show ?thesis using mprotect_cases [OF inv'(1) run] that by simp
  next
    case (Inr u)
    then obtain v where "page_at (ms_vm s') b = (if in_vma v b then map_option (reprotect prot) (page_at (ms_vm s) b) else page_at (ms_vm s) b)"
      using mprotect_cases [OF inv'(1) run] by auto
    then show ?thesis using that by (cases "page_at (ms_vm s) b") (auto simp: reprotect_def split: if_splits)
  qed
  have "exclusive s'"
    unfolding exclusive_def s'(2) frame_of_def
    using old inv'(2) unfolding exclusive_def frame_of_def by metis
  moreover have "b < 2 ^ 62 \<and> \<not> snd (snd (snd x))" if "page_at (ms_vm s') b = Some x" for b x
    using old [OF that] inv unfolding aspace_inv_def by metis
  ultimately show ?thesis using s'(1,3) inv unfolding aspace_inv_def by metis
qed

lemma cow_aspace:
  assumes "aspace_inv mp s" and "handle_cow_page_fault mp a old s = Some (r, s')"
  shows "s' = s"
proof -
  have "handle_cow_page_fault mp a old s = Some (Inl Invalid, s) \<or> handle_cow_page_fault mp a old s = Some (Inl PermissionDenied, s)"
    by (rule cow_fault_unmarked) (use assms(1) in \<open>unfold aspace_inv_def, blast+\<close>)
  then show ?thesis using assms(2) by auto
qed

lemma sys_mmap_mmap: "sys_mmap mp hint sz prot flags s = Some (r, s') \<Longrightarrow>
    s' = s \<or> mmap mp hint sz (from_prot prot) (from_flags flags) s = Some (r, s')"
  by (auto simp: sys_mmap_def split: if_splits)

lemma aspace_inv_start:
  assumes "ms_vm s = vm_new" and "phys_inv (ms_fa s)"
  shows "aspace_inv mp s"
proof -
  have "page_at vm_new a = None" for a by (simp add: page_at_def vm_new_def vma_values_def)
  moreover have "vm_inv vm_new" by (simp add: vm_inv_def vm_new_def vma_values_def)
  moreover have "paged (next_addr vm_new)" by (simp add: paged_def vm_new_def MMAP_BASE_def)
  moreover have "vma_values vm_new = []" by (simp add: vm_new_def vma_values_def)
  ultimately show ?thesis using assms by (simp add: aspace_inv_def mm_inv_def exclusive_def)
qed

lemma mm_reach_inv: "mm_reach mp s \<Longrightarrow> mapper_ok mp \<Longrightarrow> aspace_inv mp s"
proof (induction rule: mm_reach.induct)
  case (reach_mmap s hint sz prot flags r s')
  then show ?case using sys_mmap_mmap [OF reach_mmap.hyps(2)] mmap_aspace by blast
next
  case (reach_cow s addr old r s')
  then show ?case using cow_aspace by blast
qed (auto simp: sys_munmap_def sys_mprotect_def intro: aspace_inv_start munmap_aspace mprotect_aspace fault_aspace)

subsection \<open>An address space as a map of ranges\<close>

text \<open>The contract of an address space for its clients: a range is removed, or replaced by fresh pages, and nothing
  else changes.  \<open>fits\<close> says which ranges may be asked for.\<close>

locale range_map =
  fixes inv :: "'s \<Rightarrow> bool" and pages :: "'s \<Rightarrow> nat \<Rightarrow> 'p option" and fits :: "nat \<Rightarrow> nat \<Rightarrow> bool"
    and unmap :: "nat \<Rightarrow> nat \<Rightarrow> 's \<Rightarrow> 's option" and place :: "'p \<Rightarrow> nat \<Rightarrow> nat \<Rightarrow> 's \<Rightarrow> 's option" and fresh :: "'p \<Rightarrow> bool"
  assumes unmap_ok: "inv s \<Longrightarrow> fits a n \<Longrightarrow>
      \<exists>s'. unmap a n s = Some s' \<and> inv s' \<and> pages s' = (\<lambda>x. if a \<le> x \<and> x < a + n then None else pages s x)"
    and place_ok: "inv s \<Longrightarrow> fits a n \<Longrightarrow> fresh p \<Longrightarrow>
      \<exists>s'. place p a n s = Some s' \<and> inv s' \<and> pages s' = (\<lambda>x. if a \<le> x \<and> x < a + n then Some p else pages s x)"
begin

text \<open>Requests of a client and what they do to the map of pages.\<close>

definition request :: "'p option \<times> nat \<times> nat \<Rightarrow> 's \<Rightarrow> 's option" where
  "request r s = (case r of (None, a, n) \<Rightarrow> unmap a n s | (Some p, a, n) \<Rightarrow> place p a n s)"

definition abstract_request :: "'p option \<times> nat \<times> nat \<Rightarrow> (nat \<Rightarrow> 'p option) \<Rightarrow> nat \<Rightarrow> 'p option" where
  "abstract_request r f = (case r of (q, a, n) \<Rightarrow> (\<lambda>x. if a \<le> x \<and> x < a + n then q else f x))"

definition admissible :: "'p option \<times> nat \<times> nat \<Rightarrow> bool" where
  "admissible r \<longleftrightarrow> (case r of (q, a, n) \<Rightarrow> fits a n \<and> (\<forall>p. q = Some p \<longrightarrow> fresh p))"

lemma request_ok:
  assumes "inv s" and "admissible r"
  shows "\<exists>s'. request r s = Some s' \<and> inv s' \<and> pages s' = abstract_request r (pages s)"
proof (cases r)
  case (fields q a n)
  then show ?thesis
    using assms unmap_ok [of s a n] place_ok [of s a n]
    by (cases q) (auto simp: request_def abstract_request_def admissible_def)
qed

text \<open>Every sequence of admissible requests succeeds and is the fold of the abstract ones.\<close>

lemma requests_refine:
  assumes "inv s" and "\<forall>r \<in> set rs. admissible r"
  shows "\<exists>s'. for_each request rs s = Some s' \<and> inv s' \<and> pages s' = fold abstract_request rs (pages s)"
  using assms
proof (induction rs arbitrary: s)
  case (Cons r rs)
  then obtain t where t: "request r s = Some t" "inv t" "pages t = abstract_request r (pages s)"
    using request_ok [of s r] by auto
  from Cons.IH [OF t(2)] Cons.prems(2) obtain s' where "for_each request rs t = Some s'" "inv s'"
    "pages s' = fold abstract_request rs (pages t)" by auto
  then show ?case using t by auto
qed simp

text \<open>What a later request covers hides the earlier one.\<close>

lemma request_hides:
  assumes "inv s" and "admissible (q, a, n)" and "admissible (q', a, n)"
  shows "\<exists>s1 s2 s3. request (q, a, n) s = Some s1 \<and> request (q', a, n) s1 = Some s2 \<and> request (q', a, n) s = Some s3
    \<and> pages s2 = pages s3"
proof -
  obtain s1 where s1: "request (q, a, n) s = Some s1" "inv s1" "pages s1 = abstract_request (q, a, n) (pages s)"
    using request_ok [OF assms(1,2)] by blast
  obtain s2 where s2: "request (q', a, n) s1 = Some s2" "pages s2 = abstract_request (q', a, n) (pages s1)"
    using request_ok [OF s1(2) assms(3)] by blast
  obtain s3 where s3: "request (q', a, n) s = Some s3" "pages s3 = abstract_request (q', a, n) (pages s)"
    using request_ok [OF assms(1,3)] by blast
  have "pages s2 = pages s3" unfolding s2(2) s3(2) s1(3) by (auto simp: abstract_request_def)
  then show ?thesis using s1(1) s2(1) s3(1) by blast
qed

end

text \<open>The operations of the code in the form of the contract: \<open>munmap\<close>, and \<open>mmap\<close> with \<open>MAP_FIXED\<close>.\<close>

definition succeeded :: "('a KResult \<times> 's) option \<Rightarrow> 's option" where
  "succeeded r = (case r of Some (Inr _, s) \<Rightarrow> Some s | _ \<Rightarrow> None)"

definition unmap_range :: "'pt Mapper \<Rightarrow> nat \<Rightarrow> nat \<Rightarrow> 'pt MmState \<Rightarrow> 'pt MmState option" where
  "unmap_range mp a n s = succeeded (munmap mp a n s)"

definition map_range :: "'pt Mapper \<Rightarrow> page_info \<Rightarrow> nat \<Rightarrow> nat \<Rightarrow> 'pt MmState \<Rightarrow> 'pt MmState option" where
  "map_range mp p a n s = succeeded (mmap mp a n (fst p) (fst (snd p)) s)"

definition user_range :: "nat \<Rightarrow> nat \<Rightarrow> bool" where
  "user_range a n \<longleftrightarrow> a \<noteq> 0 \<and> a mod 4096 = 0 \<and> 0 < n \<and> n mod 4096 = 0 \<and> a + n \<le> VTOP"

definition fresh_fixed :: "page_info \<Rightarrow> bool" where
  "fresh_fixed p \<longleftrightarrow> mf_fixed (fst (snd p)) \<and> snd (snd p) = (None, False)"

interpretation aspace: range_map "mm_inv mp" "\<lambda>s. page_at (ms_vm s)" user_range "unmap_range mp" "map_range mp" fresh_fixed
  for mp :: "'pt Mapper"
proof
  fix s :: "'pt MmState" and a n :: nat and p :: page_info
  assume inv: "mm_inv mp s" and fit: "user_range a n"
  have al: "align_up n = Some n" using fit by (intro aligned_up_id) (auto simp: user_range_def)
  have u: "a mod 4096 = 0" "0 < n" "a + n \<le> U64_MAX" "a + n \<le> VTOP" "a \<noteq> 0" using fit MMAP_LIMIT_bounds(3) by (auto simp: user_range_def)
  show "\<exists>s'. unmap_range mp a n s = Some s' \<and> mm_inv mp s'
      \<and> page_at (ms_vm s') = (\<lambda>x. if a \<le> x \<and> x < a + n then None else page_at (ms_vm s) x)"
    using munmap_ok [OF inv u(1,2) al u(3)] unfolding unmap_range_def succeeded_def by (elim exE conjE) auto
  show "\<exists>s'. map_range mp p a n s = Some s' \<and> mm_inv mp s'
      \<and> page_at (ms_vm s') = (\<lambda>x. if a \<le> x \<and> x < a + n then Some p else page_at (ms_vm s) x)" if fr: "fresh_fixed p"
  proof -
    obtain prot flags where p: "p = (prot, flags, None, False)" "mf_fixed flags" using fr by (cases p) (auto simp: fresh_fixed_def)
    show ?thesis
      using mmap_fixed_ok [OF inv u(2) al p(2) u(5,1,4), of prot] unfolding map_range_def succeeded_def p(1) by (elim exE conjE) auto
  qed
qed

subsection \<open>A concrete address space\<close>

text \<open>Page tables as a finite map that accepts the addresses of the lower canonical half and needs no frames of
  its own, and an empty address space over 64 free frames.\<close>

definition demo_mapper :: "(nat \<rightharpoonup> phys_frame \<times> PageFlags) Mapper" where
  "demo_mapper = \<lparr>virt_addr_new = (\<lambda>a. if a < 2 ^ 47 then Some a else None),
     map_page = (\<lambda>p f fl pt fa. (Inr (), pt(p \<mapsto> (f, fl)), fa)), unmap_page = (\<lambda>p pt. pt(p := None)),
     update_page_flags = (\<lambda>p fl pt. case pt p of None \<Rightarrow> pt | Some (f, _) \<Rightarrow> pt(p \<mapsto> (f, fl)))\<rparr>"

definition demo_space :: "(nat \<rightharpoonup> phys_frame \<times> PageFlags) MmState" where
  "demo_space = \<lparr>ms_vm = vm_new, ms_pt = Map.empty, ms_fa = all_free 1 0, ms_mem = (\<lambda>_. 7), ms_cow = cow_new\<rparr>"

definition demo_rw :: Protection where
  "demo_rw = \<lparr>p_read = True, p_write = True, p_exec = False\<rparr>"

definition demo_flags :: MapFlags where
  "demo_flags = \<lparr>mf_shared = False, mf_private = True, mf_anonymous = True, mf_fixed = False\<rparr>"

lemma demo_mapper_ok: "mapper_ok demo_mapper"
  by (simp add: mapper_ok_def demo_mapper_def)

lemma demo_space_sel: "ms_vm demo_space = vm_new" "ms_fa demo_space = all_free 1 0" "phys_inv (ms_fa demo_space)"
  by (simp_all add: demo_space_def phys_inv_all_free)

lemma demo_space_inv: "aspace_inv demo_mapper demo_space" "settled demo_mapper demo_space"
proof -
  show inv: "aspace_inv demo_mapper demo_space" by (rule aspace_inv_start) (rule demo_space_sel(1,3))+
  have "areas demo_space = []" "next_addr (ms_vm demo_space) = MMAP_BASE" by (simp_all add: demo_space_sel vm_new_def vma_values_def)
  then show "settled demo_mapper demo_space"
    using inv by (simp add: settled_def aspace_inv_def unstraddled_def below_def MMAP_BASE_def)
qed

text \<open>The address space with two pages at \<open>MMAP_BASE\<close>.\<close>

definition demo_two :: "(nat \<rightharpoonup> phys_frame \<times> PageFlags) MmState" where
  "demo_two = enter_area (fresh_vma MMAP_BASE 8192 demo_rw demo_flags) demo_space"

lemma demo_two_props:
  "aspace_inv demo_mapper demo_two" "areas demo_two = [fresh_vma MMAP_BASE 8192 demo_rw demo_flags]"
  "page_at (ms_vm demo_two) x = (if MMAP_BASE \<le> x \<and> x < MMAP_BASE + 8192 then Some (demo_rw, demo_flags, None, False) else None)"
  "settled demo_mapper demo_two" "next_addr (ms_vm demo_two) = MMAP_BASE + 8192" "ms_fa demo_two = all_free 1 0"
proof -
  have e: "areas demo_space = []" "next_addr (ms_vm demo_space) = MMAP_BASE" "mm_inv demo_mapper demo_space"
    using demo_space_inv(1) by (simp_all add: demo_space_sel vm_new_def vma_values_def aspace_inv_def)
  have al: "MMAP_BASE mod 4096 = 0" "(8192 :: nat) mod 4096 = 0" "(0 :: nat) < 8192" "MMAP_BASE + 8192 \<le> 2 ^ 62" "MMAP_BASE + 8192 \<le> VTOP"
    by (simp_all add: MMAP_BASE_def VTOP_def)
  have fr: "free_at (areas demo_space) 8192 MMAP_BASE" by (simp add: e free_at_def)
  have run: "mmap_at MMAP_BASE 8192 demo_rw demo_flags demo_space = Some (Inr MMAP_BASE, demo_two)"
    unfolding demo_two_def by (rule mmap_at_eq) (use al in simp_all)
  have v: "vma_ok (fresh_vma MMAP_BASE 8192 demo_rw demo_flags)" using al(1-3,5) by (rule fresh_vma_ok)
  note ent = enter_fresh_ok [OF e(3) v al(2) fr, folded demo_two_def]
  show "aspace_inv demo_mapper demo_two" by (rule enter_aspace [OF demo_space_inv(1) al(1-4) fr run])
  show "areas demo_two = [fresh_vma MMAP_BASE 8192 demo_rw demo_flags]"
    unfolding demo_two_def enter_area_sel by (simp add: insert_vma_def vma_values_def demo_space_sel vm_new_def)
  have "page_at (ms_vm demo_space) x = None" by (simp add: page_at_def e)
  then show "page_at (ms_vm demo_two) x = (if MMAP_BASE \<le> x \<and> x < MMAP_BASE + 8192 then Some (demo_rw, demo_flags, None, False) else None)"
    by (simp add: ent(3))
  show "settled demo_mapper demo_two"
    unfolding demo_two_def by (rule enter_settled [OF demo_space_inv(2) v al(2) fr al(4)]) (simp add: e)
  show "next_addr (ms_vm demo_two) = MMAP_BASE + 8192" "ms_fa demo_two = all_free 1 0"
    unfolding demo_two_def enter_area_sel e by (simp_all add: demo_space_sel)
qed

lemma demo_virt: "virt_addr_new demo_mapper (align_down MMAP_BASE) \<noteq> None"
  by (simp add: demo_mapper_def MMAP_BASE_def align_down_def PAGE_SIZE_def)

lemma demo_not_refused: "\<not> fault_refused demo_mapper MMAP_BASE demo_two er"
proof -
  have "free_addrs (all_free 1 0) \<noteq> {}" by (auto simp: free_addrs_def free_set_all_free lessThan_empty_iff)
  then show ?thesis
    by (simp add: fault_refused_def demo_two_props(3,6) frame_of_def) (simp add: demo_mapper_def)
qed

lemma demo_two_reach: "mm_reach demo_mapper demo_two"
proof -
  have start: "mm_reach demo_mapper demo_space" by (rule reach_start) (rule demo_space_sel)+
  have f: "from_prot 3 = demo_rw" "from_flags 0x22 = demo_flags"
    by (simp_all add: from_prot_def from_flags_def demo_rw_def demo_flags_def)
  have "areas demo_space = []" "next_addr (ms_vm demo_space) = MMAP_BASE"
    by (simp_all add: demo_space_sel vm_new_def vma_values_def)
  then have "choose_addr 0 8192 (ms_vm demo_space) = Some (Inr MMAP_BASE)"
    by (simp add: choose_addr_def find_free_region_def find_free_loop.simps align_up_def add64_def U64_MAX_def align_down_def
        PAGE_SIZE_def MMAP_BASE_def MMAP_LIMIT_def)
  moreover have "align_up 8192 = Some 8192" "\<not> mf_fixed demo_flags" "mf_anonymous demo_flags"
    by (simp_all add: align_up_def add64_def U64_MAX_def align_down_def PAGE_SIZE_def demo_flags_def)
  moreover have "mmap_at MMAP_BASE 8192 demo_rw demo_flags demo_space = Some (Inr MMAP_BASE, demo_two)"
    unfolding demo_two_def by (rule mmap_at_eq) (simp_all add: MMAP_BASE_def VTOP_def)
  ultimately have "sys_mmap demo_mapper 0 8192 3 0x22 demo_space = Some (Inr MMAP_BASE, demo_two)"
    by (simp add: sys_mmap_def f mmap_unfixed)
  then show ?thesis by (rule reach_mmap [OF start]) simp
qed

text \<open>The same address space after the first page has been touched.\<close>

lemma demo_filled:
  obtains s f where "handle_page_fault demo_mapper MMAP_BASE demo_two = Some (Inr (), s)" "mm_reach demo_mapper s"
    "page_at (ms_vm s) MMAP_BASE = Some (demo_rw, demo_flags, Some f, False)"
proof -
  have "mm_inv demo_mapper demo_two" using demo_two_props(1) by (simp add: aspace_inv_def)
  then obtain r s where r: "handle_page_fault demo_mapper MMAP_BASE demo_two = Some (r, s)"
    "case r of Inr _ \<Rightarrow> fault_filled MMAP_BASE demo_two s | Inl er \<Rightarrow> fault_refused demo_mapper MMAP_BASE demo_two er"
    using handle_page_fault_cases [OF _ demo_mapper_ok, of demo_two MMAP_BASE] demo_virt by (fastforce split: sum.splits)
  then have "r = Inr ()" "fault_filled MMAP_BASE demo_two s"
    using demo_not_refused by (auto split: sum.splits)
  then obtain f where "page_at (ms_vm s) MMAP_BASE = Some (demo_rw, demo_flags, Some f, False)"
    by (auto simp: fault_filled_def demo_two_props(3))
  then show ?thesis using that r(1) \<open>r = Inr ()\<close> reach_fault [OF demo_two_reach] by blast
qed

subsection \<open>Properties\<close>

text \<open>C3. \<open>munmap\<close> removes exactly the pages of the range from the address space, however the range cuts the
  areas it meets (whole areas, a hole in the middle, a head or a tail): every other page keeps its protection,
  flags, frame and copy-on-write mark; the frames of the removed pages, and no other frame, are given back to
  the allocator; the areas stay disjoint, ordered and well formed; and no panic is reached.\<close>

theorem munmap_removes_range:
  assumes "mm_inv mp s" and "addr mod 4096 = 0" and "0 < sz" and "align_up sz = Some n" and "addr + n \<le> U64_MAX"
  shows "\<exists>s'. munmap mp addr sz s = Some (Inr (), s') \<and> mm_inv mp s'
    \<and> (\<forall>a. page_at (ms_vm s') a = (if addr \<le> a \<and> a < addr + n then None else page_at (ms_vm s) a))
    \<and> free_addrs (ms_fa s') = free_addrs (ms_fa s)
        \<union> {f. \<exists>a pr fl c. addr \<le> a \<and> a < addr + n \<and> paged a \<and> page_at (ms_vm s) a = Some (pr, fl, Some f, c)}
    \<and> next_addr (ms_vm s') = next_addr (ms_vm s) \<and> ms_mem s' = ms_mem s"
  using munmap_ok [OF assms] unfolding range_frames_def same_rest_def
  by (elim exE conjE) (intro exI conjI; assumption)

theorem munmap_removes_range_witness:
  "\<exists>s'. munmap demo_mapper (MMAP_BASE + 4096) 1 demo_two = Some (Inr (), s')
     \<and> page_at (ms_vm s') MMAP_BASE = Some (demo_rw, demo_flags, None, False) \<and> page_at (ms_vm s') (MMAP_BASE + 4096) = None"
proof -
  have "mm_inv demo_mapper demo_two" using demo_two_props(1) by (simp add: aspace_inv_def)
  moreover have "(MMAP_BASE + 4096) mod 4096 = 0" "align_up 1 = Some 4096" "MMAP_BASE + 4096 + 4096 \<le> U64_MAX"
    by (simp_all add: MMAP_BASE_def align_up_def add64_def U64_MAX_def align_down_def PAGE_SIZE_def)
  ultimately obtain s' where s': "munmap demo_mapper (MMAP_BASE + 4096) 1 demo_two = Some (Inr (), s')"
    "\<forall>a. page_at (ms_vm s') a = (if MMAP_BASE + 4096 \<le> a \<and> a < MMAP_BASE + 4096 + 4096 then None else page_at (ms_vm demo_two) a)"
    using munmap_removes_range [of demo_mapper demo_two "MMAP_BASE + 4096" 1 4096] by auto
  then show ?thesis by (simp add: demo_two_props(3))
qed

text \<open>C6. \<open>mmap\<close> without a hint always returns on a settled address space (no area lies across the cursor
  of the search, which holds after every sequence of such calls and of \<open>munmap\<close>): it returns the lowest free
  page-aligned region at or behind the cursor below \<open>MMAP_LIMIT\<close>, adds exactly its pages, none of which was
  mapped and none of which has a frame yet, and leaves the address space settled; it answers \<open>NoMemory\<close>, changing
  nothing, only when there is no such region.\<close>

theorem mmap_first_fit:
  assumes st: "settled mp s" and sz: "0 < sz" and al: "align_up sz = Some n" and n: "n \<le> 2 ^ 62" and fl: "\<not> mf_fixed flags"
  shows "\<exists>r s'. mmap mp 0 sz prot flags s = Some (r, s') \<and> settled mp s' \<and> (case r of
      Inr a \<Rightarrow> paged a \<and> next_addr (ms_vm s) \<le> a \<and> a + n \<le> MMAP_LIMIT \<and> (\<forall>x. a \<le> x \<and> x < a + n \<longrightarrow> page_at (ms_vm s) x = None)
        \<and> (\<forall>b. next_addr (ms_vm s) \<le> b \<and> b < a \<longrightarrow> (\<exists>x. b \<le> x \<and> x < b + n \<and> page_at (ms_vm s) x \<noteq> None))
        \<and> (\<forall>x. page_at (ms_vm s') x = (if a \<le> x \<and> x < a + n then Some (prot, flags, None, False) else page_at (ms_vm s) x))
    | Inl er \<Rightarrow> er = NoMemory \<and> s' = s
        \<and> (\<forall>b. next_addr (ms_vm s) \<le> b \<and> b + n \<le> MMAP_LIMIT \<longrightarrow> (\<exists>x. b \<le> x \<and> x < b + n \<and> page_at (ms_vm s) x \<noteq> None)))"
proof -
  have n': "n mod 4096 = 0" "0 < n" using align_up_pos [OF al sz] by auto
  have inv: "mm_inv mp s" and ok: "areas_ok (areas s)" using st by (auto simp: settled_def mm_inv_def vm_inv_iff)
  note free = free_at_page_at [OF ok n'(2)]
  obtain r where r: "find_free_region n (ms_vm s) = Some r" "first_free (areas s) n (next_addr (ms_vm s)) r"
    using search_total [OF st n'(1) n] by blast
  have "choose_addr 0 n (ms_vm s) = Some (case r of None \<Rightarrow> Inl NoMemory | Some a \<Rightarrow> Inr a)"
    using r(1) by (simp add: choose_addr_def)
  then have run: "mmap mp 0 sz prot flags s = (case r of None \<Rightarrow> Some (Inl NoMemory, s) | Some a \<Rightarrow> mmap_at a n prot flags s)"
    unfolding mmap_unfixed [OF sz al fl] by (simp split: option.split)
  show ?thesis
  proof (cases r)
    case None
    then show ?thesis using run st r(2) unfolding first_free_def free by auto
  next
    case (Some a)
    then have a: "next_addr (ms_vm s) \<le> a" "a mod 4096 = 0" "a + n \<le> MMAP_LIMIT" "free_at (areas s) n a"
      "\<forall>b. next_addr (ms_vm s) \<le> b \<and> b < a \<longrightarrow> \<not> free_at (areas s) n b"
      using r(2) by (simp_all add: first_free_def)
    have hi: "a + n \<le> 2 ^ 62" "a + n \<le> VTOP" using a(3) MMAP_LIMIT_bounds by linarith+
    have v: "vma_ok (fresh_vma a n prot flags)" using a(2) n' hi(2) by (rule fresh_vma_ok)
    have "mmap mp 0 sz prot flags s = Some (Inr a, enter_area (fresh_vma a n prot flags) s)"
      using run Some by (simp add: mmap_at_eq [OF a(2) n'(1) hi(2)])
    moreover have "settled mp (enter_area (fresh_vma a n prot flags) s)"
      by (rule enter_settled [OF st v n'(1) a(4) hi(1)]) (simp add: a(1))
    moreover note enter_fresh_ok(3) [OF inv v n'(1) a(4)] a(1,3) a(4,5) [unfolded free]
    moreover have "paged a" using a(2) by (simp add: paged_def)
    ultimately show ?thesis by (intro exI conjI) (assumption | simp)+
  qed
qed

theorem mmap_first_fit_witness:
  "settled demo_mapper demo_two \<and> (\<exists>s'. mmap demo_mapper 0 5000 demo_rw demo_flags demo_two = Some (Inr (MMAP_BASE + 8192), s')
     \<and> page_at (ms_vm s') (MMAP_BASE + 8192) = Some (demo_rw, demo_flags, None, False))"
proof -
  have al: "align_up 5000 = Some 8192" by (simp add: align_up_def add64_def U64_MAX_def align_down_def PAGE_SIZE_def)
  obtain r s' where r: "mmap demo_mapper 0 5000 demo_rw demo_flags demo_two = Some (r, s')" "case r of
      Inr a \<Rightarrow> MMAP_BASE + 8192 \<le> a \<and> (\<forall>b. MMAP_BASE + 8192 \<le> b \<and> b < a \<longrightarrow> (\<exists>x. b \<le> x \<and> x < b + 8192 \<and> page_at (ms_vm demo_two) x \<noteq> None))
        \<and> (\<forall>x. page_at (ms_vm s') x = (if a \<le> x \<and> x < a + 8192 then Some (demo_rw, demo_flags, None, False) else page_at (ms_vm demo_two) x))
    | Inl er \<Rightarrow> \<forall>b. MMAP_BASE + 8192 \<le> b \<and> b + 8192 \<le> MMAP_LIMIT \<longrightarrow> (\<exists>x. b \<le> x \<and> x < b + 8192 \<and> page_at (ms_vm demo_two) x \<noteq> None)"
    using mmap_first_fit [OF demo_two_props(4) _ al, of demo_flags demo_rw]
    by (fastforce simp: demo_two_props(5) demo_flags_def split: sum.splits)
  have unm: "page_at (ms_vm demo_two) x = None" if "MMAP_BASE + 8192 \<le> x" for x using that by (simp add: demo_two_props(3))
  show ?thesis
  proof (cases r)
    case (Inl er)
    have "MMAP_BASE + 8192 \<le> MMAP_BASE + 8192 \<and> MMAP_BASE + 8192 + 8192 \<le> MMAP_LIMIT" by (simp add: MMAP_BASE_def MMAP_LIMIT_def)
    then show ?thesis using r(2) Inl unm by fastforce
  next
    case (Inr a)
    then have "a = MMAP_BASE + 8192" using r(2) unm by (fastforce simp: not_less)
    then show ?thesis using r Inr demo_two_props(4) by simp
  qed
qed

text \<open>C8. Whatever sequence of \<open>munmap\<close> and \<open>MAP_FIXED\<close> \<open>mmap\<close> calls on page-aligned user ranges a program makes, every
  call succeeds and the address space is the one that the sequence of abstract updates gives: a removed range is
  unmapped, a mapped range has the new protection and flags, no frames and no copy-on-write marks, and every
  address outside the ranges keeps its page.\<close>

theorem range_calls_refine:
  assumes "mm_inv mp s" and "\<forall>(q, a, n) \<in> set rs. user_range a n \<and> (\<forall>p. q = Some p \<longrightarrow> fresh_fixed p)"
  shows "\<exists>s'. for_each (\<lambda>(q, a, n). case q of None \<Rightarrow> unmap_range mp a n | Some p \<Rightarrow> map_range mp p a n) rs s = Some s' \<and> mm_inv mp s'
    \<and> page_at (ms_vm s') = fold (\<lambda>(q, a, n) f x. if a \<le> x \<and> x < a + n then q else f x) rs (page_at (ms_vm s))"
proof -
  have req: "aspace.request mp = (\<lambda>(q, a, n). case q of None \<Rightarrow> unmap_range mp a n | Some p \<Rightarrow> map_range mp p a n)"
    by (intro ext) (simp add: aspace.request_def split: prod.split option.split)
  have abs: "aspace.abstract_request = (\<lambda>(q, a, n) f x. if a \<le> x \<and> x < a + n then q else f x)"
    by (intro ext) (simp add: aspace.abstract_request_def split: prod.split)
  have "\<forall>r \<in> set rs. aspace.admissible r" using assms(2) by (auto simp: aspace.admissible_def)
  from aspace.requests_refine [OF assms(1) this] show ?thesis unfolding req abs .
qed

theorem range_calls_refine_witness:
  "\<exists>s'. for_each (\<lambda>(q, a, n). case q of None \<Rightarrow> unmap_range demo_mapper a n | Some p \<Rightarrow> map_range demo_mapper p a n)
      [(None, MMAP_BASE, 4096), (Some (demo_rw, demo_flags\<lparr>mf_fixed := True\<rparr>, None, False), MMAP_BASE + 4096, 8192)] demo_two = Some s'
     \<and> page_at (ms_vm s') MMAP_BASE = None
     \<and> page_at (ms_vm s') (MMAP_BASE + 8192) = Some (demo_rw, demo_flags\<lparr>mf_fixed := True\<rparr>, None, False)"
proof -
  let ?rs = "[(None, MMAP_BASE, 4096), (Some (demo_rw, demo_flags\<lparr>mf_fixed := True\<rparr>, None, False), MMAP_BASE + 4096, 8192)]"
  have inv: "mm_inv demo_mapper demo_two" using demo_two_props(1) by (simp add: aspace_inv_def)
  have "\<forall>(q, a, n) \<in> set ?rs. user_range a n \<and> (\<forall>p. q = Some p \<longrightarrow> fresh_fixed p)"
    by (simp add: user_range_def fresh_fixed_def MMAP_BASE_def VTOP_def)
  from range_calls_refine [OF inv this] show ?thesis by auto
qed

text \<open>C1. No frame is ever used twice in an address space built by system calls and page faults: two pages that
  record the same frame are the same page, and a frame that a page records is not free in the allocator, so that
  it cannot be handed out again.\<close>

theorem page_frames_exclusive:
  assumes "mm_reach mp s" and "mapper_ok mp" and "page_at (ms_vm s) a = Some (pr, fl, Some f, c)"
  shows "f \<notin> free_addrs (ms_fa s) \<and> (\<forall>b pr' fl' c'. page_at (ms_vm s) b = Some (pr', fl', Some f, c') \<longrightarrow> align_down b = align_down a)"
proof -
  have "exclusive s" using mm_reach_inv [OF assms(1,2)] by (simp add: aspace_inv_def)
  then show ?thesis using assms(3) unfolding exclusive_def frame_of_def by fastforce
qed

theorem page_frames_exclusive_witness:
  "\<exists>s f. handle_page_fault demo_mapper MMAP_BASE demo_two = Some (Inr (), s)
     \<and> page_at (ms_vm s) MMAP_BASE = Some (demo_rw, demo_flags, Some f, False) \<and> f \<notin> free_addrs (ms_fa s)"
proof -
  obtain s f where s: "handle_page_fault demo_mapper MMAP_BASE demo_two = Some (Inr (), s)" "mm_reach demo_mapper s"
    "page_at (ms_vm s) MMAP_BASE = Some (demo_rw, demo_flags, Some f, False)"
    by (rule demo_filled)
  then show ?thesis using page_frames_exclusive [OF s(2) demo_mapper_ok s(3)] by blast
qed

text \<open>A fault on a page that has no frame yet fills exactly that page: the frame was free and no longer is,
  it is zeroed when the mapping is anonymous, and no other page changes.  An error leaves the areas as they were;
  its reason is an unmapped address, a page that already has a frame, an exhausted allocator, or the page tables.
  The handler panics only for an address that the page tables do not accept.\<close>

theorem page_fault_fills:
  assumes "mm_inv mp s" and "mapper_ok mp" and "virt_addr_new mp (align_down a) \<noteq> None"
  shows "\<exists>r s'. handle_page_fault mp a s = Some (r, s') \<and> mm_inv mp s' \<and> free_addrs (ms_fa s') \<subseteq> free_addrs (ms_fa s)
    \<and> (case r of Inl er \<Rightarrow> ms_vm s' = ms_vm s \<and> fault_refused mp a s er
       | Inr _ \<Rightarrow> \<exists>prot flags c f. page_at (ms_vm s) a = Some (prot, flags, None, c) \<and> f \<in> free_addrs (ms_fa s) \<and> f \<notin> free_addrs (ms_fa s')
         \<and> (\<forall>b. page_at (ms_vm s') b = (if align_down b = align_down a then Some (prot, flags, Some f, c) else page_at (ms_vm s) b))
         \<and> ms_mem s' = (if mf_anonymous flags then zero_page f (ms_mem s) else ms_mem s))"
  using handle_page_fault_cases [OF assms(1,2), of a] assms(3) unfolding fault_filled_def fault_kept_def by blast

theorem page_fault_fills_witness:
  "\<exists>s f. handle_page_fault demo_mapper MMAP_BASE demo_two = Some (Inr (), s) \<and> f \<in> free_addrs (all_free 1 0) \<and> f \<notin> free_addrs (ms_fa s)
     \<and> page_at (ms_vm s) MMAP_BASE = Some (demo_rw, demo_flags, Some f, False) \<and> ms_mem s f = 0"
proof -
  have inv: "mm_inv demo_mapper demo_two" using demo_two_props(1) by (simp add: aspace_inv_def)
  obtain r s where r: "handle_page_fault demo_mapper MMAP_BASE demo_two = Some (r, s)"
    "case r of Inl er \<Rightarrow> fault_refused demo_mapper MMAP_BASE demo_two er
     | Inr _ \<Rightarrow> \<exists>f. f \<in> free_addrs (ms_fa demo_two) \<and> f \<notin> free_addrs (ms_fa s)
        \<and> page_at (ms_vm s) MMAP_BASE = Some (demo_rw, demo_flags, Some f, False) \<and> ms_mem s = zero_page f (ms_mem demo_two)"
    using page_fault_fills [OF inv demo_mapper_ok demo_virt]
    by (fastforce simp: demo_two_props(3) demo_flags_def split: sum.splits)
  then have "r = Inr ()" using demo_not_refused by (auto split: sum.splits)
  then show ?thesis using r by (auto simp: demo_two_props(6) zero_page_def)
qed

text \<open>\<open>mprotect\<close> of a part of an area changes the recorded protection of the whole area, also of the pages
  outside the requested range; nothing else of the pages changes.\<close>

theorem mprotect_whole_area:
  assumes "mm_inv mp s" and "mprotect mp addr sz prot s = Some (Inr (), s')"
  shows "mm_inv mp s' \<and> (\<exists>v \<in> set (areas s). in_vma v addr \<and> (\<forall>x. page_at (ms_vm s') x =
     (if in_vma v x then map_option (reprotect prot) (page_at (ms_vm s) x) else page_at (ms_vm s) x)))"
  using mprotect_cases [OF assms] by simp

theorem mprotect_whole_area_witness:
  "\<exists>s'. mprotect demo_mapper MMAP_BASE 4096 (demo_rw\<lparr>p_write := False\<rparr>) demo_two = Some (Inr (), s')
     \<and> page_at (ms_vm s') (MMAP_BASE + 4096) = Some (demo_rw\<lparr>p_write := False\<rparr>, demo_flags, None, False)"
proof -
  have inv: "mm_inv demo_mapper demo_two" using demo_two_props(1) by (simp add: aspace_inv_def)
  have vs: "vmas (ms_vm demo_two) = [(MMAP_BASE, fresh_vma MMAP_BASE 8192 demo_rw demo_flags)]"
    using inv demo_two_props(2) by (simp add: mm_inv_def vm_inv_iff keyed_def)
  have "\<exists>s'. mprotect demo_mapper MMAP_BASE 4096 (demo_rw\<lparr>p_write := False\<rparr>) demo_two = Some (Inr (), s')"
    by (simp add: mprotect_def vs vma_contains_def vma_end_def align_up_def add64_def U64_MAX_def align_down_def PAGE_SIZE_def
        MMAP_BASE_def Let_def demo_mapper_def)
  then obtain s' where s': "mprotect demo_mapper MMAP_BASE 4096 (demo_rw\<lparr>p_write := False\<rparr>) demo_two = Some (Inr (), s')" ..
  then have "page_at (ms_vm s') (MMAP_BASE + 4096) = Some (demo_rw\<lparr>p_write := False\<rparr>, demo_flags, None, False)"
    using mprotect_whole_area [OF inv s'] by (auto simp: demo_two_props(2,3) in_vma_def reprotect_def)
  then show ?thesis using s' by blast
qed

text \<open>The search for a free region can run forever: after a mapping placed by a hint across \<open>MMAP_BASE\<close>, every
  later \<open>mmap\<close> without a hint that could fit below the limit never returns, because an area that begins before the
  candidate address is never skipped.\<close>

theorem mmap_search_diverges:
  assumes "ms_vm s = vm_new" and "\<not> mf_fixed flags" and "0 < sz" and "align_up sz = Some n" and "MMAP_BASE + n \<le> MMAP_LIMIT"
  shows "\<exists>s'. mmap mp (MMAP_BASE - 4096) 8192 prot flags s = Some (Inr (MMAP_BASE - 4096), s')
    \<and> mmap mp 0 sz prot flags s' = None"
proof -
  let ?a = "MMAP_BASE - 4096" and ?v = "fresh_vma (MMAP_BASE - 4096) 8192 prot flags"
  let ?s = "enter_area ?v s"
  have al: "align_up 8192 = Some 8192" "?a mod 4096 = 0" "?a \<noteq> 0" "?a + 8192 \<le> VTOP" "?a < MMAP_BASE" "?a + 8192 = MMAP_BASE + 4096"
    by (simp_all add: align_up_def add64_def U64_MAX_def align_down_def PAGE_SIZE_def MMAP_BASE_def VTOP_def)
  have ch: "choose_addr ?a 8192 (ms_vm s) = Some (Inr ?a)"
    using al(2,3) by (simp add: choose_addr_def assms(1) vm_new_def vma_values_def)
  have 1: "mmap mp ?a 8192 prot flags s = Some (Inr ?a, ?s)"
    unfolding mmap_unfixed [OF _ al(1) assms(2), simplified] ch using al(2,4) by (simp add: mmap_at_eq)
  have vs: "areas ?s = [?v]" unfolding enter_area_sel by (simp add: insert_vma_def vma_values_def assms(1) vm_new_def)
  have nx: "next_addr (ms_vm ?s) = MMAP_BASE" unfolding enter_area_sel using al(5) by (simp add: assms(1) vm_new_def)
  have n: "n mod 4096 = 0" "0 < n" using align_up_pos [OF assms(4,3)] by auto
  have "n \<le> VTOP" using assms(5) MMAP_LIMIT_bounds by linarith
  then have aln: "align_up n = Some n" using n(1) by (intro aligned_up_id)
  have "vma_ok ?v" using al(2,4) by (intro fresh_vma_ok) simp_all
  then have ok: "areas_ok [?v]" by (simp add: areas_ok_def)
  have "find_free_loop [?v] n MMAP_BASE = None"
    using find_free_loop_stuck [OF ok assms(5) _ _ _ _ n(2)] al(5,6) by simp
  then have "choose_addr 0 n (ms_vm ?s) = None"
    by (simp add: choose_addr_def find_free_region_def aln vs nx)
  then have "mmap mp 0 sz prot flags ?s = None" unfolding mmap_unfixed [OF assms(3,4,2)] by simp
  then show ?thesis using 1 by blast
qed

theorem mmap_search_diverges_witness:
  "\<exists>s'. mmap demo_mapper (MMAP_BASE - 4096) 8192 demo_rw demo_flags demo_space = Some (Inr (MMAP_BASE - 4096), s')
    \<and> mmap demo_mapper 0 1 demo_rw demo_flags s' = None"
  by (rule mmap_search_diverges [OF demo_space_sel(1), of demo_flags 1 4096])
    (simp_all add: demo_flags_def align_up_def add64_def U64_MAX_def align_down_def PAGE_SIZE_def MMAP_BASE_def MMAP_LIMIT_def)

text \<open>The copy-on-write handler of the areas resolves no fault: in an address space built by system calls and
  faults no operation sets the copy-on-write mark of a page, so that the handler refuses every fault and changes
  nothing.\<close>

theorem cow_fault_never_resolved:
  assumes "mm_reach mp s" and "mapper_ok mp"
  shows "\<exists>er. handle_cow_page_fault mp a old s = Some (Inl er, s) \<and> er \<in> {Invalid, PermissionDenied}"
proof -
  have "aspace_inv mp s" using mm_reach_inv assms by blast
  then have "handle_cow_page_fault mp a old s = Some (Inl Invalid, s) \<or> handle_cow_page_fault mp a old s = Some (Inl PermissionDenied, s)"
    by (intro cow_fault_unmarked) (unfold aspace_inv_def, blast+)
  then show ?thesis by auto
qed

theorem cow_fault_never_resolved_witness:
  "\<exists>er. handle_cow_page_fault demo_mapper MMAP_BASE 4096 demo_two = Some (Inl er, demo_two) \<and> er \<in> {Invalid, PermissionDenied}"
  by (rule cow_fault_never_resolved [OF demo_two_reach demo_mapper_ok])

end
