(* ===== verification/Signal.thy ===== *)
theory Signal
  imports Syscall
begin

text \<open>
  Signals, \<^verbatim>\<open>kernel/src/signal.rs\<close>, with the system calls on them (\<^verbatim>\<open>syscall/mod.rs\<close>), the delivery on the
  way back to user mode (\<^verbatim>\<open>arch/x86_64_arch/syscall.rs\<close>) and the delivery from the scheduler
  (\<^verbatim>\<open>sched/mod.rs\<close>): pending and blocked masks, handlers, the frame that a handler runs on and the return
  from it.

  The masks are 64-bit words, the table of handlers a list of 64 entries.  User memory is the byte memory of
  \<open>Syscall\<close>; a frame is written field by field at the offsets of its \<open>repr(C)\<close> layout.
\<close>

subsection \<open>Signal numbers, actions and information\<close>

named_theorems signum \<open>the values of the signal numbers\<close>

definition SIGHUP :: nat where "SIGHUP = 1"
definition SIGINT :: nat where "SIGINT = 2"
definition SIGQUIT :: nat where "SIGQUIT = 3"
definition SIGILL :: nat where "SIGILL = 4"
definition SIGTRAP :: nat where "SIGTRAP = 5"
definition SIGABRT :: nat where "SIGABRT = 6"
definition SIGBUS :: nat where "SIGBUS = 7"
definition SIGFPE :: nat where "SIGFPE = 8"
definition SIGKILL :: nat where "SIGKILL = 9"
definition SIGUSR1 :: nat where "SIGUSR1 = 10"
definition SIGSEGV :: nat where "SIGSEGV = 11"
definition SIGUSR2 :: nat where "SIGUSR2 = 12"
definition SIGPIPE :: nat where "SIGPIPE = 13"
definition SIGALRM :: nat where "SIGALRM = 14"
definition SIGTERM :: nat where "SIGTERM = 15"
definition SIGSTKFLT :: nat where "SIGSTKFLT = 16"
definition SIGCHLD :: nat where "SIGCHLD = 17"
definition SIGCONT :: nat where "SIGCONT = 18"
definition SIGSTOP :: nat where "SIGSTOP = 19"
definition SIGTSTP :: nat where "SIGTSTP = 20"
definition SIGTTIN :: nat where "SIGTTIN = 21"
definition SIGTTOU :: nat where "SIGTTOU = 22"
definition SIGURG :: nat where "SIGURG = 23"
definition SIGXCPU :: nat where "SIGXCPU = 24"
definition SIGXFSZ :: nat where "SIGXFSZ = 25"
definition SIGVTALRM :: nat where "SIGVTALRM = 26"
definition SIGPROF :: nat where "SIGPROF = 27"
definition SIGWINCH :: nat where "SIGWINCH = 28"
definition SIGIO :: nat where "SIGIO = 29"
definition SIGPWR :: nat where "SIGPWR = 30"
definition SIGSYS :: nat where "SIGSYS = 31"
definition NSIG :: nat where "NSIG = 32"

declare SIGHUP_def [signum] SIGINT_def [signum] SIGQUIT_def [signum] SIGILL_def [signum] SIGTRAP_def [signum] SIGABRT_def [signum]
  SIGBUS_def [signum] SIGFPE_def [signum] SIGKILL_def [signum] SIGUSR1_def [signum] SIGSEGV_def [signum] SIGUSR2_def [signum]
  SIGPIPE_def [signum] SIGALRM_def [signum] SIGTERM_def [signum] SIGSTKFLT_def [signum] SIGCHLD_def [signum] SIGCONT_def [signum]
  SIGSTOP_def [signum] SIGTSTP_def [signum] SIGTTIN_def [signum] SIGTTOU_def [signum] SIGURG_def [signum] SIGXCPU_def [signum]
  SIGXFSZ_def [signum] SIGVTALRM_def [signum] SIGPROF_def [signum] SIGWINCH_def [signum] SIGIO_def [signum] SIGPWR_def [signum]
  SIGSYS_def [signum] NSIG_def [signum]

definition SA_NODEFER :: u64 where "SA_NODEFER = 0x40000000"
definition SA_RESETHAND :: u64 where "SA_RESETHAND = 0x80000000"
definition SIG_DFL :: u64 where "SIG_DFL = 0"
definition SIG_IGN :: u64 where "SIG_IGN = 1"

record Sigaction =
  sa_handler :: u64
  sa_flags :: u64
  sa_restorer :: u64
  sa_mask :: u64

definition sigaction_default :: Sigaction where
  "sigaction_default = \<lparr>sa_handler = SIG_DFL, sa_flags = 0, sa_restorer = 0, sa_mask = 0\<rparr>"

definition is_default :: "Sigaction \<Rightarrow> bool" where
  "is_default a = (sa_handler a = SIG_DFL)"

definition is_ignored :: "Sigaction \<Rightarrow> bool" where
  "is_ignored a = (sa_handler a = SIG_IGN)"

definition has_handler :: "Sigaction \<Rightarrow> bool" where
  "has_handler a = (sa_handler a > SIG_IGN)"

text \<open>The 32-bit fields are kept as the words that are written to memory.\<close>

record Siginfo =
  si_signo :: u32
  si_errno :: u32
  si_code :: u32
  si_pid :: u32
  si_uid :: u32
  si_status :: u32
  si_addr :: u64

definition siginfo_new :: "u32 \<Rightarrow> Siginfo" where
  "siginfo_new signo = \<lparr>si_signo = signo, si_errno = 0, si_code = 0, si_pid = 0, si_uid = 0, si_status = 0, si_addr = 0\<rparr>"

definition siginfo_fault :: "u32 \<Rightarrow> u32 \<Rightarrow> u64 \<Rightarrow> Siginfo" where
  "siginfo_fault signo code addr = (siginfo_new signo)\<lparr>si_code := code, si_addr := addr\<rparr>"

subsection \<open>The table of handlers\<close>

definition handlers_new :: "Sigaction list" where
  "handlers_new = replicate 64 sigaction_default"

definition handlers_get :: "nat \<Rightarrow> Sigaction list \<Rightarrow> Sigaction option" where
  "handlers_get signum hs = (if signum = 0 \<or> signum \<ge> 64 then None else Some (hs ! signum))"

definition handlers_set :: "nat \<Rightarrow> Sigaction \<Rightarrow> Sigaction list \<Rightarrow> Sigaction option \<times> Sigaction list" where
  "handlers_set signum action hs =
     (if signum = 0 \<or> signum \<ge> 64 then (None, hs)
      else if signum = SIGKILL \<or> signum = SIGSTOP then (None, hs)
      else (Some (hs ! signum), hs[signum := action]))"

definition handlers_reset :: "nat \<Rightarrow> Sigaction list \<Rightarrow> Sigaction list" where
  "handlers_reset signum hs = (if signum = 0 \<or> signum \<ge> 64 then hs else hs[signum := sigaction_default])"

definition handlers_clone :: "Sigaction list \<Rightarrow> Sigaction list" where
  "handlers_clone hs = fold (\<lambda>i new. new[i := hs ! i]) [0..<64] handlers_new"

datatype DefaultAction = Terminate | Ignore | Stop | Continue | CoreDump

definition default_action :: "nat \<Rightarrow> DefaultAction" where
  "default_action signum =
     (if signum \<in> {SIGHUP, SIGINT, SIGKILL, SIGPIPE, SIGALRM, SIGTERM, SIGUSR1, SIGUSR2, SIGPROF, SIGVTALRM,
          SIGSTKFLT, SIGIO, SIGPWR} then Terminate
      else if signum \<in> {SIGQUIT, SIGILL, SIGTRAP, SIGABRT, SIGBUS, SIGFPE, SIGSEGV, SIGXCPU, SIGXFSZ, SIGSYS}
      then CoreDump
      else if signum \<in> {SIGCHLD, SIGURG, SIGWINCH} then Ignore
      else if signum \<in> {SIGSTOP, SIGTSTP, SIGTTIN, SIGTTOU} then Stop
      else if signum = SIGCONT then Continue
      else Terminate)"

subsection \<open>Pending and blocked signals\<close>

record SignalState =
  pending :: u64
  blocked :: u64

definition sig_bit :: "nat \<Rightarrow> u64" where
  "sig_bit signum = push_bit signum 1"

definition ss_new :: SignalState where
  "ss_new = \<lparr>pending = 0, blocked = 0\<rparr>"

definition is_pending :: "nat \<Rightarrow> SignalState \<Rightarrow> bool" where
  "is_pending signum s = (if signum = 0 \<or> signum \<ge> 64 then False else pending s AND sig_bit signum \<noteq> 0)"

definition ss_send :: "nat \<Rightarrow> SignalState \<Rightarrow> SignalState" where
  "ss_send signum s = (if signum = 0 \<or> signum \<ge> 64 then s else s\<lparr>pending := pending s OR sig_bit signum\<rparr>)"

definition ss_clear :: "nat \<Rightarrow> SignalState \<Rightarrow> SignalState" where
  "ss_clear signum s = (if signum = 0 \<or> signum \<ge> 64 then s else s\<lparr>pending := pending s AND NOT (sig_bit signum)\<rparr>)"

definition ss_dequeue :: "SignalState \<Rightarrow> nat option \<times> SignalState" where
  "ss_dequeue s =
     (let deliverable = pending s AND NOT (blocked s) in
      if deliverable = 0 then (None, s)
      else let signum = trailing_zeros deliverable in
           if signum \<ge> 64 then (None, s) else (Some signum, ss_clear signum s))"

definition has_pending :: "SignalState \<Rightarrow> bool" where
  "has_pending s = (pending s AND NOT (blocked s) \<noteq> 0)"

definition ss_block :: "nat \<Rightarrow> SignalState \<Rightarrow> SignalState" where
  "ss_block signum s =
     (if signum = 0 \<or> signum \<ge> 64 then s
      else if signum = SIGKILL \<or> signum = SIGSTOP then s
      else s\<lparr>blocked := blocked s OR sig_bit signum\<rparr>)"

definition ss_unblock :: "nat \<Rightarrow> SignalState \<Rightarrow> SignalState" where
  "ss_unblock signum s = (if signum = 0 \<or> signum \<ge> 64 then s else s\<lparr>blocked := blocked s AND NOT (sig_bit signum)\<rparr>)"

definition set_blocked_mask :: "u64 \<Rightarrow> SignalState \<Rightarrow> SignalState" where
  "set_blocked_mask m s = s\<lparr>blocked := m AND NOT (sig_bit SIGKILL OR sig_bit SIGSTOP)\<rparr>"

definition ss_clone :: "SignalState \<Rightarrow> SignalState" where
  "ss_clone s = \<lparr>pending = 0, blocked = blocked s\<rparr>"

subsection \<open>Memory accesses of 4 and 8 bytes\<close>

definition write_u64 :: "nat \<Rightarrow> u64 \<Rightarrow> umem \<Rightarrow> umem" where
  "write_u64 a v m = mem_write a (le_bytes 8 (unat v)) m"

definition write_u32 :: "nat \<Rightarrow> u32 \<Rightarrow> umem \<Rightarrow> umem" where
  "write_u32 a v m = mem_write a (le_bytes 4 (unat v)) m"

definition read_u64 :: "nat \<Rightarrow> umem \<Rightarrow> u64" where
  "read_u64 a m = word_of_nat (of_le_bytes (mem_read m a 8))"

subsection \<open>Signal frames\<close>

text \<open>The size of a \<open>SignalFrame\<close> and the offsets of its fields: 8 bytes for the restorer, 136 for the
  information, and the context, whose registers start at 184 and whose signal mask is the last field.\<close>

definition FRAME_SIZE :: nat where "FRAME_SIZE = 448"
definition OFF_INFO :: nat where "OFF_INFO = 8"
definition OFF_UC :: nat where "OFF_UC = 144"
definition OFF_MC :: nat where "OFF_MC = 184"
definition OFF_SIGMASK :: nat where "OFF_SIGMASK = 440"

text \<open>The padding and the reserved words of a \<open>Siginfo\<close> are zero.\<close>

definition write_siginfo :: "nat \<Rightarrow> Siginfo \<Rightarrow> umem \<Rightarrow> umem" where
  "write_siginfo a info = mem_write a
     (le_bytes 4 (unat (si_signo info)) @ le_bytes 4 (unat (si_errno info)) @ le_bytes 4 (unat (si_code info)) @ le_bytes 4 0
      @ le_bytes 4 (unat (si_pid info)) @ le_bytes 4 (unat (si_uid info)) @ le_bytes 4 (unat (si_status info)) @ le_bytes 4 0
      @ le_bytes 8 (unat (si_addr info)) @ replicate 96 0)"

text \<open>The registers in the order in which the context holds them, as indices into the array of registers
  \<open>r15, r14, r13, r12, r11, r10, r9, r8, rbp, rdi, rsi, rdx, rcx, rbx, rax\<close> that the code passes: the context has
  \<open>r8\<close> to \<open>r15\<close>, \<open>rdi, rsi, rbp, rbx, rdx, rax, rcx\<close>, and then \<open>rsp, rip, rflags\<close>.\<close>

definition MC_ORDER :: "nat list" where
  "MC_ORDER = [7, 6, 5, 4, 3, 2, 1, 0, 9, 10, 8, 13, 11, 14, 12]"

definition write_regs :: "nat \<Rightarrow> u64 list \<Rightarrow> umem \<Rightarrow> umem" where
  "write_regs a vs m = mem_write a (concat (map (\<lambda>v. le_bytes 8 (unat v)) vs)) m"

definition setup_signal_frame_with_info ::
  "u64 \<Rightarrow> Sigaction \<Rightarrow> Siginfo \<Rightarrow> u64 \<Rightarrow> u64 \<Rightarrow> u64 \<Rightarrow> u64 list \<Rightarrow> u64 \<Rightarrow> umem \<Rightarrow> ((u64 \<times> u64) option \<times> umem) option" where
  "setup_signal_frame_with_info user_sp action info saved_rip saved_rsp saved_rflags regs old_mask m =
     (if unat user_sp < FRAME_SIZE then None
      else let new_sp = (user_sp - word_of_nat FRAME_SIZE) AND NOT 0xF; p = unat new_sp in
        if new_sp < 0x1000 then Some (None, m)
        else
          let m = write_u64 p (sa_restorer action) m;
              m = write_siginfo (p + OFF_INFO) info m;
              m = write_u64 (p + OFF_UC) 0 m;
              m = write_u64 (p + OFF_UC + 8) 0 m;
              m = mem_write (p + OFF_UC + 16) (replicate 24 0) m;
              m = write_u64 (p + OFF_SIGMASK) old_mask m;
              m = write_regs (p + OFF_MC) (map (\<lambda>i. regs ! i) MC_ORDER @ [saved_rsp, saved_rip, saved_rflags]) m
          in Some (Some (new_sp, sa_handler action), m))"

definition setup_signal_frame ::
  "u64 \<Rightarrow> nat \<Rightarrow> Sigaction \<Rightarrow> u64 \<Rightarrow> u64 \<Rightarrow> u64 \<Rightarrow> u64 list \<Rightarrow> u64 \<Rightarrow> umem \<Rightarrow> ((u64 \<times> u64) option \<times> umem) option" where
  "setup_signal_frame user_sp signum action saved_rip saved_rsp saved_rflags regs old_mask m =
     setup_signal_frame_with_info user_sp action (siginfo_new (word_of_nat signum)) saved_rip saved_rsp saved_rflags regs old_mask m"

text \<open>The result of \<open>restore_signal_frame\<close>: \<open>(rip, rsp, rflags, regs, mask)\<close>.\<close>

definition restore_signal_frame :: "u64 \<Rightarrow> umem \<Rightarrow> (u64 \<times> u64 \<times> u64 \<times> u64 list \<times> u64) option" where
  "restore_signal_frame frame_ptr m =
     (if frame_ptr < 0x1000 then None
      else let mc = (\<lambda>k. read_u64 (unat frame_ptr + OFF_MC + 8 * k) m) in
        Some (mc 16, mc 15, mc 17,
          [mc 7, mc 6, mc 5, mc 4, mc 3, mc 2, mc 1, mc 0, mc 10, mc 8, mc 9, mc 12, mc 14, mc 11, mc 13, 0],
          read_u64 (unat frame_ptr + OFF_SIGMASK) m))"

subsection \<open>Delivery on the return from a system call\<close>

text \<open>The registers that the system-call entry saves; \<open>rcx\<close> holds the return address, \<open>r11\<close> the flags and \<open>rax\<close> the
  number of the system call.\<close>

record SyscallFrame =
  f_r15 :: u64
  f_r14 :: u64
  f_r13 :: u64
  f_r12 :: u64
  f_r11 :: u64
  f_r10 :: u64
  f_r9 :: u64
  f_r8 :: u64
  f_rbp :: u64
  f_rdi :: u64
  f_rsi :: u64
  f_rdx :: u64
  f_rcx :: u64
  f_rbx :: u64
  f_rax :: u64

record SigTask =
  t_signals :: SignalState
  t_handlers :: "Sigaction list"

text \<open>The state of the processor and of the task on the way back to user mode; \<open>u_rsp\<close> is the stack pointer of the
  user, \<open>user_rsp_tmp\<close> of the code.\<close>

record UserCtx =
  u_frame :: SyscallFrame
  u_rsp :: u64
  u_mem :: umem
  u_task :: SigTask

definition frame_regs :: "SyscallFrame \<Rightarrow> u64 list" where
  "frame_regs f = [f_r15 f, f_r14 f, f_r13 f, f_r12 f, f_r11 f, f_r10 f, f_r9 f, f_r8 f, f_rbp f, f_rdi f,
     f_rsi f, f_rdx f, f_rcx f, f_rbx f, f_rax f, 0]"

text \<open>The mask and the handler while a handler runs.\<close>

definition enter_handler :: "nat \<Rightarrow> Sigaction \<Rightarrow> u64 \<Rightarrow> SigTask \<Rightarrow> SigTask" where
  "enter_handler signum handler old_mask t =
     (let t = (if sa_flags handler AND SA_NODEFER = 0
               then t\<lparr>t_signals := set_blocked_mask (old_mask OR sig_bit signum OR sa_mask handler) (t_signals t)\<rparr> else t)
      in if sa_flags handler AND SA_RESETHAND \<noteq> 0 then t\<lparr>t_handlers := handlers_reset signum (t_handlers t)\<rparr> else t)"

text \<open>One round of the loop of \<open>check_and_deliver_signals\<close>; the flag says whether the loop goes on.\<close>

definition deliver_step :: "UserCtx \<Rightarrow> (bool \<times> UserCtx) option" where
  "deliver_step u =
     (case ss_dequeue (t_signals (u_task u)) of
        (None, ss) \<Rightarrow> Some (False, u)
      | (Some signum, ss) \<Rightarrow>
          let u = u\<lparr>u_task := (u_task u)\<lparr>t_signals := ss\<rparr>\<rparr>;
              requeued = u\<lparr>u_task := (u_task u)\<lparr>t_signals := ss_send signum ss\<rparr>\<rparr> in
          (case handlers_get signum (t_handlers (u_task u)) of
             None \<Rightarrow> Some (True, requeued)
           | Some handler \<Rightarrow>
               if is_ignored handler then Some (True, u)
               else if \<not> has_handler handler then Some (True, requeued)
               else let old_mask = blocked ss; f = u_frame u in
                 Option.bind (setup_signal_frame (u_rsp u) signum handler (f_rcx f) (u_rsp u) (f_r11 f) (frame_regs f) old_mask (u_mem u))
                   (\<lambda>(r, m).
                     case r of
                       None \<Rightarrow> Some (True, u)
                     | Some (new_sp, handler_addr) \<Rightarrow>
                         Some (False, u\<lparr>u_mem := m, u_rsp := new_sp, u_task := enter_handler signum handler old_mask (u_task u),
                           u_frame := f\<lparr>f_rcx := handler_addr, f_rdi := word_of_nat signum, f_rsi := new_sp + 8,
                             f_rdx := new_sp + word_of_nat OFF_UC\<rparr>\<rparr>))))"

partial_function (option) deliver_loop :: "UserCtx \<Rightarrow> UserCtx option" where
  "deliver_loop u = Option.bind (deliver_step u) (\<lambda>r. if fst r then deliver_loop (snd r) else Some (snd r))"

definition check_and_deliver_signals :: "UserCtx \<Rightarrow> UserCtx option" where
  "check_and_deliver_signals u = (if \<not> has_pending (t_signals (u_task u)) then Some u else deliver_loop u)"

subsection \<open>System calls\<close>

text \<open>Arguments of type \<open>i32\<close> and results are integers; pointers are addresses.\<close>

definition read_sigaction :: "nat \<Rightarrow> umem \<Rightarrow> Sigaction" where
  "read_sigaction a m = \<lparr>sa_handler = read_u64 a m, sa_flags = read_u64 (a + 8) m, sa_restorer = read_u64 (a + 16) m,
     sa_mask = read_u64 (a + 24) m\<rparr>"

definition write_sigaction :: "nat \<Rightarrow> Sigaction \<Rightarrow> umem \<Rightarrow> umem" where
  "write_sigaction a act = write_regs a [sa_handler act, sa_flags act, sa_restorer act, sa_mask act]"

definition sys_rt_sigaction :: "int \<Rightarrow> nat \<Rightarrow> nat \<Rightarrow> nat \<Rightarrow> UserCtx \<Rightarrow> int \<times> UserCtx" where
  "sys_rt_sigaction signum act oldact sigsetsize u =
     (if sigsetsize \<noteq> 8 then (EINVAL, u)
      else if signum \<le> 0 \<or> signum \<ge> int NSIG then (EINVAL, u)
      else if signum = int SIGKILL \<or> signum = int SIGSTOP then (EINVAL, u)
      else
        let hs = t_handlers (u_task u);
            m = (if oldact \<noteq> 0 then case handlers_get (nat signum) hs of
                   Some old \<Rightarrow> write_sigaction oldact old (u_mem u) | None \<Rightarrow> u_mem u
                 else u_mem u);
            hs = (if act \<noteq> 0 then snd (handlers_set (nat signum) (read_sigaction act m) hs) else hs)
        in (0, u\<lparr>u_mem := m, u_task := (u_task u)\<lparr>t_handlers := hs\<rparr>\<rparr>))"

definition sys_rt_sigprocmask :: "int \<Rightarrow> nat \<Rightarrow> nat \<Rightarrow> nat \<Rightarrow> UserCtx \<Rightarrow> int \<times> UserCtx" where
  "sys_rt_sigprocmask how st oldset sigsetsize u =
     (if sigsetsize \<noteq> 8 then (EINVAL, u)
      else
        let ss = t_signals (u_task u);
            u = (if oldset \<noteq> 0 then u\<lparr>u_mem := write_u64 oldset (blocked ss) (u_mem u)\<rparr> else u)
        in if st \<noteq> 0 then
             let new_mask = read_u64 st (u_mem u); old_mask = blocked ss;
                 set_mask = (\<lambda>m. (0, u\<lparr>u_task := (u_task u)\<lparr>t_signals := set_blocked_mask m ss\<rparr>\<rparr>))
             in if how = 0 then set_mask (old_mask OR new_mask)
                else if how = 1 then set_mask (old_mask AND NOT new_mask)
                else if how = 2 then set_mask new_mask
                else (EINVAL, u)
           else (0, u))"

definition sys_rt_sigreturn :: "UserCtx \<Rightarrow> int \<times> UserCtx" where
  "sys_rt_sigreturn u =
     (case restore_signal_frame (u_rsp u) (u_mem u) of
        None \<Rightarrow> (EFAULT, u)
      | Some (rip, rsp, rflags, regs, new_mask) \<Rightarrow>
          (sint (regs ! 14),
           u\<lparr>u_rsp := rsp, u_task := (u_task u)\<lparr>t_signals := set_blocked_mask new_mask (t_signals (u_task u))\<rparr>,
             u_frame := \<lparr>f_r15 = regs ! 0, f_r14 = regs ! 1, f_r13 = regs ! 2, f_r12 = regs ! 3, f_r11 = rflags,
               f_r10 = regs ! 5, f_r9 = regs ! 6, f_r8 = regs ! 7, f_rbp = regs ! 8, f_rdi = regs ! 9, f_rsi = regs ! 10,
               f_rdx = regs ! 11, f_rcx = rip, f_rbx = regs ! 13, f_rax = regs ! 14\<rparr>\<rparr>))"

definition sys_rt_sigpending :: "nat \<Rightarrow> nat \<Rightarrow> UserCtx \<Rightarrow> int \<times> UserCtx" where
  "sys_rt_sigpending st sigsetsize u =
     (if sigsetsize \<noteq> 8 then (EINVAL, u)
      else if st = 0 then (EFAULT, u)
      else (0, u\<lparr>u_mem := write_u64 st (pending (t_signals (u_task u))) (u_mem u)\<rparr>))"

definition sys_sigaltstack :: "nat \<Rightarrow> nat \<Rightarrow> UserCtx \<Rightarrow> int \<times> UserCtx" where
  "sys_sigaltstack st old_ss u =
     (0, if old_ss \<noteq> 0 then u\<lparr>u_mem := mem_write old_ss (replicate 24 0) (u_mem u)\<rparr> else u)"

subsection \<open>The states of a task and the flow of a switch\<close>

datatype TaskState = Ready | Running | Blocked | Zombie | Exited

definition ESRCH :: int where "ESRCH = - 3"
definition EIO :: int where "EIO = - 5"

text \<open>The signals of the task that a context switch has chosen.  A round of the loop goes on, lets the task run, or
  gives the switch up (the task has become a zombie or is stopped).\<close>

datatype SwitchFlow = GoOn | Resume | GiveUp

subsection \<open>Signal masks as sets\<close>

lemma bit_sig_bit [simp]: "bit (sig_bit k) i \<longleftrightarrow> i = k \<and> k < 64"
  by (auto simp: sig_bit_def bit_simps)

lemma bit_u64_less: "bit (w :: u64) i \<Longrightarrow> i < 64"
  using bit_imp_le_length [of w i] by simp

lemma sig_bit_test: "k < 64 \<Longrightarrow> (w AND sig_bit k \<noteq> 0) \<longleftrightarrow> bit w k"
  by (auto simp: word_eq_0_iff_bit bit_and_iff)

definition deliverable :: "SignalState \<Rightarrow> nat set" where
  "deliverable s = {i. bit (pending s) i \<and> \<not> bit (blocked s) i}"

lemma deliverable_finite [simp]: "finite (deliverable s)"
proof -
  have "deliverable s \<subseteq> {..<64}" by (auto simp: deliverable_def dest: bit_imp_le_length)
  then show ?thesis by (rule finite_subset) simp
qed

lemma deliverable_word: "bit (pending s AND NOT (blocked s)) i \<longleftrightarrow> i \<in> deliverable s"
  by (auto simp: deliverable_def bit_simps dest: bit_imp_le_length)

lemma deliverable_empty: "pending s AND NOT (blocked s) = 0 \<longleftrightarrow> deliverable s = {}"
  using bit_u64_less unfolding word_eq_0_iff_bit deliverable_word by (metis all_not_in_conv deliverable_word)

lemma has_pending_iff: "has_pending s \<longleftrightarrow> deliverable s \<noteq> {}"
  by (simp add: has_pending_def deliverable_empty)

text \<open>\<open>dequeue\<close> takes the lowest deliverable signal out of the pending ones.\<close>

lemma ss_dequeue_eq:
  "ss_dequeue s = (if deliverable s = {} then (None, s) else (Some (Min (deliverable s)), ss_clear (Min (deliverable s)) s))"
proof (cases "deliverable s = {}")
  case False
  let ?w = "pending s AND NOT (blocked s)"
  have "?w \<noteq> 0" using False deliverable_empty by blast
  note tz = trailing_zeros_props [OF this]
  have "trailing_zeros ?w = Min (deliverable s)"
    using tz by (intro Min_eqI [symmetric]) (auto simp: deliverable_word [symmetric] not_less [symmetric])
  moreover from this have "\<not> 64 \<le> Min (deliverable s)" using tz(1) by simp
  ultimately show ?thesis using False \<open>?w \<noteq> 0\<close> by (simp add: ss_dequeue_def Let_def del: Min_le_iff Min_ge_iff)
qed (simp add: ss_dequeue_def deliverable_empty)

lemma deliverable_clear: "0 \<notin> deliverable s \<Longrightarrow> deliverable (ss_clear k s) = deliverable s - {k}"
  by (auto simp: deliverable_def ss_clear_def bit_simps dest: bit_imp_le_length)

subsection \<open>The invariant of a task's signals\<close>

definition sig_ok :: "SigTask \<Rightarrow> bool" where
  "sig_ok t \<longleftrightarrow> length (t_handlers t) = 64 \<and> \<not> bit (pending (t_signals t)) 0
     \<and> (\<forall>k \<in> {SIGKILL, SIGSTOP}. \<not> bit (blocked (t_signals t)) k \<and> t_handlers t ! k = sigaction_default)"

lemma kill_stop [simp]: "SIGKILL < 64" "SIGSTOP < 64" "0 < SIGKILL" "0 < SIGSTOP"
  by (simp_all add: signum)

lemma pending_ops [simp]:
  "bit (pending (ss_send k s)) 0 = bit (pending s) 0" "\<not> bit (pending s) 0 \<Longrightarrow> \<not> bit (pending (ss_clear k s)) 0"
  "pending (set_blocked_mask m s) = pending s" "blocked (ss_send k s) = blocked s" "blocked (ss_clear k s) = blocked s"
  by (auto simp: ss_send_def ss_clear_def set_blocked_mask_def bit_simps)

lemma set_blocked_mask_kill [simp]: "\<not> bit (blocked (set_blocked_mask m s)) SIGKILL" "\<not> bit (blocked (set_blocked_mask m s)) SIGSTOP"
  by (simp_all add: set_blocked_mask_def bit_simps)

lemma sig_ok_mask [intro]: "sig_ok t \<Longrightarrow> sig_ok (t\<lparr>t_signals := set_blocked_mask m (t_signals t)\<rparr>)"
  by (simp add: sig_ok_def)

lemma sig_ok_send [intro]: "sig_ok t \<Longrightarrow> sig_ok (t\<lparr>t_signals := ss_send k (t_signals t)\<rparr>)"
  by (simp add: sig_ok_def)

lemma sig_ok_clear [intro]: "sig_ok t \<Longrightarrow> sig_ok (t\<lparr>t_signals := ss_clear k (t_signals t)\<rparr>)"
  by (simp add: sig_ok_def)

lemma sig_ok_dequeue:
  assumes "sig_ok t" and "ss_dequeue (t_signals t) = (r, ss)"
  shows "sig_ok (t\<lparr>t_signals := ss\<rparr>)"
proof -
  have "ss = t_signals t \<or> (\<exists>k. ss = ss_clear k (t_signals t))" using assms(2) by (auto simp: ss_dequeue_eq split: if_splits)
  then show ?thesis using assms(1) sig_ok_clear by auto
qed

lemma sig_ok_reset [intro]: "sig_ok t \<Longrightarrow> sig_ok (t\<lparr>t_handlers := handlers_reset k (t_handlers t)\<rparr>)"
  by (auto simp: sig_ok_def handlers_reset_def nth_list_update)

lemma sig_ok_set [intro]: "sig_ok t \<Longrightarrow> sig_ok (t\<lparr>t_handlers := snd (handlers_set k a (t_handlers t))\<rparr>)"
  by (auto simp: sig_ok_def handlers_set_def nth_list_update)

lemma sig_ok_enter [intro]: "sig_ok t \<Longrightarrow> sig_ok (enter_handler k h m t)"
  using sig_ok_mask [of t] sig_ok_reset unfolding enter_handler_def Let_def by simp

lemma sig_ok_deliver_step:
  assumes ok: "sig_ok (u_task u)" and run: "deliver_step u = Some (b, u')"
  shows "sig_ok (u_task u')"
proof (cases "ss_dequeue (t_signals (u_task u))")
  case (Pair r ss)
  have ss: "sig_ok ((u_task u)\<lparr>t_signals := ss\<rparr>)" using sig_ok_dequeue [OF ok Pair] .
  then have "sig_ok ((u_task u)\<lparr>t_signals := ss_send k ss\<rparr>)" for k using sig_ok_send [OF ss, of k] by simp
  then show ?thesis
    using run ok ss Pair sig_ok_enter [OF ss]
    by (auto simp: deliver_step_def Let_def bind_eq_Some_conv split: option.splits if_splits prod.splits)
qed

lemma sig_ok_deliver:
  assumes "sig_ok (u_task u)" and "deliver_loop u = Some u'"
  shows "sig_ok (u_task u')"
proof -
  have "sig_ok (u_task u) \<longrightarrow> sig_ok (u_task u')"
  proof (rule deliver_loop.raw_induct [where P = "\<lambda>u u'. sig_ok (u_task u) \<longrightarrow> sig_ok (u_task u')", OF _ assms(2)], rule impI)
    fix f u u'
    assume IH: "\<And>u u'. f u = Some u' \<Longrightarrow> sig_ok (u_task u) \<longrightarrow> sig_ok (u_task u')"
      and run: "Option.bind (deliver_step u) (\<lambda>r. if fst r then f (snd r) else Some (snd r)) = Some u'" and ok: "sig_ok (u_task u)"
    then obtain r where r: "deliver_step u = Some r" "(if fst r then f (snd r) else Some (snd r)) = Some u'"
      by (auto simp: bind_eq_Some_conv)
    then have "sig_ok (u_task (snd r))" using sig_ok_deliver_step [OF ok, of "fst r" "snd r"] by simp
    then show "sig_ok (u_task u')" using r(2) IH by (auto split: if_splits)
  qed
  then show ?thesis using assms(1) by blast
qed

lemma sig_ok_syscalls:
  assumes "sig_ok (u_task u)"
  shows "sys_rt_sigaction sg act oldact n u = (r, u') \<Longrightarrow> sig_ok (u_task u')"
    "sys_rt_sigprocmask how st oldset n u = (r, u') \<Longrightarrow> sig_ok (u_task u')"
    "sys_rt_sigreturn u = (r, u') \<Longrightarrow> sig_ok (u_task u')"
  using assms
  by (auto simp: sys_rt_sigaction_def sys_rt_sigprocmask_def sys_rt_sigreturn_def Let_def split: if_splits option.splits)

lemma handlers_clone_eq: "length hs = 64 \<Longrightarrow> handlers_clone hs = hs"
proof -
  assume len: "length hs = 64"
  have "k \<le> 64 \<Longrightarrow> fold (\<lambda>i new. new[i := hs ! i]) [0..<k] handlers_new = take k hs @ drop k handlers_new" for k
  proof (induction k)
    case (Suc k)
    then have "k < length handlers_new" by (simp add: handlers_new_def)
    then have "drop k handlers_new = handlers_new ! k # drop (Suc k) handlers_new" by (rule Cons_nth_drop_Suc [symmetric])
    moreover have "take (Suc k) hs = take k hs @ [hs ! k]" using Suc.prems len by (simp add: take_Suc_conv_app_nth)
    ultimately show ?case using Suc len by (simp add: list_update_append)
  qed simp
  from this [of 64] show ?thesis using len by (simp add: handlers_clone_def handlers_new_def)
qed

lemma zero_not_deliverable: "sig_ok t \<Longrightarrow> 0 \<notin> deliverable (t_signals t)"
  by (simp add: sig_ok_def deliverable_def)

subsection \<open>Reading frames back\<close>

lemma chunk_concat: "k < length vs \<Longrightarrow> take 8 (drop (8 * k) (concat (map (\<lambda>v. le_bytes 8 (f v)) vs))) = le_bytes 8 (f (vs ! k))"
proof (induction vs arbitrary: k)
  case (Cons v vs)
  then show ?case by (cases k) (simp_all add: drop_append)
qed simp

lemma length_chunks: "length (concat (map (\<lambda>v. le_bytes 8 (f v)) vs)) = 8 * length vs"
  by (induction vs) simp_all

lemma mem_read_write_part:
  "i + n \<le> length bs \<Longrightarrow> mem_read (mem_write a bs m) (a + i) n = take n (drop i bs)"
  by (rule nth_equalityI) (simp_all add: mem_read_def mem_write_def add.commute)

lemma word_of_le_bytes: "word_of_nat (of_le_bytes (le_bytes 8 (unat (v :: u64)))) = v"
proof -
  have "unat v < 256 ^ 8" using unsigned_less [of v] by simp
  then show ?thesis by (simp add: of_le_bytes_le_bytes)
qed

lemma read_regs: "k < length vs \<Longrightarrow> read_u64 (a + 8 * k) (write_regs a vs m) = vs ! k"
  by (simp add: read_u64_def write_regs_def mem_read_write_part length_chunks chunk_concat word_of_le_bytes)

lemma read_other: "b + 8 \<le> a \<or> a + length bs \<le> b \<Longrightarrow> read_u64 b (mem_write a bs m) = read_u64 b m"
  by (simp add: read_u64_def mem_read_write_disjoint)

lemma read_write_u64: "read_u64 a (write_u64 a v m) = v"
  using mem_read_write_same [of a "le_bytes 8 (unat v)" m] by (simp add: read_u64_def write_u64_def word_of_le_bytes)

lemma setup_frame_eq:
  assumes sp: "FRAME_SIZE \<le> unat user_sp" and new: "new_sp = (user_sp - word_of_nat FRAME_SIZE) AND NOT 0xF" and ok: "\<not> new_sp < 0x1000"
  shows "\<exists>m'. setup_signal_frame user_sp signum h rip rsp rflags regs om m = Some (Some (new_sp, sa_handler h), m')
    \<and> (\<forall>k < 18. read_u64 (unat new_sp + OFF_MC + 8 * k) m' = (map (\<lambda>i. regs ! i) MC_ORDER @ [rsp, rip, rflags]) ! k)
    \<and> read_u64 (unat new_sp + OFF_SIGMASK) m' = om \<and> read_u64 (unat new_sp) m' = sa_restorer h
    \<and> unat new_sp + FRAME_SIZE \<le> unat user_sp"
proof -
  let ?p = "unat new_sp"
  let ?vs = "map (\<lambda>i. regs ! i) MC_ORDER @ [rsp, rip, rflags]"
  define m1 where "m1 = mem_write (?p + OFF_UC + 16) (replicate 24 0) (write_u64 (?p + OFF_UC + 8) 0 (write_u64 (?p + OFF_UC) 0
     (write_siginfo (?p + OFF_INFO) (siginfo_new (word_of_nat signum)) (write_u64 ?p (sa_restorer h) m))))"
  define m2 where "m2 = write_u64 (?p + OFF_SIGMASK) om m1"
  define m' where "m' = write_regs (?p + OFF_MC) ?vs m2"
  have len: "length ?vs = 18" by (simp add: MC_ORDER_def)
  have "\<not> unat user_sp < FRAME_SIZE" using sp by simp
  then have run: "setup_signal_frame user_sp signum h rip rsp rflags regs om m = Some (Some (new_sp, sa_handler h), m')"
    using ok unfolding setup_signal_frame_def setup_signal_frame_with_info_def Let_def m'_def m2_def m1_def new [symmetric] by simp
  have "read_u64 (?p + OFF_MC + 8 * k) m' = ?vs ! k" if "k < 18" for k
    unfolding m'_def using that len by (intro read_regs) simp
  moreover have "read_u64 (?p + OFF_SIGMASK) m' = read_u64 (?p + OFF_SIGMASK) m2"
    unfolding m'_def write_regs_def using len by (intro read_other) (simp only: length_chunks, simp add: OFF_SIGMASK_def OFF_MC_def)
  moreover have "read_u64 ?p m' = sa_restorer h"
  proof -
    have "read_u64 ?p m' = read_u64 ?p m1"
      unfolding m'_def m2_def write_regs_def write_u64_def by (simp add: read_other OFF_SIGMASK_def OFF_MC_def)
    also have "\<dots> = read_u64 ?p (write_u64 ?p (sa_restorer h) m)"
      unfolding m1_def write_siginfo_def write_u64_def by (simp add: read_other OFF_INFO_def OFF_UC_def)
    finally show ?thesis by (simp add: read_write_u64)
  qed
  moreover have "?p + FRAME_SIZE \<le> unat user_sp"
  proof -
    have "new_sp \<le> user_sp - word_of_nat FRAME_SIZE" unfolding new by (rule word_and_le2)
    then have "?p \<le> unat (user_sp - word_of_nat FRAME_SIZE)" by (simp add: word_le_nat_alt)
    also have "\<dots> = unat user_sp - FRAME_SIZE"
      using sp by (simp add: FRAME_SIZE_def unat_sub word_le_nat_alt)
    finally show ?thesis using sp by simp
  qed
  ultimately show ?thesis using run by (auto simp: m2_def read_write_u64)
qed

subsection \<open>Reachable signal states\<close>

text \<open>A task's signals and handlers, from a new or forked task through signals sent to it, system calls, deliveries
  and context switches.  A switch takes signals out one by one and may send the last one again: its steps are
  \<open>sig_dequeue\<close> and \<open>sig_send\<close>.\<close>

inductive sig_reach :: "SigTask \<Rightarrow> bool" where
  sig_new: "sig_reach \<lparr>t_signals = ss_new, t_handlers = handlers_new\<rparr>"
| sig_fork: "sig_reach t \<Longrightarrow> sig_reach \<lparr>t_signals = ss_clone (t_signals t), t_handlers = handlers_clone (t_handlers t)\<rparr>"
| sig_send: "sig_reach t \<Longrightarrow> sig_reach (t\<lparr>t_signals := ss_send k (t_signals t)\<rparr>)"
| sig_action: "sig_reach (u_task u) \<Longrightarrow> sys_rt_sigaction sg act oldact n u = (r, u') \<Longrightarrow> sig_reach (u_task u')"
| sig_procmask: "sig_reach (u_task u) \<Longrightarrow> sys_rt_sigprocmask how st oldset n u = (r, u') \<Longrightarrow> sig_reach (u_task u')"
| sig_return: "sig_reach (u_task u) \<Longrightarrow> sys_rt_sigreturn u = (r, u') \<Longrightarrow> sig_reach (u_task u')"
| sig_deliver: "sig_reach (u_task u) \<Longrightarrow> check_and_deliver_signals u = Some u' \<Longrightarrow> sig_reach (u_task u')"
| sig_dequeue: "sig_reach t \<Longrightarrow> ss_dequeue (t_signals t) = (r, ss) \<Longrightarrow> sig_reach (t\<lparr>t_signals := ss\<rparr>)"

lemma sig_ok_new: "sig_ok \<lparr>t_signals = ss_new, t_handlers = handlers_new\<rparr>"
  by (simp add: sig_ok_def ss_new_def handlers_new_def)

lemma sig_ok_fork: "sig_ok t \<Longrightarrow> sig_ok \<lparr>t_signals = ss_clone (t_signals t), t_handlers = handlers_clone (t_handlers t)\<rparr>"
  by (simp add: sig_ok_def ss_clone_def handlers_clone_eq)

lemma sig_reach_ok: "sig_reach t \<Longrightarrow> sig_ok t"
proof (induction rule: sig_reach.induct)
  case (sig_deliver u u')
  then show ?case using sig_ok_deliver by (auto simp: check_and_deliver_signals_def split: if_splits)
qed (blast intro: sig_ok_new sig_ok_fork sig_ok_syscalls sig_ok_dequeue)+

subsection \<open>The delivery of one signal\<close>

lemma deliver_step_handler:
  assumes d: "deliverable (t_signals (u_task u)) \<noteq> {}" and k: "k = Min (deliverable (t_signals (u_task u)))" "0 < k"
    and h: "h = t_handlers (u_task u) ! k" "has_handler h" and sp: "FRAME_SIZE \<le> unat (u_rsp u)"
    and new: "new_sp = (u_rsp u - word_of_nat FRAME_SIZE) AND NOT 0xF" "\<not> new_sp < 0x1000"
  shows "\<exists>m' u'. deliver_step u = Some (False, u') \<and> u_rsp u' = new_sp \<and> u_mem u' = m' \<and> f_rcx (u_frame u') = sa_handler h
    \<and> f_rdi (u_frame u') = word_of_nat k
    \<and> (\<forall>i < 18. read_u64 (unat new_sp + OFF_MC + 8 * i) m' =
         (map (\<lambda>j. frame_regs (u_frame u) ! j) MC_ORDER @ [u_rsp u, f_rcx (u_frame u), f_r11 (u_frame u)]) ! i)
    \<and> read_u64 (unat new_sp + OFF_SIGMASK) m' = blocked (t_signals (u_task u)) \<and> unat new_sp + FRAME_SIZE \<le> unat (u_rsp u)
    \<and> pending (t_signals (u_task u')) = pending (ss_clear k (t_signals (u_task u)))"
proof -
  let ?f = "u_frame u"
  obtain m' where m': "setup_signal_frame (u_rsp u) k h (f_rcx ?f) (u_rsp u) (f_r11 ?f) (frame_regs ?f) (blocked (t_signals (u_task u))) (u_mem u)
      = Some (Some (new_sp, sa_handler h), m')"
    "\<forall>i < 18. read_u64 (unat new_sp + OFF_MC + 8 * i) m' = (map (\<lambda>j. frame_regs ?f ! j) MC_ORDER @ [u_rsp u, f_rcx ?f, f_r11 ?f]) ! i"
    "read_u64 (unat new_sp + OFF_SIGMASK) m' = blocked (t_signals (u_task u))" "unat new_sp + FRAME_SIZE \<le> unat (u_rsp u)"
    using setup_frame_eq [OF sp new, of k h "f_rcx ?f" "u_rsp u" "f_r11 ?f" "frame_regs ?f" "blocked (t_signals (u_task u))" "u_mem u"] by blast
  have "k \<in> deliverable (t_signals (u_task u))" using d k(1) by (simp add: Min_in)
  then have "k < 64" using bit_u64_less by (auto simp: deliverable_def)
  then have get: "handlers_get k (t_handlers (u_task u)) = Some h" using k(2) h(1) by (simp add: handlers_get_def)
  have ign: "\<not> is_ignored h" using h(2) by (auto simp: has_handler_def is_ignored_def)
  have dq: "ss_dequeue (t_signals (u_task u)) = (Some k, ss_clear k (t_signals (u_task u)))" using d k(1) by (simp add: ss_dequeue_eq)
  have en: "pending (t_signals (enter_handler k h w t)) = pending (t_signals t)" for w t
    by (simp add: enter_handler_def Let_def)
  obtain u' where "deliver_step u = Some (False, u')" "u_rsp u' = new_sp" "u_mem u' = m'" "f_rcx (u_frame u') = sa_handler h"
    "f_rdi (u_frame u') = word_of_nat k" "pending (t_signals (u_task u')) = pending (ss_clear k (t_signals (u_task u)))"
    using h(2) ign get m'(1) by (simp add: deliver_step_def dq Let_def en)
  then show ?thesis using m'(2-4) by blast
qed

lemma deliver_step_default:
  assumes d: "deliverable (t_signals (u_task u)) \<noteq> {}" and k: "k = Min (deliverable (t_signals (u_task u)))" "0 < k"
    and h: "t_handlers (u_task u) ! k = sigaction_default"
  shows "deliver_step u = Some (True, u)"
proof -
  have kd: "k \<in> deliverable (t_signals (u_task u))" using d k(1) by (simp add: Min_in)
  then have lt: "k < 64" using bit_u64_less by (auto simp: deliverable_def)
  have dq: "ss_dequeue (t_signals (u_task u)) = (Some k, ss_clear k (t_signals (u_task u)))" using d k(1) by (simp add: ss_dequeue_eq)
  have "pending (ss_send k (ss_clear k (t_signals (u_task u)))) = pending (t_signals (u_task u))"
    using kd lt k(2) by (intro bit_word_eqI) (auto simp: ss_send_def ss_clear_def deliverable_def bit_simps)
  then have "ss_send k (ss_clear k (t_signals (u_task u))) = t_signals (u_task u)" by simp
  moreover have "handlers_get k (t_handlers (u_task u)) = Some sigaction_default" using lt k(2) h by (simp add: handlers_get_def)
  moreover have "\<not> is_ignored sigaction_default" "\<not> has_handler sigaction_default"
    by (simp_all add: is_ignored_def has_handler_def sigaction_default_def SIG_DFL_def SIG_IGN_def)
  ultimately show ?thesis by (simp add: deliver_step_def dq Let_def)
qed

lemma deliver_loop_stuck:
  assumes "deliver_step u = Some (True, u)"
  shows "deliver_loop u = None"
proof -
  have "v \<noteq> u" if "deliver_loop v = Some w" for v w
  proof (rule deliver_loop.raw_induct [where P = "\<lambda>v w. v \<noteq> u", OF _ that])
    fix f v w
    assume IH: "\<And>v w. f v = Some w \<Longrightarrow> v \<noteq> u"
      and "Option.bind (deliver_step v) (\<lambda>r. if fst r then f (snd r) else Some (snd r)) = Some w"
    then show "v \<noteq> u" using assms IH [of u w] by auto
  qed
  then show ?thesis by (metis not_None_eq)
qed

text \<open>A context for the examples: a task with a handler for SIGINT whose stack pointer is \<open>0x8000\<close>.\<close>

definition demo_handler :: Sigaction where
  "demo_handler = \<lparr>sa_handler = 0x5000, sa_flags = 0, sa_restorer = 0x6000, sa_mask = 0\<rparr>"

definition demo_sigtask :: "u64 \<Rightarrow> SigTask" where
  "demo_sigtask p = \<lparr>t_signals = \<lparr>pending = p, blocked = 0\<rparr>, t_handlers = handlers_new[SIGINT := demo_handler]\<rparr>"

definition demo_uctx :: "u64 \<Rightarrow> UserCtx" where
  "demo_uctx p = \<lparr>u_frame = \<lparr>f_r15 = 15, f_r14 = 14, f_r13 = 13, f_r12 = 12, f_r11 = 0x202, f_r10 = 10, f_r9 = 9, f_r8 = 8,
     f_rbp = 7, f_rdi = 6, f_rsi = 5, f_rdx = 4, f_rcx = 0x4000, f_rbx = 2, f_rax = 1\<rparr>, u_rsp = 0x8000, u_mem = (\<lambda>_. 0),
     u_task = demo_sigtask p\<rparr>"

lemma deliverable_nth: "deliverable \<lparr>pending = p, blocked = 0\<rparr> = {i. bit p i}"
  by (auto simp: deliverable_def)

lemma demo_deliverable:
  "deliverable (t_signals (u_task (demo_uctx (sig_bit k)))) = (if k < 64 then {k} else {})"
  "t_handlers (u_task (demo_uctx p)) = handlers_new[SIGINT := demo_handler]"
  by (auto simp: demo_uctx_def demo_sigtask_def deliverable_nth)

lemma read_write_sigaction: "read_sigaction a (write_sigaction a act m) = act"
proof -
  let ?vs = "[sa_handler act, sa_flags act, sa_restorer act, sa_mask act]"
  have "read_u64 (a + 8 * k) (write_regs a ?vs m) = ?vs ! k" if "k < 4" for k using that by (intro read_regs) simp
  from this [of 0] this [of 1] this [of 2] this [of 3] show ?thesis
    by (simp add: read_sigaction_def write_sigaction_def)
qed

text \<open>The task of the examples is reached by installing the handler and sending it signals.\<close>

lemma demo_reach: "sig_reach (demo_sigtask 0)" "sig_reach (demo_sigtask (sig_bit SIGINT OR sig_bit SIGKILL))"
proof -
  define u where "u = (demo_uctx 0)\<lparr>u_mem := write_sigaction 0x3000 demo_handler (\<lambda>_. 0), u_task := \<lparr>t_signals = ss_new, t_handlers = handlers_new\<rparr>\<rparr>"
  have r: "sig_reach (u_task u)" using sig_new by (simp add: u_def)
  obtain c u' where u': "sys_rt_sigaction (int SIGINT) 0x3000 0 8 u = (c, u')" by fastforce
  then have "u_task u' = demo_sigtask 0"
    by (auto simp: sys_rt_sigaction_def u_def read_write_sigaction handlers_set_def demo_sigtask_def ss_new_def signum Let_def)
  then show 0: "sig_reach (demo_sigtask 0)" using sig_action [OF r u'] by simp
  show "sig_reach (demo_sigtask (sig_bit SIGINT OR sig_bit SIGKILL))"
    using sig_send [OF sig_send [OF 0, of SIGINT], of SIGKILL] by (simp add: demo_sigtask_def ss_send_def signum)
qed

subsection \<open>Properties\<close>

text \<open>C27. SIGKILL and SIGSTOP cannot be blocked, caught or ignored: whatever signals, system calls, deliveries, forks
  and context switches a task has gone through, once one of them is sent it is deliverable, and its action is the
  default one.\<close>

theorem kill_stop_not_maskable:
  assumes "sig_reach t" and "k \<in> {SIGKILL, SIGSTOP}"
  shows "k \<in> deliverable (ss_send k (t_signals t)) \<and> handlers_get k (t_handlers t) = Some sigaction_default"
proof -
  have ok: "sig_ok t" using sig_reach_ok assms(1) by blast
  have "0 < k" "k < 64" using assms(2) by auto
  then show ?thesis using ok assms(2) by (auto simp: sig_ok_def deliverable_def ss_send_def handlers_get_def bit_simps)
qed

theorem kill_stop_not_maskable_witness:
  "SIGKILL \<in> deliverable (ss_send SIGKILL ss_new) \<and> handlers_get SIGKILL handlers_new = Some sigaction_default"
  using kill_stop_not_maskable [OF sig_new, of SIGKILL] by simp

text \<open>C37. The return from a system call never ends when the lowest deliverable signal has its default action: the
  delivery loop takes the signal, puts it back and starts again in the very same state.\<close>

theorem default_signal_hangs:
  assumes "sig_reach (u_task u)" and "deliverable (t_signals (u_task u)) \<noteq> {}"
    and "t_handlers (u_task u) ! Min (deliverable (t_signals (u_task u))) = sigaction_default"
  shows "deliver_step u = Some (True, u) \<and> check_and_deliver_signals u = None"
proof -
  have "0 \<notin> deliverable (t_signals (u_task u))" using zero_not_deliverable sig_reach_ok assms(1) by blast
  then have "0 < Min (deliverable (t_signals (u_task u)))" using assms(2) by (metis Min_in deliverable_finite gr0I)
  then have "deliver_step u = Some (True, u)" using deliver_step_default [OF assms(2) refl _ assms(3)] by blast
  then show ?thesis using deliver_loop_stuck assms(2) by (simp add: check_and_deliver_signals_def has_pending_iff)
qed

theorem default_signal_hangs_witness:
  "\<exists>u. u_task u = \<lparr>t_signals = ss_send SIGCHLD ss_new, t_handlers = handlers_new\<rparr> \<and> check_and_deliver_signals u = None"
proof -
  let ?u = "(demo_uctx 0)\<lparr>u_task := \<lparr>t_signals = ss_send SIGCHLD ss_new, t_handlers = handlers_new\<rparr>\<rparr>"
  have "sig_reach (u_task ?u)" using sig_send [OF sig_new, of SIGCHLD] by simp
  moreover have "deliverable (t_signals (u_task ?u)) = {SIGCHLD}"
    by (auto simp: ss_send_def ss_new_def deliverable_def bit_simps signum)
  moreover have "handlers_new ! SIGCHLD = sigaction_default" by (simp add: handlers_new_def signum)
  ultimately have "check_and_deliver_signals ?u = None" using default_signal_hangs [of ?u] by simp
  then show ?thesis by (intro exI [of _ ?u]) simp
qed

lemma upt_16: "[0..<16] = [0, 1, 2, 3, 4, 5, 6, 7, 8, 9, 10, 11, 12, 13, 14, 15 :: nat]"
  by code_simp

text \<open>The frame that a handler runs on saves the interrupted context: reading it back at its own address gives the
  instruction pointer, stack pointer, flags, the fifteen registers and the signal mask from before the signal.  The
  frame lies below the interrupted stack pointer.\<close>

theorem signal_frame_roundtrip:
  assumes "FRAME_SIZE \<le> unat user_sp" and "new_sp = (user_sp - word_of_nat FRAME_SIZE) AND NOT 0xF" and "\<not> new_sp < 0x1000"
    and "length regs = 16" and "regs ! 15 = 0"
  shows "\<exists>m'. setup_signal_frame user_sp signum h rip rsp rflags regs om m = Some (Some (new_sp, sa_handler h), m')
    \<and> restore_signal_frame new_sp m' = Some (rip, rsp, rflags, regs, om) \<and> unat new_sp + FRAME_SIZE \<le> unat user_sp"
proof -
  obtain m' where m': "setup_signal_frame user_sp signum h rip rsp rflags regs om m = Some (Some (new_sp, sa_handler h), m')"
    "\<forall>k < 18. read_u64 (unat new_sp + OFF_MC + 8 * k) m' = (map (\<lambda>i. regs ! i) MC_ORDER @ [rsp, rip, rflags]) ! k"
    "read_u64 (unat new_sp + OFF_SIGMASK) m' = om" "unat new_sp + FRAME_SIZE \<le> unat user_sp"
    using setup_frame_eq [OF assms(1-3), of signum h rip rsp rflags regs om m] by blast
  have "regs = map (\<lambda>i. regs ! i) [0..<16]" using assms(4) map_nth [of regs] by simp
  also have "\<dots> = [regs!0, regs!1, regs!2, regs!3, regs!4, regs!5, regs!6, regs!7, regs!8, regs!9, regs!10, regs!11, regs!12, regs!13, regs!14, 0]"
    by (simp add: upt_16 assms(5))
  finally have regs: "regs = \<dots>" .
  define mc where "mc k = read_u64 (unat new_sp + OFF_MC + 8 * k) m'" for k
  have mc: "mc k = (map (\<lambda>i. regs ! i) MC_ORDER @ [rsp, rip, rflags]) ! k" if "k < 18" for k using m'(2) that by (simp add: mc_def)
  have "restore_signal_frame new_sp m' = Some (rip, rsp, rflags, regs, om)"
    unfolding restore_signal_frame_def Let_def mc_def [symmetric] m'(3)
    using assms(3) by (subst regs) (simp add: mc MC_ORDER_def)
  then show ?thesis using m'(1,4) by blast
qed

theorem signal_frame_roundtrip_witness:
  "\<exists>m'. setup_signal_frame 0x8000 SIGINT demo_handler 0x4000 0x8000 0x202 (replicate 16 0) 5 (\<lambda>_. 0) = Some (Some (0x7E40, 0x5000), m')
     \<and> restore_signal_frame 0x7E40 m' = Some (0x4000, 0x8000, 0x202, replicate 16 0, 5)"
proof -
  have "(0x8000 - word_of_nat FRAME_SIZE) AND NOT 0xF = (0x7E40 :: u64)" by (simp add: FRAME_SIZE_def)
  moreover have "\<not> (0x7E40 :: u64) < 0x1000" "FRAME_SIZE \<le> unat (0x8000 :: u64)" by (simp_all add: FRAME_SIZE_def)
  moreover have "sa_handler demo_handler = 0x5000" by (simp add: demo_handler_def)
  ultimately show ?thesis
    using signal_frame_roundtrip [of "0x8000" "0x7E40" "replicate 16 0" SIGINT demo_handler "0x4000" "0x8000" "0x202" 5 "\<lambda>_. 0"] by auto
qed

text \<open>A handler that returns does not come back to the interrupted program.  Its \<open>ret\<close> pops the restorer, so the
  stack pointer is 8 bytes above the frame when the restorer calls \<open>rt_sigreturn\<close>, which takes it for the address of
  the frame: execution resumes with the saved flags as instruction pointer and the saved instruction pointer as stack
  pointer.\<close>

theorem sigreturn_misreads_frame:
  assumes "sig_reach (u_task u)" and "deliverable (t_signals (u_task u)) \<noteq> {}" and "k = Min (deliverable (t_signals (u_task u)))"
    and "has_handler (t_handlers (u_task u) ! k)" and "FRAME_SIZE \<le> unat (u_rsp u)"
    and "\<not> (u_rsp u - word_of_nat FRAME_SIZE) AND NOT 0xF < 0x1000"
  shows "\<exists>u'. check_and_deliver_signals u = Some u' \<and> f_rcx (u_frame u') = sa_handler (t_handlers (u_task u) ! k)
    \<and> (\<exists>r v. sys_rt_sigreturn (u'\<lparr>u_rsp := u_rsp u' + 8, u_frame := fr\<rparr>) = (r, v)
         \<and> f_rcx (u_frame v) = f_r11 (u_frame u) \<and> u_rsp v = f_rcx (u_frame u))"
proof -
  define sp where "sp = (u_rsp u - word_of_nat FRAME_SIZE) AND NOT 0xF"
  have "0 \<notin> deliverable (t_signals (u_task u))" using zero_not_deliverable sig_reach_ok assms(1) by blast
  then have pos: "0 < k" using assms(2,3) by (metis Min_in deliverable_finite gr0I)
  have new: "\<not> sp < 0x1000" using assms(6) by (simp add: sp_def)
  let ?vs = "map (\<lambda>j. frame_regs (u_frame u) ! j) MC_ORDER @ [u_rsp u, f_rcx (u_frame u), f_r11 (u_frame u)]"
  obtain u' where u': "deliver_step u = Some (False, u')" "u_rsp u' = sp" "f_rcx (u_frame u') = sa_handler (t_handlers (u_task u) ! k)"
    "\<forall>i < 18. read_u64 (unat sp + OFF_MC + 8 * i) (u_mem u') = ?vs ! i" "unat sp + FRAME_SIZE \<le> unat (u_rsp u)"
    using deliver_step_handler [OF assms(2,3) pos refl assms(4,5) sp_def new] by blast
  have run: "check_and_deliver_signals u = Some u'"
    using u'(1) assms(2) by (simp add: check_and_deliver_signals_def has_pending_iff deliver_loop.simps)
  have "unat (u_rsp u) < 2 ^ 64" using unsigned_less [of "u_rsp u"] by simp
  then have lt: "unat sp + 8 < 2 ^ 64" using u'(5) by (simp add: FRAME_SIZE_def)
  then have sp8: "unat (sp + 8) = unat sp + 8" by (simp add: unat_word_ariths(1))
  have new8: "\<not> sp + 8 < 0x1000" using new sp8 by (simp add: word_less_nat_alt)
  define mc where "mc k = read_u64 (unat (sp + 8) + OFF_MC + 8 * k) (u_mem u')" for k
  have mc: "mc i = ?vs ! Suc i" if "Suc i < 18" for i
  proof -
    have eq: "unat (sp + 8) + OFF_MC + 8 * i = unat sp + OFF_MC + 8 * Suc i" by (simp add: sp8)
    from u'(4) [rule_format, OF that] show ?thesis unfolding mc_def eq .
  qed
  obtain regs om where "restore_signal_frame (sp + 8) (u_mem u') = Some (mc 16, mc 15, mc 17, regs, om)"
    using new8 by (simp add: restore_signal_frame_def mc_def Let_def)
  moreover have "mc 16 = f_r11 (u_frame u)" "mc 15 = f_rcx (u_frame u)" by (simp_all add: mc MC_ORDER_def)
  ultimately have "\<exists>r v. sys_rt_sigreturn (u'\<lparr>u_rsp := u_rsp u' + 8, u_frame := fr\<rparr>) = (r, v)
      \<and> f_rcx (u_frame v) = f_r11 (u_frame u) \<and> u_rsp v = f_rcx (u_frame u)"
    by (simp add: sys_rt_sigreturn_def u'(2))
  then show ?thesis using run u'(3) by blast
qed

theorem sigreturn_misreads_frame_witness:
  "\<exists>u' r v. check_and_deliver_signals (demo_uctx (sig_bit SIGINT)) = Some u' \<and> f_rcx (u_frame u') = 0x5000
     \<and> sys_rt_sigreturn (u'\<lparr>u_rsp := u_rsp u' + 8, u_frame := u_frame u'\<lparr>f_rax := 15\<rparr>\<rparr>) = (r, v) \<and> f_rcx (u_frame v) = 0x202 \<and> u_rsp v = 0x4000"
proof -
  let ?u = "demo_uctx (sig_bit SIGINT)"
  have t: "u_task ?u = demo_sigtask (sig_bit SIGINT)" "u_rsp ?u = 0x8000" "f_r11 (u_frame ?u) = 0x202" "f_rcx (u_frame ?u) = 0x4000"
    by (simp_all add: demo_uctx_def)
  have "sig_reach (demo_sigtask (sig_bit SIGINT))"
    using sig_send [OF demo_reach(1), of SIGINT] by (simp add: demo_sigtask_def ss_send_def signum)
  moreover have d: "deliverable (t_signals (demo_sigtask (sig_bit SIGINT))) = {SIGINT}"
    by (auto simp: demo_sigtask_def deliverable_nth signum)
  moreover have h: "t_handlers (demo_sigtask p) ! SIGINT = demo_handler" for p by (simp add: demo_sigtask_def handlers_new_def signum)
  moreover have "has_handler demo_handler" "sa_handler demo_handler = 0x5000" by (simp_all add: has_handler_def demo_handler_def SIG_IGN_def)
  moreover have "FRAME_SIZE \<le> unat (0x8000 :: u64)" "\<not> (0x8000 - word_of_nat FRAME_SIZE) AND NOT 0xF < (0x1000 :: u64)"
    by (simp_all add: FRAME_SIZE_def)
  ultimately have all: "\<exists>u'. check_and_deliver_signals ?u = Some u' \<and> f_rcx (u_frame u') = 0x5000
    \<and> (\<exists>r v. sys_rt_sigreturn (u'\<lparr>u_rsp := u_rsp u' + 8, u_frame := fr\<rparr>) = (r, v)
         \<and> f_rcx (u_frame v) = 0x202 \<and> u_rsp v = 0x4000)" for fr
    using sigreturn_misreads_frame [of ?u SIGINT fr] by (simp add: t)
  obtain u' where u': "check_and_deliver_signals ?u = Some u'" "f_rcx (u_frame u') = 0x5000" using all by blast
  then show ?thesis using all [of "(u_frame u')\<lparr>f_rax := 15\<rparr>"] by auto
qed

text \<open>A program can write any 64-bit value whose bits 9 and 19 are clear to any address, also of the kernel: it sets
  its signal mask to the value and asks for the old mask to be stored at the address, which is not checked to be a user
  address.\<close>

theorem sigprocmask_writes_anywhere:
  assumes "\<not> is_user_range a 8" and "a \<noteq> 0" and "st \<noteq> 0" and "read_u64 st (u_mem u) = w" and "\<not> bit w SIGKILL" and "\<not> bit w SIGSTOP"
  shows "\<exists>u1 u2. sys_rt_sigprocmask 2 st 0 8 u = (0, u1) \<and> sys_rt_sigprocmask 2 0 a 8 u1 = (0, u2) \<and> read_u64 a (u_mem u2) = w"
proof -
  let ?u1 = "u\<lparr>u_task := (u_task u)\<lparr>t_signals := set_blocked_mask w (t_signals (u_task u))\<rparr>\<rparr>"
  have "sys_rt_sigprocmask 2 st 0 8 u = (0, ?u1)" using assms(3,4) by (simp add: sys_rt_sigprocmask_def Let_def)
  moreover have "blocked (set_blocked_mask w s) = w" for s
    using assms(5,6) by (intro bit_word_eqI) (auto simp: set_blocked_mask_def bit_simps)
  then have "sys_rt_sigprocmask 2 0 a 8 ?u1 = (0, ?u1\<lparr>u_mem := write_u64 a w (u_mem u)\<rparr>)"
    using assms(2) by (simp add: sys_rt_sigprocmask_def Let_def)
  ultimately show ?thesis by (simp add: read_write_u64)
qed

theorem sigprocmask_writes_anywhere_witness:
  "\<not> is_user_range 0xFFFF800000000000 8 \<and> (\<exists>u u1 u2. sys_rt_sigprocmask 2 0x3000 0 8 u = (0, u1)
     \<and> sys_rt_sigprocmask 2 0 0xFFFF800000000000 8 u1 = (0, u2) \<and> read_u64 0xFFFF800000000000 (u_mem u2) = 0x4141)"
proof -
  let ?u = "(demo_uctx 0)\<lparr>u_mem := write_u64 0x3000 0x4141 (\<lambda>_. 0)\<rparr>"
  have k: "\<not> is_user_range 0xFFFF800000000000 8" by (simp add: is_user_range_iff USER_SPACE_END_def)
  moreover have "\<not> bit (0x4141 :: u64) SIGKILL" "\<not> bit (0x4141 :: u64) SIGSTOP" by (simp_all add: signum bit_iff_odd drop_bit_eq_div)
  ultimately show ?thesis
    using sigprocmask_writes_anywhere [OF k, of "0x3000" ?u "0x4141"] by (auto simp: read_write_u64)
qed

end
