(* ===== verification/Cred.thy ===== *)
theory Cred
  imports Prelude
begin

text \<open>
  Credentials, \<^verbatim>\<open>kernel/src/security/mod.rs\<close>, and the permission checks of files,
  \<^verbatim>\<open>kernel/src/fs/perm.rs\<close> with the mode bits of \<^verbatim>\<open>kernel/src/fs/vfs.rs\<close>.

  User and group identifiers are 32-bit words; the arguments of \<open>setreuid\<close> and \<open>setregid\<close>, of type \<open>i32\<close>, are
  integers, and their casts to \<open>u32\<close> are \<open>word_of_int\<close>.  The array of supplementary groups is a list of 32 entries
  of which the first \<open>ngroups\<close> count.

  The theorems are about what a sequence of identity changes can reach, and about the equivalence of the permission
  checks with the usual reading of a mode as three octal digits.
\<close>

subsection \<open>Credentials\<close>

type_synonym uid = u32
type_synonym gid = u32

definition CAPS_ALL :: u32 where "CAPS_ALL = 0xF"

definition MAX_GROUPS :: nat where "MAX_GROUPS = 32"

record Cred =
  uid :: uid
  gid :: gid
  euid :: uid
  egid :: gid
  suid :: uid
  sgid :: gid
  groups :: "gid list"
  ngroups :: nat
  caps :: u32

definition is_root :: "Cred \<Rightarrow> bool" where
  "is_root c = (euid c = 0)"

definition is_real_root :: "Cred \<Rightarrow> bool" where
  "is_real_root c = (uid c = 0)"

definition cred_root :: Cred where
  "cred_root = \<lparr>uid = 0, gid = 0, euid = 0, egid = 0, suid = 0, sgid = 0, groups = replicate MAX_GROUPS 0, ngroups = 0, caps = CAPS_ALL\<rparr>"

definition cred_user :: "u32 \<Rightarrow> u32 \<Rightarrow> Cred" where
  "cred_user u g = \<lparr>uid = u, gid = g, euid = u, egid = g, suid = u, sgid = g, groups = replicate MAX_GROUPS 0, ngroups = 0, caps = 0\<rparr>"

definition with_setuid :: "u32 \<Rightarrow> u32 \<Rightarrow> u32 \<Rightarrow> u32 \<Rightarrow> Cred" where
  "with_setuid u g eu eg = \<lparr>uid = u, gid = g, euid = eu, egid = eg, suid = eu, sgid = eg, groups = replicate MAX_GROUPS 0, ngroups = 0,
     caps = (if eu = 0 then CAPS_ALL else 0)\<rparr>"

definition setuid :: "u32 \<Rightarrow> Cred \<Rightarrow> unit KResult \<times> Cred" where
  "setuid new_uid c =
     (if euid c = 0 then
        let c = c\<lparr>uid := new_uid, euid := new_uid, suid := new_uid\<rparr>
        in (Inr (), if new_uid \<noteq> 0 then c\<lparr>caps := 0\<rparr> else c)
      else if new_uid = uid c \<or> new_uid = euid c \<or> new_uid = suid c then (Inr (), c\<lparr>euid := new_uid\<rparr>)
      else (Inl PermissionDenied, c))"

definition setgid :: "u32 \<Rightarrow> Cred \<Rightarrow> unit KResult \<times> Cred" where
  "setgid new_gid c =
     (if euid c = 0 then (Inr (), c\<lparr>gid := new_gid, egid := new_gid, sgid := new_gid\<rparr>)
      else if new_gid = gid c \<or> new_gid = egid c \<or> new_gid = sgid c then (Inr (), c\<lparr>egid := new_gid\<rparr>)
      else (Inl PermissionDenied, c))"

definition setreuid :: "int \<Rightarrow> int \<Rightarrow> Cred \<Rightarrow> unit KResult \<times> Cred" where
  "setreuid ruid eu c =
     (let new_ruid = (if ruid = - 1 then uid c else word_of_int ruid);
          new_euid = (if eu = - 1 then euid c else word_of_int eu)
      in if euid c \<noteq> 0 \<and> ruid \<noteq> - 1 \<and> new_ruid \<noteq> uid c \<and> new_ruid \<noteq> euid c then (Inl PermissionDenied, c)
         else if euid c \<noteq> 0 \<and> eu \<noteq> - 1 \<and> new_euid \<noteq> uid c \<and> new_euid \<noteq> euid c \<and> new_euid \<noteq> suid c then (Inl PermissionDenied, c)
         else
           let c = (if ruid \<noteq> - 1 \<or> (eu \<noteq> - 1 \<and> new_euid \<noteq> uid c) then c\<lparr>suid := euid c\<rparr> else c);
               c = c\<lparr>uid := new_ruid, euid := new_euid\<rparr>
           in (Inr (), c\<lparr>caps := (if euid c = 0 then CAPS_ALL else 0)\<rparr>))"

definition setregid :: "int \<Rightarrow> int \<Rightarrow> Cred \<Rightarrow> unit KResult \<times> Cred" where
  "setregid rgid eg c =
     (let new_rgid = (if rgid = - 1 then gid c else word_of_int rgid);
          new_egid = (if eg = - 1 then egid c else word_of_int eg)
      in if euid c \<noteq> 0 \<and> rgid \<noteq> - 1 \<and> new_rgid \<noteq> gid c \<and> new_rgid \<noteq> egid c then (Inl PermissionDenied, c)
         else if euid c \<noteq> 0 \<and> eg \<noteq> - 1 \<and> new_egid \<noteq> gid c \<and> new_egid \<noteq> egid c \<and> new_egid \<noteq> sgid c then (Inl PermissionDenied, c)
         else
           let c = (if rgid \<noteq> - 1 \<or> (eg \<noteq> - 1 \<and> new_egid \<noteq> gid c) then c\<lparr>sgid := egid c\<rparr> else c)
           in (Inr (), c\<lparr>gid := new_rgid, egid := new_egid\<rparr>))"

fun copy_groups :: "nat \<Rightarrow> gid list \<Rightarrow> gid list \<Rightarrow> gid list" where
  "copy_groups i [] gs = gs"
| "copy_groups i (g # new) gs = copy_groups (Suc i) new (gs[i := g])"

definition setgroups :: "gid list \<Rightarrow> Cred \<Rightarrow> unit KResult \<times> Cred" where
  "setgroups new c =
     (if euid c \<noteq> 0 then (Inl PermissionDenied, c)
      else if length new > MAX_GROUPS then (Inl Invalid, c)
      else (Inr (), c\<lparr>ngroups := length new, groups := copy_groups 0 new (groups c)\<rparr>))"

definition getgroups :: "Cred \<Rightarrow> gid list option" where
  "getgroups c = (if ngroups c \<le> length (groups c) then Some (take (ngroups c) (groups c)) else None)"

text \<open>The loop over the first \<open>ngroups\<close> entries, which panics past the end of the array.\<close>

fun group_scan :: "gid \<Rightarrow> gid list \<Rightarrow> nat list \<Rightarrow> bool option" where
  "group_scan g gs [] = Some False"
| "group_scan g gs (i # is) = Option.bind (idx gs i) (\<lambda>x. if x = g then Some True else group_scan g gs is)"

definition cred_in_group :: "gid \<Rightarrow> Cred \<Rightarrow> bool option" where
  "cred_in_group g c = (if egid c = g \<or> gid c = g then Some True else group_scan g (groups c) [0..<ngroups c])"

subsection \<open>The user database\<close>

record User =
  u_name :: string
  u_uid :: uid
  u_gid :: gid
  u_home :: string
  u_shell :: string

type_synonym UserDb = "string \<rightharpoonup> User"

definition db_new :: UserDb where "db_new = Map.empty"

definition db_add :: "User \<Rightarrow> UserDb \<Rightarrow> UserDb" where
  "db_add u db = db(u_name u \<mapsto> u)"

definition db_get :: "string \<Rightarrow> UserDb \<Rightarrow> User option" where
  "db_get name db = db name"

definition login :: "string \<Rightarrow> UserDb \<Rightarrow> Cred KResult" where
  "login name db = (case db_get name db of
     None \<Rightarrow> Inl NotFound
   | Some u \<Rightarrow> Inr \<lparr>uid = u_uid u, gid = u_gid u, euid = u_uid u, egid = u_gid u, suid = u_uid u, sgid = u_gid u,
       groups = replicate MAX_GROUPS 0, ngroups = 0, caps = (if u_uid u = 0 then CAPS_ALL else 0)\<rparr>)"

definition user_db_init :: UserDb where
  "user_db_init =
     db_add \<lparr>u_name = ''user'', u_uid = 1000, u_gid = 1000, u_home = ''/home/user'', u_shell = ''/bin/ksh''\<rparr>
     (db_add \<lparr>u_name = ''root'', u_uid = 0, u_gid = 0, u_home = ''/root'', u_shell = ''/bin/ksh''\<rparr> db_new)"

subsection \<open>Modes and permission checks\<close>

type_synonym mode = u16

definition S_ISUID :: mode where "S_ISUID = 0x800"
definition S_ISGID :: mode where "S_ISGID = 0x400"
definition S_ISVTX :: mode where "S_ISVTX = 0x200"
definition UR :: mode where "UR = 0x100"
definition UW :: mode where "UW = 0x080"
definition UX :: mode where "UX = 0x040"
definition GR :: mode where "GR = 0x020"
definition GW :: mode where "GW = 0x010"
definition GX :: mode where "GX = 0x008"
definition ORd :: mode where "ORd = 0x004"
definition OW :: mode where "OW = 0x002"
definition OX :: mode where "OX = 0x001"

definition contains :: "mode \<Rightarrow> mode \<Rightarrow> bool" where
  "contains m f = (m AND f = f)"

text \<open>\<open>from_bits_truncate\<close> keeps the bits of the declared flags.\<close>

definition from_octal :: "u16 \<Rightarrow> mode" where
  "from_octal v = v AND 0xFFF"

definition is_setuid :: "mode \<Rightarrow> bool" where "is_setuid m = contains m S_ISUID"
definition is_setgid :: "mode \<Rightarrow> bool" where "is_setgid m = contains m S_ISGID"
definition is_sticky :: "mode \<Rightarrow> bool" where "is_sticky m = contains m S_ISVTX"

datatype InodeKind = KFile | KDir | KSymlink | KCharDev | KBlockDev | KFifo | KSocket

record Timespec =
  secs :: nat
  nsecs :: nat

record Metadata =
  m_uid :: uid
  m_gid :: gid
  m_mode :: mode
  m_kind :: InodeKind
  m_ino :: nat
  m_nlink :: nat
  m_atime :: Timespec
  m_mtime :: Timespec
  m_ctime :: Timespec

definition time_zero :: Timespec where "time_zero = \<lparr>secs = 0, nsecs = 0\<rparr>"

definition with_ino :: "uid \<Rightarrow> gid \<Rightarrow> mode \<Rightarrow> InodeKind \<Rightarrow> nat \<Rightarrow> Metadata" where
  "with_ino u g md k ino = \<lparr>m_uid = u, m_gid = g, m_mode = md, m_kind = k, m_ino = ino, m_nlink = 1,
     m_atime = time_zero, m_mtime = time_zero, m_ctime = time_zero\<rparr>"

definition simple :: "uid \<Rightarrow> gid \<Rightarrow> mode \<Rightarrow> InodeKind \<Rightarrow> Metadata" where
  "simple u g md k = with_ino u g md k 0"

datatype Class = ClUser | ClGroup | ClOther

definition in_group :: "Metadata \<Rightarrow> Cred \<Rightarrow> bool option" where
  "in_group meta c =
     (if gid c = m_gid meta then Some True
      else if egid c = m_gid meta then Some True
      else group_scan (m_gid meta) (groups c) [0..<ngroups c])"

definition class_of :: "Metadata \<Rightarrow> Cred \<Rightarrow> Class option" where
  "class_of meta c =
     (if is_root c then Some ClUser
      else if euid c = m_uid meta then Some ClUser
      else do { g \<leftarrow> in_group meta c; Some (if g then ClGroup else ClOther) })"

definition class_bits :: "Class \<Rightarrow> mode \<Rightarrow> bool \<times> bool \<times> bool" where
  "class_bits cl m = (case cl of
     ClUser \<Rightarrow> (contains m UR, contains m UW, contains m UX)
   | ClGroup \<Rightarrow> (contains m GR, contains m GW, contains m GX)
   | ClOther \<Rightarrow> (contains m ORd, contains m OW, contains m OX))"

definition allow :: "Metadata \<Rightarrow> Cred \<Rightarrow> bool \<Rightarrow> bool \<Rightarrow> bool \<Rightarrow> bool option" where
  "allow meta c need_r need_w need_x =
     (if is_root c then Some True
      else do {
        cl \<leftarrow> class_of meta c;
        case class_bits cl (m_mode meta) of (r, w, x) \<Rightarrow>
          Some ((\<not> need_r \<or> r) \<and> (\<not> need_w \<or> w) \<and> (\<not> need_x \<or> x))
      })"

definition can_read_dir :: "Metadata \<Rightarrow> Cred \<Rightarrow> bool option" where "can_read_dir meta c = allow meta c True False False"
definition can_write_dir :: "Metadata \<Rightarrow> Cred \<Rightarrow> bool option" where "can_write_dir meta c = allow meta c False True False"
definition can_exec_dir :: "Metadata \<Rightarrow> Cred \<Rightarrow> bool option" where "can_exec_dir meta c = allow meta c False False True"
definition can_read_file :: "Metadata \<Rightarrow> Cred \<Rightarrow> bool option" where "can_read_file meta c = allow meta c True False False"
definition can_write_file :: "Metadata \<Rightarrow> Cred \<Rightarrow> bool option" where "can_write_file meta c = allow meta c False True False"
definition can_write_any :: "Metadata \<Rightarrow> Cred \<Rightarrow> bool option" where "can_write_any meta c = allow meta c False True False"
definition can_exec_any :: "Metadata \<Rightarrow> Cred \<Rightarrow> bool option" where "can_exec_any meta c = allow meta c False False True"
definition can_read_any :: "Metadata \<Rightarrow> Cred \<Rightarrow> bool option" where "can_read_any meta c = allow meta c True False False"
definition can_read_write :: "Metadata \<Rightarrow> Cred \<Rightarrow> bool option" where "can_read_write meta c = allow meta c True True False"
definition can_exec_file :: "Metadata \<Rightarrow> Cred \<Rightarrow> bool option" where "can_exec_file meta c = allow meta c False False True"

definition allow_real :: "Metadata \<Rightarrow> Cred \<Rightarrow> bool \<Rightarrow> bool \<Rightarrow> bool \<Rightarrow> bool option" where
  "allow_real meta c need_r need_w need_x =
     (if uid c = 0 then Some True
      else do {
        cl \<leftarrow> (if uid c = m_uid meta then Some ClUser
               else if gid c = m_gid meta then Some ClGroup
               else do { g \<leftarrow> group_scan (m_gid meta) (groups c) [0..<ngroups c]; Some (if g then ClGroup else ClOther) });
        case class_bits cl (m_mode meta) of (r, w, x) \<Rightarrow>
          Some ((\<not> need_r \<or> r) \<and> (\<not> need_w \<or> w) \<and> (\<not> need_x \<or> x))
      })"

definition check_access :: "Metadata \<Rightarrow> Cred \<Rightarrow> u32 \<Rightarrow> bool option" where
  "check_access meta c md =
     (if md = 0 then Some True
      else allow_real meta c (md AND 4 \<noteq> 0) (md AND 2 \<noteq> 0) (md AND 1 \<noteq> 0))"

subsection \<open>Well-formed credentials\<close>

definition cred_ok :: "Cred \<Rightarrow> bool" where
  "cred_ok c \<longleftrightarrow> length (groups c) = MAX_GROUPS \<and> ngroups c \<le> MAX_GROUPS"

lemma length_copy_groups [simp]: "length (copy_groups i new gs) = length gs"
  by (induction i new gs rule: copy_groups.induct) simp_all

lemma copy_groups_eq: "i + length new \<le> length gs \<Longrightarrow> copy_groups i new gs = take i gs @ new @ drop (i + length new) gs"
proof (induction i new gs rule: copy_groups.induct)
  case (2 i g new gs)
  then have "take (Suc i) (gs[i := g]) = take i gs @ [g]" by (simp add: take_Suc_conv_app_nth)
  then show ?case using 2 by simp
qed simp

lemma group_scan_eq: "\<forall>i \<in> set is. i < length gs \<Longrightarrow> group_scan g gs is = Some (\<exists>i \<in> set is. gs ! i = g)"
  by (induction "is") auto

lemma group_scan_take: "n \<le> length gs \<Longrightarrow> group_scan g gs [0..<n] = Some (g \<in> set (take n gs))"
proof -
  assume n: "n \<le> length gs"
  then have "group_scan g gs [0..<n] = Some (\<exists>i < n. gs ! i = g)" using group_scan_eq [of "[0..<n]" gs g] by auto
  also have "(\<exists>i < n. gs ! i = g) \<longleftrightarrow> g \<in> set (take n gs)" using n by (auto simp: in_set_conv_nth)
  finally show ?thesis .
qed

text \<open>On well-formed credentials the checks do not panic.\<close>

lemma allow_total: "cred_ok c \<Longrightarrow> \<exists>b. allow meta c r w x = Some b"
  by (auto simp: allow_def class_of_def in_group_def group_scan_take cred_ok_def split: prod.split)

subsection \<open>Sequences of identity changes\<close>

datatype IdCall = SetUid u32 | SetGid u32 | SetReUid int int | SetReGid int int | SetGroups "gid list"

fun id_call :: "IdCall \<Rightarrow> Cred \<Rightarrow> unit KResult \<times> Cred" where
  "id_call (SetUid u) c = setuid u c"
| "id_call (SetGid g) c = setgid g c"
| "id_call (SetReUid r e) c = setreuid r e c"
| "id_call (SetReGid r e) c = setregid r e c"
| "id_call (SetGroups gs) c = setgroups gs c"

definition id_calls :: "IdCall list \<Rightarrow> Cred \<Rightarrow> Cred" where
  "id_calls cs = fold (\<lambda>i c. snd (id_call i c)) cs"

lemmas id_defs = setuid_def setgid_def setreuid_def setregid_def setgroups_def

lemma id_call_ok: "cred_ok c \<Longrightarrow> cred_ok (snd (id_call i c))"
  by (cases i) (auto simp: id_defs cred_ok_def Let_def)

definition uids :: "Cred \<Rightarrow> uid set" where "uids c = {uid c, euid c, suid c}"
definition gids :: "Cred \<Rightarrow> gid set" where "gids c = {gid c, egid c, sgid c}"

definition confined :: "Cred \<Rightarrow> Cred \<Rightarrow> bool" where
  "confined c c' \<longleftrightarrow> uids c' \<subseteq> uids c \<and> gids c' \<subseteq> gids c \<and> groups c' = groups c \<and> ngroups c' = ngroups c \<and> caps c' \<in> {caps c, 0}"

lemma id_call_confined: "0 \<notin> uids c \<Longrightarrow> confined c (snd (id_call i c))"
  by (cases i) (auto simp: id_defs confined_def uids_def gids_def Let_def)

lemma confined_trans: "confined a b \<Longrightarrow> confined b c \<Longrightarrow> confined a c"
  by (auto simp: confined_def)

lemma id_calls_confined: "0 \<notin> uids c \<Longrightarrow> confined c (id_calls cs c)"
proof (induction cs arbitrary: c)
  case Nil
  then show ?case by (simp add: id_calls_def confined_def)
next
  case (Cons i cs)
  let ?c = "snd (id_call i c)"
  have 1: "confined c ?c" using id_call_confined Cons.prems by blast
  then have "0 \<notin> uids ?c" using Cons.prems by (auto simp: confined_def)
  then show ?case using confined_trans [OF 1 Cons.IH] by (simp add: id_calls_def)
qed

subsection \<open>Modes as octal digits\<close>

lemma contains_bit: "contains m (push_bit i 1) \<longleftrightarrow> bit m i" if "i < 16"
proof
  assume "contains m (push_bit i 1)"
  then have "bit (m AND push_bit i 1) i = bit (push_bit i 1 :: mode) i" by (simp only: contains_def)
  then show "bit m i" using that by (simp add: bit_simps)
next
  assume "bit m i"
  then show "contains m (push_bit i 1)" unfolding contains_def by (intro bit_word_eqI) (auto simp: bit_simps)
qed

lemma bit_unat: "bit (m :: mode) i \<longleftrightarrow> odd (unat m div 2 ^ i)"
proof -
  have "odd (unat m div 2 ^ i) = bit (unat m) i" by (simp add: bit_iff_odd)
  also have "\<dots> = bit m i" by (simp add: bit_unsigned_iff)
  finally show ?thesis by simp
qed

definition digit :: "nat \<Rightarrow> mode \<Rightarrow> nat" where
  "digit k m = unat m div 8 ^ k mod 8"

lemma digit_bits:
  "4 \<le> digit k m \<longleftrightarrow> bit m (3 * k + 2)" "2 \<le> digit k m mod 4 \<longleftrightarrow> bit m (3 * k + 1)" "odd (digit k m) \<longleftrightarrow> bit m (3 * k)"
proof -
  have e: "(8 :: nat) ^ k = 2 ^ (3 * k)" by (simp add: power_mult)
  define n where "n = unat m div 2 ^ (3 * k)"
  have d: "unat m div 2 ^ (3 * k + 2) = n div 4" "unat m div 2 ^ (3 * k + 1) = n div 2"
    using div_mult2_eq [of "unat m" "2 ^ (3 * k)" 4] div_mult2_eq [of "unat m" "2 ^ (3 * k)" 2]
    by (simp_all add: power_add mult.commute n_def)
  have m8: "n mod 8 mod 4 = n mod 4" by (simp add: mod_mod_cancel)
  show "4 \<le> digit k m \<longleftrightarrow> bit m (3 * k + 2)" unfolding bit_unat d digit_def e n_def [symmetric] by presburger
  show "2 \<le> digit k m mod 4 \<longleftrightarrow> bit m (3 * k + 1)"
    unfolding bit_unat d digit_def e n_def [symmetric] m8 by presburger
  show "odd (digit k m) \<longleftrightarrow> bit m (3 * k)" unfolding bit_unat digit_def e n_def [symmetric] by presburger
qed

lemma class_bits_digit:
  "class_bits cl m = (let d = digit (case cl of ClUser \<Rightarrow> 2 | ClGroup \<Rightarrow> 1 | ClOther \<Rightarrow> 0) m in (4 \<le> d, 2 \<le> d mod 4, odd d))"
proof -
  note bits = contains_bit [of 8 m] contains_bit [of 7 m] contains_bit [of 6 m] contains_bit [of 5 m] contains_bit [of 4 m]
    contains_bit [of 3 m] contains_bit [of 2 m] contains_bit [of 1 m] contains_bit [of 0 m]
  have "contains m UR = bit m 8" "contains m UW = bit m 7" "contains m UX = bit m 6" "contains m GR = bit m 5" "contains m GW = bit m 4"
    "contains m GX = bit m 3" "contains m ORd = bit m 2" "contains m OW = bit m 1" "contains m OX = bit m 0"
    using bits by (simp_all add: UR_def UW_def UX_def GR_def GW_def GX_def ORd_def OW_def OX_def push_bit_eq_mult)
  then show ?thesis
    using digit_bits [of 2 m] digit_bits [of 1 m] digit_bits [of 0 m] by (cases cl; simp add: class_bits_def Let_def; simp add: numeral_2_eq_2)
qed

text \<open>The reference: the digit of the first class that applies, owner before group before others, has every
  requested bit.\<close>

definition octal_allow :: "bool \<Rightarrow> bool \<Rightarrow> mode \<Rightarrow> bool \<Rightarrow> bool \<Rightarrow> bool \<Rightarrow> bool" where
  "octal_allow owner grp m r w x =
     (let d = digit (if owner then 2 else if grp then 1 else 0) m
      in (r \<longrightarrow> 4 \<le> d) \<and> (w \<longrightarrow> 2 \<le> d mod 4) \<and> (x \<longrightarrow> odd d))"

lemma class_allow:
  "(case class_bits cl m of (r', w', x') \<Rightarrow> Some ((\<not> r \<or> r') \<and> (\<not> w \<or> w') \<and> (\<not> x \<or> x'))) =
   Some (octal_allow (cl = ClUser) (cl = ClGroup) m r w x)"
  by (cases cl) (auto simp: class_bits_digit octal_allow_def Let_def)

subsection \<open>Properties\<close>

text \<open>C32. A process that is not root and has no root identity saved cannot gain any identity: whatever sequence of
  \<open>setuid\<close>, \<open>setgid\<close>, \<open>setreuid\<close>, \<open>setregid\<close> and \<open>setgroups\<close> it runs, its user and group identifiers stay among those
  it had, its supplementary groups stay the same, and its capabilities stay or are dropped.\<close>

theorem unprivileged_confined:
  assumes "uid c \<noteq> 0" and "euid c \<noteq> 0" and "suid c \<noteq> 0" and "c' = id_calls cs c"
  shows "{uid c', euid c', suid c'} \<subseteq> {uid c, euid c, suid c} \<and> {gid c', egid c', sgid c'} \<subseteq> {gid c, egid c, sgid c}
    \<and> groups c' = groups c \<and> ngroups c' = ngroups c \<and> caps c' \<in> {caps c, 0}"
  using id_calls_confined [of c cs] assms by (simp add: confined_def uids_def gids_def)

theorem unprivileged_confined_witness:
  "euid (id_calls [SetUid 0, SetReUid 0 0, SetGroups [0], SetReUid (- 1) 0] (cred_user 1000 1000)) \<noteq> 0"
proof -
  have "uid (cred_user 1000 1000) \<noteq> 0" "euid (cred_user 1000 1000) \<noteq> 0" "suid (cred_user 1000 1000) \<noteq> 0" by (simp_all add: cred_user_def)
  from unprivileged_confined [OF this refl, of "[SetUid 0, SetReUid 0 0, SetGroups [0], SetReUid (- 1) 0]"] show ?thesis
    by (auto simp: cred_user_def)
qed

text \<open>Dropping root with \<open>setreuid\<close> can be undone: the saved user identifier is set to the effective one from
  before the change, so that it stays 0 and a later \<open>setuid(0)\<close> makes the process root again.\<close>

theorem setreuid_keeps_saved_root:
  assumes "euid c = 0" and "r \<noteq> - 1" and "e \<noteq> - 1" and "word_of_int e \<noteq> (0 :: u32)"
  shows "\<exists>c1 c2. setreuid r e c = (Inr (), c1) \<and> uid c1 = word_of_int r \<and> euid c1 = word_of_int e \<and> caps c1 = 0
    \<and> setuid 0 c1 = (Inr (), c2) \<and> is_root c2"
  using assms by (simp add: setreuid_def setuid_def Let_def is_root_def)

theorem setreuid_keeps_saved_root_witness:
  "\<exists>c1 c2. setreuid 1000 1000 cred_root = (Inr (), c1) \<and> euid c1 = 1000 \<and> setuid 0 c1 = (Inr (), c2) \<and> is_root c2"
proof -
  have "euid cred_root = 0" by (simp add: cred_root_def)
  from setreuid_keeps_saved_root [OF this, of 1000 1000] show ?thesis by auto
qed

text \<open>The permission check is the usual one: root passes; otherwise the octal digit of the owner decides when the
  effective user owns the file, else the digit of the group when the file's group is among the real, effective and
  supplementary groups, else the last digit.  The check of \<open>access\<close> is the same with the real user and without the
  effective group.\<close>

theorem allow_octal:
  assumes "cred_ok c"
  shows "allow meta c r w x = Some (euid c = 0 \<or> octal_allow (euid c = m_uid meta)
       (m_gid meta \<in> {gid c, egid c} \<union> set (take (ngroups c) (groups c))) (m_mode meta) r w x)
    \<and> allow_real meta c r w x = Some (uid c = 0 \<or> octal_allow (uid c = m_uid meta)
       (m_gid meta \<in> {gid c} \<union> set (take (ngroups c) (groups c))) (m_mode meta) r w x)"
proof -
  let ?g = "m_gid meta \<in> set (take (ngroups c) (groups c))"
  have sc: "group_scan (m_gid meta) (groups c) [0..<ngroups c] = Some ?g"
    using assms by (intro group_scan_take) (simp add: cred_ok_def)
  have cl: "class_of meta c = Some (if is_root c \<or> euid c = m_uid meta then ClUser
      else if m_gid meta \<in> {gid c, egid c} \<or> ?g then ClGroup else ClOther)"
    by (auto simp: class_of_def in_group_def sc)
  have "allow meta c r w x = Some (euid c = 0 \<or> octal_allow (euid c = m_uid meta)
       (m_gid meta \<in> {gid c, egid c} \<union> set (take (ngroups c) (groups c))) (m_mode meta) r w x)"
    unfolding allow_def cl bind.bind_lunit class_allow by (auto simp: is_root_def octal_allow_def)
  moreover have "allow_real meta c r w x = Some (uid c = 0 \<or> octal_allow (uid c = m_uid meta)
       (m_gid meta \<in> {gid c} \<union> set (take (ngroups c) (groups c))) (m_mode meta) r w x)"
    unfolding allow_real_def sc class_allow by (auto simp: octal_allow_def)
  ultimately show ?thesis by blast
qed

theorem allow_octal_witness:
  "allow (simple 1000 1000 0x1A0 KFile) (cred_user 1000 1000) True True False = Some True
     \<and> allow (simple 0 1000 0x1A0 KFile) (cred_user 1000 1000) True True False = Some False"
proof -
  have "cred_ok (cred_user 1000 1000)" by (simp add: cred_ok_def cred_user_def MAX_GROUPS_def)
  from allow_octal [OF this, of "simple 1000 1000 0x1A0 KFile" True True False]
    allow_octal [OF this, of "simple 0 1000 0x1A0 KFile" True True False]
  show ?thesis by (simp add: simple_def with_ino_def cred_user_def octal_allow_def digit_def Let_def)
qed

end
