(* ===== verification/Tmpfs.thy ===== *)
theory Tmpfs
  imports Pipe Cred "HOL-Library.List_Lexorder" "HOL-Library.Char_ord"
begin

text \<open>
  The memory file system, \<^verbatim>\<open>kernel/src/fs/tmpfs.rs\<close>: inodes that are files, directories, symbolic links or named
  pipes.

  Inodes are shared (\<open>Arc\<close>) and mutable, so they live in a heap and are named by their position in it.  A directory
  refers to its entries strongly and an inode to its parent weakly; the parent is found only while it is alive.  An
  inode dies when the last strong reference goes: directory entries of living directories, and the references \<open>pins\<close>
  from outside (the roots, mount points and open files).  The extended attributes of inodes are in \<open>Xattr\<close>.
\<close>

subsection \<open>Inodes\<close>

datatype TmpfsNode = TFile "u8 list" | TDir "(string \<times> nat) list" | TSymlink string | TFifo Pipe

record TmpfsInode =
  ti_parent :: "nat option"
  ti_meta :: Metadata
  ti_node :: TmpfsNode

record Heap =
  node :: "nat \<Rightarrow> TmpfsInode"
  live :: "nat \<Rightarrow> bool"
  next_ino :: nat
  pins :: "nat list"

definition as_dir :: "Heap \<Rightarrow> nat \<Rightarrow> (string \<times> nat) list KResult" where
  "as_dir h i = (case ti_node (node h i) of TDir cs \<Rightarrow> Inr cs | _ \<Rightarrow> Inl Invalid)"

definition as_file :: "Heap \<Rightarrow> nat \<Rightarrow> u8 list KResult" where
  "as_file h i = (case ti_node (node h i) of TFile d \<Rightarrow> Inr d | _ \<Rightarrow> Inl Invalid)"

definition as_symlink :: "Heap \<Rightarrow> nat \<Rightarrow> string KResult" where
  "as_symlink h i = (case ti_node (node h i) of TSymlink t \<Rightarrow> Inr t | _ \<Rightarrow> Inl Invalid)"

definition as_fifo :: "Heap \<Rightarrow> nat \<Rightarrow> Pipe KResult" where
  "as_fifo h i = (case ti_node (node h i) of TFifo p \<Rightarrow> Inr p | _ \<Rightarrow> Inl Invalid)"

definition metadata :: "Heap \<Rightarrow> nat \<Rightarrow> Metadata" where
  "metadata h i = ti_meta (node h i)"

definition kind_of :: "Heap \<Rightarrow> nat \<Rightarrow> InodeKind" where
  "kind_of h i = m_kind (metadata h i)"

text \<open>Writing one inode of the heap.\<close>

definition put_node :: "nat \<Rightarrow> TmpfsInode \<Rightarrow> Heap \<Rightarrow> Heap" where
  "put_node i n h = h\<lparr>node := (node h)(i := n)\<rparr>"

definition set_node :: "nat \<Rightarrow> TmpfsNode \<Rightarrow> Heap \<Rightarrow> Heap" where
  "set_node i n h = put_node i ((node h i)\<lparr>ti_node := n\<rparr>) h"

definition set_metadata :: "nat \<Rightarrow> Metadata \<Rightarrow> Heap \<Rightarrow> Heap" where
  "set_metadata i m h = put_node i ((node h i)\<lparr>ti_meta := m\<rparr>) h"

definition parent :: "Heap \<Rightarrow> nat \<Rightarrow> nat option" where
  "parent h i = (case ti_parent (node h i) of None \<Rightarrow> None | Some p \<Rightarrow> if live h p then Some p else None)"

text \<open>A new inode at the end of the heap.\<close>

definition alloc_inode :: "nat option \<Rightarrow> Metadata \<Rightarrow> TmpfsNode \<Rightarrow> Heap \<Rightarrow> nat \<times> Heap" where
  "alloc_inode p m n h = (next_ino h, h\<lparr>node := (node h)(next_ino h := \<lparr>ti_parent = p, ti_meta = m, ti_node = n\<rparr>),
     live := (live h)(next_ino h := True), next_ino := next_ino h + 1\<rparr>)"

definition new_root :: "Heap \<Rightarrow> nat \<times> Heap" where
  "new_root h = (case alloc_inode None (simple 0 0 (from_octal 0x1ED) KDir) (TDir []) h of
     (i, h) \<Rightarrow> (i, h\<lparr>pins := i # pins h\<rparr>))"

subsection \<open>Directories\<close>

fun ch_insert :: "string \<Rightarrow> 'v \<Rightarrow> (string \<times> 'v) list \<Rightarrow> (string \<times> 'v) list" where
  "ch_insert k v [] = [(k, v)]"
| "ch_insert k v ((k', v') # xs) =
     (if k < k' then (k, v) # (k', v') # xs
      else if k = k' then (k, v) # xs
      else (k', v') # ch_insert k v xs)"

definition ch_remove :: "string \<Rightarrow> (string \<times> 'v) list \<Rightarrow> (string \<times> 'v) list" where
  "ch_remove k xs = filter (\<lambda>e. fst e \<noteq> k) xs"

definition lookup :: "Heap \<Rightarrow> nat \<Rightarrow> string \<Rightarrow> nat KResult" where
  "lookup h i name = (case as_dir h i of Inl e \<Rightarrow> Inl e
     | Inr cs \<Rightarrow> (case map_of cs name of None \<Rightarrow> Inl NotFound | Some j \<Rightarrow> Inr j))"

text \<open>The common part of \<open>create\<close>, \<open>symlink\<close> and \<open>mkfifo\<close>: a new inode is entered under a name that is not taken.\<close>

definition bad_name :: "string \<Rightarrow> bool" where
  "bad_name name \<longleftrightarrow> name = [] \<or> CHR ''/'' \<in> set name"

definition add_inode :: "nat \<Rightarrow> string \<Rightarrow> Metadata \<Rightarrow> TmpfsNode \<Rightarrow> Heap \<Rightarrow> nat KResult \<times> Heap" where
  "add_inode i name m n h =
     (if bad_name name then (Inl Invalid, h)
      else case as_dir h i of
        Inl e \<Rightarrow> (Inl e, h)
      | Inr cs \<Rightarrow>
          if map_of cs name \<noteq> None then (Inl AlreadyExists, h)
          else case alloc_inode (Some i) m n h of (j, h) \<Rightarrow> (Inr j, set_node i (TDir (ch_insert name j cs)) h))"

definition create :: "nat \<Rightarrow> string \<Rightarrow> InodeKind \<Rightarrow> Metadata \<Rightarrow> Heap \<Rightarrow> nat KResult \<times> Heap" where
  "create i name k m h = add_inode i name m
     (case k of KFile \<Rightarrow> TFile [] | KDir \<Rightarrow> TDir [] | KSymlink \<Rightarrow> TSymlink [] | KFifo \<Rightarrow> TFifo pipe_new | _ \<Rightarrow> TFile []) h"

definition symlink :: "nat \<Rightarrow> string \<Rightarrow> string \<Rightarrow> Metadata \<Rightarrow> Heap \<Rightarrow> nat KResult \<times> Heap" where
  "symlink i name target m h = add_inode i name m (TSymlink target) h"

definition mkfifo :: "nat \<Rightarrow> string \<Rightarrow> Metadata \<Rightarrow> Heap \<Rightarrow> nat KResult \<times> Heap" where
  "mkfifo i name m h = add_inode i name m (TFifo pipe_new) h"

definition readdir :: "Heap \<Rightarrow> nat \<Rightarrow> (string \<times> InodeKind) list KResult" where
  "readdir h i = (case as_dir h i of Inl e \<Rightarrow> Inl e | Inr cs \<Rightarrow> Inr (map (\<lambda>(n, j). (n, kind_of h j)) cs))"

text \<open>The strong references to an inode: from outside, or from an entry of a living directory.  When references go,
  inodes without any die, and with a directory go the references of its entries; \<open>collect\<close> is that cascade.  Inodes
  that refer to each other in a circle never die.\<close>

definition entries :: "Heap \<Rightarrow> nat \<Rightarrow> (string \<times> nat) list" where
  "entries h d = (case ti_node (node h d) of TDir cs \<Rightarrow> cs | _ \<Rightarrow> [])"

definition referenced :: "Heap \<Rightarrow> nat \<Rightarrow> bool" where
  "referenced h j \<longleftrightarrow> j \<in> set (pins h) \<or> list_ex (\<lambda>d. live h d \<and> j \<in> set (map snd (entries h d))) [0..<next_ino h]"

definition kill :: "nat \<Rightarrow> Heap \<Rightarrow> Heap" where
  "kill j h = h\<lparr>live := (live h)(j := False)\<rparr>"

function collect :: "Heap \<Rightarrow> Heap" where
  "collect h = (case find (\<lambda>j. live h j \<and> \<not> referenced h j) [0..<next_ino h] of None \<Rightarrow> h | Some j \<Rightarrow> collect (kill j h))"
  by pat_completeness auto

termination
proof (relation "measure (\<lambda>h. length (filter (live h) [0..<next_ino h]))")
  fix h j assume "find (\<lambda>j. live h j \<and> \<not> referenced h j) [0..<next_ino h] = Some j"
  then have j: "j < next_ino h" "live h j" by (auto simp: find_Some_iff)
  let ?F = "{i. i < next_ino h \<and> live h i}"
  have "{i. i < next_ino h \<and> live (kill j h) i} = ?F - {j}" by (auto simp: kill_def)
  moreover have "card (?F - {j}) < card ?F" using j by (intro card_Diff1_less) auto
  ultimately show "(kill j h, h) \<in> measure (\<lambda>h. length (filter (live h) [0..<next_ino h]))"
    by (simp add: length_filter_conv_card kill_def cong: conj_cong)
qed simp

declare collect.simps [simp del]

definition remove_entry :: "nat \<Rightarrow> string \<Rightarrow> Heap \<Rightarrow> unit KResult \<times> Heap" where
  "remove_entry i name h =
     (case as_dir h i of Inl e \<Rightarrow> (Inl e, h)
      | Inr cs \<Rightarrow> (case map_of cs name of
          None \<Rightarrow> (Inl NotFound, h)
        | Some j \<Rightarrow> (Inr (), collect (set_node i (TDir (ch_remove name cs)) h))))"

definition unlink :: "nat \<Rightarrow> string \<Rightarrow> Heap \<Rightarrow> unit KResult \<times> Heap" where
  "unlink i name h = remove_entry i name h"

definition rmdir :: "nat \<Rightarrow> string \<Rightarrow> Heap \<Rightarrow> unit KResult \<times> Heap" where
  "rmdir i name h = remove_entry i name h"

definition readlink :: "Heap \<Rightarrow> nat \<Rightarrow> string KResult" where
  "readlink h i = as_symlink h i"

definition link :: "nat \<Rightarrow> string \<Rightarrow> nat \<Rightarrow> Heap \<Rightarrow> unit KResult \<times> Heap" where
  "link i name target h =
     (if bad_name name then (Inl Invalid, h)
      else case as_dir h i of
        Inl e \<Rightarrow> (Inl e, h)
      | Inr cs \<Rightarrow> if map_of cs name \<noteq> None then (Inl AlreadyExists, h)
                  else (Inr (), set_node i (TDir (ch_insert name target cs)) h))"

text \<open>The entry is held by the operation between its removal and its insertion, so it does not die.\<close>

definition rename_to :: "nat \<Rightarrow> string \<Rightarrow> nat \<Rightarrow> string \<Rightarrow> Heap \<Rightarrow> unit KResult \<times> Heap" where
  "rename_to i old_name new_parent new_name h =
     (case as_dir h i of
        Inl e \<Rightarrow> (Inl e, h)
      | Inr cs \<Rightarrow> (case map_of cs old_name of
          None \<Rightarrow> (Inl NotFound, h)
        | Some j \<Rightarrow>
            (let h = set_node i (TDir (ch_remove old_name cs)) h in
             case link new_parent new_name j h of
               (Inr _, h) \<Rightarrow> (Inr (), h)
             | (Inl e, h) \<Rightarrow> (Inl e, case as_dir h i of
                 Inr cs \<Rightarrow> set_node i (TDir (ch_insert old_name j cs)) h | Inl _ \<Rightarrow> h))))"

subsection \<open>File contents\<close>

text \<open>\<open>Vec::resize(n, 0)\<close>.\<close>

definition resize :: "nat \<Rightarrow> u8 list \<Rightarrow> u8 list" where
  "resize n d = take n d @ replicate (n - length d) 0"

text \<open>\<open>read_at\<close> returns the number of bytes and the buffer.\<close>

definition read_at :: "nat \<Rightarrow> nat \<Rightarrow> u8 list \<Rightarrow> Heap \<Rightarrow> (nat KResult \<times> u8 list \<times> Heap) option" where
  "read_at i offset out h =
     (case as_fifo h i of
        Inr p \<Rightarrow> Option.bind (pipe_read out p) (\<lambda>(n, out, p). Some (Inr n, out, set_node i (TFifo p) h))
      | Inl _ \<Rightarrow> (case as_file h i of
          Inl e \<Rightarrow> Some (Inl e, out, h)
        | Inr d \<Rightarrow>
            if offset \<ge> length d then Some (Inr 0, out, h)
            else let n = min (length out) (length d - offset)
                 in Some (Inr n, take n (drop offset d) @ drop n out, h)))"

definition write_at :: "nat \<Rightarrow> nat \<Rightarrow> u8 list \<Rightarrow> Heap \<Rightarrow> (nat KResult \<times> Heap) option" where
  "write_at i offset input h =
     (case as_fifo h i of
        Inr p \<Rightarrow> Option.bind (pipe_write input p) (\<lambda>(n, p). Some (Inr n, set_node i (TFifo p) h))
      | Inl _ \<Rightarrow> (case as_file h i of
          Inl e \<Rightarrow> Some (Inl e, h)
        | Inr d \<Rightarrow> (case add64 offset (length input) of
            None \<Rightarrow> Some (Inl Invalid, h)
          | Some e \<Rightarrow>
              let d = (if e > length d then resize e d else d)
              in Some (Inr (length input), set_node i (TFile (take offset d @ input @ drop e d)) h))))"

definition truncate_file :: "nat \<Rightarrow> nat \<Rightarrow> Heap \<Rightarrow> unit KResult \<times> Heap" where
  "truncate_file i n h = (case as_file h i of Inl e \<Rightarrow> (Inl e, h) | Inr d \<Rightarrow> (Inr (), set_node i (TFile (resize n d)) h))"

definition size_of :: "Heap \<Rightarrow> nat \<Rightarrow> nat KResult" where
  "size_of h i = (case as_fifo h i of Inr _ \<Rightarrow> Inr 0 | Inl _ \<Rightarrow> (case as_file h i of Inl e \<Rightarrow> Inl e | Inr d \<Rightarrow> Inr (length d)))"

subsection \<open>Reading the heap back\<close>

lemma node_set_node: "node (set_node i n h) = (node h)(i := (node h i)\<lparr>ti_node := n\<rparr>)"
  by (simp add: set_node_def put_node_def)

lemma set_node_simps [simp]:
  "live (set_node i n h) = live h" "next_ino (set_node i n h) = next_ino h" "pins (set_node i n h) = pins h"
  "metadata (set_node i n h) = metadata h" "kind_of (set_node i n h) = kind_of h"
  "ti_parent (node (set_node i n h) j) = ti_parent (node h j)"
  by (auto simp: set_node_def put_node_def metadata_def kind_of_def fun_eq_iff)

lemma set_metadata_simps [simp]:
  "live (set_metadata i m h) = live h" "next_ino (set_metadata i m h) = next_ino h" "pins (set_metadata i m h) = pins h"
  "ti_node (node (set_metadata i m h) j) = ti_node (node h j)" "ti_parent (node (set_metadata i m h) j) = ti_parent (node h j)"
  "metadata (set_metadata i m h) = (metadata h)(i := m)"
  by (auto simp: set_metadata_def put_node_def metadata_def fun_eq_iff)

lemma parent_cong: "live h' = live h \<Longrightarrow> ti_parent (node h' i) = ti_parent (node h i) \<Longrightarrow> parent h' i = parent h i"
  by (simp add: parent_def cong: option.case_cong)

lemma kill_simps [simp]:
  "node (kill j h) = node h" "next_ino (kill j h) = next_ino h" "pins (kill j h) = pins h"
  "live (kill j h) = (live h)(j := False)" "entries (kill j h) = entries h"
  by (auto simp: kill_def entries_def)

lemma collect_simps [simp]: "node (collect h) = node h" "next_ino (collect h) = next_ino h" "pins (collect h) = pins h"
  by (induction h rule: collect.induct; subst collect.simps; simp split: option.split)+

lemma collect_live: "live (collect h) i \<Longrightarrow> live h i"
proof (induction h rule: collect.induct)
  case (1 h)
  show ?case
  proof (cases "find (\<lambda>j. live h j \<and> \<not> referenced h j) [0..<next_ino h]")
    case None
    then show ?thesis using 1(2) by (subst (asm) collect.simps) simp
  next
    case (Some j)
    then have "live (collect (kill j h)) i" using 1(2) by (subst (asm) collect.simps) simp
    then show ?thesis using 1(1) [OF Some] by (auto split: if_splits)
  qed
qed

lemma node_cong_simps:
  assumes "node h' = node h"
  shows "as_dir h' = as_dir h" "as_file h' = as_file h" "as_symlink h' = as_symlink h" "as_fifo h' = as_fifo h"
    "lookup h' = lookup h" "metadata h' = metadata h" "kind_of h' = kind_of h" "readdir h' = readdir h" "entries h' = entries h"
  unfolding as_dir_def as_file_def as_symlink_def as_fifo_def lookup_def metadata_def kind_of_def readdir_def
    entries_def assms by (rule refl)+

lemmas collect_node_simps [simp] = node_cong_simps [where h' = "collect h" and h = h for h, OF collect_simps(1)]

lemma lookup_entries:
  "lookup h d n = Inr j \<longleftrightarrow> (\<exists>cs. ti_node (node h d) = TDir cs \<and> map_of cs n = Some j)"
  by (auto simp: lookup_def as_dir_def split: TmpfsNode.splits option.splits)

lemma lookup_set_node:
  "lookup (set_node i (TDir cs) h) d n =
     (if d = i then case map_of cs n of None \<Rightarrow> Inl NotFound | Some j \<Rightarrow> Inr j else lookup h d n)"
  by (simp add: lookup_def as_dir_def node_set_node)

lemma as_file_set_node: "as_file (set_node i (TDir cs) h) d = (if d = i then Inl Invalid else as_file h d)"
  by (simp add: as_file_def node_set_node)

lemma lookup_NotFound:
  "lookup h d n = Inl NotFound \<longleftrightarrow> (\<exists>cs. ti_node (node h d) = TDir cs \<and> map_of cs n = None)"
  by (auto simp: lookup_def as_dir_def split: TmpfsNode.splits option.splits)

lemma lookup_Inl: "lookup h d n = Inl e \<Longrightarrow> e = NotFound \<or> e = Invalid"
  by (auto simp: lookup_def as_dir_def split: TmpfsNode.splits option.splits)

subsection \<open>Names\<close>

definition names_ok :: "(string \<times> nat) list \<Rightarrow> bool" where
  "names_ok cs \<longleftrightarrow> sorted_wrt (<) (map fst cs) \<and> (\<forall>n \<in> fst ` set cs. \<not> bad_name n)"

lemma set_ch_insert: "set (ch_insert k j cs) \<subseteq> insert (k, j) (set cs)"
  by (induction k j cs rule: ch_insert.induct) auto

lemma fst_ch_insert: "fst ` set (ch_insert k j cs) = insert k (fst ` set cs)"
  by (induction k j cs rule: ch_insert.induct) auto

lemma map_of_ch_insert:
  "sorted_wrt (<) (map fst cs) \<Longrightarrow> map_of (ch_insert k j cs) = (map_of cs)(k \<mapsto> j)"
  by (induction k j cs rule: ch_insert.induct) (auto simp: fun_eq_iff map_of_eq_None_iff)

lemma sorted_ch_insert: "sorted_wrt (<) (map fst cs) \<Longrightarrow> sorted_wrt (<) (map fst (ch_insert k j cs))"
proof (induction k j cs rule: ch_insert.induct)
  case (2 k v k' v' xs)
  have "k' < n" if "n \<in> fst ` set (ch_insert k v xs)" "\<not> k < k'" "k \<noteq> k'" for n
    using that 2(2) by (auto simp: fst_ch_insert)
  then show ?case using 2 by (auto intro: less_trans)
qed simp

lemma map_of_ch_remove: "map_of (ch_remove k cs) = (map_of cs)(k := None)"
  unfolding ch_remove_def by (induction cs) (auto simp: fun_eq_iff)

lemma set_ch_remove: "set (ch_remove k cs) \<subseteq> set cs"
  by (auto simp: ch_remove_def)

lemma names_ok_insert: "names_ok cs \<Longrightarrow> \<not> bad_name k \<Longrightarrow> names_ok (ch_insert k j cs)"
  by (simp add: names_ok_def sorted_ch_insert fst_ch_insert)

lemma names_ok_remove: "names_ok cs \<Longrightarrow> names_ok (ch_remove k cs)"
  by (auto simp: names_ok_def ch_remove_def sorted_wrt_map intro: sorted_wrt_filter)

lemma names_ok_Nil [simp]: "names_ok []"
  by (simp add: names_ok_def)

lemma ch_remove_fresh: "k \<notin> fst ` set cs \<Longrightarrow> ch_remove k cs = cs"
  by (force simp: ch_remove_def filter_id_conv)

lemma ch_insert_least: "\<forall>n \<in> fst ` set cs. k < n \<Longrightarrow> ch_insert k j cs = (k, j) # cs"
  by (cases cs) auto

lemma ch_insert_remove: "sorted_wrt (<) (map fst cs) \<Longrightarrow> map_of cs k = Some j \<Longrightarrow> ch_insert k j (ch_remove k cs) = cs"
proof (induction cs)
  case (Cons e cs)
  have lt: "\<forall>n \<in> fst ` set cs. fst e < n" using Cons(2) by simp
  show ?case
  proof (cases "fst e = k")
    case True
    then have "ch_remove k (e # cs) = cs" using lt by (auto simp: ch_remove_def filter_id_conv)
    then show ?thesis using Cons(3) True lt by (cases e) (simp add: ch_insert_least)
  next
    case False
    have "map_of cs k = Some j" using Cons(3) False by (cases e) auto
    moreover from this have "fst e < k" using lt by (force dest: map_of_SomeD)
    ultimately show ?thesis using Cons False by (cases e) (auto simp: ch_remove_def)
  qed
qed simp

subsection \<open>Contents of files\<close>

text \<open>What a write leaves in a file: the old bytes, zeros up to the offset, and the new bytes in their place.\<close>

definition overlay :: "nat \<Rightarrow> u8 list \<Rightarrow> u8 list \<Rightarrow> u8 list" where
  "overlay off x d = take off (resize (max (length d) (off + length x)) d) @ x @ drop (off + length x) d"

lemma length_resize [simp]: "length (resize n d) = n"
  by (simp add: resize_def)

lemma nth_resize: "k < n \<Longrightarrow> resize n d ! k = (if k < length d then d ! k else 0)"
  by (simp add: resize_def nth_append)

lemma resize_id [simp]: "resize (length d) d = d"
  by (simp add: resize_def)

lemma length_overlay [simp]: "length (overlay off x d) = max (length d) (off + length x)"
  by (simp add: overlay_def)

lemma nth_overlay:
  assumes "k < length (overlay off x d)"
  shows "overlay off x d ! k = (if off \<le> k \<and> k < off + length x then x ! (k - off) else if k < length d then d ! k else 0)"
  using assms by (auto simp: overlay_def nth_append nth_resize add.commute)

lemma overlay_0_Nil [simp]: "overlay 0 x [] = x"
  by (simp add: overlay_def)

lemma take_drop_overlay: "take (length x) (drop off (overlay off x d)) = x"
  by (simp add: overlay_def)

text \<open>The contract of the file operations of an inode that its clients use.\<close>

locale byte_store =
  fixes content :: "'h \<Rightarrow> nat \<Rightarrow> u8 list option"
    and rd :: "nat \<Rightarrow> nat \<Rightarrow> u8 list \<Rightarrow> 'h \<Rightarrow> (nat KResult \<times> u8 list \<times> 'h) option"
    and wr :: "nat \<Rightarrow> nat \<Rightarrow> u8 list \<Rightarrow> 'h \<Rightarrow> (nat KResult \<times> 'h) option"
    and tr :: "nat \<Rightarrow> nat \<Rightarrow> 'h \<Rightarrow> unit KResult \<times> 'h"
    and sz :: "'h \<Rightarrow> nat \<Rightarrow> nat KResult"
  assumes wr: "content h i = Some d \<Longrightarrow> off + length x \<le> U64_MAX \<Longrightarrow>
      \<exists>h'. wr i off x h = Some (Inr (length x), h') \<and> content h' = (content h)(i \<mapsto> overlay off x d)"
    and rd: "content h i = Some d \<Longrightarrow> rd i off buf h =
      (let n = min (length buf) (length d - off) in Some (Inr n, take n (drop off d) @ drop n buf, h))"
    and tr: "content h i = Some d \<Longrightarrow> \<exists>h'. tr i n h = (Inr (), h') \<and> content h' = (content h)(i \<mapsto> resize n d)"
    and sz: "content h i = Some d \<Longrightarrow> sz h i = Inr (length d)"
begin

lemma read_back:
  assumes "content h i = Some d" and "off + length x \<le> U64_MAX" and "length buf = length x"
  shows "\<exists>h'. wr i off x h = Some (Inr (length x), h') \<and> rd i off buf h' = Some (Inr (length x), x, h')"
proof -
  obtain h' where h': "wr i off x h = Some (Inr (length x), h')" "content h' i = Some (overlay off x d)"
    using wr [OF assms(1,2)] by auto
  then show ?thesis using rd [OF h'(2), of off buf] assms(3) by (simp add: Let_def take_drop_overlay)
qed

lemma read_all: "content h i = Some d \<Longrightarrow> rd i 0 (replicate (length d) 0) h = Some (Inr (length d), d, h)"
  using rd [of h i d 0 "replicate (length d) 0"] by (simp add: Let_def)

lemma replace_all:
  assumes "content h i = Some d" and "length x \<le> U64_MAX"
  shows "\<exists>h1 h2. tr i 0 h = (Inr (), h1) \<and> wr i 0 x h1 = Some (Inr (length x), h2) \<and> content h2 = (content h)(i \<mapsto> x)"
proof -
  obtain h1 where h1: "tr i 0 h = (Inr (), h1)" "content h1 = (content h)(i \<mapsto> [])"
    using tr [OF assms(1), of 0] by (auto simp: resize_def)
  moreover obtain h2 where "wr i 0 x h1 = Some (Inr (length x), h2)" "content h2 = (content h1)(i \<mapsto> x)"
    using wr [of h1 i "[]" 0 x] h1(2) assms(2) by auto
  ultimately show ?thesis by auto
qed

end

definition file_bytes :: "Heap \<Rightarrow> nat \<Rightarrow> u8 list option" where
  "file_bytes h i = (case ti_node (node h i) of TFile d \<Rightarrow> Some d | _ \<Rightarrow> None)"

lemma file_bytes_as_file: "file_bytes h i = Some d \<longleftrightarrow> as_file h i = Inr d"
  by (auto simp: file_bytes_def as_file_def split: TmpfsNode.splits)

lemma file_bytes_Some: "file_bytes h i = Some d \<longleftrightarrow> ti_node (node h i) = TFile d"
  by (auto simp: file_bytes_def split: TmpfsNode.splits)

lemma write_at_file:
  assumes "ti_node (node h i) = TFile d" and "off + length x \<le> U64_MAX"
  shows "write_at i off x h = Some (Inr (length x), set_node i (TFile (overlay off x d)) h)"
proof -
  let ?e = "off + length x"
  have "take off (if ?e > length d then resize ?e d else d) @ x @ drop ?e (if ?e > length d then resize ?e d else d)
     = overlay off x d"
    by (auto simp: overlay_def max_def)
  then show ?thesis using assms by (simp add: write_at_def as_fifo_def as_file_def add64_def Let_def)
qed

lemma file_bytes_set_node [simp]: "file_bytes (set_node i (TFile d) h) = (file_bytes h)(i \<mapsto> d)"
  by (simp add: file_bytes_def node_set_node fun_eq_iff)

interpretation tmpfs: byte_store file_bytes read_at write_at truncate_file size_of
proof unfold_locales
  fix h i d off and x :: "u8 list" assume "file_bytes h i = Some d" "off + length x \<le> U64_MAX"
  then show "\<exists>h'. write_at i off x h = Some (Inr (length x), h') \<and> file_bytes h' = (file_bytes h)(i \<mapsto> overlay off x d)"
    by (simp add: file_bytes_Some write_at_file)
qed (auto simp: file_bytes_Some read_at_def truncate_file_def size_of_def as_fifo_def as_file_def Let_def)

subsection \<open>Well-formed heaps\<close>

text \<open>Living inodes are allocated and a living directory keeps its entries alive; the names of a directory are
  distinct, ordered and proper; the kind in the metadata is the kind of the node.\<close>

fun node_kind :: "TmpfsNode \<Rightarrow> InodeKind" where
  "node_kind (TFile _) = KFile" | "node_kind (TDir _) = KDir" | "node_kind (TSymlink _) = KSymlink" | "node_kind (TFifo _) = KFifo"

definition inode_ok :: "nat \<Rightarrow> TmpfsInode \<Rightarrow> bool" where
  "inode_ok n t \<longleftrightarrow> m_kind (ti_meta t) = node_kind (ti_node t) \<and> (\<forall>cs. ti_node t = TDir cs \<longrightarrow> names_ok cs)
     \<and> (\<forall>p. ti_parent t = Some p \<longrightarrow> p < n)"

definition heap_ok :: "Heap \<Rightarrow> bool" where
  "heap_ok h \<longleftrightarrow> (\<forall>i. live h i \<longrightarrow> i < next_ino h) \<and> (\<forall>j \<in> set (pins h). live h j)
     \<and> (\<forall>i j. live h i \<longrightarrow> j \<in> snd ` set (entries h i) \<longrightarrow> live h j)
     \<and> (\<forall>i < next_ino h. inode_ok (next_ino h) (node h i))"

lemma heap_okI:
  assumes "\<And>i. live h i \<Longrightarrow> i < next_ino h" and "\<And>j. j \<in> set (pins h) \<Longrightarrow> live h j"
    and "\<And>i j. live h i \<Longrightarrow> j \<in> snd ` set (entries h i) \<Longrightarrow> live h j"
    and "\<And>i. i < next_ino h \<Longrightarrow> inode_ok (next_ino h) (node h i)"
  shows "heap_ok h"
  using assms unfolding heap_ok_def by blast

lemma heap_okD:
  assumes "heap_ok h"
  shows "live h i \<Longrightarrow> i < next_ino h" "j \<in> set (pins h) \<Longrightarrow> live h j"
    "live h i \<Longrightarrow> j \<in> snd ` set (entries h i) \<Longrightarrow> live h j" "i < next_ino h \<Longrightarrow> inode_ok (next_ino h) (node h i)"
  using assms unfolding heap_ok_def by blast+

lemma heap_ok_names: "heap_ok h \<Longrightarrow> i < next_ino h \<Longrightarrow> ti_node (node h i) = TDir cs \<Longrightarrow> names_ok cs"
  using heap_okD(4) by (auto simp: inode_ok_def)

lemma heap_ok_kind: "heap_ok h \<Longrightarrow> i < next_ino h \<Longrightarrow> kind_of h i = node_kind (ti_node (node h i))"
  using heap_okD(4) by (auto simp: inode_ok_def kind_of_def metadata_def)

lemma heap_ok_dir: "heap_ok h \<Longrightarrow> i < next_ino h \<Longrightarrow> kind_of h i = KDir \<longleftrightarrow> (\<exists>cs. ti_node (node h i) = TDir cs)"
  by (cases "ti_node (node h i)") (auto simp: heap_ok_kind)

lemma heap_ok_lookup: "heap_ok h \<Longrightarrow> live h d \<Longrightarrow> lookup h d n = Inr j \<Longrightarrow> live h j"
  using heap_okD(3) [of h d j] by (force simp: lookup_entries entries_def dest: map_of_SomeD)

lemma heap_ok_set_node:
  assumes h: "heap_ok h" and k: "node_kind n = node_kind (ti_node (node h i))"
    and cs: "\<And>cs. n = TDir cs \<Longrightarrow> names_ok cs \<and> (live h i \<longrightarrow> (\<forall>j \<in> snd ` set cs. live h j))"
  shows "heap_ok (set_node i n h)"
proof (rule heap_okI)
  fix j l assume "live (set_node i n h) j" "l \<in> snd ` set (entries (set_node i n h) j)"
  then show "live (set_node i n h) l"
    using heap_okD(3) [OF h, of j l] cs by (auto simp: entries_def node_set_node split: TmpfsNode.splits if_splits)
next
  fix j assume "j < next_ino (set_node i n h)"
  then show "inode_ok (next_ino (set_node i n h)) (node (set_node i n h) j)"
    using heap_okD(4) [OF h, of j] k cs by (auto simp: inode_ok_def node_set_node)
qed (use heap_okD [OF h] in auto)

lemma heap_ok_set_metadata:
  assumes h: "heap_ok h" and "m_kind m = kind_of h i"
  shows "heap_ok (set_metadata i m h)"
proof (rule heap_okI)
  fix j l assume "live (set_metadata i m h) j" "l \<in> snd ` set (entries (set_metadata i m h) j)"
  then show "live (set_metadata i m h) l" using heap_okD(3) [OF h, of j l] by (simp add: entries_def)
next
  fix j assume "j < next_ino (set_metadata i m h)"
  then show "inode_ok (next_ino (set_metadata i m h)) (node (set_metadata i m h) j)"
    using heap_okD(4) [OF h, of j] assms(2)
    by (auto simp: inode_ok_def set_metadata_def put_node_def kind_of_def metadata_def)
qed (use heap_okD [OF h] in auto)

lemma heap_ok_kill:
  assumes h: "heap_ok h" and "\<not> referenced h j"
  shows "heap_ok (kill j h)"
proof (rule heap_okI)
  have no: "j \<notin> snd ` set (entries h i)" if "live h i" for i
    using assms(2) that heap_okD(1) [OF h that] by (auto simp: referenced_def list_ex_iff)
  fix i l assume "live (kill j h) i" "l \<in> snd ` set (entries (kill j h) i)"
  then show "live (kill j h) l" using heap_okD(3) [OF h, of i l] no by (auto split: if_splits)
qed (use heap_okD [OF h] assms(2) in \<open>auto simp: referenced_def split: if_splits\<close>)

lemma heap_ok_collect: "heap_ok h \<Longrightarrow> heap_ok (collect h)"
proof (induction h rule: collect.induct)
  case (1 h)
  show ?case
  proof (cases "find (\<lambda>j. live h j \<and> \<not> referenced h j) [0..<next_ino h]")
    case None
    then show ?thesis using 1(2) by (subst collect.simps) simp
  next
    case (Some j)
    then have "\<not> referenced h j" by (auto simp: find_Some_iff)
    then have "heap_ok (collect (kill j h))" using 1(1) [OF Some] heap_ok_kill [OF 1(2)] by blast
    then show ?thesis using Some by (subst collect.simps) simp
  qed
qed

lemma heap_ok_pins: "heap_ok h \<Longrightarrow> set ps \<subseteq> Collect (live h) \<Longrightarrow> heap_ok (h\<lparr>pins := ps\<rparr>)"
  unfolding heap_ok_def by (auto simp: entries_def)

text \<open>A new inode, and one entered in a directory.\<close>

lemma alloc_inode_simps:
  assumes "alloc_inode p m n h = (j, h')"
  shows "j = next_ino h" "next_ino h' = Suc (next_ino h)" "live h' = (live h)(next_ino h := True)" "pins h' = pins h"
    "node h' = (node h)(next_ino h := \<lparr>ti_parent = p, ti_meta = m, ti_node = n\<rparr>)"
  using assms by (auto simp: alloc_inode_def)

lemma heap_ok_alloc:
  assumes h: "heap_ok h" and "alloc_inode p m n h = (j, h')" and n: "m_kind m = node_kind n" "\<And>cs. n = TDir cs \<Longrightarrow> cs = []"
    and p: "\<And>q. p = Some q \<Longrightarrow> q < next_ino h"
  shows "heap_ok h'"
proof (rule heap_okI)
  note s = alloc_inode_simps [OF assms(2)]
  have new: "entries h' (next_ino h) = []" using n(2) by (cases n) (simp_all add: entries_def s(5))
  fix i
  show "i < next_ino h'" if "live h' i"
    using that heap_okD(1) [OF h, of i] by (simp add: s(2,3) split: if_splits)
  show "live h' i" if "i \<in> set (pins h')"
    using that heap_okD(2) [OF h, of i] by (simp add: s(3,4))
  show "live h' l" if "live h' i" "l \<in> snd ` set (entries h' i)" for l
  proof (cases "i = next_ino h")
    case False
    then have "live h i" "l \<in> snd ` set (entries h i)" using that by (simp_all add: s(3,5) entries_def)
    then show ?thesis using heap_okD(3) [OF h, of i l] by (simp add: s(3))
  qed (use that new in simp)
  show "inode_ok (next_ino h') (node h' i)" if "i < next_ino h'"
  proof (cases "i = next_ino h")
    case True
    then show ?thesis using n p less_SucI [of _ "next_ino h"] names_ok_Nil unfolding s(2,5) inode_ok_def by fastforce
  next
    case False
    then have "inode_ok (next_ino h) (node h i)" using that heap_okD(4) [OF h, of i] by (simp add: s(2))
    then show ?thesis using False unfolding s(2,5) inode_ok_def by (simp add: less_SucI)
  qed
qed

lemma m_kind_simple [simp]: "m_kind (simple u g md k) = k"
  by (simp add: simple_def with_ino_def)

lemma heap_ok_new_root:
  assumes "heap_ok h" and "new_root h = (i, h')"
  shows "heap_ok h' \<and> i = next_ino h \<and> i \<in> set (pins h') \<and> (\<forall>j. live h j \<longrightarrow> live h' j) \<and> set (pins h) \<subseteq> set (pins h')"
proof -
  obtain g where g: "alloc_inode None (simple 0 0 (from_octal 0x1ED) KDir) (TDir []) h = (i, g)" "h' = g\<lparr>pins := i # pins g\<rparr>"
    using assms(2) by (auto simp: new_root_def split: prod.splits)
  have "heap_ok g" using heap_ok_alloc [OF assms(1) g(1)] by simp
  moreover have "live g i" using alloc_inode_simps [OF g(1)] by simp
  ultimately have "heap_ok h'" using heap_ok_pins [of g "i # pins g"] heap_okD(2) [of g] g(2) by auto
  then show ?thesis using alloc_inode_simps [OF g(1)] g(2) by auto
qed

text \<open>Growth: what was there stays, with its metadata and its entries.\<close>

definition grown :: "Heap \<Rightarrow> Heap \<Rightarrow> bool" where
  "grown h h' \<longleftrightarrow> next_ino h \<le> next_ino h' \<and> (\<forall>i < next_ino h. live h' i = live h i \<and> metadata h' i = metadata h i
     \<and> ti_parent (node h' i) = ti_parent (node h i) \<and> (\<forall>n j. lookup h i n = Inr j \<longrightarrow> lookup h' i n = Inr j))"

lemma grown_refl [simp]: "grown h h"
  by (simp add: grown_def)

lemma grown_trans [trans]: "grown h h' \<Longrightarrow> grown h' h'' \<Longrightarrow> grown h h''"
  by (simp add: grown_def)

lemma add_inode_cases:
  assumes h: "heap_ok h" "i < next_ino h" and r: "add_inode i name m n h = (r, h')"
    and n: "m_kind m = node_kind n" "\<And>cs. n = TDir cs \<Longrightarrow> cs = []"
  obtains (err) e where "r = Inl e" "h' = h"
  | (new) "r = Inr (next_ino h)" "heap_ok h'" "grown h h'" "next_ino h' = Suc (next_ino h)" "\<not> bad_name name"
      "node h' (next_ino h) = \<lparr>ti_parent = Some i, ti_meta = m, ti_node = n\<rparr>" "pins h' = pins h" "live h' (next_ino h)"
      "lookup h i name = Inl NotFound"
      "\<And>d x. lookup h' d x = (if d = next_ino h then (if node_kind n = KDir then Inl NotFound else Inl Invalid)
          else if (d, x) = (i, name) then Inr (next_ino h) else lookup h d x)"
      "\<And>d. d \<noteq> next_ino h \<Longrightarrow> file_bytes h' d = file_bytes h d"
proof (cases "\<exists>cs. ti_node (node h i) = TDir cs \<and> \<not> bad_name name \<and> map_of cs name = None")
  case False
  then have "\<exists>e. add_inode i name m n h = (Inl e, h)"
    by (cases "ti_node (node h i)") (auto simp: add_inode_def as_dir_def)
  then show thesis using r err by force
next
  case True
  then obtain cs where cs: "ti_node (node h i) = TDir cs" "\<not> bad_name name" "map_of cs name = None" by blast
  obtain g where g: "alloc_inode (Some i) m n h = (next_ino h, g)" by (simp add: alloc_inode_def)
  note s = alloc_inode_simps [OF g]
  have r': "r = Inr (next_ino h)" "h' = set_node i (TDir (ch_insert name (next_ino h) cs)) g"
    using r cs g by (auto simp: add_inode_def as_dir_def)
  have ni: "i \<noteq> next_ino h" using h(2) by simp
  have names: "names_ok cs" by (rule heap_ok_names [OF h cs(1)])
  have g_ok: "heap_ok g" using heap_ok_alloc [OF h(1) g n] h(2) by simp
  have "live g j" if "live g i" "j \<in> snd ` set (ch_insert name (next_ino h) cs)" for j
  proof -
    have "j = next_ino h \<or> j \<in> snd ` set cs" using that(2) set_ch_insert [of name "next_ino h" cs] by force
    moreover have "live h i" using that(1) ni s(3) by simp
    ultimately show ?thesis using heap_okD(3) [OF h(1), of i j] cs(1) by (auto simp: entries_def s(3))
  qed
  moreover have "node_kind (TDir (ch_insert name (next_ino h) cs)) = node_kind (ti_node (node g i))"
    using cs(1) ni by (simp add: s(5))
  ultimately have ok: "heap_ok h'"
    unfolding r'(2) using names_ok_insert [OF names cs(2)] by (intro heap_ok_set_node [OF g_ok]) blast+
  have nd: "n = TDir [] \<or> node_kind n \<noteq> KDir"
  proof (cases n)
    case (TDir cs')
    then show ?thesis using n(2) [OF TDir] by simp
  qed simp_all
  have look_g: "lookup g d x = (if d = next_ino h then (if node_kind n = KDir then Inl NotFound else Inl Invalid) else lookup h d x)" for d x
    using nd by (cases n) (simp_all add: s(5) lookup_def as_dir_def)
  have look: "lookup h' d x = (if d = next_ino h then (if node_kind n = KDir then Inl NotFound else Inl Invalid)
        else if (d, x) = (i, name) then Inr (next_ino h) else lookup h d x)" for d x
  proof (cases "d = i")
    case True
    then show ?thesis using names cs ni unfolding r'(2) lookup_set_node
      by (simp add: map_of_ch_insert names_ok_def lookup_def as_dir_def)
  next
    case False
    then show ?thesis unfolding r'(2) lookup_set_node by (simp add: look_g)
  qed
  have nf: "lookup h i name = Inl NotFound" using cs by (auto simp: lookup_NotFound)
  have "lookup h' d x = Inr j" if "d < next_ino h" "lookup h d x = Inr j" for d x j
    using that nf by (cases "d = i"; cases "x = name") (simp_all add: look)
  moreover have "next_ino h' = Suc (next_ino h)" "live h' = (live h)(next_ino h := True)"
    by (simp_all add: r'(2) s(2,3))
  moreover have "metadata h' d = metadata h d" "ti_parent (node h' d) = ti_parent (node h d)" if "d < next_ino h" for d
    using that by (simp_all add: r'(2) s(5) metadata_def node_set_node)
  ultimately have grown: "grown h h'"
    unfolding grown_def by simp
  show thesis
  proof (rule new [OF r'(1) ok grown _ cs(2) _ _ _ nf look])
    fix d assume "d \<noteq> next_ino h"
    then show "file_bytes h' d = file_bytes h d" using ni cs(1) by (simp add: r'(2) s(5) node_set_node file_bytes_def)
  qed (use ni in \<open>simp_all add: r'(2) s(2-5) node_set_node\<close>)
qed

text \<open>Operations on entries leave the inodes themselves alone.\<close>

definition relinked :: "Heap \<Rightarrow> Heap \<Rightarrow> bool" where
  "relinked h h' \<longleftrightarrow> next_ino h' = next_ino h \<and> pins h' = pins h \<and> metadata h' = metadata h \<and> file_bytes h' = file_bytes h
     \<and> (\<forall>i. ti_parent (node h' i) = ti_parent (node h i)) \<and> (\<forall>i. live h' i \<longrightarrow> live h i)"

lemma relinked_refl [simp]: "relinked h h"
  by (simp add: relinked_def)

lemma relinked_trans [trans]: "relinked h h' \<Longrightarrow> relinked h' h'' \<Longrightarrow> relinked h h''"
  by (simp add: relinked_def)

lemma relinked_kind: "relinked h h' \<Longrightarrow> kind_of h' = kind_of h"
  by (simp add: relinked_def kind_of_def fun_eq_iff)

lemma relinked_collect: "relinked h (collect h)"
  by (simp add: relinked_def collect_live file_bytes_def fun_eq_iff)

lemma relinked_set_dir: "ti_node (node h i) = TDir cs \<Longrightarrow> relinked h (set_node i (TDir cs') h)"
  by (simp add: relinked_def file_bytes_def node_set_node fun_eq_iff)

lemma entries_live: "heap_ok h \<Longrightarrow> live h i \<Longrightarrow> ti_node (node h i) = TDir cs \<Longrightarrow> (n, j) \<in> set cs \<Longrightarrow> live h j"
  using heap_okD(3) [of h i j] by (force simp: entries_def)

lemma heap_ok_remove_name:
  assumes "heap_ok h" "i < next_ino h" "ti_node (node h i) = TDir cs"
  shows "heap_ok (set_node i (TDir (ch_remove name cs)) h)"
proof (rule heap_ok_set_node [OF assms(1)])
  fix cs' assume c: "TDir (ch_remove name cs) = TDir cs'"
  have "live h j" if "live h i" "(n, j) \<in> set cs'" for n j
    using entries_live [OF assms(1) that(1) assms(3)] that(2) c set_ch_remove [of name cs] by blast
  moreover have "names_ok cs'" using names_ok_remove [OF heap_ok_names [OF assms], of name] c by simp
  ultimately show "names_ok cs' \<and> (live h i \<longrightarrow> (\<forall>j \<in> snd ` set cs'. live h j))" by auto
qed (simp add: assms(3))

lemma remove_entry_cases:
  assumes h: "heap_ok h" "i < next_ino h" and r: "remove_entry i name h = (r, h')"
  obtains (err) e where "r = Inl e" "h' = h" "lookup h i name = Inl e"
  | (ok) j where "r = Inr ()" "heap_ok h'" "relinked h h'" "lookup h i name = Inr j"
      "\<And>d x. lookup h' d x = (if d = i \<and> x = name then Inl NotFound else lookup h d x)"
proof (cases "lookup h i name")
  case (Inl e)
  then show thesis using r err by (auto simp: remove_entry_def lookup_def split: sum.splits option.splits)
next
  case (Inr j)
  then obtain cs where cs: "ti_node (node h i) = TDir cs" "map_of cs name = Some j" by (auto simp: lookup_entries)
  let ?g = "set_node i (TDir (ch_remove name cs)) h"
  have r': "r = Inr ()" "h' = collect ?g" using r cs by (simp_all add: remove_entry_def as_dir_def)
  have "heap_ok h'" unfolding r'(2) by (rule heap_ok_collect, rule heap_ok_remove_name [OF h cs(1)])
  moreover have "relinked h h'" unfolding r'(2) by (rule relinked_trans [OF relinked_set_dir [OF cs(1)] relinked_collect])
  moreover have "lookup h' d x = (if d = i \<and> x = name then Inl NotFound else lookup h d x)" for d x
    using cs(1) by (simp add: r'(2) lookup_def as_dir_def node_set_node map_of_ch_remove)
  ultimately show thesis using ok r'(1) Inr by blast
qed

lemma link_cases:
  assumes h: "heap_ok h" "i < next_ino h" "live h j" and r: "link i name j h = (r, h')"
  obtains (err) e where "r = Inl e" "h' = h" "lookup h i name \<noteq> Inl NotFound \<or> bad_name name"
  | (ok) "r = Inr ()" "heap_ok h'" "relinked h h'" "live h' = live h" "lookup h i name = Inl NotFound" "\<not> bad_name name"
      "\<And>d x. lookup h' d x = (if d = i \<and> x = name then Inr j else lookup h d x)"
proof (cases "lookup h i name = Inl NotFound \<and> \<not> bad_name name")
  case False
  then have "\<exists>e. link i name j h = (Inl e, h)"
    by (cases "ti_node (node h i)") (auto simp: link_def as_dir_def lookup_NotFound)
  then show thesis using r err False by force
next
  case True
  then obtain cs where cs: "ti_node (node h i) = TDir cs" "map_of cs name = None" by (auto simp: lookup_NotFound)
  let ?cs = "ch_insert name j cs"
  have r': "r = Inr ()" "h' = set_node i (TDir ?cs) h" using r cs True by (simp_all add: link_def as_dir_def)
  note names = heap_ok_names [OF h(1,2) cs(1)]
  have "heap_ok h'" unfolding r'(2)
  proof (rule heap_ok_set_node [OF h(1)])
    fix cs' assume c: "TDir ?cs = TDir cs'"
    have "live h l" if "live h i" "(n, l) \<in> set cs'" for n l
      using entries_live [OF h(1) that(1) cs(1)] that(2) c set_ch_insert [of name j cs] h(3) by blast
    moreover have "names_ok cs'" using names_ok_insert [OF names, of name j] True c by simp
    ultimately show "names_ok cs' \<and> (live h i \<longrightarrow> (\<forall>j \<in> snd ` set cs'. live h j))" by auto
  qed (simp add: cs(1))
  moreover have "relinked h h'" unfolding r'(2) by (rule relinked_set_dir [OF cs(1)])
  moreover have "lookup h' d x = (if d = i \<and> x = name then Inr j else lookup h d x)" for d x
    using cs(1) names by (simp add: r'(2) lookup_def as_dir_def node_set_node map_of_ch_insert names_ok_def)
  moreover have "live h' = live h" by (simp add: r'(2))
  ultimately show thesis using ok r'(1) True by blast
qed

lemma set_node_restore: "ti_node (node h i) = n \<Longrightarrow> set_node i n (set_node i n' h) = h"
  by (auto simp: set_node_def put_node_def)

text \<open>Moving an entry: on failure everything is as before.\<close>

lemma rename_to_cases:
  assumes h: "heap_ok h" "live h i" "np < next_ino h" and r: "rename_to i old np new h = (r, h')"
  obtains (err) e where "r = Inl e" "h' = h" "lookup h i old = Inl e \<or> lookup h np new \<noteq> Inl NotFound \<or> bad_name new"
  | (ok) j where "r = Inr ()" "heap_ok h'" "relinked h h'" "live h' = live h" "lookup h i old = Inr j"
      "lookup h np new = Inl NotFound \<or> np = i \<and> new = old"
      "\<And>d x. lookup h' d x = (if d = np \<and> x = new then Inr j else if d = i \<and> x = old then Inl NotFound else lookup h d x)"
proof (cases "lookup h i old")
  case (Inl e)
  then show thesis using r err by (auto simp: rename_to_def lookup_def split: sum.splits option.splits)
next
  case (Inr j)
  then obtain cs where cs: "ti_node (node h i) = TDir cs" "map_of cs old = Some j" by (auto simp: lookup_entries)
  have i: "i < next_ino h" by (rule heap_okD(1) [OF h(1,2)])
  have j: "live h j" by (rule heap_ok_lookup [OF h(1,2) Inr])
  let ?g = "set_node i (TDir (ch_remove old cs)) h"
  have g: "heap_ok ?g" by (rule heap_ok_remove_name [OF h(1) i cs(1)])
  have look: "lookup ?g d x = (if d = i \<and> x = old then Inl NotFound else lookup h d x)" for d x
    using cs(1) by (simp add: lookup_def as_dir_def node_set_node map_of_ch_remove)
  obtain r1 h1 where l: "link np new j ?g = (r1, h1)" by fastforce
  have sorted: "sorted_wrt (<) (map fst cs)" using heap_ok_names [OF h(1) i cs(1)] by (simp add: names_ok_def)
  show thesis
  proof (rule link_cases [OF g _ _ l])
    show "np < next_ino ?g" "live ?g j" using h(3) j by simp_all
  next
    fix e assume e: "r1 = Inl e" "h1 = ?g" "lookup ?g np new \<noteq> Inl NotFound \<or> bad_name new"
    then have "r = Inl e" "h' = set_node i (TDir cs) ?g"
      using r cs l by (auto simp: rename_to_def as_dir_def node_set_node ch_insert_remove [OF sorted cs(2)])
    then show thesis using err set_node_restore [of h i "TDir cs"] cs(1) e(3) look by (auto split: if_splits)
  next
    assume o: "r1 = Inr ()" "heap_ok h1" "relinked ?g h1" "live h1 = live ?g" "lookup ?g np new = Inl NotFound"
      "\<And>d x. lookup h1 d x = (if d = np \<and> x = new then Inr j else lookup ?g d x)"
    have "r = Inr ()" "h' = h1" using r cs l o(1) by (auto simp: rename_to_def as_dir_def)
    moreover have "lookup h np new = Inl NotFound \<or> np = i \<and> new = old" using o(5) by (auto simp: look split: if_splits)
    ultimately show thesis using ok [of j] o Inr relinked_trans [OF relinked_set_dir [OF cs(1)] o(3)] look by simp
  qed
qed

text \<open>No living inode is without a reference.\<close>

definition no_garbage :: "Heap \<Rightarrow> bool" where
  "no_garbage h \<longleftrightarrow> (\<forall>i. live h i \<longrightarrow> i \<in> set (pins h) \<or> (\<exists>d n. live h d \<and> lookup h d n = Inr i))"

lemma referenced_lookup:
  assumes "heap_ok h"
  shows "referenced h j \<longleftrightarrow> j \<in> set (pins h) \<or> (\<exists>d n. live h d \<and> lookup h d n = Inr j)"
proof -
  have "j \<in> snd ` set (entries h d) \<longleftrightarrow> (\<exists>n. lookup h d n = Inr j)" if "live h d" for d
  proof (cases "ti_node (node h d)")
    case (TDir cs)
    have "sorted_wrt (<) (map fst cs)"
      using heap_ok_names [OF assms heap_okD(1) [OF assms that] TDir] by (simp add: names_ok_def)
    then have "distinct (map fst cs)" using strict_sorted_iff by blast
    then have "(n, j) \<in> set cs \<longleftrightarrow> map_of cs n = Some j" for n by simp
    then show ?thesis using TDir by (force simp: entries_def lookup_entries)
  qed (simp_all add: entries_def lookup_entries)
  then show ?thesis using heap_okD(1) [OF assms] by (auto simp: referenced_def list_ex_iff)
qed

lemma collect_no_garbage: "heap_ok h \<Longrightarrow> no_garbage (collect h)"
proof (induction h rule: collect.induct)
  case (1 h)
  show ?case
  proof (cases "find (\<lambda>j. live h j \<and> \<not> referenced h j) [0..<next_ino h]")
    case None
    then have "referenced h j" if "live h j" for j using that heap_okD(1) [OF 1(2) that] by (auto simp: find_None_iff)
    then show ?thesis using None 1(2) by (subst collect.simps) (simp add: no_garbage_def referenced_lookup)
  next
    case (Some j)
    then have "heap_ok (kill j h)" using heap_ok_kill [OF 1(2), of j] by (auto simp: find_Some_iff)
    then show ?thesis using 1(1) [OF Some] Some by (subst collect.simps) simp
  qed
qed

text \<open>When the only inode without a reference has no entries, it is the only one that dies.\<close>

lemma collect_leaf:
  assumes "heap_ok h" and "\<And>x. live h x \<Longrightarrow> x \<noteq> j \<Longrightarrow> x \<in> set (pins h) \<or> (\<exists>d n. d \<noteq> j \<and> live h d \<and> lookup h d n = Inr x)"
  shows "live h x \<Longrightarrow> x \<noteq> j \<Longrightarrow> live (collect h) x"
  using assms
proof (induction h rule: collect.induct)
  case (1 h)
  show ?case
  proof (cases "find (\<lambda>j. live h j \<and> \<not> referenced h j) [0..<next_ino h]")
    case None
    then show ?thesis using 1(2) by (subst collect.simps) simp
  next
    case (Some y)
    then have y: "live h y" "\<not> referenced h y" by (auto simp: find_Some_iff)
    then have "y = j" using 1(5) [of y] referenced_lookup [OF 1(4), of y] by blast
    note k = node_cong_simps(5) [of "kill j h" h, simplified]
    have "live (collect (kill j h)) x"
    proof (rule 1(1) [OF Some, unfolded \<open>y = j\<close>])
      show "heap_ok (kill j h)" using heap_ok_kill [OF 1(4)] y(2) \<open>y = j\<close> by blast
      show "z \<in> set (pins (kill j h)) \<or> (\<exists>d n. d \<noteq> j \<and> live (kill j h) d \<and> lookup (kill j h) d n = Inr z)"
        if "live (kill j h) z" "z \<noteq> j" for z
        using 1(5) [of z] that by (simp add: k) metis
    qed (use 1(2,3) in simp_all)
    then show ?thesis using Some \<open>y = j\<close> by (subst collect.simps) simp
  qed
qed

lemma remove_entry_live:
  assumes h: "heap_ok h" "no_garbage h" "i < next_ino h" and l: "lookup h i name = Inr j" "\<And>n l. lookup h j n \<noteq> Inr l"
    and r: "remove_entry i name h = (r, h')"
  shows "no_garbage h'" "x \<noteq> j \<Longrightarrow> live h' x = live h x"
proof -
  obtain cs where cs: "ti_node (node h i) = TDir cs" "map_of cs name = Some j" using l(1) by (auto simp: lookup_entries)
  let ?g = "set_node i (TDir (ch_remove name cs)) h"
  have h': "h' = collect ?g" using r cs by (simp add: remove_entry_def as_dir_def)
  have g: "heap_ok ?g" by (rule heap_ok_remove_name [OF h(1,3) cs(1)])
  then show "no_garbage h'" unfolding h' by (rule collect_no_garbage)
  have look: "lookup ?g d x = (if d = i \<and> x = name then Inl NotFound else lookup h d x)" for d x
    using cs(1) by (simp add: lookup_def as_dir_def node_set_node map_of_ch_remove)
  have refs: "y \<in> set (pins ?g) \<or> (\<exists>d n. d \<noteq> j \<and> live ?g d \<and> lookup ?g d n = Inr y)" if y: "live ?g y" "y \<noteq> j" for y
  proof -
    have "y \<in> set (pins h) \<or> (\<exists>d n. live h d \<and> lookup h d n = Inr y)" using y(1) h(2) by (simp add: no_garbage_def)
    then show ?thesis
    proof
      assume "\<exists>d n. live h d \<and> lookup h d n = Inr y"
      then obtain d n where d: "live h d" "lookup h d n = Inr y" by blast
      then have "d \<noteq> j" "\<not> (d = i \<and> n = name)" using l y(2) by auto
      then show ?thesis using d look by (intro disjI2 exI [of _ d] exI [of _ n]) simp
    qed simp
  qed
  show "live h' x = live h x" if "x \<noteq> j"
    using collect_leaf [OF g refs, of x] collect_live [of ?g x] that unfolding h' by auto
qed

lemma lookup_empty: "readdir h j = Inr [] \<Longrightarrow> lookup h j n \<noteq> Inr l"
  by (auto simp: readdir_def lookup_def split: sum.splits)

lemma lookup_nondir: "heap_ok h \<Longrightarrow> j < next_ino h \<Longrightarrow> kind_of h j \<noteq> KDir \<Longrightarrow> lookup h j n \<noteq> Inr l"
  by (auto simp: lookup_entries heap_ok_kind)

text \<open>A write to a file puts its bytes at the offset, keeps every other byte of the file, fills the gap behind the
  old end with zeros, leaves all other files alone, and what it wrote is read back at the same offset.\<close>

theorem write_at_bytes:
  assumes "as_file h i = Inr d" and "off + length x \<le> U64_MAX" and "length buf = length x"
  shows "\<exists>h' d'. write_at i off x h = Some (Inr (length x), h') \<and> as_file h' i = Inr d'
     \<and> length d' = max (length d) (off + length x)
     \<and> (\<forall>k < length d'. d' ! k = (if off \<le> k \<and> k < off + length x then x ! (k - off) else if k < length d then d ! k else 0))
     \<and> (\<forall>j. j \<noteq> i \<longrightarrow> as_file h' j = as_file h j)
     \<and> read_at i off buf h' = Some (Inr (length x), x, h')"
proof -
  have d: "file_bytes h i = Some d" using assms(1) by (simp add: file_bytes_as_file)
  obtain h' where "write_at i off x h = Some (Inr (length x), h')" "read_at i off buf h' = Some (Inr (length x), x, h')"
    using tmpfs.read_back [OF d assms(2,3)] by blast
  moreover from this(1) have "h' = set_node i (TFile (overlay off x d)) h"
    using write_at_file [OF d [unfolded file_bytes_Some] assms(2)] by simp
  then have "as_file h' i = Inr (overlay off x d)" "\<forall>j. j \<noteq> i \<longrightarrow> as_file h' j = as_file h j"
    by (simp_all add: as_file_def node_set_node)
  ultimately show ?thesis using nth_overlay [of _ off x d] by (metis length_overlay)
qed

definition demo_file :: Heap where
  "demo_file = \<lparr>node = (\<lambda>_. \<lparr>ti_parent = None, ti_meta = simple 0 0 (from_octal 0x1A4) KFile, ti_node = TFile [1, 2]\<rparr>),
     live = (\<lambda>i. i = 0), next_ino = 1, pins = [0]\<rparr>"

theorem write_at_bytes_witness:
  "as_file demo_file 0 = Inr [1, 2] \<and> (\<exists>h' d'. write_at 0 4 [7, 8] demo_file = Some (Inr 2, h') \<and> as_file h' 0 = Inr d'
     \<and> length d' = 6 \<and> d' ! 0 = 1 \<and> d' ! 3 = 0 \<and> d' ! 5 = 8 \<and> read_at 0 4 [0, 0] h' = Some (Inr 2, [7, 8], h'))"
proof -
  have f: "as_file demo_file 0 = Inr [1, 2]" by (simp add: as_file_def demo_file_def)
  have "(4 :: nat) + length [7, 8 :: u8] \<le> U64_MAX" "length [0, 0 :: u8] = length [7, 8 :: u8]" by (simp_all add: U64_MAX_def)
  from write_at_bytes [OF f this]
  obtain h' d' where w: "write_at 0 4 [7, 8] demo_file = Some (Inr 2, h')" "as_file h' 0 = Inr d'" "length d' = 6"
      "read_at 0 4 [0, 0] h' = Some (Inr 2, [7, 8], h')"
    and nth: "\<forall>k < length d'. d' ! k = (if 4 \<le> k \<and> k < 6 then [7, 8] ! (k - 4) else if k < 2 then [1, 2] ! k else 0)"
    by auto
  show ?thesis using f w nth [rule_format, of 0] nth [rule_format, of 3] nth [rule_format, of 5] by auto
qed

end
