(* ===== verification/Vfs.thy ===== *)
theory Vfs
  imports Tmpfs "HOL-Library.Monad_Syntax" "HOL-Library.Multiset"
begin

text \<open>
  The virtual file system, \<^verbatim>\<open>kernel/src/fs/vfs.rs\<close>: the root and the mount points, the walk along a path with its
  permission checks, and the operations on paths.  The inodes are those of the memory file system (\<open>Tmpfs\<close>), the only
  file system of the model; a path is a list of bytes.

  The operations return \<open>None\<close> when a permission check panics, which it does only on malformed credentials, and otherwise
  a result and the heap of inodes.
\<close>

subsection \<open>Paths\<close>

fun split_slash :: "string \<Rightarrow> string list" where
  "split_slash [] = [[]]"
| "split_slash (c # cs) = (if c = CHR ''/'' then [] # split_slash cs
     else case split_slash cs of [] \<Rightarrow> [[c]] | x # xs \<Rightarrow> (c # x) # xs)"

definition split_path :: "string \<Rightarrow> string list" where
  "split_path path = filter (\<lambda>c. c \<noteq> []) (split_slash path)"

definition trim_start :: "string \<Rightarrow> string" where
  "trim_start s = dropWhile (\<lambda>c. c = CHR ''/'') s"

definition trim_end :: "string \<Rightarrow> string" where
  "trim_end s = rev (dropWhile (\<lambda>c. c = CHR ''/'') (rev s))"

text \<open>The position of the last slash.\<close>

definition rfind_slash :: "string \<Rightarrow> nat option" where
  "rfind_slash s = (if CHR ''/'' \<in> set s then Some (length s - 1 - length (takeWhile (\<lambda>c. c \<noteq> CHR ''/'') (rev s))) else None)"

definition split_parent :: "string \<Rightarrow> (string \<times> string) KResult" where
  "split_parent path =
     (let p = trim_end path in
      if p = [] \<or> p = ''/'' then Inl Invalid
      else case rfind_slash p of
        Some i \<Rightarrow>
          (let a = take i p; b = drop i p; name = trim_start b; parent = (if a = [] then ''/'' else a) in
           if name = [] then Inl Invalid else Inr (parent, name))
      | None \<Rightarrow> Inr (''/'', p))"

subsection \<open>Mount points\<close>

record Vfs =
  vfs_root :: nat
  mount_points :: "(string \<times> nat) list"

definition vfs_new :: "nat \<Rightarrow> Vfs" where
  "vfs_new root = \<lparr>vfs_root = root, mount_points = []\<rparr>"

text \<open>The reference to a mounted inode moves from the caller to the table; references that leave the table are dropped.\<close>

definition drop_refs :: "nat list \<Rightarrow> Heap \<Rightarrow> Heap" where
  "drop_refs is h = collect (h\<lparr>pins := fold remove1 is (pins h)\<rparr>)"

definition mount :: "string \<Rightarrow> nat \<Rightarrow> Vfs \<Rightarrow> Heap \<Rightarrow> Vfs \<times> Heap" where
  "mount path i v h =
     (let path = trim_end path in
      (v\<lparr>mount_points := ch_insert path i (mount_points v)\<rparr>,
       case map_of (mount_points v) path of None \<Rightarrow> h | Some old \<Rightarrow> drop_refs [old] h))"

definition set_root :: "nat \<Rightarrow> Vfs \<Rightarrow> Heap \<Rightarrow> Vfs \<times> Heap" where
  "set_root i v h = (v\<lparr>mount_points := [], vfs_root := i\<rparr>, drop_refs (vfs_root v # map snd (mount_points v)) h)"

definition check_mount_point :: "Vfs \<Rightarrow> string \<Rightarrow> nat option" where
  "check_mount_point v path = map_of (mount_points v) (trim_end path)"

subsection \<open>Resolution\<close>

definition truncate_last :: "string \<Rightarrow> string" where
  "truncate_last cp = (case rfind_slash cp of Some pos \<Rightarrow> take pos cp | None \<Rightarrow> cp)"

text \<open>The loop of \<open>resolve\<close> over the components of the path; its variables are the inode and the path so far.\<close>

definition walk_step :: "Vfs \<Rightarrow> Heap \<Rightarrow> Cred \<Rightarrow> nat \<Rightarrow> string \<Rightarrow> string \<Rightarrow> (nat \<times> string) KResult option" where
  "walk_step v h c cur cp name =
     (if name = ''.'' \<or> name = [] then Some (Inr (cur, cp))
      else if name = ''..'' then
        Some (Inr (case parent h cur of Some p \<Rightarrow> p | None \<Rightarrow> vfs_root v, truncate_last cp))
      else if kind_of h cur \<noteq> KDir then Some (Inl NotFound)
      else do {
        ok \<leftarrow> can_exec_dir (metadata h cur) c;
        if \<not> ok then Some (Inl PermissionDenied)
        else case check_mount_point v (cp @ ''/'' @ name) of
          Some mounted \<Rightarrow> Some (Inr (mounted, cp @ ''/'' @ name))
        | None \<Rightarrow> (case lookup h cur name of Inl e \<Rightarrow> Some (Inl e) | Inr next \<Rightarrow> Some (Inr (next, cp @ ''/'' @ name)))
      })"

fun walk :: "Vfs \<Rightarrow> Heap \<Rightarrow> Cred \<Rightarrow> nat \<Rightarrow> string \<Rightarrow> string list \<Rightarrow> nat KResult option" where
  "walk v h c cur cp [] = Some (Inr cur)"
| "walk v h c cur cp (name # names) = do {
     r \<leftarrow> walk_step v h c cur cp name;
     case r of Inl e \<Rightarrow> Some (Inl e) | Inr (cur, cp) \<Rightarrow> walk v h c cur cp names
   }"

definition resolve :: "Vfs \<Rightarrow> Heap \<Rightarrow> string \<Rightarrow> Cred \<Rightarrow> nat KResult option" where
  "resolve v h path c = (case check_mount_point v path of
     Some i \<Rightarrow> Some (Inr i)
   | None \<Rightarrow> walk v h c (vfs_root v) [] (split_path path))"

fun walk_nofollow :: "Vfs \<Rightarrow> Heap \<Rightarrow> Cred \<Rightarrow> nat \<Rightarrow> string list \<Rightarrow> nat KResult option" where
  "walk_nofollow v h c cur [] = Some (Inr cur)"
| "walk_nofollow v h c cur (name # comps) =
     (if name = ''.'' then walk_nofollow v h c cur comps
      else if name = ''..'' then walk_nofollow v h c (case parent h cur of Some p \<Rightarrow> p | None \<Rightarrow> cur) comps
      else do {
        ok \<leftarrow> can_exec_any (metadata h cur) c;
        if \<not> ok then Some (Inl PermissionDenied)
        else case lookup h cur name of
          Inl e \<Rightarrow> Some (Inl e)
        | Inr cur \<Rightarrow>
            if comps \<noteq> [] \<and> kind_of h cur = KSymlink then
              (case readlink h cur of
                Inl e \<Rightarrow> Some (Inl e)
              | Inr target \<Rightarrow>
                  if take 1 target = ''/'' \<or> parent h cur \<noteq> None then do {
                    r \<leftarrow> resolve v h target c;
                    case r of Inl e \<Rightarrow> Some (Inl e) | Inr cur \<Rightarrow> walk_nofollow v h c cur comps
                  } else walk_nofollow v h c cur comps)
            else walk_nofollow v h c cur comps
      })"

definition resolve_relative_nofollow :: "Vfs \<Rightarrow> Heap \<Rightarrow> nat \<Rightarrow> string \<Rightarrow> Cred \<Rightarrow> nat KResult option" where
  "resolve_relative_nofollow v h cur path c = walk_nofollow v h c cur (split_path path)"

text \<open>The scan of the mount points, in ascending order of their paths.\<close>

fun nofollow_mounts :: "Vfs \<Rightarrow> Heap \<Rightarrow> string \<Rightarrow> Cred \<Rightarrow> (string \<times> nat) list \<Rightarrow> nat KResult option" where
  "nofollow_mounts v h path c [] = resolve_relative_nofollow v h (vfs_root v) (trim_start path) c"
| "nofollow_mounts v h path c ((mp, i) # ms) =
     (if path = mp then Some (Inr i)
      else if take (length mp) path = mp \<and> (take 1 (drop (length mp) path) = ''/'' \<or> drop (length mp) path = []) then
        resolve_relative_nofollow v h i (trim_start (drop (length mp) path)) c
      else nofollow_mounts v h path c ms)"

definition resolve_nofollow :: "Vfs \<Rightarrow> Heap \<Rightarrow> string \<Rightarrow> Cred \<Rightarrow> nat KResult option" where
  "resolve_nofollow v h path c =
     (let path = trim_end path in
      if path = [] \<or> path = ''/'' then Some (Inr (vfs_root v)) else nofollow_mounts v h path c (mount_points v))"

subsection \<open>Operations\<close>

text \<open>The operator \<open>?\<close> on a result that comes without and with an effect on the heap.\<close>

definition qm :: "'a KResult \<Rightarrow> Heap \<Rightarrow> ('a \<Rightarrow> ('b KResult \<times> Heap) option) \<Rightarrow> ('b KResult \<times> Heap) option" where
  "qm r h k = (case r of Inl e \<Rightarrow> Some (Inl e, h) | Inr x \<Rightarrow> k x)"

definition qmh :: "'a KResult \<times> Heap \<Rightarrow> ('a \<Rightarrow> Heap \<Rightarrow> ('b KResult \<times> Heap) option) \<Rightarrow> ('b KResult \<times> Heap) option" where
  "qmh rh k = (case rh of (Inl e, h) \<Rightarrow> Some (Inl e, h) | (Inr x, h) \<Rightarrow> k x h)"

text \<open>\<open>resolve(path)?\<close> and the check of a permission.\<close>

definition resolved :: "Vfs \<Rightarrow> string \<Rightarrow> Cred \<Rightarrow> Heap \<Rightarrow> (nat \<Rightarrow> ('b KResult \<times> Heap) option) \<Rightarrow> ('b KResult \<times> Heap) option" where
  "resolved v path c h k = Option.bind (resolve v h path c) (\<lambda>r. qm r h k)"

definition permitted :: "bool option \<Rightarrow> Heap \<Rightarrow> ('b KResult \<times> Heap) option \<Rightarrow> ('b KResult \<times> Heap) option" where
  "permitted p h k = Option.bind p (\<lambda>ok. if ok then k else Some (Inl PermissionDenied, h))"

fun mkdir_loop :: "Vfs \<Rightarrow> Cred \<Rightarrow> mode \<Rightarrow> nat \<Rightarrow> string \<Rightarrow> string list \<Rightarrow> Heap \<Rightarrow> (unit KResult \<times> Heap) option" where
  "mkdir_loop v c md cur cp [] h = Some (Inr (), h)"
| "mkdir_loop v c md cur cp (name # comps) h =
     (if name = [] \<or> name = ''.'' then mkdir_loop v c md cur cp comps h
      else if name = ''..'' then
        mkdir_loop v c md (case parent h cur of Some p \<Rightarrow> p | None \<Rightarrow> cur) (truncate_last cp) comps h
      else if kind_of h cur \<noteq> KDir then Some (Inl Invalid, h)
      else permitted (can_exec_dir (metadata h cur) c) h
        (case check_mount_point v (cp @ ''/'' @ name) of
          Some mounted \<Rightarrow> mkdir_loop v c md mounted (cp @ ''/'' @ name) comps h
        | None \<Rightarrow> (case lookup h cur name of
            Inr next \<Rightarrow> mkdir_loop v c md next (cp @ ''/'' @ name) comps h
          | Inl NotFound \<Rightarrow> permitted (can_write_dir (metadata h cur) c) h
              (case create cur name KDir (simple (uid c) (gid c) md KDir) h of
                (Inl e, h) \<Rightarrow> Some (Inl e, h)
              | (Inr next, h) \<Rightarrow> mkdir_loop v c md next (cp @ ''/'' @ name) comps h)
          | Inl e \<Rightarrow> Some (Inl e, h))))"

definition mkdir_all :: "Vfs \<Rightarrow> string \<Rightarrow> Cred \<Rightarrow> mode \<Rightarrow> Heap \<Rightarrow> (unit KResult \<times> Heap) option" where
  "mkdir_all v path c md h = mkdir_loop v c md (vfs_root v) [] (split_path path) h"

text \<open>The file that \<open>write_file\<close> finds or makes.\<close>

definition open_or_create :: "nat \<Rightarrow> string \<Rightarrow> Cred \<Rightarrow> mode \<Rightarrow> Heap \<Rightarrow> nat KResult \<times> Heap" where
  "open_or_create p name c md h = (case lookup h p name of
     Inr i \<Rightarrow> (Inr i, h)
   | Inl NotFound \<Rightarrow> create p name KFile (simple (uid c) (gid c) md KFile) h
   | Inl e \<Rightarrow> (Inl e, h))"

text \<open>The end of \<open>write_file\<close>: the contents of the file are replaced.\<close>

definition overwrite :: "nat \<Rightarrow> Cred \<Rightarrow> u8 list \<Rightarrow> Heap \<Rightarrow> (unit KResult \<times> Heap) option" where
  "overwrite file c bytes h =
     permitted (can_write_file (metadata h file) c) h
       (qmh (truncate_file file 0 h) (\<lambda>_ h.
        Option.bind (write_at file 0 bytes h) (\<lambda>rh. qmh rh (\<lambda>_ h. Some (Inr (), h)))))"

definition write_file :: "Vfs \<Rightarrow> string \<Rightarrow> Cred \<Rightarrow> mode \<Rightarrow> u8 list \<Rightarrow> Heap \<Rightarrow> (unit KResult \<times> Heap) option" where
  "write_file v path c md bytes h =
     qm (split_parent path) h (\<lambda>(parent_path, name).
     resolved v parent_path c h (\<lambda>p.
     if kind_of h p \<noteq> KDir then Some (Inl Invalid, h)
     else permitted (can_exec_dir (metadata h p) c) h (permitted (can_write_dir (metadata h p) c) h
       (qmh (open_or_create p name c md h) (\<lambda>file h.
        overwrite file c bytes h)))))"

definition read_file :: "Vfs \<Rightarrow> string \<Rightarrow> Cred \<Rightarrow> Heap \<Rightarrow> (u8 list KResult \<times> Heap) option" where
  "read_file v path c h =
     resolved v path c h (\<lambda>i.
     if kind_of h i \<noteq> KFile then Some (Inl Invalid, h)
     else permitted (can_read_file (metadata h i) c) h
       (qm (size_of h i) h (\<lambda>n.
        Option.bind (read_at i 0 (replicate n 0) h) (\<lambda>(r, buf, h). qm r h (\<lambda>_. Some (Inr buf, h))))))"

definition list_dir :: "Vfs \<Rightarrow> string \<Rightarrow> Cred \<Rightarrow> Heap \<Rightarrow> ((string \<times> InodeKind) list KResult \<times> Heap) option" where
  "list_dir v path c h =
     resolved v path c h (\<lambda>i.
     if kind_of h i \<noteq> KDir then Some (Inl Invalid, h)
     else permitted (can_exec_dir (metadata h i) c) h (permitted (can_read_dir (metadata h i) c) h
       (Some (readdir h i, h))))"

text \<open>The restriction of the sticky bit: only root and the owners of the directory and of the entry may remove the entry.\<close>

definition sticky_refuses :: "Metadata \<Rightarrow> Metadata \<Rightarrow> Cred \<Rightarrow> bool" where
  "sticky_refuses dir_meta target_meta c \<longleftrightarrow>
     is_sticky (m_mode dir_meta) \<and> uid c \<noteq> 0 \<and> uid c \<noteq> m_uid dir_meta \<and> uid c \<noteq> m_uid target_meta"

definition vfs_unlink :: "Vfs \<Rightarrow> string \<Rightarrow> Cred \<Rightarrow> Heap \<Rightarrow> (unit KResult \<times> Heap) option" where
  "vfs_unlink v path c h =
     qm (split_parent path) h (\<lambda>(parent_path, name).
     resolved v parent_path c h (\<lambda>p.
     if kind_of h p \<noteq> KDir then Some (Inl Invalid, h)
     else permitted (can_write_dir (metadata h p) c) h
       (qm (lookup h p name) h (\<lambda>target.
        if kind_of h target = KDir then Some (Inl Invalid, h)
        else if sticky_refuses (metadata h p) (metadata h target) c then Some (Inl PermissionDenied, h)
        else Some (unlink p name h)))))"

definition vfs_rmdir :: "Vfs \<Rightarrow> string \<Rightarrow> Cred \<Rightarrow> Heap \<Rightarrow> (unit KResult \<times> Heap) option" where
  "vfs_rmdir v path c h =
     qm (split_parent path) h (\<lambda>(parent_path, name).
     resolved v parent_path c h (\<lambda>p.
     if kind_of h p \<noteq> KDir then Some (Inl Invalid, h)
     else permitted (can_write_dir (metadata h p) c) h
       (qm (lookup h p name) h (\<lambda>target.
        if kind_of h target \<noteq> KDir then Some (Inl Invalid, h)
        else if sticky_refuses (metadata h p) (metadata h target) c then Some (Inl PermissionDenied, h)
        else qm (readdir h target) h (\<lambda>es.
          if es \<noteq> [] then Some (Inl NotEmpty, h) else Some (rmdir p name h))))))"

text \<open>The part of \<open>rename\<close> that clears the destination.\<close>

definition clear_dest :: "nat \<Rightarrow> nat \<Rightarrow> string \<Rightarrow> Cred \<Rightarrow> Heap \<Rightarrow> (unit KResult \<times> Heap) option" where
  "clear_dest source np new_name c h = (case lookup h np new_name of
     Inr dest \<Rightarrow>
       if sticky_refuses (metadata h np) (metadata h dest) c then Some (Inl PermissionDenied, h)
       else if kind_of h source = KDir \<and> kind_of h dest \<noteq> KDir then Some (Inl NotADirectory, h)
       else if kind_of h source \<noteq> KDir \<and> kind_of h dest = KDir then Some (Inl IsADirectory, h)
       else if kind_of h dest = KDir then
         qm (readdir h dest) h (\<lambda>es. if es \<noteq> [] then Some (Inl NotEmpty, h) else Some (rmdir np new_name h))
       else Some (unlink np new_name h)
   | Inl NotFound \<Rightarrow> Some (Inr (), h)
   | Inl e \<Rightarrow> Some (Inl e, h))"

definition vfs_rename :: "Vfs \<Rightarrow> string \<Rightarrow> string \<Rightarrow> Cred \<Rightarrow> Heap \<Rightarrow> (unit KResult \<times> Heap) option" where
  "vfs_rename v oldpath newpath c h =
     qm (split_parent oldpath) h (\<lambda>(old_parent_path, old_name).
     qm (split_parent newpath) h (\<lambda>(new_parent_path, new_name).
     resolved v old_parent_path c h (\<lambda>op.
     resolved v new_parent_path c h (\<lambda>np.
     if kind_of h op \<noteq> KDir then Some (Inl NotADirectory, h)
     else permitted (can_write_dir (metadata h op) c) h
       (if kind_of h np \<noteq> KDir then Some (Inl NotADirectory, h)
        else permitted (can_write_dir (metadata h np) c) h
          (qm (lookup h op old_name) h (\<lambda>source.
           if sticky_refuses (metadata h op) (metadata h source) c then Some (Inl PermissionDenied, h)
           else Option.bind (clear_dest source np new_name c h) (\<lambda>rh. qmh rh (\<lambda>_ h.
             Some (rename_to op old_name np new_name h))))))))))"

definition chmod :: "Vfs \<Rightarrow> string \<Rightarrow> mode \<Rightarrow> Cred \<Rightarrow> Heap \<Rightarrow> (unit KResult \<times> Heap) option" where
  "chmod v path md c h =
     resolved v path c h (\<lambda>i.
     if uid c \<noteq> 0 \<and> m_uid (metadata h i) \<noteq> uid c then Some (Inl PermissionDenied, h)
     else Some (Inr (), set_metadata i ((metadata h i)\<lparr>m_mode := md\<rparr>) h))"

definition chown :: "Vfs \<Rightarrow> string \<Rightarrow> uid \<Rightarrow> gid \<Rightarrow> Cred \<Rightarrow> Heap \<Rightarrow> (unit KResult \<times> Heap) option" where
  "chown v path u g c h =
     resolved v path c h (\<lambda>i.
     if uid c \<noteq> 0 \<and> (u \<noteq> m_uid (metadata h i) \<or> m_uid (metadata h i) \<noteq> uid c) then Some (Inl PermissionDenied, h)
     else Some (Inr (), set_metadata i ((metadata h i)\<lparr>m_uid := u, m_gid := g\<rparr>) h))"

definition vfs_symlink :: "Vfs \<Rightarrow> string \<Rightarrow> string \<Rightarrow> Cred \<Rightarrow> Heap \<Rightarrow> (nat KResult \<times> Heap) option" where
  "vfs_symlink v link_path target c h =
     qm (split_parent link_path) h (\<lambda>(parent_path, name).
     resolved v parent_path c h (\<lambda>p.
     permitted (can_write_any (metadata h p) c) h
       (Some (symlink p name target (simple (uid c) (gid c) (from_octal 0x1FF) KSymlink) h))))"

definition vfs_readlink :: "Vfs \<Rightarrow> string \<Rightarrow> Cred \<Rightarrow> Heap \<Rightarrow> (string KResult \<times> Heap) option" where
  "vfs_readlink v path c h = Option.bind (resolve_nofollow v h path c) (\<lambda>r. qm r h (\<lambda>i.
     if kind_of h i \<noteq> KSymlink then Some (Inl Invalid, h) else Some (readlink h i, h)))"

definition vfs_mkfifo :: "Vfs \<Rightarrow> string \<Rightarrow> mode \<Rightarrow> Cred \<Rightarrow> Heap \<Rightarrow> (nat KResult \<times> Heap) option" where
  "vfs_mkfifo v path md c h =
     qm (split_parent path) h (\<lambda>(parent_path, name).
     resolved v parent_path c h (\<lambda>p.
     permitted (can_write_any (metadata h p) c) h
       (Some (mkfifo p name (simple (uid c) (gid c) md KFifo) h))))"

subsection \<open>Facts on paths\<close>

lemma split_slash_Cons: "\<exists>x xs. split_slash s = x # xs"
  by (induction s) auto

lemma split_slash_append: "split_slash (a @ CHR ''/'' # b) = split_slash a @ split_slash b"
proof (induction a)
  case (Cons c a)
  obtain x xs where "split_slash a = x # xs" using split_slash_Cons by blast
  then show ?case using Cons by simp
qed simp

lemma split_slash_name: "CHR ''/'' \<notin> set n \<Longrightarrow> split_slash n = [n]"
  by (induction n) auto

lemma split_path_append: "split_path (a @ CHR ''/'' # b) = split_path a @ split_path b"
  by (simp add: split_path_def split_slash_append)

lemma split_path_name: "\<not> bad_name n \<Longrightarrow> split_path n = [n]"
  by (simp add: split_path_def split_slash_name bad_name_def)

lemma split_path_slash [simp]: "split_path ''/'' = []" "split_path [] = []"
  by (simp_all add: split_path_def)

lemma trim_end_snoc: "trim_end (s @ [CHR ''/'']) = trim_end s"
  by (simp add: trim_end_def)

lemma trim_end_id: "s = [] \<or> last s \<noteq> CHR ''/'' \<Longrightarrow> trim_end s = s"
  by (induction s rule: rev_induct) (auto simp: trim_end_def)

lemma last_trim_end: "trim_end s \<noteq> [] \<Longrightarrow> last (trim_end s) \<noteq> CHR ''/''"
  using hd_dropWhile [of "\<lambda>c. c = CHR ''/''" "rev s"] by (simp add: trim_end_def last_rev)

lemma split_path_trim_end: "split_path (trim_end s) = split_path s"
proof (induction s rule: rev_induct)
  case (snoc c s)
  then show ?case
    using split_path_append [of s "[]"] trim_end_id [of "s @ [c]"] by (cases "c = CHR ''/''") (simp_all add: trim_end_snoc)
qed (simp add: trim_end_def)

lemma rfind_slash_Some:
  assumes "rfind_slash s = Some i"
  obtains b where "s = take i s @ CHR ''/'' # b" "CHR ''/'' \<notin> set b" "i < length s" "drop i s = CHR ''/'' # b"
proof -
  have "CHR ''/'' \<in> set s" using assms by (auto simp: rfind_slash_def split: if_splits)
  then obtain a b where ab: "s = a @ CHR ''/'' # b" "CHR ''/'' \<notin> set b" using split_list_last by metis
  have "takeWhile (\<lambda>c. c \<noteq> CHR ''/'') (rev b @ CHR ''/'' # rev a) = rev b"
    using ab(2) by (subst takeWhile_append2) auto
  then have "i = length a" using assms ab(1) by (simp add: rfind_slash_def)
  then show thesis using that ab by simp
qed

lemma rfind_slash_None: "rfind_slash s = None \<longleftrightarrow> CHR ''/'' \<notin> set s"
  by (simp add: rfind_slash_def)

text \<open>The split of a path into its parent and its name is a split of its components.\<close>

lemma split_parent_Inr:
  assumes "split_parent path = Inr (pp, name)"
  shows "split_path path = split_path pp @ [name] \<and> \<not> bad_name name"
proof (cases "rfind_slash (trim_end path)")
  case None
  then have n: "name = trim_end path" "pp = ''/''" "name \<noteq> []"
    using assms by (auto simp: split_parent_def Let_def split: if_splits)
  then have "\<not> bad_name name" using None by (simp add: bad_name_def rfind_slash_None)
  then show ?thesis using n split_path_trim_end [of path] split_path_name [of name] by simp
next
  case (Some i)
  let ?p = "trim_end path"
  obtain b where b: "?p = take i ?p @ CHR ''/'' # b" "CHR ''/'' \<notin> set b" "drop i ?p = CHR ''/'' # b"
    using rfind_slash_Some [OF Some] by metis
  have tb: "trim_start (CHR ''/'' # b) = b" using b(2) by (cases b) (auto simp: trim_start_def)
  have n: "name = b" "\<not> bad_name name" "pp = (if take i ?p = [] then ''/'' else take i ?p)"
    using assms Some b(2,3) tb by (auto simp: split_parent_def Let_def bad_name_def split: if_splits)
  have "split_path ?p = split_path (take i ?p) @ [name]"
    by (subst b(1)) (use n in \<open>simp add: split_path_append split_path_name\<close>)
  then show ?thesis using n split_path_trim_end [of path] by auto
qed

lemma last_split_slash: "CHR ''/'' \<notin> set n \<Longrightarrow> last (split_slash (a @ CHR ''/'' # n)) = n"
  by (simp add: split_slash_append split_slash_name)

lemma split_parent_last:
  assumes "split_parent path = Inr (pp, name)"
  shows "last (split_slash (trim_end path)) = name"
proof (cases "rfind_slash (trim_end path)")
  case None
  then have "name = trim_end path" using assms by (auto simp: split_parent_def Let_def split: if_splits)
  then show ?thesis using None by (simp add: rfind_slash_None split_slash_name)
next
  case (Some i)
  let ?p = "trim_end path"
  obtain b where b: "?p = take i ?p @ CHR ''/'' # b" "CHR ''/'' \<notin> set b" "drop i ?p = CHR ''/'' # b"
    using rfind_slash_Some [OF Some] by metis
  have "trim_start (CHR ''/'' # b) = b" using b(2) by (cases b) (auto simp: trim_start_def)
  then have "name = b" using assms Some b(3) by (auto simp: split_parent_def Let_def split: if_splits)
  then show ?thesis by (subst b(1)) (simp add: last_split_slash b(2))
qed

subsection \<open>Facts on walks\<close>

text \<open>The state of the file system: a well-formed heap without garbage, whose root and mounted inodes are held by the tables.\<close>

definition fs_inv :: "Vfs \<Rightarrow> Heap \<Rightarrow> bool" where
  "fs_inv v h \<longleftrightarrow> heap_ok h \<and> no_garbage h \<and> mset (vfs_root v # map snd (mount_points v)) \<subseteq># mset (pins h)
     \<and> sorted_wrt (<) (map fst (mount_points v))"

lemma fs_inv_live:
  assumes "fs_inv v h"
  shows "live h (vfs_root v)" "check_mount_point v path = Some i \<Longrightarrow> live h i"
proof -
  have sub: "j \<in> set (pins h)" if "j = vfs_root v \<or> j \<in> snd ` set (mount_points v)" for j
    using assms that set_mset_mono unfolding fs_inv_def by fastforce
  then show "live h (vfs_root v)" using assms heap_okD(2) by (simp add: fs_inv_def)
  assume "check_mount_point v path = Some i"
  then have "i \<in> snd ` set (mount_points v)" by (force simp: check_mount_point_def dest: map_of_SomeD)
  then show "live h i" using sub assms heap_okD(2) by (simp add: fs_inv_def)
qed

lemma parent_live: "parent h i = Some p \<Longrightarrow> live h p"
  by (auto simp: parent_def split: option.splits if_splits)

lemma walk_Cons:
  "walk v h c cur cp (name # names) = Some (Inr d) \<longleftrightarrow>
     (\<exists>cur' cp'. walk_step v h c cur cp name = Some (Inr (cur', cp')) \<and> walk v h c cur' cp' names = Some (Inr d))"
  by (auto split: option.splits sum.splits bind_splits)

lemma walk_step_Inr:
  "walk_step v h c cur cp name = Some (Inr (cur', cp')) \<longleftrightarrow>
     (if name = ''.'' \<or> name = [] then cur' = cur \<and> cp' = cp
      else if name = ''..'' then cur' = (case parent h cur of Some p \<Rightarrow> p | None \<Rightarrow> vfs_root v) \<and> cp' = truncate_last cp
      else kind_of h cur = KDir \<and> can_exec_dir (metadata h cur) c = Some True \<and> cp' = cp @ ''/'' @ name
        \<and> (case check_mount_point v cp' of Some m \<Rightarrow> cur' = m | None \<Rightarrow> lookup h cur name = Inr cur'))"
  by (auto simp: walk_step_def split: option.splits sum.splits bind_splits)

text \<open>What every step of a walk keeps.\<close>

lemma walk_keeps:
  assumes step: "\<And>cur cp name cur' cp'. P cur \<Longrightarrow> walk_step v h c cur cp name = Some (Inr (cur', cp')) \<Longrightarrow> P cur'"
  shows "P cur \<Longrightarrow> walk v h c cur cp names = Some (Inr d) \<Longrightarrow> P d"
proof (induction names arbitrary: cur cp)
  case (Cons name names)
  then show ?case using step unfolding walk_Cons by blast
qed simp

lemma resolve_keeps:
  assumes "\<And>cur cp name cur' cp'. P cur \<Longrightarrow> walk_step v h c cur cp name = Some (Inr (cur', cp')) \<Longrightarrow> P cur'"
    and "P (vfs_root v)" and "\<And>path i. check_mount_point v path = Some i \<Longrightarrow> P i" and "resolve v h path c = Some (Inr i)"
  shows "P i"
proof (cases "check_mount_point v path")
  case None
  then have "walk v h c (vfs_root v) [] (split_path path) = Some (Inr i)" using assms(4) by (simp add: resolve_def)
  from walk_keeps [where P = P, OF _ assms(2) this] show ?thesis using assms(1) by blast
next
  case (Some j)
  then show ?thesis using assms(3) [OF Some] assms(4) by (simp add: resolve_def)
qed

lemma walk_step_cases:
  assumes "walk_step v h c cur cp name = Some (Inr (cur', cp'))"
  obtains (stay) "cur' = cur" | (up) "parent h cur = Some cur'" | (top) "cur' = vfs_root v"
  | (mounted) "check_mount_point v cp' = Some cur'"
  | (down) "kind_of h cur = KDir" "can_exec_dir (metadata h cur) c = Some True" "lookup h cur name = Inr cur'"
  using assms by (auto simp: walk_step_Inr split: if_splits option.splits)

lemma walk_step_live:
  assumes "fs_inv v h" and "live h cur" and "walk_step v h c cur cp name = Some (Inr (cur', cp'))"
  shows "live h cur'"
  using assms(3)
proof (cases rule: walk_step_cases)
  case down
  then show ?thesis using heap_ok_lookup assms(1,2) by (simp add: fs_inv_def)
qed (use assms(1,2) fs_inv_live parent_live in blast)+

lemma resolve_live: "fs_inv v h \<Longrightarrow> resolve v h path c = Some (Inr i) \<Longrightarrow> live h i"
  by (rule resolve_keeps [where P = "live h"]) (use walk_step_live fs_inv_live in blast)+

text \<open>A walk along a longer path goes on where the walk along its beginning ends.\<close>

lemma walk_append:
  "walk v h c cur cp names = Some (Inr d) \<Longrightarrow> \<exists>cp'. \<forall>rest. walk v h c cur cp (names @ rest) = walk v h c d cp' rest"
  by (induction names arbitrary: cur cp) (auto split: option.splits sum.splits bind_splits)

lemma walk_append_err: "walk v h c cur cp names = Some (Inl e) \<Longrightarrow> walk v h c cur cp (names @ rest) = Some (Inl e)"
  by (induction names arbitrary: cur cp) (auto split: option.splits sum.splits bind_splits)

text \<open>In a heap that has only grown, every walk that succeeded still does.\<close>

lemma grown_parent: "grown h h' \<Longrightarrow> heap_ok h \<Longrightarrow> i < next_ino h \<Longrightarrow> parent h' i = parent h i"
  using heap_okD(4) [of h i] by (auto simp: grown_def parent_def inode_ok_def split: option.splits)

lemma walk_step_grown:
  assumes g: "grown h h'" and inv: "fs_inv v h" "live h cur" and "walk_step v h c cur cp name = Some (Inr (cur', cp'))"
  shows "walk_step v h' c cur cp name = Some (Inr (cur', cp'))"
proof -
  have ok: "heap_ok h" "cur < next_ino h" using inv heap_okD(1) by (auto simp: fs_inv_def)
  have "metadata h' cur = metadata h cur" "\<And>n j. lookup h cur n = Inr j \<Longrightarrow> lookup h' cur n = Inr j"
    using g ok(2) by (auto simp: grown_def)
  then show ?thesis
    using assms(4) grown_parent [OF g ok] by (auto simp: walk_step_Inr kind_of_def split: if_splits option.splits)
qed

lemma walk_grown:
  assumes "grown h h'" and "fs_inv v h"
  shows "live h cur \<Longrightarrow> walk v h c cur cp names = Some (Inr d) \<Longrightarrow> walk v h' c cur cp names = Some (Inr d)"
proof (induction names arbitrary: cur cp)
  case (Cons name names)
  then show ?case unfolding walk_Cons using walk_step_grown [OF assms] walk_step_live [OF assms(2)] by blast
qed simp

lemma resolve_grown: "grown h h' \<Longrightarrow> fs_inv v h \<Longrightarrow> resolve v h path c = Some (Inr i) \<Longrightarrow> resolve v h' path c = Some (Inr i)"
  using walk_grown [of h h' v "vfs_root v"] fs_inv_live(1) by (auto simp: resolve_def split: option.splits)

text \<open>A set of inodes into which no step leads is never entered.\<close>

lemma walk_avoids:
  assumes "vfs_root v \<notin> S" and "\<And>path i. check_mount_point v path = Some i \<Longrightarrow> i \<notin> S"
    and "\<And>i p. i \<notin> S \<Longrightarrow> parent h i = Some p \<Longrightarrow> p \<notin> S"
    and "\<And>d n i. d \<notin> S \<Longrightarrow> can_exec_dir (metadata h d) c = Some True \<Longrightarrow> lookup h d n = Inr i \<Longrightarrow> i \<notin> S"
  shows "resolve v h path c = Some (Inr i) \<Longrightarrow> i \<notin> S"
proof (rule resolve_keeps [where P = "\<lambda>i. i \<notin> S"])
  fix cur cp name cur' cp' assume cur: "cur \<notin> S" and s: "walk_step v h c cur cp name = Some (Inr (cur', cp'))"
  from s show "cur' \<notin> S" by (cases rule: walk_step_cases) (use cur assms in blast)+
qed (use assms(1,2) in blast)+

subsection \<open>The operations keep the file system well formed\<close>

lemma qmE:
  assumes "qm r h k = Some (r', h')"
  obtains (err) e where "r = Inl e" "r' = Inl e" "h' = h" | (ok) x where "r = Inr x" "k x = Some (r', h')"
  using assms by (auto simp: qm_def split: sum.splits)

lemma qmhE:
  assumes "qmh rh k = Some (r', h')"
  obtains (err) e where "rh = (Inl e, h')" "r' = Inl e" | (ok) x h where "rh = (Inr x, h)" "k x h = Some (r', h')"
  using assms by (auto simp: qmh_def split: sum.splits prod.splits)

lemma resolvedE:
  assumes "resolved v path c h k = Some (r', h')"
  obtains (err) e where "resolve v h path c = Some (Inl e)" "r' = Inl e" "h' = h"
  | (ok) i where "resolve v h path c = Some (Inr i)" "k i = Some (r', h')"
  using assms by (auto simp: resolved_def qm_def split: sum.splits bind_splits)

lemma permittedE:
  assumes "permitted p h k = Some (r', h')"
  obtains (err) "p = Some False" "r' = Inl PermissionDenied" "h' = h" | (ok) "p = Some True" "k = Some (r', h')"
  using assms by (auto simp: permitted_def split: bind_splits if_splits)

lemma bind_SomeE:
  assumes "Option.bind p k = Some y"
  obtains x where "p = Some x" "k x = Some y"
  using assms by (auto split: bind_splits)

definition kept :: "Heap \<Rightarrow> Heap \<Rightarrow> bool" where
  "kept h h' \<longleftrightarrow> heap_ok h' \<and> no_garbage h' \<and> pins h' = pins h"

lemma kept_refl: "fs_inv v h \<Longrightarrow> kept h h"
  by (simp add: kept_def fs_inv_def)

lemma kept_trans: "kept h h' \<Longrightarrow> kept h' h'' \<Longrightarrow> kept h h''"
  by (simp add: kept_def)

lemma kept_fs_inv: "fs_inv v h \<Longrightarrow> kept h h' \<Longrightarrow> fs_inv v h'"
  by (simp add: kept_def fs_inv_def)

lemma resolve_ino: "fs_inv v h \<Longrightarrow> resolve v h path c = Some (Inr i) \<Longrightarrow> heap_ok h \<and> live h i \<and> i < next_ino h"
  using resolve_live heap_okD(1) by (auto simp: fs_inv_def)

lemma create_cases:
  assumes h: "heap_ok h" "i < next_ino h" and r: "create i name k m h = (r, h')" and k: "m_kind m = k" "k = KFile \<or> k = KDir"
  obtains (err) e where "r = Inl e" "h' = h"
  | (new) "r = Inr (next_ino h)" "heap_ok h'" "grown h h'" "next_ino h' = Suc (next_ino h)" "pins h' = pins h" "live h' (next_ino h)"
      "metadata h' (next_ino h) = m" "file_bytes h' (next_ino h) = (if k = KFile then Some [] else None)"
      "lookup h i name = Inl NotFound"
      "\<And>d x. lookup h' d x = (if d = next_ino h then (if k = KDir then Inl NotFound else Inl Invalid)
          else if d = i \<and> x = name then Inr (next_ino h) else lookup h d x)"
      "\<And>d. d \<noteq> next_ino h \<Longrightarrow> file_bytes h' d = file_bytes h d"
proof -
  define n where "n = (if k = KFile then TFile [] else TDir [])"
  have "add_inode i name m n h = (r, h')" using r k(2) by (auto simp: create_def n_def)
  then show thesis
  proof (rule add_inode_cases [OF h])
    assume "r = Inr (next_ino h)" "heap_ok h'" "grown h h'" "next_ino h' = Suc (next_ino h)"
      "node h' (next_ino h) = \<lparr>ti_parent = Some i, ti_meta = m, ti_node = n\<rparr>" "pins h' = pins h" "live h' (next_ino h)"
      "lookup h i name = Inl NotFound"
      "\<And>d x. lookup h' d x = (if d = next_ino h then (if node_kind n = KDir then Inl NotFound else Inl Invalid)
          else if (d, x) = (i, name) then Inr (next_ino h) else lookup h d x)"
      "\<And>d. d \<noteq> next_ino h \<Longrightarrow> file_bytes h' d = file_bytes h d"
    then show thesis using k(2) by (intro new) (auto simp: n_def metadata_def file_bytes_def)
  qed (use k err in \<open>auto simp: n_def split: if_splits\<close>)
qed

text \<open>Changing the bytes of a file leaves the tree as it is.\<close>

definition same_tree :: "Heap \<Rightarrow> Heap \<Rightarrow> bool" where
  "same_tree h h' \<longleftrightarrow> next_ino h' = next_ino h \<and> pins h' = pins h \<and> live h' = live h \<and> metadata h' = metadata h
     \<and> lookup h' = lookup h \<and> (\<forall>i. ti_parent (node h' i) = ti_parent (node h i))"

lemma same_tree_refl [simp]: "same_tree h h"
  by (simp add: same_tree_def)

lemma same_tree_trans: "same_tree h h' \<Longrightarrow> same_tree h' h'' \<Longrightarrow> same_tree h h''"
  by (simp add: same_tree_def)

lemma same_tree_grown: "same_tree h h' \<Longrightarrow> grown h h'"
  by (simp add: same_tree_def grown_def)

lemma same_tree_no_garbage: "same_tree h h' \<Longrightarrow> no_garbage h \<Longrightarrow> no_garbage h'"
  by (simp add: same_tree_def no_garbage_def)

text \<open>A heap stays free of garbage when it grows by one inode that is entered in a living directory.\<close>

lemma grown_no_garbage:
  assumes g: "grown h h'" "heap_ok h" "heap_ok h'" "no_garbage h" and n: "next_ino h' = Suc (next_ino h)" "pins h' = pins h"
    and e: "live h d" "lookup h' d name = Inr (next_ino h)"
  shows "no_garbage h'"
  unfolding no_garbage_def
proof (intro allI impI)
  fix i assume i: "live h' i"
  have old: "live h' x = live h x \<and> (\<forall>n j. lookup h x n = Inr j \<longrightarrow> lookup h' x n = Inr j)" if "x < next_ino h" for x
    using g(1) that by (simp add: grown_def)
  show "i \<in> set (pins h') \<or> (\<exists>d n. live h' d \<and> lookup h' d n = Inr i)"
  proof (cases "i = next_ino h")
    case True
    then show ?thesis using e old [of d] heap_okD(1) [OF g(2) e(1)] by auto
  next
    case False
    then have "live h i" using i old [of i] heap_okD(1) [OF g(3) i] n(1) by simp
    then have "i \<in> set (pins h) \<or> (\<exists>d n. live h d \<and> lookup h d n = Inr i)" using g(4) by (simp add: no_garbage_def)
    then show ?thesis using old heap_okD(1) [OF g(2)] n(2) by metis
  qed
qed

lemma set_file:
  assumes "ti_node (node h i) = TFile d"
  shows "same_tree h (set_node i (TFile d') h)" "heap_ok h \<Longrightarrow> heap_ok (set_node i (TFile d') h)"
proof -
  have "lookup (set_node i (TFile d') h) j n = lookup h j n" for j n
    using assms by (simp add: lookup_def as_dir_def node_set_node)
  then show "same_tree h (set_node i (TFile d') h)" by (simp add: same_tree_def fun_eq_iff)
  show "heap_ok (set_node i (TFile d') h)" if "heap_ok h"
    using that by (rule heap_ok_set_node) (simp_all add: assms)
qed

lemma truncate_write:
  assumes h: "heap_ok h" and t: "truncate_file i 0 h = (Inr u, h1)" and w: "write_at i 0 x h1 = Some (r, h2)"
  shows "same_tree h h2 \<and> heap_ok h2 \<and> (\<forall>n. r = Inr n \<longrightarrow> file_bytes h2 = (file_bytes h)(i \<mapsto> x))"
proof -
  obtain d where d: "ti_node (node h i) = TFile d" "h1 = set_node i (TFile []) h"
    using t by (auto simp: truncate_file_def as_file_def resize_def split: TmpfsNode.splits)
  then have d1: "ti_node (node h1 i) = TFile []" by (simp add: node_set_node)
  have h1: "same_tree h h1" "heap_ok h1" "file_bytes h1 = (file_bytes h)(i \<mapsto> [])"
    using set_file [OF d(1)] h d(2) by auto
  show ?thesis
  proof (cases "length x \<le> U64_MAX")
    case True
    then have "h2 = set_node i (TFile x) h1" using write_at_file [OF d1, of 0 x] w by simp
    then show ?thesis
      using set_file [OF d1, of x] h1 same_tree_trans by auto
  next
    case False
    then have "r = Inl Invalid" "h2 = h1" using w d1 by (auto simp: write_at_def as_fifo_def as_file_def add64_def)
    then show ?thesis using h1 by auto
  qed
qed

lemma truncate_err: "truncate_file i n h = (Inl e, h') \<Longrightarrow> h' = h"
  by (auto simp: truncate_file_def split: sum.splits)

lemma open_or_create_cases:
  assumes h: "heap_ok h" "live h p" "no_garbage h" and r: "open_or_create p name c md h = (r, h')"
  obtains (err) e where "r = Inl e" "h' = h"
  | (ok) j where "r = Inr j" "kept h h'" "grown h h'" "lookup h' p name = Inr j" "live h' j"
      "\<And>d. d < next_ino h \<Longrightarrow> file_bytes h' d = file_bytes h d"
proof (cases "lookup h p name")
  case (Inr j)
  then show thesis using r h ok [of j] heap_ok_lookup [OF h(1,2) Inr] by (simp add: open_or_create_def kept_def)
next
  case (Inl e)
  note p = heap_okD(1) [OF h(1,2)]
  show thesis
  proof (cases "e = NotFound")
    case True
    then have "create p name KFile (simple (uid c) (gid c) md KFile) h = (r, h')" using r Inl by (simp add: open_or_create_def)
    then show thesis
    proof (rule create_cases [OF h(1) p])
      assume n: "r = Inr (next_ino h)" "heap_ok h'" "grown h h'" "next_ino h' = Suc (next_ino h)" "pins h' = pins h"
        "live h' (next_ino h)"
        "\<And>d x. lookup h' d x = (if d = next_ino h then (if KFile = KDir then Inl NotFound else Inl Invalid)
            else if d = p \<and> x = name then Inr (next_ino h) else lookup h d x)"
        "\<And>d. d \<noteq> next_ino h \<Longrightarrow> file_bytes h' d = file_bytes h d"
      have "lookup h' p name = Inr (next_ino h)" using p n(7) by simp
      moreover from this have "no_garbage h'" by (rule grown_no_garbage [OF n(3) h(1) n(2) h(3) n(4,5) h(2)])
      ultimately show thesis using ok [OF n(1) _ n(3) _ n(6)] n(2,5,8) by (simp add: kept_def)
    qed (use err in auto)
  next
    case False
    then have "r = Inl e" "h' = h" using r Inl by (cases e; simp add: open_or_create_def)+
    then show thesis using err by blast
  qed
qed

lemma overwrite_ok:
  assumes h: "heap_ok h" and o: "overwrite i c x h = Some (r, h')"
  shows "same_tree h h' \<and> heap_ok h' \<and> (\<forall>n. r = Inr n \<longrightarrow> file_bytes h' = (file_bytes h)(i \<mapsto> x))"
  using o unfolding overwrite_def
proof (cases rule: permittedE)
  case ok
  from ok(2) show ?thesis
  proof (cases rule: qmhE)
    case (err e)
    then show ?thesis using truncate_err [OF err(1)] h by simp
  next
    case (ok u h1)
    from ok(2) obtain r2 h2 where w: "write_at i 0 x h1 = Some (r2, h2)" "qmh (r2, h2) (\<lambda>_ h. Some (Inr (), h)) = Some (r, h')"
      by (elim bind_SomeE) auto
    have "h2 = h'" "\<forall>n. r = Inr n \<longrightarrow> (\<exists>m. r2 = Inr m)" using w(2) by (auto elim: qmhE)
    then show ?thesis using truncate_write [OF h ok(1) w(1)] by blast
  qed
qed (use h in auto)

text \<open>The operations on an entry of a directory begin by resolving the directory.\<close>

lemma parentE:
  assumes "qm (split_parent path) h (\<lambda>(pp, name). resolved v pp c h (\<lambda>p. K p name)) = Some (r, h')"
  obtains (err) e where "r = Inl e" "h' = h"
  | (ok) pp name p where "split_parent path = Inr (pp, name)" "resolve v h pp c = Some (Inr p)" "K p name = Some (r, h')"
  using assms by (auto elim!: qmE resolvedE)

lemma write_file_cases:
  assumes inv: "fs_inv v h" and w: "write_file v path c md x h = Some (r, h')"
  obtains (err) e where "r = Inl e" "kept h h'" "grown h h'"
  | (ok) pp name p j where "r = Inr ()" "kept h h'" "grown h h'" "split_parent path = Inr (pp, name)"
      "resolve v h pp c = Some (Inr p)" "kind_of h p = KDir" "can_exec_dir (metadata h p) c = Some True"
      "lookup h' p name = Inr j" "live h' j" "file_bytes h' j = Some x"
      "\<And>d. d < next_ino h \<Longrightarrow> d \<noteq> j \<Longrightarrow> file_bytes h' d = file_bytes h d"
  using w unfolding write_file_def
proof (cases rule: parentE)
  case (err e)
  then show thesis using that(1) kept_refl [OF inv] by simp
next
  case pn: (ok pp name p)
  have p: "heap_ok h" "live h p" "no_garbage h" using resolve_ino [OF inv pn(2)] inv by (simp_all add: fs_inv_def)
  consider (fail) e where "r = Inl e" "h' = h"
    | (go) "kind_of h p = KDir" "can_exec_dir (metadata h p) c = Some True"
        "qmh (open_or_create p name c md h) (\<lambda>file. overwrite file c x) = Some (r, h')"
    using pn(3) by (auto split: if_splits elim!: permittedE)
  then show thesis
  proof cases
    case fail
    then show thesis using that(1) kept_refl [OF inv] by simp
  next
    case go
    from go(3) show thesis
    proof (cases rule: qmhE)
      case (err e)
      from open_or_create_cases [OF p err(1)] have "h' = h" by blast
      then show thesis using that(1) [OF err(2)] kept_refl [OF inv] by simp
    next
      case (ok j h1)
      show thesis
      proof (rule open_or_create_cases [OF p ok(1)])
        fix l assume l: "Inr j = (Inr l :: nat KResult)" "kept h h1" "grown h h1" "lookup h1 p name = Inr l" "live h1 l"
          "\<And>d. d < next_ino h \<Longrightarrow> file_bytes h1 d = file_bytes h d"
        have o: "same_tree h1 h'" "heap_ok h'" "\<forall>n. r = Inr n \<longrightarrow> file_bytes h' = (file_bytes h1)(j \<mapsto> x)"
          using overwrite_ok [OF _ ok(2)] l(2) by (simp_all add: kept_def)
        have k: "kept h h'" "grown h h'" "lookup h' p name = Inr j" "live h' j"
          using o l grown_trans [OF l(3) same_tree_grown [OF o(1)]] same_tree_no_garbage [OF o(1)]
          by (auto simp: kept_def same_tree_def)
        show thesis
        proof (cases r)
          case (Inl e)
          then show thesis using that(1) k by blast
        next
          case (Inr u)
          then show thesis using that(2) [OF _ k(1,2) pn(1,2) go(1,2) k(3,4)] o(3) l(6) by simp
        qed
      qed simp
    qed
  qed
qed

text \<open>The last component of a path that is reached through its parent, when no mount point has its name.\<close>

definition not_mounted :: "Vfs \<Rightarrow> string \<Rightarrow> bool" where
  "not_mounted v name \<longleftrightarrow> (\<forall>mp \<in> set (map fst (mount_points v)). last (split_slash mp) \<noteq> name)"

lemma not_mounted: "not_mounted v name \<Longrightarrow> last (split_slash (trim_end path)) = name \<Longrightarrow> check_mount_point v path = None"
  by (force simp: not_mounted_def check_mount_point_def map_of_eq_None_iff)

lemma resolve_entry:
  assumes p: "split_parent path = Inr (pp, name)" and n: "name \<noteq> ''.''" "name \<noteq> ''..''"
    and m: "check_mount_point v pp = None" "not_mounted v name"
    and r: "resolve v h pp c = Some (Inr d)" and d: "kind_of h d = KDir" "can_exec_dir (metadata h d) c = Some True"
  shows "resolve v h path c = Some (lookup h d name)"
proof -
  have s: "split_path path = split_path pp @ [name]" "\<not> bad_name name" using split_parent_Inr [OF p] by auto
  have "walk v h c (vfs_root v) [] (split_path pp) = Some (Inr d)" using r m(1) by (simp add: resolve_def)
  then obtain cp where w: "walk v h c (vfs_root v) [] (split_path path) = walk v h c d cp [name]"
    using walk_append unfolding s(1) by blast
  have "trim_end (cp @ CHR ''/'' # name) = cp @ CHR ''/'' # name"
    using s(2) by (intro trim_end_id) (auto simp: bad_name_def dest: last_in_set)
  then have "check_mount_point v (cp @ ''/'' @ name) = None"
    using not_mounted [OF m(2), of "cp @ ''/'' @ name"] s(2) by (simp add: last_split_slash bad_name_def)
  then have "walk_step v h c d cp name = Some (case lookup h d name of Inl e \<Rightarrow> Inl e | Inr j \<Rightarrow> Inr (j, cp @ ''/'' @ name))"
    using n d s(2) by (simp add: walk_step_def bad_name_def split: sum.splits)
  then have "walk v h c d cp [name] = Some (lookup h d name)" by (simp split: sum.splits)
  moreover have "check_mount_point v path = None" by (rule not_mounted [OF m(2) split_parent_last [OF p]])
  ultimately show ?thesis using w by (simp add: resolve_def)
qed

end
