(* ===== verification/File_System.thy ===== *)
theory File_System
  imports Vfs
begin

text \<open>
  What the file system promises: the outcomes of the operations on entries (\<open>unlink\<close>, \<open>rmdir\<close>, \<open>rename\<close>), the states that
  sequences of operations reach, and the properties of files and directories that follow.
\<close>

subsection \<open>Outcomes of the operations on entries\<close>

definition without :: "nat \<Rightarrow> string \<Rightarrow> Heap \<Rightarrow> Heap \<Rightarrow> bool" where
  "without p name h h' \<longleftrightarrow> kept h h' \<and> relinked h h' \<and> (\<forall>x. live h x \<longrightarrow> lookup h p name \<noteq> Inr x \<longrightarrow> live h' x)
     \<and> (\<forall>d x. lookup h' d x = (if d = p \<and> x = name then Inl NotFound else lookup h d x))"

lemma remove_leaf:
  assumes inv: "fs_inv v h" "live h p" and j: "lookup h p name = Inr j" "\<And>n l. lookup h j n \<noteq> Inr l"
    and r: "remove_entry p name h = (r, h')"
  shows "r = Inr () \<and> without p name h h' \<and> (\<forall>x. x \<noteq> j \<longrightarrow> live h' x = live h x)"
proof -
  have h: "heap_ok h" "no_garbage h" using inv(1) by (simp_all add: fs_inv_def)
  note p = heap_okD(1) [OF h(1) inv(2)]
  note live = remove_entry_live [OF h p j r]
  show ?thesis
  proof (rule remove_entry_cases [OF h(1) p r])
    assume o: "r = Inr ()" "heap_ok h'" "relinked h h'"
      "\<And>d x. lookup h' d x = (if d = p \<and> x = name then Inl NotFound else lookup h d x)"
    then have "kept h h'" using live(1) by (simp add: kept_def relinked_def)
    then show ?thesis using o live(2) j(1) by (auto simp: without_def)
  qed (use j(1) in simp)
qed

lemma lookup_leaf:
  "fs_inv v h \<Longrightarrow> live h p \<Longrightarrow> lookup h p name = Inr j \<Longrightarrow> kind_of h j \<noteq> KDir \<or> readdir h j = Inr [] \<Longrightarrow> lookup h j n \<noteq> Inr l"
  using lookup_nondir [of h j n l] lookup_empty [of h j n l] heap_ok_lookup [of h p name j] heap_okD(1) [of h j]
  by (auto simp: fs_inv_def)

lemma unlink_cases:
  assumes inv: "fs_inv v h" and u: "vfs_unlink v path c h = Some (r, h')"
  obtains (err) e where "r = Inl e" "h' = h"
  | (ok) pp name p j where "r = Inr ()" "without p name h h'" "split_parent path = Inr (pp, name)"
      "resolve v h pp c = Some (Inr p)" "kind_of h p = KDir" "can_write_dir (metadata h p) c = Some True"
      "lookup h p name = Inr j" "kind_of h j \<noteq> KDir" "\<not> sticky_refuses (metadata h p) (metadata h j) c"
  using u unfolding vfs_unlink_def
proof (cases rule: parentE)
  case (err e)
  then show thesis using that(1) by simp
next
  case pn: (ok pp name p)
  note p = resolve_live [OF inv pn(2)]
  consider (fail) e where "r = Inl e" "h' = h"
    | (go) j where "kind_of h p = KDir" "can_write_dir (metadata h p) c = Some True" "lookup h p name = Inr j"
        "kind_of h j \<noteq> KDir" "\<not> sticky_refuses (metadata h p) (metadata h j) c" "remove_entry p name h = (r, h')"
    using pn(3) by (auto simp: unlink_def split: if_splits elim!: permittedE qmE)
  then show thesis
  proof cases
    case go
    note rm = remove_leaf [OF inv p go(3) lookup_leaf [OF inv p go(3)] go(6)]
    show thesis using that(2) [OF _ _ pn(1,2) go(1-5)] rm go(4) by blast
  qed (rule that(1))
qed

lemma rmdir_cases:
  assumes inv: "fs_inv v h" and u: "vfs_rmdir v path c h = Some (r, h')"
  obtains (err) e where "r = Inl e" "h' = h"
  | (ok) pp name p j where "r = Inr ()" "without p name h h'" "split_parent path = Inr (pp, name)"
      "resolve v h pp c = Some (Inr p)" "lookup h p name = Inr j" "kind_of h j = KDir" "readdir h j = Inr []"
      "\<not> sticky_refuses (metadata h p) (metadata h j) c"
  using u unfolding vfs_rmdir_def
proof (cases rule: parentE)
  case (err e)
  then show thesis using that(1) by simp
next
  case pn: (ok pp name p)
  note p = resolve_live [OF inv pn(2)]
  consider (fail) e where "r = Inl e" "h' = h"
    | (go) j where "lookup h p name = Inr j" "kind_of h j = KDir" "readdir h j = Inr []"
        "\<not> sticky_refuses (metadata h p) (metadata h j) c" "remove_entry p name h = (r, h')"
    using pn(3) by (auto simp: rmdir_def split: if_splits elim!: permittedE qmE)
  then show thesis
  proof cases
    case go
    note rm = remove_leaf [OF inv p go(1) lookup_leaf [OF inv p go(1)] go(5)]
    show thesis using that(2) [OF _ _ pn(1,2) go(1-4)] rm go(3) by blast
  qed (rule that(1))
qed

lemma clear_dest_cases:
  assumes inv: "fs_inv v h" "live h np" and d: "clear_dest source np name c h = Some (r, h')"
  obtains (err) e where "r = Inl e" "h' = h"
  | (absent) "r = Inr ()" "h' = h" "lookup h np name = Inl NotFound"
  | (cleared) j where "r = Inr ()" "without np name h h'" "lookup h np name = Inr j" "\<And>n l. lookup h j n \<noteq> Inr l"
      "\<And>x. x \<noteq> j \<Longrightarrow> live h' x = live h x" "kind_of h j = KDir \<longleftrightarrow> kind_of h source = KDir"
      "\<not> sticky_refuses (metadata h np) (metadata h j) c"
proof (cases "lookup h np name")
  case (Inl e)
  then show thesis using d absent err lookup_Inl [OF Inl] by (auto simp: clear_dest_def)
next
  case (Inr j)
  consider (fail) e where "r = Inl e" "h' = h"
    | (go) "\<not> sticky_refuses (metadata h np) (metadata h j) c" "kind_of h j = KDir \<longleftrightarrow> kind_of h source = KDir"
        "kind_of h j \<noteq> KDir \<or> readdir h j = Inr []" "remove_entry np name h = (r, h')"
    using d Inr by (auto simp: clear_dest_def unlink_def rmdir_def split: if_splits elim!: qmE)
  then show thesis
  proof cases
    case go
    note leaf = lookup_leaf [OF inv Inr go(3)]
    show thesis using remove_leaf [OF inv Inr leaf go(4)] by (intro cleared [OF _ _ Inr leaf _ go(2,1)]) auto
  qed (rule err)
qed

text \<open>An entry has moved, and nothing else has changed.\<close>

definition moved :: "nat \<Rightarrow> string \<Rightarrow> nat \<Rightarrow> string \<Rightarrow> nat \<Rightarrow> Heap \<Rightarrow> Heap \<Rightarrow> bool" where
  "moved op old np new j h h' \<longleftrightarrow> kept h h' \<and> relinked h h' \<and> (\<forall>x. live h x \<longrightarrow> lookup h np new \<noteq> Inr x \<longrightarrow> live h' x)
     \<and> (\<forall>d x. lookup h' d x = (if d = np \<and> x = new then Inr j else if d = op \<and> x = old then Inl NotFound else lookup h d x))"

lemma rename_to_moved:
  assumes inv: "fs_inv v h" "live h op" "live h np" and l: "lookup h op old = Inr j" "lookup h np new = Inl NotFound" "\<not> bad_name new"
    and r: "rename_to op old np new h = (r, h')"
  shows "r = Inr () \<and> moved op old np new j h h' \<and> live h' = live h"
proof -
  have h: "heap_ok h" "no_garbage h" using inv(1) by (simp_all add: fs_inv_def)
  show ?thesis
  proof (rule rename_to_cases [OF h(1) inv(2) heap_okD(1) [OF h(1) inv(3)] r])
    fix i assume o: "r = Inr ()" "heap_ok h'" "relinked h h'" "live h' = live h" "lookup h op old = Inr i"
      "\<And>d x. lookup h' d x = (if d = np \<and> x = new then Inr i else if d = op \<and> x = old then Inl NotFound else lookup h d x)"
    have "no_garbage h'" unfolding no_garbage_def
    proof (intro allI impI)
      fix x assume "live h' x"
      then consider "x \<in> set (pins h)" | d n where "live h d" "lookup h d n = Inr x"
        using h(2) o(4) by (auto simp: no_garbage_def)
      then show "x \<in> set (pins h') \<or> (\<exists>d n. live h' d \<and> lookup h' d n = Inr x)"
      proof cases
        case 1
        then show ?thesis using o(3) by (simp add: relinked_def)
      next
        case 2
        show ?thesis
        proof (cases "d = op \<and> n = old")
          case True
          then have "lookup h' np new = Inr x" using 2 o(5,6) by simp
          then show ?thesis using inv(3) o(4) by auto
        next
          case False
          then have "lookup h' d n = Inr x" using 2 l(2) o(6) by auto
          then show ?thesis using 2 o(4) by auto
        qed
      qed
    qed
    then have "kept h h'" using o by (simp add: kept_def relinked_def)
    then show ?thesis using o l(1) by (simp add: moved_def)
  qed (use l in auto)
qed

lemma without_moved:
  assumes "without np new h h1" "moved op old np new j h1 h'"
  shows "moved op old np new j h h'"
  using assms kept_trans [of h h1 h'] relinked_trans [of h h1 h'] by (simp add: without_def moved_def)

text \<open>The three outcomes of \<open>rename\<close>.\<close>

lemma rename_cases:
  assumes inv: "fs_inv v h" and rn: "vfs_rename v oldpath newpath c h = Some (r, h')"
  obtains (err) e where "r = Inl e" "h' = h"
  | (run) opp old npp new op np j where "split_parent oldpath = Inr (opp, old)" "split_parent newpath = Inr (npp, new)"
      "resolve v h opp c = Some (Inr op)" "resolve v h npp c = Some (Inr np)" "lookup h op old = Inr j"
      "\<not> sticky_refuses (metadata h op) (metadata h j) c"
      "lookup h np new = Inl NotFound \<or> (\<exists>d. lookup h np new = Inr d \<and> \<not> sticky_refuses (metadata h np) (metadata h d) c)"
      "if op = np \<and> old = new then r = Inl NotFound \<and> without op old h h' else r = Inr () \<and> moved op old np new j h h'"
proof -
  consider (fail) e where "r = Inl e" "h' = h"
    | (go) opp old npp new op np j r1 h1 where "split_parent oldpath = Inr (opp, old)" "split_parent newpath = Inr (npp, new)"
      "resolve v h opp c = Some (Inr op)" "resolve v h npp c = Some (Inr np)" "lookup h op old = Inr j"
      "\<not> sticky_refuses (metadata h op) (metadata h j) c" "clear_dest j np new c h = Some (r1, h1)"
      "qmh (r1, h1) (\<lambda>_ h. Some (rename_to op old np new h)) = Some (r, h')"
    using rn unfolding vfs_rename_def
    by (auto split: if_splits elim!: permittedE qmE resolvedE bind_SomeE)
  then show thesis
  proof cases
    case go
    have live: "live h op" "live h np" using resolve_live [OF inv] go(3,4) by blast+
    have nb: "\<not> bad_name new" using split_parent_Inr [OF go(2)] by simp
    note run' = run [OF go(1-6)]
    show thesis
    proof (rule clear_dest_cases [OF inv live(2) go(7)])
      assume a: "r1 = Inr ()" "h1 = h" "lookup h np new = Inl NotFound"
      have "rename_to op old np new h = (r, h')" using go(8) a by (simp add: qmh_def)
      from rename_to_moved [OF inv live go(5) a(3) nb this] show thesis using go(5) a(3) by (intro run') auto
    next
      fix l assume l: "r1 = Inr ()" "without np new h h1" "lookup h np new = Inr l" "\<And>n m. lookup h l n \<noteq> Inr m"
        "\<And>x. x \<noteq> l \<Longrightarrow> live h1 x = live h x" "\<not> sticky_refuses (metadata h np) (metadata h l) c"
      have rt: "rename_to op old np new h1 = (r, h')" using go(8) l(1) by (simp add: qmh_def)
      have inv1: "fs_inv v h1" using kept_fs_inv [OF inv] l(2) by (simp add: without_def)
      have look: "lookup h1 d x = (if d = np \<and> x = new then Inl NotFound else lookup h d x)" for d x
        using l(2) by (simp add: without_def)
      have "op \<noteq> l" "np \<noteq> l" using go(5) l(3,4) by auto
      then have live1: "live h1 op" "live h1 np" using live l(5) by auto
      show thesis
      proof (cases "op = np \<and> old = new")
        case True
        then have "lookup h1 op old = Inl NotFound" by (simp add: look)
        then have "r = Inl NotFound" "h' = h1" using rt by (auto simp: rename_to_def lookup_def split: sum.splits option.splits)
        then show thesis using l True by (intro run') auto
      next
        case False
        then have "lookup h1 op old = Inr j" "lookup h1 np new = Inl NotFound" using go(5) by (auto simp: look)
        from rename_to_moved [OF inv1 live1 this nb rt] show thesis
          using l(3,6) False without_moved [OF l(2)] by (intro run') auto
      qed
    qed (use go(8) err in \<open>auto simp: qmh_def\<close>)
  qed (rule err)
qed

subsection \<open>New inodes\<close>

lemma add_inode_kept:
  assumes inv: "fs_inv v h" "live h p" and r: "add_inode p name m n h = (r, h')"
    and n: "m_kind m = node_kind n" "\<And>cs. n = TDir cs \<Longrightarrow> cs = []"
  obtains (err) e where "r = Inl e" "h' = h"
  | (new) j where "r = Inr j" "kept h h'" "grown h h'" "lookup h p name = Inl NotFound" "lookup h' p name = Inr j" "live h' j"
      "metadata h' j = m" "\<And>d. d < next_ino h \<Longrightarrow> file_bytes h' d = file_bytes h d"
proof -
  have h: "heap_ok h" "no_garbage h" using inv(1) by (simp_all add: fs_inv_def)
  note p = heap_okD(1) [OF h(1) inv(2)]
  show thesis
  proof (rule add_inode_cases [OF h(1) p r n])
    assume a: "r = Inr (next_ino h)" "heap_ok h'" "grown h h'" "next_ino h' = Suc (next_ino h)"
      "node h' (next_ino h) = \<lparr>ti_parent = Some p, ti_meta = m, ti_node = n\<rparr>" "pins h' = pins h" "live h' (next_ino h)"
      "lookup h p name = Inl NotFound"
      "\<And>d x. lookup h' d x = (if d = next_ino h then (if node_kind n = KDir then Inl NotFound else Inl Invalid)
          else if (d, x) = (p, name) then Inr (next_ino h) else lookup h d x)"
      "\<And>d. d \<noteq> next_ino h \<Longrightarrow> file_bytes h' d = file_bytes h d"
    have l: "lookup h' p name = Inr (next_ino h)" using p a(9) by simp
    then have "no_garbage h'" by (rule grown_no_garbage [OF a(3) h(1) a(2) h(2) a(4,6) inv(2)])
    then show thesis using a(2,5,6,10) by (intro new [OF a(1) _ a(3,8) l a(7)]) (simp_all add: kept_def metadata_def)
  qed (use err in auto)
qed

lemma create_dir:
  "create p name KDir m h = add_inode p name m (TDir []) h"
  by (simp add: create_def)

text \<open>One round of the loop of \<open>mkdir_all\<close> on a component that is a name.\<close>

lemma mkdir_round:
  assumes inv: "fs_inv v h" "live h cur" and n: "name \<noteq> []" "name \<noteq> ''.''" "name \<noteq> ''..''"
    and m: "mkdir_loop v c md cur cp (name # names) h = Some (r, h')"
  obtains (fail) e where "r = Inl e" "h' = h"
  | (go) nx h1 where "kind_of h cur = KDir" "can_exec_dir (metadata h cur) c = Some True"
      "kept h h1" "grown h h1" "live h1 nx"
      "case check_mount_point v (cp @ ''/'' @ name) of Some m \<Rightarrow> nx = m | None \<Rightarrow> lookup h1 cur name = Inr nx"
      "mkdir_loop v c md nx (cp @ ''/'' @ name) names h1 = Some (r, h')"
proof (cases "kind_of h cur = KDir")
  case False
  then show thesis using m n fail by auto
next
  case dir: True
  let ?cp = "cp @ ''/'' @ name"
  have h: "heap_ok h" using inv(1) by (simp add: fs_inv_def)
  from m n dir have "permitted (can_exec_dir (metadata h cur) c) h
      (case check_mount_point v ?cp of
         Some mounted \<Rightarrow> mkdir_loop v c md mounted ?cp names h
       | None \<Rightarrow> (case lookup h cur name of
           Inr nx \<Rightarrow> mkdir_loop v c md nx ?cp names h
         | Inl NotFound \<Rightarrow> permitted (can_write_dir (metadata h cur) c) h
             (case create cur name KDir (simple (uid c) (gid c) md KDir) h of
               (Inl e, h) \<Rightarrow> Some (Inl e, h) | (Inr nx, h) \<Rightarrow> mkdir_loop v c md nx ?cp names h)
         | Inl e \<Rightarrow> Some (Inl e, h))) = Some (r, h')" by simp
  then show thesis
  proof (cases rule: permittedE)
    case err
    then show thesis using fail by simp
  next
    case ok
    note go' = go [OF dir ok(1)]
    consider (mounted) i where "check_mount_point v ?cp = Some i" | (there) i where "check_mount_point v ?cp = None" "lookup h cur name = Inr i"
      | (missing) "check_mount_point v ?cp = None" "lookup h cur name = Inl NotFound"
      | (nodir) "check_mount_point v ?cp = None" "lookup h cur name = Inl Invalid"
      using lookup_Inl [of h cur name] by (cases "check_mount_point v ?cp"; cases "lookup h cur name") auto
    then show thesis
    proof cases
      case mounted
      then show thesis using ok(2) fs_inv_live(2) [OF inv(1) mounted] kept_refl [OF inv(1)] by (intro go' [of h i]) simp_all
    next
      case there
      then show thesis using ok(2) heap_ok_lookup [OF h inv(2) there(2)] kept_refl [OF inv(1)] by (intro go' [of h i]) simp_all
    next
      case missing
      from ok(2) missing have "permitted (can_write_dir (metadata h cur) c) h
          (case create cur name KDir (simple (uid c) (gid c) md KDir) h of
             (Inl e, h) \<Rightarrow> Some (Inl e, h) | (Inr nx, h) \<Rightarrow> mkdir_loop v c md nx ?cp names h) = Some (r, h')" by simp
      then show thesis
      proof (cases rule: permittedE)
        case ok
        obtain r1 h1 where a: "add_inode cur name (simple (uid c) (gid c) md KDir) (TDir []) h = (r1, h1)" by fastforce
        show thesis
        proof (rule add_inode_kept [OF inv a])
          fix j assume "r1 = Inr j" "kept h h1" "grown h h1" "lookup h1 cur name = Inr j" "live h1 j"
          then show thesis using go' [of h1 j] missing(1) ok(2) a by (simp add: create_dir)
        qed (use a ok(2) fail in \<open>auto simp: create_dir\<close>)
      qed (use fail in simp)
    next
      case nodir
      then show thesis using ok(2) fail [of Invalid] by simp
    qed
  qed
qed

lemma mkdir_loop_ok:
  assumes "fs_inv v h" and "live h cur" and "mkdir_loop v c md cur cp names h = Some (r, h')"
  shows "kept h h' \<and> grown h h' \<and> (r = Inr () \<longrightarrow> ''..'' \<notin> set names \<longrightarrow>
     (\<exists>i. walk v h' c cur cp names = Some (Inr i)) \<and> mkdir_loop v c md' cur cp names h' = Some (Inr (), h'))"
  using assms
proof (induction names arbitrary: cur cp h)
  case Nil
  then show ?case using kept_refl by auto
next
  case (Cons name names)
  note inv = Cons.prems(1) and live = Cons.prems(2) and m = Cons.prems(3)
  let ?cp = "cp @ ''/'' @ name"
  consider (skip) "name = [] \<or> name = ''.''" | (up) "name = ''..''" | (dir) "name \<noteq> []" "name \<noteq> ''.''" "name \<noteq> ''..''" by blast
  then show ?case
  proof cases
    case skip
    then show ?thesis using Cons.IH [OF inv live] m by (auto simp: walk_step_def)
  next
    case up
    have "live h (case parent h cur of None \<Rightarrow> cur | Some p \<Rightarrow> p)" using live parent_live by (auto split: option.splits)
    then show ?thesis using Cons.IH [OF inv] m up by auto
  next
    case dir
    show ?thesis
    proof (rule mkdir_round [OF inv live dir m])
      fix e assume "r = Inl e" "h' = h"
      then show ?thesis using kept_refl [OF inv] by simp
    next
      fix nx h1 assume go: "kind_of h cur = KDir" "can_exec_dir (metadata h cur) c = Some True"
        "kept h h1" "grown h h1" "live h1 nx"
        "case check_mount_point v ?cp of Some m \<Rightarrow> nx = m | None \<Rightarrow> lookup h1 cur name = Inr nx"
        "mkdir_loop v c md nx ?cp names h1 = Some (r, h')"
      have inv1: "fs_inv v h1" by (rule kept_fs_inv [OF inv go(3)])
      note ih = Cons.IH [OF inv1 go(5,7)]
      have g: "kept h h'" "grown h h'" using ih kept_trans [OF go(3)] grown_trans [OF go(4)] by auto
      have cur: "cur < next_ino h" using inv live heap_okD(1) by (auto simp: fs_inv_def)
      have cur': "metadata h' cur = metadata h cur" "kind_of h' cur = KDir"
        "case check_mount_point v ?cp of Some m \<Rightarrow> nx = m | None \<Rightarrow> lookup h' cur name = Inr nx"
        using g(2) go(1,4,6) ih cur by (auto simp: grown_def kind_of_def split: option.splits)
      have "walk v h' c cur cp (name # names) = walk v h' c nx ?cp names"
        using dir cur' go(2) by (auto simp: walk_step_def split: option.splits)
      moreover have "mkdir_loop v c md' cur cp (name # names) h' = mkdir_loop v c md' nx ?cp names h'"
        using dir cur' go(2) by (auto simp: permitted_def split: option.splits)
      ultimately show ?thesis using g ih by simp
    qed
  qed
qed

subsection \<open>Sequences of operations\<close>

datatype VfsOp = MkdirAll string mode | WriteFile string mode "u8 list" | ReadFile string | ListDir string | Unlink string
  | Rmdir string | Rename string string | Chmod string mode | Chown string uid gid | Symlink string string
  | Readlink string | Mkfifo string mode

text \<open>What an operation leaves of the heap.\<close>

fun vfs_op :: "VfsOp \<Rightarrow> Vfs \<Rightarrow> Cred \<Rightarrow> Heap \<Rightarrow> Heap option" where
  "vfs_op (MkdirAll path md) v c h = map_option snd (mkdir_all v path c md h)"
| "vfs_op (WriteFile path md x) v c h = map_option snd (write_file v path c md x h)"
| "vfs_op (ReadFile path) v c h = map_option snd (read_file v path c h)"
| "vfs_op (ListDir path) v c h = map_option snd (list_dir v path c h)"
| "vfs_op (Unlink path) v c h = map_option snd (vfs_unlink v path c h)"
| "vfs_op (Rmdir path) v c h = map_option snd (vfs_rmdir v path c h)"
| "vfs_op (Rename a b) v c h = map_option snd (vfs_rename v a b c h)"
| "vfs_op (Chmod path md) v c h = map_option snd (chmod v path md c h)"
| "vfs_op (Chown path u g) v c h = map_option snd (chown v path u g c h)"
| "vfs_op (Symlink path target) v c h = map_option snd (vfs_symlink v path target c h)"
| "vfs_op (Readlink path) v c h = map_option snd (vfs_readlink v path c h)"
| "vfs_op (Mkfifo path md) v c h = map_option snd (vfs_mkfifo v path md c h)"

text \<open>Operations that only look change nothing.\<close>

lemma read_at_kept:
  assumes "heap_ok h" and "i < next_ino h" and "kind_of h i = KFile"
  shows "\<exists>r buf. read_at i off out h = Some (r, buf, h)"
  using assms heap_ok_kind [OF assms(1,2)] by (cases "ti_node (node h i)") (auto simp: read_at_def as_fifo_def as_file_def Let_def)

lemma read_file_heap:
  assumes inv: "fs_inv v h" and r: "read_file v path c h = Some (r, h')"
  shows "h' = h"
  using r unfolding read_file_def
proof (cases rule: resolvedE)
  case (ok i)
  note i = resolve_ino [OF inv ok(1)]
  show ?thesis
  proof (cases "kind_of h i = KFile")
    case True
    have rd: "\<exists>r buf. read_at i 0 out h = Some (r, buf, h)" for out using read_at_kept True i by blast
    have "qm r1 h (\<lambda>_. Some (Inr buf, h)) = Some (r, h') \<Longrightarrow> h' = h" for r1 :: "nat KResult" and buf
      by (auto elim: qmE)
    then have "Option.bind (read_at i 0 out h) (\<lambda>(r, buf, h). qm r h (\<lambda>_. Some (Inr buf, h))) = Some (r, h') \<Longrightarrow> h' = h" for out
      using rd [of out] by auto
    then show ?thesis using ok(2) True by (auto elim!: permittedE qmE)
  qed (use ok(2) in auto)
qed

lemma look_only:
  "list_dir v path c h = Some (r, h') \<Longrightarrow> h' = h" "vfs_readlink v path c h = Some (r2, h') \<Longrightarrow> h' = h"
  by (auto simp: list_dir_def vfs_readlink_def elim!: resolvedE permittedE qmE bind_SomeE split: if_splits)

text \<open>New metadata of the same kind.\<close>

lemma set_metadata_kept:
  assumes "fs_inv v h" and "m_kind m = kind_of h i"
  shows "kept h (set_metadata i m h)" "lookup (set_metadata i m h) = lookup h"
proof -
  show l: "lookup (set_metadata i m h) = lookup h" by (simp add: lookup_def as_dir_def fun_eq_iff)
  then have "no_garbage (set_metadata i m h)" using assms(1) by (simp add: fs_inv_def no_garbage_def)
  then show "kept h (set_metadata i m h)" using heap_ok_set_metadata assms by (simp add: kept_def fs_inv_def)
qed

lemma change_cases:
  assumes "fs_inv v h" and "chmod v path md c h = Some (r, h') \<or> chown v path u g c h = Some (r, h')"
  shows "kept h h' \<and> lookup h' = lookup h"
proof -
  consider "h' = h" | i m where "h' = set_metadata i m h" "m_kind m = m_kind (metadata h i)"
    using assms(2) by (fastforce simp: chmod_def chown_def elim!: resolvedE split: if_splits)
  then show ?thesis using set_metadata_kept [OF assms(1)] kept_refl [OF assms(1)] by cases (auto simp: kind_of_def)
qed

lemma special_cases:
  assumes inv: "fs_inv v h" and "vfs_symlink v path target c h = Some (r, h') \<or> vfs_mkfifo v path md c h = Some (r, h')"
  shows "kept h h' \<and> grown h h'"
proof -
  consider (same) "h' = h" | (new) p name m n where "live h p" "add_inode p name m n h = (r, h')" "m_kind m = node_kind n" "node_kind n \<noteq> KDir"
    using assms(2) unfolding vfs_symlink_def vfs_mkfifo_def symlink_def mkfifo_def
    by (elim disjE parentE permittedE) (auto dest: resolve_live [OF inv])
  then show ?thesis
  proof cases
    case same
    then show ?thesis using kept_refl [OF inv] by simp
  next
    case new
    then show ?thesis by (elim add_inode_kept [OF inv]) (auto intro: kept_refl [OF inv])
  qed
qed

lemma map_snd_SomeE:
  assumes "map_option snd x = Some h'"
  obtains r where "x = Some (r, h')"
  using assms by (cases x) auto

lemma vfs_op_kept:
  assumes inv: "fs_inv v h" and o: "vfs_op p v c h = Some h'"
  shows "kept h h'"
proof (cases p)
  case (MkdirAll path md)
  then show ?thesis using o mkdir_loop_ok [OF inv fs_inv_live(1) [OF inv]]
    by (auto simp: mkdir_all_def elim!: map_snd_SomeE)
next
  case (WriteFile path md x)
  then show ?thesis using o by (auto elim!: map_snd_SomeE elim: write_file_cases [OF inv])
next
  case (ReadFile path)
  then show ?thesis using o read_file_heap [OF inv] kept_refl [OF inv] by (auto elim!: map_snd_SomeE)
next
  case (Unlink path)
  then show ?thesis using o kept_refl [OF inv] by (auto simp: without_def elim!: map_snd_SomeE elim: unlink_cases [OF inv])
next
  case (Rmdir path)
  then show ?thesis using o kept_refl [OF inv] by (auto simp: without_def elim!: map_snd_SomeE elim: rmdir_cases [OF inv])
next
  case (Rename a b)
  then obtain r where "vfs_rename v a b c h = Some (r, h')" using o by (auto elim: map_snd_SomeE)
  then show ?thesis
    by (rule rename_cases [OF inv]) (auto simp: without_def moved_def kept_refl [OF inv] split: if_splits)
qed (use o kept_refl [OF inv] look_only change_cases [OF inv] special_cases [OF inv] in \<open>auto elim!: map_snd_SomeE; metis\<close>)+

text \<open>The states that the file system reaches: from a fresh root, by operations of any user, by mounting fresh memory file
  systems, and by switching the root to an inode that some user has found.\<close>

definition empty_heap :: Heap where
  "empty_heap = \<lparr>node = (\<lambda>_. \<lparr>ti_parent = None, ti_meta = simple 0 0 0 KFile, ti_node = TFile []\<rparr>), live = (\<lambda>_. False),
     next_ino = 0, pins = []\<rparr>"

inductive fs_reach :: "Vfs \<Rightarrow> Heap \<Rightarrow> bool" where
  boot: "new_root empty_heap = (r, h) \<Longrightarrow> fs_reach (vfs_new r) h"
| op: "fs_reach v h \<Longrightarrow> vfs_op p v c h = Some h' \<Longrightarrow> fs_reach v h'"
| mount: "fs_reach v h \<Longrightarrow> new_root h = (i, h1) \<Longrightarrow> mount path i v h1 = (v', h2) \<Longrightarrow> fs_reach v' h2"
| switch: "fs_reach v h \<Longrightarrow> resolve v h path c = Some (Inr i) \<Longrightarrow>
    set_root i v (h\<lparr>pins := i # pins h\<rparr>) = (v', h') \<Longrightarrow> fs_reach v' h'"

lemma mset_fold_remove1: "mset (fold remove1 is ps) = mset ps - mset is"
  by (induction "is" arbitrary: ps) (simp_all add: diff_diff_add)

lemma mset_ch_insert:
  "sorted_wrt (<) (map fst ms) \<Longrightarrow> mset (map snd (ch_insert k i ms)) =
     add_mset i (mset (map snd ms) - (case map_of ms k of None \<Rightarrow> {#} | Some old \<Rightarrow> {#old#}))"
proof (induction k i ms rule: ch_insert.induct)
  case (2 k v k' v' xs)
  have "map_of xs k = None" if "k < k'" using that 2(2) by (force simp: map_of_eq_None_iff)
  moreover have "add_mset v' (image_mset snd (mset xs) - {#old#}) = add_mset v' (image_mset snd (mset xs)) - {#old#}"
    if "map_of xs k = Some old" for old
  proof -
    have "old \<in># image_mset snd (mset xs)" using map_of_SomeD [OF that] by force
    then show ?thesis using diff_union_single_conv [of old "image_mset snd (mset xs)" "{#v'#}"] by simp
  qed
  ultimately show ?case using 2 by (auto split: option.splits)
qed simp

definition held :: "Vfs \<Rightarrow> nat multiset" where
  "held v = mset (vfs_root v # map snd (mount_points v))"

lemma fs_inv_held: "fs_inv v h \<longleftrightarrow> heap_ok h \<and> no_garbage h \<and> held v \<subseteq># mset (pins h) \<and> sorted_wrt (<) (map fst (mount_points v))"
  by (simp add: fs_inv_def held_def)

lemma drop_refs_inv:
  assumes "heap_ok h" and "held v + mset is \<subseteq># mset (pins h)" and "sorted_wrt (<) (map fst (mount_points v))"
  shows "fs_inv v (drop_refs is h)"
proof -
  let ?g = "h\<lparr>pins := fold remove1 is (pins h)\<rparr>"
  have m: "mset (pins ?g) = mset (pins h) - mset is" by (simp add: mset_fold_remove1)
  then have "set (pins ?g) \<subseteq> set (pins h)" by (metis in_diffD set_mset_mset subsetI)
  then have g: "heap_ok ?g" using assms(1) heap_okD(2) [OF assms(1)] by (intro heap_ok_pins) auto
  have "held v \<subseteq># mset (pins ?g)" unfolding m using assms(2) by (simp add: subseteq_mset_def add_le_imp_le_diff)
  then show ?thesis
    using heap_ok_collect [OF g] collect_no_garbage [OF g] assms(3) by (simp add: fs_inv_held drop_refs_def)
qed

lemma new_root_inv:
  assumes h: "heap_ok h" "no_garbage h" and n: "new_root h = (i, h1)"
  shows "heap_ok h1" "no_garbage h1" "pins h1 = i # pins h"
proof -
  obtain g where g: "alloc_inode None (simple 0 0 (from_octal 0x1ED) KDir) (TDir []) h = (i, g)" "h1 = g\<lparr>pins := i # pins g\<rparr>"
    using n by (auto simp: new_root_def split: prod.splits)
  note a = alloc_inode_simps [OF g(1)]
  show "heap_ok h1" using heap_ok_new_root [OF h(1) n] by blast
  show p: "pins h1 = i # pins h" using g(2) a(4) by simp
  have l: "lookup h1 d x = lookup h d x" if "d < next_ino h" for d x
    using that g(2) by (simp add: a(5) lookup_def as_dir_def)
  have "x = i \<or> live h x" if "live h1 x" for x using that g(2) a(1,3) by (auto split: if_splits)
  moreover have "live h1 d" if "live h d" for d using that g(2) a(3) by simp
  ultimately show "no_garbage h1"
    using h(2) heap_okD(1) [OF h(1)] l unfolding no_garbage_def p by (metis list.set_intros)
qed

lemma mount_inv:
  assumes inv: "fs_inv v h" and n: "new_root h = (i, h1)" and m: "mount path i v h1 = (v', h2)"
  shows "fs_inv v' h2"
proof -
  let ?k = "trim_end path" and ?ms = "mount_points v"
  have h: "heap_ok h" "no_garbage h" "held v \<subseteq># mset (pins h)" "sorted_wrt (<) (map fst ?ms)" using inv by (auto simp: fs_inv_held)
  note h1 = new_root_inv [OF h(1,2) n]
  have v': "vfs_root v' = vfs_root v" "mount_points v' = ch_insert ?k i ?ms" using m by (auto simp: mount_def Let_def)
  then have sorted: "sorted_wrt (<) (map fst (mount_points v'))" using sorted_ch_insert [OF h(4)] by simp
  show ?thesis
  proof (cases "map_of ?ms ?k")
    case None
    then have "held v' = add_mset i (held v)" using mset_ch_insert [OF h(4), of ?k i] by (simp add: held_def v')
    then show ?thesis using None m h h1 sorted by (auto simp: fs_inv_held mount_def Let_def)
  next
    case (Some old)
    then have "old \<in># mset (map snd ?ms)" by (force dest: map_of_SomeD)
    then have "held v' + {#old#} = add_mset i (held v)"
      using mset_ch_insert [OF h(4), of ?k i] Some by (simp add: held_def v')
    then have "held v' + mset [old] \<subseteq># mset (pins h1)" using h(3) h1(3) by simp
    from drop_refs_inv [OF h1(1) this sorted] show ?thesis using m Some by (auto simp: mount_def Let_def)
  qed
qed

lemma set_root_inv:
  assumes inv: "fs_inv v h" and i: "live h i" and r: "set_root i v (h\<lparr>pins := i # pins h\<rparr>) = (v', h')"
  shows "fs_inv v' h'"
proof -
  let ?g = "h\<lparr>pins := i # pins h\<rparr>"
  have "heap_ok ?g" using inv i heap_okD(2) by (intro heap_ok_pins) (auto simp: fs_inv_def)
  moreover have "held v' + mset (vfs_root v # map snd (mount_points v)) \<subseteq># mset (pins ?g)"
    using inv r by (auto simp: fs_inv_held set_root_def held_def)
  ultimately have "fs_inv v' (drop_refs (vfs_root v # map snd (mount_points v)) ?g)"
    using r by (intro drop_refs_inv) (auto simp: set_root_def)
  then show ?thesis using r by (simp add: set_root_def)
qed

lemma heap_ok_empty: "heap_ok empty_heap" "no_garbage empty_heap"
  by (simp_all add: heap_ok_def no_garbage_def empty_heap_def)

lemma fs_reach_inv: "fs_reach v h \<Longrightarrow> fs_inv v h"
proof (induction rule: fs_reach.induct)
  case (boot r h)
  then show ?case using new_root_inv [OF heap_ok_empty boot] by (simp add: fs_inv_def vfs_new_def)
next
  case (op v h p c h')
  then show ?case using kept_fs_inv vfs_op_kept by blast
next
  case (mount v h i h1 path v' h2)
  then show ?case using mount_inv by blast
next
  case (switch v h path c i v' h')
  then show ?case using set_root_inv resolve_live by blast
qed

subsection \<open>No operation panics\<close>

definition returns :: "'a option \<Rightarrow> bool" where
  "returns x \<longleftrightarrow> x \<noteq> None"

named_theorems total \<open>rules that a computation returns\<close>

lemma returns_Some [total, simp]: "returns (Some x)"
  by (simp add: returns_def)

lemma returns_map: "returns (map_option f x) = returns x"
  by (simp add: returns_def)

lemma returns_bind [total]: "returns p \<Longrightarrow> (\<And>x. p = Some x \<Longrightarrow> returns (k x)) \<Longrightarrow> returns (Option.bind p k)"
  by (auto simp: returns_def)

lemma returns_if [total]: "(b \<Longrightarrow> returns x) \<Longrightarrow> (\<not> b \<Longrightarrow> returns y) \<Longrightarrow> returns (if b then x else y)"
  by simp

lemma returns_sum [total]:
  "(\<And>e. x = Inl e \<Longrightarrow> returns (f e)) \<Longrightarrow> (\<And>a. x = Inr a \<Longrightarrow> returns (g a)) \<Longrightarrow> returns (case x of Inl e \<Rightarrow> f e | Inr a \<Rightarrow> g a)"
  by (cases x) auto

lemma returns_option [total]:
  "(x = None \<Longrightarrow> returns f) \<Longrightarrow> (\<And>a. x = Some a \<Longrightarrow> returns (g a)) \<Longrightarrow> returns (case x of None \<Rightarrow> f | Some a \<Rightarrow> g a)"
  by (cases x) auto

lemma returns_prod [total]: "(\<And>a b. x = (a, b) \<Longrightarrow> returns (f a b)) \<Longrightarrow> returns (case x of (a, b) \<Rightarrow> f a b)"
  by (cases x) auto

lemma returns_error [total]:
  "returns x \<Longrightarrow> (\<And>e. returns (y e)) \<Longrightarrow> returns (case e of NotFound \<Rightarrow> x | AlreadyExists \<Rightarrow> y AlreadyExists | Invalid \<Rightarrow> y Invalid
     | PermissionDenied \<Rightarrow> y PermissionDenied | NoMemory \<Rightarrow> y NoMemory | Busy \<Rightarrow> y Busy | NotSupported \<Rightarrow> y NotSupported
     | IO \<Rightarrow> y IO | WouldBlock \<Rightarrow> y WouldBlock | OutOfRange \<Rightarrow> y OutOfRange | Timeout \<Rightarrow> y Timeout | NoChild \<Rightarrow> y NoChild
     | NotEmpty \<Rightarrow> y NotEmpty | BrokenPipe \<Rightarrow> y BrokenPipe | NotADirectory \<Rightarrow> y NotADirectory | IsADirectory \<Rightarrow> y IsADirectory)"
  by (cases e) auto

lemma returns_permitted [total]: "returns p \<Longrightarrow> returns k \<Longrightarrow> returns (permitted p h k)"
  unfolding permitted_def by (intro total)

lemma returns_qm [total]: "(\<And>x. r = Inr x \<Longrightarrow> returns (k x)) \<Longrightarrow> returns (qm r h k)"
  unfolding qm_def by (intro total)

lemma returns_qmh [total]: "(\<And>x h. rh = (Inr x, h) \<Longrightarrow> returns (k x h)) \<Longrightarrow> returns (qmh rh k)"
  unfolding qmh_def by (auto intro!: total)

lemma returns_allow:
  assumes "cred_ok c"
  shows "returns (can_read_dir m c)" "returns (can_write_dir m c)" "returns (can_exec_dir m c)" "returns (can_read_file m c)"
    "returns (can_write_file m c)" "returns (can_write_any m c)" "returns (can_exec_any m c)"
proof -
  have "returns (allow m c r w x)" for r w x using allow_total [OF assms, of m r w x] by (auto simp: returns_def)
  then show "returns (can_read_dir m c)" "returns (can_write_dir m c)" "returns (can_exec_dir m c)" "returns (can_read_file m c)"
    "returns (can_write_file m c)" "returns (can_write_any m c)" "returns (can_exec_any m c)"
    by (simp_all add: can_read_dir_def can_write_dir_def can_exec_dir_def can_read_file_def can_write_file_def
      can_write_any_def can_exec_any_def)
qed

lemma returns_walk: "cred_ok c \<Longrightarrow> returns (walk v h c cur cp names)"
proof (induction names arbitrary: cur cp)
  case (Cons name names)
  have "returns (walk_step v h c cur cp name)" unfolding walk_step_def by (intro total returns_allow Cons.prems)
  then show ?case unfolding walk.simps by (intro total Cons.IH Cons.prems)
qed simp

lemma returns_resolve: "cred_ok c \<Longrightarrow> returns (resolve v h path c)"
  unfolding resolve_def by (intro total returns_walk)

lemma returns_resolved:
  "cred_ok c \<Longrightarrow> (\<And>i. resolve v h path c = Some (Inr i) \<Longrightarrow> returns (k i)) \<Longrightarrow> returns (resolved v path c h k)"
  unfolding resolved_def by (intro total returns_resolve) simp_all

lemma returns_walk_nofollow: "cred_ok c \<Longrightarrow> returns (walk_nofollow v h c cur names)"
proof (induction names arbitrary: cur)
  case (Cons name names)
  show ?case unfolding walk_nofollow.simps
    by (intro total returns_allow returns_resolve Cons.IH Cons.prems)
qed simp

lemma returns_nofollow_mounts: "cred_ok c \<Longrightarrow> returns (nofollow_mounts v h path c ms)"
proof (induction ms)
  case (Cons m ms)
  show ?case by (cases m) (auto simp: resolve_relative_nofollow_def intro: returns_walk_nofollow Cons)
qed (simp add: resolve_relative_nofollow_def returns_walk_nofollow)

lemma returns_overwrite: "cred_ok c \<Longrightarrow> returns (overwrite i c x h)"
  unfolding overwrite_def
proof (intro total)
  fix u h1 assume "truncate_file i 0 h = (Inr u, h1)"
  then have "ti_node (node h1 i) = TFile []"
    by (auto simp: truncate_file_def as_file_def resize_def node_set_node split: TmpfsNode.splits)
  then show "returns (write_at i 0 x h1)"
    by (simp add: write_at_def as_fifo_def as_file_def Let_def split: option.split)
qed (rule returns_allow)

lemma returns_mkdir_loop: "cred_ok c \<Longrightarrow> returns (mkdir_loop v c md cur cp names h)"
proof (induction names arbitrary: cur cp h)
  case (Cons name names)
  show ?case unfolding mkdir_loop.simps by (intro total returns_allow Cons.IH Cons.prems)
qed simp

lemma returns_read_file:
  assumes inv: "fs_inv v h" and c: "cred_ok c"
  shows "returns (read_file v path c h)"
  unfolding read_file_def
proof (intro total returns_resolved returns_allow c)
  fix i n assume "resolve v h path c = Some (Inr i)" "\<not> kind_of h i \<noteq> KFile"
  then show "returns (read_at i 0 (replicate n 0) h)"
    using read_at_kept [of h i 0 "replicate n 0"] resolve_ino [OF inv] by (auto simp: returns_def)
qed

lemma returns_vfs_op:
  assumes inv: "fs_inv v h" and c: "cred_ok c"
  shows "returns (vfs_op p v c h)"
proof -
  note r = total returns_resolved [OF c] returns_allow [OF c] returns_overwrite [OF c]
  have "returns (mkdir_all v path c md h)" for path md unfolding mkdir_all_def by (rule returns_mkdir_loop [OF c])
  moreover have "returns (write_file v path c md x h)" for path md x unfolding write_file_def by (intro r)
  moreover have "returns (list_dir v path c h)" "returns (vfs_unlink v path c h)" "returns (vfs_rmdir v path c h)" for path
    unfolding list_dir_def vfs_unlink_def vfs_rmdir_def by (intro r)+
  moreover have "returns (vfs_rename v a b c h)" for a b unfolding vfs_rename_def clear_dest_def by (intro r)
  moreover have "returns (chmod v path md c h)" "returns (chown v path u g c h)" for path md u g
    unfolding chmod_def chown_def by (intro r)+
  moreover have "returns (vfs_symlink v path t c h)" "returns (vfs_mkfifo v path md c h)" for path t md
    unfolding vfs_symlink_def vfs_mkfifo_def by (intro r)+
  moreover have "returns (vfs_readlink v path c h)" for path
    unfolding vfs_readlink_def resolve_nofollow_def Let_def by (intro r returns_nofollow_mounts [OF c])
  ultimately show ?thesis using returns_read_file [OF inv c] by (cases p) (simp_all add: returns_map)
qed

subsection \<open>Properties\<close>

text \<open>C13. In every state that the file system reaches, from a fresh root by any operations of any users, by mounts and by
  switches of the root: a path resolves only to living inodes; a living directory has its names distinct, in order and
  proper, and all its entries alive; every living inode is referred to; the kind in the metadata is the kind of the node;
  and every operation of well-formed credentials returns.\<close>

theorem file_system_sound:
  assumes "fs_reach v h"
  shows "(\<forall>path c i. resolve v h path c = Some (Inr i) \<longrightarrow> live h i)
    \<and> (\<forall>i cs. live h i \<longrightarrow> ti_node (node h i) = TDir cs \<longrightarrow> sorted_wrt (<) (map fst cs)
         \<and> (\<forall>(n, j) \<in> set cs. n \<noteq> [] \<and> CHR ''/'' \<notin> set n \<and> live h j))
    \<and> (\<forall>i. live h i \<longrightarrow> referenced h i \<and> kind_of h i = node_kind (ti_node (node h i)))
    \<and> (\<forall>p c. cred_ok c \<longrightarrow> vfs_op p v c h \<noteq> None)"
proof -
  note inv = fs_reach_inv [OF assms]
  then have h: "heap_ok h" "no_garbage h" by (simp_all add: fs_inv_def)
  have dir: "sorted_wrt (<) (map fst cs) \<and> (\<forall>(n, j) \<in> set cs. n \<noteq> [] \<and> CHR ''/'' \<notin> set n \<and> live h j)"
    if "live h i" "ti_node (node h i) = TDir cs" for i cs
    using heap_ok_names [OF h(1) heap_okD(1) [OF h(1) that(1)] that(2)] entries_live [OF h(1) that]
    by (force simp: names_ok_def bad_name_def)
  have "referenced h i \<and> kind_of h i = node_kind (ti_node (node h i))" if "live h i" for i
    using that h heap_ok_kind [OF h(1) heap_okD(1) [OF h(1) that]] by (simp add: no_garbage_def referenced_lookup)
  then show ?thesis
    using resolve_live [OF inv] dir returns_vfs_op [OF inv, unfolded returns_def] by blast
qed

text \<open>C14. What \<open>write_file\<close> writes, \<open>read_file\<close> reads: after a successful write the path resolves to a file with exactly
  those bytes, a user who may read it reads them, no other file has changed, and every path that resolved before still
  resolves to the same inode.  The parent must not be a mount point, no mount point may have the name of the file, and
  the name must not be one of the two dots.\<close>

theorem write_file_read_file:
  assumes "fs_reach v h" and "write_file v path c md x h = Some (Inr (), h')" and "split_parent path = Inr (pp, name)"
    and "name \<notin> {''.'', ''..''}" and "check_mount_point v pp = None" and "not_mounted v name"
  shows "\<exists>j. resolve v h' path c = Some (Inr j) \<and> as_file h' j = Inr x
    \<and> (can_read_file (metadata h' j) c = Some True \<longrightarrow> read_file v path c h' = Some (Inr x, h'))
    \<and> (\<forall>i < next_ino h. i \<noteq> j \<longrightarrow> file_bytes h' i = file_bytes h i)
    \<and> (\<forall>q u i. resolve v h q u = Some (Inr i) \<longrightarrow> resolve v h' q u = Some (Inr i))"
proof -
  note inv = fs_reach_inv [OF assms(1)]
  show ?thesis
  proof (rule write_file_cases [OF inv assms(2)])
    fix pp' name' p j assume w: "kept h h'" "grown h h'" "split_parent path = Inr (pp', name')"
      "resolve v h pp' c = Some (Inr p)" "kind_of h p = KDir" "can_exec_dir (metadata h p) c = Some True"
      "lookup h' p name' = Inr j" "live h' j" "file_bytes h' j = Some x"
      "\<And>d. d < next_ino h \<Longrightarrow> d \<noteq> j \<Longrightarrow> file_bytes h' d = file_bytes h d"
    have n: "pp' = pp" "name' = name" using w(3) assms(3) by simp_all
    have p: "p < next_ino h" using resolve_ino [OF inv w(4)] by blast
    then have md: "metadata h' p = metadata h p" using w(2) by (simp add: grown_def)
    have r: "resolve v h' path c = Some (Inr j)"
      using resolve_entry [OF assms(3) _ _ assms(5,6) resolve_grown [OF w(2) inv w(4) [unfolded n]]] assms(4) w(5-7) md n
      by (simp add: kind_of_def)
    have "heap_ok h'" using w(1) by (simp add: kept_def)
    then have "kind_of h' j = KFile"
      using heap_ok_kind [OF _ heap_okD(1) [OF _ w(8)]] w(9) by (simp add: file_bytes_Some)
    moreover note tmpfs.sz [OF w(9)] tmpfs.read_all [OF w(9)]
    ultimately have "read_file v path c h' = Some (Inr x, h')" if "can_read_file (metadata h' j) c = Some True"
      using that r by (simp add: read_file_def resolved_def qm_def permitted_def)
    then show ?thesis
      using r w(9,10) resolve_grown [OF w(2) inv] by (intro exI [of _ j]) (simp add: file_bytes_as_file)
  qed simp
qed

text \<open>C25. \<open>rename\<close> has three outcomes.  An error leaves everything as it was.  Otherwise the entry has moved: the new name
  refers to the old inode, the old name is gone and no other entry, no metadata and no contents have changed.  Only when
  both paths name the same entry is the entry removed and \<open>NotFound\<close> returned.\<close>

theorem rename_outcomes:
  assumes "fs_reach v h" and "vfs_rename v oldpath newpath c h = Some (r, h')"
  shows "(\<exists>e. r = Inl e \<and> h' = h)
    \<or> (\<exists>opp old npp new op np j. split_parent oldpath = Inr (opp, old) \<and> split_parent newpath = Inr (npp, new)
        \<and> resolve v h opp c = Some (Inr op) \<and> resolve v h npp c = Some (Inr np) \<and> lookup h op old = Inr j
        \<and> r = (if (op, old) = (np, new) then Inl NotFound else Inr ())
        \<and> lookup h' op old = Inl NotFound \<and> ((op, old) \<noteq> (np, new) \<longrightarrow> lookup h' np new = Inr j)
        \<and> (\<forall>d x. (d, x) \<noteq> (op, old) \<longrightarrow> (d, x) \<noteq> (np, new) \<longrightarrow> lookup h' d x = lookup h d x)
        \<and> metadata h' = metadata h \<and> file_bytes h' = file_bytes h)"
proof (rule rename_cases [OF fs_reach_inv [OF assms(1)] assms(2)])
  fix opp old npp new op np j
  assume a: "split_parent oldpath = Inr (opp, old)" "split_parent newpath = Inr (npp, new)"
    "resolve v h opp c = Some (Inr op)" "resolve v h npp c = Some (Inr np)" "lookup h op old = Inr j"
    "if op = np \<and> old = new then r = Inl NotFound \<and> without op old h h' else r = Inr () \<and> moved op old np new j h h'"
  then have "metadata h' = metadata h" "file_bytes h' = file_bytes h" "lookup h' op old = Inl NotFound"
      "(op, old) \<noteq> (np, new) \<longrightarrow> lookup h' np new = Inr j"
      "\<forall>d x. (d, x) \<noteq> (op, old) \<longrightarrow> (d, x) \<noteq> (np, new) \<longrightarrow> lookup h' d x = lookup h d x"
      "r = (if (op, old) = (np, new) then Inl NotFound else Inr ())"
    by (auto simp: without_def moved_def relinked_def split: if_splits)
  with a(1-5) show ?thesis by blast
qed blast

text \<open>C23. What lies behind a directory that a user may not search is out of the user's reach: let \<open>S\<close> be a set of inodes that is
  entered only through the directory \<open>d\<close>, and hold neither the root nor a mounted inode.  Then no path resolves to an
  inode of \<open>S\<close> for that user, and no file that the user reads is one of \<open>S\<close>.\<close>

theorem private_directory:
  assumes "fs_reach v h" and "can_exec_dir (metadata h d) c = Some False"
    and "\<And>e n i. lookup h e n = Inr i \<Longrightarrow> i \<in> S \<Longrightarrow> e = d \<or> e \<in> S" and "\<And>i p. parent h i = Some p \<Longrightarrow> p \<in> S \<Longrightarrow> i \<in> S"
    and "vfs_root v \<notin> S" and "snd ` set (mount_points v) \<inter> S = {}"
  shows "(resolve v h path c = Some (Inr i) \<longrightarrow> i \<notin> S)
    \<and> (read_file v path c h = Some (Inr x, h') \<longrightarrow> (\<exists>j. j \<notin> S \<and> file_bytes h j = Some x))"
proof -
  note inv = fs_reach_inv [OF assms(1)]
  have m: "j \<notin> S" if "check_mount_point v q = Some j" for q j
    using that assms(6) by (force simp: check_mount_point_def dest: map_of_SomeD)
  have out: "j \<notin> S" if "resolve v h path c = Some (Inr j)" for j
  proof (rule walk_avoids [OF assms(5) m _ _ that])
    fix e n i assume "e \<notin> S" "can_exec_dir (metadata h e) c = Some True" "lookup h e n = Inr i"
    then show "i \<notin> S" using assms(2,3) by fastforce
  next
    fix i p assume "i \<notin> S" "parent h i = Some p"
    then show "p \<notin> S" using assms(4) [of i p] by blast
  qed
  have "\<exists>j. j \<notin> S \<and> file_bytes h j = Some x" if r: "read_file v path c h = Some (Inr x, h')"
    using r unfolding read_file_def
  proof (cases rule: resolvedE)
    case (ok j)
    have k: "kind_of h j = KFile" using ok(2) by (auto split: if_splits)
    obtain y where y: "file_bytes h j = Some y"
      using heap_ok_kind [of h j] resolve_ino [OF inv ok(1)] k by (cases "ti_node (node h j)") (auto simp: file_bytes_def)
    then have "x = y" using ok(2) k tmpfs.sz [OF y] tmpfs.read_all [OF y] by (auto simp: qm_def elim!: permittedE)
    then show ?thesis using y out [OF ok(1)] by blast
  qed simp
  then show ?thesis using out by blast
qed

text \<open>The sticky bit protects entries: when a directory has it, no operation of a user who is neither root nor the owner of
  the directory nor the owner of the entry removes or replaces the entry.\<close>

theorem sticky_protects:
  assumes "fs_reach v h" and "live h d" and "lookup h d n = Inr j" and "is_sticky (m_mode (metadata h d))"
    and "uid c \<notin> {0, m_uid (metadata h d), m_uid (metadata h j)}" and "vfs_op p v c h = Some h'"
  shows "lookup h' d n = Inr j"
proof -
  note inv = fs_reach_inv [OF assms(1)]
  have d: "d < next_ino h" using heap_okD(1) assms(2) inv by (simp add: fs_inv_def)
  have st: "sticky_refuses (metadata h d) (metadata h j) c" using assms(4,5) by (simp add: sticky_refuses_def)
  have g: "grown h h' \<Longrightarrow> ?thesis" using d assms(3) by (simp add: grown_def)
  have w: "lookup h' d n = Inr j" if "without e m h h'" "lookup h e m = Inr i" "\<not> sticky_refuses (metadata h e) (metadata h i) c" for e m i
    using that assms(3) st by (auto simp: without_def)
  show ?thesis
  proof (cases p)
    case (MkdirAll path md)
    then show ?thesis using assms(6) g mkdir_loop_ok [OF inv fs_inv_live(1) [OF inv]] by (auto simp: mkdir_all_def elim!: map_snd_SomeE)
  next
    case (WriteFile path md x)
    then show ?thesis using assms(6) g by (auto elim!: map_snd_SomeE elim: write_file_cases [OF inv])
  next
    case (Unlink path)
    then obtain r where "vfs_unlink v path c h = Some (r, h')" using assms(6) by (auto elim: map_snd_SomeE)
    then show ?thesis by (rule unlink_cases [OF inv]) (use w assms(3) in auto)
  next
    case (Rmdir path)
    then obtain r where "vfs_rmdir v path c h = Some (r, h')" using assms(6) by (auto elim: map_snd_SomeE)
    then show ?thesis by (rule rmdir_cases [OF inv]) (use w assms(3) in auto)
  next
    case (Rename a b)
    then obtain r where "vfs_rename v a b c h = Some (r, h')" using assms(6) by (auto elim: map_snd_SomeE)
    then show ?thesis
    proof (rule rename_cases [OF inv])
      fix op old np new i assume a: "lookup h op old = Inr i" "\<not> sticky_refuses (metadata h op) (metadata h i) c"
        "lookup h np new = Inl NotFound \<or> (\<exists>d. lookup h np new = Inr d \<and> \<not> sticky_refuses (metadata h np) (metadata h d) c)"
        "if op = np \<and> old = new then r = Inl NotFound \<and> without op old h h' else r = Inr () \<and> moved op old np new i h h'"
      have "\<not> (d = op \<and> n = old)" "\<not> (d = np \<and> n = new)" using a(1-3) assms(3) st by auto
      then show ?thesis using a(4) assms(3) by (auto simp: without_def moved_def split: if_splits)
    qed (use assms(3) in simp)
  qed (use assms(3,6) g read_file_heap [OF inv] look_only change_cases [OF inv] special_cases [OF inv] in
      \<open>auto elim!: map_snd_SomeE; metis\<close>)+
qed

text \<open>\<open>mkdir_all\<close> does what it says, on paths without \<open>..\<close>: after it succeeds the path resolves for the same user, doing it
  again succeeds and changes nothing, and every path that resolved before still resolves to the same inode.\<close>

theorem mkdir_all_resolves:
  assumes "fs_reach v h" and "mkdir_all v path c md h = Some (Inr (), h')" and "''..'' \<notin> set (split_path path)"
  shows "(\<exists>i. resolve v h' path c = Some (Inr i)) \<and> mkdir_all v path c md' h' = Some (Inr (), h')
    \<and> (\<forall>q u i. resolve v h q u = Some (Inr i) \<longrightarrow> resolve v h' q u = Some (Inr i))"
proof -
  note inv = fs_reach_inv [OF assms(1)]
  note k = mkdir_loop_ok [OF inv fs_inv_live(1) [OF inv] assms(2) [unfolded mkdir_all_def], of md']
  have g: "grown h h'" by (rule k [THEN conjunct2, THEN conjunct1])
  have w: "(\<exists>i. walk v h' c (vfs_root v) [] (split_path path) = Some (Inr i))
      \<and> mkdir_loop v c md' (vfs_root v) [] (split_path path) h' = Some (Inr (), h')"
    by (rule k [THEN conjunct2, THEN conjunct2, rule_format, OF refl assms(3)])
  have "\<exists>i. resolve v h' path c = Some (Inr i)"
    using w by (cases "check_mount_point v path") (auto simp: resolve_def)
  then show ?thesis using w resolve_grown [OF g inv] by (simp add: mkdir_all_def)
qed

text \<open>Renaming a file to its own path destroys it: \<open>rename\<close> of a path to itself does exactly what \<open>unlink\<close> of the path
  does, and then reports that there is no such file.\<close>

theorem rename_to_itself_unlinks:
  assumes "vfs_unlink v path c h = Some (Inr (), h')" and "fs_reach v h"
  shows "vfs_rename v path path c h = Some (Inl NotFound, h')"
proof -
  obtain pp name p j where u: "split_parent path = Inr (pp, name)" "resolve v h pp c = Some (Inr p)" "kind_of h p = KDir"
      "can_write_dir (metadata h p) c = Some True" "lookup h p name = Inr j" "kind_of h j \<noteq> KDir"
      "\<not> sticky_refuses (metadata h p) (metadata h j) c" "unlink p name h = (Inr (), h')"
    using assms(1) unfolding vfs_unlink_def by (auto elim!: parentE resolvedE permittedE qmE split: if_splits)
  have "without p name h h'"
    by (rule unlink_cases [OF fs_reach_inv [OF assms(2)] assms(1)]) (use u in auto)
  then have "lookup h' p name = Inl NotFound" by (simp add: without_def)
  then have "rename_to p name p name h' = (Inl NotFound, h')"
    by (auto simp: rename_to_def lookup_def split: sum.splits option.splits)
  then show ?thesis
    using u by (simp add: vfs_rename_def qm_def resolved_def permitted_def clear_dest_def qmh_def)
qed

text \<open>Renaming a directory into itself is not refused, and loses it: the directory stays alive, as its own only entry, and no
  path of any user leads to it any more.\<close>

theorem rename_into_itself_detaches:
  assumes "fs_reach v h" and "mount_points v = []" and "vfs_rename v oldpath newpath c h = Some (Inr (), h')"
    and "split_parent oldpath = Inr (opp, old)" and "split_parent newpath = Inr (npp, new)"
    and "resolve v h opp c = Some (Inr op)" and "resolve v h npp c = Some (Inr j)" and "lookup h op old = Inr j"
    and "\<And>d n. lookup h d n = Inr j \<Longrightarrow> d = op \<and> n = old" and "\<And>i. parent h i \<noteq> Some j" and "j \<noteq> vfs_root v" and "op \<noteq> j"
  shows "live h' j \<and> lookup h' j new = Inr j \<and> resolve v h' path u \<noteq> Some (Inr j)"
proof -
  note inv = fs_reach_inv [OF assms(1)]
  have m: "moved op old j new j h h'"
  proof (rule rename_cases [OF inv assms(3)])
    fix opp' old' npp' new' op' np' i
    assume a: "split_parent oldpath = Inr (opp', old')" "split_parent newpath = Inr (npp', new')"
      "resolve v h opp' c = Some (Inr op')" "resolve v h npp' c = Some (Inr np')" "lookup h op' old' = Inr i"
      "if op' = np' \<and> old' = new' then (Inr () :: unit KResult) = Inl NotFound \<and> without op' old' h h'
       else (Inr () :: unit KResult) = Inr () \<and> moved op' old' np' new' i h h'"
    have "op' = op" "old' = old" "np' = j" "new' = new" "i = j" using a(1-5) assms(4-8) by simp_all
    then show ?thesis using a(6) assms(12) by simp
  qed simp
  have look: "lookup h' d x = (if d = j \<and> x = new then Inr j else if d = op \<and> x = old then Inl NotFound else lookup h d x)" for d x
    using m by (simp add: moved_def)
  have "live h j" by (rule resolve_live [OF inv assms(7)])
  moreover have "lookup h j new \<noteq> Inr j" using assms(9) [of j new] assms(12) by blast
  ultimately have "live h' j" using m by (simp add: moved_def)
  have "q \<noteq> j" if "parent h' i = Some q" for i q
    using assms(10) [of i] that m by (auto simp: moved_def relinked_def parent_def split: option.splits if_splits)
  moreover have "i \<noteq> j" if "d \<noteq> j" "lookup h' d n = Inr i" for d n i
    using that assms(9) [of d n] by (auto simp: look split: if_splits)
  moreover have "check_mount_point v q = None" for q using assms(2) by (simp add: check_mount_point_def)
  ultimately have "resolve v h' path u = Some (Inr j) \<Longrightarrow> j \<notin> {j}"
    using assms(11) by (intro walk_avoids [of v "{j}" h' u path j]) simp_all
  with \<open>live h' j\<close> have "live h' j \<and> resolve v h' path u \<noteq> Some (Inr j)" by blast
  then show ?thesis using look [of j new] by simp
qed

subsection \<open>Examples\<close>

text \<open>A small tree: a directory of root that nobody else may search, with a file in it.\<close>

definition demo_vfs :: Vfs where "demo_vfs = vfs_new 0"

definition demo_root :: "(string \<times> nat) list \<Rightarrow> TmpfsInode" where
  "demo_root cs = \<lparr>ti_parent = None, ti_meta = simple 0 0 (from_octal 0x1ED) KDir, ti_node = TDir cs\<rparr>"

definition demo_sub :: "(string \<times> nat) list \<Rightarrow> TmpfsInode" where
  "demo_sub cs = \<lparr>ti_parent = Some 0, ti_meta = simple 0 0 0x1C0 KDir, ti_node = TDir cs\<rparr>"

definition demo_text :: "u8 list \<Rightarrow> TmpfsInode" where
  "demo_text x = \<lparr>ti_parent = Some 1, ti_meta = simple 0 0 0x1A4 KFile, ti_node = TFile x\<rparr>"

definition demo_fresh :: Heap where
  "demo_fresh = \<lparr>node = (node empty_heap)(0 := demo_root []), live = (\<lambda>i. i < 1), next_ino = 1, pins = [0]\<rparr>"

definition demo_dir :: Heap where
  "demo_dir = \<lparr>node = (node empty_heap)(0 := demo_root [(''a'', 1)], 1 := demo_sub []), live = (\<lambda>i. i < 2),
     next_ino = 2, pins = [0]\<rparr>"

definition demo_tree :: Heap where
  "demo_tree = \<lparr>node = (node empty_heap)(0 := demo_root [(''a'', 1)], 1 := demo_sub [(''f'', 2)], 2 := demo_text [1, 2, 3]),
     live = (\<lambda>i. i < 3), next_ino = 3, pins = [0]\<rparr>"

lemmas demo_defs = demo_vfs_def demo_root_def demo_sub_def demo_text_def demo_fresh_def demo_dir_def demo_tree_def vfs_new_def empty_heap_def

lemma demo_reach_fresh: "fs_reach demo_vfs demo_fresh"
proof -
  have "new_root empty_heap = (0, demo_fresh)"
    by (simp add: new_root_def alloc_inode_def demo_defs fun_upd_def)
  from fs_reach.boot [OF this] show ?thesis by (simp add: demo_vfs_def)
qed

lemma demo_paths:
  "split_path ''/a'' = [''a'']" "split_path ''/'' = []" "split_parent ''/a'' = Inr (''/'', ''a'')"
  "split_parent ''/a/f'' = Inr (''/a'', ''f'')" "split_parent ''/a/b'' = Inr (''/a'', ''b'')" "split_parent ''/g'' = Inr (''/'', ''g'')"
  by code_simp+

lemma root_perm [simp]:
  "can_exec_dir m cred_root = Some True" "can_write_dir m cred_root = Some True" "can_write_file m cred_root = Some True"
  "can_read_file m cred_root = Some True" "uid cred_root = 0" "gid cred_root = 0"
  by (simp_all add: can_exec_dir_def can_write_dir_def can_write_file_def can_read_file_def allow_def cred_root_def is_root_def)

lemma demo_vfs_simps [simp]: "check_mount_point demo_vfs path = None" "vfs_root demo_vfs = 0" "mount_points demo_vfs = []"
  "not_mounted demo_vfs n"
  by (simp_all add: check_mount_point_def demo_vfs_def vfs_new_def not_mounted_def)

lemma demo_lookups [simp]:
  "lookup demo_fresh 0 ''a'' = Inl NotFound" "lookup demo_dir 0 ''a'' = Inr 1" "lookup demo_dir 1 ''f'' = Inl NotFound"
  "lookup demo_tree 0 ''a'' = Inr 1" "lookup demo_tree 1 ''f'' = Inr 2" "lookup demo_dir 1 ''b'' = Inl NotFound"
  "kind_of demo_fresh 0 = KDir" "kind_of demo_dir 0 = KDir" "kind_of demo_dir 1 = KDir" "kind_of demo_tree 0 = KDir"
  "kind_of demo_tree 1 = KDir" "kind_of demo_tree 2 = KFile"
  by code_simp+

lemma demo_mkdir: "mkdir_all demo_vfs ''/a'' cred_root 0x1C0 demo_fresh = Some (Inr (), demo_dir)"
proof -
  have "create 0 ''a'' KDir (simple 0 0 0x1C0 KDir) demo_fresh = (Inr 1, demo_dir)"
    by (auto simp: create_def add_inode_def bad_name_def as_dir_def alloc_inode_def set_node_def put_node_def demo_defs fun_eq_iff)
  then show ?thesis by (simp add: mkdir_all_def demo_paths permitted_def)
qed

lemma demo_reach_dir: "fs_reach demo_vfs demo_dir"
  by (rule fs_reach.op [OF demo_reach_fresh, of "MkdirAll ''/a'' 0x1C0" cred_root]) (simp add: demo_mkdir)

lemma demo_resolve:
  "resolve demo_vfs demo_dir ''/a'' cred_root = Some (Inr 1)" "resolve demo_vfs demo_dir ''/'' c = Some (Inr 0)"
  "resolve demo_vfs demo_tree ''/a'' cred_root = Some (Inr 1)" "resolve demo_vfs demo_tree ''/'' c = Some (Inr 0)"
  by (simp_all add: resolve_def demo_paths walk_step_def)

lemma demo_write: "write_file demo_vfs ''/a/f'' cred_root 0x1A4 [1, 2, 3] demo_dir = Some (Inr (), demo_tree)"
proof -
  let ?h = "\<lparr>node = (node empty_heap)(0 := demo_root [(''a'', 1)], 1 := demo_sub [(''f'', 2)], 2 := demo_text []),
     live = (\<lambda>i. i < 3), next_ino = 3, pins = [0]\<rparr>"
  have "create 1 ''f'' KFile (simple 0 0 0x1A4 KFile) demo_dir = (Inr 2, ?h)"
    by (auto simp: create_def add_inode_def bad_name_def as_dir_def alloc_inode_def set_node_def put_node_def demo_defs fun_eq_iff)
  then have "open_or_create 1 ''f'' cred_root 0x1A4 demo_dir = (Inr 2, ?h)" by (simp add: open_or_create_def del: One_nat_def)
  moreover have "overwrite 2 cred_root [1, 2, 3] ?h = Some (Inr (), demo_tree)"
    by (simp add: overwrite_def permitted_def qmh_def truncate_file_def as_file_def as_fifo_def resize_def write_at_def add64_def
      U64_MAX_def Let_def node_set_node demo_text_def set_node_def put_node_def demo_tree_def)
  ultimately show ?thesis
    by (simp add: write_file_def qm_def qmh_def demo_paths resolved_def demo_resolve permitted_def del: One_nat_def)
qed

lemma demo_reach_tree: "fs_reach demo_vfs demo_tree"
  by (rule fs_reach.op [OF demo_reach_dir, of "WriteFile ''/a/f'' 0x1A4 [1, 2, 3]" cred_root]) (simp add: demo_write)

lemma demo_parent: "parent demo_dir i = (if i = 1 then Some 0 else None)" "parent demo_tree i = (if i = 1 then Some 0 else if i = 2 then Some 1 else None)"
  by (simp_all add: parent_def demo_defs)

lemma demo_entries:
  "lookup demo_dir d n = Inr j \<Longrightarrow> d = 0 \<and> n = ''a'' \<and> j = 1"
  "lookup demo_tree d n = Inr j \<Longrightarrow> (d, n, j) \<in> {(0, ''a'', 1), (1, ''f'', 2)}"
  by (auto simp: lookup_entries demo_defs split: if_splits)

theorem file_system_sound_witness: "fs_reach demo_vfs demo_tree \<and> referenced demo_tree 2 \<and> live demo_tree 2"
proof -
  have "live demo_tree 2" by (simp add: demo_tree_def)
  then show ?thesis using file_system_sound [OF demo_reach_tree] demo_reach_tree by blast
qed

theorem write_file_read_file_witness:
  "write_file demo_vfs ''/a/f'' cred_root 0x1A4 [1, 2, 3] demo_dir = Some (Inr (), demo_tree)
     \<and> read_file demo_vfs ''/a/f'' cred_root demo_tree = Some (Inr [1, 2, 3], demo_tree)"
  using write_file_read_file [OF demo_reach_dir demo_write demo_paths(4)] demo_write by auto

theorem rename_outcomes_witness:
  "\<exists>h'. vfs_rename demo_vfs ''/a/f'' ''/g'' cred_root demo_tree = Some (Inr (), h') \<and> lookup h' 0 ''g'' = Inr 2
     \<and> lookup h' 1 ''f'' = Inl NotFound"
proof -
  have "map_option fst (vfs_rename demo_vfs ''/a/f'' ''/g'' cred_root demo_tree) = Some (Inr ())" by code_simp
  then obtain h' where h': "vfs_rename demo_vfs ''/a/f'' ''/g'' cred_root demo_tree = Some (Inr (), h')" by auto
  from rename_outcomes [OF demo_reach_tree this] show ?thesis
    using h' demo_resolve by (auto simp: demo_paths simp del: One_nat_def split: if_splits)
qed

theorem private_directory_witness:
  "resolve demo_vfs demo_tree ''/a/f'' (cred_user 1000 1000) \<noteq> Some (Inr 2)"
proof -
  have "can_exec_dir (metadata demo_tree 1) (cred_user 1000 1000) = Some False" by code_simp
  moreover have "e = 1 \<or> e \<in> {2}" if "lookup demo_tree e n = Inr i" "i \<in> {2}" for e n i using demo_entries(2) [OF that(1)] that(2) by auto
  moreover have "i \<in> {2}" if "parent demo_tree i = Some p" "p \<in> {2}" for i p using that by (auto simp: demo_parent split: if_splits)
  ultimately show ?thesis
    using private_directory [OF demo_reach_tree, of 1 "cred_user 1000 1000" "{2}" "''/a/f''" 2] by simp
qed

theorem mkdir_all_resolves_witness:
  "mkdir_all demo_vfs ''/a'' cred_root 0x1C0 demo_fresh = Some (Inr (), demo_dir)
     \<and> mkdir_all demo_vfs ''/a'' cred_root 0x1ED demo_dir = Some (Inr (), demo_dir)"
proof -
  have "''..'' \<notin> set (split_path ''/a'')" by (simp add: demo_paths)
  from mkdir_all_resolves [OF demo_reach_fresh demo_mkdir this] show ?thesis using demo_mkdir by blast
qed

theorem rename_to_itself_unlinks_witness:
  "\<exists>h'. vfs_rename demo_vfs ''/a/f'' ''/a/f'' cred_root demo_tree = Some (Inl NotFound, h')"
proof -
  have "map_option fst (vfs_unlink demo_vfs ''/a/f'' cred_root demo_tree) = Some (Inr ())" by code_simp
  then obtain h' where "vfs_unlink demo_vfs ''/a/f'' cred_root demo_tree = Some (Inr (), h')" by auto
  from rename_to_itself_unlinks [OF this demo_reach_tree] show ?thesis by blast
qed

theorem rename_into_itself_detaches_witness:
  "\<exists>h'. vfs_rename demo_vfs ''/a'' ''/a/b'' cred_root demo_dir = Some (Inr (), h') \<and> live h' 1 \<and> resolve demo_vfs h' ''/a'' cred_root \<noteq> Some (Inr 1)"
proof -
  have "map_option fst (vfs_rename demo_vfs ''/a'' ''/a/b'' cred_root demo_dir) = Some (Inr ())" by code_simp
  then obtain h' where h': "vfs_rename demo_vfs ''/a'' ''/a/b'' cred_root demo_dir = Some (Inr (), h')" by auto
  have "d = 0 \<and> n = ''a''" if "lookup demo_dir d n = Inr 1" for d n using demo_entries(1) [OF that] by simp
  moreover have "parent demo_dir i \<noteq> Some 1" for i by (simp add: demo_parent)
  ultimately show ?thesis
    using rename_into_itself_detaches [OF demo_reach_dir demo_vfs_simps(3) h' demo_paths(3,5) demo_resolve(2,1) demo_lookups(2), of "''/a''" cred_root] h'
    by auto
qed

text \<open>The same directory under a sticky root.\<close>

definition demo_sticky :: Heap where
  "demo_sticky = set_metadata 0 ((metadata demo_dir 0)\<lparr>m_mode := 0x3FF\<rparr>) demo_dir"

lemma demo_reach_sticky: "fs_reach demo_vfs demo_sticky"
  by (rule fs_reach.op [OF demo_reach_dir, of "Chmod ''/'' 0x3FF" cred_root])
    (simp add: chmod_def resolved_def demo_resolve qm_def demo_sticky_def)

theorem sticky_protects_witness:
  "\<exists>h'. vfs_op (Rmdir ''/a'') demo_vfs (cred_user 1000 1000) demo_sticky = Some h' \<and> lookup h' 0 ''a'' = Inr 1"
proof -
  have "map_option (\<lambda>_. ()) (vfs_op (Rmdir ''/a'') demo_vfs (cred_user 1000 1000) demo_sticky) = Some ()" by code_simp
  then obtain h' where h': "vfs_op (Rmdir ''/a'') demo_vfs (cred_user 1000 1000) demo_sticky = Some h'" by blast
  have "live demo_sticky 0" "lookup demo_sticky 0 ''a'' = Inr 1" "is_sticky (m_mode (metadata demo_sticky 0))"
      "uid (cred_user 1000 1000) \<notin> {0, m_uid (metadata demo_sticky 0), m_uid (metadata demo_sticky 1)}"
    by code_simp+
  from sticky_protects [OF demo_reach_sticky this h'] show ?thesis using h' by blast
qed
end
