(* ===== verification/Xattr.thy ===== *)
theory Xattr
  imports Vfs
begin

text \<open>
  Extended attributes, \<^verbatim>\<open>kernel/src/fs/xattr.rs\<close>: named values in four namespaces, stored with an inode, and the calls that
  reach them by a path.

  The storages of the inodes are a map beside the heap of inodes, as every inode owns one.  A storage is a \<open>BTreeMap\<close>, an
  association list in the order of the names.  The buffers of a caller are lists of bytes; a call returns the buffer it
  leaves behind.
\<close>

subsection \<open>Namespaces\<close>

definition XATTR_NAME_MAX :: nat where "XATTR_NAME_MAX = 255"
definition XATTR_SIZE_MAX :: nat where "XATTR_SIZE_MAX = 65536"

datatype XattrNamespace = NsUser | NsSystem | NsTrusted | NsSecurity

fun ns_prefix :: "XattrNamespace \<Rightarrow> string" where
  "ns_prefix NsUser = ''user.''"
| "ns_prefix NsSystem = ''system.''"
| "ns_prefix NsTrusted = ''trusted.''"
| "ns_prefix NsSecurity = ''security.''"

definition strip_prefix :: "string \<Rightarrow> string \<Rightarrow> string option" where
  "strip_prefix p s = (if take (length p) s = p then Some (drop (length p) s) else None)"

definition ns_from_name :: "string \<Rightarrow> (XattrNamespace \<times> string) option" where
  "ns_from_name name =
     (case strip_prefix ''user.'' name of Some suffix \<Rightarrow> Some (NsUser, suffix)
      | None \<Rightarrow> (case strip_prefix ''system.'' name of Some suffix \<Rightarrow> Some (NsSystem, suffix)
      | None \<Rightarrow> (case strip_prefix ''trusted.'' name of Some suffix \<Rightarrow> Some (NsTrusted, suffix)
      | None \<Rightarrow> (case strip_prefix ''security.'' name of Some suffix \<Rightarrow> Some (NsSecurity, suffix)
      | None \<Rightarrow> None))))"

definition full_name :: "XattrNamespace \<Rightarrow> string \<Rightarrow> string" where
  "full_name ns suffix = ns_prefix ns @ suffix"

definition is_create :: "u32 \<Rightarrow> bool" where "is_create flags \<longleftrightarrow> flags AND 0x1 \<noteq> 0"
definition is_replace :: "u32 \<Rightarrow> bool" where "is_replace flags \<longleftrightarrow> flags AND 0x2 \<noteq> 0"

subsection \<open>The storage of an inode\<close>

type_synonym XattrStorage = "(string \<times> u8 list) list"

definition xs_new :: XattrStorage where "xs_new = []"

definition xs_get :: "string \<Rightarrow> XattrStorage \<Rightarrow> u8 list option" where
  "xs_get name s = map_of s name"

definition xs_set :: "string \<Rightarrow> u8 list \<Rightarrow> u32 \<Rightarrow> XattrStorage \<Rightarrow> unit KResult \<times> XattrStorage" where
  "xs_set name x flags s =
     (if length name > XATTR_NAME_MAX then (Inl Invalid, s)
      else if length x > XATTR_SIZE_MAX then (Inl OutOfRange, s)
      else let present = map_of s name \<noteq> None in
        if is_create flags \<and> present then (Inl AlreadyExists, s)
        else if is_replace flags \<and> \<not> present then (Inl NotFound, s)
        else (Inr (), ch_insert name x s))"

definition xs_remove :: "string \<Rightarrow> XattrStorage \<Rightarrow> unit KResult \<times> XattrStorage" where
  "xs_remove name s = (case map_of s name of Some _ \<Rightarrow> (Inr (), ch_remove name s) | None \<Rightarrow> (Inl NotFound, s))"

definition xs_list :: "XattrStorage \<Rightarrow> string list" where
  "xs_list s = map fst s"

definition xs_list_namespace :: "XattrNamespace \<Rightarrow> XattrStorage \<Rightarrow> string list" where
  "xs_list_namespace ns s = filter (\<lambda>k. take (length (ns_prefix ns)) k = ns_prefix ns) (map fst s)"

definition xs_list_size :: "XattrStorage \<Rightarrow> nat" where
  "xs_list_size s = sum_list (map (\<lambda>k. length k + 1) (map fst s))"

definition xs_is_empty :: "XattrStorage \<Rightarrow> bool" where "xs_is_empty s \<longleftrightarrow> s = []"
definition xs_count :: "XattrStorage \<Rightarrow> nat" where "xs_count s = length s"
definition xs_clear :: "XattrStorage \<Rightarrow> XattrStorage" where "xs_clear s = []"

text \<open>The attributes of all inodes, and the operations of an inode on its own.\<close>

type_synonym Xattrs = "nat \<Rightarrow> XattrStorage"

definition inode_getxattr :: "nat \<Rightarrow> string \<Rightarrow> Xattrs \<Rightarrow> u8 list KResult" where
  "inode_getxattr i name xs = (case xs_get name (xs i) of None \<Rightarrow> Inl NotFound | Some x \<Rightarrow> Inr x)"

definition inode_setxattr :: "nat \<Rightarrow> string \<Rightarrow> u8 list \<Rightarrow> u32 \<Rightarrow> Xattrs \<Rightarrow> unit KResult \<times> Xattrs" where
  "inode_setxattr i name x flags xs = (case xs_set name x flags (xs i) of (r, s) \<Rightarrow> (r, xs(i := s)))"

definition inode_removexattr :: "nat \<Rightarrow> string \<Rightarrow> Xattrs \<Rightarrow> unit KResult \<times> Xattrs" where
  "inode_removexattr i name xs = (case xs_remove name (xs i) of (r, s) \<Rightarrow> (r, xs(i := s)))"

definition inode_listxattr :: "nat \<Rightarrow> Xattrs \<Rightarrow> string list KResult" where
  "inode_listxattr i xs = Inr (xs_list (xs i))"

subsection \<open>Permissions\<close>

text \<open>The three tests of the code on the mode, for the owner, the group and the others.\<close>

definition mode_grants :: "Cred \<Rightarrow> uid \<Rightarrow> gid \<Rightarrow> mode \<Rightarrow> mode \<Rightarrow> mode \<Rightarrow> mode \<Rightarrow> unit KResult" where
  "mode_grants c fuid fgid m u g o_bit =
     (if uid c = fuid then (if m AND u = 0 then Inl PermissionDenied else Inr ())
      else if gid c = fgid then (if m AND g = 0 then Inl PermissionDenied else Inr ())
      else if m AND o_bit = 0 then Inl PermissionDenied else Inr ())"

definition check_xattr_permission :: "Cred \<Rightarrow> uid \<Rightarrow> gid \<Rightarrow> mode \<Rightarrow> XattrNamespace \<Rightarrow> bool \<Rightarrow> unit KResult" where
  "check_xattr_permission c fuid fgid m ns is_write =
     (if uid c = 0 then Inr ()
      else case ns of
        NsUser \<Rightarrow> if is_write then mode_grants c fuid fgid m 0x80 0x10 0x02 else mode_grants c fuid fgid m 0x100 0x20 0x04
      | NsTrusted \<Rightarrow> Inl PermissionDenied
      | NsSecurity \<Rightarrow> Inl PermissionDenied
      | NsSystem \<Rightarrow> if is_write then Inl PermissionDenied else mode_grants c fuid fgid m 0x100 0x20 0x04)"

definition xattr_allowed :: "Heap \<Rightarrow> nat \<Rightarrow> Cred \<Rightarrow> XattrNamespace \<Rightarrow> bool \<Rightarrow> unit KResult" where
  "xattr_allowed h i c ns is_write =
     (let m = metadata h i in check_xattr_permission c (m_uid m) (m_gid m) (m_mode m) ns is_write)"

subsection \<open>Calls by path\<close>

definition getxattr :: "Vfs option \<Rightarrow> Heap \<Rightarrow> Xattrs \<Rightarrow> Cred \<Rightarrow> string \<Rightarrow> string \<Rightarrow> u8 list \<Rightarrow> (nat KResult \<times> u8 list) option" where
  "getxattr vi h xs c path name buf =
     (case ns_from_name name of
        None \<Rightarrow> Some (Inl NotSupported, buf)
      | Some (ns, _) \<Rightarrow> (case vi of
          None \<Rightarrow> Some (Inl Invalid, buf)
        | Some v \<Rightarrow> do {
            r \<leftarrow> resolve v h path c;
            case r of
              Inl e \<Rightarrow> Some (Inl e, buf)
            | Inr i \<Rightarrow> (case xattr_allowed h i c ns False of
                Inl e \<Rightarrow> Some (Inl e, buf)
              | Inr _ \<Rightarrow> (case inode_getxattr i name xs of
                  Inl e \<Rightarrow> Some (Inl e, buf)
                | Inr x \<Rightarrow>
                    if buf = [] then Some (Inr (length x), buf)
                    else if length x > length buf then Some (Inl OutOfRange, buf)
                    else Some (Inr (length x), x @ drop (length x) buf)))
          }))"

definition lgetxattr :: "Vfs option \<Rightarrow> Heap \<Rightarrow> Xattrs \<Rightarrow> Cred \<Rightarrow> string \<Rightarrow> string \<Rightarrow> u8 list \<Rightarrow> (nat KResult \<times> u8 list) option" where
  "lgetxattr = getxattr"

definition setxattr :: "Vfs option \<Rightarrow> Heap \<Rightarrow> Cred \<Rightarrow> string \<Rightarrow> string \<Rightarrow> u8 list \<Rightarrow> u32 \<Rightarrow> Xattrs \<Rightarrow> (unit KResult \<times> Xattrs) option" where
  "setxattr vi h c path name x flags xs =
     (case ns_from_name name of
        None \<Rightarrow> Some (Inl NotSupported, xs)
      | Some (ns, _) \<Rightarrow>
          if length x > XATTR_SIZE_MAX then Some (Inl OutOfRange, xs)
          else case vi of
            None \<Rightarrow> Some (Inl Invalid, xs)
          | Some v \<Rightarrow> do {
              r \<leftarrow> resolve v h path c;
              case r of
                Inl e \<Rightarrow> Some (Inl e, xs)
              | Inr i \<Rightarrow> (case xattr_allowed h i c ns True of
                  Inl e \<Rightarrow> Some (Inl e, xs)
                | Inr _ \<Rightarrow> Some (inode_setxattr i name x flags xs))
            })"

definition lsetxattr :: "Vfs option \<Rightarrow> Heap \<Rightarrow> Cred \<Rightarrow> string \<Rightarrow> string \<Rightarrow> u8 list \<Rightarrow> u32 \<Rightarrow> Xattrs \<Rightarrow> (unit KResult \<times> Xattrs) option" where
  "lsetxattr = setxattr"

definition removexattr :: "Vfs option \<Rightarrow> Heap \<Rightarrow> Cred \<Rightarrow> string \<Rightarrow> string \<Rightarrow> Xattrs \<Rightarrow> (unit KResult \<times> Xattrs) option" where
  "removexattr vi h c path name xs =
     (case ns_from_name name of
        None \<Rightarrow> Some (Inl NotSupported, xs)
      | Some (ns, _) \<Rightarrow> (case vi of
          None \<Rightarrow> Some (Inl Invalid, xs)
        | Some v \<Rightarrow> do {
            r \<leftarrow> resolve v h path c;
            case r of
              Inl e \<Rightarrow> Some (Inl e, xs)
            | Inr i \<Rightarrow> (case xattr_allowed h i c ns True of
                Inl e \<Rightarrow> Some (Inl e, xs)
              | Inr _ \<Rightarrow> Some (inode_removexattr i name xs))
          }))"

definition lremovexattr :: "Vfs option \<Rightarrow> Heap \<Rightarrow> Cred \<Rightarrow> string \<Rightarrow> string \<Rightarrow> Xattrs \<Rightarrow> (unit KResult \<times> Xattrs) option" where
  "lremovexattr = removexattr"

text \<open>The bytes of a name; copying into a slice of the buffer panics when the slice is out of range.\<close>

definition name_bytes :: "string \<Rightarrow> u8 list" where
  "name_bytes n = map of_char n"

definition put_slice :: "nat \<Rightarrow> u8 list \<Rightarrow> u8 list \<Rightarrow> u8 list option" where
  "put_slice off x buf = (if off + length x \<le> length buf then Some (take off buf @ x @ drop (off + length x) buf) else None)"

text \<open>The loop of \<open>listxattr\<close> that copies the visible names, each with a null byte.\<close>

fun put_names :: "Heap \<Rightarrow> nat \<Rightarrow> Cred \<Rightarrow> string list \<Rightarrow> nat \<Rightarrow> u8 list \<Rightarrow> (nat \<times> u8 list) option" where
  "put_names h i c [] off buf = Some (off, buf)"
| "put_names h i c (n # ns) off buf =
     (case ns_from_name n of
        None \<Rightarrow> put_names h i c ns off buf
      | Some (nsp, _) \<Rightarrow> (case xattr_allowed h i c nsp False of
          Inl _ \<Rightarrow> put_names h i c ns off buf
        | Inr _ \<Rightarrow> do {
            buf \<leftarrow> put_slice off (name_bytes n) buf;
            buf \<leftarrow> put_slice (off + length n) [0] buf;
            put_names h i c ns (off + length n + 1) buf
          }))"

definition listxattr :: "Vfs option \<Rightarrow> Heap \<Rightarrow> Xattrs \<Rightarrow> Cred \<Rightarrow> string \<Rightarrow> u8 list \<Rightarrow> (nat KResult \<times> u8 list) option" where
  "listxattr vi h xs c path buf =
     (case vi of
        None \<Rightarrow> Some (Inl Invalid, buf)
      | Some v \<Rightarrow> do {
          r \<leftarrow> resolve v h path c;
          case r of
            Inl e \<Rightarrow> Some (Inl e, buf)
          | Inr i \<Rightarrow> (case inode_listxattr i xs of
              Inl e \<Rightarrow> Some (Inl e, buf)
            | Inr names \<Rightarrow>
                let total_size = sum_list (map (\<lambda>n. length n + 1) names) in
                if buf = [] then Some (Inr total_size, buf)
                else if total_size > length buf then Some (Inl OutOfRange, buf)
                else do { (off, buf) \<leftarrow> put_names h i c names 0 buf; Some (Inr off, buf) })
        })"

definition llistxattr :: "Vfs option \<Rightarrow> Heap \<Rightarrow> Xattrs \<Rightarrow> Cred \<Rightarrow> string \<Rightarrow> u8 list \<Rightarrow> (nat KResult \<times> u8 list) option" where
  "llistxattr = listxattr"

subsection \<open>Conveniences\<close>

definition set_user_xattr :: "nat \<Rightarrow> string \<Rightarrow> u8 list \<Rightarrow> Xattrs \<Rightarrow> unit KResult \<times> Xattrs" where
  "set_user_xattr i name x xs = inode_setxattr i (full_name NsUser name) x 0 xs"

definition get_user_xattr :: "nat \<Rightarrow> string \<Rightarrow> Xattrs \<Rightarrow> u8 list KResult" where
  "get_user_xattr i name xs = inode_getxattr i (full_name NsUser name) xs"

definition remove_user_xattr :: "nat \<Rightarrow> string \<Rightarrow> Xattrs \<Rightarrow> unit KResult \<times> Xattrs" where
  "remove_user_xattr i name xs = inode_removexattr i (full_name NsUser name) xs"

definition set_security_xattr :: "nat \<Rightarrow> string \<Rightarrow> u8 list \<Rightarrow> Xattrs \<Rightarrow> unit KResult \<times> Xattrs" where
  "set_security_xattr i name x xs = inode_setxattr i (full_name NsSecurity name) x 0 xs"

definition get_security_xattr :: "nat \<Rightarrow> string \<Rightarrow> Xattrs \<Rightarrow> u8 list KResult" where
  "get_security_xattr i name xs = inode_getxattr i (full_name NsSecurity name) xs"

fun copy_names :: "nat \<Rightarrow> nat \<Rightarrow> string list \<Rightarrow> Xattrs \<Rightarrow> Xattrs" where
  "copy_names src dst [] xs = xs"
| "copy_names src dst (n # ns) xs = copy_names src dst ns
     (case inode_getxattr src n xs of Inr x \<Rightarrow> snd (inode_setxattr dst n x 0 xs) | Inl _ \<Rightarrow> xs)"

definition copy_xattrs :: "nat \<Rightarrow> nat \<Rightarrow> Xattrs \<Rightarrow> unit KResult \<times> Xattrs" where
  "copy_xattrs src dst xs = (case inode_listxattr src xs of Inl e \<Rightarrow> (Inl e, xs) | Inr ns \<Rightarrow> (Inr (), copy_names src dst ns xs))"

subsection \<open>The storage is a map\<close>

definition xs_ok :: "XattrStorage \<Rightarrow> bool" where
  "xs_ok s \<longleftrightarrow> sorted_wrt (<) (map fst s) \<and> (\<forall>(n, x) \<in> set s. length n \<le> XATTR_NAME_MAX \<and> length x \<le> XATTR_SIZE_MAX)"

lemma xs_ok_new: "xs_ok xs_new"
  by (simp add: xs_ok_def xs_new_def)

lemma xs_ok_set: "xs_ok s \<Longrightarrow> xs_ok (snd (xs_set n x fl s))"
  using sorted_ch_insert [of s n x] set_ch_insert [of n x s] by (fastforce simp: xs_ok_def xs_set_def Let_def)

lemma xs_ok_remove: "xs_ok s \<Longrightarrow> xs_ok (snd (xs_remove n s))"
  using set_ch_remove [of n s] by (auto simp: xs_ok_def xs_remove_def ch_remove_def sorted_wrt_map sorted_wrt_filter split: option.split)

text \<open>The abstract storage: a partial function, with the same results.\<close>

datatype XattrOp = XSet string "u8 list" u32 | XRemove string

fun xattr_op :: "XattrOp \<Rightarrow> XattrStorage \<Rightarrow> unit KResult \<times> XattrStorage" where
  "xattr_op (XSet n x fl) s = xs_set n x fl s"
| "xattr_op (XRemove n) s = xs_remove n s"

fun spec_op :: "XattrOp \<Rightarrow> (string \<rightharpoonup> u8 list) \<Rightarrow> unit KResult \<times> (string \<rightharpoonup> u8 list)" where
  "spec_op (XSet n x fl) m =
     (if length n > 255 then (Inl Invalid, m) else if length x > 65536 then (Inl OutOfRange, m)
      else if is_create fl \<and> n \<in> dom m then (Inl AlreadyExists, m)
      else if is_replace fl \<and> n \<notin> dom m then (Inl NotFound, m) else (Inr (), m(n \<mapsto> x)))"
| "spec_op (XRemove n) m = (if n \<in> dom m then (Inr (), m(n := None)) else (Inl NotFound, m))"

fun run_ops :: "('o \<Rightarrow> 's \<Rightarrow> 'r \<times> 's) \<Rightarrow> 'o list \<Rightarrow> 's \<Rightarrow> 'r list \<times> 's" where
  "run_ops f [] s = ([], s)"
| "run_ops f (p # ps) s = (case f p s of (r, s) \<Rightarrow> case run_ops f ps s of (rs, s) \<Rightarrow> (r # rs, s))"

lemma xattr_op_refines:
  assumes "xs_ok s"
  shows "spec_op p (map_of s) = (fst (xattr_op p s), map_of (snd (xattr_op p s)))" "xs_ok (snd (xattr_op p s))"
proof -
  have "sorted_wrt (<) (map fst s)" using assms by (simp add: xs_ok_def)
  then show "spec_op p (map_of s) = (fst (xattr_op p s), map_of (snd (xattr_op p s)))"
    by (cases p) (auto simp: xs_set_def xs_remove_def Let_def map_of_ch_insert map_of_ch_remove dom_def XATTR_NAME_MAX_def
        XATTR_SIZE_MAX_def split: option.splits)
  show "xs_ok (snd (xattr_op p s))" using xs_ok_set xs_ok_remove assms by (cases p) auto
qed

lemma run_refines:
  "xs_ok s \<Longrightarrow> run_ops spec_op ps (map_of s) = (fst (run_ops xattr_op ps s), map_of (snd (run_ops xattr_op ps s)))
     \<and> xs_ok (snd (run_ops xattr_op ps s))"
proof (induction ps arbitrary: s)
  case (Cons p ps)
  obtain r s1 where a: "xattr_op p s = (r, s1)" by fastforce
  then have "spec_op p (map_of s) = (r, map_of s1)" "xs_ok s1" using xattr_op_refines [OF Cons.prems, of p] by auto
  then show ?case using Cons.IH [of s1] a by (auto split: prod.splits)
qed simp

subsection \<open>Listing\<close>

definition visible :: "Heap \<Rightarrow> nat \<Rightarrow> Cred \<Rightarrow> string \<Rightarrow> bool" where
  "visible h i c n \<longleftrightarrow> (case ns_from_name n of None \<Rightarrow> False | Some (ns, _) \<Rightarrow> xattr_allowed h i c ns False = Inr ())"

definition name_block :: "string list \<Rightarrow> u8 list" where
  "name_block ns = concat (map (\<lambda>n. name_bytes n @ [0]) ns)"

lemma length_name_bytes [simp]: "length (name_bytes n) = length n"
  by (simp add: name_bytes_def)

lemma put_names_skip: "\<not> visible h i c n \<Longrightarrow> put_names h i c (n # ns) off buf = put_names h i c ns off buf"
  by (auto simp: visible_def split: option.splits sum.splits)

lemma put_names_step:
  assumes "visible h i c n" and "off + length n + 1 \<le> length buf"
  shows "put_names h i c (n # ns) off buf =
    put_names h i c ns (off + length n + 1) (take off buf @ (name_bytes n @ [0]) @ drop (off + length n + 1) buf)"
proof -
  have "put_slice off (name_bytes n) buf = Some (take off buf @ name_bytes n @ drop (off + length n) buf)"
    using assms(2) by (simp add: put_slice_def)
  moreover have "put_slice (off + length n) [0] (take off buf @ name_bytes n @ drop (off + length n) buf) =
      Some (take off buf @ (name_bytes n @ [0]) @ drop (off + length n + 1) buf)"
    using assms(2) by (simp add: put_slice_def)
  ultimately show ?thesis using assms(1) by (auto simp: visible_def split: option.splits sum.splits)
qed

lemma put_names_ok:
  "off + sum_list (map (\<lambda>n. length n + 1) ns) \<le> length buf \<Longrightarrow>
   put_names h i c ns off buf = (let b = name_block (filter (visible h i c) ns)
     in Some (off + length b, take off buf @ b @ drop (off + length b) buf))"
proof (induction ns arbitrary: off buf)
  case Nil
  then show ?case by (simp add: name_block_def)
next
  case (Cons n ns)
  show ?case
  proof (cases "visible h i c n")
    case False
    then show ?thesis using Cons put_names_skip [OF False] by (simp del: put_names.simps)
  next
    case True
    let ?o = "off + length n + 1" and ?b = "take off buf @ (name_bytes n @ [0]) @ drop (off + length n + 1) buf"
    have l: "off + length n + 1 \<le> length buf" using Cons.prems by simp
    then have "length ?b = length buf" by simp
    then have "put_names h i c ns ?o ?b = (let b = name_block (filter (visible h i c) ns)
        in Some (?o + length b, take ?o ?b @ b @ drop (?o + length b) ?b))"
      using Cons by (intro Cons.IH) simp
    moreover have "take ?o ?b = take off buf @ name_bytes n @ [0]" "drop (?o + k) ?b = drop (?o + k) buf" for k
      using l by (simp_all add: min_def ac_simps)
    ultimately show ?thesis using put_names_step [OF True l] True by (simp add: Let_def name_block_def add.assoc del: put_names.simps)
  qed
qed

subsection \<open>Properties\<close>

text \<open>C28. The storage of an inode is a map from names to values: any sequence of \<open>set\<close> and \<open>remove\<close> on a new storage gives the same
  results as on a partial function, with the limits of 255 and 65536 bytes and the flags that ask for a new or an existing
  name, and \<open>get\<close> then returns what the function holds.\<close>

theorem xattr_storage_refines_map:
  "fst (run_ops xattr_op ps xs_new) = fst (run_ops spec_op ps Map.empty)
    \<and> xs_get n (snd (run_ops xattr_op ps xs_new)) = snd (run_ops spec_op ps Map.empty) n
    \<and> sorted_wrt (<) (xs_list (snd (run_ops xattr_op ps xs_new)))"
  using run_refines [OF xs_ok_new, of ps] by (simp add: xs_new_def xs_get_def xs_ok_def xs_list_def)

text \<open>Nobody but root reaches the attributes of the trusted and the security namespaces, or changes those of the system
  namespace: the calls return an error and change nothing.\<close>

theorem xattr_namespaces_protected:
  assumes "uid c \<noteq> 0" and "ns_from_name name = Some (ns, suffix)" and "ns \<noteq> NsUser"
  shows "(setxattr vi h c path name x flags xs = Some (r, xs') \<longrightarrow> (\<exists>e. r = Inl e) \<and> xs' = xs)
    \<and> (removexattr vi h c path name xs = Some (r, xs') \<longrightarrow> (\<exists>e. r = Inl e) \<and> xs' = xs)
    \<and> (ns \<noteq> NsSystem \<longrightarrow> getxattr vi h xs c path name buf = Some (q, buf') \<longrightarrow> (\<exists>e. q = Inl e) \<and> buf' = buf)"
proof -
  have w: "xattr_allowed h i c ns True = Inl PermissionDenied" for i
    using assms(1,3) by (cases ns) (simp_all add: xattr_allowed_def check_xattr_permission_def Let_def)
  have r: "ns \<noteq> NsSystem \<Longrightarrow> xattr_allowed h i c ns False = Inl PermissionDenied" for i
    using assms(1,3) by (cases ns) (simp_all add: xattr_allowed_def check_xattr_permission_def Let_def)
  show ?thesis
    by (auto simp: setxattr_def removexattr_def getxattr_def assms(2) w r split: if_splits option.splits sum.splits bind_splits)
qed

theorem xattr_namespaces_protected_witness:
  "\<exists>e. setxattr (Some (vfs_new 0)) demo_file (cred_user 1000 1000) ''/'' ''trusted.key'' [1] 0 (\<lambda>_. []) = Some (Inl e, \<lambda>_. [])"
proof -
  have n: "ns_from_name ''trusted.key'' = Some (NsTrusted, ''key'')" by code_simp
  have "resolve (vfs_new 0) demo_file ''/'' (cred_user 1000 1000) = Some (Inr 0)" by code_simp
  then obtain r xs' where s: "setxattr (Some (vfs_new 0)) demo_file (cred_user 1000 1000) ''/'' ''trusted.key'' [1] 0 (\<lambda>_. []) = Some (r, xs')"
    by (cases "xattr_allowed demo_file 0 (cred_user 1000 1000) NsTrusted True";
        cases "inode_setxattr 0 ''trusted.key'' [1] 0 (\<lambda>_. [])") (auto simp: setxattr_def n XATTR_SIZE_MAX_def)
  have "uid (cred_user 1000 1000) \<noteq> 0" by (simp add: cred_user_def)
  from xattr_namespaces_protected [OF this n, of "Some (vfs_new 0)" demo_file "''/''" "[1]" 0 "\<lambda>_. []" r xs'] s
  show ?thesis by auto
qed

text \<open>\<open>listxattr\<close> fills the buffer with exactly the names that the caller may read, each followed by a null byte, in order;
  it never writes behind them, and never panics when the path resolves.\<close>

theorem listxattr_block:
  assumes "resolve v h path c = Some (Inr i)" and "buf \<noteq> []"
  shows "listxattr (Some v) h xs c path buf =
    (if xs_list_size (xs i) > length buf then Some (Inl OutOfRange, buf)
     else let b = name_block (filter (visible h i c) (xs_list (xs i))) in Some (Inr (length b), b @ drop (length b) buf))"
  using assms put_names_ok [of 0 "xs_list (xs i)" buf h i c]
  by (auto simp: listxattr_def inode_listxattr_def xs_list_size_def xs_list_def Let_def)

theorem listxattr_block_witness:
  "listxattr (Some (vfs_new 0)) demo_file (\<lambda>_. [(''security.a'', [1]), (''user.b'', [2])]) (cred_user 1000 1000) ''/'' (replicate 20 9)
     = Some (Inr 7, [117, 115, 101, 114, 46, 98, 0] @ replicate 13 9)"
proof -
  let ?c = "cred_user 1000 1000" and ?xs = "\<lambda>_. [(''security.a'', [1]), (''user.b'', [2])]"
  have r: "resolve (vfs_new 0) demo_file ''/'' ?c = Some (Inr 0)" by code_simp
  have v: "visible demo_file 0 ?c ''security.a'' = False" "visible demo_file 0 ?c ''user.b'' = True" by code_simp+
  have b: "name_block [''user.b''] = [117, 115, 101, 114, 46, 98, 0]" by code_simp
  have "replicate 20 (9 :: u8) \<noteq> []" by simp
  from listxattr_block [OF r this, of ?xs] show ?thesis
    by (simp add: v b Let_def xs_list_def xs_list_size_def)
qed

end
