(* ===== verification/Acl.thy ===== *)
theory Acl
  imports Xattr
begin

text \<open>
  Access control lists, \<^verbatim>\<open>kernel/src/fs/acl.rs\<close>: lists of entries for users and groups with a mask, their form as an extended
  attribute, the check of an access, the inheritance from a directory, and the operations on the list of an inode.
\<close>

subsection \<open>Entries\<close>

definition ACL_VERSION :: u32 where "ACL_VERSION = 2"
definition ACL_MAX_ENTRIES :: nat where "ACL_MAX_ENTRIES = 32"

datatype AclTag = UserObj | NamedUser | GroupObj | NamedGroup | MaskObj | OtherObj

fun tag_to_u16 :: "AclTag \<Rightarrow> u16" where
  "tag_to_u16 UserObj = 0x01"
| "tag_to_u16 NamedUser = 0x02"
| "tag_to_u16 GroupObj = 0x04"
| "tag_to_u16 NamedGroup = 0x08"
| "tag_to_u16 MaskObj = 0x10"
| "tag_to_u16 OtherObj = 0x20"

definition tag_from_u16 :: "u16 \<Rightarrow> AclTag option" where
  "tag_from_u16 v =
     (if v = 0x01 then Some UserObj else if v = 0x02 then Some NamedUser else if v = 0x04 then Some GroupObj
      else if v = 0x08 then Some NamedGroup else if v = 0x10 then Some MaskObj else if v = 0x20 then Some OtherObj else None)"

definition requires_qualifier :: "AclTag \<Rightarrow> bool" where
  "requires_qualifier t \<longleftrightarrow> t = NamedUser \<or> t = NamedGroup"

type_synonym AclPerm = u16

definition perm_bits :: "u16 \<Rightarrow> AclPerm" where "perm_bits b = b AND 0x07"
definition ACL_READ :: u16 where "ACL_READ = 0x04"
definition ACL_WRITE :: u16 where "ACL_WRITE = 0x02"
definition ACL_EXECUTE :: u16 where "ACL_EXECUTE = 0x01"
definition perm_from_mode :: "u16 \<Rightarrow> AclPerm" where "perm_from_mode m = perm_bits (m AND 0x07)"
definition masked :: "AclPerm \<Rightarrow> AclPerm \<Rightarrow> AclPerm" where "masked p m = perm_bits (p AND m)"

record AclEntry =
  a_tag :: AclTag
  a_perm :: AclPerm
  a_qual :: u32

definition entry_new :: "AclTag \<Rightarrow> AclPerm \<Rightarrow> u32 \<Rightarrow> AclEntry" where
  "entry_new t p q = \<lparr>a_tag = t, a_perm = p, a_qual = q\<rparr>"

definition user_obj :: "AclPerm \<Rightarrow> AclEntry" where "user_obj p = entry_new UserObj p 0"
definition user_entry :: "uid \<Rightarrow> AclPerm \<Rightarrow> AclEntry" where "user_entry u p = entry_new NamedUser p u"
definition group_obj :: "AclPerm \<Rightarrow> AclEntry" where "group_obj p = entry_new GroupObj p 0"
definition group_entry :: "gid \<Rightarrow> AclPerm \<Rightarrow> AclEntry" where "group_entry g p = entry_new NamedGroup p g"
definition mask_entry :: "AclPerm \<Rightarrow> AclEntry" where "mask_entry p = entry_new MaskObj p 0"
definition other_entry :: "AclPerm \<Rightarrow> AclEntry" where "other_entry p = entry_new OtherObj p 0"

subsection \<open>Lists\<close>

type_synonym Acl = "AclEntry list"

definition acl_new :: Acl where "acl_new = []"

definition entry_is :: "AclTag \<Rightarrow> u32 \<Rightarrow> AclEntry \<Rightarrow> bool" where
  "entry_is t q e \<longleftrightarrow> a_tag e = t \<and> (\<not> requires_qualifier t \<or> a_qual e = q)"

definition acl_add :: "AclEntry \<Rightarrow> Acl \<Rightarrow> unit KResult \<times> Acl" where
  "acl_add e acl =
     (if length acl \<ge> ACL_MAX_ENTRIES then (Inl OutOfRange, acl)
      else (Inr (), filter (\<lambda>x. \<not> entry_is (a_tag e) (a_qual e) x) acl @ [e]))"

definition acl_from_mode :: "u16 \<Rightarrow> Acl" where
  "acl_from_mode m =
     (let acl = acl_new;
          acl = snd (acl_add (user_obj (perm_from_mode (drop_bit 6 m AND 0x7))) acl);
          acl = snd (acl_add (group_obj (perm_from_mode (drop_bit 3 m AND 0x7))) acl)
      in snd (acl_add (other_entry (perm_from_mode (m AND 0x7))) acl))"

definition acl_remove :: "AclTag \<Rightarrow> u32 \<Rightarrow> Acl \<Rightarrow> unit KResult \<times> Acl" where
  "acl_remove t q acl =
     (let acl' = filter (\<lambda>x. \<not> entry_is t q x) acl in
      (if length acl' = length acl then Inl NotFound else Inr (), acl'))"

definition acl_get :: "AclTag \<Rightarrow> u32 \<Rightarrow> Acl \<Rightarrow> AclEntry option" where
  "acl_get t q acl = find (entry_is t q) acl"

text \<open>Changing the permissions of the entry that \<open>get_entry_mut\<close> finds.\<close>

fun acl_put_perm :: "AclTag \<Rightarrow> u32 \<Rightarrow> AclPerm \<Rightarrow> Acl \<Rightarrow> Acl" where
  "acl_put_perm t q p [] = []"
| "acl_put_perm t q p (e # es) = (if entry_is t q e then e\<lparr>a_perm := p\<rparr> # es else e # acl_put_perm t q p es)"

definition acl_mask :: "Acl \<Rightarrow> AclPerm option" where
  "acl_mask acl = map_option a_perm (acl_get MaskObj 0 acl)"

definition is_minimal :: "Acl \<Rightarrow> bool" where
  "is_minimal acl \<longleftrightarrow> \<not> list_ex (\<lambda>e. a_tag e = NamedUser \<or> a_tag e = NamedGroup \<or> a_tag e = MaskObj) acl"

definition acl_to_mode :: "Acl \<Rightarrow> u16" where
  "acl_to_mode acl =
     (let m = 0;
          m = (case acl_get UserObj 0 acl of Some e \<Rightarrow> m OR push_bit 6 (a_perm e AND 0x7) | None \<Rightarrow> m);
          m = (case acl_mask acl of Some k \<Rightarrow> m OR push_bit 3 (k AND 0x7)
               | None \<Rightarrow> (case acl_get GroupObj 0 acl of Some e \<Rightarrow> m OR push_bit 3 (a_perm e AND 0x7) | None \<Rightarrow> m))
      in (case acl_get OtherObj 0 acl of Some e \<Rightarrow> m OR (a_perm e AND 0x7) | None \<Rightarrow> m))"

record Seen =
  has_user_obj :: bool
  has_group_obj :: bool
  has_other :: bool
  has_mask :: bool
  has_named :: bool

fun validate_loop :: "Acl \<Rightarrow> Seen \<Rightarrow> Seen KResult" where
  "validate_loop [] s = Inr s"
| "validate_loop (e # es) s =
     (case a_tag e of
        UserObj \<Rightarrow> if has_user_obj s then Inl Invalid else validate_loop es (s\<lparr>has_user_obj := True\<rparr>)
      | GroupObj \<Rightarrow> if has_group_obj s then Inl Invalid else validate_loop es (s\<lparr>has_group_obj := True\<rparr>)
      | OtherObj \<Rightarrow> if has_other s then Inl Invalid else validate_loop es (s\<lparr>has_other := True\<rparr>)
      | MaskObj \<Rightarrow> if has_mask s then Inl Invalid else validate_loop es (s\<lparr>has_mask := True\<rparr>)
      | _ \<Rightarrow> validate_loop es (s\<lparr>has_named := True\<rparr>))"

definition acl_validate :: "Acl \<Rightarrow> unit KResult" where
  "acl_validate acl =
     (case validate_loop acl \<lparr>has_user_obj = False, has_group_obj = False, has_other = False, has_mask = False, has_named = False\<rparr> of
        Inl e \<Rightarrow> Inl e
      | Inr s \<Rightarrow>
          if \<not> has_user_obj s \<or> \<not> has_group_obj s \<or> \<not> has_other s then Inl Invalid
          else if has_named s \<and> \<not> has_mask s then Inl Invalid
          else Inr ())"

definition group_class_union :: "Acl \<Rightarrow> u16" where
  "group_class_union acl = fold (\<lambda>e m. if a_tag e = GroupObj \<or> a_tag e = NamedGroup \<or> a_tag e = NamedUser then m OR a_perm e else m) acl 0"

definition recalculate_mask :: "Acl \<Rightarrow> Acl" where
  "recalculate_mask acl =
     (let m = group_class_union acl in
      if acl_get MaskObj 0 acl \<noteq> None then acl_put_perm MaskObj 0 (perm_bits m) acl
      else if m \<noteq> 0 then snd (acl_add (mask_entry (perm_bits m)) acl)
      else acl)"

subsection \<open>The form as an extended attribute\<close>

definition entry_bytes :: "AclEntry \<Rightarrow> u8 list" where
  "entry_bytes e = le_bytes 2 (unat (tag_to_u16 (a_tag e))) @ le_bytes 2 (unat (a_perm e)) @ le_bytes 4 (unat (a_qual e))"

definition acl_to_xattr :: "Acl \<Rightarrow> u8 list" where
  "acl_to_xattr acl = le_bytes 4 (unat ACL_VERSION) @ concat (map entry_bytes acl)"

fun parse_entries :: "u8 list \<Rightarrow> Acl \<Rightarrow> Acl KResult" where
  "parse_entries (a # b # c # d # e # f # g # h # rest) acl =
     (case tag_from_u16 (word_of_nat (of_le_bytes [a, b])) of
        None \<Rightarrow> Inl Invalid
      | Some t \<Rightarrow>
          (case acl_add (entry_new t (perm_bits (word_of_nat (of_le_bytes [c, d]))) (word_of_nat (of_le_bytes [e, f, g, h]))) acl of
             (Inl er, _) \<Rightarrow> Inl er
           | (Inr _, acl) \<Rightarrow> parse_entries rest acl))"
| "parse_entries _ acl = Inr acl"

definition acl_from_xattr :: "u8 list \<Rightarrow> Acl KResult" where
  "acl_from_xattr x =
     (if length x < 4 then Inl Invalid
      else if (word_of_nat (of_le_bytes (take 4 x)) :: u32) \<noteq> ACL_VERSION then Inl NotSupported
      else if length (drop 4 x) mod 8 \<noteq> 0 then Inl Invalid
      else parse_entries (drop 4 x) acl_new)"

subsection \<open>Access\<close>

definition grants :: "AclPerm \<Rightarrow> AclPerm \<Rightarrow> bool" where
  "grants p requested \<longleftrightarrow> p AND requested = requested"

definition effective :: "Acl \<Rightarrow> AclEntry \<Rightarrow> AclPerm" where
  "effective acl e = (case acl_mask acl of Some m \<Rightarrow> masked (a_perm e) m | None \<Rightarrow> a_perm e)"

text \<open>\<open>cred.groups.contains(..)\<close> looks at all 32 slots of the array.\<close>

definition has_gid :: "Cred \<Rightarrow> gid \<Rightarrow> bool" where
  "has_gid c g \<longleftrightarrow> gid c = g \<or> g \<in> set (groups c)"

definition check_acl_access :: "Acl \<Rightarrow> Cred \<Rightarrow> uid \<Rightarrow> gid \<Rightarrow> AclPerm \<Rightarrow> unit KResult" where
  "check_acl_access acl c fuid fgid requested =
     (let answer = (\<lambda>ok. if ok then Inr () else Inl PermissionDenied);
          owner = (if uid c = fuid then acl_get UserObj 0 acl else None)
      in if uid c = 0 then Inr ()
      else case owner of
        Some e \<Rightarrow> answer (grants (a_perm e) requested)
      | None \<Rightarrow> (case acl_get NamedUser (uid c) acl of
          Some e \<Rightarrow> answer (grants (effective acl e) requested)
        | None \<Rightarrow>
            (let own = has_gid c fgid;
                 own_ok = own \<and> (case acl_get GroupObj 0 acl of Some e \<Rightarrow> grants (effective acl e) requested | None \<Rightarrow> False);
                 (matched, ok) = fold (\<lambda>e (matched, ok).
                    if a_tag e = NamedGroup \<and> has_gid c (a_qual e) then (True, ok \<or> grants (effective acl e) requested)
                    else (matched, ok)) acl (own, own_ok)
             in if matched then answer ok
                else case acl_get OtherObj 0 acl of
                  Some e \<Rightarrow> answer (grants (a_perm e) requested)
                | None \<Rightarrow> Inl PermissionDenied)))"

subsection \<open>Inheritance\<close>

definition umask_entry :: "u16 \<Rightarrow> AclEntry \<Rightarrow> AclEntry" where
  "umask_entry um e =
     (case a_tag e of
        UserObj \<Rightarrow> e\<lparr>a_perm := perm_bits (a_perm e AND NOT (drop_bit 6 um AND 0x7))\<rparr>
      | OtherObj \<Rightarrow> e\<lparr>a_perm := perm_bits (a_perm e AND NOT (um AND 0x7))\<rparr>
      | MaskObj \<Rightarrow> e
      | _ \<Rightarrow> e\<lparr>a_perm := perm_bits (a_perm e AND NOT (drop_bit 3 um AND 0x7))\<rparr>)"

definition inherit_for_file :: "Acl \<Rightarrow> u16 \<Rightarrow> Acl" where
  "inherit_for_file acl um = recalculate_mask (map (umask_entry um) acl)"

definition inherit_for_dir :: "Acl \<Rightarrow> u16 \<Rightarrow> Acl \<times> Acl" where
  "inherit_for_dir acl um = (inherit_for_file acl um, acl)"

subsection \<open>The lists of an inode\<close>

definition POSIX_ACL_ACCESS :: string where "POSIX_ACL_ACCESS = ''system.posix_acl_access''"
definition POSIX_ACL_DEFAULT :: string where "POSIX_ACL_DEFAULT = ''system.posix_acl_default''"

definition get_acl_at :: "string \<Rightarrow> nat \<Rightarrow> Xattrs \<Rightarrow> Acl KResult" where
  "get_acl_at key i xs = (case inode_getxattr i key xs of Inl e \<Rightarrow> Inl e | Inr x \<Rightarrow> acl_from_xattr x)"

definition set_acl_at :: "string \<Rightarrow> nat \<Rightarrow> Acl \<Rightarrow> Xattrs \<Rightarrow> unit KResult \<times> Xattrs" where
  "set_acl_at key i acl xs = (case acl_validate acl of Inl e \<Rightarrow> (Inl e, xs) | Inr _ \<Rightarrow> inode_setxattr i key (acl_to_xattr acl) 0 xs)"

definition get_acl :: "nat \<Rightarrow> Xattrs \<Rightarrow> Acl KResult" where "get_acl i xs = get_acl_at POSIX_ACL_ACCESS i xs"
definition set_acl :: "nat \<Rightarrow> Acl \<Rightarrow> Xattrs \<Rightarrow> unit KResult \<times> Xattrs" where "set_acl i acl xs = set_acl_at POSIX_ACL_ACCESS i acl xs"
definition remove_acl :: "nat \<Rightarrow> Xattrs \<Rightarrow> unit KResult \<times> Xattrs" where "remove_acl i xs = inode_removexattr i POSIX_ACL_ACCESS xs"
definition get_default_acl :: "nat \<Rightarrow> Xattrs \<Rightarrow> Acl KResult" where "get_default_acl i xs = get_acl_at POSIX_ACL_DEFAULT i xs"
definition set_default_acl :: "nat \<Rightarrow> Acl \<Rightarrow> Xattrs \<Rightarrow> unit KResult \<times> Xattrs" where "set_default_acl i acl xs = set_acl_at POSIX_ACL_DEFAULT i acl xs"
definition remove_default_acl :: "nat \<Rightarrow> Xattrs \<Rightarrow> unit KResult \<times> Xattrs" where "remove_default_acl i xs = inode_removexattr i POSIX_ACL_DEFAULT xs"

definition has_acl :: "nat \<Rightarrow> Xattrs \<Rightarrow> bool" where "has_acl i xs \<longleftrightarrow> \<not> isl (inode_getxattr i POSIX_ACL_ACCESS xs)"
definition has_default_acl :: "nat \<Rightarrow> Xattrs \<Rightarrow> bool" where "has_default_acl i xs \<longleftrightarrow> \<not> isl (inode_getxattr i POSIX_ACL_DEFAULT xs)"

text \<open>The common body of the functions that grant: the list of the inode, or that of its mode, with one more entry.\<close>

definition grant_entry :: "Heap \<Rightarrow> nat \<Rightarrow> AclEntry \<Rightarrow> Xattrs \<Rightarrow> unit KResult \<times> Xattrs" where
  "grant_entry h i e xs =
     (let acl = (case get_acl i xs of Inr acl \<Rightarrow> acl | Inl _ \<Rightarrow> acl_from_mode (m_mode (metadata h i))) in
      case acl_add e acl of
        (Inl er, _) \<Rightarrow> (Inl er, xs)
      | (Inr _, acl) \<Rightarrow> set_acl i (recalculate_mask acl) xs)"

definition grant_user_read :: "Heap \<Rightarrow> nat \<Rightarrow> uid \<Rightarrow> Xattrs \<Rightarrow> unit KResult \<times> Xattrs" where
  "grant_user_read h i u xs = grant_entry h i (user_entry u (perm_bits ACL_READ)) xs"

definition grant_user_rw :: "Heap \<Rightarrow> nat \<Rightarrow> uid \<Rightarrow> Xattrs \<Rightarrow> unit KResult \<times> Xattrs" where
  "grant_user_rw h i u xs = grant_entry h i (user_entry u (perm_bits (ACL_READ OR ACL_WRITE))) xs"

definition grant_user_full :: "Heap \<Rightarrow> nat \<Rightarrow> uid \<Rightarrow> Xattrs \<Rightarrow> unit KResult \<times> Xattrs" where
  "grant_user_full h i u xs = grant_entry h i (user_entry u (perm_bits (ACL_READ OR ACL_WRITE OR ACL_EXECUTE))) xs"

definition grant_group_read :: "Heap \<Rightarrow> nat \<Rightarrow> gid \<Rightarrow> Xattrs \<Rightarrow> unit KResult \<times> Xattrs" where
  "grant_group_read h i g xs = grant_entry h i (group_entry g (perm_bits ACL_READ)) xs"

definition grant_group_rw :: "Heap \<Rightarrow> nat \<Rightarrow> gid \<Rightarrow> Xattrs \<Rightarrow> unit KResult \<times> Xattrs" where
  "grant_group_rw h i g xs = grant_entry h i (group_entry g (perm_bits (ACL_READ OR ACL_WRITE))) xs"

definition revoke :: "nat \<Rightarrow> AclTag \<Rightarrow> u32 \<Rightarrow> Xattrs \<Rightarrow> unit KResult \<times> Xattrs" where
  "revoke i t q xs =
     (case get_acl i xs of
        Inl e \<Rightarrow> (Inl e, xs)
      | Inr acl \<Rightarrow> (case acl_remove t q acl of
          (Inl e, _) \<Rightarrow> (Inl e, xs)
        | (Inr _, acl) \<Rightarrow>
            let acl = recalculate_mask acl in if is_minimal acl then remove_acl i xs else set_acl i acl xs))"

definition revoke_user :: "nat \<Rightarrow> uid \<Rightarrow> Xattrs \<Rightarrow> unit KResult \<times> Xattrs" where "revoke_user i u xs = revoke i NamedUser u xs"
definition revoke_group :: "nat \<Rightarrow> gid \<Rightarrow> Xattrs \<Rightarrow> unit KResult \<times> Xattrs" where "revoke_group i g xs = revoke i NamedGroup g xs"


subsection \<open>Well-formed lists\<close>

text \<open>One entry per key, three permission bits, at most 32 entries.\<close>

definition acl_key :: "AclEntry \<Rightarrow> AclTag \<times> u32" where
  "acl_key e = (a_tag e, if requires_qualifier (a_tag e) then a_qual e else 0)"

definition acl_ok :: "Acl \<Rightarrow> bool" where
  "acl_ok acl \<longleftrightarrow> distinct (map acl_key acl) \<and> (\<forall>e \<in> set acl. perm_bits (a_perm e) = a_perm e) \<and> length acl \<le> ACL_MAX_ENTRIES"

lemma entry_is_key: "entry_is t q e \<longleftrightarrow> acl_key e = (t, if requires_qualifier t then q else 0)"
  by (auto simp: entry_is_def acl_key_def)

lemma entry_is_self: "entry_is (a_tag e) (a_qual e) e' \<longleftrightarrow> acl_key e' = acl_key e"
  by (simp add: entry_is_key acl_key_def)

lemma perm_bits_idem [simp]: "perm_bits (perm_bits p) = perm_bits p"
  by (simp add: perm_bits_def ac_simps)

lemma acl_ok_filter: "acl_ok acl \<Longrightarrow> acl_ok (filter P acl)"
  by (auto simp: acl_ok_def distinct_map_filter intro: order.trans [OF length_filter_le])

lemma acl_ok_add:
  assumes "acl_ok acl" "perm_bits (a_perm e) = a_perm e"
  shows "acl_ok (snd (acl_add e acl))"
proof (cases "length acl \<ge> ACL_MAX_ENTRIES")
  case False
  let ?keep = "filter (\<lambda>x. \<not> entry_is (a_tag e) (a_qual e) x) acl"
  have "length ?keep < ACL_MAX_ENTRIES" using False length_filter_le [of "\<lambda>x. \<not> entry_is (a_tag e) (a_qual e) x" acl] by linarith
  moreover have "acl_ok ?keep" using assms(1) by (rule acl_ok_filter)
  ultimately show ?thesis using False assms(2) by (auto simp: acl_ok_def acl_add_def entry_is_self)
qed (use assms in \<open>simp add: acl_add_def\<close>)

lemma map_key_put_perm [simp]: "map acl_key (acl_put_perm t q p acl) = map acl_key acl"
  by (induction acl) (auto simp: acl_key_def)

lemma length_put_perm [simp]: "length (acl_put_perm t q p acl) = length acl"
  by (induction acl) auto

lemma set_put_perm: "e \<in> set (acl_put_perm t q p acl) \<Longrightarrow> e \<in> set acl \<or> a_perm e = p"
  by (induction acl) (auto split: if_splits)

lemma tags_put_perm [simp]: "map a_tag (acl_put_perm t q p acl) = map a_tag acl"
  by (induction acl) auto

lemma acl_ok_put_perm: "acl_ok acl \<Longrightarrow> perm_bits p = p \<Longrightarrow> acl_ok (acl_put_perm t q p acl)"
  using set_put_perm [of _ t q p acl] by (auto simp: acl_ok_def)

lemma acl_ok_recalculate: "acl_ok acl \<Longrightarrow> acl_ok (recalculate_mask acl)"
  by (auto simp: recalculate_mask_def Let_def mask_entry_def entry_new_def intro!: acl_ok_put_perm acl_ok_add)

lemma acl_ok_umask: "acl_ok acl \<Longrightarrow> acl_ok (map (umask_entry um) acl)"
proof -
  have k: "acl_key \<circ> umask_entry um = acl_key" by (auto simp: fun_eq_iff umask_entry_def acl_key_def split: AclTag.split)
  show "acl_ok acl \<Longrightarrow> acl_ok (map (umask_entry um) acl)" by (auto simp: acl_ok_def k umask_entry_def split: AclTag.split)
qed

lemma acl_ok_new: "acl_ok acl_new"
  by (simp add: acl_ok_def acl_new_def)

lemma acl_ok_from_mode: "acl_ok (acl_from_mode m)"
  by (auto simp: acl_from_mode_def Let_def user_obj_def group_obj_def other_entry_def entry_new_def perm_from_mode_def
      intro!: acl_ok_add acl_ok_new)

lemma acl_ok_parse: "parse_entries x acl = Inr acl' \<Longrightarrow> acl_ok acl \<Longrightarrow> acl_ok acl'"
proof (induction x acl rule: parse_entries.induct)
  case (1 a b c d e f g h rest acl)
  then obtain t en acl1 where p: "tag_from_u16 (word_of_nat (of_le_bytes [a, b])) = Some t"
      "en = entry_new t (perm_bits (word_of_nat (of_le_bytes [c, d]))) (word_of_nat (of_le_bytes [e, f, g, h]))"
      "acl_add en acl = (Inr (), acl1)" "parse_entries rest acl1 = Inr acl'"
    by (auto split: option.splits prod.splits sum.splits)
  have "acl_ok acl1" using acl_ok_add [OF "1.prems"(2), of en] p(2,3) by (simp add: entry_new_def)
  then show ?case using "1.IH" [OF p(1)] p(2-4) by auto
qed auto

lemma acl_ok_from_xattr: "acl_from_xattr x = Inr acl \<Longrightarrow> acl_ok acl"
  using acl_ok_parse acl_ok_new by (auto simp: acl_from_xattr_def split: if_splits)

text \<open>The lists that a program can build with the operations.\<close>

inductive acl_built :: "Acl \<Rightarrow> bool" where
  new: "acl_built acl_new"
| mode: "acl_built (acl_from_mode m)"
| add: "acl_built acl \<Longrightarrow> acl_built (snd (acl_add (entry_new t (perm_bits p) q) acl))"
| remove: "acl_built acl \<Longrightarrow> acl_built (snd (acl_remove t q acl))"
| recalculate: "acl_built acl \<Longrightarrow> acl_built (recalculate_mask acl)"
| inherit: "acl_built acl \<Longrightarrow> acl_built (inherit_for_file acl um)"
| parsed: "acl_from_xattr x = Inr acl \<Longrightarrow> acl_built acl"

lemma acl_built_ok: "acl_built acl \<Longrightarrow> acl_ok acl"
proof (induction rule: acl_built.induct)
  case (add acl t p q)
  then show ?case by (intro acl_ok_add) (auto simp: entry_new_def)
qed (auto simp: acl_ok_new acl_ok_from_mode acl_remove_def Let_def acl_ok_filter acl_ok_recalculate inherit_for_file_def acl_ok_umask acl_ok_from_xattr)

subsection \<open>The attribute form is faithful\<close>

lemma tag_from_to [simp]: "tag_from_u16 (tag_to_u16 t) = Some t"
  by (cases t) (simp_all add: tag_from_u16_def)

lemma le_bytes_2: obtains a b where "le_bytes 2 v = [a, b]"
  by (simp add: le_bytes_def numeral_2_eq_2)

lemma le_bytes_4: obtains a b c d where "le_bytes 4 v = [a, b, c, d]"
proof -
  have "[0..<4] = [0, 1, 2, 3]" by (simp add: upt_rec)
  then show thesis using that by (simp add: le_bytes_def)
qed

lemma u16_bytes: "(word_of_nat (of_le_bytes (le_bytes 2 (unat w))) :: u16) = w"
  using unsigned_less [of w, where 'a = nat] by (simp add: of_le_bytes_le_bytes)

lemma u32_bytes: "(word_of_nat (of_le_bytes (le_bytes 4 (unat w))) :: u32) = w"
  using unsigned_less [of w, where 'a = nat] by (simp add: of_le_bytes_le_bytes)

lemma parse_entry:
  assumes "perm_bits (a_perm en) = a_perm en"
  shows "parse_entries (entry_bytes en @ rest) acl =
    (case acl_add en acl of (Inl er, _) \<Rightarrow> Inl er | (Inr _, acl) \<Rightarrow> parse_entries rest acl)"
proof -
  obtain a b where ab: "le_bytes 2 (unat (tag_to_u16 (a_tag en))) = [a, b]" by (rule le_bytes_2)
  obtain c d where cd: "le_bytes 2 (unat (a_perm en)) = [c, d]" by (rule le_bytes_2)
  obtain e f g h where eh: "le_bytes 4 (unat (a_qual en)) = [e, f, g, h]" by (rule le_bytes_4)
  have "tag_from_u16 (word_of_nat (of_le_bytes [a, b])) = Some (a_tag en)"
    "word_of_nat (of_le_bytes [c, d]) = a_perm en" "word_of_nat (of_le_bytes [e, f, g, h]) = a_qual en"
    using u16_bytes u32_bytes by (simp_all flip: ab cd eh)
  moreover have "entry_new (a_tag en) (a_perm en) (a_qual en) = en" by (simp add: entry_new_def)
  ultimately show ?thesis using assms by (simp add: entry_bytes_def ab cd eh del: of_le_bytes.simps)
qed

lemma parse_all:
  assumes "acl_ok (pre @ acl)"
  shows "parse_entries (concat (map entry_bytes acl)) pre = Inr (pre @ acl)"
  using assms
proof (induction acl arbitrary: pre)
  case (Cons e acl)
  have "filter (\<lambda>x. \<not> entry_is (a_tag e) (a_qual e) x) pre = pre" "length pre < ACL_MAX_ENTRIES"
    using Cons.prems by (auto simp: acl_ok_def entry_is_self filter_id_conv intro: rev_image_eqI)
  then have "acl_add e pre = (Inr (), pre @ [e])" by (simp add: acl_add_def)
  then show ?case using Cons.prems Cons.IH [of "pre @ [e]"] parse_entry [of e] by (simp add: acl_ok_def)
qed simp

lemma length_entry_bytes: "length (concat (map entry_bytes acl)) = 8 * length acl"
  by (induction acl) (auto simp: entry_bytes_def length_le_bytes)

lemma xattr_roundtrip: "acl_ok acl \<Longrightarrow> acl_from_xattr (acl_to_xattr acl) = Inr acl"
  using parse_all [of "[]" acl] u32_bytes [of ACL_VERSION]
  by (simp add: acl_from_xattr_def acl_to_xattr_def length_le_bytes length_entry_bytes acl_new_def)

subsection \<open>Validation counts the entries of each tag\<close>

definition cnt :: "AclTag \<Rightarrow> Acl \<Rightarrow> nat" where
  "cnt t acl = length (filter (\<lambda>e. a_tag e = t) acl)"

lemma cnt_simps [simp]: "cnt t [] = 0" "cnt t (e # acl) = (if a_tag e = t then Suc (cnt t acl) else cnt t acl)"
  by (simp_all add: cnt_def)

lemma validate_loop_spec:
  "validate_loop acl s =
     (if of_bool (has_user_obj s) + cnt UserObj acl \<le> 1 \<and> of_bool (has_group_obj s) + cnt GroupObj acl \<le> 1
         \<and> of_bool (has_other s) + cnt OtherObj acl \<le> 1 \<and> of_bool (has_mask s) + cnt MaskObj acl \<le> 1
      then Inr \<lparr>has_user_obj = has_user_obj s \<or> 0 < cnt UserObj acl, has_group_obj = has_group_obj s \<or> 0 < cnt GroupObj acl,
                has_other = has_other s \<or> 0 < cnt OtherObj acl, has_mask = has_mask s \<or> 0 < cnt MaskObj acl,
                has_named = has_named s \<or> 0 < cnt NamedUser acl + cnt NamedGroup acl\<rparr>
      else Inl Invalid)"
proof (induction acl arbitrary: s)
  case (Cons e acl)
  show ?case by (cases "a_tag e") (simp_all add: Cons.IH)
qed simp

definition well_formed :: "Acl \<Rightarrow> bool" where
  "well_formed acl \<longleftrightarrow> cnt UserObj acl = 1 \<and> cnt GroupObj acl = 1 \<and> cnt OtherObj acl = 1 \<and> cnt MaskObj acl \<le> 1
     \<and> (cnt NamedUser acl + cnt NamedGroup acl > 0 \<longrightarrow> cnt MaskObj acl = 1)"

lemma validate_spec: "acl_validate acl = (if well_formed acl then Inr () else Inl Invalid)"
  by (auto simp: acl_validate_def validate_loop_spec well_formed_def)

lemma cnt_pos: "0 < cnt t acl \<longleftrightarrow> (\<exists>e \<in> set acl. a_tag e = t)"
  by (auto simp: cnt_def filter_empty_conv)

lemma cnt_tags: "cnt t acl = count_list (map a_tag acl) t"
  by (induction acl) auto

lemma cnt_put_perm: "cnt t (acl_put_perm t' q p acl) = cnt t acl"
  by (simp add: cnt_tags)

lemma cnt_in: "0 < cnt t acl \<longleftrightarrow> t \<in> a_tag ` set acl"
  by (auto simp: cnt_pos)

lemma cnt_le_1: "acl_ok acl \<Longrightarrow> \<not> requires_qualifier t \<Longrightarrow> cnt t acl \<le> 1"
proof (induction acl)
  case (Cons e acl)
  have "cnt t acl = 0" if "a_tag e = t"
  proof (rule ccontr)
    assume "cnt t acl \<noteq> 0"
    then obtain e' where "e' \<in> set acl" "a_tag e' = t" using cnt_pos by blast
    then have "acl_key e \<in> acl_key ` set acl" using that Cons.prems(2) by (auto simp: acl_key_def intro: rev_image_eqI)
    then show False using Cons.prems(1) by (simp add: acl_ok_def)
  qed
  then show ?case using Cons by (auto simp: acl_ok_def)
qed simp

lemma mask_present: "acl_mask acl \<noteq> None \<longleftrightarrow> 0 < cnt MaskObj acl"
  by (auto simp: acl_mask_def acl_get_def find_None_iff cnt_pos entry_is_def requires_qualifier_def)

subsection \<open>Entries after an operation\<close>

lemma get_SomeD: "acl_get t q acl = Some e \<Longrightarrow> e \<in> set acl \<and> entry_is t q e"
  by (auto simp: acl_get_def find_Some_iff)

lemma find_append: "find P (xs @ ys) = (case find P xs of None \<Rightarrow> find P ys | Some x \<Rightarrow> Some x)"
  by (induction xs) auto

lemma find_filter_not: "find P (filter (\<lambda>x. \<not> P x) xs) = None"
  by (auto simp: find_None_iff)

lemma get_add: "acl_add e acl = (Inr (), acl') \<Longrightarrow> acl_get (a_tag e) (a_qual e) acl' = Some e"
  using find_filter_not [of "entry_is (a_tag e) (a_qual e)" acl]
  by (auto simp: acl_add_def acl_get_def find_append entry_is_self split: if_splits)

lemma find_filter_other: "(\<And>x. P x \<Longrightarrow> Q x) \<Longrightarrow> find P (filter Q xs) = find P xs"
  by (induction xs) auto

lemma get_add_other:
  assumes "acl_add e acl = (r, acl')" "\<And>x. entry_is t q x \<Longrightarrow> acl_key x \<noteq> acl_key e"
  shows "acl_get t q acl' = acl_get t q acl"
proof -
  have "find (entry_is t q) (filter (\<lambda>x. acl_key x \<noteq> acl_key e) acl) = find (entry_is t q) acl"
    using assms(2) by (rule find_filter_other)
  moreover have "\<not> entry_is t q e" using assms(2) by blast
  ultimately show ?thesis using assms(1)
    by (auto simp: acl_add_def acl_get_def find_append entry_is_self split: if_splits option.split)
qed

lemma get_put_perm_other: "t \<noteq> t' \<Longrightarrow> acl_get t q (acl_put_perm t' q' p acl) = acl_get t q acl"
  by (induction acl) (auto simp: acl_get_def entry_is_def)

lemma get_put_perm: "acl_get t q (acl_put_perm t q p acl) = map_option (a_perm_update (\<lambda>_. p)) (acl_get t q acl)"
  by (induction acl) (auto simp: acl_get_def entry_is_def)

lemma get_recalculate: "t \<noteq> MaskObj \<Longrightarrow> acl_get t q (recalculate_mask acl) = acl_get t q acl"
proof -
  assume t: "t \<noteq> MaskObj"
  have "acl_get t q (snd (acl_add (mask_entry p) acl)) = acl_get t q acl" for p
    by (rule get_add_other [of "mask_entry p" acl "fst (acl_add (mask_entry p) acl)"])
      (use t in \<open>auto simp: entry_is_def acl_key_def mask_entry_def entry_new_def\<close>)
  then show ?thesis using t by (simp add: recalculate_mask_def Let_def get_put_perm_other)
qed

lemma mask_recalculate: "acl_mask (recalculate_mask acl) \<in> {None, Some (perm_bits (group_class_union acl))}"
proof -
  have "acl_mask (snd (acl_add (mask_entry p) acl)) = Some p" if "length acl < ACL_MAX_ENTRIES" for p
    using get_add [of "mask_entry p" acl] that by (simp add: acl_mask_def acl_add_def mask_entry_def entry_new_def)
  moreover have "acl_get MaskObj 0 acl = None" if "acl_mask acl = None" using that by (simp add: acl_mask_def)
  ultimately show ?thesis
    by (auto simp: recalculate_mask_def Let_def get_put_perm acl_mask_def acl_add_def not_le)
qed

lemma bit_union:
  "bit (fold (\<lambda>e m. if a_tag e = GroupObj \<or> a_tag e = NamedGroup \<or> a_tag e = NamedUser then m OR a_perm e else m) acl s) n \<longleftrightarrow>
     bit s n \<or> (\<exists>e \<in> set acl. a_tag e \<in> {GroupObj, NamedGroup, NamedUser} \<and> bit (a_perm e) n)"
  by (induction acl arbitrary: s) (auto simp: bit_or_iff)

lemma group_class_union_le:
  "e \<in> set acl \<Longrightarrow> a_tag e \<in> {GroupObj, NamedGroup, NamedUser} \<Longrightarrow> a_perm e AND group_class_union acl = a_perm e"
  unfolding group_class_union_def by (rule bit_word_eqI) (auto simp: bit_and_iff bit_union)

subsection \<open>The list in the attribute of an inode\<close>

lemma get_inode_set:
  "xs_ok (xs i) \<Longrightarrow> inode_getxattr j k (xs(i := ch_insert n x (xs i))) = (if j = i \<and> k = n then Inr x else inode_getxattr j k xs)"
  by (auto simp: inode_getxattr_def xs_get_def xs_ok_def map_of_ch_insert)

lemma set_acl_ok:
  assumes "acl_ok acl" "well_formed acl" "length key \<le> XATTR_NAME_MAX"
  shows "set_acl_at key i acl xs = (Inr (), xs(i := ch_insert key (acl_to_xattr acl) (xs i)))"
proof -
  have "length (acl_to_xattr acl) \<le> XATTR_SIZE_MAX"
    using assms(1) by (simp add: acl_to_xattr_def length_entry_bytes acl_ok_def XATTR_SIZE_MAX_def ACL_MAX_ENTRIES_def)
  then show ?thesis using assms(2,3)
    by (simp add: set_acl_at_def validate_spec inode_setxattr_def xs_set_def is_create_def is_replace_def)
qed

lemma length_access [simp]: "length POSIX_ACL_ACCESS \<le> XATTR_NAME_MAX"
  by (simp add: POSIX_ACL_ACCESS_def XATTR_NAME_MAX_def)

lemma set_acl_bad: "\<not> well_formed acl \<Longrightarrow> set_acl_at key i acl xs = (Inl Invalid, xs)"
  by (simp add: set_acl_at_def validate_spec)

lemma set_acl_get:
  assumes "acl_ok acl" "xs_ok (xs i)" "set_acl i acl xs = (Inr (), xs')"
  shows "well_formed acl" "get_acl i xs' = Inr acl" "xs_ok (xs' i)"
    "\<And>j k. j \<noteq> i \<or> k \<noteq> POSIX_ACL_ACCESS \<Longrightarrow> inode_getxattr j k xs' = inode_getxattr j k xs"
proof -
  show wf: "well_formed acl" using assms(3) set_acl_bad [of acl] by (force simp: set_acl_def)
  have x: "xs' = xs(i := ch_insert POSIX_ACL_ACCESS (acl_to_xattr acl) (xs i))"
    using assms(3) set_acl_ok [OF assms(1) wf length_access] by (simp add: set_acl_def)
  show "get_acl i xs' = Inr acl"
    by (simp add: x get_acl_def get_acl_at_def get_inode_set [of xs i, OF assms(2)] xattr_roundtrip [OF assms(1)])
  show "xs_ok (xs' i)"
    using xs_ok_set [OF assms(2), of POSIX_ACL_ACCESS "acl_to_xattr acl" 0] assms(3) wf
    by (simp add: set_acl_def set_acl_at_def validate_spec inode_setxattr_def split: prod.splits) (metis snd_conv fun_upd_same)
  show "\<And>j k. j \<noteq> i \<or> k \<noteq> POSIX_ACL_ACCESS \<Longrightarrow> inode_getxattr j k xs' = inode_getxattr j k xs"
    by (auto simp: x get_inode_set [of xs i, OF assms(2)])
qed

text \<open>A successful grant leaves the new entry in the list, under a mask that covers it.\<close>

lemma grant_entry_ok:
  assumes g: "grant_entry h i e xs = (Inr (), xs')" and ok: "xs_ok (xs i)" and p: "perm_bits (a_perm e) = a_perm e"
    and t: "requires_qualifier (a_tag e)"
  obtains acl m where "get_acl i xs' = Inr acl" "acl_ok acl" "well_formed acl" "acl_get (a_tag e) (a_qual e) acl = Some e"
    "acl_mask acl = Some m" "a_perm e AND m = a_perm e"
proof -
  define acl0 where "acl0 = (case get_acl i xs of Inr acl \<Rightarrow> acl | Inl _ \<Rightarrow> acl_from_mode (m_mode (metadata h i)))"
  have ok0: "acl_ok acl0"
    using acl_ok_from_xattr acl_ok_from_mode by (auto simp: acl0_def get_acl_def get_acl_at_def split: sum.splits)
  obtain acl1 where a: "acl_add e acl0 = (Inr (), acl1)" and s: "set_acl i (recalculate_mask acl1) xs = (Inr (), xs')"
    using g by (auto simp: grant_entry_def acl0_def Let_def split: prod.splits sum.splits)
  have ok1: "acl_ok acl1" using acl_ok_add [OF ok0 p] a by simp
  note set = set_acl_get [OF acl_ok_recalculate [OF ok1] ok s]
  have e: "acl_get (a_tag e) (a_qual e) (recalculate_mask acl1) = Some e"
    using get_recalculate get_add [OF a] t by (auto simp: requires_qualifier_def)
  have tag: "a_tag e \<in> {NamedUser, NamedGroup}" using t by (simp add: requires_qualifier_def)
  have "e \<in> set (recalculate_mask acl1)" using get_SomeD [OF e] by simp
  then have "0 < cnt NamedUser (recalculate_mask acl1) + cnt NamedGroup (recalculate_mask acl1)"
    using tag cnt_pos [of "a_tag e"] by (metis add_gr_0 insertE singletonD)
  then have "acl_mask (recalculate_mask acl1) \<noteq> None" using set(1) unfolding mask_present by (simp add: well_formed_def)
  then have m: "acl_mask (recalculate_mask acl1) = Some (perm_bits (group_class_union acl1))"
    using mask_recalculate [of acl1] by auto
  have "e \<in> set acl1" using get_SomeD [OF get_add [OF a]] by simp
  then have "a_perm e AND group_class_union acl1 = a_perm e" using tag by (intro group_class_union_le) auto
  then have "a_perm e AND perm_bits (group_class_union acl1) = a_perm e"
    using p by (simp add: perm_bits_def flip: and.assoc)
  then show thesis using that set(1,2) e m acl_ok_recalculate [OF ok1] by blast
qed

subsection \<open>Lists made from a mode\<close>

definition rwx :: "bool \<Rightarrow> bool \<Rightarrow> bool \<Rightarrow> AclPerm" where
  "rwx r w x = (if r then ACL_READ else 0) OR (if w then ACL_WRITE else 0) OR (if x then ACL_EXECUTE else 0)"

lemma bit_rwx: "bit (rwx r w x) n \<longleftrightarrow> (r \<and> n = 2) \<or> (w \<and> n = 1) \<or> (x \<and> n = 0)"
proof -
  have "bit ACL_READ n \<longleftrightarrow> n = 2" "bit ACL_WRITE n \<longleftrightarrow> n = 1" "bit ACL_EXECUTE n \<longleftrightarrow> n = 0"
    using bit_push_bit_iff [of 2 "1 :: u16" n] bit_push_bit_iff [of 1 "1 :: u16" n]
    by (auto simp: ACL_READ_def ACL_WRITE_def ACL_EXECUTE_def bit_simps)
  then show ?thesis by (auto simp: rwx_def bit_or_iff)
qed

lemma grants_bits: "grants p q \<longleftrightarrow> (\<forall>n. bit q n \<longrightarrow> bit p n)"
  using bit_imp_le_length [of q] by (auto simp: grants_def bit_eq_iff bit_simps)

lemma grants_rwx: "grants p (rwx r w x) \<longleftrightarrow> (r \<longrightarrow> bit p 2) \<and> (w \<longrightarrow> bit p 1) \<and> (x \<longrightarrow> bit p 0)"
  by (auto simp: grants_bits bit_rwx)

lemma bit_digit: "n < 3 \<Longrightarrow> bit (perm_from_mode (drop_bit (3 * k) m AND 0x7)) n \<longleftrightarrow> bit m (3 * k + n)"
proof -
  have "bit (0x7 :: u16) n \<longleftrightarrow> n < 3" using bit_mask_iff [where 'a = u16, of 3 n] by (auto simp: mask_eq_exp_minus_1 bit_simps)
  then show "n < 3 \<Longrightarrow> ?thesis" by (simp add: perm_from_mode_def perm_bits_def bit_and_iff bit_drop_bit_eq)
qed

lemma grants_digit:
  "grants (perm_from_mode (drop_bit (3 * k) m AND 0x7)) (rwx r w x) \<longleftrightarrow>
     (r \<longrightarrow> 4 \<le> digit k m) \<and> (w \<longrightarrow> 2 \<le> digit k m mod 4) \<and> (x \<longrightarrow> odd (digit k m))"
  using bit_digit [of 2 k m] bit_digit [of 1 k m] bit_digit [of 0 k m] by (simp add: grants_rwx digit_bits)

lemma from_mode_eq:
  "acl_from_mode m = [user_obj (perm_from_mode (drop_bit (3 * 2) m AND 0x7)), group_obj (perm_from_mode (drop_bit (3 * 1) m AND 0x7)),
     other_entry (perm_from_mode (drop_bit (3 * 0) m AND 0x7))]"
  by (simp add: acl_from_mode_def acl_add_def acl_new_def ACL_MAX_ENTRIES_def entry_is_def user_obj_def group_obj_def other_entry_def
      entry_new_def Let_def)

lemma check_from_mode:
  "check_acl_access (acl_from_mode m) c fuid fgid (rwx r w x) =
     (if uid c = 0 \<or> octal_allow (uid c = fuid) (has_gid c fgid) m r w x then Inr () else Inl PermissionDenied)"
proof -
  define D where "D k = perm_from_mode (drop_bit (3 * k) m AND 0x7)" for k
  have eq: "acl_from_mode m = [user_obj (D 2), group_obj (D 1), other_entry (D 0)]" by (simp only: from_mode_eq D_def)
  define q where "q = rwx r w x"
  have D: "octal_allow own grp m r w x = grants (D (if own then 2 else if grp then 1 else 0)) q" for own grp
    unfolding D_def q_def grants_digit by (simp only: octal_allow_def Let_def)
  have get: "acl_mask (acl_from_mode m) = None" "acl_get UserObj 0 (acl_from_mode m) = Some (user_obj (D 2))"
    "acl_get NamedUser q (acl_from_mode m) = None" "acl_get GroupObj 0 (acl_from_mode m) = Some (group_obj (D 1))"
    "acl_get OtherObj 0 (acl_from_mode m) = Some (other_entry (D 0))" for q
    by (simp_all add: eq acl_mask_def acl_get_def entry_is_def user_obj_def group_obj_def other_entry_def entry_new_def)
  have "fold (\<lambda>e (matched, ok). if a_tag e = NamedGroup \<and> has_gid c (a_qual e) then (True, ok \<or> grants (effective acl e) q)
      else (matched, ok)) (acl_from_mode m) s = s" for acl q s
    by (simp add: eq user_obj_def group_obj_def other_entry_def entry_new_def split: prod.split)
  then show ?thesis unfolding D q_def [symmetric]
    by (simp add: check_acl_access_def get effective_def Let_def user_obj_def group_obj_def other_entry_def entry_new_def)
qed

lemma check_named_user:
  assumes "uid c \<noteq> 0" "uid c \<noteq> fuid" "acl_get NamedUser (uid c) acl = Some e" "acl_mask acl = Some m"
    "a_perm e AND m = a_perm e" "perm_bits (a_perm e) = a_perm e"
  shows "check_acl_access acl c fuid fgid req = (if grants (a_perm e) req then Inr () else Inl PermissionDenied)"
  using assms by (simp add: check_acl_access_def effective_def masked_def)

lemma grant_from_mode:
  assumes "get_acl i xs = Inl er" "perm_bits p = p" "p \<noteq> 0"
  shows "\<exists>xs'. grant_entry h i (user_entry u p) xs = (Inr (), xs')"
proof -
  let ?m = "m_mode (metadata h i)"
  define acl where "acl = acl_from_mode ?m @ [user_entry u p]"
  note defs = user_entry_def user_obj_def group_obj_def other_entry_def mask_entry_def entry_new_def entry_is_def
  have add: "acl_add (user_entry u p) (acl_from_mode ?m) = (Inr (), acl)"
    by (simp add: acl_def acl_add_def from_mode_eq ACL_MAX_ENTRIES_def defs)
  have ok: "acl_ok acl" using acl_ok_add [OF acl_ok_from_mode, of "user_entry u p" ?m] assms(2) add by (simp add: defs)
  have "p AND group_class_union acl = p"
    using group_class_union_le [of "user_entry u p" acl] by (simp add: acl_def defs)
  then have "group_class_union acl \<noteq> 0" using assms(3) by auto
  moreover have "acl_get MaskObj 0 acl = None" by (simp add: acl_def acl_get_def from_mode_eq defs)
  moreover have "length acl < ACL_MAX_ENTRIES" by (simp add: acl_def from_mode_eq ACL_MAX_ENTRIES_def)
  ultimately have r: "recalculate_mask acl = filter (\<lambda>x. \<not> entry_is MaskObj 0 x) acl @ [mask_entry (perm_bits (group_class_union acl))]"
    by (simp add: recalculate_mask_def Let_def acl_add_def mask_entry_def entry_new_def)
  have "well_formed (recalculate_mask acl)" unfolding r by (simp add: acl_def from_mode_eq defs well_formed_def cnt_def)
  then have "set_acl i (recalculate_mask acl) xs =
      (Inr (), xs(i := ch_insert POSIX_ACL_ACCESS (acl_to_xattr (recalculate_mask acl)) (xs i)))"
    unfolding set_acl_def by (intro set_acl_ok acl_ok_recalculate ok) simp_all
  then show ?thesis using assms(1) add by (simp add: grant_entry_def)
qed

subsection \<open>Properties\<close>

text \<open>C33. Every list that the constructors, \<open>add_entry\<close>, \<open>remove_entry\<close>, \<open>recalculate_mask\<close>, the inheritance and the parser
  of the attribute build has one entry per tag and qualifier, permissions of three bits and at most 32 entries; \<open>validate\<close>
  then accepts it exactly when the three base entries are there, and a mask if there is a named entry.\<close>

theorem acl_lists_well_formed:
  assumes "acl_built acl"
  shows "distinct (map acl_key acl) \<and> (\<forall>e \<in> set acl. a_perm e \<le> 7) \<and> length acl \<le> 32
    \<and> (acl_validate acl = Inr () \<longleftrightarrow> {UserObj, GroupObj, OtherObj} \<subseteq> a_tag ` set acl
         \<and> (NamedUser \<in> a_tag ` set acl \<or> NamedGroup \<in> a_tag ` set acl \<longrightarrow> MaskObj \<in> a_tag ` set acl))"
proof -
  have ok: "acl_ok acl" using assms by (rule acl_built_ok)
  have "a_perm e \<le> 7" if "e \<in> set acl" for e
    using that ok word_and_le1 [of "a_perm e" 7] by (metis acl_ok_def perm_bits_def)
  moreover have "cnt t acl \<le> 1" if "\<not> requires_qualifier t" for t using cnt_le_1 [OF ok that] .
  then have "cnt t acl = 1 \<longleftrightarrow> t \<in> a_tag ` set acl" if "\<not> requires_qualifier t" for t
    using that cnt_pos [of t acl] by (fastforce simp: le_Suc_eq)
  ultimately show ?thesis using ok cnt_le_1 [OF ok, of MaskObj]
    by (simp add: acl_ok_def validate_spec well_formed_def requires_qualifier_def ACL_MAX_ENTRIES_def cnt_in)
qed

theorem acl_lists_well_formed_witness:
  "acl_built (acl_from_mode 0x1A4) \<and> length (acl_from_mode 0x1A4) \<le> 32 \<and> acl_validate (acl_from_mode 0x1A4) = Inr ()"
proof -
  have h: "acl_built (acl_from_mode 0x1A4)" by (rule acl_built.mode)
  have "a_tag ` set (acl_from_mode 0x1A4) = {UserObj, GroupObj, OtherObj}"
    by (simp add: from_mode_eq user_obj_def group_obj_def other_entry_def entry_new_def)
  then show ?thesis using acl_lists_well_formed [OF h] h by simp
qed

text \<open>C26. Storing a list on an inode and reading it back gives the same list, and no other attribute changes; a list that is
  not well formed is refused with \<open>Invalid\<close> and nothing changes.\<close>

theorem acl_set_get_roundtrip:
  assumes "acl_built acl" and "xs_ok (xs i)"
  shows "acl_from_xattr (acl_to_xattr acl) = Inr acl
    \<and> (if well_formed acl
       then \<exists>xs'. set_acl i acl xs = (Inr (), xs') \<and> get_acl i xs' = Inr acl
              \<and> (\<forall>j k. j = i \<and> k = POSIX_ACL_ACCESS \<or> inode_getxattr j k xs' = inode_getxattr j k xs)
       else set_acl i acl xs = (Inl Invalid, xs))"
proof -
  have ok: "acl_ok acl" using assms(1) by (rule acl_built_ok)
  have "\<exists>xs'. set_acl i acl xs = (Inr (), xs') \<and> get_acl i xs' = Inr acl
      \<and> (\<forall>j k. j = i \<and> k = POSIX_ACL_ACCESS \<or> inode_getxattr j k xs' = inode_getxattr j k xs)" if wf: "well_formed acl"
    using set_acl_ok [OF ok wf length_access, of i xs] set_acl_get [of acl xs i, OF ok assms(2)] unfolding set_acl_def by blast
  then show ?thesis using xattr_roundtrip [OF ok] set_acl_bad [of acl] by (simp add: set_acl_def)
qed

theorem acl_set_get_roundtrip_witness:
  "acl_built (acl_from_mode 0x1A4) \<and> xs_ok ((\<lambda>_. []) (7 :: nat)) \<and> well_formed (acl_from_mode 0x1A4)
   \<and> acl_from_xattr (acl_to_xattr (acl_from_mode 0x1A4)) = Inr (acl_from_mode 0x1A4)
   \<and> (\<exists>xs'. set_acl 7 (acl_from_mode 0x1A4) (\<lambda>_. []) = (Inr (), xs') \<and> get_acl 7 xs' = Inr (acl_from_mode 0x1A4))"
proof -
  have h: "acl_built (acl_from_mode 0x1A4)" "xs_ok ((\<lambda>_. []) (7 :: nat))" by (rule acl_built.mode) (simp add: xs_ok_def)
  have w: "well_formed (acl_from_mode 0x1A4)"
    by (simp add: from_mode_eq well_formed_def cnt_def user_obj_def group_obj_def other_entry_def entry_new_def)
  show ?thesis using acl_set_get_roundtrip [of _ "\<lambda>_. []" 7, OF h] h w by auto
qed

text \<open>C34. On the list made from a mode, the check of an access list is the check of the octal digits, for the real user, with
  one difference: the group is compared with all 32 slots of the array of supplementary groups, unused ones included, which
  are zero.  So a fresh user with no supplementary group is treated as a member of group 0.\<close>

theorem acl_mode_equivalence:
  "check_acl_access (acl_from_mode m) c fuid fgid (rwx r w x) =
     (if uid c = 0 \<or> octal_allow (uid c = fuid) (fgid \<in> {gid c} \<union> set (groups c)) m r w x then Inr () else Inl PermissionDenied)
   \<and> check_acl_access (acl_from_mode m) (cred_user u g) fuid 0 (rwx r w x) =
     (if u = 0 \<or> octal_allow (u = fuid) True m r w x then Inr () else Inl PermissionDenied)
   \<and> allow_real (simple fuid 0 m k) (cred_user u g) r w x = Some (u = 0 \<or> octal_allow (u = fuid) (g = 0) m r w x)"
proof -
  have "check_acl_access (acl_from_mode m) c fuid fgid (rwx r w x) =
      (if uid c = 0 \<or> octal_allow (uid c = fuid) (fgid \<in> {gid c} \<union> set (groups c)) m r w x then Inr () else Inl PermissionDenied)" for c fgid
    unfolding check_from_mode has_gid_def by (simp add: eq_commute [of fgid])
  moreover have "0 \<in> set (groups (cred_user u g))" "uid (cred_user u g) = u"
    by (auto simp: cred_user_def MAX_GROUPS_def)
  moreover have "allow_real (simple fuid 0 m k) (cred_user u g) r w x = Some (u = 0 \<or> octal_allow (u = fuid) (g = 0) m r w x)"
    using class_allow [where cl = ClUser] class_allow [where cl = ClGroup] class_allow [where cl = ClOther]
    by (auto simp: allow_real_def cred_user_def simple_def with_ino_def octal_allow_def)
  ultimately show ?thesis by simp
qed

text \<open>After \<open>grant_user_read\<close>, \<open>grant_user_rw\<close> or \<open>grant_user_full\<close> succeeds for a user who is neither root nor the owner,
  the list stored on the inode gives that user exactly the permissions granted, whatever their groups and whatever list was
  there before; and on an inode without a list the grant succeeds.\<close>

theorem acl_grant_user:
  assumes "(grant, p) \<in> {(grant_user_read, rwx True False False), (grant_user_rw, rwx True True False), (grant_user_full, rwx True True True)}"
    and "xs_ok (xs i)" and "u \<noteq> 0" and "u \<noteq> fuid" and "uid c = u"
  shows "(\<forall>xs'. grant h i u xs = (Inr (), xs') \<longrightarrow>
      (\<exists>acl. get_acl i xs' = Inr acl \<and> (\<forall>req. check_acl_access acl c fuid fgid req = Inr () \<longleftrightarrow> p AND req = req)))
    \<and> (isl (get_acl i xs) \<longrightarrow> (\<exists>xs'. grant h i u xs = (Inr (), xs')))"
proof -
  have g: "grant h i u xs = grant_entry h i (user_entry u p) xs" "perm_bits p = p" "p \<noteq> 0"
    using assms(1) by (auto simp: grant_user_read_def grant_user_rw_def grant_user_full_def rwx_def ACL_READ_def ACL_WRITE_def
        ACL_EXECUTE_def perm_bits_def)
  have "\<exists>acl. get_acl i xs' = Inr acl \<and> (\<forall>req. check_acl_access acl c fuid fgid req = Inr () \<longleftrightarrow> p AND req = req)"
    if gr: "grant h i u xs = (Inr (), xs')" for xs'
  proof -
    have t: "a_tag (user_entry u p) = NamedUser" "a_perm (user_entry u p) = p" "a_qual (user_entry u p) = u"
      by (simp_all add: user_entry_def entry_new_def)
    obtain acl m where "get_acl i xs' = Inr acl" "acl_get NamedUser u acl = Some (user_entry u p)" "acl_mask acl = Some m" "p AND m = p"
      using grant_entry_ok [of h i "user_entry u p" xs xs', OF gr [unfolded g(1)] assms(2)] g(2)
      unfolding t requires_qualifier_def by blast
    then show ?thesis using check_named_user [of c fuid acl "user_entry u p"] assms(3-5) g(2)
      by (auto simp: user_entry_def entry_new_def grants_def)
  qed
  then show ?thesis using grant_from_mode [of i xs _ p h u] g by (auto simp: isl_def)
qed

theorem acl_grant_user_witness:
  "\<exists>xs' acl. grant_user_rw demo_file 0 5 (\<lambda>_. []) = (Inr (), xs') \<and> get_acl 0 xs' = Inr acl
     \<and> check_acl_access acl (cred_user 5 5) 0 0 (rwx True True False) = Inr ()
     \<and> check_acl_access acl (cred_user 5 5) 0 0 (rwx False False True) \<noteq> Inr ()"
proof -
  have h: "(grant_user_rw, rwx True True False) \<in> {(grant_user_read, rwx True False False), (grant_user_rw, rwx True True False),
      (grant_user_full, rwx True True True)}" "xs_ok ((\<lambda>_. []) (0 :: nat))" "(5 :: uid) \<noteq> 0" "(5 :: uid) \<noteq> 0" "uid (cred_user 5 5) = 5"
    by (simp_all add: xs_ok_def cred_user_def)
  have "isl (get_acl 0 (\<lambda>_. []))" by (simp add: get_acl_def get_acl_at_def inode_getxattr_def xs_get_def)
  moreover have "rwx True True False AND rwx False False True \<noteq> rwx False False True"
    by (simp add: rwx_def ACL_READ_def ACL_WRITE_def ACL_EXECUTE_def)
  ultimately show ?thesis
    using acl_grant_user [OF h(1), of "\<lambda>_. []" 0 5 0 "cred_user 5 5" demo_file 0] h(2-5) by fastforce
qed

text \<open>Revoking a user's entry of a valid list succeeds and leaves the entries of the other users, but the list is never taken
  off the inode, as the comment of the code announces: the mask entry stays, and a list with a mask is not minimal.\<close>

theorem acl_revoke_keeps_list:
  assumes "get_acl i xs = Inr acl" and "acl_validate acl = Inr ()" and "acl_get NamedUser u acl \<noteq> None" and "xs_ok (xs i)"
  shows "\<exists>xs' acl'. revoke_user i u xs = (Inr (), xs') \<and> get_acl i xs' = Inr acl' \<and> acl_get NamedUser u acl' = None
    \<and> (\<forall>w. w = u \<or> acl_get NamedUser w acl' = acl_get NamedUser w acl)
    \<and> acl_get MaskObj 0 acl' \<noteq> None \<and> has_acl i xs'"
proof -
  let ?keep = "filter (\<lambda>x. \<not> entry_is NamedUser u x) acl"
  have ok: "acl_ok acl" using assms(1) acl_ok_from_xattr by (auto simp: get_acl_def get_acl_at_def split: sum.splits)
  have wf: "well_formed acl" using assms(2) by (simp add: validate_spec split: if_splits)
  obtain e where e: "e \<in> set acl" "entry_is NamedUser u e" using assms(3) get_SomeD by fastforce
  have mask: "acl_get MaskObj 0 acl \<noteq> None"
    using wf e mask_present [of acl] cnt_pos [of NamedUser acl] by (auto simp: well_formed_def entry_is_def acl_mask_def)
  have other: "acl_get t w ?keep = acl_get t w acl" if "t \<noteq> NamedUser \<or> w \<noteq> u" for t w
    unfolding acl_get_def using that by (intro find_filter_other) (auto simp: entry_is_def requires_qualifier_def)
  have len: "length ?keep \<noteq> length acl" using e by (metis filter_id_conv length_filter_less less_irrefl)
  define acl' where "acl' = recalculate_mask ?keep"
  have acl': "acl' = acl_put_perm MaskObj 0 (perm_bits (group_class_union ?keep)) ?keep"
    using mask other by (simp add: acl'_def recalculate_mask_def Let_def)
  have "cnt t acl' = cnt t ?keep" for t unfolding acl' cnt_def by (rule cnt_put_perm [unfolded cnt_def])
  moreover have "cnt t ?keep = cnt t acl" if "t \<noteq> NamedUser" for t
    unfolding cnt_def filter_filter using that by (intro arg_cong [where f = length] filter_cong) (auto simp: entry_is_def)
  ultimately have "well_formed acl'" using wf mask mask_present [of acl] by (simp add: well_formed_def acl_mask_def)
  moreover have ok': "acl_ok acl'" unfolding acl'_def by (intro acl_ok_recalculate acl_ok_filter ok)
  ultimately obtain xs' where s: "set_acl i acl' xs = (Inr (), xs')"
    using set_acl_ok [OF ok' _ length_access] by (auto simp: set_acl_def)
  have mask': "acl_get MaskObj 0 acl' \<noteq> None" using mask other unfolding acl' get_put_perm by simp
  then have "\<not> is_minimal acl'" using get_SomeD [of MaskObj 0 acl'] by (auto simp: is_minimal_def list_ex_iff entry_is_def)
  then have r: "revoke_user i u xs = (Inr (), xs')"
    using assms(1) len s by (simp add: revoke_user_def revoke_def acl_remove_def Let_def flip: acl'_def)
  have g: "get_acl i xs' = Inr acl'" using set_acl_get(2) [OF ok' assms(4) s] .
  then have "has_acl i xs'" by (auto simp: get_acl_def get_acl_at_def has_acl_def split: sum.splits)
  moreover have "acl_get NamedUser u acl' = None" "\<forall>w. w = u \<or> acl_get NamedUser w acl' = acl_get NamedUser w acl"
    using other [of NamedUser] find_filter_not [of "entry_is NamedUser u" acl]
    by (auto simp: acl' get_put_perm_other) (simp add: acl_get_def)
  ultimately show ?thesis using r g mask' by blast
qed

definition demo_acl :: Acl where
  "demo_acl = [entry_new UserObj 6 0, entry_new GroupObj 4 0, entry_new OtherObj 4 0, entry_new NamedUser 6 5, entry_new MaskObj 6 0]"

theorem acl_revoke_keeps_list_witness:
  "\<exists>xs acl xs' acl'. get_acl 0 xs = Inr acl \<and> revoke_user 0 5 xs = (Inr (), xs') \<and> get_acl 0 xs' = Inr acl'
     \<and> acl_get NamedUser 5 acl' = None \<and> has_acl 0 xs'"
proof -
  let ?xs = "\<lambda>_ :: nat. [(POSIX_ACL_ACCESS, acl_to_xattr demo_acl)]"
  have "acl_ok demo_acl" by (simp add: demo_acl_def acl_ok_def entry_new_def acl_key_def requires_qualifier_def perm_bits_def ACL_MAX_ENTRIES_def)
  then have g: "get_acl 0 ?xs = Inr demo_acl" by (simp add: get_acl_def get_acl_at_def inode_getxattr_def xs_get_def xattr_roundtrip)
  have v: "acl_validate demo_acl = Inr ()" "acl_get NamedUser 5 demo_acl \<noteq> None"
    by (simp_all add: validate_spec well_formed_def demo_acl_def entry_new_def acl_get_def entry_is_def requires_qualifier_def)
  have "length POSIX_ACL_ACCESS \<le> XATTR_NAME_MAX" "length (acl_to_xattr demo_acl) \<le> XATTR_SIZE_MAX"
    by (simp_all add: acl_to_xattr_def entry_bytes_def demo_acl_def XATTR_SIZE_MAX_def)
  then have "xs_ok (?xs 0)" by (simp add: xs_ok_def)
  then show ?thesis using acl_revoke_keeps_list [OF g v] g by blast
qed

end
