(* ===== verification/Process.thy ===== *)
theory Process
  imports Cfs Signal Cred
begin

text \<open>
  Processes and the scheduler that switches between them, \<^verbatim>\<open>kernel/src/sched/mod.rs\<close>: the timer tick, exit, wait, fork,
  threads, exec, kernel threads, process groups and priorities.

  Tasks are shared by reference in the code (\<open>Arc<Task>\<close>), so the model keeps them in a store, indexed by their
  identifiers; the current task and the queue are references into it.  A reference of the store that is neither current nor
  queued is a task that the code has dropped.  The registers that a switch loads (page-table root, kernel stack, GS base)
  and the saved frames, of which only the ring they return to matters, are part of the state.  The raw writes to
  user memory and the wake-ups of futexes are recorded in order.  The queue of real-time tasks is left out: the
  functions modelled here never touch it.
\<close>

subsection \<open>Tasks\<close>

record Proc =
  p_parent :: nat
  p_tgid :: nat
  p_pgid :: nat
  p_sid :: nat
  p_name :: string
  p_state :: TaskState
  p_exit :: int
  p_user :: bool
  p_thread :: bool
  p_kstack :: nat
  p_cr3 :: nat
  p_tf :: nat
  p_cred :: Cred
  p_sig :: SigTask
  p_clear_tid :: nat
  p_gs :: nat
  p_cwd :: string
  p_prio :: int
  p_se :: SchedEntity
  p_ticks :: nat
  p_cpus :: "u64 list"

text \<open>\<open>frame_user\<close> tells of a saved frame whether it returns to ring 3; the null pointer is the frame 0.\<close>

record Kern =
  store :: "nat \<Rightarrow> Proc"
  cur :: nat
  runq :: "nat list"
  cfs :: CfsRunqueue
  clock_ticks :: nat
  kstats :: CfsStats
  next_pid :: nat
  frame_user :: "nat \<Rightarrow> bool"
  cr3_reg :: nat
  kstack_reg :: nat
  gs_reg :: nat
  writes :: "(nat \<times> nat \<times> int) list"
  wakes :: "nat list"
  foreground :: nat

definition NS_PER_TICK :: nat where "NS_PER_TICK = 1000000"

definition upd :: "nat \<Rightarrow> (Proc \<Rightarrow> Proc) \<Rightarrow> Kern \<Rightarrow> Kern" where
  "upd i f s = s\<lparr>store := (store s)(i := f (store s i))\<rparr>"

definition proc_state :: "Kern \<Rightarrow> nat \<Rightarrow> TaskState" where
  "proc_state s i = p_state (store s i)"

definition set_state :: "nat \<Rightarrow> TaskState \<Rightarrow> Kern \<Rightarrow> Kern" where
  "set_state i st s = upd i (p_state_update (\<lambda>_. st)) s"

definition proc_send :: "nat \<Rightarrow> Proc \<Rightarrow> Proc" where
  "proc_send signum p = p\<lparr>p_sig := (p_sig p)\<lparr>t_signals := ss_send signum (t_signals (p_sig p))\<rparr>\<rparr>"

definition proc_wake :: "Proc \<Rightarrow> Proc" where
  "proc_wake p = (if p_state p = Blocked then p\<lparr>p_state := Ready\<rparr> else p)"

text \<open>A raw write of a 32-bit value through a user pointer, in the address space that is loaded.\<close>

definition poke :: "nat \<Rightarrow> int \<Rightarrow> Kern \<Rightarrow> Kern" where
  "poke a v s = s\<lparr>writes := writes s @ [(cr3_reg s, a, v)]\<rparr>"

subsection \<open>Choosing the next task\<close>

text \<open>The loop over the queue for the ready task with the lowest nice value, the first one among equals.\<close>

fun best_ready :: "(nat \<Rightarrow> Proc) \<Rightarrow> nat list \<Rightarrow> nat \<Rightarrow> nat option \<Rightarrow> int \<Rightarrow> nat option" where
  "best_ready st [] i best bp = best"
| "best_ready st (t # ts) i best bp =
     (if p_state (st t) = Ready \<and> p_prio (st t) < bp then best_ready st ts (Suc i) (Some i) (p_prio (st t))
      else best_ready st ts (Suc i) best bp)"

definition best_index :: "Kern \<Rightarrow> nat option" where
  "best_index s = best_ready (store s) (runq s) 0 None 127"

text \<open>\<open>VecDeque::remove\<close> at the index that was found.\<close>

definition take_at :: "nat option \<Rightarrow> Kern \<Rightarrow> nat option \<times> Kern" where
  "take_at oi s = (case oi of
     None \<Rightarrow> (None, s)
   | Some i \<Rightarrow> if i < length (runq s) then (Some (runq s ! i), s\<lparr>runq := remove_at i (runq s)\<rparr>) else (None, s))"

definition pick_next_task :: "Kern \<Rightarrow> nat option \<times> Kern" where
  "pick_next_task s = (case dequeue_next (cfs s) of
     (Some e, q) \<Rightarrow>
       (let s = s\<lparr>cfs := q\<rparr> in
        case position (\<lambda>t. t = entry_id e \<and> proc_state s t = Ready) (runq s) of
          Some i \<Rightarrow> take_at (Some i) s
        | None \<Rightarrow> take_at (best_index s) s)
   | (None, q) \<Rightarrow> take_at (best_index (s\<lparr>cfs := q\<rparr>)) (s\<lparr>cfs := q\<rparr>))"

subsection \<open>The timer tick\<close>

text \<open>The accounting of the tick: the clocks, the virtual runtime and the time slice of the current task, and the decision
  to switch.\<close>

definition account :: "Kern \<Rightarrow> (bool \<times> Kern) option" where
  "account s = do {
     let c = cur s;
     ct \<leftarrow> add64 (clock_ticks s) 1;
     let s = s\<lparr>clock_ticks := ct, cfs := update_clock NS_PER_TICK (cfs s)\<rparr>;
     n \<leftarrow> add64 (p_ticks (store s c)) 1;
     let s = upd c (p_ticks_update (\<lambda>_. n)) s;
     s \<leftarrow> (if p_user (store s c) \<and> proc_state s c = Running
           then do {
             wm \<leftarrow> wmult_from_nice (p_prio (store s c));
             d \<leftarrow> calc_delta_vruntime NS_PER_TICK (se_weight (p_se (store s c))) wm;
             let s = upd c (\<lambda>p. p\<lparr>p_se := set_vruntime (saturating_add64 (se_vruntime (p_se p)) d) (p_se p)\<rparr>) s;
             st \<leftarrow> record_runtime NS_PER_TICK (kstats s);
             Some (s\<lparr>kstats := st\<rparr>)
           }
           else Some s);
     slice_ticks \<leftarrow> calc_time_slice (cfs s) (se_weight (p_se (store s c)));
     let s = upd c (\<lambda>p. p\<lparr>p_se := set_time_slice slice_ticks (p_se p)\<rparr>) s;
     go \<leftarrow> (if p_user (store s c) \<and> proc_state s c = Running
           then check_preempt_tick (cfs s) (se_vruntime (p_se (store s c))) slice_ticks n
           else Some (n \<ge> 8));
     Some (go, s)
   }"

text \<open>The current task goes back to the queues when it can still run.\<close>

definition requeue :: "nat \<Rightarrow> Kern \<Rightarrow> Kern option" where
  "requeue c s =
     (if proc_state s c = Running
      then let s = set_state c Ready s; s = s\<lparr>runq := runq s @ [c]\<rparr> in
           if p_user (store s c)
           then do {
             let se = p_se (store s c);
             q \<leftarrow> enqueue_cfs \<lparr>entry_id = c, vruntime = se_vruntime se, weight = se_weight se\<rparr> (cfs s);
             st \<leftarrow> record_switch True (kstats s);
             Some (s\<lparr>cfs := q, kstats := st\<rparr>)
           }
           else Some s
      else Some s)"

definition drop_exited :: "Kern \<Rightarrow> Kern" where
  "drop_exited s = s\<lparr>runq := filter (\<lambda>t. proc_state s t \<noteq> Exited) (runq s)\<rparr>"

text \<open>\<open>SIGCHLD\<close> to the first queued task with the identifier of the parent, which is woken up.\<close>

definition notify :: "nat \<Rightarrow> Kern \<Rightarrow> Kern" where
  "notify parent s = (if parent \<in> set (runq s) then upd parent (\<lambda>p. proc_wake (proc_send SIGCHLD p)) s else s)"

text \<open>The pending signals of the task that was chosen: one round of the loop.\<close>

definition next_signal :: "nat \<Rightarrow> Kern \<Rightarrow> SwitchFlow \<times> Kern" where
  "next_signal n s =
     (case ss_dequeue (t_signals (p_sig (store s n))) of
        (None, ss) \<Rightarrow> (Resume, s)
      | (Some signum, ss) \<Rightarrow>
          let s = upd n (\<lambda>p. p\<lparr>p_sig := (p_sig p)\<lparr>t_signals := ss\<rparr>\<rparr>) s;
              h = handlers_get signum (t_handlers (p_sig (store s n))) in
          if (\<exists>a. h = Some a \<and> is_ignored a) then (GoOn, s)
          else if (\<exists>a. h = Some a \<and> has_handler a) then (Resume, upd n (proc_send signum) s)
          else case default_action signum of
            Stop \<Rightarrow> (GiveUp, set_state n Blocked s)
          | Continue \<Rightarrow> (GoOn, s)
          | Ignore \<Rightarrow> (GoOn, s)
          | _ \<Rightarrow> (GiveUp, notify (p_parent (store s n))
                   (upd n (\<lambda>p. p\<lparr>p_state := Zombie, p_exit := 128 + int signum\<rparr>) s)))"

partial_function (option) next_signals :: "nat \<Rightarrow> Kern \<Rightarrow> (bool \<times> Kern) option" where
  "next_signals n s =
     (case next_signal n s of (fl, s') \<Rightarrow>
        case fl of GoOn \<Rightarrow> next_signals n s' | Resume \<Rightarrow> Some (True, s') | GiveUp \<Rightarrow> Some (False, s'))"

text \<open>The registers of the task that runs next.\<close>

definition load_context :: "nat \<Rightarrow> nat \<Rightarrow> Kern \<Rightarrow> Kern" where
  "load_context n tf s =
     (if p_user (store s n)
      then let s = s\<lparr>cr3_reg := p_cr3 (store s n), kstack_reg := p_kstack (store s n)\<rparr> in
           if frame_user s tf then s\<lparr>gs_reg := p_gs (store s n)\<rparr> else s
      else s)"

definition on_timer_tick :: "nat \<Rightarrow> Kern \<Rightarrow> (nat \<times> Kern) option" where
  "on_timer_tick tf s = do {
     let c = cur s;
     let s = upd c (p_tf_update (\<lambda>_. tf)) s;
     let s = (if p_user (store s c) \<and> frame_user s tf then upd c (p_gs_update (\<lambda>_. gs_reg s)) s else s);
     (go, s) \<leftarrow> account s;
     if \<not> go then Some (tf, s)
     else do {
       s \<leftarrow> requeue c (upd c (p_ticks_update (\<lambda>_. 0)) s);
       case pick_next_task (drop_exited s) of
         (None, s) \<Rightarrow> Some (tf, s)
       | (Some n, s) \<Rightarrow>
           let s = set_state n Running s; ntf = p_tf (store s n) in
           if ntf = 0 then Some (tf, s)
           else do {
             (ok, s) \<leftarrow> (if p_user (store s n) then next_signals n s else Some (True, s));
             if ok then Some (ntf, load_context n ntf (s\<lparr>cur := n\<rparr>)) else Some (tf, s)
           }
     }
   }"

subsection \<open>Exit\<close>

datatype ExitFlow = SwitchTo nat | Halted

text \<open>Whether the parent does not want zombies: \<open>SA_NOCLDWAIT\<close>, tested as the bit of value 2, or an ignored \<open>SIGCHLD\<close>.\<close>

definition auto_reap :: "nat \<Rightarrow> Kern \<Rightarrow> bool" where
  "auto_reap parent s =
     (parent \<in> set (runq s) \<and>
      (case handlers_get SIGCHLD (t_handlers (p_sig (store s parent))) of
         Some a \<Rightarrow> sa_flags a AND 2 \<noteq> 0 \<or> sa_handler a = SIG_IGN
       | None \<Rightarrow> False))"

definition leave :: "nat \<Rightarrow> Kern \<Rightarrow> Kern" where
  "leave c s =
     (let parent = p_parent (store s c) in
      if parent \<noteq> 0
      then if auto_reap parent s then set_state c Exited s else notify parent (set_state c Zombie s)
      else set_state c Exited s)"

text \<open>The children of the task are given to init.\<close>

definition reparent :: "nat \<Rightarrow> Kern \<Rightarrow> Kern" where
  "reparent c s =
     (case fold (\<lambda>t (z, s). if p_parent (store s t) = c
                            then (z \<or> proc_state s t = Zombie, upd t (p_parent_update (\<lambda>_. 1)) s) else (z, s)) (runq s) (False, s) of
        (has_zombie_children, s) \<Rightarrow> if has_zombie_children then notify 1 s else s)"

text \<open>The index is found before the exited tasks leave the queue, and used after.\<close>

definition exit_current_and_switch :: "nat \<Rightarrow> Kern \<Rightarrow> (ExitFlow \<times> Kern) option" where
  "exit_current_and_switch status s =
     (let c = cur s;
          s = upd c (p_exit_update (\<lambda>_. wrap_i32 (int status))) s;
          clear_tid = p_clear_tid (store s c);
          s = (if clear_tid \<noteq> 0 then poke clear_tid 0 s else s);
          s = reparent c (leave c s);
          best = best_index s
      in case take_at best (drop_exited s) of
           (None, s) \<Rightarrow> Some (Halted, s)
         | (Some n, s) \<Rightarrow>
             let s = set_state n Running s; ntf = p_tf (store s n) in
             if ntf = 0 then None
             else let s = s\<lparr>cur := n\<rparr>;
                      s = (if clear_tid \<noteq> 0 then s\<lparr>wakes := wakes s @ [clear_tid]\<rparr> else s)
                  in Some (SwitchTo ntf, load_context n ntf s))"

definition exit_thread_group :: "nat \<Rightarrow> Kern \<Rightarrow> (ExitFlow \<times> Kern) option" where
  "exit_thread_group status s =
     (let g = p_tgid (store s (cur s));
          s = fold (\<lambda>t s. if p_tgid (store s t) = g
                          then upd t (\<lambda>p. p\<lparr>p_state := Exited, p_exit := wrap_i32 (int status)\<rparr>) s else s) (runq s) s
      in exit_current_and_switch status s)"

subsection \<open>Wait\<close>

text \<open>The children that a call waits for.  The negation of the smallest integer overflows.\<close>

definition wait_matches :: "int \<Rightarrow> nat \<Rightarrow> nat \<Rightarrow> Kern \<Rightarrow> bool option" where
  "wait_matches pid me t s =
     (if pid = - 1 then Some True
      else if pid > 0 then Some (t = nat pid)
      else if pid < - 1 then (if pid = - (2 ^ 63) then None else Some (p_pgid (store s t) = nat (- pid)))
      else Some (p_pgid (store s t) = me))"

fun scan_children :: "int \<Rightarrow> nat \<Rightarrow> Kern \<Rightarrow> nat list \<Rightarrow> nat \<Rightarrow> bool \<Rightarrow> (nat option \<times> bool) option" where
  "scan_children pid me s [] i has = Some (None, has)"
| "scan_children pid me s (t # ts) i has =
     (if p_parent (store s t) = me
      then do {
        m \<leftarrow> wait_matches pid me t s;
        if m \<and> proc_state s t = Zombie then Some (Some i, True) else scan_children pid me s ts (Suc i) True
      }
      else scan_children pid me s ts (Suc i) has)"

datatype WaitFlow = Waited "nat option KResult" | Asleep

text \<open>The zombie that was found leaves the queue, and its status is written as \<open>exit_status << 8\<close>.\<close>

definition reap :: "nat \<Rightarrow> nat \<Rightarrow> Kern \<Rightarrow> Kern" where
  "reap i status_ptr s =
     (let z = runq s ! i;
          s = set_state z Exited (s\<lparr>runq := remove_at i (runq s)\<rparr>)
      in if status_ptr \<noteq> 0 then poke status_ptr (wrap_i32 (p_exit (store s z) * 2 ^ 8)) s else s)"

text \<open>One round of the loop of \<open>wait_for_child_with_options\<close>; a task that falls asleep runs another round when it is resumed.\<close>

definition WNOHANG :: u32 where "WNOHANG = 1"

definition wait_round :: "int \<Rightarrow> nat \<Rightarrow> u32 \<Rightarrow> Kern \<Rightarrow> (WaitFlow \<times> Kern) option" where
  "wait_round pid status_ptr options s = do {
     (found, has_children) \<leftarrow> scan_children pid (cur s) s (runq s) 0 False;
     case found of
       Some i \<Rightarrow>
         Some (Waited (Inr (Some (runq s ! i))), reap i status_ptr s)
     | None \<Rightarrow>
         if \<not> has_children then Some (Waited (Inl NoChild), s)
         else if options AND WNOHANG \<noteq> 0 then Some (Waited (Inr None), s)
         else Some (Asleep, upd (cur s) (\<lambda>p. p\<lparr>p_state := Blocked, p_tf := 0\<rparr>) s)
   }"

text \<open>\<open>wait_for_child\<close> knows one child or all of them: the identifier is the cast of the argument.\<close>

fun scan_one :: "int \<Rightarrow> nat \<Rightarrow> Kern \<Rightarrow> nat list \<Rightarrow> nat \<Rightarrow> bool \<Rightarrow> nat option \<times> bool" where
  "scan_one pid me s [] i has = (None, has)"
| "scan_one pid me s (t # ts) i has =
     (if p_parent (store s t) = me
      then if (pid = - 1 \<or> t = i64_as_u64 pid) \<and> proc_state s t = Zombie then (Some i, True)
           else scan_one pid me s ts (Suc i) True
      else scan_one pid me s ts (Suc i) has)"

definition wait_for_child_round :: "int \<Rightarrow> nat \<Rightarrow> Kern \<Rightarrow> WaitFlow \<times> Kern" where
  "wait_for_child_round pid status_ptr s =
     (case scan_one pid (cur s) s (runq s) 0 False of
        (Some i, _) \<Rightarrow>
          (Waited (Inr (Some (runq s ! i))), reap i status_ptr s)
      | (None, has_children) \<Rightarrow>
          if \<not> has_children then (Waited (Inl NoChild), s)
          else (Asleep, upd (cur s) (\<lambda>p. p\<lparr>p_state := Blocked, p_tf := 0\<rparr>) s))"

subsection \<open>New tasks\<close>

text \<open>A task enters both queues; its first virtual runtime is placed by the fair scheduler.\<close>

definition enroll :: "nat \<Rightarrow> Kern \<Rightarrow> Kern option" where
  "enroll t s = do {
     let s = s\<lparr>runq := runq s @ [t]\<rparr>;
     let vrt = place_entity (cfs s) (p_se (store s t)) True;
     let s = upd t (\<lambda>p. p\<lparr>p_se := set_vruntime vrt (p_se p)\<rparr>) s;
     q \<leftarrow> enqueue_cfs \<lparr>entry_id = t, vruntime = vrt, weight = se_weight (p_se (store s t))\<rparr> (cfs s);
     Some (s\<lparr>cfs := q\<rparr>)
   }"

text \<open>\<open>NEXT_ID.fetch_add(1)\<close> wraps around.\<close>

definition alloc_pid :: "Kern \<Rightarrow> nat \<times> Kern" where
  "alloc_pid s = (next_pid s, s\<lparr>next_pid := (next_pid s + 1) mod 2 ^ 64\<rparr>)"

definition add_task :: "nat \<Rightarrow> Proc \<Rightarrow> Kern \<Rightarrow> Kern" where
  "add_task t p s = s\<lparr>store := (store s)(t := p)\<rparr>"

definition CPU_ALL :: "u64 list" where "CPU_ALL = replicate 4 (NOT 0)"

text \<open>What a new task takes from its parent.\<close>

definition inherit :: "nat \<Rightarrow> Proc \<Rightarrow> SchedEntity \<Rightarrow> Proc" where
  "inherit parent_id parent se =
     \<lparr>p_parent = parent_id, p_tgid = p_tgid parent, p_pgid = p_pgid parent, p_sid = p_sid parent, p_name = p_name parent,
      p_state = Ready, p_exit = 0, p_user = True, p_thread = False, p_kstack = 0, p_cr3 = p_cr3 parent, p_tf = 0,
      p_cred = p_cred parent,
      p_sig = \<lparr>t_signals = ss_clone (t_signals (p_sig parent)), t_handlers = handlers_clone (t_handlers (p_sig parent))\<rparr>,
      p_clear_tid = 0, p_gs = p_gs parent, p_cwd = p_cwd parent, p_prio = p_prio parent, p_se = se, p_ticks = 0, p_cpus = CPU_ALL\<rparr>"

text \<open>The outcome of \<open>clone_address_space\<close>, the new kernel stack with the frame at its top and the ring of that frame are
  arguments of fork: the first is put in by \<open>fork_process\<close> of \<open>Fork\<close>, the others are made by the kernel heap.\<close>

definition fork_task :: "nat KResult \<Rightarrow> nat \<Rightarrow> nat \<Rightarrow> bool \<Rightarrow> Kern \<Rightarrow> (nat KResult \<times> Kern) option" where
  "fork_task space kst tf ring3 s =
     (let parent = store s (cur s) in
      if \<not> p_user parent then Some (Inl NotSupported, s)
      else case alloc_pid s of (child, s) \<Rightarrow>
        (case space of
           Inl e \<Rightarrow> Some (Inl e, s)
         | Inr cr3 \<Rightarrow> do {
             se \<leftarrow> se_new (p_prio parent);
             let p = (inherit (cur s) parent se)\<lparr>p_tgid := child, p_name := p_name parent @ ''-child'', p_kstack := kst,
                       p_cr3 := cr3, p_tf := tf\<rparr>;
             s \<leftarrow> enroll child (add_task child p (s\<lparr>frame_user := (frame_user s)(tf := ring3)\<rparr>));
             Some (Inr child, s)
           }))"

definition fork_current_from_syscall :: "nat KResult \<Rightarrow> nat \<Rightarrow> nat \<Rightarrow> Kern \<Rightarrow> (nat KResult \<times> Kern) option" where
  "fork_current_from_syscall space kst tf s = fork_task space kst tf True s"

definition fork_current :: "nat \<Rightarrow> nat KResult \<Rightarrow> nat \<Rightarrow> nat \<Rightarrow> Kern \<Rightarrow> (nat KResult \<times> Kern) option" where
  "fork_current parent_tf space kst tf s = fork_task space kst tf (frame_user s parent_tf) s"

definition CLONE_VM :: u64 where "CLONE_VM = 0x100"
definition CLONE_CHILD_CLEARTID :: u64 where "CLONE_CHILD_CLEARTID = 0x200000"
definition CLONE_CHILD_SETTID :: u64 where "CLONE_CHILD_SETTID = 0x1000000"
definition CLONE_PARENT_SETTID :: u64 where "CLONE_PARENT_SETTID = 0x100000"
definition CLONE_SETTLS :: u64 where "CLONE_SETTLS = 0x80000"

text \<open>The decimal digits of a number, for the name of a thread.\<close>

fun decimal :: "nat \<Rightarrow> string" where
  "decimal n = (if n < 10 then [char_of (48 + n)] else decimal (n div 10) @ [char_of (48 + n mod 10)])"

declare decimal.simps [simp del]

definition clone_thread :: "u64 \<Rightarrow> nat \<Rightarrow> nat \<Rightarrow> nat \<Rightarrow> nat \<Rightarrow> nat \<Rightarrow> Kern \<Rightarrow> (nat KResult \<times> Kern) option" where
  "clone_thread flags parent_tidptr child_tidptr tls kst tf s =
     (let parent = store s (cur s) in
      if \<not> p_user parent then Some (Inl NotSupported, s)
      else case alloc_pid s of (thread, s) \<Rightarrow> do {
        se \<leftarrow> se_new (p_prio parent);
        let p = (inherit (cur s) parent se)\<lparr>p_name := p_name parent @ ''-thread-'' @ decimal thread, p_thread := True,
                  p_kstack := kst, p_tf := tf,
                  p_clear_tid := (if flags AND CLONE_CHILD_CLEARTID \<noteq> 0 then child_tidptr else 0),
                  p_gs := (if flags AND CLONE_SETTLS \<noteq> 0 \<and> tls \<noteq> 0 then tls else p_gs parent)\<rparr>;
        let s = add_task thread p (s\<lparr>frame_user := (frame_user s)(tf := True)\<rparr>);
        let s = (if flags AND CLONE_PARENT_SETTID \<noteq> 0 \<and> parent_tidptr \<noteq> 0 then poke parent_tidptr (wrap_i32 (int thread)) s else s);
        let s = (if flags AND CLONE_CHILD_SETTID \<noteq> 0 \<and> child_tidptr \<noteq> 0 then poke child_tidptr (wrap_i32 (int thread)) s else s);
        s \<leftarrow> enroll thread s;
        Some (Inr thread, s)
      })"

definition set_clear_child_tid :: "nat \<Rightarrow> Kern \<Rightarrow> Kern" where
  "set_clear_child_tid tidptr s = upd (cur s) (p_clear_tid_update (\<lambda>_. tidptr)) s"

text \<open>\<open>exec_replace\<close>: the new frame lies at the top of the kernel stack of the task and returns to ring 3.\<close>

definition exec_replace :: "nat \<Rightarrow> nat \<Rightarrow> Kern \<Rightarrow> nat \<times> Kern" where
  "exec_replace new_cr3 tf s =
     (let c = cur s;
          s = upd c (\<lambda>p. p\<lparr>p_tf := tf, p_gs := 0, p_cr3 := new_cr3\<rparr>) (s\<lparr>frame_user := (frame_user s)(tf := True)\<rparr>)
      in (tf, s\<lparr>cr3_reg := new_cr3, kstack_reg := p_kstack (store s c), gs_reg := 0\<rparr>))"

text \<open>A task that the kernel makes: idle, init and the kernel threads.\<close>

definition kernel_task :: "nat \<Rightarrow> string \<Rightarrow> bool \<Rightarrow> nat \<Rightarrow> nat \<Rightarrow> nat \<Rightarrow> int \<Rightarrow> SchedEntity \<Rightarrow> Proc" where
  "kernel_task g name user kst cr3 tf prio se =
     \<lparr>p_parent = 0, p_tgid = g, p_pgid = g, p_sid = g, p_name = name, p_state = Ready, p_exit = 0, p_user = user, p_thread = False,
      p_kstack = kst, p_cr3 = cr3, p_tf = tf, p_cred = cred_root, p_sig = \<lparr>t_signals = ss_new, t_handlers = handlers_new\<rparr>,
      p_clear_tid = 0, p_gs = 0, p_cwd = ''/'', p_prio = prio, p_se = se, p_ticks = 0, p_cpus = CPU_ALL\<rparr>"

text \<open>The scheduler after the boot, with the idle task as the current one.  The values of the store outside of the tasks that exist
  are never read.\<close>

definition init_scheduler_only :: "nat \<Rightarrow> nat \<Rightarrow> Kern option" where
  "init_scheduler_only cr3 rsp = do {
     se \<leftarrow> se_new 19;
     let idle = (kernel_task 0 ''idle'' False 0 cr3 0 19 se)\<lparr>p_state := Running\<rparr>;
     Some \<lparr>store = (\<lambda>_. idle), cur = 0, runq = [], cfs = cfs_new, clock_ticks = 0, kstats = stats_new, next_pid = 2,
           frame_user = (\<lambda>_. False), cr3_reg = cr3, kstack_reg = rsp, gs_reg = 0, writes = [], wakes = [], foreground = 0\<rparr>
   }"

text \<open>The image of init is loaded by \<open>load_elf_from_path\<close>: its outcome is an argument.\<close>

definition spawn_init :: "nat KResult \<Rightarrow> nat \<Rightarrow> nat \<Rightarrow> Kern \<Rightarrow> (unit KResult \<times> Kern) option" where
  "spawn_init loaded kst tf s =
     (case loaded of
        Inl e \<Rightarrow> Some (Inl e, s)
      | Inr cr3 \<Rightarrow> do {
          se \<leftarrow> se_new 0;
          s \<leftarrow> enroll 1 (add_task 1 (kernel_task 1 ''init'' True kst cr3 tf 0 se) (s\<lparr>frame_user := (frame_user s)(tf := True)\<rparr>));
          Some (Inr (), s)
        })"

definition spawn_kernel_thread :: "string \<Rightarrow> nat \<Rightarrow> nat \<Rightarrow> Kern \<Rightarrow> (nat KResult \<times> Kern) option" where
  "spawn_kernel_thread name kst tf s =
     (case alloc_pid s of (t, s) \<Rightarrow> do {
        se \<leftarrow> se_new (- 5);
        let p = (kernel_task 0 name False kst (cr3_reg s) tf (- 5) se)\<lparr>p_tgid := t, p_thread := True\<rparr>;
        let s = add_task t p (s\<lparr>frame_user := (frame_user s)(tf := False)\<rparr>);
        Some (Inr t, s\<lparr>runq := runq s @ [t]\<rparr>)
      })"

subsection \<open>Finding tasks, and signals\<close>

text \<open>The lookup of the code: the current task first, then the queue.\<close>

definition task_exists :: "nat \<Rightarrow> Kern \<Rightarrow> bool" where
  "task_exists pid s \<longleftrightarrow> cur s = pid \<or> pid \<in> set (runq s)"

definition list_pids :: "Kern \<Rightarrow> nat list" where
  "list_pids s = sort (fold (\<lambda>t pids. if t \<in> set pids then pids else pids @ [t]) (runq s) [cur s])"

definition send_signal_to :: "int \<Rightarrow> nat \<Rightarrow> Kern \<Rightarrow> unit KResult \<times> Kern" where
  "send_signal_to pid signum s =
     (if signum = 0 \<or> signum \<ge> NSIG then (Inl Invalid, s)
      else if pid > 0 then
        if task_exists (nat pid) s
        then (Inr (), upd (nat pid) (\<lambda>p. let p = proc_send signum p in
                if signum = SIGKILL \<or> signum = SIGTERM \<or> signum = SIGINT then proc_wake p else p) s)
        else (Inl NotFound, s)
      else (Inl NotSupported, s))"

definition send_signal_to_thread :: "nat \<Rightarrow> nat \<Rightarrow> nat \<Rightarrow> Kern \<Rightarrow> unit KResult \<times> Kern" where
  "send_signal_to_thread tgid tid sig s =
     (if task_exists tid s \<and> (tgid = U64_MAX \<or> p_tgid (store s tid) = tgid)
      then (Inr (), upd tid (proc_send sig) s) else (Inl NotFound, s))"

definition set_foreground :: "nat \<Rightarrow> Kern \<Rightarrow> Kern" where "set_foreground pid s = s\<lparr>foreground := pid\<rparr>"

definition send_sigint_to_foreground :: "Kern \<Rightarrow> Kern" where
  "send_sigint_to_foreground s =
     (let fg = foreground s in
      if fg = 0 \<and> cur s = 1 then s
      else let target = (if fg = 0 then cur s else fg) in
        if target = 1 then s
        else case send_signal_to (wrap_i64 (int target)) SIGINT s of
          (Inr _, s) \<Rightarrow> s
        | (Inl _, s) \<Rightarrow> if fg \<noteq> 0 then s\<lparr>foreground := 0\<rparr> else s)"

subsection \<open>Groups, sessions, priorities and processors\<close>

definition get_task_pgid :: "nat \<Rightarrow> Kern \<Rightarrow> nat option" where
  "get_task_pgid pid s = (if task_exists pid s then Some (p_pgid (store s pid)) else None)"

definition get_task_sid :: "nat \<Rightarrow> Kern \<Rightarrow> nat option" where
  "get_task_sid pid s = (if task_exists pid s then Some (p_sid (store s pid)) else None)"

text \<open>No field is written: the new group of the call is ignored.\<close>

definition set_task_pgid :: "nat \<Rightarrow> nat \<Rightarrow> Kern \<Rightarrow> unit KResult" where
  "set_task_pgid pid new_pgid s =
     (if \<not> task_exists pid s then Inl NotFound
      else if cur s \<noteq> pid \<and> p_parent (store s pid) \<noteq> cur s then Inl PermissionDenied
      else Inr ())"

definition create_session :: "Kern \<Rightarrow> nat KResult" where
  "create_session s =
     (let p = store s (cur s) in
      if p_pgid p = cur s \<and> p_sid p = cur s then Inl PermissionDenied else Inr (cur s))"

definition set_prio :: "int \<Rightarrow> Proc \<Rightarrow> Proc" where
  "set_prio prio p = p\<lparr>p_prio := max (- 20) (min 19 prio)\<rparr>"

definition get_task_priority :: "nat \<Rightarrow> Kern \<Rightarrow> int option" where
  "get_task_priority pid s = (if task_exists pid s then Some (p_prio (store s pid)) else None)"

definition set_current_priority :: "int \<Rightarrow> Kern \<Rightarrow> int KResult \<times> Kern" where
  "set_current_priority new_prio s =
     (let p = store s (cur s) in
      if uid (p_cred p) \<noteq> 0 \<and> new_prio < p_prio p then (Inl PermissionDenied, s)
      else let s = upd (cur s) (set_prio new_prio) s in (Inr (p_prio (store s (cur s))), s))"

definition set_task_priority :: "nat \<Rightarrow> int \<Rightarrow> Kern \<Rightarrow> int KResult \<times> Kern" where
  "set_task_priority pid new_prio s =
     (if \<not> task_exists pid s then (Inl NotFound, s)
      else let current_uid = uid (p_cred (store s (cur s))); target = store s pid in
        if current_uid \<noteq> 0 \<and> current_uid \<noteq> uid (p_cred target) then (Inl PermissionDenied, s)
        else if current_uid \<noteq> 0 \<and> new_prio < p_prio target then (Inl PermissionDenied, s)
        else let s = upd pid (set_prio new_prio) s in (Inr (p_prio (store s pid)), s))"

text \<open>The sum saturates at the bounds of \<open>i8\<close>.\<close>

definition nice :: "int \<Rightarrow> Kern \<Rightarrow> int KResult \<times> Kern" where
  "nice inc s =
     (let p = store s (cur s); new_prio = max (- 128) (min 127 (p_prio p + inc)) in
      if uid (p_cred p) \<noteq> 0 \<and> new_prio < p_prio p then (Inl PermissionDenied, s)
      else let s = upd (cur s) (set_prio new_prio) s in (Inr (p_prio (store s (cur s))), s))"

definition set_task_affinity :: "nat \<Rightarrow> u64 list \<Rightarrow> Kern \<Rightarrow> bool \<times> Kern" where
  "set_task_affinity pid cpus s =
     (if task_exists pid s then (True, upd pid (p_cpus_update (\<lambda>_. cpus)) s) else (False, s))"

definition get_task_affinity :: "nat \<Rightarrow> Kern \<Rightarrow> u64 list option" where
  "get_task_affinity pid s = (if task_exists pid s then Some (p_cpus (store s pid)) else None)"

subsection \<open>System calls\<close>

definition ECHILD :: int where "ECHILD = - 10"

definition sys_fork :: "nat KResult \<Rightarrow> nat \<Rightarrow> nat \<Rightarrow> Kern \<Rightarrow> (int \<times> Kern) option" where
  "sys_fork space kst tf s = do {
     (r, s) \<leftarrow> fork_current_from_syscall space kst tf s;
     Some (case r of Inr child \<Rightarrow> wrap_i64 (int child) | Inl NoMemory \<Rightarrow> ENOMEM | Inl NotSupported \<Rightarrow> ENOSYS | Inl _ \<Rightarrow> EIO, s)
   }"

definition sys_clone :: "u64 \<Rightarrow> nat \<Rightarrow> nat \<Rightarrow> nat \<Rightarrow> nat KResult \<Rightarrow> nat \<Rightarrow> nat \<Rightarrow> Kern \<Rightarrow> (int \<times> Kern) option" where
  "sys_clone flags parent_tidptr child_tidptr tls space kst tf s =
     (if flags AND CLONE_VM \<noteq> 0
      then do {
        (r, s) \<leftarrow> clone_thread flags parent_tidptr child_tidptr tls kst tf s;
        Some (case r of Inr t \<Rightarrow> wrap_i64 (int t) | Inl NoMemory \<Rightarrow> ENOMEM | Inl Invalid \<Rightarrow> EINVAL | Inl _ \<Rightarrow> EIO, s)
      }
      else do {
        (r, s) \<leftarrow> fork_current_from_syscall space kst tf s;
        Some (case r of
            Inr child \<Rightarrow> (wrap_i64 (int child),
              if flags AND CLONE_PARENT_SETTID \<noteq> 0 \<and> parent_tidptr \<noteq> 0 then poke parent_tidptr (wrap_i32 (int child)) s else s)
          | Inl NoMemory \<Rightarrow> (ENOMEM, s)
          | Inl _ \<Rightarrow> (EIO, s))
      })"

text \<open>The result of \<open>wait4\<close> once a round of the wait has finished; \<open>None\<close> inside is a task that sleeps.\<close>

definition sys_wait4_round :: "int \<Rightarrow> nat \<Rightarrow> u32 \<Rightarrow> Kern \<Rightarrow> (int option \<times> Kern) option" where
  "sys_wait4_round pid status options s = do {
     (fl, s) \<leftarrow> wait_round pid status options s;
     Some (case fl of
         Asleep \<Rightarrow> None
       | Waited (Inr (Some child)) \<Rightarrow> Some (wrap_i64 (int child))
       | Waited (Inr None) \<Rightarrow> Some (if options AND WNOHANG \<noteq> 0 then 0 else ECHILD)
       | Waited (Inl NoChild) \<Rightarrow> Some ECHILD
       | Waited (Inl WouldBlock) \<Rightarrow> Some 0
       | Waited (Inl _) \<Rightarrow> Some EIO, s)
   }"

definition sys_getpgid :: "int \<Rightarrow> Kern \<Rightarrow> int" where
  "sys_getpgid pid s =
     (if pid = 0 then wrap_i64 (int (p_pgid (store s (cur s))))
      else case get_task_pgid (i64_as_u64 pid) s of Some g \<Rightarrow> wrap_i64 (int g) | None \<Rightarrow> ESRCH)"

definition sys_getsid :: "int \<Rightarrow> Kern \<Rightarrow> int" where
  "sys_getsid pid s =
     (if pid = 0 then wrap_i64 (int (p_sid (store s (cur s))))
      else case get_task_sid (i64_as_u64 pid) s of Some g \<Rightarrow> wrap_i64 (int g) | None \<Rightarrow> ESRCH)"

definition sys_setpgid :: "int \<Rightarrow> int \<Rightarrow> Kern \<Rightarrow> int" where
  "sys_setpgid pid pgid s =
     (let target = (if pid = 0 then cur s else i64_as_u64 pid);
          new_pgid = (if pgid = 0 then target else i64_as_u64 pgid)
      in case set_task_pgid target new_pgid s of
           Inr _ \<Rightarrow> 0 | Inl NotFound \<Rightarrow> ESRCH | Inl PermissionDenied \<Rightarrow> EPERM | Inl _ \<Rightarrow> EINVAL)"

definition sys_setsid :: "Kern \<Rightarrow> int" where
  "sys_setsid s = (case create_session s of Inr sid \<Rightarrow> wrap_i64 (int sid) | Inl PermissionDenied \<Rightarrow> EPERM | Inl _ \<Rightarrow> EINVAL)"

definition sys_set_tid_address :: "nat \<Rightarrow> Kern \<Rightarrow> int \<times> Kern" where
  "sys_set_tid_address tidptr s = (wrap_i64 (int (cur s)), set_clear_child_tid tidptr s)"

definition sys_kill :: "int \<Rightarrow> int \<Rightarrow> Kern \<Rightarrow> int \<times> Kern" where
  "sys_kill pid sig s =
     (if sig < 0 then (EINVAL, s)
      else case send_signal_to pid (nat sig) s of (r, s) \<Rightarrow>
        (case r of Inr _ \<Rightarrow> 0 | Inl NotFound \<Rightarrow> ESRCH | Inl Invalid \<Rightarrow> EINVAL | Inl PermissionDenied \<Rightarrow> EPERM | Inl _ \<Rightarrow> EIO, s))"

definition sys_tgkill :: "int \<Rightarrow> int \<Rightarrow> int \<Rightarrow> Kern \<Rightarrow> int \<times> Kern" where
  "sys_tgkill tgid tid sig s =
     (if sig < 0 then (EINVAL, s)
      else case send_signal_to_thread (i64_as_u64 tgid) (i64_as_u64 tid) (nat sig) s of (r, s) \<Rightarrow>
        (case r of Inr _ \<Rightarrow> 0 | Inl NotFound \<Rightarrow> ESRCH | Inl Invalid \<Rightarrow> EINVAL | Inl PermissionDenied \<Rightarrow> EPERM | Inl _ \<Rightarrow> EIO, s))"

definition sys_tkill :: "int \<Rightarrow> int \<Rightarrow> Kern \<Rightarrow> int \<times> Kern" where
  "sys_tkill tid sig s = sys_tgkill (- 1) tid sig s"

subsection \<open>What the operations leave alone\<close>

lemma upd_simps [simp]:
  "cur (upd i f s) = cur s" "runq (upd i f s) = runq s" "cfs (upd i f s) = cfs s" "clock_ticks (upd i f s) = clock_ticks s"
  "kstats (upd i f s) = kstats s" "next_pid (upd i f s) = next_pid s" "frame_user (upd i f s) = frame_user s"
  "cr3_reg (upd i f s) = cr3_reg s" "kstack_reg (upd i f s) = kstack_reg s" "gs_reg (upd i f s) = gs_reg s"
  "writes (upd i f s) = writes s" "wakes (upd i f s) = wakes s" "foreground (upd i f s) = foreground s"
  "store (upd i f s) j = (if j = i then f (store s i) else store s j)"
  by (simp_all add: upd_def)

lemma poke_simps [simp]:
  "cur (poke a v s) = cur s" "runq (poke a v s) = runq s" "cfs (poke a v s) = cfs s" "store (poke a v s) = store s"
  "next_pid (poke a v s) = next_pid s" "frame_user (poke a v s) = frame_user s"
  "cr3_reg (poke a v s) = cr3_reg s" "kstack_reg (poke a v s) = kstack_reg s" "gs_reg (poke a v s) = gs_reg s"
  by (simp_all add: poke_def)

lemma proc_send_simps [simp]:
  "p_state (proc_send k p) = p_state p" "p_parent (proc_send k p) = p_parent p" "p_user (proc_send k p) = p_user p"
  "p_cr3 (proc_send k p) = p_cr3 p" "p_kstack (proc_send k p) = p_kstack p" "p_tf (proc_send k p) = p_tf p"
  "p_gs (proc_send k p) = p_gs p" "p_prio (proc_send k p) = p_prio p" "p_tgid (proc_send k p) = p_tgid p"
  "p_exit (proc_send k p) = p_exit p" "p_se (proc_send k p) = p_se p"
  by (simp_all add: proc_send_def)

lemma proc_wake_simps [simp]:
  "p_parent (proc_wake p) = p_parent p" "p_user (proc_wake p) = p_user p" "p_cr3 (proc_wake p) = p_cr3 p"
  "p_kstack (proc_wake p) = p_kstack p" "p_tf (proc_wake p) = p_tf p" "p_gs (proc_wake p) = p_gs p" "p_prio (proc_wake p) = p_prio p"
  "p_tgid (proc_wake p) = p_tgid p" "p_sig (proc_wake p) = p_sig p" "p_exit (proc_wake p) = p_exit p" "p_se (proc_wake p) = p_se p"
  "p_state (proc_wake p) = (if p_state p = Blocked then Ready else p_state p)"
  by (simp_all add: proc_wake_def)

text \<open>What stays fixed of a task: the mode it runs in, its address space and its kernel stack.\<close>

definition hw :: "Proc \<Rightarrow> bool \<times> nat \<times> nat" where
  "hw p = (p_user p, p_cr3 p, p_kstack p)"

text \<open>\<open>same_place s s'\<close>: the queue, the current task, the registers and the fixed parts of all tasks are the same.\<close>

definition same_place :: "Kern \<Rightarrow> Kern \<Rightarrow> bool" where
  "same_place s s' \<longleftrightarrow> cur s' = cur s \<and> runq s' = runq s \<and> next_pid s' = next_pid s \<and> cr3_reg s' = cr3_reg s
     \<and> kstack_reg s' = kstack_reg s \<and> (\<forall>i. hw (store s' i) = hw (store s i))"

lemma same_place_refl [simp]: "same_place s s"
  by (simp add: same_place_def)

lemma same_place_trans [trans]: "same_place s s' \<Longrightarrow> same_place s' s'' \<Longrightarrow> same_place s s''"
  by (simp add: same_place_def)

lemma same_place_upd: "(\<And>p. hw (f p) = hw p) \<Longrightarrow> same_place s (upd i f s)"
  by (simp add: same_place_def)

lemma account_same:
  assumes "account s = Some (go, s')"
  shows "same_place s s'" "proc_state s' i = proc_state s i" "p_tf (store s' i) = p_tf (store s i)"
    "p_sig (store s' i) = p_sig (store s i)" "frame_user s' = frame_user s" "p_parent (store s' i) = p_parent (store s i)"
  using assms by (auto simp: account_def Let_def same_place_def hw_def proc_state_def split: bind_splits if_splits)

lemma notify_same: "same_place s (notify parent s)"
  by (simp add: notify_def same_place_def hw_def)

lemma notify_state:
  "proc_state (notify parent s) i = (if i = parent \<and> parent \<in> set (runq s) \<and> proc_state s i = Blocked then Ready else proc_state s i)"
  by (simp add: notify_def proc_state_def)

lemma set_state_same: "same_place s (set_state i st s)"
  by (simp add: set_state_def same_place_def hw_def)

lemma set_state_state [simp]: "proc_state (set_state i st s) j = (if j = i then st else proc_state s j)"
  by (simp add: set_state_def proc_state_def)

lemma leave_same: "same_place s (leave c s)"
  using same_place_trans [OF set_state_same notify_same] set_state_same by (auto simp: leave_def Let_def)

lemma reparent_fold_same:
  "same_place s (snd (fold (\<lambda>t (z, s). if p_parent (store s t) = c
     then (z \<or> proc_state s t = Zombie, upd t (p_parent_update (\<lambda>_. 1)) s) else (z, s)) ts (z, s)))
   \<and> proc_state (snd (fold (\<lambda>t (z, s). if p_parent (store s t) = c
     then (z \<or> proc_state s t = Zombie, upd t (p_parent_update (\<lambda>_. 1)) s) else (z, s)) ts (z, s))) i = proc_state s i"
proof (induction ts arbitrary: s z)
  case (Cons t ts)
  let ?u = "upd t (p_parent_update (\<lambda>_. 1)) s"
  have "same_place s ?u" "proc_state ?u i = proc_state s i" by (auto simp: same_place_def hw_def proc_state_def)
  then show ?case using Cons.IH [of ?u "z \<or> proc_state s t = Zombie"] Cons.IH [of s z] same_place_trans by auto
qed simp

lemma reparent_eq:
  obtains z s1 where "same_place s s1" "\<And>i. proc_state s1 i = proc_state s i" "reparent c s = (if z then notify 1 s1 else s1)"
proof -
  obtain z s1 where f: "fold (\<lambda>t (z, s). if p_parent (store s t) = c
      then (z \<or> proc_state s t = Zombie, upd t (p_parent_update (\<lambda>_. 1)) s) else (z, s)) (runq s) (False, s) = (z, s1)" by fastforce
  then have "same_place s s1" "\<And>i. proc_state s1 i = proc_state s i" using reparent_fold_same [of s c "runq s" False] by simp_all
  then show thesis using that f by (simp add: reparent_def)
qed

lemma reparent_same: "same_place s (reparent c s)"
  using reparent_eq [of s c] notify_same same_place_trans by metis

lemma reparent_state:
  "proc_state (reparent c s) i = proc_state s i \<or> proc_state s i = Blocked \<and> proc_state (reparent c s) i = Ready"
  by (rule reparent_eq [of s c]) (auto simp: notify_state)

text \<open>The loop over the signals of the next task.\<close>

lemma next_signal_same: "next_signal n s = (fl, s') \<Longrightarrow> same_place s s'"
  by (auto simp: next_signal_def Let_def same_place_def hw_def notify_def set_state_def
      split: prod.splits option.splits if_splits DefaultAction.splits)

lemma next_signal_state:
  assumes "next_signal n s = (fl, s')"
  shows "fl \<noteq> GiveUp \<Longrightarrow> proc_state s' i = proc_state s i"
    "i \<noteq> n \<Longrightarrow> proc_state s' i = proc_state s i \<or> proc_state s i = Blocked \<and> proc_state s' i = Ready"
    "fl = GiveUp \<Longrightarrow> proc_state s' n \<in> {Zombie, Blocked}" "p_tf (store s' i) = p_tf (store s i)"
    "frame_user s' = frame_user s" "cfs s' = cfs s"
  using assms
  by (auto simp: next_signal_def Let_def proc_state_def notify_def set_state_def
      split: prod.splits option.splits if_splits DefaultAction.splits)

text \<open>What the whole loop may do: a task that goes on is left in its state; one that does not is a zombie or blocked; others may
  be woken up.\<close>

definition sig_frame :: "nat \<Rightarrow> Kern \<Rightarrow> bool \<times> Kern \<Rightarrow> bool" where
  "sig_frame n s r \<longleftrightarrow> same_place s (snd r) \<and> (fst r \<longrightarrow> (\<forall>i. proc_state (snd r) i = proc_state s i))
     \<and> (\<forall>i. i \<noteq> n \<longrightarrow> proc_state (snd r) i = proc_state s i \<or> proc_state s i = Blocked \<and> proc_state (snd r) i = Ready)
     \<and> (\<not> fst r \<longrightarrow> proc_state (snd r) n \<in> {Zombie, Blocked}) \<and> (\<forall>i. p_tf (store (snd r) i) = p_tf (store s i))
     \<and> frame_user (snd r) = frame_user s \<and> cfs (snd r) = cfs s"

lemma next_signals_frame: "next_signals n s = Some r \<Longrightarrow> sig_frame n s r"
proof (rule next_signals.raw_induct [where P = sig_frame])
  fix rec :: "nat \<Rightarrow> Kern \<Rightarrow> (bool \<times> Kern) option" and n s r
  assume 1: "\<And>n s r. rec n s = Some r \<Longrightarrow> sig_frame n s r"
    "(case next_signal n s of (fl, s') \<Rightarrow> case fl of GoOn \<Rightarrow> rec n s' | Resume \<Rightarrow> Some (True, s') | GiveUp \<Rightarrow> Some (False, s')) = Some r"
  obtain fl s1 where st: "next_signal n s = (fl, s1)" by fastforce
  note one = next_signal_same [OF st] next_signal_state [OF st]
  show "sig_frame n s r"
  proof (cases fl)
    case GoOn
    then have "sig_frame n s1 r" using 1 st by simp
    moreover have "\<And>i. proc_state s1 i = proc_state s i" using one(2) GoOn by blast
    ultimately show ?thesis using same_place_trans [OF one(1)] one(5-7) by (auto simp: sig_frame_def)
  next
    case Resume
    then have "r = (True, s1)" using 1 st by simp
    then show ?thesis using one(1,2,5-7) Resume by (simp add: sig_frame_def)
  next
    case GiveUp
    then have "r = (False, s1)" using 1 st by simp
    then show ?thesis using one(1,3-7) GiveUp by (auto simp: sig_frame_def)
  qed
qed

subsection \<open>The choice of the next task\<close>

lemma best_ready_Some:
  assumes "best_ready st ts i best bp = Some k"
  shows "best = Some k \<and> (\<forall>t \<in> set ts. p_state (st t) = Ready \<longrightarrow> bp \<le> p_prio (st t))
    \<or> i \<le> k \<and> k < i + length ts \<and> p_state (st (ts ! (k - i))) = Ready \<and> p_prio (st (ts ! (k - i))) < bp
      \<and> (\<forall>t \<in> set ts. p_state (st t) = Ready \<longrightarrow> p_prio (st (ts ! (k - i))) \<le> p_prio (st t))"
  using assms
proof (induction st ts i best bp rule: best_ready.induct)
  case (2 st t ts i best bp)
  show ?case
  proof (cases "p_state (st t) = Ready \<and> p_prio (st t) < bp")
    case True
    then have "i = k \<and> (\<forall>t' \<in> set ts. p_state (st t') = Ready \<longrightarrow> p_prio (st t) \<le> p_prio (st t')) \<or>
      Suc i \<le> k \<and> k < Suc i + length ts \<and> p_state (st (ts ! (k - Suc i))) = Ready \<and> p_prio (st (ts ! (k - Suc i))) < p_prio (st t)
      \<and> (\<forall>t' \<in> set ts. p_state (st t') = Ready \<longrightarrow> p_prio (st (ts ! (k - Suc i))) \<le> p_prio (st t'))"
      using 2 by simp
    then show ?thesis using True by (auto simp: nth_Cons' Suc_diff_Suc)
  next
    case False
    then show ?thesis using 2 by (auto simp: nth_Cons' Suc_diff_Suc)
  qed
qed simp

lemma best_ready_None: "best_ready st ts i best bp = None \<Longrightarrow> best = None \<and> (\<forall>t \<in> set ts. p_state (st t) = Ready \<longrightarrow> bp \<le> p_prio (st t))"
  by (induction st ts i best bp rule: best_ready.induct) (auto split: if_splits)

lemma best_index_Some:
  assumes "best_index s = Some k"
  shows "k < length (runq s)" "proc_state s (runq s ! k) = Ready"
    "\<And>t. t \<in> set (runq s) \<Longrightarrow> proc_state s t = Ready \<Longrightarrow> p_prio (store s (runq s ! k)) \<le> p_prio (store s t)"
  using best_ready_Some [OF assms [unfolded best_index_def]] by (auto simp: proc_state_def)

lemma best_index_None: "best_index s = None \<Longrightarrow> t \<in> set (runq s) \<Longrightarrow> proc_state s t = Ready \<Longrightarrow> 127 \<le> p_prio (store s t)"
  using best_ready_None [of "store s" "runq s" 0 None 127] by (auto simp: best_index_def proc_state_def)

lemma take_at_cases:
  assumes "take_at oi s = (r, s')"
  obtains (none) "r = None" "s' = s" | (some) i where "oi = Some i" "i < length (runq s)" "r = Some (runq s ! i)"
    "s' = s\<lparr>runq := remove_at i (runq s)\<rparr>"
  using assms by (auto simp: take_at_def split: option.splits if_splits)

lemma best_index_cfs [simp]: "best_index (s\<lparr>cfs := q\<rparr>) = best_index s" "proc_state (s\<lparr>cfs := q\<rparr>) i = proc_state s i"
  by (simp_all add: best_index_def proc_state_def)

lemma pick_next_cases:
  assumes "pick_next_task s = (r, s')"
  obtains (none) "r = None" "s' = s\<lparr>cfs := cfs s'\<rparr>"
  | (some) i where "i < length (runq s)" "r = Some (runq s ! i)" "proc_state s (runq s ! i) = Ready"
    "s' = s\<lparr>cfs := cfs s', runq := remove_at i (runq s)\<rparr>"
proof -
  define q where "q = snd (dequeue_next (cfs s))"
  define oi where "oi = (case fst (dequeue_next (cfs s)) of
      Some e \<Rightarrow> (case position (\<lambda>t. t = entry_id e \<and> proc_state s t = Ready) (runq s) of Some i \<Rightarrow> Some i | None \<Rightarrow> best_index s)
    | None \<Rightarrow> best_index s)"
  have t: "take_at oi (s\<lparr>cfs := q\<rparr>) = (r, s')"
    using assms by (auto simp: pick_next_task_def q_def oi_def Let_def split: prod.splits option.splits)
  have oi: "i < length (runq s) \<and> proc_state s (runq s ! i) = Ready" if "oi = Some i" for i
    using that best_index_Some [of s i] by (auto simp: oi_def position_Some split: option.splits)
  show thesis by (rule take_at_cases [OF t]) (use that oi in auto)
qed

subsection \<open>The tick, case by case\<close>

text \<open>The state of a tick when it looks for the next task.\<close>

definition prepared :: "nat \<Rightarrow> Kern \<Rightarrow> Kern \<Rightarrow> bool" where
  "prepared tf s s' \<longleftrightarrow> cur s' = cur s \<and> next_pid s' = next_pid s \<and> cr3_reg s' = cr3_reg s \<and> kstack_reg s' = kstack_reg s
     \<and> (\<forall>i. hw (store s' i) = hw (store s i))
     \<and> (\<forall>i. proc_state s' i = (if i = cur s \<and> proc_state s i = Running then Ready else proc_state s i))
     \<and> (\<forall>i. p_tf (store s' i) = (if i = cur s then tf else p_tf (store s i)))
     \<and> runq s' = filter (\<lambda>t. proc_state s' t \<noteq> Exited) (if proc_state s (cur s) = Running then runq s @ [cur s] else runq s)"

lemma requeue_frame:
  assumes "requeue c s = Some s'"
  shows "cur s' = cur s" "next_pid s' = next_pid s" "cr3_reg s' = cr3_reg s" "kstack_reg s' = kstack_reg s"
    "hw (store s' i) = hw (store s i)" "p_tf (store s' i) = p_tf (store s i)"
    "proc_state s' i = (if i = c \<and> proc_state s i = Running then Ready else proc_state s i)"
    "runq s' = (if proc_state s c = Running then runq s @ [c] else runq s)"
  using assms by (auto simp: requeue_def Let_def set_state_def proc_state_def hw_def split: bind_splits if_splits)

lemma sig_frame_refl: "sig_frame n s (True, s)"
  by (simp add: sig_frame_def)

lemma set_state_simps [simp]:
  "cur (set_state i st s) = cur s" "runq (set_state i st s) = runq s" "next_pid (set_state i st s) = next_pid s"
  "cr3_reg (set_state i st s) = cr3_reg s" "kstack_reg (set_state i st s) = kstack_reg s" "hw (store (set_state i st s) j) = hw (store s j)"
  "p_tf (store (set_state i st s) j) = p_tf (store s j)" "p_user (store (set_state i st s) j) = p_user (store s j)"
  by (simp_all add: set_state_def hw_def)

text \<open>What a tick did: nothing but accounting; no task found; a task found that cannot run; a switch.\<close>

lemma tick_cases:
  assumes "on_timer_tick tf s = Some (tf', s')"
  obtains (quiet) "tf' = tf" "same_place s s'" "\<And>i. proc_state s' i = proc_state s i"
  | (idle) s1 where "tf' = tf" "prepared tf s s1" "s' = s1\<lparr>cfs := cfs s'\<rparr>"
  | (found) s1 i s2 r where "prepared tf s s1" "i < length (runq s1)" "proc_state s1 (runq s1 ! i) = Ready"
    "s2 = set_state (runq s1 ! i) Running (s1\<lparr>cfs := cfs s2, runq := remove_at i (runq s1)\<rparr>)"
    "p_tf (store s1 (runq s1 ! i)) = 0 \<and> tf' = tf \<and> s' = s2
     \<or> sig_frame (runq s1 ! i) s2 (False, s') \<and> tf' = tf
     \<or> sig_frame (runq s1 ! i) s2 (True, r) \<and> tf' = p_tf (store s1 (runq s1 ! i)) \<and> tf' \<noteq> 0
       \<and> s' = load_context (runq s1 ! i) tf' (r\<lparr>cur := runq s1 ! i\<rparr>)"
proof -
  let ?c = "cur s"
  define s0 where "s0 = (let s = upd ?c (p_tf_update (\<lambda>_. tf)) s in
      if p_user (store s ?c) \<and> frame_user s tf then upd ?c (p_gs_update (\<lambda>_. gs_reg s)) s else s)"
  have s0: "same_place s s0" "proc_state s0 i = proc_state s i" "p_tf (store s0 i) = (if i = ?c then tf else p_tf (store s i))" for i
    by (auto simp: s0_def Let_def same_place_def hw_def proc_state_def)
  obtain go sa where ac: "account s0 = Some (go, sa)"
    and rest: "(if \<not> go then Some (tf, sa) else do {
       s \<leftarrow> requeue ?c (upd ?c (p_ticks_update (\<lambda>_. 0)) sa);
       case pick_next_task (drop_exited s) of
         (None, s) \<Rightarrow> Some (tf, s)
       | (Some n, s) \<Rightarrow>
           let s = set_state n Running s; ntf = p_tf (store s n) in
           if ntf = 0 then Some (tf, s)
           else do {
             (ok, s) \<leftarrow> (if p_user (store s n) then next_signals n s else Some (True, s));
             if ok then Some (ntf, load_context n ntf (s\<lparr>cur := n\<rparr>)) else Some (tf, s)
           }}) = Some (tf', s')"
    using assms by (auto simp: on_timer_tick_def s0_def Let_def split: bind_splits)
  have sa: "same_place s sa" "proc_state sa i = proc_state s i" "p_tf (store sa i) = (if i = ?c then tf else p_tf (store s i))" for i
    using account_same [OF ac] s0 same_place_trans [OF s0(1)] by auto
  show thesis
  proof (cases go)
    case False
    then show ?thesis using rest sa by (intro quiet) auto
  next
    case True
    then obtain sb where rq: "requeue ?c (upd ?c (p_ticks_update (\<lambda>_. 0)) sa) = Some sb"
      using rest by (auto split: bind_splits)
    define s1 where "s1 = drop_exited sb"
    have "cur sa = ?c" "proc_state (upd ?c (p_ticks_update (\<lambda>_. 0)) sa) i = proc_state s i" for i
      using sa by (auto simp: same_place_def proc_state_def)
    then have p: "prepared tf s s1"
      using requeue_frame [OF rq] sa by (auto simp: prepared_def s1_def drop_exited_def same_place_def hw_def proc_state_def)
    obtain r sc where pk: "pick_next_task s1 = (r, sc)" by fastforce
    show ?thesis
    proof (rule pick_next_cases [OF pk])
      assume "r = None" "sc = s1\<lparr>cfs := cfs sc\<rparr>"
      then show thesis using rest rq pk True p by (intro idle [of s1]) (auto simp: s1_def)
    next
      fix i
      assume i: "i < length (runq s1)" "r = Some (runq s1 ! i)" "proc_state s1 (runq s1 ! i) = Ready"
        "sc = s1\<lparr>cfs := cfs sc, runq := remove_at i (runq s1)\<rparr>"
      let ?n = "runq s1 ! i"
      define s2 where "s2 = set_state ?n Running sc"
      have c: "cfs s2 = cfs sc" by (simp add: s2_def set_state_def)
      have st: "store sc = store s1" by (subst i(4)) simp
      then have tf2: "p_tf (store s2 ?n) = p_tf (store s1 ?n)" by (simp add: s2_def)
      have end_: "p_tf (store s1 ?n) = 0 \<and> tf' = tf \<and> s' = s2 \<or> sig_frame ?n s2 (False, s') \<and> tf' = tf
          \<or> (\<exists>r. sig_frame ?n s2 (True, r) \<and> tf' = p_tf (store s1 ?n) \<and> tf' \<noteq> 0 \<and> s' = load_context ?n tf' (r\<lparr>cur := ?n\<rparr>))"
        using rest rq pk i(2) True next_signals_frame [of ?n s2] sig_frame_refl [of ?n s2]
        by (auto simp: Let_def st tf2 s1_def [symmetric] s2_def [symmetric] split: bind_splits if_splits)
      have "s2 = set_state ?n Running (s1\<lparr>cfs := cfs s2, runq := remove_at i (runq s1)\<rparr>)" unfolding c using i(4) by (simp add: s2_def)
      then show thesis using found [OF p i(1,3)] end_ by blast
    qed
  qed
qed

subsection \<open>The invariant\<close>

definition members :: "Kern \<Rightarrow> nat set" where
  "members s = insert (cur s) (set (runq s))"

text \<open>The queue has no duplicates and no running task, identifiers were handed out, and a current user task has its own address
  space and kernel stack loaded.\<close>

definition kern_ok :: "Kern \<Rightarrow> bool" where
  "kern_ok s \<longleftrightarrow> distinct (runq s) \<and> (\<forall>i \<in> set (runq s). proc_state s i \<noteq> Running) \<and> (\<forall>i \<in> members s. i < next_pid s)
     \<and> (p_user (store s (cur s)) \<longrightarrow> cr3_reg s = p_cr3 (store s (cur s)) \<and> kstack_reg s = p_kstack (store s (cur s)))"

text \<open>Every task after a step was there before or is new.\<close>

definition no_return :: "Kern \<Rightarrow> Kern \<Rightarrow> bool" where
  "no_return s s' \<longleftrightarrow> next_pid s \<le> next_pid s' \<and> members s' \<subseteq> members s \<union> {next_pid s..}"

definition kept :: "Kern \<Rightarrow> Kern \<Rightarrow> bool" where
  "kept s s' \<longleftrightarrow> kern_ok s' \<and> no_return s s'"

lemma set_remove_at: "set (remove_at i xs) \<subseteq> set xs"
  using set_take_subset [of i xs] set_drop_subset [of "Suc i" xs] by (auto simp: remove_at_def)

lemma distinct_remove_at:
  assumes "distinct xs" "i < length xs"
  shows "distinct (remove_at i xs)" "xs ! i \<notin> set (remove_at i xs)"
proof -
  have "xs = take i xs @ xs ! i # drop (Suc i) xs" using assms(2) by (rule id_take_nth_drop)
  then have "distinct (take i xs @ xs ! i # drop (Suc i) xs)" using assms(1) by simp
  then show "distinct (remove_at i xs)" "xs ! i \<notin> set (remove_at i xs)" by (auto simp: remove_at_def)
qed

lemma hwD: "hw p = hw q \<Longrightarrow> p_user p = p_user q \<and> p_cr3 p = p_cr3 q \<and> p_kstack p = p_kstack q"
  by (simp add: hw_def)

lemma kept_same:
  assumes "kern_ok s" "same_place s s'" "\<And>i. i \<in> set (runq s) \<Longrightarrow> proc_state s' i \<noteq> Running"
  shows "kept s s'"
  using assms hwD [of "store s' (cur s)" "store s (cur s)"] by (auto simp: kept_def kern_ok_def no_return_def members_def same_place_def)

lemma kept_prepared:
  assumes "kern_ok s" "prepared tf s s'"
  shows "kept s s'"
proof -
  have "cur s \<notin> set (runq s)" if "proc_state s (cur s) = Running" using assms(1) that by (auto simp: kern_ok_def)
  then have "distinct (runq s')" using assms by (auto simp: kern_ok_def prepared_def)
  moreover have "hw (store s' (cur s)) = hw (store s (cur s))" using assms(2) by (simp add: prepared_def)
  ultimately show ?thesis using assms hwD [of "store s' (cur s)" "store s (cur s)"]
    by (auto simp: kept_def kern_ok_def no_return_def members_def prepared_def split: if_splits)
qed

lemma kept_cfs [simp]: "kept s (s'\<lparr>cfs := q\<rparr>) = kept s s'"
  by (simp add: kept_def kern_ok_def no_return_def members_def proc_state_def)

lemma kern_kept_trans: "kept s s' \<Longrightarrow> kept s' s'' \<Longrightarrow> kept s s''"
  by (auto simp: kept_def no_return_def)

lemma load_context_simps [simp]:
  "cur (load_context n tf s) = cur s" "runq (load_context n tf s) = runq s" "store (load_context n tf s) = store s"
  "next_pid (load_context n tf s) = next_pid s" "proc_state (load_context n tf s) i = proc_state s i"
  "p_user (store s n) \<Longrightarrow> cr3_reg (load_context n tf s) = p_cr3 (store s n) \<and> kstack_reg (load_context n tf s) = p_kstack (store s n)"
  by (simp_all add: load_context_def Let_def proc_state_def)

text \<open>Taking a queued task out, marking it running and making it the current one.\<close>

lemma kept_taken:
  assumes ok: "kern_ok s" and i: "i < length (runq s)"
    and s2: "s2 = set_state (runq s ! i) Running (s\<lparr>cfs := q, runq := remove_at i (runq s)\<rparr>)"
    and fr: "sig_frame (runq s ! i) s2 (b, s3)"
  shows "kept s s3" "kept s (load_context (runq s ! i) tf (s3\<lparr>cur := runq s ! i\<rparr>))"
proof -
  let ?n = "runq s ! i"
  have d: "distinct (runq s)" using ok by (simp add: kern_ok_def)
  have q: "distinct (runq s3)" "set (runq s3) \<subseteq> set (runq s)" "?n \<notin> set (runq s3)" "cur s3 = cur s" "next_pid s3 = next_pid s"
    using fr distinct_remove_at [OF d i] set_remove_at [of i "runq s"] by (auto simp: sig_frame_def same_place_def s2)
  have hw: "hw (store s3 j) = hw (store s j)" "cr3_reg s3 = cr3_reg s" "kstack_reg s3 = kstack_reg s" for j
    using fr by (auto simp: sig_frame_def same_place_def s2)
  have st: "proc_state s3 j \<noteq> Running" if "j \<in> set (runq s3)" for j
  proof -
    have "proc_state s j \<noteq> Running" "j \<noteq> ?n" using that q(2,3) ok by (auto simp: kern_ok_def)
    moreover have "proc_state s2 j = (if j = ?n then Running else proc_state s j)" by (simp add: s2) (simp add: proc_state_def)
    ultimately show ?thesis using fr by (auto simp: sig_frame_def)
  qed
  have n: "?n \<in> members s" using i by (simp add: members_def)
  show "kept s s3" using ok q st hw hwD [OF hw(1) [of "cur s"]] by (auto simp: kept_def kern_ok_def no_return_def members_def)
  show "kept s (load_context ?n tf (s3\<lparr>cur := ?n\<rparr>))"
    using ok q st n hwD [OF hw(1) [of ?n]] by (auto simp: kept_def kern_ok_def no_return_def members_def proc_state_def)
qed

lemma tick_kept: "kern_ok s \<Longrightarrow> on_timer_tick tf s = Some (tf', s') \<Longrightarrow> kept s s'"
proof -
  assume ok: "kern_ok s" and t: "on_timer_tick tf s = Some (tf', s')"
  show ?thesis
  proof (rule tick_cases [OF t])
    assume "same_place s s'" "\<And>i. proc_state s' i = proc_state s i"
    then show ?thesis using ok by (intro kept_same) (auto simp: kern_ok_def)
  next
    fix s1 assume "prepared tf s s1" "s' = s1\<lparr>cfs := cfs s'\<rparr>"
    then show ?thesis using kept_prepared [OF ok] kept_cfs by metis
  next
    fix s1 i s2 r
    assume p: "prepared tf s s1" and i: "i < length (runq s1)"
      and s2: "s2 = set_state (runq s1 ! i) Running (s1\<lparr>cfs := cfs s2, runq := remove_at i (runq s1)\<rparr>)"
      and c: "p_tf (store s1 (runq s1 ! i)) = 0 \<and> tf' = tf \<and> s' = s2 \<or> sig_frame (runq s1 ! i) s2 (False, s') \<and> tf' = tf
        \<or> sig_frame (runq s1 ! i) s2 (True, r) \<and> tf' = p_tf (store s1 (runq s1 ! i)) \<and> tf' \<noteq> 0
          \<and> s' = load_context (runq s1 ! i) tf' (r\<lparr>cur := runq s1 ! i\<rparr>)"
    have k: "kept s s1" using kept_prepared [OF ok p] .
    then have ok1: "kern_ok s1" by (simp add: kept_def)
    have "kept s1 s'" using kept_taken [OF ok1 i s2] c sig_frame_refl by metis
    then show ?thesis using kern_kept_trans [OF k] by blast
  qed
qed

subsection \<open>Exit, wait and new tasks keep the invariant\<close>

lemma kept_wakes [simp]: "kept s (s'\<lparr>wakes := w\<rparr>) = kept s s'"
  by (simp add: kept_def kern_ok_def no_return_def members_def proc_state_def)

lemma load_context_wakes: "load_context n tf (s\<lparr>wakes := w\<rparr>) = (load_context n tf s)\<lparr>wakes := w\<rparr>"
  by (simp add: load_context_def Let_def)

lemma leave_state:
  "proc_state (leave c s) c \<in> {Zombie, Exited}"
  "i \<noteq> c \<Longrightarrow> proc_state (leave c s) i = proc_state s i \<or> proc_state s i = Blocked \<and> proc_state (leave c s) i = Ready"
  by (auto simp: leave_def Let_def notify_state)

text \<open>Exit up to the choice of the next task.\<close>

lemma exit_unfold:
  obtains sa wl where "same_place s sa" "proc_state sa (cur s) \<in> {Zombie, Exited}"
    "\<And>i. i \<noteq> cur s \<Longrightarrow> proc_state sa i = proc_state s i \<or> proc_state s i = Blocked \<and> proc_state sa i = Ready"
    "exit_current_and_switch status s =
      (case take_at (best_index sa) (drop_exited sa) of
         (None, s1) \<Rightarrow> Some (Halted, s1)
       | (Some n, s1) \<Rightarrow>
           let s2 = set_state n Running s1; tf = p_tf (store s1 n) in
           if tf = 0 then None else Some (SwitchTo tf, load_context n tf (s2\<lparr>cur := n, wakes := wakes s2 @ wl\<rparr>)))"
proof -
  let ?c = "cur s"
  let ?tid = "p_clear_tid (store s ?c)"
  define s0 where "s0 = (let s = upd ?c (p_exit_update (\<lambda>_. wrap_i32 (int status))) s in if ?tid \<noteq> 0 then poke ?tid 0 s else s)"
  define sa where "sa = reparent ?c (leave ?c s0)"
  have s0: "same_place s s0" "proc_state s0 i = proc_state s i" for i
    by (auto simp: s0_def Let_def same_place_def hw_def proc_state_def)
  have sp: "same_place s sa"
    unfolding sa_def using same_place_trans [OF s0(1) same_place_trans [OF leave_same reparent_same]] .
  have c: "proc_state sa ?c \<in> {Zombie, Exited}"
    using leave_state(1) [of ?c s0] reparent_state [of ?c "leave ?c s0" ?c] by (auto simp: sa_def)
  have o: "proc_state sa i = proc_state s i \<or> proc_state s i = Blocked \<and> proc_state sa i = Ready" if "i \<noteq> ?c" for i
    using leave_state(2) [OF that, of s0] reparent_state [of ?c "leave ?c s0" i] s0(2) by (auto simp: sa_def)
  have "exit_current_and_switch status s =
      (case take_at (best_index sa) (drop_exited sa) of
         (None, s1) \<Rightarrow> Some (Halted, s1)
       | (Some n, s1) \<Rightarrow>
           let s2 = set_state n Running s1; tf = p_tf (store s1 n) in
           if tf = 0 then None
           else Some (SwitchTo tf, load_context n tf (s2\<lparr>cur := n, wakes := wakes s2 @ (if ?tid \<noteq> 0 then [?tid] else [])\<rparr>)))"
    by (auto simp: exit_current_and_switch_def Let_def sa_def s0_def split: prod.split option.split)
  then show thesis using that sp c o by blast
qed

lemma exit_cases:
  assumes "exit_current_and_switch status s = Some (fl, s')"
  obtains sa where "same_place s sa" "proc_state sa (cur s) \<in> {Zombie, Exited}"
    "\<And>i. i \<noteq> cur s \<Longrightarrow> proc_state sa i = proc_state s i \<or> proc_state s i = Blocked \<and> proc_state sa i = Ready"
    "fl = Halted \<and> s' = drop_exited sa \<or>
     (\<exists>i tf w. i < length (runq (drop_exited sa)) \<and> fl = SwitchTo tf
        \<and> s' = load_context (runq (drop_exited sa) ! i) tf ((set_state (runq (drop_exited sa) ! i) Running
             ((drop_exited sa)\<lparr>runq := remove_at i (runq (drop_exited sa))\<rparr>))\<lparr>cur := runq (drop_exited sa) ! i, wakes := w\<rparr>))"
proof (rule exit_unfold [of s status])
  fix sa wl
  assume sa: "same_place s sa" "proc_state sa (cur s) \<in> {Zombie, Exited}"
    "\<And>i. i \<noteq> cur s \<Longrightarrow> proc_state sa i = proc_state s i \<or> proc_state s i = Blocked \<and> proc_state sa i = Ready"
    and e: "exit_current_and_switch status s =
      (case take_at (best_index sa) (drop_exited sa) of
         (None, s1) \<Rightarrow> Some (Halted, s1)
       | (Some n, s1) \<Rightarrow>
           let s2 = set_state n Running s1; tf = p_tf (store s1 n) in
           if tf = 0 then None else Some (SwitchTo tf, load_context n tf (s2\<lparr>cur := n, wakes := wakes s2 @ wl\<rparr>)))"
  obtain r sb where t: "take_at (best_index sa) (drop_exited sa) = (r, sb)" by fastforce
  show thesis
    by (rule take_at_cases [OF t]; rule that [OF sa]) (use assms e t in \<open>auto simp: Let_def split: if_splits\<close>)
qed

lemma kept_drop: "kern_ok s \<Longrightarrow> kept s (drop_exited s)"
  by (auto simp: kept_def kern_ok_def no_return_def members_def drop_exited_def proc_state_def)

lemma exit_kept: "kern_ok s \<Longrightarrow> exit_current_and_switch status s = Some (fl, s') \<Longrightarrow> kept s s'"
proof -
  assume ok: "kern_ok s" and e: "exit_current_and_switch status s = Some (fl, s')"
  show "kept s s'"
  proof (rule exit_cases [OF e])
    fix sa
    assume sa: "same_place s sa" "proc_state sa (cur s) \<in> {Zombie, Exited}"
      "\<And>i. i \<noteq> cur s \<Longrightarrow> proc_state sa i = proc_state s i \<or> proc_state s i = Blocked \<and> proc_state sa i = Ready"
      and c: "fl = Halted \<and> s' = drop_exited sa \<or>
     (\<exists>i tf w. i < length (runq (drop_exited sa)) \<and> fl = SwitchTo tf
        \<and> s' = load_context (runq (drop_exited sa) ! i) tf ((set_state (runq (drop_exited sa) ! i) Running
             ((drop_exited sa)\<lparr>runq := remove_at i (runq (drop_exited sa))\<rparr>))\<lparr>cur := runq (drop_exited sa) ! i, wakes := w\<rparr>))"
    let ?sd = "drop_exited sa"
    have "proc_state sa i \<noteq> Running" if "i \<in> set (runq s)" for i
      using sa(2) sa(3) [of i] ok that by (cases "i = cur s") (auto simp: kern_ok_def)
    then have k1: "kept s sa" using kept_same [OF ok sa(1)] by blast
    then have k2: "kept s ?sd" using kern_kept_trans [OF k1] kept_drop [of sa] by (simp add: kept_def)
    have "kept ?sd s'" if "s' \<noteq> ?sd"
    proof -
      obtain i tf w where i: "i < length (runq ?sd)" and s': "s' = load_context (runq ?sd ! i) tf ((set_state (runq ?sd ! i) Running
             (?sd\<lparr>runq := remove_at i (runq ?sd)\<rparr>))\<lparr>cur := runq ?sd ! i, wakes := w\<rparr>)"
        using c \<open>s' \<noteq> ?sd\<close> by blast
      have "kern_ok ?sd" using k2 by (simp add: kept_def)
      from kept_taken(2) [where q = "cfs ?sd" and tf = tf, OF this i refl sig_frame_refl]
      have "kept ?sd (load_context (runq ?sd ! i) tf ((set_state (runq ?sd ! i) Running
             (?sd\<lparr>runq := remove_at i (runq ?sd)\<rparr>))\<lparr>cur := runq ?sd ! i\<rparr>))" by simp
      then show ?thesis unfolding s' load_context_wakes by simp
    qed
    then show ?thesis using k2 kern_kept_trans by blast
  qed
qed

lemma group_mark_same:
  "same_place s (fold (\<lambda>t s. if p_tgid (store s t) = g then upd t (\<lambda>p. p\<lparr>p_state := Exited, p_exit := e\<rparr>) s else s) ts s)
   \<and> proc_state (fold (\<lambda>t s. if p_tgid (store s t) = g then upd t (\<lambda>p. p\<lparr>p_state := Exited, p_exit := e\<rparr>) s else s) ts s) i
       = (if i \<in> set ts \<and> p_tgid (store s i) = g then Exited else proc_state s i)
   \<and> p_tgid (store (fold (\<lambda>t s. if p_tgid (store s t) = g then upd t (\<lambda>p. p\<lparr>p_state := Exited, p_exit := e\<rparr>) s else s) ts s) i) = p_tgid (store s i)"
proof (induction ts arbitrary: s)
  case (Cons t ts)
  let ?u = "upd t (\<lambda>p. p\<lparr>p_state := Exited, p_exit := e\<rparr>) s"
  have "same_place s ?u" "proc_state ?u i = (if i = t then Exited else proc_state s i)" "p_tgid (store ?u i) = p_tgid (store s i)"
    by (auto simp: same_place_def hw_def proc_state_def)
  then show ?case using Cons.IH [of ?u] Cons.IH [of s] same_place_trans [of s ?u] by auto
qed simp

lemma exit_group_kept: "kern_ok s \<Longrightarrow> exit_thread_group status s = Some (fl, s') \<Longrightarrow> kept s s'"
proof -
  assume ok: "kern_ok s" and e: "exit_thread_group status s = Some (fl, s')"
  define g where "g = p_tgid (store s (cur s))"
  define s1 where "s1 = fold (\<lambda>t s. if p_tgid (store s t) = g then upd t (\<lambda>p. p\<lparr>p_state := Exited,
      p_exit := wrap_i32 (int status)\<rparr>) s else s) (runq s) s"
  have "kept s s1"
    using group_mark_same [of s g "wrap_i32 (int status)" "runq s"] ok by (intro kept_same) (auto simp: s1_def kern_ok_def)
  moreover from this have "kept s1 s'"
    using e exit_kept [of s1 status fl s'] by (simp add: exit_thread_group_def Let_def s1_def g_def kept_def)
  ultimately show ?thesis using kern_kept_trans by blast
qed

lemma scan_children_found:
  "scan_children pid me s ts k has = Some (Some i, h) \<Longrightarrow>
     k \<le> i \<and> i < k + length ts \<and> p_parent (store s (ts ! (i - k))) = me \<and> proc_state s (ts ! (i - k)) = Zombie"
proof (induction pid me s ts k has rule: scan_children.induct)
  case (2 pid me s t ts k has)
  then show ?case by (auto simp: nth_Cons' Suc_diff_Suc split: if_splits bind_splits)
qed simp

lemma scan_one_found:
  "scan_one pid me s ts k has = (Some i, h) \<Longrightarrow>
     k \<le> i \<and> i < k + length ts \<and> p_parent (store s (ts ! (i - k))) = me \<and> proc_state s (ts ! (i - k)) = Zombie"
proof (induction pid me s ts k has rule: scan_one.induct)
  case (2 pid me s t ts k has)
  then show ?case by (auto simp: nth_Cons' Suc_diff_Suc split: if_splits)
qed simp

text \<open>The end of a successful wait: the zombie leaves the queue.\<close>

lemma kept_reap:
  assumes "kern_ok s" "i < length (runq s)"
  shows "kept s (reap i sp s)"
proof -
  have d: "distinct (runq s)" using assms(1) by (simp add: kern_ok_def)
  define s' where "s' = reap i sp s"
  have s': "runq s' = remove_at i (runq s)" "cur s' = cur s" "next_pid s' = next_pid s" "cr3_reg s' = cr3_reg s"
      "kstack_reg s' = kstack_reg s" "hw (store s' j) = hw (store s j)" "proc_state s' j \<in> {proc_state s j, Exited}" for j
    by (auto simp: s'_def reap_def Let_def proc_state_def set_state_def hw_def)
  have "proc_state s' j \<noteq> Running" if "j \<in> set (runq s)" for j using s'(7) [of j] assms(1) that by (auto simp: kern_ok_def)
  then show ?thesis unfolding s'_def [symmetric]
    using assms s' distinct_remove_at [OF d assms(2)] set_remove_at [of i "runq s"] hwD [OF s'(6) [of "cur s"]]
    by (auto simp: kept_def kern_ok_def no_return_def members_def)
qed

lemma kept_sleep: "kern_ok s \<Longrightarrow> kept s (upd (cur s) (\<lambda>p. p\<lparr>p_state := Blocked, p_tf := 0\<rparr>) s)"
  by (rule kept_same) (auto simp: same_place_def hw_def proc_state_def kern_ok_def)

lemma kern_kept_refl: "kern_ok s \<Longrightarrow> kept s s"
  by (simp add: kept_def no_return_def)

lemma wait_round_kept:
  assumes ok: "kern_ok s" and w: "wait_round pid sp opt s = Some (fl, s')"
  shows "kept s s'"
  using w kern_kept_refl [OF ok] kept_sleep [OF ok] kept_reap [OF ok] scan_children_found [of pid "cur s" s "runq s" 0 False]
  by (auto simp: wait_round_def split: bind_splits option.splits if_splits)

lemma wait_for_child_kept:
  assumes ok: "kern_ok s" and w: "wait_for_child_round pid sp s = (fl, s')"
  shows "kept s s'"
  using w kern_kept_refl [OF ok] kept_sleep [OF ok] kept_reap [OF ok] scan_one_found [of pid "cur s" s "runq s" 0 False]
  by (auto simp: wait_for_child_round_def split: prod.splits option.splits if_splits)

text \<open>A new task with a fresh identifier.\<close>

definition joined :: "nat \<Rightarrow> Kern \<Rightarrow> Kern \<Rightarrow> bool" where
  "joined t s s' \<longleftrightarrow> t = next_pid s \<and> next_pid s' = Suc t \<and> cur s' = cur s \<and> runq s' = runq s @ [t] \<and> cr3_reg s' = cr3_reg s
     \<and> kstack_reg s' = kstack_reg s \<and> proc_state s' t = Ready
     \<and> (\<forall>i. i \<noteq> t \<longrightarrow> hw (store s' i) = hw (store s i) \<and> proc_state s' i = proc_state s i)"

lemma joined_kept: "kern_ok s \<Longrightarrow> joined t s s' \<Longrightarrow> kept s s'"
proof -
  assume ok: "kern_ok s" and j: "joined t s s'"
  have t: "t \<notin> members s" using ok j by (auto simp: kern_ok_def joined_def)
  then have "hw (store s' (cur s)) = hw (store s (cur s))" using j by (auto simp: joined_def members_def)
  moreover have "proc_state s' i \<noteq> Running" if "i \<in> set (runq s')" for i
    using ok j t that by (auto simp: kern_ok_def joined_def members_def)
  ultimately show ?thesis using ok j t hwD [of "store s' (cur s)" "store s (cur s)"]
    by (auto simp: kept_def kern_ok_def no_return_def members_def joined_def)
qed

lemma enroll_frame:
  assumes "enroll t s = Some s'"
  shows "cur s' = cur s" "next_pid s' = next_pid s" "cr3_reg s' = cr3_reg s" "kstack_reg s' = kstack_reg s" "runq s' = runq s @ [t]"
    "hw (store s' i) = hw (store s i)" "proc_state s' i = proc_state s i" "p_parent (store s' i) = p_parent (store s i)"
    "p_sig (store s' i) = p_sig (store s i)" "p_tf (store s' i) = p_tf (store s i)" "i \<noteq> t \<Longrightarrow> store s' i = store s i"
    "p_cred (store s' i) = p_cred (store s i)" "p_tgid (store s' i) = p_tgid (store s i)" "p_prio (store s' i) = p_prio (store s i)"
  using assms by (cases "i = t"; auto simp: enroll_def Let_def hw_def proc_state_def split: bind_splits)+

lemma add_task_simps [simp]:
  "cur (add_task t p s) = cur s" "next_pid (add_task t p s) = next_pid s" "cr3_reg (add_task t p s) = cr3_reg s"
  "kstack_reg (add_task t p s) = kstack_reg s" "runq (add_task t p s) = runq s"
  "store (add_task t p s) i = (if i = t then p else store s i)" "cfs (add_task t p s) = cfs s"
  by (simp_all add: add_task_def)

lemma inherit_state [simp]: "p_state (inherit i p se) = Ready"
  by (simp add: inherit_def)

lemma fork_joined:
  assumes "fork_task space kst tf r3 s = Some (Inr child, s')" "next_pid s < 2 ^ 64 - 1"
  shows "joined child s s'"
  using assms enroll_frame
  by (auto simp: fork_task_def Let_def alloc_pid_def joined_def proc_state_def hw_def split: if_splits sum.splits bind_splits)

lemma clone_joined:
  assumes "clone_thread fl pt ct tls kst tf s = Some (Inr t, s')" "next_pid s < 2 ^ 64 - 1"
  shows "joined t s s'"
  using assms enroll_frame
  by (auto simp: clone_thread_def Let_def alloc_pid_def joined_def proc_state_def hw_def split: if_splits bind_splits)

lemma kthread_joined:
  assumes "spawn_kernel_thread name kst tf s = Some (Inr t, s')" "next_pid s < 2 ^ 64 - 1"
  shows "joined t s s'"
  using assms by (auto simp: spawn_kernel_thread_def Let_def alloc_pid_def joined_def proc_state_def hw_def kernel_task_def split: bind_splits)

text \<open>A fork that fails has used up an identifier at most.\<close>

lemma fork_failed:
  assumes "fork_task space kst tf r3 s = Some (Inl e, s')" "next_pid s < 2 ^ 64 - 1"
  shows "\<exists>n. s' = s\<lparr>next_pid := n\<rparr> \<and> next_pid s \<le> n"
  using assms by (auto simp: fork_task_def Let_def alloc_pid_def split: if_splits sum.splits bind_splits intro: exI [of _ "next_pid s"])

lemma clone_failed: "clone_thread fl pt ct tls kst tf s = Some (Inl e, s') \<Longrightarrow> s' = s"
  by (auto simp: clone_thread_def Let_def alloc_pid_def split: if_splits bind_splits)

lemma kept_pid: "kern_ok s \<Longrightarrow> next_pid s \<le> n \<Longrightarrow> kept s (s\<lparr>next_pid := n\<rparr>)"
  by (fastforce simp: kept_def kern_ok_def no_return_def members_def proc_state_def)

lemma exec_kept: "kern_ok s \<Longrightarrow> exec_replace cr3 tf s = (tf', s') \<Longrightarrow> kept s s'"
  by (auto simp: exec_replace_def Let_def kept_def kern_ok_def no_return_def members_def proc_state_def split: if_splits)

text \<open>Operations that change a field of some task, and never make one running.\<close>

lemma kept_upd:
  assumes "kern_ok s" "\<And>p. hw (f p) = hw p" "\<And>p. p_state (f p) = p_state p \<or> p_state (f p) = Ready"
  shows "kept s (upd i f s)"
proof (rule kept_same [OF assms(1) same_place_upd [OF assms(2)]])
  show "proc_state (upd i f s) j \<noteq> Running" if "j \<in> set (runq s)" for j
  proof -
    have "proc_state (upd i f s) j \<in> {proc_state s j, Ready}" using assms(3) [of "store s j"] by (auto simp: proc_state_def)
    then show ?thesis using assms(1) that by (auto simp: kern_ok_def)
  qed
qed

lemma send_kept: "kern_ok s \<Longrightarrow> send_signal_to pid k s = (r, s') \<Longrightarrow> kept s s'"
  by (auto simp: send_signal_to_def Let_def hw_def intro!: kept_upd kern_kept_refl split: if_splits)

lemma send_thread_kept: "kern_ok s \<Longrightarrow> send_signal_to_thread g t k s = (r, s') \<Longrightarrow> kept s s'"
  by (auto simp: send_signal_to_thread_def hw_def intro!: kept_upd kern_kept_refl split: if_splits)

lemma kept_foreground [simp]: "kept s (s'\<lparr>foreground := fg\<rparr>) = kept s s'"
  by (simp add: kept_def kern_ok_def no_return_def members_def proc_state_def)

lemma sigint_kept: "kern_ok s \<Longrightarrow> kept s (send_sigint_to_foreground s)"
  using send_kept by (auto simp: send_sigint_to_foreground_def Let_def kern_kept_refl split: prod.splits sum.splits)

subsection \<open>Runs of the scheduler\<close>

text \<open>The steps: the operations above, and the changes of the machine between them.  Frames are pushed by traps, the GS base is
  set by user code, and the signal state, the credentials and the working directory of the current task by its other system calls.
  The identifiers handed out stay below \<open>2 ^ 64 - 1\<close>.\<close>

inductive sched_step :: "Kern \<Rightarrow> Kern \<Rightarrow> bool" where
  tick: "on_timer_tick tf s = Some (tf', s') \<Longrightarrow> sched_step s s'"
| exit: "exit_current_and_switch status s = Some (fl, s') \<Longrightarrow> sched_step s s'"
| exit_group: "exit_thread_group status s = Some (fl, s') \<Longrightarrow> sched_step s s'"
| wait: "wait_round pid sp opt s = Some (w, s') \<Longrightarrow> sched_step s s'"
| wait_child: "wait_for_child_round pid sp s = (w, s') \<Longrightarrow> sched_step s s'"
| fork: "fork_task space kst tf r3 s = Some (r, s') \<Longrightarrow> next_pid s < 2 ^ 64 - 1 \<Longrightarrow> sched_step s s'"
| clone: "clone_thread flags pt ct tls kst tf s = Some (r, s') \<Longrightarrow> next_pid s < 2 ^ 64 - 1 \<Longrightarrow> sched_step s s'"
| kthread: "spawn_kernel_thread name kst tf s = Some (r, s') \<Longrightarrow> next_pid s < 2 ^ 64 - 1 \<Longrightarrow> sched_step s s'"
| exec: "exec_replace cr3 tf s = (tf', s') \<Longrightarrow> sched_step s s'"
| kill: "send_signal_to pid k s = (res, s') \<Longrightarrow> sched_step s s'"
| tgkill: "send_signal_to_thread g t k s = (res, s') \<Longrightarrow> sched_step s s'"
| sigint: "sched_step s (send_sigint_to_foreground s)"
| focus: "sched_step s (set_foreground pid s)"
| cleartid: "sched_step s (set_clear_child_tid a s)"
| setprio: "set_task_priority pid prio s = (pr, s') \<Longrightarrow> sched_step s s'"
| setcurprio: "set_current_priority prio s = (pr, s') \<Longrightarrow> sched_step s s'"
| nice: "nice inc s = (pr, s') \<Longrightarrow> sched_step s s'"
| affinity: "set_task_affinity pid cpus s = (b, s') \<Longrightarrow> sched_step s s'"
| trap: "sched_step s (s\<lparr>frame_user := fu, gs_reg := gs\<rparr>)"
| own: "sched_step s (upd (cur s) (\<lambda>p. p\<lparr>p_sig := sg, p_cred := cr, p_cwd := wd\<rparr>) s)"

lemma kept_machine [simp]: "kept s (s'\<lparr>frame_user := fu, gs_reg := gs\<rparr>) = kept s s'"
  by (simp add: kept_def kern_ok_def no_return_def members_def proc_state_def)

lemma step_kept: "sched_step s s' \<Longrightarrow> kern_ok s \<Longrightarrow> kept s s'"
proof (induction rule: sched_step.induct)
  case (fork space kst tf r3 s r s')
  show ?case
  proof (cases r)
    case (Inl e)
    then obtain n where "s' = s\<lparr>next_pid := n\<rparr>" "next_pid s \<le> n" using fork_failed fork.hyps by blast
    then show ?thesis using kept_pid fork.prems by blast
  next
    case (Inr child)
    then show ?thesis using joined_kept [OF fork.prems fork_joined] fork.hyps by blast
  qed
next
  case (clone flags pt ct tls kst tf s r s')
  show ?case
  proof (cases r)
    case (Inl e)
    then have "s' = s" using clone_failed clone.hyps by blast
    then show ?thesis using kern_kept_refl clone.prems by blast
  next
    case (Inr t)
    then show ?thesis using joined_kept [OF clone.prems clone_joined] clone.hyps by blast
  qed
next
  case (kthread name kst tf s r s')
  then obtain t where "r = Inr t" by (auto simp: spawn_kernel_thread_def Let_def split: prod.splits bind_splits)
  then show ?case using kthread joined_kept [OF _ kthread_joined] by blast
qed (auto simp: set_foreground_def set_clear_child_tid_def set_task_priority_def set_current_priority_def nice_def set_prio_def
    set_task_affinity_def Let_def hw_def tick_kept exit_kept exit_group_kept wait_round_kept wait_for_child_kept exec_kept send_kept
    send_thread_kept sigint_kept kern_kept_refl intro!: kept_upd split: if_splits)

lemma steps_kept: "sched_step\<^sup>*\<^sup>* s s' \<Longrightarrow> kern_ok s \<Longrightarrow> kept s s'"
proof (induction rule: rtranclp_induct)
  case base
  then show ?case by (rule kern_kept_refl)
next
  case (step s1 s2)
  then have "kept s s1" by blast
  then show ?case using step_kept [OF step.hyps(2)] kern_kept_trans by (auto simp: kept_def intro: kern_kept_trans)
qed

text \<open>The boot, as \<^verbatim>\<open>main.rs\<close> runs it: the scheduler is made with the idle task, which is the context of the boot; a kernel thread is
  started, interrupts are enabled, so that ticks and the thread run, and then init is started.  The states before that are those that
  any steps reach from the new scheduler; init is started in one of them, and any steps follow.\<close>

inductive boot_reach :: "Kern \<Rightarrow> bool" where
  made: "init_scheduler_only cr3 rsp = Some s \<Longrightarrow> boot_reach s"
| early: "boot_reach s \<Longrightarrow> sched_step s s' \<Longrightarrow> boot_reach s'"

inductive sched_reach :: "Kern \<Rightarrow> bool" where
  boot: "boot_reach s \<Longrightarrow> sched_reach s"
| init: "boot_reach s \<Longrightarrow> spawn_init loaded kst tf s = Some (r, s') \<Longrightarrow> sched_reach s'"
| run: "sched_reach s \<Longrightarrow> sched_step s s' \<Longrightarrow> sched_reach s'"

text \<open>The identifier of init is not in use before init is started: the counter begins at 2.\<close>

lemma boot_reach_ok: "boot_reach s \<Longrightarrow> kern_ok s \<and> 1 \<notin> members s \<and> 1 < next_pid s"
proof (induction rule: boot_reach.induct)
  case (made cr3 rsp s)
  then show ?case by (auto simp: init_scheduler_only_def Let_def kern_ok_def members_def kernel_task_def split: bind_splits)
next
  case (early s s')
  then show ?case using step_kept [of s s'] by (auto simp: kept_def no_return_def)
qed

lemma spawn_init_ok:
  assumes ok: "kern_ok s" and new: "1 \<notin> members s" "1 < next_pid s" and r: "spawn_init loaded kst tf s = Some (r, s')"
  shows "kern_ok s'"
proof (cases loaded)
  case (Inl e)
  then show ?thesis using ok r by (simp add: spawn_init_def)
next
  case (Inr cr3)
  then obtain se where e: "enroll 1 (add_task 1 (kernel_task 1 ''init'' True kst cr3 tf 0 se) (s\<lparr>frame_user := (frame_user s)(tf := True)\<rparr>)) = Some s'"
    using r by (auto simp: spawn_init_def split: bind_splits)
  have c: "cur s \<noteq> 1" "1 \<notin> set (runq s)" using new(1) by (auto simp: members_def)
  note f = enroll_frame(1-5) [OF e, simplified] enroll_frame(6) [OF e, of "cur s", simplified] enroll_frame(7) [OF e, simplified]
  have st: "proc_state s' i = (if i = 1 then Ready else proc_state s i)" for i
    using f(7) [of i] by (simp add: proc_state_def kernel_task_def)
  then show ?thesis using ok new(2) c f(1-6) hwD [of "store s' (cur s)" "store s (cur s)"]
    by (auto simp: kern_ok_def members_def)
qed

lemma reach_ok: "sched_reach s \<Longrightarrow> kern_ok s"
proof (induction rule: sched_reach.induct)
  case (run s s')
  then show ?case using step_kept by (auto simp: kept_def)
qed (use boot_reach_ok spawn_init_ok in blast)+

end
