(* ===== verification/Scheduler.thy ===== *)
theory Scheduler
  imports Process
begin

text \<open>
  What the scheduler of \<open>Process\<close> promises and what it loses: what a switch does with the signals of the task it has chosen, the
  totality of the timer tick, and the properties of runs.
\<close>

subsection \<open>Tasks that are lost\<close>

lemma gone_stays:
  assumes "kern_ok s" "i \<in> members s" "kept s s1" "i \<notin> members s1" "sched_step\<^sup>*\<^sup>* s1 s2"
  shows "i \<notin> members s2"
proof -
  have ok: "kern_ok s1" and "i < next_pid s" and le: "next_pid s \<le> next_pid s1" using assms(1-3) by (auto simp: kept_def kern_ok_def no_return_def)
  then have "i < next_pid s1" by simp
  then show ?thesis using steps_kept [OF assms(5) ok] assms(4) by (auto simp: kept_def no_return_def)
qed

lemma running_not_queued: "kern_ok s \<Longrightarrow> proc_state s (cur s) = Running \<Longrightarrow> cur s \<notin> set (runq s)"
  by (auto simp: kern_ok_def)

lemma prepared_queued:
  "prepared tf s s1 \<Longrightarrow> m \<in> set (runq s1) \<Longrightarrow> m = cur s \<or> m \<in> set (runq s) \<and> proc_state s1 m = proc_state s m \<and> p_tf (store s1 m) = p_tf (store s m)"
  by (auto simp: prepared_def split: if_splits)

lemma exit_gone:
  assumes "cur s \<notin> set (runq s)" "exit_current_and_switch status s = Some (SwitchTo tf, s')"
  shows "cur s \<notin> members s'"
proof (rule exit_cases [OF assms(2)])
  fix sa
  assume "same_place s sa"
    and c: "SwitchTo tf = Halted \<and> s' = drop_exited sa \<or>
     (\<exists>i t w. i < length (runq (drop_exited sa)) \<and> SwitchTo tf = SwitchTo t
        \<and> s' = load_context (runq (drop_exited sa) ! i) t ((set_state (runq (drop_exited sa) ! i) Running
             ((drop_exited sa)\<lparr>runq := remove_at i (runq (drop_exited sa))\<rparr>))\<lparr>cur := runq (drop_exited sa) ! i, wakes := w\<rparr>))"
  then have q: "cur s \<notin> set (runq (drop_exited sa))" using assms(1) by (auto simp: drop_exited_def same_place_def)
  then show ?thesis using c set_remove_at [of _ "runq (drop_exited sa)"] nth_mem by (fastforce simp: members_def)
qed

lemma switch_gone:
  assumes "cur s \<notin> set (runq s)" "proc_state s (cur s) \<noteq> Running" "on_timer_tick tf s = Some (tf', s')" "cur s' \<noteq> cur s"
  shows "cur s \<notin> members s'"
proof (rule tick_cases [OF assms(3)])
  fix s1 i s2 r
  assume p: "prepared tf s s1" and i: "i < length (runq s1)"
    and s2: "s2 = set_state (runq s1 ! i) Running (s1\<lparr>cfs := cfs s2, runq := remove_at i (runq s1)\<rparr>)"
    and c: "p_tf (store s1 (runq s1 ! i)) = 0 \<and> tf' = tf \<and> s' = s2 \<or> sig_frame (runq s1 ! i) s2 (False, s') \<and> tf' = tf
      \<or> sig_frame (runq s1 ! i) s2 (True, r) \<and> tf' = p_tf (store s1 (runq s1 ! i)) \<and> tf' \<noteq> 0
        \<and> s' = load_context (runq s1 ! i) tf' (r\<lparr>cur := runq s1 ! i\<rparr>)"
  have "runq s2 = remove_at i (runq s1)" by (subst s2) simp
  moreover have q: "cur s \<notin> set (runq s1)" using p assms(1,2) by (auto simp: prepared_def)
  ultimately have q2: "cur s \<notin> set (runq s2)" using set_remove_at [of i "runq s1"] by auto
  have "cur s2 = cur s" using p by (subst s2) (simp add: prepared_def)
  then have "sig_frame (runq s1 ! i) s2 (True, r) \<and> s' = load_context (runq s1 ! i) tf' (r\<lparr>cur := runq s1 ! i\<rparr>)"
    using c assms(4) by (auto simp: sig_frame_def same_place_def)
  then have "runq s' = runq s2" "cur s' = runq s1 ! i" by (auto simp: sig_frame_def same_place_def)
  then show ?thesis using q2 assms(4) by (auto simp: members_def)
qed (use assms(4) in \<open>auto simp: same_place_def prepared_def dest: arg_cong [where f = cur]\<close>)

subsection \<open>The signals of the task that is chosen\<close>

text \<open>A switch passes over a signal that is ignored, or that has no handler and is ignored or continues by default.\<close>

definition passed_over :: "SigTask \<Rightarrow> nat \<Rightarrow> bool" where
  "passed_over t k \<longleftrightarrow> is_ignored (t_handlers t ! k) \<or> \<not> has_handler (t_handlers t ! k) \<and> default_action k \<in> {Ignore, Continue}"

text \<open>\<open>consumed J p q\<close>: the task \<open>q\<close> is \<open>p\<close> without the pending signals in \<open>J\<close>.\<close>

definition with_pending :: "u64 \<Rightarrow> Proc \<Rightarrow> Proc" where
  "with_pending w p = p\<lparr>p_sig := (p_sig p)\<lparr>t_signals := (t_signals (p_sig p))\<lparr>pending := w\<rparr>\<rparr>\<rparr>"

definition consumed :: "nat set \<Rightarrow> Proc \<Rightarrow> Proc \<Rightarrow> bool" where
  "consumed J p q \<longleftrightarrow> (\<exists>w. q = with_pending w p \<and> (\<forall>i. bit w i \<longleftrightarrow> bit (pending (t_signals (p_sig p))) i \<and> i \<notin> J))"

text \<open>The store after a signal \<open>k\<close> has killed task \<open>n\<close>: a zombie, whose queued parent gets \<open>SIGCHLD\<close> and wakes up.\<close>

definition killed_by :: "nat \<Rightarrow> nat \<Rightarrow> Proc \<Rightarrow> Kern \<Rightarrow> nat \<Rightarrow> Proc" where
  "killed_by k n q s i =
     (if i = n then q\<lparr>p_state := Zombie, p_exit := 128 + int k\<rparr>
      else if i = p_parent q \<and> i \<in> set (runq s) then proc_wake (proc_send SIGCHLD (store s i)) else store s i)"

text \<open>What the loop does, as a function of the lowest deliverable signal that is not passed over.\<close>

definition loop_result :: "nat \<Rightarrow> Kern \<Rightarrow> bool \<Rightarrow> Kern \<Rightarrow> bool" where
  "loop_result n s b s' \<longleftrightarrow>
     (let p = store s n; t = p_sig p; D = deliverable (t_signals t); E = {k \<in> D. \<not> passed_over t k}; k = Min E; B = {j \<in> D. j < k} in
      if E = {} then b \<and> (\<exists>q. consumed D p q \<and> s' = s\<lparr>store := (store s)(n := q)\<rparr>)
      else if has_handler (t_handlers t ! k) then b \<and> (\<exists>q. consumed B p q \<and> s' = s\<lparr>store := (store s)(n := q)\<rparr>)
      else if default_action k = Stop
      then \<not> b \<and> (\<exists>q. consumed (insert k B) p q \<and> s' = s\<lparr>store := (store s)(n := q\<lparr>p_state := Blocked\<rparr>)\<rparr>)
      else \<not> b \<and> (\<exists>q. consumed (insert k B) p q \<and> s' = s\<lparr>store := killed_by k n q s\<rparr>))"

lemma with_pending_simps [simp]:
  "t_handlers (p_sig (with_pending w p)) = t_handlers (p_sig p)" "pending (t_signals (p_sig (with_pending w p))) = w"
  "blocked (t_signals (p_sig (with_pending w p))) = blocked (t_signals (p_sig p))" "with_pending v (with_pending w p) = with_pending v p"
  "with_pending (pending (t_signals (p_sig p))) p = p" "p_parent (with_pending w p) = p_parent p"
  by (simp_all add: with_pending_def)

lemma ss_clear_pending: "0 < k \<Longrightarrow> k < 64 \<Longrightarrow> ss_clear k ss = ss\<lparr>pending := pending ss AND NOT (sig_bit k)\<rparr>"
  by (simp add: ss_clear_def)

lemma consumed_empty: "consumed {} p p"
  unfolding consumed_def by (rule exI [of _ "pending (t_signals (p_sig p))"]) simp

lemma consumed_one: "k < 64 \<Longrightarrow> consumed {k} p (with_pending (pending (t_signals (p_sig p)) AND NOT (sig_bit k)) p)"
  unfolding consumed_def by (rule exI, rule conjI, rule refl) (auto simp: bit_simps dest: bit_u64_less)

lemma consumed_trans: "consumed I p q \<Longrightarrow> consumed J q r \<Longrightarrow> consumed (I \<union> J) p r"
  unfolding consumed_def by (elim exE conjE, rule_tac x = wa in exI) auto

text \<open>One round, when some signal can be delivered.\<close>

lemma next_signal_round:
  assumes ok: "sig_ok (p_sig (store s n))" and ne: "deliverable (t_signals (p_sig (store s n))) \<noteq> {}"
    and m: "m = Min (deliverable (t_signals (p_sig (store s n))))"
  obtains q where "0 < m" "m < 64" "consumed {m} (store s n) q"
    "deliverable (t_signals (p_sig q)) = deliverable (t_signals (p_sig (store s n))) - {m}"
    "p_sig q = (p_sig (store s n))\<lparr>t_signals := ss_clear m (t_signals (p_sig (store s n)))\<rparr>" "p_parent q = p_parent (store s n)"
    "next_signal n s =
      (let t = p_sig (store s n) in
       if passed_over t m then (GoOn, s\<lparr>store := (store s)(n := q)\<rparr>)
       else if has_handler (t_handlers t ! m) then (Resume, s)
       else if default_action m = Stop then (GiveUp, s\<lparr>store := (store s)(n := q\<lparr>p_state := Blocked\<rparr>)\<rparr>)
       else (GiveUp, notify (p_parent q) (s\<lparr>store := (store s)(n := q\<lparr>p_state := Zombie, p_exit := 128 + int m\<rparr>)\<rparr>)))"
proof -
  let ?p = "store s n"
  let ?ss = "t_signals (p_sig ?p)"
  have md: "m \<in> deliverable ?ss" using ne m by (simp add: Min_in)
  then have m64: "m < 64" using bit_u64_less by (auto simp: deliverable_def)
  have m0: "0 < m" using md zero_not_deliverable [OF ok] by (metis gr0I)
  define q where "q = ?p\<lparr>p_sig := (p_sig ?p)\<lparr>t_signals := ss_clear m ?ss\<rparr>\<rparr>"
  have qw: "q = with_pending (pending ?ss AND NOT (sig_bit m)) ?p" by (simp add: q_def with_pending_def ss_clear_pending [OF m0 m64])
  have dq: "ss_dequeue ?ss = (Some m, ss_clear m ?ss)" using ne m by (simp add: ss_dequeue_eq)
  have get: "handlers_get m hs = Some (hs ! m)" for hs using m0 m64 by (simp add: handlers_get_def)
  have resent: "ss_send m (ss_clear m ?ss) = ?ss"
  proof -
    have "pending (ss_send m (ss_clear m ?ss)) = pending ?ss"
      using md m0 m64 by (intro bit_word_eqI) (auto simp: ss_send_def ss_clear_def deliverable_def bit_simps)
    then show ?thesis by simp
  qed
  have hq: "t_handlers (p_sig q) = t_handlers (p_sig ?p)" by (simp add: q_def)
  have re: "proc_send m q = ?p" by (simp add: proc_send_def q_def resent)
  have ih: "\<not> (is_ignored a \<and> has_handler a)" for a by (auto simp: is_ignored_def has_handler_def)
  show thesis
  proof (rule that [of q])
    show "consumed {m} ?p q" using consumed_one [OF m64] by (simp add: qw)
    show "deliverable (t_signals (p_sig q)) = deliverable ?ss - {m}"
      using deliverable_clear [OF zero_not_deliverable [OF ok]] by (simp add: q_def)
    show "next_signal n s =
      (let t = p_sig (store s n) in
       if passed_over t m then (GoOn, s\<lparr>store := (store s)(n := q)\<rparr>)
       else if has_handler (t_handlers t ! m) then (Resume, s)
       else if default_action m = Stop then (GiveUp, s\<lparr>store := (store s)(n := q\<lparr>p_state := Blocked\<rparr>)\<rparr>)
       else (GiveUp, notify (p_parent q) (s\<lparr>store := (store s)(n := q\<lparr>p_state := Zombie, p_exit := 128 + int m\<rparr>)\<rparr>)))"
      using ih [of "t_handlers (p_sig ?p) ! m"] re hq
      by (cases "default_action m")
        (auto simp: next_signal_def dq get Let_def passed_over_def upd_def set_state_def q_def [symmetric] fun_upd_idem)
  qed (use m0 m64 in \<open>simp_all add: q_def\<close>)
qed

lemma notify_killed:
  assumes "n \<notin> set (runq s)"
  shows "notify (p_parent q) (s\<lparr>store := (store s)(n := q\<lparr>p_state := Zombie, p_exit := 128 + int k\<rparr>)\<rparr>) = s\<lparr>store := killed_by k n q s\<rparr>"
  using assms by (auto simp: notify_def upd_def killed_by_def fun_eq_iff)

text \<open>The result of the loop when the lowest deliverable signal is not passed over, and when it is.\<close>

lemma loop_result_first:
  assumes "m \<in> deliverable (t_signals (p_sig (store s n)))" "\<forall>j \<in> deliverable (t_signals (p_sig (store s n))). m \<le> j"
    and "\<not> passed_over (p_sig (store s n)) m"
  shows "loop_result n s b s' = (let p = store s n in
    if has_handler (t_handlers (p_sig p) ! m) then b \<and> (\<exists>q. consumed {} p q \<and> s' = s\<lparr>store := (store s)(n := q)\<rparr>)
    else if default_action m = Stop
    then \<not> b \<and> (\<exists>q. consumed {m} p q \<and> s' = s\<lparr>store := (store s)(n := q\<lparr>p_state := Blocked\<rparr>)\<rparr>)
    else \<not> b \<and> (\<exists>q. consumed {m} p q \<and> s' = s\<lparr>store := killed_by m n q s\<rparr>))"
proof -
  let ?D = "deliverable (t_signals (p_sig (store s n)))"
  let ?E = "{k \<in> ?D. \<not> passed_over (p_sig (store s n)) k}"
  have ne: "(?E = {}) = False" using assms(1,3) by blast
  have min: "Min ?E = m" by (rule Min_eqI) (use assms in auto)
  have none: "{j \<in> ?D. j < m} = {}" using assms(2) by (auto simp: leD)
  show ?thesis unfolding loop_result_def Let_def by (simp only: ne min none if_False)
qed

lemma loop_result_step:
  assumes m: "m \<in> deliverable (t_signals (p_sig (store s n)))" "\<forall>j \<in> deliverable (t_signals (p_sig (store s n))). m \<le> j"
    and po: "passed_over (p_sig (store s n)) m" and c: "consumed {m} (store s n) q"
    and d: "deliverable (t_signals (p_sig q)) = deliverable (t_signals (p_sig (store s n))) - {m}"
    and h: "t_handlers (p_sig q) = t_handlers (p_sig (store s n))"
    and r: "loop_result n (s\<lparr>store := (store s)(n := q)\<rparr>) b s'"
  shows "loop_result n s b s'"
proof -
  let ?D = "deliverable (t_signals (p_sig (store s n)))"
  let ?E = "{k \<in> ?D. \<not> passed_over (p_sig (store s n)) k}"
  let ?k = "Min ?E"
  have po_eq: "passed_over (p_sig q) = passed_over (p_sig (store s n))" by (simp add: fun_eq_iff passed_over_def h)
  have E: "{k \<in> ?D - {m}. \<not> passed_over (p_sig q) k} = ?E" using po by (auto simp: po_eq)
  have B: "insert m {j \<in> ?D - {m}. j < ?k} = {j \<in> ?D. j < ?k}" if "?E \<noteq> {}"
  proof -
    have "?k \<in> ?E" using that by (intro Min_in) auto
    then have "m < ?k" using m(2) po by (cases "m = ?k") auto
    then show ?thesis using m(1) by auto
  qed
  have D: "insert m (?D - {m}) = ?D" using m(1) by blast
  have all: "consumed ?D (store s n) q'" if "consumed (?D - {m}) q q'" for q' using consumed_trans [OF c that] D by simp
  have low: "consumed {j \<in> ?D. j < ?k} (store s n) q'" if "consumed {j \<in> ?D - {m}. j < ?k} q q'" "?E \<noteq> {}" for q'
    using consumed_trans [OF c that(1)] B [OF that(2)] by simp
  have upto: "consumed (insert ?k {j \<in> ?D. j < ?k}) (store s n) q'" if "consumed (insert ?k {j \<in> ?D - {m}. j < ?k}) q q'" "?E \<noteq> {}" for q'
  proof -
    have "{m} \<union> insert ?k {j \<in> ?D - {m}. j < ?k} = insert ?k {j \<in> ?D. j < ?k}" using B [OF that(2)] by blast
    then show ?thesis using consumed_trans [OF c that(1)] by argo
  qed
  have kb: "killed_by k n q' (s\<lparr>store := (store s)(n := q)\<rparr>) = killed_by k n q' s" for k q' by (auto simp: killed_by_def fun_eq_iff)
  have st: "store (s\<lparr>store := f\<rparr>) = f" "s\<lparr>store := f, store := g\<rparr> = s\<lparr>store := g\<rparr>" for f g by simp_all
  have r': "if ?E = {} then b \<and> (\<exists>q'. consumed (?D - {m}) q q' \<and> s' = s\<lparr>store := (store s)(n := q')\<rparr>)
      else if has_handler (t_handlers (p_sig (store s n)) ! ?k)
      then b \<and> (\<exists>q'. consumed {j \<in> ?D - {m}. j < ?k} q q' \<and> s' = s\<lparr>store := (store s)(n := q')\<rparr>)
      else if default_action ?k = Stop
      then \<not> b \<and> (\<exists>q'. consumed (insert ?k {j \<in> ?D - {m}. j < ?k}) q q' \<and> s' = s\<lparr>store := (store s)(n := q'\<lparr>p_state := Blocked\<rparr>)\<rparr>)
      else \<not> b \<and> (\<exists>q'. consumed (insert ?k {j \<in> ?D - {m}. j < ?k}) q q' \<and> s' = s\<lparr>store := killed_by ?k n q' s\<rparr>)"
    using r unfolding loop_result_def Let_def by (simp only: st fun_upd_same fun_upd_upd d E h kb)
  show ?thesis
  proof (cases "?E = {}")
    case True
    then have E0: "(?E = {}) = True" by blast
    have "b \<and> (\<exists>q'. consumed (?D - {m}) q q' \<and> s' = s\<lparr>store := (store s)(n := q')\<rparr>)" using r' by (simp only: E0 if_True)
    then have "b \<and> (\<exists>q'. consumed ?D (store s n) q' \<and> s' = s\<lparr>store := (store s)(n := q')\<rparr>)" using all by blast
    then show ?thesis unfolding loop_result_def Let_def by (simp only: E0 if_True)
  next
    case ne: False
    show ?thesis
    proof (cases "has_handler (t_handlers (p_sig (store s n)) ! ?k)")
      case True
      have "b \<and> (\<exists>q'. consumed {j \<in> ?D - {m}. j < ?k} q q' \<and> s' = s\<lparr>store := (store s)(n := q')\<rparr>)"
        using r' by (simp only: ne True if_True if_False)
      then have "b \<and> (\<exists>q'. consumed {j \<in> ?D. j < ?k} (store s n) q' \<and> s' = s\<lparr>store := (store s)(n := q')\<rparr>)"
        using low [OF _ ne] by blast
      then show ?thesis unfolding loop_result_def Let_def by (simp only: ne True if_True if_False)
    next
      case nh: False
      show ?thesis
      proof (cases "default_action ?k = Stop")
        case True
        then have S: "(default_action ?k = Stop) = True" by blast
        have "\<not> b \<and> (\<exists>q'. consumed (insert ?k {j \<in> ?D - {m}. j < ?k}) q q' \<and> s' = s\<lparr>store := (store s)(n := q'\<lparr>p_state := Blocked\<rparr>)\<rparr>)"
          using r' by (simp only: ne nh S if_True if_False simp_thms)
        then have "\<not> b \<and> (\<exists>q'. consumed (insert ?k {j \<in> ?D. j < ?k}) (store s n) q' \<and> s' = s\<lparr>store := (store s)(n := q'\<lparr>p_state := Blocked\<rparr>)\<rparr>)"
          using upto [OF _ ne] by blast
        then show ?thesis unfolding loop_result_def Let_def by (simp only: ne nh S if_True if_False simp_thms)
      next
        case False
        have "\<not> b \<and> (\<exists>q'. consumed (insert ?k {j \<in> ?D - {m}. j < ?k}) q q' \<and> s' = s\<lparr>store := killed_by ?k n q' s\<rparr>)"
          using r' by (simp only: ne nh False if_False simp_thms)
        then have "\<not> b \<and> (\<exists>q'. consumed (insert ?k {j \<in> ?D. j < ?k}) (store s n) q' \<and> s' = s\<lparr>store := killed_by ?k n q' s\<rparr>)"
          using upto [OF _ ne] by blast
        then show ?thesis unfolding loop_result_def Let_def by (simp only: ne nh False if_False simp_thms)
      qed
    qed
  qed
qed

lemma next_signals_outcome:
  assumes "sig_ok (p_sig (store s n))" "n \<notin> set (runq s)"
  shows "\<exists>b s'. next_signals n s = Some (b, s') \<and> loop_result n s b s'"
  using assms
proof (induction "card (deliverable (t_signals (p_sig (store s n))))" arbitrary: s rule: less_induct)
  case less
  let ?p = "store s n"
  let ?D = "deliverable (t_signals (p_sig ?p))"
  let ?m = "Min ?D"
  show ?case
  proof (cases "?D = {}")
    case True
    then have "next_signals n s = Some (True, s)" by (simp add: next_signals.simps next_signal_def ss_dequeue_eq)
    moreover have "loop_result n s True s" using True consumed_empty [of ?p] by (auto simp: loop_result_def Let_def intro: exI [of _ ?p])
    ultimately show ?thesis by blast
  next
    case ne: False
    obtain q where q: "0 < ?m" "?m < 64" "consumed {?m} ?p q" "deliverable (t_signals (p_sig q)) = ?D - {?m}"
      "p_sig q = (p_sig ?p)\<lparr>t_signals := ss_clear ?m (t_signals (p_sig ?p))\<rparr>" "p_parent q = p_parent ?p"
      and st: "next_signal n s =
      (let t = p_sig (store s n) in
       if passed_over t ?m then (GoOn, s\<lparr>store := (store s)(n := q)\<rparr>)
       else if has_handler (t_handlers t ! ?m) then (Resume, s)
       else if default_action ?m = Stop then (GiveUp, s\<lparr>store := (store s)(n := q\<lparr>p_state := Blocked\<rparr>)\<rparr>)
       else (GiveUp, notify (p_parent q) (s\<lparr>store := (store s)(n := q\<lparr>p_state := Zombie, p_exit := 128 + int ?m\<rparr>)\<rparr>)))"
      by (rule next_signal_round [OF less.prems(1) ne refl]) blast
    have mD: "?m \<in> ?D" "\<forall>j \<in> ?D. ?m \<le> j" using ne by (simp_all add: Min_in)
    have hq: "t_handlers (p_sig q) = t_handlers (p_sig ?p)" using q(5) by simp
    show ?thesis
    proof (cases "passed_over (p_sig ?p) ?m")
      case po: True
      define s1 where "s1 = s\<lparr>store := (store s)(n := q)\<rparr>"
      have s1: "store s1 n = q" "runq s1 = runq s" by (simp_all add: s1_def)
      have c: "card (deliverable (t_signals (p_sig (store s1 n)))) < card ?D"
        unfolding s1 q(4) by (rule card_Diff1_less) (use mD(1) in auto)
      have ok1: "sig_ok (p_sig (store s1 n))" unfolding s1 q(5) using sig_ok_clear [OF less.prems(1)] .
      obtain b s' where r: "next_signals n s1 = Some (b, s')" "loop_result n s1 b s'"
        using less.hyps [OF c ok1] less.prems(2) s1(2) by auto
      have "next_signals n s = Some (b, s')" using st po r(1) by (simp add: next_signals.simps [of n s] s1_def)
      moreover have "loop_result n s b s'" using loop_result_step [OF mD po q(3,4) hq r(2) [unfolded s1_def]] .
      ultimately show ?thesis by blast
    next
      case False
      have first: "loop_result n s b s' = (if has_handler (t_handlers (p_sig ?p) ! ?m) then b \<and> (\<exists>q. consumed {} ?p q \<and> s' = s\<lparr>store := (store s)(n := q)\<rparr>)
          else if default_action ?m = Stop
          then \<not> b \<and> (\<exists>q. consumed {?m} ?p q \<and> s' = s\<lparr>store := (store s)(n := q\<lparr>p_state := Blocked\<rparr>)\<rparr>)
          else \<not> b \<and> (\<exists>q. consumed {?m} ?p q \<and> s' = s\<lparr>store := killed_by ?m n q s\<rparr>))" for b s'
        by (simp only: loop_result_first [OF mD False] Let_def)
      show ?thesis using first st False q(3,6) consumed_empty [of ?p] less.prems(2) notify_killed [of n s q]
        by (auto simp: next_signals.simps [of n s] Let_def intro: exI [of _ ?p] exI [of _ q])
    qed
  qed
qed

subsection \<open>A tick always returns\<close>

text \<open>Counters far from their ends: a million tasks, and the weights of the table.\<close>

definition in_range :: "Kern \<Rightarrow> bool" where
  "in_range s \<longleftrightarrow> clock_ticks s < U64_MAX \<and> p_ticks (store s (cur s)) < U64_MAX \<and> total_run_time_ns (kstats s) < 2 ^ 63
     \<and> nr_switches (kstats s) < U64_MAX \<and> nr_preemptions (kstats s) < U64_MAX
     \<and> cfs_nr_running (cfs s) < 2 ^ 20 \<and> load_weight (cfs s) < 2 ^ 63 \<and> (\<forall>e \<in> set (tasks (cfs s)). vruntime e < 2 ^ 63)
     \<and> 0 < se_weight (p_se (store s (cur s))) \<and> se_weight (p_se (store s (cur s))) \<le> 88761"

lemma wmult_total: "\<exists>w. wmult_from_nice n = Some w"
  by (simp add: wmult_from_nice_def SCHED_PRIO_TO_WMULT_def nice_to_index_def idx_def)

lemma delta_total: "0 < w \<Longrightarrow> \<exists>d. calc_delta_vruntime NS_PER_TICK w iw = Some d"
  by (simp add: calc_delta_vruntime_def mul64_def U64_MAX_def NS_PER_TICK_def NICE_0_LOAD_def)

lemma slice_total:
  assumes "cfs_nr_running q < 2 ^ 20" "w \<le> 88761"
  shows "\<exists>t. calc_time_slice q w = Some t"
proof -
  define period where "period = (if cfs_nr_running q > 6 then cfs_nr_running q * 1000000 else 6000000)"
  have "period \<le> 2 ^ 20 * 1000000" using assms(1) by (auto simp: period_def)
  then have "w * period \<le> 88761 * (2 ^ 20 * 1000000)" using assms(2) by (rule mult_le_mono [rotated])
  then have "w * period \<le> U64_MAX" by (simp add: U64_MAX_def)
  moreover have "cfs_nr_running q * 1000000 \<le> U64_MAX" using assms(1) by (simp add: U64_MAX_def)
  ultimately show ?thesis
    by (auto simp: calc_time_slice_def period_def mul64_def SCHED_LATENCY_NS_def SCHED_MIN_GRANULARITY_NS_def split: if_splits)
qed

lemma preempt_total: "\<forall>e \<in> set (tasks q). vruntime e < 2 ^ 63 \<Longrightarrow> \<exists>b. check_preempt_tick q v sl n = Some b"
  by (cases "tasks q") (auto simp: check_preempt_tick_def add64_def U64_MAX_def SCHED_MIN_GRANULARITY_NS_def)

lemma account_total:
  assumes "in_range s"
  shows "\<exists>go s'. account s = Some (go, s') \<and> nr_switches (kstats s') < U64_MAX \<and> nr_preemptions (kstats s') < U64_MAX
    \<and> cfs_nr_running (cfs s') < 2 ^ 20 \<and> load_weight (cfs s') < 2 ^ 63 \<and> se_weight (p_se (store s' (cur s))) \<le> 88761"
proof -
  let ?c = "cur s"
  let ?w = "se_weight (p_se (store s ?c))"
  have w: "0 < ?w" "?w \<le> 88761" using assms by (simp_all add: in_range_def)
  obtain wm where wm: "wmult_from_nice (p_prio (store s ?c)) = Some wm" using wmult_total by blast
  obtain d where d: "calc_delta_vruntime NS_PER_TICK ?w wm = Some d" using delta_total [OF w(1)] by blast
  have q: "cfs_nr_running (update_clock NS_PER_TICK (cfs s)) < 2 ^ 20" "\<forall>e \<in> set (tasks (update_clock NS_PER_TICK (cfs s))). vruntime e < 2 ^ 63"
    "load_weight (update_clock NS_PER_TICK (cfs s)) < 2 ^ 63"
    using assms by (auto simp: in_range_def update_clock_def)
  obtain sl where sl: "calc_time_slice (update_clock NS_PER_TICK (cfs s)) ?w = Some sl" using slice_total [OF q(1) w(2)] by blast
  have pr: "\<exists>b. check_preempt_tick (update_clock NS_PER_TICK (cfs s)) v sl n = Some b" for v n using preempt_total [OF q(2)] .
  have b: "clock_ticks s + 1 \<le> U64_MAX" "p_ticks (store s ?c) + 1 \<le> U64_MAX" "total_run_time_ns (kstats s) + NS_PER_TICK \<le> U64_MAX"
    "nr_switches (kstats s) < U64_MAX" "nr_preemptions (kstats s) < U64_MAX" "?w \<le> 88761"
    using assms by (auto simp: in_range_def U64_MAX_def NS_PER_TICK_def)
  show ?thesis
  proof (cases "p_user (store s ?c) \<and> proc_state s ?c = Running")
    case True
    then show ?thesis using b wm d sl q pr [of "saturating_add64 (se_vruntime (p_se (store s ?c))) d" "p_ticks (store s ?c) + 1"]
      by (auto simp: account_def Let_def add64_def record_runtime_def set_vruntime_def set_time_slice_def proc_state_def)
  next
    case False
    then show ?thesis using b sl q
      by (auto simp: account_def Let_def add64_def set_time_slice_def proc_state_def)
  qed
qed

lemma requeue_total:
  assumes "nr_switches (kstats s) < U64_MAX" "nr_preemptions (kstats s) < U64_MAX" "cfs_nr_running (cfs s) < 2 ^ 20"
    "load_weight (cfs s) < 2 ^ 63" "se_weight (p_se (store s c)) \<le> 88761"
  shows "\<exists>s'. requeue c s = Some s'"
  using assms by (auto simp: requeue_def Let_def enqueue_cfs_def record_switch_def add64_def set_state_def U64_MAX_def)

lemma tick_returns:
  assumes ok: "kern_ok s" and rg: "in_range s" and sg: "\<And>i. i \<in> members s \<Longrightarrow> sig_ok (p_sig (store s i))"
  shows "\<exists>tf' s'. on_timer_tick tf s = Some (tf', s')"
proof -
  let ?c = "cur s"
  define s0 where "s0 = (let s = upd ?c (p_tf_update (\<lambda>_. tf)) s in
      if p_user (store s ?c) \<and> frame_user s tf then upd ?c (p_gs_update (\<lambda>_. gs_reg s)) s else s)"
  have s0: "in_range s0" "same_place s s0" "proc_state s0 i = proc_state s i" "p_sig (store s0 i) = p_sig (store s i)" for i
    using rg by (auto simp: s0_def Let_def in_range_def same_place_def hw_def proc_state_def)
  obtain go sa where ac: "account s0 = Some (go, sa)" and b: "nr_switches (kstats sa) < U64_MAX" "nr_preemptions (kstats sa) < U64_MAX"
      "cfs_nr_running (cfs sa) < 2 ^ 20" "load_weight (cfs sa) < 2 ^ 63" "se_weight (p_se (store sa ?c)) \<le> 88761"
    using account_total [OF s0(1)] s0(2) by (auto simp: same_place_def)
  let ?sa = "upd ?c (p_ticks_update (\<lambda>_. 0)) sa"
  have sa: "same_place s ?sa" "proc_state ?sa i = proc_state s i" "p_sig (store ?sa i) = p_sig (store s i)" for i
    using account_same [OF ac] s0 same_place_trans [OF s0(2)] same_place_trans [OF _ same_place_upd [of "p_ticks_update (\<lambda>_. 0)" _ ?c]]
    by (auto simp: proc_state_def hw_def)
  obtain sb where rq: "requeue ?c ?sa = Some sb" using requeue_total [of ?sa ?c] b by auto
  have sb: "runq sb = (if proc_state s ?c = Running then runq s @ [?c] else runq s)" "p_sig (store sb i) = p_sig (store s i)" for i
    using requeue_frame(8) [OF rq] sa(1,2) sa(3) [of i] rq
    by (auto simp: same_place_def requeue_def Let_def set_state_def split: if_splits bind_splits)
  have d: "distinct (runq (drop_exited sb))" "set (runq (drop_exited sb)) \<subseteq> members s"
    using ok sb(1) running_not_queued [OF ok] by (auto simp: drop_exited_def kern_ok_def members_def)
  obtain r sc where pk: "pick_next_task (drop_exited sb) = (r, sc)" by fastforce
  have "\<exists>b s'. next_signals n (set_state n Running sc) = Some (b, s')" if "r = Some n" for n
  proof (rule pick_next_cases [OF pk])
    fix i assume i: "i < length (runq (drop_exited sb))" "r = Some (runq (drop_exited sb) ! i)"
      "sc = (drop_exited sb)\<lparr>cfs := cfs sc, runq := remove_at i (runq (drop_exited sb))\<rparr>"
    have rs: "runq sc = remove_at i (runq (drop_exited sb))" "store sc = store sb" by (subst i(3), simp add: drop_exited_def)+
    have n: "n = runq (drop_exited sb) ! i" using i(2) that by simp
    then have "n \<in> members s" using i(1) d(2) nth_mem by blast
    then have "sig_ok (p_sig (store (set_state n Running sc) n))" using sg sb(2) rs(2) by (simp add: set_state_def)
    then show ?thesis using distinct_remove_at [OF d(1) i(1)] n rs(1) next_signals_outcome [of "set_state n Running sc" n] by auto
  qed (use that in simp)
  then show ?thesis using ac rq pk
    by (cases go; cases r) (auto simp: on_timer_tick_def s0_def Let_def split: bind_splits if_splits)
qed

subsection \<open>Properties\<close>

text \<open>C2. In every state that the scheduler reaches, from its creation in the boot on (kernel threads, ticks and switches before init is started, the
  start of init, and any run after that), the queue has no duplicates, no queued task is marked as running, every task has an identifier that
  was handed out, and a user task that is current runs with its own page table and kernel stack loaded.  The mark is the state of the task:
  a task that a tick has queued again, and whose switch was then given up, goes on executing as a queued task that is marked as ready.\<close>

theorem scheduler_invariant:
  assumes "sched_reach s"
  shows "distinct (runq s) \<and> (\<forall>i \<in> set (runq s). p_state (store s i) \<noteq> Running) \<and> (\<forall>i \<in> insert (cur s) (set (runq s)). i < next_pid s)
    \<and> (p_user (store s (cur s)) \<longrightarrow> cr3_reg s = p_cr3 (store s (cur s)) \<and> kstack_reg s = p_kstack (store s (cur s)))"
  using reach_ok [OF assms] by (simp add: kern_ok_def proc_state_def members_def)

text \<open>C38. A process that exits while it is not in the queue itself is never reaped: exit makes it a zombie without queueing it, so
  once the scheduler has switched away from it, no run brings it back, and no wait returns it, since a wait looks for zombies in the queue.
  A task that a switch resumed is out of the queue and meets the condition.  A task that a tick queued again before the switch
  was given up does not: when such a task exits, it stays in the queue as a zombie, which a wait can reap.\<close>

theorem exited_task_never_reaped:
  assumes "kern_ok s" and "cur s \<notin> set (runq s)" and "exit_current_and_switch status s = Some (SwitchTo tf, s1)"
    and "sched_step\<^sup>*\<^sup>* s1 s2"
  shows "\<not> task_exists (cur s) s2
    \<and> (\<forall>pid sp opt z s3. wait_round pid sp opt s2 = Some (Waited (Inr (Some z)), s3) \<longrightarrow> z \<noteq> cur s)"
proof -
  have g: "cur s \<notin> members s1" using exit_gone [OF assms(2,3)] .
  have m: "cur s \<notin> members s2"
    by (rule gone_stays [OF assms(1) _ exit_kept [OF assms(1,3)] g assms(4)]) (simp add: members_def)
  have "z \<in> set (runq s2)" if "wait_round pid sp opt s2 = Some (Waited (Inr (Some z)), s3)" for pid sp opt z s3
    using that scan_children_found [of pid "cur s2" s2 "runq s2" 0 False]
    by (auto simp: wait_round_def split: bind_splits option.splits if_splits)
  then show ?thesis using m by (auto simp: members_def task_exists_def)
qed

text \<open>A task that sleeps in a wait is lost at the next switch: it is blocked, so the tick does not queue it, and nothing else
  refers to it; no run brings it back, and the exit of its child finds nobody to wake up.\<close>

theorem waiting_task_is_lost:
  assumes "kern_ok s" and "proc_state s (cur s) = Running" and "wait_round pid sp opt s = Some (Asleep, s1)"
    and "on_timer_tick tf s1 = Some (tf', s2)" and "cur s2 \<noteq> cur s" and "sched_step\<^sup>*\<^sup>* s2 s3"
  shows "proc_state s1 (cur s) = Blocked \<and> \<not> task_exists (cur s) s3"
proof -
  have s1: "s1 = upd (cur s) (\<lambda>p. p\<lparr>p_state := Blocked, p_tf := 0\<rparr>) s"
    using assms(3) by (auto simp: wait_round_def split: bind_splits option.splits if_splits)
  have b: "proc_state s1 (cur s) = Blocked" "cur s1 = cur s" "runq s1 = runq s" by (simp_all add: s1 proc_state_def)
  have ok1: "kern_ok s1" using wait_round_kept [OF assms(1,3)] by (simp add: kept_def)
  have g: "cur s1 \<notin> members s2"
    using switch_gone [of s1 tf tf' s2] running_not_queued [OF assms(1,2)] assms(4,5) b by simp
  have "cur s1 \<notin> members s3"
    by (rule gone_stays [OF ok1 _ tick_kept [OF ok1 assms(4)] g assms(6)]) (simp add: members_def)
  then show ?thesis using b by (simp add: members_def task_exists_def)
qed

text \<open>C5. A timer tick resumes either the task that was interrupted, at the frame of the interrupt, or a task that was ready in the
  queue, at the frame that was saved for it, and marks that one as running.\<close>

theorem tick_resumes_ready_task:
  assumes "on_timer_tick tf s = Some (tf', s')"
  shows "cur s' = cur s \<and> tf' = tf
    \<or> cur s' \<in> set (runq s) \<and> proc_state s (cur s') = Ready \<and> tf' = p_tf (store s (cur s')) \<and> tf' \<noteq> 0 \<and> proc_state s' (cur s') = Running"
proof (rule tick_cases [OF assms])
  fix s1 i s2 r
  assume p: "prepared tf s s1" and i: "i < length (runq s1)" "proc_state s1 (runq s1 ! i) = Ready"
    and s2: "s2 = set_state (runq s1 ! i) Running (s1\<lparr>cfs := cfs s2, runq := remove_at i (runq s1)\<rparr>)"
    and c: "p_tf (store s1 (runq s1 ! i)) = 0 \<and> tf' = tf \<and> s' = s2 \<or> sig_frame (runq s1 ! i) s2 (False, s') \<and> tf' = tf
      \<or> sig_frame (runq s1 ! i) s2 (True, r) \<and> tf' = p_tf (store s1 (runq s1 ! i)) \<and> tf' \<noteq> 0
        \<and> s' = load_context (runq s1 ! i) tf' (r\<lparr>cur := runq s1 ! i\<rparr>)"
  let ?n = "runq s1 ! i"
  have c2: "cur s2 = cur s" "proc_state s2 ?n = Running" using p by (subst s2, simp add: prepared_def)+
  have n: "?n = cur s \<or> ?n \<in> set (runq s) \<and> proc_state s ?n = Ready \<and> p_tf (store s1 ?n) = p_tf (store s ?n)"
    using prepared_queued [OF p nth_mem [OF i(1)]] i(2) by auto
  have own: "p_tf (store s1 (cur s)) = tf" using p by (simp add: prepared_def)
  from c consider "cur s' = cur s" "tf' = tf" | "sig_frame ?n s2 (True, r)" "tf' = p_tf (store s1 ?n)" "tf' \<noteq> 0"
      "s' = load_context ?n tf' (r\<lparr>cur := ?n\<rparr>)"
    using c2(1) by (auto simp: sig_frame_def same_place_def)
  then show ?thesis
  proof cases
    case 2
    then have "cur s' = ?n" "proc_state s' ?n = Running" using c2(2) by (simp_all add: sig_frame_def proc_state_def)
    then show ?thesis using n own 2(2,3) by metis
  qed simp
qed (auto simp: same_place_def prepared_def dest: arg_cong [where f = cur])

text \<open>When the group of a task with one queued sibling exits while one other task is ready behind the sibling, the kernel halts:
  the index of the ready task is taken before the sibling leaves the queue, and points behind its end afterwards.\<close>

theorem exit_group_halts_with_ready_task:
  assumes "kern_ok s" and "proc_state s (cur s) = Running" and "runq s = [t, u]"
    and "p_tgid (store s t) = p_tgid (store s (cur s))" and "p_tgid (store s u) \<noteq> p_tgid (store s (cur s))" and "proc_state s u = Ready"
  shows "\<exists>s'. exit_thread_group status s = Some (Halted, s') \<and> runq s' = [u] \<and> proc_state s' u = Ready"
proof -
  define g where "g = p_tgid (store s (cur s))"
  define s1 where "s1 = fold (\<lambda>t s. if p_tgid (store s t) = g then upd t (\<lambda>p. p\<lparr>p_state := Exited,
      p_exit := wrap_i32 (int status)\<rparr>) s else s) (runq s) s"
  have m: "same_place s s1" "proc_state s1 i = (if i \<in> set (runq s) \<and> p_tgid (store s i) = g then Exited else proc_state s i)" for i
    using group_mark_same [of s g "wrap_i32 (int status)" "runq s" i] by (auto simp: s1_def)
  have st: "proc_state s1 t = Exited" "proc_state s1 u = Ready" "cur s1 = cur s" "runq s1 = [t, u]"
    using m(1) assms(3-6) m(2) [of t] m(2) [of u] by (auto simp: g_def same_place_def)
  have ne: "t \<noteq> cur s" "u \<noteq> cur s" using running_not_queued [OF assms(1,2)] assms(3) by auto
  have "\<exists>s'. exit_current_and_switch status s1 = Some (Halted, s') \<and> runq s' = [u] \<and> proc_state s' u = Ready"
  proof (rule exit_unfold [of s1 status])
    fix sa wl
    assume sa: "same_place s1 sa"
      "\<And>i. i \<noteq> cur s1 \<Longrightarrow> proc_state sa i = proc_state s1 i \<or> proc_state s1 i = Blocked \<and> proc_state sa i = Ready"
      and e: "exit_current_and_switch status s1 =
      (case take_at (best_index sa) (drop_exited sa) of
         (None, s1) \<Rightarrow> Some (Halted, s1)
       | (Some n, s1) \<Rightarrow>
           let s2 = set_state n Running s1; tf = p_tf (store s1 n) in
           if tf = 0 then None else Some (SwitchTo tf, load_context n tf (s2\<lparr>cur := n, wakes := wakes s2 @ wl\<rparr>)))"
    have q: "runq sa = [t, u]" "proc_state sa t = Exited" "proc_state sa u = Ready"
      using sa(1) sa(2) [of t] sa(2) [of u] st ne by (auto simp: same_place_def)
    then have d: "runq (drop_exited sa) = [u]" "proc_state (drop_exited sa) u = Ready" by (auto simp: drop_exited_def proc_state_def)
    have "best_index sa \<in> {None, Some 1}" using q by (auto simp: best_index_def proc_state_def)
    then have "take_at (best_index sa) (drop_exited sa) = (None, drop_exited sa)" by (auto simp: take_at_def d)
    then show ?thesis using e d by simp
  qed
  then show ?thesis by (simp add: exit_thread_group_def Let_def s1_def g_def)
qed

text \<open>C7. The timer tick always returns while the counters are in range and the signal states of the tasks are well formed: no panic, and
  the loop over the signals of the next task ends.\<close>

theorem tick_always_returns:
  assumes "kern_ok s" and "in_range s" and "\<forall>i \<in> members s. sig_ok (p_sig (store s i))"
  shows "\<exists>tf' s'. on_timer_tick tf s = Some (tf', s')"
  using tick_returns [OF assms(1,2)] assms(3) by blast

lemma low_default: "0 < k \<Longrightarrow> k \<le> SIGKILL \<Longrightarrow> default_action k \<in> {Terminate, CoreDump}"
  unfolding SIGKILL_def by (auto simp: default_action_def signum)

lemma loop_result_kill:
  assumes ok: "sig_ok (p_sig (store s n))" and r: "loop_result n s b s'"
    and kl: "SIGKILL \<in> deliverable (t_signals (p_sig (store s n)))"
    and nh: "\<And>k. k \<in> deliverable (t_signals (p_sig (store s n))) \<Longrightarrow> k < SIGKILL \<Longrightarrow> \<not> has_handler (t_handlers (p_sig (store s n)) ! k)"
  shows "\<not> b \<and> proc_state s' n = Zombie"
proof -
  let ?t = "p_sig (store s n)"
  let ?E = "{k \<in> deliverable (t_signals ?t). \<not> passed_over ?t k}"
  have dk: "t_handlers ?t ! SIGKILL = sigaction_default" using ok by (simp add: sig_ok_def)
  have "default_action SIGKILL = Terminate" by (simp add: default_action_def signum)
  then have "SIGKILL \<in> ?E" using kl dk by (simp add: passed_over_def is_ignored_def sigaction_default_def SIG_DFL_def SIG_IGN_def)
  then have ne: "?E \<noteq> {}" and le: "Min ?E \<le> SIGKILL" by (blast, intro Min_le) auto
  have k: "Min ?E \<in> ?E" using ne by (intro Min_in) auto
  have h: "\<not> has_handler (t_handlers ?t ! Min ?E)"
  proof (cases "Min ?E = SIGKILL")
    case True
    then show ?thesis using dk by (simp add: has_handler_def sigaction_default_def SIG_DFL_def SIG_IGN_def)
  next
    case False
    then show ?thesis using nh [of "Min ?E"] k le by simp
  qed
  have "Min ?E \<in> deliverable (t_signals ?t)" using k by blast
  then have "Min ?E \<noteq> 0" using zero_not_deliverable [OF ok] by metis
  then have "default_action (Min ?E) \<in> {Terminate, CoreDump}" using low_default le by simp
  then have ds: "default_action (Min ?E) \<noteq> Stop" by auto
  have "\<not> b \<and> (\<exists>q. s' = s\<lparr>store := killed_by (Min ?E) n q s\<rparr>)"
    using r unfolding loop_result_def Let_def by (simp only: ne h ds if_False) blast
  then show ?thesis by (auto simp: proc_state_def killed_by_def)
qed

text \<open>C10. What a switch does with the signals of the task it has chosen, for a task with a well-formed signal state that is out of the
  queue.  The loop always ends.  The lowest deliverable signal that is not passed over decides: when there is none, all deliverable
  signals are consumed and the task runs; when it has a handler, the signals below it are consumed, it stays pending and the task runs;
  when it stops by default, it is consumed too and the task is blocked; otherwise the task becomes a zombie with the exit status
  128 plus the signal, and its parent, if queued, gets \<open>SIGCHLD\<close> and wakes up.  Nothing else changes.  A deliverable SIGKILL
  therefore kills the task, provided that no deliverable signal with a lower number has a handler: such a handler shields the task.\<close>

theorem switch_signal_outcome:
  assumes "sig_ok (p_sig (store s n))" and "n \<notin> set (runq s)"
  shows "\<exists>b s'. next_signals n s = Some (b, s') \<and> loop_result n s b s'
    \<and> (let t = p_sig (store s n); D = deliverable (t_signals t) in
        SIGKILL \<in> D \<and> (\<forall>k \<in> D. k < SIGKILL \<longrightarrow> \<not> has_handler (t_handlers t ! k)) \<longrightarrow> \<not> b \<and> proc_state s' n = Zombie)"
proof -
  obtain b s' where r: "next_signals n s = Some (b, s')" "loop_result n s b s'" using next_signals_outcome [OF assms] by blast
  then show ?thesis using loop_result_kill [OF assms(1) r(2)] by (auto simp: Let_def)
qed

lemma se_new_total:
  "\<exists>se. se_new n = Some se \<and> se_weight se \<le> 88761"
proof -
  have "\<exists>w. weight_from_nice n = Some w"
    by (simp add: weight_from_nice_def SCHED_PRIO_TO_WEIGHT_def nice_to_index_def idx_def)
  then obtain w where w: "weight_from_nice n = Some w" by blast
  obtain iw where "wmult_from_nice n = Some iw" using wmult_total by blast
  then show ?thesis using w weight_le_max [OF w] by (simp add: se_new_def)
qed

lemma enroll_total:
  assumes "load_weight (cfs s) < 2 ^ 63" "cfs_nr_running (cfs s) < 2 ^ 20" "se_weight (p_se (store s t)) \<le> 88761"
  shows "\<exists>s'. enroll t s = Some s'"
  using assms by (auto simp: enroll_def Let_def enqueue_cfs_def add64_def U64_MAX_def set_vruntime_def)

text \<open>The bookkeeping of a fork by a user task, for each outcome of the copy of the address space.\<close>

theorem fork_outcome:
  assumes "kern_ok s" and "p_user (store s (cur s))" and "next_pid s < 2 ^ 64 - 1"
    and "load_weight (cfs s) < 2 ^ 63" and "cfs_nr_running (cfs s) < 2 ^ 20"
  shows "fork_current_from_syscall (Inl e) kst tf s = Some (Inl e, s\<lparr>next_pid := next_pid s + 1\<rparr>)
    \<and> (\<exists>s'. fork_current_from_syscall (Inr cr3) kst tf s = Some (Inr (next_pid s), s')
    \<and> runq s' = runq s @ [next_pid s] \<and> cur s' = cur s \<and> (\<forall>i. i \<noteq> next_pid s \<longrightarrow> store s' i = store s i)
    \<and> next_pid s \<notin> members s \<and> (\<exists>e \<in> set (tasks (cfs s')). entry_id e = next_pid s)
    \<and> (let p = store s (cur s); q = store s' (next_pid s) in
        p_parent q = cur s \<and> p_tgid q = next_pid s \<and> p_state q = Ready \<and> p_cr3 q = cr3 \<and> p_tf q = tf \<and> p_cred q = p_cred p \<and> p_prio q = p_prio p
        \<and> t_signals (p_sig q) = \<lparr>pending = 0, blocked = blocked (t_signals (p_sig p))\<rparr>
        \<and> t_handlers (p_sig q) = handlers_clone (t_handlers (p_sig p))))"
proof -
  have f: "next_pid s \<notin> members s" using assms(1) by (auto simp: kern_ok_def)
  then have c: "cur s \<noteq> next_pid s" by (auto simp: members_def)
  obtain se where se: "se_new (p_prio (store s (cur s))) = Some se" "se_weight se \<le> 88761" using se_new_total by blast
  define s0 where "s0 = add_task (next_pid s) ((inherit (cur s) (store s (cur s)) se)\<lparr>p_tgid := next_pid s, p_name := p_name (store s (cur s)) @ ''-child'',
      p_kstack := kst, p_cr3 := cr3, p_tf := tf\<rparr>) (s\<lparr>next_pid := Suc (next_pid s), frame_user := (frame_user s)(tf := True)\<rparr>)"
  obtain s' where e: "enroll (next_pid s) s0 = Some s'"
    using enroll_total [of s0 "next_pid s"] assms(4,5) se(2) by (auto simp: s0_def inherit_def)
  have r: "fork_current_from_syscall (Inr cr3) kst tf s = Some (Inr (next_pid s), s')"
    using assms(2,3) se(1) e by (simp add: fork_current_from_syscall_def fork_task_def Let_def alloc_pid_def s0_def)
  have failed: "fork_current_from_syscall (Inl e) kst tf s = Some (Inl e, s\<lparr>next_pid := next_pid s + 1\<rparr>)"
    using assms(2,3) by (simp add: fork_current_from_syscall_def fork_task_def Let_def alloc_pid_def)
  note fr = enroll_frame [OF e]
  have others: "\<forall>i. i \<noteq> next_pid s \<longrightarrow> store s' i = store s i" using fr(11) by (simp add: s0_def)
  have "\<exists>x \<in> set (tasks (cfs s')). entry_id x = next_pid s"
    using e by (auto simp: enroll_def enqueue_cfs_def Let_def split: bind_splits)
  then show ?thesis using r f c fr(1,5) fr(8-14) [of "next_pid s"] fr(7) [of "next_pid s"] failed others hwD [OF fr(6) [of "next_pid s"]]
    by (simp add: s0_def Let_def inherit_def ss_clone_def proc_state_def)
qed

text \<open>C35. A wait that returns a child has found it as a zombie child of the caller in the queue and takes it out; it writes the status to the
  address that the caller gave, whatever that address is: nothing checks that it lies in user space.\<close>

theorem wait_reaps_and_writes:
  assumes "kern_ok s" and "wait_round pid sp opt s = Some (Waited (Inr (Some z)), s')"
  shows "z \<in> set (runq s) \<and> p_parent (store s z) = cur s \<and> proc_state s z = Zombie \<and> z \<notin> set (runq s') \<and> proc_state s' z = Exited
    \<and> writes s' = writes s @ (if sp = 0 then [] else [(cr3_reg s, sp, wrap_i32 (p_exit (store s z) * 256))])"
proof -
  obtain i h where sc: "scan_children pid (cur s) s (runq s) 0 False = Some (Some i, h)" and z: "z = runq s ! i" "s' = reap i sp s"
    using assms(2) by (auto simp: wait_round_def split: bind_splits option.splits if_splits)
  have i: "i < length (runq s)" "p_parent (store s z) = cur s" "proc_state s z = Zombie"
    using scan_children_found [OF sc] z(1) by auto
  have "distinct (runq s)" using assms(1) by (simp add: kern_ok_def)
  then have "z \<notin> set (remove_at i (runq s))" using distinct_remove_at(2) i(1) z(1) by blast
  then show ?thesis using i z nth_mem [OF i(1)]
    by (simp add: reap_def Let_def poke_def set_state_def proc_state_def)
qed

subsection \<open>Small runs\<close>

text \<open>A user task with its own group, and a kernel with some tasks.\<close>

definition demo_se :: SchedEntity where
  "demo_se = \<lparr>se_vruntime = 0, se_weight = 1024, inv_weight = 4194304, exec_start = 0, sum_exec_runtime = 0, se_time_slice = 0\<rparr>"

definition demo_task :: "nat \<Rightarrow> nat \<Rightarrow> TaskState \<Rightarrow> Proc" where
  "demo_task parent g st = (kernel_task g ''p'' True (100 + g) (200 + g) (300 + g) 0 demo_se)\<lparr>p_parent := parent, p_state := st, p_ticks := 7\<rparr>"

definition demo_kern :: "(nat \<Rightarrow> Proc) \<Rightarrow> nat \<Rightarrow> nat list \<Rightarrow> Kern" where
  "demo_kern st c q = \<lparr>store = st, cur = c, runq = q, cfs = cfs_new, clock_ticks = 0, kstats = stats_new, next_pid = 10,
     frame_user = (\<lambda>_. True), cr3_reg = p_cr3 (st c), kstack_reg = p_kstack (st c), gs_reg = 0, writes = [], wakes = [], foreground = 0\<rparr>"

lemmas demo_defs = demo_kern_def demo_task_def kernel_task_def demo_se_def

text \<open>Init is queued and its child runs.\<close>

definition demo_child :: Kern where
  "demo_child = demo_kern (\<lambda>i. if i = 1 then demo_task 0 1 Ready else demo_task 1 2 Running) 2 [1]"

text \<open>Init runs and its child is queued, ready or as a zombie.\<close>

definition demo_parent :: "TaskState \<Rightarrow> Kern" where
  "demo_parent st = demo_kern (\<lambda>i. if i = 1 then demo_task 0 1 Running else demo_task 1 2 st) 1 [2]"

lemma demo_ok: "kern_ok demo_child" "st \<noteq> Running \<Longrightarrow> kern_ok (demo_parent st)"
  by (simp_all add: demo_child_def demo_parent_def demo_defs kern_ok_def members_def proc_state_def)

lemma demo_running: "proc_state demo_child (cur demo_child) = Running" "proc_state (demo_parent st) (cur (demo_parent st)) = Running"
  by (simp_all add: demo_child_def demo_parent_def demo_defs proc_state_def)

lemma demo_sig_ok: "sig_ok \<lparr>t_signals = ss_new, t_handlers = handlers_new\<rparr>"
  by (simp add: sig_ok_def ss_new_def handlers_new_def signum)

text \<open>The boot: the scheduler, the kernel thread that \<^verbatim>\<open>main.rs\<close> starts, and init.\<close>

theorem scheduler_invariant_witness:
  "\<exists>s. sched_reach s \<and> runq s = [2, 1] \<and> distinct (runq s)"
proof -
  obtain s0 where s0: "init_scheduler_only 5 6 = Some s0" "runq s0 = []" "cfs s0 = cfs_new" "next_pid s0 = 2"
    by (simp add: init_scheduler_only_def se_new_def weight_from_nice_def wmult_from_nice_def nice_to_index_def SCHED_PRIO_TO_WEIGHT_def
        SCHED_PRIO_TO_WMULT_def)
  then obtain r1 s1 where s1: "spawn_kernel_thread ''test-kthread'' 8 9 s0 = Some (r1, s1)" "runq s1 = [2]" "cfs s1 = cfs_new"
    by (simp add: spawn_kernel_thread_def alloc_pid_def se_new_def weight_from_nice_def wmult_from_nice_def nice_to_index_def
        SCHED_PRIO_TO_WEIGHT_def SCHED_PRIO_TO_WMULT_def Let_def kernel_task_def)
  then obtain r s where s: "spawn_init (Inr 7) 8 9 s1 = Some (r, s)" "runq s = [2, 1]"
    by (simp add: spawn_init_def enroll_def se_new_def weight_from_nice_def wmult_from_nice_def nice_to_index_def SCHED_PRIO_TO_WEIGHT_def
        SCHED_PRIO_TO_WMULT_def Let_def enqueue_cfs_def add64_def cfs_new_def U64_MAX_def set_vruntime_def kernel_task_def)
  have "sched_step s0 s1" using kthread [OF s1(1)] s0(4) by simp
  then have "sched_reach s" using sched_reach.init [OF boot_reach.early [OF boot_reach.made [OF s0(1)]] s(1)] by blast
  then show ?thesis using scheduler_invariant s(2) by blast
qed

theorem exited_task_never_reaped_witness:
  "\<exists>tf s1. exit_current_and_switch 0 demo_child = Some (SwitchTo tf, s1) \<and> \<not> task_exists 2 s1"
proof -
  have "\<exists>tf s1. exit_current_and_switch 0 demo_child = Some (SwitchTo tf, s1)"
    by (simp add: exit_current_and_switch_def demo_child_def demo_defs Let_def leave_def auto_reap_def handlers_get_def signum handlers_new_def
        sigaction_default_def SIG_DFL_def SIG_IGN_def notify_def reparent_def best_index_def take_at_def drop_exited_def proc_state_def
        set_state_def upd_def proc_wake_def proc_send_def)
  then obtain tf s1 where e: "exit_current_and_switch 0 demo_child = Some (SwitchTo tf, s1)" by blast
  have c: "cur demo_child = 2" by (simp add: demo_child_def demo_kern_def)
  show ?thesis using exited_task_never_reaped [OF demo_ok(1) running_not_queued [OF demo_ok(1) demo_running(1)] e rtranclp.rtrancl_refl] e c by auto
qed

lemma no_signals: "t_signals (p_sig (store s n)) = ss_new \<Longrightarrow> next_signals n s = Some (True, s)"
  by (simp add: next_signals.simps next_signal_def ss_dequeue_def ss_new_def)

text \<open>Init sleeps in a wait for its child, and a tick switches to the child.\<close>

definition demo_asleep :: Kern where
  "demo_asleep = upd 1 (\<lambda>p. p\<lparr>p_state := Blocked, p_tf := 0\<rparr>) (demo_parent Ready)"

lemma demo_wait: "wait_round (- 1) 0 0 (demo_parent Ready) = Some (Asleep, demo_asleep)"
  by (simp add: wait_round_def demo_asleep_def demo_parent_def demo_defs wait_matches_def proc_state_def)

lemma demo_account:
  "account (upd 1 (p_gs_update (\<lambda>_. 0)) (upd 1 (p_tf_update (\<lambda>_. 400)) demo_asleep)) =
     Some (True, upd 1 (\<lambda>p. p\<lparr>p_se := set_time_slice 6000000 (p_se p)\<rparr>) (upd 1 (p_ticks_update (\<lambda>_. 8))
       ((upd 1 (p_gs_update (\<lambda>_. 0)) (upd 1 (p_tf_update (\<lambda>_. 400)) demo_asleep))\<lparr>clock_ticks := 1, cfs := update_clock NS_PER_TICK cfs_new\<rparr>)))"
  by (simp add: account_def Let_def demo_asleep_def demo_parent_def demo_defs proc_state_def add64_def U64_MAX_def calc_time_slice_def
      update_clock_def cfs_new_def SCHED_LATENCY_NS_def TICKS_PER_MS_def)

lemma demo_tick: "\<exists>s2. on_timer_tick 400 demo_asleep = Some (302, s2) \<and> cur s2 = 2"
proof -
  have a: "p_user (store demo_asleep 1)" "frame_user demo_asleep 400" "gs_reg demo_asleep = 0" "cur demo_asleep = 1"
    by (simp_all add: demo_asleep_def demo_parent_def demo_defs)
  define s1 where "s1 = upd 1 (p_ticks_update (\<lambda>_. 0)) (upd 1 (\<lambda>p. p\<lparr>p_se := set_time_slice 6000000 (p_se p)\<rparr>) (upd 1 (p_ticks_update (\<lambda>_. 8))
       ((upd 1 (p_gs_update (\<lambda>_. 0)) (upd 1 (p_tf_update (\<lambda>_. 400)) demo_asleep))\<lparr>clock_ticks := 1, cfs := update_clock NS_PER_TICK cfs_new\<rparr>)))"
  have p1: "proc_state s1 1 = Blocked" "runq s1 = [2]" "cfs s1 = update_clock NS_PER_TICK cfs_new" "proc_state s1 2 = Ready"
    by (simp_all add: s1_def demo_asleep_def demo_parent_def demo_defs proc_state_def)
  have t2: "p_tf (store s1 2) = 302" "p_user (store s1 2)" "p_sig (store s1 2) = \<lparr>t_signals = ss_new, t_handlers = handlers_new\<rparr>" "p_prio (store s1 2) = 0"
    by (simp_all add: s1_def demo_asleep_def demo_parent_def demo_defs)
  define s2 where "s2 = set_state 2 Running ((drop_exited s1)\<lparr>cfs := cfs s1, runq := []\<rparr>)"
  have pk: "pick_next_task (drop_exited s1) = (Some 2, (drop_exited s1)\<lparr>cfs := cfs s1, runq := []\<rparr>)"
    using p1 t2(4) by (simp add: pick_next_task_def drop_exited_def proc_state_def dequeue_next_def update_clock_def cfs_new_def best_index_def take_at_def remove_at_def)
  have s2: "store s2 2 = (store s1 2)\<lparr>p_state := Running\<rparr>" by (simp add: s2_def set_state_def drop_exited_def)
  have rq: "requeue 1 s1 = Some s1" using p1(1) by (simp add: requeue_def del: One_nat_def)
  have "next_signals 2 s2 = Some (True, s2)" by (rule no_signals) (simp add: s2 t2)
  then have "on_timer_tick 400 demo_asleep = Some (302, load_context 2 302 (s2\<lparr>cur := 2\<rparr>))"
    by (simp add: on_timer_tick_def Let_def a demo_account rq pk t2 del: One_nat_def flip: s1_def s2_def) (simp add: s2 t2 drop_exited_def)
  then show ?thesis by simp
qed

theorem waiting_task_is_lost_witness:
  "\<exists>s1 s2. wait_round (- 1) 0 0 (demo_parent Ready) = Some (Asleep, s1) \<and> on_timer_tick 400 s1 = Some (302, s2) \<and> \<not> task_exists 1 s2"
proof -
  obtain s2 where t: "on_timer_tick 400 demo_asleep = Some (302, s2)" "cur s2 = 2" using demo_tick by blast
  have c: "cur (demo_parent Ready) = 1" by (simp add: demo_parent_def demo_kern_def)
  have "kern_ok (demo_parent Ready)" by (rule demo_ok) simp
  from waiting_task_is_lost [OF this demo_running(2) demo_wait t(1) _ rtranclp.rtrancl_refl]
  show ?thesis using demo_wait t c by auto
qed

theorem tick_resumes_ready_task_witness:
  "\<exists>s2. on_timer_tick 400 demo_asleep = Some (302, s2) \<and> cur s2 \<in> set (runq demo_asleep) \<and> proc_state s2 (cur s2) = Running"
proof -
  obtain s2 where t: "on_timer_tick 400 demo_asleep = Some (302, s2)" "cur s2 = 2" using demo_tick by blast
  then show ?thesis using tick_resumes_ready_task [OF t(1)] by (auto simp: demo_asleep_def demo_parent_def demo_kern_def)
qed

definition demo_group :: Kern where
  "demo_group = demo_kern (\<lambda>i. if i = 2 then demo_task 1 2 Running else if i = 3 then demo_task 2 2 Ready else demo_task 1 i Ready) 2 [3, 4]"

theorem exit_group_halts_with_ready_task_witness:
  "\<exists>s'. exit_thread_group 0 demo_group = Some (Halted, s') \<and> runq s' = [4] \<and> proc_state s' 4 = Ready"
  by (rule exit_group_halts_with_ready_task [where t = 3])
    (simp_all add: demo_group_def demo_defs kern_ok_def members_def proc_state_def)

theorem tick_always_returns_witness:
  "\<exists>tf' s'. on_timer_tick 400 demo_child = Some (tf', s')"
  by (rule tick_always_returns [OF demo_ok(1)])
    (simp_all add: demo_child_def demo_defs in_range_def members_def cfs_new_def stats_new_def U64_MAX_def demo_sig_ok)

text \<open>Init, out of the queue, with SIGCHLD and SIGKILL pending: it is killed.\<close>

theorem switch_signal_outcome_witness:
  "\<exists>s s'. next_signals 1 s = Some (False, s') \<and> deliverable (t_signals (p_sig (store s 1))) = {SIGKILL, SIGCHLD}
     \<and> proc_state s' 1 = Zombie"
proof -
  let ?t = "\<lparr>t_signals = ss_send SIGCHLD (ss_send SIGKILL ss_new), t_handlers = handlers_new\<rparr>"
  let ?s = "upd 1 (\<lambda>p. p\<lparr>p_sig := ?t\<rparr>) (demo_parent Ready)"
  have q: "p_sig (store ?s 1) = ?t" "1 \<notin> set (runq ?s)" by (simp_all add: demo_parent_def demo_defs)
  have d: "deliverable (t_signals ?t) = {SIGKILL, SIGCHLD}"
    by (auto simp: ss_send_def ss_new_def deliverable_def bit_simps signum)
  have "sig_ok ?t" using sig_reach_ok [OF sig_send [OF sig_send [OF sig_new, of SIGKILL], of SIGCHLD]] by simp
  then have ok: "sig_ok (p_sig (store ?s 1))" unfolding q .
  have "SIGKILL \<in> deliverable (t_signals ?t)
      \<and> (\<forall>k \<in> deliverable (t_signals ?t). k < SIGKILL \<longrightarrow> \<not> has_handler (t_handlers ?t ! k))"
    unfolding d by (auto simp: signum)
  then obtain b s' where "next_signals 1 ?s = Some (b, s')" "\<not> b" "proc_state s' 1 = Zombie"
    using switch_signal_outcome [OF ok q(2)] unfolding q Let_def by blast
  then show ?thesis using q(1) d by (intro exI [of _ ?s] exI [of _ s']) simp
qed

theorem wait_reaps_and_writes_witness:
  "\<exists>s'. wait_round (- 1) 0xFFFF800000000000 0 (demo_parent Zombie) = Some (Waited (Inr (Some 2)), s')
     \<and> writes s' = [(201, 0xFFFF800000000000, 0)]"
proof -
  have w: "wait_round (- 1) 0xFFFF800000000000 0 (demo_parent Zombie) = Some (Waited (Inr (Some 2)), reap 0 0xFFFF800000000000 (demo_parent Zombie))"
    by (simp add: wait_round_def demo_parent_def demo_defs wait_matches_def proc_state_def)
  have k: "kern_ok (demo_parent Zombie)" by (rule demo_ok) simp
  show ?thesis using wait_reaps_and_writes [OF k w] w by (simp add: demo_parent_def demo_defs wrap_i32_def)
qed

end
