(* ===== verification/Descriptors.thy ===== *)
theory Descriptors
  imports File_System Eventfd Signal
begin

text \<open>
  The descriptor table and the system calls on descriptors, \<^verbatim>\<open>kernel/src/syscall/mod.rs\<close>: open, read, write, close, lseek,
  truncate, pipe, dup, dup2, fcntl and eventfd, over the memory file system, pipes and event counters.

  There is one table for all processes.  Pipes and event counters are shared by reference (\<open>Arc\<close>), so the state keeps them in
  lists and a descriptor holds a position; a descriptor of a file or a directory is one of the references (\<open>pins\<close>) that
  keep its inode alive.  A duplicate of a file descriptor is a copy, with an offset of its own.  The network sockets are a
  parameter \<open>NetOps\<close> with a state of their own.  A call that blocks yields and starts its loop again: a round that
  does so returns \<open>Yield\<close>.  The input that the console has received is a list.
\<close>

subsection \<open>The table\<close>

definition O_WRONLY :: u32 where "O_WRONLY = 1"
definition O_RDWR :: u32 where "O_RDWR = 2"
definition O_CREAT :: u32 where "O_CREAT = 0x40"
definition O_EXCL :: u32 where "O_EXCL = 0x80"
definition O_TRUNC :: u32 where "O_TRUNC = 0x200"
definition O_APPEND :: u32 where "O_APPEND = 0x400"
definition O_NONBLOCK :: u32 where "O_NONBLOCK = 0x800"
definition O_DIRECTORY :: u32 where "O_DIRECTORY = 0x10000"
definition O_CLOEXEC :: u32 where "O_CLOEXEC = 0x80000"

lemmas open_flags = O_WRONLY_def O_RDWR_def O_CREAT_def O_EXCL_def O_TRUNC_def O_APPEND_def O_NONBLOCK_def O_DIRECTORY_def O_CLOEXEC_def

text \<open>\<open>OpenFlags::from_bits_truncate\<close> and \<open>contains\<close>.\<close>

definition open_bits :: "u32 \<Rightarrow> u32" where
  "open_bits w = w AND (O_WRONLY OR O_RDWR OR O_CREAT OR O_EXCL OR O_TRUNC OR O_APPEND OR O_NONBLOCK OR O_DIRECTORY OR O_CLOEXEC)"

definition has_flag :: "u32 \<Rightarrow> u32 \<Rightarrow> bool" where
  "has_flag w f \<longleftrightarrow> w AND f = f"

datatype FdType = FdConsole | FdFile nat nat u32 | FdDir nat nat | PipeRead nat | PipeWrite nat | FdSocket nat | FdEvent nat

record FdTable =
  fds :: "(int \<times> FdType) list"
  next_fd :: int

definition fd_put :: "int \<Rightarrow> FdType \<Rightarrow> (int \<times> FdType) list \<Rightarrow> (int \<times> FdType) list" where
  "fd_put k e xs = (k, e) # filter (\<lambda>x. fst x \<noteq> k) xs"

definition fd_del :: "int \<Rightarrow> (int \<times> FdType) list \<Rightarrow> (int \<times> FdType) list" where
  "fd_del k xs = filter (\<lambda>x. fst x \<noteq> k) xs"

definition fd_table_new :: FdTable where
  "fd_table_new = \<lparr>fds = [(0, FdConsole), (1, FdConsole), (2, FdConsole)], next_fd = 3\<rparr>"

definition fd_alloc :: "FdTable \<Rightarrow> (int \<times> FdTable) option" where
  "fd_alloc t = (if next_fd t + 1 \<le> 2 ^ 31 - 1 then Some (next_fd t, t\<lparr>next_fd := next_fd t + 1\<rparr>) else None)"

definition fd_get :: "int \<Rightarrow> FdTable \<Rightarrow> FdType option" where
  "fd_get fd t = map_of (fds t) fd"

subsection \<open>The state\<close>

record 'n NetOps =
  n_recv :: "nat \<Rightarrow> u8 list \<Rightarrow> 'n \<Rightarrow> nat KResult \<times> u8 list \<times> 'n"
  n_send :: "nat \<Rightarrow> u8 list \<Rightarrow> 'n \<Rightarrow> nat KResult \<times> 'n"
  n_close :: "nat \<Rightarrow> 'n \<Rightarrow> 'n"

record 'n Files =
  f_table :: "FdTable option"
  f_pipes :: "Pipe list"
  f_events :: "EventFd list"
  f_heap :: Heap
  f_vfs :: Vfs
  f_cred :: Cred
  f_mem :: umem
  f_input :: "u8 list"
  f_serial :: "u8 list"
  f_sig :: SignalState
  f_pid :: nat
  f_foreground :: nat
  f_net :: 'n

type_synonym 'n result = "(int round \<times> 'n Files) option"

definition ret :: "int \<Rightarrow> 'n Files \<Rightarrow> 'n result" where
  "ret r s = Some (Return r, s)"

definition upd_pipe :: "nat \<Rightarrow> (Pipe \<Rightarrow> Pipe) \<Rightarrow> 'n Files \<Rightarrow> 'n Files" where
  "upd_pipe p f s = s\<lparr>f_pipes := (f_pipes s)[p := f (f_pipes s ! p)]\<rparr>"

definition set_entry :: "FdTable \<Rightarrow> int \<Rightarrow> FdType \<Rightarrow> 'n Files \<Rightarrow> 'n Files" where
  "set_entry t fd e s = s\<lparr>f_table := Some (t\<lparr>fds := fd_put fd e (fds t)\<rparr>)\<rparr>"

text \<open>Dropping a descriptor: the reference to its inode goes, and inodes without references die.\<close>

fun inode_of :: "FdType \<Rightarrow> nat option" where
  "inode_of (FdFile i off w) = Some i"
| "inode_of (FdDir i off) = Some i"
| "inode_of _ = None"

definition drop_entry :: "FdType option \<Rightarrow> 'n Files \<Rightarrow> 'n Files" where
  "drop_entry oe s = (case oe of
     Some e \<Rightarrow> (case inode_of e of Some i \<Rightarrow> s\<lparr>f_heap := drop_refs [i] (f_heap s)\<rparr> | None \<Rightarrow> s)
   | None \<Rightarrow> s)"

text \<open>\<open>FdTable::insert\<close>: an entry that was there is dropped.  The new entry owns a reference to its inode.\<close>

definition fd_insert :: "int \<Rightarrow> FdType \<Rightarrow> FdTable \<Rightarrow> 'n Files \<Rightarrow> 'n Files" where
  "fd_insert fd e t s =
     (let s = (case inode_of e of Some i \<Rightarrow> s\<lparr>f_heap := (f_heap s)\<lparr>pins := i # pins (f_heap s)\<rparr>\<rparr> | None \<Rightarrow> s)
      in drop_entry (fd_get fd t) (set_entry t fd e s))"

text \<open>The counters of a pipe follow the duplication and the closing of its ends.\<close>

fun share_pipe :: "FdType \<Rightarrow> 'n Files \<Rightarrow> 'n Files" where
  "share_pipe (PipeRead p) s = upd_pipe p add_reader s"
| "share_pipe (PipeWrite p) s = upd_pipe p add_writer s"
| "share_pipe _ s = s"

fun unshare_pipe :: "FdType \<Rightarrow> 'n Files \<Rightarrow> 'n Files" where
  "unshare_pipe (PipeRead p) s = upd_pipe p remove_reader s"
| "unshare_pipe (PipeWrite p) s = upd_pipe p remove_writer s"
| "unshare_pipe _ s = s"

text \<open>The entry of a descriptor, with the error that every call starts with.\<close>

definition with_entry :: "int \<Rightarrow> 'n Files \<Rightarrow> (FdTable \<Rightarrow> FdType \<Rightarrow> 'n result) \<Rightarrow> 'n result" where
  "with_entry fd s f = (case f_table s of
     None \<Rightarrow> ret EBADF s
   | Some t \<Rightarrow> (case fd_get fd t of None \<Rightarrow> ret EBADF s | Some e \<Rightarrow> f t e))"

subsection \<open>Strings of a program\<close>

fun user_string :: "umem \<Rightarrow> nat \<Rightarrow> nat \<Rightarrow> string \<Rightarrow> string option" where
  "user_string m a 0 acc = Some acc"
| "user_string m a (Suc k) acc =
     (if \<not> is_user_addr a then (if acc = [] then None else Some acc)
      else if m a = 0 then Some acc
      else user_string m (a + 1) k (acc @ [char_of (unat (m a))]))"

definition read_user_string :: "umem \<Rightarrow> nat \<Rightarrow> nat \<Rightarrow> string option" where
  "read_user_string m ptr max_len =
     (if ptr = 0 \<or> \<not> is_user_addr ptr then None
      else if \<not> is_user_range ptr max_len then None
      else user_string m ptr max_len [])"

subsection \<open>Read\<close>

text \<open>The bytes of a console read: up to the first end of a line, the size of the buffer, or what has been received.\<close>

fun console_take :: "nat \<Rightarrow> u8 list \<Rightarrow> u8 list \<times> u8 list" where
  "console_take k [] = ([], [])"
| "console_take k (b # bs) =
     (if b = 10 \<or> b = 13 \<or> k \<le> 1 then ([b], bs)
      else case console_take (k - 1) bs of (r, rest) \<Rightarrow> (b # r, rest))"

definition console_read :: "int \<Rightarrow> nat \<Rightarrow> nat \<Rightarrow> 'n Files \<Rightarrow> 'n result" where
  "console_read fd buf n s =
     (let s = (if fd = 0 then s\<lparr>f_foreground := f_pid s\<rparr> else s) in
      if n = 0 then ret 0 s
      else if f_input s = [] then Some (Yield, s)
      else case console_take n (f_input s) of (bs, rest) \<Rightarrow>
        ret (int (length bs)) (s\<lparr>f_mem := mem_write buf bs (f_mem s), f_input := rest\<rparr>))"

text \<open>The arms of the match on the type of the descriptor.\<close>

fun read_entry :: "'n NetOps \<Rightarrow> int \<Rightarrow> nat \<Rightarrow> nat \<Rightarrow> FdTable \<Rightarrow> FdType \<Rightarrow> 'n Files \<Rightarrow> 'n result" where
  "read_entry net fd buf n t FdConsole s = console_read fd buf n s"
| "read_entry net fd buf n t (FdFile i offset flags) s =
     (if n = 0 then ret 0 s
      else do {
        (r, out, h) \<leftarrow> read_at i offset (replicate n 0) (f_heap s);
        case r of
          Inl _ \<Rightarrow> ret EIO s
        | Inr k \<Rightarrow> do {
            offset \<leftarrow> add64 offset k;
            ret (wrap_i64 (int k)) (set_entry t fd (FdFile i offset flags)
              (s\<lparr>f_heap := h, f_mem := mem_write buf (take k out) (f_mem s)\<rparr>))
          }
      })"
| "read_entry net fd buf n t (FdDir i offset) s = ret EISDIR s"
| "read_entry net fd buf n t (PipeRead p) s =
     (if n = 0 then ret 0 s
      else if pipe_is_empty (f_pipes s ! p) \<and> \<not> has_writers (f_pipes s ! p) then ret 0 s
      else do {
        (k, out, q) \<leftarrow> pipe_read (replicate n 0) (f_pipes s ! p);
        ret (int k) (upd_pipe p (\<lambda>_. q) (s\<lparr>f_mem := mem_write buf (take k out) (f_mem s)\<rparr>))
      })"
| "read_entry net fd buf n t (PipeWrite p) s = ret EBADF s"
| "read_entry net fd buf n t (FdSocket sid) s =
     (if n = 0 then ret 0 s
      else case n_recv net sid (replicate n 0) (f_net s) of
        (Inl _, _, w) \<Rightarrow> ret EIO (s\<lparr>f_net := w\<rparr>)
      | (Inr k, out, w) \<Rightarrow> ret (wrap_i64 (int k)) (s\<lparr>f_net := w, f_mem := mem_write buf (take k out) (f_mem s)\<rparr>))"
| "read_entry net fd buf n t (FdEvent v) s =
     (if n < 8 then ret EINVAL s
      else case file_read (replicate 8 0) (f_events s ! v) of
        (Yield, _, ev) \<Rightarrow> Some (Yield, s)
      | (Return (Inl err), _, ev) \<Rightarrow> ret err s
      | (Return (Inr k), out, ev) \<Rightarrow>
          ret (int k) (s\<lparr>f_events := (f_events s)[v := ev], f_mem := mem_write buf (take k out) (f_mem s)\<rparr>))"

definition sys_read :: "'n NetOps \<Rightarrow> int \<Rightarrow> nat \<Rightarrow> nat \<Rightarrow> 'n Files \<Rightarrow> 'n result" where
  "sys_read net fd buf n s =
     (if n > 0 \<and> \<not> is_user_range buf n then ret EFAULT s
      else with_entry fd s (\<lambda>t e. read_entry net fd buf n t e s))"

subsection \<open>Write\<close>

definition write_position :: "nat \<Rightarrow> nat \<Rightarrow> u32 \<Rightarrow> Heap \<Rightarrow> nat" where
  "write_position i offset flags h =
     (if has_flag flags O_APPEND then (case size_of h i of Inl _ \<Rightarrow> 0 | Inr k \<Rightarrow> k) else offset)"

fun write_entry :: "'n NetOps \<Rightarrow> int \<Rightarrow> nat \<Rightarrow> nat \<Rightarrow> FdTable \<Rightarrow> FdType \<Rightarrow> 'n Files \<Rightarrow> 'n result" where
  "write_entry net fd buf n t FdConsole s =
     (if n = 0 then ret 0 s
      else ret (int (min n 4096)) (s\<lparr>f_serial := f_serial s @ mem_read (f_mem s) buf (min n 4096)\<rparr>))"
| "write_entry net fd buf n t (FdFile i offset flags) s =
     (if n = 0 then ret 0 s
      else do {
        let write_offset = write_position i offset flags (f_heap s);
        (r, h) \<leftarrow> write_at i write_offset (mem_read (f_mem s) buf n) (f_heap s);
        case r of
          Inl _ \<Rightarrow> ret EIO (s\<lparr>f_heap := h\<rparr>)
        | Inr k \<Rightarrow> do {
            offset \<leftarrow> add64 write_offset k;
            ret (wrap_i64 (int k)) (set_entry t fd (FdFile i offset flags) (s\<lparr>f_heap := h\<rparr>))
          }
      })"
| "write_entry net fd buf n t (FdDir i offset) s = ret EISDIR s"
| "write_entry net fd buf n t (PipeWrite p) s =
     (if n = 0 then ret 0 s
      else if \<not> has_readers (f_pipes s ! p) then ret EPIPE (s\<lparr>f_sig := ss_send SIGPIPE (f_sig s)\<rparr>)
      else do {
        (k, q) \<leftarrow> pipe_write (mem_read (f_mem s) buf n) (f_pipes s ! p);
        ret (int k) (upd_pipe p (\<lambda>_. q) s)
      })"
| "write_entry net fd buf n t (PipeRead p) s = ret EBADF s"
| "write_entry net fd buf n t (FdSocket sid) s =
     (if n = 0 then ret 0 s
      else case n_send net sid (mem_read (f_mem s) buf n) (f_net s) of
        (Inl _, w) \<Rightarrow> ret EIO (s\<lparr>f_net := w\<rparr>)
      | (Inr k, w) \<Rightarrow> ret (wrap_i64 (int k)) (s\<lparr>f_net := w\<rparr>))"
| "write_entry net fd buf n t (FdEvent v) s =
     (if n < 8 then ret EINVAL s
      else do {
        (r, ev) \<leftarrow> file_write (mem_read (f_mem s) buf 8) (f_events s ! v);
        case r of
          Yield \<Rightarrow> Some (Yield, s)
        | Return (Inl err) \<Rightarrow> ret err s
        | Return (Inr k) \<Rightarrow> ret (int k) (s\<lparr>f_events := (f_events s)[v := ev]\<rparr>)
      })"

definition sys_write :: "'n NetOps \<Rightarrow> int \<Rightarrow> nat \<Rightarrow> nat \<Rightarrow> 'n Files \<Rightarrow> 'n result" where
  "sys_write net fd buf n s =
     (if n > 0 \<and> \<not> is_user_range buf n then ret EFAULT s
      else with_entry fd s (\<lambda>t e. write_entry net fd buf n t e s))"

subsection \<open>Open and close\<close>

text \<open>The parent and the name of a path, by the last slash.\<close>

definition parent_and_name :: "string \<Rightarrow> string \<times> string" where
  "parent_and_name path = (case rfind_slash path of
     Some i \<Rightarrow> if i > 0 then (take i path, drop (Suc i) path) else (''/'', drop 1 path)
   | None \<Rightarrow> (''/'', path))"

text \<open>The inode to open: an error number, or the inode with the heap in which it may have been made.\<close>

definition open_inode :: "string \<Rightarrow> u32 \<Rightarrow> u32 \<Rightarrow> 'n Files \<Rightarrow> ((int + nat) \<times> Heap) option" where
  "open_inode path oflags md s = do {
     r \<leftarrow> resolve (f_vfs s) (f_heap s) path (f_cred s);
     case r of
       Inr i \<Rightarrow> Some (Inr i, f_heap s)
     | Inl NotFound \<Rightarrow>
         if has_flag oflags O_CREAT
         then case parent_and_name path of (parent_path, name) \<Rightarrow> do {
           p \<leftarrow> resolve (f_vfs s) (f_heap s) parent_path (f_cred s);
           case p of
             Inl _ \<Rightarrow> Some (Inl ENOENT, f_heap s)
           | Inr d \<Rightarrow>
               (case create d name KFile (simple (uid (f_cred s)) (gid (f_cred s)) (from_octal (ucast md)) KFile) (f_heap s) of
                  (Inl _, h) \<Rightarrow> Some (Inl EIO, h)
                | (Inr i, h) \<Rightarrow> Some (Inr i, h))
         }
         else Some (Inl ENOENT, f_heap s)
     | Inl PermissionDenied \<Rightarrow> Some (Inl EACCES, f_heap s)
     | Inl _ \<Rightarrow> Some (Inl EIO, f_heap s)
   }"

text \<open>The permission that the access mode asks for.\<close>

definition open_allowed :: "u32 \<Rightarrow> Metadata \<Rightarrow> Cred \<Rightarrow> bool option" where
  "open_allowed oflags m c =
     (if m_kind m = KDir then can_exec_dir m c
      else if oflags AND 3 = 0 then can_read_file m c
      else if oflags AND 3 = 1 then can_write_file m c
      else if oflags AND 3 = 2 then can_read_write m c
      else Some True)"

definition sys_open :: "nat \<Rightarrow> u32 \<Rightarrow> u32 \<Rightarrow> 'n Files \<Rightarrow> 'n result" where
  "sys_open pathname flags md s =
     (case read_user_string (f_mem s) pathname 1024 of
        None \<Rightarrow> ret EFAULT s
      | Some path \<Rightarrow> do {
          let oflags = open_bits flags;
          (r, h) \<leftarrow> open_inode path oflags md s;
          let s = s\<lparr>f_heap := h\<rparr>;
          case r of
            Inl err \<Rightarrow> ret err s
          | Inr i \<Rightarrow>
              if has_flag oflags O_DIRECTORY \<and> kind_of h i \<noteq> KDir then ret ENOTDIR s
              else do {
                ok \<leftarrow> open_allowed oflags (metadata h i) (f_cred s);
                if \<not> ok then ret EACCES s
                else case f_table s of
                  None \<Rightarrow> ret ENOMEM s
                | Some t \<Rightarrow> do {
                    (fd, t) \<leftarrow> fd_alloc t;
                    if kind_of h i = KDir then ret fd (fd_insert fd (FdDir i 0) t s)
                    else ret fd (fd_insert fd (FdFile i 0 oflags) t
                      (if has_flag oflags O_TRUNC then s\<lparr>f_heap := snd (truncate_file i 0 h)\<rparr> else s))
                  }
              }
        })"

definition sys_close :: "'n NetOps \<Rightarrow> int \<Rightarrow> 'n Files \<Rightarrow> 'n result" where
  "sys_close net fd s = with_entry fd s (\<lambda>t e.
     let s = s\<lparr>f_table := Some (t\<lparr>fds := fd_del fd (fds t)\<rparr>)\<rparr>;
         s = unshare_pipe e s;
         s = (case e of FdSocket sid \<Rightarrow> s\<lparr>f_net := n_close net sid (f_net s)\<rparr> | _ \<Rightarrow> s)
     in ret 0 (drop_entry (Some e) s))"

subsection \<open>Pipes, duplicates and event counters\<close>

definition sys_pipe :: "nat \<Rightarrow> 'n Files \<Rightarrow> 'n result" where
  "sys_pipe pipefd s =
     (if pipefd = 0 then ret EFAULT s
      else case f_table s of
        None \<Rightarrow> ret ENOMEM s
      | Some t \<Rightarrow> do {
          let p = length (f_pipes s);
          let s = s\<lparr>f_pipes := f_pipes s @ [pipe_new]\<rparr>;
          (rfd, t) \<leftarrow> fd_alloc t;
          (wfd, t) \<leftarrow> fd_alloc t;
          let s = fd_insert rfd (PipeRead p) t s;
          let s = (case f_table s of Some t \<Rightarrow> fd_insert wfd (PipeWrite p) t s | None \<Rightarrow> s);
          ret 0 (s\<lparr>f_mem := mem_write (pipefd + 4) (le_bytes 4 (nat wfd)) (mem_write pipefd (le_bytes 4 (nat rfd)) (f_mem s))\<rparr>)
        })"

definition sys_dup :: "int \<Rightarrow> 'n Files \<Rightarrow> 'n result" where
  "sys_dup oldfd s = with_entry oldfd s (\<lambda>t e. do {
     (newfd, t) \<leftarrow> fd_alloc t;
     ret newfd (fd_insert newfd e t (share_pipe e s))
   })"

definition sys_dup2 :: "int \<Rightarrow> int \<Rightarrow> 'n Files \<Rightarrow> 'n result" where
  "sys_dup2 oldfd newfd s = with_entry oldfd s (\<lambda>t e.
     if oldfd = newfd then ret newfd s
     else let s = share_pipe e s;
              s = (case fd_get newfd t of Some old \<Rightarrow> unshare_pipe old s | None \<Rightarrow> s)
          in ret newfd (fd_insert newfd e t s))"

text \<open>The lowest free number from \<open>fd\<close> on; the outer \<open>None\<close> is the overflow of the number.\<close>

function lowest_fd :: "FdTable \<Rightarrow> int \<Rightarrow> int option option" where
  "lowest_fd t fd =
     (if fd_get fd t = None then Some (Some fd)
      else if fd + 1 > 2 ^ 31 - 1 then None
      else if fd + 1 > 1024 then Some None
      else lowest_fd t (fd + 1))"
  by pat_completeness auto

termination by (relation "measure (\<lambda>(t, fd). nat (1024 - fd))") auto

declare lowest_fd.simps [simp del]

definition sys_fcntl :: "int \<Rightarrow> int \<Rightarrow> nat \<Rightarrow> 'n Files \<Rightarrow> 'n result" where
  "sys_fcntl fd cmd arg s =
     (case f_table s of
        None \<Rightarrow> ret EBADF s
      | Some t \<Rightarrow>
          if cmd = 0 \<or> cmd = 1030
          then with_entry fd s (\<lambda>t e. do {
            r \<leftarrow> lowest_fd t (wrap_i32 (int arg));
            case r of
              None \<Rightarrow> ret EMFILE s
            | Some newfd \<Rightarrow> ret newfd (share_pipe e (fd_insert newfd e t s))
          })
          else if cmd = 1 \<or> cmd = 2 then with_entry fd s (\<lambda>t e. ret 0 s)
          else if cmd = 3
          then with_entry fd s (\<lambda>t e. ret (case e of
              FdFile i offset flags \<Rightarrow> int (unat flags)
            | FdConsole \<Rightarrow> 2 | FdDir i offset \<Rightarrow> 0 | PipeRead p \<Rightarrow> 0 | PipeWrite p \<Rightarrow> 1 | FdSocket sid \<Rightarrow> 2
            | FdEvent v \<Rightarrow> if is_nonblock (f_events s ! v) then 2 + 2048 else 2) s)
          else if cmd = 4
          then with_entry fd s (\<lambda>t e. ret 0 (case e of
              FdFile i offset flags \<Rightarrow>
                set_entry t fd (FdFile i offset (open_bits ((word_of_nat arg AND NOT 3) OR (flags AND 3)))) s
            | _ \<Rightarrow> s))
          else ret EINVAL s)"

definition sys_eventfd :: "nat \<Rightarrow> u32 \<Rightarrow> 'n Files \<Rightarrow> 'n result" where
  "sys_eventfd initval flags s =
     (case eventfd_create initval flags of
        Inl err \<Rightarrow> ret err s
      | Inr ev \<Rightarrow> (case f_table s of
          None \<Rightarrow> ret (- 24) s
        | Some t \<Rightarrow> do {
            let v = length (f_events s);
            let s = s\<lparr>f_events := f_events s @ [ev]\<rparr>;
            (fd, t) \<leftarrow> fd_alloc t;
            ret fd (fd_insert fd (FdEvent v) t s)
          }))"

subsection \<open>Offsets and sizes\<close>

definition add_i64 :: "int \<Rightarrow> int \<Rightarrow> int option" where
  "add_i64 a b = (if - (2 ^ 63) \<le> a + b \<and> a + b < 2 ^ 63 then Some (a + b) else None)"

definition sys_lseek :: "int \<Rightarrow> int \<Rightarrow> int \<Rightarrow> 'n Files \<Rightarrow> 'n result" where
  "sys_lseek fd offset whence s = with_entry fd s (\<lambda>t e. case e of
     FdFile i current flags \<Rightarrow> do {
       let size = wrap_i64 (int (case size_of (f_heap s) i of Inl _ \<Rightarrow> 0 | Inr k \<Rightarrow> k));
       new_offset \<leftarrow> (if whence = 0 then Some (Some offset)
                     else if whence = 1 then map_option Some (add_i64 (wrap_i64 (int current)) offset)
                     else if whence = 2 then map_option Some (add_i64 size offset)
                     else Some None);
       case new_offset of
         None \<Rightarrow> ret EINVAL s
       | Some o' \<Rightarrow> if o' < 0 then ret EINVAL s else ret o' (set_entry t fd (FdFile i (nat o') flags) s)
     }
   | FdDir i offset \<Rightarrow> ret EISDIR s
   | _ \<Rightarrow> ret ESPIPE s)"

definition sys_truncate :: "nat \<Rightarrow> int \<Rightarrow> 'n Files \<Rightarrow> 'n result" where
  "sys_truncate pathname len s =
     (case read_user_string (f_mem s) pathname 4096 of
        None \<Rightarrow> ret EFAULT s
      | Some path \<Rightarrow>
          if len < 0 then ret EINVAL s
          else do {
            r \<leftarrow> resolve (f_vfs s) (f_heap s) path (f_cred s);
            case r of
              Inl NotFound \<Rightarrow> ret ENOENT s
            | Inl PermissionDenied \<Rightarrow> ret EACCES s
            | Inl _ \<Rightarrow> ret EIO s
            | Inr i \<Rightarrow>
                if m_kind (metadata (f_heap s) i) \<noteq> KFile then ret EISDIR s
                else do {
                  ok \<leftarrow> can_write_any (metadata (f_heap s) i) (f_cred s);
                  if \<not> ok then ret EACCES s
                  else (case truncate_file i (nat len) (f_heap s) of
                    (Inr _, h) \<Rightarrow> ret 0 (s\<lparr>f_heap := h\<rparr>)
                  | (Inl PermissionDenied, h) \<Rightarrow> ret EACCES (s\<lparr>f_heap := h\<rparr>)
                  | (Inl _, h) \<Rightarrow> ret EIO (s\<lparr>f_heap := h\<rparr>))
                }
          })"

definition sys_ftruncate :: "int \<Rightarrow> int \<Rightarrow> 'n Files \<Rightarrow> 'n result" where
  "sys_ftruncate fd len s =
     (if len < 0 then ret EINVAL s
      else with_entry fd s (\<lambda>t e. case e of
        FdFile i offset flags \<Rightarrow>
          if m_kind (metadata (f_heap s) i) \<noteq> KFile then ret EINVAL s
          else if \<not> (has_flag flags O_WRONLY \<or> has_flag flags O_RDWR) then ret EINVAL s
          else (case truncate_file i (nat len) (f_heap s) of
            (Inr _, h) \<Rightarrow> ret 0 (s\<lparr>f_heap := h\<rparr>)
          | (Inl _, h) \<Rightarrow> ret EIO (s\<lparr>f_heap := h\<rparr>))
      | _ \<Rightarrow> ret EINVAL s))"

end
