(* ===== verification/Open_Files.thy ===== *)
theory Open_Files
  imports Descriptors
begin

text \<open>
  Theorems about the descriptor table: the counters of the pipes agree with the descriptors that are open, open inodes stay
  alive, and bytes that are written through one descriptor are read through another.

  The state is checked against the multiset of the entries of the table: \<open>pipes_ok\<close> compares the counters of the pipes with it,
  \<open>inodes_ok\<close> the references to inodes.  A call moves an entry from one multiset to the other, so that its proof is a
  composition of the lemmas on sharing, dropping and inserting an entry.
\<close>

subsection \<open>The entries of a table\<close>

definition entries_of :: "FdTable \<Rightarrow> FdType multiset" where
  "entries_of t = mset (map snd (fds t))"

definition table_ok :: "FdTable \<Rightarrow> bool" where
  "table_ok t \<longleftrightarrow> distinct (map fst (fds t)) \<and> (\<forall>k \<in> fst ` set (fds t). - (2 ^ 31) \<le> k \<and> k < next_fd t)
     \<and> 3 \<le> next_fd t \<and> next_fd t \<le> 2 ^ 31 - 1"

definition old_entry :: "int \<Rightarrow> FdTable \<Rightarrow> FdType multiset" where
  "old_entry fd t = (case fd_get fd t of None \<Rightarrow> {#} | Some e \<Rightarrow> {#e#})"

lemma mset_fd_del:
  "distinct (map fst xs) \<Longrightarrow>
     mset (map snd (fd_del k xs)) = mset (map snd xs) - (case map_of xs k of None \<Rightarrow> {#} | Some e \<Rightarrow> {#e#})"
proof (induction xs)
  case (Cons x xs)
  obtain a b where x: "x = (a, b)" by (cases x)
  show ?case
  proof (cases "a = k")
    case True
    then have "fd_del k xs = xs" using Cons.prems x by (auto simp: fd_del_def filter_id_conv image_iff)
    then show ?thesis using True x by (simp add: fd_del_def)
  next
    case False
    show ?thesis
    proof (cases "map_of xs k")
      case (Some e)
      then have "e \<in># mset (map snd xs)" by (force dest: map_of_SomeD)
      then show ?thesis using Cons False x Some by (simp add: fd_del_def)
    qed (use Cons False x in \<open>simp add: fd_del_def\<close>)
  qed
qed (simp add: fd_del_def)

lemma entries_put:
  assumes "table_ok t"
  shows "entries_of (t\<lparr>fds := fd_put fd e (fds t)\<rparr>) = add_mset e (entries_of t - old_entry fd t)"
  using mset_fd_del [of "fds t" fd] assms
  by (simp add: entries_of_def fd_put_def fd_del_def old_entry_def fd_get_def table_ok_def)

lemma entries_del:
  assumes "table_ok t"
  shows "entries_of (t\<lparr>fds := fd_del fd (fds t)\<rparr>) = entries_of t - old_entry fd t"
  using mset_fd_del [of "fds t" fd] assms by (simp add: entries_of_def old_entry_def fd_get_def table_ok_def)

lemma get_entry: "fd_get fd t = Some e \<Longrightarrow> e \<in># entries_of t"
  by (force simp: fd_get_def entries_of_def dest: map_of_SomeD)

lemma old_entry_sub: "old_entry fd t \<subseteq># entries_of t"
  using get_entry by (auto simp: old_entry_def split: option.splits)

lemma table_put: "table_ok t \<Longrightarrow> - (2 ^ 31) \<le> fd \<Longrightarrow> fd < next_fd t \<Longrightarrow> table_ok (t\<lparr>fds := fd_put fd e (fds t)\<rparr>)"
  by (auto simp: table_ok_def fd_put_def distinct_map intro: inj_on_subset)

lemma table_del: "table_ok t \<Longrightarrow> table_ok (t\<lparr>fds := fd_del fd (fds t)\<rparr>)"
  by (auto simp: table_ok_def fd_del_def distinct_map intro: inj_on_subset)

lemma get_range: "table_ok t \<Longrightarrow> fd_get fd t = Some e \<Longrightarrow> - (2 ^ 31) \<le> fd \<and> fd < next_fd t"
  by (force simp: table_ok_def fd_get_def dest: map_of_SomeD)

lemma entries_bound:
  assumes "table_ok t"
  shows "size (entries_of t) \<le> 2 ^ 32"
proof -
  have "size (entries_of t) = card (fst ` set (fds t))"
    using distinct_card [of "map fst (fds t)"] assms by (simp add: entries_of_def table_ok_def)
  also have "\<dots> \<le> card {- (2 ^ 31) ..< (2 ^ 31 :: int)}"
    using assms by (intro card_mono) (auto simp: table_ok_def)
  finally show ?thesis by simp
qed

lemma alloc_cases:
  assumes "fd_alloc t = Some (fd, t')" and "table_ok t"
  shows "fd = next_fd t" "next_fd t' = fd + 1" "fds t' = fds t" "table_ok t'" "entries_of t' = entries_of t" "fd_get fd t' = None" "old_entry fd t' = {#}" "3 \<le> fd"
proof -
  show *: "fd = next_fd t" "next_fd t' = fd + 1" "fds t' = fds t" "3 \<le> fd"
    using assms by (auto simp: fd_alloc_def table_ok_def split: if_splits)
  show "table_ok t'" "entries_of t' = entries_of t"
    using assms * by (auto simp: table_ok_def entries_of_def fd_alloc_def split: if_splits)
  show n: "fd_get fd t' = None"
  proof (rule ccontr)
    assume "fd_get fd t' \<noteq> None"
    then obtain e where "fd_get fd t = Some e" using *(3) by (auto simp: fd_get_def)
    then show False using get_range [OF assms(2)] *(1) by fastforce
  qed
  show "old_entry fd t' = {#}" using n by (simp add: old_entry_def)
qed

subsection \<open>Pipes\<close>

definition pipes_ok :: "FdType multiset \<Rightarrow> 'n Files \<Rightarrow> bool" where
  "pipes_ok T s \<longleftrightarrow> (\<forall>p < length (f_pipes s). pipe_inv (f_pipes s ! p)
       \<and> readers (f_pipes s ! p) = Multiset.count T (PipeRead p) \<and> writers (f_pipes s ! p) = Multiset.count T (PipeWrite p))
     \<and> (\<forall>p. PipeRead p \<in># T \<or> PipeWrite p \<in># T \<longrightarrow> p < length (f_pipes s)) \<and> (\<forall>v. FdEvent v \<in># T \<longrightarrow> v < length (f_events s))"

lemma pipes_ok_cong: "f_pipes s' = f_pipes s \<Longrightarrow> length (f_events s') = length (f_events s) \<Longrightarrow> pipes_ok T s' \<longleftrightarrow> pipes_ok T s"
  by (simp add: pipes_ok_def)

lemma count_bound: "size T \<le> 2 ^ 32 \<Longrightarrow> Multiset.count T e \<le> 2 ^ 32"
  by (rule order.trans [OF count_le_size])

lemma pipe_counts:
  "readers (add_reader q) = (readers q + 1) mod 2 ^ 64" "writers (add_reader q) = writers q"
  "writers (add_writer q) = (writers q + 1) mod 2 ^ 64" "readers (add_writer q) = readers q"
  "readers (remove_reader q) = (readers q + 2 ^ 64 - 1) mod 2 ^ 64" "writers (remove_reader q) = writers q"
  "writers (remove_writer q) = (writers q + 2 ^ 64 - 1) mod 2 ^ 64" "readers (remove_writer q) = readers q"
  "pipe_inv (add_reader q) = pipe_inv q" "pipe_inv (add_writer q) = pipe_inv q"
  "pipe_inv (remove_reader q) = pipe_inv q" "pipe_inv (remove_writer q) = pipe_inv q"
  by (simp_all add: add_reader_def add_writer_def remove_reader_def remove_writer_def fetch_add64_def fetch_sub64_def pipe_inv_def)

lemma upd_pipe_simps [simp]:
  "f_pipes (upd_pipe p f s) = (f_pipes s)[p := f (f_pipes s ! p)]" "f_events (upd_pipe p f s) = f_events s"
  "f_table (upd_pipe p f s) = f_table s" "f_heap (upd_pipe p f s) = f_heap s" "f_vfs (upd_pipe p f s) = f_vfs s"
  "f_mem (upd_pipe p f s) = f_mem s" "f_cred (upd_pipe p f s) = f_cred s"
  by (simp_all add: upd_pipe_def)

lemma share_frame [simp]:
  "f_events (share_pipe e s) = f_events s" "f_table (share_pipe e s) = f_table s" "f_heap (share_pipe e s) = f_heap s"
  "f_vfs (share_pipe e s) = f_vfs s" "length (f_pipes (share_pipe e s)) = length (f_pipes s)" "f_mem (share_pipe e s) = f_mem s"
  "f_events (unshare_pipe e s) = f_events s" "f_table (unshare_pipe e s) = f_table s" "f_heap (unshare_pipe e s) = f_heap s"
  "f_vfs (unshare_pipe e s) = f_vfs s" "length (f_pipes (unshare_pipe e s)) = length (f_pipes s)" "f_mem (unshare_pipe e s) = f_mem s"
  by (cases e; simp)+

lemma share_ok:
  assumes ok: "pipes_ok T s" and b: "size T \<le> 2 ^ 32" and e: "e \<in># T"
  shows "pipes_ok (add_mset e T) (share_pipe e s)"
proof (cases e)
  case (PipeRead p)
  then have "p < length (f_pipes s)" using ok e by (auto simp: pipes_ok_def)
  moreover have "Multiset.count T e \<le> 2 ^ 32" using b by (rule count_bound)
  ultimately show ?thesis using ok e PipeRead by (auto simp: pipes_ok_def pipe_counts nth_list_update)
next
  case (PipeWrite p)
  then have "p < length (f_pipes s)" using ok e by (auto simp: pipes_ok_def)
  moreover have "Multiset.count T e \<le> 2 ^ 32" using b by (rule count_bound)
  ultimately show ?thesis using ok e PipeWrite by (auto simp: pipes_ok_def pipe_counts nth_list_update)
qed (use ok e in \<open>auto simp: pipes_ok_def\<close>)

lemma dec_count: "(n :: nat) \<le> 2 ^ 32 \<Longrightarrow> (Suc n + 2 ^ 64 - 1) mod 2 ^ 64 = n"
proof -
  assume "n \<le> 2 ^ 32"
  then have "n < 2 ^ 64" by (rule order.strict_trans1) simp
  moreover have "Suc n + 2 ^ 64 - 1 = n + 2 ^ 64" by simp
  ultimately show ?thesis by (simp only: mod_add_self2 mod_less)
qed

lemma unshare_ok:
  assumes ok: "pipes_ok (add_mset e T) s" and b: "size T \<le> 2 ^ 32"
  shows "pipes_ok T (unshare_pipe e s)"
proof (cases e)
  case (PipeRead p)
  then have p: "p < length (f_pipes s)" "readers (f_pipes s ! p) = Suc (Multiset.count T (PipeRead p))" using ok by (auto simp: pipes_ok_def)
  have "readers (remove_reader (f_pipes s ! p)) = Multiset.count T (PipeRead p)"
    using dec_count [OF count_bound [OF b]] p(2) by (simp only: pipe_counts)
  then show ?thesis using ok p(1) PipeRead unfolding pipes_ok_def by (auto simp: nth_list_update pipe_counts(6,11) split: if_splits)
next
  case (PipeWrite p)
  then have p: "p < length (f_pipes s)" "writers (f_pipes s ! p) = Suc (Multiset.count T (PipeWrite p))" using ok by (auto simp: pipes_ok_def)
  have "writers (remove_writer (f_pipes s ! p)) = Multiset.count T (PipeWrite p)"
    using dec_count [OF count_bound [OF b]] p(2) by (simp only: pipe_counts)
  then show ?thesis using ok p(1) PipeWrite unfolding pipes_ok_def by (auto simp: nth_list_update pipe_counts(8,12) split: if_splits)
qed (use ok in \<open>auto simp: pipes_ok_def\<close>)

subsection \<open>References to inodes\<close>

definition inodes :: "FdType multiset \<Rightarrow> nat multiset" where
  "inodes T = image_mset (the \<circ> inode_of) (filter_mset (\<lambda>e. inode_of e \<noteq> None) T)"

lemma inodes_add: "inodes (add_mset e T) = (case inode_of e of None \<Rightarrow> inodes T | Some i \<Rightarrow> add_mset i (inodes T))"
  by (auto simp: inodes_def split: option.splits)

definition inodes_ok :: "FdType multiset \<Rightarrow> 'n Files \<Rightarrow> bool" where
  "inodes_ok T s \<longleftrightarrow> heap_ok (f_heap s) \<and> no_garbage (f_heap s) \<and> held (f_vfs s) + inodes T \<subseteq># mset (pins (f_heap s))
     \<and> sorted_wrt (<) (map fst (mount_points (f_vfs s)))"

lemma inodes_ok_cong: "f_heap s' = f_heap s \<Longrightarrow> f_vfs s' = f_vfs s \<Longrightarrow> inodes_ok T s' \<longleftrightarrow> inodes_ok T s"
  by (simp add: inodes_ok_def)

lemma inodes_ok_fs: "inodes_ok T s \<Longrightarrow> fs_inv (f_vfs s) (f_heap s)"
  unfolding inodes_ok_def fs_inv_held using mset_subset_eq_add_left subset_mset.order_trans by blast

lemma inodes_live:
  assumes "inodes_ok T s" and "e \<in># T" and "inode_of e = Some i"
  shows "live (f_heap s) i"
proof -
  have "i \<in># inodes T" using assms(2,3) by (force simp: inodes_def)
  then have "i \<in># mset (pins (f_heap s))"
    using assms(1) mset_subset_eqD unfolding inodes_ok_def by (metis union_iff)
  then show ?thesis using assms(1) heap_okD(2) by (auto simp: inodes_ok_def)
qed

lemma inodes_pin:
  assumes "inodes_ok T s" and "inode_of e = Some i" and "live (f_heap s) i"
  shows "inodes_ok (add_mset e T) (s\<lparr>f_heap := (f_heap s)\<lparr>pins := i # pins (f_heap s)\<rparr>\<rparr>)"
proof -
  let ?h = "f_heap s"
  have "set (i # pins ?h) \<subseteq> Collect (live ?h)"
    using assms heap_okD(2) [of ?h] by (auto simp: inodes_ok_def)
  then have "heap_ok (?h\<lparr>pins := i # pins ?h\<rparr>)" using assms(1) by (intro heap_ok_pins) (simp add: inodes_ok_def)
  moreover have "no_garbage (?h\<lparr>pins := i # pins ?h\<rparr>)"
    using assms(1) by (auto simp: inodes_ok_def no_garbage_def lookup_def as_dir_def)
  moreover have "held (f_vfs s) + inodes (add_mset e T) \<subseteq># mset (i # pins ?h)"
    using assms(1,2) by (simp add: inodes_ok_def inodes_add)
  ultimately show ?thesis using assms(1) by (simp add: inodes_ok_def)
qed

lemma inodes_drop:
  assumes "inodes_ok (add_mset e T) s"
  shows "inodes_ok T (drop_entry (Some e) s)"
proof (cases "inode_of e")
  case None
  then show ?thesis using assms by (simp add: drop_entry_def inodes_ok_def inodes_add)
next
  case (Some i)
  let ?h = "f_heap s"
  have sub: "add_mset i (held (f_vfs s) + inodes T) \<subseteq># mset (pins ?h)"
    using assms Some by (simp add: inodes_ok_def inodes_add)
  have "held (f_vfs s) + mset [i] \<subseteq># mset (pins ?h)"
    using sub subset_mset.order_trans [OF _ sub] by (simp add: mset_subset_eq_add_left)
  then have "fs_inv (f_vfs s) (drop_refs [i] ?h)" using assms by (intro drop_refs_inv) (auto simp: inodes_ok_def)
  moreover have "held (f_vfs s) + inodes T \<subseteq># mset (pins (drop_refs [i] ?h))"
    using sub by (simp add: drop_refs_def insert_subset_eq_iff)
  ultimately show ?thesis using Some by (simp add: drop_entry_def inodes_ok_def fs_inv_held)
qed

subsection \<open>The invariant\<close>

definition files_ok :: "'n Files \<Rightarrow> bool" where
  "files_ok s \<longleftrightarrow> (\<exists>t. f_table s = Some t \<and> table_ok t \<and> pipes_ok (entries_of t) s \<and> inodes_ok (entries_of t) s)"

lemma files_okI: "f_table s = Some t \<Longrightarrow> table_ok t \<Longrightarrow> pipes_ok (entries_of t) s \<Longrightarrow> inodes_ok (entries_of t) s \<Longrightarrow> files_ok s"
  by (auto simp: files_ok_def)

lemma files_okE:
  assumes "files_ok s"
  obtains t where "f_table s = Some t" "table_ok t" "pipes_ok (entries_of t) s" "inodes_ok (entries_of t) s"
  using assms by (auto simp: files_ok_def)

lemma files_ok_cong:
  assumes "f_table s' = f_table s" "f_pipes s' = f_pipes s" "length (f_events s') = length (f_events s)"
    "f_heap s' = f_heap s" "f_vfs s' = f_vfs s"
  shows "files_ok s' \<longleftrightarrow> files_ok s"
  using assms by (simp add: files_ok_def pipes_ok_def inodes_ok_def)

lemma insert_frame [simp]:
  "f_table (drop_entry oe s) = f_table s" "f_pipes (drop_entry oe s) = f_pipes s" "f_events (drop_entry oe s) = f_events s"
  "f_vfs (drop_entry oe s) = f_vfs s" "f_mem (drop_entry oe s) = f_mem s"
  "f_table (fd_insert fd e t s) = Some (t\<lparr>fds := fd_put fd e (fds t)\<rparr>)" "f_pipes (fd_insert fd e t s) = f_pipes s"
  "f_events (fd_insert fd e t s) = f_events s" "f_vfs (fd_insert fd e t s) = f_vfs s" "f_mem (fd_insert fd e t s) = f_mem s"
  by (auto simp: drop_entry_def fd_insert_def set_entry_def Let_def split: option.splits)

lemma set_entry_frame [simp]:
  "f_table (set_entry t fd e s) = Some (t\<lparr>fds := fd_put fd e (fds t)\<rparr>)" "f_mem (set_entry t fd e s) = f_mem s"
  "f_heap (set_entry t fd e s) = f_heap s" "f_pipes (set_entry t fd e s) = f_pipes s"
  "inodes_ok T (set_entry t fd e s) = inodes_ok T s" "pipes_ok T (set_entry t fd e s) = pipes_ok T s"
  by (simp_all add: set_entry_def inodes_ok_def pipes_ok_def)

lemma insert_ok:
  assumes t: "table_ok t" "- (2 ^ 31) \<le> fd" "fd < next_fd t" and i: "inodes_ok (entries_of t) s"
    and e: "\<And>i. inode_of e = Some i \<Longrightarrow> live (f_heap s) i" and p: "pipes_ok (add_mset e (entries_of t - old_entry fd t)) s"
  shows "files_ok (fd_insert fd e t s)"
proof -
  define s1 where "s1 = (case inode_of e of Some i \<Rightarrow> s\<lparr>f_heap := (f_heap s)\<lparr>pins := i # pins (f_heap s)\<rparr>\<rparr> | None \<Rightarrow> s)"
  have s1: "inodes_ok (add_mset e (entries_of t)) s1"
    using i e inodes_pin [OF i] by (cases "inode_of e") (auto simp: s1_def inodes_ok_def inodes_add)
  let ?E = "add_mset e (entries_of t - old_entry fd t)"
  have "inodes_ok ?E (drop_entry (fd_get fd t) (set_entry t fd e s1))"
  proof (cases "fd_get fd t")
    case None
    then show ?thesis using s1 by (simp add: old_entry_def drop_entry_def inodes_ok_def set_entry_def)
  next
    case (Some old)
    have "add_mset e (entries_of t) = add_mset old ?E"
      using get_entry [OF Some] Some by (simp add: old_entry_def)
    then have "inodes_ok (add_mset old ?E) (set_entry t fd e s1)" using s1 by (simp only: set_entry_frame)
    from inodes_drop [OF this] show ?thesis using Some by (simp only:)
  qed
  then have "inodes_ok ?E (fd_insert fd e t s)" by (simp add: fd_insert_def s1_def Let_def)
  moreover have "pipes_ok ?E (fd_insert fd e t s)" using p by (simp add: pipes_ok_def)
  ultimately show ?thesis
    using files_okI [of "fd_insert fd e t s"] table_put [OF t] entries_put [OF t(1)] by simp
qed

text \<open>A new number is free, so that an insertion there drops nothing.\<close>

lemma insert_new:
  assumes t: "table_ok t" "fd_alloc t = Some (fd, t')" and i: "inodes_ok (entries_of t) s"
    and e: "\<And>i. inode_of e = Some i \<Longrightarrow> live (f_heap s) i" and p: "pipes_ok (add_mset e (entries_of t)) s"
  shows "files_ok (fd_insert fd e t' s)"
  using alloc_cases [OF t(2,1)] assms by (intro insert_ok) auto

text \<open>The entry of a file moves its offset or changes its flags.\<close>

lemma set_file_entry:
  assumes t: "f_table s = Some t" "table_ok t" "fd_get fd t = Some (FdFile i off w)"
    and ok: "pipes_ok (entries_of t) s" "inodes_ok (entries_of t) s"
  shows "files_ok (set_entry t fd (FdFile i off' w') s)"
proof -
  let ?e = "FdFile i off w" and ?e' = "FdFile i off' w'"
  obtain D where D: "entries_of t = add_mset ?e D" using multi_member_split [OF get_entry [OF t(3)]] by blast
  have "inodes_ok (add_mset ?e' D) (set_entry t fd ?e' s)"
    using ok(2) by (simp add: D inodes_ok_def inodes_add set_entry_def)
  moreover have "pipes_ok (add_mset ?e' D) (set_entry t fd ?e' s)"
    using ok(1) by (simp add: D pipes_ok_def set_entry_def)
  moreover have "entries_of (t\<lparr>fds := fd_put fd ?e' (fds t)\<rparr>) = add_mset ?e' D"
    using entries_put [OF t(2), of fd ?e'] t(3) D by (simp add: old_entry_def)
  ultimately show ?thesis
    using table_put [OF t(2), of fd] get_range [OF t(2,3)] by (auto simp: files_ok_def set_entry_def)
qed

subsection \<open>Every call keeps the invariant\<close>

lemma with_entry_ok:
  assumes "with_entry fd s f = Some (r, s')" and "files_ok s"
    and "\<And>t e. f_table s = Some t \<Longrightarrow> table_ok t \<Longrightarrow> pipes_ok (entries_of t) s \<Longrightarrow> inodes_ok (entries_of t) s
      \<Longrightarrow> fd_get fd t = Some e \<Longrightarrow> f t e = Some (r, s') \<Longrightarrow> files_ok s'"
  shows "files_ok s'"
  using assms(2)
proof (rule files_okE)
  fix t assume t: "f_table s = Some t" "table_ok t" "pipes_ok (entries_of t) s" "inodes_ok (entries_of t) s"
  show ?thesis
  proof (cases "fd_get fd t")
    case None
    then show ?thesis using assms(1,2) t(1) by (simp add: with_entry_def ret_def)
  next
    case (Some e)
    then have "f t e = Some (r, s')" using assms(1) t(1) by (simp add: with_entry_def)
    with t Some show ?thesis by (rule assms(3))
  qed
qed

lemma set_fifo:
  assumes "ti_node (node h i) = TFifo p"
  shows "same_tree h (set_node i (TFifo q) h)" "heap_ok h \<Longrightarrow> heap_ok (set_node i (TFifo q) h)"
proof -
  have "lookup (set_node i (TFifo q) h) j n = lookup h j n" for j n
    using assms by (simp add: lookup_def as_dir_def node_set_node)
  then show "same_tree h (set_node i (TFifo q) h)" by (simp add: same_tree_def fun_eq_iff)
  show "heap_ok (set_node i (TFifo q) h)" if "heap_ok h"
    using that by (rule heap_ok_set_node) (simp_all add: assms)
qed

lemma read_at_tree: "read_at i off out h = Some (r, out', h') \<Longrightarrow> heap_ok h \<Longrightarrow> same_tree h h' \<and> heap_ok h'"
  by (cases "ti_node (node h i)") (auto simp: read_at_def as_fifo_def as_file_def Let_def set_fifo split: if_splits bind_splits)

lemma write_at_tree: "write_at i off x h = Some (r, h') \<Longrightarrow> heap_ok h \<Longrightarrow> same_tree h h' \<and> heap_ok h'"
  by (cases "ti_node (node h i)")
    (auto simp: write_at_def as_fifo_def as_file_def Let_def set_fifo set_file split: option.splits bind_splits)

lemma truncate_tree: "truncate_file i n h = (r, h') \<Longrightarrow> heap_ok h \<Longrightarrow> same_tree h h' \<and> heap_ok h'"
  by (cases "ti_node (node h i)") (auto simp: truncate_file_def as_file_def set_file)

lemma inodes_tree:
  assumes "inodes_ok T s" "same_tree (f_heap s) h'" "heap_ok h'"
  shows "inodes_ok T (s\<lparr>f_heap := h'\<rparr>)"
  using assms same_tree_no_garbage by (auto simp: inodes_ok_def same_tree_def)

lemma pipe_set_ok:
  assumes "pipes_ok T s" "p < length (f_pipes s)" "pipe_inv q" "readers q = readers (f_pipes s ! p)" "writers q = writers (f_pipes s ! p)"
  shows "pipes_ok T (upd_pipe p (\<lambda>_. q) s)"
  using assms by (auto simp: pipes_ok_def nth_list_update)

lemma files_ok_updates [simp]:
  "files_ok (s\<lparr>f_mem := m\<rparr>) = files_ok s" "files_ok (s\<lparr>f_input := bs\<rparr>) = files_ok s" "files_ok (s\<lparr>f_serial := bs\<rparr>) = files_ok s"
  "files_ok (s\<lparr>f_sig := g\<rparr>) = files_ok s" "files_ok (s\<lparr>f_foreground := k\<rparr>) = files_ok s" "files_ok (s\<lparr>f_net := w\<rparr>) = files_ok s"
  "files_ok (s\<lparr>f_events := (f_events s)[v := ev]\<rparr>) = files_ok s" "files_ok (s\<lparr>f_cred := c\<rparr>) = files_ok s" "files_ok (s\<lparr>f_pid := k\<rparr>) = files_ok s"
  by (simp_all add: files_ok_def pipes_ok_def inodes_ok_def)

lemma console_read_ok: "console_read fd buf n s = Some (r, s') \<Longrightarrow> files_ok s \<Longrightarrow> files_ok s'"
  by (auto simp: console_read_def Let_def ret_def split: if_splits prod.splits)

text \<open>What the arms of a call start from.\<close>

definition at_entry :: "int \<Rightarrow> FdTable \<Rightarrow> FdType \<Rightarrow> 'n Files \<Rightarrow> bool" where
  "at_entry fd t e s \<longleftrightarrow> f_table s = Some t \<and> table_ok t \<and> pipes_ok (entries_of t) s \<and> inodes_ok (entries_of t) s \<and> fd_get fd t = Some e"

lemma at_entryD:
  assumes "at_entry fd t e s"
  shows "f_table s = Some t" "table_ok t" "pipes_ok (entries_of t) s" "inodes_ok (entries_of t) s" "fd_get fd t = Some e"
    "files_ok s" "e \<in># entries_of t"
  using assms get_entry by (auto simp: at_entry_def files_ok_def)

lemma at_pipe:
  assumes "at_entry fd t e s" "e = PipeRead p \<or> e = PipeWrite p"
  shows "p < length (f_pipes s)" "pipe_inv (f_pipes s ! p)"
  using at_entryD(3,7) [OF assms(1)] assms(2) by (auto simp: pipes_ok_def)

lemma pipe_step_ok:
  assumes "at_entry fd t e s" "e = PipeRead p \<or> e = PipeWrite p"
    and "pipe_inv q" "readers q = readers (f_pipes s ! p)" "writers q = writers (f_pipes s ! p)"
  shows "files_ok (upd_pipe p (\<lambda>_. q) s)"
proof (rule files_okI)
  show "pipes_ok (entries_of t) (upd_pipe p (\<lambda>_. q) s)"
    using at_entryD(3) [OF assms(1)] at_pipe(1) [OF assms(1,2)] assms(3-5) by (rule pipe_set_ok)
  show "inodes_ok (entries_of t) (upd_pipe p (\<lambda>_. q) s)"
    using at_entryD(4) [OF assms(1)] by (simp add: inodes_ok_def)
qed (use at_entryD [OF assms(1)] in simp_all)

lemma file_step_ok:
  assumes e: "at_entry fd t (FdFile i off w) s" and h: "same_tree (f_heap s) h" "heap_ok h"
  shows "files_ok (set_entry t fd (FdFile i off' w') (s\<lparr>f_heap := h\<rparr>))" "files_ok (s\<lparr>f_heap := h\<rparr>)"
proof -
  note d = at_entryD [OF e]
  have *: "f_table (s\<lparr>f_heap := h\<rparr>) = Some t" "pipes_ok (entries_of t) (s\<lparr>f_heap := h\<rparr>)" "inodes_ok (entries_of t) (s\<lparr>f_heap := h\<rparr>)"
    using d(1,3) inodes_tree [OF d(4) h] by (simp_all add: pipes_ok_def)
  show "files_ok (set_entry t fd (FdFile i off' w') (s\<lparr>f_heap := h\<rparr>))" using *(1) d(2,5) *(2,3) by (rule set_file_entry)
  show "files_ok (s\<lparr>f_heap := h\<rparr>)" using *(1) d(2) *(2,3) by (rule files_okI)
qed

lemma set_entry_mem [simp]: "files_ok (set_entry t fd e (s\<lparr>f_heap := h, f_mem := m\<rparr>)) = files_ok (set_entry t fd e (s\<lparr>f_heap := h\<rparr>))"
  by (simp add: set_entry_def files_ok_def pipes_ok_def inodes_ok_def)

lemma upd_pipe_mem: "upd_pipe p f (s\<lparr>f_mem := m\<rparr>) = (upd_pipe p f s)\<lparr>f_mem := m\<rparr>"
  by (simp add: upd_pipe_def)

lemma with_entry_rule:
  assumes "with_entry fd s f = Some (r, s')" and "files_ok s" and "\<And>t e. at_entry fd t e s \<Longrightarrow> f t e = Some (r, s') \<Longrightarrow> files_ok s'"
  shows "files_ok s'"
  using with_entry_ok [OF assms(1,2)] assms(3) by (simp add: at_entry_def)

lemma read_entry_ok:
  assumes "read_entry net fd buf n t e s = Some (r, s')" and e: "at_entry fd t e s"
  shows "files_ok s'"
proof (cases e)
  case FdConsole
  then show ?thesis using assms(1) console_read_ok at_entryD(6) [OF e] by simp
next
  case (FdFile i off w)
  have *: "same_tree (f_heap s) h \<and> heap_ok h" if "read_at i off (replicate n 0) (f_heap s) = Some (x, out, h)" for x out h
    using read_at_tree [OF that] at_entryD(4) [OF e] by (simp add: inodes_ok_def)
  show ?thesis using assms(1) at_entryD(6) [OF e] unfolding FdFile
    by (auto simp: ret_def file_step_ok [OF e [unfolded FdFile]] dest!: * split: if_splits bind_splits sum.splits)
next
  case (PipeRead p)
  obtain q where q: "pipe_read (replicate n 0) (f_pipes s ! p) =
      Some (min n (length (contents (f_pipes s ! p))), take n (contents (f_pipes s ! p)) @ drop (length (contents (f_pipes s ! p))) (replicate n 0), q)"
    "pipe_inv q" "readers q = readers (f_pipes s ! p)" "writers q = writers (f_pipes s ! p)"
    using pipe_read_refines [OF at_pipe(2) [OF e], of p "replicate n 0"] PipeRead by auto
  have "files_ok (upd_pipe p (\<lambda>_. q) s)" using pipe_step_ok [OF e _ q(2-4)] PipeRead by simp
  then show ?thesis using assms(1) at_entryD(6) [OF e] q(1) PipeRead
    by (auto simp: ret_def upd_pipe_mem split: if_splits)
qed (use assms(1) at_entryD(6) [OF e] in \<open>auto simp: ret_def split: if_splits prod.splits sum.splits round.splits\<close>)

lemma write_entry_ok:
  assumes "write_entry net fd buf n t e s = Some (r, s')" and e: "at_entry fd t e s"
  shows "files_ok s'"
proof (cases e)
  case (FdFile i off w)
  have *: "same_tree (f_heap s) h \<and> heap_ok h" if "write_at i pos x (f_heap s) = Some (y, h)" for pos x y h
    using write_at_tree [OF that] at_entryD(4) [OF e] by (simp add: inodes_ok_def)
  show ?thesis using assms(1) at_entryD(6) [OF e] unfolding FdFile
    by (auto simp: ret_def Let_def dest!: * intro: file_step_ok [OF e [unfolded FdFile]] split: if_splits bind_splits sum.splits)
next
  case (PipeWrite p)
  obtain k q where q: "pipe_write (mem_read (f_mem s) buf n) (f_pipes s ! p) = Some (k, q)"
    "pipe_inv q" "readers q = readers (f_pipes s ! p)" "writers q = writers (f_pipes s ! p)"
    using pipe_write_refines [OF at_pipe(2) [OF e], of p "mem_read (f_mem s) buf n"] PipeWrite by auto
  have "files_ok (upd_pipe p (\<lambda>_. q) s)" using pipe_step_ok [OF e _ q(2-4)] PipeWrite by simp
  then show ?thesis using assms(1) at_entryD(6) [OF e] q(1) PipeWrite
    by (auto simp: ret_def split: if_splits)
qed (use assms(1) at_entryD(6) [OF e] in \<open>auto simp: ret_def split: if_splits prod.splits sum.splits round.splits bind_splits\<close>)

lemma sys_read_ok: "sys_read net fd buf n s = Some (r, s') \<Longrightarrow> files_ok s \<Longrightarrow> files_ok s'"
  using with_entry_rule read_entry_ok by (fastforce simp: sys_read_def ret_def split: if_splits)

lemma sys_write_ok: "sys_write net fd buf n s = Some (r, s') \<Longrightarrow> files_ok s \<Longrightarrow> files_ok s'"
  using with_entry_rule write_entry_ok by (fastforce simp: sys_write_def ret_def split: if_splits)

lemma at_file_set:
  assumes "at_entry fd t (FdFile i off w) s"
  shows "files_ok (set_entry t fd (FdFile i off' w') s)"
  using at_entryD [OF assms] by (intro set_file_entry)

lemma sys_lseek_ok: "sys_lseek fd off whence s = Some (r, s') \<Longrightarrow> files_ok s \<Longrightarrow> files_ok s'"
  unfolding sys_lseek_def
  by (erule with_entry_rule, assumption)
    (auto simp: ret_def Let_def at_file_set at_entryD(6) split: FdType.splits if_splits bind_splits option.splits)

lemma sys_ftruncate_ok: "sys_ftruncate fd len s = Some (r, s') \<Longrightarrow> files_ok s \<Longrightarrow> files_ok s'"
proof -
  assume r: "sys_ftruncate fd len s = Some (r, s')" and ok: "files_ok s"
  have *: "files_ok (s\<lparr>f_heap := h\<rparr>)" if "at_entry fd t (FdFile i off w) s" "truncate_file i k (f_heap s) = (x, h)" for t i off w k x h
    using that file_step_ok(2) [OF that(1)] truncate_tree [OF that(2)] at_entryD(4) [OF that(1)] by (simp add: inodes_ok_def)
  show ?thesis
  proof (cases "len < 0")
    case False
    then have "with_entry fd s (\<lambda>t e. case e of
        FdFile i offset flags \<Rightarrow>
          if m_kind (metadata (f_heap s) i) \<noteq> KFile then ret EINVAL s
          else if \<not> (has_flag flags O_WRONLY \<or> has_flag flags O_RDWR) then ret EINVAL s
          else (case truncate_file i (nat len) (f_heap s) of
            (Inr _, h) \<Rightarrow> ret 0 (s\<lparr>f_heap := h\<rparr>)
          | (Inl _, h) \<Rightarrow> ret EIO (s\<lparr>f_heap := h\<rparr>))
      | _ \<Rightarrow> ret EINVAL s) = Some (r, s')" using r by (simp add: sys_ftruncate_def)
    then show ?thesis
      by (rule with_entry_rule [OF _ ok])
        (auto simp: ret_def * at_entryD(6) split: FdType.splits if_splits prod.splits sum.splits)
  qed (use r ok in \<open>simp add: sys_ftruncate_def ret_def\<close>)
qed

lemma files_ok_fs: "files_ok s \<Longrightarrow> fs_inv (f_vfs s) (f_heap s)"
  using inodes_ok_fs by (auto simp: files_ok_def)

lemma files_ok_tree: "files_ok s \<Longrightarrow> same_tree (f_heap s) h \<Longrightarrow> heap_ok h \<Longrightarrow> files_ok (s\<lparr>f_heap := h\<rparr>)"
  using inodes_tree by (fastforce simp: files_ok_def pipes_ok_def)

lemma files_ok_kept: "files_ok s \<Longrightarrow> kept (f_heap s) h \<Longrightarrow> files_ok (s\<lparr>f_heap := h\<rparr>)"
  by (auto simp: files_ok_def pipes_ok_def inodes_ok_def kept_def)

lemma sys_truncate_ok: "sys_truncate pathname len s = Some (r, s') \<Longrightarrow> files_ok s \<Longrightarrow> files_ok s'"
proof -
  assume r: "sys_truncate pathname len s = Some (r, s')" and ok: "files_ok s"
  have "files_ok (s\<lparr>f_heap := h\<rparr>)" if "truncate_file i k (f_heap s) = (x, h)" for i k x h
    using truncate_tree [OF that] files_ok_tree [OF ok] files_ok_fs [OF ok] by (simp add: fs_inv_def)
  then show ?thesis using r ok
    by (auto simp: sys_truncate_def ret_def split: option.splits if_splits bind_splits sum.splits KError.splits prod.splits)
qed

lemma sys_close_ok: "sys_close net fd s = Some (r, s') \<Longrightarrow> files_ok s \<Longrightarrow> files_ok s'"
  unfolding sys_close_def
proof (erule with_entry_rule, assumption)
  fix t e assume e: "at_entry fd t e s"
  note d = at_entryD [OF e]
  obtain D where D: "entries_of t = add_mset e D" using multi_member_split [OF d(7)] by blast
  define t' where "t' = t\<lparr>fds := fd_del fd (fds t)\<rparr>"
  define s1 where "s1 = unshare_pipe e (s\<lparr>f_table := Some t'\<rparr>)"
  define s2 where "s2 = (case e of FdSocket sid \<Rightarrow> s1\<lparr>f_net := n_close net sid (f_net s1)\<rparr> | _ \<Rightarrow> s1)"
  assume "(let s = s\<lparr>f_table := Some (t\<lparr>fds := fd_del fd (fds t)\<rparr>)\<rparr>; s = unshare_pipe e s;
      s = (case e of FdSocket sid \<Rightarrow> s\<lparr>f_net := n_close net sid (f_net s)\<rparr> | _ \<Rightarrow> s)
    in ret 0 (drop_entry (Some e) s)) = Some (r, s')"
  then have s': "s' = drop_entry (Some e) s2"
    unfolding Let_def t'_def [symmetric] s1_def [symmetric] s2_def [symmetric] ret_def by simp
  have s2: "f_table s2 = Some t'" "f_pipes s2 = f_pipes s1" "f_events s2 = f_events s1" "f_heap s2 = f_heap s" "f_vfs s2 = f_vfs s"
    by (simp_all add: s2_def s1_def split: FdType.splits)
  have t': "table_ok t'" "entries_of t' = D"
    using table_del [OF d(2)] entries_del [OF d(2), of fd] d(5) D by (simp_all add: t'_def old_entry_def)
  have "pipes_ok (add_mset e D) (s\<lparr>f_table := Some t'\<rparr>)" using d(3) D by (simp add: pipes_ok_def)
  moreover have "size D \<le> 2 ^ 32" using entries_bound [OF t'(1)] t'(2) by simp
  ultimately have "pipes_ok D s1" unfolding s1_def by (rule unshare_ok)
  then have "pipes_ok D s'" using s2 by (simp add: s' pipes_ok_def)
  moreover have "inodes_ok (add_mset e D) s2" using d(4) D s2 by (simp add: inodes_ok_def)
  then have "inodes_ok D s'" unfolding s' by (rule inodes_drop)
  ultimately show "files_ok s'" using files_okI [of s' t'] t' s2(1) by (simp add: s')
qed

lemma sys_dup_ok: "sys_dup oldfd s = Some (r, s') \<Longrightarrow> files_ok s \<Longrightarrow> files_ok s'"
  unfolding sys_dup_def
proof (erule with_entry_rule, assumption)
  fix t e assume e: "at_entry oldfd t e s" and
    f: "do { (newfd, t) \<leftarrow> fd_alloc t; ret newfd (fd_insert newfd e t (share_pipe e s)) } = Some (r, s')"
  note d = at_entryD [OF e]
  obtain fd t' where a: "fd_alloc t = Some (fd, t')" "s' = fd_insert fd e t' (share_pipe e s)"
    using f by (auto simp: ret_def split: bind_splits)
  show "files_ok s'" unfolding a(2)
  proof (rule insert_new [OF d(2) a(1)])
    show "inodes_ok (entries_of t) (share_pipe e s)" using d(4) by (simp add: inodes_ok_def)
    show "live (f_heap (share_pipe e s)) i" if "inode_of e = Some i" for i using inodes_live [OF d(4,7) that] by simp
    show "pipes_ok (add_mset e (entries_of t)) (share_pipe e s)" using d(3) entries_bound [OF d(2)] d(7) by (rule share_ok)
  qed
qed

text \<open>A duplicate at a number that was handed out before.\<close>

lemma dup_at_ok:
  assumes e: "at_entry fd t e s" and n: "- (2 ^ 31) \<le> newfd" "newfd < next_fd t"
    and s1: "s1 = (case fd_get newfd t of Some old \<Rightarrow> unshare_pipe old (share_pipe e s) | None \<Rightarrow> share_pipe e s)"
  shows "files_ok (fd_insert newfd e t s1)"
proof (rule insert_ok [OF at_entryD(2) [OF e] n])
  note d = at_entryD [OF e]
  have fr: "f_heap s1 = f_heap s" "f_vfs s1 = f_vfs s" by (simp_all add: s1 split: option.splits)
  show "inodes_ok (entries_of t) s1" using d(4) fr by (simp add: inodes_ok_def)
  show "live (f_heap s1) i" if "inode_of e = Some i" for i using inodes_live [OF d(4,7) that] fr by simp
  have sh: "pipes_ok (add_mset e (entries_of t)) (share_pipe e s)" using d(3) entries_bound [OF d(2)] d(7) by (rule share_ok)
  show "pipes_ok (add_mset e (entries_of t - old_entry newfd t)) s1"
  proof (cases "fd_get newfd t")
    case None
    then show ?thesis using sh by (simp add: s1 old_entry_def)
  next
    case (Some old)
    obtain D where D: "entries_of t = add_mset old D" using multi_member_split [OF get_entry [OF Some]] by blast
    have "pipes_ok (add_mset old (add_mset e D)) (share_pipe e s)" using sh D by (simp add: add_mset_commute)
    moreover have "size (add_mset e D) \<le> 2 ^ 32" using entries_bound [OF d(2)] D by simp
    ultimately have "pipes_ok (add_mset e D) (unshare_pipe old (share_pipe e s))" by (rule unshare_ok)
    then show ?thesis using Some D by (simp add: s1 old_entry_def)
  qed
qed

lemma sys_dup2_ok:
  assumes r: "sys_dup2 oldfd newfd s = Some (r, s')" and ok: "files_ok s"
    and n: "- (2 ^ 31) \<le> newfd" "\<And>t. f_table s = Some t \<Longrightarrow> newfd < next_fd t"
  shows "files_ok s'"
proof (rule with_entry_rule [OF r [unfolded sys_dup2_def] ok])
  fix t e assume e: "at_entry oldfd t e s" and f: "(if oldfd = newfd then ret newfd s
     else let s = share_pipe e s; s = (case fd_get newfd t of Some old \<Rightarrow> unshare_pipe old s | None \<Rightarrow> s)
          in ret newfd (fd_insert newfd e t s)) = Some (r, s')"
  show "files_ok s'"
    using f dup_at_ok [OF e n(1) n(2) [OF at_entryD(1) [OF e]] refl] ok by (auto simp: ret_def Let_def split: if_splits option.splits)
qed

lemma lowest_fd_free: "lowest_fd t fd = Some (Some k) \<Longrightarrow> fd_get k t = None \<and> fd \<le> k"
proof (induction t fd rule: lowest_fd.induct)
  case (1 t fd)
  then show ?case by (subst (asm) (2) lowest_fd.simps) (fastforce split: if_splits)
qed

lemma share_insert: "share_pipe e (fd_insert fd e t s) = fd_insert fd e t (share_pipe e s)"
  by (cases e) (auto simp: fd_insert_def drop_entry_def set_entry_def upd_pipe_def Let_def split: option.splits)

lemma sys_eventfd_ok: "sys_eventfd v w s = Some (r, s') \<Longrightarrow> files_ok s \<Longrightarrow> files_ok s'"
proof (erule files_okE)
  fix t assume r: "sys_eventfd v w s = Some (r, s')"
    and t: "f_table s = Some t" "table_ok t" "pipes_ok (entries_of t) s" "inodes_ok (entries_of t) s"
  have ok: "files_ok s" using t by (rule files_okI)
  show "files_ok s'"
  proof (cases "eventfd_create v w")
    case (Inl err)
    then show ?thesis using r ok by (simp add: sys_eventfd_def ret_def)
  next
    case (Inr ev)
    let ?s = "s\<lparr>f_events := f_events s @ [ev]\<rparr>"
    obtain fd t' where a: "fd_alloc t = Some (fd, t')" "s' = fd_insert fd (FdEvent (length (f_events s))) t' ?s"
      using r t(1) Inr by (auto simp: sys_eventfd_def ret_def Let_def split: bind_splits)
    show ?thesis unfolding a(2)
    proof (rule insert_new [OF t(2) a(1)])
      show "inodes_ok (entries_of t) ?s" using t(4) by (simp add: inodes_ok_def)
      show "pipes_ok (add_mset (FdEvent (length (f_events s))) (entries_of t)) ?s"
        using t(3) by (fastforce simp: pipes_ok_def)
    qed simp
  qed
qed

lemma wrap_i32_ge: "- (2 ^ 31) \<le> wrap_i32 z"
  by (simp add: wrap_i32_def)

lemma sys_fcntl_ok:
  assumes r: "sys_fcntl fd cmd arg s = Some (r, s')" and ok: "files_ok s"
    and n: "\<And>t k. f_table s = Some t \<Longrightarrow> lowest_fd t (wrap_i32 (int arg)) = Some (Some k) \<Longrightarrow> cmd = 0 \<or> cmd = 1030 \<Longrightarrow> k < next_fd t"
  shows "files_ok s'"
proof -
  obtain t0 where t0: "f_table s = Some t0" using ok by (auto simp: files_ok_def)
  consider (dup) "cmd = 0 \<or> cmd = 1030" | (setfl) "cmd = 4" | (other) "cmd \<noteq> 0" "cmd \<noteq> 1030" "cmd \<noteq> 4" by blast
  then show ?thesis
  proof cases
    case dup
    then have w: "with_entry fd s (\<lambda>t e. do {
            r \<leftarrow> lowest_fd t (wrap_i32 (int arg));
            case r of None \<Rightarrow> ret EMFILE s | Some newfd \<Rightarrow> ret newfd (share_pipe e (fd_insert newfd e t s)) }) = Some (r, s')"
      using r t0 by (simp add: sys_fcntl_def)
    show ?thesis
    proof (rule with_entry_rule [OF w ok])
      fix t e assume e: "at_entry fd t e s" and f: "do { r \<leftarrow> lowest_fd t (wrap_i32 (int arg));
            case r of None \<Rightarrow> ret EMFILE s | Some newfd \<Rightarrow> ret newfd (share_pipe e (fd_insert newfd e t s)) } = Some (r, s')"
      have "files_ok (share_pipe e (fd_insert k e t s))" if k: "lowest_fd t (wrap_i32 (int arg)) = Some (Some k)" for k
      proof -
        have "- (2 ^ 31) \<le> k" "k < next_fd t" "fd_get k t = None"
          using lowest_fd_free [OF k] wrap_i32_ge [of "int arg"] n [OF at_entryD(1) [OF e] k dup] by auto
        then show ?thesis using dup_at_ok [OF e, of k] by (simp add: share_insert)
      qed
      then show "files_ok s'" using f ok by (auto simp: ret_def split: bind_splits option.splits)
    qed
  next
    case setfl
    then have "with_entry fd s (\<lambda>t e. ret 0 (case e of
              FdFile i offset flags \<Rightarrow>
                set_entry t fd (FdFile i offset (open_bits ((word_of_nat arg AND NOT 3) OR (flags AND 3)))) s
            | _ \<Rightarrow> s)) = Some (r, s')"
      using r t0 by (simp add: sys_fcntl_def)
    then show ?thesis by (rule with_entry_rule [OF _ ok]) (auto simp: ret_def at_file_set at_entryD(6) split: FdType.splits)
  next
    case other
    then show ?thesis using r t0 ok by (auto simp: sys_fcntl_def with_entry_def ret_def split: option.splits if_splits)
  qed
qed

lemma insert_plain: "inode_of e = None \<Longrightarrow> fd_get fd t = None \<Longrightarrow> fd_insert fd e t s = set_entry t fd e s"
  by (simp add: fd_insert_def drop_entry_def Let_def)

lemma sys_pipe_eq:
  assumes t: "f_table s = Some t" "table_ok t" and r: "sys_pipe pipefd s = Some (r, s')" and p: "pipefd \<noteq> 0"
  shows "r = Return 0" and "f_pipes s' = f_pipes s @ [pipe_new]"
    and "f_table s' = Some \<lparr>fds = (next_fd t + 1, PipeWrite (length (f_pipes s))) # (next_fd t, PipeRead (length (f_pipes s))) # fds t, next_fd = next_fd t + 2\<rparr>"
    and "f_mem s' = mem_write (pipefd + 4) (le_bytes 4 (nat (next_fd t + 1))) (mem_write pipefd (le_bytes 4 (nat (next_fd t))) (f_mem s))"
    and "f_heap s' = f_heap s" "f_vfs s' = f_vfs s" "f_events s' = f_events s" and "next_fd t + 2 \<le> 2 ^ 31 - 1"
proof -
  obtain fd1 t1 fd2 t2 where a: "fd_alloc t = Some (fd1, t1)" "fd_alloc t1 = Some (fd2, t2)"
    using r t(1) p by (auto simp: sys_pipe_def Let_def split: bind_splits)
  note c1 = alloc_cases [OF a(1) t(2)] and c2 = alloc_cases [OF a(2) alloc_cases(4) [OF a(1) t(2)]]
  have fs: "fst x \<noteq> next_fd t" "fst x \<noteq> next_fd t + 1" if "x \<in> set (fds t)" for x
    using t(2) that by (auto simp: table_ok_def)
  have n1: "fd_get fd1 t2 = None" "fd_get fd2 (t2\<lparr>fds := fd_put fd1 e (fds t2)\<rparr>) = None" for e
    using c1 c2 fs by (auto simp: fd_get_def fd_put_def map_of_eq_None_iff filter_id_conv)
  have f1: "filter (\<lambda>x. fst x \<noteq> next_fd t) (fds t) = fds t" "filter (\<lambda>x. fst x \<noteq> next_fd t + 1) (fds t) = fds t"
    using fs by (auto simp: filter_id_conv)
  have tt: "t2\<lparr>fds := fd_put fd2 e' (fd_put fd1 e (fds t2))\<rparr> = \<lparr>fds = (next_fd t + 1, e') # (next_fd t, e) # fds t, next_fd = next_fd t + 2\<rparr>" for e e'
    using c1 c2 f1 by (simp add: fd_put_def)
  show "r = Return 0" "f_pipes s' = f_pipes s @ [pipe_new]" "f_heap s' = f_heap s" "f_vfs s' = f_vfs s" "f_events s' = f_events s"
    "f_table s' = Some \<lparr>fds = (next_fd t + 1, PipeWrite (length (f_pipes s))) # (next_fd t, PipeRead (length (f_pipes s))) # fds t, next_fd = next_fd t + 2\<rparr>"
    "f_mem s' = mem_write (pipefd + 4) (le_bytes 4 (nat (next_fd t + 1))) (mem_write pipefd (le_bytes 4 (nat (next_fd t))) (f_mem s))"
    using r t(1) p a n1 c1(1) c2(1) tt c1(2)
    by (auto simp: sys_pipe_def ret_def Let_def insert_plain set_entry_def)
  show "next_fd t + 2 \<le> 2 ^ 31 - 1" using c2(4) c1(1,2) c2(1,2) by (simp add: table_ok_def)
qed

lemma sys_pipe_ok: "sys_pipe pipefd s = Some (r, s') \<Longrightarrow> files_ok s \<Longrightarrow> files_ok s'"
proof (cases "pipefd = 0")
  case False
  assume r: "sys_pipe pipefd s = Some (r, s')" and ok: "files_ok s"
  from ok obtain t where t: "f_table s = Some t" "table_ok t" "pipes_ok (entries_of t) s" "inodes_ok (entries_of t) s" by (rule files_okE)
  note q = sys_pipe_eq [OF t(1,2) r False]
  let ?p = "length (f_pipes s)"
  let ?t = "\<lparr>fds = (next_fd t + 1, PipeWrite ?p) # (next_fd t, PipeRead ?p) # fds t, next_fd = next_fd t + 2\<rparr>"
  have E: "entries_of ?t = add_mset (PipeWrite ?p) (add_mset (PipeRead ?p) (entries_of t))" by (simp add: entries_of_def)
  have "table_ok ?t" using t(2) q(8) by (force simp: table_ok_def)
  moreover have "Multiset.count (entries_of t) (PipeRead ?p) = 0" "Multiset.count (entries_of t) (PipeWrite ?p) = 0"
    using t(3) by (auto simp: pipes_ok_def not_in_iff [symmetric])
  then have "pipes_ok (entries_of ?t) s'"
    using t(3) pipe_new_inv(1) unfolding E pipes_ok_def q(2,7) by (auto simp: nth_append pipe_new_def less_Suc_eq)
  moreover have "inodes_ok (entries_of ?t) s'" using t(4) q(5,6) by (simp add: inodes_ok_def E inodes_add)
  ultimately show ?thesis using q(3) by (intro files_okI)
qed (simp add: sys_pipe_def ret_def)

lemma open_inode_ok:
  assumes o: "open_inode path w md s = Some (r, h)" and ok: "files_ok s"
  shows "files_ok (s\<lparr>f_heap := h\<rparr>)" and "r = Inr i \<Longrightarrow> live h i"
proof -
  note inv = files_ok_fs [OF ok]
  have new: "kept (f_heap s) h' \<and> live h' i"
    if "resolve (f_vfs s) (f_heap s) path' c = Some (Inr d)" "create d name KFile (simple u g m KFile) (f_heap s) = (Inr i, h')"
    for path' c d name u g m i h'
  proof -
    have d: "live (f_heap s) d" using resolve_live [OF inv that(1)] .
    have hp: "heap_ok (f_heap s)" "no_garbage (f_heap s)" using inv by (auto simp: fs_inv_def)
    show ?thesis using hp(1) heap_okD(1) [OF hp(1) d] that(2)
    proof (rule create_cases)
      assume *: "Inr i = Inr (next_ino (f_heap s))" "heap_ok h'" "grown (f_heap s) h'" "next_ino h' = Suc (next_ino (f_heap s))"
        "pins h' = pins (f_heap s)" "live h' (next_ino (f_heap s))"
        "\<And>d' x. lookup h' d' x = (if d' = next_ino (f_heap s) then (if KFile = KDir then Inl NotFound else Inl Invalid)
          else if d' = d \<and> x = name then Inr (next_ino (f_heap s)) else lookup (f_heap s) d' x)"
      have "lookup h' d name = Inr (next_ino (f_heap s))" using * (7) [of d name] heap_okD(1) [OF hp(1) d] by simp
      then have "no_garbage h'" using grown_no_garbage [OF *(3) hp(1) *(2) hp(2) *(4,5) d] by blast
      then show ?thesis using * by (simp add: kept_def)
    qed simp_all
  qed
  have err: "h' = f_heap s" if "create d name KFile m (f_heap s) = (Inl e, h')" for d name m e h'
    using that by (auto simp: create_def add_inode_def split: if_splits sum.splits prod.splits option.splits)
  show "files_ok (s\<lparr>f_heap := h\<rparr>)"
    using o ok files_ok_kept [OF ok] new err
    by (fastforce simp: open_inode_def split: bind_splits sum.splits KError.splits if_splits prod.splits)
  show "live h i" if "r = Inr i"
    using o that new resolve_live [OF inv]
    by (fastforce simp: open_inode_def split: bind_splits sum.splits KError.splits if_splits prod.splits)
qed

text \<open>What a call of open that returns a descriptor has done.\<close>

lemma sys_open_cases:
  assumes r: "sys_open pathname flags md s = Some (r, s')"
  obtains (err) x where "r = Return x" "s' = s"
  | (made) path i h x where "open_inode path (open_bits flags) md s = Some (i, h)" "r = Return x" "s' = s\<lparr>f_heap := h\<rparr>"
  | (opened) path i h t fd t' h' e where "read_user_string (f_mem s) pathname 1024 = Some path"
      "open_inode path (open_bits flags) md s = Some (Inr i, h)" "f_table s = Some t" "fd_alloc t = Some (fd, t')" "r = Return fd"
      "open_allowed (open_bits flags) (metadata h i) (f_cred s) = Some True"
      "h' = h \<or> (\<exists>x. truncate_file i 0 h = (x, h'))" "e = (if kind_of h i = KDir then FdDir i 0 else FdFile i 0 (open_bits flags))"
      "s' = fd_insert fd e t' (s\<lparr>f_heap := h'\<rparr>)"
proof (cases "read_user_string (f_mem s) pathname 1024")
  case None
  then show thesis using r err by (auto simp: sys_open_def ret_def)
next
  case path: (Some path)
  show thesis
  proof (cases "open_inode path (open_bits flags) md s")
    case None
    then show thesis using r path by (simp add: sys_open_def Let_def)
  next
    case (Some a)
    obtain q h where a: "a = (q, h)" by (cases a)
    show thesis
    proof (cases q)
      case (Inl x)
      then have "r = Return x" "s' = s\<lparr>f_heap := h\<rparr>" using r path Some a by (auto simp: sys_open_def Let_def ret_def)
      then show thesis using Some a made by blast
    next
      case (Inr i)
      define h' where "h' = (if kind_of h i \<noteq> KDir \<and> has_flag (open_bits flags) O_TRUNC then snd (truncate_file i 0 h) else h)"
      have h': "h' = h \<or> (\<exists>x. truncate_file i 0 h = (x, h'))" by (auto simp: h'_def prod_eq_iff)
      let ?e = "if kind_of h i = KDir then FdDir i 0 else FdFile i 0 (open_bits flags)"
      consider (bad) y where "r = Return y" "s' = s\<lparr>f_heap := h\<rparr>"
        | (good) t fd t' where "f_table s = Some t" "fd_alloc t = Some (fd, t')" "r = Return fd"
            "open_allowed (open_bits flags) (metadata h i) (f_cred s) = Some True" "s' = fd_insert fd ?e t' (s\<lparr>f_heap := h'\<rparr>)"
        using r path Some a Inr by (auto simp: sys_open_def Let_def ret_def h'_def split: if_splits bind_splits option.splits)
      then show thesis
      proof cases
        case bad
        then show thesis using Some a made by blast
      next
        case good
        show thesis by (rule opened [OF path _ good(1-4) h' refl good(5)]) (use Some a Inr in simp)
      qed
    qed
  qed
qed

lemma sys_open_ok:
  assumes r: "sys_open pathname flags md s = Some (r, s')" and ok: "files_ok s"
  shows "files_ok s'"
  using r
proof (cases rule: sys_open_cases)
  case (opened path i h t fd t' h' e)
  have h: "files_ok (s\<lparr>f_heap := h\<rparr>)" "live h i" using open_inode_ok [OF opened(2) ok] by auto
  have tr: "same_tree h h' \<and> heap_ok h'"
    using opened(7) truncate_tree [of i 0 h] files_ok_fs [OF h(1)] by (auto simp: fs_inv_def)
  have h': "files_ok (s\<lparr>f_heap := h'\<rparr>)" using files_ok_tree [OF h(1), of h'] tr by simp
  then have t: "table_ok t" "pipes_ok (entries_of t) (s\<lparr>f_heap := h'\<rparr>)" "inodes_ok (entries_of t) (s\<lparr>f_heap := h'\<rparr>)"
    using opened(3) by (auto simp: files_ok_def)
  show ?thesis unfolding opened(9)
  proof (rule insert_new [OF t(1) opened(4) t(3)])
    show "live (f_heap (s\<lparr>f_heap := h'\<rparr>)) j" if "inode_of e = Some j" for j
      using that h(2) tr by (auto simp: opened(8) same_tree_def split: if_splits)
    show "pipes_ok (add_mset e (entries_of t)) (s\<lparr>f_heap := h'\<rparr>)"
      using t(2) by (auto simp: pipes_ok_def opened(8))
  qed
qed (use ok open_inode_ok(1) [OF _ ok] in auto)

subsection \<open>Runs\<close>

datatype FdCall = CRead int nat nat | CWrite int nat nat | COpen nat u32 u32 | CClose int | CPipe nat | CDup int | CDup2 int int
  | CFcntl int int nat | CLseek int int int | CEventfd nat u32 | CTruncate nat int | CFtruncate int int

fun fd_call :: "'n NetOps \<Rightarrow> FdCall \<Rightarrow> 'n Files \<Rightarrow> 'n result" where
  "fd_call net (CRead fd buf n) s = sys_read net fd buf n s"
| "fd_call net (CWrite fd buf n) s = sys_write net fd buf n s"
| "fd_call net (COpen path flags md) s = sys_open path flags md s"
| "fd_call net (CClose fd) s = sys_close net fd s"
| "fd_call net (CPipe pipefd) s = sys_pipe pipefd s"
| "fd_call net (CDup fd) s = sys_dup fd s"
| "fd_call net (CDup2 oldfd newfd) s = sys_dup2 oldfd newfd s"
| "fd_call net (CFcntl fd cmd arg) s = sys_fcntl fd cmd arg s"
| "fd_call net (CLseek fd off whence) s = sys_lseek fd off whence s"
| "fd_call net (CEventfd v w) s = sys_eventfd v w s"
| "fd_call net (CTruncate path len) s = sys_truncate path len s"
| "fd_call net (CFtruncate fd len) s = sys_ftruncate fd len s"

text \<open>The calls that put a duplicate only at a number that was handed out before.\<close>

fun low_target :: "FdCall \<Rightarrow> 'n Files \<Rightarrow> bool" where
  "low_target (CDup2 oldfd newfd) s \<longleftrightarrow> - (2 ^ 31) \<le> newfd \<and> (\<forall>t. f_table s = Some t \<longrightarrow> newfd < next_fd t)"
| "low_target (CFcntl fd cmd arg) s \<longleftrightarrow> cmd = 0 \<or> cmd = 1030 \<longrightarrow>
     (\<forall>t k. f_table s = Some t \<longrightarrow> lowest_fd t (wrap_i32 (int arg)) = Some (Some k) \<longrightarrow> k < next_fd t)"
| "low_target _ s \<longleftrightarrow> True"

lemma fd_call_ok:
  assumes "fd_call net c s = Some (r, s')" and "files_ok s" and "low_target c s"
  shows "files_ok s'"
  using assms
  by (cases c)
    (auto intro: sys_read_ok sys_write_ok sys_open_ok sys_close_ok sys_pipe_ok sys_dup_ok sys_lseek_ok sys_eventfd_ok
      sys_truncate_ok sys_ftruncate_ok dest: sys_dup2_ok sys_fcntl_ok)

text \<open>The states that the calls reach from the boot, while other calls change the files by path, and the environment the memory of
  the program, its identity, its input and its signals.\<close>

inductive fd_reach :: "'n NetOps \<Rightarrow> 'n Files \<Rightarrow> bool" for net where
  boot: "fs_reach (f_vfs s) (f_heap s) \<Longrightarrow> f_table s = Some fd_table_new \<Longrightarrow> f_pipes s = [] \<Longrightarrow> f_events s = [] \<Longrightarrow> fd_reach net s"
| call: "fd_reach net s \<Longrightarrow> fd_call net c s = Some (r, s') \<Longrightarrow> low_target c s \<Longrightarrow> fd_reach net s'"
| path: "fd_reach net s \<Longrightarrow> vfs_op p (f_vfs s) c (f_heap s) = Some h \<Longrightarrow> fd_reach net (s\<lparr>f_heap := h\<rparr>)"
| user: "fd_reach net s \<Longrightarrow> fd_reach net (s\<lparr>f_mem := m, f_cred := c, f_input := bs, f_sig := g, f_pid := k\<rparr>)"

lemma fd_reach_ok: "fd_reach net s \<Longrightarrow> files_ok s"
proof (induction rule: fd_reach.induct)
  case (boot s)
  have "inodes_ok (entries_of fd_table_new) s"
    using fs_reach_inv [OF boot(1)] by (simp add: inodes_ok_def fs_inv_held entries_of_def fd_table_new_def inodes_def)
  moreover have "pipes_ok (entries_of fd_table_new) s" using boot by (auto simp: pipes_ok_def entries_of_def fd_table_new_def)
  ultimately show ?case using boot(2) by (intro files_okI) (auto simp: table_ok_def fd_table_new_def)
next
  case (call s c r s')
  then show ?case using fd_call_ok by blast
next
  case (path s p c h)
  then show ?case using vfs_op_kept [OF files_ok_fs] files_ok_kept by blast
qed simp

subsection \<open>Reading and writing through descriptors\<close>

lemma with_entry_eq: "f_table s = Some t \<Longrightarrow> fd_get fd t = Some e \<Longrightarrow> with_entry fd s f = f t e"
  by (simp add: with_entry_def)

lemma user_range_bound: "is_user_range a n \<Longrightarrow> 0 < n \<and> n \<le> 2 ^ 47"
  by (simp add: is_user_range_iff USER_SPACE_END_def)

lemma count_card:
  assumes "distinct (map fst xs)"
  shows "Multiset.count (mset (map snd xs)) e = card {k. map_of xs k = Some e}"
proof -
  have "{k. map_of xs k = Some e} = fst ` set (filter (\<lambda>x. snd x = e) xs)"
    using assms by (force simp: image_iff)
  moreover have "distinct (map fst (filter (\<lambda>x. snd x = e) xs))" using assms by (simp add: distinct_map_filter)
  then have "card (fst ` set (filter (\<lambda>x. snd x = e) xs)) = length (filter (\<lambda>x. snd x = e) xs)"
    using distinct_card [of "map fst (filter (\<lambda>x. snd x = e) xs)"] by simp
  moreover have "Multiset.count (mset (map snd xs)) e = length (filter (\<lambda>x. snd x = e) xs)"
    by (induction xs) auto
  ultimately show ?thesis by simp
qed

definition ends :: "FdType \<Rightarrow> FdTable \<Rightarrow> int set" where
  "ends e t = {fd. fd_get fd t = Some e}"

lemma entries_ends: "table_ok t \<Longrightarrow> Multiset.count (entries_of t) e = card (ends e t)"
  using count_card [of "fds t" e] by (simp add: entries_of_def ends_def fd_get_def table_ok_def)

lemma finite_ends: "finite (ends e t)"
proof (rule finite_subset)
  show "ends e t \<subseteq> fst ` set (fds t)" by (force simp: ends_def fd_get_def dest: map_of_SomeD)
qed simp

lemma pipe_at:
  assumes "files_ok s" "f_table s = Some t" "fd_get fd t = Some e" "e = PipeRead p \<or> e = PipeWrite p"
  shows "p < length (f_pipes s)" "pipe_inv (f_pipes s ! p)" "table_ok t"
    "readers (f_pipes s ! p) = card (ends (PipeRead p) t)" "writers (f_pipes s ! p) = card (ends (PipeWrite p) t)"
proof -
  have a: "at_entry fd t e s" using assms(1-3) by (auto simp: at_entry_def files_ok_def)
  show p: "p < length (f_pipes s)" "pipe_inv (f_pipes s ! p)" using at_pipe [OF a assms(4)] by auto
  show t: "table_ok t" using at_entryD(2) [OF a] .
  show "readers (f_pipes s ! p) = card (ends (PipeRead p) t)" "writers (f_pipes s ! p) = card (ends (PipeWrite p) t)"
    using at_entryD(3) [OF a] p(1) entries_ends [OF t] by (auto simp: pipes_ok_def)
qed

lemma write_pipe_eq:
  assumes s: "files_ok s" "f_table s = Some t" "fd_get fd t = Some (PipeWrite p)" and n: "is_user_range buf n"
    and r: "ends (PipeRead p) t \<noteq> {}"
  obtains q where "sys_write net fd buf n s = Some (Return (int (min n (4096 - length (contents (f_pipes s ! p))))), upd_pipe p (\<lambda>_. q) s)"
    "contents q = contents (f_pipes s ! p) @ take (4096 - length (contents (f_pipes s ! p))) (mem_read (f_mem s) buf n)"
    "readers q = readers (f_pipes s ! p)" "writers q = writers (f_pipes s ! p)" "pipe_inv q"
proof -
  note d = pipe_at [OF s, of p, simplified]
  have "has_readers (f_pipes s ! p)" using d(4) r finite_ends [of "PipeRead p" t] by (simp add: has_readers_def card_gt_0_iff)
  moreover obtain k q where q: "pipe_write (mem_read (f_mem s) buf n) (f_pipes s ! p) = Some (k, q)"
    "k = min n (4096 - length (contents (f_pipes s ! p)))" "pipe_inv q"
    "contents q = contents (f_pipes s ! p) @ take k (mem_read (f_mem s) buf n)"
    "readers q = readers (f_pipes s ! p)" "writers q = writers (f_pipes s ! p)"
    using pipe_write_refines [OF d(2), of "mem_read (f_mem s) buf n"] calculation by (auto simp: PIPE_BUF_SIZE_def)
  moreover have "take k (mem_read (f_mem s) buf n) = take (4096 - length (contents (f_pipes s ! p))) (mem_read (f_mem s) buf n)"
    using q(2) by (simp add: min_def)
  ultimately show thesis
    using that [of q] user_range_bound [OF n] n by (simp add: sys_write_def with_entry_eq [OF s(2,3)] ret_def)
qed

lemma read_pipe_eq:
  assumes s: "files_ok s" "f_table s = Some t" "fd_get fd t = Some (PipeRead p)" and n: "is_user_range buf n"
    and c: "contents (f_pipes s ! p) \<noteq> []"
  obtains q where "sys_read net fd buf n s = Some (Return (int (min n (length (contents (f_pipes s ! p))))),
      upd_pipe p (\<lambda>_. q) (s\<lparr>f_mem := mem_write buf (take n (contents (f_pipes s ! p))) (f_mem s)\<rparr>))"
    "contents q = drop n (contents (f_pipes s ! p))"
proof -
  note d = pipe_at [OF s, of p, simplified]
  obtain q where q: "pipe_read (replicate n 0) (f_pipes s ! p) =
      Some (min n (length (contents (f_pipes s ! p))), take n (contents (f_pipes s ! p)) @ drop (length (contents (f_pipes s ! p))) (replicate n 0), q)"
    "contents q = drop n (contents (f_pipes s ! p))"
    using pipe_read_refines [OF d(2), of "replicate n 0"] by auto
  have "\<not> pipe_is_empty (f_pipes s ! p)"
    using c by (auto simp: pipe_is_empty_def buffer_is_empty_def contents_def ring_def)
  moreover have "take (min n (length (contents (f_pipes s ! p)))) (take n (contents (f_pipes s ! p)) @ drop (length (contents (f_pipes s ! p))) (replicate n 0))
      = take n (contents (f_pipes s ! p))" by (auto simp: min_def)
  ultimately show thesis
    using that [of q] q user_range_bound [OF n] n by (simp add: sys_read_def with_entry_eq [OF s(2,3)] ret_def)
qed

lemma file_open:
  assumes "files_ok s" "f_table s = Some t" "fd_get fd t = Some (FdFile i off w)"
  shows "table_ok t" "live (f_heap s) i" "heap_ok (f_heap s)"
proof -
  have "at_entry fd t (FdFile i off w) s" using assms by (auto simp: at_entry_def files_ok_def)
  note d = at_entryD [OF this]
  show "table_ok t" "live (f_heap s) i" "heap_ok (f_heap s)"
    using d(2) inodes_live [OF d(4,7), of i] d(4) by (auto simp: inodes_ok_def)
qed

lemma fd_map_put: "map_of (fd_put k e xs) fd = (if fd = k then Some e else map_of xs fd)"
  by (induction xs) (auto simp: fd_put_def)

lemma get_put [simp]: "fd_get fd (t\<lparr>fds := fd_put fd e xs\<rparr>) = Some e"
  by (simp add: fd_get_def fd_map_put)

lemma write_file_eq:
  assumes s: "f_table s = Some t" "fd_get fd t = Some (FdFile i off w)" and d: "file_bytes (f_heap s) i = Some d"
    and w: "pos = (if has_flag w O_APPEND then length d else off)" "pos + n < 2 ^ 63" and n: "is_user_range buf n"
  shows "sys_write net fd buf n s = Some (Return (int n), set_entry t fd (FdFile i (pos + n) w)
      (s\<lparr>f_heap := set_node i (TFile (overlay pos (mem_read (f_mem s) buf n) d)) (f_heap s)\<rparr>))"
proof -
  have u: "pos + n \<le> U64_MAX" "add64 pos n = Some (pos + n)" "wrap_i64 (int n) = int n"
    using w(2) by (auto simp: U64_MAX_def add64_def wrap_i64_def)
  have "size_of (f_heap s) i = Inr (length d)" using d by (auto simp: file_bytes_Some size_of_def as_fifo_def as_file_def)
  then have pos: "write_position i off w (f_heap s) = pos" by (simp add: write_position_def w(1))
  have "write_at i pos (mem_read (f_mem s) buf n) (f_heap s) =
      Some (Inr n, set_node i (TFile (overlay pos (mem_read (f_mem s) buf n) d)) (f_heap s))"
    using write_at_file [of "f_heap s" i d pos "mem_read (f_mem s) buf n"] d u(1) by (simp add: file_bytes_Some)
  then show ?thesis using user_range_bound [OF n] n pos u
    by (simp add: sys_write_def with_entry_eq [OF s] ret_def Let_def)
qed

lemma read_file_eq:
  assumes s: "f_table s = Some t" "fd_get fd t = Some (FdFile i off w)" and d: "file_bytes (f_heap s) i = Some d"
    and l: "off + n \<le> length d" "off + n < 2 ^ 63" and n: "is_user_range buf n"
  shows "sys_read net fd buf n s = Some (Return (int n), set_entry t fd (FdFile i (off + n) w)
      (s\<lparr>f_heap := f_heap s, f_mem := mem_write buf (take n (drop off d)) (f_mem s)\<rparr>))"
proof -
  have u: "add64 off n = Some (off + n)" "wrap_i64 (int n) = int n"
    using l(2) by (auto simp: U64_MAX_def add64_def wrap_i64_def)
  have "read_at i off (replicate n 0) (f_heap s) = Some (Inr n, take n (drop off d) @ drop n (replicate n 0), f_heap s)"
    using tmpfs.rd [OF d, of off "replicate n 0"] l(1) by (simp add: Let_def)
  then show ?thesis using user_range_bound [OF n] n l(1) u
    by (simp add: sys_read_def with_entry_eq [OF s] ret_def)
qed

subsection \<open>Properties\<close>

text \<open>C12. In every state that calls on descriptors, paths and programs reach, as long as duplicates are put at numbers that were handed
  out before, the counters of every pipe are the numbers of its open read and write ends, and the inode of every open file or
  directory is alive, also when its name has been removed.\<close>

theorem open_files_counted:
  assumes "fd_reach net s"
  shows "\<exists>t. f_table s = Some t \<and> distinct (map fst (fds t))
    \<and> (\<forall>p < length (f_pipes s). readers (f_pipes s ! p) = card {fd. fd_get fd t = Some (PipeRead p)}
         \<and> writers (f_pipes s ! p) = card {fd. fd_get fd t = Some (PipeWrite p)})
    \<and> (\<forall>fd e i. fd_get fd t = Some e \<and> inode_of e = Some i \<longrightarrow> live (f_heap s) i)"
proof -
  obtain t where t: "f_table s = Some t" "table_ok t" "pipes_ok (entries_of t) s" "inodes_ok (entries_of t) s"
    using fd_reach_ok [OF assms] by (rule files_okE)
  have "live (f_heap s) i" if "fd_get fd t = Some e" "inode_of e = Some i" for fd e i
    using inodes_live [OF t(4) get_entry [OF that(1)] that(2)] .
  then show ?thesis using t entries_ends [OF t(2)] by (auto simp: pipes_ok_def table_ok_def ends_def)
qed

text \<open>A write to a pipe fails with \<open>EPIPE\<close> and the signal \<open>SIGPIPE\<close> exactly when no descriptor of its read end is open;
  otherwise it takes as many bytes of the program's buffer as fit into the 4096 bytes of the pipe, and closes nothing.\<close>

theorem pipe_write_needs_reader:
  assumes "fd_reach net s" and "f_table s = Some t" and "fd_get fd t = Some (PipeWrite p)" and "is_user_range buf n"
  shows "if \<exists>rfd. fd_get rfd t = Some (PipeRead p)
    then \<exists>s'. sys_write net fd buf n s = Some (Return (int (min n (4096 - length (contents (f_pipes s ! p))))), s')
      \<and> contents (f_pipes s' ! p) = contents (f_pipes s ! p) @ take (4096 - length (contents (f_pipes s ! p))) (mem_read (f_mem s) buf n)
      \<and> f_table s' = Some t
    else sys_write net fd buf n s = Some (Return EPIPE, s\<lparr>f_sig := ss_send SIGPIPE (f_sig s)\<rparr>)"
proof (cases "\<exists>rfd. fd_get rfd t = Some (PipeRead p)")
  case True
  then have "ends (PipeRead p) t \<noteq> {}" by (auto simp: ends_def)
  then obtain q where "sys_write net fd buf n s = Some (Return (int (min n (4096 - length (contents (f_pipes s ! p))))), upd_pipe p (\<lambda>_. q) s)"
    "contents q = contents (f_pipes s ! p) @ take (4096 - length (contents (f_pipes s ! p))) (mem_read (f_mem s) buf n)"
    using write_pipe_eq [OF fd_reach_ok [OF assms(1)] assms(2-4)] by metis
  then show ?thesis using True pipe_at(1) [OF fd_reach_ok [OF assms(1)] assms(2,3), of p] assms(2) by simp
next
  case False
  then have "readers (f_pipes s ! p) = 0"
    using pipe_at(4) [OF fd_reach_ok [OF assms(1)] assms(2,3), of p] by (simp add: ends_def)
  then show ?thesis using False user_range_bound [OF assms(4)] assms(4)
    by (simp add: sys_write_def with_entry_eq [OF assms(2,3)] has_readers_def ret_def)
qed

text \<open>C19. What a program writes to one end of an empty pipe is what is read at the other end: a write of \<open>n\<close> bytes takes the first 4096 of
  them at most, a read of \<open>n\<close> bytes into any buffer returns exactly these, unchanged from user memory to user memory, and the pipe is
  empty again.  The states are those that calls on descriptors, paths and programs reach, as long as duplicates are put at
  numbers that were handed out before.\<close>

theorem pipe_descriptor_roundtrip:
  assumes "fd_reach net s" and "f_table s = Some t" and "fd_get wfd t = Some (PipeWrite p)" and "fd_get rfd t = Some (PipeRead p)"
    and "contents (f_pipes s ! p) = []" and "is_user_range a n" and "is_user_range b n" and "k = min n 4096"
  shows "\<exists>s1 s2. sys_write net wfd a n s = Some (Return (int k), s1) \<and> sys_read net rfd b n s1 = Some (Return (int k), s2)
    \<and> f_mem s2 = mem_write b (mem_read (f_mem s) a k) (f_mem s) \<and> mem_read (f_mem s2) b k = mem_read (f_mem s) a k
    \<and> contents (f_pipes s2 ! p) = []"
proof -
  note ok = fd_reach_ok [OF assms(1)]
  have p: "p < length (f_pipes s)" using pipe_at(1) [OF ok assms(2,3), of p] by simp
  have tk: "take 4096 (mem_read (f_mem s) a n) = mem_read (f_mem s) a k" using assms(8) by (cases "n \<le> 4096") (auto simp: mem_read_def take_map take_upt min_def)
  have "ends (PipeRead p) t \<noteq> {}" using assms(4) by (auto simp: ends_def)
  then obtain q where q: "sys_write net wfd a n s = Some (Return (int k), upd_pipe p (\<lambda>_. q) s)" "contents q = mem_read (f_mem s) a k"
    using write_pipe_eq [OF ok assms(2,3,6)] assms(5,8) tk by (metis append_Nil diff_zero list.size(3))
  let ?s1 = "upd_pipe p (\<lambda>_. q) s"
  have s1: "files_ok ?s1" "f_table ?s1 = Some t" "contents (f_pipes ?s1 ! p) = mem_read (f_mem s) a k"
    using sys_write_ok [OF q(1) ok] assms(2) q(2) p by simp_all
  have k: "0 < k" "k \<le> n" using user_range_bound [OF assms(6)] assms(8) by auto
  then have "contents (f_pipes ?s1 ! p) \<noteq> []" using s1(3) by (auto simp flip: length_0_conv)
  then obtain q' where "sys_read net rfd b n ?s1 = Some (Return (int (min n (length (contents (f_pipes ?s1 ! p))))),
      upd_pipe p (\<lambda>_. q') (?s1\<lparr>f_mem := mem_write b (take n (contents (f_pipes ?s1 ! p))) (f_mem ?s1)\<rparr>))" "contents q' = drop n (contents (f_pipes ?s1 ! p))"
    by (rule read_pipe_eq [OF s1(1,2) assms(4,7)])
  then show ?thesis using q(1) s1(3) p k mem_read_write_same [of b "mem_read (f_mem s) a k"] by auto
qed

text \<open>C21. What a program writes to an open file is what it reads back after seeking to where the write began, into any buffer of the
  same size: the offset of the descriptor, or the end of the file when it was opened to append.  The file holds the bytes at that place,
  and no other file changes.  The end of the write has to lie below 2 to the 63.\<close>

theorem file_descriptor_roundtrip:
  assumes "f_table s = Some t" and "fd_get fd t = Some (FdFile i off w)" and "file_bytes (f_heap s) i = Some d"
    and "pos = (if has_flag w O_APPEND then length d else off)" and "pos + n < 2 ^ 63" and "is_user_range a n" and "is_user_range b n"
  shows "\<exists>s1 s2 s3. sys_write net fd a n s = Some (Return (int n), s1) \<and> sys_lseek fd (int pos) 0 s1 = Some (Return (int pos), s2)
    \<and> sys_read net fd b n s2 = Some (Return (int n), s3) \<and> mem_read (f_mem s3) b n = mem_read (f_mem s) a n
    \<and> file_bytes (f_heap s3) = (file_bytes (f_heap s))(i \<mapsto> overlay pos (mem_read (f_mem s) a n) d)"
proof -
  let ?x = "mem_read (f_mem s) a n"
  let ?h = "set_node i (TFile (overlay pos ?x d)) (f_heap s)"
  let ?t1 = "t\<lparr>fds := fd_put fd (FdFile i (pos + n) w) (fds t)\<rparr>"
  define s1 where "s1 = set_entry t fd (FdFile i (pos + n) w) (s\<lparr>f_heap := ?h\<rparr>)"
  define s2 where "s2 = set_entry ?t1 fd (FdFile i pos w) s1"
  have w: "sys_write net fd a n s = Some (Return (int n), s1)"
    unfolding s1_def by (rule write_file_eq [OF assms(1-6)])
  have "f_table s1 = Some ?t1" by (simp add: s1_def)
  then have "sys_lseek fd (int pos) 0 s1 = Some (Return (int pos), s2)"
    by (simp add: sys_lseek_def with_entry_eq [of s1 ?t1 fd, OF _ get_put] s2_def ret_def Let_def)
  moreover have h2: "f_heap s2 = ?h" "f_mem s2 = f_mem s" by (simp_all add: s2_def s1_def)
  moreover have fb: "file_bytes ?h = (file_bytes (f_heap s))(i \<mapsto> overlay pos ?x d)" by simp
  moreover have tr: "take n (drop pos (overlay pos ?x d)) = ?x"
    using take_drop_overlay [of ?x pos d] by simp
  moreover have "sys_read net fd b n s2 = Some (Return (int n), set_entry (?t1\<lparr>fds := fd_put fd (FdFile i pos w) (fds ?t1)\<rparr>) fd (FdFile i (pos + n) w)
      (s2\<lparr>f_heap := f_heap s2, f_mem := mem_write b (take n (drop pos (overlay pos ?x d))) (f_mem s2)\<rparr>))"
  proof (rule read_file_eq [OF _ _ _ _ assms(5,7)])
    show "f_table s2 = Some (?t1\<lparr>fds := fd_put fd (FdFile i pos w) (fds ?t1)\<rparr>)" by (simp add: s2_def)
    show "file_bytes (f_heap s2) i = Some (overlay pos ?x d)" using h2 fb by simp
    show "pos + n \<le> length (overlay pos ?x d)" by simp
  qed simp
  ultimately show ?thesis using w mem_read_write_same [of b ?x "f_mem s"] by auto
qed

text \<open>C40. The call \<open>write\<close> does not look at the access mode of a descriptor, which only \<open>open\<close> and \<open>ftruncate\<close> do, and \<open>open\<close>
  skips its checks for the mode 3: a program that may read a file, or that may not even do that but opens it with the mode 3, can write
  to it.\<close>

theorem read_only_descriptor_writes:
  assumes "fd_reach net s" and "f_table s = Some t" and "next_fd t < 2 ^ 31 - 1"
    and "read_user_string (f_mem s) pathname 1024 = Some path" and "resolve (f_vfs s) (f_heap s) path (f_cred s) = Some (Inr i)"
    and "file_bytes (f_heap s) i = Some d" and "flags = 3 \<or> flags = 0 \<and> can_read_file (metadata (f_heap s) i) (f_cred s) = Some True"
    and "is_user_range buf n"
  shows "\<exists>s1 s2. sys_open pathname flags md s = Some (Return (next_fd t), s1) \<and> sys_write net (next_fd t) buf n s1 = Some (Return (int n), s2)
    \<and> file_bytes (f_heap s2) i = Some (mem_read (f_mem s) buf n @ drop n d)"
proof -
  note ok = fd_reach_ok [OF assms(1)]
  have t: "table_ok t" using ok assms(2) by (auto simp: files_ok_def)
  have hp: "heap_ok (f_heap s)" and l: "live (f_heap s) i"
    using files_ok_fs [OF ok] resolve_live [OF files_ok_fs [OF ok] assms(5)] by (auto simp: fs_inv_def)
  have k: "kind_of (f_heap s) i = KFile"
    using heap_ok_kind [OF hp heap_okD(1) [OF hp l]] assms(6) by (simp add: file_bytes_Some)
  let ?t = "t\<lparr>next_fd := next_fd t + 1\<rparr>" and ?fd = "next_fd t"
  have a: "fd_alloc t = Some (?fd, ?t)" using assms(3) by (simp add: fd_alloc_def)
  have w: "open_bits flags = flags" "\<not> has_flag flags O_CREAT" "\<not> has_flag flags O_DIRECTORY" "\<not> has_flag flags O_TRUNC" "\<not> has_flag flags O_APPEND"
    using assms(7) by (auto simp: open_bits_def has_flag_def open_flags)
  define s1 where "s1 = fd_insert ?fd (FdFile i 0 flags) ?t s"
  have "open_allowed flags (metadata (f_heap s) i) (f_cred s) = Some True"
    using assms(7) k by (auto simp: open_allowed_def kind_of_def)
  then have o: "sys_open pathname flags md s = Some (Return ?fd, s1)"
    using assms(2,4,5) a w k by (simp add: sys_open_def open_inode_def Let_def ret_def s1_def)
  have "fd_get ?fd ?t = None" using alloc_cases(6) [OF a t] .
  then have h1: "f_heap s1 = (f_heap s)\<lparr>pins := i # pins (f_heap s)\<rparr>" "f_mem s1 = f_mem s"
    "f_table s1 = Some (?t\<lparr>fds := fd_put ?fd (FdFile i 0 flags) (fds ?t)\<rparr>)"
    by (simp_all add: s1_def fd_insert_def drop_entry_def Let_def)
  have d1: "file_bytes (f_heap s1) i = Some d" using assms(6) h1(1) by (simp add: file_bytes_def)
  have pos: "(0 :: nat) = (if has_flag flags O_APPEND then length d else 0)" using w(5) by simp
  have "0 + n < 2 ^ 63" using user_range_bound [OF assms(8)] by simp
  from write_file_eq [OF h1(3) get_put d1 pos this assms(8), of net]
  show ?thesis using o h1(2) by (simp add: overlay_def)
qed

text \<open>\<open>dup2\<close> to the number that comes next does not reserve it: the next call that needs a descriptor gets the same number, the
  duplicate is replaced without being closed, and the pipe counts a writer for which there is no descriptor.\<close>

theorem dup2_number_is_reused:
  assumes "fd_reach net s" and "f_table s = Some t" and "next_fd t < 2 ^ 31 - 1"
    and "fd_get wfd t = Some (PipeWrite p)" and "fd_get 0 t = Some FdConsole"
  shows "\<exists>s1 s2 t2. sys_dup2 wfd (next_fd t) s = Some (Return (next_fd t), s1) \<and> sys_dup 0 s1 = Some (Return (next_fd t), s2)
    \<and> f_table s2 = Some t2 \<and> fd_get (next_fd t) t2 = Some FdConsole
    \<and> {fd. fd_get fd t2 = Some (PipeWrite p)} = {fd. fd_get fd t = Some (PipeWrite p)}
    \<and> writers (f_pipes s2 ! p) = card {fd. fd_get fd t = Some (PipeWrite p)} + 1"
proof -
  note ok = fd_reach_ok [OF assms(1)] and d = pipe_at [OF fd_reach_ok [OF assms(1)] assms(2,4), of p, simplified]
  let ?fd = "next_fd t" and ?s = "upd_pipe p add_writer s"
  have n: "fd_get ?fd t = None" "?fd \<noteq> wfd" "?fd \<noteq> 0"
  proof -
    show n: "fd_get ?fd t = None"
    proof (rule ccontr)
      assume "fd_get ?fd t \<noteq> None"
      then obtain e where "fd_get ?fd t = Some e" by blast
      from get_range [OF d(3) this] show False by simp
    qed
    show "?fd \<noteq> wfd" "?fd \<noteq> 0" using n assms(4,5) by auto
  qed
  let ?t1 = "t\<lparr>fds := fd_put ?fd (PipeWrite p) (fds t)\<rparr>"
  define s1 where "s1 = set_entry t ?fd (PipeWrite p) ?s"
  have 1: "sys_dup2 wfd ?fd s = Some (Return ?fd, s1)"
    using n by (simp add: sys_dup2_def with_entry_eq [OF assms(2,4)] Let_def ret_def s1_def insert_plain)
  let ?t2 = "?t1\<lparr>next_fd := ?fd + 1\<rparr>"
  define s2 where "s2 = fd_insert ?fd FdConsole ?t2 s1"
  have t1: "f_table s1 = Some ?t1" "fd_get 0 ?t1 = Some FdConsole"
    using assms(5) n(3) by (simp_all add: s1_def fd_get_def fd_map_put)
  have 2: "sys_dup 0 s1 = Some (Return ?fd, s2)"
    using assms(3) by (simp add: sys_dup_def with_entry_eq [OF t1] fd_alloc_def ret_def s2_def)
  have t2: "f_table s2 = Some (?t2\<lparr>fds := fd_put ?fd FdConsole (fds ?t2)\<rparr>)" by (simp add: s2_def)
  have "writers (f_pipes s2 ! p) = (card (ends (PipeWrite p) t) + 1) mod 2 ^ 64"
    using d(1,5) by (simp add: s2_def s1_def pipe_counts)
  moreover have "card (ends (PipeWrite p) t) \<le> 2 ^ 32"
    using count_bound [OF entries_bound [OF d(3)]] entries_ends [OF d(3)] by metis
  ultimately have "writers (f_pipes s2 ! p) = card {fd. fd_get fd t = Some (PipeWrite p)} + 1"
    by (simp add: ends_def)
  moreover have "{fd. fd_get fd (?t2\<lparr>fds := fd_put ?fd FdConsole (fds ?t2)\<rparr>) = Some (PipeWrite p)} = {fd. fd_get fd t = Some (PipeWrite p)}"
    using n(1) by (auto simp: fd_get_def fd_map_put split: if_splits)
  ultimately show ?thesis using 1 2 t2 by (intro exI [of _ s1] exI [of _ s2] exI [of _ "?t2\<lparr>fds := fd_put ?fd FdConsole (fds ?t2)\<rparr>"]) simp
qed

subsection \<open>Examples\<close>

text \<open>A fresh system with the path of a file at one address and some bytes at another.\<close>

definition demo_net :: "unit NetOps" where
  "demo_net = \<lparr>n_recv = (\<lambda>_ b w. (Inl NotSupported, b, w)), n_send = (\<lambda>_ _ w. (Inl NotSupported, w)), n_close = (\<lambda>_ w. w)\<rparr>"

definition demo_mem :: umem where
  "demo_mem a = (if a = 0x1000 then 47 else if a = 0x1001 then 103 else if 0x2000 \<le> a \<and> a < 0x2003 then 7 else 0)"

definition demo_files :: "Heap \<Rightarrow> Cred \<Rightarrow> unit Files" where
  "demo_files h c = \<lparr>f_table = Some fd_table_new, f_pipes = [], f_events = [], f_heap = h, f_vfs = demo_vfs, f_cred = c, f_mem = demo_mem,
     f_input = [], f_serial = [], f_sig = ss_new, f_pid = 1, f_foreground = 0, f_net = ()\<rparr>"

lemma demo_files_reach: "fs_reach demo_vfs h \<Longrightarrow> fd_reach demo_net (demo_files h c)"
  by (rule fd_reach.boot) (simp_all add: demo_files_def)

definition demo_piped :: "unit Files" where
  "demo_piped = snd (the (sys_pipe 0x3000 (demo_files demo_fresh cred_root)))"

lemma demo_pipe: "sys_pipe 0x3000 (demo_files demo_fresh cred_root) = Some (Return 0, demo_piped)"
  by (simp add: demo_piped_def demo_files_def sys_pipe_def fd_table_new_def fd_alloc_def ret_def Let_def)

lemma demo_piped_reach: "fd_reach demo_net demo_piped"
  by (rule fd_reach.call [OF demo_files_reach [OF demo_reach_fresh], of "CPipe 0x3000" cred_root]) (simp_all add: demo_pipe)

lemma demo_table_ok: "table_ok fd_table_new" "f_table (demo_files h c) = Some fd_table_new"
  by (auto simp: table_ok_def fd_table_new_def demo_files_def)

lemma demo_piped_simps:
  "f_table demo_piped = Some \<lparr>fds = (4, PipeWrite 0) # (3, PipeRead 0) # fds fd_table_new, next_fd = 5\<rparr>" "f_pipes demo_piped = [pipe_new]"
  using sys_pipe_eq(2,3) [OF demo_table_ok(2,1) demo_pipe] by (simp_all add: demo_files_def fd_table_new_def)

lemma demo_ranges: "is_user_range 0x2000 3" "is_user_range 0x4000 3"
  by (simp_all add: is_user_range_iff USER_SPACE_END_def)

theorem open_files_counted_witness:
  "\<exists>t. f_table demo_piped = Some t \<and> readers (f_pipes demo_piped ! 0) = card {fd. fd_get fd t = Some (PipeRead 0)} \<and> fd_get 3 t = Some (PipeRead 0)"
  using open_files_counted [OF demo_piped_reach] by (auto simp: demo_piped_simps fd_get_def)

theorem pipe_write_needs_reader_witness:
  "\<exists>s'. sys_write demo_net 4 0x2000 3 demo_piped = Some (Return 3, s') \<and> contents (f_pipes s' ! 0) = mem_read (f_mem demo_piped) 0x2000 3"
proof -
  have "\<exists>rfd. fd_get rfd \<lparr>fds = (4, PipeWrite 0) # (3, PipeRead 0) # fds fd_table_new, next_fd = 5\<rparr> = Some (PipeRead 0)"
    by (rule exI [of _ 3]) (simp add: fd_get_def)
  then show ?thesis
    using pipe_write_needs_reader [OF demo_piped_reach demo_piped_simps(1), where fd = 4 and p = 0 and buf = "0x2000" and n = 3] demo_ranges pipe_new_inv(2)
    by (auto simp: fd_get_def demo_piped_simps(2))
qed

theorem pipe_descriptor_roundtrip_witness:
  "\<exists>s1 s2. sys_write demo_net 4 0x2000 3 demo_piped = Some (Return 3, s1) \<and> sys_read demo_net 3 0x4000 3 s1 = Some (Return 3, s2)
     \<and> mem_read (f_mem s2) 0x4000 3 = mem_read (f_mem demo_piped) 0x2000 3"
  using pipe_descriptor_roundtrip [OF demo_piped_reach demo_piped_simps(1), where wfd = 4 and p = 0 and rfd = 3 and a = "0x2000" and n = 3 and b = "0x4000" and k = 3] demo_ranges pipe_new_inv(2)
  by (auto simp: fd_get_def demo_piped_simps(2))

text \<open>A descriptor that was opened to append, with an offset inside the file.\<close>

definition demo_opened :: "unit Files" where
  "demo_opened = (demo_files demo_tree cred_root)\<lparr>f_table := Some \<lparr>fds = [(3, FdFile 2 1 0x402)], next_fd = 4\<rparr>\<rparr>"

theorem file_descriptor_roundtrip_witness:
  "\<exists>s1 s2 s3. sys_write demo_net 3 0x2000 3 demo_opened = Some (Return 3, s1) \<and> sys_lseek 3 3 0 s1 = Some (Return 3, s2)
     \<and> sys_read demo_net 3 0x4000 3 s2 = Some (Return 3, s3) \<and> mem_read (f_mem s3) 0x4000 3 = mem_read (f_mem demo_opened) 0x2000 3"
proof -
  have d: "f_table demo_opened = Some \<lparr>fds = [(3, FdFile 2 1 0x402)], next_fd = 4\<rparr>" "file_bytes (f_heap demo_opened) 2 = Some [1, 2, 3]"
    by (simp_all add: demo_opened_def demo_files_def file_bytes_def demo_defs)
  have g: "fd_get 3 \<lparr>fds = [(3, FdFile 2 1 0x402)], next_fd = 4\<rparr> = Some (FdFile 2 1 0x402)" by (simp add: fd_get_def)
  have pos: "(3 :: nat) = (if has_flag 0x402 O_APPEND then length [1, 2, 3 :: u8] else 1)" by (simp add: has_flag_def open_flags)
  have "(3 :: nat) + 3 < 2 ^ 63" by simp
  from file_descriptor_roundtrip [OF d(1) g d(2) pos this, of "0x2000" "0x4000" demo_net] show ?thesis using demo_ranges by auto
qed

text \<open>A file of root that everybody may read.\<close>

definition demo_public :: Heap where
  "demo_public = \<lparr>node = (node empty_heap)(0 := demo_root [(''g'', 1)], 1 := (demo_text [1, 2, 3])\<lparr>ti_parent := Some 0\<rparr>),
     live = (\<lambda>i. i < 2), next_ino = 2, pins = [0]\<rparr>"

lemma demo_public_reach: "fs_reach demo_vfs demo_public"
proof -
  let ?h = "\<lparr>node = (node empty_heap)(0 := demo_root [(''g'', 1)], 1 := (demo_text [])\<lparr>ti_parent := Some 0\<rparr>),
     live = (\<lambda>i. i < 2), next_ino = 2, pins = [0]\<rparr>"
  have r: "resolve demo_vfs demo_fresh ''/'' cred_root = Some (Inr 0)" by (simp add: resolve_def demo_paths walk_step_def)
  have "create 0 ''g'' KFile (simple 0 0 0x1A4 KFile) demo_fresh = (Inr 1, ?h)"
    by (auto simp: create_def add_inode_def bad_name_def as_dir_def alloc_inode_def set_node_def put_node_def demo_defs fun_eq_iff)
  moreover have "lookup demo_fresh 0 ''g'' = Inl NotFound" by code_simp
  ultimately have "open_or_create 0 ''g'' cred_root 0x1A4 demo_fresh = (Inr 1, ?h)" by (simp add: open_or_create_def del: One_nat_def)
  moreover have "overwrite 1 cred_root [1, 2, 3] ?h = Some (Inr (), demo_public)"
    by (simp add: overwrite_def permitted_def qmh_def truncate_file_def as_file_def as_fifo_def resize_def write_at_def add64_def
      U64_MAX_def Let_def node_set_node demo_text_def set_node_def put_node_def demo_public_def)
  ultimately have "write_file demo_vfs ''/g'' cred_root 0x1A4 [1, 2, 3] demo_fresh = Some (Inr (), demo_public)"
    using r by (simp add: write_file_def qm_def qmh_def demo_paths resolved_def permitted_def del: One_nat_def)
  then show ?thesis
    by (intro fs_reach.op [OF demo_reach_fresh, of "WriteFile ''/g'' 0x1A4 [1, 2, 3]" cred_root]) simp
qed

lemma user_string_step:
  "0 < k \<Longrightarrow> user_string m a k acc = (if \<not> is_user_addr a then (if acc = [] then None else Some acc)
      else if m a = 0 then Some acc else user_string m (a + 1) (k - 1) (acc @ [char_of (unat (m a))]))"
  by (cases k) auto

lemma demo_path: "read_user_string demo_mem 0x1000 1024 = Some ''/g''"
proof -
  have "char_of (47 :: nat) = CHR ''/''" "char_of (103 :: nat) = CHR ''g''" by code_simp+
  then have "user_string demo_mem 0x1000 1024 [] = Some ''/g''"
    by (subst user_string_step, simp, subst user_string_step, simp, subst user_string_step, simp)
      (simp add: demo_mem_def is_user_addr_def USER_SPACE_END_def)
  then show ?thesis by (simp add: read_user_string_def is_user_addr_def is_user_range_iff USER_SPACE_END_def)
qed

theorem read_only_descriptor_writes_witness:
  "can_write_file (metadata demo_public 1) (cred_user 1000 1000) = Some False
   \<and> (\<exists>s1 s2. sys_open 0x1000 0 0 (demo_files demo_public (cred_user 1000 1000)) = Some (Return 3, s1)
        \<and> sys_write demo_net 3 0x2000 3 s1 = Some (Return 3, s2) \<and> file_bytes (f_heap s2) 1 = Some [7, 7, 7])"
proof -
  let ?c = "cred_user 1000 1000"
  have "resolve demo_vfs demo_public ''/g'' ?c = Some (Inr 1)" "can_read_file (metadata demo_public 1) ?c = Some True"
    and no: "can_write_file (metadata demo_public 1) ?c = Some False" by code_simp+
  moreover have "file_bytes demo_public 1 = Some [1, 2, 3]" by (simp add: file_bytes_def demo_public_def demo_text_def)
  moreover have "mem_read demo_mem 0x2000 3 = [7, 7, 7]" by (simp add: mem_read_def demo_mem_def upt_conv_Cons)
  ultimately show ?thesis
    using read_only_descriptor_writes [OF demo_files_reach [OF demo_public_reach, of ?c], where t = fd_table_new and pathname = "0x1000" and path = "''/g''" and i = 1 and d = "[1, 2, 3]" and flags = 0 and buf = "0x2000" and n = 3 and md = 0]
      demo_path demo_ranges by (simp add: demo_files_def fd_table_new_def)
qed

theorem dup2_number_is_reused_witness:
  "\<exists>s1 s2. sys_dup2 4 5 demo_piped = Some (Return 5, s1) \<and> sys_dup 0 s1 = Some (Return 5, s2) \<and> writers (f_pipes s2 ! 0) = 2"
proof -
  let ?t = "\<lparr>fds = (4, PipeWrite 0) # (3, PipeRead 0) # fds fd_table_new, next_fd = 5\<rparr>"
  have "fd_get 4 ?t = Some (PipeWrite 0)" "fd_get 0 ?t = Some FdConsole" by (simp_all add: fd_get_def fd_table_new_def)
  moreover have "{fd. fd_get fd ?t = Some (PipeWrite 0)} = {4}" by (auto simp: fd_get_def fd_table_new_def split: if_splits)
  ultimately show ?thesis
    using dup2_number_is_reused [OF demo_piped_reach demo_piped_simps(1), where wfd = 4 and p = 0] by auto
qed

end
