(* ===== verification/Futex.thy ===== *)
theory Futex
  imports Eventfd Signal
begin

text \<open>
  Futexes, \<^verbatim>\<open>kernel/src/syscall/mod.rs\<close>: the table of waiting tasks by address, and the operations wait, wake and requeue.

  A wait enters the task into the table (\<open>futex_start\<close>) and then polls: \<open>futex_round\<close> is one turn of its loop, which ends
  when the task is no longer in the table or its deadline has passed.  Other tasks run between the turns, so a run is a
  sequence of such steps (\<open>futex_reach\<close>).
\<close>

subsection \<open>The table\<close>

record FutexWaiter =
  w_task :: nat
  w_bits :: u32

type_synonym Waiters = "nat \<rightharpoonup> FutexWaiter list"

definition FUTEX_WAIT :: u32 where "FUTEX_WAIT = 0"
definition FUTEX_WAKE :: u32 where "FUTEX_WAKE = 1"
definition FUTEX_REQUEUE :: u32 where "FUTEX_REQUEUE = 3"
definition FUTEX_CMP_REQUEUE :: u32 where "FUTEX_CMP_REQUEUE = 4"
definition FUTEX_WAIT_BITSET :: u32 where "FUTEX_WAIT_BITSET = 9"
definition FUTEX_WAKE_BITSET :: u32 where "FUTEX_WAKE_BITSET = 10"
definition FUTEX_PRIVATE_FLAG :: u32 where "FUTEX_PRIVATE_FLAG = 128"
definition FUTEX_CLOCK_REALTIME :: u32 where "FUTEX_CLOCK_REALTIME = 256"

definition op_base :: "u32 \<Rightarrow> u32" where
  "op_base opn = opn AND NOT FUTEX_PRIVATE_FLAG AND NOT FUTEX_CLOCK_REALTIME"

definition read_u32 :: "nat \<Rightarrow> umem \<Rightarrow> u32" where
  "read_u32 a m = word_of_nat (of_le_bytes (mem_read m a 4))"

definition read_i64 :: "nat \<Rightarrow> umem \<Rightarrow> int" where
  "read_i64 a m = wrap_i64 (int (of_le_bytes (mem_read m a 8)))"

subsection \<open>Wait\<close>

datatype WaitStart = Refused int | Sleeping "nat option"

definition push_waiter :: "nat \<Rightarrow> FutexWaiter \<Rightarrow> Waiters \<Rightarrow> Waiters" where
  "push_waiter a w W = W(a \<mapsto> (case W a of None \<Rightarrow> [w] | Some l \<Rightarrow> l @ [w]))"

definition futex_start :: "umem \<Rightarrow> nat \<Rightarrow> u32 \<Rightarrow> nat \<Rightarrow> u32 \<Rightarrow> nat \<Rightarrow> nat \<Rightarrow> Waiters \<Rightarrow> (WaitStart \<times> Waiters) option" where
  "futex_start m uaddr val timeout bitset task now W =
     (if read_u32 uaddr m \<noteq> val then Some (Refused EAGAIN, W)
      else
        let W = push_waiter uaddr \<lparr>w_task = task, w_bits = bitset\<rparr> W in
        if timeout = 0 then Some (Sleeping None, W)
        else let tv_sec = read_i64 timeout m; tv_nsec = read_i64 (timeout + 8) m in
          if tv_sec < 0 \<or> tv_nsec < 0 then Some (Refused EINVAL, W)
          else do {
            x \<leftarrow> mul64 (nat tv_sec) 1000000000;
            timeout_ns \<leftarrow> add64 x (nat tv_nsec);
            deadline \<leftarrow> add64 now timeout_ns;
            Some (Sleeping (Some deadline), W)
          })"

definition queued :: "nat \<Rightarrow> nat \<Rightarrow> Waiters \<Rightarrow> bool" where
  "queued a task W = (case W a of None \<Rightarrow> False | Some l \<Rightarrow> list_ex (\<lambda>w. w_task w = task) l)"

definition futex_round :: "nat \<Rightarrow> nat option \<Rightarrow> nat \<Rightarrow> nat \<Rightarrow> Waiters \<Rightarrow> int round \<times> Waiters" where
  "futex_round uaddr deadline task now W =
     (if \<not> queued uaddr task W then (Return 0, W)
      else if (case deadline of None \<Rightarrow> False | Some dl \<Rightarrow> now \<ge> dl)
      then (Return ETIMEDOUT,
            case W uaddr of
              None \<Rightarrow> W
            | Some l \<Rightarrow> (let l = filter (\<lambda>w. w_task w \<noteq> task) l in if l = [] then W(uaddr := None) else W(uaddr \<mapsto> l)))
      else (Yield, W))"

subsection \<open>Wake and requeue\<close>

text \<open>The loop over the waiters with the count of the tasks woken so far.\<close>

fun wake_loop :: "u32 \<Rightarrow> int \<Rightarrow> FutexWaiter list \<Rightarrow> int \<Rightarrow> FutexWaiter list \<times> int" where
  "wake_loop bitset n [] woken = ([], woken)"
| "wake_loop bitset n (w # ws) woken =
     (if woken < n
      then if w_bits w AND bitset \<noteq> 0 then wake_loop bitset n ws (woken + 1)
           else case wake_loop bitset n ws woken of (rest, woken) \<Rightarrow> (w # rest, woken)
      else (w # ws, woken))"

definition futex_wake :: "nat \<Rightarrow> int \<Rightarrow> u32 \<Rightarrow> Waiters \<Rightarrow> int \<times> Waiters" where
  "futex_wake uaddr n bitset W =
     (if n < 0 then (EINVAL, W)
      else case W uaddr of
        None \<Rightarrow> (0, W)
      | Some l \<Rightarrow> (case wake_loop bitset n l 0 of (l, woken) \<Rightarrow>
          (woken, if l = [] then W(uaddr := None) else W(uaddr \<mapsto> l))))"

definition futex_wake_internal :: "nat \<Rightarrow> int \<Rightarrow> Waiters \<Rightarrow> Waiters" where
  "futex_wake_internal uaddr n W = snd (futex_wake uaddr n (NOT 0) W)"

text \<open>The elements that are taken from the front while the count is below the limit; a negative limit takes none.\<close>

fun pop_while :: "int \<Rightarrow> FutexWaiter list \<Rightarrow> int \<Rightarrow> FutexWaiter list \<times> FutexWaiter list" where
  "pop_while n [] k = ([], [])"
| "pop_while n (w # ws) k = (if k < n then case pop_while n ws (k + 1) of (a, b) \<Rightarrow> (w # a, b) else ([], w # ws))"

definition futex_requeue :: "umem \<Rightarrow> nat \<Rightarrow> int \<Rightarrow> nat \<Rightarrow> int \<Rightarrow> bool \<Rightarrow> u32 \<Rightarrow> Waiters \<Rightarrow> int \<times> Waiters" where
  "futex_requeue m uaddr wake_n uaddr2 requeue_n cmp expected W =
     (if cmp \<and> read_u32 uaddr m \<noteq> expected then (EAGAIN, W)
      else case W uaddr of
        None \<Rightarrow> (0, W)
      | Some l \<Rightarrow>
          (case pop_while wake_n l 0 of (woken, l) \<Rightarrow>
           case pop_while requeue_n l 0 of (to_requeue, l) \<Rightarrow>
             let W = (if l = [] then W(uaddr := None) else W(uaddr \<mapsto> l));
                 W = (if to_requeue = [] then W else W(uaddr2 \<mapsto> (case W uaddr2 of None \<Rightarrow> [] | Some l2 \<Rightarrow> l2) @ to_requeue))
             in (int (length woken), W)))"

text \<open>The system call up to the first turn of a wait.\<close>

definition sys_futex :: "umem \<Rightarrow> nat \<Rightarrow> u32 \<Rightarrow> u32 \<Rightarrow> nat \<Rightarrow> nat \<Rightarrow> u32 \<Rightarrow> nat \<Rightarrow> nat \<Rightarrow> Waiters \<Rightarrow> (WaitStart \<times> Waiters) option" where
  "sys_futex m uaddr opn val timeout uaddr2 val3 task now W =
     (let i32 = (\<lambda>w. wrap_i32 (int (unat w))); done = (\<lambda>(r, W). Some (Refused r, W)) in
      if uaddr mod 4 \<noteq> 0 then Some (Refused EINVAL, W)
      else if op_base opn = FUTEX_WAIT \<or> op_base opn = FUTEX_WAIT_BITSET
      then futex_start m uaddr val timeout (if op_base opn = FUTEX_WAIT_BITSET then val3 else NOT 0) task now W
      else if op_base opn = FUTEX_WAKE \<or> op_base opn = FUTEX_WAKE_BITSET
      then done (futex_wake uaddr (i32 val) (if op_base opn = FUTEX_WAKE_BITSET then val3 else NOT 0) W)
      else if op_base opn = FUTEX_REQUEUE then done (futex_requeue m uaddr (i32 val) uaddr2 (i32 val3) False 0 W)
      else if op_base opn = FUTEX_CMP_REQUEUE then done (futex_requeue m uaddr (i32 val) uaddr2 (wrap_i32 (int timeout)) True val3 W)
      else Some (Refused ENOSYS, W))"

subsection \<open>Runs\<close>

text \<open>The tasks that sleep, with the address and the deadline of their wait.\<close>

record FutexState =
  waiters :: Waiters
  asleep :: "nat \<rightharpoonup> nat \<times> nat option"

text \<open>The runs: waits that begin to sleep, waits that are refused (an invalid time limit leaves the entry in the table), turns of a
  sleeping task, wakes and requeues.  The flag of \<open>futex_reach\<close> tells that no refused wait and no requeue has changed the table
  so far: then the entries of the table are the tasks that sleep.\<close>

inductive futex_reach :: "bool \<Rightarrow> FutexState \<Rightarrow> bool" where
  start: "futex_reach True \<lparr>waiters = Map.empty, asleep = Map.empty\<rparr>"
| sleep: "futex_reach c s \<Longrightarrow> asleep s t = None \<Longrightarrow> futex_start m a val timeout bits t now (waiters s) = Some (Sleeping dl, W)
    \<Longrightarrow> futex_reach c \<lparr>waiters = W, asleep = (asleep s)(t \<mapsto> (a, dl))\<rparr>"
| refused: "futex_reach c s \<Longrightarrow> asleep s t = None \<Longrightarrow> futex_start m a val timeout bits t now (waiters s) = Some (Refused e, W)
    \<Longrightarrow> futex_reach (c \<and> W = waiters s) (s\<lparr>waiters := W\<rparr>)"
| turn: "futex_reach c s \<Longrightarrow> asleep s t = Some (a, dl) \<Longrightarrow> futex_round a dl t now (waiters s) = (Return r, W)
    \<Longrightarrow> futex_reach c \<lparr>waiters = W, asleep = (asleep s)(t := None)\<rparr>"
| wake: "futex_reach c s \<Longrightarrow> futex_wake a n bits (waiters s) = (r, W) \<Longrightarrow> futex_reach c (s\<lparr>waiters := W\<rparr>)"
| requeue: "futex_reach c s \<Longrightarrow> futex_requeue m a n1 a2 n2 cmp ex (waiters s) = (r, W)
    \<Longrightarrow> futex_reach (c \<and> W = waiters s) (s\<lparr>waiters := W\<rparr>)"

definition futex_ok :: "FutexState \<Rightarrow> bool" where
  "futex_ok s \<longleftrightarrow> (\<forall>a l. waiters s a = Some l \<longrightarrow> l \<noteq> [] \<and> distinct (map w_task l)
     \<and> (\<forall>w \<in> set l. \<exists>dl. asleep s (w_task w) = Some (a, dl)))"

lemma wake_loop_spec:
  assumes "wake_loop b n l k = (l', k')" and "0 \<le> k"
  shows "k' - k = min (max 0 (n - k)) (int (length (filter (\<lambda>w. w_bits w AND b \<noteq> 0) l)))"
    and "int (length l) = int (length l') + (k' - k)" and "set l' \<subseteq> set l" and "distinct (map w_task l) \<Longrightarrow> distinct (map w_task l')"
    and "filter (\<lambda>w. w_bits w AND b = 0) l' = filter (\<lambda>w. w_bits w AND b = 0) l"
    and "filter (\<lambda>w. w_bits w AND b \<noteq> 0) l' = drop (nat (k' - k)) (filter (\<lambda>w. w_bits w AND b \<noteq> 0) l)"
proof -
  let ?M = "\<lambda>w. w_bits w AND b \<noteq> 0" and ?N = "\<lambda>w. w_bits w AND b = 0"
  have "k \<le> k' \<and> k' - k = min (max 0 (n - k)) (int (length (filter ?M l))) \<and> int (length l) = int (length l') + (k' - k)
    \<and> set l' \<subseteq> set l \<and> (distinct (map w_task l) \<longrightarrow> distinct (map w_task l')) \<and> filter ?N l' = filter ?N l
    \<and> filter ?M l' = drop (nat (k' - k)) (filter ?M l)"
    using assms
  proof (induction b n l k arbitrary: l' k' rule: wake_loop.induct)
    case (2 b n w ws k)
    show ?case
    proof (cases "k < n \<and> w_bits w AND b \<noteq> 0")
      case True
      then have "wake_loop b n ws (k + 1) = (l', k')" using 2(3) by simp
      note ih = 2(1) [OF _ _ this]
      then have "k + 1 \<le> k'" using True 2(4) by simp
      then have "nat (k' - k) = Suc (nat (k' - (k + 1)))" by simp
      with ih True 2(4) show ?thesis by auto
    next
      case False
      show ?thesis
      proof (cases "k < n")
        case True
        then obtain r where r: "wake_loop b n ws k = (r, k')" "l' = w # r" using 2(3) False by (auto split: prod.splits)
        from 2(2) [OF True _ r(1)] False True 2(4) show ?thesis by (auto simp: r(2))
      qed (use 2(3) in auto)
    qed
  qed auto
  then show "k' - k = min (max 0 (n - k)) (int (length (filter ?M l)))"
    "int (length l) = int (length l') + (k' - k)" "set l' \<subseteq> set l" "distinct (map w_task l) \<Longrightarrow> distinct (map w_task l')"
    "filter ?N l' = filter ?N l" "filter ?M l' = drop (nat (k' - k)) (filter ?M l)" by auto
qed

lemma futex_okD:
  assumes "futex_ok s" "waiters s a = Some l"
  shows "l \<noteq> []" "distinct (map w_task l)" "w \<in> set l \<Longrightarrow> \<exists>dl. asleep s (w_task w) = Some (a, dl)"
  using assms by (auto simp: futex_ok_def)

lemma queued_iff: "queued a t W \<longleftrightarrow> (\<exists>l. W a = Some l \<and> t \<in> w_task ` set l)"
  by (auto simp: queued_def list_ex_iff split: option.splits)

text \<open>A list of waiters that only loses members keeps the invariant.\<close>

lemma futex_ok_shrink:
  assumes "futex_ok s" "waiters s a = Some l" "set l' \<subseteq> set l" "distinct (map w_task l')"
    and "\<And>b u. asleep s u = Some b \<Longrightarrow> u \<in> w_task ` set l' \<or> fst b \<noteq> a \<Longrightarrow> A u = Some b"
  shows "futex_ok \<lparr>waiters = (if l' = [] then (waiters s)(a := None) else (waiters s)(a \<mapsto> l')), asleep = A\<rparr>"
  unfolding futex_ok_def
proof (intro allI impI)
  fix b m assume "waiters \<lparr>waiters = (if l' = [] then (waiters s)(a := None) else (waiters s)(a \<mapsto> l')), asleep = A\<rparr> b = Some m"
  then consider "b = a" "m = l'" "l' \<noteq> []" | "b \<noteq> a" "waiters s b = Some m" by (auto split: if_splits)
  then show "m \<noteq> [] \<and> distinct (map w_task m) \<and> (\<forall>w \<in> set m. \<exists>dl. asleep \<lparr>waiters = (if l' = [] then (waiters s)(a := None) else (waiters s)(a \<mapsto> l')), asleep = A\<rparr> (w_task w) = Some (b, dl))"
  proof cases
    case 1
    have "\<exists>dl. A (w_task w) = Some (a, dl)" if "w \<in> set l'" for w
      using futex_okD(3) [OF assms(1,2), of w] assms(3) assms(5) [of "w_task w"] that by (metis image_eqI subsetD)
    then show ?thesis using 1 assms(4) by simp
  next
    case 2
    have "\<exists>dl. A (w_task w) = Some (b, dl)" if "w \<in> set m" for w
      using futex_okD(3) [OF assms(1) 2(2) that] assms(5) [of "w_task w"] 2(1) by (metis fst_conv)
    then show ?thesis using futex_okD(1,2) [OF assms(1) 2(2)] by simp
  qed
qed

lemma futex_sleep_ok:
  assumes ok: "futex_ok s" and t: "asleep s t = None" and f: "futex_start m a val timeout bits t now (waiters s) = Some (Sleeping dl, W)"
  shows "futex_ok \<lparr>waiters = W, asleep = (asleep s)(t \<mapsto> (a, dl))\<rparr>"
proof -
  have W: "W = push_waiter a \<lparr>w_task = t, w_bits = bits\<rparr> (waiters s)"
    using f by (auto simp: futex_start_def Let_def split: if_splits bind_splits)
  have new: "t \<notin> w_task ` set l" if "waiters s b = Some l" for b l
    using futex_okD(3) [OF ok that] t by fastforce
  have "l \<noteq> [] \<and> distinct (map w_task l) \<and> (\<forall>w \<in> set l. \<exists>d. ((asleep s)(t \<mapsto> (a, dl))) (w_task w) = Some (b, d))" if "W b = Some l" for b l
  proof (cases "b = a")
    case False
    then have b: "waiters s b = Some l" using that by (simp add: W push_waiter_def)
    then show ?thesis using futex_okD [OF ok b] new [OF b] by (auto simp: image_iff)
  next
    case True
    show ?thesis
    proof (cases "waiters s a")
      case None
      then show ?thesis using that True by (auto simp: W push_waiter_def)
    next
      case (Some l0)
      then have "l = l0 @ [\<lparr>w_task = t, w_bits = bits\<rparr>]" using that True by (simp add: W push_waiter_def)
      then show ?thesis using futex_okD [OF ok Some] new [OF Some] True by (auto simp: image_iff)
    qed
  qed
  then show ?thesis by (simp add: futex_ok_def)
qed

lemma futex_turn_ok:
  assumes ok: "futex_ok s" and t: "asleep s t = Some (a, dl)" and f: "futex_round a dl t now (waiters s) = (Return r, W)"
  shows "futex_ok \<lparr>waiters = W, asleep = (asleep s)(t := None)\<rparr>"
proof (cases "queued a t (waiters s)")
  case True
  then obtain l where l: "waiters s a = Some l" by (auto simp: queued_iff)
  let ?l = "filter (\<lambda>w. w_task w \<noteq> t) l"
  have "W = (if ?l = [] then (waiters s)(a := None) else (waiters s)(a \<mapsto> ?l))"
    using f True l by (auto simp: futex_round_def Let_def split: if_splits)
  moreover have "distinct (map w_task ?l)" using futex_okD(2) [OF ok l] by (rule distinct_map_filter)
  moreover have "((asleep s)(t := None)) u = Some b" if "asleep s u = Some b" "u \<in> w_task ` set ?l \<or> fst b \<noteq> a" for u b
    using that t by auto
  ultimately show ?thesis using futex_ok_shrink [OF ok l, of ?l "(asleep s)(t := None)"] by simp
next
  case False
  then have W: "W = waiters s" using f by (simp add: futex_round_def)
  have "w_task w \<noteq> t" if "waiters s b = Some l" "w \<in> set l" for b l w
    using futex_okD(3) [OF ok that(1,2)] t that False by (auto simp: queued_iff)
  then show ?thesis using ok unfolding W futex_ok_def by fastforce
qed

lemma futex_wake_ok:
  assumes ok: "futex_ok s" and f: "futex_wake a n bits (waiters s) = (r, W)"
  shows "futex_ok (s\<lparr>waiters := W\<rparr>)"
proof (cases "n < 0 \<or> waiters s a = None")
  case True
  then have "W = waiters s" using f by (auto simp: futex_wake_def split: if_splits)
  then show ?thesis using ok by simp
next
  case False
  then obtain l l' where l: "waiters s a = Some l" "wake_loop bits n l 0 = (l', r)"
    "W = (if l' = [] then (waiters s)(a := None) else (waiters s)(a \<mapsto> l'))"
    using f by (auto simp: futex_wake_def split: prod.splits)
  have "futex_ok \<lparr>waiters = W, asleep = asleep s\<rparr>"
    unfolding l(3) using wake_loop_spec(3,4) [OF l(2)] futex_okD(2) [OF ok l(1)] by (intro futex_ok_shrink [OF ok l(1)]) auto
  then show ?thesis by (simp add: futex_ok_def)
qed

lemma futex_reach_ok: "futex_reach c s \<Longrightarrow> c \<Longrightarrow> futex_ok s"
proof (induction rule: futex_reach.induct)
  case start
  show ?case by (simp add: futex_ok_def)
next
  case (sleep c s t m a val timeout bits now dl W)
  then show ?case using futex_sleep_ok [OF sleep.IH sleep.hyps(2,3)] by simp
next
  case (turn c s t a dl now r W)
  then show ?case using futex_turn_ok [OF turn.IH turn.hyps(2,3)] by simp
next
  case (wake c s a n bits r W)
  then show ?case using futex_wake_ok [OF wake.IH wake.hyps(2)] by simp
qed simp_all

subsection \<open>What a wake does\<close>

definition waiting :: "nat \<Rightarrow> Waiters \<Rightarrow> FutexWaiter list" where
  "waiting a W = (case W a of None \<Rightarrow> [] | Some l \<Rightarrow> l)"

lemma queued_waiting: "queued a t W \<longleftrightarrow> t \<in> w_task ` set (waiting a W)"
  by (cases "W a") (auto simp: queued_iff waiting_def)

lemma futex_round_woken: "\<not> queued a t W \<Longrightarrow> futex_round a dl t now W = (Return 0, W)"
  by (simp add: futex_round_def)

lemma futex_round_sleeps: "queued a t W \<Longrightarrow> futex_round a None t now W = (Yield, W)"
  by (simp add: futex_round_def)

lemma futex_round_before: "queued a t W \<Longrightarrow> \<forall>x. dl = Some x \<longrightarrow> now < x \<Longrightarrow> futex_round a dl t now W = (Yield, W)"
  by (auto simp: futex_round_def split: option.splits)

lemma futex_wake_waiting:
  assumes "0 \<le> n" "futex_wake a n b W = (r, W')"
  shows "wake_loop b n (waiting a W) 0 = (waiting a W', r)" and "x \<noteq> a \<Longrightarrow> W' x = W x"
  using assms by (auto simp: futex_wake_def waiting_def split: option.splits prod.splits if_splits)

lemma card_released:
  assumes "distinct (map f l)" "set l' \<subseteq> set l" "distinct (map f l')"
  shows "card (f ` set l - f ` set l') = length l - length l'"
proof -
  have "card (f ` set l) = length l" "card (f ` set l') = length l'"
    using distinct_card [OF assms(1)] distinct_card [OF assms(3)] by simp_all
  moreover have "f ` set l' \<subseteq> f ` set l" using assms(2) by blast
  ultimately show ?thesis by (simp add: card_Diff_subset)
qed

text \<open>C22. A wake of \<open>n \<ge> 0\<close> tasks on address \<open>a\<close>, at any point of a run of waits (refused ones included), turns, wakes and
  requeues, returns the smaller of \<open>n\<close> and the number \<open>k\<close> of entries whose bits meet the mask.  Exactly the oldest
  matching entries leave the table; the entries that do not match and those of every other address stay as they were.  A
  task that sleeps on \<open>a\<close> returns 0 at its next turn when no entry of it is left, and sleeps on before its deadline otherwise.  As
  long as no refused wait has left its entry behind and no requeue has changed the table, the entries that leave are those of just
  as many tasks, and each of them is asleep on \<open>a\<close>; afterwards a wake can count entries that nobody sleeps on.\<close>

theorem futex_wakes_sleepers:
  assumes "futex_reach c s" "0 \<le> n" "futex_wake a n bits (waiters s) = (r, W)"
  shows "r = min n (int (length (filter (\<lambda>w. w_bits w AND bits \<noteq> 0) (waiting a (waiters s)))))
    \<and> filter (\<lambda>w. w_bits w AND bits \<noteq> 0) (waiting a W) = drop (nat r) (filter (\<lambda>w. w_bits w AND bits \<noteq> 0) (waiting a (waiters s)))
    \<and> filter (\<lambda>w. w_bits w AND bits = 0) (waiting a W) = filter (\<lambda>w. w_bits w AND bits = 0) (waiting a (waiters s))
    \<and> (\<forall>b. b \<noteq> a \<longrightarrow> W b = waiters s b)
    \<and> (\<forall>t dl now. asleep s t = Some (a, dl) \<longrightarrow> (if queued a t W then (\<forall>x. dl = Some x \<longrightarrow> now < x) \<longrightarrow> futex_round a dl t now W = (Yield, W)
         else futex_round a dl t now W = (Return 0, W)))
    \<and> (c \<longrightarrow> card {t. queued a t (waiters s) \<and> \<not> queued a t W} = nat r
         \<and> (\<forall>t. queued a t (waiters s) \<and> \<not> queued a t W \<longrightarrow> (\<exists>dl. asleep s t = Some (a, dl))))"
proof -
  note wk = futex_wake_waiting [OF assms(2,3)]
  note spec = wake_loop_spec [OF wk(1) order_refl, simplified]
  have "card {t. queued a t (waiters s) \<and> \<not> queued a t W} = nat r
      \<and> (\<forall>t. queued a t (waiters s) \<and> \<not> queued a t W \<longrightarrow> (\<exists>dl. asleep s t = Some (a, dl)))" if c: c
  proof -
    note ok = futex_reach_ok [OF assms(1) c]
    have d: "distinct (map w_task (waiting a (waiters s)))"
      using futex_okD(2) [OF ok] by (auto simp: waiting_def split: option.split)
    have "{t. queued a t (waiters s) \<and> \<not> queued a t W} = w_task ` set (waiting a (waiters s)) - w_task ` set (waiting a W)"
      by (auto simp: queued_waiting)
    then have "card {t. queued a t (waiters s) \<and> \<not> queued a t W} = nat r"
      using card_released [OF d spec(3) spec(4) [OF d]] spec(2) by simp
    moreover have "\<exists>dl. asleep s t = Some (a, dl)" if t: "queued a t (waiters s)" for t
    proof -
      obtain l w where "waiters s a = Some l" "w \<in> set l" "t = w_task w" using t by (auto simp: queued_iff)
      then show ?thesis using futex_okD(3) [OF ok] by blast
    qed
    ultimately show ?thesis by blast
  qed
  then show ?thesis using spec(1,5,6) wk(2) assms(2) futex_round_woken futex_round_before by auto
qed

definition zero_mem :: umem where
  "zero_mem = (\<lambda>_. 0)"

definition two_asleep :: FutexState where
  "two_asleep = \<lparr>waiters = [0x1000 \<mapsto> [\<lparr>w_task = 7, w_bits = 1\<rparr>, \<lparr>w_task = 8, w_bits = 1\<rparr>]],
     asleep = [7 \<mapsto> (0x1000, None), 8 \<mapsto> (0x1000, None)]\<rparr>"

lemma mem_read_zero [simp]: "mem_read zero_mem a n = replicate n 0"
  by (simp add: mem_read_def zero_mem_def map_replicate_const)

lemma of_le_bytes_zero [simp]: "of_le_bytes (replicate n 0) = 0"
  by (induction n) simp_all

lemma two_asleep_reach: "futex_reach True two_asleep"
proof -
  have "futex_reach True \<lparr>waiters = [0x1000 \<mapsto> [\<lparr>w_task = 7, w_bits = 1\<rparr>]], asleep = [7 \<mapsto> (0x1000, None)]\<rparr>" (is "futex_reach True ?s")
    using futex_reach.sleep [OF futex_reach.start, where t = 7 and m = zero_mem and a = "0x1000" and val = 0 and timeout = 0
        and bits = 1 and now = 0 and dl = None and W = "[0x1000 \<mapsto> [\<lparr>w_task = 7, w_bits = 1\<rparr>]]"]
    by (simp add: futex_start_def read_u32_def push_waiter_def)
  then show ?thesis
    using futex_reach.sleep [where s = ?s and t = 8 and m = zero_mem and a = "0x1000" and val = 0 and timeout = 0 and bits = 1
        and now = 0 and dl = None and W = "waiters two_asleep"]
    by (simp add: futex_start_def read_u32_def push_waiter_def two_asleep_def fun_upd_def cong: if_cong)
qed

theorem futex_wakes_sleepers_witness:
  "futex_wake 0x1000 1 1 (waiters two_asleep) = (1, [0x1000 \<mapsto> [\<lparr>w_task = 8, w_bits = 1\<rparr>]])
    \<and> (\<exists>dl. asleep two_asleep 7 = Some (0x1000, dl)
      \<and> (\<forall>now. futex_round 0x1000 dl 7 now [0x1000 \<mapsto> [\<lparr>w_task = 8, w_bits = 1\<rparr>]]
           = (Return 0, [0x1000 \<mapsto> [\<lparr>w_task = 8, w_bits = 1\<rparr>]])))"
proof -
  have w: "futex_wake 0x1000 1 1 (waiters two_asleep) = (1, [0x1000 \<mapsto> [\<lparr>w_task = 8, w_bits = 1\<rparr>]])"
    by (simp add: futex_wake_def two_asleep_def)
  have "\<not> queued 0x1000 7 [0x1000 \<mapsto> [\<lparr>w_task = 8, w_bits = 1\<rparr>]]" "asleep two_asleep 7 = Some (0x1000, None)"
    by (simp_all add: queued_def two_asleep_def)
  then show ?thesis using w futex_wakes_sleepers [OF two_asleep_reach _ w] by simp
qed

subsection \<open>Entries that nobody sleeps on\<close>

lemma futex_start_no_timeout:
  "read_u32 a m = val \<Longrightarrow> futex_start m a val 0 bits t now W = Some (Sleeping None, push_waiter a \<lparr>w_task = t, w_bits = bits\<rparr> W)"
  by (simp add: futex_start_def)

lemma futex_start_negative:
  "read_u32 a m = val \<Longrightarrow> timeout \<noteq> 0 \<Longrightarrow> read_i64 timeout m < 0 \<or> read_i64 (timeout + 8) m < 0
    \<Longrightarrow> futex_start m a val timeout bits t now W = Some (Refused EINVAL, push_waiter a \<lparr>w_task = t, w_bits = bits\<rparr> W)"
  by (auto simp: futex_start_def Let_def)

text \<open>A wait whose time limit is negative returns \<open>EINVAL\<close> after it has entered the task into the table, where the entry
  stays.  When another task then waits on the address with no limit, a wake of one task returns 1 and takes the stale entry:
  the task that sleeps goes on sleeping at whatever time it looks.\<close>

theorem futex_invalid_timeout_steals:
  assumes "read_u32 a m = val" "timeout \<noteq> 0" "read_i64 timeout m < 0 \<or> read_i64 (timeout + 8) m < 0"
    and "W a = None" "t1 \<noteq> t2" "b1 AND bits \<noteq> 0"
  shows "\<exists>W1 W2 W3. futex_start m a val timeout b1 t1 now1 W = Some (Refused EINVAL, W1)
    \<and> futex_start m a val 0 b2 t2 now2 W1 = Some (Sleeping None, W2)
    \<and> futex_wake a 1 bits W2 = (1, W3) \<and> (\<forall>now. futex_round a None t2 now W3 = (Yield, W3))"
proof -
  let ?W1 = "push_waiter a \<lparr>w_task = t1, w_bits = b1\<rparr> W" and ?w2 = "\<lparr>w_task = t2, w_bits = b2\<rparr>"
  have "futex_wake a 1 bits (push_waiter a ?w2 ?W1) = (1, W(a \<mapsto> [?w2]))"
    using assms(4,6) by (simp add: push_waiter_def futex_wake_def)
  moreover have "futex_round a None t2 now (W(a \<mapsto> [?w2])) = (Yield, W(a \<mapsto> [?w2]))" for now
    by (rule futex_round_sleeps) (simp add: queued_def)
  ultimately show ?thesis
    using futex_start_negative [OF assms(1-3)] futex_start_no_timeout [OF assms(1)] by blast
qed

definition past_mem :: umem where
  "past_mem = (\<lambda>x. if 0x2000 \<le> x \<and> x < 0x2008 then 255 else 0)"

theorem futex_invalid_timeout_steals_witness:
  "\<exists>W1 W2 W3. futex_start past_mem 0x1000 0 0x2000 1 7 0 Map.empty = Some (Refused EINVAL, W1)
    \<and> futex_start past_mem 0x1000 0 0 1 8 0 W1 = Some (Sleeping None, W2)
    \<and> futex_wake 0x1000 1 1 W2 = (1, W3) \<and> (\<forall>now. futex_round 0x1000 None 8 now W3 = (Yield, W3))"
proof -
  have "read_u32 0x1000 past_mem = 0" "read_i64 0x2000 past_mem < 0"
    by (simp_all add: read_u32_def read_i64_def mem_read_def past_mem_def wrap_i64_def upt_rec)
  then show ?thesis
    using futex_invalid_timeout_steals [where a = "0x1000" and m = past_mem and val = 0 and timeout = "0x2000" and W = Map.empty
        and ?t1.0 = 7 and ?t2.0 = 8 and ?b1.0 = 1 and bits = 1 and ?now1.0 = 0 and ?now2.0 = 0 and ?b2.0 = 1] by simp
qed

lemma pop_while_none [simp]: "n \<le> k \<Longrightarrow> pop_while n l k = ([], l)"
  by (cases l) simp_all

lemma pop_while_all: "k + int (length l) \<le> n \<Longrightarrow> pop_while n l k = (l, [])"
  by (induction l arbitrary: k) simp_all

text \<open>A requeue that wakes nobody and moves every waiter of an address reports 0 tasks woken, and yet the next turn of each
  moved task's wait returns 0 as if it had been woken; its entry stays in the table of the second address, so that a later
  wake there can count a task that no longer sleeps.\<close>

theorem futex_requeue_wakes_all:
  assumes "W a = Some l" "l \<noteq> []" "a \<noteq> a2" "int (length l) \<le> n" "t \<in> w_task ` set l"
  shows "\<exists>W'. futex_requeue m a 0 a2 n False 0 W = (0, W')
    \<and> (\<forall>dl now. futex_round a dl t now W' = (Return 0, W')) \<and> waiting a2 W' = waiting a2 W @ l \<and> queued a2 t W'"
proof -
  let ?W = "W(a := None, a2 \<mapsto> waiting a2 W @ l)"
  have "futex_requeue m a 0 a2 n False 0 W = (0, ?W)"
    using assms(1-4) pop_while_all [of 0 l n] by (simp add: futex_requeue_def waiting_def)
  moreover have "futex_round a dl t now ?W = (Return 0, ?W)" for dl now
    using assms(3) by (intro futex_round_woken) (simp add: queued_def)
  moreover have "waiting a2 ?W = waiting a2 W @ l" "queued a2 t ?W"
    using assms(5) by (auto simp: waiting_def [of _ "?W"] queued_iff)
  ultimately show ?thesis by blast
qed

theorem futex_requeue_wakes_all_witness:
  "\<exists>W'. futex_requeue zero_mem 0x1000 0 0x1008 5 False 0 (waiters two_asleep) = (0, W')
    \<and> (\<forall>dl now. futex_round 0x1000 dl 8 now W' = (Return 0, W'))
    \<and> waiting 0x1008 W' = waiting 0x1008 (waiters two_asleep) @ waiting 0x1000 (waiters two_asleep) \<and> queued 0x1008 8 W'"
  using futex_requeue_wakes_all [where W = "waiters two_asleep" and a = "0x1000" and ?a2.0 = "0x1008" and n = 5 and t = 8
      and m = zero_mem and l = "waiting 0x1000 (waiters two_asleep)"]
  by (simp add: two_asleep_def waiting_def)

end
