(* ===== verification/Shm.thy ===== *)
theory Shm
  imports Address_Space Syscall
begin

text \<open>
  System V shared memory, \<^verbatim>\<open>kernel/src/ipc/shm.rs\<close>: segments with the page frames that back them, the keys that name
  them, the attachments of processes, and the system calls \<open>shmget\<close>, \<open>shmat\<close>, \<open>shmdt\<close> and \<open>shmctl\<close>.

  A call takes frames from the global allocator and enters areas into the address space, so that the state is the manager
  together with the memory state of \<open>Vma\<close>; the page tables are the same parameter \<open>Mapper\<close>.  The maps of segments and
  keys are only looked up; that of the attachments is traversed, so it is an association list in ascending order.
  The manager is the one that \<open>init\<close> has created.
\<close>

subsection \<open>Constants and permissions\<close>

definition IPC_CREAT :: u32 where "IPC_CREAT = 512"
definition IPC_EXCL :: u32 where "IPC_EXCL = 1024"
definition IPC_PRIVATE :: int where "IPC_PRIVATE = 0"
definition IPC_RMID :: int where "IPC_RMID = 0"
definition IPC_STAT :: int where "IPC_STAT = 2"
definition IPC_SET :: int where "IPC_SET = 1"
definition SHM_RDONLY :: u32 where "SHM_RDONLY = 4096"

record ShmPerm =
  perm_key :: int
  perm_uid :: nat
  perm_gid :: nat
  perm_cuid :: nat
  perm_cgid :: nat
  perm_mode :: u16

definition perm_new :: "int \<Rightarrow> nat \<Rightarrow> nat \<Rightarrow> u16 \<Rightarrow> ShmPerm" where
  "perm_new key uid gid mode = \<lparr>perm_key = key, perm_uid = uid, perm_gid = gid, perm_cuid = uid, perm_cgid = gid,
     perm_mode = mode AND 0x1FF\<rparr>"

definition can_read :: "ShmPerm \<Rightarrow> nat \<Rightarrow> nat \<Rightarrow> bool" where
  "can_read p uid gid =
     (if uid = 0 then True
      else if uid = perm_uid p then perm_mode p AND 0x100 \<noteq> 0
      else if gid = perm_gid p then perm_mode p AND 0x20 \<noteq> 0
      else perm_mode p AND 0x4 \<noteq> 0)"

definition can_write :: "ShmPerm \<Rightarrow> nat \<Rightarrow> nat \<Rightarrow> bool" where
  "can_write p uid gid =
     (if uid = 0 then True
      else if uid = perm_uid p then perm_mode p AND 0x80 \<noteq> 0
      else if gid = perm_gid p then perm_mode p AND 0x10 \<noteq> 0
      else perm_mode p AND 0x2 \<noteq> 0)"

subsection \<open>The manager\<close>

record ShmIdDs =
  shm_perm :: ShmPerm
  shm_segsz :: nat
  shm_atime :: nat
  shm_dtime :: nat
  shm_ctime :: nat
  shm_cpid :: nat
  shm_lpid :: nat
  shm_nattch :: nat

record ShmSegment =
  seg_id :: int
  seg_ds :: ShmIdDs
  seg_frames :: "phys_frame list"
  marked_for_removal :: bool

definition seg_new :: "nat \<Rightarrow> int \<Rightarrow> int \<Rightarrow> nat \<Rightarrow> nat \<Rightarrow> nat \<Rightarrow> u16 \<Rightarrow> nat \<Rightarrow> ShmSegment" where
  "seg_new now sid key sz uid gid mode pid =
     \<lparr>seg_id = sid,
      seg_ds = \<lparr>shm_perm = perm_new key uid gid mode, shm_segsz = sz, shm_atime = 0, shm_dtime = 0, shm_ctime = now,
                shm_cpid = pid, shm_lpid = pid, shm_nattch = 0\<rparr>,
      seg_frames = [], marked_for_removal = False\<rparr>"

record ShmAttach =
  at_pid :: nat
  at_addr :: nat
  at_size :: nat
  at_readonly :: bool

record ShmManager =
  next_id :: nat
  segments :: "int \<rightharpoonup> ShmSegment"
  key_to_id :: "int \<rightharpoonup> int"
  attachments :: "(int \<times> ShmAttach list) list"

definition shm_new :: ShmManager where
  "shm_new = \<lparr>next_id = 1, segments = Map.empty, key_to_id = Map.empty, attachments = []\<rparr>"

text \<open>\<open>fetch_add\<close> of an \<open>AtomicU32\<close>, and the cast of its old value to \<open>i32\<close>.\<close>

definition alloc_id :: "ShmManager \<Rightarrow> int \<times> ShmManager" where
  "alloc_id m = (wrap_i32 (int (next_id m)), m\<lparr>next_id := (next_id m + 1) mod 2 ^ 32\<rparr>)"

fun id_insert :: "int \<Rightarrow> 'v \<Rightarrow> (int \<times> 'v) list \<Rightarrow> (int \<times> 'v) list" where
  "id_insert k v [] = [(k, v)]"
| "id_insert k v ((k', v') # xs) =
     (if k < k' then (k, v) # (k', v') # xs
      else if k = k' then (k, v) # xs
      else (k', v') # id_insert k v xs)"

text \<open>\<open>get_mut\<close> of the attachments, with the change made through it, and \<open>remove\<close>.\<close>

definition id_update :: "int \<Rightarrow> ('v \<Rightarrow> 'v) \<Rightarrow> (int \<times> 'v) list \<Rightarrow> (int \<times> 'v) list" where
  "id_update k f xs = map (\<lambda>(k', v). (k', if k' = k then f v else v)) xs"

definition id_remove :: "int \<Rightarrow> (int \<times> 'v) list \<Rightarrow> (int \<times> 'v) list" where
  "id_remove k xs = filter (\<lambda>e. fst e \<noteq> k) xs"

record 'pt ShmState =
  mgr :: ShmManager
  mem :: "'pt MmState"

type_synonym 'pt call = "(int \<times> 'pt ShmState) option"

definition put_seg :: "int \<Rightarrow> ShmSegment \<Rightarrow> ShmManager \<Rightarrow> ShmManager" where
  "put_seg sid g m = m\<lparr>segments := (segments m)(sid \<mapsto> g)\<rparr>"

subsection \<open>shmget\<close>

text \<open>The frames of a new segment: each is zeroed; when there is none left those taken so far are given back.\<close>

definition give_all :: "phys_frame list \<Rightarrow> BitmapFrameAllocator \<Rightarrow> BitmapFrameAllocator option" where
  "give_all fs fa = for_each (\<lambda>f fa. deallocate fa f) fs fa"

fun take_frames :: "nat \<Rightarrow> phys_frame list \<Rightarrow> 'pt MmState \<Rightarrow> (phys_frame list option \<times> 'pt MmState) option" where
  "take_frames 0 fs s = Some (Some fs, s)"
| "take_frames (Suc n) fs s = do {
     (r, fa) \<leftarrow> allocate (ms_fa s);
     case r of
       Some f \<Rightarrow> take_frames n (fs @ [f]) (s\<lparr>ms_fa := fa, ms_mem := zero_page f (ms_mem s)\<rparr>)
     | None \<Rightarrow> do { fa \<leftarrow> give_all fs fa; Some (None, s\<lparr>ms_fa := fa\<rparr>) }
   }"

definition create_segment :: "SysCtx \<Rightarrow> int \<Rightarrow> nat \<Rightarrow> u32 \<Rightarrow> 'pt ShmState \<Rightarrow> 'pt call" where
  "create_segment ctx key sz shmflg s = do {
     let mode = (ucast (shmflg AND 0x1FF) :: u16);
     aligned_size \<leftarrow> align_up sz;
     let num_pages = aligned_size div 4096;
     (sid, m) \<leftarrow> Some (alloc_id (mgr s));
     let g = seg_new (ctx_now ctx) sid key aligned_size (ctx_uid ctx) (ctx_gid ctx) mode (ctx_pid ctx mod 2 ^ 32);
     (r, mm) \<leftarrow> take_frames num_pages [] (mem s);
     case r of
       None \<Rightarrow> Some (ENOMEM, s\<lparr>mgr := m, mem := mm\<rparr>)
     | Some fs \<Rightarrow>
         let m = (if key \<noteq> IPC_PRIVATE then m\<lparr>key_to_id := (key_to_id m)(key \<mapsto> sid)\<rparr> else m);
             m = m\<lparr>attachments := id_insert sid [] (attachments m)\<rparr>
         in Some (sid, s\<lparr>mgr := put_seg sid (g\<lparr>seg_frames := fs\<rparr>) m, mem := mm\<rparr>)
   }"

definition sys_shmget :: "SysCtx \<Rightarrow> int \<Rightarrow> nat \<Rightarrow> u32 \<Rightarrow> 'pt ShmState \<Rightarrow> 'pt call" where
  "sys_shmget ctx key sz shmflg s =
     (if sz = 0 then Some (EINVAL, s)
      else if key = IPC_PRIVATE then create_segment ctx key sz shmflg s
      else case key_to_id (mgr s) key of
        None \<Rightarrow> if shmflg AND IPC_CREAT = 0 then Some (ENOENT, s) else create_segment ctx key sz shmflg s
      | Some i \<Rightarrow>
          if shmflg AND IPC_CREAT \<noteq> 0 \<and> shmflg AND IPC_EXCL \<noteq> 0 then Some (EEXIST, s)
          else (case segments (mgr s) i of
            None \<Rightarrow> create_segment ctx key sz shmflg s
          | Some g \<Rightarrow>
              if \<not> can_read (shm_perm (seg_ds g)) (ctx_uid ctx) (ctx_gid ctx) then Some (EACCES, s)
              else if shm_segsz (seg_ds g) < sz then Some (EINVAL, s)
              else Some (i, s)))"

subsection \<open>shmat\<close>

definition page_addr :: "nat \<Rightarrow> nat \<Rightarrow> nat option" where
  "page_addr addr i = do { off \<leftarrow> mul64 i 4096; add64 addr off }"

definition unmap_pages :: "'pt Mapper \<Rightarrow> nat \<Rightarrow> nat \<Rightarrow> 'pt \<Rightarrow> 'pt option" where
  "unmap_pages mp addr n pt = for_each (\<lambda>i pt. do {
     a \<leftarrow> page_addr addr i;
     page \<leftarrow> virt_addr_new mp a;
     Some (unmap_page mp page pt)
   }) [0..<n] pt"

text \<open>The loop that maps the frames, from number \<open>i\<close> on: \<open>False\<close> is the error, after the pages before have been unmapped.\<close>

fun map_frames :: "'pt Mapper \<Rightarrow> nat \<Rightarrow> PageFlags \<Rightarrow> nat \<Rightarrow> phys_frame list \<Rightarrow> 'pt MmState \<Rightarrow> (bool \<times> 'pt MmState) option" where
  "map_frames mp addr fl i [] s = Some (True, s)"
| "map_frames mp addr fl i (f # fs) s = do {
     a \<leftarrow> page_addr addr i;
     page \<leftarrow> virt_addr_new mp a;
     case map_page mp page f fl (ms_pt s) (ms_fa s) of (r, pt, fa) \<Rightarrow>
       let s = s\<lparr>ms_pt := pt, ms_fa := fa\<rparr> in
       case r of
         Inr _ \<Rightarrow> map_frames mp addr fl (i + 1) fs s
       | Inl _ \<Rightarrow> do { pt \<leftarrow> unmap_pages mp addr i (ms_pt s); Some (False, s\<lparr>ms_pt := pt\<rparr>) }
   }"

definition attach_flags :: "bool \<Rightarrow> PageFlags" where
  "attach_flags readonly = \<lparr>present = True, writable = (\<not> readonly), no_execute = True, user_accessible = True\<rparr>"

definition attach_prot :: "bool \<Rightarrow> Protection" where
  "attach_prot readonly = \<lparr>p_read = True, p_write = (\<not> readonly), p_exec = False\<rparr>"

definition sys_shmat :: "'pt Mapper \<Rightarrow> SysCtx \<Rightarrow> int \<Rightarrow> nat \<Rightarrow> u32 \<Rightarrow> 'pt ShmState \<Rightarrow> 'pt call" where
  "sys_shmat mp ctx shmid shmaddr shmflg s =
     (let readonly = (shmflg AND SHM_RDONLY \<noteq> 0); uid = ctx_uid ctx; gid = ctx_gid ctx in
      case segments (mgr s) shmid of
        None \<Rightarrow> Some (EINVAL, s)
      | Some g \<Rightarrow>
          if marked_for_removal g \<and> shm_nattch (seg_ds g) = 0 then Some (EIDRM, s)
          else if readonly \<and> \<not> can_read (shm_perm (seg_ds g)) uid gid then Some (EACCES, s)
          else if \<not> readonly \<and> \<not> can_write (shm_perm (seg_ds g)) uid gid then Some (EACCES, s)
          else do {
            let sz = shm_segsz (seg_ds g);
            let flags = \<lparr>mf_shared = True, mf_private = False, mf_anonymous = False, mf_fixed = (shmaddr \<noteq> 0)\<rparr>;
            (r, mm) \<leftarrow> mmap mp shmaddr sz (attach_prot readonly) flags (mem s);
            let s = s\<lparr>mem := mm\<rparr>;
            case r of
              Inl _ \<Rightarrow> Some (ENOMEM, s)
            | Inr addr \<Rightarrow> do {
                (ok, mm) \<leftarrow> map_frames mp addr (attach_flags readonly) 0 (seg_frames g) (mem s);
                let s = s\<lparr>mem := mm\<rparr>;
                if \<not> ok then Some (ENOMEM, s)
                else do {
                  n \<leftarrow> (if shm_nattch (seg_ds g) + 1 < 2 ^ 16 then Some (shm_nattch (seg_ds g) + 1) else None);
                  let g = g\<lparr>seg_ds := (seg_ds g)\<lparr>shm_nattch := n, shm_atime := ctx_now ctx, shm_lpid := ctx_pid ctx mod 2 ^ 32\<rparr>\<rparr>;
                  let a = \<lparr>at_pid = ctx_pid ctx, at_addr = addr, at_size = sz, at_readonly = readonly\<rparr>;
                  let m = put_seg shmid g (mgr s);
                  let m = m\<lparr>attachments := id_update shmid (\<lambda>l. l @ [a]) (attachments m)\<rparr>;
                  Some (wrap_i64 (int addr), s\<lparr>mgr := m\<rparr>)
                }
              }
          })"

subsection \<open>Destruction, shmdt and shmctl\<close>

definition destroy_segment :: "int \<Rightarrow> 'pt ShmState \<Rightarrow> 'pt ShmState option" where
  "destroy_segment shmid s = do {
     s \<leftarrow> (case segments (mgr s) shmid of
        None \<Rightarrow> Some s
      | Some g \<Rightarrow> do {
          fa \<leftarrow> give_all (seg_frames g) (ms_fa (mem s));
          Some (s\<lparr>mgr := (mgr s)\<lparr>segments := (segments (mgr s))(shmid := None)\<rparr>, mem := (mem s)\<lparr>ms_fa := fa\<rparr>\<rparr>)
        });
     Some (s\<lparr>mgr := (mgr s)\<lparr>attachments := id_remove shmid (attachments (mgr s))\<rparr>\<rparr>)
   }"

text \<open>The first attachment of the process at the address, in the order of the identifiers.\<close>

fun find_attach :: "nat \<Rightarrow> nat \<Rightarrow> (int \<times> ShmAttach list) list \<Rightarrow> (int \<times> nat) option" where
  "find_attach pid addr [] = None"
| "find_attach pid addr ((sid, l) # xs) =
     (case List.find (\<lambda>a. at_pid a = pid \<and> at_addr a = addr) l of
        Some a \<Rightarrow> Some (sid, at_size a)
      | None \<Rightarrow> find_attach pid addr xs)"

definition sys_shmdt :: "'pt Mapper \<Rightarrow> SysCtx \<Rightarrow> nat \<Rightarrow> 'pt ShmState \<Rightarrow> 'pt call" where
  "sys_shmdt mp ctx shmaddr s =
     (let pid = ctx_pid ctx in
      case find_attach pid shmaddr (attachments (mgr s)) of
        None \<Rightarrow> Some (EINVAL, s)
      | Some (shmid, sz) \<Rightarrow> do {
          pt \<leftarrow> unmap_pages mp shmaddr (sz div 4096) (ms_pt (mem s));
          let s = s\<lparr>mem := (mem s)\<lparr>ms_pt := pt, ms_vm := snd (remove_vma shmaddr (ms_vm (mem s)))\<rparr>\<rparr>;
          let m = mgr s;
          let m = m\<lparr>attachments := id_update shmid (filter (\<lambda>a. \<not> (at_pid a = pid \<and> at_addr a = shmaddr))) (attachments m)\<rparr>;
          case segments m shmid of
            None \<Rightarrow> Some (0, s\<lparr>mgr := m\<rparr>)
          | Some g \<Rightarrow> do {
              let g = g\<lparr>seg_ds := (seg_ds g)\<lparr>shm_nattch := shm_nattch (seg_ds g) - 1, shm_dtime := ctx_now ctx, shm_lpid := pid mod 2 ^ 32\<rparr>\<rparr>;
              let s = s\<lparr>mgr := put_seg shmid g m\<rparr>;
              s \<leftarrow> (if marked_for_removal g \<and> shm_nattch (seg_ds g) = 0 then destroy_segment shmid s else Some s);
              Some (0, s)
            }
        })"

text \<open>The size of \<open>ShmIdDs\<close>, which the checks of \<open>buf\<close> use.  The structure that \<open>buf\<close> points to is the argument \<open>user_ds\<close>,
  and the second component of the result is what \<open>IPC_STAT\<close> stores there.\<close>

definition DS_SIZE :: nat where "DS_SIZE = 72"

definition sys_shmctl :: "SysCtx \<Rightarrow> int \<Rightarrow> int \<Rightarrow> nat \<Rightarrow> ShmIdDs \<Rightarrow> 'pt ShmState \<Rightarrow> (int \<times> ShmIdDs option \<times> 'pt ShmState) option" where
  "sys_shmctl ctx shmid cmd buf user_ds s =
     (let uid = ctx_uid ctx; gid = ctx_gid ctx; m = mgr s; bad = (buf = 0 \<or> \<not> is_user_range buf DS_SIZE) in
      if cmd = IPC_STAT then
        (case segments m shmid of
           None \<Rightarrow> Some (EINVAL, None, s)
         | Some g \<Rightarrow>
             if \<not> can_read (shm_perm (seg_ds g)) uid gid then Some (EACCES, None, s)
             else if bad then Some (EFAULT, None, s)
             else Some (0, Some (seg_ds g), s))
      else if cmd = IPC_SET then
        (case segments m shmid of
           None \<Rightarrow> Some (EINVAL, None, s)
         | Some g \<Rightarrow>
             if uid \<noteq> 0 \<and> uid \<noteq> perm_uid (shm_perm (seg_ds g)) then Some (EPERM, None, s)
             else if bad then Some (EFAULT, None, s)
             else
               let np = shm_perm user_ds;
                   p = (shm_perm (seg_ds g))\<lparr>perm_uid := perm_uid np, perm_gid := perm_gid np, perm_mode := perm_mode np AND 0x1FF\<rparr>;
                   g = g\<lparr>seg_ds := (seg_ds g)\<lparr>shm_perm := p, shm_ctime := ctx_now ctx\<rparr>\<rparr>
               in Some (0, None, s\<lparr>mgr := put_seg shmid g m\<rparr>))
      else if cmd = IPC_RMID then
        (case segments m shmid of
           None \<Rightarrow> Some (EINVAL, None, s)
         | Some g \<Rightarrow>
             if uid \<noteq> 0 \<and> uid \<noteq> perm_uid (shm_perm (seg_ds g)) then Some (EPERM, None, s)
             else do {
               let m = put_seg shmid (g\<lparr>marked_for_removal := True\<rparr>) m;
               let key = perm_key (shm_perm (seg_ds g));
               let m = (if key \<noteq> IPC_PRIVATE then m\<lparr>key_to_id := (key_to_id m)(key := None)\<rparr> else m);
               let s = s\<lparr>mgr := m\<rparr>;
               s \<leftarrow> (if shm_nattch (seg_ds g) = 0 then destroy_segment shmid s else Some s);
               Some (0, None, s)
             })
      else Some (EINVAL, None, s))"

text \<open>The detachment of a whole process.\<close>

definition attached_of :: "nat \<Rightarrow> (int \<times> ShmAttach list) list \<Rightarrow> nat list" where
  "attached_of pid xs = concat (map (\<lambda>(sid, l). map at_addr (filter (\<lambda>a. at_pid a = pid) l)) xs)"

definition detach_all_from_pid :: "'pt Mapper \<Rightarrow> SysCtx \<Rightarrow> nat \<Rightarrow> 'pt ShmState \<Rightarrow> 'pt ShmState option" where
  "detach_all_from_pid mp ctx pid s =
     for_each (\<lambda>a s. map_option snd (sys_shmdt mp ctx a s)) (attached_of pid (attachments (mgr s))) s"

end
