(* ===== verification/Shared_Memory.thy ===== *)
theory Shared_Memory
  imports Shm
begin

text \<open>
  Theorems about shared memory: the frames of the segments against those of the allocator and of the address space, the
  life of a segment, and what two attachments of the same segment see.

  \<open>pool\<close> is the set of frames that the allocator may hand out or that an area of the address space owns; no operation of the
  address space makes it grow, so that a frame outside it, such as those of a segment, is safe from all of them.
\<close>

subsection \<open>The frames that the address space deals with\<close>

definition pool :: "'pt MmState \<Rightarrow> phys_frame set" where
  "pool s = free_addrs (ms_fa s) \<union> {f. \<exists>a x. page_at (ms_vm s) a = Some x \<and> frame_of x = Some f}"

definition pool_kept :: "'pt MmState \<Rightarrow> 'pt MmState \<Rightarrow> bool" where
  "pool_kept s t \<longleftrightarrow> pool t \<subseteq> pool s \<and> managed_addrs (ms_fa t) = managed_addrs (ms_fa s)"

lemma pool_kept_refl [simp]: "pool_kept s s"
  by (simp add: pool_kept_def)

lemma pool_kept_trans: "pool_kept s t \<Longrightarrow> pool_kept t u \<Longrightarrow> pool_kept s u"
  by (auto simp: pool_kept_def)

lemma pool_keptI:
  assumes "free_addrs (ms_fa t) \<subseteq> pool s" and "managed_addrs (ms_fa t) = managed_addrs (ms_fa s)"
    and "\<And>a x f. page_at (ms_vm t) a = Some x \<Longrightarrow> frame_of x = Some f \<Longrightarrow> f \<in> pool s"
  shows "pool_kept s t"
  using assms by (auto simp: pool_kept_def pool_def [of t])

lemma page_in_pool: "page_at (ms_vm s) a = Some x \<Longrightarrow> frame_of x = Some f \<Longrightarrow> f \<in> pool s"
  unfolding pool_def by blast

lemma free_in_pool: "f \<in> free_addrs (ms_fa s) \<Longrightarrow> f \<in> pool s"
  by (simp add: pool_def)

lemma pool_page: "f \<in> pool s \<Longrightarrow> f \<notin> free_addrs (ms_fa s) \<Longrightarrow> \<exists>a x. page_at (ms_vm s) a = Some x \<and> frame_of x = Some f"
  by (simp add: pool_def)

lemma aspace_invD:
  assumes "aspace_inv mp s"
  shows "mm_inv mp s" "paged (next_addr (ms_vm s))" "exclusive s" "phys_inv (ms_fa s)" "vm_inv (ms_vm s)" "areas_ok (areas s)"
    "page_at (ms_vm s) a = Some x \<Longrightarrow> a < 2 ^ 62 \<and> \<not> snd (snd (snd x))"
  using assms unfolding aspace_inv_def mm_inv_def vm_inv_iff by blast+

lemma munmap_done:
  assumes run: "munmap mp addr sz s = Some (r, s')" and ok: "addr mod 4096 = 0" "0 < sz"
  obtains n where "align_up sz = Some n" "addr + n \<le> U64_MAX"
  using run ok that by (auto simp: munmap_def bind_eq_Some_conv add64_def split: if_splits)

lemma munmap_pool:
  assumes inv: "aspace_inv mp s" and run: "munmap mp addr sz s = Some (r, s')"
  shows "pool_kept s s'"
proof (cases "addr mod 4096 \<noteq> 0 \<or> sz = 0")
  case True
  then show ?thesis using run by (auto simp: munmap_def)
next
  case False
  have a: "addr mod 4096 = 0" "0 < sz" using False by simp_all
  obtain n where n: "align_up sz = Some n" "addr + n \<le> U64_MAX" by (rule munmap_done [OF run a])
  obtain s0 where "munmap mp addr sz s = Some (Inr (), s0)" and s0: "same_rest s s0"
    "\<forall>a. page_at (ms_vm s0) a = (if addr \<le> a \<and> a < addr + n then None else page_at (ms_vm s) a)"
    "free_addrs (ms_fa s0) = free_addrs (ms_fa s) \<union> range_frames (ms_vm s) addr (addr + n)"
    using munmap_ok [OF aspace_invD(1) [OF inv] a n] by (elim exE conjE) (rule that; assumption)
  then have eq: "s' = s0" using run by simp
  show ?thesis
    unfolding eq
  proof (rule pool_keptI)
    show "free_addrs (ms_fa s0) \<subseteq> pool s"
    proof
      fix f assume "f \<in> free_addrs (ms_fa s0)"
      then consider "f \<in> free_addrs (ms_fa s)" | b pr fl c where "page_at (ms_vm s) b = Some (pr, fl, Some f, c)"
        unfolding s0(3) range_frames_def by blast
      then show "f \<in> pool s"
      proof cases
        case 2
        then show ?thesis by (rule page_in_pool) (simp add: frame_of_def)
      qed (rule free_in_pool)
    qed
    show "managed_addrs (ms_fa s0) = managed_addrs (ms_fa s)" using s0(1) by (simp add: same_rest_def)
    show "f \<in> pool s" if "page_at (ms_vm s0) b = Some x" "frame_of x = Some f" for b x f
    proof -
      have "page_at (ms_vm s) b = Some x" using that(1) s0(2) by (metis option.distinct(1))
      then show ?thesis using that(2) by (rule page_in_pool)
    qed
  qed
qed

lemma enter_pool:
  fixes prot :: Protection and flags :: MapFlags
  assumes "aspace_inv mp s" "a mod 4096 = 0" "n mod 4096 = 0" "0 < n" "a + n \<le> 2 ^ 62" "free_at (areas s) n a"
  defines "s' \<equiv> enter_area (fresh_vma a n prot flags) s"
  shows "pool_kept s s'" "mmap_at a n prot flags s = Some (Inr a, s')" "aspace_inv mp s'" "ms_pt s' = ms_pt s" "ms_fa s' = ms_fa s"
    "set (areas s') = insert (fresh_vma a n prot flags) (set (areas s))"
proof -
  have top: "a + n \<le> VTOP" using assms(5) MMAP_LIMIT_bounds by linarith
  note e = enter_fresh_ok [OF aspace_invD(1) [OF assms(1)] fresh_vma_ok [OF assms(2-4) top] assms(3,6), of prot flags, folded s'_def]
  show "set (areas s') = insert (fresh_vma a n prot flags) (set (areas s))" by (rule e(2))
  show sel: "ms_pt s' = ms_pt s" "ms_fa s' = ms_fa s" by (simp_all add: s'_def enter_area_def insert_vma_def Let_def)
  show run: "mmap_at a n prot flags s = Some (Inr a, s')" using mmap_at_eq [OF assms(2,3) top] by (simp add: s'_def)
  show "aspace_inv mp s'" by (rule enter_aspace [OF assms(1-6) run])
  show "pool_kept s s'"
    using e(3) by (intro pool_keptI) (auto simp: sel frame_of_def pool_def split: if_splits)
qed

text \<open>The outcomes of \<open>mmap\<close>: an error that changes nothing, or a new area on a range that is free, or was made free when the
  address is fixed.\<close>

lemma mmap_outcomes:
  assumes inv: "aspace_inv mp s" and hi: "hint + sz \<le> 2 ^ 61" and run: "mmap mp hint sz prot flags s = Some (r, s')"
  obtains er where "r = Inl er" "s' = s"
  | a n t where "r = Inr a" "align_up sz = Some n" "0 < n" "n mod 4096 = 0" "a mod 4096 = 0" "a + n \<le> 2 ^ 62" "free_at (areas t) n a"
      "aspace_inv mp t" "pool_kept s t" "\<not> mf_fixed flags \<longrightarrow> t = s" "s' = enter_area (fresh_vma a n prot flags) t"
proof (cases "sz = 0 \<or> mf_fixed flags \<and> (hint = 0 \<or> hint mod 4096 \<noteq> 0)")
  case True
  then have "s' = s \<and> (\<exists>er. r = Inl er)" using run by (auto simp: mmap_def bind_eq_Some_conv split: if_splits)
  then show ?thesis using that(1) by blast
next
  case False
  obtain n where al: "align_up sz = Some n" using run False by (auto simp: mmap_def bind_eq_Some_conv)
  have n: "n mod 4096 = 0" "0 < n" "hint + n \<le> 2 ^ 62"
    using align_up_pos [OF al] align_up_ge [OF al] False hi by (auto simp: PAGE_SIZE_def)
  show ?thesis
  proof (cases "mf_fixed flags")
    case True
    then have h: "hint mod 4096 = 0" using False by auto
    have aln: "align_up n = Some n" "hint + n \<le> U64_MAX" using n MMAP_LIMIT_bounds by (auto intro!: aligned_up_id)
    from munmap_ok [OF aspace_invD(1) [OF inv] h n(2) aln] obtain t where t: "munmap mp hint n s = Some (Inr (), t)"
      "\<forall>w \<in> set (areas t). \<not> overlapping hint (hint + n) w"
      by (elim exE conjE) (rule that; assumption)
    have fr: "free_at (areas t) n hint" using t(2) by (simp add: free_at_def)
    have at: "mmap_at hint n prot flags t = Some (r, s')" using run True False al t(1) h by (simp add: mmap_def)
    have inv': "aspace_inv mp t" by (rule munmap_aspace [OF inv t(1)])
    note e = enter_pool [OF inv' h n fr, of prot flags]
    have "r = Inr hint" "s' = enter_area (fresh_vma hint n prot flags) t" using e(2) at by simp_all
    then show ?thesis using that(2) [of hint n t] al n h fr inv' munmap_pool [OF inv t(1)] True by blast
  next
    case unfixed: False
    have "0 < sz" using False by simp
    from run obtain c where c: "choose_addr hint n (ms_vm s) = Some c"
      "(case c of Inl er \<Rightarrow> Some (Inl er, s) | Inr addr \<Rightarrow> mmap_at addr n prot flags s) = Some (r, s')"
      unfolding mmap_unfixed [OF \<open>0 < sz\<close> al unfixed] by (auto simp: bind_eq_Some_conv)
    show ?thesis
    proof (cases c)
      case (Inl er)
      then show ?thesis using c(2) that(1) [of er] by simp
    next
      case (Inr a)
      have a: "a mod 4096 = 0" "a + n \<le> 2 ^ 62" "free_at (areas s) n a"
        using choose_addr_sound [OF aspace_invD(1) [OF inv] n(1,2) aspace_invD(2) [OF inv] n(3)] c(1) Inr by auto
      have at: "mmap_at a n prot flags s = Some (r, s')" using c(2) Inr by simp
      have "r = Inr a" "s' = enter_area (fresh_vma a n prot flags) s" using enter_pool(2) [OF inv a(1) n(1,2) a(2,3), of prot flags] at by simp_all
      then show ?thesis using that(2) [of a n s] al n a inv by simp
    qed
  qed
qed

lemma mmap_pool:
  assumes inv: "aspace_inv mp s" and hi: "hint + sz \<le> 2 ^ 61" and run: "mmap mp hint sz prot flags s = Some (r, s')"
  shows "pool_kept s s'"
  using assms
proof (cases rule: mmap_outcomes)
  case (2 a n t)
  then show ?thesis using enter_pool(1) [OF 2(8,5,4,3,6,7), of prot flags] pool_kept_trans by blast
qed simp

lemma fault_pool:
  assumes inv: "aspace_inv mp s" and "mapper_ok mp" and run: "handle_page_fault mp a s = Some (r, s')"
  shows "pool_kept s s'"
proof -
  from handle_page_fault_cases [OF aspace_invD(1) [OF inv] assms(2), of a] run
  have s': "fault_kept s s'" "case r of Inr _ \<Rightarrow> fault_filled a s s' | Inl er \<Rightarrow> ms_vm s' = ms_vm s \<and> fault_refused mp a s er" by auto
  show ?thesis
  proof (rule pool_keptI)
    show "free_addrs (ms_fa s') \<subseteq> pool s" "managed_addrs (ms_fa s') = managed_addrs (ms_fa s)"
      using s'(1) by (auto simp: fault_kept_def pool_def)
    fix b x f assume x: "page_at (ms_vm s') b = Some x" "frame_of x = Some f"
    show "f \<in> pool s"
    proof (cases r)
      case (Inl er)
      then show ?thesis using s'(2) x page_in_pool by simp
    next
      case (Inr u)
      then obtain prot flags c g where g: "g \<in> free_addrs (ms_fa s)"
        "\<forall>b. page_at (ms_vm s') b = (if align_down b = align_down a then Some (prot, flags, Some g, c) else page_at (ms_vm s) b)"
        using s'(2) unfolding fault_filled_def by auto
      show ?thesis
      proof (cases "align_down b = align_down a")
        case True
        then have "f = g" using g(2) x by (auto simp: frame_of_def)
        then show ?thesis using g(1) by (simp add: pool_def)
      next
        case False
        then show ?thesis using g(2) x page_in_pool by simp
      qed
    qed
  qed
qed

lemma mprotect_pool:
  assumes inv: "aspace_inv mp s" and run: "mprotect mp addr sz prot s = Some (r, s')"
  shows "pool_kept s s'"
proof -
  note c = mprotect_cases [OF aspace_invD(1) [OF inv] run]
  have old: "\<exists>y. page_at (ms_vm s) b = Some y \<and> frame_of y = frame_of x" if "page_at (ms_vm s') b = Some x" for b x
  proof (cases r)
    case (Inl er)
    then show ?thesis using c that by simp
  next
    case (Inr u)
    then obtain v where "page_at (ms_vm s') b = (if in_vma v b then map_option (reprotect prot) (page_at (ms_vm s) b) else page_at (ms_vm s) b)"
      using c by auto
    then show ?thesis using that by (cases "page_at (ms_vm s) b") (auto simp: reprotect_def frame_of_def split: if_splits)
  qed
  show ?thesis
  proof (rule pool_keptI)
    show "free_addrs (ms_fa s') \<subseteq> pool s" "managed_addrs (ms_fa s') = managed_addrs (ms_fa s)" using c by (auto simp: pool_def)
    show "f \<in> pool s" if "page_at (ms_vm s') b = Some x" "frame_of x = Some f" for b x f
      using old [OF that(1)] that(2) page_in_pool by metis
  qed
qed

text \<open>Areas that disappear and frames from elsewhere that become free keep the address space well formed.\<close>

lemma aspace_shrink:
  assumes inv: "aspace_inv mp s" and vm: "vm_inv (ms_vm t)" "set (areas t) \<subseteq> set (areas s)" "next_addr (ms_vm t) = next_addr (ms_vm s)"
    and fa: "phys_inv (ms_fa t)" "managed_addrs (ms_fa t) = managed_addrs (ms_fa s)" "free_addrs (ms_fa t) \<subseteq> free_addrs (ms_fa s) \<union> G"
    and G: "G \<inter> pool s = {}"
  shows "aspace_inv mp t" "pool t \<subseteq> pool s \<union> G"
proof -
  have ok: "areas_ok (areas t)" using vm(1) by (simp add: vm_inv_iff)
  have pages: "page_at (ms_vm s) a = Some x" if "page_at (ms_vm t) a = Some x" for a x
    using that vm(2) unfolding page_at_Some [OF ok] page_at_Some [OF aspace_invD(6) [OF inv]] by blast
  have "exclusive t"
    unfolding exclusive_def
  proof (intro allI impI conjI)
    fix a x f assume x: "page_at (ms_vm t) a = Some x" "frame_of x = Some f"
    have "f \<notin> free_addrs (ms_fa s)" using aspace_invD(3) [OF inv] pages [OF x(1)] x(2) unfolding exclusive_def by blast
    moreover have "f \<notin> G" using page_in_pool [OF pages [OF x(1)] x(2)] G by blast
    ultimately show "f \<notin> free_addrs (ms_fa t)" using fa(3) by blast
    fix b y assume y: "page_at (ms_vm t) b = Some y" "frame_of y = Some f"
    show "align_down b = align_down a"
      using aspace_invD(3) [OF inv] pages [OF x(1)] pages [OF y(1)] x(2) y(2) unfolding exclusive_def by blast
  qed
  moreover have "mm_inv mp t"
    using inv vm fa backed_ok_cong [OF fa(2), of mp] by (auto simp: aspace_inv_def mm_inv_def)
  moreover have "a < 2 ^ 62 \<and> \<not> snd (snd (snd x))" if "page_at (ms_vm t) a = Some x" for a x
    using aspace_invD(7) [OF inv pages [OF that]] .
  ultimately show "aspace_inv mp t" using aspace_invD(2) [OF inv] vm(3) unfolding aspace_inv_def by metis
  show "pool t \<subseteq> pool s \<union> G" 
  proof
    fix f assume "f \<in> pool t"
    then consider "f \<in> free_addrs (ms_fa t)" | a x where "page_at (ms_vm t) a = Some x" "frame_of x = Some f"
      unfolding pool_def by blast
    then show "f \<in> pool s \<union> G" using fa(3) free_in_pool page_in_pool [OF pages] by cases blast+
  qed
qed

lemma remove_vma_ok:
  assumes "vm_inv m"
  shows "vm_inv (snd (remove_vma a m))" "set (vma_values (snd (remove_vma a m))) \<subseteq> set (vma_values m)"
    "next_addr (snd (remove_vma a m)) = next_addr m"
proof -
  have k: "vmas m = keyed (vma_values m)" "areas_ok (vma_values m)" using assms by (simp_all add: vm_inv_iff)
  have keys: "fst e = v_start (snd e)" if "e \<in> set (vmas m)" for e using assms that by (simp add: vm_inv_def)
  have "snd (remove_vma a m) = m \<or> (\<exists>b. snd (remove_vma a m) = m\<lparr>vmas := keyed (filter (\<lambda>w. v_start w \<noteq> b) (vma_values m))\<rparr>)"
    by (auto simp: remove_vma_def bt_remove_keyed [symmetric] k(1) [symmetric] split: option.splits)
  then show "vm_inv (snd (remove_vma a m))" "set (vma_values (snd (remove_vma a m))) \<subseteq> set (vma_values m)"
    "next_addr (snd (remove_vma a m)) = next_addr m"
    using assms areas_ok_filter [OF k(2)] by (auto simp: vm_inv_iff vma_values_def [of "m\<lparr>vmas := x\<rparr>" for x])
qed

subsection \<open>The loops over frames\<close>

lemma give_all_ok:
  assumes "phys_inv fa" "set fs \<subseteq> managed_addrs fa"
  shows "\<exists>fa'. give_all fs fa = Some fa' \<and> phys_inv fa' \<and> managed_addrs fa' = managed_addrs fa \<and> free_addrs fa' = free_addrs fa \<union> set fs"
  using assms
proof (induction fs arbitrary: fa)
  case (Cons f fs)
  obtain fa1 where 1: "deallocate fa f = Some fa1" "phys_inv fa1" "free_addrs fa1 = insert f (free_addrs fa)" "managed_addrs fa1 = managed_addrs fa"
    using bitmap.dealloc_ok [OF Cons.prems(1), of f] Cons.prems(2) by auto
  with Cons.IH [of fa1] Cons.prems(2) show ?case by (auto simp: give_all_def)
qed (simp add: give_all_def)

definition got_frames :: "nat \<Rightarrow> phys_frame list \<Rightarrow> 'pt MmState \<Rightarrow> phys_frame list option \<Rightarrow> 'pt MmState \<Rightarrow> bool" where
  "got_frames n fs s r t \<longleftrightarrow> ms_vm t = ms_vm s \<and> ms_pt t = ms_pt s \<and> phys_inv (ms_fa t) \<and> managed_addrs (ms_fa t) = managed_addrs (ms_fa s)
     \<and> (case r of None \<Rightarrow> free_addrs (ms_fa t) = free_addrs (ms_fa s) \<union> set fs
        | Some gs \<Rightarrow> \<exists>hs. gs = fs @ hs \<and> length hs = n \<and> distinct hs \<and> set hs \<subseteq> free_addrs (ms_fa s)
            \<and> free_addrs (ms_fa t) = free_addrs (ms_fa s) - set hs \<and> (\<forall>f \<in> set hs. \<forall>x. f \<le> x \<and> x < f + 4096 \<longrightarrow> ms_mem t x = 0))"

lemma take_frames_ok:
  assumes "phys_inv (ms_fa s)" "set fs \<subseteq> managed_addrs (ms_fa s)"
  shows "\<exists>r t. take_frames n fs s = Some (r, t) \<and> got_frames n fs s r t
    \<and> (\<forall>x. ms_mem s x = 0 \<longrightarrow> ms_mem t x = 0)"
  using assms
proof (induction n fs s rule: take_frames.induct)
  case (1 fs s)
  then show ?case by (simp add: got_frames_def)
next
  case (2 n fs s)
  consider (full) "allocate (ms_fa s) = Some (None, ms_fa s)"
    | (new) f fa where "allocate (ms_fa s) = Some (Some f, fa)" "f \<in> free_addrs (ms_fa s)" "phys_inv fa"
        "free_addrs fa = free_addrs (ms_fa s) - {f}" "managed_addrs fa = managed_addrs (ms_fa s)"
    using bitmap.alloc_ok [OF 2(2)] by blast
  then show ?case
  proof cases
    case full
    then show ?thesis using give_all_ok [OF 2(2,3)] by (auto simp: got_frames_def)
  next
    case new
    let ?s = "s\<lparr>ms_fa := fa, ms_mem := zero_page f (ms_mem s)\<rparr>"
    have "f \<in> managed_addrs fa" using bitmap.frees_managed [OF 2(2)] new(2,5) by auto
    then obtain r t where t: "take_frames n (fs @ [f]) ?s = Some (r, t)" "got_frames n (fs @ [f]) ?s r t" "\<forall>x. ms_mem ?s x = 0 \<longrightarrow> ms_mem t x = 0"
      using 2(1) [OF new(1) refl] new(3,5) 2(3) by auto
    have z: "ms_mem t x = 0" if "f \<le> x" "x < f + 4096" for x using t(3) that by (simp add: zero_page_def)
    have "got_frames (Suc n) fs s r t"
    proof (cases r)
      case None
      then show ?thesis using t(2) new(2,4,5) by (auto simp: got_frames_def)
    next
      case (Some gs)
      then obtain hs where "gs = (fs @ [f]) @ hs" "length hs = n" "distinct hs" "set hs \<subseteq> free_addrs fa" "free_addrs (ms_fa t) = free_addrs fa - set hs"
        "\<forall>f \<in> set hs. \<forall>x. f \<le> x \<and> x < f + 4096 \<longrightarrow> ms_mem t x = 0"
        using t(2) by (auto simp: got_frames_def)
      then show ?thesis
        using Some t(2) z new(2,4,5) by (auto simp: got_frames_def intro!: exI [of _ "f # hs"])
    qed
    moreover have "ms_mem t x = 0" if "ms_mem s x = 0" for x using t(3) that by (simp add: zero_page_def)
    ultimately show ?thesis using t(1) new(1) by auto
  qed
qed

lemma map_frames_kept:
  assumes "mapper_ok mp" "map_frames mp addr fl i fs s = Some (b, t)" "phys_inv (ms_fa s)"
  shows "phys_inv (ms_fa t) \<and> managed_addrs (ms_fa t) = managed_addrs (ms_fa s) \<and> free_addrs (ms_fa t) \<subseteq> free_addrs (ms_fa s)
    \<and> ms_vm t = ms_vm s \<and> ms_mem t = ms_mem s"
  using assms
proof (induction mp addr fl i fs s rule: map_frames.induct)
  case (2 mp addr fl i f fs s)
  from 2(3) obtain a page where ap: "page_addr addr i = Some a" "virt_addr_new mp a = Some page"
    by (auto simp: bind_eq_Some_conv)
  obtain r pt fa where r: "map_page mp page f fl (ms_pt s) (ms_fa s) = (r, pt, fa)" by (rule prod_cases3)
  note a = ap r
  have fa: "phys_inv fa" "managed_addrs fa = managed_addrs (ms_fa s)" "free_addrs fa \<subseteq> free_addrs (ms_fa s)"
    using 2(2) [unfolded mapper_ok_def, rule_format, OF 2(4) a(3)] by simp_all
  show ?case
  proof (cases r)
    case (Inl er)
    then show ?thesis using 2(3) a fa by (auto simp: bind_eq_Some_conv)
  next
    case (Inr u)
    then show ?thesis using 2(1) [OF a(1,2) a(3) [symmetric] refl refl Inr 2(2)] 2(3) a fa by auto
  qed
qed simp

subsection \<open>The invariant\<close>

definition frames_ok :: "(int \<rightharpoonup> phys_frame list) \<Rightarrow> phys_frame set \<Rightarrow> phys_frame set \<Rightarrow> bool" where
  "frames_ok F M P \<longleftrightarrow>
     (\<forall>i fs. F i = Some fs \<longrightarrow> distinct fs \<and> set fs \<subseteq> M \<and> set fs \<inter> P = {})
     \<and> (\<forall>i j fs gs. F i = Some fs \<longrightarrow> F j = Some gs \<longrightarrow> i \<noteq> j \<longrightarrow> set fs \<inter> set gs = {})"

definition frames_of :: "ShmManager \<Rightarrow> int \<rightharpoonup> phys_frame list" where
  "frames_of m = (\<lambda>i. map_option seg_frames (segments m i))"

definition seg_ok :: "int \<Rightarrow> ShmSegment \<Rightarrow> bool" where
  "seg_ok i g \<longleftrightarrow> seg_id g = i \<and> shm_segsz (seg_ds g) = 4096 * length (seg_frames g)
     \<and> (marked_for_removal g \<longrightarrow> 0 < shm_nattch (seg_ds g))"

definition table_ok :: "ShmManager \<Rightarrow> bool" where
  "table_ok m \<longleftrightarrow> 1 \<le> next_id m \<and> next_id m \<le> 2 ^ 31 \<and> distinct (map fst (attachments m))
     \<and> fst ` set (attachments m) = dom (segments m)
     \<and> (\<forall>i g. segments m i = Some g \<longrightarrow> 1 \<le> i \<and> i < int (next_id m) \<and> seg_ok i g)
     \<and> (\<forall>i l g. (i, l) \<in> set (attachments m) \<longrightarrow> segments m i = Some g \<longrightarrow> length l \<le> shm_nattch (seg_ds g))
     \<and> (\<forall>k i. key_to_id m k = Some i \<longrightarrow> k \<noteq> IPC_PRIVATE
          \<and> (\<exists>g. segments m i = Some g \<and> \<not> marked_for_removal g \<and> perm_key (shm_perm (seg_ds g)) = k))"

definition shm_ok :: "'pt Mapper \<Rightarrow> 'pt ShmState \<Rightarrow> bool" where
  "shm_ok mp s \<longleftrightarrow> aspace_inv mp (mem s) \<and> table_ok (mgr s)
     \<and> frames_ok (frames_of (mgr s)) (managed_addrs (ms_fa (mem s))) (pool (mem s))"

lemma frames_okD:
  assumes "frames_ok F M P" "F i = Some fs"
  shows "distinct fs" "set fs \<subseteq> M" "set fs \<inter> P = {}" "F j = Some gs \<Longrightarrow> i \<noteq> j \<Longrightarrow> set fs \<inter> set gs = {}"
  using assms unfolding frames_ok_def by blast+

lemma frames_ok_mono: "frames_ok F M P \<Longrightarrow> P' \<subseteq> P \<Longrightarrow> frames_ok F M P'"
  unfolding frames_ok_def by blast

lemma frames_ok_drop:
  assumes "frames_ok F M P" "F i = Some fs" "P' \<subseteq> P \<union> set fs"
  shows "frames_ok (F(i := None)) M P'"
proof -
  have "set gs \<inter> P' = {}" if "F j = Some gs" "j \<noteq> i" for j gs
    using frames_okD(3) [OF assms(1) that(1)] frames_okD(4) [OF assms(1) that(1) assms(2) that(2)] assms(3) by blast
  moreover have "F j = Some gs \<and> j \<noteq> i" if "(F(i := None)) j = Some gs" for j gs using that by (auto split: if_splits)
  ultimately show ?thesis using assms(1) unfolding frames_ok_def by meson
qed

lemma frames_ok_add:
  assumes "frames_ok F M P" "distinct fs" "set fs \<subseteq> M" "set fs \<subseteq> P" "P' \<subseteq> P - set fs"
  shows "frames_ok (F(i \<mapsto> fs)) M P'"
proof -
  have d: "set gs \<inter> set fs = {}" "set gs \<inter> P' = {}" if "F j = Some gs" for j gs
    using frames_okD(3) [OF assms(1) that] assms(4,5) by blast+
  have g: "set fs \<inter> P' = {}" using assms(5) by blast
  show ?thesis
    unfolding frames_ok_def
  proof (intro conjI allI impI)
    fix j gs assume "(F(i \<mapsto> fs)) j = Some gs"
    then have "gs = fs \<or> F j = Some gs" by (auto split: if_splits)
    then show "distinct gs" "set gs \<subseteq> M" "set gs \<inter> P' = {}"
      using assms(2,3) g d(2) [of j gs] frames_okD(1,2) [OF assms(1), of j gs] by auto
  next
    fix j k gs hs assume a: "(F(i \<mapsto> fs)) j = Some gs" "(F(i \<mapsto> fs)) k = Some hs" "j \<noteq> k"
    show "set gs \<inter> set hs = {}"
    proof (cases "j = i \<or> k = i")
      case True
      then have "gs = fs \<and> F k = Some hs \<or> hs = fs \<and> F j = Some gs" using a by auto
      then show ?thesis using d(1) [of j gs] d(1) [of k hs] by blast
    next
      case False
      then show ?thesis using a frames_okD(4) [OF assms(1), of j gs k hs] by simp
    qed
  qed
qed

lemma fst_id_update [simp]: "map fst (id_update k f xs) = map fst xs"
  by (induction xs) (auto simp: id_update_def)

lemma in_id_update: "(i, l) \<in> set (id_update k f xs) \<longleftrightarrow> (\<exists>l0. (i, l0) \<in> set xs \<and> l = (if i = k then f l0 else l0))"
  by (induction xs) (auto simp: id_update_def split: if_splits)

lemma id_remove_update: "id_remove k (id_update k f xs) = filter (\<lambda>e. fst e \<noteq> k) xs"
  by (induction xs) (auto simp: id_remove_def id_update_def)

lemma id_insert_set: "k \<notin> fst ` set xs \<Longrightarrow> set (id_insert k v xs) = insert (k, v) (set xs)"
  by (induction k v xs rule: id_insert.induct) auto

lemma id_insert_distinct: "k \<notin> fst ` set xs \<Longrightarrow> distinct (map fst xs) \<Longrightarrow> distinct (map fst (id_insert k v xs))"
proof (induction k v xs rule: id_insert.induct)
  case (2 k v k' v' xs)
  then show ?case using id_insert_set [of k xs v] by auto
qed simp

lemma table_okD:
  assumes "table_ok m"
  shows "1 \<le> next_id m" "next_id m \<le> 2 ^ 31" "fst ` set (attachments m) = dom (segments m)"
    "segments m i = Some g \<Longrightarrow> 1 \<le> i \<and> i < int (next_id m) \<and> seg_ok i g"
    "key_to_id m k = Some i \<Longrightarrow> k \<noteq> IPC_PRIVATE
       \<and> (\<exists>g. segments m i = Some g \<and> \<not> marked_for_removal g \<and> perm_key (shm_perm (seg_ds g)) = k)"
    "segments m i = Some g \<Longrightarrow> (i, l) \<in> set (attachments m) \<Longrightarrow> length l \<le> shm_nattch (seg_ds g)"
  using assms unfolding table_ok_def by blast+

lemma table_ok_next:
  assumes "table_ok m" "next_id m \<le> n" "n \<le> 2 ^ 31"
  shows "table_ok (m\<lparr>next_id := n\<rparr>)"
proof -
  have "1 \<le> i \<and> i < int n \<and> seg_ok i g" if "segments m i = Some g" for i g
    using table_okD(4) [OF assms(1) that] assms(2) by auto
  moreover have "1 \<le> n" using table_okD(1) [OF assms(1)] assms(2) by simp
  ultimately show ?thesis using assms(1,3) unfolding table_ok_def by simp
qed

text \<open>A change of one segment that keeps its frames.\<close>

lemma table_ok_put:
  assumes ok: "table_ok m" and g: "segments m i = Some g" and g': "seg_ok i g'"
    and att: "\<And>l. (i, l) \<in> set (attachments m) \<Longrightarrow> length (f l) \<le> shm_nattch (seg_ds g')"
    and keys: "\<And>k j. K k = Some j \<Longrightarrow> key_to_id m k = Some j \<and> (j = i \<longrightarrow> \<not> marked_for_removal g' \<and> perm_key (shm_perm (seg_ds g')) = k)"
  shows "table_ok (m\<lparr>segments := (segments m)(i \<mapsto> g'), attachments := id_update i f (attachments m), key_to_id := K\<rparr>)"
proof -
  have "fst ` set (id_update i f (attachments m)) = fst ` set (attachments m)"
    by (metis fst_id_update list.set_map)
  moreover have "dom ((segments m)(i \<mapsto> g')) = dom (segments m)" using g by auto
  moreover have "1 \<le> i \<and> i < int (next_id m)" using ok g by (simp add: table_ok_def)
  ultimately show ?thesis
    using ok g' att keys unfolding table_ok_def by (auto simp: in_id_update split: if_splits)
qed

lemma table_ok_drop:
  assumes ok: "table_ok m" and K: "\<And>k j. K k = Some j \<Longrightarrow> key_to_id m k = Some j \<and> j \<noteq> i"
    and A: "A = id_remove i (id_update i f (attachments m))"
  shows "table_ok (m\<lparr>segments := (segments m)(i := None), attachments := A, key_to_id := K\<rparr>)"
proof -
  have A': "A = filter (\<lambda>e. fst e \<noteq> i) (attachments m)"
    unfolding A by (rule id_remove_update)
  have "fst ` set A = fst ` set (attachments m) - {i}" by (auto simp: A')
  moreover have "distinct (map fst A)" using ok by (simp add: A' table_ok_def distinct_map_filter)
  ultimately show ?thesis
    using ok K unfolding table_ok_def A' by (auto split: if_splits)
qed

lemma table_ok_add:
  assumes ok: "table_ok m" and i: "i = int (next_id m)" "next_id m < 2 ^ 31" and g: "seg_ok i g" "\<not> marked_for_removal g"
    and K: "\<And>k j. K k = Some j \<Longrightarrow> key_to_id m k = Some j \<or> k \<noteq> IPC_PRIVATE \<and> j = i \<and> perm_key (shm_perm (seg_ds g)) = k"
  shows "table_ok (m\<lparr>next_id := next_id m + 1, segments := (segments m)(i \<mapsto> g), attachments := id_insert i [] (attachments m), key_to_id := K\<rparr>)"
proof -
  have new: "segments m i = None"
  proof (rule ccontr)
    assume "segments m i \<noteq> None"
    then have "i < int (next_id m)" using ok by (auto simp: table_ok_def)
    then show False using i(1) by simp
  qed
  have fr: "i \<notin> fst ` set (attachments m)" using ok new by (auto simp: table_ok_def)
  have d: "distinct (map fst (attachments m))" using ok by (simp add: table_ok_def)
  note ins = id_insert_set [OF fr, of "[]"] id_insert_distinct [OF fr d, of "[]"]
  have "(\<forall>j h. ((segments m)(i \<mapsto> g)) j = Some h \<longrightarrow> 1 \<le> j \<and> j < int (next_id m + 1) \<and> seg_ok j h)"
  proof (intro allI impI)
    fix j h assume h: "((segments m)(i \<mapsto> g)) j = Some h"
    show "1 \<le> j \<and> j < int (next_id m + 1) \<and> seg_ok j h"
    proof (cases "j = i")
      case False
      then have "segments m j = Some h" using h by simp
      then have "1 \<le> j \<and> j < int (next_id m) \<and> seg_ok j h" using ok by (simp add: table_ok_def)
      then show ?thesis by simp
    next
      case True
      then have "h = g" using h by simp
      moreover have "1 \<le> next_id m" using ok by (simp add: table_ok_def)
      ultimately show ?thesis using g(1) i(1) True by simp
    qed
  qed
  moreover have "\<exists>h. ((segments m)(i \<mapsto> g)) j = Some h \<and> \<not> marked_for_removal h \<and> perm_key (shm_perm (seg_ds h)) = k" "k \<noteq> IPC_PRIVATE"
    if "K k = Some j" for k j
  proof -
    from K [OF that] have "j = i \<and> k \<noteq> IPC_PRIVATE \<and> perm_key (shm_perm (seg_ds g)) = k
        \<or> j \<noteq> i \<and> k \<noteq> IPC_PRIVATE \<and> (\<exists>h. segments m j = Some h \<and> \<not> marked_for_removal h \<and> perm_key (shm_perm (seg_ds h)) = k)"
      using table_okD(5) [OF ok, of k j] new by auto
    then show "\<exists>h. ((segments m)(i \<mapsto> g)) j = Some h \<and> \<not> marked_for_removal h \<and> perm_key (shm_perm (seg_ds h)) = k" "k \<noteq> IPC_PRIVATE"
      using g(2) by auto
  qed
  moreover have "length l \<le> shm_nattch (seg_ds h)"
    if "(j, l) \<in> set (id_insert i [] (attachments m))" "((segments m)(i \<mapsto> g)) j = Some h" for j l h
  proof (cases "j = i")
    case True
    then have "l = []" using that(1) fr unfolding ins(1) by (metis fst_conv image_eqI insertE snd_conv)
    then show ?thesis by simp
  next
    case False
    then show ?thesis using that table_okD(6) [OF ok, of j h l] unfolding ins(1) by simp
  qed
  moreover have "fst ` set (id_insert i [] (attachments m)) = dom ((segments m)(i \<mapsto> g))"
    using ok unfolding ins(1) table_ok_def by simp
  ultimately show ?thesis using ok ins(2) i(2) by (simp add: table_ok_def)
qed

subsection \<open>Every call keeps the invariant\<close>

lemma shm_okD:
  assumes "shm_ok mp s"
  shows "aspace_inv mp (mem s)" "table_ok (mgr s)" "frames_ok (frames_of (mgr s)) (managed_addrs (ms_fa (mem s))) (pool (mem s))"
    "phys_inv (ms_fa (mem s))"
  using assms aspace_invD(4) by (auto simp: shm_ok_def)

lemma shm_seg:
  assumes "shm_ok mp s" "segments (mgr s) i = Some g"
  shows "distinct (seg_frames g)" "set (seg_frames g) \<subseteq> managed_addrs (ms_fa (mem s))" "set (seg_frames g) \<inter> pool (mem s) = {}"
    "1 \<le> i" "i < 2 ^ 31" "seg_ok i g"
proof -
  have f: "frames_of (mgr s) i = Some (seg_frames g)" using assms(2) by (simp add: frames_of_def)
  show "distinct (seg_frames g)" "set (seg_frames g) \<subseteq> managed_addrs (ms_fa (mem s))" "set (seg_frames g) \<inter> pool (mem s) = {}"
    using frames_okD(1-3) [OF shm_okD(3) [OF assms(1)] f] by blast+
  note t = table_okD [OF shm_okD(2) [OF assms(1)]]
  show "1 \<le> i" "i < 2 ^ 31" "seg_ok i g" using t(2) t(4) [OF assms(2)] by auto
qed

text \<open>Memory operations that keep the pool do not reach the segments.\<close>

lemma shm_ok_mem:
  assumes "shm_ok mp s" "aspace_inv mp t" "pool_kept (mem s) t"
  shows "shm_ok mp (s\<lparr>mem := t\<rparr>)"
  using shm_okD [OF assms(1)] assms(2,3) frames_ok_mono [of _ _ "pool (mem s)" "pool t"]
  by (simp add: shm_ok_def pool_kept_def)

lemma frames_of_put:
  assumes "segments m i = Some g" "seg_frames g' = seg_frames g" "segments m' = (segments m)(i \<mapsto> g')"
  shows "frames_of m' = frames_of m"
  using assms by (auto simp: frames_of_def)

lemma create_segment_ok:
  assumes ok: "shm_ok mp s" and id: "next_id (mgr s) < 2 ^ 31" and fresh: "key_to_id (mgr s) key = None \<or> key = IPC_PRIVATE"
    and sz: "0 < sz" and run: "create_segment ctx key sz flg s = Some (r, s')"
  shows "shm_ok mp s'"
proof -
  note m = table_okD [OF shm_okD(2) [OF ok]] and fr = shm_okD(3,4) [OF ok]
  obtain n where n: "align_up sz = Some n" using run by (auto simp: create_segment_def bind_eq_Some_conv)
  have nmod: "n = 4096 * (n div 4096)" using align_up_pos [OF n sz] page_mult [of n] by (simp add: mult.commute)
  have al: "alloc_id (mgr s) = (int (next_id (mgr s)), (mgr s)\<lparr>next_id := next_id (mgr s) + 1\<rparr>)"
    using id by (simp add: alloc_id_def wrap_i32_def)
  obtain fr mm where t: "take_frames (n div 4096) [] (mem s) = Some (fr, mm)" "got_frames (n div 4096) [] (mem s) fr mm"
    using take_frames_ok [OF fr(2), of "[]" "n div 4096"] by auto
  have mem: "ms_vm mm = ms_vm (mem s)" "phys_inv (ms_fa mm)" "managed_addrs (ms_fa mm) = managed_addrs (ms_fa (mem s))"
    using t(2) by (simp_all add: got_frames_def)
  note shrink = aspace_shrink [OF shm_okD(1) [OF ok], of mm "{}"]
  have vmi: "vm_inv (ms_vm mm)" "set (areas mm) \<subseteq> set (areas (mem s))" "next_addr (ms_vm mm) = next_addr (ms_vm (mem s))"
    using aspace_invD(5) [OF shm_okD(1) [OF ok]] by (simp_all add: mem(1))
  show ?thesis
  proof (cases fr)
    case None
    then have free: "free_addrs (ms_fa mm) \<subseteq> free_addrs (ms_fa (mem s)) \<union> {}" using t(2) by (simp add: got_frames_def)
    have s': "s' = s\<lparr>mgr := (mgr s)\<lparr>next_id := next_id (mgr s) + 1\<rparr>, mem := mm\<rparr>"
      using run None by (simp add: create_segment_def n al t(1) Let_def)
    have "table_ok ((mgr s)\<lparr>next_id := next_id (mgr s) + 1\<rparr>)"
      using table_ok_next [OF shm_okD(2) [OF ok]] id by simp
    moreover have "frames_of ((mgr s)\<lparr>next_id := next_id (mgr s) + 1\<rparr>) = frames_of (mgr s)" by (simp add: frames_of_def)
    ultimately show ?thesis
      using shrink [OF vmi mem(2,3) free] frames_ok_mono [OF fr(1)] by (simp add: shm_ok_def s' mem(3))
  next
    case (Some fs)
    then have fs: "length fs = n div 4096" "distinct fs" "set fs \<subseteq> free_addrs (ms_fa (mem s))" "free_addrs (ms_fa mm) = free_addrs (ms_fa (mem s)) - set fs"
      using t(2) by (auto simp: got_frames_def)
    then have free: "free_addrs (ms_fa mm) \<subseteq> free_addrs (ms_fa (mem s)) \<union> {}" by auto
    note as = shrink [OF vmi mem(2,3) free, simplified]
    define i where "i = int (next_id (mgr s))"
    define g where "g = (seg_new (ctx_now ctx) i key n (ctx_uid ctx) (ctx_gid ctx) (ucast (flg AND 0x1FF)) (ctx_pid ctx mod 2 ^ 32))\<lparr>seg_frames := fs\<rparr>"
    define K where "K = (if key \<noteq> IPC_PRIVATE then (key_to_id (mgr s))(key \<mapsto> i) else key_to_id (mgr s))"
    let ?m = "(mgr s)\<lparr>next_id := next_id (mgr s) + 1, segments := (segments (mgr s))(i \<mapsto> g), attachments := id_insert i [] (attachments (mgr s)), key_to_id := K\<rparr>"
    have s': "s' = s\<lparr>mgr := ?m, mem := mm\<rparr>"
      using run Some by (auto simp: create_segment_def n al t(1) Let_def g_def K_def i_def put_seg_def)
    have gk: "seg_ok i g" "\<not> marked_for_removal g" "perm_key (shm_perm (seg_ds g)) = key" "seg_frames g = fs"
      using nmod fs(1) by (simp_all add: g_def seg_new_def seg_ok_def perm_new_def)
    have "table_ok ?m"
    proof (rule table_ok_add [OF shm_okD(2) [OF ok] i_def id gk(1,2)])
      show "key_to_id (mgr s) k = Some j \<or> k \<noteq> IPC_PRIVATE \<and> j = i \<and> perm_key (shm_perm (seg_ds g)) = k" if "K k = Some j" for k j
        using that gk(3) by (auto simp: K_def split: if_splits)
    qed
    moreover have "frames_of ?m = (frames_of (mgr s))(i \<mapsto> fs)" by (auto simp: frames_of_def gk(4))
    moreover have "frames_ok ((frames_of (mgr s))(i \<mapsto> fs)) (managed_addrs (ms_fa (mem s))) (pool mm)"
    proof (rule frames_ok_add [OF fr(1) fs(2)])
      show "set fs \<subseteq> pool (mem s)" "set fs \<subseteq> managed_addrs (ms_fa (mem s))"
        using fs(3) free_in_pool bitmap.frees_managed [OF fr(2)] by blast+
      have "f \<notin> set fs" if fp: "f \<in> pool mm" for f
      proof
        assume f: "f \<in> set fs"
        then have "f \<notin> free_addrs (ms_fa mm)" using fs(4) by blast
        then obtain a x where "page_at (ms_vm (mem s)) a = Some x" "frame_of x = Some f" using pool_page [OF fp] mem(1) by auto
        then have "f \<notin> free_addrs (ms_fa (mem s))" using aspace_invD(3) [OF shm_okD(1) [OF ok]] unfolding exclusive_def by blast
        then show False using f fs(3) by blast
      qed
      then show "pool mm \<subseteq> pool (mem s) - set fs" using as(2) by blast
    qed
    ultimately show ?thesis using as(1) by (simp add: shm_ok_def s' mem(3))
  qed
qed

lemma shmget_ok:
  assumes ok: "shm_ok mp s" and id: "next_id (mgr s) < 2 ^ 31" and run: "sys_shmget ctx key sz flg s = Some (r, s')"
  shows "shm_ok mp s'"
proof -
  have "s' = s \<or> (key_to_id (mgr s) key = None \<or> key = IPC_PRIVATE) \<and> 0 < sz \<and> create_segment ctx key sz flg s = Some (r, s')"
  proof (cases "key_to_id (mgr s) key")
    case (Some i)
    then obtain g where "segments (mgr s) i = Some g" using table_okD(5) [OF shm_okD(2) [OF ok]] by blast
    then show ?thesis using run Some by (auto simp: sys_shmget_def split: if_splits)
  qed (use run in \<open>auto simp: sys_shmget_def split: if_splits\<close>)
  then show ?thesis using ok create_segment_ok [OF ok id] by blast
qed

text \<open>The outcomes of \<open>shmat\<close>.\<close>

definition attach_area :: "bool \<Rightarrow> nat \<Rightarrow> MapFlags" where
  "attach_area readonly shmaddr = \<lparr>mf_shared = True, mf_private = False, mf_anonymous = False, mf_fixed = (shmaddr \<noteq> 0)\<rparr>"

definition attached :: "SysCtx \<Rightarrow> int \<Rightarrow> ShmSegment \<Rightarrow> bool \<Rightarrow> nat \<Rightarrow> ShmManager \<Rightarrow> ShmManager" where
  "attached ctx i g readonly addr m =
     m\<lparr>segments := (segments m)(i \<mapsto> g\<lparr>seg_ds := (seg_ds g)\<lparr>shm_nattch := shm_nattch (seg_ds g) + 1, shm_atime := ctx_now ctx,
          shm_lpid := ctx_pid ctx mod 2 ^ 32\<rparr>\<rparr>),
       attachments := id_update i (\<lambda>l. l @ [\<lparr>at_pid = ctx_pid ctx, at_addr = addr, at_size = shm_segsz (seg_ds g), at_readonly = readonly\<rparr>]) (attachments m)\<rparr>"

lemma shmat_outcomes:
  assumes run: "sys_shmat mp ctx i shmaddr flg s = Some (r, s')"
  obtains "s' = s" "r < 0"
  | g er t where "segments (mgr s) i = Some g" "mmap mp shmaddr (shm_segsz (seg_ds g)) (attach_prot (flg AND SHM_RDONLY \<noteq> 0))
        (attach_area (flg AND SHM_RDONLY \<noteq> 0) shmaddr) (mem s) = Some (Inl er, t)" "s' = s\<lparr>mem := t\<rparr>" "r = ENOMEM"
  | g addr t u b where "segments (mgr s) i = Some g" "mmap mp shmaddr (shm_segsz (seg_ds g)) (attach_prot (flg AND SHM_RDONLY \<noteq> 0))
        (attach_area (flg AND SHM_RDONLY \<noteq> 0) shmaddr) (mem s) = Some (Inr addr, t)"
      "map_frames mp addr (attach_flags (flg AND SHM_RDONLY \<noteq> 0)) 0 (seg_frames g) t = Some (b, u)"
      "if b then s' = s\<lparr>mem := u, mgr := attached ctx i g (flg AND SHM_RDONLY \<noteq> 0) addr (mgr s)\<rparr> \<and> r = wrap_i64 (int addr)
         \<and> shm_nattch (seg_ds g) + 1 < 2 ^ 16
         \<and> (if flg AND SHM_RDONLY \<noteq> 0 then can_read else can_write) (shm_perm (seg_ds g)) (ctx_uid ctx) (ctx_gid ctx)
       else s' = s\<lparr>mem := u\<rparr> \<and> r = ENOMEM"
proof -
  let ?ro = "flg AND SHM_RDONLY \<noteq> 0"
  consider "s' = s" "r < 0" | g where "segments (mgr s) i = Some g"
      "(if ?ro then can_read else can_write) (shm_perm (seg_ds g)) (ctx_uid ctx) (ctx_gid ctx)"
      "\<not> (marked_for_removal g \<and> shm_nattch (seg_ds g) = 0)"
    using run by (auto simp: sys_shmat_def Let_def errno split: option.splits if_splits)
  then show thesis
  proof cases
    case 1
    then show ?thesis by (rule that(1))
  next
    case (2 g)
    have "Option.bind (mmap mp shmaddr (shm_segsz (seg_ds g)) (attach_prot ?ro) (attach_area ?ro shmaddr) (mem s)) (\<lambda>(q, mm).
        case q of Inl _ \<Rightarrow> Some (ENOMEM, s\<lparr>mem := mm\<rparr>)
        | Inr addr \<Rightarrow> Option.bind (map_frames mp addr (attach_flags ?ro) 0 (seg_frames g) mm) (\<lambda>(b, u).
            if \<not> b then Some (ENOMEM, s\<lparr>mem := u\<rparr>)
            else if shm_nattch (seg_ds g) + 1 < 2 ^ 16
              then Some (wrap_i64 (int addr), s\<lparr>mem := u, mgr := attached ctx i g ?ro addr (mgr s)\<rparr>) else None)) = Some (r, s')"
      using run 2 unfolding sys_shmat_def attach_area_def attached_def put_seg_def
      by (simp add: Let_def if_distrib [of "\<lambda>x. Option.bind x f" for f] cong: if_cong option.case_cong sum.case_cong split: if_splits)
    then obtain q mm where q: "mmap mp shmaddr (shm_segsz (seg_ds g)) (attach_prot ?ro) (attach_area ?ro shmaddr) (mem s) = Some (q, mm)"
      "(case q of Inl _ \<Rightarrow> Some (ENOMEM, s\<lparr>mem := mm\<rparr>)
        | Inr addr \<Rightarrow> Option.bind (map_frames mp addr (attach_flags ?ro) 0 (seg_frames g) mm) (\<lambda>(b, u).
            if \<not> b then Some (ENOMEM, s\<lparr>mem := u\<rparr>)
            else if shm_nattch (seg_ds g) + 1 < 2 ^ 16
              then Some (wrap_i64 (int addr), s\<lparr>mem := u, mgr := attached ctx i g ?ro addr (mgr s)\<rparr>) else None)) = Some (r, s')"
      by (auto simp: bind_eq_Some_conv)
    show ?thesis
    proof (cases q)
      case (Inl er)
      then show ?thesis using that(2) [OF 2(1), of er mm] q by simp
    next
      case (Inr addr)
      then obtain b u where u: "map_frames mp addr (attach_flags ?ro) 0 (seg_frames g) mm = Some (b, u)"
        "(if \<not> b then Some (ENOMEM, s\<lparr>mem := u\<rparr>)
            else if shm_nattch (seg_ds g) + 1 < 2 ^ 16
              then Some (wrap_i64 (int addr), s\<lparr>mem := u, mgr := attached ctx i g ?ro addr (mgr s)\<rparr>) else None) = Some (r, s')"
        using q(2) by (auto simp: bind_eq_Some_conv)
      have "if b then s' = s\<lparr>mem := u, mgr := attached ctx i g ?ro addr (mgr s)\<rparr> \<and> r = wrap_i64 (int addr) \<and> shm_nattch (seg_ds g) + 1 < 2 ^ 16
          \<and> (if ?ro then can_read else can_write) (shm_perm (seg_ds g)) (ctx_uid ctx) (ctx_gid ctx)
        else s' = s\<lparr>mem := u\<rparr> \<and> r = ENOMEM"
        using u(2) 2(2) by (cases b) (auto split: if_splits)
      then show ?thesis using that(3) [OF 2(1) _ u(1)] q(1) Inr by simp
    qed
  qed
qed

lemma attached_ok:
  assumes ok: "table_ok m" and g: "segments m i = Some g" and n: "shm_nattch (seg_ds g) + 1 < 2 ^ 16"
  shows "table_ok (attached ctx i g ro addr m)" "frames_of (attached ctx i g ro addr m) = frames_of m"
proof -
  let ?g = "g\<lparr>seg_ds := (seg_ds g)\<lparr>shm_nattch := shm_nattch (seg_ds g) + 1, shm_atime := ctx_now ctx, shm_lpid := ctx_pid ctx mod 2 ^ 32\<rparr>\<rparr>"
  let ?f = "\<lambda>l. l @ [\<lparr>at_pid = ctx_pid ctx, at_addr = addr, at_size = shm_segsz (seg_ds g), at_readonly = ro\<rparr>]"
  have "table_ok (m\<lparr>segments := (segments m)(i \<mapsto> ?g), attachments := id_update i ?f (attachments m), key_to_id := key_to_id m\<rparr>)"
  proof (rule table_ok_put [OF ok g])
    show "seg_ok i ?g" using table_okD(4) [OF ok g] by (simp add: seg_ok_def)
    show "length (?f l) \<le> shm_nattch (seg_ds ?g)" if "(i, l) \<in> set (attachments m)" for l
      using table_okD(6) [OF ok g that] by simp
    show "key_to_id m k = Some j \<and> (j = i \<longrightarrow> \<not> marked_for_removal ?g \<and> perm_key (shm_perm (seg_ds ?g)) = k)"
      if "key_to_id m k = Some j" for k j using table_okD(5) [OF ok that] that g by auto
  qed
  then show "table_ok (attached ctx i g ro addr m)" by (simp add: attached_def)
  show "frames_of (attached ctx i g ro addr m) = frames_of m"
    by (rule frames_of_put [OF g, of ?g]) (simp_all add: attached_def)
qed

lemma shmat_ok:
  assumes ok: "shm_ok mp s" and mok: "mapper_ok mp" and hi: "\<And>g. segments (mgr s) i = Some g \<Longrightarrow> shmaddr + shm_segsz (seg_ds g) \<le> 2 ^ 61"
    and run: "sys_shmat mp ctx i shmaddr flg s = Some (r, s')"
  shows "shm_ok mp s'"
proof (rule shmat_outcomes [OF run])
  assume "s' = s"
  then show ?thesis using ok by simp
next
  fix g er t assume g: "segments (mgr s) i = Some g" and m: "mmap mp shmaddr (shm_segsz (seg_ds g)) (attach_prot (flg AND SHM_RDONLY \<noteq> 0))
        (attach_area (flg AND SHM_RDONLY \<noteq> 0) shmaddr) (mem s) = Some (Inl er, t)" and s': "s' = s\<lparr>mem := t\<rparr>"
  show ?thesis
    unfolding s' using mmap_aspace [OF shm_okD(1) [OF ok] hi [OF g] m] mmap_pool [OF shm_okD(1) [OF ok] hi [OF g] m] by (rule shm_ok_mem [OF ok])
next
  fix g addr t u b assume g: "segments (mgr s) i = Some g" and m: "mmap mp shmaddr (shm_segsz (seg_ds g)) (attach_prot (flg AND SHM_RDONLY \<noteq> 0))
        (attach_area (flg AND SHM_RDONLY \<noteq> 0) shmaddr) (mem s) = Some (Inr addr, t)"
    and f: "map_frames mp addr (attach_flags (flg AND SHM_RDONLY \<noteq> 0)) 0 (seg_frames g) t = Some (b, u)"
    and out: "if b then s' = s\<lparr>mem := u, mgr := attached ctx i g (flg AND SHM_RDONLY \<noteq> 0) addr (mgr s)\<rparr> \<and> r = wrap_i64 (int addr)
         \<and> shm_nattch (seg_ds g) + 1 < 2 ^ 16
         \<and> (if flg AND SHM_RDONLY \<noteq> 0 then can_read else can_write) (shm_perm (seg_ds g)) (ctx_uid ctx) (ctx_gid ctx)
       else s' = s\<lparr>mem := u\<rparr> \<and> r = ENOMEM"
  note t = mmap_aspace [OF shm_okD(1) [OF ok] hi [OF g] m] mmap_pool [OF shm_okD(1) [OF ok] hi [OF g] m]
  note k = map_frames_kept [OF mok f aspace_invD(4) [OF t(1)]]
  have vmi: "vm_inv (ms_vm u)" "set (areas u) \<subseteq> set (areas t)" "next_addr (ms_vm u) = next_addr (ms_vm t)"
    using aspace_invD(5) [OF t(1)] k by simp_all
  have u: "aspace_inv mp u" "pool u \<subseteq> pool t \<union> {}"
    using aspace_shrink [OF t(1) vmi, of "{}"] k by simp_all
  have "pool_kept t u" using u(2) k by (simp add: pool_kept_def)
  with t(2) have "pool_kept (mem s) u" by (rule pool_kept_trans)
  then have okm: "shm_ok mp (s\<lparr>mem := u\<rparr>)" by (rule shm_ok_mem [OF ok u(1)])
  show ?thesis
  proof (cases b)
    case True
    then have "s' = s\<lparr>mem := u, mgr := attached ctx i g (flg AND SHM_RDONLY \<noteq> 0) addr (mgr s)\<rparr>" "shm_nattch (seg_ds g) + 1 < 2 ^ 16"
      using out by simp_all
    then show ?thesis using okm attached_ok [OF shm_okD(2) [OF ok] g] by (simp add: shm_ok_def)
  next
    case False
    then show ?thesis using okm out by simp
  qed
qed

text \<open>What \<open>destroy_segment\<close> does.\<close>

lemma destroy_eq:
  assumes g: "segments (mgr s) i = Some g" and fa: "phys_inv (ms_fa (mem s))" "set (seg_frames g) \<subseteq> managed_addrs (ms_fa (mem s))"
  shows "\<exists>fa. destroy_segment i s = Some (s\<lparr>mem := (mem s)\<lparr>ms_fa := fa\<rparr>,
        mgr := (mgr s)\<lparr>segments := (segments (mgr s))(i := None), attachments := id_remove i (attachments (mgr s))\<rparr>\<rparr>)
    \<and> phys_inv fa \<and> managed_addrs fa = managed_addrs (ms_fa (mem s)) \<and> free_addrs fa = free_addrs (ms_fa (mem s)) \<union> set (seg_frames g)"
  using give_all_ok [OF fa] g by (auto simp: destroy_segment_def)

text \<open>The memory part of a destruction: the frames of a segment become free.\<close>

lemma shm_ok_released:
  assumes ok: "shm_ok mp s" and g: "segments (mgr s) i = Some g" and tab: "table_ok m" and fo: "frames_of m = (frames_of (mgr s))(i := None)"
    and mm: "vm_inv (ms_vm mm)" "set (areas mm) \<subseteq> set (areas (mem s))" "next_addr (ms_vm mm) = next_addr (ms_vm (mem s))"
    and fa: "phys_inv (ms_fa mm)" "managed_addrs (ms_fa mm) = managed_addrs (ms_fa (mem s))"
      "free_addrs (ms_fa mm) = free_addrs (ms_fa (mem s)) \<union> set (seg_frames g)"
    and s': "mgr s' = m" "mem s' = mm"
  shows "shm_ok mp s'"
proof -
  have f: "frames_of (mgr s) i = Some (seg_frames g)" using g by (simp add: frames_of_def)
  have a: "aspace_inv mp mm" "pool mm \<subseteq> pool (mem s) \<union> set (seg_frames g)"
    using aspace_shrink [OF shm_okD(1) [OF ok] mm fa(1,2), of "set (seg_frames g)"] fa(3) shm_seg(3) [OF ok g] by auto
  then show ?thesis using tab frames_ok_drop [OF shm_okD(3) [OF ok] f a(2)] by (simp add: shm_ok_def fo fa(2) s')
qed

lemma find_attach_Some:
  "find_attach pid addr xs = Some (i, sz) \<Longrightarrow> \<exists>l a. (i, l) \<in> set xs \<and> a \<in> set l \<and> at_pid a = pid \<and> at_addr a = addr \<and> at_size a = sz"
proof (induction pid addr xs rule: find_attach.induct)
  case (2 pid addr sid l xs)
  show ?case
  proof (cases "List.find (\<lambda>a. at_pid a = pid \<and> at_addr a = addr) l")
    case None
    then show ?thesis using 2 by auto
  next
    case (Some a)
    then have "a \<in> set l \<and> at_pid a = pid \<and> at_addr a = addr" by (metis (mono_tags, lifting) find_Some_iff nth_mem)
    then show ?thesis using 2(2) Some by auto
  qed
qed simp

text \<open>The segment and the table after a detachment.\<close>

definition left_seg :: "SysCtx \<Rightarrow> ShmSegment \<Rightarrow> ShmSegment" where
  "left_seg ctx g = g\<lparr>seg_ds := (seg_ds g)\<lparr>shm_nattch := shm_nattch (seg_ds g) - 1, shm_dtime := ctx_now ctx, shm_lpid := ctx_pid ctx mod 2 ^ 32\<rparr>\<rparr>"

definition left_list :: "SysCtx \<Rightarrow> nat \<Rightarrow> int \<Rightarrow> ShmManager \<Rightarrow> (int \<times> ShmAttach list) list" where
  "left_list ctx a i m = id_update i (filter (\<lambda>x. \<not> (at_pid x = ctx_pid ctx \<and> at_addr x = a))) (attachments m)"

lemma bind_ret:
  assumes "Option.bind x (\<lambda>t. Some (c, t)) = Some (r, s')"
  shows "x = Some s'" "r = c"
  using assms by (cases x; simp)+

lemma shmdt_outcomes:
  assumes ok: "shm_ok mp s" and run: "sys_shmdt mp ctx a s = Some (r, s')"
  obtains "s' = s" "r = EINVAL" "find_attach (ctx_pid ctx) a (attachments (mgr s)) = None"
  | i sz g pt mm where "find_attach (ctx_pid ctx) a (attachments (mgr s)) = Some (i, sz)" "segments (mgr s) i = Some g" "r = 0"
      "0 < shm_nattch (seg_ds g)" "\<And>l. (i, l) \<in> set (left_list ctx a i (mgr s)) \<Longrightarrow> length l \<le> shm_nattch (seg_ds g) - 1"
      "unmap_pages mp a (sz div 4096) (ms_pt (mem s)) = Some pt"
      "mm = (mem s)\<lparr>ms_pt := pt, ms_vm := snd (remove_vma a (ms_vm (mem s)))\<rparr>"
      "if marked_for_removal g \<and> shm_nattch (seg_ds g) = 1
       then \<exists>fa. mem s' = mm\<lparr>ms_fa := fa\<rparr> \<and> phys_inv fa \<and> managed_addrs fa = managed_addrs (ms_fa (mem s))
         \<and> free_addrs fa = free_addrs (ms_fa (mem s)) \<union> set (seg_frames g)
         \<and> mgr s' = (mgr s)\<lparr>segments := (segments (mgr s))(i := None), attachments := id_remove i (left_list ctx a i (mgr s))\<rparr>
       else mem s' = mm \<and> mgr s' = (mgr s)\<lparr>segments := (segments (mgr s))(i \<mapsto> left_seg ctx g), attachments := left_list ctx a i (mgr s)\<rparr>"
proof (cases "find_attach (ctx_pid ctx) a (attachments (mgr s))")
  case None
  then show ?thesis using run that(1) by (simp add: sys_shmdt_def)
next
  case (Some p)
  obtain i sz where p: "find_attach (ctx_pid ctx) a (attachments (mgr s)) = Some (i, sz)" using Some by (cases p) simp
  then obtain l x where l: "(i, l) \<in> set (attachments (mgr s))" "x \<in> set l" "at_pid x = ctx_pid ctx" "at_addr x = a"
    using find_attach_Some by blast
  note tab = table_okD [OF shm_okD(2) [OF ok]]
  have "i \<in> dom (segments (mgr s))" using tab(3) l(1) by force
  then obtain g where g: "segments (mgr s) i = Some g" by blast
  have dist: "distinct (map fst (attachments (mgr s)))" using shm_okD(2) [OF ok] by (simp add: table_ok_def)
  have shorter: "length k \<le> shm_nattch (seg_ds g) - 1" if k: "(i, k) \<in> set (left_list ctx a i (mgr s))" for k
  proof -
    obtain l0 where l0: "(i, l0) \<in> set (attachments (mgr s))" "k = filter (\<lambda>x. \<not> (at_pid x = ctx_pid ctx \<and> at_addr x = a)) l0"
      using k by (auto simp: left_list_def in_id_update)
    then have "l0 = l" using l(1) dist eq_key_imp_eq_value by fast
    then have "length k < length l" using l(2-4) l0(2) by (simp add: length_filter_less)
    then show ?thesis using tab(6) [OF g l(1)] by simp
  qed
  have pos: "0 < shm_nattch (seg_ds g)" using tab(6) [OF g l(1)] l(2) by (cases l) auto
  obtain pt where pt: "unmap_pages mp a (sz div 4096) (ms_pt (mem s)) = Some pt" using run p
    by (cases "unmap_pages mp a (sz div 4096) (ms_pt (mem s))") (simp_all add: sys_shmdt_def Let_def)
  let ?mm = "(mem s)\<lparr>ms_pt := pt, ms_vm := snd (remove_vma a (ms_vm (mem s)))\<rparr>"
  let ?m = "(mgr s)\<lparr>attachments := left_list ctx a i (mgr s), segments := (segments (mgr s))(i \<mapsto> left_seg ctx g)\<rparr>"
  let ?s = "s\<lparr>mem := ?mm, mgr := ?m\<rparr>"
  have m: "?m = (mgr s)\<lparr>segments := (segments (mgr s))(i \<mapsto> left_seg ctx g), attachments := left_list ctx a i (mgr s)\<rparr>" by simp
  have one: "marked_for_removal (left_seg ctx g) \<and> shm_nattch (seg_ds (left_seg ctx g)) = 0 \<longleftrightarrow> marked_for_removal g \<and> shm_nattch (seg_ds g) = 1"
    using pos by (auto simp: left_seg_def)
  have eq: "sys_shmdt mp ctx a s = Option.bind (if marked_for_removal (left_seg ctx g) \<and> shm_nattch (seg_ds (left_seg ctx g)) = 0
      then destroy_segment i ?s else Some ?s) (\<lambda>t. Some (0, t))"
    unfolding sys_shmdt_def Let_def p option.case prod.case pt Option.bind.bind_lunit by (simp add: g put_seg_def left_seg_def left_list_def)
  note run' = bind_ret [OF run [unfolded eq one]]
  show ?thesis
  proof (cases "marked_for_removal g \<and> shm_nattch (seg_ds g) = 1")
    case True
    have gs: "segments (mgr ?s) i = Some (left_seg ctx g)" by simp
    have fa: "phys_inv (ms_fa (mem ?s))" "set (seg_frames (left_seg ctx g)) \<subseteq> managed_addrs (ms_fa (mem ?s))"
      using shm_okD(4) [OF ok] shm_seg(2) [OF ok g] by (simp_all add: left_seg_def)
    have fr: "seg_frames (left_seg ctx g) = seg_frames g" by (simp add: left_seg_def)
    from destroy_eq [OF gs fa] obtain fa' where d: "destroy_segment i ?s = Some (?s\<lparr>mem := (mem ?s)\<lparr>ms_fa := fa'\<rparr>,
        mgr := (mgr ?s)\<lparr>segments := (segments (mgr ?s))(i := None), attachments := id_remove i (attachments (mgr ?s))\<rparr>\<rparr>)"
      "phys_inv fa'" "managed_addrs fa' = managed_addrs (ms_fa (mem s))" "free_addrs fa' = free_addrs (ms_fa (mem s)) \<union> set (seg_frames g)"
      unfolding fr by auto
    have "mem s' = ?mm\<lparr>ms_fa := fa'\<rparr>" "mgr s' = (mgr s)\<lparr>segments := (segments (mgr s))(i := None), attachments := id_remove i (left_list ctx a i (mgr s))\<rparr>"
      using run'(1) d(1) True by auto
    then show ?thesis using that(2) [OF p g run'(2) pos shorter pt refl] True d(2-4) by auto
  next
    case False
    then have "s' = ?s" using run'(1) by (metis option.inject)
    then have "mem s' = ?mm" "mgr s' = (mgr s)\<lparr>segments := (segments (mgr s))(i \<mapsto> left_seg ctx g), attachments := left_list ctx a i (mgr s)\<rparr>"
      using m by simp_all
    then show ?thesis using that(2) [OF p g run'(2) pos shorter pt refl] unfolding if_not_P [OF False] by blast
  qed
qed

lemma shmdt_ok:
  assumes ok: "shm_ok mp s" and run: "sys_shmdt mp ctx a s = Some (r, s')"
  shows "shm_ok mp s'"
proof (rule shmdt_outcomes [OF ok run])
  assume "s' = s"
  then show ?thesis using ok by simp
next
  fix i sz g pt mm
  assume g: "segments (mgr s) i = Some g" and pos: "0 < shm_nattch (seg_ds g)"
    and short: "\<And>l. (i, l) \<in> set (left_list ctx a i (mgr s)) \<Longrightarrow> length l \<le> shm_nattch (seg_ds g) - 1"
    and mm: "mm = (mem s)\<lparr>ms_pt := pt, ms_vm := snd (remove_vma a (ms_vm (mem s)))\<rparr>"
    and out: "if marked_for_removal g \<and> shm_nattch (seg_ds g) = 1
       then \<exists>fa. mem s' = mm\<lparr>ms_fa := fa\<rparr> \<and> phys_inv fa \<and> managed_addrs fa = managed_addrs (ms_fa (mem s))
         \<and> free_addrs fa = free_addrs (ms_fa (mem s)) \<union> set (seg_frames g)
         \<and> mgr s' = (mgr s)\<lparr>segments := (segments (mgr s))(i := None), attachments := id_remove i (left_list ctx a i (mgr s))\<rparr>
       else mem s' = mm \<and> mgr s' = (mgr s)\<lparr>segments := (segments (mgr s))(i \<mapsto> left_seg ctx g), attachments := left_list ctx a i (mgr s)\<rparr>"
  note tab = table_okD [OF shm_okD(2) [OF ok]] and rm = remove_vma_ok [OF aspace_invD(5) [OF shm_okD(1) [OF ok]], of a]
  have vmi: "vm_inv (ms_vm mm)" "set (areas mm) \<subseteq> set (areas (mem s))" "next_addr (ms_vm mm) = next_addr (ms_vm (mem s))"
    using rm by (simp_all add: mm)
  have sg: "seg_ok i g" using tab(4) [OF g] by simp
  show ?thesis
  proof (cases "marked_for_removal g \<and> shm_nattch (seg_ds g) = 1")
    case True
    then obtain fa where fa: "mem s' = mm\<lparr>ms_fa := fa\<rparr>" "phys_inv fa" "managed_addrs fa = managed_addrs (ms_fa (mem s))"
      "free_addrs fa = free_addrs (ms_fa (mem s)) \<union> set (seg_frames g)"
      "mgr s' = (mgr s)\<lparr>segments := (segments (mgr s))(i := None), attachments := id_remove i (left_list ctx a i (mgr s))\<rparr>"
      using out by auto
    have "key_to_id (mgr s) k = Some j \<Longrightarrow> j \<noteq> i" for k j using tab(5) g True by fastforce
    then have t: "table_ok (mgr s')"
      using table_ok_drop [OF shm_okD(2) [OF ok], of "key_to_id (mgr s)" i "id_remove i (left_list ctx a i (mgr s))"]
      by (simp add: fa(5) left_list_def)
    show ?thesis
      by (rule shm_ok_released [OF ok g t _ _ _ _ _ _ _ refl fa(1)]) (use vmi fa in \<open>auto simp: frames_of_def\<close>)
  next
    case False
    then have s': "mem s' = mm" "mgr s' = (mgr s)\<lparr>segments := (segments (mgr s))(i \<mapsto> left_seg ctx g), attachments := left_list ctx a i (mgr s)\<rparr>"
      using out by auto
    have so: "seg_ok i (left_seg ctx g)" using sg False pos by (auto simp: seg_ok_def left_seg_def)
    have "table_ok ((mgr s)\<lparr>segments := (segments (mgr s))(i \<mapsto> left_seg ctx g), attachments := left_list ctx a i (mgr s), key_to_id := key_to_id (mgr s)\<rparr>)"
      unfolding left_list_def
    proof (rule table_ok_put [OF shm_okD(2) [OF ok] g so])
      show "length (filter (\<lambda>x. \<not> (at_pid x = ctx_pid ctx \<and> at_addr x = a)) l) \<le> shm_nattch (seg_ds (left_seg ctx g))"
        if "(i, l) \<in> set (attachments (mgr s))" for l
        using short [of "filter (\<lambda>x. \<not> (at_pid x = ctx_pid ctx \<and> at_addr x = a)) l"] that by (auto simp: left_list_def in_id_update left_seg_def)
      show "key_to_id (mgr s) k = Some j \<and> (j = i \<longrightarrow> \<not> marked_for_removal (left_seg ctx g) \<and> perm_key (shm_perm (seg_ds (left_seg ctx g))) = k)"
        if "key_to_id (mgr s) k = Some j" for k j using tab(5) [OF that] that g by (auto simp: left_seg_def)
    qed
    then have t: "table_ok (mgr s')" by (simp add: s'(2))
    have fo: "frames_of (mgr s') = frames_of (mgr s)" by (rule frames_of_put [OF g, of "left_seg ctx g"]) (simp_all add: s'(2) left_seg_def)
    have "aspace_inv mp mm" "pool mm \<subseteq> pool (mem s) \<union> {}"
      using aspace_shrink [OF shm_okD(1) [OF ok] vmi, of "{}"] shm_okD(4) [OF ok] by (simp_all add: mm)
    then show ?thesis using t frames_ok_mono [OF shm_okD(3) [OF ok], of "pool mm"] by (simp add: shm_ok_def fo s'(1)) (simp add: mm)
  qed
qed

text \<open>The table when a segment has been marked for removal.\<close>

definition marked_table :: "int \<Rightarrow> ShmSegment \<Rightarrow> ShmManager \<Rightarrow> ShmManager" where
  "marked_table i g m =
     (let m = put_seg i (g\<lparr>marked_for_removal := True\<rparr>) m; key = perm_key (shm_perm (seg_ds g)) in
      if key \<noteq> IPC_PRIVATE then m\<lparr>key_to_id := (key_to_id m)(key := None)\<rparr> else m)"

lemma marked_table_eq:
  "marked_table i g m = m\<lparr>segments := (segments m)(i \<mapsto> g\<lparr>marked_for_removal := True\<rparr>), key_to_id :=
     (if perm_key (shm_perm (seg_ds g)) \<noteq> IPC_PRIVATE then (key_to_id m)(perm_key (shm_perm (seg_ds g)) := None) else key_to_id m)\<rparr>"
  by (simp add: marked_table_def put_seg_def Let_def)

lemma ipc_commands: "IPC_RMID \<noteq> IPC_STAT" "IPC_RMID \<noteq> IPC_SET" "IPC_SET \<noteq> IPC_STAT"
  by (simp_all add: IPC_RMID_def IPC_STAT_def IPC_SET_def)

lemma rmid_eq:
  assumes "segments (mgr s) i = Some g" "\<not> (ctx_uid ctx \<noteq> 0 \<and> ctx_uid ctx \<noteq> perm_uid (shm_perm (seg_ds g)))"
  shows "sys_shmctl ctx i IPC_RMID buf uds s =
    Option.bind (if shm_nattch (seg_ds g) = 0 then destroy_segment i (s\<lparr>mgr := marked_table i g (mgr s)\<rparr>)
      else Some (s\<lparr>mgr := marked_table i g (mgr s)\<rparr>)) (\<lambda>s. Some (0, None, s))"
  using assms by (cases "ctx_uid ctx = 0") (simp_all add: sys_shmctl_def Let_def marked_table_def ipc_commands)

lemma shmctl_ok:
  assumes ok: "shm_ok mp s" and run: "sys_shmctl ctx i cmd buf uds s = Some (r, out, s')"
  shows "shm_ok mp s'"
proof -
  note tab = table_okD [OF shm_okD(2) [OF ok]]
  have put: "shm_ok mp (s\<lparr>mgr := m'\<rparr>)"
    if g: "segments (mgr s) i = Some g" and g': "seg_ok i g'" "seg_frames g' = seg_frames g" "shm_nattch (seg_ds g') = shm_nattch (seg_ds g)"
      and K: "\<And>k j. K k = Some j \<Longrightarrow> key_to_id (mgr s) k = Some j
        \<and> (j = i \<longrightarrow> \<not> marked_for_removal g' \<and> perm_key (shm_perm (seg_ds g')) = k)"
      and m': "m' = (mgr s)\<lparr>segments := (segments (mgr s))(i \<mapsto> g'), key_to_id := K\<rparr>" for g g' K m'
  proof -
    have id: "id_update i (\<lambda>l. l) xs = xs" for xs :: "(int \<times> ShmAttach list) list" by (induction xs) (auto simp: id_update_def)
    have "table_ok ((mgr s)\<lparr>segments := (segments (mgr s))(i \<mapsto> g'), attachments := id_update i (\<lambda>l. l) (attachments (mgr s)), key_to_id := K\<rparr>)"
      using tab(6) [OF g] g'(3) K by (intro table_ok_put [OF shm_okD(2) [OF ok] g g'(1)]) auto
    then have "table_ok m'" by (simp add: id m')
    moreover have "frames_of m' = frames_of (mgr s)" by (rule frames_of_put [OF g g'(2)]) (simp add: m')
    ultimately show ?thesis using ok by (simp add: shm_ok_def)
  qed
  consider "s' = s"
    | (set) g and np :: ShmPerm where "segments (mgr s) i = Some g" "s' = s\<lparr>mgr := put_seg i (g\<lparr>seg_ds := (seg_ds g)\<lparr>shm_perm := (shm_perm (seg_ds g))\<lparr>perm_uid :=
        perm_uid np, perm_gid := perm_gid np, perm_mode := perm_mode np AND 0x1FF\<rparr>, shm_ctime := ctx_now ctx\<rparr>\<rparr>) (mgr s)\<rparr>"
    | (rm) g m where "segments (mgr s) i = Some g" "m = (mgr s)\<lparr>segments := (segments (mgr s))(i \<mapsto> g\<lparr>marked_for_removal := True\<rparr>), key_to_id :=
        (if perm_key (shm_perm (seg_ds g)) \<noteq> IPC_PRIVATE then (key_to_id (mgr s))(perm_key (shm_perm (seg_ds g)) := None) else key_to_id (mgr s))\<rparr>"
        "(if shm_nattch (seg_ds g) = 0 then destroy_segment i (s\<lparr>mgr := m\<rparr>) else Some (s\<lparr>mgr := m\<rparr>)) = Some s'"
  proof (cases "segments (mgr s) i")
    case None
    then show ?thesis using run that(1) by (auto simp: sys_shmctl_def Let_def split: if_splits)
  next
    case (Some g)
    consider "cmd = IPC_RMID" | "cmd = IPC_SET" | "cmd \<noteq> IPC_RMID" "cmd \<noteq> IPC_SET" by blast
    then show ?thesis
    proof cases
      case 1
      show ?thesis
      proof (cases "ctx_uid ctx \<noteq> 0 \<and> ctx_uid ctx \<noteq> perm_uid (shm_perm (seg_ds g))")
        case True
        then show ?thesis using run Some 1 that(1) by (simp add: sys_shmctl_def Let_def ipc_commands)
      next
        case False
        then show ?thesis
          using run that(3) [OF Some marked_table_eq] unfolding 1 rmid_eq [of s i g, OF Some False] by (auto simp: bind_eq_Some_conv)
      qed
    next
      case 2
      then show ?thesis using run Some that(1) that(2) [OF Some, of "shm_perm uds"]
        by (simp add: sys_shmctl_def Let_def ipc_commands split: if_splits)
    next
      case 3
      then show ?thesis using run Some that(1) by (auto simp: sys_shmctl_def Let_def split: if_splits)
    qed
  qed
  then show ?thesis
  proof cases
    case 1
    then show ?thesis using ok by simp
  next
    case (set g np)
    show ?thesis
      unfolding set(2)
    proof (rule put [OF set(1)])
      show "key_to_id (mgr s) k = Some j \<and> (j = i \<longrightarrow> \<not> marked_for_removal (g\<lparr>seg_ds := (seg_ds g)\<lparr>shm_perm := (shm_perm (seg_ds g))\<lparr>perm_uid :=
        perm_uid np, perm_gid := perm_gid np, perm_mode := perm_mode np AND 0x1FF\<rparr>, shm_ctime := ctx_now ctx\<rparr>\<rparr>) \<and> perm_key (shm_perm (seg_ds (g\<lparr>seg_ds := (seg_ds g)\<lparr>shm_perm := (shm_perm (seg_ds g))\<lparr>perm_uid :=
        perm_uid np, perm_gid := perm_gid np, perm_mode := perm_mode np AND 0x1FF\<rparr>, shm_ctime := ctx_now ctx\<rparr>\<rparr>))) = k)"
        if "key_to_id (mgr s) k = Some j" for k j using tab(5) [OF that] that set(1) by auto
    qed (use tab(4) [OF set(1)] in \<open>simp_all add: seg_ok_def put_seg_def\<close>)
  next
    case (rm g m)
    let ?K = "if perm_key (shm_perm (seg_ds g)) \<noteq> IPC_PRIVATE then (key_to_id (mgr s))(perm_key (shm_perm (seg_ds g)) := None) else key_to_id (mgr s)"
    have K: "key_to_id (mgr s) k = Some j \<and> j \<noteq> i" if "?K k = Some j" for k j
    proof -
      have k: "key_to_id (mgr s) k = Some j" "k \<noteq> perm_key (shm_perm (seg_ds g)) \<or> perm_key (shm_perm (seg_ds g)) = IPC_PRIVATE"
        using that by (auto split: if_splits)
      then show ?thesis using tab(5) [OF k(1)] rm(1) by auto
    qed
    show ?thesis
    proof (cases "shm_nattch (seg_ds g) = 0")
      case False
      have "seg_ok i (g\<lparr>marked_for_removal := True\<rparr>)" using tab(4) [OF rm(1)] False by (simp add: seg_ok_def)
      then have "shm_ok mp (s\<lparr>mgr := m\<rparr>)" using K by (intro put [OF rm(1), where K = ?K]) (auto simp: rm(2))
      then show ?thesis using rm(3) False by simp
    next
      case True
      have gs: "segments (mgr (s\<lparr>mgr := m\<rparr>)) i = Some (g\<lparr>marked_for_removal := True\<rparr>)" by (simp add: rm(2))
      have fa: "phys_inv (ms_fa (mem (s\<lparr>mgr := m\<rparr>)))" "set (seg_frames (g\<lparr>marked_for_removal := True\<rparr>)) \<subseteq> managed_addrs (ms_fa (mem (s\<lparr>mgr := m\<rparr>)))"
        using shm_okD(4) [OF ok] shm_seg(2) [OF ok rm(1)] by simp_all
      obtain fa where d: "mem s' = (mem s)\<lparr>ms_fa := fa\<rparr>" "mgr s' = m\<lparr>segments := (segments m)(i := None), attachments := id_remove i (attachments m)\<rparr>"
        "phys_inv fa" "managed_addrs fa = managed_addrs (ms_fa (mem s))" "free_addrs fa = free_addrs (ms_fa (mem s)) \<union> set (seg_frames g)"
        using destroy_eq [OF gs fa] rm(3) True by auto
      have "mgr s' = (mgr s)\<lparr>segments := (segments (mgr s))(i := None), attachments := id_remove i (attachments (mgr s)), key_to_id := ?K\<rparr>"
        by (simp add: d(2) rm(2))
      moreover have "id_remove i (attachments (mgr s)) = id_remove i (id_update i (\<lambda>l. l) (attachments (mgr s)))"
        unfolding id_remove_update by (simp add: id_remove_def)
      ultimately have m': "mgr s' = (mgr s)\<lparr>segments := (segments (mgr s))(i := None), attachments := id_remove i (attachments (mgr s)), key_to_id := ?K\<rparr>"
        "table_ok (mgr s')"
        using table_ok_drop [OF shm_okD(2) [OF ok] K] by simp_all
      show ?thesis
        by (rule shm_ok_released [OF ok rm(1) m'(2) _ _ _ _ _ _ _ refl d(1)])
          (use aspace_invD(5) [OF shm_okD(1) [OF ok]] d(3-5) m'(1) in \<open>auto simp: frames_of_def\<close>)
    qed
  qed
qed

subsection \<open>Runs\<close>

text \<open>The other users of memory: the calls on the address space and page faults.\<close>

inductive mm_call :: "'pt Mapper \<Rightarrow> 'pt MmState \<Rightarrow> 'pt MmState \<Rightarrow> bool" for mp s where
  "sys_mmap mp hint sz prot flags s = Some (r, t) \<Longrightarrow> hint + sz \<le> 2 ^ 61 \<Longrightarrow> mm_call mp s t"
| "sys_munmap mp addr sz s = Some (r, t) \<Longrightarrow> mm_call mp s t"
| "sys_mprotect mp addr sz prot s = Some (r, t) \<Longrightarrow> mm_call mp s t"
| "handle_page_fault mp addr s = Some (r, t) \<Longrightarrow> mm_call mp s t"

text \<open>Identifiers are handed out below \<open>2 ^ 31\<close>, where they stay positive; addresses keep to the bound of \<open>mm_reach\<close>.\<close>

inductive shm_reach :: "'pt Mapper \<Rightarrow> 'pt ShmState \<Rightarrow> bool" for mp where
  start: "mgr s = shm_new \<Longrightarrow> ms_vm (mem s) = vm_new \<Longrightarrow> phys_inv (ms_fa (mem s)) \<Longrightarrow> shm_reach mp s"
| get: "shm_reach mp s \<Longrightarrow> next_id (mgr s) < 2 ^ 31 \<Longrightarrow> sys_shmget ctx key sz flg s = Some (r, s') \<Longrightarrow> shm_reach mp s'"
| attach: "shm_reach mp s \<Longrightarrow> (\<And>g. segments (mgr s) i = Some g \<Longrightarrow> shmaddr + shm_segsz (seg_ds g) \<le> 2 ^ 61)
    \<Longrightarrow> sys_shmat mp ctx i shmaddr flg s = Some (r, s') \<Longrightarrow> shm_reach mp s'"
| detach: "shm_reach mp s \<Longrightarrow> sys_shmdt mp ctx a s = Some (r, s') \<Longrightarrow> shm_reach mp s'"
| control: "shm_reach mp s \<Longrightarrow> sys_shmctl ctx i cmd buf uds s = Some (r, out, s') \<Longrightarrow> shm_reach mp s'"
| memory: "shm_reach mp s \<Longrightarrow> mm_call mp (mem s) t \<Longrightarrow> shm_reach mp (s\<lparr>mem := t\<rparr>)"

lemma mm_call_kept:
  assumes "mm_call mp s t" "aspace_inv mp s" "mapper_ok mp"
  shows "aspace_inv mp t" "pool_kept s t"
proof -
  have "aspace_inv mp t \<and> pool_kept s t"
    using assms(1)
  proof (cases rule: mm_call.cases)
    case (1 hint sz prot flags r)
    show ?thesis
      using sys_mmap_mmap [OF 1(1)] mmap_aspace [OF assms(2) 1(2)] mmap_pool [OF assms(2) 1(2)] assms(2) by (elim disjE) auto
  next
    case (2 addr sz r)
    then show ?thesis using munmap_aspace [OF assms(2)] munmap_pool [OF assms(2)] by (simp add: sys_munmap_def)
  next
    case (3 addr sz prot r)
    then show ?thesis using mprotect_aspace [OF assms(2)] mprotect_pool [OF assms(2)] by (simp add: sys_mprotect_def)
  next
    case (4 addr r)
    then show ?thesis using fault_aspace [OF assms(2,3)] fault_pool [OF assms(2,3)] by blast
  qed
  then show "aspace_inv mp t" "pool_kept s t" by simp_all
qed

lemma shm_reach_ok:
  assumes "shm_reach mp s" "mapper_ok mp"
  shows "shm_ok mp s"
  using assms(1)
proof (induction rule: shm_reach.induct)
  case (start s)
  have "table_ok shm_new" by (simp add: table_ok_def shm_new_def)
  moreover have "frames_of shm_new = Map.empty" by (simp add: frames_of_def shm_new_def)
  ultimately show ?case using start aspace_inv_start by (simp add: shm_ok_def frames_ok_def)
next
  case (get s ctx key sz flg r s')
  then show ?case using shmget_ok by blast
next
  case (attach s i shmaddr ctx flg r s')
  show ?case by (rule shmat_ok [OF attach.IH assms(2) attach.hyps(2,3)])
next
  case (detach s ctx a r s')
  then show ?case using shmdt_ok by blast
next
  case (control s ctx i cmd buf uds r out s')
  then show ?case using shmctl_ok by blast
next
  case (memory s t)
  note k = mm_call_kept [OF memory.hyps(2) shm_okD(1) [OF memory.IH] assms(2)]
  show ?case by (rule shm_ok_mem [OF memory.IH k])
qed

subsection \<open>Properties\<close>

text \<open>C11. The frames of a segment are safe in every reachable state, whatever calls on shared memory, mappings, unmappings and
  page faults came before: a frame of a segment is not free, no area of the address space owns it, it is in no other
  segment, and it occurs once.  The size of a segment is that of its frames, and no more attachments are recorded than are
  counted.\<close>

theorem segment_frames_safe:
  assumes "shm_reach mp s" "mapper_ok mp" "segments (mgr s) i = Some g" "f \<in> set (seg_frames g)"
  shows "f \<notin> free_addrs (ms_fa (mem s)) \<and> (\<forall>a x. page_at (ms_vm (mem s)) a = Some x \<longrightarrow> frame_of x \<noteq> Some f)
    \<and> (\<forall>j h. segments (mgr s) j = Some h \<and> f \<in> set (seg_frames h) \<longrightarrow> j = i) \<and> distinct (seg_frames g)
    \<and> shm_segsz (seg_ds g) = 4096 * length (seg_frames g)
    \<and> (\<exists>l. (i, l) \<in> set (attachments (mgr s)) \<and> length l \<le> shm_nattch (seg_ds g))"
proof -
  note ok = shm_reach_ok [OF assms(1,2)]
  note sg = shm_seg [OF ok assms(3)] and tab = table_okD [OF shm_okD(2) [OF ok]]
  have "f \<notin> pool (mem s)" using sg(3) assms(4) by blast
  then have "f \<notin> free_addrs (ms_fa (mem s))" "\<forall>a x. page_at (ms_vm (mem s)) a = Some x \<longrightarrow> frame_of x \<noteq> Some f"
    using free_in_pool page_in_pool by blast+
  moreover have "j = i" if "segments (mgr s) j = Some h" "f \<in> set (seg_frames h)" for j h
  proof (rule ccontr)
    assume "j \<noteq> i"
    have "frames_of (mgr s) j = Some (seg_frames h)" "frames_of (mgr s) i = Some (seg_frames g)"
      using that(1) assms(3) by (simp_all add: frames_of_def)
    then show False using frames_okD(4) [OF shm_okD(3) [OF ok]] \<open>j \<noteq> i\<close> that(2) assms(4) by blast
  qed
  moreover have "\<exists>l. (i, l) \<in> set (attachments (mgr s)) \<and> length l \<le> shm_nattch (seg_ds g)"
  proof -
    have "i \<in> fst ` set (attachments (mgr s))" using tab(3) assms(3) by blast
    then show ?thesis using tab(6) [OF assms(3)] by fastforce
  qed
  ultimately show ?thesis using sg(1,6) by (auto simp: seg_ok_def)
qed

subsection \<open>The life of a segment\<close>

lemma id_remove_insert: "k \<notin> fst ` set xs \<Longrightarrow> id_remove k (id_insert k v xs) = xs"
proof (induction k v xs rule: id_insert.induct)
  case (2 k v k' v' xs)
  have "filter (\<lambda>e. fst e \<noteq> k) xs = xs" using 2(2) by (auto simp: filter_id_conv)
  with 2 show ?case by (auto simp: id_remove_def)
qed (simp add: id_remove_def)

text \<open>The outcome of a creation.\<close>

lemma create_outcomes:
  assumes ok: "shm_ok mp s" and id: "next_id (mgr s) < 2 ^ 31" and sz: "0 < sz" and run: "create_segment ctx key sz flg s = Some (r, s')"
  obtains "r = ENOMEM" "free_addrs (ms_fa (mem s')) = free_addrs (ms_fa (mem s))" "segments (mgr s') = segments (mgr s)"
  | g where "r = int (next_id (mgr s))" "segments (mgr s) r = None" "r \<notin> fst ` set (attachments (mgr s))"
      "mgr s' = (mgr s)\<lparr>next_id := next_id (mgr s) + 1, segments := (segments (mgr s))(r \<mapsto> g), attachments := id_insert r [] (attachments (mgr s)),
         key_to_id := (if key \<noteq> IPC_PRIVATE then (key_to_id (mgr s))(key \<mapsto> r) else key_to_id (mgr s))\<rparr>"
      "align_up sz = Some (4096 * length (seg_frames g))" "shm_segsz (seg_ds g) = 4096 * length (seg_frames g)" "shm_nattch (seg_ds g) = 0" "\<not> marked_for_removal g"
      "shm_perm (seg_ds g) = perm_new key (ctx_uid ctx) (ctx_gid ctx) (ucast (flg AND 0x1FF))"
      "set (seg_frames g) \<subseteq> free_addrs (ms_fa (mem s))" "free_addrs (ms_fa (mem s')) = free_addrs (ms_fa (mem s)) - set (seg_frames g)"
      "phys_inv (ms_fa (mem s'))" "set (seg_frames g) \<subseteq> managed_addrs (ms_fa (mem s'))"
      "\<And>f x. f \<in> set (seg_frames g) \<Longrightarrow> f \<le> x \<Longrightarrow> x < f + 4096 \<Longrightarrow> ms_mem (mem s') x = 0"
proof -
  note tab = table_okD [OF shm_okD(2) [OF ok]]
  obtain n where n: "align_up sz = Some n" using run by (auto simp: create_segment_def bind_eq_Some_conv)
  have nmod: "n = 4096 * (n div 4096)" using align_up_pos [OF n sz] page_mult [of n] by (simp add: mult.commute)
  have al: "alloc_id (mgr s) = (int (next_id (mgr s)), (mgr s)\<lparr>next_id := next_id (mgr s) + 1\<rparr>)"
    using id by (simp add: alloc_id_def wrap_i32_def)
  obtain q mm where t: "take_frames (n div 4096) [] (mem s) = Some (q, mm)" "got_frames (n div 4096) [] (mem s) q mm"
    using take_frames_ok [OF shm_okD(4) [OF ok], of "[]" "n div 4096"] by auto
  let ?i = "int (next_id (mgr s))"
  show thesis
  proof (cases q)
    case None
    then show ?thesis
      using run t(2) by (intro that(1)) (auto simp: create_segment_def n al t(1) got_frames_def)
  next
    case (Some fs)
    then have fs: "length fs = n div 4096" "set fs \<subseteq> free_addrs (ms_fa (mem s))" "free_addrs (ms_fa mm) = free_addrs (ms_fa (mem s)) - set fs"
        "\<forall>f \<in> set fs. \<forall>x. f \<le> x \<and> x < f + 4096 \<longrightarrow> ms_mem mm x = 0" "phys_inv (ms_fa mm)" "managed_addrs (ms_fa mm) = managed_addrs (ms_fa (mem s))"
      using t(2) by (auto simp: got_frames_def)
    define g where "g = (seg_new (ctx_now ctx) ?i key n (ctx_uid ctx) (ctx_gid ctx) (ucast (flg AND 0x1FF)) (ctx_pid ctx mod 2 ^ 32))\<lparr>seg_frames := fs\<rparr>"
    have s': "r = ?i" "mem s' = mm" "mgr s' = (mgr s)\<lparr>next_id := next_id (mgr s) + 1, segments := (segments (mgr s))(?i \<mapsto> g),
        attachments := id_insert ?i [] (attachments (mgr s)), key_to_id := (if key \<noteq> IPC_PRIVATE then (key_to_id (mgr s))(key \<mapsto> ?i) else key_to_id (mgr s))\<rparr>"
      using run Some by (auto simp: create_segment_def n al t(1) Let_def g_def put_seg_def)
    have new: "segments (mgr s) ?i = None"
    proof (rule ccontr)
      assume "segments (mgr s) ?i \<noteq> None"
      then show False using tab(4) by fastforce
    qed
    moreover have "?i \<notin> fst ` set (attachments (mgr s))" using tab(3) new by blast
    moreover have "set fs \<subseteq> managed_addrs (ms_fa mm)" using fs(2,6) bitmap.frees_managed [OF shm_okD(4) [OF ok]] by auto
    moreover have "4096 * length fs = n" using nmod fs(1) by simp
    ultimately show ?thesis
      using s' fs n by (intro that(2) [of g]) (simp_all add: g_def seg_new_def)
  qed
qed

text \<open>C17. When \<open>shmget\<close> makes a segment for a key that has none, its frames come from the free ones and hold zeros; any
  process that may read it finds it under its key with every size up to its own; and when its owner removes it again before
  anyone attaches it, the free frames, the segments, the keys and the attachments are what they were before.\<close>

theorem segment_lifetime:
  assumes "shm_reach mp s" "mapper_ok mp" "next_id (mgr s) < 2 ^ 31" and key: "key \<noteq> IPC_PRIVATE" "key_to_id (mgr s) key = None"
    and run: "sys_shmget ctx key sz flg s = Some (i, s1)" "0 \<le> i"
  shows "\<exists>g. segments (mgr s1) i = Some g \<and> align_up sz = Some (4096 * length (seg_frames g))
    \<and> set (seg_frames g) \<subseteq> free_addrs (ms_fa (mem s)) \<and> free_addrs (ms_fa (mem s1)) = free_addrs (ms_fa (mem s)) - set (seg_frames g)
    \<and> (\<forall>f \<in> set (seg_frames g). \<forall>x. f \<le> x \<and> x < f + 4096 \<longrightarrow> ms_mem (mem s1) x = 0)
    \<and> (\<forall>ctx2 sz2. can_read (shm_perm (seg_ds g)) (ctx_uid ctx2) (ctx_gid ctx2) \<longrightarrow> 0 < sz2 \<longrightarrow> sz2 \<le> 4096 * length (seg_frames g)
         \<longrightarrow> sys_shmget ctx2 key sz2 0 s1 = Some (i, s1))
    \<and> (\<exists>s2. sys_shmctl ctx i IPC_RMID buf uds s1 = Some (0, None, s2) \<and> free_addrs (ms_fa (mem s2)) = free_addrs (ms_fa (mem s))
         \<and> segments (mgr s2) = segments (mgr s) \<and> key_to_id (mgr s2) = key_to_id (mgr s) \<and> attachments (mgr s2) = attachments (mgr s))"
proof -
  note ok = shm_reach_ok [OF assms(1,2)]
  have "sz \<noteq> 0" "create_segment ctx key sz flg s = Some (i, s1)"
    using run key by (auto simp: sys_shmget_def errno split: if_splits)
  then show ?thesis
  proof (cases rule: create_outcomes [OF ok assms(3), of sz ctx key flg i s1])
    case 3
    then show ?thesis using run(2) by (simp add: ENOMEM_def)
  next
    case (4 g)
    have g: "segments (mgr s1) i = Some g" by (simp add: 4(4))
    have reuse: "sys_shmget ctx2 key sz2 0 s1 = Some (i, s1)"
      if "can_read (shm_perm (seg_ds g)) (ctx_uid ctx2) (ctx_gid ctx2)" "0 < sz2" "sz2 \<le> 4096 * length (seg_frames g)" for ctx2 sz2
      using that key(1) 4(6) by (simp add: sys_shmget_def 4(4))
    have own: "\<not> (ctx_uid ctx \<noteq> 0 \<and> ctx_uid ctx \<noteq> perm_uid (shm_perm (seg_ds g)))" "perm_key (shm_perm (seg_ds g)) = key"
      by (simp_all add: 4(9) perm_new_def)
    let ?m = "marked_table i g (mgr s1)"
    have gs: "segments (mgr (s1\<lparr>mgr := ?m\<rparr>)) i = Some (g\<lparr>marked_for_removal := True\<rparr>)" by (simp add: marked_table_eq)
    have fa: "phys_inv (ms_fa (mem (s1\<lparr>mgr := ?m\<rparr>)))" "set (seg_frames (g\<lparr>marked_for_removal := True\<rparr>)) \<subseteq> managed_addrs (ms_fa (mem (s1\<lparr>mgr := ?m\<rparr>)))"
      using 4(12,13) by simp_all
    obtain s2 where s2: "destroy_segment i (s1\<lparr>mgr := ?m\<rparr>) = Some s2" "free_addrs (ms_fa (mem s2)) = free_addrs (ms_fa (mem s1)) \<union> set (seg_frames g)"
      "mgr s2 = ?m\<lparr>segments := (segments ?m)(i := None), attachments := id_remove i (attachments ?m)\<rparr>"
      using destroy_eq [OF gs fa] by auto
    have "sys_shmctl ctx i IPC_RMID buf uds s1 = Some (0, None, s2)"
      using rmid_eq [OF g own(1)] s2(1) 4(7) by simp
    moreover have "free_addrs (ms_fa (mem s2)) = free_addrs (ms_fa (mem s))" using s2(2) 4(10,11) by auto
    moreover have "segments (mgr s2) = segments (mgr s)" using fun_upd_idem [where f = "segments (mgr s)" and x = i and y = None] 4(2) by (simp add: s2(3) marked_table_eq 4(4))
    moreover have "key_to_id (mgr s2) = key_to_id (mgr s)" using key fun_upd_idem [where f = "key_to_id (mgr s)" and x = key and y = None] by (simp add: s2(3) marked_table_eq 4(4) own(2))
    moreover have "attachments (mgr s2) = attachments (mgr s)" by (simp add: s2(3) marked_table_eq 4(4) id_remove_insert [OF 4(3)])
    ultimately have "\<exists>s2. sys_shmctl ctx i IPC_RMID buf uds s1 = Some (0, None, s2) \<and> free_addrs (ms_fa (mem s2)) = free_addrs (ms_fa (mem s))
         \<and> segments (mgr s2) = segments (mgr s) \<and> key_to_id (mgr s2) = key_to_id (mgr s) \<and> attachments (mgr s2) = attachments (mgr s)" by blast
    then show ?thesis using g reuse 4(5,10,11,14) by blast
  qed simp_all
qed

subsection \<open>Sharing\<close>

lemma map_frames_look:
  assumes "mapper_maps mp look" "map_frames mp addr fl i fs s = Some (True, t)"
  shows "(\<forall>k < length fs. look (ms_pt t) (addr + 4096 * (i + k)) = Some (fs ! k, fl))
    \<and> (\<forall>q. (\<forall>k < length fs. q \<noteq> addr + 4096 * (i + k)) \<longrightarrow> look (ms_pt t) q = look (ms_pt s) q)"
  using assms
proof (induction mp addr fl i fs s rule: map_frames.induct)
  case (2 mp addr fl i f fs s)
  from 2(3) obtain a page where ap: "page_addr addr i = Some a" "virt_addr_new mp a = Some page"
    by (auto simp: bind_eq_Some_conv)
  obtain r pt fa where r: "map_page mp page f fl (ms_pt s) (ms_fa s) = (r, pt, fa)" by (rule prod_cases3)
  obtain u where u: "r = Inr u" using 2(3) ap r by (cases r) (auto simp: bind_eq_Some_conv)
  let ?s = "s\<lparr>ms_pt := pt, ms_fa := fa\<rparr>"
  have run: "map_frames mp addr fl (i + 1) fs ?s = Some (True, t)" using 2(3) ap r u by simp
  note ih = 2(1) [OF ap r [symmetric] refl refl u 2(2) run]
  have page: "page = addr + 4096 * i"
    using ap 2(2) by (auto simp: mapper_maps_def page_addr_def mul64_def add64_def bind_eq_Some_conv mult.commute split: if_splits)
  have look: "look pt = (look (ms_pt s))(page \<mapsto> (f, fl))" using 2(2) r u unfolding mapper_maps_def by blast
  show ?case
  proof (intro conjI allI impI)
    fix k assume k: "k < length (f # fs)"
    show "look (ms_pt t) (addr + 4096 * (i + k)) = Some ((f # fs) ! k, fl)"
    proof (cases k)
      case 0
      have "look (ms_pt t) page = look pt page" using ih page by simp
      then show ?thesis using 0 look page by simp
    next
      case (Suc j)
      then have "look (ms_pt t) (addr + 4096 * (i + 1 + j)) = Some (fs ! j, fl)" using ih k by simp
      then show ?thesis using Suc by simp
    qed
  next
    fix q assume q: "\<forall>k < length (f # fs). q \<noteq> addr + 4096 * (i + k)"
    have "q \<noteq> page" using q [rule_format, of 0] page by simp
    moreover have "\<forall>k < length fs. q \<noteq> addr + 4096 * (i + 1 + k)"
    proof (intro allI impI)
      fix k assume "k < length fs"
      then have "q \<noteq> addr + 4096 * (i + Suc k)" using q [rule_format, of "Suc k"] by simp
      then show "q \<noteq> addr + 4096 * (i + 1 + k)" by simp
    qed
    ultimately show "look (ms_pt t) q = look (ms_pt s) q" using ih look by simp
  qed
qed simp

lemma shmat_success:
  assumes ok: "shm_ok mp s" and mok: "mapper_ok mp" "mapper_maps mp look" and g: "segments (mgr s) i = Some g" and hi: "shm_segsz (seg_ds g) \<le> 2 ^ 61"
    and run: "sys_shmat mp ctx i 0 flg s = Some (r, s')" "0 \<le> r"
  obtains addr where "r = int addr" "addr mod 4096 = 0" "free_at (areas (mem s)) (shm_segsz (seg_ds g)) addr"
    "\<exists>v \<in> set (areas (mem s')). v_start v = addr \<and> v_size v = shm_segsz (seg_ds g)"
    "\<forall>k < length (seg_frames g). look (ms_pt (mem s')) (addr + 4096 * k) = Some (seg_frames g ! k, attach_flags (flg AND SHM_RDONLY \<noteq> 0))"
    "\<forall>q. (\<forall>k < length (seg_frames g). q \<noteq> addr + 4096 * k) \<longrightarrow> look (ms_pt (mem s')) q = look (ms_pt (mem s)) q"
    "mgr s' = attached ctx i g (flg AND SHM_RDONLY \<noteq> 0) addr (mgr s)"
    "(if flg AND SHM_RDONLY \<noteq> 0 then can_read else can_write) (shm_perm (seg_ds g)) (ctx_uid ctx) (ctx_gid ctx)"
proof -
  let ?ro = "flg AND SHM_RDONLY \<noteq> 0" and ?n = "shm_segsz (seg_ds g)"
  show thesis
  proof (rule shmat_outcomes [OF run(1)])
    fix h a t u b
    assume h: "segments (mgr s) i = Some h" and m: "mmap mp 0 (shm_segsz (seg_ds h)) (attach_prot ?ro) (attach_area ?ro 0) (mem s) = Some (Inr a, t)"
      and f: "map_frames mp a (attach_flags ?ro) 0 (seg_frames h) t = Some (b, u)"
      and out: "if b then s' = s\<lparr>mem := u, mgr := attached ctx i h ?ro a (mgr s)\<rparr> \<and> r = wrap_i64 (int a) \<and> shm_nattch (seg_ds h) + 1 < 2 ^ 16
         \<and> (if ?ro then can_read else can_write) (shm_perm (seg_ds h)) (ctx_uid ctx) (ctx_gid ctx)
       else s' = s\<lparr>mem := u\<rparr> \<and> r = ENOMEM"
    have hg: "h = g" using h g by simp
    have b: "b" using out run(2) by (cases b) (simp_all add: ENOMEM_def)
    have bound: "0 + shm_segsz (seg_ds h) \<le> 2 ^ 61" using hi hg by simp
    show thesis
    proof (rule mmap_outcomes [OF shm_okD(1) [OF ok] bound m])
      fix a' n t' assume a: "(Inr a :: nat KResult) = Inr a'" and n: "align_up (shm_segsz (seg_ds h)) = Some n" "0 < n" "n mod 4096 = 0"
        and a': "a' mod 4096 = 0" "a' + n \<le> 2 ^ 62" "free_at (areas t') n a'" and inv: "aspace_inv mp t'"
        and fx: "\<not> mf_fixed (attach_area ?ro 0) \<longrightarrow> t' = mem s" and t: "t = enter_area (fresh_vma a' n (attach_prot ?ro) (attach_area ?ro 0)) t'"
      have eqs: "t' = mem s" "a' = a" using fx a by (simp_all add: attach_area_def)
      have "seg_ok i g" using shm_seg(6) [OF ok g] .
      then have "align_up ?n = Some ?n" using hi by (intro aligned_up_id) (auto simp: seg_ok_def VTOP_def)
      then have nn: "n = ?n" using n(1) hg by simp
      note e = enter_pool [OF inv a'(1) n(3,2) a'(2,3), of "attach_prot ?ro" "attach_area ?ro 0", folded t]
      have "ms_vm u = ms_vm t" using map_frames_kept [OF mok(1) f] aspace_invD(4) [OF e(3)] by simp
      then have "\<exists>v \<in> set (areas u). v_start v = a \<and> v_size v = ?n" using e(6) nn eqs(2) by auto
      moreover have "wrap_i64 (int a) = int a" using a'(2) eqs(2) by (intro wrap_i64_id) auto
      moreover have "ms_pt t = ms_pt (mem s)" using e(4) eqs by simp
      ultimately show thesis
        using that [of a] out b hg eqs a' nn map_frames_look [OF mok(2), of a "attach_flags ?ro" 0 "seg_frames h" t u] f by auto
    qed simp
  qed (use run(2) in \<open>auto simp: ENOMEM_def\<close>)
qed

text \<open>C15. Two attachments of a segment at addresses that the kernel chooses (a null address in both calls), the second made right after the
  first, with whatever credentials and permissions, lie apart in the address space and map the same frames in the same order, for a segment of
  at most 2 to the 61 bytes: page \<open>k\<close> of the one and page \<open>k\<close> of the other are frame \<open>k\<close> of the segment, writable exactly if
  the attachment is not read-only, and the second attachment leaves the pages of the first alone.  An address that the caller
  gives is outside this claim: \<open>mmap\<close> first unmaps what is there, so such an attachment can replace an earlier one.\<close>

theorem attachments_share_frames:
  assumes "shm_reach mp s" "mapper_ok mp" "mapper_maps mp look" "segments (mgr s) i = Some g" "shm_segsz (seg_ds g) \<le> 2 ^ 61"
    and "sys_shmat mp ctx1 i 0 flg1 s = Some (r1, s1)" "0 \<le> r1" and "sys_shmat mp ctx2 i 0 flg2 s1 = Some (r2, s2)" "0 \<le> r2"
  shows "(nat r1 + shm_segsz (seg_ds g) \<le> nat r2 \<or> nat r2 + shm_segsz (seg_ds g) \<le> nat r1)
    \<and> (\<forall>k < length (seg_frames g). look (ms_pt (mem s2)) (nat r1 + 4096 * k) = Some (seg_frames g ! k, attach_flags (flg1 AND SHM_RDONLY \<noteq> 0))
         \<and> look (ms_pt (mem s2)) (nat r2 + 4096 * k) = Some (seg_frames g ! k, attach_flags (flg2 AND SHM_RDONLY \<noteq> 0)))"
proof -
  note ok = shm_reach_ok [OF assms(1,2)]
  let ?n = "shm_segsz (seg_ds g)"
  have n: "?n = 4096 * length (seg_frames g)" using shm_seg(6) [OF ok assms(4)] by (simp add: seg_ok_def)
  obtain a1 where a1: "r1 = int a1" "\<exists>v \<in> set (areas (mem s1)). v_start v = a1 \<and> v_size v = ?n"
    "\<forall>k < length (seg_frames g). look (ms_pt (mem s1)) (a1 + 4096 * k) = Some (seg_frames g ! k, attach_flags (flg1 AND SHM_RDONLY \<noteq> 0))"
    "mgr s1 = attached ctx1 i g (flg1 AND SHM_RDONLY \<noteq> 0) a1 (mgr s)"
    by (rule shmat_success [OF ok assms(2-7)])
  have ok1: "shm_ok mp s1" using shmat_ok [OF ok assms(2) _ assms(6)] assms(4,5) by simp
  obtain h where h: "segments (mgr s1) i = Some h" "seg_frames h = seg_frames g" "shm_segsz (seg_ds h) = ?n"
    by (simp add: a1(4) attached_def)
  obtain a2 where a2: "r2 = int a2" "free_at (areas (mem s1)) ?n a2"
    "\<forall>k < length (seg_frames g). look (ms_pt (mem s2)) (a2 + 4096 * k) = Some (seg_frames g ! k, attach_flags (flg2 AND SHM_RDONLY \<noteq> 0))"
    "\<forall>q. (\<forall>k < length (seg_frames g). q \<noteq> a2 + 4096 * k) \<longrightarrow> look (ms_pt (mem s2)) q = look (ms_pt (mem s1)) q"
    using shmat_success [OF ok1 assms(2,3) h(1) _ assms(8,9)] assms(5) unfolding h(2,3) by metis
  have apart: "a1 + ?n \<le> a2 \<or> a2 + ?n \<le> a1"
    using a1(2) a2(2) by (auto simp: free_at_def overlapping_def)
  have "look (ms_pt (mem s2)) (a1 + 4096 * k) = look (ms_pt (mem s1)) (a1 + 4096 * k)" if "k < length (seg_frames g)" for k
    using a2(4) apart that unfolding n by auto
  then show ?thesis using apart a1(1,3) a2(1,3) by simp
qed

subsection \<open>Removal\<close>

lemma unmap_pages_returns:
  assumes "a + 4096 * n \<le> U64_MAX" "\<forall>k < n. virt_addr_new mp (a + 4096 * k) \<noteq> None"
  shows "unmap_pages mp a n pt \<noteq> None"
proof -
  have "for_each (\<lambda>i pt. Option.bind (page_addr a i) (\<lambda>x. Option.bind (virt_addr_new mp x) (\<lambda>page. Some (unmap_page mp page pt)))) ks pt \<noteq> None"
    if "set ks \<subseteq> {..<n}" for ks pt
    using that
  proof (induction ks arbitrary: pt)
    case (Cons k ks)
    have k: "k < n" using Cons.prems by simp
    then have "a + 4096 * k \<le> U64_MAX" using assms(1) by linarith
    then have "page_addr a k = Some (a + 4096 * k)" by (simp add: page_addr_def mul64_def add64_def mult.commute)
    then show ?case using Cons k assms(2) by auto
  qed simp
  then show ?thesis unfolding unmap_pages_def by (simp add: atLeast0LessThan)
qed

text \<open>C16. Removing a segment that one process has attached takes its key away and frees nothing; when that process detaches it,
  the segment disappears and exactly its frames become free, and no other segment changes.  (The addresses of the
  attachment are those of pages that the page tables accept.)\<close>

theorem removal_waits_for_detach:
  assumes "shm_reach mp s" "mapper_ok mp" "segments (mgr s) i = Some g" "shm_nattch (seg_ds g) = 1"
    and owner: "ctx_uid ctx0 = 0 \<or> ctx_uid ctx0 = perm_uid (shm_perm (seg_ds g))"
    and att: "find_attach (ctx_pid ctx) a (attachments (mgr s)) = Some (i, 4096 * n)"
    and addr: "a + 4096 * n \<le> U64_MAX" "\<forall>k < n. virt_addr_new mp (a + 4096 * k) \<noteq> None"
  shows "\<exists>s1 s2. sys_shmctl ctx0 i IPC_RMID buf uds s = Some (0, None, s1) \<and> mem s1 = mem s
    \<and> key_to_id (mgr s1) (perm_key (shm_perm (seg_ds g))) = None
    \<and> sys_shmdt mp ctx a s1 = Some (0, s2) \<and> segments (mgr s2) = (segments (mgr s))(i := None)
    \<and> free_addrs (ms_fa (mem s2)) = free_addrs (ms_fa (mem s)) \<union> set (seg_frames g)
    \<and> set (seg_frames g) \<inter> free_addrs (ms_fa (mem s)) = {}"
proof -
  note ok = shm_reach_ok [OF assms(1,2)]
  have own: "\<not> (ctx_uid ctx0 \<noteq> 0 \<and> ctx_uid ctx0 \<noteq> perm_uid (shm_perm (seg_ds g)))" using owner by simp
  define s1 where "s1 = s\<lparr>mgr := marked_table i g (mgr s)\<rparr>"
  let ?g = "g\<lparr>marked_for_removal := True\<rparr>"
  have rm: "sys_shmctl ctx0 i IPC_RMID buf uds s = Some (0, None, s1)"
    using rmid_eq [OF assms(3) own] assms(4) by (simp add: s1_def)
  have ok1: "shm_ok mp s1" by (rule shmctl_ok [OF ok rm])
  have sel: "segments (mgr s1) = (segments (mgr s))(i \<mapsto> ?g)" "attachments (mgr s1) = attachments (mgr s)" "mem s1 = mem s"
    by (simp_all add: s1_def marked_table_eq)
  have key: "key_to_id (mgr s1) (perm_key (shm_perm (seg_ds g))) = None"
  proof (rule ccontr)
    assume "key_to_id (mgr s1) (perm_key (shm_perm (seg_ds g))) \<noteq> None"
    then obtain j where j: "key_to_id (mgr s1) (perm_key (shm_perm (seg_ds g))) = Some j" by blast
    then show False using table_okD(5) [OF shm_okD(2) [OF ok1] j] by (simp add: s1_def marked_table_eq)
  qed
  have att1: "find_attach (ctx_pid ctx) a (attachments (mgr s1)) = Some (i, 4096 * n)" using att sel(2) by simp
  obtain r s2 where run: "sys_shmdt mp ctx a s1 = Some (r, s2)"
  proof -
    obtain pt where pt: "unmap_pages mp a n (ms_pt (mem s1)) = Some pt" using unmap_pages_returns [OF addr] by blast
    let ?mm = "(mem s1)\<lparr>ms_pt := pt, ms_vm := snd (remove_vma a (ms_vm (mem s1)))\<rparr>"
    let ?s = "s1\<lparr>mem := ?mm, mgr := (mgr s1)\<lparr>attachments := left_list ctx a i (mgr s1), segments := (segments (mgr s1))(i \<mapsto> left_seg ctx ?g)\<rparr>\<rparr>"
    have gs: "segments (mgr ?s) i = Some (left_seg ctx ?g)" by simp
    have fa: "phys_inv (ms_fa (mem ?s))" "set (seg_frames (left_seg ctx ?g)) \<subseteq> managed_addrs (ms_fa (mem ?s))"
      using shm_okD(4) [OF ok] shm_seg(2) [OF ok assms(3)] by (simp_all add: left_seg_def sel(3))
    have "destroy_segment i ?s \<noteq> None" using destroy_eq [OF gs fa] by auto
    then obtain t where "destroy_segment i ?s = Some t" by blast
    then have "sys_shmdt mp ctx a s1 = Some (0, t)"
      using att1 pt assms(4) by (simp add: sys_shmdt_def Let_def sel(1) put_seg_def left_seg_def left_list_def)
    then show ?thesis by (rule that)
  qed
  have g1: "segments (mgr s1) i = Some ?g" by (simp add: sel(1))
  have "r = 0 \<and> segments (mgr s2) = (segments (mgr s))(i := None) \<and> free_addrs (ms_fa (mem s2)) = free_addrs (ms_fa (mem s)) \<union> set (seg_frames g)"
  proof (rule shmdt_outcomes [OF ok1 run])
    fix i' sz h pt mm
    assume f: "find_attach (ctx_pid ctx) a (attachments (mgr s1)) = Some (i', sz)" and h: "segments (mgr s1) i' = Some h" and r: "r = 0"
      and out: "if marked_for_removal h \<and> shm_nattch (seg_ds h) = 1
       then \<exists>fa. mem s2 = mm\<lparr>ms_fa := fa\<rparr> \<and> phys_inv fa \<and> managed_addrs fa = managed_addrs (ms_fa (mem s1))
         \<and> free_addrs fa = free_addrs (ms_fa (mem s1)) \<union> set (seg_frames h)
         \<and> mgr s2 = (mgr s1)\<lparr>segments := (segments (mgr s1))(i' := None), attachments := id_remove i' (left_list ctx a i' (mgr s1))\<rparr>
       else mem s2 = mm \<and> mgr s2 = (mgr s1)\<lparr>segments := (segments (mgr s1))(i' \<mapsto> left_seg ctx h), attachments := left_list ctx a i' (mgr s1)\<rparr>"
    have eq: "i' = i" "h = ?g" using f att1 h g1 by simp_all
    then show ?thesis using out r assms(4) sel by auto
  qed (use att1 in simp)
  moreover have "set (seg_frames g) \<inter> free_addrs (ms_fa (mem s)) = {}" using shm_seg(3) [OF ok assms(3)] free_in_pool by blast
  ultimately show ?thesis using rm key run sel(3) by blast
qed

subsection \<open>A concrete run\<close>

definition demo_shm_ctx :: SysCtx where
  "demo_shm_ctx = \<lparr>ctx_uid = 1000, ctx_gid = 1000, ctx_pid = 7, ctx_now = 50\<rparr>"

definition demo_start :: "(nat \<rightharpoonup> phys_frame \<times> PageFlags) ShmState" where
  "demo_start = \<lparr>mgr = shm_new, mem = demo_space\<rparr>"

definition demo_segment :: "phys_frame \<Rightarrow> nat \<Rightarrow> ShmSegment" where
  "demo_segment f n = \<lparr>seg_id = 1, seg_ds = \<lparr>shm_perm = perm_new 5 1000 1000 0x180, shm_segsz = 4096, shm_atime = (if n = 0 then 0 else 50), shm_dtime = 0,
     shm_ctime = 50, shm_cpid = 7, shm_lpid = 7, shm_nattch = n\<rparr>, seg_frames = [f], marked_for_removal = False\<rparr>"

definition demo_made :: "phys_frame \<Rightarrow> BitmapFrameAllocator \<Rightarrow> (nat \<rightharpoonup> phys_frame \<times> PageFlags) ShmState" where
  "demo_made f fa = \<lparr>mgr = \<lparr>next_id = 2, segments = [1 \<mapsto> demo_segment f 0], key_to_id = [5 \<mapsto> 1], attachments = [(1, [])]\<rparr>,
     mem = demo_space\<lparr>ms_fa := fa, ms_mem := zero_page f (ms_mem demo_space)\<rparr>\<rparr>"

lemma demo_start_reach: "shm_reach demo_mapper demo_start"
  by (rule shm_reach.start) (simp_all add: demo_start_def demo_space_sel phys_inv_all_free)

lemma align_4096: "align_up 4096 = Some 4096"
  by (simp add: align_up_def add64_def U64_MAX_def align_down_def PAGE_SIZE_def)

lemma demo_shm_get:
  obtains f fa where "allocate (all_free 1 0) = Some (Some f, fa)" "sys_shmget demo_shm_ctx 5 4096 0x380 demo_start = Some (1, demo_made f fa)"
proof -
  have "phys_inv (all_free 1 0)" by (simp add: phys_inv_all_free)
  moreover have "free_addrs (all_free 1 0) \<noteq> {}" by (auto simp: free_addrs_def free_set_all_free lessThan_empty_iff)
  ultimately obtain f fa where f: "allocate (all_free 1 0) = Some (Some f, fa)" using bitmap.alloc_ok by blast
  have "sys_shmget demo_shm_ctx 5 4096 0x380 demo_start = Some (1, demo_made f fa)"
    using f by (simp add: sys_shmget_def create_segment_def align_4096 demo_start_def shm_new_def IPC_PRIVATE_def IPC_CREAT_def alloc_id_def
        wrap_i32_def demo_space_sel demo_shm_ctx_def seg_new_def put_seg_def demo_made_def demo_segment_def fun_upd_def cong: if_cong)
  then show thesis using f that by blast
qed

lemma demo_made_reach:
  assumes "allocate (all_free 1 0) = Some (Some f, fa)" "sys_shmget demo_shm_ctx 5 4096 0x380 demo_start = Some (1, demo_made f fa)"
  shows "shm_reach demo_mapper (demo_made f fa)"
  by (rule shm_reach.get [OF demo_start_reach _ assms(2)]) (simp add: demo_start_def shm_new_def)

theorem segment_frames_safe_witness:
  "\<exists>s g f. shm_reach demo_mapper s \<and> segments (mgr s) 1 = Some g \<and> seg_frames g = [f] \<and> f \<notin> free_addrs (ms_fa (mem s))
     \<and> shm_segsz (seg_ds g) = 4096"
proof -
  obtain f fa where f: "allocate (all_free 1 0) = Some (Some f, fa)" "sys_shmget demo_shm_ctx 5 4096 0x380 demo_start = Some (1, demo_made f fa)"
    by (rule demo_shm_get)
  note r = demo_made_reach [OF f]
  have g: "segments (mgr (demo_made f fa)) 1 = Some (demo_segment f 0)" "seg_frames (demo_segment f 0) = [f]" "shm_segsz (seg_ds (demo_segment f 0)) = 4096"
    by (simp_all add: demo_made_def demo_segment_def)
  have "f \<notin> free_addrs (ms_fa (mem (demo_made f fa)))"
    using segment_frames_safe [OF r demo_mapper_ok g(1), of f] g(2) by simp
  then show ?thesis using r g by blast
qed

theorem segment_lifetime_witness:
  "\<exists>s1 s2 g. sys_shmget demo_shm_ctx 5 4096 0x380 demo_start = Some (1, s1) \<and> segments (mgr s1) 1 = Some g
     \<and> sys_shmctl demo_shm_ctx 1 IPC_RMID 0 (seg_ds g) s1 = Some (0, None, s2) \<and> free_addrs (ms_fa (mem s2)) = free_addrs (all_free 1 0)"
proof -
  obtain f fa where f: "sys_shmget demo_shm_ctx 5 4096 0x380 demo_start = Some (1, demo_made f fa)" by (rule demo_shm_get)
  have "segments (mgr (demo_made f fa)) 1 = Some (demo_segment f 0)" by (simp add: demo_made_def)
  moreover have "next_id (mgr demo_start) < 2 ^ 31" "key_to_id (mgr demo_start) 5 = None" "(5 :: int) \<noteq> IPC_PRIVATE" "(0 :: int) \<le> 1"
    "free_addrs (ms_fa (mem demo_start)) = free_addrs (all_free 1 0)"
    by (simp_all add: demo_start_def shm_new_def IPC_PRIVATE_def demo_space_sel)
  ultimately show ?thesis
    using segment_lifetime [OF demo_start_reach demo_mapper_ok, where key = 5 and ctx = demo_shm_ctx and sz = 4096 and flg = "0x380" and i = 1
        and ?s1.0 = "demo_made f fa" and buf = 0 and uds = "seg_ds (demo_segment f 0)"] f by (metis (no_types, lifting))
qed

text \<open>An attachment in the concrete space, at the address that the search yields.\<close>

lemma demo_attach:
  fixes s :: "(nat \<rightharpoonup> phys_frame \<times> PageFlags) ShmState"
  assumes g: "segments (mgr s) i = Some g" "seg_frames g = [f]" "shm_segsz (seg_ds g) = 4096" "shm_nattch (seg_ds g) < 9" "\<not> marked_for_removal g"
    and ok: "can_write (shm_perm (seg_ds g)) (ctx_uid ctx) (ctx_gid ctx)"
    and a: "choose_addr 0 4096 (ms_vm (mem s)) = Some (Inr a)" "a mod 4096 = 0" "a < 2 ^ 47"
  shows "\<exists>mm. sys_shmat demo_mapper ctx i 0 0 s = Some (int a, s\<lparr>mem := mm, mgr := attached ctx i g False a (mgr s)\<rparr>)
    \<and> ms_vm mm = ms_vm (enter_area (fresh_vma a 4096 (attach_prot False) (attach_area False 0)) (mem s))"
proof -
  define t where "t = enter_area (fresh_vma a 4096 (attach_prot False) (attach_area False 0)) (mem s)"
  have "a + 4096 \<le> VTOP" using a(3) by (simp add: VTOP_def)
  then have "mmap_at a 4096 (attach_prot False) (attach_area False 0) (mem s) = Some (Inr a, t)"
    unfolding t_def using a(2) by (intro mmap_at_eq) simp_all
  then have m: "mmap demo_mapper 0 4096 (attach_prot False) \<lparr>mf_shared = True, mf_private = False, mf_anonymous = False, mf_fixed = False\<rparr> (mem s)
      = Some (Inr a, t)"
    using a(1) by (simp add: mmap_unfixed [OF _ align_4096] attach_area_def)
  have w: "wrap_i64 (int a) = int a" using a(3) by (intro wrap_i64_id) auto
  have p: "page_addr a 0 = Some a" using a(3) by (simp add: page_addr_def mul64_def add64_def U64_MAX_def)
  have v: "virt_addr_new demo_mapper a = Some a" using a(3) by (simp add: demo_mapper_def)
  have mp: "map_page demo_mapper a f (attach_flags False) pt fa = (Inr (), pt(a \<mapsto> (f, attach_flags False)), fa)" for pt fa
    by (simp add: demo_mapper_def)
  show ?thesis
    unfolding t_def [symmetric] using g ok m p v w mp
    by (auto simp: sys_shmat_def Let_def attached_def put_seg_def SHM_RDONLY_def)
qed

text \<open>Two processes attach the segment, one after the other.\<close>

lemma demo_attached:
  obtains f fa s2 s3 where "shm_reach demo_mapper (demo_made f fa)"
    "sys_shmat demo_mapper demo_shm_ctx 1 0 0 (demo_made f fa) = Some (int MMAP_BASE, s2)"
    "sys_shmat demo_mapper (demo_shm_ctx\<lparr>ctx_pid := 8\<rparr>) 1 0 0 s2 = Some (int MMAP_BASE + 4096, s3)"
    "mgr s2 = attached demo_shm_ctx 1 (demo_segment f 0) False MMAP_BASE (mgr (demo_made f fa))"
proof -
  obtain f fa where f: "allocate (all_free 1 0) = Some (Some f, fa)" "sys_shmget demo_shm_ctx 5 4096 0x380 demo_start = Some (1, demo_made f fa)"
    by (rule demo_shm_get)
  let ?s = "demo_made f fa" and ?v = "fresh_vma MMAP_BASE 4096 (attach_prot False) (attach_area False 0)"
  have g: "segments (mgr ?s) 1 = Some (demo_segment f 0)" by (simp add: demo_made_def)
  have sel: "seg_frames (demo_segment f n) = [f]" "shm_segsz (seg_ds (demo_segment f n)) = 4096" "shm_nattch (seg_ds (demo_segment f n)) = n"
    "\<not> marked_for_removal (demo_segment f n)" for n by (simp_all add: demo_segment_def)
  have w: "can_write (shm_perm (seg_ds (demo_segment f n))) 1000 1000" for n by (simp add: demo_segment_def can_write_def perm_new_def)
  have c1: "choose_addr 0 4096 (ms_vm (mem ?s)) = Some (Inr MMAP_BASE)"
    by (simp add: demo_made_def demo_space_sel choose_addr_def find_free_region_def find_free_loop.simps align_4096 add64_def U64_MAX_def
        vm_new_def vma_values_def MMAP_BASE_def MMAP_LIMIT_def)
  have base: "MMAP_BASE mod 4096 = 0" "MMAP_BASE < 2 ^ 47" by (simp_all add: MMAP_BASE_def)
  have ok1: "can_write (shm_perm (seg_ds (demo_segment f 0))) (ctx_uid demo_shm_ctx) (ctx_gid demo_shm_ctx)" using w by (simp add: demo_shm_ctx_def)
  obtain mm where m: "sys_shmat demo_mapper demo_shm_ctx 1 0 0 ?s = Some (int MMAP_BASE, ?s\<lparr>mem := mm, mgr := attached demo_shm_ctx 1 (demo_segment f 0) False MMAP_BASE (mgr ?s)\<rparr>)"
    "ms_vm mm = ms_vm (enter_area ?v (mem ?s))"
    using demo_attach [OF g sel(1,2) _ sel(4) ok1 c1 base] sel(3) by auto
  let ?t = "?s\<lparr>mem := mm, mgr := attached demo_shm_ctx 1 (demo_segment f 0) False MMAP_BASE (mgr ?s)\<rparr>"
  have vm: "vmas (ms_vm mm) = [(MMAP_BASE, ?v)]" "next_addr (ms_vm mm) = MMAP_BASE + 4096"
    by (simp_all add: m(2) enter_area_def insert_vma_def demo_made_def demo_space_sel vm_new_def Let_def)
  have c2: "choose_addr 0 4096 (ms_vm (mem ?t)) = Some (Inr (MMAP_BASE + 4096))"
    by (simp add: choose_addr_def find_free_region_def find_free_loop.simps align_4096 add64_def U64_MAX_def vma_values_def vm vma_overlaps_def vma_end_def
        MMAP_BASE_def MMAP_LIMIT_def)
  have g2: "segments (mgr ?t) 1 = Some (demo_segment f 1)"
    by (simp add: attached_def demo_made_def demo_segment_def demo_shm_ctx_def)
  let ?c = "demo_shm_ctx\<lparr>ctx_pid := 8\<rparr>"
  have ok2: "can_write (shm_perm (seg_ds (demo_segment f 1))) (ctx_uid ?c) (ctx_gid ?c)" using w by (simp add: demo_shm_ctx_def)
  have b2: "(MMAP_BASE + 4096) mod 4096 = 0" "MMAP_BASE + 4096 < 2 ^ 47" by (simp_all add: MMAP_BASE_def)
  have n9: "shm_nattch (seg_ds (demo_segment f 1)) < 9" by (simp add: sel(3))
  obtain mm3 where "sys_shmat demo_mapper ?c 1 0 0 ?t = Some (int (MMAP_BASE + 4096), ?t\<lparr>mem := mm3, mgr := attached ?c 1 (demo_segment f 1) False (MMAP_BASE + 4096) (mgr ?t)\<rparr>)"
    using demo_attach [OF g2 sel(1,2) n9 sel(4) ok2 c2 b2] by blast
  then show thesis using that [OF demo_made_reach [OF f] m(1)] by simp
qed

theorem attachments_share_frames_witness:
  "\<exists>s2 s3 f. sys_shmat demo_mapper (demo_shm_ctx\<lparr>ctx_pid := 8\<rparr>) 1 0 0 s2 = Some (int MMAP_BASE + 4096, s3)
     \<and> ms_pt (mem s3) MMAP_BASE = Some (f, attach_flags False) \<and> ms_pt (mem s3) (MMAP_BASE + 4096) = Some (f, attach_flags False)"
proof -
  obtain f fa s2 s3 where d: "shm_reach demo_mapper (demo_made f fa)"
    "sys_shmat demo_mapper demo_shm_ctx 1 0 0 (demo_made f fa) = Some (int MMAP_BASE, s2)"
    "sys_shmat demo_mapper (demo_shm_ctx\<lparr>ctx_pid := 8\<rparr>) 1 0 0 s2 = Some (int MMAP_BASE + 4096, s3)"
    by (rule demo_attached)
  have maps: "mapper_maps demo_mapper (\<lambda>pt. pt)" by (simp add: mapper_maps_def demo_mapper_def)
  have g: "segments (mgr (demo_made f fa)) 1 = Some (demo_segment f 0)" "seg_frames (demo_segment f 0) = [f]" "shm_segsz (seg_ds (demo_segment f 0)) = 4096"
    by (simp_all add: demo_made_def demo_segment_def)
  have nat: "nat (int MMAP_BASE) = MMAP_BASE" "nat (int MMAP_BASE + 4096) = MMAP_BASE + 4096" "(0 :: int) \<le> int MMAP_BASE" "(0 :: int) \<le> int MMAP_BASE + 4096" by simp_all
  have "(0 :: u32) AND SHM_RDONLY = 0" by simp
  then show ?thesis
    using attachments_share_frames [OF d(1) demo_mapper_ok maps g(1) _ d(2) nat(3) d(3) nat(4)] g(2,3) d(3) nat(1,2) by auto
qed

theorem removal_waits_for_detach_witness:
  "\<exists>s f s1 s2. sys_shmctl demo_shm_ctx 1 IPC_RMID 0 (seg_ds (demo_segment f 0)) s = Some (0, None, s1) \<and> sys_shmdt demo_mapper demo_shm_ctx MMAP_BASE s1 = Some (0, s2)
     \<and> segments (mgr s2) 1 = None \<and> f \<in> free_addrs (ms_fa (mem s2)) \<and> f \<notin> free_addrs (ms_fa (mem s1))"
proof -
  obtain f fa s2 where d: "shm_reach demo_mapper (demo_made f fa)"
    "sys_shmat demo_mapper demo_shm_ctx 1 0 0 (demo_made f fa) = Some (int MMAP_BASE, s2)"
    "mgr s2 = attached demo_shm_ctx 1 (demo_segment f 0) False MMAP_BASE (mgr (demo_made f fa))"
    by (rule demo_attached)
  have "shm_reach demo_mapper s2"
    by (rule shm_reach.attach [OF d(1) _ d(2)]) (simp add: demo_made_def demo_segment_def split: if_splits)
  moreover have g: "segments (mgr s2) 1 = Some (demo_segment f 1)"
    by (simp add: d(3) attached_def demo_made_def demo_segment_def demo_shm_ctx_def)
  moreover have "find_attach (ctx_pid demo_shm_ctx) MMAP_BASE (attachments (mgr s2)) = Some (1, 4096 * 1)"
    by (simp add: d(3) attached_def demo_made_def demo_segment_def demo_shm_ctx_def id_update_def)
  moreover have "MMAP_BASE + 4096 * 1 \<le> U64_MAX" "\<forall>k < 1. virt_addr_new demo_mapper (MMAP_BASE + 4096 * k) \<noteq> None"
    by (simp_all add: MMAP_BASE_def U64_MAX_def demo_mapper_def)
  moreover have "shm_nattch (seg_ds (demo_segment f 1)) = 1" "ctx_uid demo_shm_ctx = perm_uid (shm_perm (seg_ds (demo_segment f 1)))" "seg_frames (demo_segment f 1) = [f]"
    by (simp_all add: demo_segment_def perm_new_def demo_shm_ctx_def)
  ultimately obtain s3 s4 where "sys_shmctl demo_shm_ctx 1 IPC_RMID 0 (seg_ds (demo_segment f 0)) s2 = Some (0, None, s3)" "mem s3 = mem s2"
    "sys_shmdt demo_mapper demo_shm_ctx MMAP_BASE s3 = Some (0, s4)" "segments (mgr s4) = (segments (mgr s2))(1 := None)"
    "free_addrs (ms_fa (mem s4)) = free_addrs (ms_fa (mem s2)) \<union> {f}" "{f} \<inter> free_addrs (ms_fa (mem s2)) = {}"
    using removal_waits_for_detach [where ctx = demo_shm_ctx and ?ctx0.0 = demo_shm_ctx and i = 1 and s = s2 and g = "demo_segment f 1" and a = MMAP_BASE and n = 1
        and mp = demo_mapper and buf = 0 and uds = "seg_ds (demo_segment f 0)"] demo_mapper_ok by auto
  then show ?thesis by (intro exI [of _ s2] exI [of _ f] exI [of _ s3] exI [of _ s4]) auto
qed

end
