(* ===== verification/Elf.thy ===== *)
theory Elf
  imports Address_Space Syscall
begin

text \<open>
  The loader of ELF images, \<^verbatim>\<open>kernel/src/process/elf.rs\<close>: the headers, the loading of segments into a new address space and
  the first stack of a program.

  The address space under construction is the memory state of \<open>Vma\<close>, of which the loader uses the page tables, the frame
  allocator and the physical memory.  The page tables are the parameter \<open>Mapper\<close> together with \<open>translate_addr\<close>, a
  function from the tables and an address to the physical address it is mapped to.  The image is a list of bytes at an
  aligned address; reading a structure at an offset that is not a multiple of 8 is undefined behaviour, which panics with
  debug assertions, and is \<open>None\<close>.
\<close>

subsection \<open>Headers\<close>

definition ELF_MAGIC :: "u8 list" where
  "ELF_MAGIC = [0x7F, 0x45, 0x4C, 0x46]"

record Elf64Header =
  e_ident :: "u8 list"
  e_type :: nat
  e_machine :: nat
  e_version :: nat
  e_entry :: nat
  e_phoff :: nat
  e_shoff :: nat
  e_flags :: nat
  e_ehsize :: nat
  e_phentsize :: nat
  e_phnum :: nat
  e_shentsize :: nat
  e_shnum :: nat
  e_shstrndx :: nat

text \<open>A little-endian field of \<open>n\<close> bytes.\<close>

definition le_field :: "u8 list \<Rightarrow> nat \<Rightarrow> nat \<Rightarrow> nat" where
  "le_field data off n = of_le_bytes (take n (drop off data))"

definition header_from_bytes :: "u8 list \<Rightarrow> Elf64Header option" where
  "header_from_bytes data =
     (if length data < 64 then None
      else if take 4 data \<noteq> ELF_MAGIC then None
      else Some \<lparr>e_ident = take 16 data, e_type = le_field data 16 2, e_machine = le_field data 18 2, e_version = le_field data 20 4,
        e_entry = le_field data 24 8, e_phoff = le_field data 32 8, e_shoff = le_field data 40 8, e_flags = le_field data 48 4,
        e_ehsize = le_field data 52 2, e_phentsize = le_field data 54 2, e_phnum = le_field data 56 2, e_shentsize = le_field data 58 2,
        e_shnum = le_field data 60 2, e_shstrndx = le_field data 62 2\<rparr>)"

definition is_valid_x86_64 :: "Elf64Header \<Rightarrow> bool" where
  "is_valid_x86_64 h \<longleftrightarrow> e_ident h ! 4 = 2 \<and> e_ident h ! 5 = 1 \<and> e_machine h = 0x3E \<and> (e_type h = 2 \<or> e_type h = 3)"

record Elf64Phdr =
  p_type :: nat
  p_flags :: u32
  p_offset :: nat
  p_vaddr :: nat
  p_paddr :: nat
  p_filesz :: nat
  p_memsz :: nat
  p_align :: nat

definition PHDR_SIZE :: nat where "PHDR_SIZE = 56"

definition phdr_at :: "u8 list \<Rightarrow> nat \<Rightarrow> Elf64Phdr" where
  "phdr_at data off = \<lparr>p_type = le_field data off 4, p_flags = word_of_nat (le_field data (off + 4) 4), p_offset = le_field data (off + 8) 8,
     p_vaddr = le_field data (off + 16) 8, p_paddr = le_field data (off + 24) 8, p_filesz = le_field data (off + 32) 8,
     p_memsz = le_field data (off + 40) 8, p_align = le_field data (off + 48) 8\<rparr>"

definition PT_LOAD :: nat where "PT_LOAD = 1"
definition PT_PHDR :: nat where "PT_PHDR = 6"
definition PT_GNU_STACK :: nat where "PT_GNU_STACK = 0x6474e551"
definition PF_X :: u32 where "PF_X = 1"
definition PF_W :: u32 where "PF_W = 2"

record ElfInfo =
  entry :: nat
  phdr_addr :: nat
  phdr_num :: nat
  phdr_size :: nat
  stack_executable :: bool
  load_base :: nat
  load_end :: nat

subsection \<open>Segments\<close>

type_synonym 'pt translate = "'pt \<Rightarrow> nat \<Rightarrow> nat option"
type_synonym ('a, 'pt) load = "('a KResult \<times> 'pt MmState) option"

text \<open>The frame of a page of a segment: the one that is mapped already, or a new one, mapped and zeroed.\<close>

definition page_frame :: "'pt Mapper \<Rightarrow> 'pt translate \<Rightarrow> PageFlags \<Rightarrow> nat \<Rightarrow> 'pt MmState \<Rightarrow> (nat, 'pt) load" where
  "page_frame mp tr flags page_vaddr s = do {
     page \<leftarrow> virt_addr_new mp page_vaddr;
     case tr (ms_pt s) page of
       Some phys \<Rightarrow> Some (Inr (align_down phys), s)
     | None \<Rightarrow> do {
         (r, fa) \<leftarrow> allocate (ms_fa s);
         let s = s\<lparr>ms_fa := fa\<rparr>;
         case r of
           None \<Rightarrow> Some (Inl NoMemory, s)
         | Some frame \<Rightarrow>
             (case map_page mp page frame flags (ms_pt s) (ms_fa s) of (res, pt, fa) \<Rightarrow>
                let s = s\<lparr>ms_pt := pt, ms_fa := fa\<rparr> in
                case res of
                  Inl _ \<Rightarrow> Some (Inl NoMemory, s)
                | Inr _ \<Rightarrow> Some (Inr frame, s\<lparr>ms_mem := zero_page frame (ms_mem s)\<rparr>))
       }
   }"

text \<open>The bytes of the file that belong to a page, copied into its frame.\<close>

definition fill_page :: "u8 list \<Rightarrow> Elf64Phdr \<Rightarrow> nat \<Rightarrow> nat \<Rightarrow> pmem \<Rightarrow> pmem option" where
  "fill_page data ph page_vaddr frame m =
     (let page_file_start = (if page_vaddr \<ge> p_vaddr ph then page_vaddr - p_vaddr ph else 0) in
      if page_file_start < p_filesz ph then do {
        let offset_in_page = (if page_vaddr < p_vaddr ph then p_vaddr ph - page_vaddr else 0);
        file_offset \<leftarrow> add64 (p_offset ph) page_file_start;
        let remaining_file = p_filesz ph - page_file_start;
        let copy_len = min remaining_file (4096 - offset_in_page);
        e \<leftarrow> add64 file_offset copy_len;
        Some (if e \<le> length data then mem_write (frame + offset_in_page) (take copy_len (drop file_offset data)) m else m)
      } else Some m)"

definition load_page :: "'pt Mapper \<Rightarrow> 'pt translate \<Rightarrow> u8 list \<Rightarrow> Elf64Phdr \<Rightarrow> PageFlags \<Rightarrow> nat \<Rightarrow> 'pt MmState \<Rightarrow> (unit, 'pt) load" where
  "load_page mp tr data ph flags page_vaddr s = do {
     (r, s) \<leftarrow> page_frame mp tr flags page_vaddr s;
     case r of
       Inl e \<Rightarrow> Some (Inl e, s)
     | Inr frame \<Rightarrow> do { m \<leftarrow> fill_page data ph page_vaddr frame (ms_mem s); Some (Inr (), s\<lparr>ms_mem := m\<rparr>) }
   }"

fun load_pages :: "'pt Mapper \<Rightarrow> 'pt translate \<Rightarrow> u8 list \<Rightarrow> Elf64Phdr \<Rightarrow> PageFlags \<Rightarrow> nat list \<Rightarrow> 'pt MmState \<Rightarrow> (unit, 'pt) load" where
  "load_pages mp tr data ph flags [] s = Some (Inr (), s)"
| "load_pages mp tr data ph flags (page_idx # ps) s = do {
     page_vaddr \<leftarrow> add64 (align_down (p_vaddr ph)) (page_idx * 4096);
     (r, s) \<leftarrow> load_page mp tr data ph flags page_vaddr s;
     case r of Inl e \<Rightarrow> Some (Inl e, s) | Inr _ \<Rightarrow> load_pages mp tr data ph flags ps s
   }"

definition segment_flags :: "Elf64Phdr \<Rightarrow> PageFlags" where
  "segment_flags ph = \<lparr>present = True, writable = (p_flags ph AND PF_W \<noteq> 0), no_execute = False, user_accessible = True\<rparr>"

definition load_segment :: "'pt Mapper \<Rightarrow> 'pt translate \<Rightarrow> u8 list \<Rightarrow> Elf64Phdr \<Rightarrow> 'pt MmState \<Rightarrow> (unit, 'pt) load" where
  "load_segment mp tr data ph s =
     (if p_memsz ph = 0 then Some (Inr (), s)
      else do {
        e \<leftarrow> add64 (p_vaddr ph) (p_memsz ph);
        vaddr_end \<leftarrow> align_up e;
        let num_pages = (vaddr_end - align_down (p_vaddr ph)) div 4096;
        load_pages mp tr data ph (segment_flags ph) [0..<num_pages] s
      })"

text \<open>The loop over the program headers; \<open>load_base\<close> starts at the largest address.\<close>

definition note_load :: "Elf64Phdr \<Rightarrow> ElfInfo \<Rightarrow> ElfInfo option" where
  "note_load ph info = do {
     let info = info\<lparr>load_base := min (p_vaddr ph) (load_base info)\<rparr>;
     seg_end \<leftarrow> add64 (p_vaddr ph) (p_memsz ph);
     Some (info\<lparr>load_end := max seg_end (load_end info)\<rparr>)
   }"

fun load_headers :: "'pt Mapper \<Rightarrow> 'pt translate \<Rightarrow> u8 list \<Rightarrow> Elf64Header \<Rightarrow> nat list \<Rightarrow> ElfInfo \<Rightarrow> 'pt MmState \<Rightarrow> (ElfInfo, 'pt) load" where
  "load_headers mp tr data h [] info s = Some (Inr info, s)"
| "load_headers mp tr data h (i # is) info s = do {
     ph_offset \<leftarrow> add64 (e_phoff h) (i * e_phentsize h);
     e \<leftarrow> add64 ph_offset PHDR_SIZE;
     if e > length data then Some (Inl Invalid, s)
     else if ph_offset mod 8 \<noteq> 0 then None
     else
       let ph = phdr_at data ph_offset in
       if p_type ph = PT_LOAD then do {
         (r, s) \<leftarrow> load_segment mp tr data ph s;
         case r of
           Inl er \<Rightarrow> Some (Inl er, s)
         | Inr _ \<Rightarrow> do { info \<leftarrow> note_load ph info; load_headers mp tr data h is info s }
       }
       else if p_type ph = PT_PHDR then load_headers mp tr data h is (info\<lparr>phdr_addr := p_vaddr ph\<rparr>) s
       else if p_type ph = PT_GNU_STACK then load_headers mp tr data h is (info\<lparr>stack_executable := (p_flags ph AND PF_X \<noteq> 0)\<rparr>) s
       else load_headers mp tr data h is info s
   }"

definition load_elf :: "'pt Mapper \<Rightarrow> 'pt translate \<Rightarrow> u8 list \<Rightarrow> 'pt MmState \<Rightarrow> (ElfInfo, 'pt) load" where
  "load_elf mp tr data s =
     (case header_from_bytes data of
        None \<Rightarrow> Some (Inl Invalid, s)
      | Some h \<Rightarrow>
          if \<not> is_valid_x86_64 h then Some (Inl Invalid, s)
          else do {
            (r, s) \<leftarrow> load_headers mp tr data h [0..<e_phnum h] \<lparr>entry = e_entry h, phdr_addr = 0, phdr_num = e_phnum h,
              phdr_size = e_phentsize h, stack_executable = False, load_base = U64_MAX, load_end = 0\<rparr> s;
            case r of
              Inl er \<Rightarrow> Some (Inl er, s)
            | Inr info \<Rightarrow>
                if load_base info = U64_MAX then Some (Inl Invalid, s)
                else if phdr_addr info = 0 \<and> e_phoff h > 0 then do {
                  a \<leftarrow> add64 (load_base info) (e_phoff h);
                  Some (Inr (info\<lparr>phdr_addr := a\<rparr>), s)
                } else Some (Inr info, s)
          })"

definition is_elf :: "u8 list \<Rightarrow> bool" where
  "is_elf data = (if length data < 4 then False else take 4 data = ELF_MAGIC)"

definition get_entry_point :: "u8 list \<Rightarrow> nat option" where
  "get_entry_point data = (case header_from_bytes data of None \<Rightarrow> None | Some h \<Rightarrow> if is_valid_x86_64 h then Some (e_entry h) else None)"

subsection \<open>The first stack\<close>

definition USER_STACK_TOP :: nat where "USER_STACK_TOP = 0x00007FFFFFFF0000"
definition USER_STACK_PAGES :: nat where "USER_STACK_PAGES = 512"

record StackInfo =
  si_sp :: nat
  argc_ptr :: nat

text \<open>The composition of steps that can panic or fail.\<close>

definition andThen :: "('a, 'pt) load \<Rightarrow> ('a \<Rightarrow> 'pt MmState \<Rightarrow> ('b, 'pt) load) \<Rightarrow> ('b, 'pt) load" where
  "andThen m f = Option.bind m (\<lambda>(r, s). case r of Inl e \<Rightarrow> Some (Inl e, s) | Inr a \<Rightarrow> f a s)"

definition STACK_FLAGS :: PageFlags where
  "STACK_FLAGS = \<lparr>present = True, writable = True, no_execute = False, user_accessible = True\<rparr>"

fun map_stack :: "'pt Mapper \<Rightarrow> nat \<Rightarrow> nat list \<Rightarrow> 'pt MmState \<Rightarrow> (unit, 'pt) load" where
  "map_stack mp base [] s = Some (Inr (), s)"
| "map_stack mp base (i # is) s = do {
     a \<leftarrow> add64 base (i * 4096);
     page \<leftarrow> virt_addr_new mp a;
     (r, fa) \<leftarrow> allocate (ms_fa s);
     let s = s\<lparr>ms_fa := fa\<rparr>;
     case r of
       None \<Rightarrow> Some (Inl NoMemory, s)
     | Some frame \<Rightarrow>
         (case map_page mp page frame STACK_FLAGS (ms_pt s) (ms_fa s) of (res, pt, fa) \<Rightarrow>
            let s = s\<lparr>ms_pt := pt, ms_fa := fa\<rparr> in
            case res of
              Inl _ \<Rightarrow> Some (Inl NoMemory, s)
            | Inr _ \<Rightarrow> map_stack mp base is (s\<lparr>ms_mem := zero_page frame (ms_mem s)\<rparr>))
   }"

fun write_to_stack :: "'pt Mapper \<Rightarrow> 'pt translate \<Rightarrow> nat \<Rightarrow> u8 list \<Rightarrow> 'pt MmState \<Rightarrow> (unit, 'pt) load" where
  "write_to_stack mp tr addr [] s = Some (Inr (), s)"
| "write_to_stack mp tr addr (b # bs) s = do {
     va \<leftarrow> virt_addr_new mp addr;
     case tr (ms_pt s) va of
       None \<Rightarrow> Some (Inl Invalid, s)
     | Some phys \<Rightarrow>
         let s = s\<lparr>ms_mem := (ms_mem s)(phys := b)\<rparr> in
         if bs = [] then Some (Inr (), s) else do { a \<leftarrow> add64 addr 1; write_to_stack mp tr a bs s }
   }"

text \<open>A string with its terminator below \<open>sp\<close>, and the strings of a list from the last to the first, with the addresses in the
  order of the list.\<close>

definition push_string :: "'pt Mapper \<Rightarrow> 'pt translate \<Rightarrow> u8 list \<Rightarrow> nat \<Rightarrow> 'pt MmState \<Rightarrow> (nat, 'pt) load" where
  "push_string mp tr str sp s = do {
     sp \<leftarrow> sub64 sp (length str + 1);
     andThen (write_to_stack mp tr sp str s) (\<lambda>_ s. do {
       a \<leftarrow> add64 sp (length str);
       andThen (write_to_stack mp tr a [0] s) (\<lambda>_ s. Some (Inr sp, s))
     })
   }"

fun push_strings :: "'pt Mapper \<Rightarrow> 'pt translate \<Rightarrow> u8 list list \<Rightarrow> nat \<Rightarrow> nat list \<Rightarrow> 'pt MmState \<Rightarrow> (nat \<times> nat list, 'pt) load" where
  "push_strings mp tr [] sp addrs s = Some (Inr (sp, addrs), s)"
| "push_strings mp tr (str # strs) sp addrs s =
     andThen (push_string mp tr str sp s) (\<lambda>sp s. push_strings mp tr strs sp (sp # addrs) s)"

definition push_word :: "'pt Mapper \<Rightarrow> 'pt translate \<Rightarrow> nat \<Rightarrow> nat \<Rightarrow> 'pt MmState \<Rightarrow> (nat, 'pt) load" where
  "push_word mp tr w sp s = do {
     sp \<leftarrow> sub64 sp 8;
     andThen (write_to_stack mp tr sp (le_bytes 8 w) s) (\<lambda>_ s. Some (Inr sp, s))
   }"

fun push_words :: "'pt Mapper \<Rightarrow> 'pt translate \<Rightarrow> nat list \<Rightarrow> nat \<Rightarrow> 'pt MmState \<Rightarrow> (nat, 'pt) load" where
  "push_words mp tr [] sp s = Some (Inr sp, s)"
| "push_words mp tr (w # ws) sp s = andThen (push_word mp tr w sp s) (\<lambda>sp s. push_words mp tr ws sp s)"

definition RANDOM_BYTES :: "u8 list" where
  "RANDOM_BYTES = [0x12, 0x34, 0x56, 0x78, 0x9A, 0xBC, 0xDE, 0xF0, 0x11, 0x22, 0x33, 0x44, 0x55, 0x66, 0x77, 0x88]"

text \<open>The entries of the auxiliary vector: types and values alternate.\<close>

definition auxv :: "ElfInfo \<Rightarrow> nat \<Rightarrow> nat \<Rightarrow> nat list" where
  "auxv info random_addr execfn_addr =
     [3, phdr_addr info, 4, phdr_size info, 5, phdr_num info, 6, 4096, 9, entry info, 11, 1000, 12, 1000, 13, 1000, 14, 1000,
      25, random_addr, 31, execfn_addr, 0, 0]"

definition setup_user_stack :: "'pt Mapper \<Rightarrow> 'pt translate \<Rightarrow> ElfInfo \<Rightarrow> u8 list list \<Rightarrow> u8 list list \<Rightarrow> u8 list \<Rightarrow> 'pt MmState \<Rightarrow> (StackInfo, 'pt) load" where
  "setup_user_stack mp tr info argv envp exec_path s =
     andThen (map_stack mp (USER_STACK_TOP - USER_STACK_PAGES * 4096) [0..<USER_STACK_PAGES] s) (\<lambda>_ s.
       let random_addr = USER_STACK_TOP - 16 in
       andThen (write_to_stack mp tr random_addr RANDOM_BYTES s) (\<lambda>_ s.
       andThen (push_string mp tr exec_path random_addr s) (\<lambda>execfn_addr s.
       andThen (push_strings mp tr (rev envp) execfn_addr [] s) (\<lambda>(sp, envp_addrs) s.
       andThen (push_strings mp tr (rev argv) sp [] s) (\<lambda>(sp, argv_addrs) s.
         let sp = sp - sp mod 16 in
         andThen (push_words mp tr (rev (auxv info random_addr execfn_addr)) sp s) (\<lambda>sp s.
         andThen (push_word mp tr 0 sp s) (\<lambda>sp s.
         andThen (push_words mp tr (rev envp_addrs) sp s) (\<lambda>sp s.
         andThen (push_word mp tr 0 sp s) (\<lambda>sp s.
         andThen (push_words mp tr (rev argv_addrs) sp s) (\<lambda>sp s.
         andThen (push_word mp tr (length argv) sp s) (\<lambda>sp s.
           Some (Inr \<lparr>si_sp = sp, argc_ptr = sp\<rparr>, s))))))))))))"

subsection \<open>A program in a new address space\<close>

record LoadedElf =
  le_cr3 :: nat
  le_entry :: nat
  le_stack_pointer :: nat
  le_info :: ElfInfo

text \<open>The new address space, with the entries of the kernel, is made by the argument \<open>create\<close>.\<close>

definition load_elf_into_new_space :: "'pt Mapper \<Rightarrow> 'pt translate \<Rightarrow> ('pt MmState \<Rightarrow> (nat, 'pt) load) \<Rightarrow> u8 list \<Rightarrow> u8 list list \<Rightarrow> u8 list list
    \<Rightarrow> u8 list \<Rightarrow> 'pt MmState \<Rightarrow> (LoadedElf, 'pt) load" where
  "load_elf_into_new_space mp tr create data argv envp exec_path s =
     (if \<not> is_elf data then Some (Inl Invalid, s)
      else andThen (create s) (\<lambda>cr3 s.
        andThen (load_elf mp tr data s) (\<lambda>info s.
        andThen (setup_user_stack mp tr info argv envp exec_path s) (\<lambda>stack s.
          Some (Inr \<lparr>le_cr3 = cr3, le_entry = entry info, le_stack_pointer = si_sp stack, le_info = info\<rparr>, s)))))"

end
