(* ===== verification/Program_Image.thy ===== *)
theory Program_Image
  imports Elf
begin

text \<open>
  The image of a program in memory: what \<open>load_segment\<close> and \<open>load_elf\<close> do to the bytes that a program sees through its page
  tables, on the pages that are given to it, as a fold over the segments of the image.
\<close>

subsection \<open>The memory that a program sees\<close>

text \<open>What is relied on of the page tables: \<open>mapper_ok\<close> and \<open>mapper_maps\<close>, and that an address is translated through the
  entry of its page.\<close>

definition translate_of :: "('pt \<Rightarrow> nat \<Rightarrow> (phys_frame \<times> PageFlags) option) \<Rightarrow> 'pt translate" where
  "translate_of look pt a = (case look pt (align_down a) of None \<Rightarrow> None | Some (f, _) \<Rightarrow> Some (f + a mod 4096))"

definition tables_ok :: "'pt Mapper \<Rightarrow> ('pt \<Rightarrow> nat \<Rightarrow> (phys_frame \<times> PageFlags) option) \<Rightarrow> 'pt translate \<Rightarrow> bool" where
  "tables_ok mp look tr \<longleftrightarrow> mapper_ok mp \<and> mapper_maps mp look \<and> tr = translate_of look"

definition user_byte :: "'pt translate \<Rightarrow> 'pt MmState \<Rightarrow> nat \<Rightarrow> u8 option" where
  "user_byte tr s a = map_option (ms_mem s) (tr (ms_pt s) a)"

text \<open>The pages \<open>U\<close> that a program is given: those that are mapped have distinct frames, which are not free.\<close>

definition space_ok :: "('pt \<Rightarrow> nat \<Rightarrow> (phys_frame \<times> PageFlags) option) \<Rightarrow> nat set \<Rightarrow> 'pt MmState \<Rightarrow> bool" where
  "space_ok look U s \<longleftrightarrow> phys_inv (ms_fa s)
     \<and> (\<forall>p \<in> U. \<forall>f fl. look (ms_pt s) p = Some (f, fl) \<longrightarrow> f mod 4096 = 0 \<and> f \<notin> free_addrs (ms_fa s))
     \<and> (\<forall>p \<in> U. \<forall>q \<in> U. \<forall>f fl fl'. look (ms_pt s) p = Some (f, fl) \<longrightarrow> look (ms_pt s) q = Some (f, fl') \<longrightarrow> p = q)"

lemma space_ok_unmapped: "phys_inv (ms_fa s) \<Longrightarrow> (\<And>p. p \<in> U \<Longrightarrow> look (ms_pt s) p = None) \<Longrightarrow> space_ok look U s"
  by (simp add: space_ok_def)

lemma space_ok_mono: "space_ok look U s \<Longrightarrow> V \<subseteq> U \<Longrightarrow> space_ok look V s"
  unfolding space_ok_def by blast

lemma page_split: "align_down a + a mod 4096 = a"
  by (simp add: align_down_def PAGE_SIZE_def)

lemma same_page: "p mod 4096 = 0 \<Longrightarrow> align_down a = p \<longleftrightarrow> p \<le> a \<and> a < p + 4096"
proof -
  assume p: "p mod 4096 = 0"
  have "p \<le> a \<and> a < p + 4096 \<Longrightarrow> a div 4096 = p div 4096" using p by (intro div_nat_eqI) (auto simp: dvd_eq_mod_eq_0 mult.commute)
  then have "p \<le> a \<and> a < p + 4096 \<Longrightarrow> align_down a = p"
    using p by (simp add: align_down_def PAGE_SIZE_def minus_mod_eq_div_mult) (metis div_mult_mod_eq add.right_neutral)
  moreover have "align_down a \<le> a \<and> a < align_down a + 4096"
    using mod_less_divisor [of 4096 a] page_split [of a] by linarith
  ultimately show ?thesis by blast
qed

lemma align_down_mod: "align_down a mod 4096 = 0"
  using align_down_dvd [of a] by (simp add: PAGE_SIZE_def dvd_eq_mod_eq_0)

lemma free_addrs_mod: "f \<in> free_addrs fa \<Longrightarrow> f mod 4096 = 0"
  by (auto simp: free_addrs_def)

lemma frames_apart: "(f :: nat) mod 4096 = 0 \<Longrightarrow> g mod 4096 = 0 \<Longrightarrow> f \<noteq> g \<Longrightarrow> f \<le> g + x mod 4096 \<Longrightarrow> g + x mod 4096 < f + 4096 \<Longrightarrow> False"
  using same_page [of f "g + x mod 4096"] same_page [of g "g + x mod 4096"] by simp

text \<open>A new frame that is mapped and zeroed shows as zeros at its page and changes no other page.\<close>

lemma map_fresh:
  assumes tok: "tables_ok mp look tr" and ok: "space_ok look U s" and p: "p \<in> U"
    and al: "allocate (ms_fa s) = Some (Some f, fa)" and mp: "map_page mp p f fl (ms_pt s) fa = (Inr u, pt, fa')"
    and t: "ms_fa t = fa'" "ms_pt t = pt" "ms_mem t = zero_page f (ms_mem s)"
  shows "space_ok look U t" "look (ms_pt t) = (look (ms_pt s))(p \<mapsto> (f, fl))"
    "align_down a \<in> U \<Longrightarrow> user_byte tr t a = (if align_down a = p then Some 0 else user_byte tr s a)"
proof -
  have inv: "phys_inv (ms_fa s)" using ok by (simp add: space_ok_def)
  have f: "f \<in> free_addrs (ms_fa s)" "phys_inv fa" "free_addrs fa = free_addrs (ms_fa s) - {f}"
    using bitmap.alloc_ok [OF inv] al by auto
  have fa': "phys_inv fa'" "free_addrs fa' \<subseteq> free_addrs fa"
    using tok mp f(2) unfolding tables_ok_def mapper_ok_def by blast+
  show look: "look (ms_pt t) = (look (ms_pt s))(p \<mapsto> (f, fl))"
    using tok mp unfolding tables_ok_def mapper_maps_def t(2) by blast
  have old: "g mod 4096 = 0 \<and> g \<notin> free_addrs (ms_fa s)" if "q \<in> U" "look (ms_pt s) q = Some (g, gl)" for q g gl
    using ok that unfolding space_ok_def by blast
  have fm: "f mod 4096 = 0" using f(1) by (rule free_addrs_mod)
  show "space_ok look U t"
    unfolding space_ok_def look t(1)
  proof (intro conjI ballI allI impI)
    show "phys_inv fa'" by (rule fa'(1))
    fix q g gl assume q: "q \<in> U" "((look (ms_pt s))(p \<mapsto> (f, fl))) q = Some (g, gl)"
    show "g mod 4096 = 0" using q old fm by (auto split: if_splits)
    show "g \<notin> free_addrs fa'" using q old f(3) fa'(2) by (auto split: if_splits)
    fix r rl assume r: "r \<in> U" "((look (ms_pt s))(p \<mapsto> (f, fl))) r = Some (g, rl)"
    have "q = r" if "q \<noteq> p" "r \<noteq> p" using ok q r that unfolding space_ok_def by auto
    moreover have False if "q = p" "r \<noteq> p" using q r that old [OF r(1)] f(1) by auto
    moreover have False if "q \<noteq> p" "r = p" using q r that old [OF q(1)] f(1) by auto
    ultimately show "q = r" by blast
  qed
  show "user_byte tr t a = (if align_down a = p then Some 0 else user_byte tr s a)" if a: "align_down a \<in> U"
  proof (cases "align_down a = p")
    case True
    then show ?thesis using tok by (simp add: user_byte_def tables_ok_def translate_of_def look t(3) zero_page_def)
  next
    case False
    have "ms_mem t (g + a mod 4096) = ms_mem s (g + a mod 4096)" if g: "look (ms_pt s) (align_down a) = Some (g, gl)" for g gl
      using old [OF a g] f(1) fm frames_apart [of f g a] by (auto simp: t(3) zero_page_def)
    then show ?thesis using False tok
      by (auto simp: user_byte_def tables_ok_def translate_of_def look split: option.split)
  qed
qed

text \<open>Bytes written into the frame of a page show at the addresses of the page and nowhere else.\<close>

lemma write_page:
  assumes tok: "tables_ok mp look tr" and ok: "space_ok look U s" and p: "p \<in> U" "p mod 4096 = 0" and f: "look (ms_pt s) p = Some (f, fl)"
    and o': "off + length bs \<le> 4096" and t: "ms_fa t = ms_fa s" "ms_pt t = ms_pt s" "ms_mem t = mem_write (f + off) bs (ms_mem s)"
  shows "space_ok look U t"
    "align_down a \<in> U \<Longrightarrow> user_byte tr t a = (if p + off \<le> a \<and> a < p + off + length bs then Some (bs ! (a - (p + off))) else user_byte tr s a)"
proof -
  show "space_ok look U t" using ok unfolding space_ok_def t(1,2) .
  show "user_byte tr t a = (if p + off \<le> a \<and> a < p + off + length bs then Some (bs ! (a - (p + off))) else user_byte tr s a)"
    if a: "align_down a \<in> U"
  proof (cases "look (ms_pt s) (align_down a)")
    case None
    then have "align_down a \<noteq> p" using f by auto
    then have "\<not> (p + off \<le> a \<and> a < p + off + length bs)" using same_page [OF p(2), of a] o' by auto
    then show ?thesis using None tok by (simp add: user_byte_def tables_ok_def translate_of_def t(2))
  next
    case (Some x)
    then obtain g gl where g: "look (ms_pt s) (align_down a) = Some (g, gl)" by (cases x) auto
    have tr: "tr (ms_pt s) a = Some (g + a mod 4096)" using tok g by (simp add: tables_ok_def translate_of_def)
    show ?thesis
    proof (cases "align_down a = p")
      case True
      then have e: "g = f" "a = p + a mod 4096" using g f page_split [of a] by auto
      then have "p + off \<le> a \<longleftrightarrow> f + off \<le> g + a mod 4096" "a < p + off + length bs \<longleftrightarrow> g + a mod 4096 < f + off + length bs"
        "g + a mod 4096 - (f + off) = a - (p + off)" by linarith+
      then show ?thesis using tr by (simp add: user_byte_def t(2,3) mem_write_def)
    next
      case False
      then have "g \<noteq> f" using ok g f p a unfolding space_ok_def by blast
      moreover have "g mod 4096 = 0" "f mod 4096 = 0" using ok g f p a unfolding space_ok_def by blast+
      ultimately have "\<not> (f + off \<le> g + a mod 4096 \<and> g + a mod 4096 < f + off + length bs)"
        using frames_apart [of f g a] o' by auto
      moreover have "\<not> (p + off \<le> a \<and> a < p + off + length bs)" using False same_page [OF p(2), of a] o' by auto
      ultimately show ?thesis using tr by (auto simp: user_byte_def t(2,3) mem_write_def)
    qed
  qed
qed

subsection \<open>Segments\<close>

text \<open>The byte of the file at an address of a segment, if the address is backed by the file.\<close>

definition file_at :: "u8 list \<Rightarrow> Elf64Phdr \<Rightarrow> nat \<Rightarrow> u8 option" where
  "file_at data ph a = (if p_vaddr ph \<le> a \<and> a < p_vaddr ph + p_filesz ph then Some (data ! (p_offset ph + (a - p_vaddr ph))) else None)"

definition zero_filled :: "u8 option \<Rightarrow> u8" where
  "zero_filled b = (case b of None \<Rightarrow> 0 | Some x \<Rightarrow> x)"

lemma zero_filled_simps [simp]: "zero_filled None = 0" "zero_filled (Some x) = x"
  by (simp_all add: zero_filled_def)

lemma mem_write_empty: "mem_write a [] m = m"
  by (rule ext) (auto simp: mem_write_def)

lemma page_frame_ok:
  assumes tok: "tables_ok mp look tr" and ok: "space_ok look U s" and p: "p \<in> U" "p mod 4096 = 0"
    and run: "page_frame mp tr fl p s = Some (Inr f, t)"
  shows "space_ok look U t"
    "look (ms_pt t) = (look (ms_pt s))(p \<mapsto> (f, case look (ms_pt s) p of None \<Rightarrow> fl | Some (_, fl') \<Rightarrow> fl'))"
    "align_down a \<in> U \<Longrightarrow> user_byte tr t a = (if align_down a = p then Some (zero_filled (user_byte tr s a)) else user_byte tr s a)"
proof -
  have va: "virt_addr_new mp p = Some p"
    using run tok by (auto simp: page_frame_def bind_eq_Some_conv tables_ok_def mapper_maps_def)
  have down: "align_down p = p" using same_page [OF p(2), of p] by simp
  have tr: "tr pt x = translate_of look pt x" for pt x using tok by (simp add: tables_ok_def)
  show "space_ok look U t"
    "look (ms_pt t) = (look (ms_pt s))(p \<mapsto> (f, case look (ms_pt s) p of None \<Rightarrow> fl | Some (_, fl') \<Rightarrow> fl'))"
    "align_down a \<in> U \<Longrightarrow> user_byte tr t a = (if align_down a = p then Some (zero_filled (user_byte tr s a)) else user_byte tr s a)"
  proof (atomize (full), cases "look (ms_pt s) p")
    case None
    then have "tr (ms_pt s) p = None" by (simp add: tr translate_of_def down)
    then obtain r fa where al: "allocate (ms_fa s) = Some (r, fa)" using run va by (auto simp: page_frame_def bind_eq_Some_conv)
    with \<open>tr (ms_pt s) p = None\<close> obtain g where g: "r = Some g" using run va by (cases r) (auto simp: page_frame_def)
    obtain res pt fa' where mp: "map_page mp p g fl (ms_pt s) fa = (res, pt, fa')" by (rule prod_cases3)
    with \<open>tr (ms_pt s) p = None\<close> obtain u where u: "res = Inr u" using run va al g by (cases res) (auto simp: page_frame_def)
    have s: "allocate (ms_fa s) = Some (Some f, fa)" "map_page mp p f fl (ms_pt s) fa = (Inr u, pt, fa')"
        and t: "ms_fa t = fa'" "ms_pt t = pt" "ms_mem t = zero_page f (ms_mem s)"
      using run va al g mp u \<open>tr (ms_pt s) p = None\<close> by (auto simp: page_frame_def Let_def)
    have "user_byte tr s a = None" if "align_down a = p" using None that by (simp add: user_byte_def tr translate_of_def)
    then show "space_ok look U t \<and> look (ms_pt t) = (look (ms_pt s))(p \<mapsto> (f, case look (ms_pt s) p of None \<Rightarrow> fl | Some (_, fl') \<Rightarrow> fl'))
        \<and> (align_down a \<in> U \<longrightarrow> user_byte tr t a = (if align_down a = p then Some (zero_filled (user_byte tr s a)) else user_byte tr s a))"
      using map_fresh [OF tok ok p(1) s(1,2) t] None by auto
  next
    case (Some x)
    then obtain g gl where g: "look (ms_pt s) p = Some (g, gl)" by (cases x) auto
    then have "tr (ms_pt s) p = Some g" using p(2) by (simp add: tr translate_of_def down)
    moreover have "g mod 4096 = 0" using ok p g unfolding space_ok_def by blast
    ultimately have t: "t = s" "f = g" using run va same_page [of g g] by (auto simp: page_frame_def)
    have "user_byte tr s a = Some (zero_filled (user_byte tr s a))" if "align_down a = p"
      using g that by (simp add: user_byte_def tr translate_of_def)
    then show "space_ok look U t \<and> look (ms_pt t) = (look (ms_pt s))(p \<mapsto> (f, case look (ms_pt s) p of None \<Rightarrow> fl | Some (_, fl') \<Rightarrow> fl'))
        \<and> (align_down a \<in> U \<longrightarrow> user_byte tr t a = (if align_down a = p then Some (zero_filled (user_byte tr s a)) else user_byte tr s a))"
      using ok g t by (auto simp: fun_upd_idem)
  qed
qed

text \<open>The bytes that \<open>fill_page\<close> writes, when the file has them all.\<close>

lemma fill_page_eq:
  assumes "fill_page data ph p f m = Some m'" and len: "p_offset ph + p_filesz ph \<le> length data"
  defines "lo \<equiv> max p (p_vaddr ph)" and "hi \<equiv> min (p + 4096) (p_vaddr ph + p_filesz ph)"
  shows "if p_vaddr ph + p_filesz ph \<le> lo then m' = m
    else m' = mem_write (f + (lo - p)) (take (hi - lo) (drop (p_offset ph + (lo - p_vaddr ph)) data)) m"
proof (cases "p_vaddr ph + p_filesz ph \<le> lo")
  case True
  then have "\<not> (if p_vaddr ph \<le> p then p - p_vaddr ph else 0) < p_filesz ph" by (auto simp: lo_def max_def split: if_splits)
  then show ?thesis using assms(1) True by (simp add: fill_page_def Let_def)
next
  case False
  have a: "(if p_vaddr ph \<le> p then p - p_vaddr ph else 0) = lo - p_vaddr ph" "(if p < p_vaddr ph then p_vaddr ph - p else 0) = lo - p"
    by (auto simp: lo_def)
  have c: "min (p_filesz ph - (lo - p_vaddr ph)) (4096 - (lo - p)) = hi - lo"
    using False by (auto simp: lo_def hi_def min_def max_def)
  have lt: "lo - p_vaddr ph < p_filesz ph" using False by (auto simp: lo_def max_def split: if_splits)
  have e: "p_offset ph + (lo - p_vaddr ph) + (hi - lo) \<le> length data"
    using len lt False by (auto simp: lo_def hi_def min_def max_def split: if_splits)
  obtain x y where x: "add64 (p_offset ph) (lo - p_vaddr ph) = Some x" "add64 x (hi - lo) = Some y"
    "m' = (if y \<le> length data then mem_write (f + (lo - p)) (take (hi - lo) (drop x data)) m else m)"
    using assms(1) lt by (auto simp: fill_page_def Let_def a c bind_eq_Some_conv)
  have "x = p_offset ph + (lo - p_vaddr ph)" "y = x + (hi - lo)" using x(1,2) by (auto simp: add64_def split: if_splits)
  then show ?thesis using x(3) e False by simp
qed

lemma load_page_ok:
  assumes tok: "tables_ok mp look tr" and ok: "space_ok look U s" and p: "p \<in> U" "p mod 4096 = 0"
    and run: "load_page mp tr data ph fl p s = Some (Inr u, t)" and len: "p_offset ph + p_filesz ph \<le> length data"
  shows "space_ok look U t"
    "\<exists>f. look (ms_pt t) = (look (ms_pt s))(p \<mapsto> (f, case look (ms_pt s) p of None \<Rightarrow> fl | Some (_, fl') \<Rightarrow> fl'))"
    "align_down a \<in> U \<Longrightarrow> user_byte tr t a = (if align_down a = p
       then Some (case file_at data ph a of Some b \<Rightarrow> b | None \<Rightarrow> zero_filled (user_byte tr s a)) else user_byte tr s a)"
proof -
  obtain r s1 where r: "page_frame mp tr fl p s = Some (r, s1)" using run by (auto simp: load_page_def bind_eq_Some_conv)
  obtain f m where s1: "page_frame mp tr fl p s = Some (Inr f, s1)" and m: "fill_page data ph p f (ms_mem s1) = Some m"
    and t: "t = s1\<lparr>ms_mem := m\<rparr>"
    using run r by (cases r) (auto simp: load_page_def bind_eq_Some_conv)
  note pf = page_frame_ok [OF tok ok p s1]
  show "\<exists>f. look (ms_pt t) = (look (ms_pt s))(p \<mapsto> (f, case look (ms_pt s) p of None \<Rightarrow> fl | Some (_, fl') \<Rightarrow> fl'))"
    using pf(2) t by auto
  define lo where "lo = max p (p_vaddr ph)"
  define hi where "hi = min (p + 4096) (p_vaddr ph + p_filesz ph)"
  define bs where "bs = take (hi - lo) (drop (p_offset ph + (lo - p_vaddr ph)) data)"
  have fa: "file_at data ph a = None \<or> \<not> (lo \<le> a \<and> a < hi) \<or> align_down a = p" for a
    using same_page [OF p(2), of a] by (auto simp: lo_def hi_def)
  have out: "file_at data ph a = None" if "align_down a = p" "\<not> (lo \<le> a \<and> a < hi)" for a
    using that same_page [OF p(2), of a] by (auto simp: lo_def hi_def file_at_def)
  show "space_ok look U t" "align_down a \<in> U \<Longrightarrow> user_byte tr t a = (if align_down a = p
       then Some (case file_at data ph a of Some b \<Rightarrow> b | None \<Rightarrow> zero_filled (user_byte tr s a)) else user_byte tr s a)"
  proof (atomize (full), cases "p_vaddr ph + p_filesz ph \<le> lo \<or> p + 4096 \<le> lo")
    case True
    then have none: "file_at data ph a = None" if "align_down a = p" for a
      using out [OF that] by (auto simp: hi_def)
    have "bs = []" using True by (auto simp: bs_def hi_def)
    then have "m = ms_mem s1" using fill_page_eq [OF m len] unfolding lo_def [symmetric] hi_def [symmetric] bs_def [symmetric]
      by (auto simp: mem_write_empty split: if_splits)
    then have "t = s1" using t by simp
    then show "space_ok look U t \<and> (align_down a \<in> U \<longrightarrow> user_byte tr t a = (if align_down a = p
       then Some (case file_at data ph a of Some b \<Rightarrow> b | None \<Rightarrow> zero_filled (user_byte tr s a)) else user_byte tr s a))"
      using pf(1,3) none by simp
  next
    case False
    have lens: "length bs = hi - lo" using len False by (auto simp: bs_def lo_def hi_def)
    have mm: "ms_mem t = mem_write (f + (lo - p)) bs (ms_mem s1)"
      using fill_page_eq [OF m len] False t unfolding lo_def [symmetric] hi_def [symmetric] bs_def [symmetric] by simp
    obtain fl' where l: "look (ms_pt s1) p = Some (f, fl')" using pf(2) by simp
    have pl: "p \<le> lo" by (simp add: lo_def)
    have "hi \<le> p + 4096" "lo \<le> p + 4096" using False by (auto simp: hi_def)
    then have "lo + length bs \<le> p + 4096" using lens by linarith
    with pl have "lo - p + length bs \<le> 4096" by linarith
    note w = write_page [OF tok pf(1) p l this(1) _ _ mm]
    have w1: "space_ok look U t" using w(1) t by simp
    have w2: "user_byte tr t a = (if lo \<le> a \<and> a < hi then Some (bs ! (a - lo)) else user_byte tr s1 a)" if "align_down a \<in> U"
      using w(2) [of a] that t lens pl False by (auto simp: hi_def)
    have "file_at data ph a = Some (bs ! (a - lo))" if "lo \<le> a" "a < hi"
    proof -
      have "a - lo < hi - lo" "p_vaddr ph \<le> lo" "p_vaddr ph \<le> a" "a < p_vaddr ph + p_filesz ph" using that by (auto simp: lo_def hi_def)
      moreover have "p_offset ph + (lo - p_vaddr ph) + (a - lo) = p_offset ph + (a - p_vaddr ph)" using that calculation by linarith
      moreover have "p_offset ph + (lo - p_vaddr ph) \<le> length data" using len calculation that by linarith
      ultimately show ?thesis by (simp add: file_at_def bs_def)
    qed
    then show "space_ok look U t \<and> (align_down a \<in> U \<longrightarrow> user_byte tr t a = (if align_down a = p
       then Some (case file_at data ph a of Some b \<Rightarrow> b | None \<Rightarrow> zero_filled (user_byte tr s a)) else user_byte tr s a))"
      using w1 w2 pf(3) out [of a] fa [of a] same_page [OF p(2), of a] by (auto simp: lo_def hi_def)
  qed
qed

text \<open>What loading a segment does to the byte at an address: a page of the segment holds the bytes of the file and otherwise what
  was there, zeros in a new page.\<close>

definition segment_pages :: "Elf64Phdr \<Rightarrow> nat set" where
  "segment_pages ph = align_down ` {p_vaddr ph ..< p_vaddr ph + p_memsz ph}"

definition segment_byte :: "u8 list \<Rightarrow> nat \<Rightarrow> Elf64Phdr \<Rightarrow> u8 option \<Rightarrow> u8 option" where
  "segment_byte data a ph b = (if align_down a \<in> segment_pages ph
     then Some (case file_at data ph a of Some x \<Rightarrow> x | None \<Rightarrow> zero_filled b) else b)"

text \<open>A loading step changes only the pages \<open>P\<close>, and the bytes of the pages in \<open>U\<close> as \<open>g\<close> says.\<close>

definition loads :: "('pt \<Rightarrow> nat \<Rightarrow> (phys_frame \<times> PageFlags) option) \<Rightarrow> 'pt translate \<Rightarrow> nat set \<Rightarrow> nat set
    \<Rightarrow> (nat \<Rightarrow> u8 option \<Rightarrow> u8 option) \<Rightarrow> 'pt MmState \<Rightarrow> 'pt MmState \<Rightarrow> bool" where
  "loads look tr U P g s t \<longleftrightarrow> space_ok look U t \<and> (\<forall>q. q \<notin> P \<longrightarrow> look (ms_pt t) q = look (ms_pt s) q)
     \<and> (\<forall>a. align_down a \<in> U \<longrightarrow> user_byte tr t a = g a (user_byte tr s a))"

lemma loads_refl: "space_ok look U s \<Longrightarrow> loads look tr U {} (\<lambda>_ b. b) s s"
  by (simp add: loads_def)

lemma loads_trans: "loads look tr U P g s t \<Longrightarrow> loads look tr U Q h t u \<Longrightarrow> loads look tr U (P \<union> Q) (\<lambda>a. h a \<circ> g a) s u"
  by (simp add: loads_def)

lemma loads_cong: "loads look tr U P g s t \<Longrightarrow> P \<subseteq> Q \<Longrightarrow> (\<And>a b. align_down a \<in> U \<Longrightarrow> g a b = h a b) \<Longrightarrow> loads look tr U Q h s t"
  unfolding loads_def by auto

lemma loads_space: "loads look tr U P g s t \<Longrightarrow> space_ok look U t"
  by (simp add: loads_def)

lemma load_pages_ok:
  assumes tok: "tables_ok mp look tr" and len: "p_offset ph + p_filesz ph \<le> length data"
  shows "space_ok look U s \<Longrightarrow> load_pages mp tr data ph fl ks s = Some (Inr u, t) \<Longrightarrow> (\<And>k. k \<in> set ks \<Longrightarrow> align_down (p_vaddr ph) + k * 4096 \<in> U)
    \<Longrightarrow> loads look tr U ((\<lambda>k. align_down (p_vaddr ph) + k * 4096) ` set ks) (\<lambda>a b. if align_down a \<in> (\<lambda>k. align_down (p_vaddr ph) + k * 4096) ` set ks
         then Some (case file_at data ph a of Some x \<Rightarrow> x | None \<Rightarrow> zero_filled b) else b) s t"
proof (induction ks arbitrary: s)
  case Nil
  then show ?case by (simp add: loads_refl)
next
  case (Cons k ks)
  define p where "p = align_down (p_vaddr ph) + k * 4096"
  obtain v where v: "add64 (align_down (p_vaddr ph)) (k * 4096) = Some v"
    using Cons.prems(2) by (auto simp: bind_eq_Some_conv)
  then have vp: "v = p" by (auto simp: add64_def p_def split: if_splits)
  obtain r s1 where s1: "load_page mp tr data ph fl p s = Some (r, s1)" using Cons.prems(2) v vp by (auto simp: bind_eq_Some_conv)
  have r: "r = Inr ()" and run: "load_pages mp tr data ph fl ks s1 = Some (Inr u, t)"
    using Cons.prems(2) v vp s1 by (cases r; simp)+
  have pU: "p \<in> U" using Cons.prems(3) [of k] by (simp add: p_def)
  have pm: "p mod 4096 = 0" using align_down_mod [of "p_vaddr ph"] by (simp add: p_def mod_add_left_eq [symmetric])
  note lp = load_page_ok [OF tok Cons.prems(1) pU pm s1 [unfolded r] len]
  have one: "loads look tr U {p} (\<lambda>a b. if align_down a = p
       then Some (case file_at data ph a of Some b \<Rightarrow> b | None \<Rightarrow> zero_filled b) else b) s s1"
    unfolding loads_def using lp by auto
  note two = Cons.IH [OF lp(1) run Cons.prems(3), simplified]
  show ?case
    by (rule loads_cong [OF loads_trans [OF one two]]) (auto simp: p_def split: option.splits)
qed

lemma page_multiple: "(q :: nat) mod 4096 = 0 \<Longrightarrow> p mod 4096 = 0 \<Longrightarrow> p \<le> q \<Longrightarrow> q = p + (q - p) div 4096 * 4096"
  using dvd_div_mult_self [OF dvd_diff_nat [of 4096 q p]] by (simp add: dvd_eq_mod_eq_0)

lemma segment_pages_eq:
  assumes "p_memsz ph \<noteq> 0" and "align_up (p_vaddr ph + p_memsz ph) = Some e"
  shows "(\<lambda>k. align_down (p_vaddr ph) + k * 4096) ` {..<(e - align_down (p_vaddr ph)) div 4096} = segment_pages ph"
proof -
  let ?b = "align_down (p_vaddr ph)" and ?v = "p_vaddr ph" and ?lim = "p_vaddr ph + p_memsz ph"
  have e: "e = align_down (?lim + 4095)" using assms(2) by (auto simp: align_up_def add64_def split: if_splits)
  have b: "?b mod 4096 = 0" "?b \<le> ?v" "?v < ?b + 4096" using same_page [of ?b ?v] align_down_mod by auto
  have em: "e mod 4096 = 0" "e \<le> ?lim + 4095" "?lim \<le> e"
    using same_page [of e "?lim + 4095"] align_down_mod e by auto
  have be: "?b \<le> e" using b em by linarith
  show ?thesis
  proof (intro equalityI subsetI)
    fix q assume "q \<in> (\<lambda>k. ?b + k * 4096) ` {..<(e - ?b) div 4096}"
    then obtain k where k: "q = ?b + k * 4096" "k < (e - ?b) div 4096" by blast
    have "k + 1 \<le> (e - ?b) div 4096" using k(2) by simp
    then have "(k + 1) * 4096 \<le> e - ?b" using mult_le_mono1 [of "k + 1" "(e - ?b) div 4096" 4096] page_multiple [OF em(1) b(1) be] by linarith
    then have "k * 4096 + 4096 + ?b \<le> e" using be by (simp add: algebra_simps)
    then have q: "q < ?lim" using k(1) em(2) by linarith
    have qm: "q mod 4096 = 0" using k(1) b(1) by (simp add: mod_add_left_eq [symmetric])
    have "align_down (max q ?v) = q"
      unfolding same_page [OF qm] using k(1) b by (cases k) auto
    then show "q \<in> segment_pages ph" unfolding segment_pages_def using q assms(1) by (intro image_eqI [of _ _ "max q ?v"]) auto
  next
    fix q assume "q \<in> segment_pages ph"
    then obtain a where a: "q = align_down a" "?v \<le> a" "a < ?lim" by (auto simp: segment_pages_def)
    have qm: "q mod 4096 = 0" "q \<le> a" "a < q + 4096" using same_page [of q a] align_down_mod a(1) by auto
    have bq: "?b \<le> q"
    proof (rule ccontr)
      assume "\<not> ?b \<le> q"
      then have "?b = q + (?b - q) div 4096 * 4096" using page_multiple [OF b(1) qm(1)] by simp
      then have "q + 4096 \<le> ?b" using \<open>\<not> ?b \<le> q\<close> by (cases "(?b - q) div 4096") auto
      then show False using qm a b by linarith
    qed
    have k: "q = ?b + (q - ?b) div 4096 * 4096" by (rule page_multiple [OF qm(1) b(1) bq])
    have "q < e" using qm a em by linarith
    then have "q - ?b < (e - ?b) div 4096 * 4096" using page_multiple [OF em(1) b(1) be] bq by linarith
    then have "(q - ?b) div 4096 < (e - ?b) div 4096" by (rule less_mult_imp_div_less)
    then show "q \<in> (\<lambda>k. ?b + k * 4096) ` {..<(e - ?b) div 4096}" using k by blast
  qed
qed

lemma load_segment_ok:
  assumes tok: "tables_ok mp look tr" and ok: "space_ok look U s" and len: "p_offset ph + p_filesz ph \<le> length data"
    and run: "load_segment mp tr data ph s = Some (Inr u, t)" and U: "segment_pages ph \<subseteq> U"
  shows "loads look tr U (segment_pages ph) (\<lambda>a. segment_byte data a ph) s t"
proof (cases "p_memsz ph = 0")
  case True
  then have "t = s" "segment_pages ph = {}" using run by (simp_all add: load_segment_def segment_pages_def)
  then show ?thesis using ok by (simp add: loads_def segment_byte_def)
next
  case False
  then obtain x e where x: "add64 (p_vaddr ph) (p_memsz ph) = Some x" "align_up x = Some e"
    and pages: "load_pages mp tr data ph (segment_flags ph) [0..<(e - align_down (p_vaddr ph)) div 4096] s = Some (Inr u, t)"
    using run by (auto simp: load_segment_def Let_def bind_eq_Some_conv)
  have "x = p_vaddr ph + p_memsz ph" using x(1) by (auto simp: add64_def split: if_splits)
  note eq = segment_pages_eq [OF False x(2) [unfolded this]]
  have sub: "align_down (p_vaddr ph) + k * 4096 \<in> U" if "k \<in> set [0..<(e - align_down (p_vaddr ph)) div 4096]" for k
    using that eq U by auto
  have s: "set [0..<(e - align_down (p_vaddr ph)) div 4096] = {..<(e - align_down (p_vaddr ph)) div 4096}" by auto
  show ?thesis using load_pages_ok [OF tok len ok pages sub] unfolding s eq segment_byte_def by simp
qed

subsection \<open>The image of a program\<close>

text \<open>The segments that an image says are to be loaded, and what loading all of them does to the byte at an address.\<close>

definition header_at :: "u8 list \<Rightarrow> Elf64Header \<Rightarrow> nat \<Rightarrow> Elf64Phdr" where
  "header_at data h i = phdr_at data (e_phoff h + i * e_phentsize h)"

definition loaded :: "u8 list \<Rightarrow> Elf64Header \<Rightarrow> nat list \<Rightarrow> Elf64Phdr list" where
  "loaded data h is = filter (\<lambda>ph. p_type ph = PT_LOAD) (map (header_at data h) is)"

definition load_list :: "u8 list \<Rightarrow> Elf64Header \<Rightarrow> Elf64Phdr list" where
  "load_list data h = loaded data h [0..<e_phnum h]"

definition pages_of :: "Elf64Phdr list \<Rightarrow> nat set" where
  "pages_of phs = (\<Union>ph \<in> set phs. segment_pages ph)"

definition image_byte :: "u8 list \<Rightarrow> nat \<Rightarrow> Elf64Phdr list \<Rightarrow> u8 option \<Rightarrow> u8 option" where
  "image_byte data a phs = fold (segment_byte data a) phs"

definition note_loads :: "Elf64Phdr list \<Rightarrow> nat \<times> nat \<Rightarrow> nat \<times> nat" where
  "note_loads phs = fold (\<lambda>ph (lo, hi). (min (p_vaddr ph) lo, max (p_vaddr ph + p_memsz ph) hi)) phs"

lemma load_headers_ok:
  assumes tok: "tables_ok mp look tr"
  shows "load_headers mp tr data h is info s = Some (Inr info', t) \<Longrightarrow> space_ok look U s
    \<Longrightarrow> (\<And>ph. ph \<in> set (loaded data h is) \<Longrightarrow> p_offset ph + p_filesz ph \<le> length data) \<Longrightarrow> pages_of (loaded data h is) \<subseteq> U
    \<Longrightarrow> loads look tr U (pages_of (loaded data h is)) (\<lambda>a. image_byte data a (loaded data h is)) s t
      \<and> (load_base info', load_end info') = note_loads (loaded data h is) (load_base info, load_end info) \<and> entry info' = entry info"
proof (induction "is" arbitrary: info s)
  case Nil
  then show ?case by (simp add: loaded_def loads_refl pages_of_def image_byte_def note_loads_def id_def)
next
  case (Cons i "is")
  define ph where "ph = header_at data h i"
  obtain a e where a: "add64 (e_phoff h) (i * e_phentsize h) = Some a" "add64 a PHDR_SIZE = Some e" "\<not> e > length data" "a mod 8 = 0"
    using Cons.prems(1) by (auto simp: bind_eq_Some_conv Let_def split: if_splits)
  have "a = e_phoff h + i * e_phentsize h" using a(1) by (auto simp: add64_def split: if_splits)
  then have pa: "phdr_at data a = ph" by (simp add: ph_def header_at_def)
  show ?case
  proof (cases "p_type ph = PT_LOAD")
    case True
    then have l: "loaded data h (i # is) = ph # loaded data h is" by (simp add: loaded_def ph_def)
    obtain r s1 where s1: "load_segment mp tr data ph s = Some (r, s1)" using Cons.prems(1) a pa True by (auto simp: bind_eq_Some_conv)
    obtain u where u: "r = Inr u" using Cons.prems(1) a pa True s1 by (cases r) auto
    obtain info1 where n: "note_load ph info = Some info1" and run: "load_headers mp tr data h is info1 s1 = Some (Inr info', t)"
      using Cons.prems(1) a pa True s1 u by (auto simp: bind_eq_Some_conv)
    have n': "load_base info1 = min (p_vaddr ph) (load_base info)" "load_end info1 = max (p_vaddr ph + p_memsz ph) (load_end info)" "entry info1 = entry info"
      using n by (auto simp: note_load_def add64_def bind_eq_Some_conv split: if_splits)
    have seg: "segment_pages ph \<subseteq> U" using Cons.prems(4) by (simp add: l pages_of_def)
    have len: "p_offset ph + p_filesz ph \<le> length data" using Cons.prems(3) [of ph] by (simp add: l)
    note one = load_segment_ok [OF tok Cons.prems(2) len s1 [unfolded u] seg]
    have prem: "p_offset p + p_filesz p \<le> length data" if "p \<in> set (loaded data h is)" for p using Cons.prems(3) that by (simp add: l)
    have sub: "pages_of (loaded data h is) \<subseteq> U" using Cons.prems(4) by (simp add: l pages_of_def)
    note two = Cons.IH [OF run loads_space [OF one] prem sub]
    have "pages_of (loaded data h (i # is)) = segment_pages ph \<union> pages_of (loaded data h is)" by (simp add: l pages_of_def)
    moreover have "(\<lambda>a. image_byte data a (loaded data h (i # is))) = (\<lambda>a. image_byte data a (loaded data h is) \<circ> segment_byte data a ph)"
      by (simp add: l image_byte_def)
    moreover have "note_loads (loaded data h (i # is)) (load_base info, load_end info) = note_loads (loaded data h is) (load_base info1, load_end info1)"
      by (simp add: l note_loads_def n')
    ultimately show ?thesis using loads_trans [OF one conjunct1 [OF two]] two n'(3) by simp
  next
    case False
    then have l: "loaded data h (i # is) = loaded data h is" by (simp add: loaded_def ph_def)
    obtain info1 where run: "load_headers mp tr data h is info1 s = Some (Inr info', t)" and e: "load_base info1 = load_base info" "load_end info1 = load_end info" "entry info1 = entry info"
    proof (cases "p_type ph = PT_PHDR")
      case True
      then show ?thesis using that [of "info\<lparr>phdr_addr := p_vaddr ph\<rparr>"] Cons.prems(1) a pa False by simp
    next
      case np: False
      show ?thesis
      proof (cases "p_type ph = PT_GNU_STACK")
        case True
        then show ?thesis using that [of "info\<lparr>stack_executable := (p_flags ph AND PF_X \<noteq> 0)\<rparr>"] Cons.prems(1) a pa False np by simp
      next
        case nq: False
        then show ?thesis using that [of info] Cons.prems(1) a pa False np by simp
      qed
    qed
    show ?thesis using Cons.IH [OF run Cons.prems(2)] Cons.prems(3,4) e unfolding l by simp
  qed
qed

lemma load_elf_ok:
  assumes tok: "tables_ok mp look tr" and run: "load_elf mp tr data s = Some (Inr info, t)" and ok: "space_ok look U s"
    and h: "header_from_bytes data = Some h"
    and lens: "\<forall>ph \<in> set (load_list data h). p_offset ph + p_filesz ph \<le> length data" and U: "pages_of (load_list data h) \<subseteq> U"
  shows "loads look tr U (pages_of (load_list data h)) (\<lambda>a. image_byte data a (load_list data h)) s t"
    "(load_base info, load_end info) = note_loads (load_list data h) (U64_MAX, 0)" "entry info = e_entry h" "is_valid_x86_64 h" "load_base info \<noteq> U64_MAX"
proof -
  define info0 where "info0 = \<lparr>entry = e_entry h, phdr_addr = 0, phdr_num = e_phnum h,
              phdr_size = e_phentsize h, stack_executable = False, load_base = U64_MAX, load_end = 0\<rparr>"
  show v: "is_valid_x86_64 h" using run h by (auto simp: load_elf_def split: if_splits)
  obtain r t1 where r: "load_headers mp tr data h [0..<e_phnum h] info0 s = Some (r, t1)"
    using run h v by (auto simp: load_elf_def info0_def bind_eq_Some_conv)
  obtain i where i: "r = Inr i" using run h v r by (cases r) (auto simp: load_elf_def info0_def)
  have t: "t1 = t" "load_base info = load_base i" "load_end info = load_end i" "entry info = entry i" and b: "load_base info \<noteq> U64_MAX"
    using run h v r i by (auto simp: load_elf_def info0_def bind_eq_Some_conv split: if_splits)
  have len: "p_offset ph + p_filesz ph \<le> length data" if "ph \<in> set (load_list data h)" for ph using lens that by blast
  note l = load_headers_ok [OF tok r [unfolded i] ok len [unfolded load_list_def] U [unfolded load_list_def], folded load_list_def]
  show "loads look tr U (pages_of (load_list data h)) (\<lambda>a. image_byte data a (load_list data h)) s t" using l t by simp
  show "(load_base info, load_end info) = note_loads (load_list data h) (U64_MAX, 0)" "entry info = e_entry h" "load_base info \<noteq> U64_MAX"
    using l t b by (simp_all add: info0_def)
qed

text \<open>Segments that do not overlap all show in the image.\<close>

definition in_segment :: "nat \<Rightarrow> Elf64Phdr \<Rightarrow> bool" where
  "in_segment a ph \<longleftrightarrow> p_vaddr ph \<le> a \<and> a < p_vaddr ph + p_memsz ph"

definition segments_ok :: "u8 list \<Rightarrow> Elf64Phdr list \<Rightarrow> bool" where
  "segments_ok data phs \<longleftrightarrow> (\<forall>ph \<in> set phs. p_filesz ph \<le> p_memsz ph \<and> p_offset ph + p_filesz ph \<le> length data)
     \<and> (\<forall>i < length phs. \<forall>j < i. p_vaddr (phs ! j) + p_memsz (phs ! j) \<le> p_vaddr (phs ! i) \<or> p_vaddr (phs ! i) + p_memsz (phs ! i) \<le> p_vaddr (phs ! j))"

lemma segments_ok_Cons: "segments_ok data (ph # phs) \<Longrightarrow> segments_ok data phs \<and> p_filesz ph \<le> p_memsz ph
    \<and> (\<forall>q \<in> set phs. \<forall>a. \<not> (in_segment a ph \<and> in_segment a q))"
proof -
  assume ok: "segments_ok data (ph # phs)"
  have "segments_ok data phs" using ok unfolding segments_ok_def by (auto dest!: spec [of _ "Suc _"])
  moreover have "\<not> (in_segment a ph \<and> in_segment a q)" if "q \<in> set phs" for q a
  proof -
    obtain i where "i < length phs" "q = phs ! i" using \<open>q \<in> set phs\<close> by (auto simp: in_set_conv_nth)
    then have "p_vaddr ph + p_memsz ph \<le> p_vaddr q \<or> p_vaddr q + p_memsz q \<le> p_vaddr ph"
      using ok [unfolded segments_ok_def, THEN conjunct2, rule_format, of "Suc i" 0] by auto
    then show ?thesis by (auto simp: in_segment_def)
  qed
  ultimately show ?thesis using ok by (auto simp: segments_ok_def)
qed

lemma image_byte_outside:
  assumes "\<forall>ph \<in> set phs. p_filesz ph \<le> p_memsz ph \<and> \<not> in_segment a ph"
  shows "zero_filled (image_byte data a phs b) = zero_filled b" "b = Some x \<Longrightarrow> image_byte data a phs b = Some x"
proof -
  have step: "segment_byte data a ph b = b \<or> segment_byte data a ph b = Some (zero_filled b)" if "ph \<in> set phs" for ph b
    using assms that by (auto simp: segment_byte_def file_at_def in_segment_def)
  have "zero_filled (fold (segment_byte data a) qs b) = zero_filled b \<and> (b = Some x \<longrightarrow> fold (segment_byte data a) qs b = Some x)"
    if "set qs \<subseteq> set phs" for qs b
    using that
  proof (induction qs arbitrary: b)
    case (Cons q qs)
    then have "segment_byte data a q b = b \<or> segment_byte data a q b = Some (zero_filled b)" using step by auto
    then show ?case using Cons by auto
  qed simp
  then show "zero_filled (image_byte data a phs b) = zero_filled b" "b = Some x \<Longrightarrow> image_byte data a phs b = Some x"
    by (auto simp: image_byte_def)
qed

lemma image_byte_inside:
  assumes "segments_ok data phs" and "ph \<in> set phs" and "in_segment a ph"
  shows "image_byte data a phs b = Some (case file_at data ph a of Some x \<Rightarrow> x | None \<Rightarrow> zero_filled b)"
  using assms
proof (induction phs arbitrary: b)
  case (Cons q qs)
  note ok = segments_ok_Cons [OF Cons.prems(1)]
  show ?case
  proof (cases "q = ph \<and> ph \<notin> set qs")
    case True
    then have "align_down a \<in> segment_pages q" using Cons.prems(3) by (auto simp: in_segment_def segment_pages_def)
    then have "segment_byte data a q b = Some (case file_at data ph a of Some x \<Rightarrow> x | None \<Rightarrow> zero_filled b)" using True by (simp add: segment_byte_def)
    moreover have "\<forall>p \<in> set qs. p_filesz p \<le> p_memsz p \<and> \<not> in_segment a p"
      using ok True Cons.prems(3) by (auto simp: segments_ok_def)
    ultimately show ?thesis using image_byte_outside(2) [of qs a] by (simp add: image_byte_def)
  next
    case False
    then have ph: "ph \<in> set qs" using Cons.prems(2) by auto
    then have "\<not> in_segment a q" using ok Cons.prems(3) by blast
    then have "zero_filled (segment_byte data a q b) = zero_filled b" using image_byte_outside(1) [of "[q]" a data b] ok by (simp add: image_byte_def)
    then show ?thesis using Cons.IH [OF conjunct1 [OF ok] ph Cons.prems(3), of "segment_byte data a q b"]
      by (simp add: image_byte_def split: option.split)
  qed
qed simp

lemma note_loads_eq:
  assumes "phs \<noteq> []"
  shows "note_loads phs (lo, hi) = (min (Min (p_vaddr ` set phs)) lo, max (Max ((\<lambda>ph. p_vaddr ph + p_memsz ph) ` set phs)) hi)"
  using assms
proof (induction phs arbitrary: lo hi)
  case (Cons ph phs)
  show ?case
  proof (cases "phs = []")
    case False
    then show ?thesis using Cons.IH [OF False] by (simp add: note_loads_def ac_simps)
  qed (simp add: note_loads_def)
qed simp

lemma image_shown:
  assumes "tables_ok mp look tr" and l: "loads look tr U P (\<lambda>a. image_byte data a phs) s t" and ok: "segments_ok data phs" and "pages_of phs \<subseteq> U"
    and "\<And>q. q \<in> pages_of phs \<Longrightarrow> look (ms_pt s) q = None" and ph: "ph \<in> set phs" "k < p_memsz ph"
  shows "align_down (p_vaddr ph + k) \<in> pages_of phs" "user_byte tr t (p_vaddr ph + k) = Some (if k < p_filesz ph then data ! (p_offset ph + k) else 0)"
proof -
  show page: "align_down (p_vaddr ph + k) \<in> pages_of phs"
    using ph unfolding pages_of_def segment_pages_def by (intro UN_I [of ph] imageI) auto
  have "user_byte tr s (p_vaddr ph + k) = None"
    using assms(1,5) page by (simp add: user_byte_def tables_ok_def translate_of_def)
  then have "user_byte tr t (p_vaddr ph + k) = image_byte data (p_vaddr ph + k) phs None"
    using l page assms(4) by (auto simp: loads_def)
  also have "\<dots> = Some (case file_at data ph (p_vaddr ph + k) of Some x \<Rightarrow> x | None \<Rightarrow> zero_filled None)"
    using ph by (intro image_byte_inside [OF ok]) (auto simp: in_segment_def)
  finally show "user_byte tr t (p_vaddr ph + k) = Some (if k < p_filesz ph then data ! (p_offset ph + k) else 0)" by (simp add: file_at_def)
qed

text \<open>Loading an image whose segments do not overlap, lie in the file and fall on pages that are not mapped gives the program the memory
  that its headers describe: at every address of a segment is the byte of the file or, beyond the part in the file, zero; the entry
  point is the one of the header, and the bounds of the image are the smallest start and the largest end of its segments.\<close>

theorem program_image:
  assumes "tables_ok mp look tr" and "load_elf mp tr data s = Some (Inr info, t)" and "phys_inv (ms_fa s)" and "header_from_bytes data = Some h"
    and "segments_ok data (load_list data h)" and "\<And>q. q \<in> pages_of (load_list data h) \<Longrightarrow> look (ms_pt s) q = None"
  shows "(\<forall>ph \<in> set (load_list data h). \<forall>k < p_memsz ph. user_byte tr t (p_vaddr ph + k)
        = Some (if k < p_filesz ph then data ! (p_offset ph + k) else 0))
    \<and> entry info = e_entry h \<and> load_list data h \<noteq> [] \<and> load_base info = Min (p_vaddr ` set (load_list data h))
    \<and> load_end info = Max ((\<lambda>ph. p_vaddr ph + p_memsz ph) ` set (load_list data h))"
proof -
  let ?phs = "load_list data h"
  have sp: "space_ok look (pages_of ?phs) s" using assms(3,6) by (rule space_ok_unmapped)
  have len: "\<forall>ph \<in> set ?phs. p_offset ph + p_filesz ph \<le> length data" using assms(5) by (simp add: segments_ok_def)
  note l = load_elf_ok [OF assms(1,2) sp assms(4) len order.refl]
  note shown = image_shown(2) [OF assms(1) l(1) assms(5) order.refl assms(6)]
  have "?phs \<noteq> []" using l(2,5) by (auto simp: note_loads_def)
  moreover have "load_base info = Min (p_vaddr ` set ?phs) \<and> load_end info = Max ((\<lambda>ph. p_vaddr ph + p_memsz ph) ` set ?phs)"
    using note_loads_eq [OF \<open>?phs \<noteq> []\<close>] l(2,5) by (auto simp: min_def split: if_splits)
  ultimately show ?thesis using l(3) shown by blast
qed

text \<open>C39. A page of a segment that is mapped already is not refused, whoever owns its frame: for a segment within such a page, the loader writes
  the bytes of the file into the frame and returns success.  The address is not compared with the end of user space, and the new
  address space holds the entries of the kernel, so an image can name a page of the kernel.\<close>

theorem segment_overwrites_mapped:
  assumes "virt_addr_new mp (align_down (p_vaddr ph)) = Some (align_down (p_vaddr ph))" and "tr (ms_pt s) (align_down (p_vaddr ph)) = Some phys"
    and "0 < p_memsz ph" and "p_filesz ph \<le> p_memsz ph" and "p_vaddr ph + p_memsz ph \<le> align_down (p_vaddr ph) + 4096"
    and "p_vaddr ph + 8192 \<le> U64_MAX" and "p_offset ph + p_filesz ph \<le> length data" and "length data \<le> U64_MAX"
  shows "load_segment mp tr data ph s = Some (Inr (), s\<lparr>ms_mem := mem_write (align_down phys + (p_vaddr ph - align_down (p_vaddr ph)))
      (take (p_filesz ph) (drop (p_offset ph) data)) (ms_mem s)\<rparr>)"
proof -
  let ?b = "align_down (p_vaddr ph)"
  have b: "?b \<le> p_vaddr ph" "?b mod 4096 = 0" by (simp_all add: align_down_mod)
  have "align_down (p_vaddr ph + p_memsz ph + 4095) = ?b + 4096"
  proof (subst same_page)
    show "(?b + 4096) mod 4096 = 0" using b(2) by simp
    show "?b + 4096 \<le> p_vaddr ph + p_memsz ph + 4095 \<and> p_vaddr ph + p_memsz ph + 4095 < ?b + 4096 + 4096"
      using assms(3,5) b(1) by linarith
  qed
  moreover have "p_vaddr ph + p_memsz ph + 4095 \<le> U64_MAX" using assms(5,6) b by linarith
  ultimately have up: "add64 (p_vaddr ph) (p_memsz ph) = Some (p_vaddr ph + p_memsz ph)" "align_up (p_vaddr ph + p_memsz ph) = Some (?b + 4096)"
    by (simp_all add: add64_def align_up_def)
  have "?b \<le> U64_MAX" using assms(6) b(1) by linarith
  then have base: "add64 ?b 0 = Some ?b" by (simp add: add64_def)
  have pf: "page_frame mp tr (segment_flags ph) ?b s = Some (Inr (align_down phys), s)"
    using assms(1,2) by (simp add: page_frame_def)
  have "fill_page data ph ?b (align_down phys) (ms_mem s)
      = Some (mem_write (align_down phys + (p_vaddr ph - ?b)) (take (p_filesz ph) (drop (p_offset ph) data)) (ms_mem s))"
  proof (cases "p_filesz ph = 0")
    case True
    then show ?thesis by (simp add: fill_page_def mem_write_empty)
  next
    case False
    have le: "p_filesz ph \<le> 4096 - (p_vaddr ph - ?b)" using assms(4,5) b by linarith
    have o: "(if p_vaddr ph \<le> ?b then ?b - p_vaddr ph else 0) = 0" "(if ?b < p_vaddr ph then p_vaddr ph - ?b else 0) = p_vaddr ph - ?b" using b by auto
    have "add64 (p_offset ph) 0 = Some (p_offset ph)" "add64 (p_offset ph) (p_filesz ph) = Some (p_offset ph + p_filesz ph)"
      using assms(7,8) by (simp_all add: add64_def)
    then show ?thesis using False le assms(7) by (simp only: fill_page_def Let_def o) (simp add: min_absorb1)
  qed
  then have "load_page mp tr data ph (segment_flags ph) ?b s
      = Some (Inr (), s\<lparr>ms_mem := mem_write (align_down phys + (p_vaddr ph - ?b)) (take (p_filesz ph) (drop (p_offset ph) data)) (ms_mem s)\<rparr>)"
    using pf by (simp add: load_page_def)
  then show ?thesis using assms(3) up base by (simp add: load_segment_def)
qed

subsection \<open>A concrete program\<close>

text \<open>An image of one segment, three bytes of code at \<open>0x400078\<close> and two bytes that are not in the file, and an empty address
  space over 576 free frames.\<close>

definition demo_elf :: "u8 list" where
  "demo_elf =
    [0x7F, 0x45, 0x4C, 0x46, 2, 1, 1, 0, 0, 0, 0, 0, 0, 0, 0, 0,
     2, 0, 0x3E, 0, 1, 0, 0, 0, 0x78, 0, 0x40, 0, 0, 0, 0, 0,
     0x40, 0, 0, 0, 0, 0, 0, 0, 0, 0, 0, 0, 0, 0, 0, 0,
     0, 0, 0, 0, 0x40, 0, 0x38, 0, 1, 0, 0, 0, 0, 0, 0, 0,
     1, 0, 0, 0, 5, 0, 0, 0, 0x78, 0, 0, 0, 0, 0, 0, 0,
     0x78, 0, 0x40, 0, 0, 0, 0, 0, 0x78, 0, 0x40, 0, 0, 0, 0, 0,
     3, 0, 0, 0, 0, 0, 0, 0, 5, 0, 0, 0, 0, 0, 0, 0,
     0, 0x10, 0, 0, 0, 0, 0, 0, 0x90, 0x90, 0xC3]"

definition demo_header :: Elf64Header where
  "demo_header = \<lparr>e_ident = [0x7F, 0x45, 0x4C, 0x46, 2, 1, 1, 0, 0, 0, 0, 0, 0, 0, 0, 0], e_type = 2, e_machine = 0x3E, e_version = 1, e_entry = 0x400078, e_phoff = 64,
     e_shoff = 0, e_flags = 0, e_ehsize = 64, e_phentsize = 56, e_phnum = 1, e_shentsize = 0, e_shnum = 0, e_shstrndx = 0\<rparr>"

definition demo_phdr :: Elf64Phdr where
  "demo_phdr = \<lparr>p_type = 1, p_flags = 5, p_offset = 120, p_vaddr = 0x400078, p_paddr = 0x400078, p_filesz = 3, p_memsz = 5, p_align = 4096\<rparr>"

lemma demo_elf_header: "header_from_bytes demo_elf = Some demo_header"
  by (simp add: header_from_bytes_def demo_elf_def demo_header_def le_field_def ELF_MAGIC_def)

lemma demo_elf_facts: "length demo_elf = 123" "drop 120 demo_elf = [0x90, 0x90, 0xC3]"
  by (simp_all add: demo_elf_def)

lemma demo_elf_segment: "phdr_at demo_elf 64 = demo_phdr"
  by (simp add: phdr_at_def demo_elf_def demo_phdr_def le_field_def)


definition demo_tr :: "(nat \<rightharpoonup> phys_frame \<times> PageFlags) translate" where
  "demo_tr = translate_of (\<lambda>pt. pt)"

definition demo_blank :: "(nat \<rightharpoonup> phys_frame \<times> PageFlags) MmState" where
  "demo_blank = demo_space\<lparr>ms_fa := all_free 9 0\<rparr>"

lemma demo_tables_ok: "tables_ok demo_mapper (\<lambda>pt. pt) demo_tr"
  using demo_mapper_ok by (simp add: tables_ok_def demo_tr_def mapper_maps_def demo_mapper_def)

lemma demo_blank_sel: "ms_pt demo_blank = Map.empty" "ms_fa demo_blank = all_free 9 0" "phys_inv (ms_fa demo_blank)"
  by (simp_all add: demo_blank_def demo_space_def phys_inv_all_free)

lemma demo_blank_free: "finite (free_addrs (ms_fa demo_blank))" "card (free_addrs (ms_fa demo_blank)) = 576"
  by (simp_all add: demo_blank_sel free_addrs_def free_set_all_free card_image inj_on_def)

lemma allocate_some:
  assumes "phys_inv fa" "finite (free_addrs fa)" "0 < card (free_addrs fa)"
  obtains f fa' where "allocate fa = Some (Some f, fa')" "phys_inv fa'" "finite (free_addrs fa')" "card (free_addrs fa') = card (free_addrs fa) - 1"
proof -
  obtain f fa' where f: "allocate fa = Some (Some f, fa')" "phys_inv fa'" "f \<in> free_addrs fa" "free_addrs fa' = free_addrs fa - {f}"
    using bitmap.alloc_ok [OF assms(1)] assms(3) by auto
  then show thesis using that [of f fa'] assms(2) by simp
qed

lemma demo_load:
  "\<exists>info t. load_elf demo_mapper demo_tr demo_elf demo_blank = Some (Inr info, t) \<and> phys_inv (ms_fa t) \<and> finite (free_addrs (ms_fa t)) \<and> 512 \<le> card (free_addrs (ms_fa t))"
proof -
  obtain f fa where fa: "allocate (ms_fa demo_blank) = Some (Some f, fa)" "phys_inv fa" "finite (free_addrs fa)" "card (free_addrs fa) = 575"
    using allocate_some [OF demo_blank_sel(3) demo_blank_free(1)] demo_blank_free(2) by auto
  have seg: "p_type demo_phdr = PT_LOAD" "p_vaddr demo_phdr = 0x400078" "p_memsz demo_phdr = 5" "p_filesz demo_phdr = 3" "p_offset demo_phdr = 120"
    by (simp_all add: demo_phdr_def PT_LOAD_def)
  have al: "align_up 0x40007D = Some 0x401000" "align_down 0x400078 = 0x400000"
    by (simp_all add: align_up_def align_down_def add64_def U64_MAX_def PAGE_SIZE_def)
  let ?t = "demo_blank\<lparr>ms_fa := fa, ms_pt := [0x400000 \<mapsto> (f, segment_flags demo_phdr)], ms_fa := fa, ms_mem := zero_page f (ms_mem demo_blank)\<rparr>"
  have pf: "page_frame demo_mapper demo_tr (segment_flags demo_phdr) 0x400000 demo_blank = Some (Inr f, ?t)"
    using fa(1) by (simp add: page_frame_def demo_mapper_def demo_tr_def translate_of_def demo_blank_sel Let_def)
  define m where "m = mem_write (f + 120) [0x90, 0x90, 0xC3] (ms_mem ?t)"
  have fill: "fill_page demo_elf demo_phdr 0x400000 f (ms_mem ?t) = Some m"
    by (simp add: fill_page_def seg Let_def add64_def U64_MAX_def demo_elf_facts m_def)
  have "load_page demo_mapper demo_tr demo_elf demo_phdr (segment_flags demo_phdr) 0x400000 demo_blank = Some (Inr (), ?t\<lparr>ms_mem := m\<rparr>)"
    using pf fill by (simp add: load_page_def)
  then have "load_segment demo_mapper demo_tr demo_elf demo_phdr demo_blank = Some (Inr (), ?t\<lparr>ms_mem := m\<rparr>)"
    by (simp add: load_segment_def seg al add64_def U64_MAX_def)
  then obtain info where "load_elf demo_mapper demo_tr demo_elf demo_blank = Some (Inr info, ?t\<lparr>ms_mem := m\<rparr>)"
    by (simp add: load_elf_def demo_elf_header is_valid_x86_64_def demo_header_def demo_elf_segment demo_elf_facts seg add64_def U64_MAX_def PHDR_SIZE_def note_load_def)
  then show ?thesis using fa by (intro exI [of _ info] exI [of _ "?t\<lparr>ms_mem := m\<rparr>"]) simp
qed

lemma demo_load_list: "load_list demo_elf demo_header = [demo_phdr]"
  by (simp add: load_list_def loaded_def header_at_def demo_header_def demo_elf_segment) (simp add: demo_phdr_def PT_LOAD_def)

lemma demo_segments_ok: "segments_ok demo_elf [demo_phdr]"
  by (simp add: segments_ok_def demo_elf_facts) (simp add: demo_phdr_def)

lemma demo_pages: "q \<in> pages_of [demo_phdr] \<Longrightarrow> q = 0x400000"
proof -
  assume "q \<in> pages_of [demo_phdr]"
  then obtain a where "q = align_down a" "0x400078 \<le> a" "a < 0x40007D" by (auto simp: pages_of_def segment_pages_def demo_phdr_def)
  then show ?thesis using same_page [of "0x400000" a] by simp
qed


theorem segment_overwrites_mapped_witness:
  "load_segment demo_mapper demo_tr demo_elf demo_phdr (demo_blank\<lparr>ms_pt := [0x400000 \<mapsto> (0x5000, STACK_FLAGS)]\<rparr>)
    = Some (Inr (), demo_blank\<lparr>ms_pt := [0x400000 \<mapsto> (0x5000, STACK_FLAGS)], ms_mem := mem_write 0x5078 [0x90, 0x90, 0xC3] (ms_mem demo_blank)\<rparr>)"
proof -
  have a: "align_down 0x400078 = 0x400000" "align_down 0x400000 = 0x400000" "align_down 0x5000 = 0x5000" by (simp_all add: align_down_def PAGE_SIZE_def)
  show ?thesis
    using segment_overwrites_mapped [where mp = demo_mapper and tr = demo_tr and ph = demo_phdr and data = demo_elf and phys = "0x5000"
        and s = "demo_blank\<lparr>ms_pt := [0x400000 \<mapsto> (0x5000, STACK_FLAGS)]\<rparr>"]
    by (simp add: a demo_phdr_def demo_mapper_def demo_tr_def translate_of_def demo_elf_facts U64_MAX_def)
qed

theorem program_image_witness:
  "\<exists>info t. load_elf demo_mapper demo_tr demo_elf demo_blank = Some (Inr info, t) \<and> entry info = 0x400078 \<and> load_base info = 0x400078 \<and> load_end info = 0x40007D
    \<and> (\<forall>k < 5. user_byte demo_tr t (0x400078 + k) = Some (if k < 3 then demo_elf ! (120 + k) else 0))"
proof -
  obtain info t where run: "load_elf demo_mapper demo_tr demo_elf demo_blank = Some (Inr info, t)" using demo_load by blast
  have seg: "p_vaddr demo_phdr = 0x400078" "p_memsz demo_phdr = 5" "p_filesz demo_phdr = 3" "p_offset demo_phdr = 120" "e_entry demo_header = 0x400078"
    by (simp_all add: demo_phdr_def demo_header_def)
  have "segments_ok demo_elf (load_list demo_elf demo_header)" by (simp add: demo_load_list demo_segments_ok)
  note img = program_image [OF demo_tables_ok run demo_blank_sel(3) demo_elf_header this, unfolded demo_blank_sel(1), OF refl]
  have "\<forall>k < p_memsz demo_phdr. user_byte demo_tr t (p_vaddr demo_phdr + k)
      = Some (if k < p_filesz demo_phdr then demo_elf ! (p_offset demo_phdr + k) else 0)"
    using bspec [OF conjunct1 [OF img], of demo_phdr] demo_load_list by simp
  moreover have "entry info = 0x400078 \<and> load_base info = 0x400078 \<and> load_end info = 0x40007D" using img by (simp add: demo_load_list seg)
  ultimately show ?thesis using run unfolding seg by blast
qed

end
