(* ===== verification/First_Stack.thy ===== *)
theory First_Stack
  imports Program_Image
begin

text \<open>
  The first stack of a program and the start of a program in a new address space: what \<open>setup_user_stack\<close> leaves in memory, as
  a block of strings and a list of words, the alignment of the stack pointer, and the composition with the image of
  \<open>Program_Image\<close>.  The last section runs the loader on a concrete image.
\<close>

subsection \<open>Writing through the page tables\<close>

definition canonical_ok :: "'pt Mapper \<Rightarrow> bool" where
  "canonical_ok mp \<longleftrightarrow> (\<forall>a < 2 ^ 47. virt_addr_new mp a = Some a)"

lemma andThen_simps [simp]: "andThen (Some (Inr a, s)) f = f a s" "andThen (Some (Inl e, s)) f = Some (Inl e, s)"
  by (simp_all add: andThen_def)

text \<open>The bytes \<open>bs\<close> are written at \<open>a\<close>; nothing else that the program sees changes, and no mapping.\<close>

definition writes :: "('pt \<Rightarrow> nat \<Rightarrow> (phys_frame \<times> PageFlags) option) \<Rightarrow> 'pt translate \<Rightarrow> nat set \<Rightarrow> nat \<Rightarrow> u8 list \<Rightarrow> 'pt MmState \<Rightarrow> 'pt MmState \<Rightarrow> bool" where
  "writes look tr U a bs s t \<longleftrightarrow> space_ok look U t \<and> ms_pt t = ms_pt s
     \<and> (\<forall>x. align_down x \<in> U \<longrightarrow> user_byte tr t x = (if a \<le> x \<and> x < a + length bs then Some (bs ! (x - a)) else user_byte tr s x))"

lemma writes_refl: "space_ok look U s \<Longrightarrow> writes look tr U a [] s s"
  by (auto simp: writes_def)

lemma writes_below: "writes look tr U (a + length xs) ys s t \<Longrightarrow> writes look tr U a xs t u \<Longrightarrow> writes look tr U a (xs @ ys) s u"
  unfolding writes_def by (auto simp: nth_append)

lemma writes_above: "writes look tr U a xs s t \<Longrightarrow> writes look tr U (a + length xs) ys t u \<Longrightarrow> writes look tr U a (xs @ ys) s u"
  unfolding writes_def by (auto simp: nth_append)

lemma writes_space: "writes look tr U a bs s t \<Longrightarrow> space_ok look U t" "writes look tr U a bs s t \<Longrightarrow> ms_pt t = ms_pt s"
  by (simp_all add: writes_def)

text \<open>The pages from \<open>lo\<close> to \<open>hi\<close> are given to the program and mapped.\<close>

definition stack_window :: "('pt \<Rightarrow> nat \<Rightarrow> (phys_frame \<times> PageFlags) option) \<Rightarrow> nat set \<Rightarrow> 'pt MmState \<Rightarrow> nat \<Rightarrow> nat \<Rightarrow> bool" where
  "stack_window look U s lo hi \<longleftrightarrow> space_ok look U s \<and> hi \<le> 2 ^ 47 \<and> (\<forall>x. lo \<le> x \<and> x < hi \<longrightarrow> align_down x \<in> U \<and> look (ms_pt s) (align_down x) \<noteq> None)"

lemma stack_window_writes: "stack_window look U s lo hi \<Longrightarrow> writes look tr U a bs s t \<Longrightarrow> stack_window look U t lo hi"
  by (simp add: stack_window_def writes_def)

lemma write_to_stack_ok:
  assumes tok: "tables_ok mp look tr" "canonical_ok mp"
  shows "stack_window look U s lo hi \<Longrightarrow> lo \<le> a \<Longrightarrow> a + length bs \<le> hi \<Longrightarrow> \<exists>t. write_to_stack mp tr a bs s = Some (Inr (), t) \<and> writes look tr U a bs s t"
proof (induction bs arbitrary: a s)
  case Nil
  then show ?case using writes_refl [of look U s tr a] by (simp add: stack_window_def)
next
  case (Cons b bs)
  let ?s = "s\<lparr>ms_mem := (ms_mem s)(THE p. tr (ms_pt s) a = Some p := b)\<rparr>"
  have w: "align_down a \<in> U" "look (ms_pt s) (align_down a) \<noteq> None" "a < 2 ^ 47" "space_ok look U s"
    using Cons.prems by (auto simp: stack_window_def)
  then obtain f fl where f: "look (ms_pt s) (align_down a) = Some (f, fl)" by auto
  have tr: "tr (ms_pt s) a = Some (f + a mod 4096)" using tok f by (simp add: tables_ok_def translate_of_def)
  have va: "virt_addr_new mp a = Some a" using tok w by (simp add: canonical_ok_def)
  define t where "t = s\<lparr>ms_mem := (ms_mem s)(f + a mod 4096 := b)\<rparr>"
  have "ms_mem t = mem_write (f + a mod 4096) [b] (ms_mem s)" by (rule ext) (auto simp: t_def mem_write_def)
  then have wp: "space_ok look U t" "\<And>x. align_down x \<in> U \<Longrightarrow> user_byte tr t x =
      (if align_down a + a mod 4096 \<le> x \<and> x < align_down a + a mod 4096 + length [b] then Some ([b] ! (x - (align_down a + a mod 4096))) else user_byte tr s x)"
    using write_page [OF tok(1) w(4,1) align_down_mod f, of "a mod 4096" "[b]" t] mod_less_divisor [of 4096 a] by (auto simp: t_def Suc_le_eq)
  have wt: "writes look tr U a [b] s t" unfolding writes_def using wp by (simp add: page_split t_def)
  show ?case
  proof (cases "bs = []")
    case True
    then show ?thesis using va tr wt by (auto simp: t_def Let_def)
  next
    case False
    have "add64 a 1 = Some (a + 1)" using w(3) by (simp add: add64_def U64_MAX_def)
    moreover obtain u where "write_to_stack mp tr (a + 1) bs t = Some (Inr (), u)" "writes look tr U (a + 1) bs t u"
      using Cons.IH [OF stack_window_writes [OF Cons.prems(1) wt], of "a + 1"] Cons.prems by auto
    ultimately show ?thesis using va tr False writes_above [OF wt] by (auto simp: t_def Let_def)
  qed
qed

text \<open>The result of a push: the bytes below the old top.\<close>

definition cstr :: "u8 list \<Rightarrow> u8 list" where
  "cstr str = str @ [0]"

fun string_addrs :: "nat \<Rightarrow> u8 list list \<Rightarrow> nat list" where
  "string_addrs a [] = []"
| "string_addrs a (str # strs) = a # string_addrs (a + length (cstr str)) strs"

lemma string_addrs_append: "string_addrs a (xs @ ys) = string_addrs a xs @ string_addrs (a + length (concat (map cstr xs))) ys"
  by (induction xs arbitrary: a) (simp_all add: add.assoc)

lemma push_string_ok:
  assumes tok: "tables_ok mp look tr" "canonical_ok mp" and w: "stack_window look U s lo hi" and "lo + length (cstr str) \<le> sp" "sp \<le> hi"
  shows "\<exists>t. push_string mp tr str sp s = Some (Inr (sp - length (cstr str)), t) \<and> writes look tr U (sp - length (cstr str)) (cstr str) s t"
proof -
  define a where "a = sp - length (cstr str)"
  have a: "lo \<le> a" "a + length (cstr str) = sp" "a + length str + 1 = sp" using assms(4) by (auto simp: a_def cstr_def)
  have sub: "sub64 sp (length str + 1) = Some a" using assms(4) by (simp add: sub64_def a_def cstr_def)
  obtain t1 where t1: "write_to_stack mp tr a str s = Some (Inr (), t1)" "writes look tr U a str s t1"
    using write_to_stack_ok [OF tok w a(1), of str] a assms(5) by auto
  obtain t2 where t2: "write_to_stack mp tr (a + length str) [0] t1 = Some (Inr (), t2)" "writes look tr U (a + length str) [0] t1 t2"
    using write_to_stack_ok [OF tok stack_window_writes [OF w t1(2)], of "a + length str" "[0]"] a assms(5) by auto
  have "add64 a (length str) = Some (a + length str)" using a assms(5) w by (simp add: add64_def U64_MAX_def stack_window_def)
  then have "push_string mp tr str sp s = Some (Inr a, t2)" using sub t1(1) t2(1) by (simp add: push_string_def del: write_to_stack.simps)
  moreover have "writes look tr U a (cstr str) s t2" unfolding cstr_def by (rule writes_above [OF t1(2) t2(2)])
  ultimately show ?thesis unfolding a_def by blast
qed

lemma push_strings_ok:
  assumes tok: "tables_ok mp look tr" "canonical_ok mp"
  shows "stack_window look U s lo hi \<Longrightarrow> lo + length (concat (map cstr strs)) \<le> sp \<Longrightarrow> sp \<le> hi \<Longrightarrow>
    \<exists>t. push_strings mp tr (rev strs) sp addrs s =
        Some (Inr (sp - length (concat (map cstr strs)), string_addrs (sp - length (concat (map cstr strs))) strs @ addrs), t)
      \<and> writes look tr U (sp - length (concat (map cstr strs))) (concat (map cstr strs)) s t"
proof (induction strs arbitrary: sp addrs s rule: rev_induct)
  case Nil
  then show ?case using writes_refl [of look U s tr] by (simp add: stack_window_def)
next
  case (snoc str strs)
  let ?sp = "sp - length (cstr str)"
  obtain t1 where t1: "push_string mp tr str sp s = Some (Inr ?sp, t1)" "writes look tr U ?sp (cstr str) s t1"
    using push_string_ok [OF tok snoc.prems(1), of str sp] snoc.prems(2,3) by auto
  let ?a = "?sp - length (concat (map cstr strs))"
  have le: "lo + length (concat (map cstr strs)) \<le> ?sp" "?sp \<le> hi" using snoc.prems(2,3) by simp_all
  obtain t2 where t2: "push_strings mp tr (rev strs) ?sp (?sp # addrs) t1 = Some (Inr (?a, string_addrs ?a strs @ ?sp # addrs), t2)"
    "writes look tr U ?a (concat (map cstr strs)) t1 t2"
    using snoc.IH [OF stack_window_writes [OF snoc.prems(1) t1(2)] le(1,2), of "?sp # addrs"] by blast
  have e: "?a + length (concat (map cstr strs)) = ?sp" using snoc.prems(2) by simp
  have "writes look tr U ?a (concat (map cstr strs) @ cstr str) s t2" by (rule writes_below [OF _ t2(2)]) (use t1(2) e in simp)
  moreover have "sp - length (concat (map cstr (strs @ [str]))) = ?a" by simp
  moreover have "string_addrs ?a (strs @ [str]) @ addrs = string_addrs ?a strs @ ?sp # addrs" using e by (simp add: string_addrs_append)
  ultimately show ?case using t1(1) t2(1) by simp
qed

definition words_bytes :: "nat list \<Rightarrow> u8 list" where
  "words_bytes ws = concat (map (le_bytes 8) ws)"

lemma words_bytes_simps [simp]: "words_bytes [] = []" "words_bytes (w # ws) = le_bytes 8 w @ words_bytes ws"
  "words_bytes (vs @ ws) = words_bytes vs @ words_bytes ws" "length (words_bytes ws) = 8 * length ws"
proof -
  show "length (words_bytes ws) = 8 * length ws" by (induction ws) (simp_all add: words_bytes_def)
qed (simp_all add: words_bytes_def)

lemma push_word_ok:
  assumes tok: "tables_ok mp look tr" "canonical_ok mp" and w: "stack_window look U s lo hi" and "lo + 8 \<le> sp" "sp \<le> hi"
  shows "\<exists>t. push_word mp tr v sp s = Some (Inr (sp - 8), t) \<and> writes look tr U (sp - 8) (le_bytes 8 v) s t"
proof -
  have "lo \<le> sp - 8" "sp - 8 + length (le_bytes 8 v) \<le> hi" using assms(4,5) by simp_all
  from write_to_stack_ok [OF tok w this] show ?thesis using assms(4) by (auto simp: push_word_def sub64_def simp del: write_to_stack.simps)
qed

lemma push_words_ok:
  assumes tok: "tables_ok mp look tr" "canonical_ok mp"
  shows "stack_window look U s lo hi \<Longrightarrow> lo + 8 * length ws \<le> sp \<Longrightarrow> sp \<le> hi \<Longrightarrow>
    \<exists>t. push_words mp tr (rev ws) sp s = Some (Inr (sp - 8 * length ws), t) \<and> writes look tr U (sp - 8 * length ws) (words_bytes ws) s t"
proof (induction ws arbitrary: sp s rule: rev_induct)
  case Nil
  then show ?case using writes_refl [of look U s tr] by (simp add: stack_window_def)
next
  case (snoc v ws)
  obtain t1 where t1: "push_word mp tr v sp s = Some (Inr (sp - 8), t1)" "writes look tr U (sp - 8) (le_bytes 8 v) s t1"
    using push_word_ok [OF tok snoc.prems(1), of sp v] snoc.prems(2,3) by auto
  have le: "lo + 8 * length ws \<le> sp - 8" "sp - 8 \<le> hi" using snoc.prems(2,3) by simp_all
  obtain t2 where t2: "push_words mp tr (rev ws) (sp - 8) t1 = Some (Inr (sp - 8 - 8 * length ws), t2)" "writes look tr U (sp - 8 - 8 * length ws) (words_bytes ws) t1 t2"
    using snoc.IH [OF stack_window_writes [OF snoc.prems(1) t1(2)] le] by blast
  have "writes look tr U (sp - 8 - 8 * length ws) (words_bytes ws @ le_bytes 8 v) s t2"
    by (rule writes_below [OF _ t2(2)]) (use t1(2) snoc.prems(2) in simp)
  then show ?case using t1(1) t2(1) by (simp add: diff_diff_left add.commute)
qed

subsection \<open>The pages of the stack\<close>

definition STACK_BASE :: nat where "STACK_BASE = USER_STACK_TOP - USER_STACK_PAGES * 4096"

definition stack_pages :: "nat set" where
  "stack_pages = (\<lambda>i. STACK_BASE + i * 4096) ` {..<USER_STACK_PAGES}"

lemma stack_consts: "STACK_BASE = 140737486192640" "USER_STACK_TOP = 140737488289792" "STACK_BASE mod 4096 = 0"
  "STACK_BASE + 512 * 4096 = USER_STACK_TOP" "USER_STACK_PAGES = 512"
  by (simp_all add: STACK_BASE_def USER_STACK_TOP_def USER_STACK_PAGES_def)

lemma in_stack_pages: "STACK_BASE \<le> a \<Longrightarrow> a < USER_STACK_TOP \<Longrightarrow> align_down a \<in> stack_pages"
proof -
  assume a: "STACK_BASE \<le> a" "a < USER_STACK_TOP"
  define i where "i = (a - STACK_BASE) div 4096"
  have "i < 512" using a unfolding i_def stack_consts by (intro less_mult_imp_div_less) simp
  moreover have "align_down a = STACK_BASE + i * 4096"
    using a mod_less_divisor [of 4096 "a - STACK_BASE"] div_mult_mod_eq [of "a - STACK_BASE" 4096] stack_consts(3)
    by (subst same_page) (auto simp: i_def mod_add_left_eq [symmetric])
  ultimately show ?thesis by (auto simp: stack_pages_def stack_consts(5))
qed

lemma map_stack_ok:
  assumes tok: "tables_ok mp look tr" "canonical_ok mp"
  shows "space_ok look U s \<Longrightarrow> (\<And>i. i \<in> set is \<Longrightarrow> base + i * 4096 \<in> U \<and> base + i * 4096 < 2 ^ 47) \<Longrightarrow>
    \<exists>r t. map_stack mp base is s = Some (r, t) \<and> (r = Inl NoMemory \<or> r = Inr () \<and>
      loads look tr U ((\<lambda>i. base + i * 4096) ` set is) (\<lambda>a b. if align_down a \<in> (\<lambda>i. base + i * 4096) ` set is then Some 0 else b) s t
      \<and> (\<forall>p. look (ms_pt s) p \<noteq> None \<or> p \<in> (\<lambda>i. base + i * 4096) ` set is \<longrightarrow> look (ms_pt t) p \<noteq> None))"
proof (induction "is" arbitrary: s)
  case Nil
  then show ?case using loads_refl [of look U s tr] by simp
next
  case (Cons i "is")
  let ?p = "base + i * 4096" and ?P = "(\<lambda>i. base + i * 4096) ` set is"
  have p: "?p \<in> U" "?p < 2 ^ 47" using Cons.prems(2) [of i] by auto
  have inv: "phys_inv (ms_fa s)" using Cons.prems(1) by (simp add: space_ok_def)
  have a: "add64 base (i * 4096) = Some ?p" "virt_addr_new mp ?p = Some ?p"
    using p(2) tok(2) by (simp_all add: add64_def U64_MAX_def canonical_ok_def)
  consider "allocate (ms_fa s) = Some (None, ms_fa s)" | f fa where "allocate (ms_fa s) = Some (Some f, fa)"
    using bitmap.alloc_ok [OF inv] by blast
  then show ?case
  proof cases
    case 1
    then show ?thesis using a by simp
  next
    case 2
    obtain res pt fa' where mp: "map_page mp ?p f STACK_FLAGS (ms_pt s) fa = (res, pt, fa')" by (rule prod_cases3)
    show ?thesis
    proof (cases res)
      case (Inl e)
      then show ?thesis using a 2 mp by simp
    next
      case (Inr u)
      define t where "t = s\<lparr>ms_fa := fa, ms_pt := pt, ms_fa := fa', ms_mem := zero_page f (ms_mem s)\<rparr>"
      have run: "map_stack mp base (i # is) s = map_stack mp base is t" using a 2 mp Inr by (simp add: t_def Let_def)
      note m = map_fresh [OF tok(1) Cons.prems(1) p(1) 2 mp [unfolded Inr], of t]
      have one: "loads look tr U {?p} (\<lambda>a b. if align_down a = ?p then Some 0 else b) s t" unfolding loads_def using m by (simp add: t_def)
      obtain r t2 where t2: "map_stack mp base is t = Some (r, t2)" "r = Inl NoMemory \<or> r = Inr () \<and>
          loads look tr U ?P (\<lambda>a b. if align_down a \<in> ?P then Some 0 else b) t t2
          \<and> (\<forall>p. look (ms_pt t) p \<noteq> None \<or> p \<in> ?P \<longrightarrow> look (ms_pt t2) p \<noteq> None)"
        using Cons.IH [OF loads_space [OF one]] Cons.prems(2) by auto
      have l: "look (ms_pt t) = (look (ms_pt s))(?p \<mapsto> (f, STACK_FLAGS))" using m(2) by (simp add: t_def)
      show ?thesis
      proof (cases "r = Inl NoMemory")
        case True
        then show ?thesis using run t2(1) by auto
      next
        case False
        have "loads look tr U ((\<lambda>i. base + i * 4096) ` set (i # is)) (\<lambda>a b. if align_down a \<in> (\<lambda>i. base + i * 4096) ` set (i # is) then Some 0 else b) s t2"
          by (rule loads_cong [OF loads_trans [OF one, of ?P]]) (use t2(2) False in auto)
        then show ?thesis using run t2 False l by (intro exI [of _ r] exI [of _ t2]) (auto simp: fun_upd_apply)
      qed
    qed
  qed
qed

subsection \<open>The first stack\<close>

text \<open>What the stack holds: a block of strings below its top, and, below the first multiple of 16 under the block, a list of words.\<close>

definition stack_block :: "u8 list list \<Rightarrow> u8 list list \<Rightarrow> u8 list \<Rightarrow> u8 list" where
  "stack_block argv envp path = concat (map cstr argv) @ concat (map cstr envp) @ cstr path @ RANDOM_BYTES"

definition block_addr :: "u8 list list \<Rightarrow> u8 list list \<Rightarrow> u8 list \<Rightarrow> nat" where
  "block_addr argv envp path = USER_STACK_TOP - length (stack_block argv envp path)"

definition stack_words :: "ElfInfo \<Rightarrow> u8 list list \<Rightarrow> u8 list list \<Rightarrow> u8 list \<Rightarrow> nat list" where
  "stack_words info argv envp path = (let a = block_addr argv envp path in
     length argv # string_addrs a argv @ 0 # string_addrs (a + length (concat (map cstr argv))) envp
       @ 0 # auxv info (USER_STACK_TOP - 16) (USER_STACK_TOP - 16 - length (cstr path)))"

definition entry_sp :: "ElfInfo \<Rightarrow> u8 list list \<Rightarrow> u8 list list \<Rightarrow> u8 list \<Rightarrow> nat" where
  "entry_sp info argv envp path = (let a = block_addr argv envp path in a - a mod 16 - 8 * length (stack_words info argv envp path))"

definition stack_fits :: "u8 list list \<Rightarrow> u8 list list \<Rightarrow> u8 list \<Rightarrow> bool" where
  "stack_fits argv envp path \<longleftrightarrow> length (stack_block argv envp path) + 15 + 8 * (length argv + length envp + 27) \<le> USER_STACK_PAGES * 4096"

definition user_read :: "'pt translate \<Rightarrow> 'pt MmState \<Rightarrow> nat \<Rightarrow> nat \<Rightarrow> u8 option list" where
  "user_read tr s a n = map (user_byte tr s) [a..<a + n]"

lemma length_string_addrs [simp]: "length (string_addrs a strs) = length strs"
  by (induction strs arbitrary: a) simp_all

lemma length_stack_words: "length (stack_words info argv envp path) = length argv + length envp + 27"
  by (simp add: stack_words_def Let_def auxv_def)

lemma writes_read:
  assumes "writes look tr U a bs s t" and "\<And>x. a \<le> x \<Longrightarrow> x < a + length bs \<Longrightarrow> align_down x \<in> U"
  shows "user_read tr t a (length bs) = map Some bs"
  by (rule nth_equalityI) (use assms in \<open>auto simp: user_read_def writes_def\<close>)

lemma writes_keep:
  assumes "writes look tr U a bs s t" and "\<And>x. b \<le> x \<Longrightarrow> x < b + n \<Longrightarrow> align_down x \<in> U" and "b + n \<le> a \<or> a + length bs \<le> b"
  shows "user_read tr t b n = user_read tr s b n"
  unfolding user_read_def by (rule map_cong) (use assms in \<open>auto simp: writes_def\<close>)

lemma andThen_assoc: "andThen (andThen m f) g = andThen m (\<lambda>a s. andThen (f a s) g)"
proof (cases m)
  case (Some x)
  then show ?thesis by (cases x; cases "fst x") (auto simp: andThen_def)
qed (simp add: andThen_def)

lemma push_words_append: "push_words mp tr (vs @ ws) = (\<lambda>sp s. andThen (push_words mp tr vs sp s) (push_words mp tr ws))"
proof (induction vs)
  case (Cons v vs)
  show ?case by (intro ext) (simp add: Cons.IH andThen_assoc)
qed (intro ext, simp)

lemma andThen_return: "andThen m (\<lambda>a s. Some (Inr a, s)) = m"
proof (cases m)
  case (Some x)
  then show ?thesis by (cases x; cases "fst x") (auto simp: andThen_def)
qed (simp add: andThen_def)

lemma push_words_one: "push_words mp tr [w] = push_word mp tr w"
proof -
  have "push_words mp tr [] = (\<lambda>sp s. Some (Inr sp, s))" by (simp add: fun_eq_iff)
  then show ?thesis by (intro ext) (simp add: andThen_return)
qed

text \<open>The words are pushed one group after the other.\<close>

lemma push_all_words:
  "andThen (push_words mp tr (rev aux) sp s) (\<lambda>sp s. andThen (push_word mp tr 0 sp s) (\<lambda>sp s. andThen (push_words mp tr (rev es) sp s)
     (\<lambda>sp s. andThen (push_word mp tr 0 sp s) (\<lambda>sp s. andThen (push_words mp tr (rev as) sp s) (\<lambda>sp s. andThen (push_word mp tr n sp s) k)))))
   = andThen (push_words mp tr (rev (n # as @ 0 # es @ 0 # aux)) sp s) k"
proof -
  have "rev (n # as @ 0 # es @ 0 # aux) = rev aux @ [0] @ rev es @ [0] @ rev as @ [n]" by simp
  then show ?thesis by (simp only: push_words_append push_words_one andThen_assoc)
qed

lemma block_bounds:
  assumes "stack_fits argv envp path"
  defines "a \<equiv> block_addr argv envp path"
  shows "a + length (stack_block argv envp path) = USER_STACK_TOP" "STACK_BASE + 8 * length (stack_words info argv envp path) \<le> a - a mod 16"
    "a - a mod 16 \<le> a" "entry_sp info argv envp path + 8 * length (stack_words info argv envp path) = a - a mod 16" "STACK_BASE \<le> entry_sp info argv envp path"
proof -
  have le: "length (stack_block argv envp path) + 15 + 8 * (length argv + length envp + 27) \<le> 2097152"
    using assms(1) by (simp add: stack_fits_def stack_consts)
  show "a + length (stack_block argv envp path) = USER_STACK_TOP" using le by (simp add: a_def block_addr_def stack_consts)
  then have "STACK_BASE + 8 * (length argv + length envp + 27) + 15 \<le> a" using le by (simp add: stack_consts)
  moreover have "a mod 16 \<le> 15" using mod_less_divisor [of 16 a] by linarith
  ultimately show b: "STACK_BASE + 8 * length (stack_words info argv envp path) \<le> a - a mod 16"
    unfolding length_stack_words by linarith
  show "a - a mod 16 \<le> a" by simp
  have "STACK_BASE \<le> a - a mod 16 - 8 * length (stack_words info argv envp path)" using b by linarith
  then show "STACK_BASE \<le> entry_sp info argv envp path" unfolding entry_sp_def Let_def a_def [symmetric] .
  show "entry_sp info argv envp path + 8 * length (stack_words info argv envp path) = a - a mod 16"
    unfolding entry_sp_def Let_def a_def [symmetric] using b by linarith
qed

lemma push_block:
  assumes tok: "tables_ok mp look tr" "canonical_ok mp" and w1: "stack_window look U s1 STACK_BASE USER_STACK_TOP" and fits: "stack_fits argv envp path"
  defines "a0 \<equiv> USER_STACK_TOP - 16" and "a1 \<equiv> USER_STACK_TOP - 16 - length (cstr path)"
    and "a3 \<equiv> block_addr argv envp path" and "a2 \<equiv> block_addr argv envp path + length (concat (map cstr argv))"
  shows "\<exists>s2 s3 s4 s5. write_to_stack mp tr a0 RANDOM_BYTES s1 = Some (Inr (), s2) \<and> push_string mp tr path a0 s2 = Some (Inr a1, s3)
    \<and> push_strings mp tr (rev envp) a1 [] s3 = Some (Inr (a2, string_addrs a2 envp), s4)
    \<and> push_strings mp tr (rev argv) a2 [] s4 = Some (Inr (a3, string_addrs a3 argv), s5)
    \<and> writes look tr U a3 (stack_block argv envp path) s1 s5 \<and> stack_window look U s5 STACK_BASE USER_STACK_TOP"
proof -
  note bb = block_bounds [OF fits]
  have lr: "length RANDOM_BYTES = 16" by (simp add: RANDOM_BYTES_def)
  have base: "STACK_BASE \<le> a3" using bb(2) [of undefined] bb(3) unfolding a3_def by linarith
  have sums: "a3 + length (concat (map cstr argv)) = a2" "a2 + length (concat (map cstr envp)) = a1" "a1 + length (cstr path) = a0" "a0 + 16 = USER_STACK_TOP"
    using bb(1) lr unfolding stack_block_def length_append a3_def a2_def a1_def a0_def by linarith+
  obtain s2 where s2: "write_to_stack mp tr a0 RANDOM_BYTES s1 = Some (Inr (), s2)" "writes look tr U a0 RANDOM_BYTES s1 s2"
    using write_to_stack_ok [OF tok w1, of a0 RANDOM_BYTES] sums base lr by auto
  note w2 = stack_window_writes [OF w1 s2(2)]
  have d: "a0 - length (cstr path) = a1" "a1 - length (concat (map cstr envp)) = a2" "a2 - length (concat (map cstr argv)) = a3" using sums by linarith+
  obtain s3 where s3: "push_string mp tr path a0 s2 = Some (Inr a1, s3)" "writes look tr U a1 (cstr path) s2 s3"
    using push_string_ok [OF tok w2, of path a0] sums base unfolding d by auto
  note w3 = stack_window_writes [OF w2 s3(2)]
  obtain s4 where s4: "push_strings mp tr (rev envp) a1 [] s3 = Some (Inr (a2, string_addrs a2 envp), s4)" "writes look tr U a2 (concat (map cstr envp)) s3 s4"
    using push_strings_ok [OF tok w3, of envp a1 "[]"] sums base unfolding d by auto
  note w4 = stack_window_writes [OF w3 s4(2)]
  obtain s5 where s5: "push_strings mp tr (rev argv) a2 [] s4 = Some (Inr (a3, string_addrs a3 argv), s5)" "writes look tr U a3 (concat (map cstr argv)) s4 s5"
    using push_strings_ok [OF tok w4, of argv a2 "[]"] sums base unfolding d by auto
  note w5 = stack_window_writes [OF w4 s5(2)]
  have "writes look tr U a1 (cstr path @ RANDOM_BYTES) s1 s3" by (rule writes_below [OF _ s3(2)]) (use s2(2) sums in simp)
  then have "writes look tr U a2 (concat (map cstr envp) @ cstr path @ RANDOM_BYTES) s1 s4" by (intro writes_below [OF _ s4(2)]) (use sums in simp)
  then have "writes look tr U a3 (stack_block argv envp path) s1 s5"
    unfolding stack_block_def by (intro writes_below [OF _ s5(2)]) (use sums in simp)
  then show ?thesis using s2(1) s3(1) s4(1) s5(1) w5 by blast
qed

text \<open>The pages of the stack, given to the program.\<close>

lemma map_stack_pages:
  assumes tok: "tables_ok mp look tr" "canonical_ok mp" and ok: "space_ok look U s" and U: "stack_pages \<subseteq> U"
  shows "\<exists>r t. map_stack mp STACK_BASE [0..<USER_STACK_PAGES] s = Some (r, t) \<and> (r = Inl NoMemory \<or> r = Inr ()
    \<and> loads look tr U stack_pages (\<lambda>a b. if align_down a \<in> stack_pages then Some 0 else b) s t \<and> stack_window look U t STACK_BASE USER_STACK_TOP)"
proof -
  have im: "(\<lambda>i. STACK_BASE + i * 4096) ` set [0..<USER_STACK_PAGES] = stack_pages" unfolding stack_pages_def set_upt atLeast0LessThan ..
  have "STACK_BASE + i * 4096 \<in> U \<and> STACK_BASE + i * 4096 < 2 ^ 47" if "i \<in> set [0..<USER_STACK_PAGES]" for i
  proof -
    have "STACK_BASE + i * 4096 \<in> stack_pages" "i < 512" using that im by (auto simp: stack_consts)
    then show ?thesis using U by (auto simp: stack_consts)
  qed
  from map_stack_ok [OF tok ok this, of "[0..<USER_STACK_PAGES]"] obtain r t where
    s1: "map_stack mp STACK_BASE [0..<USER_STACK_PAGES] s = Some (r, t)" and
    r: "r = Inl NoMemory \<or> r = Inr () \<and> loads look tr U stack_pages (\<lambda>a b. if align_down a \<in> stack_pages then Some 0 else b) s t
      \<and> (\<forall>p. look (ms_pt s) p \<noteq> None \<or> p \<in> stack_pages \<longrightarrow> look (ms_pt t) p \<noteq> None)"
    unfolding im by blast
  have "stack_window look U t STACK_BASE USER_STACK_TOP" if "r = Inr ()"
    using r that loads_space [of look tr U] U in_stack_pages unfolding stack_window_def by (auto simp: stack_consts)
  then show ?thesis using s1 r by blast
qed

lemma setup_ok:
  assumes tok: "tables_ok mp look tr" "canonical_ok mp" and ok: "space_ok look U s" and U: "stack_pages \<subseteq> U" and fits: "stack_fits argv envp path"
  shows "\<exists>r t. setup_user_stack mp tr info argv envp path s = Some (r, t) \<and>
    ((r = Inl NoMemory \<and> map_stack mp STACK_BASE [0..<USER_STACK_PAGES] s = Some (Inl NoMemory, t)) \<or>
    (r = Inr \<lparr>si_sp = entry_sp info argv envp path, argc_ptr = entry_sp info argv envp path\<rparr> \<and>
     (\<exists>s1 s2. loads look tr U stack_pages (\<lambda>a b. if align_down a \<in> stack_pages then Some 0 else b) s s1
        \<and> writes look tr U (block_addr argv envp path) (stack_block argv envp path) s1 s2
        \<and> writes look tr U (entry_sp info argv envp path) (words_bytes (stack_words info argv envp path)) s2 t)))"
proof -
  let ?ws = "stack_words info argv envp path" and ?sp = "entry_sp info argv envp path"
  define a0 where "a0 = USER_STACK_TOP - 16"
  define a1 where "a1 = USER_STACK_TOP - 16 - length (cstr path)"
  define a3 where "a3 = block_addr argv envp path"
  define a2 where "a2 = block_addr argv envp path + length (concat (map cstr argv))"
  note bb = block_bounds [OF fits]
  obtain r s1 where s1: "map_stack mp STACK_BASE [0..<USER_STACK_PAGES] s = Some (r, s1)" and
    r: "r = Inl NoMemory \<or> r = Inr () \<and> loads look tr U stack_pages (\<lambda>a b. if align_down a \<in> stack_pages then Some 0 else b) s s1
      \<and> stack_window look U s1 STACK_BASE USER_STACK_TOP"
    using map_stack_pages [OF tok ok U] by blast
  show ?thesis
  proof (cases "r = Inl NoMemory")
    case True
    then show ?thesis using s1 by (simp add: setup_user_stack_def STACK_BASE_def [symmetric])
  next
    case False
    then have l: "r = Inr ()" "loads look tr U stack_pages (\<lambda>a b. if align_down a \<in> stack_pages then Some 0 else b) s s1"
      "stack_window look U s1 STACK_BASE USER_STACK_TOP" using r by auto
    obtain s2 s3 s4 s5 where b: "write_to_stack mp tr a0 RANDOM_BYTES s1 = Some (Inr (), s2)" "push_string mp tr path a0 s2 = Some (Inr a1, s3)"
      "push_strings mp tr (rev envp) a1 [] s3 = Some (Inr (a2, string_addrs a2 envp), s4)"
      "push_strings mp tr (rev argv) a2 [] s4 = Some (Inr (a3, string_addrs a3 argv), s5)"
      "writes look tr U a3 (stack_block argv envp path) s1 s5" "stack_window look U s5 STACK_BASE USER_STACK_TOP"
      using push_block [OF tok l(3) fits] unfolding a0_def a1_def a2_def a3_def by blast
    have ws: "?ws = length argv # string_addrs a3 argv @ 0 # string_addrs a2 envp @ 0 # auxv info a0 a1"
      unfolding stack_words_def Let_def a0_def a1_def a2_def a3_def ..
    have top: "a3 - a3 mod 16 \<le> USER_STACK_TOP" using bb(1,3) unfolding a3_def by linarith
    obtain t where t: "push_words mp tr (rev ?ws) (a3 - a3 mod 16) s5 = Some (Inr (a3 - a3 mod 16 - 8 * length ?ws), t)"
      "writes look tr U (a3 - a3 mod 16 - 8 * length ?ws) (words_bytes ?ws) s5 t"
      using push_words_ok [OF tok b(6) bb(2) [folded a3_def] top] by blast
    have sp: "a3 - a3 mod 16 - 8 * length ?ws = ?sp" by (simp add: entry_sp_def Let_def a3_def)
    have "setup_user_stack mp tr info argv envp path s = Some (Inr \<lparr>si_sp = ?sp, argc_ptr = ?sp\<rparr>, t)"
      unfolding setup_user_stack_def STACK_BASE_def [symmetric] s1 l(1) andThen_simps Let_def a0_def [symmetric] b(1-4) prod.case push_all_words ws [symmetric] t(1) sp ..
    then show ?thesis using l(2) b(5) [unfolded a3_def] t(2) [unfolded sp] by blast
  qed
qed

lemma stack_shown:
  assumes fits: "stack_fits argv envp path" and U: "stack_pages \<subseteq> U"
    and w: "writes look tr U (block_addr argv envp path) (stack_block argv envp path) s1 s2"
      "writes look tr U (entry_sp info argv envp path) (words_bytes (stack_words info argv envp path)) s2 t"
  shows "user_read tr t (entry_sp info argv envp path) (8 * length (stack_words info argv envp path)) = map Some (words_bytes (stack_words info argv envp path))"
    "user_read tr t (block_addr argv envp path) (length (stack_block argv envp path)) = map Some (stack_block argv envp path)"
    "align_down x \<in> U \<Longrightarrow> align_down x \<notin> stack_pages \<Longrightarrow> user_byte tr t x = user_byte tr s1 x"
proof -
  note bb = block_bounds [OF fits]
  have in1: "align_down x \<in> stack_pages" if "entry_sp info argv envp path \<le> x" "x < USER_STACK_TOP" for x
    using that bb(5) [of info] by (intro in_stack_pages) auto
  have in2: "align_down x \<in> U" if "entry_sp info argv envp path \<le> x" "x < USER_STACK_TOP" for x using in1 [OF that] U by blast
  have le: "entry_sp info argv envp path + length (words_bytes (stack_words info argv envp path)) \<le> block_addr argv envp path"
    using bb(3,4) by simp
  show "user_read tr t (entry_sp info argv envp path) (8 * length (stack_words info argv envp path)) = map Some (words_bytes (stack_words info argv envp path))"
    using writes_read [OF w(2)] in2 le bb(1) by simp
  have "user_read tr t (block_addr argv envp path) (length (stack_block argv envp path)) = user_read tr s2 (block_addr argv envp path) (length (stack_block argv envp path))"
    by (rule writes_keep [OF w(2)]) (use in2 le bb(1) in auto)
  also have "\<dots> = map Some (stack_block argv envp path)" by (rule writes_read [OF w(1)]) (use in2 le bb(1) in auto)
  finally show "user_read tr t (block_addr argv envp path) (length (stack_block argv envp path)) = map Some (stack_block argv envp path)" .
  show "user_byte tr t x = user_byte tr s1 x" if x: "align_down x \<in> U" "align_down x \<notin> stack_pages"
  proof -
    have "\<not> (entry_sp info argv envp path \<le> x \<and> x < USER_STACK_TOP)" using in1 x by blast
    then show ?thesis using w x(1) le bb(1) by (auto simp: writes_def)
  qed
qed

text \<open>C20. When the strings fit into the two megabytes of the stack together with the words below them, and none of its pages is mapped, the first
  stack of a program is either refused for want of memory or complete: the stack pointer points at the number of arguments, the
  addresses of the arguments, a null, the addresses of the environment, a null and the auxiliary vector, and these addresses
  are those of the strings, each with its terminator, in the block below the top.  The order of the block is the one of the code, from
  the top down: the random bytes, the name of the program, the environment, the arguments.  The layout that the comment above
  \<open>setup_user_stack\<close> draws is another one: random bytes, arguments, environment, name.\<close>

theorem first_stack:
  assumes "tables_ok mp look tr" and "canonical_ok mp" and "phys_inv (ms_fa s)" and "stack_fits argv envp path"
    and "\<And>q. q \<in> stack_pages \<Longrightarrow> look (ms_pt s) q = None"
  shows "\<exists>r t. setup_user_stack mp tr info argv envp path s = Some (r, t)
    \<and> ((r = Inl NoMemory \<and> map_stack mp STACK_BASE [0..<USER_STACK_PAGES] s = Some (Inl NoMemory, t)) \<or>
    (let ws = stack_words info argv envp path; sp = entry_sp info argv envp path; block = stack_block argv envp path in
     r = Inr \<lparr>si_sp = sp, argc_ptr = sp\<rparr> \<and> user_read tr t sp (8 * length ws) = map Some (words_bytes ws)
     \<and> user_read tr t (block_addr argv envp path) (length block) = map Some block))"
proof -
  have sp: "space_ok look stack_pages s" using assms(3,5) by (rule space_ok_unmapped)
  show ?thesis
    using setup_ok [OF assms(1,2) sp order.refl assms(4), of info] stack_shown(1,2) [OF assms(4) order.refl, of look tr _ _ info]
    unfolding Let_def by blast
qed

text \<open>The stack pointer that a program starts with is a multiple of 16 only when the number of arguments and environment
  strings together is odd; the words are laid out below an aligned address, but their number is not rounded.\<close>

theorem stack_pointer_alignment:
  assumes "tables_ok mp look tr" and "canonical_ok mp" and "phys_inv (ms_fa s)" and "stack_fits argv envp path"
    and "\<And>q. q \<in> stack_pages \<Longrightarrow> look (ms_pt s) q = None" and "setup_user_stack mp tr info argv envp path s = Some (Inr si, t)"
  shows "si_sp si mod 16 = (if odd (length argv + length envp) then 0 else 8)"
proof -
  have sp: "space_ok look stack_pages s" using assms(3,5) by (rule space_ok_unmapped)
  have e: "si_sp si = entry_sp info argv envp path" using setup_ok [OF assms(1,2) sp order.refl assms(4), of info] assms(6) by auto
  note bb = block_bounds(4) [OF assms(4), of info]
  define n where "n = length argv + length envp"
  have "(entry_sp info argv envp path + 8 * (n + 27)) mod 16 = 0"
    using bb by (simp add: length_stack_words n_def minus_mod_eq_mult_div)
  then have "entry_sp info argv envp path mod 16 = (if odd n then 0 else 8)" by presburger
  then show ?thesis by (simp add: e n_def)
qed

text \<open>C18. A program that is loaded into a new address space starts with what its image and its caller say: the segments of the image are in
  memory, which the stack does not disturb, the stack holds the arguments and the environment in the order of the code (C20), and execution
  starts at the entry point of the header with the stack pointer at the number of arguments.  This holds for a well-formed
  image: the loaded segments do not overlap, none has more bytes in the file than in memory, and their bytes lie inside the file.  It
  further needs that the strings fit into the stack, and that in the new address space, whose making is the argument \<open>create\<close>, neither
  the pages of the segments nor those of the stack are mapped yet, and that they are different pages.\<close>

theorem program_started:
  assumes "tables_ok mp look tr" and "canonical_ok mp" and "create s = Some (Inr cr3, s1)" and "phys_inv (ms_fa s1)"
    and "header_from_bytes data = Some h" and "segments_ok data (load_list data h)" and "stack_fits argv envp path"
    and "\<And>q. q \<in> pages_of (load_list data h) \<Longrightarrow> look (ms_pt s1) q = None \<and> q \<notin> stack_pages"
    and "\<And>q. q \<in> stack_pages \<Longrightarrow> look (ms_pt s1) q = None"
    and "load_elf_into_new_space mp tr create data argv envp path s = Some (Inr le, t)"
  shows "le_cr3 le = cr3 \<and> le_entry le = e_entry h \<and> le_stack_pointer le = entry_sp (le_info le) argv envp path
    \<and> (\<forall>ph \<in> set (load_list data h). \<forall>k < p_memsz ph. user_byte tr t (p_vaddr ph + k)
        = Some (if k < p_filesz ph then data ! (p_offset ph + k) else 0))
    \<and> (let ws = stack_words (le_info le) argv envp path; block = stack_block argv envp path in
       user_read tr t (le_stack_pointer le) (8 * length ws) = map Some (words_bytes ws)
       \<and> user_read tr t (block_addr argv envp path) (length block) = map Some block)"
proof -
  let ?phs = "load_list data h" and ?U = "pages_of (load_list data h) \<union> stack_pages"
  have elf: "is_elf data" using assms(10) by (auto simp: load_elf_into_new_space_def split: if_splits)
  obtain r s2 where r: "load_elf mp tr data s1 = Some (r, s2)"
    using assms(3,10) elf by (cases "load_elf mp tr data s1") (auto simp: load_elf_into_new_space_def andThen_def)
  obtain info where info: "r = Inr info" using assms(3,10) elf r by (cases r) (auto simp: load_elf_into_new_space_def)
  have sp: "space_ok look ?U s1" using assms(4,8,9) by (intro space_ok_unmapped) auto
  have len: "\<forall>ph \<in> set ?phs. p_offset ph + p_filesz ph \<le> length data" using assms(6) by (simp add: segments_ok_def)
  note l = load_elf_ok [OF assms(1) r [unfolded info] sp assms(5) len Un_upper1]
  note shown = image_shown [OF assms(1) l(1) assms(6) Un_upper1]
  obtain r' t' where st: "setup_user_stack mp tr info argv envp path s2 = Some (r', t')" and
    cs: "r' = Inl NoMemory \<or> (r' = Inr \<lparr>si_sp = entry_sp info argv envp path, argc_ptr = entry_sp info argv envp path\<rparr> \<and>
     (\<exists>s3 s4. loads look tr ?U stack_pages (\<lambda>a b. if align_down a \<in> stack_pages then Some 0 else b) s2 s3
        \<and> writes look tr ?U (block_addr argv envp path) (stack_block argv envp path) s3 s4
        \<and> writes look tr ?U (entry_sp info argv envp path) (words_bytes (stack_words info argv envp path)) s4 t'))"
    using setup_ok [OF assms(1,2) loads_space [OF l(1)] Un_upper2 assms(7), of info] by blast
  have "r' \<noteq> Inl NoMemory" using assms(3,10) elf r info st by (auto simp: load_elf_into_new_space_def)
  with cs obtain s3 s4 where w: "r' = Inr \<lparr>si_sp = entry_sp info argv envp path, argc_ptr = entry_sp info argv envp path\<rparr>"
      "loads look tr ?U stack_pages (\<lambda>a b. if align_down a \<in> stack_pages then Some 0 else b) s2 s3"
      "writes look tr ?U (block_addr argv envp path) (stack_block argv envp path) s3 s4"
      "writes look tr ?U (entry_sp info argv envp path) (words_bytes (stack_words info argv envp path)) s4 t'" by blast
  have le: "le = \<lparr>le_cr3 = cr3, le_entry = entry info, le_stack_pointer = entry_sp info argv envp path, le_info = info\<rparr>" "t = t'"
    using assms(3,10) elf r info st w(1) by (auto simp: load_elf_into_new_space_def)
  note stk = stack_shown [OF assms(7) Un_upper2 w(3,4)]
  have "user_byte tr t (p_vaddr ph + k) = Some (if k < p_filesz ph then data ! (p_offset ph + k) else 0)"
    if ph: "ph \<in> set ?phs" "k < p_memsz ph" for ph k
  proof -
    have p: "align_down (p_vaddr ph + k) \<in> pages_of ?phs" using shown(1) [OF _ ph] assms(8) by blast
    then have q: "align_down (p_vaddr ph + k) \<in> ?U" "align_down (p_vaddr ph + k) \<notin> stack_pages" using assms(8) by auto
    have "user_byte tr t (p_vaddr ph + k) = user_byte tr s3 (p_vaddr ph + k)" unfolding le(2) by (rule stk(3) [OF q])
    also have "\<dots> = user_byte tr s2 (p_vaddr ph + k)" using w(2) q by (simp add: loads_def)
    also have "\<dots> = Some (if k < p_filesz ph then data ! (p_offset ph + k) else 0)" using shown(2) [OF _ ph] assms(8) by blast
    finally show ?thesis .
  qed
  then show ?thesis using stk(1,2) l(3) unfolding Let_def le by simp
qed

subsection \<open>The start of a concrete program\<close>

lemma demo_tables: "tables_ok demo_mapper (\<lambda>pt. pt) demo_tr" "canonical_ok demo_mapper"
  using demo_tables_ok by (simp_all add: demo_mapper_def canonical_ok_def)

definition demo_info :: ElfInfo where
  "demo_info = \<lparr>entry = 0x400078, phdr_addr = 0x4000B8, phdr_num = 1, phdr_size = 56, stack_executable = False, load_base = 0x400078, load_end = 0x40007D\<rparr>"

text \<open>With enough free frames the pages of the stack are mapped.\<close>

lemma demo_map_stack:
  "phys_inv (ms_fa s) \<Longrightarrow> finite (free_addrs (ms_fa s)) \<Longrightarrow> length is \<le> card (free_addrs (ms_fa s)) \<Longrightarrow> (\<And>i. i \<in> set is \<Longrightarrow> base + i * 4096 < 2 ^ 47)
    \<Longrightarrow> \<exists>t. map_stack demo_mapper base is s = Some (Inr (), t)"
proof (induction "is" arbitrary: s)
  case (Cons i "is")
  obtain f fa where fa: "allocate (ms_fa s) = Some (Some f, fa)" "phys_inv fa" "finite (free_addrs fa)" "card (free_addrs fa) = card (free_addrs (ms_fa s)) - 1"
    using allocate_some [OF Cons.prems(1,2)] Cons.prems(3) by auto
  let ?t = "s\<lparr>ms_fa := fa, ms_pt := (ms_pt s)(base + i * 4096 \<mapsto> (f, STACK_FLAGS)), ms_fa := fa, ms_mem := zero_page f (ms_mem s)\<rparr>"
  have "base + i * 4096 < 2 ^ 47" using Cons.prems(4) [of i] by simp
  then have "map_stack demo_mapper base (i # is) s = map_stack demo_mapper base is ?t"
    using fa(1) by (simp add: demo_mapper_def add64_def U64_MAX_def Let_def)
  moreover have "\<exists>t. map_stack demo_mapper base is ?t = Some (Inr (), t)"
    using Cons.prems(3,4) fa by (intro Cons.IH) auto
  ultimately show ?case by simp
qed simp

lemma demo_stack_fits: "stack_fits [[0x61]] [[0x63]] [0x62]"
  by (simp add: stack_fits_def stack_block_def cstr_def RANDOM_BYTES_def USER_STACK_PAGES_def)

lemma demo_setup:
  assumes "phys_inv (ms_fa s)" "finite (free_addrs (ms_fa s))" "512 \<le> card (free_addrs (ms_fa s))" "space_ok (\<lambda>pt. pt) stack_pages s"
  shows "\<exists>t. setup_user_stack demo_mapper demo_tr info [[0x61]] [[0x63]] [0x62] s = Some (Inr \<lparr>si_sp = entry_sp info [[0x61]] [[0x63]] [0x62], argc_ptr = entry_sp info [[0x61]] [[0x63]] [0x62]\<rparr>, t)"
proof -
  have "\<exists>t. map_stack demo_mapper STACK_BASE [0..<USER_STACK_PAGES] s = Some (Inr (), t)"
    by (rule demo_map_stack [OF assms(1,2)]) (use assms(3) in \<open>auto simp: stack_consts\<close>)
  then show ?thesis using setup_ok [OF demo_tables assms(4) order.refl demo_stack_fits, of info] by auto
qed

lemma demo_blank_space: "space_ok (\<lambda>pt. pt) stack_pages demo_blank"
  by (rule space_ok_unmapped) (rule demo_blank_sel(3), simp add: demo_blank_sel(1))

theorem first_stack_witness:
  "\<exists>t. setup_user_stack demo_mapper demo_tr demo_info [[0x61]] [[0x63]] [0x62] demo_blank
      = Some (Inr \<lparr>si_sp = entry_sp demo_info [[0x61]] [[0x63]] [0x62], argc_ptr = entry_sp demo_info [[0x61]] [[0x63]] [0x62]\<rparr>, t)
    \<and> user_read demo_tr t (entry_sp demo_info [[0x61]] [[0x63]] [0x62]) 232 = map Some (words_bytes (stack_words demo_info [[0x61]] [[0x63]] [0x62]))"
proof -
  obtain t where t: "setup_user_stack demo_mapper demo_tr demo_info [[0x61]] [[0x63]] [0x62] demo_blank
      = Some (Inr \<lparr>si_sp = entry_sp demo_info [[0x61]] [[0x63]] [0x62], argc_ptr = entry_sp demo_info [[0x61]] [[0x63]] [0x62]\<rparr>, t)"
    using demo_setup [OF demo_blank_sel(3) demo_blank_free(1) _ demo_blank_space, of demo_info] demo_blank_free(2) by auto
  show ?thesis
    using first_stack [OF demo_tables demo_blank_sel(3) demo_stack_fits, of demo_info] t
    by (simp add: demo_blank_sel(1) Let_def length_stack_words)
qed

theorem stack_pointer_alignment_witness:
  "\<exists>si t. setup_user_stack demo_mapper demo_tr demo_info [[0x61]] [[0x63]] [0x62] demo_blank = Some (Inr si, t) \<and> si_sp si mod 16 = 8"
proof -
  obtain si t where t: "setup_user_stack demo_mapper demo_tr demo_info [[0x61]] [[0x63]] [0x62] demo_blank = Some (Inr si, t)"
    using demo_setup [OF demo_blank_sel(3) demo_blank_free(1) _ demo_blank_space, of demo_info] demo_blank_free(2) by auto
  then show ?thesis
    using stack_pointer_alignment [OF demo_tables demo_blank_sel(3) demo_stack_fits _ t] by (simp add: demo_blank_sel(1))
qed

theorem program_started_witness:
  "\<exists>le t. load_elf_into_new_space demo_mapper demo_tr (\<lambda>s. Some (Inr 0x7000, s)) demo_elf [[0x61]] [[0x63]] [0x62] demo_blank = Some (Inr le, t)
    \<and> le_cr3 le = 0x7000 \<and> le_entry le = 0x400078 \<and> user_byte demo_tr t 0x40007A = Some 0xC3
    \<and> user_read demo_tr t (le_stack_pointer le) 232 = map Some (words_bytes (stack_words (le_info le) [[0x61]] [[0x63]] [0x62]))"
proof -
  obtain info s2 where l: "load_elf demo_mapper demo_tr demo_elf demo_blank = Some (Inr info, s2)" "phys_inv (ms_fa s2)" "finite (free_addrs (ms_fa s2))"
    "512 \<le> card (free_addrs (ms_fa s2))" using demo_load by blast
  let ?U = "pages_of (load_list demo_elf demo_header) \<union> stack_pages"
  have "space_ok (\<lambda>pt. pt) ?U demo_blank" by (rule space_ok_unmapped) (rule demo_blank_sel(3), simp add: demo_blank_sel(1))
  then have "space_ok (\<lambda>pt. pt) ?U s2"
    using load_elf_ok(1) [OF demo_tables(1) l(1) _ demo_elf_header _ Un_upper1, THEN loads_space] demo_segments_ok
    by (simp add: demo_load_list segments_ok_def)
  then have "space_ok (\<lambda>pt. pt) stack_pages s2" by (rule space_ok_mono) simp
  then obtain t where st: "setup_user_stack demo_mapper demo_tr info [[0x61]] [[0x63]] [0x62] s2
      = Some (Inr \<lparr>si_sp = entry_sp info [[0x61]] [[0x63]] [0x62], argc_ptr = entry_sp info [[0x61]] [[0x63]] [0x62]\<rparr>, t)"
    using demo_setup [OF l(2-4)] by blast
  have "is_elf demo_elf" by (simp add: is_elf_def demo_elf_def ELF_MAGIC_def)
  then obtain le where run: "load_elf_into_new_space demo_mapper demo_tr (\<lambda>s. Some (Inr 0x7000, s)) demo_elf [[0x61]] [[0x63]] [0x62] demo_blank = Some (Inr le, t)"
    using l(1) st by (simp add: load_elf_into_new_space_def)
  have pages: "q = 0x400000 \<and> q \<notin> stack_pages" if "q \<in> pages_of [demo_phdr]" for q
    using demo_pages [OF that] by (auto simp: stack_pages_def stack_consts)
  have byte: "demo_elf ! 122 = 0xC3" by (simp add: demo_elf_def)
  have "demo_phdr \<in> set (load_list demo_elf demo_header)" "(2 :: nat) < p_memsz demo_phdr" "p_vaddr demo_phdr + 2 = 0x40007A"
    "p_offset demo_phdr + 2 = 122" "(2 :: nat) < p_filesz demo_phdr" "e_entry demo_header = 0x400078"
    by (simp_all add: demo_load_list) (simp_all add: demo_phdr_def demo_header_def)
  note seg = this
  have ok: "segments_ok demo_elf (load_list demo_elf demo_header)" unfolding demo_load_list by (rule demo_segments_ok)
  have mapped: "q \<in> pages_of (load_list demo_elf demo_header) \<Longrightarrow> ms_pt demo_blank q = None \<and> q \<notin> stack_pages"
    "q \<in> stack_pages \<Longrightarrow> ms_pt demo_blank q = None" for q
    unfolding demo_load_list demo_blank_sel(1) using pages by blast+
  have all: "le_cr3 le = 0x7000 \<and> le_entry le = e_entry demo_header \<and> le_stack_pointer le = entry_sp (le_info le) [[0x61]] [[0x63]] [0x62]
    \<and> (\<forall>ph \<in> set (load_list demo_elf demo_header). \<forall>k < p_memsz ph. user_byte demo_tr t (p_vaddr ph + k)
        = Some (if k < p_filesz ph then demo_elf ! (p_offset ph + k) else 0))
    \<and> (let ws = stack_words (le_info le) [[0x61]] [[0x63]] [0x62]; block = stack_block [[0x61]] [[0x63]] [0x62] in
       user_read demo_tr t (le_stack_pointer le) (8 * length ws) = map Some (words_bytes ws)
       \<and> user_read demo_tr t (block_addr [[0x61]] [[0x63]] [0x62]) (length block) = map Some block)"
    by (rule program_started [where create = "\<lambda>s. Some (Inr 0x7000, s)" and s = demo_blank, OF demo_tables refl demo_blank_sel(3) demo_elf_header ok demo_stack_fits mapped(1,2) run])
  note img = bspec [OF conjunct1 [OF conjunct2 [OF conjunct2 [OF conjunct2 [OF all]]]] seg(1), rule_format, OF seg(2)]
  have "user_byte demo_tr t 0x40007A = Some 0xC3" using img by (simp only: seg(3-5) byte if_True)
  moreover have w: "8 * length (stack_words i [[0x61]] [[0x63]] [0x62]) = 232" for i by (simp add: length_stack_words)
  moreover have "user_read demo_tr t (le_stack_pointer le) 232 = map Some (words_bytes (stack_words (le_info le) [[0x61]] [[0x63]] [0x62]))"
    using all unfolding Let_def w by blast
  moreover have "le_cr3 le = 0x7000" "le_entry le = 0x400078" using conjunct1 [OF all] conjunct1 [OF conjunct2 [OF all]] seg(6) by (simp_all only:)
  ultimately show ?thesis using run by blast
qed

end
