(* ===== verification/Address_Copy.thy ===== *)
theory Address_Copy
  imports Cow
begin

text \<open>
  The copy of an address space by fork: \<open>clone_address_space\<close> and \<open>clone_page_table_level\<close> of \<^verbatim>\<open>kernel/src/sched/mod.rs\<close>.

  Page tables have four levels of 512 entries; they live in physical frames and are a function from the address of a table and an index to
  an entry.  The copy goes down the tables of the parent, makes tables for the child in frames of the allocator, lets both share the
  pages, makes the pages that the user can write read-only in both, and counts these in the table of \<open>Cow\<close> at its end.
  The abstraction is the pt_walk (\<open>pt_walk\<close>): the entry that a sequence of indices leads to.
\<close>

subsection \<open>Page-table entries\<close>

text \<open>An entry is the address of a frame and the flags.\<close>

record Pte =
  pte_addr :: nat
  pte_flags :: u64

type_synonym Tables = "nat \<Rightarrow> nat \<Rightarrow> Pte"

definition PTE_PRESENT :: u64 where "PTE_PRESENT = 1"
definition PTE_WRITABLE :: u64 where "PTE_WRITABLE = 2"
definition PTE_USER :: u64 where "PTE_USER = 4"
definition PTE_HUGE :: u64 where "PTE_HUGE = 0x80"

definition pte_has :: "u64 \<Rightarrow> Pte \<Rightarrow> bool" where
  "pte_has f e = (pte_flags e AND f = f)"

definition pte_unused :: Pte where
  "pte_unused = \<lparr>pte_addr = 0, pte_flags = 0\<rparr>"

definition set_entry_at :: "nat \<Rightarrow> nat \<Rightarrow> Pte \<Rightarrow> Tables \<Rightarrow> Tables" where
  "set_entry_at t i e tabs = tabs(t := (tabs t)(i := e))"

definition zero_table :: "nat \<Rightarrow> Tables \<Rightarrow> Tables" where
  "zero_table t tabs = tabs(t := (\<lambda>_. pte_unused))"

subsection \<open>The copy\<close>

text \<open>The tables, the allocator, and the list of the frames that are to be counted.\<close>

record CopyState =
  cs_tabs :: Tables
  cs_fa :: BitmapFrameAllocator
  cs_frames :: "nat list"

definition put_entry :: "nat \<Rightarrow> nat \<Rightarrow> Pte \<Rightarrow> CopyState \<Rightarrow> CopyState" where
  "put_entry t i e s = s\<lparr>cs_tabs := set_entry_at t i e (cs_tabs s)\<rparr>"

definition blank_table :: "nat \<Rightarrow> CopyState \<Rightarrow> CopyState" where
  "blank_table t s = s\<lparr>cs_tabs := zero_table t (cs_tabs s)\<rparr>"

text \<open>The loops over the entries of a table, which an error leaves.\<close>

fun each_entry :: "(nat \<Rightarrow> CopyState \<Rightarrow> (unit KResult \<times> CopyState) option) \<Rightarrow> nat list \<Rightarrow> CopyState \<Rightarrow> (unit KResult \<times> CopyState) option" where
  "each_entry f [] s = Some (Inr (), s)"
| "each_entry f (i # is) s = do {
     (r, s) \<leftarrow> f i s;
     case r of Inl e \<Rightarrow> Some (Inl e, s) | Inr _ \<Rightarrow> each_entry f is s
   }"

text \<open>A new table for the entry \<open>i\<close> of the child, filled by \<open>copy\<close> from the table of the parent.\<close>

definition clone_table :: "(nat \<Rightarrow> nat \<Rightarrow> CopyState \<Rightarrow> (unit KResult \<times> CopyState) option) \<Rightarrow> nat \<Rightarrow> Pte \<Rightarrow> nat \<Rightarrow> CopyState
    \<Rightarrow> (unit KResult \<times> CopyState) option" where
  "clone_table copy child e i s = do {
     (r, fa) \<leftarrow> allocate (cs_fa s);
     let s = s\<lparr>cs_fa := fa\<rparr>;
     case r of
       None \<Rightarrow> Some (Inl NoMemory, s)
     | Some f \<Rightarrow> copy (pte_addr e) f (put_entry child i \<lparr>pte_addr = f, pte_flags = pte_flags e\<rparr> s)
   }"

definition clone_entry :: "nat \<Rightarrow> (nat \<Rightarrow> nat \<Rightarrow> CopyState \<Rightarrow> (unit KResult \<times> CopyState) option) \<Rightarrow> nat \<Rightarrow> nat \<Rightarrow> nat \<Rightarrow> CopyState
    \<Rightarrow> (unit KResult \<times> CopyState) option" where
  "clone_entry level copy parent child i s =
     (let e = cs_tabs s parent i in
      if \<not> pte_has PTE_PRESENT e then Some (Inr (), s)
      else if level = 1
      then if pte_has PTE_USER e
           then if pte_has PTE_WRITABLE e
                then let flags = pte_flags e AND NOT PTE_WRITABLE;
                         s = put_entry parent i (e\<lparr>pte_flags := flags\<rparr>) s;
                         s = s\<lparr>cs_frames := cs_frames s @ [pte_addr e]\<rparr>
                     in Some (Inr (), put_entry child i \<lparr>pte_addr = pte_addr e, pte_flags = flags\<rparr> s)
                else Some (Inr (), put_entry child i \<lparr>pte_addr = pte_addr e, pte_flags = pte_flags e\<rparr> s)
           else Some (Inr (), put_entry child i e s)
      else if pte_has PTE_HUGE e then Some (Inr (), put_entry child i e s)
      else clone_table copy child e i s)"

text \<open>The level is an unsigned byte: a table of level 0, of which there is none, would make it underflow.\<close>

primrec clone_page_table_level :: "nat \<Rightarrow> nat \<Rightarrow> nat \<Rightarrow> CopyState \<Rightarrow> (unit KResult \<times> CopyState) option" where
  "clone_page_table_level 0 parent child s =
     each_entry (clone_entry 0 (\<lambda>_ _ _. None) parent child) [0..<512] (blank_table child s)"
| "clone_page_table_level (Suc l) parent child s =
     each_entry (clone_entry (Suc l) (clone_page_table_level l) parent child) [0..<512] (blank_table child s)"

definition clone_root_entry :: "nat \<Rightarrow> nat \<Rightarrow> nat \<Rightarrow> CopyState \<Rightarrow> (unit KResult \<times> CopyState) option" where
  "clone_root_entry parent child i s =
     (let e = cs_tabs s parent i in
      if \<not> pte_has PTE_PRESENT e then Some (Inr (), s) else clone_table (clone_page_table_level 3) child e i s)"

definition copy_kernel_half :: "nat \<Rightarrow> nat \<Rightarrow> CopyState \<Rightarrow> CopyState" where
  "copy_kernel_half parent child s = fold (\<lambda>i s. put_entry child i (cs_tabs s parent i) s) [256..<512] s"

record ForkMem =
  fk_tabs :: Tables
  fk_fa :: BitmapFrameAllocator
  fk_cow :: CowManager

definition clone_address_space :: "nat \<Rightarrow> ForkMem \<Rightarrow> (nat KResult \<times> ForkMem) option" where
  "clone_address_space parent_cr3 m = do {
     (r, fa) \<leftarrow> allocate (fk_fa m);
     case r of
       None \<Rightarrow> Some (Inl NoMemory, m\<lparr>fk_fa := fa\<rparr>)
     | Some child \<Rightarrow> do {
         let s = copy_kernel_half parent_cr3 child (blank_table child \<lparr>cs_tabs = fk_tabs m, cs_fa = fa, cs_frames = []\<rparr>);
         (r, s) \<leftarrow> each_entry (clone_root_entry parent_cr3 child) [0..<256] s;
         let m = m\<lparr>fk_tabs := cs_tabs s, fk_fa := cs_fa s\<rparr>;
         case r of
           Inl e \<Rightarrow> Some (Inl e, m)
         | Inr _ \<Rightarrow> Some (Inr child, m\<lparr>fk_cow := fold increment_ref (cs_frames s) (fk_cow m)\<rparr>)
       }
   }"

subsection \<open>Entries that are made read-only\<close>

definition cow_flags :: "Pte \<Rightarrow> bool" where
  "cow_flags e \<longleftrightarrow> pte_has PTE_PRESENT e \<and> pte_has PTE_USER e \<and> pte_has PTE_WRITABLE e"

definition prot :: "Pte \<Rightarrow> Pte" where
  "prot e = (if cow_flags e then e\<lparr>pte_flags := pte_flags e AND NOT PTE_WRITABLE\<rparr> else e)"

lemma and_bit_iff:
  assumes "n < 64"
  shows "(w :: u64) AND push_bit n 1 = push_bit n 1 \<longleftrightarrow> bit w n"
proof
  assume "w AND push_bit n 1 = push_bit n 1"
  then have "bit (w AND push_bit n 1) n = bit (push_bit n 1 :: u64) n" by (rule arg_cong)
  then show "bit w n" using assms by (simp add: bit_simps)
next
  assume "bit w n"
  then show "w AND push_bit n 1 = push_bit n 1" by (intro bit_word_eqI) (auto simp: bit_simps)
qed

lemma pte_has_bits:
  "pte_has PTE_PRESENT e \<longleftrightarrow> bit (pte_flags e) 0" "pte_has PTE_WRITABLE e \<longleftrightarrow> bit (pte_flags e) 1"
  "pte_has PTE_USER e \<longleftrightarrow> bit (pte_flags e) 2" "pte_has PTE_HUGE e \<longleftrightarrow> bit (pte_flags e) 7"
  using and_bit_iff [of 0 "pte_flags e"] and_bit_iff [of 1 "pte_flags e"] and_bit_iff [of 2 "pte_flags e"] and_bit_iff [of 7 "pte_flags e"]
  by (simp_all add: pte_has_def PTE_PRESENT_def PTE_WRITABLE_def PTE_USER_def PTE_HUGE_def)

lemma writable_bit: "bit PTE_WRITABLE i \<longleftrightarrow> i = 1"
proof -
  have w: "PTE_WRITABLE = push_bit 1 1" by (simp add: PTE_WRITABLE_def)
  show ?thesis unfolding w by (auto simp: bit_simps)
qed

lemma prot_simps [simp]:
  "pte_addr (prot e) = pte_addr e" "pte_has PTE_PRESENT (prot e) = pte_has PTE_PRESENT e" "pte_has PTE_USER (prot e) = pte_has PTE_USER e"
  "pte_has PTE_HUGE (prot e) = pte_has PTE_HUGE e" "\<not> cow_flags (prot e)" "prot (prot e) = prot e"
proof -
  show "pte_addr (prot e) = pte_addr e" by (simp add: prot_def)
  show "pte_has PTE_PRESENT (prot e) = pte_has PTE_PRESENT e" "pte_has PTE_USER (prot e) = pte_has PTE_USER e"
    "pte_has PTE_HUGE (prot e) = pte_has PTE_HUGE e"
    by (simp_all add: prot_def pte_has_bits bit_and_iff bit_not_iff writable_bit)
  show n: "\<not> cow_flags (prot e)" by (auto simp: prot_def cow_flags_def pte_has_bits bit_and_iff bit_not_iff writable_bit)
  then show "prot (prot e) = prot e" by (simp add: prot_def [of "prot e"])
qed

lemma prot_id: "\<not> cow_flags e \<Longrightarrow> prot e = e"
  by (simp add: prot_def)

lemma unused_absent [simp]: "\<not> pte_has PTE_PRESENT pte_unused"
  by (simp add: pte_has_bits pte_unused_def)

subsection \<open>Walks\<close>

text \<open>The entry at the end of a sequence of indices in a table of level \<open>l\<close>, and the level it was found at: 1 for a page.\<close>

primrec pt_walk :: "Tables \<Rightarrow> nat \<Rightarrow> nat \<Rightarrow> nat list \<Rightarrow> (nat \<times> Pte) option" where
  "pt_walk tabs 0 p is = None"
| "pt_walk tabs (Suc l) p is = (case is of
     [] \<Rightarrow> None
   | i # is \<Rightarrow>
       let e = tabs p i in
       if 512 \<le> i \<or> \<not> pte_has PTE_PRESENT e then None
       else if l = 0 then Some (1, e)
       else if pte_has PTE_HUGE e then Some (Suc l, e)
       else pt_walk tabs l (pte_addr e) is)"

text \<open>The tables that a walk can meet: all of them, those above level 1 and those of level 1.\<close>

definition next_tables :: "Tables \<Rightarrow> nat \<Rightarrow> nat set" where
  "next_tables tabs p = {pte_addr (tabs p i) | i. i < 512 \<and> pte_has PTE_PRESENT (tabs p i) \<and> \<not> pte_has PTE_HUGE (tabs p i)}"

primrec upper :: "Tables \<Rightarrow> nat \<Rightarrow> nat \<Rightarrow> nat set" where
  "upper tabs 0 p = {}"
| "upper tabs (Suc l) p = (if l = 0 then {} else insert p (\<Union>t \<in> next_tables tabs p. upper tabs l t))"

primrec lowest :: "Tables \<Rightarrow> nat \<Rightarrow> nat \<Rightarrow> nat set" where
  "lowest tabs 0 p = {}"
| "lowest tabs (Suc l) p = (if l = 0 then {p} else (\<Union>t \<in> next_tables tabs p. lowest tabs l t))"

lemma pt_walk_Cons:
  "pt_walk tabs (Suc l) p (i # is) = (if 512 \<le> i \<or> \<not> pte_has PTE_PRESENT (tabs p i) then None else if l = 0 then Some (1, tabs p i)
     else if pte_has PTE_HUGE (tabs p i) then Some (Suc l, tabs p i) else pt_walk tabs l (pte_addr (tabs p i)) is)"
  by (simp add: Let_def)

lemma pt_walk_Nil [simp]: "pt_walk tabs l p [] = None"
  by (cases l) simp_all

text \<open>A walk only looks at these tables.\<close>

lemma pt_walk_cong:
  "\<forall>t \<in> upper tabs l p \<union> lowest tabs l p. tabs' t = tabs t \<Longrightarrow>
     pt_walk tabs' l p is = pt_walk tabs l p is \<and> upper tabs' l p = upper tabs l p \<and> lowest tabs' l p = lowest tabs l p"
proof (induction l arbitrary: p "is")
  case (Suc l)
  show ?case
  proof (cases "l = 0")
    case True
    then show ?thesis using Suc.prems by (cases "is") (simp_all add: Let_def)
  next
    case l: False
    then have p: "tabs' p = tabs p" using Suc.prems by simp
    have ih: "pt_walk tabs' l t js = pt_walk tabs l t js \<and> upper tabs' l t = upper tabs l t \<and> lowest tabs' l t = lowest tabs l t"
      if "t \<in> next_tables tabs p" for t js
      using Suc.IH [of t js] Suc.prems that l by auto
    have nx: "next_tables tabs' p = next_tables tabs p" by (simp add: next_tables_def p)
    have "pt_walk tabs' (Suc l) p is = pt_walk tabs (Suc l) p is"
    proof (cases "is")
      case (Cons i js)
      have "pte_addr (tabs p i) \<in> next_tables tabs p" if "i < 512" "pte_has PTE_PRESENT (tabs p i)" "\<not> pte_has PTE_HUGE (tabs p i)"
        using that by (auto simp: next_tables_def)
      then show ?thesis using ih p l unfolding Cons pt_walk_Cons by auto
    qed simp
    then show ?thesis using ih nx l by simp
  qed
qed simp

text \<open>When the tables of level 1 are made read-only, a walk ends at the entry made read-only.\<close>

definition cowed :: "nat \<times> Pte \<Rightarrow> nat \<times> Pte" where
  "cowed r = (fst r, if fst r = 1 then prot (snd r) else snd r)"

lemma cowed_simps [simp]: "cowed (1, e) = (1, prot e)" "cowed (Suc 0, e) = (Suc 0, prot e)" "0 < l \<Longrightarrow> cowed (Suc l, e) = (Suc l, e)"
  by (simp_all add: cowed_def)

lemma pt_walk_prot:
  assumes "\<forall>t \<in> upper tabs l p. tabs' t = tabs t" "\<forall>t \<in> lowest tabs l p. \<forall>i < 512. tabs' t i = prot (tabs t i)"
  shows "pt_walk tabs' l p is = map_option cowed (pt_walk tabs l p is)"
  using assms
proof (induction l arbitrary: p "is")
  case (Suc l)
  show ?case
  proof (cases "is")
    case (Cons i js)
    show ?thesis
    proof (cases "l = 0")
      case True
      then have "tabs' p i = prot (tabs p i)" if "i < 512" using Suc.prems that by simp
      then show ?thesis using True unfolding Cons pt_walk_Cons by auto
    next
      case l: False
      then have p: "tabs' p = tabs p" using Suc.prems by simp
      have "pt_walk tabs' l (pte_addr (tabs p i)) js = map_option cowed (pt_walk tabs l (pte_addr (tabs p i)) js)"
        if "i < 512" "pte_has PTE_PRESENT (tabs p i)" "\<not> pte_has PTE_HUGE (tabs p i)"
      proof (rule Suc.IH)
        have "pte_addr (tabs p i) \<in> next_tables tabs p" using that by (auto simp: next_tables_def)
        then show "\<forall>t \<in> upper tabs l (pte_addr (tabs p i)). tabs' t = tabs t"
          "\<forall>t \<in> lowest tabs l (pte_addr (tabs p i)). \<forall>i < 512. tabs' t i = prot (tabs t i)"
          using Suc.prems l by auto
      qed
      then show ?thesis using l unfolding Cons pt_walk_Cons p by auto
    qed
  qed simp
qed simp

subsection \<open>What a step of the copy may do\<close>

text \<open>The parent's tables, as they were at the start, are \<open>T\<close>: those in \<open>U\<close> stay, the entries of those in \<open>L\<close> are made read-only, and
  the frames behind such entries are noted.\<close>

definition kept_tables :: "nat set \<Rightarrow> nat set \<Rightarrow> Tables \<Rightarrow> CopyState \<Rightarrow> bool" where
  "kept_tables U L T s \<longleftrightarrow> phys_inv (cs_fa s) \<and> (U \<union> L) \<inter> free_addrs (cs_fa s) = {} \<and> U \<inter> L = {} \<and> (\<forall>t \<in> U. cs_tabs s t = T t)
     \<and> (\<forall>t \<in> L. \<forall>i. cs_tabs s t i = T t i \<or> cs_tabs s t i = prot (T t i) \<and> pte_addr (T t i) \<in> set (cs_frames s))"

text \<open>Frames are only taken from the allocator; outside \<open>L\<close>, the tables in \<open>X\<close> and the frames that were taken, nothing changes.\<close>

definition copy_step :: "nat set \<Rightarrow> nat set \<Rightarrow> nat \<Rightarrow> CopyState \<Rightarrow> CopyState \<Rightarrow> bool" where
  "copy_step L X n s s' \<longleftrightarrow> free_addrs (cs_fa s') \<subseteq> free_addrs (cs_fa s)
     \<and> (\<forall>t. t \<notin> L \<union> X \<union> (free_addrs (cs_fa s) - free_addrs (cs_fa s')) \<longrightarrow> cs_tabs s' t = cs_tabs s t)
     \<and> (\<forall>t \<in> L. \<forall>i. cs_tabs s' t i = cs_tabs s t i \<or> cs_tabs s' t i = prot (cs_tabs s t i))
     \<and> length (cs_frames s') \<le> length (cs_frames s) + n"

lemma copy_step_refl: "copy_step L X n s s"
  by (simp add: copy_step_def)

lemma copy_step_trans:
  assumes "copy_step L X m s s1" "copy_step L Y n s1 s2" "Y \<subseteq> X \<union> (free_addrs (cs_fa s) - free_addrs (cs_fa s1))"
  shows "copy_step L X (m + n) s s2"
proof -
  have "cs_tabs s2 t = cs_tabs s t" if t: "t \<notin> L \<union> X \<union> (free_addrs (cs_fa s) - free_addrs (cs_fa s2))" for t
  proof -
    have "t \<notin> L \<union> X \<union> (free_addrs (cs_fa s) - free_addrs (cs_fa s1))"
      using t assms(1,2) by (auto simp: copy_step_def)
    moreover from this have "t \<notin> L \<union> Y \<union> (free_addrs (cs_fa s1) - free_addrs (cs_fa s2))"
      using t assms by (auto simp: copy_step_def)
    ultimately show ?thesis using assms(1,2) unfolding copy_step_def by metis
  qed
  moreover have "cs_tabs s2 t i = cs_tabs s t i \<or> cs_tabs s2 t i = prot (cs_tabs s t i)" if "t \<in> L" for t i
  proof -
    have "cs_tabs s1 t i = cs_tabs s t i \<or> cs_tabs s1 t i = prot (cs_tabs s t i)"
      "cs_tabs s2 t i = cs_tabs s1 t i \<or> cs_tabs s2 t i = prot (cs_tabs s1 t i)"
      using assms(1,2) that by (auto simp: copy_step_def)
    then show ?thesis by auto
  qed
  ultimately show ?thesis using assms(1,2) by (auto simp: copy_step_def)
qed

lemma copy_step_mono: "copy_step L X m s s' \<Longrightarrow> m \<le> n \<Longrightarrow> X \<subseteq> Y \<Longrightarrow> copy_step L Y n s s'"
  by (auto simp: copy_step_def)

text \<open>The tables that a copy has to make below a table of level \<open>l\<close>, and for one entry of it.\<close>

primrec copied_tables :: "Tables \<Rightarrow> nat \<Rightarrow> nat \<Rightarrow> nat" where
  "copied_tables T 0 p = 0"
| "copied_tables T (Suc l) p = sum_list (map (\<lambda>i.
     if l = 0 \<or> \<not> pte_has PTE_PRESENT (T p i) \<or> pte_has PTE_HUGE (T p i) then 0 else Suc (copied_tables T l (pte_addr (T p i)))) [0..<512])"

definition entry_tables :: "Tables \<Rightarrow> nat \<Rightarrow> nat \<Rightarrow> nat \<Rightarrow> nat" where
  "entry_tables T l p i =
     (if l = 0 \<or> \<not> pte_has PTE_PRESENT (T p i) \<or> pte_has PTE_HUGE (T p i) then 0 else Suc (copied_tables T l (pte_addr (T p i))))"

lemma copied_tables_Suc: "copied_tables T (Suc l) p = sum_list (map (entry_tables T l p) [0..<512])"
  by (simp add: entry_tables_def [abs_def] del: upt_Suc)

text \<open>A success has taken exactly \<open>n\<close> frames; a failure started with less.\<close>

definition spent :: "nat \<Rightarrow> unit KResult \<Rightarrow> CopyState \<Rightarrow> CopyState \<Rightarrow> bool" where
  "spent n r s s' \<longleftrightarrow> (case r of
     Inl _ \<Rightarrow> card (free_addrs (cs_fa s)) < n
   | Inr _ \<Rightarrow> card (free_addrs (cs_fa s)) = card (free_addrs (cs_fa s')) + n)"

lemma spent_refl: "spent 0 (Inr u) s s"
  by (simp add: spent_def)

lemma spent_fa: "cs_fa s1 = cs_fa s \<Longrightarrow> cs_fa s2 = cs_fa s' \<Longrightarrow> spent n r s1 s2 = spent n r s s'"
  by (cases r) (simp_all add: spent_def)

lemma spent_trans: "spent m (Inr u) s s1 \<Longrightarrow> spent n r s1 s2 \<Longrightarrow> spent (m + n) r s s2"
  by (auto simp: spent_def split: sum.splits)

lemma spent_stop: "spent m (Inl e) s s1 \<Longrightarrow> spent (m + n) (Inl e) s s1"
  by (simp add: spent_def)

lemma finite_free_addrs [simp]: "finite (free_addrs a)"
  by (simp add: free_addrs_def)

text \<open>A copy of a table of level \<open>l\<close>: for a child table that is new it gives a copy of all the walks, or the memory runs out.\<close>

definition copies :: "nat set \<Rightarrow> nat set \<Rightarrow> Tables \<Rightarrow> nat \<Rightarrow> (nat \<Rightarrow> nat \<Rightarrow> CopyState \<Rightarrow> (unit KResult \<times> CopyState) option) \<Rightarrow> bool" where
  "copies U L T l copy \<longleftrightarrow> (\<forall>p c s. kept_tables U L T s \<longrightarrow> c \<notin> U \<union> L \<longrightarrow> c \<notin> free_addrs (cs_fa s)
     \<longrightarrow> upper T l p \<subseteq> U \<longrightarrow> lowest T l p \<subseteq> L \<longrightarrow>
     (\<exists>r s'. copy p c s = Some (r, s') \<and> copy_step L {c} (512 ^ l) s s' \<and> kept_tables U L T s' \<and> spent (copied_tables T l p) r s s' \<and>
       (case r of Inl e \<Rightarrow> e = NoMemory \<and> free_addrs (cs_fa s') = {}
        | Inr _ \<Rightarrow> upper (cs_tabs s') l c \<union> lowest (cs_tabs s') l c \<subseteq> insert c (free_addrs (cs_fa s) - free_addrs (cs_fa s'))
            \<and> (\<forall>is. pt_walk (cs_tabs s') l c is = map_option cowed (pt_walk T l p is))
            \<and> (\<forall>t \<in> lowest T l p. \<forall>i < 512. cs_tabs s' t i = prot (T t i)))))"

text \<open>The entry \<open>i\<close> of the child has been made, with tables in \<open>A\<close>.\<close>

definition entry_made :: "Tables \<Rightarrow> nat \<Rightarrow> nat \<Rightarrow> nat \<Rightarrow> nat set \<Rightarrow> CopyState \<Rightarrow> nat \<Rightarrow> bool" where
  "entry_made T l p c A s i \<longleftrightarrow>
     (\<forall>is. pt_walk (cs_tabs s) (Suc l) c (i # is) = map_option cowed (pt_walk T (Suc l) p (i # is)))
     \<and> (if l = 0 then cs_tabs s p i = prot (T p i)
        else (pte_has PTE_PRESENT (cs_tabs s c i) \<and> \<not> pte_has PTE_HUGE (cs_tabs s c i)
             \<longrightarrow> upper (cs_tabs s) l (pte_addr (cs_tabs s c i)) \<union> lowest (cs_tabs s) l (pte_addr (cs_tabs s c i)) \<subseteq> A)
           \<and> (pte_has PTE_PRESENT (T p i) \<and> \<not> pte_has PTE_HUGE (T p i)
             \<longrightarrow> (\<forall>t \<in> lowest T l (pte_addr (T p i)). \<forall>j < 512. cs_tabs s t j = prot (T t j))))"

lemma entry_made_kept:
  assumes made: "entry_made T l p c A s i" and st: "copy_step L {c} n s s'" and same: "cs_tabs s' c i = cs_tabs s c i"
    and A: "A \<inter> (L \<union> {c} \<union> free_addrs (cs_fa s)) = {}" and p: "l = 0 \<Longrightarrow> p \<in> L"
    and lo: "l \<noteq> 0 \<Longrightarrow> pte_has PTE_PRESENT (T p i) \<Longrightarrow> \<not> pte_has PTE_HUGE (T p i) \<Longrightarrow> lowest T l (pte_addr (T p i)) \<subseteq> L" and "A \<subseteq> B"
  shows "entry_made T l p c B s' i"
proof -
  have red: "cs_tabs s' t j = prot e" if "t \<in> L" "cs_tabs s t j = prot e" for t j e
    using st that unfolding copy_step_def by (metis prot_simps(6))
  have fr: "cs_tabs s' t = cs_tabs s t" if "t \<in> A" for t using st A that unfolding copy_step_def by blast
  show ?thesis
  proof (cases "l = 0")
    case True
    have "cs_tabs s' p i = prot (T p i)" using red made p True by (simp add: entry_made_def)
    moreover have "pt_walk (cs_tabs s') (Suc l) c (i # js) = pt_walk (cs_tabs s) (Suc l) c (i # js)" for js
      unfolding pt_walk_Cons same using True by simp
    ultimately show ?thesis using made True unfolding entry_made_def by metis
  next
    case l: False
    let ?f = "pte_addr (cs_tabs s c i)"
    have w: "pt_walk (cs_tabs s') l ?f js = pt_walk (cs_tabs s) l ?f js \<and> upper (cs_tabs s') l ?f = upper (cs_tabs s) l ?f \<and> lowest (cs_tabs s') l ?f = lowest (cs_tabs s) l ?f"
      if "pte_has PTE_PRESENT (cs_tabs s c i)" "\<not> pte_has PTE_HUGE (cs_tabs s c i)" for js
      by (rule pt_walk_cong) (use made that fr l in \<open>auto simp: entry_made_def\<close>)
    have "pt_walk (cs_tabs s') (Suc l) c (i # js) = pt_walk (cs_tabs s) (Suc l) c (i # js)" for js
      using w l by (auto simp: pt_walk_Cons same simp del: pt_walk.simps)
    moreover have "\<forall>t \<in> lowest T l (pte_addr (T p i)). \<forall>j < 512. cs_tabs s' t j = prot (T t j)"
      if "pte_has PTE_PRESENT (T p i)" "\<not> pte_has PTE_HUGE (T p i)"
    proof -
      have "lowest T l (pte_addr (T p i)) \<subseteq> L" using lo [OF l that] .
      then show ?thesis using red made that l unfolding entry_made_def by (metis subsetD)
    qed
    ultimately show ?thesis using made w l assms(7) unfolding entry_made_def same by auto
  qed
qed

subsection \<open>The copy of one entry\<close>

lemma put_entry_simps [simp]:
  "cs_fa (put_entry t i e s) = cs_fa s" "cs_frames (put_entry t i e s) = cs_frames s"
  "cs_tabs (put_entry t i e s) u j = (if u = t \<and> j = i then e else cs_tabs s u j)"
  by (simp_all add: put_entry_def set_entry_at_def)

lemma put_entry_other: "u \<noteq> t \<Longrightarrow> cs_tabs (put_entry t i e s) u = cs_tabs s u"
  by (simp add: put_entry_def set_entry_at_def)

lemma kept_put:
  assumes "kept_tables U L T s" "c \<notin> U \<union> L"
  shows "kept_tables U L T (put_entry c i e s)" "copy_step L {c} n s (put_entry c i e s)"
  using assms put_entry_other [of _ c i e s] by (auto simp: kept_tables_def copy_step_def)

lemma clone_table_ok:
  assumes cp: "copies U L T l copy" and k: "kept_tables U L T s" and c: "c \<notin> U \<union> L" "c \<notin> free_addrs (cs_fa s)"
    and up: "upper T l (pte_addr e) \<subseteq> U" "lowest T l (pte_addr e) \<subseteq> L"
  shows "\<exists>r s'. clone_table copy c e i s = Some (r, s') \<and> copy_step L {c} (512 ^ l) s s' \<and> kept_tables U L T s'
    \<and> spent (Suc (copied_tables T l (pte_addr e))) r s s'
    \<and> (\<forall>j. j \<noteq> i \<longrightarrow> cs_tabs s' c j = cs_tabs s c j)
    \<and> (case r of Inl er \<Rightarrow> er = NoMemory \<and> free_addrs (cs_fa s') = {}
       | Inr _ \<Rightarrow> \<exists>f. cs_tabs s' c i = \<lparr>pte_addr = f, pte_flags = pte_flags e\<rparr>
           \<and> upper (cs_tabs s') l f \<union> lowest (cs_tabs s') l f \<subseteq> free_addrs (cs_fa s) - free_addrs (cs_fa s')
           \<and> (\<forall>is. pt_walk (cs_tabs s') l f is = map_option cowed (pt_walk T l (pte_addr e) is))
           \<and> (\<forall>t \<in> lowest T l (pte_addr e). \<forall>j < 512. cs_tabs s' t j = prot (T t j)))"
proof -
  have inv: "phys_inv (cs_fa s)" using k by (simp add: kept_tables_def)
  consider (full) "allocate (cs_fa s) = Some (None, cs_fa s)" "free_addrs (cs_fa s) = {}"
    | (new) f fa where "allocate (cs_fa s) = Some (Some f, fa)" "f \<in> free_addrs (cs_fa s)" "phys_inv fa" "free_addrs fa = free_addrs (cs_fa s) - {f}"
    using bitmap.alloc_ok [OF inv] by blast
  then show ?thesis
  proof cases
    case full
    have "clone_table copy c e i s = Some (Inl NoMemory, s)" using full(1) by (simp add: clone_table_def)
    then show ?thesis using k copy_step_refl full(2) by (intro exI conjI) (auto simp: spent_def)
  next
    case (new f fa)
    define s1 where "s1 = put_entry c i \<lparr>pte_addr = f, pte_flags = pte_flags e\<rparr> (s\<lparr>cs_fa := fa\<rparr>)"
    have f: "f \<notin> U \<union> L" "f \<noteq> c" using new(2) k c(2) by (auto simp: kept_tables_def)
    have k0: "kept_tables U L T (s\<lparr>cs_fa := fa\<rparr>)" using k new(3,4) by (auto simp: kept_tables_def)
    have k1: "kept_tables U L T s1" unfolding s1_def by (rule kept_put(1) [OF k0 c(1)])
    have st1: "copy_step L {c} 0 s s1"
      using new(4) put_entry_other [of _ c i _ "s\<lparr>cs_fa := fa\<rparr>"] c(1) by (auto simp: copy_step_def s1_def)
    have fr1: "free_addrs (cs_fa s1) = free_addrs (cs_fa s) - {f}" using new(4) by (simp add: s1_def)
    have "card (free_addrs (cs_fa s)) = Suc (card (free_addrs fa))" using new(2) card_Suc_Diff1 [OF finite_free_addrs new(2)] unfolding new(4) by simp
    then have sp1: "spent 1 (Inr ()) s s1" by (simp add: spent_def s1_def)
    obtain r s2 where r: "copy (pte_addr e) f s1 = Some (r, s2)" "copy_step L {f} (512 ^ l) s1 s2" "kept_tables U L T s2"
      "spent (copied_tables T l (pte_addr e)) r s1 s2"
      "case r of Inl er \<Rightarrow> er = NoMemory \<and> free_addrs (cs_fa s2) = {}
        | Inr _ \<Rightarrow> upper (cs_tabs s2) l f \<union> lowest (cs_tabs s2) l f \<subseteq> insert f (free_addrs (cs_fa s1) - free_addrs (cs_fa s2))
            \<and> (\<forall>is. pt_walk (cs_tabs s2) l f is = map_option cowed (pt_walk T l (pte_addr e) is))
            \<and> (\<forall>t \<in> lowest T l (pte_addr e). \<forall>i < 512. cs_tabs s2 t i = prot (T t i))"
      using cp [unfolded copies_def, rule_format, OF k1 f(1) _ up] fr1 by auto
    have sp: "spent (Suc (copied_tables T l (pte_addr e))) r s s2" using spent_trans [OF sp1 r(4)] by simp
    have run: "clone_table copy c e i s = Some (r, s2)" using new(1) r(1) by (simp add: clone_table_def s1_def)
    have st: "copy_step L {c} (512 ^ l) s s2" using copy_step_trans [OF st1 r(2)] fr1 new(2) by simp
    have fr2: "free_addrs (cs_fa s2) \<subseteq> free_addrs (cs_fa s1)" using r(2) by (simp add: copy_step_def)
    have cc: "cs_tabs s2 c = cs_tabs s1 c" using r(2) c fr1 f(2) unfolding copy_step_def by blast
    have sub: "insert f (free_addrs (cs_fa s1) - free_addrs (cs_fa s2)) \<subseteq> free_addrs (cs_fa s) - free_addrs (cs_fa s2)"
      using fr1 fr2 new(2) by blast
    have "cs_tabs s2 c i = \<lparr>pte_addr = f, pte_flags = pte_flags e\<rparr>" "\<forall>j. j \<noteq> i \<longrightarrow> cs_tabs s2 c j = cs_tabs s c j"
      unfolding cc by (simp_all add: s1_def)
    then show ?thesis using run st sp r(3,5) sub by (cases r) (auto 0 3)
  qed
qed

text \<open>An entry of a table below the root.\<close>

lemma clone_entry_ok:
  assumes cp: "l \<noteq> 0 \<Longrightarrow> copies U L T l copy" and k: "kept_tables U L T s" and c: "c \<notin> U \<union> L" "c \<notin> free_addrs (cs_fa s)"
    and p: "if l = 0 then p \<in> L else p \<in> U"
    and up: "l \<noteq> 0 \<Longrightarrow> pte_has PTE_PRESENT (T p i) \<Longrightarrow> \<not> pte_has PTE_HUGE (T p i) \<Longrightarrow> upper T l (pte_addr (T p i)) \<subseteq> U \<and> lowest T l (pte_addr (T p i)) \<subseteq> L"
    and i: "i < 512" and new: "\<not> pte_has PTE_PRESENT (cs_tabs s c i)"
  shows "\<exists>r s'. clone_entry (Suc l) copy p c i s = Some (r, s') \<and> copy_step L {c} (512 ^ l) s s' \<and> kept_tables U L T s'
    \<and> spent (entry_tables T l p i) r s s'
    \<and> (\<forall>j. j \<noteq> i \<longrightarrow> cs_tabs s' c j = cs_tabs s c j)
    \<and> (case r of Inl er \<Rightarrow> er = NoMemory \<and> free_addrs (cs_fa s') = {} | Inr _ \<Rightarrow> entry_made T l p c (free_addrs (cs_fa s) - free_addrs (cs_fa s')) s' i)"
proof (cases "l = 0")
  case l: True
  then have pL: "p \<in> L" "p \<noteq> c" using p c(1) by auto
  let ?e = "cs_tabs s p i"
  have e: "?e = T p i \<or> ?e = prot (T p i) \<and> pte_addr (T p i) \<in> set (cs_frames s)" using k pL(1) by (simp add: kept_tables_def)
  have sp0: "spent (entry_tables T l p i) (Inr ()) s s'" if "cs_fa s' = cs_fa s" for s' using that l by (simp add: entry_tables_def spent_def)
  from e have pe: "prot ?e = prot (T p i)" "pte_has PTE_PRESENT ?e = pte_has PTE_PRESENT (T p i)" by auto
  have made: "entry_made T l p c A s' i" if "cs_tabs s' p i = prot ?e" "if pte_has PTE_PRESENT ?e then cs_tabs s' c i = prot ?e else \<not> pte_has PTE_PRESENT (cs_tabs s' c i)" for A s'
    using that pe i unfolding entry_made_def pt_walk_Cons l by (auto split: if_splits)
  consider (absent) "\<not> pte_has PTE_PRESENT ?e" | (cow) "cow_flags ?e" | (plain) "pte_has PTE_PRESENT ?e" "\<not> cow_flags ?e" by (auto simp: cow_flags_def)
  then show ?thesis
  proof cases
    case absent
    then have "clone_entry (Suc l) copy p c i s = Some (Inr (), s)" by (simp add: clone_entry_def)
    moreover have "prot ?e = ?e" using absent by (intro prot_id) (simp add: cow_flags_def)
    ultimately show ?thesis using k copy_step_refl made [of s] absent new sp0 [of s] by (intro exI conjI) auto
  next
    case cow
    let ?s = "put_entry c i (prot ?e) (put_entry p i (prot ?e) s\<lparr>cs_frames := cs_frames s @ [pte_addr ?e]\<rparr>)"
    have es: "\<lparr>pte_addr = pte_addr ?e, pte_flags = pte_flags ?e AND NOT PTE_WRITABLE\<rparr> = prot ?e"
      "?e\<lparr>pte_flags := pte_flags ?e AND NOT PTE_WRITABLE\<rparr> = prot ?e" using cow by (simp_all add: prot_def)
    have run: "clone_entry (Suc l) copy p c i s = Some (Inr (), ?s)"
      using cow l by (simp add: clone_entry_def cow_flags_def Let_def es)
    have T: "?e = T p i" using e cow by auto
    have tb: "cs_tabs ?s t j = (if t = c \<and> j = i \<or> t = p \<and> j = i then prot ?e else cs_tabs s t j)" for t j
      by (simp add: put_entry_def set_entry_at_def)
    have other: "cs_tabs ?s t = cs_tabs s t" if "t \<noteq> c" "t \<noteq> p" for t using that by (intro ext) (simp add: tb)
    have "p \<notin> U" using k pL(1) by (auto simp: kept_tables_def)
    then have "cs_tabs ?s t = cs_tabs s t" if "t \<in> U" for t using other [of t] that c(1) by auto
    then have "kept_tables U L T ?s" using k c(1) T tb by (auto simp: kept_tables_def)
    moreover have "copy_step L {c} (512 ^ l) s ?s"
      unfolding copy_step_def using other pL(1) c(1) tb by auto
    moreover have "entry_made T l p c A ?s i" for A using cow by (intro made) (simp_all add: tb cow_flags_def)
    moreover have "\<forall>j. j \<noteq> i \<longrightarrow> cs_tabs ?s c j = cs_tabs s c j" by (simp add: tb)
    moreover have "spent (entry_tables T l p i) (Inr ()) s ?s" by (rule sp0) simp
    ultimately show ?thesis using run by (intro exI conjI) auto
  next
    case plain
    have whole: "\<lparr>pte_addr = pte_addr x, pte_flags = pte_flags x\<rparr> = x" for x :: Pte by simp
    have run: "clone_entry (Suc l) copy p c i s = Some (Inr (), put_entry c i ?e s)"
      using plain l by (simp add: clone_entry_def cow_flags_def Let_def whole)
    have "entry_made T l p c A (put_entry c i ?e s) i" for A using plain pL(2) by (intro made) (simp_all add: prot_id)
    then show ?thesis using run kept_put [OF k c(1), where i = i and e = ?e] sp0 [of "put_entry c i ?e s"] by (intro exI conjI) auto
  qed
next
  case l: False
  then have pU: "p \<in> U" using p by simp
  have e: "cs_tabs s p = T p" using k pU by (simp add: kept_tables_def)
  let ?e = "T p i"
  show ?thesis
  proof (cases "pte_has PTE_PRESENT ?e \<and> \<not> pte_has PTE_HUGE ?e")
    case True
    then have up': "upper T l (pte_addr ?e) \<subseteq> U" "lowest T l (pte_addr ?e) \<subseteq> L" using up [OF l] by auto
    obtain r s' where r: "clone_table copy c ?e i s = Some (r, s')" "copy_step L {c} (512 ^ l) s s'" "kept_tables U L T s'" "spent (Suc (copied_tables T l (pte_addr ?e))) r s s'"
      "\<forall>j. j \<noteq> i \<longrightarrow> cs_tabs s' c j = cs_tabs s c j"
      "case r of Inl er \<Rightarrow> er = NoMemory \<and> free_addrs (cs_fa s') = {}
       | Inr _ \<Rightarrow> \<exists>f. cs_tabs s' c i = \<lparr>pte_addr = f, pte_flags = pte_flags ?e\<rparr>
           \<and> upper (cs_tabs s') l f \<union> lowest (cs_tabs s') l f \<subseteq> free_addrs (cs_fa s) - free_addrs (cs_fa s')
           \<and> (\<forall>is. pt_walk (cs_tabs s') l f is = map_option cowed (pt_walk T l (pte_addr ?e) is))
           \<and> (\<forall>t \<in> lowest T l (pte_addr ?e). \<forall>j < 512. cs_tabs s' t j = prot (T t j))"
      using clone_table_ok [OF cp [OF l] k c up', of i] by blast
    have "clone_entry (Suc l) copy p c i s = Some (r, s')" using r(1) True l by (simp add: clone_entry_def e)
    moreover have "entry_made T l p c (free_addrs (cs_fa s) - free_addrs (cs_fa s')) s' i" if ri: "r = Inr u" for u
    proof -
      obtain f where f: "cs_tabs s' c i = \<lparr>pte_addr = f, pte_flags = pte_flags ?e\<rparr>"
        "upper (cs_tabs s') l f \<union> lowest (cs_tabs s') l f \<subseteq> free_addrs (cs_fa s) - free_addrs (cs_fa s')"
        "\<forall>is. pt_walk (cs_tabs s') l f is = map_option cowed (pt_walk T l (pte_addr ?e) is)"
        "\<forall>t \<in> lowest T l (pte_addr ?e). \<forall>j < 512. cs_tabs s' t j = prot (T t j)" using r(6) unfolding ri by auto
      have "pte_has x (cs_tabs s' c i) = pte_has x ?e" for x by (simp add: f(1) pte_has_def)
      then show ?thesis using f True l i unfolding entry_made_def pt_walk_Cons by auto
    qed
    moreover have "spent (entry_tables T l p i) r s s'" using r(4) True l by (simp add: entry_tables_def)
    ultimately show ?thesis using r(2,3,5,6) by (intro exI conjI) (auto split: sum.splits)
  next
    case False
    then have sp0: "spent (entry_tables T l p i) (Inr ()) s s'" if "cs_fa s' = cs_fa s" for s'
      using that by (auto simp: entry_tables_def spent_def)
    show ?thesis
    proof (cases "pte_has PTE_PRESENT ?e")
      case True
      then have run: "clone_entry (Suc l) copy p c i s = Some (Inr (), put_entry c i ?e s)"
        using False l by (simp add: clone_entry_def e)
      have "entry_made T l p c A (put_entry c i ?e s) i" for A
        using True False l i unfolding entry_made_def pt_walk_Cons by auto
      then show ?thesis using run kept_put [OF k c(1), where i = i and e = ?e] sp0 [of "put_entry c i ?e s"] by (intro exI conjI) auto
    next
      case absent: False
      then have "clone_entry (Suc l) copy p c i s = Some (Inr (), s)" by (simp add: clone_entry_def e)
      moreover have "entry_made T l p c A s i" for A using absent l new unfolding entry_made_def pt_walk_Cons by auto
      ultimately show ?thesis using k copy_step_refl sp0 [of s] by (intro exI conjI) auto
    qed
  qed
qed

subsection \<open>The loops\<close>

text \<open>A loop over entries: those of the child before it are kept, and all of them are made unless the memory runs out.\<close>

lemma each_entry_ok:
  assumes step: "\<And>i s. i \<in> set is \<Longrightarrow> kept_tables U L T s \<Longrightarrow> c \<notin> free_addrs (cs_fa s) \<Longrightarrow> \<not> pte_has PTE_PRESENT (cs_tabs s c i)
      \<Longrightarrow> \<exists>r s'. f i s = Some (r, s') \<and> copy_step L {c} (512 ^ l) s s' \<and> kept_tables U L T s' \<and> spent (k i) r s s'
        \<and> (\<forall>j. j \<noteq> i \<longrightarrow> cs_tabs s' c j = cs_tabs s c j)
        \<and> (case r of Inl er \<Rightarrow> er = NoMemory \<and> free_addrs (cs_fa s') = {} | Inr _ \<Rightarrow> entry_made T l p c (free_addrs (cs_fa s) - free_addrs (cs_fa s')) s' i)"
    and c: "c \<notin> L" and p: "l = 0 \<Longrightarrow> p \<in> L" "\<And>i. i \<in> set is \<Longrightarrow> i < 512 \<and> (l \<noteq> 0 \<longrightarrow> pte_has PTE_PRESENT (T p i) \<longrightarrow> \<not> pte_has PTE_HUGE (T p i) \<longrightarrow> lowest T l (pte_addr (T p i)) \<subseteq> L)"
    and "distinct is" "kept_tables U L T s" "c \<notin> free_addrs (cs_fa s)" "\<forall>i \<in> set is. \<not> pte_has PTE_PRESENT (cs_tabs s c i)"
  shows "\<exists>r s'. each_entry f is s = Some (r, s') \<and> copy_step L {c} (512 ^ l * length is) s s' \<and> kept_tables U L T s' \<and> spent (sum_list (map k is)) r s s'
    \<and> (\<forall>j. j \<notin> set is \<longrightarrow> cs_tabs s' c j = cs_tabs s c j)
    \<and> (case r of Inl er \<Rightarrow> er = NoMemory \<and> free_addrs (cs_fa s') = {} | Inr _ \<Rightarrow> \<forall>i \<in> set is. entry_made T l p c (free_addrs (cs_fa s) - free_addrs (cs_fa s')) s' i)"
  using assms(1,4-8)
proof (induction "is" arbitrary: s)
  case Nil
  then show ?case using copy_step_refl spent_refl by (intro exI [of _ "Inr ()"] exI [of _ s]) simp
next
  case (Cons i "is")
  obtain r s1 where r: "f i s = Some (r, s1)" "copy_step L {c} (512 ^ l) s s1" "kept_tables U L T s1" "\<forall>j. j \<noteq> i \<longrightarrow> cs_tabs s1 c j = cs_tabs s c j"
    "spent (k i) r s s1"
    "case r of Inl er \<Rightarrow> er = NoMemory \<and> free_addrs (cs_fa s1) = {} | Inr _ \<Rightarrow> entry_made T l p c (free_addrs (cs_fa s) - free_addrs (cs_fa s1)) s1 i"
    using Cons.prems(1) [of i s] Cons.prems(4-6) by auto
  show ?case
  proof (cases r)
    case (Inl er)
    then have "each_entry f (i # is) s = Some (Inl er, s1)" "er = NoMemory \<and> free_addrs (cs_fa s1) = {}" using r(1,6) by simp_all
    moreover have "copy_step L {c} (512 ^ l * length (i # is)) s s1" by (rule copy_step_mono [OF r(2)]) simp_all
    moreover have "spent (sum_list (map k (i # is))) (Inl er) s s1" using spent_stop r(5) Inl by simp
    ultimately show ?thesis using r(3,4) by (intro exI conjI) auto
  next
    case (Inr u)
    have c1: "c \<notin> free_addrs (cs_fa s1)" using Cons.prems(5) r(2) by (auto simp: copy_step_def)
    have un: "\<forall>j \<in> set is. \<not> pte_has PTE_PRESENT (cs_tabs s1 c j)" using Cons.prems(3,6) r(4) by auto
    obtain r' s2 where r': "each_entry f is s1 = Some (r', s2)" "copy_step L {c} (512 ^ l * length is) s1 s2" "kept_tables U L T s2" "spent (sum_list (map k is)) r' s1 s2"
      "\<forall>j. j \<notin> set is \<longrightarrow> cs_tabs s2 c j = cs_tabs s1 c j"
      "case r' of Inl er \<Rightarrow> er = NoMemory \<and> free_addrs (cs_fa s2) = {} | Inr _ \<Rightarrow> \<forall>i \<in> set is. entry_made T l p c (free_addrs (cs_fa s1) - free_addrs (cs_fa s2)) s2 i"
      using Cons.IH [OF Cons.prems(1) Cons.prems(2) _ r(3) c1 un] Cons.prems(3) by auto
    have st: "copy_step L {c} (512 ^ l * length (i # is)) s s2" using copy_step_trans [OF r(2) r'(2)] by (simp add: algebra_simps)
    have run: "each_entry f (i # is) s = Some (r', s2)" using r(1) r'(1) Inr by simp
    have fr: "free_addrs (cs_fa s1) \<subseteq> free_addrs (cs_fa s)" "free_addrs (cs_fa s2) \<subseteq> free_addrs (cs_fa s1)" using r(2) r'(2) by (simp_all add: copy_step_def)
    have one: "entry_made T l p c (free_addrs (cs_fa s) - free_addrs (cs_fa s2)) s2 i"
    proof (rule entry_made_kept [OF _ r'(2)])
      show "entry_made T l p c (free_addrs (cs_fa s) - free_addrs (cs_fa s1)) s1 i" using r(6) Inr by simp
      show "cs_tabs s2 c i = cs_tabs s1 c i" using r'(5) Cons.prems(3) by simp
      show "(free_addrs (cs_fa s) - free_addrs (cs_fa s1)) \<inter> (L \<union> {c} \<union> free_addrs (cs_fa s1)) = {}"
        using Cons.prems(4,5) by (auto simp: kept_tables_def)
      show "free_addrs (cs_fa s) - free_addrs (cs_fa s1) \<subseteq> free_addrs (cs_fa s) - free_addrs (cs_fa s2)" using fr by blast
    qed (use p Cons.prems(2) in auto)
    have rest: "entry_made T l p c (free_addrs (cs_fa s) - free_addrs (cs_fa s2)) s2 j" if "entry_made T l p c (free_addrs (cs_fa s1) - free_addrs (cs_fa s2)) s2 j" for j
      using that fr unfolding entry_made_def by (auto split: if_splits)
    have "spent (k i + sum_list (map k is)) r' s s2" by (rule spent_trans [OF _ r'(4)]) (use r(5) Inr in auto)
    then have "spent (sum_list (map k (i # is))) r' s s2" by simp
    then show ?thesis using run st r'(3,5,6) r(4) one rest by (intro exI conjI) (auto split: sum.splits)
  qed
qed

lemma blank_table_simps [simp]:
  "cs_fa (blank_table c s) = cs_fa s" "cs_frames (blank_table c s) = cs_frames s" "cs_tabs (blank_table c s) c i = pte_unused"
  "t \<noteq> c \<Longrightarrow> cs_tabs (blank_table c s) t = cs_tabs s t"
  by (simp_all add: blank_table_def zero_table_def)

lemma kept_blank:
  assumes "kept_tables U L T s" "c \<notin> U \<union> L"
  shows "kept_tables U L T (blank_table c s)" "copy_step L {c} 0 s (blank_table c s)"
proof -
  have same: "cs_tabs (blank_table c s) t = cs_tabs s t" if "t \<in> U \<union> L" for t using that assms(2) by (metis blank_table_simps(4))
  then show "kept_tables U L T (blank_table c s)" using assms(1) by (auto simp: kept_tables_def)
  show "copy_step L {c} 0 s (blank_table c s)" using same by (auto simp: copy_step_def)
qed

text \<open>What the made entries of a whole table say of it.\<close>

lemma table_made:
  assumes "\<forall>i < 512. entry_made T l p c A s i"
  shows "upper (cs_tabs s) (Suc l) c \<union> lowest (cs_tabs s) (Suc l) c \<subseteq> insert c A"
    and "pt_walk (cs_tabs s) (Suc l) c is = map_option cowed (pt_walk T (Suc l) p is)"
    and "\<forall>t \<in> lowest T (Suc l) p. \<forall>i < 512. cs_tabs s t i = prot (T t i)"
proof -
  show "upper (cs_tabs s) (Suc l) c \<union> lowest (cs_tabs s) (Suc l) c \<subseteq> insert c A"
  proof (cases "l = 0")
    case False
    then have "upper (cs_tabs s) l t \<union> lowest (cs_tabs s) l t \<subseteq> A" if "t \<in> next_tables (cs_tabs s) c" for t
      using that assms by (auto simp: next_tables_def entry_made_def)
    then show ?thesis using False by auto
  qed simp
  show "pt_walk (cs_tabs s) (Suc l) c is = map_option cowed (pt_walk T (Suc l) p is)"
  proof (cases "is")
    case (Cons i js)
    then show ?thesis using assms by (cases "i < 512") (auto simp: entry_made_def pt_walk_Cons simp del: pt_walk.simps)
  qed simp
  show "\<forall>t \<in> lowest T (Suc l) p. \<forall>i < 512. cs_tabs s t i = prot (T t i)"
    using assms by (cases "l = 0") (auto simp: next_tables_def entry_made_def)
qed

lemma clone_level_copies: "0 < l \<Longrightarrow> copies U L T l (clone_page_table_level l)"
proof (induction l)
  case (Suc l)
  have cp: "copies U L T l (clone_page_table_level l)" if "l \<noteq> 0" using Suc.IH that by simp
  show ?case unfolding copies_def
  proof (intro allI impI)
    fix p c s assume k: "kept_tables U L T s" and c: "c \<notin> U \<union> L" "c \<notin> free_addrs (cs_fa s)"
      and up: "upper T (Suc l) p \<subseteq> U" "lowest T (Suc l) p \<subseteq> L"
    let ?s = "blank_table c s" and ?f = "clone_entry (Suc l) (clone_page_table_level l) p c"
    have lo: "lowest T l (pte_addr (T p i)) \<subseteq> L" if "i < 512" "l \<noteq> 0" "pte_has PTE_PRESENT (T p i)" "\<not> pte_has PTE_HUGE (T p i)" for i
      using up(2) that by (auto simp: next_tables_def)
    have up': "upper T l (pte_addr (T p i)) \<subseteq> U \<and> lowest T l (pte_addr (T p i)) \<subseteq> L"
      if "l \<noteq> 0" "pte_has PTE_PRESENT (T p i)" "\<not> pte_has PTE_HUGE (T p i)" "i < 512" for i
    proof -
      have "pte_addr (T p i) \<in> next_tables T p" using that by (auto simp: next_tables_def)
      then show ?thesis using up that(1) by auto
    qed
    have pp: "if l = 0 then p \<in> L else p \<in> U" using up by auto
    have "\<exists>r s'. each_entry ?f [0..<512] ?s = Some (r, s') \<and> copy_step L {c} (512 ^ l * length [0..<512]) ?s s' \<and> kept_tables U L T s'
      \<and> spent (sum_list (map (entry_tables T l p) [0..<512])) r ?s s' \<and> (\<forall>j. j \<notin> set [0..<512] \<longrightarrow> cs_tabs s' c j = cs_tabs ?s c j)
      \<and> (case r of Inl er \<Rightarrow> er = NoMemory \<and> free_addrs (cs_fa s') = {} | Inr _ \<Rightarrow> \<forall>i \<in> set [0..<512]. entry_made T l p c (free_addrs (cs_fa ?s) - free_addrs (cs_fa s')) s' i)"
    proof (rule each_entry_ok [where U = U])
      show "\<exists>r s'. ?f i s = Some (r, s') \<and> copy_step L {c} (512 ^ l) s s' \<and> kept_tables U L T s' \<and> spent (entry_tables T l p i) r s s'
        \<and> (\<forall>j. j \<noteq> i \<longrightarrow> cs_tabs s' c j = cs_tabs s c j)
        \<and> (case r of Inl er \<Rightarrow> er = NoMemory \<and> free_addrs (cs_fa s') = {} | Inr _ \<Rightarrow> entry_made T l p c (free_addrs (cs_fa s) - free_addrs (cs_fa s')) s' i)"
        if "i \<in> set [0..<512]" "kept_tables U L T s" "c \<notin> free_addrs (cs_fa s)" "\<not> pte_has PTE_PRESENT (cs_tabs s c i)" for i s
        using clone_entry_ok [OF cp that(2) c(1) that(3) pp up' _ that(4)] that(1) by auto
      show "kept_tables U L T ?s" using kept_blank(1) [OF k c(1)] .
    qed (use c up lo in auto)
    then obtain r s' where r: "each_entry ?f [0..<512] ?s = Some (r, s')" "copy_step L {c} (512 ^ l * length [0..<512]) ?s s'" "kept_tables U L T s'"
      "spent (sum_list (map (entry_tables T l p) [0..<512])) r ?s s'"
      "case r of Inl er \<Rightarrow> er = NoMemory \<and> free_addrs (cs_fa s') = {} | Inr _ \<Rightarrow> \<forall>i \<in> set [0..<512]. entry_made T l p c (free_addrs (cs_fa ?s) - free_addrs (cs_fa s')) s' i"
      by blast
    have "copy_step L {c} (0 + 512 ^ l * length [0..<512]) s s'" by (rule copy_step_trans [OF kept_blank(2) [OF k c(1)] r(2)]) simp
    then have st: "copy_step L {c} (512 ^ Suc l) s s'" by (simp add: mult.commute)
    have sp: "spent (copied_tables T (Suc l) p) r s s'" using r(4) unfolding copied_tables_Suc by (subst spent_fa [of s ?s s' s']) simp_all
    have run: "clone_page_table_level (Suc l) p c s = Some (r, s')" using r(1) by simp
    show "\<exists>r s'. clone_page_table_level (Suc l) p c s = Some (r, s') \<and> copy_step L {c} (512 ^ Suc l) s s' \<and> kept_tables U L T s' \<and> spent (copied_tables T (Suc l) p) r s s' \<and>
       (case r of Inl e \<Rightarrow> e = NoMemory \<and> free_addrs (cs_fa s') = {}
        | Inr _ \<Rightarrow> upper (cs_tabs s') (Suc l) c \<union> lowest (cs_tabs s') (Suc l) c \<subseteq> insert c (free_addrs (cs_fa s) - free_addrs (cs_fa s'))
            \<and> (\<forall>is. pt_walk (cs_tabs s') (Suc l) c is = map_option cowed (pt_walk T (Suc l) p is))
            \<and> (\<forall>t \<in> lowest T (Suc l) p. \<forall>i < 512. cs_tabs s' t i = prot (T t i)))"
    proof (intro exI conjI)
      show "case r of Inl e \<Rightarrow> e = NoMemory \<and> free_addrs (cs_fa s') = {}
        | Inr _ \<Rightarrow> upper (cs_tabs s') (Suc l) c \<union> lowest (cs_tabs s') (Suc l) c \<subseteq> insert c (free_addrs (cs_fa s) - free_addrs (cs_fa s'))
            \<and> (\<forall>is. pt_walk (cs_tabs s') (Suc l) c is = map_option cowed (pt_walk T (Suc l) p is))
            \<and> (\<forall>t \<in> lowest T (Suc l) p. \<forall>i < 512. cs_tabs s' t i = prot (T t i))"
      proof (cases r)
        case (Inr u)
        then have m: "\<forall>i < 512. entry_made T l p c (free_addrs (cs_fa s) - free_addrs (cs_fa s')) s' i" using r(5) by simp
        show ?thesis using table_made [OF m] Inr by simp
      qed (use r(5) in simp)
    qed (rule run st r(3) sp)+
  qed
qed simp

subsection \<open>The copy of an address space\<close>

text \<open>The tables below the lower half of a root.\<close>

definition user_roots :: "Tables \<Rightarrow> nat \<Rightarrow> nat set" where
  "user_roots T cr3 = {pte_addr (T cr3 i) | i. i < 256 \<and> pte_has PTE_PRESENT (T cr3 i)}"

definition user_upper :: "Tables \<Rightarrow> nat \<Rightarrow> nat set" where
  "user_upper T cr3 = insert cr3 (\<Union>t \<in> user_roots T cr3. upper T 3 t)"

text \<open>The frames that the copy takes: one for the root and one for every table below its lower half.\<close>

definition fork_frames :: "Tables \<Rightarrow> nat \<Rightarrow> nat" where
  "fork_frames T cr3 = Suc (sum_list (map (entry_tables T 3 cr3) [0..<256]))"

definition user_lowest :: "Tables \<Rightarrow> nat \<Rightarrow> nat set" where
  "user_lowest T cr3 = (\<Union>t \<in> user_roots T cr3. lowest T 3 t)"

text \<open>What a fork relies on: the tables of the parent are not free frames, no table is used at level 1 and above it, and the
  counts of the copy-on-write table are far from their end.\<close>

definition fork_space :: "nat \<Rightarrow> ForkMem \<Rightarrow> bool" where
  "fork_space cr3 m \<longleftrightarrow> phys_inv (fk_fa m) \<and> cow_inv (fk_cow m) \<and> (\<forall>a. ref_count (fk_cow m) a \<le> 2 ^ 63)
     \<and> (user_upper (fk_tabs m) cr3 \<union> user_lowest (fk_tabs m) cr3) \<inter> free_addrs (fk_fa m) = {}
     \<and> user_upper (fk_tabs m) cr3 \<inter> user_lowest (fk_tabs m) cr3 = {}
     \<and> (\<forall>i < 256. pte_has PTE_PRESENT (fk_tabs m cr3 i) \<longrightarrow> \<not> pte_has PTE_HUGE (fk_tabs m cr3 i))"

lemma copy_kernel_half_eq:
  assumes "parent \<noteq> child"
  shows "cs_fa (copy_kernel_half parent child s) = cs_fa s" "cs_frames (copy_kernel_half parent child s) = cs_frames s"
    "t \<noteq> child \<Longrightarrow> cs_tabs (copy_kernel_half parent child s) t = cs_tabs s t"
    "cs_tabs (copy_kernel_half parent child s) child i = (if 256 \<le> i \<and> i < 512 then cs_tabs s parent i else cs_tabs s child i)"
proof -
  have "cs_fa (fold (\<lambda>i s. put_entry child i (cs_tabs s parent i) s) is s) = cs_fa s
    \<and> cs_frames (fold (\<lambda>i s. put_entry child i (cs_tabs s parent i) s) is s) = cs_frames s
    \<and> (\<forall>t. t \<noteq> child \<longrightarrow> cs_tabs (fold (\<lambda>i s. put_entry child i (cs_tabs s parent i) s) is s) t = cs_tabs s t)
    \<and> (\<forall>i. cs_tabs (fold (\<lambda>i s. put_entry child i (cs_tabs s parent i) s) is s) child i = (if i \<in> set is then cs_tabs s parent i else cs_tabs s child i))" for "is"
    using assms by (induction "is" arbitrary: s) (auto simp: put_entry_other)
  note fp = this [of "[256..<512]", folded copy_kernel_half_def]
  have "i \<in> set [256..<512] \<longleftrightarrow> 256 \<le> i \<and> i < 512" by (simp only: set_upt atLeastLessThan_iff)
  then show "cs_fa (copy_kernel_half parent child s) = cs_fa s" "cs_frames (copy_kernel_half parent child s) = cs_frames s"
    "t \<noteq> child \<Longrightarrow> cs_tabs (copy_kernel_half parent child s) t = cs_tabs s t"
    "cs_tabs (copy_kernel_half parent child s) child i = (if 256 \<le> i \<and> i < 512 then cs_tabs s parent i else cs_tabs s child i)"
    using fp by (blast, blast, blast, metis)
qed

lemma clone_root_entry_eq:
  "\<not> pte_has PTE_HUGE (cs_tabs s p i) \<or> \<not> pte_has PTE_PRESENT (cs_tabs s p i)
    \<Longrightarrow> clone_root_entry p c i s = clone_entry (Suc 3) (clone_page_table_level 3) p c i s"
  by (auto simp: clone_root_entry_def clone_entry_def Let_def)

lemma fold_increment:
  "cow_inv m \<Longrightarrow> \<forall>a. ref_count m a \<le> b \<Longrightarrow> 0 < b \<Longrightarrow> b + length fs \<le> 2 ^ 64 - 1
    \<Longrightarrow> cow_inv (fold increment_ref fs m) \<and> (\<forall>a. ref_count m a \<le> ref_count (fold increment_ref fs m) a)
      \<and> (\<forall>a \<in> set fs. 1 < ref_count (fold increment_ref fs m) a)"
proof (induction fs arbitrary: m b)
  case (Cons f fs)
  let ?m = "increment_ref f m"
  have one: "cow_inv ?m" "ref_count ?m = (ref_count m)(f := if ref_count m f = 0 then 2 else Suc (ref_count m f))"
  proof -
    have "ref_count m f \<le> b" "b + Suc (length fs) \<le> 2 ^ 64 - 1" using Cons.prems(2,4) by simp_all
    then have "ref_count m f < 2 ^ 64 - 1" by linarith
    then show "cow_inv ?m" "ref_count ?m = (ref_count m)(f := if ref_count m f = 0 then 2 else Suc (ref_count m f))"
      using cowrc.inc_fresh [OF Cons.prems(1), of f] cowrc.inc_more [OF Cons.prems(1), of f] by (cases "ref_count m f = 0"; auto)+
  qed
  have "\<forall>a. ref_count ?m a \<le> Suc b" using Cons.prems(2,3) by (auto simp: one(2) intro: le_SucI)
  then have ih: "cow_inv (fold increment_ref fs ?m) \<and> (\<forall>a. ref_count ?m a \<le> ref_count (fold increment_ref fs ?m) a)
      \<and> (\<forall>a \<in> set fs. 1 < ref_count (fold increment_ref fs ?m) a)"
    using Cons.IH [OF one(1), of "Suc b"] Cons.prems(4) by simp
  have le: "ref_count m a \<le> ref_count ?m a" "1 < ref_count ?m f" for a using one(2) by auto
  then have "ref_count m a \<le> ref_count (fold increment_ref fs ?m) a" for a using ih le_trans by blast
  moreover have "1 < ref_count (fold increment_ref fs ?m) f" using ih le(2) less_le_trans by blast
  ultimately show ?case using ih by simp
qed simp

text \<open>In between, a walk of the parent ends at the entry of the start or at that entry made read-only.\<close>

lemma pt_walk_between:
  assumes "\<forall>t \<in> upper T l p. tabs t = T t" "\<forall>t \<in> lowest T l p. \<forall>i. tabs t i = T t i \<or> tabs t i = prot (T t i)"
  shows "pt_walk tabs l p is = pt_walk T l p is \<or> pt_walk tabs l p is = map_option cowed (pt_walk T l p is)"
  using assms
proof (induction l arbitrary: p "is")
  case (Suc l)
  show ?case
  proof (cases "is")
    case (Cons i js)
    show ?thesis
    proof (cases "l = 0")
      case True
      then have "tabs p i = T p i \<or> tabs p i = prot (T p i)" using Suc.prems by simp
      then show ?thesis using True unfolding Cons pt_walk_Cons by auto
    next
      case l: False
      then have p: "tabs p = T p" using Suc.prems by simp
      have "pt_walk tabs l (pte_addr (T p i)) js = pt_walk T l (pte_addr (T p i)) js
          \<or> pt_walk tabs l (pte_addr (T p i)) js = map_option cowed (pt_walk T l (pte_addr (T p i)) js)"
        if "i < 512" "pte_has PTE_PRESENT (T p i)" "\<not> pte_has PTE_HUGE (T p i)"
      proof (rule Suc.IH)
        have "pte_addr (T p i) \<in> next_tables T p" using that by (auto simp: next_tables_def)
        then show "\<forall>t \<in> upper T l (pte_addr (T p i)). tabs t = T t"
          "\<forall>t \<in> lowest T l (pte_addr (T p i)). \<forall>j. tabs t j = T t j \<or> tabs t j = prot (T t j)"
          using Suc.prems l by auto
      qed
      then show ?thesis using l unfolding Cons pt_walk_Cons p by auto
    qed
  qed simp
qed simp

text \<open>\<open>user_page T cr3 path e\<close>: the path leads to the entry \<open>e\<close> of a page in the lower half.\<close>

definition user_page :: "Tables \<Rightarrow> nat \<Rightarrow> nat list \<Rightarrow> Pte \<Rightarrow> bool" where
  "user_page T cr3 path e \<longleftrightarrow> path \<noteq> [] \<and> hd path < 256 \<and> pt_walk T 4 cr3 path = Some (1, e)"

lemma root_loop:
  assumes ok: "fork_space cr3 m" and T: "T = fk_tabs m" and al: "c \<in> free_addrs (fk_fa m)" "phys_inv fa" "free_addrs fa = free_addrs (fk_fa m) - {c}"
    and s: "s = copy_kernel_half cr3 c (blank_table c \<lparr>cs_tabs = T, cs_fa = fa, cs_frames = []\<rparr>)"
  shows "\<exists>r s'. each_entry (clone_root_entry cr3 c) [0..<256] s = Some (r, s')
    \<and> copy_step (user_lowest T cr3) {c} (512 ^ 3 * 256) s s' \<and> kept_tables (user_upper T cr3) (user_lowest T cr3) T s'
    \<and> spent (sum_list (map (entry_tables T 3 cr3) [0..<256])) r s s'
    \<and> (\<forall>i. 256 \<le> i \<longrightarrow> i < 512 \<longrightarrow> cs_tabs s' c i = T cr3 i)
    \<and> (case r of Inl er \<Rightarrow> er = NoMemory \<and> free_addrs (cs_fa s') = {} | Inr _ \<Rightarrow> \<forall>i < 256. entry_made T 3 cr3 c (free_addrs (cs_fa s) - free_addrs (cs_fa s')) s' i)"
proof -
  let ?U = "user_upper T cr3" and ?L = "user_lowest T cr3"
  have UL: "(?U \<union> ?L) \<inter> free_addrs (fk_fa m) = {}" "?U \<inter> ?L = {}" using ok unfolding fork_space_def T by blast+
  have c: "c \<notin> ?U \<union> ?L" using UL al(1) by blast
  have cr3: "cr3 \<in> ?U" by (simp add: user_upper_def)
  then have ne: "cr3 \<noteq> c" using c by blast
  note ck = copy_kernel_half_eq [OF ne]
  have other: "cs_tabs s t = T t" if "t \<noteq> c" for t using that ck(3) unfolding s by simp
  have fa: "cs_fa s = fa" "cs_frames s = []" using ck(1,2) unfolding s by simp_all
  have own: "cs_tabs s c i = (if 256 \<le> i \<and> i < 512 then T cr3 i else pte_unused)" for i using ck(4) ne unfolding s by simp
  have U: "cs_tabs s t = T t" if "t \<in> ?U \<union> ?L" for t using other [of t] that c by blast
  have k: "kept_tables ?U ?L T s"
    unfolding kept_tables_def fa using al(2,3) UL U by auto
  have cf: "c \<notin> free_addrs (cs_fa s)" using al(3) fa(1) by simp
  have root: "upper T 3 (pte_addr (T cr3 i)) \<subseteq> ?U \<and> lowest T 3 (pte_addr (T cr3 i)) \<subseteq> ?L" if "i < 256" "pte_has PTE_PRESENT (T cr3 i)" for i
  proof -
    have "pte_addr (T cr3 i) \<in> user_roots T cr3" using that by (auto simp: user_roots_def)
    then show ?thesis by (auto simp: user_upper_def user_lowest_def)
  qed
  have cp: "copies ?U ?L T 3 (clone_page_table_level 3)" by (rule clone_level_copies) simp
  have "\<exists>r s'. each_entry (clone_root_entry cr3 c) [0..<256] s = Some (r, s') \<and> copy_step ?L {c} (512 ^ 3 * length [0..<256]) s s' \<and> kept_tables ?U ?L T s'
      \<and> spent (sum_list (map (entry_tables T 3 cr3) [0..<256])) r s s' \<and> (\<forall>j. j \<notin> set [0..<256] \<longrightarrow> cs_tabs s' c j = cs_tabs s c j)
      \<and> (case r of Inl er \<Rightarrow> er = NoMemory \<and> free_addrs (cs_fa s') = {} | Inr _ \<Rightarrow> \<forall>i \<in> set [0..<256]. entry_made T 3 cr3 c (free_addrs (cs_fa s) - free_addrs (cs_fa s')) s' i)"
  proof (rule each_entry_ok [where U = ?U])
    show "\<exists>r s'. clone_root_entry cr3 c i s = Some (r, s') \<and> copy_step ?L {c} (512 ^ 3) s s' \<and> kept_tables ?U ?L T s' \<and> spent (entry_tables T 3 cr3 i) r s s'
      \<and> (\<forall>j. j \<noteq> i \<longrightarrow> cs_tabs s' c j = cs_tabs s c j)
      \<and> (case r of Inl er \<Rightarrow> er = NoMemory \<and> free_addrs (cs_fa s') = {} | Inr _ \<Rightarrow> entry_made T 3 cr3 c (free_addrs (cs_fa s) - free_addrs (cs_fa s')) s' i)"
      if i: "i \<in> set [0..<256]" and ks: "kept_tables ?U ?L T s" and cs: "c \<notin> free_addrs (cs_fa s)" and un: "\<not> pte_has PTE_PRESENT (cs_tabs s c i)" for i s
    proof -
      have i: "i < 256" "i < 512" using i by simp_all
      have "cs_tabs s cr3 = T cr3" using ks cr3 by (simp add: kept_tables_def)
      then have eq: "clone_root_entry cr3 c i s = clone_entry (Suc 3) (clone_page_table_level 3) cr3 c i s"
        using ok i(1) by (intro clone_root_entry_eq) (auto simp: fork_space_def T)
      show ?thesis unfolding eq using clone_entry_ok [OF cp ks c cs _ _ i(2) un] cr3 root [OF i(1)] by simp
    qed
    show "i < 512 \<and> (3 \<noteq> 0 \<longrightarrow> pte_has PTE_PRESENT (T cr3 i) \<longrightarrow> \<not> pte_has PTE_HUGE (T cr3 i) \<longrightarrow> lowest T 3 (pte_addr (T cr3 i)) \<subseteq> ?L)"
      if "i \<in> set [0..<256]" for i using root that by simp
    show "\<forall>i \<in> set [0..<256]. \<not> pte_has PTE_PRESENT (cs_tabs s c i)" by (simp add: own)
  qed (use c k cf in auto)
  then obtain r s' where r: "each_entry (clone_root_entry cr3 c) [0..<256] s = Some (r, s')" "copy_step ?L {c} (512 ^ 3 * length [0..<256]) s s'" "kept_tables ?U ?L T s'"
      "spent (sum_list (map (entry_tables T 3 cr3) [0..<256])) r s s'"
      "\<forall>j. j \<notin> set [0..<256] \<longrightarrow> cs_tabs s' c j = cs_tabs s c j"
      "case r of Inl er \<Rightarrow> er = NoMemory \<and> free_addrs (cs_fa s') = {} | Inr _ \<Rightarrow> \<forall>i \<in> set [0..<256]. entry_made T 3 cr3 c (free_addrs (cs_fa s) - free_addrs (cs_fa s')) s' i"
    by blast
  have len: "length [0..<256] = 256" "i \<in> set [0..<256] \<longleftrightarrow> i < 256" for i :: nat by simp_all
  have "case r of Inl er \<Rightarrow> er = NoMemory \<and> free_addrs (cs_fa s') = {} | Inr _ \<Rightarrow> \<forall>i < 256. entry_made T 3 cr3 c (free_addrs (cs_fa s) - free_addrs (cs_fa s')) s' i"
    using r(6) by (cases r) (simp_all add: len(2))
  moreover have "\<forall>i. 256 \<le> i \<longrightarrow> i < 512 \<longrightarrow> cs_tabs s' c i = T cr3 i" using r(5) own by (simp add: len(2))
  ultimately show ?thesis using r(1-4) unfolding len(1) by blast
qed

lemma pt_walk_lowest: "pt_walk T l p is = Some (1, e) \<Longrightarrow> \<exists>t \<in> lowest T l p. \<exists>j < 512. e = T t j"
proof (induction l arbitrary: p "is")
  case (Suc l)
  then obtain i js where c: "is = i # js" by (cases "is") simp_all
  show ?case
  proof (cases "l = 0")
    case True
    then have "i < 512" "e = T p i" using Suc.prems unfolding c pt_walk_Cons by (auto split: if_splits)
    then show ?thesis using True by auto
  next
    case l: False
    then have nx: "i < 512" "pte_has PTE_PRESENT (T p i)" "\<not> pte_has PTE_HUGE (T p i)" and w: "pt_walk T l (pte_addr (T p i)) js = Some (1, e)"
      using Suc.prems unfolding c pt_walk_Cons by (auto split: if_splits)
    have "pte_addr (T p i) \<in> next_tables T p" using nx by (auto simp: next_tables_def)
    then show ?thesis using Suc.IH [OF w] l by auto
  qed
qed simp

lemma pt_walk_root:
  assumes "i < 256" "pte_has PTE_PRESENT (T p i) \<Longrightarrow> \<not> pte_has PTE_HUGE (T p i)"
  shows "pt_walk T 4 p (i # js) = (if pte_has PTE_PRESENT (T p i) then pt_walk T 3 (pte_addr (T p i)) js else None)"
proof -
  have "(4 :: nat) = Suc 3" by simp
  then show ?thesis using assms by (simp only: pt_walk_Cons) simp
qed

text \<open>The copy of an address space.  It always returns: the only error is that the memory runs out.  It takes frames from the
  allocator, and changes no table but the parent's ones of level 1 and those that it makes.  When it succeeds, every walk in the lower half
  ends in the child where it ends in the parent, and in both at an entry that is read-only if it was a page that the user could write;
  the upper half is the same, and the copy-on-write table counts at least two owners of every such page.  When it fails,
  some pages of the parent are read-only by then, and the table does not know of them.  It succeeds exactly when there are as many free
  frames as the parent has tables, counting its root.\<close>

theorem address_space_copied:
  assumes ok: "fork_space cr3 m" and T: "T = fk_tabs m"
  shows "\<exists>r m'. clone_address_space cr3 m = Some (r, m') \<and> free_addrs (fk_fa m') \<subseteq> free_addrs (fk_fa m)
    \<and> (\<forall>t. t \<notin> user_lowest T cr3 \<union> free_addrs (fk_fa m) \<longrightarrow> fk_tabs m' t = T t)
    \<and> (case r of
        Inl er \<Rightarrow> er = NoMemory \<and> card (free_addrs (fk_fa m)) < fork_frames T cr3 \<and> free_addrs (fk_fa m') = {} \<and> fk_cow m' = fk_cow m
          \<and> (\<forall>path e. user_page T cr3 path e \<longrightarrow> user_page (fk_tabs m') cr3 path e \<or> user_page (fk_tabs m') cr3 path (prot e))
      | Inr c \<Rightarrow> c \<in> free_addrs (fk_fa m) - free_addrs (fk_fa m') \<and> card (free_addrs (fk_fa m)) = card (free_addrs (fk_fa m')) + fork_frames T cr3
          \<and> (\<forall>path. path \<noteq> [] \<and> hd path < 256 \<longrightarrow> pt_walk (fk_tabs m') 4 c path = map_option cowed (pt_walk T 4 cr3 path)
               \<and> pt_walk (fk_tabs m') 4 cr3 path = map_option cowed (pt_walk T 4 cr3 path))
          \<and> (\<forall>i. 256 \<le> i \<and> i < 512 \<longrightarrow> fk_tabs m' c i = T cr3 i \<and> fk_tabs m' cr3 i = T cr3 i)
          \<and> (\<forall>path e. user_page T cr3 path e \<and> cow_flags e \<longrightarrow> is_shared (fk_cow m') (pte_addr e)))"
proof -
  let ?U = "user_upper T cr3" and ?L = "user_lowest T cr3"
  have inv: "phys_inv (fk_fa m)" and UL: "(?U \<union> ?L) \<inter> free_addrs (fk_fa m) = {}" using ok unfolding fork_space_def T by blast+
  have cr3: "cr3 \<in> ?U" by (simp add: user_upper_def)
  have nh: "\<not> pte_has PTE_HUGE (T cr3 i)" if "i < 256" "pte_has PTE_PRESENT (T cr3 i)" for i using ok that by (simp add: fork_space_def T)
  have root: "upper T 3 (pte_addr (T cr3 i)) \<subseteq> ?U" "lowest T 3 (pte_addr (T cr3 i)) \<subseteq> ?L" if "i < 256" "pte_has PTE_PRESENT (T cr3 i)" for i
  proof -
    have "pte_addr (T cr3 i) \<in> user_roots T cr3" using that by (auto simp: user_roots_def)
    then show "upper T 3 (pte_addr (T cr3 i)) \<subseteq> ?U" "lowest T 3 (pte_addr (T cr3 i)) \<subseteq> ?L" by (auto simp: user_upper_def user_lowest_def)
  qed
  consider (full) "allocate (fk_fa m) = Some (None, fk_fa m)" "free_addrs (fk_fa m) = {}"
    | (new) c fa where "allocate (fk_fa m) = Some (Some c, fa)" "c \<in> free_addrs (fk_fa m)" "phys_inv fa" "free_addrs fa = free_addrs (fk_fa m) - {c}"
    using bitmap.alloc_ok [OF inv] by blast
  then show ?thesis
  proof cases
    case full
    have "clone_address_space cr3 m = Some (Inl NoMemory, m)" using full(1) by (simp add: clone_address_space_def)
    then show ?thesis using full(2) by (intro exI conjI) (auto simp: T fork_frames_def)
  next
    case (new c fa)
    define s where "s = copy_kernel_half cr3 c (blank_table c \<lparr>cs_tabs = T, cs_fa = fa, cs_frames = []\<rparr>)"
    obtain r s' where r: "each_entry (clone_root_entry cr3 c) [0..<256] s = Some (r, s')" "copy_step ?L {c} (512 ^ 3 * 256) s s'" "kept_tables ?U ?L T s'"
      "spent (sum_list (map (entry_tables T 3 cr3) [0..<256])) r s s'"
      "\<forall>i. 256 \<le> i \<longrightarrow> i < 512 \<longrightarrow> cs_tabs s' c i = T cr3 i"
      "case r of Inl er \<Rightarrow> er = NoMemory \<and> free_addrs (cs_fa s') = {} | Inr _ \<Rightarrow> \<forall>i < 256. entry_made T 3 cr3 c (free_addrs (cs_fa s) - free_addrs (cs_fa s')) s' i"
      using root_loop [OF ok T new(2-4) s_def] by blast
    have "c \<notin> ?U" using new(2) UL by blast
    then have ne: "cr3 \<noteq> c" using cr3 by blast
    have s0: "cs_fa s = fa" "cs_frames s = []" "\<And>t. t \<noteq> c \<Longrightarrow> cs_tabs s t = T t"
      using copy_kernel_half_eq(1-3) [OF ne] by (simp_all add: s_def)
    have "card (free_addrs (fk_fa m)) = Suc (card (free_addrs (cs_fa s)))"
      using card_Suc_Diff1 [OF finite_free_addrs new(2)] by (simp add: s0(1) new(4))
    then have sp: "case r of Inl _ \<Rightarrow> card (free_addrs (fk_fa m)) < fork_frames T cr3
      | Inr _ \<Rightarrow> card (free_addrs (fk_fa m)) = card (free_addrs (cs_fa s')) + fork_frames T cr3"
      using r(4) by (cases r) (simp_all add: spent_def fork_frames_def del: upt_Suc)
    have fr: "free_addrs (cs_fa s') \<subseteq> free_addrs (fk_fa m) - {c}" using r(2) new(4) s0(1) by (simp add: copy_step_def)
    have frame: "cs_tabs s' t = T t" if "t \<notin> ?L \<union> free_addrs (fk_fa m)" for t
    proof -
      have "t \<noteq> c" using that new(2) by blast
      moreover have "t \<notin> ?L \<union> {c} \<union> (free_addrs (cs_fa s) - free_addrs (cs_fa s'))" using that new(2,4) s0(1) by auto
      ultimately show ?thesis using r(2) s0(3) unfolding copy_step_def by metis
    qed
    have k: "cs_tabs s' cr3 = T cr3" "\<forall>t \<in> ?U. cs_tabs s' t = T t"
      "\<forall>t \<in> ?L. \<forall>i. cs_tabs s' t i = T t i \<or> cs_tabs s' t i = prot (T t i) \<and> pte_addr (T t i) \<in> set (cs_frames s')"
      using r(3) cr3 by (auto simp: kept_tables_def)
    have wr: "pt_walk (cs_tabs s') 4 cr3 (i # js) = (if pte_has PTE_PRESENT (T cr3 i) then pt_walk (cs_tabs s') 3 (pte_addr (T cr3 i)) js else None)"
      "pt_walk T 4 cr3 (i # js) = (if pte_has PTE_PRESENT (T cr3 i) then pt_walk T 3 (pte_addr (T cr3 i)) js else None)" if "i < 256" for i js
      using pt_walk_root [of i "cs_tabs s'" cr3 js] pt_walk_root [of i T cr3 js] nh that k(1) by simp_all
    show ?thesis
    proof (cases r)
      case (Inl er)
      have run: "clone_address_space cr3 m = Some (Inl er, m\<lparr>fk_tabs := cs_tabs s', fk_fa := cs_fa s'\<rparr>)"
        using new(1) r(1) Inl by (simp add: clone_address_space_def s_def T)
      have betw: "pt_walk (cs_tabs s') 4 cr3 (i # js) = pt_walk T 4 cr3 (i # js) \<or> pt_walk (cs_tabs s') 4 cr3 (i # js) = map_option cowed (pt_walk T 4 cr3 (i # js))"
        if "i < 256" for i js
      proof (cases "pte_has PTE_PRESENT (T cr3 i)")
        case True
        have "pt_walk (cs_tabs s') 3 (pte_addr (T cr3 i)) js = pt_walk T 3 (pte_addr (T cr3 i)) js
            \<or> pt_walk (cs_tabs s') 3 (pte_addr (T cr3 i)) js = map_option cowed (pt_walk T 3 (pte_addr (T cr3 i)) js)"
          by (rule pt_walk_between) (use root [OF that True] k(2,3) in blast)+
        then show ?thesis unfolding wr [OF that] using True by simp
      qed (simp add: wr [OF that] del: pt_walk.simps)
      have "user_page (cs_tabs s') cr3 path e \<or> user_page (cs_tabs s') cr3 path (prot e)" if up: "user_page T cr3 path e" for path e
      proof -
        obtain i js where p: "path = i # js" "i < 256" using up by (cases path) (auto simp: user_page_def)
        have w: "pt_walk T 4 cr3 (i # js) = Some (1, e)" using up p(1) by (simp add: user_page_def)
        from betw [OF p(2), of js] have "pt_walk (cs_tabs s') 4 cr3 (i # js) = Some (1, e) \<or> pt_walk (cs_tabs s') 4 cr3 (i # js) = Some (1, prot e)"
          unfolding w by simp
        then show ?thesis using p by (simp add: user_page_def)
      qed
      then show ?thesis using run sp r(6) Inl fr frame by (intro exI conjI) auto
    next
      case (Inr u)
      let ?m = "m\<lparr>fk_tabs := cs_tabs s', fk_fa := cs_fa s', fk_cow := fold increment_ref (cs_frames s') (fk_cow m)\<rparr>"
      have run: "clone_address_space cr3 m = Some (Inr c, ?m)"
        using new(1) r(1) Inr by (simp add: clone_address_space_def s_def T)
      have made: "entry_made T 3 cr3 c (free_addrs (cs_fa s) - free_addrs (cs_fa s')) s' i" if "i < 256" for i using r(6) Inr that by simp
      have four: "Suc 3 = 4" by simp
      have low: "\<forall>t \<in> lowest T 3 (pte_addr (T cr3 i)). \<forall>j < 512. cs_tabs s' t j = prot (T t j)" if "i < 256" "pte_has PTE_PRESENT (T cr3 i)" for i
        using made [OF that(1)] nh [OF that] that(2) by (simp add: entry_made_def)
      have child: "pt_walk (cs_tabs s') 4 c (i # js) = map_option cowed (pt_walk T 4 cr3 (i # js))" if "i < 256" for i js
        using made [OF that] unfolding entry_made_def four by blast
      have parent: "pt_walk (cs_tabs s') 4 cr3 (i # js) = map_option cowed (pt_walk T 4 cr3 (i # js))" if "i < 256" for i js
      proof (cases "pte_has PTE_PRESENT (T cr3 i)")
        case True
        have "pt_walk (cs_tabs s') 3 (pte_addr (T cr3 i)) js = map_option cowed (pt_walk T 3 (pte_addr (T cr3 i)) js)"
          by (rule pt_walk_prot) (use low [OF that True] root [OF that True] k(2) in auto)
        then show ?thesis unfolding wr [OF that] using True by simp
      qed (simp add: wr [OF that] del: pt_walk.simps)
      have "length (cs_frames s') \<le> 512 ^ 3 * 256" using r(2) s0(2) by (simp add: copy_step_def)
      then have len: "2 ^ 63 + length (cs_frames s') \<le> 2 ^ 64 - 1" by simp
      have cow: "cow_inv (fk_cow m)" "\<forall>a. ref_count (fk_cow m) a \<le> 2 ^ 63" using ok by (simp_all add: fork_space_def)
      have many: "1 < ref_count (fk_cow ?m) a" if "a \<in> set (cs_frames s')" for a
        using fold_increment [OF cow _ len] that by simp
      have "is_shared (fk_cow ?m) (pte_addr e)" if up: "user_page T cr3 path e" and cf: "cow_flags e" for path e
      proof -
        obtain i js where p: "path = i # js" "i < 256" using up by (cases path) (auto simp: user_page_def)
        have w: "pt_walk T 4 cr3 (i # js) = Some (1, e)" using up p(1) by (simp add: user_page_def del: pt_walk.simps)
        then have pr: "pte_has PTE_PRESENT (T cr3 i)" "pt_walk T 3 (pte_addr (T cr3 i)) js = Some (1, e)"
          unfolding wr [OF p(2)] by (simp_all split: if_splits)
        then obtain t j where t: "t \<in> lowest T 3 (pte_addr (T cr3 i))" "j < 512" "e = T t j" using pt_walk_lowest by blast
        have "cs_tabs s' t j = prot (T t j)" using low [OF p(2) pr(1)] t by blast
        moreover have "prot (T t j) \<noteq> T t j" using cf t(3) prot_simps(5) [of "T t j"] by metis
        ultimately have "pte_addr e \<in> set (cs_frames s')" using k(3) root(2) [OF p(2) pr(1)] t by (metis subsetD)
        then show ?thesis using many by (simp add: is_shared_def)
      qed
      moreover have "pt_walk (cs_tabs s') 4 c path = map_option cowed (pt_walk T 4 cr3 path) \<and> pt_walk (cs_tabs s') 4 cr3 path = map_option cowed (pt_walk T 4 cr3 path)"
        if "path \<noteq> []" "hd path < 256" for path
        using that child parent by (cases path) (simp_all del: pt_walk.simps)
      ultimately show ?thesis using run sp Inr fr new(2) frame r(5) k(1) by (intro exI conjI) auto
    qed
  qed
qed

end
