(* ===== verification/Fork.thy ===== *)
theory Fork
  imports Scheduler Address_Copy
begin

text \<open>
  The whole fork system call: the bookkeeping of the scheduler (\<open>Process\<close>) together with the copy of the address space
  (\<open>Address_Copy\<close>).
\<close>

text \<open>\<open>fork_current_from_syscall\<close> with the copy in place; the kernel stack \<open>kst\<close> and the address \<open>tf\<close> of the frame on it come from the
  kernel heap.\<close>

definition fork_process :: "nat \<Rightarrow> nat \<Rightarrow> Kern \<Rightarrow> ForkMem \<Rightarrow> (nat KResult \<times> Kern \<times> ForkMem) option" where
  "fork_process kst tf s m =
     (if \<not> p_user (store s (cur s)) then Some (Inl NotSupported, s, m)
      else do {
        (space, m) \<leftarrow> clone_address_space (p_cr3 (store s (cur s))) m;
        (r, s) \<leftarrow> fork_current_from_syscall space kst tf s;
        Some (r, s, m)
      })"

text \<open>C24. A fork by a user task returns, while the queue, the identifiers and the copy-on-write counts are far from their ends and the parent's
page tables are not free frames, none of them at two levels.  It succeeds exactly when there are as many free frames as
the parent has tables below the lower half of its root, and one for the root.  On success the child has the next identifier, is ready, queued,
leads its thread group, has the parent's credentials and handlers and no pending signal; other task records stay.  Its root was free:
walks in its lower half end where they did in the parent, at pages now read-only in both, and counted as shared, if the user could
write them; the upper half is the parent's.  On failure the error is NoMemory, no frame is left, only the next identifier changes in
the scheduler, and each page of the parent is as before or read-only, uncounted.  Tables change only if free before or
of level 1 of the parent.\<close>

theorem fork_makes_child:
  assumes "kern_ok s" and "p_user (store s (cur s))" and "next_pid s < 2 ^ 64 - 1"
    and "load_weight (cfs s) < 2 ^ 63" and "cfs_nr_running (cfs s) < 2 ^ 20"
    and "fork_space cr3 m" and "cr3 = p_cr3 (store s (cur s))" and "T = fk_tabs m"
  shows "\<exists>r s' m'. fork_process kst tf s m = Some (r, s', m')
    \<and> (\<forall>t. t \<notin> user_lowest T cr3 \<union> free_addrs (fk_fa m) \<longrightarrow> fk_tabs m' t = T t)
    \<and> (case r of
        Inl e \<Rightarrow> card (free_addrs (fk_fa m)) < fork_frames T cr3 \<and> e = NoMemory \<and> free_addrs (fk_fa m') = {} \<and> fk_cow m' = fk_cow m
          \<and> s' = s\<lparr>next_pid := next_pid s + 1\<rparr>
          \<and> (\<forall>path e. user_page T cr3 path e \<longrightarrow> user_page (fk_tabs m') cr3 path e \<or> user_page (fk_tabs m') cr3 path (prot e))
      | Inr child \<Rightarrow>
          (let p = store s (cur s); q = store s' child; c = p_cr3 q in
            child = next_pid s \<and> child \<notin> members s \<and> runq s' = runq s @ [child] \<and> cur s' = cur s
            \<and> (\<forall>i. i \<noteq> child \<longrightarrow> store s' i = store s i) \<and> (\<exists>e \<in> set (tasks (cfs s')). entry_id e = child)
            \<and> p_parent q = cur s \<and> p_tgid q = child \<and> p_state q = Ready \<and> p_tf q = tf \<and> p_cred q = p_cred p \<and> p_prio q = p_prio p
            \<and> t_signals (p_sig q) = \<lparr>pending = 0, blocked = blocked (t_signals (p_sig p))\<rparr>
            \<and> t_handlers (p_sig q) = handlers_clone (t_handlers (p_sig p))
            \<and> c \<in> free_addrs (fk_fa m) - free_addrs (fk_fa m') \<and> card (free_addrs (fk_fa m)) = card (free_addrs (fk_fa m')) + fork_frames T cr3
            \<and> (\<forall>path. path \<noteq> [] \<and> hd path < 256 \<longrightarrow> pt_walk (fk_tabs m') 4 c path = map_option cowed (pt_walk T 4 cr3 path)
                 \<and> pt_walk (fk_tabs m') 4 cr3 path = map_option cowed (pt_walk T 4 cr3 path))
            \<and> (\<forall>i. 256 \<le> i \<and> i < 512 \<longrightarrow> fk_tabs m' c i = T cr3 i \<and> fk_tabs m' cr3 i = T cr3 i)
            \<and> (\<forall>path e. user_page T cr3 path e \<and> cow_flags e \<longrightarrow> is_shared (fk_cow m') (pte_addr e))))"
proof -
  obtain space m' where c: "clone_address_space cr3 m = Some (space, m')"
    and frame: "\<forall>t. t \<notin> user_lowest T cr3 \<union> free_addrs (fk_fa m) \<longrightarrow> fk_tabs m' t = T t" and sp: "case space of
        Inl er \<Rightarrow> er = NoMemory \<and> card (free_addrs (fk_fa m)) < fork_frames T cr3 \<and> free_addrs (fk_fa m') = {} \<and> fk_cow m' = fk_cow m
          \<and> (\<forall>path e. user_page T cr3 path e \<longrightarrow> user_page (fk_tabs m') cr3 path e \<or> user_page (fk_tabs m') cr3 path (prot e))
      | Inr c \<Rightarrow> c \<in> free_addrs (fk_fa m) - free_addrs (fk_fa m') \<and> card (free_addrs (fk_fa m)) = card (free_addrs (fk_fa m')) + fork_frames T cr3
          \<and> (\<forall>path. path \<noteq> [] \<and> hd path < 256 \<longrightarrow> pt_walk (fk_tabs m') 4 c path = map_option cowed (pt_walk T 4 cr3 path)
               \<and> pt_walk (fk_tabs m') 4 cr3 path = map_option cowed (pt_walk T 4 cr3 path))
          \<and> (\<forall>i. 256 \<le> i \<and> i < 512 \<longrightarrow> fk_tabs m' c i = T cr3 i \<and> fk_tabs m' cr3 i = T cr3 i)
          \<and> (\<forall>path e. user_page T cr3 path e \<and> cow_flags e \<longrightarrow> is_shared (fk_cow m') (pte_addr e))"
    using address_space_copied [OF assms(6,8)] by blast
  show ?thesis
  proof (cases space)
    case (Inl e)
    have "fork_current_from_syscall (Inl e) kst tf s = Some (Inl e, s\<lparr>next_pid := next_pid s + 1\<rparr>)" using fork_outcome [OF assms(1-5)] by blast
    then have "fork_process kst tf s m = Some (Inl e, s\<lparr>next_pid := next_pid s + 1\<rparr>, m')"
      using c Inl assms(2,7) by (simp add: fork_process_def)
    then show ?thesis using frame sp Inl by (intro exI conjI) auto
  next
    case (Inr a)
    obtain s' where f: "fork_current_from_syscall (Inr a) kst tf s = Some (Inr (next_pid s), s')"
      "runq s' = runq s @ [next_pid s] \<and> cur s' = cur s \<and> (\<forall>i. i \<noteq> next_pid s \<longrightarrow> store s' i = store s i)
        \<and> next_pid s \<notin> members s \<and> (\<exists>e \<in> set (tasks (cfs s')). entry_id e = next_pid s)"
      "let p = store s (cur s); q = store s' (next_pid s) in
        p_parent q = cur s \<and> p_tgid q = next_pid s \<and> p_state q = Ready \<and> p_cr3 q = a \<and> p_tf q = tf \<and> p_cred q = p_cred p \<and> p_prio q = p_prio p
        \<and> t_signals (p_sig q) = \<lparr>pending = 0, blocked = blocked (t_signals (p_sig p))\<rparr>
        \<and> t_handlers (p_sig q) = handlers_clone (t_handlers (p_sig p))"
      using fork_outcome [OF assms(1-5)] by blast
    have "fork_process kst tf s m = Some (Inr (next_pid s), s', m')" using c f(1) Inr assms(2,7) by (simp add: fork_process_def)
    then show ?thesis using frame sp f(2,3) unfolding Inr Let_def sum.case by (intro exI conjI) auto
  qed
qed

subsection \<open>A small fork\<close>

text \<open>Four tables that lead to one page, which the user can write.\<close>

definition demo_tabs :: Tables where
  "demo_tabs t i = (if i = 0 \<and> t \<in> {0x100000, 0x101000, 0x102000, 0x103000} then \<lparr>pte_addr = t + 4096, pte_flags = 7\<rparr> else pte_unused)"

definition demo_fork_mem :: ForkMem where
  "demo_fork_mem = \<lparr>fk_tabs = demo_tabs, fk_fa = all_free 1 0, fk_cow = cow_new\<rparr>"

definition demo_fork :: Kern where
  "demo_fork = upd 2 (\<lambda>p. p\<lparr>p_cr3 := 0x100000\<rparr>) (demo_child\<lparr>cr3_reg := 0x100000\<rparr>)"

lemma demo_pte:
  "pte_has PTE_PRESENT (demo_tabs t i) \<longleftrightarrow> i = 0 \<and> t \<in> {0x100000, 0x101000, 0x102000, 0x103000}"
  "\<not> pte_has PTE_HUGE (demo_tabs t i)" "cow_flags (demo_tabs t i) \<longleftrightarrow> i = 0 \<and> t \<in> {0x100000, 0x101000, 0x102000, 0x103000}"
  "t \<in> {0x100000, 0x101000, 0x102000, 0x103000} \<Longrightarrow> pte_addr (demo_tabs t 0) = t + 4096"
proof -
  have "bit (7 :: u64) 0" "bit (7 :: u64) 1" "bit (7 :: u64) 2" "\<not> bit (7 :: u64) 7" by code_simp+
  then show "pte_has PTE_PRESENT (demo_tabs t i) \<longleftrightarrow> i = 0 \<and> t \<in> {0x100000, 0x101000, 0x102000, 0x103000}"
    "\<not> pte_has PTE_HUGE (demo_tabs t i)" "cow_flags (demo_tabs t i) \<longleftrightarrow> i = 0 \<and> t \<in> {0x100000, 0x101000, 0x102000, 0x103000}"
    "t \<in> {0x100000, 0x101000, 0x102000, 0x103000} \<Longrightarrow> pte_addr (demo_tabs t 0) = t + 4096"
    unfolding cow_flags_def pte_has_bits by (simp_all add: demo_tabs_def pte_unused_def)
qed

lemma demo_next: "next_tables demo_tabs t = (if t \<in> {0x100000, 0x101000, 0x102000, 0x103000} then {t + 4096} else {})"
  using demo_pte(4) by (auto simp: next_tables_def demo_pte(1,2))

lemma sum_first:
  assumes "\<forall>i. 0 < i \<longrightarrow> f i = (0 :: nat)" "0 < k"
  shows "sum_list (map f [0..<k]) = f 0"
  using assms(2)
proof (induction k)
  case (Suc k)
  then show ?case using assms(1) by (cases "k = 0") auto
qed simp

lemma demo_entry_tables:
  "entry_tables demo_tabs l t i = (if l = 0 \<or> i \<noteq> 0 \<or> t \<notin> {0x100000, 0x101000, 0x102000, 0x103000} then 0 else Suc (copied_tables demo_tabs l (t + 4096)))"
  using demo_pte(4) by (auto simp: entry_tables_def demo_pte(1,2))

lemma demo_below: "copied_tables demo_tabs (Suc l) t = entry_tables demo_tabs l t 0"
  unfolding copied_tables_Suc by (rule sum_first) (simp_all add: demo_entry_tables)

lemma demo_frames: "fork_frames demo_tabs 0x100000 = 4"
proof -
  have "sum_list (map (entry_tables demo_tabs 3 0x100000) [0..<256]) = entry_tables demo_tabs 3 0x100000 0"
    by (rule sum_first) (simp_all add: demo_entry_tables)
  then show ?thesis by (simp add: fork_frames_def demo_entry_tables demo_below numeral_3_eq_3 del: upt_Suc copied_tables.simps)
qed

lemma demo_levels:
  "user_upper demo_tabs 0x100000 = {0x100000, 0x101000, 0x102000}" "user_lowest demo_tabs 0x100000 = {0x103000}"
proof -
  have "user_roots demo_tabs 0x100000 = {0x101000}" using demo_pte(4) by (auto simp: user_roots_def demo_pte(1))
  then show "user_upper demo_tabs 0x100000 = {0x100000, 0x101000, 0x102000}" "user_lowest demo_tabs 0x100000 = {0x103000}"
    by (simp_all add: user_upper_def user_lowest_def numeral_3_eq_3 demo_next)
qed

lemma demo_free: "free_addrs (all_free 1 0) = (\<lambda>i. i * 4096) ` {..<64}" "card (free_addrs (all_free 1 0)) = 64"
proof -
  show "free_addrs (all_free 1 0) = (\<lambda>i. i * 4096) ` {..<64}" by (simp add: free_addrs_def free_set_all_free)
  then show "card (free_addrs (all_free 1 0)) = 64" by (simp add: card_image inj_on_def)
qed

theorem fork_makes_child_witness:
  "\<exists>s' m'. fork_process 60 70 demo_fork demo_fork_mem = Some (Inr 10, s', m') \<and> p_parent (store s' 10) = 2 \<and> is_shared (fk_cow m') 0x104000"
proof -
  have k: "kern_ok demo_fork" "p_user (store demo_fork (cur demo_fork))" "next_pid demo_fork < 2 ^ 64 - 1" "load_weight (cfs demo_fork) < 2 ^ 63"
    "cfs_nr_running (cfs demo_fork) < 2 ^ 20" "next_pid demo_fork = 10" "cur demo_fork = 2" "p_cr3 (store demo_fork 2) = 0x100000"
    by (simp_all add: demo_fork_def demo_child_def demo_defs cfs_new_def kern_ok_def members_def proc_state_def)
  have fs: "fork_space 0x100000 demo_fork_mem"
    unfolding fork_space_def
  proof (intro conjI)
    show "phys_inv (fk_fa demo_fork_mem)" "cow_inv (fk_cow demo_fork_mem)" "\<forall>a. ref_count (fk_cow demo_fork_mem) a \<le> 2 ^ 63"
      by (simp_all add: demo_fork_mem_def phys_inv_all_free cow_inv_def cow_new_def ref_count_def)
    show "(user_upper (fk_tabs demo_fork_mem) 0x100000 \<union> user_lowest (fk_tabs demo_fork_mem) 0x100000) \<inter> free_addrs (fk_fa demo_fork_mem) = {}"
      "user_upper (fk_tabs demo_fork_mem) 0x100000 \<inter> user_lowest (fk_tabs demo_fork_mem) 0x100000 = {}"
      by (auto simp: demo_fork_mem_def demo_levels demo_free(1) simp del: One_nat_def)
    show "\<forall>i < 256. pte_has PTE_PRESENT (fk_tabs demo_fork_mem 0x100000 i) \<longrightarrow> \<not> pte_has PTE_HUGE (fk_tabs demo_fork_mem 0x100000 i)"
      by (simp add: demo_fork_mem_def demo_pte)
  qed
  have four: "(4 :: nat) = Suc (Suc (Suc (Suc 0)))" by simp
  have up: "user_page demo_tabs 0x100000 [0, 0, 0, 0] (demo_tabs 0x103000 0)" "cow_flags (demo_tabs 0x103000 0)" "pte_addr (demo_tabs 0x103000 0) = 0x104000"
    unfolding user_page_def four by (simp_all add: pt_walk_Cons demo_pte del: pt_walk.simps)
  have tabs: "fk_tabs demo_fork_mem = demo_tabs" "card (free_addrs (fk_fa demo_fork_mem)) = 64" by (simp_all add: demo_fork_mem_def demo_free(2) del: One_nat_def)
  have "\<exists>r s' m'. fork_process 60 70 demo_fork demo_fork_mem = Some (r, s', m') \<and> (case r of
        Inl e \<Rightarrow> card (free_addrs (fk_fa demo_fork_mem)) < fork_frames demo_tabs 0x100000
      | Inr child \<Rightarrow> child = 10 \<and> p_parent (store s' child) = 2
          \<and> (\<forall>path e. user_page demo_tabs 0x100000 path e \<and> cow_flags e \<longrightarrow> is_shared (fk_cow m') (pte_addr e)))"
    using fork_makes_child [OF k(1-5) fs k(8) [folded k(7), symmetric] refl, of 60 70, unfolded k(6,7) tabs(1) Let_def]
  proof (elim exE conjE, goal_cases)
    case (1 r s' m')
    then show ?case by (intro exI [of _ r] exI [of _ s'] exI [of _ m']) (cases r; simp del: pt_walk.simps; blast)
  qed
  then obtain r s' m' where f: "fork_process 60 70 demo_fork demo_fork_mem = Some (r, s', m')" and out: "case r of
        Inl e \<Rightarrow> card (free_addrs (fk_fa demo_fork_mem)) < fork_frames demo_tabs 0x100000
      | Inr child \<Rightarrow> child = 10 \<and> p_parent (store s' child) = 2
          \<and> (\<forall>path e. user_page demo_tabs 0x100000 path e \<and> cow_flags e \<longrightarrow> is_shared (fk_cow m') (pte_addr e))"
    by blast
  show ?thesis
  proof (cases r)
    case (Inl e)
    then show ?thesis using out unfolding tabs(2) demo_frames by simp
  next
    case (Inr child)
    then have "child = 10" "p_parent (store s' 10) = 2" "is_shared (fk_cow m') (pte_addr (demo_tabs 0x103000 0))" using out up(1,2) by auto
    then show ?thesis using f unfolding Inr up(3) by blast
  qed
qed

end
