(* ===== verification/Spec2Isabelle.thy ===== *)
theory Spec2Isabelle
  imports Prelude Phys Rt Cfs Syscall Pipe Msg Eventfd Cow Vma Address_Space Signal Cred Tmpfs Vfs File_System
    Xattr Acl Process Scheduler Descriptors Open_Files Futex Shm Shared_Memory
    Elf Program_Image First_Stack Address_Copy Fork
begin

text \<open>
  A verification library for the core of the Stenzel kernel (\<^verbatim>\<open>stenzel-os-x86-ultra/kernel/src\<close>), a
  Unix-like kernel in Rust.  File names below are relative to that directory.

  \<^bold>\<open>The parts of the program.\<close>  Physical memory is handed out by a bitmap allocator (\<^verbatim>\<open>mm/phys.rs\<close>); areas
  of virtual memory take their frames from it on page faults and give them back when they are unmapped
  (\<^verbatim>\<open>mm/vma.rs\<close>), and frames shared by fork are counted in a copy-on-write table (\<^verbatim>\<open>mm/cow.rs\<close>); shared
  memory (\<^verbatim>\<open>ipc/shm.rs\<close>) holds frames of its own and maps them into such areas.  Tasks wait in
  a fair queue (\<^verbatim>\<open>sched/cfs.rs\<close>) and in real-time queues (\<^verbatim>\<open>sched/rt.rs\<close>).  Programs enter the kernel by
  system calls (\<^verbatim>\<open>syscall/mod.rs\<close>), exchange bytes through pipes, messages through queues (\<^verbatim>\<open>ipc/msg.rs\<close>) and
  counts through event descriptors (\<^verbatim>\<open>ipc/eventfd.rs\<close>), and receive signals (\<^verbatim>\<open>signal.rs\<close>) on their way back to
  user mode.  Credentials (\<^verbatim>\<open>security/mod.rs\<close>) decide what a process may do, for files by
  \<^verbatim>\<open>fs/perm.rs\<close>.  The virtual file system (\<^verbatim>\<open>fs/vfs.rs\<close>) walks along paths and mount points, asking for these
  permissions, and calls the inodes of the file systems, of which the one in memory (\<^verbatim>\<open>fs/tmpfs.rs\<close>) is modelled.
  Inodes carry extended attributes (\<^verbatim>\<open>fs/xattr.rs\<close>), and access control lists are kept in them (\<^verbatim>\<open>fs/acl.rs\<close>).  The
  scheduler (\<^verbatim>\<open>sched/mod.rs\<close>) holds the tasks together: the timer tick charges the current task in the fair queue, puts it
  back, takes the next one and handles its pending signals; exit, wait, fork, clone and exec make and end tasks.
  The descriptor table joins the parts: a descriptor is the console, a file or directory with its inode, an end of a pipe,
  an event counter or a socket, and the calls read, write, open and close go to the component behind it.  Tasks that wait
  for a memory word sleep in the table of futexes.  The loader (\<^verbatim>\<open>process/elf.rs\<close>) puts the image of a program and its
  first stack into a new address space.

  \<^bold>\<open>Conventions.\<close>  The kernel is built with the \<open>dev\<close> profile, in which arithmetic overflow panics.  A
  function that can panic returns an \<open>option\<close> whose \<open>None\<close> is the panic; a loop that may run forever is a
  \<open>partial_function (option)\<close>, whose \<open>None\<close> is also not returning, and its termination is a theorem where it
  holds.  A Rust \<open>Option\<close> is a second \<open>option\<close>, a \<open>KResult\<close> a sum with the error on the left.  \<open>u64\<close> and
  \<open>usize\<close> values that are counted or compared are natural numbers with the overflow checks written out, values whose
  bits matter are words.  Locks are taken for the whole of an operation, so an operation is one step; the lock-free
  counter of \<^verbatim>\<open>ipc/eventfd.rs\<close> is split at its loads and exchanges.

  \<^bold>\<open>The theories.\<close>
    \<^item> \<open>Prelude\<close>: checked arithmetic, slices, loops, bit scans, page alignment, bytes of integers.
    \<^item> \<open>Phys\<close>: the boot allocator and the bitmap allocator, with single, contiguous and huge frames.  The abstract
      allocator is the set of free frames; the locale \<open>frame_allocator\<close> is the contract that clients use, interpreted
      on \<open>allocate\<close> and \<open>deallocate\<close>.  No frame is shared or lost, allocation is complete, contiguous and huge
      allocation find the first window, and the contiguous search misses windows before its cursor.
    \<^item> \<open>Rt\<close> and \<open>Cfs\<close>: the run queues.  The real-time bitmap and counters agree with the queues in every reachable
      state, the highest priority is served in order of arrival, a time slice ends, and the recomputation of the highest
      priority is off by one.  The fair queue (locale \<open>fair_queue\<close>) always yields a least virtual runtime, the clock is
      monotone, slices are bounded.
    \<^item> \<open>Syscall\<close>: user addresses, error numbers and user memory.
    \<^item> \<open>Pipe\<close>: the ring buffer refines a list of bytes (locale \<open>byte_fifo\<close>); what is read is a prefix of what was
      written, whatever the interleaving.
    \<^item> \<open>Msg\<close>: System V queues: accounting in every reachable table, a round trip of a message through user memory,
      access control, and the accounting error of \<open>E2BIG\<close>.
    \<^item> \<open>Eventfd\<close>: the counter under interleaved threads (locale \<open>cas_object\<close>): nothing is lost or invented.
    \<^item> \<open>Cow\<close>: reference counts (locale \<open>ref_counter\<close>) and the copying fault handler.
    \<^item> \<open>Vma\<close>: the whole of \<^verbatim>\<open>mm/vma.rs\<close>, with the page tables of the \<open>x86_64\<close> crate as a parameter \<open>Mapper\<close>; the
      representation invariant, \<open>munmap\<close> as the removal of a range, the search for a free region.
    \<^item> \<open>Address_Space\<close>: the abstract address space (\<open>page_at\<close>): sequences of \<open>munmap\<close> and fixed \<open>mmap\<close> refine updates of
      a map (locale \<open>range_map\<close>), \<open>mmap\<close> terminates with the first fit, page faults fill one page with a zeroed free
      frame, and in every reachable state no frame belongs to two pages or is also free.
    \<^item> \<open>Signal\<close>: masks, handlers, frames, system calls and delivery.  SIGKILL and SIGSTOP cannot be masked, a frame
      can be read back; the delivery loop hangs on default
      actions, \<open>rt_sigreturn\<close> misreads the frame, and the signal mask can be written to kernel memory.
    \<^item> \<open>Cred\<close>: identity changes confine an unprivileged process, permission checks are the usual octal ones, and
      \<open>setreuid\<close> keeps a saved root identity.
    \<^item> \<open>Tmpfs\<close>: the inodes of the memory file system in a heap, with their lifetimes (\<open>collect\<close> is the cascade of drops).
      Writing and reading bytes is the contract \<open>byte_store\<close>, interpreted on the operations of an inode.
    \<^item> \<open>Vfs\<close>: \<^verbatim>\<open>fs/vfs.rs\<close>: splitting of paths, mount points, resolution and the operations on paths; facts on walks.
    \<^item> \<open>File_System\<close>: the outcomes of the operations, the reachable file systems (\<open>fs_reach\<close>) and their invariant.  A file
      reads back what was written, a rename moves one entry and nothing else, a directory that may not be searched hides
      what is behind it, the sticky bit protects entries, no operation panics; a rename to the same path loses the file,
      and one into the directory itself loses the directory.
    \<^item> \<open>Xattr\<close>: the storage of attributes refines a map (\<open>spec_op\<close>), the trusted, security and system namespaces are
      closed to ordinary users, and \<open>listxattr\<close> fills the buffer with exactly the visible names.
    \<^item> \<open>Acl\<close>: access control lists.  Every list that the operations build is well formed, the binary form reads back, the
      check agrees with the octal one up to the unused slots of the group array, a grant gives exactly what it says, and
      a revoked list stays.
    \<^item> \<open>Process\<close>: the whole scheduler state (\<open>Kern\<close>, with the tasks \<open>Proc\<close> in a store since the code shares them by
      reference) and its operations; one round of a wait is one operation, so that other tasks run in between.  Frame
      lemmas, the invariant \<open>kern_ok\<close>, the step relation \<open>sched_step\<close> and the states \<open>boot_reach\<close>
      between the creation of the scheduler and the start of init, and the reachable states \<open>sched_reach\<close>.
    \<^item> \<open>Scheduler\<close>: the theorems about it.  The invariant holds after every run, a tick returns and resumes the interrupted
      task or a ready one with its own registers, a switch acts on the lowest pending signal that it does
      not pass over (\<open>loop_result\<close>); a task that exits outside the queue is never reaped, a waiting one is lost, and the exit of a thread group can halt the machine with a task ready.
    \<^item> \<open>Address_Copy\<close>: the page tables and their copy by fork (\<open>clone_address_space\<close> of \<^verbatim>\<open>sched/mod.rs\<close>).  Page tables are
      abstracted to walks (\<open>pt_walk\<close>); a walk of the copy ends where that of the parent does, at an entry that is read-only if the user could
      write the page (\<open>cowed\<close>), and the frames taken are counted exactly (\<open>fork_frames\<close>).
    \<^item> \<open>Fork\<close>: the whole system call, \<open>fork_process\<close>: it adds a child, changes no other task, and copies the address space or
      reports that the memory is exhausted.
    \<^item> \<open>Descriptors\<close>: the descriptor table and the calls on it (\<open>sys_read\<close>, \<open>sys_write\<close>, \<open>sys_open\<close>, \<open>sys_close\<close>,
      \<open>sys_pipe\<close>, \<open>sys_dup\<close>, \<open>sys_dup2\<close>, \<open>sys_fcntl\<close>, \<open>sys_lseek\<close>, \<open>sys_truncate\<close>, \<open>sys_ftruncate\<close>, \<open>sys_eventfd\<close>), over the
      pipes, the event counters and the file system of the theories above, which they share with every other call.
    \<^item> \<open>Open_Files\<close>: the theorems about it.  In every reachable state the counts of a pipe are the numbers of its open ends
      and every open inode is alive; what is written through a descriptor is read back; a descriptor opened for reading can
      write, and the number of a duplicate is given out again.
    \<^item> \<open>Futex\<close>: the table of futexes, with runs of waits, refused waits, turns, wakes and requeues.  A wake takes
      exactly the oldest matching entries, which are those of sleeping tasks until an entry is left behind; a refused wait leaves an entry that takes the wake of another task, and a requeue wakes all that it moves.
    \<^item> \<open>Shm\<close>: shared memory, the manager of segments over the memory state of \<open>Vma\<close>.
    \<^item> \<open>Shared_Memory\<close>: the set of frames that the address space deals with never grows (\<open>pool_kept\<close>), so that in every state
      that calls on shared memory, mappings and faults can reach (\<open>shm_reach\<close>) the frames of a segment are its own; all
      attachments see the same frames; creation and removal cancel out; a removal waits for the last detachment.
    \<^item> \<open>Elf\<close>: the loader, over the memory state of \<open>Vma\<close>: headers, segments, the first stack, and their composition.
    \<^item> \<open>Program_Image\<close> and \<open>First_Stack\<close>: what a program sees of them through its page tables (\<open>user_byte\<close>).  A loading
      step is a change of bytes on the pages that are given to the program (\<open>loads\<close>, \<open>writes\<close>); the segments of an image show as
      its headers say, the stack holds the arguments, the environment and the auxiliary vector, and both hold when the program
      starts, for an image whose segments do not overlap and lie inside the file; the strings are in the order of the code, which is not that of
      the layout comment in \<^verbatim>\<open>process/elf.rs\<close>; a page that is mapped already is overwritten, and the stack pointer is misaligned for half of the argument lists.
    \<^item> This theory: properties that span components (unmapping and sharing).

  \<^bold>\<open>Parameters and bounds.\<close>  The page tables are the record \<open>Mapper\<close>; the theorems that need it assume \<open>mapper_ok\<close>, that
  mapping a page only takes frames from the allocator it is given.  Reachable address spaces keep requests of \<open>mmap\<close>
  below \<open>2 ^ 61\<close>, far above the 47 bits of a user address, so that no sum of addresses overflows.  The
  sockets behind descriptors are the record \<open>NetOps\<close>; no theorem assumes anything about them.  Where
  a theorem speaks of the contents of the page tables it also assumes \<open>mapper_maps\<close>: a mapping that succeeds is seen by a
  look-up and changes nothing else; the loader also uses a translation of addresses, which \<open>tables_ok\<close> ties to the same
  look-up, and \<open>canonical_ok\<close> says that the addresses of the lower half pass the check of \<open>VirtAddr::new\<close>.  The strings of a
  first stack are bounded by \<open>stack_fits\<close>: with the words they fit into the two megabytes of the stack.  Physical addresses are
  taken to lie below \<open>2 ^ 52\<close>, the limit at which \<open>PhysAddr::new\<close> panics, and the number of frames that a contiguous
  allocation asks for to be small enough that the sum in its search (\<open>scan_contiguous\<close>) does not overflow.  User memory is a total
  function: a buffer that passes the address checks is mapped, so page faults on user buffers do not occur in the calls that
  copy, and the kernel heap never runs out.  The address space of a new program starts as the argument \<open>create\<close>
  says.  A fork assumes \<open>fork_space\<close>: the tables of the parent are not free frames, none is used at level 1 and above it, and the counts of
  the copy-on-write table are below \<open>2 ^ 63\<close>.  The reachable file systems (\<open>fs_reach\<close>) mount
  fresh memory file systems; the boot also mounts \<open>procfs\<close>, \<open>devfs\<close> and \<open>sysfs\<close>, which are not modelled.  The reachable states of the
  futexes (\<open>futex_reach\<close>) include refused waits and requeues.  No definition uses fuel.

  \<^bold>\<open>Not modelled.\<close>  The assembly of a context switch, interrupt entry and boot are raw registers: the model has the page
  table, the kernel stack, the GS base and the frame that a switch loads.  Of a task, the fields \<open>process_caps\<close>, \<open>seccomp\<close>, \<open>rlimits\<close> and
  \<open>rt_entity\<close> are left out of \<open>Proc\<close>: the modelled functions only copy them or give them their initial values.  The
  tables of a new address space, the outcome of exec's loader in \<open>Process\<close> and the kernel heap are arguments of the operations
  that use them.  Drivers, the
  graphical interface, installers and guest agents are input and output; cryptography and the network stack are outside
  the core chosen here; page tables and the kernel heap are third-party crates.  Of \<^verbatim>\<open>signal.rs\<close>, the signalfd objects,
  which nothing calls, and of \<^verbatim>\<open>syscall/mod.rs\<close> the blocking wait of \<open>rt_sigsuspend\<close> and
  the calls poll, select, stat, getdents and ioctl are left out.  The calls of
  \<^verbatim>\<open>fs/xattr.rs\<close> on descriptors, which only return an error, and the text forms of attributes and lists are left out.

  \<^bold>\<open>Plan.\<close>  Not yet covered and within reach of the same methods: the page and inode caches, capabilities and seccomp
  filters on top of the credentials, control groups, swap.
\<close>

subsection \<open>Shared frames and unmapping\<close>

text \<open>Unmapping a page frees its frame even when the copy-on-write table says that the frame is shared: after
  \<open>munmap\<close> of one page the frame is free in the allocator, so that it can be handed out again, while the table still
  counts several owners.\<close>

theorem munmap_frees_shared_frame:
  assumes "mm_inv mp s" and "paged a" and "page_at (ms_vm s) a = Some (pr, fl, Some f, c)" and "is_shared (ms_cow s) f"
    and "a + 4096 \<le> U64_MAX"
  shows "\<exists>s'. munmap mp a 4096 s = Some (Inr (), s') \<and> f \<in> free_addrs (ms_fa s') \<and> is_shared (ms_cow s') f"
proof -
  have "align_up 4096 = Some 4096" by (simp add: align_up_def add64_def U64_MAX_def align_down_def PAGE_SIZE_def)
  moreover have "a mod 4096 = 0" using assms(2) by (simp add: paged_def)
  ultimately obtain s' where s': "munmap mp a 4096 s = Some (Inr (), s')" "same_rest s s'"
    "free_addrs (ms_fa s') = free_addrs (ms_fa s) \<union> range_frames (ms_vm s) a (a + 4096)"
    using munmap_ok [OF assms(1), of a 4096 4096] assms(5) by auto
  have "f \<in> range_frames (ms_vm s) a (a + 4096)"
    unfolding range_frames_def using assms(2,3) by (auto intro!: exI [of _ a])
  then show ?thesis using s' assms(4) by (auto simp: same_rest_def)
qed

theorem munmap_frees_shared_frame_witness:
  "\<exists>s f s'. page_at (ms_vm s) MMAP_BASE = Some (demo_rw, demo_flags, Some f, False) \<and> is_shared (ms_cow s) f
     \<and> munmap demo_mapper MMAP_BASE 4096 s = Some (Inr (), s') \<and> f \<in> free_addrs (ms_fa s') \<and> is_shared (ms_cow s') f"
proof -
  obtain t f where t: "mm_reach demo_mapper t" "page_at (ms_vm t) MMAP_BASE = Some (demo_rw, demo_flags, Some f, False)"
    by (rule demo_filled)
  let ?s = "t\<lparr>ms_cow := \<lparr>cow_frames = [(f, 2)]\<rparr>\<rparr>"
  have inv: "mm_inv demo_mapper t" using mm_reach_inv [OF t(1) demo_mapper_ok] by (simp add: aspace_inv_def)
  then have "mm_inv demo_mapper ?s" using mm_inv_cong [of demo_mapper t ?s] by (simp add: mm_inv_def)
  moreover have "paged MMAP_BASE" "MMAP_BASE + 4096 \<le> U64_MAX" by (simp_all add: paged_def MMAP_BASE_def U64_MAX_def)
  moreover have "is_shared (ms_cow ?s) f" by (simp add: is_shared_def ref_count_def)
  ultimately obtain s' where "munmap demo_mapper MMAP_BASE 4096 ?s = Some (Inr (), s')" "f \<in> free_addrs (ms_fa s')" "is_shared (ms_cow s') f"
    using munmap_frees_shared_frame [of demo_mapper ?s MMAP_BASE demo_rw demo_flags f False] t(2) by auto
  then show ?thesis
    using t(2) \<open>is_shared (ms_cow ?s) f\<close> by (intro exI [of _ ?s] exI [of _ f] exI [of _ s']) simp
qed

end
